(* ===== verification/Prelude.thy ===== *)
theory Prelude
  imports Main "HOL-Library.Word" "HOL-Library.Monad_Syntax" "HOL-Library.Sublist"
begin

text \<open>
  Shared vocabulary of the development.

  A C operation that can stop the program (a failing \<open>ASSERT\<close>, a null dereference, a
  \<open>memcpy\<close> outside its buffer, a division by zero) returns an \<open>option\<close>: \<open>None\<close> is the stop,
  \<open>Some\<close> the value and the new state. Return codes of the code are values of enumeration
  datatypes. Buffers are lists of elements, addressed by \<open>int\<close> offsets; \<open>memcpy\<close> is the only
  way to write several cells and checks both ranges. C integers of 32 bits are either
  \<open>32 word\<close> (where bits or free running counters matter) or \<open>int\<close> with the conversions
  \<open>to_u32\<close> and \<open>to_s32\<close> written at the places where the code converts.
\<close>

section \<open>Types and automation\<close>

type_synonym byte = "8 word"
type_synonym u32 = "32 word"

named_theorems wrap_simps \<open>32-bit conversions that are the identity in range\<close>
named_theorems mem_simps \<open>reads and writes of buffers\<close>
named_theorems ring_simps \<open>contents of ring buffers\<close>

section \<open>32-bit conversions\<close>

definition to_u32 :: "int \<Rightarrow> int" where
  "to_u32 x = x mod 4294967296"

definition to_s32 :: "int \<Rightarrow> int" where
  "to_s32 x = (x + 2147483648) mod 4294967296 - 2147483648"

lemma to_u32_id [wrap_simps]: "0 \<le> x \<Longrightarrow> x < 4294967296 \<Longrightarrow> to_u32 x = x"
  by (simp add: to_u32_def)

lemma to_s32_id [wrap_simps]: "-2147483648 \<le> x \<Longrightarrow> x < 2147483648 \<Longrightarrow> to_s32 x = x"
  by (simp add: to_s32_def)

lemma to_s32_u32 [simp]: "to_s32 (to_u32 x) = to_s32 x"
  by (simp add: to_s32_def to_u32_def mod_simps)

lemma to_u32_bounds: "0 \<le> to_u32 x" "to_u32 x < 4294967296"
  by (simp_all add: to_u32_def)

lemma unat_2p_u32: "k < 32 \<Longrightarrow> unat (2 ^ k :: u32) = 2 ^ k"
proof -
  assume k: "k < 32"
  then have "(2::nat) ^ k < 2 ^ 32" by (rule power_strict_increasing) simp
  moreover have "unat (2 ^ k :: u32) = unat (of_nat (2 ^ k) :: u32)" by simp
  ultimately show ?thesis by (simp only: unat_of_nat) simp
qed

text \<open>Unsigned 32-bit addition and subtraction on \<open>nat\<close>.\<close>

definition add32 :: "nat \<Rightarrow> nat \<Rightarrow> nat" where
  "add32 a b = (a + b) mod 4294967296"

definition sub32 :: "nat \<Rightarrow> nat \<Rightarrow> nat" where
  "sub32 a b = (a + 4294967296 - b mod 4294967296) mod 4294967296"

lemma add32_id [wrap_simps]: "a + b < 4294967296 \<Longrightarrow> add32 a b = a + b"
  by (simp add: add32_def)

lemma sub32_id [wrap_simps]: "b \<le> a \<Longrightarrow> a < 4294967296 \<Longrightarrow> sub32 a b = a - b"
proof -
  assume *: "b \<le> a" "a < 4294967296"
  then have "a + 4294967296 - b mod 4294967296 = (a - b) + 4294967296" by simp
  with * show ?thesis by (simp only: sub32_def mod_add_self2) simp
qed

lemma sub32_self: "sub32 a a = 0"
proof -
  have "a + 4294967296 - a mod 4294967296 = 4294967296 * (a div 4294967296) + 4294967296"
    using mult_div_mod_eq [of 4294967296 a] by linarith
  then show ?thesis by (simp only: sub32_def) simp
qed

lemma add32_lt [simp]: "add32 a b < 4294967296" and sub32_lt [simp]: "sub32 a b < 4294967296"
  by (simp_all add: add32_def sub32_def)

section \<open>Buffers\<close>

definition blit :: "'a list \<Rightarrow> nat \<Rightarrow> 'a list \<Rightarrow> 'a list" where
  "blit xs i ys = take i xs @ ys @ drop (i + length ys) xs"

text \<open>\<open>memcpy dst d src s n\<close>: copy \<open>n\<close> cells from \<open>src + s\<close> to \<open>dst + d\<close>.\<close>

definition memcpy :: "'a list \<Rightarrow> int \<Rightarrow> 'a list \<Rightarrow> int \<Rightarrow> int \<Rightarrow> 'a list option" where
  "memcpy dst d src s n =
     (if 0 \<le> d \<and> 0 \<le> s \<and> 0 \<le> n \<and> d + n \<le> int (length dst) \<and> s + n \<le> int (length src)
      then Some (blit dst (nat d) (take (nat n) (drop (nat s) src))) else None)"

definition mem_get :: "'a list \<Rightarrow> int \<Rightarrow> 'a option" where
  "mem_get b i = (if 0 \<le> i \<and> i < int (length b) then Some (b ! nat i) else None)"

definition mem_set :: "'a list \<Rightarrow> int \<Rightarrow> 'a \<Rightarrow> 'a list option" where
  "mem_set b i x = (if 0 \<le> i \<and> i < int (length b) then Some (b[nat i := x]) else None)"

lemma all_less_iff: "(\<forall>i<n. P i) \<longleftrightarrow> list_all P [0..<n::nat]"
  by (auto simp: list_all_iff)

lemma nth_update: "xs[i := y] ! j = (if i = j \<and> i < length xs then y else xs ! j)"
  by (cases "i < length xs"; cases "i = j") (simp_all add: list_update_beyond)

lemma length_blit [simp]: "i + length ys \<le> length xs \<Longrightarrow> length (blit xs i ys) = length xs"
  by (simp add: blit_def)

lemma nth_blit:
  "i + length ys \<le> length xs \<Longrightarrow> j < length xs \<Longrightarrow>
   blit xs i ys ! j = (if i \<le> j \<and> j < i + length ys then ys ! (j - i) else xs ! j)"
  by (auto simp: blit_def nth_append min_def)

lemma blit_Nil [simp]: "blit xs i [] = xs"
  by (simp add: blit_def)

lemma memcpy_nat [mem_simps]:
  "memcpy dst (int d) src (int s) (int n) =
     (if d + n \<le> length dst \<and> s + n \<le> length src
      then Some (blit dst d (take n (drop s src))) else None)"
  by (auto simp: memcpy_def)

lemma nat_int_diff [simp]: "nat (int a - int b) = a - b"
  by (cases "b \<le> a") auto

lemma memcpy_0 [mem_simps]:
  "memcpy dst (int d) src 0 (int n) =
     (if d + n \<le> length dst \<and> n \<le> length src then Some (blit dst d (take n src)) else None)"
  "memcpy dst 0 src (int s) (int n) =
     (if n \<le> length dst \<and> s + n \<le> length src
      then Some (blit dst 0 (take n (drop s src))) else None)"
  by (auto simp: memcpy_def)

lemma memcpy_SomeD:
  "memcpy dst d src s n = Some b \<Longrightarrow> length b = length dst"
  by (auto simp: memcpy_def split: if_splits)

lemma mem_set_nat [mem_simps]:
  "mem_set b (int i) x = (if i < length b then Some (b[i := x]) else None)"
  by (simp add: mem_set_def)

lemma mem_get_nat [mem_simps]:
  "mem_get b (int i) = (if i < length b then Some (b ! i) else None)"
  by (simp add: mem_get_def)

section \<open>Rings\<close>

text \<open>
  The contents of a ring buffer \<open>b\<close> from position \<open>r\<close> on, and the two ways the code moves
  data in and out of it: one copy up to the end of the buffer and one from its start.
\<close>

definition ring_slice :: "'a list \<Rightarrow> nat \<Rightarrow> nat \<Rightarrow> 'a list" where
  "ring_slice b r n = map (\<lambda>i. b ! ((r + i) mod length b)) [0..<n]"

definition ring_write :: "'a list \<Rightarrow> nat \<Rightarrow> 'a list \<Rightarrow> 'a list" where
  "ring_write b w d =
     (let k = length b - w in
      if length d < k then blit b w d else blit (blit b w (take k d)) 0 (drop k d))"

definition ring_read :: "'a list \<Rightarrow> nat \<Rightarrow> nat \<Rightarrow> 'a list" where
  "ring_read b r n =
     (let k = length b - r in
      if n < k then take n (drop r b) else drop r b @ take (n - k) b)"

lemma length_ring_slice [simp]: "length (ring_slice b r n) = n"
  by (simp add: ring_slice_def)

lemma nth_ring_slice [simp]: "i < n \<Longrightarrow> ring_slice b r n ! i = b ! ((r + i) mod length b)"
  by (simp add: ring_slice_def)

lemma ring_slice_0 [simp]: "ring_slice b r 0 = []"
  by (simp add: ring_slice_def)

lemma ring_slice_mod [simp]: "ring_slice b (r mod length b) n = ring_slice b r n"
  by (rule nth_equalityI) (simp_all add: mod_simps)

lemma ring_slice_append:
  "ring_slice b r (k + m) = ring_slice b r k @ ring_slice b (r + k) m"
  by (rule nth_equalityI) (auto simp: nth_append add.assoc)

lemma ring_slice_Suc: "ring_slice b r (Suc n) = b ! (r mod length b) # ring_slice b (Suc r) n"
  using ring_slice_append [of b r 1 n] by (simp add: ring_slice_def)

lemma ring_slice_cong:
  assumes "length b = length c"
    and "\<And>i. i < n \<Longrightarrow> b ! ((r + i) mod length b) = c ! ((r + i) mod length b)"
  shows "ring_slice b r n = ring_slice c r n"
  using assms by (auto simp: ring_slice_def)

lemma length_ring_write [simp]:
  "w < length b \<Longrightarrow> length d \<le> length b \<Longrightarrow> length (ring_write b w d) = length b"
  by (simp add: ring_write_def Let_def)

lemma ring_pos:
  fixes N :: nat
  assumes "r < N" "i < N"
  shows "(r + i) mod N = (if r + i < N then r + i else r + i - N)"
  using assms by (auto simp: mod_if)

text \<open>Cell \<open>j\<close> of the ring lies \<open>(j + N - w) mod N\<close> cells after position \<open>w\<close>.\<close>

lemma ring_offset:
  fixes N :: nat
  assumes "w < N" "j < N"
  shows "(j + N - w) mod N = (if w \<le> j then j - w else j + N - w)"
  using assms by (auto simp: mod_if)

lemma nth_ring_write:
  assumes "w < length b" "length d \<le> length b" "j < length b"
  shows "ring_write b w d ! j =
    (let i = (j + length b - w) mod length b in if i < length d then d ! i else b ! j)"
  using assms by (auto simp: ring_write_def Let_def nth_blit ring_offset min_def add.commute)

lemma ring_offset_add:
  fixes N :: nat
  assumes "w < N" "i < N"
  shows "((w + i) mod N + N - w) mod N = i"
  using assms by (auto simp: mod_if)

lemma nth_ring_write_offset:
  assumes "w < length b" "length d \<le> length b" "i < length b"
  shows "ring_write b w d ! ((w + i) mod length b) =
    (if i < length d then d ! i else b ! ((w + i) mod length b))"
proof -
  from assms(1) have "(w + i) mod length b < length b" by (intro mod_less_divisor) auto
  with assms show ?thesis by (simp add: nth_ring_write Let_def ring_offset_add)
qed

text \<open>Writing right behind the contents appends; writing right in front of them prepends.\<close>

lemma ring_slice_write_append [ring_simps]:
  assumes "n + length d \<le> length b" "b \<noteq> []"
  shows "ring_slice (ring_write b ((r + n) mod length b) d) r (n + length d)
    = ring_slice b r n @ d"
proof (rule nth_equalityI)
  fix i assume "i < length (ring_slice (ring_write b ((r + n) mod length b) d) r (n + length d))"
  then have i: "i < n + length d" by simp
  let ?N = "length b" and ?w = "(r + n) mod length b"
  define k where "k = (if i < n then i + ?N - n else i - n)"
  have k: "k < ?N" using assms i by (auto simp: k_def)
  have "(?w + k) mod ?N = (r + (n + k)) mod ?N" by (simp add: mod_simps add.assoc)
  also have "\<dots> = (r + i) mod ?N"
    using assms i by (auto simp: k_def mod_simps simp flip: add.assoc)
  finally have pos: "(r + i) mod ?N = (?w + k) mod ?N" by simp
  have lt: "k < length d \<longleftrightarrow> n \<le> i" using assms i by (auto simp: k_def)
  have w: "?w < ?N" using assms by simp
  have "ring_write b ?w d ! ((r + i) mod ?N) = (if k < length d then d ! k else b ! ((?w + k) mod ?N))"
    unfolding pos using nth_ring_write_offset [OF w _ k, of d] assms by simp
  then show "ring_slice (ring_write b ?w d) r (n + length d) ! i = (ring_slice b r n @ d) ! i"
    using i w assms lt pos by (auto simp: nth_append k_def)
qed (use assms in simp)

lemma ring_slice_write_prepend [ring_simps]:
  assumes "w < length b" "length d + n \<le> length b"
  shows "ring_slice (ring_write b w d) w (length d + n) = d @ ring_slice b (w + length d) n"
  by (rule nth_equalityI)
    (use assms in \<open>auto simp: nth_append nth_ring_write_offset add.assoc\<close>)

lemma ring_slice_read [ring_simps]:
  assumes "r < length b" "n \<le> length b"
  shows "ring_read b r n = ring_slice b r n"
proof (rule nth_equalityI)
  show "length (ring_read b r n) = length (ring_slice b r n)"
    using assms by (auto simp: ring_read_def Let_def)
next
  fix i assume "i < length (ring_read b r n)"
  then show "ring_read b r n ! i = ring_slice b r n ! i"
    using assms by (auto simp: ring_read_def Let_def nth_append ring_pos add.commute split: if_splits)
qed

text \<open>The split copies with the first length computed as a minimum.\<close>

lemma memcpy_none [mem_simps]:
  "d \<le> length dst \<Longrightarrow> s \<le> length src \<Longrightarrow> memcpy dst (int d) src (int s) 0 = Some dst"
  "s \<le> length src \<Longrightarrow> memcpy dst 0 src (int s) 0 = Some dst"
  "d \<le> length dst \<Longrightarrow> memcpy dst (int d) src 0 0 = Some dst"
  by (simp_all add: memcpy_def)

lemma memcpy_ring_write:
  assumes "w < length b" "len \<le> length b" "len \<le> length d"
  shows "do { c \<leftarrow> memcpy b (int w) d 0 (int (min len (length b - w)));
      memcpy c 0 d (int (min len (length b - w))) (int (len - min len (length b - w))) } =
    Some (ring_write b w (take len d))"
proof (cases "len < length b - w")
  case True
  then have "min len (length b - w) = len" "w + len \<le> length b" by simp_all
  then show ?thesis using assms True
    by (simp add: memcpy_0 memcpy_none ring_write_def min_absorb2)
next
  case False
  then obtain m where m: "len = (length b - w) + m" using le_Suc_ex not_less by blast
  define k where "k = length b - w"
  have k: "length b = w + k" "len = k + m" "min len k = k" using assms(1) m by (auto simp: k_def)
  then show ?thesis using assms k_def [symmetric]
    by (simp add: memcpy_0 ring_write_def min_absorb2 drop_take)
qed

lemma memcpy_ring_read:
  assumes "r < length b" "len \<le> length b" "len \<le> length d"
  shows "do { c \<leftarrow> memcpy d 0 b (int r) (int (min len (length b - r)));
      memcpy c (int (min len (length b - r))) b 0 (int (len - min len (length b - r))) } =
    Some (blit d 0 (ring_slice b r len))"
proof (cases "len < length b - r")
  case True
  then have "min len (length b - r) = len" "r + len \<le> length b" by simp_all
  then show ?thesis using assms True
    by (simp add: memcpy_0 memcpy_none ring_slice_read [symmetric] ring_read_def)
next
  case False
  then obtain m where m: "len = (length b - r) + m" using le_Suc_ex not_less by blast
  define k where "k = length b - r"
  have k: "length b = r + k" "len = k + m" "min len k = k" using assms(1) m by (auto simp: k_def)
  then show ?thesis using assms k_def [symmetric]
    by (simp add: memcpy_0 ring_slice_read [symmetric] ring_read_def blit_def add.commute)
qed

lemma take_ring_slice: "k \<le> n \<Longrightarrow> take k (ring_slice b r n) = ring_slice b r k"
  by (rule nth_equalityI) simp_all

lemma drop_ring_slice: "drop k (ring_slice b r n) = ring_slice b (r + k) (n - k)"
  by (rule nth_equalityI) (simp_all add: add.assoc)

section \<open>Little-endian words in byte buffers\<close>

unbundle bit_operations_syntax

definition u32_bytes :: "u32 \<Rightarrow> byte list" where
  "u32_bytes w = [ucast w, ucast (drop_bit 8 w), ucast (drop_bit 16 w), ucast (drop_bit 24 w)]"

definition bytes_u32 :: "byte list \<Rightarrow> u32" where
  "bytes_u32 bs = foldr (\<lambda>b w. ucast b OR push_bit 8 w) bs 0"

text \<open>\<open>p[i]\<close> of a \<open>uint32_t\<close> array kept as bytes.\<close>

definition get32 :: "byte list \<Rightarrow> nat \<Rightarrow> u32 option" where
  "get32 b i = (if 4 * i + 4 \<le> length b then Some (bytes_u32 (take 4 (drop (4 * i) b))) else None)"

definition put32 :: "byte list \<Rightarrow> nat \<Rightarrow> u32 \<Rightarrow> byte list option" where
  "put32 b i w = (if 4 * i + 4 \<le> length b then Some (blit b (4 * i) (u32_bytes w)) else None)"

lemma length_u32_bytes [simp]: "length (u32_bytes w) = 4"
  by (simp add: u32_bytes_def)

lemma bytes_u32_bytes [simp]: "bytes_u32 (u32_bytes w) = w"
proof (rule bit_word_eqI)
  fix n assume "n < LENGTH(32)"
  then show "bit (bytes_u32 (u32_bytes w)) n = bit w n"
    by (cases "8 \<le> n"; cases "16 \<le> n"; cases "24 \<le> n") (auto simp: bytes_u32_def u32_bytes_def bit_simps)
qed

lemma get32_blit:
  assumes "4 * i + 4 \<le> length b"
  shows "get32 (blit b (4 * i) (u32_bytes w)) j = (if j = i then Some w else get32 b j)"
proof -
  have "take 4 (drop (4 * j) (blit b (4 * i) (u32_bytes w))) =
      (if j = i then u32_bytes w else take 4 (drop (4 * j) b))" if j: "4 * j + 4 \<le> length b"
    by (rule nth_equalityI) (use assms j in \<open>auto simp: nth_blit\<close>)
  then show ?thesis using assms by (cases "j = i") (simp_all add: get32_def)
qed

lemma drop_blit: "i + length ys \<le> k \<Longrightarrow> i \<le> length xs \<Longrightarrow> drop k (blit xs i ys) = drop k xs"
  by (simp add: blit_def)

lemma take_blit: "k \<le> i \<Longrightarrow> i \<le> length xs \<Longrightarrow> take k (blit xs i ys) = take k xs"
  by (simp add: blit_def min_def)

lemma put32_length: "4 * i + 4 \<le> length b \<Longrightarrow> put32 b i w = Some (blit b (4 * i) (u32_bytes w))"
  by (simp add: put32_def)

end
