(* ===== verification/ByteFifo.thy ===== *)
theory ByteFifo
  imports Prelude
begin

text \<open>
  The contract of a byte stream with a bounded buffer, as the callers of \<open>cqueue.c\<close>,
  \<open>lockcqueue.c\<close> and \<open>kfifo.c\<close> use it: \<open>put\<close> appends a prefix of the data it is given and
  says which, \<open>get\<close> removes a prefix of the contents and returns it, nothing else changes.
  The client lemma states what such a stream is worth: along any sequence of calls, the
  bytes delivered followed by the bytes still inside are the bytes accepted, in order.
  A request to read is of any type \<open>'g\<close>; \<open>want\<close> says how many bytes it asks for. A stream that takes all of a
  request or nothing (\<open>exact_fifo\<close>) behaves like the list \<open>fifo_model\<close>.
\<close>

datatype ('a, 'g) fifo_call = Put "'a list" | Get 'g

fun fifo_run ::
  "('s \<Rightarrow> 'a list \<Rightarrow> ('a list \<times> 's) option) \<Rightarrow> ('s \<Rightarrow> 'g \<Rightarrow> ('a list \<times> 's) option) \<Rightarrow>
   's \<Rightarrow> ('a, 'g) fifo_call list \<Rightarrow> ('a list \<times> 'a list \<times> 's) option" where
  "fifo_run put get s [] = Some ([], [], s)"
| "fifo_run put get s (Put d # cs) = do {
     (a, s') \<leftarrow> put s d;
     (acc, out, s'') \<leftarrow> fifo_run put get s' cs;
     Some (a @ acc, out, s'') }"
| "fifo_run put get s (Get n # cs) = do {
     (o1, s') \<leftarrow> get s n;
     (acc, out, s'') \<leftarrow> fifo_run put get s' cs;
     Some (acc, o1 @ out, s'') }"

locale byte_fifo =
  fixes inv :: "'s \<Rightarrow> bool"
    and content :: "'s \<Rightarrow> 'a list"
    and cap :: "'s \<Rightarrow> nat"
    and put :: "'s \<Rightarrow> 'a list \<Rightarrow> ('a list \<times> 's) option"
    and get :: "'s \<Rightarrow> 'g \<Rightarrow> ('a list \<times> 's) option"
    and want :: "'g \<Rightarrow> nat"
  assumes content_cap: "inv s \<Longrightarrow> length (content s) \<le> cap s"
    and put_ok: "inv s \<Longrightarrow> \<exists>a s'. put s d = Some (a, s') \<and> inv s' \<and> cap s' = cap s \<and>
      content s' = content s @ a \<and> prefix a d"
    and get_ok: "inv s \<Longrightarrow> \<exists>a s'. get s n = Some (a, s') \<and> inv s' \<and> cap s' = cap s \<and>
      content s = a @ content s' \<and> length a \<le> want n"
begin

lemma run_conserves:
  "inv s \<Longrightarrow> \<exists>acc out s'. fifo_run put get s cs = Some (acc, out, s') \<and> inv s' \<and>
     cap s' = cap s \<and> content s @ acc = out @ content s'"
proof (induction cs arbitrary: s)
  case (Cons c cs)
  show ?case
  proof (cases c)
    case (Put d)
    from put_ok [OF Cons.prems, of d] obtain a s' where
      *: "put s d = Some (a, s')" "inv s'" "cap s' = cap s" "content s' = content s @ a" by blast
    from Cons.IH [OF *(2)] * Put show ?thesis by fastforce
  next
    case (Get n)
    from get_ok [OF Cons.prems, of n] obtain a s' where
      *: "get s n = Some (a, s')" "inv s'" "cap s' = cap s" "content s = a @ content s'" by blast
    from Cons.IH [OF *(2)] * Get show ?thesis by fastforce
  qed
qed simp

lemma run_bounded:
  assumes "inv s" "fifo_run put get s cs = Some (acc, out, s')"
  shows "length (content s') \<le> cap s"
  using run_conserves [OF assms(1), of cs] assms(2) content_cap [of s'] by fastforce

end

text \<open>The list of the bytes inside, with the bytes accepted and the bytes delivered on the way.\<close>

fun fifo_model :: "nat \<Rightarrow> ('g \<Rightarrow> nat) \<Rightarrow> 'a list \<Rightarrow> ('a, 'g) fifo_call list \<Rightarrow> 'a list \<times> 'a list \<times> 'a list" where
  "fifo_model n want xs [] = ([], [], xs)"
| "fifo_model n want xs (Put d # cs) = (if length xs + length d \<le> n
     then (case fifo_model n want (xs @ d) cs of (acc, out, ys) \<Rightarrow> (d @ acc, out, ys))
     else fifo_model n want xs cs)"
| "fifo_model n want xs (Get g # cs) = (if want g \<le> length xs
     then (case fifo_model n want (drop (want g) xs) cs of (acc, out, ys) \<Rightarrow> (acc, take (want g) xs @ out, ys))
     else fifo_model n want xs cs)"

locale exact_fifo = byte_fifo inv content cap put get want
  for inv :: "'s \<Rightarrow> bool" and content :: "'s \<Rightarrow> 'a list" and cap :: "'s \<Rightarrow> nat"
    and put :: "'s \<Rightarrow> 'a list \<Rightarrow> ('a list \<times> 's) option" and get :: "'s \<Rightarrow> 'g \<Rightarrow> ('a list \<times> 's) option"
    and want :: "'g \<Rightarrow> nat" +
  assumes put_all: "inv s \<Longrightarrow> put s d = Some (a, s') \<Longrightarrow> a = (if length (content s) + length d \<le> cap s then d else [])"
    and get_all: "inv s \<Longrightarrow> get s g = Some (a, s') \<Longrightarrow> length a = (if want g \<le> length (content s) then want g else 0)"
begin

lemma run_model:
  "inv s \<Longrightarrow> \<exists>acc out s'. fifo_run put get s cs = Some (acc, out, s') \<and> inv s' \<and> cap s' = cap s \<and>
     fifo_model (cap s) want (content s) cs = (acc, out, content s')"
proof (induction cs arbitrary: s)
  case (Cons c cs)
  show ?case
  proof (cases c)
    case (Put d)
    from put_ok [OF Cons.prems, of d] obtain a s' where
      *: "put s d = Some (a, s')" "inv s'" "cap s' = cap s" "content s' = content s @ a" by blast
    from Cons.IH [OF *(2)] * put_all [OF Cons.prems *(1)] Put show ?thesis by (fastforce split: if_splits)
  next
    case (Get g)
    from get_ok [OF Cons.prems, of g] obtain a s' where
      *: "get s g = Some (a, s')" "inv s'" "cap s' = cap s" "content s = a @ content s'" by blast
    have a: "a = take (length a) (content s)" "content s' = drop (length a) (content s)" using *(4) by simp_all
    from Cons.IH [OF *(2)] * a get_all [OF Cons.prems *(1)] Get show ?thesis by (fastforce split: if_splits)
  qed
qed simp

end

end
