(* ===== verification/CQueue.thy ===== *)
theory CQueue
  imports ByteFifo
begin

text \<open>
  \<open>utils/cqueue/cqueue.c\<close>: the circular byte queue every audio and BLE path uses, and its
  mutex wrapper \<open>utils/lockcqueue/lockcqueue.c\<close>. The record has the fields of
  \<open>struct __CQueue\<close>; \<open>base\<close> is \<open>None\<close> for a null pointer. Lengths come in as \<open>unsigned int\<close>
  and are compared with the \<open>int\<close> fields after the usual conversion to unsigned.
\<close>

section \<open>State and operations\<close>

datatype cq_ret = CQ_OK | CQ_ERR

record CQueue =
  cq_read :: int
  cq_write :: int
  cq_size :: int
  cq_len :: int
  cq_base :: "byte list option"

definition InitCQueue :: "CQueue \<Rightarrow> int \<Rightarrow> byte list option \<Rightarrow> cq_ret \<times> CQueue" where
  "InitCQueue Q sz buf =
     (let Q = Q\<lparr>cq_size := to_s32 sz, cq_base := buf, cq_len := 0\<rparr> in
      if cq_base Q = None then (CQ_ERR, Q)
      else (CQ_OK, Q\<lparr>cq_read := 0, cq_write := 0\<rparr>))"

definition IsEmptyCQueue :: "CQueue \<Rightarrow> cq_ret" where
  "IsEmptyCQueue Q = (if cq_len Q = 0 then CQ_OK else CQ_ERR)"

definition LengthOfCQueue :: "CQueue \<Rightarrow> int" where
  "LengthOfCQueue Q = cq_len Q"

definition AvailableOfCQueue :: "CQueue \<Rightarrow> int" where
  "AvailableOfCQueue Q = to_s32 (cq_size Q - cq_len Q)"

text \<open>
  The copy that ends \<open>EnCQueue\<close> and \<open>EnCQueue_AI\<close>: up to the end of the buffer, and the
  rest from its start.
\<close>

definition cq_copy_in :: "CQueue \<Rightarrow> byte list \<Rightarrow> nat \<Rightarrow> int \<Rightarrow> (cq_ret \<times> CQueue) option" where
  "cq_copy_in Q e len bytesToTheEnd =
     (if bytesToTheEnd > int len then do {
        b \<leftarrow> cq_base Q;
        b \<leftarrow> memcpy b (cq_write Q) e 0 (int len);
        Some (CQ_OK, Q\<lparr>cq_base := Some b, cq_write := to_s32 (cq_write Q + int len)\<rparr>) }
      else do {
        b \<leftarrow> cq_base Q;
        b \<leftarrow> memcpy b (cq_write Q) e 0 bytesToTheEnd;
        b \<leftarrow> memcpy b 0 e bytesToTheEnd (int len - bytesToTheEnd);
        Some (CQ_OK, Q\<lparr>cq_base := Some b, cq_write := to_s32 (int len - bytesToTheEnd)\<rparr>) })"

definition EnCQueue :: "CQueue \<Rightarrow> byte list \<Rightarrow> nat \<Rightarrow> (cq_ret \<times> CQueue) option" where
  "EnCQueue Q e len =
     (if to_u32 (AvailableOfCQueue Q) < int len then Some (CQ_ERR, Q)
      else let Q = Q\<lparr>cq_len := to_s32 (cq_len Q + int len)\<rparr>;
               bytesToTheEnd = to_u32 (cq_size Q - cq_write Q)
           in cq_copy_in Q e len bytesToTheEnd)"

definition EnCQueue_AI :: "CQueue \<Rightarrow> byte list \<Rightarrow> nat \<Rightarrow> (cq_ret \<times> CQueue) option" where
  "EnCQueue_AI Q e len =
     (let bytesToTheEnd = to_u32 (cq_size Q - cq_write Q);
          readBytesToTheEnd = to_u32 (cq_size Q - cq_read Q);
          Q = (if to_u32 (AvailableOfCQueue Q) < int len then
                 Q\<lparr>cq_len := cq_size Q,
                   cq_read := (if readBytesToTheEnd > int len
                               then to_s32 (cq_read Q + int len)
                               else to_s32 (int len - readBytesToTheEnd))\<rparr>
               else Q\<lparr>cq_len := to_s32 (cq_len Q + int len)\<rparr>)
      in cq_copy_in Q e len bytesToTheEnd)"

text \<open>The byte loop of \<open>EnCQueueFront\<close>: the last element first, walking \<open>read\<close> backwards.\<close>

fun enqueue_front_loop :: "CQueue \<Rightarrow> byte list \<Rightarrow> nat \<Rightarrow> CQueue option" where
  "enqueue_front_loop Q e 0 = Some Q"
| "enqueue_front_loop Q e (Suc len) = do {
     b \<leftarrow> cq_base Q;
     x \<leftarrow> mem_get e (int len);
     b \<leftarrow> mem_set b (cq_read Q) x;
     let Q = Q\<lparr>cq_base := Some b, cq_read := cq_read Q - 1\<rparr>;
         Q = (if cq_read Q < 0 then Q\<lparr>cq_read := cq_size Q - 1\<rparr> else Q)
     in enqueue_front_loop Q e len }"

definition EnCQueueFront :: "CQueue \<Rightarrow> byte list \<Rightarrow> nat \<Rightarrow> (cq_ret \<times> CQueue) option" where
  "EnCQueueFront Q e len =
     (if to_u32 (AvailableOfCQueue Q) < int len then Some (CQ_ERR, Q)
      else let Q = Q\<lparr>cq_len := to_s32 (cq_len Q + int len)\<rparr>;
               Q = (if cq_read Q = 0 then Q\<lparr>cq_read := cq_size Q - 1\<rparr>
                    else Q\<lparr>cq_read := cq_read Q - 1\<rparr>)
      in do {
        Q \<leftarrow> enqueue_front_loop Q e len;
        Some (CQ_OK, if cq_read Q = cq_size Q - 1 then Q\<lparr>cq_read := 0\<rparr>
                     else Q\<lparr>cq_read := cq_read Q + 1\<rparr>) })"

text \<open>The destination \<open>e\<close> of \<open>DeCQueue\<close> is a buffer or \<open>None\<close> for the null pointer.\<close>

definition DeCQueue ::
  "CQueue \<Rightarrow> byte list option \<Rightarrow> nat \<Rightarrow> (cq_ret \<times> byte list option \<times> CQueue) option" where
  "DeCQueue Q e len =
     (if to_u32 (LengthOfCQueue Q) < int len then Some (CQ_ERR, e, Q)
      else let Q = Q\<lparr>cq_len := to_s32 (cq_len Q - int len)\<rparr> in
      (case e of
         Some d \<Rightarrow>
           let bytesToTheEnd = to_u32 (cq_size Q - cq_read Q) in
           if bytesToTheEnd > int len then do {
             b \<leftarrow> cq_base Q;
             d \<leftarrow> memcpy d 0 b (cq_read Q) (int len);
             Some (CQ_OK, Some d, Q\<lparr>cq_read := to_s32 (cq_read Q + int len)\<rparr>) }
           else do {
             b \<leftarrow> cq_base Q;
             d \<leftarrow> memcpy d 0 b (cq_read Q) bytesToTheEnd;
             d \<leftarrow> memcpy d bytesToTheEnd b 0 (int len - bytesToTheEnd);
             Some (CQ_OK, Some d, Q\<lparr>cq_read := to_s32 (int len - bytesToTheEnd)\<rparr>) }
       | None \<Rightarrow>
           if cq_size Q = 0 then None
           else Some (CQ_OK, None,
             Q\<lparr>cq_read := to_s32 (to_u32 (cq_read Q + int len) mod to_u32 (cq_size Q))\<rparr>)))"

text \<open>
  \<open>PeekCQueue\<close> returns two pieces of the buffer, as an offset into \<open>base\<close> and a length each;
  the second offset is \<open>None\<close> where the code stores a null pointer.
\<close>

definition PeekCQueue :: "CQueue \<Rightarrow> nat \<Rightarrow> (int \<times> int \<times> int option \<times> int) option" where
  "PeekCQueue Q len_want =
     (if to_u32 (LengthOfCQueue Q) < int len_want then None
      else if cq_write Q > cq_read Q \<or> to_u32 (cq_size Q - cq_read Q) \<ge> int len_want
      then Some (cq_read Q, int len_want, None, 0)
      else let len1 = to_u32 (cq_size Q - cq_read Q)
           in Some (cq_read Q, len1, Some 0, to_u32 (int len_want - len1)))"

text \<open>Copying the two pieces out; a null second piece must be empty.\<close>

definition copy_pieces ::
  "CQueue \<Rightarrow> byte list \<Rightarrow> int \<times> int \<times> int option \<times> int \<Rightarrow> byte list option" where
  "copy_pieces Q e = (\<lambda>(e1, len1, e2, len2). do {
     b \<leftarrow> cq_base Q;
     e \<leftarrow> memcpy e 0 b e1 len1;
     (case e2 of Some off \<Rightarrow> memcpy e len1 b off len2
               | None \<Rightarrow> if len2 = 0 then Some e else None) })"

definition PeekCQueueToBuf :: "CQueue \<Rightarrow> byte list \<Rightarrow> nat \<Rightarrow> (cq_ret \<times> byte list) option" where
  "PeekCQueueToBuf Q e len =
     (case PeekCQueue Q len of
        None \<Rightarrow> Some (CQ_ERR, e)
      | Some (e1, len1, e2, len2) \<Rightarrow>
          if int len = to_u32 (len1 + len2)
          then do { e \<leftarrow> copy_pieces Q e (e1, len1, e2, len2); Some (CQ_OK, e) }
          else Some (CQ_ERR, e))"

definition PullCQueue :: "CQueue \<Rightarrow> byte list \<Rightarrow> nat \<Rightarrow> (cq_ret \<times> byte list \<times> CQueue) option" where
  "PullCQueue Q e len =
     (case PeekCQueue Q len of
        None \<Rightarrow> Some (CQ_ERR, e, Q)
      | Some (e1, len1, e2, len2) \<Rightarrow>
          if int len = to_u32 (len1 + len2)
          then do {
            e \<leftarrow> copy_pieces Q e (e1, len1, e2, len2);
            (_, _, Q) \<leftarrow> DeCQueue Q None len;
            Some (CQ_OK, e, Q) }
          else Some (CQ_ERR, e, Q))"

definition ResetCqueue :: "CQueue \<Rightarrow> CQueue" where
  "ResetCqueue Q = Q\<lparr>cq_len := 0, cq_read := 0, cq_write := 0\<rparr>"

section \<open>Well-formed queues and their contents\<close>

text \<open>
  A well-formed queue is determined by its buffer, its read position and its length: the
  write position is \<open>read + len\<close> around the ring.
\<close>

definition mkq :: "byte list \<Rightarrow> nat \<Rightarrow> nat \<Rightarrow> CQueue" where
  "mkq b r n = \<lparr>cq_read = int r, cq_write = int ((r + n) mod length b),
     cq_size = int (length b), cq_len = int n, cq_base = Some b\<rparr>"

definition cq_inv :: "CQueue \<Rightarrow> bool" where
  "cq_inv Q = (case cq_base Q of None \<Rightarrow> False | Some b \<Rightarrow>
     cq_size Q = int (length b) \<and> length b < 2147483648 \<and>
     0 \<le> cq_read Q \<and> cq_read Q < cq_size Q \<and> 0 \<le> cq_len Q \<and> cq_len Q \<le> cq_size Q \<and>
     cq_write Q = (cq_read Q + cq_len Q) mod cq_size Q)"

definition cq_content :: "CQueue \<Rightarrow> byte list" where
  "cq_content Q = (case cq_base Q of None \<Rightarrow> []
     | Some b \<Rightarrow> ring_slice b (nat (cq_read Q)) (nat (cq_len Q)))"

definition cq_cap :: "CQueue \<Rightarrow> nat" where
  "cq_cap Q = nat (cq_size Q)"

definition mk_ok :: "byte list \<Rightarrow> nat \<Rightarrow> nat \<Rightarrow> bool" where
  "mk_ok b r n \<longleftrightarrow> length b < 2147483648 \<and> r < length b \<and> n \<le> length b"

lemma cq_inv_mkq [simp]: "cq_inv (mkq b r n) \<longleftrightarrow> mk_ok b r n"
  by (simp add: cq_inv_def mkq_def mk_ok_def of_nat_mod)

lemma cq_content_mkq [simp]: "cq_content (mkq b r n) = ring_slice b r n"
  by (simp add: cq_content_def mkq_def)

lemma cq_cap_mkq [simp]: "cq_cap (mkq b r n) = length b"
  by (simp add: cq_cap_def mkq_def)

lemma cq_invE:
  assumes "cq_inv Q"
  obtains b r n where "Q = mkq b r n" "mk_ok b r n"
proof -
  from assms obtain b where b: "cq_base Q = Some b" by (auto simp: cq_inv_def split: option.splits)
  from assms b have "0 \<le> cq_read Q" "0 \<le> cq_len Q" by (simp_all add: cq_inv_def)
  then obtain r n where rn: "cq_read Q = int r" "cq_len Q = int n"
    by (meson zero_le_imp_eq_int)
  have "Q = mkq b r n"
    by (rule CQueue.equality) (use assms b rn in \<open>simp_all add: cq_inv_def mkq_def of_nat_mod\<close>)
  moreover from this assms have "mk_ok b r n" by simp
  ultimately show thesis by (rule that)
qed

text \<open>The fields of a well-formed queue, for the simplifier.\<close>

lemma mkq_sel [mem_simps]:
  "cq_read (mkq b r n) = int r" "cq_write (mkq b r n) = int ((r + n) mod length b)"
  "cq_size (mkq b r n) = int (length b)" "cq_len (mkq b r n) = int n"
  "cq_base (mkq b r n) = Some b"
  by (simp_all add: mkq_def)

lemma mkq_available:
  "mk_ok b r n \<Longrightarrow> AvailableOfCQueue (mkq b r n) = int (length b - n)"
  by (auto simp: AvailableOfCQueue_def mkq_def mk_ok_def wrap_simps of_nat_diff)

lemma mk_ok_mod [simp]: "mk_ok b r n \<Longrightarrow> (r + n) mod length b < length b"
  by (intro mod_less_divisor) (auto simp: mk_ok_def)

lemma to_u32_diff [wrap_simps]:
  "b \<le> a \<Longrightarrow> a < 4294967296 \<Longrightarrow> to_u32 (int a - int b) = int a - int b"
  by (simp add: to_u32_def)

text \<open>
  The copy is one \<open>ring_write\<close> at the write position, whatever the other fields are.
\<close>

lemma cq_copy_in_nat:
  assumes "cq_base Q = Some b" "cq_write Q = int w" "length b = w + k" "0 < k"
    and "length d \<le> length b" "length b < 2147483648"
  shows "cq_copy_in Q d (length d) (int k) =
    Some (CQ_OK, Q\<lparr>cq_base := Some (ring_write b w d),
                   cq_write := int ((w + length d) mod length b)\<rparr>)"
proof (cases "length d < k")
  case True
  then have "to_s32 (int w + int (length d)) = int w + int (length d)"
    using assms(3,6) by (simp add: wrap_simps)
  with assms True show ?thesis
    by (simp add: cq_copy_in_def memcpy_0 ring_write_def)
next
  case False
  then obtain m where m: "length d = k + m" using le_Suc_ex not_less by blast
  have "to_s32 (int m) = int m" using assms(3,5,6) m by (simp add: wrap_simps)
  moreover have "(w + (k + m)) mod (w + k) = m"
    using assms(3-5) m by (simp add: add.assoc [symmetric])
  ultimately show ?thesis using assms m
    by (simp add: cq_copy_in_def memcpy_0 ring_write_def)
qed

lemma mk_ok_offset:
  assumes "mk_ok b r n"
  obtains k where "length b = (r + n) mod length b + k" "0 < k" "k \<le> length b"
proof
  show "length b = (r + n) mod length b + (length b - (r + n) mod length b)"
    using mk_ok_mod [OF assms] by simp
qed (use mk_ok_mod [OF assms] in simp_all)

lemma EnCQueue_mkq:
  assumes "mk_ok b r n"
  shows "EnCQueue (mkq b r n) d (length d) =
    (if length b - n < length d then Some (CQ_ERR, mkq b r n)
     else Some (CQ_OK, mkq (ring_write b ((r + n) mod length b) d) r (n + length d)))"
proof (cases "length b - n < length d")
  case True
  have "to_u32 (int (length b - n)) = int (length b - n)"
    using assms by (intro to_u32_id) (auto simp: mk_ok_def)
  with True show ?thesis by (simp add: EnCQueue_def mkq_available [OF assms] del: of_nat_diff)
next
  case False
  obtain k where k: "length b = (r + n) mod length b + k" "0 < k" "k \<le> length b"
    using assms by (rule mk_ok_offset)
  define w where "w = (r + n) mod length b"
  have kw: "length b = w + k" using k(1) by (simp add: w_def)
  have le: "length d \<le> length b" "length b < 2147483648" "n \<le> length b"
    using assms False by (auto simp: mk_ok_def)
  have 1: "to_u32 (int (length b - n)) = int (length b - n)"
    using le by (intro to_u32_id) auto
  have 2: "to_s32 (int n + int (length d)) = int (n + length d)"
    using False le by (simp add: wrap_simps)
  have 3: "to_u32 (int (length b) - int w) = int k"
    using kw le by (simp add: wrap_simps)
  have 4: "(w + length d) mod length b = (r + (n + length d)) mod length b"
    by (simp add: w_def mod_simps add.assoc)
  have wlt: "w < length b" using kw k(2) by simp
  show ?thesis
    using False cq_copy_in_nat [OF _ _ kw k(2) le(1,2), of "mkq b r n\<lparr>cq_len := int (n + length d)\<rparr>"]
    by (simp add: EnCQueue_def mkq_available [OF assms] 1 2 Let_def mkq_sel w_def [symmetric] 3
        del: of_nat_diff of_nat_add) (simp add: mkq_def 4 le wlt)
qed

lemma ring_write_Nil [simp]: "ring_write b w [] = b"
  by (simp add: ring_write_def Let_def)

text \<open>The byte loop of \<open>EnCQueueFront\<close> writes the elements backwards from position \<open>p\<close>.\<close>

lemma ring_write_snoc:
  assumes "w < length b" "length d < length b"
  shows "ring_write (b[(w + length d) mod length b := x]) w d = ring_write b w (d @ [x])"
proof (rule nth_equalityI)
  fix j assume "j < length (ring_write (b[(w + length d) mod length b := x]) w d)"
  then have j: "j < length b" using assms by simp
  define i where "i = (j + length b - w) mod length b"
  have i: "i < length b" using j by (auto simp: i_def intro: mod_less_divisor)
  have ji: "j = (w + i) mod length b"
    using assms(1) j by (auto simp: i_def ring_offset ring_pos)
  have pos: "(w + length d) mod length b < length b"
    using assms by (intro mod_less_divisor) auto
  have *: "(w + length d) mod length b = j \<longleftrightarrow> i = length d"
    unfolding ji using ring_offset_add [OF assms(1) i] ring_offset_add [OF assms(1,2)] by metis
  show "ring_write (b[(w + length d) mod length b := x]) w d ! j = ring_write b w (d @ [x]) ! j"
    using assms j i
    by (cases "i = length d")
      (simp_all add: nth_ring_write i_def [symmetric] Let_def nth_append nth_list_update * pos)
qed (use assms in simp)

definition rawq :: "byte list \<Rightarrow> nat \<Rightarrow> int \<Rightarrow> int \<Rightarrow> CQueue" where
  "rawq b p w n = \<lparr>cq_read = int p, cq_write = w, cq_size = int (length b), cq_len = n,
     cq_base = Some b\<rparr>"

lemma enqueue_front_loop_eq:
  assumes "p < length b" "k \<le> length b" "k \<le> length e"
  shows "enqueue_front_loop (rawq b p w n) e k =
    Some (rawq (ring_write b ((p + 1 + length b - k) mod length b) (take k e))
               ((p + length b - k) mod length b) w n)"
  using assms
proof (induction k arbitrary: b p)
  case 0
  then show ?case by (simp add: ring_write_Nil)
next
  case (Suc k)
  let ?N = "length b"
  define p' where "p' = (if p = 0 then ?N - 1 else p - 1)"
  have p': "p' < ?N" using Suc.prems by (auto simp: p'_def)
  define w' where "w' = (p + ?N - k) mod ?N"
  have w': "w' < ?N" using Suc.prems by (auto simp: w'_def intro: mod_less_divisor)
  have 1: "(p' + 1 + ?N - k) mod ?N = w'"
  proof (cases "p = 0")
    case True
    then have "p' + 1 + ?N - k = (?N - k) + ?N" using Suc.prems by (simp add: p'_def)
    then show ?thesis using True by (simp add: w'_def)
  qed (simp add: p'_def w'_def)
  have 2: "(p' + ?N - k) mod ?N = (p + ?N - Suc k) mod ?N"
  proof (cases "p = 0")
    case True
    then have "p' + ?N - k = (?N - Suc k) + ?N" using Suc.prems by (simp add: p'_def)
    then show ?thesis using True by simp
  qed (simp add: p'_def)
  have 3: "(w' + k) mod ?N = p"
    using Suc.prems by (simp add: w'_def mod_simps)
  have 4: "ring_write (b[p := e ! k]) w' (take k e) = ring_write b w' (take k e @ [e ! k])"
    using ring_write_snoc [of w' b "take k e" "e ! k"] w' Suc.prems 3 by (simp add: min_def)
  have 5: "enqueue_front_loop (rawq b p w n) e (Suc k) =
      enqueue_front_loop (rawq (b[p := e ! k]) p' w n) e k"
    using Suc.prems by (auto simp: rawq_def mem_simps p'_def Let_def of_nat_diff)
  show ?case
    unfolding 5 using Suc.prems Suc.IH [of p' "b[p := e ! k]"] p'
    by (simp add: 1 [simplified] 2 4 take_Suc_conv_app_nth w'_def [symmetric])
qed

lemma EnCQueueFront_mkq:
  assumes "mk_ok b r n"
  defines "r' d \<equiv> (r + length b - length d) mod length b"
  shows "EnCQueueFront (mkq b r n) d (length d) =
    (if length b - n < length d then Some (CQ_ERR, mkq b r n)
     else Some (CQ_OK, mkq (ring_write b (r' d) d) (r' d) (n + length d)))"
proof -
  let ?N = "length b"
  have le: "n \<le> ?N" "?N < 2147483648" "r < ?N" using assms(1) by (auto simp: mk_ok_def)
  have 1: "to_u32 (int (?N - n)) = int (?N - n)"
    using le by (intro to_u32_id) auto
  show ?thesis
  proof (cases "?N - n < length d")
    case True
    then show ?thesis
      by (simp add: EnCQueueFront_def mkq_available [OF assms(1)] 1 del: of_nat_diff)
  next
    case False
    have 2: "to_s32 (int n + int (length d)) = int n + int (length d)"
      using False le by (simp add: wrap_simps)
    define p where "p = (if r = 0 then ?N - 1 else r - 1)"
    have p: "p < ?N" "p + 1 + ?N - length d = r + ?N - length d \<or> r = 0 \<and> p + 1 = ?N"
      using le by (auto simp: p_def)
    have 3: "(p + 1 + ?N - length d) mod ?N = r' d"
    proof (cases "r = 0")
      case True
      then have "p + 1 + ?N - length d = (?N - length d) + ?N"
        using p le False by (simp add: p_def)
      then show ?thesis using True by (simp add: r'_def)
    qed (use p in \<open>simp add: r'_def\<close>)
    define q where "q = (p + ?N - length d) mod ?N"
    have q: "q < ?N" using p by (auto simp: q_def intro: mod_less_divisor)
    have "(q + 1) mod ?N = (p + 1 + ?N - length d) mod ?N"
    proof -
      have "p + ?N - length d + 1 = p + 1 + ?N - length d" using False le by linarith
      then show ?thesis by (simp only: q_def mod_add_left_eq)
    qed
    then have 4: "(if q = ?N - 1 then 0 else q + 1) = r' d"
    proof -
      have "(q + 1) mod ?N = (if q + 1 = ?N then 0 else q + 1)" using q by auto
      moreover have "q = ?N - 1 \<longleftrightarrow> q + 1 = ?N" using q by auto
      ultimately show ?thesis
        using \<open>(q + 1) mod ?N = (p + 1 + ?N - length d) mod ?N\<close> 3 by presburger
    qed
    have 5: "(r + n) mod ?N = (r' d + (n + length d)) mod ?N"
    proof -
      have "(r' d + (n + length d)) mod ?N = (r + ?N - length d + (n + length d)) mod ?N"
        by (simp only: r'_def mod_add_left_eq)
      also have "r + ?N - length d + (n + length d) = (r + n) + ?N" using False le by simp
      finally have "(r' d + (n + length d)) mod ?N = ((r + n) + ?N) mod ?N" .
      then show ?thesis by simp
    qed
    have r': "r' d < ?N" using le by (auto simp: r'_def intro: mod_less_divisor)
    have 6: "mkq b r n\<lparr>cq_len := int n + int (length d)\<rparr> =
        rawq b r (int ((r + n) mod ?N)) (int n + int (length d))"
      by (simp add: mkq_def rawq_def)
    have 7: "(let Q = rawq b r w m in if cq_read Q = 0 then Q\<lparr>cq_read := cq_size Q - 1\<rparr>
        else Q\<lparr>cq_read := cq_read Q - 1\<rparr>) = rawq b p w m" for w m
      using le by (auto simp: rawq_def p_def Let_def of_nat_diff)
    have 8: "(if cq_read (rawq c q w m) = cq_size (rawq c q w m) - 1 then (rawq c q w m)\<lparr>cq_read := 0\<rparr>
        else (rawq c q w m)\<lparr>cq_read := cq_read (rawq c q w m) + 1\<rparr>) = rawq c (r' d) w m"
      if "length c = ?N" for c w m
      using 4 q le that by (auto simp: rawq_def split: if_splits)
    have 9: "enqueue_front_loop (rawq b p w m) d (length d) = Some (rawq (ring_write b (r' d) d) q w m)" for w m
      using enqueue_front_loop_eq [OF p(1), of "length d" d w m] False 3 by (simp add: q_def)
    have 10: "length (ring_write b (r' d) d) = ?N"
      using r' False by simp
    show ?thesis
      using False 5 10
      by (simp add: EnCQueueFront_def mkq_available [OF assms(1)] 1 mkq_sel(4) 2 6 7 [unfolded Let_def]
          8 9 Let_def del: of_nat_diff) (simp add: rawq_def mkq_def)
  qed
qed

lemma ring_read_copy:
  assumes "r < length b" "n \<le> length b" "n \<le> length d" "length b = r + k"
  shows "(if k > n then memcpy d 0 b (int r) (int n)
      else do { d \<leftarrow> memcpy d 0 b (int r) (int k); memcpy d (int k) b 0 (int n - int k) }) =
    Some (blit d 0 (ring_slice b r n))"
proof (cases "k > n")
  case True
  then show ?thesis using assms
    by (simp add: memcpy_0 ring_slice_read [symmetric] ring_read_def)
next
  case False
  then obtain m where m: "n = k + m" using le_Suc_ex not_less by blast
  then show ?thesis using assms
    by (simp add: memcpy_0 ring_slice_read [symmetric] ring_read_def blit_def add.commute)
qed

text \<open>\<open>DeCQueue\<close> hands out the first \<open>len\<close> bytes, or only drops them when \<open>e\<close> is null.\<close>

lemma DeCQueue_mkq:
  assumes "mk_ok b r n" "case e of None \<Rightarrow> True | Some d \<Rightarrow> len \<le> length d"
  shows "DeCQueue (mkq b r n) e len =
    (if n < len then Some (CQ_ERR, e, mkq b r n)
     else Some (CQ_OK, map_option (\<lambda>d. blit d 0 (ring_slice b r len)) e,
                mkq b ((r + len) mod length b) (n - len)))"
proof -
  let ?N = "length b"
  have le: "n \<le> ?N" "?N < 2147483648" "r < ?N" using assms(1) by (auto simp: mk_ok_def)
  have 1: "to_u32 (int n) = int n" using le by (simp add: wrap_simps)
  show ?thesis
  proof (cases "n < len")
    case True
    then show ?thesis by (simp add: DeCQueue_def LengthOfCQueue_def mkq_sel 1)
  next
    case False
    obtain k where k: "?N = r + k" "0 < k" using le by (metis less_imp_add_positive)
    have 2: "to_s32 (int n - int len) = int (n - len)"
      using False le by (simp add: wrap_simps)
    have 3: "to_u32 (int ?N - int r) = int k" using k le by (simp add: wrap_simps)
    have 4: "((r + len) mod ?N + (n - len)) mod ?N = (r + n) mod ?N"
    proof -
      have "r + len + (n - len) = r + n" using False by simp
      then show ?thesis by (metis mod_add_left_eq)
    qed
    show ?thesis
    proof (cases e)
      case None
      have "to_u32 (int r + int len) = int (r + len)" "to_u32 (int ?N) = int ?N"
        using False le by (simp_all add: wrap_simps)
      moreover have "to_s32 (int (r + len) mod int ?N) = int ((r + len) mod ?N)"
      proof -
        have "(r + len) mod ?N < ?N" using le by (intro mod_less_divisor) auto
        with le show ?thesis by (simp add: of_nat_mod [symmetric] wrap_simps del: of_nat_add)
      qed
      ultimately show ?thesis using None False le 4
        by (auto simp add: DeCQueue_def LengthOfCQueue_def mkq_def 1 2 Let_def simp del: of_nat_diff of_nat_add)
    next
      case (Some d)
      have 5: "(if k > len then memcpy d 0 b (int r) (int len)
          else do { d \<leftarrow> memcpy d 0 b (int r) (int k); memcpy d (int k) b 0 (int len - int k) }) =
        Some (blit d 0 (ring_slice b r len))"
        by (rule ring_read_copy) (use assms(2) Some False le k in auto)
      have 6: "k > len \<Longrightarrow> to_s32 (int r + int len) = int ((r + len) mod ?N)"
        using k le by (simp add: wrap_simps)
      have 7: "\<not> k > len \<Longrightarrow> to_s32 (int len - int k) = int ((r + len) mod ?N)"
        using k le False by (auto simp: wrap_simps not_less mod_if)
      show ?thesis
        using False 4 5 6 7 Some
        by (cases "k > len")
          (auto simp add: DeCQueue_def LengthOfCQueue_def mkq_def 1 2 3 Let_def bind_eq_Some_conv
             simp del: of_nat_diff of_nat_add)
    qed
  qed
qed

text \<open>The two pieces of \<open>PeekCQueue\<close> are the first \<open>len\<close> bytes.\<close>

lemma copy_pieces_peek:
  assumes "mk_ok b r n" "len \<le> length e" "PeekCQueue (mkq b r n) len = Some (e1, len1, e2, len2)"
  shows "to_u32 (len1 + len2) = int len \<and> len \<le> n \<and>
    copy_pieces (mkq b r n) e (e1, len1, e2, len2) = Some (blit e 0 (ring_slice b r len))"
proof -
  let ?N = "length b"
  have le: "n \<le> ?N" "?N < 2147483648" "r < ?N" using assms(1) by (auto simp: mk_ok_def)
  obtain k where k: "?N = r + k" "0 < k" using le by (metis less_imp_add_positive)
  have 1: "to_u32 (int n) = int n" using le by (simp add: wrap_simps)
  have 2: "to_u32 (int ?N - int r) = int k" using k le by (simp add: wrap_simps)
  have len: "len \<le> n"
    using assms(3) by (auto simp: PeekCQueue_def LengthOfCQueue_def mkq_sel 1 split: if_splits)
  have 3: "(if k > len then memcpy e 0 b (int r) (int len)
      else do { d \<leftarrow> memcpy e 0 b (int r) (int k); memcpy d (int k) b 0 (int len - int k) }) =
    Some (blit e 0 (ring_slice b r len))"
    by (rule ring_read_copy) (use assms(2) len le k in auto)
  show ?thesis
  proof (cases "(r + n) mod ?N > r \<or> len \<le> k")
    case True
    have "len \<le> k"
      using True len le k by (auto simp: mod_if split: if_splits)
    then have "ring_slice b r len = take len (drop r b)"
      using len le k by (auto simp: ring_slice_read [symmetric] ring_read_def)
    then show ?thesis using True assms(2,3) len le k \<open>len \<le> k\<close>
      by (auto simp: PeekCQueue_def LengthOfCQueue_def mkq_sel 1 2 copy_pieces_def memcpy_0 wrap_simps)
  next
    case False
    then have "len - k \<le> ?N" using len le by simp
    have "to_u32 (int len - int k) = int len - int k"
      using False len le by (simp add: wrap_simps)
    then have "e1 = int r" "len1 = int k" "e2 = Some 0" "len2 = int len - int k"
      using False assms(3) len
      by (auto simp: PeekCQueue_def LengthOfCQueue_def mkq_sel 1 2 Let_def)
    then show ?thesis using False len le 3
      by (auto simp: copy_pieces_def mkq_sel wrap_simps)
  qed
qed

lemma PeekCQueue_None_iff:
  "mk_ok b r n \<Longrightarrow> PeekCQueue (mkq b r n) len = None \<longleftrightarrow> n < len"
  by (auto simp: PeekCQueue_def LengthOfCQueue_def mkq_sel mk_ok_def wrap_simps Let_def)

section \<open>The queue as a byte stream\<close>

definition cq_put :: "CQueue \<Rightarrow> byte list \<Rightarrow> (byte list \<times> CQueue) option" where
  "cq_put Q d = do { (ret, Q) \<leftarrow> EnCQueue Q d (length d); Some (if ret = CQ_OK then d else [], Q) }"

text \<open>Bytes are taken out in two ways: copied by \<open>DeCQueue\<close> itself, or by \<open>PullCQueue\<close>, which peeks and then drops.\<close>

datatype cq_request = Dequeue nat | Pull nat

primrec cq_want :: "cq_request \<Rightarrow> nat" where
  "cq_want (Dequeue n) = n"
| "cq_want (Pull n) = n"

primrec cq_get :: "CQueue \<Rightarrow> cq_request \<Rightarrow> (byte list \<times> CQueue) option" where
  "cq_get Q (Dequeue n) = do { (ret, e, Q) \<leftarrow> DeCQueue Q (Some (replicate n 0)) n; Some (if ret = CQ_OK then the e else [], Q) }"
| "cq_get Q (Pull n) = do { (ret, e, Q) \<leftarrow> PullCQueue Q (replicate n 0) n; Some (if ret = CQ_OK then e else [], Q) }"

text \<open>\<open>PullCQueue\<close> is a peek into the destination followed by dropping the bytes.\<close>

lemma PullCQueue_mkq:
  assumes "mk_ok b r n" "len \<le> length e"
  shows "PullCQueue (mkq b r n) e len =
    (if n < len then Some (CQ_ERR, e, mkq b r n)
     else Some (CQ_OK, blit e 0 (ring_slice b r len), mkq b ((r + len) mod length b) (n - len)))"
proof (cases "PeekCQueue (mkq b r n) len")
  case None
  then show ?thesis
    using PeekCQueue_None_iff [OF assms(1), of len] by (simp add: PullCQueue_def)
next
  case (Some p)
  obtain e1 len1 e2 len2 where p: "p = (e1, len1, e2, len2)" by (cases p) auto
  from copy_pieces_peek [OF assms Some [unfolded p]] Some p show ?thesis
    using DeCQueue_mkq [OF assms(1), where e = None and len = len]
    by (simp add: PullCQueue_def)
qed

lemma PeekCQueueToBuf_mkq:
  assumes "mk_ok b r n" "len \<le> length e"
  shows "PeekCQueueToBuf (mkq b r n) e len =
    (if n < len then Some (CQ_ERR, e) else Some (CQ_OK, blit e 0 (ring_slice b r len)))"
proof (cases "PeekCQueue (mkq b r n) len")
  case None
  then show ?thesis
    using PeekCQueue_None_iff [OF assms(1), of len] by (simp add: PeekCQueueToBuf_def)
next
  case (Some p)
  obtain e1 len1 e2 len2 where p: "p = (e1, len1, e2, len2)" by (cases p) auto
  from copy_pieces_peek [OF assms Some [unfolded p]] Some p show ?thesis
    by (simp add: PeekCQueueToBuf_def)
qed

lemma mk_ok_write:
  "mk_ok b r n \<Longrightarrow> length d \<le> length b - n \<Longrightarrow>
   mk_ok (ring_write b ((r + n) mod length b) d) r (n + length d)"
  using mk_ok_mod [of b r n] by (auto simp: mk_ok_def)

lemma mk_ok_read: "mk_ok b r n \<Longrightarrow> mk_ok b ((r + len) mod length b) (n - len)"
  by (auto simp: mk_ok_def intro!: mod_less_divisor)

lemma ring_slice_split:
  "len \<le> n \<Longrightarrow> ring_slice b r n = ring_slice b r len @ ring_slice b ((r + len) mod length b) (n - len)"
  using ring_slice_append [of b r len "n - len"] by simp

lemma cq_put_mkq:
  assumes "mk_ok b r n"
  shows "cq_put (mkq b r n) d = Some (if n + length d \<le> length b
    then (d, mkq (ring_write b ((r + n) mod length b) d) r (n + length d)) else ([], mkq b r n))"
proof -
  have "n \<le> length b" using assms by (simp add: mk_ok_def)
  then have "length b - n < length d \<longleftrightarrow> \<not> n + length d \<le> length b" by linarith
  then show ?thesis using assms by (simp add: cq_put_def EnCQueue_mkq)
qed

lemma cq_get_mkq:
  assumes "mk_ok b r n"
  shows "cq_get (mkq b r n) g = Some (if cq_want g \<le> n
    then (ring_slice b r (cq_want g), mkq b ((r + cq_want g) mod length b) (n - cq_want g)) else ([], mkq b r n))"
proof (cases g)
  case (Dequeue k)
  then show ?thesis using DeCQueue_mkq [OF assms, where e = "Some (replicate k 0)" and len = k]
    by (auto simp: blit_def not_less)
next
  case (Pull k)
  then show ?thesis using PullCQueue_mkq [OF assms, where e = "replicate k 0" and len = k]
    by (auto simp: blit_def not_less)
qed

interpretation cq: exact_fifo cq_inv cq_content cq_cap cq_put cq_get cq_want
proof
  fix Q assume "cq_inv Q"
  then obtain b r n where Q: "Q = mkq b r n" "mk_ok b r n" by (rule cq_invE)
  then show "length (cq_content Q) \<le> cq_cap Q" by (auto simp: mk_ok_def)
  fix d
  show "\<exists>a Q'. cq_put Q d = Some (a, Q') \<and> cq_inv Q' \<and> cq_cap Q' = cq_cap Q \<and>
      cq_content Q' = cq_content Q @ a \<and> prefix a d"
  proof (cases "n + length d \<le> length b")
    case True
    then have "length d \<le> length b - n" "b \<noteq> []" using Q(2) by (auto simp: mk_ok_def)
    then show ?thesis using True Q mk_ok_write [OF Q(2), of d] mk_ok_mod [OF Q(2)]
      by (simp add: cq_put_mkq ring_simps)
  qed (use Q in \<open>simp add: cq_put_mkq\<close>)
next
  fix Q g assume "cq_inv Q"
  then obtain b r k where Q: "Q = mkq b r k" "mk_ok b r k" by (rule cq_invE)
  show "\<exists>a Q'. cq_get Q g = Some (a, Q') \<and> cq_inv Q' \<and> cq_cap Q' = cq_cap Q \<and>
      cq_content Q = a @ cq_content Q' \<and> length a \<le> cq_want g"
    using Q mk_ok_read [OF Q(2), of "cq_want g"] ring_slice_split [of "cq_want g" k b r]
    by (simp add: cq_get_mkq)
next
  fix Q Q' d a assume "cq_inv Q" and r: "cq_put Q d = Some (a, Q')"
  then obtain b r n where Q: "Q = mkq b r n" "mk_ok b r n" by (auto elim: cq_invE)
  with r show "a = (if length (cq_content Q) + length d \<le> cq_cap Q then d else [])" by (simp add: cq_put_mkq split: if_splits)
next
  fix Q Q' g a assume "cq_inv Q" and r: "cq_get Q g = Some (a, Q')"
  then obtain b r n where Q: "Q = mkq b r n" "mk_ok b r n" by (auto elim: cq_invE)
  with r show "length a = (if cq_want g \<le> length (cq_content Q) then cq_want g else 0)" by (auto simp: cq_get_mkq split: if_splits)
qed

section \<open>The overwriting variant\<close>

lemma mod_eq_iff_zero:
  fixes n :: nat
  assumes "0 < n" "n \<le> N"
  shows "(a + n) mod N = a mod N \<longleftrightarrow> n = N"
proof
  assume "(a + n) mod N = a mod N"
  then have "N dvd (a + n) - a" by (metis mod_eq_dvd_iff_nat le_add1)
  then show "n = N" using assms by (simp add: dvd_imp_le le_antisym)
qed simp

lemma EnCQueue_AI_mkq:
  assumes "mk_ok b r n" "length b - n < length d" "length d \<le> length b"
  shows "EnCQueue_AI (mkq b r n) d (length d) = Some (CQ_OK,
    \<lparr>cq_read = int ((r + length d) mod length b),
     cq_write = int ((r + n + length d) mod length b), cq_size = int (length b),
     cq_len = int (length b), cq_base = Some (ring_write b ((r + n) mod length b) d)\<rparr>)"
proof -
  let ?N = "length b"
  define w where "w = (r + n) mod ?N"
  have le: "n \<le> ?N" "?N < 2147483648" "r < ?N" using assms(1) by (auto simp: mk_ok_def)
  have w: "w < ?N" using mk_ok_mod [OF assms(1)] by (simp add: w_def)
  then obtain k where k: "?N = w + k" "0 < k" by (metis less_imp_add_positive)
  obtain j where j: "?N = r + j" "0 < j" using le by (metis less_imp_add_positive)
  have 1: "to_u32 (int (?N - n)) = int (?N - n)" using le by (intro to_u32_id) auto
  have 2: "to_u32 (int ?N - int w) = int k" using k le by (simp add: wrap_simps)
  have 3: "to_u32 (int ?N - int r) = int j" using j le by (simp add: wrap_simps)
  have 4: "length d < j \<Longrightarrow> to_s32 (int r + int (length d)) = int ((r + length d) mod ?N)"
    "\<not> length d < j \<Longrightarrow> to_s32 (int (length d) - int j) = int ((r + length d) mod ?N)"
    using j le assms(3) by (auto simp: wrap_simps mod_if)
  have 5: "(w + length d) mod ?N = (r + n + length d) mod ?N"
    by (simp only: w_def mod_add_left_eq)
  show ?thesis
    using cq_copy_in_nat [OF _ _ k assms(3) le(2), of "mkq b r n\<lparr>cq_len := int ?N,
        cq_read := int ((r + length d) mod ?N)\<rparr>"] assms(2) 5
    by (simp add: EnCQueue_AI_def mkq_available [OF assms(1)] 1 mkq_sel w_def [symmetric] 2 3 4 Let_def
        del: of_nat_diff) (simp_all add: mkq_def w_def)?
qed

section \<open>Properties\<close>

text \<open>
  \<open>EnCQueue\<close> on a well-formed queue never leaves the buffer: when the free space holds
  \<open>d\<close> it returns OK and the contents grow by exactly \<open>d\<close> at the tail, otherwise it returns
  an error and leaves the queue as it was. The invariant and the capacity are kept.
\<close>

theorem EnCQueue_refines_append:
  assumes "cq_inv Q"
  shows "\<exists>ret Q'. EnCQueue Q d (length d) = Some (ret, Q') \<and> cq_inv Q' \<and> cq_cap Q' = cq_cap Q \<and>
    (if length (cq_content Q) + length d \<le> cq_cap Q
     then ret = CQ_OK \<and> cq_content Q' = cq_content Q @ d
     else ret = CQ_ERR \<and> Q' = Q)"
proof -
  from assms obtain b r n where Q: "Q = mkq b r n" "mk_ok b r n" by (rule cq_invE)
  then have "n \<le> length b" "b \<noteq> []" by (auto simp: mk_ok_def)
  with Q mk_ok_write [OF Q(2), of d] mk_ok_mod [OF Q(2)] show ?thesis
    by (auto simp: EnCQueue_mkq ring_simps)
qed

theorem EnCQueue_refines_append_witness:
  "\<exists>ret Q'. EnCQueue (mkq [1, 2, 3] 2 1) [7, 8] 2 = Some (ret, Q') \<and> cq_content Q' = [3, 7, 8]"
  using EnCQueue_refines_append [of "mkq [1, 2, 3] 2 1" "[7, 8]"]
  by (auto simp: mk_ok_def ring_slice_def numeral_2_eq_2)

text \<open>
  \<open>EnCQueueFront\<close> puts \<open>d\<close> in front of the contents, first byte first, when it fits, and
  otherwise returns an error and leaves the queue as it was.
\<close>

theorem EnCQueueFront_refines_prepend:
  assumes "cq_inv Q"
  shows "\<exists>ret Q'. EnCQueueFront Q d (length d) = Some (ret, Q') \<and> cq_inv Q' \<and>
    cq_cap Q' = cq_cap Q \<and>
    (if length (cq_content Q) + length d \<le> cq_cap Q
     then ret = CQ_OK \<and> cq_content Q' = d @ cq_content Q
     else ret = CQ_ERR \<and> Q' = Q)"
proof -
  from assms obtain b r n where Q: "Q = mkq b r n" "mk_ok b r n" by (rule cq_invE)
  then have le: "n \<le> length b" "r < length b" "length b < 2147483648" by (auto simp: mk_ok_def)
  let ?r = "(r + length b - length d) mod length b"
  have r: "?r < length b" using le by (auto intro!: mod_less_divisor)
  show ?thesis
  proof (cases "n + length d \<le> length b")
    case True
    have "(?r + length d) mod length b = r"
      using True le by (simp add: mod_add_left_eq)
    then have "ring_slice b (?r + length d) n = ring_slice b r n"
      by (metis ring_slice_mod)
    with True Q le r ring_slice_write_prepend [of ?r b d n] show ?thesis
      by (simp add: EnCQueueFront_mkq mk_ok_def add.commute)
  qed (use Q le in \<open>simp add: EnCQueueFront_mkq\<close>)
qed

theorem EnCQueueFront_refines_prepend_witness:
  "\<exists>ret Q'. EnCQueueFront (mkq [1, 2, 3] 0 1) [7, 8] 2 = Some (ret, Q') \<and>
     cq_content Q' = [7, 8, 1]"
  using EnCQueueFront_refines_prepend [of "mkq [1, 2, 3] 0 1" "[7, 8]"]
  by (auto simp: mk_ok_def ring_slice_def numeral_2_eq_2)

text \<open>
  \<open>DeCQueue\<close> into a buffer that can hold \<open>len\<close> bytes: with enough data it removes
  the first \<open>len\<close> bytes from the contents and stores exactly these at the start of the buffer,
  otherwise it returns an error and changes neither. \<open>PeekCQueueToBuf\<close> hands out the same
  bytes without removing them.
\<close>

theorem DeCQueue_refines_take:
  assumes "cq_inv Q" "len \<le> length d"
  shows "\<exists>ret d' Q'. DeCQueue Q (Some d) len = Some (ret, Some d', Q') \<and> cq_inv Q' \<and>
    PeekCQueueToBuf Q d len = Some (ret, d') \<and>
    (if len \<le> length (cq_content Q)
     then ret = CQ_OK \<and> d' = take len (cq_content Q) @ drop len d \<and>
          cq_content Q' = drop len (cq_content Q)
     else ret = CQ_ERR \<and> d' = d \<and> Q' = Q)"
proof -
  from assms obtain b r n where Q: "Q = mkq b r n" "mk_ok b r n" by (auto elim: cq_invE)
  from Q assms(2) mk_ok_read [OF Q(2), of len] DeCQueue_mkq [OF Q(2), where e = "Some d" and len = len]
    PeekCQueueToBuf_mkq [OF Q(2) assms(2)]
  show ?thesis by (simp add: blit_def take_ring_slice drop_ring_slice not_less)
qed

theorem DeCQueue_refines_take_witness:
  "\<exists>ret d' Q'. DeCQueue (mkq [1, 2, 3] 2 2) (Some [9, 9, 9]) 2 = Some (ret, Some d', Q') \<and>
     d' = [3, 1, 9] \<and> cq_content Q' = []"
  using DeCQueue_refines_take [of "mkq [1, 2, 3] 2 2" 2 "[9, 9, 9]"]
  by (auto simp: mk_ok_def ring_slice_def upt_rec numeral_2_eq_2)

text \<open>
  C39. Along any sequence of \<open>EnCQueue\<close>, \<open>DeCQueue\<close> (into a buffer) and \<open>PullCQueue\<close> calls, no call faults, and the queue
  behaves like a list of bytes with a bound: what fits is accepted whole and appended, what is there is delivered whole
  from the front, and any other request is refused and changes nothing. So what was inside followed by
  everything accepted equals everything delivered followed by what is still inside.
\<close>

theorem CQueue_stream_conservation:
  assumes "cq_inv Q"
  shows "\<exists>acc out Q'. fifo_run cq_put cq_get Q cs = Some (acc, out, Q') \<and> cq_inv Q' \<and>
    fifo_model (cq_cap Q) cq_want (cq_content Q) cs = (acc, out, cq_content Q') \<and>
    cq_content Q @ acc = out @ cq_content Q' \<and> length (cq_content Q') \<le> cq_cap Q"
  using cq.run_conserves [OF assms, of cs] cq.run_model [OF assms, of cs] cq.run_bounded [OF assms, of cs] by fastforce

theorem CQueue_stream_conservation_witness:
  "\<exists>Q'. fifo_run cq_put cq_get (mkq [0, 0, 0] 2 0) [Put [1, 2], Get (Dequeue 2), Put [3, 4], Get (Pull 1), Get (Dequeue 2)]
     = Some ([1, 2, 3, 4], [1, 2, 3], Q') \<and> cq_content Q' = [4]"
  using CQueue_stream_conservation [of "mkq [0, 0, 0] 2 0" "[Put [1, 2], Get (Dequeue 2), Put [3, 4], Get (Pull 1), Get (Dequeue 2)]"]
  by (auto simp: mk_ok_def)

text \<open>
  \<open>EnCQueue_AI\<close>, the variant that overwrites: when \<open>d\<close> (at most a whole buffer) does
  not fit, it moves the read position by the length of \<open>d\<close>. On a full queue that drops
  exactly the oldest bytes; on any other queue read and write position disagree with the
  length it sets, so the queue is no longer well-formed and delivers stale bytes.
\<close>

theorem EnCQueue_AI_overflow:
  assumes "cq_inv Q" "cq_cap Q < length (cq_content Q) + length d" "length d \<le> cq_cap Q"
  shows "\<exists>Q'. EnCQueue_AI Q d (length d) = Some (CQ_OK, Q') \<and>
    (cq_inv Q' \<longleftrightarrow> length (cq_content Q) = cq_cap Q) \<and>
    (cq_inv Q' \<longrightarrow> cq_content Q' = drop (length d) (cq_content Q) @ d)"
proof -
  from assms obtain b r n where Q: "Q = mkq b r n" "mk_ok b r n" by (auto elim: cq_invE)
  let ?N = "length b" and ?r = "(r + length d) mod length b" and ?w = "(r + n) mod length b"
  define b' where "b' = ring_write b ?w d"
  have le: "n \<le> ?N" "?N < 2147483648" "r < ?N" "?N < n + length d" "length d \<le> ?N"
    using assms Q by (auto simp: mk_ok_def)
  have lb: "length b' = ?N" using le mk_ok_mod [OF Q(2)] by (simp add: b'_def)
  have r: "?r < ?N" using le by (auto intro!: mod_less_divisor)
  define Q' where "Q' = \<lparr>cq_read = int ?r, cq_write = int ((r + n + length d) mod ?N),
    cq_size = int ?N, cq_len = int ?N, cq_base = Some b'\<rparr>"
  have run: "EnCQueue_AI Q d (length d) = Some (CQ_OK, Q')"
    using EnCQueue_AI_mkq [OF Q(2)] le by (simp add: Q Q'_def b'_def)
  have "cq_inv Q' \<longleftrightarrow> (r + n + length d) mod ?N = ?r"
    using le r lb by (auto simp: cq_inv_def Q'_def of_nat_mod [symmetric] simp del: of_nat_mod)
  also have "\<dots> \<longleftrightarrow> n = ?N"
    using mod_eq_iff_zero [of n ?N "r + length d"] le by (auto simp: ac_simps)
  finally have inv: "cq_inv Q' \<longleftrightarrow> n = ?N" .
  have "cq_content Q' = drop (length d) (cq_content Q) @ d" if "n = ?N"
  proof -
    have "b \<noteq> []" using le by auto
    have "cq_content Q' = ring_slice b' (r + length d) (?N - length d + length d)"
      using le lb by (simp add: cq_content_def Q'_def) (metis ring_slice_mod)
    also have "\<dots> = ring_slice b (r + length d) (?N - length d) @ d"
      using ring_slice_write_append [of "?N - length d" d b "r + length d"] le that \<open>b \<noteq> []\<close>
      by (simp add: b'_def)
    finally show ?thesis using Q that by (simp add: drop_ring_slice)
  qed
  then show ?thesis using run inv Q by auto
qed

theorem EnCQueue_AI_overflow_witness:
  "\<exists>Q'. EnCQueue_AI (mkq [1, 2, 3] 0 2) [7, 8] 2 = Some (CQ_OK, Q') \<and> \<not> cq_inv Q'"
  using EnCQueue_AI_overflow [of "mkq [1, 2, 3] 0 2" "[7, 8]"]
  by (auto simp: mk_ok_def numeral_2_eq_2)

end
