(* ===== verification/KFifo.thy ===== *)
theory KFifo
  imports ByteFifo
begin

text \<open>
  \<open>utils/kfifo/kfifo.c\<close>: the lock-free byte fifo with free running 32-bit counters. \<open>in\<close> and
  \<open>out\<close> are never reduced: they wrap at \<open>2 ^ 32\<close>, the fill level is their difference and the
  cell is their low bits, which is right only because the size is a power of two. The
  fields are words, so the wrap-around is the code's.
\<close>

unbundle bit_operations_syntax

section \<open>State and operations\<close>

record kfifo =
  kf_buffer :: "byte list"
  kf_size :: u32
  kf_in :: u32
  kf_out :: u32

definition is_power_of_2 :: "u32 \<Rightarrow> bool" where
  "is_power_of_2 n \<longleftrightarrow> n \<noteq> 0 \<and> n AND (n - 1) = 0"

definition kfifo_init :: "byte list \<Rightarrow> u32 \<Rightarrow> kfifo option" where
  "kfifo_init buffer len =
     (if is_power_of_2 len
      then Some \<lparr>kf_buffer = buffer, kf_size = len, kf_in = 0, kf_out = 0\<rparr> else None)"

definition kfifo_put :: "kfifo \<Rightarrow> byte list \<Rightarrow> u32 \<Rightarrow> (u32 \<times> kfifo) option" where
  "kfifo_put f buffer len =
     (let len = min len (kf_size f - kf_in f + kf_out f);
          l = min len (kf_size f - (kf_in f AND (kf_size f - 1))) in
      do {
        b \<leftarrow> memcpy (kf_buffer f) (uint (kf_in f AND (kf_size f - 1))) buffer 0 (uint l);
        b \<leftarrow> memcpy b 0 buffer (uint l) (uint (len - l));
        Some (len, f\<lparr>kf_buffer := b, kf_in := kf_in f + len\<rparr>) })"

definition kfifo_get :: "kfifo \<Rightarrow> byte list \<Rightarrow> u32 \<Rightarrow> (u32 \<times> byte list \<times> kfifo) option" where
  "kfifo_get f buffer len =
     (let len = min len (kf_in f - kf_out f);
          l = min len (kf_size f - (kf_out f AND (kf_size f - 1))) in
      do {
        d \<leftarrow> memcpy buffer 0 (kf_buffer f) (uint (kf_out f AND (kf_size f - 1))) (uint l);
        d \<leftarrow> memcpy d (uint l) (kf_buffer f) 0 (uint (len - l));
        Some (len, d, f\<lparr>kf_out := kf_out f + len\<rparr>) })"

text \<open>
  \<open>kfifo_peek\<close> overwrites its own length pointers with null before it stores through them:
  \<open>len1\<close> is the pointer after \<open>len1 = len2 = NULL\<close>, and a store through a null pointer is a
  fault. The result is the return value.
\<close>

definition store_through :: "u32 option \<Rightarrow> u32 \<Rightarrow> u32 option" where
  "store_through ptr v = (case ptr of None \<Rightarrow> None | Some _ \<Rightarrow> Some v)"

definition kfifo_peek :: "kfifo \<Rightarrow> u32 \<Rightarrow> u32 option \<Rightarrow> u32 option \<Rightarrow> u32 option" where
  "kfifo_peek f len_want len1 len2 =
     (let len1 = None; len2 = None;
          len = min len_want (kf_in f - kf_out f) in
      if len < len_want then Some 0
      else let l = min len (kf_size f - (kf_out f AND (kf_size f - 1))) in
      do {
        _ \<leftarrow> store_through len1 l;
        _ \<leftarrow> (if l < len then store_through len2 (len - l) else Some 0);
        Some len_want })"

definition kfifo_len :: "kfifo \<Rightarrow> u32" where
  "kfifo_len f = kf_in f - kf_out f"

section \<open>Powers of two\<close>

lemma and_pred_power_nat: "n \<noteq> 0 \<Longrightarrow> n AND (n - 1) = (0::nat) \<Longrightarrow> \<exists>k. n = 2 ^ k"
proof (induction n rule: less_induct)
  case (less n)
  show ?case
  proof (cases "even n")
    case True
    then obtain m where m: "n = 2 * m" by (elim evenE)
    with less.prems have "0 < m" by simp
    then obtain j where j: "m = Suc j" using gr0_implies_Suc by blast
    have "n AND (n - 1) = 2 * (m AND (m - 1))"
      using m j by (subst and_rec) simp
    then have "m AND (m - 1) = 0" using less.prems by simp
    then obtain k where "m = 2 ^ k" using less.IH [of m] m \<open>0 < m\<close> by auto
    with m show ?thesis by (metis power_Suc)
  next
    case False
    then obtain m where m: "n = Suc (2 * m)" by (auto elim: oddE)
    have "n AND (n - 1) = 2 * m"
      using m by (subst and_rec) simp
    with less.prems m show ?thesis by (metis mult_zero_right nat.inject power_0 One_nat_def mult_is_0)
  qed
qed

lemma is_power_of_2_iff: "is_power_of_2 n \<longleftrightarrow> (\<exists>k<32. n = 2 ^ k)"
proof
  assume *: "is_power_of_2 n"
  then have "n \<noteq> 0" "unat (n AND (n - 1)) = 0" by (simp_all add: is_power_of_2_def)
  then have "n \<noteq> 0" "unat n AND (unat n - 1) = 0"
    using unat_minus_one [of n] unsigned_and_eq [of n "n - 1", where 'a = nat] by auto
  then obtain k where k: "unat n = 2 ^ k"
    using and_pred_power_nat [of "unat n"] by (auto simp: unat_eq_0)
  moreover have "unat n < 2 ^ LENGTH(32)" by (rule unsigned_less)
  ultimately have "2 ^ k < (2::nat) ^ 32" by simp
  then have "k < 32" by (meson power_less_imp_less_exp one_less_numeral_iff semiring_norm(76))
  moreover have "n = 2 ^ k" by (simp add: word_unat_eq_iff k unat_2p_u32 [OF \<open>k < 32\<close>])
  ultimately show "\<exists>k<32. n = 2 ^ k" by blast
next
  assume "\<exists>k<32. n = 2 ^ k"
  then obtain k where k: "k < 32" "n = 2 ^ k" by blast
  have "n AND (n - 1) = take_bit k (2 ^ k :: u32)"
    by (simp add: k take_bit_eq_mask mask_eq_exp_minus_1)
  also have "\<dots> = 0" by (simp add: take_bit_eq_mod)
  finally show "is_power_of_2 n" using k by (auto simp: is_power_of_2_def)
qed

section \<open>Well-formed fifos and their contents\<close>

definition kf_inv :: "kfifo \<Rightarrow> bool" where
  "kf_inv f \<longleftrightarrow> is_power_of_2 (kf_size f) \<and> length (kf_buffer f) = unat (kf_size f) \<and>
     kf_in f - kf_out f \<le> kf_size f"

definition kf_content :: "kfifo \<Rightarrow> byte list" where
  "kf_content f = ring_slice (kf_buffer f) (unat (kf_out f)) (unat (kf_in f - kf_out f))"

definition kf_cap :: "kfifo \<Rightarrow> nat" where
  "kf_cap f = unat (kf_size f)"

lemma kf_index:
  assumes "is_power_of_2 s"
  shows "unat (x AND (s - 1)) = unat x mod unat s"
proof -
  from assms obtain k where k: "k < 32" "s = 2 ^ k" by (auto simp: is_power_of_2_iff)
  have "x AND (s - 1) = take_bit k x"
    by (simp add: k take_bit_eq_mask mask_eq_exp_minus_1)
  then have "unat (x AND (s - 1)) = unat x mod 2 ^ k"
    by (simp only: unsigned_take_bit_eq) (simp add: take_bit_eq_mod)
  also have "2 ^ k = unat s" using k by (simp add: unat_2p_u32)
  finally show ?thesis by simp
qed

text \<open>The counters wrap at a multiple of the size, so positions survive the wrap-around.\<close>

lemma kf_wrap:
  fixes x y :: u32
  assumes "is_power_of_2 s"
  shows "unat (x + y) mod unat s = (unat x + unat y) mod unat s"
proof -
  from assms obtain k where k: "k < 32" "s = 2 ^ k" by (auto simp: is_power_of_2_iff)
  then have "unat s dvd 2 ^ 32" by (simp only: unat_2p_u32) (simp add: le_imp_power_dvd del: power_numeral)
  then show ?thesis by (simp add: unat_word_ariths mod_mod_cancel)
qed

lemma kf_write_pos:
  "is_power_of_2 (kf_size f) \<Longrightarrow> unat (kf_in f AND (kf_size f - 1)) =
    (unat (kf_out f) + unat (kf_in f - kf_out f)) mod unat (kf_size f)"
  using kf_wrap [of "kf_size f" "kf_out f" "kf_in f - kf_out f"] by (simp add: kf_index)

lemma kfifo_put_eq:
  assumes "kf_inv f" "unat len \<le> length d"
  defines "n \<equiv> unat (kf_in f - kf_out f)"
  defines "k \<equiv> min (unat len) (kf_cap f - n)"
  shows "kfifo_put f d len = Some (of_nat k,
    f\<lparr>kf_buffer := ring_write (kf_buffer f) ((unat (kf_out f) + n) mod kf_cap f) (take k d),
      kf_in := kf_in f + of_nat k\<rparr>)"
proof -
  let ?s = "kf_size f" and ?b = "kf_buffer f"
  from assms(1) have p2: "is_power_of_2 ?s" and lb: "length ?b = unat ?s" and n: "kf_in f - kf_out f \<le> ?s"
    by (auto simp: kf_inv_def)
  define w where "w = kf_in f AND (?s - 1)"
  have pos: "0 < unat ?s" using p2 by (auto simp: is_power_of_2_def unat_gt_0)
  have uw: "unat w = (unat (kf_out f) + n) mod unat ?s"
    using kf_write_pos [OF p2] by (simp add: w_def n_def)
  then have w: "unat w < unat ?s" using pos by simp
  have "?s - kf_in f + kf_out f = ?s - (kf_in f - kf_out f)" by simp
  then have av: "unat (?s - kf_in f + kf_out f) = unat ?s - n"
    using unat_sub [OF n] by (simp only: n_def)
  define m where "m = min len (?s - kf_in f + kf_out f)"
  have m: "unat m = k"
    by (auto simp: m_def k_def kf_cap_def av min_def word_le_nat_alt)
  define l where "l = min m (?s - w)"
  have "unat (?s - w) = unat ?s - unat w" using w by (simp add: unat_sub word_le_nat_alt)
  then have l: "unat l = min k (length ?b - unat w)"
    by (auto simp: l_def lb m min_def word_le_nat_alt)
  have "l \<le> m" by (simp add: l_def)
  then have ml: "unat (m - l) = k - unat l" by (simp add: unat_sub m)
  have "do { c \<leftarrow> memcpy ?b (int (unat w)) d 0 (int (unat l)); memcpy c 0 d (int (unat l)) (int (k - unat l)) } =
    Some (ring_write ?b (unat w) (take k d))"
    unfolding l by (rule memcpy_ring_write) (use w lb assms(2) in \<open>auto simp: k_def kf_cap_def\<close>)
  then obtain c where c: "memcpy ?b (int (unat w)) d 0 (int (unat l)) = Some c"
    "memcpy c 0 d (int (unat l)) (int (k - unat l)) = Some (ring_write ?b (unat w) (take k d))"
    by (auto simp: bind_eq_Some_conv)
  have "kfifo_put f d len = do {
      b \<leftarrow> memcpy ?b (uint w) d 0 (uint l);
      b \<leftarrow> memcpy b 0 d (uint l) (uint (m - l));
      Some (m, f\<lparr>kf_buffer := b, kf_in := kf_in f + m\<rparr>) }"
    by (simp only: kfifo_put_def Let_def m_def l_def w_def)
  also have "\<dots> = Some (m, f\<lparr>kf_buffer := ring_write ?b (unat w) (take k d), kf_in := kf_in f + m\<rparr>)"
    by (simp only: uint_nat ml c bind.bind_lunit)
  also have "m = of_nat k" by (simp flip: m)
  finally show ?thesis by (simp only: uw kf_cap_def)
qed

lemma kfifo_get_eq:
  assumes "kf_inv f" "unat len \<le> length d"
  defines "n \<equiv> unat (kf_in f - kf_out f)"
  defines "k \<equiv> min (unat len) n"
  shows "kfifo_get f d len = Some (of_nat k,
    blit d 0 (ring_slice (kf_buffer f) (unat (kf_out f)) k), f\<lparr>kf_out := kf_out f + of_nat k\<rparr>)"
proof -
  let ?s = "kf_size f" and ?b = "kf_buffer f"
  from assms(1) have p2: "is_power_of_2 ?s" and lb: "length ?b = unat ?s" and n: "kf_in f - kf_out f \<le> ?s"
    by (auto simp: kf_inv_def)
  define r where "r = kf_out f AND (?s - 1)"
  have pos: "0 < unat ?s" using p2 by (auto simp: is_power_of_2_def unat_gt_0)
  have ur: "unat r = unat (kf_out f) mod length ?b" by (simp add: r_def kf_index [OF p2] lb)
  then have r: "unat r < unat ?s" using pos lb by simp
  define m where "m = min len (kf_in f - kf_out f)"
  have m: "unat m = k"
    by (auto simp: m_def k_def n_def min_def word_le_nat_alt)
  have nle: "n \<le> unat ?s" using n by (simp add: n_def word_le_nat_alt)
  define l where "l = min m (?s - r)"
  have "unat (?s - r) = unat ?s - unat r" using r by (simp add: unat_sub word_le_nat_alt)
  then have l: "unat l = min k (length ?b - unat r)"
    by (auto simp: l_def lb m min_def word_le_nat_alt)
  have "l \<le> m" by (simp add: l_def)
  then have ml: "unat (m - l) = k - unat l" by (simp add: unat_sub m)
  have "do { c \<leftarrow> memcpy d 0 ?b (int (unat r)) (int (unat l));
      memcpy c (int (unat l)) ?b 0 (int (k - unat l)) } =
    Some (blit d 0 (ring_slice ?b (unat r) k))"
    unfolding l by (rule memcpy_ring_read) (use r lb nle assms(2) in \<open>auto simp: k_def\<close>)
  then obtain c where c: "memcpy d 0 ?b (int (unat r)) (int (unat l)) = Some c"
    "memcpy c (int (unat l)) ?b 0 (int (k - unat l)) = Some (blit d 0 (ring_slice ?b (unat r) k))"
    by (auto simp: bind_eq_Some_conv)
  have "kfifo_get f d len = do {
      d \<leftarrow> memcpy d 0 ?b (uint r) (uint l);
      d \<leftarrow> memcpy d (uint l) ?b 0 (uint (m - l));
      Some (m, d, f\<lparr>kf_out := kf_out f + m\<rparr>) }"
    by (simp only: kfifo_get_def Let_def m_def l_def r_def)
  also have "\<dots> = Some (m, blit d 0 (ring_slice ?b (unat r) k), f\<lparr>kf_out := kf_out f + m\<rparr>)"
    by (simp only: uint_nat ml c bind.bind_lunit)
  also have "m = of_nat k" by (simp flip: m)
  finally show ?thesis by (simp only: ur ring_slice_mod)
qed

lemma kf_put_inv:
  assumes "kf_inv f" "length d \<le> kf_cap f - unat (kf_in f - kf_out f)"
  defines "f' \<equiv> f\<lparr>kf_buffer := ring_write (kf_buffer f)
      ((unat (kf_out f) + unat (kf_in f - kf_out f)) mod kf_cap f) d,
    kf_in := kf_in f + of_nat (length d)\<rparr>"
  shows "kf_inv f' \<and> kf_cap f' = kf_cap f \<and> kf_content f' = kf_content f @ d"
proof -
  let ?n = "unat (kf_in f - kf_out f)" and ?N = "kf_cap f"
  have f: "is_power_of_2 (kf_size f)" "length (kf_buffer f) = ?N" "?n \<le> ?N" "?N = unat (kf_size f)"
    using assms(1) by (auto simp: kf_inv_def kf_cap_def word_le_nat_alt)
  then have pos: "0 < ?N" by (auto simp: is_power_of_2_def unat_gt_0)
  have "kf_in f + of_nat (length d) - kf_out f = of_nat (?n + length d)" by simp
  moreover have "?n + length d < 2 ^ 32"
  proof -
    have "unat (kf_size f) < 2 ^ LENGTH(32)" by (rule unsigned_less)
    then show ?thesis using f assms(2) by simp
  qed
  ultimately have n': "unat (kf_in f + of_nat (length d) - kf_out f) = ?n + length d"
    by (simp only: unat_of_nat) simp
  have "kf_buffer f \<noteq> []" using f pos by auto
  then show ?thesis
    using f pos assms(2) n' ring_slice_write_append [of ?n d "kf_buffer f" "unat (kf_out f)"]
    by (auto simp: f'_def kf_inv_def kf_content_def kf_cap_def word_le_nat_alt)
qed

lemma kf_get_inv:
  assumes "kf_inv f" "k \<le> unat (kf_in f - kf_out f)"
  defines "f' \<equiv> f\<lparr>kf_out := kf_out f + of_nat k\<rparr>"
  shows "kf_inv f' \<and> kf_cap f' = kf_cap f \<and>
    kf_content f = ring_slice (kf_buffer f) (unat (kf_out f)) k @ kf_content f'"
proof -
  let ?n = "unat (kf_in f - kf_out f)"
  have f: "is_power_of_2 (kf_size f)" "length (kf_buffer f) = unat (kf_size f)" "?n \<le> unat (kf_size f)"
    using assms(1) by (auto simp: kf_inv_def word_le_nat_alt)
  have "?n < 2 ^ LENGTH(32)" by (rule unsigned_less)
  then have "k < 2 ^ 32" using assms(2) by simp
  then have uk: "unat (of_nat k :: u32) = k" by (simp add: unat_of_nat)
  have "kf_in f - (kf_out f + of_nat k) = (kf_in f - kf_out f) - of_nat k" by simp
  then have n': "unat (kf_in f - (kf_out f + of_nat k)) = ?n - k"
    using assms(2) uk by (simp only: unat_sub word_le_nat_alt)
  have "ring_slice (kf_buffer f) (unat (kf_out f + of_nat k)) (?n - k) =
      ring_slice (kf_buffer f) (unat (kf_out f) + k) (?n - k)"
    using kf_wrap [OF f(1), of "kf_out f" "of_nat k"] f(2) uk by (metis ring_slice_mod)
  then show ?thesis
    using f n' assms(2) ring_slice_append [of "kf_buffer f" "unat (kf_out f)" k "?n - k"]
    by (auto simp: f'_def kf_inv_def kf_content_def kf_cap_def word_le_nat_alt)
qed

section \<open>The fifo as a byte stream\<close>

definition kf_put :: "kfifo \<Rightarrow> byte list \<Rightarrow> (byte list \<times> kfifo) option" where
  "kf_put f d = do { (n, f) \<leftarrow> kfifo_put f d (of_nat (length d)); Some (take (unat n) d, f) }"

definition kf_get :: "kfifo \<Rightarrow> nat \<Rightarrow> (byte list \<times> kfifo) option" where
  "kf_get f n = do { (k, d, f) \<leftarrow> kfifo_get f (replicate n 0) (of_nat n); Some (take (unat k) d, f) }"

lemma unat_of_nat_le: "unat (of_nat n :: u32) \<le> n"
  by (simp add: unat_of_nat)

lemma unat_of_nat_min: "unat (of_nat (min (unat (x :: u32)) n) :: u32) = min (unat x) n"
proof -
  have "unat x < 2 ^ LENGTH(32)" by (rule unsigned_less)
  then show ?thesis by (simp add: unat_of_nat min_def)
qed

interpretation kf: byte_fifo kf_inv kf_content kf_cap kf_put kf_get "\<lambda>n. n"
proof
  fix f assume inv: "kf_inv f"
  then show "length (kf_content f) \<le> kf_cap f"
    by (simp add: kf_inv_def kf_content_def kf_cap_def word_le_nat_alt)
  fix d :: "byte list"
  define k where "k = min (unat (of_nat (length d) :: u32)) (kf_cap f - unat (kf_in f - kf_out f))"
  have kd: "k \<le> length d" using unat_of_nat_le [of "length d"] by (simp add: k_def)
  have "unat (of_nat k :: u32) = k" by (simp add: k_def unat_of_nat_min)
  moreover have "length (take k d) = k" using kd by simp
  moreover have "k \<le> kf_cap f - unat (kf_in f - kf_out f)" by (simp add: k_def)
  ultimately show "\<exists>a f'. kf_put f d = Some (a, f') \<and> kf_inv f' \<and> kf_cap f' = kf_cap f \<and>
      kf_content f' = kf_content f @ a \<and> prefix a d"
    using kfifo_put_eq [OF inv unat_of_nat_le, of d] kf_put_inv [OF inv, of "take k d"]
    by (simp add: kf_put_def k_def [symmetric] take_is_prefix)
next
  fix f n assume inv: "kf_inv f"
  define k where "k = min (unat (of_nat n :: u32)) (unat (kf_in f - kf_out f))"
  have kn: "k \<le> n" using unat_of_nat_le [of n] by (simp add: k_def)
  moreover have "unat (of_nat k :: u32) = k" by (simp add: k_def unat_of_nat_min)
  moreover have "k \<le> unat (kf_in f - kf_out f)" by (simp add: k_def)
  ultimately show "\<exists>a f'. kf_get f n = Some (a, f') \<and> kf_inv f' \<and> kf_cap f' = kf_cap f \<and>
      kf_content f = a @ kf_content f' \<and> length a \<le> n"
    using kfifo_get_eq [OF inv, of "of_nat n" "replicate n 0"] unat_of_nat_le [of n]
      kf_get_inv [OF inv, of k]
    by (simp add: kf_get_def k_def [symmetric] blit_def)
qed

section \<open>Properties\<close>

text \<open>
  \<open>kfifo_init\<close> stops the program exactly when the length is not a power of two;
  otherwise the fifo over a buffer of that length is well-formed and empty.
\<close>

theorem kfifo_init_power_of_2:
  "kfifo_init buffer len =
     (if \<exists>k<32. len = 2 ^ k
      then Some \<lparr>kf_buffer = buffer, kf_size = len, kf_in = 0, kf_out = 0\<rparr> else None)"
  by (simp add: kfifo_init_def is_power_of_2_iff)

text \<open>
  C40. With free running counters that wrap at \<open>2 ^ 32\<close> (any values of \<open>in\<close> and \<open>out\<close> whose
  difference is a fill level), any sequence of \<open>kfifo_put\<close> and \<open>kfifo_get\<close> calls stays inside
  the buffers and delivers exactly the accepted bytes in order.
\<close>

theorem kfifo_stream_conservation:
  assumes "kf_inv f"
  shows "\<exists>acc out f'. fifo_run kf_put kf_get f cs = Some (acc, out, f') \<and> kf_inv f' \<and>
    kf_content f @ acc = out @ kf_content f' \<and> length (kf_content f') \<le> kf_cap f"
  using kf.run_conserves [OF assms, of cs] kf.run_bounded [OF assms, of cs] by fastforce

theorem kfifo_stream_conservation_witness:
  "\<exists>acc out f'. fifo_run kf_put kf_get
     \<lparr>kf_buffer = [0, 0, 0, 0], kf_size = 4, kf_in = 4294967295, kf_out = 4294967295\<rparr>
     [Put [1, 2, 3], Get 2, Put [4]] = Some (acc, out, f') \<and> acc = out @ kf_content f'"
  using kfifo_stream_conservation [of "\<lparr>kf_buffer = [0, 0, 0, 0], kf_size = 4,
      kf_in = 4294967295, kf_out = 4294967295\<rparr>" "[Put [1, 2, 3], Get 2, Put [4]]"]
  by (auto simp: kf_inv_def is_power_of_2_def kf_content_def)

text \<open>
  \<open>kfifo_put\<close> accepts as many bytes as fit and says so in its return value, \<open>kfifo_get\<close>
  hands out as many as there are: the return value is the minimum of the request and of
  the free space, or of the fill level, and \<open>kfifo_len\<close> is the fill level.
\<close>

lemma kf_fill: "kf_inv f \<Longrightarrow> length (kf_content f) = unat (kfifo_len f)"
  by (simp add: kf_content_def kfifo_len_def)

lemma kfifo_put_spec:
  assumes "kf_inv f" "unat len \<le> length d"
  defines "k \<equiv> min (unat len) (kf_cap f - length (kf_content f))"
  shows "\<exists>f'. kfifo_put f d len = Some (of_nat k, f') \<and> unat (of_nat k :: u32) = k \<and>
      kf_inv f' \<and> kf_content f' = kf_content f @ take k d"
proof -
  have k: "k = min (unat len) (kf_cap f - unat (kf_in f - kf_out f))"
    by (simp add: k_def kf_fill [OF assms(1)] kfifo_len_def)
  have "unat (of_nat k :: u32) = k" by (simp add: k_def unat_of_nat_min)
  moreover have "length (take k d) = k" using assms(2) by (simp add: k)
  ultimately show ?thesis
    using kfifo_put_eq [OF assms(1,2)] kf_put_inv [OF assms(1), of "take k d"]
    unfolding k by auto
qed

lemma kfifo_get_spec:
  assumes "kf_inv f" "unat len \<le> length d"
  defines "k \<equiv> min (unat len) (length (kf_content f))"
  shows "\<exists>f'. kfifo_get f d len = Some (of_nat k, take k (kf_content f) @ drop k d, f') \<and>
      unat (of_nat k :: u32) = k \<and> kf_inv f' \<and> kf_content f' = drop k (kf_content f)"
proof -
  have k: "k = min (unat len) (unat (kf_in f - kf_out f))"
    by (simp add: k_def kf_fill [OF assms(1)] kfifo_len_def)
  have uk: "unat (of_nat k :: u32) = k" by (simp add: k_def unat_of_nat_min)
  let ?f = "f\<lparr>kf_out := kf_out f + of_nat k\<rparr>"
  have *: "kf_inv ?f" "kf_content f = ring_slice (kf_buffer f) (unat (kf_out f)) k @ kf_content ?f"
    using kf_get_inv [OF assms(1), of k] by (simp_all add: k)
  then have "take k (kf_content f) = ring_slice (kf_buffer f) (unat (kf_out f)) k"
    "drop k (kf_content f) = kf_content ?f" by simp_all
  then show ?thesis
    using kfifo_get_eq [OF assms(1,2), folded k] uk * by (simp add: blit_def)
qed

lemma kfifo_len_of: "kf_inv f \<Longrightarrow> kfifo_len f = of_nat (length (kf_content f))"
  by (simp add: kf_fill)

text \<open>
  \<open>kfifo_put\<close> accepts as many bytes as fit and says so in its return value, \<open>kfifo_get\<close>
  hands out as many as there are: the return value is the minimum of the request and of
  the free space, or of the fill level; nothing outside the copied range changes, and
  \<open>kfifo_len\<close> reports the fill level afterwards.
\<close>

theorem kfifo_partial_transfer:
  assumes "kf_inv f" "unat len \<le> length d"
  shows "(\<exists>n f'. kfifo_put f d len = Some (n, f') \<and>
      unat n = min (unat len) (kf_cap f - length (kf_content f)) \<and>
      kf_content f' = kf_content f @ take (unat n) d \<and>
      kfifo_len f' = of_nat (length (kf_content f'))) \<and>
    (\<exists>n f'. kfifo_get f d len = Some (n, take (unat n) (kf_content f) @ drop (unat n) d, f') \<and>
      unat n = min (unat len) (length (kf_content f)) \<and>
      kf_content f' = drop (unat n) (kf_content f) \<and>
      kfifo_len f' = of_nat (length (kf_content f')))"
  using kfifo_put_spec [OF assms] kfifo_get_spec [OF assms] kfifo_len_of by metis

theorem kfifo_partial_transfer_witness:
  "\<exists>n f'. kfifo_put \<lparr>kf_buffer = [0, 0], kf_size = 2, kf_in = 0, kf_out = 4294967295\<rparr> [7, 8] 2 =
      Some (n, f') \<and> unat n = 1"
  using kfifo_partial_transfer [of "\<lparr>kf_buffer = [0, 0], kf_size = 2, kf_in = 0, kf_out = 4294967295\<rparr>"
      2 "[7, 8]"]
  by (auto simp: kf_inv_def is_power_of_2_def kf_content_def kf_cap_def)

text \<open>
  \<open>kfifo_peek\<close> never returns a piece of the fifo: it answers 0 when there is less data
  than wanted, and in every other case stores through a pointer it has just set to null.
\<close>

theorem kfifo_peek_never_peeks:
  "kfifo_peek f len_want len1 len2 = (if kfifo_len f < len_want then Some 0 else None)"
  by (simp add: kfifo_peek_def Let_def store_through_def kfifo_len_def)

end
