(* ===== verification/HwTimer.thy ===== *)
theory HwTimer
  imports Prelude
begin

text \<open>
  \<open>utils/hwtimer_list/hwtimer_list.c\<close> over \<open>platform/hal/hal_timer.c\<close>: ten software timers
  multiplexed on one hardware timer. The active timers form a linked list in the order of
  their deadlines; the node's \<open>time\<close> is the difference to its predecessor's deadline, and the
  head's remaining time is what the hardware counter reads.

  The model keeps the C pointers: nodes live in the array \<open>timer\<close>, a pointer is \<open>None\<close> or
  \<open>Some\<close> index, and the loops follow \<open>next\<close>. Registers of the timer block are fields of
  \<open>dual_timer\<close>; the two that the hardware counts by itself, \<open>tm_value\<close> and \<open>tm_sys\<close>, are only
  read. A value of \<open>None\<close> is a failing \<open>ASSERT\<close>. Times are \<open>nat\<close> with \<open>add32\<close> and \<open>sub32\<close>.
\<close>

section \<open>The hardware timer\<close>

record dual_timer =
  tm_en :: bool
  tm_inten :: bool
  tm_oneshot :: bool
  tm_periodic :: bool
  tm_load :: nat
  tm_value :: nat
  tm_int :: bool
  tm_sys :: nat
  tm_start_time :: nat

definition HAL_TIMER_LOAD_DELTA :: nat where
  "HAL_TIMER_LOAD_DELTA = 1"

definition hal_timer_reload :: "nat \<Rightarrow> dual_timer \<Rightarrow> dual_timer" where
  "hal_timer_reload load h =
     h\<lparr>tm_load := (if load > HAL_TIMER_LOAD_DELTA then sub32 load HAL_TIMER_LOAD_DELTA else 1)\<rparr>"

definition hal_timer_continue :: "dual_timer \<Rightarrow> dual_timer" where
  "hal_timer_continue h = h\<lparr>tm_en := True\<rparr>"

definition hal_timer_start :: "nat \<Rightarrow> dual_timer \<Rightarrow> dual_timer" where
  "hal_timer_start load h =
     hal_timer_continue (hal_timer_reload load (h\<lparr>tm_start_time := tm_sys h\<rparr>))"

definition hal_timer_stop :: "dual_timer \<Rightarrow> dual_timer" where
  "hal_timer_stop h = h\<lparr>tm_en := False, tm_int := False\<rparr>"

datatype hal_timer_type = HAL_TIMER_TYPE_FREERUNNING | HAL_TIMER_TYPE_ONESHOT
  | HAL_TIMER_TYPE_PERIODIC

definition hal_timer_setup :: "hal_timer_type \<Rightarrow> bool \<Rightarrow> dual_timer \<Rightarrow> dual_timer" where
  "hal_timer_setup type handler h =
     h\<lparr>tm_int := False, tm_oneshot := (type = HAL_TIMER_TYPE_ONESHOT),
       tm_periodic := (type = HAL_TIMER_TYPE_PERIODIC), tm_inten := handler, tm_en := False\<rparr>"

definition hal_timer_get :: "dual_timer \<Rightarrow> nat" where
  "hal_timer_get h = tm_value h"

definition hal_timer_is_enabled :: "dual_timer \<Rightarrow> bool" where
  "hal_timer_is_enabled h = tm_en h"

definition hal_timer_get_elapsed_time :: "dual_timer \<Rightarrow> nat" where
  "hal_timer_get_elapsed_time h = sub32 (tm_sys h) (tm_start_time h)"

section \<open>The timer list\<close>

datatype hwtimer_state =
  HWTIMER_STATE_FREE | HWTIMER_STATE_ALLOC | HWTIMER_STATE_ACTIVE | HWTIMER_STATE_FIRED
| HWTIMER_STATE_CALLBACK

datatype e_hwtimer =
  E_HWTIMER_OK | E_HWTIMER_INVAL_ID | E_HWTIMER_INVAL_ST | E_HWTIMER_IN_CALLBACK
| E_HWTIMER_NOT_FOUND

record HWTIMER_T =
  ht_state :: hwtimer_state
  ht_next :: "nat option"
  ht_time :: nat
  ht_callback :: "nat option"
  ht_param :: nat

record hwtimer_list =
  hl_timer :: "HWTIMER_T list"
  hl_free :: "nat option"
  hl_active :: "nat option"
  hl_fired :: "nat option"
  hl_hw :: dual_timer
  err_irq_active_null :: nat
  err_irq_early :: nat

definition HWTIMER_NUM :: nat where
  "HWTIMER_NUM = 10"

text \<open>Field updates of one node, and what the code reads through a pointer.\<close>

abbreviation node :: "hwtimer_list \<Rightarrow> nat \<Rightarrow> HWTIMER_T" where
  "node s i \<equiv> hl_timer s ! i"

definition set_node :: "nat \<Rightarrow> (HWTIMER_T \<Rightarrow> HWTIMER_T) \<Rightarrow> hwtimer_list \<Rightarrow> hwtimer_list" where
  "set_node i f s = s\<lparr>hl_timer := (hl_timer s)[i := f (hl_timer s ! i)]\<rparr>"

definition invalid_id :: "nat option \<Rightarrow> bool" where
  "invalid_id tid = (case tid of None \<Rightarrow> True | Some i \<Rightarrow> i \<ge> HWTIMER_NUM)"

fun hwtimer_init_loop :: "nat \<Rightarrow> HWTIMER_T list \<Rightarrow> HWTIMER_T list" where
  "hwtimer_init_loop 0 ts = ts"
| "hwtimer_init_loop (Suc i) ts =
     (hwtimer_init_loop i ts)
       [i := (hwtimer_init_loop i ts ! i)\<lparr>ht_state := HWTIMER_STATE_FREE, ht_next := Some (Suc i)\<rparr>]"

definition hwtimer_init :: "hwtimer_list \<Rightarrow> hwtimer_list" where
  "hwtimer_init s =
     (let ts = hwtimer_init_loop (HWTIMER_NUM - 1) (hl_timer s);
          ts = ts[HWTIMER_NUM - 1 := (ts ! (HWTIMER_NUM - 1))\<lparr>ht_next := None\<rparr>]
      in s\<lparr>hl_timer := ts, hl_free := Some 0, hl_active := None, hl_fired := None,
           hl_hw := hal_timer_setup HAL_TIMER_TYPE_ONESHOT True (hl_hw s)\<rparr>)"

definition hwtimer_alloc ::
  "nat option \<Rightarrow> nat \<Rightarrow> hwtimer_list \<Rightarrow> (nat option \<times> hwtimer_list) option" where
  "hwtimer_alloc callback param s =
     (case hl_free s of
        None \<Rightarrow> Some (None, s)
      | Some t \<Rightarrow>
          let s = s\<lparr>hl_free := ht_next (node s t)\<rparr> in
          if ht_state (node s t) \<noteq> HWTIMER_STATE_FREE then None
          else Some (Some t, set_node t (\<lambda>n. n\<lparr>ht_state := HWTIMER_STATE_ALLOC,
            ht_callback := callback, ht_param := param, ht_next := None\<rparr>) s))"

definition hwtimer_free :: "nat option \<Rightarrow> hwtimer_list \<Rightarrow> e_hwtimer \<times> hwtimer_list" where
  "hwtimer_free tid s =
     (if invalid_id tid then (E_HWTIMER_INVAL_ID, s)
      else let t = the tid in
        if ht_state (node s t) \<noteq> HWTIMER_STATE_ALLOC then (E_HWTIMER_INVAL_ST, s)
        else let s = set_node t (\<lambda>n. n\<lparr>ht_state := HWTIMER_STATE_FREE\<rparr>) s;
                 s = set_node t (\<lambda>n. n\<lparr>ht_next := hl_free s\<rparr>) s
             in (E_HWTIMER_OK, s\<lparr>hl_free := Some t\<rparr>))"

text \<open>
  Starting: the list is searched from the second node for the first one that is not due
  before the new timer; \<open>ticks\<close> becomes relative to the node before it.
\<close>

partial_function (option) start_scan ::
  "HWTIMER_T list \<Rightarrow> nat \<Rightarrow> nat option \<Rightarrow> nat \<Rightarrow> (nat \<times> nat option \<times> nat) option" where
  "start_scan ts pre next ticks =
     (case next of
        None \<Rightarrow> Some (pre, next, ticks)
      | Some n \<Rightarrow>
          if ht_time (ts ! n) < ticks
          then start_scan ts n (ht_next (ts ! n)) (sub32 ticks (ht_time (ts ! n)))
          else Some (pre, next, ticks))"

definition start_mark :: "nat \<Rightarrow> bool \<Rightarrow> nat option \<Rightarrow> nat \<Rightarrow> hwtimer_list \<Rightarrow> hwtimer_list" where
  "start_mark t update callback param s =
     (let s = set_node t (\<lambda>n. n\<lparr>ht_state := HWTIMER_STATE_ACTIVE\<rparr>) s
      in if update then set_node t (\<lambda>n. n\<lparr>ht_callback := callback, ht_param := param\<rparr>) s else s)"

definition start_link :: "nat \<Rightarrow> nat \<Rightarrow> hwtimer_list \<Rightarrow> hwtimer_list option" where
  "start_link t ticks s = do {
     (ticks, s) \<leftarrow>
       (case hl_active s of
          None \<Rightarrow>
            let s = set_node t (\<lambda>n. n\<lparr>ht_next := None\<rparr>) s;
                s = s\<lparr>hl_active := Some t, hl_hw := hal_timer_start ticks (hl_hw s)\<rparr>
            in Some (ticks, s)
        | Some a \<Rightarrow>
            let cur_time = hal_timer_get (hl_hw s) in
            if \<not> (cur_time \<le> ht_time (node s a) \<or> cur_time \<le> HAL_TIMER_LOAD_DELTA) then None
            else if cur_time > ticks then
              let s = set_node a (\<lambda>n. n\<lparr>ht_time := sub32 cur_time ticks\<rparr>) s;
                  s = set_node t (\<lambda>n. n\<lparr>ht_next := Some a\<rparr>) s;
                  s = s\<lparr>hl_active := Some t,
                        hl_hw := hal_timer_start ticks (hal_timer_stop (hl_hw s))\<rparr>
              in Some (ticks, s)
            else do {
              (pre, next, ticks) \<leftarrow>
                start_scan (hl_timer s) a (ht_next (node s a)) (sub32 ticks cur_time);
              let s = (case next of
                         None \<Rightarrow> s
                       | Some n \<Rightarrow> set_node n (\<lambda>m. m\<lparr>ht_time := sub32 (ht_time m) ticks\<rparr>) s);
                  s = set_node pre (\<lambda>n. n\<lparr>ht_next := Some t\<rparr>) s;
                  s = set_node t (\<lambda>n. n\<lparr>ht_next := next\<rparr>) s
              in Some (ticks, s) });
     Some (set_node t (\<lambda>n. n\<lparr>ht_time := ticks\<rparr>) s) }"

definition hwtimer_start_int ::
  "nat option \<Rightarrow> bool \<Rightarrow> nat option \<Rightarrow> nat \<Rightarrow> nat \<Rightarrow> hwtimer_list \<Rightarrow>
   (e_hwtimer \<times> hwtimer_list) option" where
  "hwtimer_start_int tid update callback param ticks s =
     (if invalid_id tid then Some (E_HWTIMER_INVAL_ID, s) else
      let t = the tid;
          ticks = (if ticks < HAL_TIMER_LOAD_DELTA then HAL_TIMER_LOAD_DELTA else ticks) in
      if ht_state (node s t) \<noteq> HWTIMER_STATE_ALLOC \<and> ht_state (node s t) \<noteq> HWTIMER_STATE_CALLBACK
      then Some (E_HWTIMER_INVAL_ST, s)
      else do {
        s \<leftarrow> start_link t ticks (start_mark t update callback param s);
        Some (E_HWTIMER_OK, s) })"

definition hwtimer_start ::
  "nat option \<Rightarrow> nat \<Rightarrow> hwtimer_list \<Rightarrow> (e_hwtimer \<times> hwtimer_list) option" where
  "hwtimer_start tid ticks s = hwtimer_start_int tid False None 0 ticks s"

definition hwtimer_update_then_start ::
  "nat option \<Rightarrow> nat option \<Rightarrow> nat \<Rightarrow> nat \<Rightarrow> hwtimer_list \<Rightarrow> (e_hwtimer \<times> hwtimer_list) option" where
  "hwtimer_update_then_start tid callback param ticks s =
     hwtimer_start_int tid True callback param ticks s"

definition hwtimer_update ::
  "nat option \<Rightarrow> nat option \<Rightarrow> nat \<Rightarrow> hwtimer_list \<Rightarrow> e_hwtimer \<times> hwtimer_list" where
  "hwtimer_update tid callback param s =
     (if invalid_id tid then (E_HWTIMER_INVAL_ID, s)
      else let t = the tid in
        if ht_state (node s t) = HWTIMER_STATE_ALLOC \<or> ht_state (node s t) = HWTIMER_STATE_CALLBACK
        then (E_HWTIMER_OK, set_node t (\<lambda>n. n\<lparr>ht_callback := callback, ht_param := param\<rparr>) s)
        else (E_HWTIMER_INVAL_ST, s))"

text \<open>Stopping: searching a list for a timer, and spending overrun time on the next ones.\<close>

partial_function (option) find_scan ::
  "HWTIMER_T list \<Rightarrow> nat \<Rightarrow> nat \<Rightarrow> nat option \<Rightarrow> (nat \<times> nat option) option" where
  "find_scan ts t pre next =
     (case next of
        None \<Rightarrow> Some (pre, next)
      | Some n \<Rightarrow> if n \<noteq> t then find_scan ts t n (ht_next (ts ! n)) else Some (pre, next))"

partial_function (option) overrun_scan ::
  "HWTIMER_T list \<Rightarrow> nat option \<Rightarrow> nat \<Rightarrow> (HWTIMER_T list \<times> nat option \<times> nat) option" where
  "overrun_scan ts pre elapsed =
     (case pre of
        None \<Rightarrow> Some (ts, pre, elapsed)
      | Some p \<Rightarrow>
          if ht_time (ts ! p) \<le> elapsed
          then overrun_scan (ts[p := (ts ! p)\<lparr>ht_time := 0\<rparr>]) (ht_next (ts ! p))
                 (sub32 elapsed (ht_time (ts ! p)))
          else Some (ts, pre, elapsed))"

definition stop_active_head :: "nat \<Rightarrow> hwtimer_list \<Rightarrow> hwtimer_list option" where
  "stop_active_head t s =
     (let cur_time = hal_timer_get (hl_hw s) in
      if \<not> (cur_time \<le> ht_time (node s t) \<or> cur_time \<le> HAL_TIMER_LOAD_DELTA) then None else
      let s = s\<lparr>hl_hw := hal_timer_stop (hl_hw s)\<rparr> in
      (case ht_next (node s t) of
         None \<Rightarrow> Some (s\<lparr>hl_active := None\<rparr>)
       | Some n \<Rightarrow> do {
           s \<leftarrow>
             (if cur_time = 0 then
                let elapsed_time = hal_timer_get_elapsed_time (hl_hw s) in
                if \<not> add32 elapsed_time HAL_TIMER_LOAD_DELTA \<ge> ht_time (node s t) then None else
                let elapsed_time = (if elapsed_time > ht_time (node s t)
                                    then sub32 elapsed_time (ht_time (node s t)) else 0) in
                do {
                  (ts, pre, elapsed_time) \<leftarrow> overrun_scan (hl_timer s) (Some n) elapsed_time;
                  let s = s\<lparr>hl_timer := ts\<rparr>
                  in Some (case pre of
                       None \<Rightarrow> s
                     | Some p \<Rightarrow> set_node p (\<lambda>m. m\<lparr>ht_time := sub32 (ht_time m) elapsed_time\<rparr>) s) }
              else Some (set_node n (\<lambda>m. m\<lparr>ht_time := add32 (ht_time m) cur_time\<rparr>) s));
           Some (s\<lparr>hl_hw := hal_timer_start (ht_time (node s n)) (hl_hw s), hl_active := Some n\<rparr>) }))"

definition stop_active_inner :: "nat \<Rightarrow> nat \<Rightarrow> hwtimer_list \<Rightarrow> hwtimer_list option" where
  "stop_active_inner t a s = do {
     (pre, next) \<leftarrow> find_scan (hl_timer s) t a (ht_next (node s a));
     (case next of
        None \<Rightarrow> None
      | Some n \<Rightarrow>
          let s = set_node pre (\<lambda>m. m\<lparr>ht_next := ht_next (node s n)\<rparr>) s in
          Some (case ht_next (node s n) of
              None \<Rightarrow> s
            | Some k \<Rightarrow>
                set_node k (\<lambda>m. m\<lparr>ht_time := add32 (ht_time m) (ht_time (node s t))\<rparr>) s)) }"

definition stop_fired :: "nat \<Rightarrow> hwtimer_list \<Rightarrow> hwtimer_list option" where
  "stop_fired t s =
     (case hl_fired s of
        None \<Rightarrow> None
      | Some f \<Rightarrow>
          if f = t then Some (s\<lparr>hl_fired := ht_next (node s f)\<rparr>)
          else do {
            (pre, next) \<leftarrow> find_scan (hl_timer s) t f (ht_next (node s f));
            (case next of
               None \<Rightarrow> None
             | Some n \<Rightarrow> Some (set_node pre (\<lambda>m. m\<lparr>ht_next := ht_next (node s n)\<rparr>) s)) })"

definition hwtimer_stop :: "nat option \<Rightarrow> hwtimer_list \<Rightarrow> (e_hwtimer \<times> hwtimer_list) option" where
  "hwtimer_stop tid s =
     (if invalid_id tid then Some (E_HWTIMER_INVAL_ID, s) else
      let t = the tid;
          finish = (\<lambda>s. Some (E_HWTIMER_OK,
            set_node t (\<lambda>n. n\<lparr>ht_state := HWTIMER_STATE_ALLOC, ht_next := None\<rparr>) s)) in
      (case ht_state (node s t) of
         HWTIMER_STATE_ALLOC \<Rightarrow> Some (E_HWTIMER_OK, s)
       | HWTIMER_STATE_ACTIVE \<Rightarrow>
           (case hl_active s of
              None \<Rightarrow> None
            | Some a \<Rightarrow>
                if a = t then stop_active_head t s \<bind> finish else stop_active_inner t a s \<bind> finish)
       | HWTIMER_STATE_FIRED \<Rightarrow> stop_fired t s \<bind> finish
       | HWTIMER_STATE_CALLBACK \<Rightarrow> Some (E_HWTIMER_IN_CALLBACK, s)
       | HWTIMER_STATE_FREE \<Rightarrow> Some (E_HWTIMER_INVAL_ST, s)))"

text \<open>
  The interrupt handler: every timer that is due moves to the list \<open>fired\<close>, the hardware is
  loaded for the next one, then the fired timers are called one by one. The callbacks are
  the parameter \<open>cb\<close>: they run with interrupts enabled and may call the functions above.
\<close>

partial_function (option) fire_scan ::
  "HWTIMER_T list \<Rightarrow> nat \<Rightarrow> nat option \<Rightarrow> nat \<Rightarrow> (HWTIMER_T list \<times> nat \<times> nat option \<times> nat) option"
where
  "fire_scan ts pre lst elapsed =
     (case lst of
        None \<Rightarrow> Some (ts, pre, lst, elapsed)
      | Some l \<Rightarrow>
          if ht_time (ts ! l) \<le> elapsed
          then fire_scan (ts[l := (ts ! l)\<lparr>ht_state := HWTIMER_STATE_FIRED\<rparr>]) l (ht_next (ts ! l))
                 (sub32 elapsed (ht_time (ts ! l)))
          else Some (ts, pre, lst, elapsed))"

definition handler_expire :: "nat \<Rightarrow> nat \<Rightarrow> hwtimer_list \<Rightarrow> hwtimer_list option" where
  "handler_expire a elapsed s =
     (let elapsed = (if elapsed > ht_time (node s a) then sub32 elapsed (ht_time (node s a)) else 0);
          s = set_node a (\<lambda>n. n\<lparr>ht_state := HWTIMER_STATE_FIRED\<rparr>) s in
      do {
        (ts, pre, lst, elapsed) \<leftarrow> fire_scan (hl_timer s) a (ht_next (node s a)) elapsed;
        let s = set_node pre (\<lambda>n. n\<lparr>ht_next := None\<rparr>) (s\<lparr>hl_timer := ts\<rparr>);
            s = s\<lparr>hl_fired := hl_active s, hl_active := lst\<rparr>
        in Some (case lst of
             Some l \<Rightarrow>
               let s = set_node l (\<lambda>n. n\<lparr>ht_time := sub32 (ht_time n) elapsed\<rparr>) s
               in s\<lparr>hl_hw := hal_timer_start (ht_time (node s l)) (hl_hw s)\<rparr>
           | None \<Rightarrow> s\<lparr>hl_hw := hal_timer_stop (hl_hw s)\<rparr>) })"

definition fire_begin :: "nat \<Rightarrow> hwtimer_list \<Rightarrow> hwtimer_list" where
  "fire_begin l s =
     (let s = s\<lparr>hl_fired := ht_next (node s l)\<rparr>
      in set_node l (\<lambda>n. n\<lparr>ht_state := HWTIMER_STATE_CALLBACK, ht_next := None\<rparr>) s)"

definition fire_call ::
  "(nat \<Rightarrow> nat \<Rightarrow> hwtimer_list \<Rightarrow> hwtimer_list option) \<Rightarrow> nat \<Rightarrow> hwtimer_list \<Rightarrow>
   hwtimer_list option" where
  "fire_call cb l s = (case ht_callback (node s l) of
     None \<Rightarrow> Some s | Some c \<Rightarrow> cb c (ht_param (node s l)) s)"

definition fire_end :: "nat \<Rightarrow> hwtimer_list \<Rightarrow> hwtimer_list" where
  "fire_end l s = (if ht_state (node s l) = HWTIMER_STATE_CALLBACK
     then set_node l (\<lambda>n. n\<lparr>ht_state := HWTIMER_STATE_ALLOC\<rparr>) s else s)"

partial_function (option) fire_loop ::
  "(nat \<Rightarrow> nat \<Rightarrow> hwtimer_list \<Rightarrow> hwtimer_list option) \<Rightarrow> hwtimer_list \<Rightarrow> hwtimer_list option" where
  "fire_loop cb s =
     (case hl_fired s of
        None \<Rightarrow> Some s
      | Some l \<Rightarrow> fire_call cb l (fire_begin l s) \<bind> (\<lambda>s. fire_loop cb (fire_end l s)))"

definition hwtimer_handler ::
  "(nat \<Rightarrow> nat \<Rightarrow> hwtimer_list \<Rightarrow> hwtimer_list option) \<Rightarrow> hwtimer_list \<Rightarrow> hwtimer_list option" where
  "hwtimer_handler cb s =
     (case hl_active s of
        None \<Rightarrow>
          if hal_timer_is_enabled (hl_hw s) then None
          else Some (s\<lparr>err_irq_active_null := add32 (err_irq_active_null s) 1\<rparr>)
      | Some a \<Rightarrow>
          let elapsed = hal_timer_get_elapsed_time (hl_hw s) in
          if ht_time (node s a) > add32 elapsed HAL_TIMER_LOAD_DELTA then
            if \<not> hal_timer_is_enabled (hl_hw s) then None
            else Some (s\<lparr>err_irq_early := add32 (err_irq_early s) 1\<rparr>)
          else handler_expire a elapsed s \<bind> fire_loop cb)"

section \<open>Linked lists in the node array\<close>

fun seg :: "HWTIMER_T list \<Rightarrow> nat option \<Rightarrow> nat list \<Rightarrow> nat option \<Rightarrow> bool" where
  "seg ts p [] q \<longleftrightarrow> p = q"
| "seg ts p (x # xs) q \<longleftrightarrow> p = Some x \<and> x < length ts \<and> seg ts (ht_next (ts ! x)) xs q"

abbreviation chain :: "HWTIMER_T list \<Rightarrow> nat option \<Rightarrow> nat list \<Rightarrow> bool" where
  "chain ts p xs \<equiv> seg ts p xs None"

abbreviation hd_opt :: "nat list \<Rightarrow> nat option" where
  "hd_opt xs \<equiv> (case xs of [] \<Rightarrow> None | x # _ \<Rightarrow> Some x)"

lemma seg_append [simp]: "seg ts p (xs @ ys) q \<longleftrightarrow> (\<exists>r. seg ts p xs r \<and> seg ts r ys q)"
  by (induction xs arbitrary: p) auto

lemma seg_cong:
  "(\<And>x. x \<in> set xs \<Longrightarrow> ht_next (ts' ! x) = ht_next (ts ! x)) \<Longrightarrow> length ts' = length ts \<Longrightarrow>
   seg ts' p xs q = seg ts p xs q"
  by (induction xs arbitrary: p) auto

lemma chain_hd: "chain ts p xs \<Longrightarrow> p = hd_opt xs"
  by (cases xs) auto

lemma chain_bound: "seg ts p xs q \<Longrightarrow> x \<in> set xs \<Longrightarrow> x < length ts"
  by (induction xs arbitrary: p) auto

lemma seg_last: "seg ts p (xs @ [x]) q \<longleftrightarrow> seg ts p xs (Some x) \<and> x < length ts \<and> ht_next (ts ! x) = q"
  by auto

text \<open>Deadlines: the head's is the counter value, each further one adds its delta.\<close>

fun sched :: "nat \<Rightarrow> HWTIMER_T list \<Rightarrow> nat list \<Rightarrow> (nat \<times> nat) list" where
  "sched c ts [] = []"
| "sched c ts (x # xs) = (x, c + ht_time (ts ! x)) # sched (c + ht_time (ts ! x)) ts xs"

fun deadlines :: "nat \<Rightarrow> HWTIMER_T list \<Rightarrow> nat list \<Rightarrow> (nat \<times> nat) list" where
  "deadlines cur ts [] = []"
| "deadlines cur ts (x # xs) = (x, cur) # sched cur ts xs"

definition span :: "HWTIMER_T list \<Rightarrow> nat list \<Rightarrow> nat" where
  "span ts xs = (\<Sum>x\<leftarrow>xs. ht_time (ts ! x))"

lemma span_simps [simp]:
  "span ts [] = 0" "span ts (x # xs) = ht_time (ts ! x) + span ts xs"
  "span ts (xs @ ys) = span ts xs + span ts ys"
  by (simp_all add: span_def)

lemma sched_append [simp]:
  "sched c ts (xs @ ys) = sched c ts xs @ sched (c + span ts xs) ts ys"
  by (induction xs arbitrary: c) (auto simp: add.assoc)

lemma sched_cong:
  "(\<And>x. x \<in> set xs \<Longrightarrow> ht_time (ts' ! x) = ht_time (ts ! x)) \<Longrightarrow> sched c ts' xs = sched c ts xs"
  by (induction xs arbitrary: c) auto

lemma map_fst_sched [simp]: "map fst (sched c ts xs) = xs"
  by (induction xs arbitrary: c) auto

lemma map_fst_deadlines [simp]: "map fst (deadlines c ts xs) = xs"
  by (cases xs) auto

lemma sched_ge: "(x, t) \<in> set (sched c ts xs) \<Longrightarrow> c \<le> t"
  by (induction xs arbitrary: c) fastforce+

lemma sorted_sched: "sorted (map snd (sched c ts xs))"
  by (induction xs arbitrary: c) (auto dest: sched_ge)

lemma sorted_deadlines: "sorted (map snd (deadlines c ts xs))"
  by (cases xs) (auto simp: sorted_sched dest: sched_ge)


section \<open>The invariant\<close>

text \<open>
  \<open>hw_rel s fs as rs\<close>: the free, active and fired lists are \<open>fs\<close>, \<open>as\<close> and \<open>rs\<close>; they are
  disjoint and acyclic, and the state of every timer says which list it is on.
\<close>

definition hw_rel :: "hwtimer_list \<Rightarrow> nat list \<Rightarrow> nat list \<Rightarrow> nat list \<Rightarrow> bool" where
  "hw_rel s fs as rs \<longleftrightarrow> length (hl_timer s) = HWTIMER_NUM \<and>
     chain (hl_timer s) (hl_free s) fs \<and> chain (hl_timer s) (hl_active s) as \<and>
     chain (hl_timer s) (hl_fired s) rs \<and> distinct (fs @ as @ rs) \<and>
     (\<forall>i<HWTIMER_NUM. (ht_state (node s i) = HWTIMER_STATE_FREE \<longleftrightarrow> i \<in> set fs) \<and>
       (ht_state (node s i) = HWTIMER_STATE_ACTIVE \<longleftrightarrow> i \<in> set as) \<and>
       (ht_state (node s i) = HWTIMER_STATE_FIRED \<longleftrightarrow> i \<in> set rs) \<and>
       ht_time (node s i) < 4294967296)"

text \<open>The lists are what one finds by following the pointers, at most \<open>HWTIMER_NUM\<close> steps.\<close>

fun walk :: "HWTIMER_T list \<Rightarrow> nat \<Rightarrow> nat option \<Rightarrow> nat list" where
  "walk ts (Suc k) (Some i) = i # walk ts k (ht_next (ts ! i))"
| "walk ts _ _ = []"

definition free_ids :: "hwtimer_list \<Rightarrow> nat list" where
  "free_ids s = walk (hl_timer s) HWTIMER_NUM (hl_free s)"

definition active_ids :: "hwtimer_list \<Rightarrow> nat list" where
  "active_ids s = walk (hl_timer s) HWTIMER_NUM (hl_active s)"

definition fired_ids :: "hwtimer_list \<Rightarrow> nat list" where
  "fired_ids s = walk (hl_timer s) HWTIMER_NUM (hl_fired s)"

definition hw_inv :: "hwtimer_list \<Rightarrow> bool" where
  "hw_inv s \<longleftrightarrow> hw_rel s (free_ids s) (active_ids s) (fired_ids s)"

lemma walk_chain: "chain ts p xs \<Longrightarrow> length xs \<le> k \<Longrightarrow> walk ts k p = xs"
proof (induction xs arbitrary: p k)
  case Nil
  then show ?case by (cases k) auto
next
  case (Cons x xs)
  then show ?case by (cases k) auto
qed

lemma distinct_bounded: "distinct xs \<Longrightarrow> set xs \<subseteq> {..<n} \<Longrightarrow> length xs \<le> (n::nat)"
  using card_mono [of "{..<n}" "set xs"] by (simp add: distinct_card)

lemma hw_rel_ids:
  assumes "hw_rel s fs as rs"
  shows "free_ids s = fs" "active_ids s = as" "fired_ids s = rs"
proof -
  have l: "length (hl_timer s) = HWTIMER_NUM" and
    c: "chain (hl_timer s) (hl_free s) fs" "chain (hl_timer s) (hl_active s) as"
       "chain (hl_timer s) (hl_fired s) rs" and d: "distinct fs" "distinct as" "distinct rs"
    using assms by (auto simp: hw_rel_def)
  have "length xs \<le> HWTIMER_NUM" if "chain (hl_timer s) p xs" "distinct xs" for p xs
    using that chain_bound [OF that(1)] l by (intro distinct_bounded) auto
  then show "free_ids s = fs" "active_ids s = as" "fired_ids s = rs"
    using c d by (simp_all add: walk_chain free_ids_def active_ids_def fired_ids_def)
qed

lemma hw_relI: "hw_rel s fs as rs \<Longrightarrow> hw_inv s"
  by (simp add: hw_inv_def hw_rel_ids)

lemma set_node_sel [simp]:
  "hl_timer (set_node i f s) = (hl_timer s)[i := f (hl_timer s ! i)]"
  "hl_free (set_node i f s) = hl_free s" "hl_active (set_node i f s) = hl_active s"
  "hl_fired (set_node i f s) = hl_fired s" "hl_hw (set_node i f s) = hl_hw s"
  by (simp_all add: set_node_def)

section \<open>The loops\<close>

text \<open>The reference for starting: insertion before the first timer that is not due earlier.\<close>

fun ins_due :: "nat \<times> nat \<Rightarrow> (nat \<times> nat) list \<Rightarrow> (nat \<times> nat) list" where
  "ins_due p [] = [p]"
| "ins_due p (q # D) = (if snd q < snd p then q # ins_due p D else p # q # D)"

fun start_due :: "nat \<times> nat \<Rightarrow> (nat \<times> nat) list \<Rightarrow> (nat \<times> nat) list" where
  "start_due p [] = [p]"
| "start_due p (q # D) = (if snd q > snd p then p # q # D else q # ins_due p D)"

lemma start_scan_eq:
  assumes "chain ts next bs" "ticks < 4294967296"
  shows "\<exists>cs ds. bs = cs @ ds \<and>
    start_scan ts pre next ticks = Some (last (pre # cs), hd_opt ds, ticks - span ts cs) \<and>
    span ts cs \<le> ticks \<and> (\<forall>d\<in>set (take 1 ds). ticks - span ts cs \<le> ht_time (ts ! d)) \<and>
    (\<forall>c X. ins_due (t, c + ticks) (sched c ts cs @ X) = sched c ts cs @ ins_due (t, c + ticks) X)"
  using assms
proof (induction bs arbitrary: pre "next" ticks)
  case Nil
  then show ?case by (subst start_scan.simps) auto
next
  case (Cons b bs)
  show ?case
  proof (cases "ht_time (ts ! b) < ticks")
    case True
    let ?t = "ticks - ht_time (ts ! b)"
    from Cons.prems have n: "next = Some b" "chain ts (ht_next (ts ! b)) bs" by auto
    have "?t < 4294967296" using Cons.prems by simp
    from Cons.IH [OF n(2) this, of b] obtain cs ds where *: "bs = cs @ ds"
      "start_scan ts b (ht_next (ts ! b)) ?t = Some (last (b # cs), hd_opt ds, ?t - span ts cs)"
      "span ts cs \<le> ?t" "\<forall>d\<in>set (take 1 ds). ?t - span ts cs \<le> ht_time (ts ! d)"
      "\<And>c X. ins_due (t, c + ?t) (sched c ts cs @ X) = sched c ts cs @ ins_due (t, c + ?t) X"
      by blast
    have 1: "start_scan ts pre next ticks = start_scan ts b (ht_next (ts ! b)) ?t"
      using True Cons.prems n(1) by (subst start_scan.simps) (simp add: wrap_simps)
    have 2: "ins_due (t, c + ticks) (sched c ts (b # cs) @ X) =
        sched c ts (b # cs) @ ins_due (t, c + ticks) X" for c X
      using *(5) [of "c + ht_time (ts ! b)" X] True by (simp add: add.assoc)
    show ?thesis
      using * 1 2 True by (intro exI [of _ "b # cs"] exI [of _ ds]) auto
  next
    case False
    then show ?thesis using Cons.prems
      by (intro exI [of _ "[]"] exI [of _ "b # bs"], subst start_scan.simps) auto
  qed
qed


lemma find_scan_eq:
  "chain ts next (cs @ t # ds) \<Longrightarrow> t \<notin> set cs \<Longrightarrow>
   find_scan ts t pre next = Some (last (pre # cs), Some t)"
proof (induction cs arbitrary: pre "next")
  case Nil
  then show ?case by (subst find_scan.simps) auto
next
  case (Cons c cs)
  then show ?case by (subst find_scan.simps) auto
qed

text \<open>
  The reference for spending elapsed time: each deadline moves \<open>e\<close> ticks closer, down to 0.
\<close>

definition later :: "nat \<Rightarrow> (nat \<times> nat) list \<Rightarrow> (nat \<times> nat) list" where
  "later e D = map (\<lambda>(x, t). (x, t - e)) D"

lemma later_simps [simp]:
  "later e [] = []" "later e ((x, t) # D) = (x, t - e) # later e D"
  "later e (D @ D') = later e D @ later e D'"
  by (simp_all add: later_def)

lemma later_sched: "e \<le> c \<Longrightarrow> later e (sched c ts xs) = sched (c - e) ts xs"
  by (induction xs arbitrary: c) auto

definition set_times :: "nat list \<Rightarrow> HWTIMER_T list \<Rightarrow> HWTIMER_T list" where
  "set_times xs ts = fold (\<lambda>x ts. ts[x := (ts ! x)\<lparr>ht_time := 0\<rparr>]) xs ts"

definition set_states :: "hwtimer_state \<Rightarrow> nat list \<Rightarrow> HWTIMER_T list \<Rightarrow> HWTIMER_T list" where
  "set_states st xs ts = fold (\<lambda>x ts. ts[x := (ts ! x)\<lparr>ht_state := st\<rparr>]) xs ts"

lemma set_times_simps [simp]:
  "set_times [] ts = ts"
  "set_times (x # xs) ts = set_times xs (ts[x := (ts ! x)\<lparr>ht_time := 0\<rparr>])"
  by (simp_all add: set_times_def)

lemma set_states_simps [simp]:
  "set_states st [] ts = ts"
  "set_states st (x # xs) ts = set_states st xs (ts[x := (ts ! x)\<lparr>ht_state := st\<rparr>])"
  by (simp_all add: set_states_def)

lemma length_set_times [simp]: "length (set_times xs ts) = length ts"
  by (induction xs arbitrary: ts) auto

lemma length_set_states [simp]: "length (set_states st xs ts) = length ts"
  by (induction xs arbitrary: ts) auto

lemma nth_set_times:
  "i < length ts \<Longrightarrow> set_times xs ts ! i = (if i \<in> set xs then (ts ! i)\<lparr>ht_time := 0\<rparr> else ts ! i)"
  by (induction xs arbitrary: ts) (auto simp: nth_update)

lemma nth_set_states:
  "i < length ts \<Longrightarrow>
   set_states st xs ts ! i = (if i \<in> set xs then (ts ! i)\<lparr>ht_state := st\<rparr> else ts ! i)"
  by (induction xs arbitrary: ts) (auto simp: nth_update)

lemma chain_update:
  "x \<notin> set xs \<or> ht_next n = ht_next (ts ! x) \<Longrightarrow> seg (ts[x := n]) p xs q = seg ts p xs q"
  by (rule seg_cong) (auto simp: nth_update)

lemma sched_update:
  "x \<notin> set xs \<or> ht_time n = ht_time (ts ! x) \<Longrightarrow> sched c (ts[x := n]) xs = sched c ts xs"
  by (rule sched_cong) (auto simp: nth_update)

text \<open>
  Both loops over overrun time split the list at the first timer that is not yet due; the
  time left over is what that timer's delta has to give up.
\<close>

fun due_split :: "HWTIMER_T list \<Rightarrow> nat \<Rightarrow> nat list \<Rightarrow> nat list \<times> nat list \<times> nat" where
  "due_split ts e [] = ([], [], e)"
| "due_split ts e (x # xs) =
     (if ht_time (ts ! x) \<le> e
      then (case due_split ts (e - ht_time (ts ! x)) xs of (cs, ds, r) \<Rightarrow> (x # cs, ds, r))
      else ([], x # xs, e))"

lemma due_split_cong:
  "(\<And>x. x \<in> set xs \<Longrightarrow> ht_time (ts' ! x) = ht_time (ts ! x)) \<Longrightarrow>
   due_split ts' e xs = due_split ts e xs"
  by (induction xs arbitrary: e) auto

lemma due_split_append: "due_split ts e xs = (cs, ds, r) \<Longrightarrow> xs = cs @ ds \<and> r = e - span ts cs \<and>
    span ts cs \<le> e \<and> (\<forall>d\<in>set (take 1 ds). r < ht_time (ts ! d))"
  by (induction xs arbitrary: e cs ds r) (fastforce split: if_splits prod.splits)+

lemma overrun_scan_eq:
  "chain ts p xs \<Longrightarrow> distinct xs \<Longrightarrow> e < 4294967296 \<Longrightarrow> due_split ts e xs = (cs, ds, r) \<Longrightarrow>
   overrun_scan ts p e = Some (set_times cs ts, hd_opt ds, r)"
proof (induction xs arbitrary: ts p e cs ds r)
  case Nil
  then show ?case by (subst overrun_scan.simps) auto
next
  case (Cons x xs)
  from Cons.prems have x: "p = Some x" "chain ts (ht_next (ts ! x)) xs" "x \<notin> set xs" by auto
  show ?case
  proof (cases "ht_time (ts ! x) \<le> e")
    case True
    then obtain cs' where *: "cs = x # cs'" "due_split ts (e - ht_time (ts ! x)) xs = (cs', ds, r)"
      using Cons.prems(4) by (auto split: prod.splits)
    let ?ts = "ts[x := (ts ! x)\<lparr>ht_time := 0\<rparr>]"
    have "due_split ?ts (e - ht_time (ts ! x)) xs = (cs', ds, r)"
      using x(3) *(2) by (subst due_split_cong [where ts = ts]) (auto simp: nth_update)
    then show ?thesis
      using Cons.IH [of ?ts "ht_next (ts ! x)"] Cons.prems x True *
      by (subst overrun_scan.simps) (simp add: wrap_simps chain_update)
  next
    case False
    then show ?thesis using Cons.prems by (subst overrun_scan.simps) auto
  qed
qed

lemma fire_scan_eq:
  "chain ts p xs \<Longrightarrow> distinct xs \<Longrightarrow> e < 4294967296 \<Longrightarrow> due_split ts e xs = (cs, ds, r) \<Longrightarrow>
   fire_scan ts pre p e = Some (set_states HWTIMER_STATE_FIRED cs ts, last (pre # cs), hd_opt ds, r)"
proof (induction xs arbitrary: ts p e cs ds r pre)
  case Nil
  then show ?case by (subst fire_scan.simps) auto
next
  case (Cons x xs)
  from Cons.prems have x: "p = Some x" "chain ts (ht_next (ts ! x)) xs" "x \<notin> set xs" by auto
  show ?case
  proof (cases "ht_time (ts ! x) \<le> e")
    case True
    then obtain cs' where *: "cs = x # cs'" "due_split ts (e - ht_time (ts ! x)) xs = (cs', ds, r)"
      using Cons.prems(4) by (auto split: prod.splits)
    let ?ts = "ts[x := (ts ! x)\<lparr>ht_state := HWTIMER_STATE_FIRED\<rparr>]"
    have "due_split ?ts (e - ht_time (ts ! x)) xs = (cs', ds, r)"
      using x(3) *(2) by (subst due_split_cong [where ts = ts]) (auto simp: nth_update)
    then show ?thesis
      using Cons.IH [of ?ts "ht_next (ts ! x)" _ _ _ _ x] Cons.prems x True *
      by (subst fire_scan.simps) (simp add: wrap_simps chain_update)
  next
    case False
    then show ?thesis using Cons.prems by (subst fire_scan.simps) auto
  qed
qed

lemma later_due_split:
  assumes "due_split ts e xs = (cs, ds, r)"
  shows "later e (sched 0 ts xs) = map (\<lambda>x. (x, 0)) cs @
    (case ds of [] \<Rightarrow> [] | d # ds' \<Rightarrow> (d, ht_time (ts ! d) - r) # sched (ht_time (ts ! d) - r) ts ds')"
  using assms
proof -
  note * = due_split_append [OF assms]
  have 1: "later e (sched c ts cs) = map (\<lambda>x. (x, 0)) cs" if "c + span ts cs \<le> e" for c cs
    using that by (induction cs arbitrary: c) auto
  show ?thesis using * 1 [of 0 cs]
    by (cases ds) (auto simp: later_sched add.commute)
qed


section \<open>Starting\<close>

lemma hw_relD:
  assumes "hw_rel s fs as rs"
  shows "length (hl_timer s) = HWTIMER_NUM"
    "chain (hl_timer s) (hl_free s) fs" "chain (hl_timer s) (hl_active s) as"
    "chain (hl_timer s) (hl_fired s) rs" "distinct fs" "distinct as" "distinct rs"
    "set fs \<inter> set as = {}" "set fs \<inter> set rs = {}" "set as \<inter> set rs = {}"
    "i < HWTIMER_NUM \<Longrightarrow> ht_state (node s i) = HWTIMER_STATE_FREE \<longleftrightarrow> i \<in> set fs"
    "i < HWTIMER_NUM \<Longrightarrow> ht_state (node s i) = HWTIMER_STATE_ACTIVE \<longleftrightarrow> i \<in> set as"
    "i < HWTIMER_NUM \<Longrightarrow> ht_state (node s i) = HWTIMER_STATE_FIRED \<longleftrightarrow> i \<in> set rs"
    "i < HWTIMER_NUM \<Longrightarrow> ht_time (node s i) < 4294967296"
  using assms by (auto simp: hw_rel_def)

lemma hw_rel_in:
  assumes "hw_rel s fs as rs"
  shows "x \<in> set fs \<Longrightarrow> x < HWTIMER_NUM" "x \<in> set as \<Longrightarrow> x < HWTIMER_NUM"
    "x \<in> set rs \<Longrightarrow> x < HWTIMER_NUM"
  using hw_relD(1-4) [OF assms] chain_bound [of "hl_timer s"] by metis+

text \<open>
  One way in for every operation: the new state is described node by node.
\<close>

lemma hw_rel_active:
  assumes rel: "hw_rel s fs as rs"
    and l: "length (hl_timer s') = HWTIMER_NUM"
    and p: "hl_free s' = hl_free s" "hl_fired s' = hl_fired s"
    and c: "chain (hl_timer s') (hl_active s') as'"
    and st: "\<And>i. i < HWTIMER_NUM \<Longrightarrow> ht_state (node s' i) =
      (if i \<in> set as' then HWTIMER_STATE_ACTIVE
       else if i \<in> set as then HWTIMER_STATE_ALLOC else ht_state (node s i))"
    and n: "\<And>i. i < HWTIMER_NUM \<Longrightarrow> i \<in> set fs \<union> set rs \<Longrightarrow> ht_next (node s' i) = ht_next (node s i)"
    and tm: "\<And>i. i < HWTIMER_NUM \<Longrightarrow> ht_time (node s' i) < 4294967296"
    and d: "distinct as'" "set as' \<inter> (set fs \<union> set rs) = {}"
  shows "hw_rel s' fs as' rs"
proof -
  note r = hw_relD [OF rel]
  have "chain (hl_timer s') (hl_free s') fs" "chain (hl_timer s') (hl_fired s') rs"
    using r(1-4) n p l seg_cong [of _ "hl_timer s'" "hl_timer s"] hw_rel_in [OF rel] by (metis UnCI)+
  moreover have "(ht_state (node s' i) = HWTIMER_STATE_FREE \<longleftrightarrow> i \<in> set fs) \<and>
       (ht_state (node s' i) = HWTIMER_STATE_ACTIVE \<longleftrightarrow> i \<in> set as') \<and>
       (ht_state (node s' i) = HWTIMER_STATE_FIRED \<longleftrightarrow> i \<in> set rs)" if "i < HWTIMER_NUM" for i
    using st [OF that] r(8-10) r(11-13) [OF that] d by auto
  ultimately show ?thesis
    using l c d r(5,7,9) tm by (auto simp: hw_rel_def)
qed

text \<open>The state between marking a timer active and linking it.\<close>

definition marked :: "hwtimer_list \<Rightarrow> nat \<Rightarrow> nat list \<Rightarrow> nat list \<Rightarrow> nat list \<Rightarrow> hwtimer_list \<Rightarrow> bool" where
  "marked s t fs as rs s1 \<longleftrightarrow> hw_rel s fs as rs \<and> t < HWTIMER_NUM \<and> t \<notin> set fs \<union> set as \<union> set rs \<and>
    length (hl_timer s1) = HWTIMER_NUM \<and> hl_free s1 = hl_free s \<and> hl_active s1 = hl_active s \<and>
    hl_fired s1 = hl_fired s \<and> hl_hw s1 = hl_hw s \<and>
    (\<forall>i<HWTIMER_NUM. ht_next (node s1 i) = ht_next (node s i) \<and> ht_time (node s1 i) = ht_time (node s i) \<and>
      ht_state (node s1 i) = (if i = t then HWTIMER_STATE_ACTIVE else ht_state (node s i)))"

lemma marked_start_mark:
  assumes "hw_rel s fs as rs" "t < HWTIMER_NUM"
    "ht_state (node s t) = HWTIMER_STATE_ALLOC \<or> ht_state (node s t) = HWTIMER_STATE_CALLBACK"
  shows "marked s t fs as rs (start_mark t upd cb p s)"
  using assms hw_relD(11-13) [OF assms(1,2)] hw_relD(1) [OF assms(1)]
  by (auto simp: marked_def start_mark_def Let_def nth_update)

lemma span_cong:
  "(\<And>x. x \<in> set xs \<Longrightarrow> ht_time (ts' ! x) = ht_time (ts ! x)) \<Longrightarrow> span ts' xs = span ts xs"
  by (simp add: span_def cong: map_cong)

lemma ins_due_first: "(\<And>x u. X = (x, u) # tl X \<Longrightarrow> k \<le> u) \<Longrightarrow> ins_due (t, k) X = (t, k) # X"
  by (cases X) fastforce+

lemma start_link_empty:
  assumes m: "marked s t fs [] rs s1" and k: "k < 4294967296"
  shows "\<exists>s'. start_link t k s1 = Some s' \<and> hw_rel s' fs [t] rs \<and>
    hl_hw s' = hal_timer_start k (hl_hw s)"
proof -
  have rel: "hw_rel s fs [] rs" using m by (simp add: marked_def)
  note r = hw_relD [OF rel]
  have "hl_active s1 = None" using m r(3) by (simp add: marked_def)
  then have e: "start_link t k s1 = Some (set_node t (\<lambda>n. n\<lparr>ht_time := k\<rparr>)
      (set_node t (\<lambda>n. n\<lparr>ht_next := None\<rparr>) s1\<lparr>hl_active := Some t, hl_hw := hal_timer_start k (hl_hw s)\<rparr>))"
    (is "_ = Some ?s'")
    using m by (simp add: start_link_def Let_def marked_def)
  have "hw_rel ?s' fs [t] rs"
    by (rule hw_rel_active [OF rel]) (use m k r(14) in \<open>auto simp: marked_def nth_update\<close>)
  with e show ?thesis by simp
qed

lemma start_link_head:
  assumes m: "marked s t fs (a # bs) rs s1" and k: "k < tm_value (hl_hw s)"
    and cur: "tm_value (hl_hw s) \<le> max 1 (ht_time (node s a))"
  shows "\<exists>s'. start_link t k s1 = Some s' \<and> hw_rel s' fs (t # a # bs) rs \<and>
    hl_hw s' = hal_timer_start k (hal_timer_stop (hl_hw s)) \<and>
    sched k (hl_timer s') (a # bs) = deadlines (tm_value (hl_hw s)) (hl_timer s) (a # bs)"
proof -
  have rel: "hw_rel s fs (a # bs) rs" using m by (simp add: marked_def)
  note r = hw_relD [OF rel]
  have a: "a < HWTIMER_NUM" "a \<noteq> t" using hw_rel_in(2) [OF rel] m by (auto simp: marked_def)
  have cur32: "tm_value (hl_hw s) < 4294967296" using cur r(14) [OF a(1)] by simp
  have s1: "hl_active s1 = Some a" "hl_hw s1 = hl_hw s" "ht_time (node s1 a) = ht_time (node s a)"
    using m r(3) a by (simp_all add: marked_def)
  define s' where "s' = set_node t (\<lambda>n. n\<lparr>ht_time := k\<rparr>)
      (set_node t (\<lambda>n. n\<lparr>ht_next := Some a\<rparr>) (set_node a (\<lambda>n. n\<lparr>ht_time := tm_value (hl_hw s) - k\<rparr>) s1)
       \<lparr>hl_active := Some t, hl_hw := hal_timer_start k (hal_timer_stop (hl_hw s))\<rparr>)"
  have e: "start_link t k s1 = Some s'"
    using s1 cur k cur32 by (auto simp: start_link_def Let_def hal_timer_get_def s'_def
        HAL_TIMER_LOAD_DELTA_def wrap_simps max_def split: if_splits)
  have nx: "ht_next (node s' i) = (if i = t then Some a else ht_next (node s i))"
    and st: "ht_state (node s' i) = (if i = t then HWTIMER_STATE_ACTIVE else ht_state (node s i))"
    and tm: "ht_time (node s' i) = (if i = t then k else if i = a then tm_value (hl_hw s) - k
      else ht_time (node s i))" if "i < HWTIMER_NUM" for i
    using that m a by (simp_all add: s'_def marked_def nth_update)
  have t: "t < HWTIMER_NUM" "t \<notin> set fs" "t \<noteq> a" "t \<notin> set bs" "t \<notin> set rs"
    and len: "length (hl_timer s') = HWTIMER_NUM" and act: "hl_active s' = Some t"
    and hw: "hl_hw s' = hal_timer_start k (hal_timer_stop (hl_hw s))"
    using m by (auto simp: s'_def marked_def)
  have "chain (hl_timer s') (ht_next (node s a)) bs"
    using r(1,3) nx len t(4) hw_rel_in(2) [OF rel] by (subst seg_cong [where ts = "hl_timer s"]) auto
  then have c: "chain (hl_timer s') (Some t) (t # a # bs)"
    using nx [OF t(1)] nx [OF a(1)] a t len by simp
  have "hw_rel s' fs (t # a # bs) rs"
  proof (rule hw_rel_active [OF rel len])
    show "chain (hl_timer s') (hl_active s') (t # a # bs)" using c by (simp only: act)
    show "hl_free s' = hl_free s" "hl_fired s' = hl_fired s" using m by (simp_all add: s'_def marked_def)
    show "distinct (t # a # bs)" using r(6) t by auto
    show "set (t # a # bs) \<inter> (set fs \<union> set rs) = {}" using t r(8,10) by auto
  next
    fix i assume i: "i < HWTIMER_NUM"
    show "ht_time (node s' i) < 4294967296"
      unfolding tm [OF i] using k cur32 r(14) [OF i] by auto
    show "ht_state (node s' i) = (if i \<in> set (t # a # bs) then HWTIMER_STATE_ACTIVE
        else if i \<in> set (a # bs) then HWTIMER_STATE_ALLOC else ht_state (node s i))"
      unfolding st [OF i] using r(12) [OF i] by auto
    assume "i \<in> set fs \<union> set rs"
    then show "ht_next (node s' i) = ht_next (node s i)" unfolding nx [OF i] using t by auto
  qed
  moreover have "sched k (hl_timer s') (a # bs) = deadlines (tm_value (hl_hw s)) (hl_timer s) (a # bs)"
    using k r(6) a tm t hw_rel_in(2) [OF rel]
    by (auto intro!: sched_cong)
  ultimately show ?thesis using e hw by blast
qed

lemma start_link_inner:
  assumes m: "marked s t fs (a # bs) rs s1" and k: "tm_value (hl_hw s) \<le> k" "k < 4294967296"
    and cur: "tm_value (hl_hw s) \<le> max 1 (ht_time (node s a))"
  shows "\<exists>s' cs ds. start_link t k s1 = Some s' \<and> bs = cs @ ds \<and>
    hw_rel s' fs (a # cs @ t # ds) rs \<and> hl_hw s' = hl_hw s \<and>
    deadlines (tm_value (hl_hw s)) (hl_timer s') (a # cs @ t # ds) =
      start_due (t, k) (deadlines (tm_value (hl_hw s)) (hl_timer s) (a # bs))"
proof -
  let ?ts = "hl_timer s1" and ?c = "tm_value (hl_hw s)"
  have rel: "hw_rel s fs (a # bs) rs" using m by (simp add: marked_def)
  note r = hw_relD [OF rel] and b = hw_rel_in [OF rel]
  have a: "a < HWTIMER_NUM" "a \<noteq> t" using b(2) m by (auto simp: marked_def)
  have s1: "hl_active s1 = Some a" "hl_hw s1 = hl_hw s" "ht_time (node s1 a) = ht_time (node s a)"
    using m r(3) a by (simp_all add: marked_def)
  have ch: "chain ?ts (Some a) (a # bs)"
    using m r(1,3) b(2) seg_cong [of "a # bs" ?ts "hl_timer s" "Some a" None] by (simp add: marked_def)
  then have "chain ?ts (ht_next (?ts ! a)) bs" by simp
  from start_scan_eq [OF this, of "k - ?c" a t] k obtain cs ds where sc: "bs = cs @ ds"
    "start_scan ?ts a (ht_next (?ts ! a)) (k - ?c) =
      Some (last (a # cs), hd_opt ds, k - ?c - span ?ts cs)" "span ?ts cs \<le> k - ?c"
    "\<forall>d\<in>set (take 1 ds). k - ?c - span ?ts cs \<le> ht_time (?ts ! d)"
    "\<And>c X. ins_due (t, c + (k - ?c)) (sched c ?ts cs @ X) = sched c ?ts cs @ ins_due (t, c + (k - ?c)) X"
    by (metis less_imp_diff_less)
  define r' where "r' = k - ?c - span ?ts cs"
  define p' where "p' = last (a # cs)"
  define s2 where "s2 = (case hd_opt ds of None \<Rightarrow> s1
      | Some n \<Rightarrow> set_node n (\<lambda>m. m\<lparr>ht_time := sub32 (ht_time m) r'\<rparr>) s1)"
  define s' where "s' = set_node t (\<lambda>n. n\<lparr>ht_time := r'\<rparr>) (set_node t (\<lambda>n. n\<lparr>ht_next := hd_opt ds\<rparr>)
      (set_node p' (\<lambda>n. n\<lparr>ht_next := Some t\<rparr>) s2))"
  have e: "start_link t k s1 = Some s'"
    using s1 cur k sc(2) [folded r'_def p'_def]
    by (auto simp: start_link_def Let_def hal_timer_get_def s'_def s2_def
        HAL_TIMER_LOAD_DELTA_def wrap_simps max_def split: if_splits)

  have dist: "distinct (a # cs @ ds)" "t \<notin> set (a # cs @ ds)" using r(6) m sc(1) by (auto simp: marked_def)
  have p'in: "p' \<in> set (a # cs)" by (simp add: p'_def)
  have lt: "\<And>x. x \<in> set (a # cs @ ds) \<Longrightarrow> x < HWTIMER_NUM" "t < HWTIMER_NUM"
    using b(2) sc(1) m by (auto simp: marked_def)
  have len: "length (hl_timer s2) = HWTIMER_NUM" "length ?ts = HWTIMER_NUM"
    using m by (auto simp: s2_def marked_def split: list.splits)
  have nx2: "ht_next (node s2 i) = ht_next (?ts ! i)" "ht_state (node s2 i) = ht_state (?ts ! i)" for i
    by (auto simp: s2_def nth_update split: list.splits)
  have p't: "p' \<noteq> t" "p' < HWTIMER_NUM" using p'in dist lt by auto
  have nx: "ht_next (node s' i) = (if i = t then hd_opt ds else if i = p' then Some t
      else ht_next (node s i))" if "i < HWTIMER_NUM" for i
    using that len p't nx2 m by (simp add: s'_def nth_update marked_def)
  have r': "r' < 4294967296" "r' + span ?ts cs = k - ?c" using k sc(3) by (auto simp: r'_def)
  have le: "r' \<le> ht_time (?ts ! d)" if "ds = d # ds'" for d ds'
    using sc(4) that by (simp add: r'_def)
  have ts: "ht_time (?ts ! i) = ht_time (node s i)" if "i < HWTIMER_NUM" for i
    using m that by (simp add: marked_def)
  have t2: "ht_time (node s2 i) = (if i \<in> set (take 1 ds) then ht_time (node s i) - r' else ht_time (node s i))"
    if "i < HWTIMER_NUM" for i
  proof (cases ds)
    case Nil
    then show ?thesis using ts [OF that] by (simp add: s2_def)
  next
    case (Cons d ds')
    then have d: "d < HWTIMER_NUM" using lt by simp
    then have "sub32 (ht_time (node s d)) r' = ht_time (node s d) - r'"
      using le [OF Cons] ts r(14) by (simp add: wrap_simps)
    then show ?thesis using Cons ts [OF that] ts [OF d] d len by (auto simp: s2_def nth_update)
  qed
  have tm: "ht_time (node s' i) = (if i = t then r' else if i \<in> set (take 1 ds)
      then ht_time (node s i) - r' else ht_time (node s i))" if "i < HWTIMER_NUM" for i
    using that len p't t2 [OF that] by (auto simp: s'_def nth_update)
  have st: "ht_state (node s' i) = (if i = t then HWTIMER_STATE_ACTIVE else ht_state (node s i))"
    if "i < HWTIMER_NUM" for i
    using that len p't nx2 m by (simp add: s'_def nth_update marked_def)
  have len': "length (hl_timer s') = HWTIMER_NUM" using len by (simp add: s'_def)
  have act: "hl_active s' = Some a" "hl_hw s' = hl_hw s"
    using s1 by (simp_all add: s'_def s2_def split: list.splits)
  have c': "chain (hl_timer s') (Some a) (a # cs @ t # ds)"
  proof -
    obtain xs where xs: "a # cs = xs @ [p']" by (metis p'_def append_butlast_last_id list.distinct(1))
    have d: "distinct (xs @ p' # ds)" "t \<notin> set (xs @ p' # ds)"
      using dist xs by (metis append.assoc append_Cons append_Nil)+
    have "chain (hl_timer s) (Some a) (xs @ p' # ds)"
      using r(3) sc(1) xs by (metis append.assoc append_Cons append_Nil chain_hd list.simps(5))
    then have o: "seg (hl_timer s) (Some a) xs (Some p')" "chain (hl_timer s) (ht_next (node s p')) ds"
      by auto
    have in': "\<And>x. x \<in> set (xs @ p' # ds) \<Longrightarrow> x < HWTIMER_NUM" using lt(1) xs
      by (metis append.assoc append_Cons append_Nil)
    have "seg (hl_timer s') (Some a) xs (Some p')"
      using o(1) nx d in' len' r(1) by (subst seg_cong [where ts = "hl_timer s"]) auto
    moreover have "chain (hl_timer s') (hd_opt ds) ds"
      using o(2) chain_hd [OF o(2)] nx d in' len' r(1)
      by (subst seg_cong [where ts = "hl_timer s"]) auto
    ultimately have "chain (hl_timer s') (Some a) (xs @ p' # t # ds)"
      using nx [OF lt(2)] nx [OF p't(2)] p't lt(2) len' by auto
    moreover have "a # cs @ t # ds = xs @ p' # t # ds"
      using xs by (metis append.assoc append_Cons append_Nil)
    ultimately show ?thesis by (simp only:)
  qed
  have "hw_rel s' fs (a # cs @ t # ds) rs"
  proof (rule hw_rel_active [OF rel len'])
    show "hl_free s' = hl_free s" "hl_fired s' = hl_fired s"
      using m by (simp_all add: s'_def s2_def marked_def split: list.splits)
    show "chain (hl_timer s') (hl_active s') (a # cs @ t # ds)"
      using c' by (simp only: act)
    show "distinct (a # cs @ t # ds)" using dist by auto
    show "set (a # cs @ t # ds) \<inter> (set fs \<union> set rs) = {}"
      using m r(8,10) sc(1) by (auto simp: marked_def)
  next
    fix i assume i: "i < HWTIMER_NUM"
    show "ht_time (node s' i) < 4294967296" using tm [OF i] r(14) [OF i] r'(1) by auto
    show "ht_state (node s' i) = (if i \<in> set (a # cs @ t # ds) then HWTIMER_STATE_ACTIVE
        else if i \<in> set (a # bs) then HWTIMER_STATE_ALLOC else ht_state (node s i))"
      using st [OF i] r(12) [OF i] sc(1) by auto
    assume "i \<in> set fs \<union> set rs"
    then show "ht_next (node s' i) = ht_next (node s i)"
      using nx [OF i] p'in r(8,10) m sc(1) by (auto simp: marked_def)
  qed
  moreover have "deadlines ?c (hl_timer s') (a # cs @ t # ds) =
      start_due (t, k) (deadlines ?c (hl_timer s) (a # bs))"
  proof -
    have e1: "ht_time (node s' x) = ht_time (node s x)" "ht_time (node s1 x) = ht_time (node s x)"
      if "x \<in> set cs \<union> set (drop 1 ds)" for x
      using that dist lt tm ts by (cases ds; auto)+
    have 1: "sched ?c (hl_timer s') cs = sched ?c (hl_timer s) cs" "span (hl_timer s') cs = span ?ts cs"
      "sched ?c ?ts cs = sched ?c (hl_timer s) cs" "span (hl_timer s) cs = span ?ts cs"
      using e1 by (simp_all cong: sched_cong span_cong)
    have 2: "sched k (hl_timer s') ds = sched (?c + span ?ts cs) (hl_timer s) ds \<and>
      ins_due (t, k) (sched (?c + span ?ts cs) (hl_timer s) ds) =
        (t, k) # sched (?c + span ?ts cs) (hl_timer s) ds"
    proof (cases ds)
      case (Cons d ds')
      then have "d < HWTIMER_NUM" "d \<noteq> t" using lt dist by auto
      then have "ht_time (node s' d) = ht_time (node s d) - r'" "r' \<le> ht_time (node s d)"
        using Cons tm ts le [OF Cons] by auto
      moreover have "sched x (hl_timer s') ds' = sched x (hl_timer s) ds'" for x
        using e1 Cons by (auto intro!: sched_cong)
      moreover have "k + (x - r') = ?c + span ?ts cs + x" if "r' \<le> x" for x
        using r'(2) k that by simp
      ultimately show ?thesis using Cons r'(2) k by (simp del: add_diff_assoc)
    qed simp
    have 3: "?c + (k - ?c) = k" "?c + span ?ts cs + r' = k" using k r'(2) by auto
    show ?thesis
      using 1 2 3 sc(1) sc(5) [of ?c, unfolded 3(1)] tm [OF lt(2)] k by simp
  qed
  ultimately show ?thesis using e sc(1) act by blast
qed

lemma hwtimer_start_int_eq:
  "t < HWTIMER_NUM \<Longrightarrow>
   ht_state (node s t) = HWTIMER_STATE_ALLOC \<or> ht_state (node s t) = HWTIMER_STATE_CALLBACK \<Longrightarrow>
   hwtimer_start_int (Some t) upd cb p ticks s =
     map_option (Pair E_HWTIMER_OK) (start_link t (max 1 ticks) (start_mark t upd cb p s))"
  by (cases "start_link t (max 1 ticks) (start_mark t upd cb p s)";
      auto simp: hwtimer_start_int_def invalid_id_def Let_def HAL_TIMER_LOAD_DELTA_def max_def)

lemma start_spec:
  assumes "hw_rel s fs as rs" "t < HWTIMER_NUM"
    and "ht_state (node s t) = HWTIMER_STATE_ALLOC \<or> ht_state (node s t) = HWTIMER_STATE_CALLBACK"
    and "ticks < 4294967296"
    and "as \<noteq> [] \<Longrightarrow> tm_value (hl_hw s) \<le> max 1 (ht_time (node s (hd as)))"
  shows "\<exists>s' as' cur'. hwtimer_start_int (Some t) upd cb p ticks s = Some (E_HWTIMER_OK, s') \<and>
    hw_rel s' fs as' rs \<and>
    deadlines cur' (hl_timer s') as' =
      start_due (t, max 1 ticks) (deadlines (tm_value (hl_hw s)) (hl_timer s) as) \<and>
    (if hd as' = t then cur' = max 1 ticks \<and> (\<exists>h. hl_hw s' = hal_timer_start (max 1 ticks) h)
     else cur' = tm_value (hl_hw s) \<and> hl_hw s' = hl_hw s)"
proof -
  let ?k = "max 1 ticks"
  have m: "marked s t fs as rs (start_mark t upd cb p s)" using assms by (intro marked_start_mark)
  have k: "?k < 4294967296" using assms(4) by simp
  note e = hwtimer_start_int_eq [OF assms(2,3), of upd cb p ticks]
  have *: "\<exists>s' as' cur'. start_link t ?k (start_mark t upd cb p s) = Some s' \<and> hw_rel s' fs as' rs \<and>
    deadlines cur' (hl_timer s') as' = start_due (t, ?k) (deadlines (tm_value (hl_hw s)) (hl_timer s) as) \<and>
    (if hd as' = t then cur' = ?k \<and> (\<exists>h. hl_hw s' = hal_timer_start ?k h)
     else cur' = tm_value (hl_hw s) \<and> hl_hw s' = hl_hw s)"
  proof (cases as)
    case Nil
    then obtain s' where "start_link t ?k (start_mark t upd cb p s) = Some s'" "hw_rel s' fs [t] rs"
      "hl_hw s' = hal_timer_start ?k (hl_hw s)"
      using start_link_empty [of s t fs rs "start_mark t upd cb p s" ?k] m k by blast
    then show ?thesis using Nil by (intro exI [of _ s'] exI [of _ "[t]"] exI [of _ ?k]) auto
  next
    case (Cons a bs)
    have cur: "tm_value (hl_hw s) \<le> max 1 (ht_time (node s a))" using assms(5) Cons by simp
    show ?thesis
    proof (cases "?k < tm_value (hl_hw s)")
      case True
      obtain s' where "start_link t ?k (start_mark t upd cb p s) = Some s'"
        "hw_rel s' fs (t # a # bs) rs" "hl_hw s' = hal_timer_start ?k (hal_timer_stop (hl_hw s))"
        "sched ?k (hl_timer s') (a # bs) = deadlines (tm_value (hl_hw s)) (hl_timer s) (a # bs)"
        using start_link_head [OF m [unfolded Cons] True cur] by blast
      then show ?thesis using Cons True
        by (intro exI [of _ s'] exI [of _ "t # a # bs"] exI [of _ ?k]) auto
    next
      case False
      obtain s' cs ds where "start_link t ?k (start_mark t upd cb p s) = Some s'" "bs = cs @ ds"
        "hw_rel s' fs (a # cs @ t # ds) rs" "hl_hw s' = hl_hw s"
        "deadlines (tm_value (hl_hw s)) (hl_timer s') (a # cs @ t # ds) =
          start_due (t, ?k) (deadlines (tm_value (hl_hw s)) (hl_timer s) (a # bs))"
        using start_link_inner [OF m [unfolded Cons] _ k cur] False by force
      moreover have "a \<noteq> t" using m Cons by (auto simp: marked_def)
      ultimately show ?thesis using Cons
        by (intro exI [of _ s'] exI [of _ "a # cs @ t # ds"] exI [of _ "tm_value (hl_hw s)"]) auto
    qed
  qed
  then show ?thesis unfolding e by (elim exE conjE, intro exI conjI) simp_all
qed

section \<open>Stopping\<close>

lemma hwtimer_stop_active:
  assumes "ht_state (node s t) = HWTIMER_STATE_ACTIVE" "t < HWTIMER_NUM" "hl_active s = Some a"
  shows "hwtimer_stop (Some t) s = map_option (\<lambda>s. (E_HWTIMER_OK, set_node t
      (\<lambda>n. n\<lparr>ht_state := HWTIMER_STATE_ALLOC, ht_next := None\<rparr>) s))
    (if a = t then stop_active_head t s else stop_active_inner t a s)"
  using assms by (auto simp: hwtimer_stop_def invalid_id_def Let_def map_option_case split: option.splits)

definition in_range :: "(nat \<times> nat) list \<Rightarrow> bool" where
  "in_range D \<longleftrightarrow> (\<forall>(x, u)\<in>set D. u < 4294967296)"

lemma stop_inner:
  assumes rel: "hw_rel s fs (a # cs @ t # ds) rs"
  shows "\<exists>s'. hwtimer_stop (Some t) s = Some (E_HWTIMER_OK, s') \<and> hw_rel s' fs (a # cs @ ds) rs \<and>
    (in_range (deadlines cur (hl_timer s) (a # cs @ t # ds)) \<longrightarrow>
      deadlines cur (hl_timer s') (a # cs @ ds) =
        filter (\<lambda>p. fst p \<noteq> t) (deadlines cur (hl_timer s) (a # cs @ t # ds))) \<and> hl_hw s' = hl_hw s"
proof -
  let ?ts = "hl_timer s"
  note r = hw_relD [OF rel] and b = hw_rel_in [OF rel]
  have dist: "distinct (a # cs @ ds)" "t \<notin> set (a # cs @ ds)" using r(6) by auto
  have lt: "\<And>x. x \<in> set (a # cs @ ds) \<Longrightarrow> x < HWTIMER_NUM" "t < HWTIMER_NUM" using b(2) by auto
  have act: "hl_active s = Some a" "a \<noteq> t" using r(3) dist by auto
  have st: "ht_state (node s t) = HWTIMER_STATE_ACTIVE" using r(12) [OF lt(2)] by simp
  define p' where "p' = last (a # cs)"
  have p': "p' \<in> set (a # cs)" "p' \<noteq> t" "p' < HWTIMER_NUM"
    using dist lt by (auto simp: p'_def split: if_splits)
  have "chain ?ts (ht_next (?ts ! a)) (cs @ t # ds)" using r(3) by simp
  from find_scan_eq [OF this, of a] dist have fs: "find_scan ?ts t a (ht_next (?ts ! a)) = Some (p', Some t)"
    by (simp add: p'_def)
  have nt: "ht_next (?ts ! t) = hd_opt ds" using r(3) by (auto dest: chain_hd)
  define s2 where "s2 = set_node p' (\<lambda>m. m\<lparr>ht_next := ht_next (node s t)\<rparr>) s"
  define s3 where "s3 = (case ds of [] \<Rightarrow> s2
    | k # _ \<Rightarrow> set_node k (\<lambda>m. m\<lparr>ht_time := add32 (ht_time m) (ht_time (node s2 t))\<rparr>) s2)"
  define s' where "s' = set_node t (\<lambda>n. n\<lparr>ht_state := HWTIMER_STATE_ALLOC, ht_next := None\<rparr>) s3"
  have "ht_next (node s2 t) = hd_opt ds" using nt p' r(1) lt by (simp add: s2_def nth_update)
  then have "stop_active_inner t a s = Some s3"
    by (cases ds) (simp_all add: stop_active_inner_def s3_def fs s2_def [symmetric] Let_def
        del: set_node_sel)
  then have e: "hwtimer_stop (Some t) s = Some (E_HWTIMER_OK, s')"
    using hwtimer_stop_active [OF st lt(2) act(1)] act(2) by (simp add: s'_def)
  have len: "length (hl_timer s2) = HWTIMER_NUM" "length (hl_timer s3) = HWTIMER_NUM"
    "length (hl_timer s') = HWTIMER_NUM"
    using r(1) by (auto simp: s2_def s3_def s'_def split: list.splits)
  have sel: "hl_active s' = Some a" "hl_hw s' = hl_hw s" "hl_free s' = hl_free s" "hl_fired s' = hl_fired s"
    using act by (auto simp: s2_def s3_def s'_def split: list.splits)
  have nx: "ht_next (node s' i) = (if i = t then None else if i = p' then hd_opt ds else ht_next (node s i))"
    and sta: "ht_state (node s' i) = (if i = t then HWTIMER_STATE_ALLOC else ht_state (node s i))"
    if "i < HWTIMER_NUM" for i
    using that len r(1) p' nt by (auto simp: s2_def s3_def s'_def nth_update split: list.splits)
  have tm: "ht_time (node s' i) = (if i \<in> set (take 1 ds)
      then add32 (ht_time (node s i)) (ht_time (node s t)) else ht_time (node s i))"
    if "i < HWTIMER_NUM" for i
    using that len r(1) p' lt dist by (cases ds) (auto simp: s2_def s3_def s'_def nth_update)
  have c': "chain (hl_timer s') (Some a) (a # cs @ ds)"
  proof -
    obtain xs where xs: "a # cs = xs @ [p']" by (metis p'_def append_butlast_last_id list.distinct(1))
    have eq: "a # cs @ zs = xs @ p' # zs" for zs using xs by (metis append.assoc append_Cons append_Nil)
    have o: "seg ?ts (Some a) xs (Some p')" "chain ?ts (hd_opt ds) ds"
      using r(3) act(1) nt unfolding eq by auto
    have in': "\<And>x. x \<in> set (xs @ p' # ds) \<Longrightarrow> x < HWTIMER_NUM \<and> x \<noteq> t" "distinct (xs @ p' # ds)"
      using lt(1) dist unfolding eq by auto
    have "seg (hl_timer s') (Some a) xs (Some p')"
      using o(1) nx in' len r(1) by (subst seg_cong [where ts = ?ts]) auto
    moreover have "chain (hl_timer s') (hd_opt ds) ds"
      using o(2) nx in' len r(1) by (subst seg_cong [where ts = ?ts]) auto
    ultimately show ?thesis unfolding eq using nx [OF p'(3)] p' len by auto
  qed
  have "hw_rel s' fs (a # cs @ ds) rs"
  proof (rule hw_rel_active [OF rel len(3) sel(3,4)])
    show "chain (hl_timer s') (hl_active s') (a # cs @ ds)" using c' by (simp only: sel)
    show "set (a # cs @ ds) \<inter> (set fs \<union> set rs) = {}" using r(8,10) by auto
  next
    fix i assume i: "i < HWTIMER_NUM"
    show "ht_state (node s' i) = (if i \<in> set (a # cs @ ds) then HWTIMER_STATE_ACTIVE
        else if i \<in> set (a # cs @ t # ds) then HWTIMER_STATE_ALLOC else ht_state (node s i))"
      using sta [OF i] r(12) [OF i] dist by auto
    show "ht_time (node s' i) < 4294967296"
      using tm [OF i] r(14) [OF i] by simp
    assume "i \<in> set fs \<union> set rs"
    then show "ht_next (node s' i) = ht_next (node s i)" using nx [OF i] p' r(8,10) by auto
  qed (rule dist)
  moreover have "deadlines cur (hl_timer s') (a # cs @ ds) =
      filter (\<lambda>p. fst p \<noteq> t) (deadlines cur ?ts (a # cs @ t # ds))"
    if d: "in_range (deadlines cur ?ts (a # cs @ t # ds))"
  proof -
    have flt: "filter (\<lambda>p. fst p \<noteq> t) (sched c ?ts xs) = sched c ?ts xs" if "t \<notin> set xs" for c xs
      using that by (induction xs arbitrary: c) auto
    have e1: "ht_time (node s' x) = ht_time (node s x)" if "x \<in> set cs \<union> set (drop 1 ds)" for x
      using that dist lt tm by (cases ds; auto)
    have "sched c (hl_timer s') cs = sched c ?ts cs" "span (hl_timer s') cs = span ?ts cs" for c
      using e1 by (simp_all cong: sched_cong span_cong)
    moreover have "sched c (hl_timer s') ds = sched (c + ht_time (node s t)) ?ts ds" for c
    proof (cases ds)
      case (Cons d ds')
      moreover have "sched x (hl_timer s') ds' = sched x ?ts ds'" for x
        using e1 Cons by (auto intro!: sched_cong)
      moreover have "ht_time (node s d) + ht_time (node s t) < 4294967296"
        using d Cons by (auto simp: in_range_def)
      ultimately show ?thesis using tm lt by (simp add: ac_simps add32_id)
    qed simp
    ultimately show ?thesis using dist act by (simp add: flt)
  qed
  ultimately show ?thesis using e sel by blast
qed

lemma stop_head_unlink:
  assumes rel: "hw_rel s fs (t # bs) rs"
    and s3: "length (hl_timer s3) = HWTIMER_NUM" "hl_free s3 = hl_free s" "hl_fired s3 = hl_fired s"
      "hl_active s3 = hd_opt bs"
    and n: "\<And>i. i < HWTIMER_NUM \<Longrightarrow> ht_next (node s3 i) = ht_next (node s i) \<and>
      ht_state (node s3 i) = ht_state (node s i) \<and> ht_time (node s3 i) < 4294967296"
  defines "s' \<equiv> set_node t (\<lambda>n. n\<lparr>ht_state := HWTIMER_STATE_ALLOC, ht_next := None\<rparr>) s3"
  shows "hw_rel s' fs bs rs" "sched c (hl_timer s') bs = sched c (hl_timer s3) bs"
proof -
  note r = hw_relD [OF rel] and b = hw_rel_in [OF rel]
  have t: "t < HWTIMER_NUM" "t \<notin> set bs" using b(2) r(6) by auto
  have len: "length (hl_timer s') = HWTIMER_NUM" using s3 by (simp add: s'_def)
  have nx: "ht_next (node s' i) = (if i = t then None else ht_next (node s i))"
    and st: "ht_state (node s' i) = (if i = t then HWTIMER_STATE_ALLOC else ht_state (node s i))"
    and tm: "ht_time (node s' i) = ht_time (node s3 i)" if "i < HWTIMER_NUM" for i
    using that n [OF that] s3(1) by (auto simp: s'_def nth_update)
  show "sched c (hl_timer s') bs = sched c (hl_timer s3) bs"
    using tm b(2) by (auto intro!: sched_cong)
  have "chain (hl_timer s) (hd_opt bs) bs" using r(3) chain_hd by fastforce
  then have c: "chain (hl_timer s') (hl_active s') bs"
    using nx b(2) t len r(1) s3(4) by (subst seg_cong [where ts = "hl_timer s"]) (auto simp: s'_def)
  show "hw_rel s' fs bs rs"
  proof (rule hw_rel_active [OF rel len _ _ c])
    show "hl_free s' = hl_free s" "hl_fired s' = hl_fired s" using s3 by (simp_all add: s'_def)
    show "distinct bs" "set bs \<inter> (set fs \<union> set rs) = {}" using r(6,8,10) by auto
  next
    fix i assume i: "i < HWTIMER_NUM"
    show "ht_state (node s' i) = (if i \<in> set bs then HWTIMER_STATE_ACTIVE
        else if i \<in> set (t # bs) then HWTIMER_STATE_ALLOC else ht_state (node s i))"
      using st [OF i] r(12) [OF i] t by auto
    show "ht_time (node s' i) < 4294967296" using tm [OF i] n [OF i] by simp
    assume "i \<in> set fs \<union> set rs"
    then show "ht_next (node s' i) = ht_next (node s i)" using nx [OF i] r(8,10) by auto
  qed
qed

text \<open>The time by which the head of the list is overdue when its counter has run out.\<close>

definition overrun :: "hwtimer_list \<Rightarrow> nat \<Rightarrow> nat" where
  "overrun s t = (if tm_value (hl_hw s) = 0
     then hal_timer_get_elapsed_time (hl_hw s) - ht_time (node s t) else 0)"

lemma hal_timer_stop_sel [simp]:
  "tm_value (hal_timer_stop h) = tm_value h"
  "hal_timer_get_elapsed_time (hal_timer_stop h) = hal_timer_get_elapsed_time h"
  by (simp_all add: hal_timer_stop_def hal_timer_get_elapsed_time_def)

lemma sched_zero:
  "(\<And>x. x \<in> set xs \<Longrightarrow> ht_time (ts ! x) = 0) \<Longrightarrow>
   sched c ts xs = map (\<lambda>x. (x, c)) xs \<and> span ts xs = 0"
  by (induction xs) auto

lemma stop_head_times:
  assumes rel: "hw_rel s fs (t # b # bs) rs"
    and cur: "tm_value (hl_hw s) \<le> max 1 (ht_time (node s t))"
    and late: "tm_value (hl_hw s) = 0 \<Longrightarrow>
      ht_time (node s t) \<le> add32 (hal_timer_get_elapsed_time (hl_hw s)) HAL_TIMER_LOAD_DELTA"
  shows "\<exists>s3. stop_active_head t s = Some s3 \<and>
    length (hl_timer s3) = HWTIMER_NUM \<and> hl_free s3 = hl_free s \<and> hl_fired s3 = hl_fired s \<and>
    hl_active s3 = Some b \<and>
    (\<forall>i<HWTIMER_NUM. ht_next (node s3 i) = ht_next (node s i) \<and>
      ht_state (node s3 i) = ht_state (node s i) \<and> ht_time (node s3 i) < 4294967296) \<and>
    (in_range (deadlines (tm_value (hl_hw s)) (hl_timer s) (t # b # bs)) \<longrightarrow>
      sched 0 (hl_timer s3) (b # bs) =
        later (overrun s t) (sched (tm_value (hl_hw s)) (hl_timer s) (b # bs))) \<and>
    hl_hw s3 = hal_timer_start (ht_time (node s3 b)) (hal_timer_stop (hl_hw s))"
proof -
  note r = hw_relD [OF rel] and m = hw_rel_in(2) [OF rel]
  have b: "b < HWTIMER_NUM" "b \<noteq> t" "ht_next (node s t) = Some b" using r(3,6) m by auto
  let ?c = "tm_value (hl_hw s)"
  have g: "?c \<le> ht_time (node s t) \<or> ?c \<le> HAL_TIMER_LOAD_DELTA"
    using cur by (auto simp: HAL_TIMER_LOAD_DELTA_def max_def split: if_splits)
  show ?thesis
  proof (cases "?c = 0")
    case False
    let ?s = "set_node b (\<lambda>m. m\<lparr>ht_time := add32 (ht_time m) ?c\<rparr>) (s\<lparr>hl_hw := hal_timer_stop (hl_hw s)\<rparr>)"
    have "stop_active_head t s =
        Some (?s\<lparr>hl_hw := hal_timer_start (ht_time (node ?s b)) (hal_timer_stop (hl_hw s)), hl_active := Some b\<rparr>)"
      (is "_ = Some ?s3")
      using g False b(3) by (simp add: stop_active_head_def Let_def hal_timer_get_def set_node_def
          r(1) b(1))
    moreover have "sched 0 (hl_timer ?s3) (b # bs) = sched ?c (hl_timer s) (b # bs)"
      if "in_range (deadlines ?c (hl_timer s) (t # b # bs))"
    proof -
      have "add32 (ht_time (node s b)) ?c = ?c + ht_time (node s b)"
        using that by (simp add: in_range_def add32_id add.commute)
      then show ?thesis
        using r(6) b(1) by (auto simp: nth_update r(1) intro!: sched_update)
    qed
    moreover have "later (overrun s t) (sched ?c (hl_timer s) (b # bs)) = sched ?c (hl_timer s) (b # bs)"
      using False by (simp add: overrun_def later_sched)
    ultimately show ?thesis using r(1) r(14)
      by (intro exI [of _ ?s3]) (auto simp: nth_update)
  next
    case True
    define e where "e = overrun s t"
    have e: "e < 4294967296" by (simp add: e_def overrun_def hal_timer_get_elapsed_time_def less_imp_diff_less)
    let ?h = "hal_timer_stop (hl_hw s)"
    define q where "q = (let elapsed_time = hal_timer_get_elapsed_time (hl_hw s) in
      if elapsed_time > ht_time (node s t) then sub32 elapsed_time (ht_time (node s t)) else 0)"
    have q: "q = e"
      by (simp add: q_def e_def overrun_def True Let_def sub32_id hal_timer_get_elapsed_time_def)
    obtain cs ds r' where sp: "due_split (hl_timer s) e (b # bs) = (cs, ds, r')" by (metis prod_cases3)
    have ch: "chain (hl_timer s) (Some b) (b # bs)" using r(3) b by simp
    have dist: "distinct (b # bs)" using r(6) by simp
    note os = overrun_scan_eq [OF ch dist e sp]
    note ap = due_split_append [OF sp]
    have sub: "set cs \<union> set ds = set (b # bs)" "set cs \<inter> set ds = {}" using ap dist
      by (metis set_append) (metis ap dist distinct_append)
    define ts3 where "ts3 = (case ds of [] \<Rightarrow> set_times cs (hl_timer s)
      | p # _ \<Rightarrow> (set_times cs (hl_timer s))[p := (set_times cs (hl_timer s) ! p)
          \<lparr>ht_time := sub32 (ht_time (set_times cs (hl_timer s) ! p)) r'\<rparr>])"
    define s3 where "s3 = s\<lparr>hl_timer := ts3, hl_hw := hal_timer_start (ht_time (ts3 ! b)) ?h,
      hl_active := Some b\<rparr>"
    have "stop_active_head t s = Some s3"
      using g True b(3) late os q
      by (cases ds) (auto simp: stop_active_head_def Let_def hal_timer_get_def q_def s3_def ts3_def set_node_def)
    have nd: "ts3 ! i = (node s i)\<lparr>ht_time := (if i \<in> set cs then 0 else if i \<in> set (take 1 ds)
       then ht_time (node s i) - r' else ht_time (node s i))\<rparr>" if "i < HWTIMER_NUM" for i
      using that r(1) r(14) ap sub
      by (cases ds) (auto simp: ts3_def nth_update nth_set_times wrap_simps)
    have s3: "hl_timer s3 = ts3" "length ts3 = HWTIMER_NUM"
      using r(1) by (auto simp: s3_def ts3_def split: list.splits)
    have inN: "x < HWTIMER_NUM" if "x \<in> set cs \<or> x \<in> set ds" for x
      using that sub(1) m [of x] by auto
    have z: "sched 0 ts3 cs = map (\<lambda>x. (x, 0)) cs" "span ts3 cs = 0"
      using sched_zero [of cs ts3 0] inN nd by simp_all
    have "sched 0 ts3 (b # bs) = later e (sched 0 (hl_timer s) (b # bs))"
    proof (cases ds)
      case Nil
      then show ?thesis using z ap later_due_split [OF sp] by simp
    next
      case (Cons d ds')
      have "distinct (cs @ d # ds')" using ap dist Cons by metis
      then have "x \<notin> set cs \<and> x \<noteq> d \<and> x < HWTIMER_NUM" if "x \<in> set ds'" for x
        using that Cons inN by auto
      then have "sched c ts3 ds' = sched c (hl_timer s) ds'" for c
        using Cons by (intro sched_cong) (simp add: nd)
      moreover have "ht_time (ts3 ! d) = ht_time (node s d) - r'"
        using nd [of d] sub(2) inN [of d] Cons by auto
      ultimately show ?thesis
        using Cons z ap(1) [THEN conjunct1] later_due_split [OF sp] by (simp del: sched.simps(2)) simp
    qed
    then show ?thesis
      using \<open>stop_active_head t s = Some s3\<close> s3 nd r(14) True
      by (intro exI [of _ s3]) (auto simp: s3_def e_def less_imp_diff_less)
  qed
qed

lemma stop_head:
  assumes rel: "hw_rel s fs (t # bs) rs"
    and cur: "tm_value (hl_hw s) \<le> max 1 (ht_time (node s t))"
    and late: "tm_value (hl_hw s) = 0 \<Longrightarrow> bs \<noteq> [] \<Longrightarrow>
      ht_time (node s t) \<le> add32 (hal_timer_get_elapsed_time (hl_hw s)) HAL_TIMER_LOAD_DELTA"
  shows "\<exists>s' cur'. hwtimer_stop (Some t) s = Some (E_HWTIMER_OK, s') \<and> hw_rel s' fs bs rs \<and>
    (in_range (deadlines (tm_value (hl_hw s)) (hl_timer s) (t # bs)) \<longrightarrow>
      deadlines cur' (hl_timer s') bs =
        later (overrun s t) (sched (tm_value (hl_hw s)) (hl_timer s) bs)) \<and>
    hl_hw s' = (if bs = [] then hal_timer_stop (hl_hw s)
      else hal_timer_start cur' (hal_timer_stop (hl_hw s)))"
proof -
  note r = hw_relD [OF rel] and m = hw_rel_in(2) [OF rel]
  have t: "t < HWTIMER_NUM" "hl_active s = Some t" using r(3) m by auto
  have st: "ht_state (node s t) = HWTIMER_STATE_ACTIVE" using r(12) [OF t(1)] by simp
  note stop = hwtimer_stop_active [OF st t]
  obtain s3 where s3: "stop_active_head t s = Some s3"
    "length (hl_timer s3) = HWTIMER_NUM" "hl_free s3 = hl_free s" "hl_fired s3 = hl_fired s"
    "hl_active s3 = hd_opt bs"
    "\<And>i. i < HWTIMER_NUM \<Longrightarrow> ht_next (node s3 i) = ht_next (node s i) \<and>
      ht_state (node s3 i) = ht_state (node s i) \<and> ht_time (node s3 i) < 4294967296"
    "in_range (deadlines (tm_value (hl_hw s)) (hl_timer s) (t # bs)) \<Longrightarrow>
      sched 0 (hl_timer s3) bs = later (overrun s t) (sched (tm_value (hl_hw s)) (hl_timer s) bs)"
    "hl_hw s3 = (if bs = [] then hal_timer_stop (hl_hw s)
      else hal_timer_start (ht_time (node s3 (hd bs))) (hal_timer_stop (hl_hw s)))"
  proof (cases bs)
    case Nil
    have "stop_active_head t s = Some (s\<lparr>hl_hw := hal_timer_stop (hl_hw s), hl_active := None\<rparr>)"
      using cur r(3) Nil by (auto simp: stop_active_head_def Let_def hal_timer_get_def
          HAL_TIMER_LOAD_DELTA_def max_def split: if_splits)
    then show ?thesis by (rule that) (use Nil r(1,14) in auto)
  next
    case (Cons b bs')
    then show ?thesis
      using stop_head_times [OF rel [unfolded Cons] cur] late by (auto intro!: that)
  qed
  define s' where "s' = set_node t (\<lambda>n. n\<lparr>ht_state := HWTIMER_STATE_ALLOC, ht_next := None\<rparr>) s3"
  note u = stop_head_unlink [OF rel s3(2-6), folded s'_def]
  have "hwtimer_stop (Some t) s = Some (E_HWTIMER_OK, s')" using stop s3(1) by (simp add: s'_def)
  moreover have "deadlines (ht_time (node s' (hd bs))) (hl_timer s') bs = sched 0 (hl_timer s') bs"
    by (cases bs) auto
  moreover have "ht_time (node s' (hd bs)) = ht_time (node s3 (hd bs))" if "bs \<noteq> []"
    using s3(2) t(1) by (simp add: s'_def nth_update)
  ultimately show ?thesis
    using u s3(7,8) by (intro exI [of _ s'] exI [of _ "ht_time (node s' (hd bs))"])
      (auto simp: s'_def)
qed

lemma stop_spec:
  assumes rel: "hw_rel s fs as rs" and t: "t \<in> set as"
    and cur: "tm_value (hl_hw s) \<le> max 1 (ht_time (node s (hd as)))"
    and late: "tm_value (hl_hw s) = 0 \<Longrightarrow> as \<noteq> [t] \<Longrightarrow> t = hd as \<Longrightarrow>
      ht_time (node s t) \<le> add32 (hal_timer_get_elapsed_time (hl_hw s)) HAL_TIMER_LOAD_DELTA"
  shows "\<exists>s' cur'. hwtimer_stop (Some t) s = Some (E_HWTIMER_OK, s') \<and>
    hw_rel s' fs (remove1 t as) rs \<and>
    (in_range (deadlines (tm_value (hl_hw s)) (hl_timer s) as) \<longrightarrow>
      deadlines cur' (hl_timer s') (remove1 t as) = filter (\<lambda>p. fst p \<noteq> t)
        (later (if t = hd as then overrun s t else 0) (deadlines (tm_value (hl_hw s)) (hl_timer s) as))) \<and>
    hl_hw s' = (if t \<noteq> hd as then hl_hw s else if as = [t] then hal_timer_stop (hl_hw s)
      else hal_timer_start cur' (hal_timer_stop (hl_hw s))) \<and>
    (t \<noteq> hd as \<longrightarrow> cur' = tm_value (hl_hw s))"
proof -
  let ?c = "tm_value (hl_hw s)"
  have d: "distinct as" using hw_relD(6) [OF rel] .
  have l0: "later 0 D = D" for D by (induction D) auto
  have nin: "filter (\<lambda>p. fst p \<noteq> t) (later e (sched c ts bs)) = later e (sched c ts bs)"
    if "t \<notin> set bs" for e c ts bs
    using that by (induction bs arbitrary: c) auto
  show ?thesis
  proof (cases "t = hd as")
    case True
    then obtain bs where as: "as = t # bs" using t by (cases as) auto
    have nt: "t \<notin> set bs" using d as by simp
    have "tm_value (hl_hw s) \<le> max 1 (ht_time (node s t))" using cur as by simp
    from stop_head [OF rel [unfolded as] this] late as obtain s' cur' where
      "hwtimer_stop (Some t) s = Some (E_HWTIMER_OK, s')" "hw_rel s' fs bs rs"
      "in_range (deadlines ?c (hl_timer s) as) \<Longrightarrow>
        deadlines cur' (hl_timer s') bs = later (overrun s t) (sched ?c (hl_timer s) bs)"
      "hl_hw s' = (if bs = [] then hal_timer_stop (hl_hw s)
        else hal_timer_start cur' (hal_timer_stop (hl_hw s)))" by force
    moreover have "filter (\<lambda>p. fst p \<noteq> t) (later (overrun s t) (deadlines ?c (hl_timer s) as)) =
        later (overrun s t) (sched ?c (hl_timer s) bs)"
      using nin [OF nt] as by simp
    ultimately show ?thesis using as
      by (intro exI [of _ s'] exI [of _ cur']) simp
  next
    case False
    then obtain a cs ds where as: "as = a # cs @ t # ds"
      using t by (cases as) (auto dest: split_list)
    then have nt: "t \<notin> set (a # cs)" using d by auto
    obtain s' where "hwtimer_stop (Some t) s = Some (E_HWTIMER_OK, s')" "hw_rel s' fs (a # cs @ ds) rs"
      "hl_hw s' = hl_hw s" "in_range (deadlines ?c (hl_timer s) as) \<Longrightarrow>
        deadlines ?c (hl_timer s') (a # cs @ ds) = filter (\<lambda>p. fst p \<noteq> t) (deadlines ?c (hl_timer s) as)"
      using stop_inner [OF rel [unfolded as], of ?c] as by auto
    moreover have "remove1 t as = a # cs @ ds" using as nt by (simp add: remove1_append)
    ultimately show ?thesis using False l0
      by (intro exI [of _ s'] exI [of _ ?c]) simp
  qed
qed

text \<open>A fired timer that has not been called yet is taken off the list \<open>fired\<close>.\<close>

lemma stop_fired_spec:
  assumes rel: "hw_rel s fs as rs" and t: "t \<in> set rs"
  shows "\<exists>s'. hwtimer_stop (Some t) s = Some (E_HWTIMER_OK, s') \<and> hw_rel s' fs as (remove1 t rs)"
proof -
  let ?ts = "hl_timer s"
  note r = hw_relD [OF rel] and b = hw_rel_in [OF rel]
  have tl: "t < HWTIMER_NUM" using b(3) t by simp
  have st: "ht_state (node s t) = HWTIMER_STATE_FIRED" using r(13) [OF tl] t by simp
  obtain cs ds where rs: "rs = cs @ t # ds" using t by (auto dest: split_list)
  have nt: "t \<notin> set cs" "t \<notin> set ds" "set cs \<inter> set ds = {}" "distinct cs" "distinct ds"
    using r(7) rs by auto
  have rm: "remove1 t rs = cs @ ds" using rs nt by (simp add: remove1_append)
  have q: "seg ?ts (hl_fired s) cs (Some t)" "chain ?ts (ht_next (?ts ! t)) ds"
    using r(4) rs by auto
  have nxt: "ht_next (?ts ! t) = hd_opt ds" using chain_hd [OF q(2)] .
  obtain s3 where s3: "stop_fired t s = Some s3" "length (hl_timer s3) = HWTIMER_NUM"
    "hl_free s3 = hl_free s" "hl_active s3 = hl_active s"
    "\<And>i. i < HWTIMER_NUM \<Longrightarrow> node s3 i = (node s i)\<lparr>ht_next :=
       (if cs \<noteq> [] \<and> i = last cs then hd_opt ds else ht_next (node s i))\<rparr>"
    "hl_fired s3 = (if cs = [] then hd_opt ds else hl_fired s)"
  proof (cases cs)
    case Nil
    then have "stop_fired t s = Some (s\<lparr>hl_fired := ht_next (node s t)\<rparr>)"
      using q by (simp add: stop_fired_def)
    then show ?thesis by (rule that) (use Nil r(1) nxt in auto)
  next
    case (Cons f fs')
    then have "find_scan ?ts t f (ht_next (?ts ! f)) = Some (last cs, Some t)"
      using find_scan_eq [of ?ts "ht_next (?ts ! f)" fs' t ds f] r(4) rs nt by simp
    moreover have "hl_fired s = Some f" "f \<noteq> t" using q Cons nt by auto
    ultimately have "stop_fired t s = Some (set_node (last cs) (\<lambda>m. m\<lparr>ht_next := ht_next (node s t)\<rparr>) s)"
      by (simp add: stop_fired_def)
    then show ?thesis by (rule that) (use Cons r(1) nxt \<open>hl_fired s = Some f\<close> in \<open>auto simp: nth_update\<close>)
  qed
  define s' where "s' = set_node t (\<lambda>n. n\<lparr>ht_state := HWTIMER_STATE_ALLOC, ht_next := None\<rparr>) s3"
  have "hwtimer_stop (Some t) s = Some (E_HWTIMER_OK, s')"
    using st tl s3(1) by (simp add: hwtimer_stop_def invalid_id_def Let_def s'_def)
  moreover have "hw_rel s' fs as (cs @ ds)"
  proof -
    have sel: "length (hl_timer s') = HWTIMER_NUM" "hl_free s' = hl_free s" "hl_active s' = hl_active s"
      "hl_fired s' = (if cs = [] then hd_opt ds else hl_fired s)" using s3 by (simp_all add: s'_def)
    have nd: "ht_next (node s' i) = (if i = t then None else if cs \<noteq> [] \<and> i = last cs then hd_opt ds
        else ht_next (node s i))" "ht_time (node s' i) = ht_time (node s i)"
      "ht_state (node s' i) = (if i = t then HWTIMER_STATE_ALLOC else ht_state (node s i))"
      if "i < HWTIMER_NUM" for i using that s3(2,5) by (simp_all add: s'_def nth_update)
    have lc: "cs \<noteq> [] \<Longrightarrow> last cs \<in> set rs \<and> last cs \<notin> set ds" 
    using rs nt(3) by (metis Un_iff disjoint_iff last_in_set set_append)
    have out: "ht_next (node s' x) = ht_next (node s x)" if "x < HWTIMER_NUM" "x \<notin> set rs" for x
      using nd(1) [OF that(1)] that(2) lc t by auto
    have "ht_next (node s' x) = ht_next (node s x)" if "x \<in> set fs \<or> x \<in> set as" for x
      by (rule out) (use that b r(9,10) in auto)
    then have "chain (hl_timer s') (hl_free s') fs" "chain (hl_timer s') (hl_active s') as"
      using r(1-3) sel by (simp_all add: seg_cong [of _ "hl_timer s'" ?ts])
    moreover have "chain (hl_timer s') (hd_opt ds) ds"
      using q(2) nxt sel r(1) b(3) rs nd lc nt by (subst seg_cong [where ts = ?ts]) auto
    then have "chain (hl_timer s') (hl_fired s') (cs @ ds)"
    proof (cases cs rule: rev_cases)
      case (snoc xs x)
      have "seg ?ts (hl_fired s) xs (Some x)" using q(1) snoc by simp
      then have "seg (hl_timer s') (hl_fired s) xs (Some x)"
        using sel r(1) b(3) rs snoc nd nt by (subst seg_cong [where ts = ?ts]) auto
      moreover have "ht_next (node s' x) = hd_opt ds" "x < HWTIMER_NUM"
        using nd(1) [of x] b(3) rs snoc nt by auto
      ultimately show ?thesis using \<open>chain (hl_timer s') (hd_opt ds) ds\<close> snoc sel by auto
    qed (simp add: sel)
    ultimately show ?thesis
      using sel r nt rs nd by (auto simp: hw_rel_def)
  qed
  ultimately show ?thesis using rm by simp
qed

section \<open>Expiry\<close>

lemma chain_starts: "chain ts p xs \<Longrightarrow> chain ts (hd_opt xs) xs"
  by (cases xs) auto

lemma expire_nodes:
  assumes rel: "hw_rel s fs (a # bs) []" and e: "elapsed < 4294967296"
    and sp: "due_split (hl_timer s) (elapsed - ht_time (node s a)) bs = (cs, ds, r')"
  shows "\<exists>s'. handler_expire a elapsed s = Some s' \<and> length (hl_timer s') = HWTIMER_NUM \<and>
    hl_free s' = hl_free s \<and> hl_active s' = hd_opt ds \<and> hl_fired s' = Some a \<and>
    (\<forall>i<HWTIMER_NUM. node s' i = (node s i)
      \<lparr>ht_next := if i = last (a # cs) then None else ht_next (node s i),
       ht_time := if i \<in> set (take 1 ds) then ht_time (node s i) - r' else ht_time (node s i),
       ht_state := if i \<in> set (a # cs) then HWTIMER_STATE_FIRED else ht_state (node s i)\<rparr>) \<and>
    hl_hw s' = (if ds = [] then hal_timer_stop (hl_hw s)
      else hal_timer_start (ht_time (node s' (hd ds))) (hl_hw s))"
proof -
  let ?ts = "hl_timer s"
  note r = hw_relD [OF rel] and b = hw_rel_in [OF rel]
  have a: "a < HWTIMER_NUM" "a \<notin> set bs" "hl_active s = Some a" using b(2) r(3,6) by auto
  define q where "q = (if elapsed > ht_time (node s a) then sub32 elapsed (ht_time (node s a)) else 0)"
  have q: "q = elapsed - ht_time (node s a)" "q < 4294967296"
    using e by (auto simp: q_def sub32_id)
  define ts1 where "ts1 = ?ts[a := (?ts ! a)\<lparr>ht_state := HWTIMER_STATE_FIRED\<rparr>]"
  have n1: "ts1 ! i = (if i = a then (?ts ! a)\<lparr>ht_state := HWTIMER_STATE_FIRED\<rparr> else ?ts ! i)" for i
    using a r(1) by (auto simp: ts1_def nth_update)
  have "chain ?ts (ht_next (?ts ! a)) bs" using r(3) by simp
  then have ch: "chain ts1 (ht_next (ts1 ! a)) bs"
  proof -
    have "length ts1 = length ?ts" by (simp add: ts1_def)
    with \<open>chain ?ts (ht_next (?ts ! a)) bs\<close> a show ?thesis
      by (subst seg_cong [where ts = ?ts]) (auto simp: n1)
  qed
  have sp1: "due_split ts1 q bs = (cs, ds, r')"
    using sp by (subst due_split_cong [where ts = ?ts]) (auto simp: n1 q)
  have dist: "distinct bs" using r(6) by simp
  note fs = fire_scan_eq [OF ch dist q(2) sp1, of a]
  note ap = due_split_append [OF sp1]
  have sub: "set cs \<inter> set ds = {}" "\<And>x. x \<in> set cs \<or> x \<in> set ds \<Longrightarrow> x < HWTIMER_NUM \<and> x \<noteq> a"
    using ap dist b(2) a(2) by auto
  have dsa: "r' < ht_time (node s d)" if "ds = d # ds'" for d ds'
  proof -
    have "d \<noteq> a" using sub(2) [of d] that by simp
    then show ?thesis using ap that by (simp add: n1)
  qed
  define ts2 where "ts2 = set_states HWTIMER_STATE_FIRED cs ts1"
  define p' where "p' = last (a # cs)"
  define ts3 where "ts3 = ts2[p' := (ts2 ! p')\<lparr>ht_next := None\<rparr>]"
  define ts4 where "ts4 = (case ds of [] \<Rightarrow> ts3
    | d # _ \<Rightarrow> ts3[d := (ts3 ! d)\<lparr>ht_time := sub32 (ht_time (ts3 ! d)) r'\<rparr>])"
  define s' where "s' = s\<lparr>hl_timer := ts4, hl_fired := Some a, hl_active := hd_opt ds,
    hl_hw := (if ds = [] then hal_timer_stop (hl_hw s)
      else hal_timer_start (ht_time (ts4 ! hd ds)) (hl_hw s))\<rparr>"
  have "handler_expire a elapsed s = Some s'"
    using fs [folded ts2_def p'_def] a(3)
    by (cases ds) (auto simp: handler_expire_def Let_def q_def [symmetric] set_node_def
        ts1_def [symmetric] ts3_def ts4_def s'_def)
  moreover have "node s' i = (node s i)
      \<lparr>ht_next := if i = last (a # cs) then None else ht_next (node s i),
       ht_time := if i \<in> set (take 1 ds) then ht_time (node s i) - r' else ht_time (node s i),
       ht_state := if i \<in> set (a # cs) then HWTIMER_STATE_FIRED else ht_state (node s i)\<rparr>"
    if i: "i < HWTIMER_NUM" for i
  proof -
    have "length ts1 = HWTIMER_NUM" using r(1) by (simp add: ts1_def)
    then have l: "length ts2 = HWTIMER_NUM" "length ts3 = HWTIMER_NUM"
      "ts2 ! i = (if i \<in> set cs then (ts1 ! i)\<lparr>ht_state := HWTIMER_STATE_FIRED\<rparr> else ts1 ! i)"
      using i by (simp_all add: ts2_def ts3_def nth_set_states)
    then have n3: "ts3 ! i = (node s i)\<lparr>ht_next := if i = last (a # cs) then None else ht_next (node s i),
       ht_state := if i \<in> set (a # cs) then HWTIMER_STATE_FIRED else ht_state (node s i)\<rparr>"
      using i by (auto simp: ts3_def nth_update p'_def n1)
    show ?thesis
    proof (cases ds)
      case Nil
      then show ?thesis using n3 by (simp add: s'_def ts4_def)
    next
      case (Cons d ds')
      show ?thesis
      proof (cases "i = d")
        case True
        have "sub32 (ht_time (node s d)) r' = ht_time (node s d) - r'"
          using dsa [OF Cons] r(14) i True by (simp add: sub32_id)
        then show ?thesis using True Cons n3 i l by (simp add: s'_def ts4_def nth_update)
      qed (use Cons n3 in \<open>simp add: s'_def ts4_def nth_update\<close>)
    qed
  qed
  ultimately show ?thesis
    using r(1) by (intro exI [of _ s']) (auto simp: s'_def ts4_def ts3_def ts2_def ts1_def split: list.splits)
qed

text \<open>What is due, what remains, and the invariant.\<close>

lemma sched_le: "(x, u) \<in> set (sched c ts xs) \<Longrightarrow> u \<le> c + span ts xs"
  by (induction xs arbitrary: c) fastforce+

lemma due_split_filter:
  assumes "due_split ts e xs = (cs, ds, r)"
  shows "filter (\<lambda>p. snd p \<le> c + e) (sched c ts xs) = sched c ts cs"
    "filter (\<lambda>p. snd p > c + e) (sched c ts xs) = sched (c + span ts cs) ts ds"
proof -
  note ap = due_split_append [OF assms]
  have "snd p \<le> c + e" if "p \<in> set (sched c ts cs)" for p
    using sched_le [of "fst p" "snd p" c ts cs] that ap by auto
  moreover have "snd p > c + e" if "p \<in> set (sched (c + span ts cs) ts ds)" for p
  proof (cases ds)
    case (Cons d ds')
    then have "r < ht_time (ts ! d)" using ap by simp
    then show ?thesis using that Cons ap
        sched_ge [of "fst p" "snd p" "c + span ts cs + ht_time (ts ! d)" ts ds'] by auto
  qed (use that in simp)
  ultimately show "filter (\<lambda>p. snd p \<le> c + e) (sched c ts xs) = sched c ts cs"
    "filter (\<lambda>p. snd p > c + e) (sched c ts xs) = sched (c + span ts cs) ts ds"
    using ap by (auto simp: filter_empty_conv filter_id_conv not_le not_less
        intro!: order.strict_implies_order)
qed

lemma handler_expire_spec:
  assumes rel: "hw_rel s fs (a # bs) []" and e: "elapsed < 4294967296"
  defines "E \<equiv> max elapsed (ht_time (node s a))"
  defines "D \<equiv> sched 0 (hl_timer s) (a # bs)"
  shows "\<exists>s' as' rs cur'. handler_expire a elapsed s = Some s' \<and> hw_rel s' fs as' rs \<and>
    rs = map fst (filter (\<lambda>p. snd p \<le> E) D) \<and>
    deadlines cur' (hl_timer s') as' = later E (filter (\<lambda>p. snd p > E) D) \<and>
    hl_hw s' = (if as' = [] then hal_timer_stop (hl_hw s) else hal_timer_start cur' (hl_hw s))"
proof -
  let ?ts = "hl_timer s"
  note r = hw_relD [OF rel] and b = hw_rel_in [OF rel]
  have a: "a < HWTIMER_NUM" "a \<notin> set bs" "hl_active s = Some a" "distinct bs" using b(2) r(3,6) by auto
  obtain cs ds r' where sp: "due_split ?ts (elapsed - ht_time (node s a)) bs = (cs, ds, r')"
    by (metis prod_cases3)
  obtain s' where s': "handler_expire a elapsed s = Some s'" "length (hl_timer s') = HWTIMER_NUM"
    "hl_free s' = hl_free s" "hl_active s' = hd_opt ds" "hl_fired s' = Some a"
    and nd: "\<And>i. i < HWTIMER_NUM \<Longrightarrow> node s' i = (node s i)
      \<lparr>ht_next := if i = last (a # cs) then None else ht_next (node s i),
       ht_time := if i \<in> set (take 1 ds) then ht_time (node s i) - r' else ht_time (node s i),
       ht_state := if i \<in> set (a # cs) then HWTIMER_STATE_FIRED else ht_state (node s i)\<rparr>"
    and hw: "hl_hw s' = (if ds = [] then hal_timer_stop (hl_hw s)
      else hal_timer_start (ht_time (node s' (hd ds))) (hl_hw s))"
    using expire_nodes [OF rel e sp] by blast
  note ap = due_split_append [OF sp]
  have bs: "bs = cs @ ds" using ap by simp
  have d: "distinct (cs @ ds)" "a \<notin> set (cs @ ds)" using a bs by auto
  have in': "x < HWTIMER_NUM" if "x \<in> set (a # cs @ ds)" for x using b(2) that bs by auto
  define p' where "p' = last (a # cs)"
  obtain xs where xs: "a # cs = xs @ [p']" by (metis p'_def append_butlast_last_id list.distinct(1))
  have eq: "a # cs @ zs = xs @ p' # zs" for zs using xs by (metis append.assoc append_Cons append_Nil)
  have q: "seg ?ts (Some a) xs (Some p')" "chain ?ts (hd_opt ds) ds"
  proof -
    have "chain ?ts (Some a) (xs @ p' # ds)" using r(3) a(3) bs eq [of ds] by simp
    then show "seg ?ts (Some a) xs (Some p')" "chain ?ts (hd_opt ds) ds"
      using chain_starts by auto
  qed
  have nx: "ht_next (node s' x) = ht_next (node s x)" if "x < HWTIMER_NUM" "x \<noteq> p'" for x
    using nd [OF that(1)] that(2) by (simp add: p'_def)
  have dx: "distinct (xs @ p' # ds)" using d unfolding eq [symmetric] by auto
  have p'in: "p' \<in> set (a # bs)" unfolding p'_def using bs last_in_set [of "a # cs"] by auto
  have rel': "hw_rel s' fs ds (a # cs)"
  proof -
    have "chain (hl_timer s') (hl_free s') fs"
      using r(1,2,8) s'(2,3) b(1) p'in nx seg_cong [of fs "hl_timer s'" ?ts] by (metis disjoint_iff)
    moreover have "chain (hl_timer s') (hl_active s') ds"
      unfolding s'(4) using q(2) dx nx in' s'(2) r(1) by (subst seg_cong [where ts = ?ts]) auto
    moreover have "chain (hl_timer s') (hl_fired s') (a # cs)"
    proof -
      have x: "x < HWTIMER_NUM" if "x \<in> set (xs @ [p'])" for x using in' that xs by (metis Un_iff set_append append_Cons)
      have "seg (hl_timer s') (Some a) xs (Some p')"
        using x q(1) dx nx s'(2) r(1) by (subst seg_cong [where ts = ?ts]) auto
      moreover have "ht_next (node s' p') = None"
        using nd [of p'] x [of p'] by (simp add: p'_def)
      ultimately show ?thesis unfolding s'(5) xs using x s'(2) by simp
    qed
    moreover have "(ht_state (node s' i) = HWTIMER_STATE_FREE \<longleftrightarrow> i \<in> set fs) \<and>
       (ht_state (node s' i) = HWTIMER_STATE_ACTIVE \<longleftrightarrow> i \<in> set ds) \<and>
       (ht_state (node s' i) = HWTIMER_STATE_FIRED \<longleftrightarrow> i \<in> set (a # cs)) \<and>
       ht_time (node s' i) < 4294967296" if "i < HWTIMER_NUM" for i
      using nd [OF that] r(8) r(11-14) [OF that] d bs by auto
    ultimately show ?thesis using s'(2) r(5,8) d bs by (auto simp: hw_rel_def)
  qed
  have E: "E = ht_time (node s a) + (elapsed - ht_time (node s a))" by (simp add: E_def max_def)
  note flt = due_split_filter [OF sp, of "ht_time (node s a)", folded E]
  have 1: "a # cs = map fst (filter (\<lambda>p. snd p \<le> E) D)"
    using flt(1) by (simp add: D_def E_def)
  have 2: "deadlines (ht_time (node s' (hd ds))) (hl_timer s') ds = later E (filter (\<lambda>p. snd p > E) D)"
  proof (cases ds)
    case Nil
    then show ?thesis using flt(2) by (simp add: D_def E_def)
  next
    case (Cons d' ds')
    have t': "ht_time (node s' d') = ht_time (node s d') - r'" using nd [of d'] in' [of d'] Cons by simp
    have "ht_time (node s' x) = ht_time (node s x)" if "x \<in> set ds'" for x
      using nd [of x] in' [of x] that d Cons by auto
    then have "sched c (hl_timer s') ds' = sched c ?ts ds'" for c by (intro sched_cong)
    moreover have "ht_time (node s a) + span ?ts cs + ht_time (node s d') - E = ht_time (node s d') - r'"
      "E \<le> ht_time (node s a) + span ?ts cs + ht_time (node s d')"
      using ap Cons E by auto
    ultimately show ?thesis using flt(2) Cons t' by (simp add: D_def E_def later_sched add.assoc)
  qed
  show ?thesis
    using s'(1) rel' 1 2 hw by (intro exI [of _ s'] exI [of _ ds] exI [of _ "a # cs"]
        exI [of _ "ht_time (node s' (hd ds))"]) auto
qed

section \<open>Allocation\<close>

lemma hw_rel_idle:
  assumes rel: "hw_rel s fs as rs" and i: "i < HWTIMER_NUM" "i \<notin> set fs" "i \<notin> set as" "i \<notin> set rs"
    and f: "ht_state (f (node s i)) = HWTIMER_STATE_ALLOC \<or> ht_state (f (node s i)) = HWTIMER_STATE_CALLBACK"
      "ht_time (f (node s i)) < 4294967296"
  shows "hw_rel (set_node i f s) fs as rs"
proof -
  note r = hw_relD [OF rel]
  show ?thesis
    using r(1-5,6-10) i f hw_relD(11-14) [OF rel]
    by (auto simp: hw_rel_def chain_update nth_update)
qed

lemma hwtimer_alloc_spec:
  assumes rel: "hw_rel s fs as rs"
  shows "hwtimer_alloc cb p s = (case fs of
     [] \<Rightarrow> Some (None, s)
   | t # fs' \<Rightarrow> Some (Some t, set_node t (\<lambda>n. n\<lparr>ht_state := HWTIMER_STATE_ALLOC,
            ht_callback := cb, ht_param := p, ht_next := None\<rparr>) (s\<lparr>hl_free := hd_opt fs'\<rparr>)))"
    and "fs = t # fs' \<Longrightarrow> hw_rel (set_node t (\<lambda>n. n\<lparr>ht_state := HWTIMER_STATE_ALLOC,
            ht_callback := cb, ht_param := p, ht_next := None\<rparr>) (s\<lparr>hl_free := hd_opt fs'\<rparr>)) fs' as rs"
proof -
  note r = hw_relD [OF rel] and b = hw_rel_in [OF rel]
  show "hwtimer_alloc cb p s = (case fs of
     [] \<Rightarrow> Some (None, s)
   | t # fs' \<Rightarrow> Some (Some t, set_node t (\<lambda>n. n\<lparr>ht_state := HWTIMER_STATE_ALLOC,
            ht_callback := cb, ht_param := p, ht_next := None\<rparr>) (s\<lparr>hl_free := hd_opt fs'\<rparr>)))"
  proof (cases fs)
    case (Cons t fs')
    then have "ht_state (node s t) = HWTIMER_STATE_FREE" using r(11) b(1) by simp
    moreover have "hl_free s = Some t" "ht_next (node s t) = hd_opt fs'"
      using r(2) Cons chain_hd by auto
    ultimately show ?thesis using Cons by (simp add: hwtimer_alloc_def Let_def)
  qed (use r(2) in \<open>simp add: hwtimer_alloc_def\<close>)
  assume fs: "fs = t # fs'"
  have t: "t < HWTIMER_NUM" "t \<notin> set fs'" "t \<notin> set as" "t \<notin> set rs" using b(1) fs r(5,8,9) by auto
  have "chain (hl_timer s) (hd_opt fs') fs'" using r(2) fs chain_starts by auto
  then show "hw_rel (set_node t (\<lambda>n. n\<lparr>ht_state := HWTIMER_STATE_ALLOC,
            ht_callback := cb, ht_param := p, ht_next := None\<rparr>) (s\<lparr>hl_free := hd_opt fs'\<rparr>)) fs' as rs"
    using r(1,3-10) t fs hw_relD(11-14) [OF rel]
    by (auto simp: hw_rel_def chain_update nth_update)
qed

lemma hwtimer_free_spec:
  assumes rel: "hw_rel s fs as rs" and t: "t < HWTIMER_NUM"
    and st: "ht_state (node s t) = HWTIMER_STATE_ALLOC"
  shows "\<exists>s'. hwtimer_free (Some t) s = (E_HWTIMER_OK, s') \<and> hw_rel s' (t # fs) as rs"
proof -
  note r = hw_relD [OF rel]
  have nt: "t \<notin> set fs" "t \<notin> set as" "t \<notin> set rs" using st r(11-13) [OF t] by auto
  have "chain (hl_timer s) (hl_free s) fs" by (rule r(2))
  then show ?thesis
    using st t nt r(1,3-10) hw_relD(11-14) [OF rel]
    by (auto simp: hwtimer_free_def invalid_id_def Let_def hw_rel_def chain_update nth_update)
qed

lemma nth_hwtimer_init_loop:
  "k < length ts \<Longrightarrow> i < length ts \<Longrightarrow> length (hwtimer_init_loop k ts) = length ts \<and>
   hwtimer_init_loop k ts ! i =
     (if i < k then (ts ! i)\<lparr>ht_state := HWTIMER_STATE_FREE, ht_next := Some (Suc i)\<rparr> else ts ! i)"
  by (induction k) (auto simp: nth_update less_Suc_eq)

lemma chain_upt:
  "i \<le> n \<Longrightarrow> n < length ts \<Longrightarrow> (\<forall>j<n. ht_next (ts ! j) = Some (Suc j)) \<Longrightarrow> ht_next (ts ! n) = None \<Longrightarrow>
   chain ts (Some i) [i..<Suc n]"
proof (induction "n - i" arbitrary: i)
  case 0
  then show ?case by (simp add: upt_rec)
next
  case (Suc k)
  then have "chain ts (Some (Suc i)) [Suc i..<Suc n]" by simp
  then show ?case using Suc.prems Suc.hyps(2) by (subst upt_conv_Cons) (auto simp del: upt_Suc)
qed

lemma hwtimer_init_spec:
  assumes "length (hl_timer s) = HWTIMER_NUM" "ht_state (node s 9) = HWTIMER_STATE_FREE"
    and "\<forall>n\<in>set (hl_timer s). ht_time n < 4294967296"
  shows "hw_rel (hwtimer_init s) [0..<HWTIMER_NUM] [] []"
proof -
  let ?s = "hwtimer_init s"
  have t: "ht_time (node s i) < 4294967296" if "i < HWTIMER_NUM" for i
    using assms(1,3) that by simp
  have l: "length (hl_timer ?s) = HWTIMER_NUM" "hl_free ?s = Some 0" "hl_active ?s = None"
    "hl_fired ?s = None"
    using assms(1) nth_hwtimer_init_loop [of 9 "hl_timer s" 0]
    by (simp_all add: hwtimer_init_def Let_def HWTIMER_NUM_def)
  have n: "node ?s i = (node s i)\<lparr>ht_state := HWTIMER_STATE_FREE,
      ht_next := (if i = 9 then None else Some (Suc i))\<rparr>" if "i < HWTIMER_NUM" for i
    using assms(1,2) that nth_hwtimer_init_loop [of 9 "hl_timer s" i] 
      nth_hwtimer_init_loop [of 9 "hl_timer s" 9]
    by (auto simp: hwtimer_init_def Let_def HWTIMER_NUM_def nth_update)
  have "chain (hl_timer ?s) (Some 0) [0..<Suc 9]"
    by (rule chain_upt) (use l(1) n in \<open>auto simp: HWTIMER_NUM_def\<close>)
  then show ?thesis using l n t by (auto simp: hw_rel_def HWTIMER_NUM_def)
qed

lemma length_remove1_le: "length (remove1 x xs) \<le> length xs"
  by (simp add: length_remove1)

section \<open>Calls in any order\<close>

datatype timer_call =
  Call_alloc "nat option" nat
| Call_free "nat option"
| Call_start "nat option" u32
| Call_update_start "nat option" "nat option" nat u32
| Call_update "nat option" "nat option" nat
| Call_stop "nat option"
| Hw_moves dual_timer

fun run_call :: "timer_call \<Rightarrow> hwtimer_list \<Rightarrow> hwtimer_list option" where
  "run_call (Call_alloc cb p) s = map_option snd (hwtimer_alloc cb p s)"
| "run_call (Call_free t) s = Some (snd (hwtimer_free t s))"
| "run_call (Call_start t n) s = map_option snd (hwtimer_start t (unat n) s)"
| "run_call (Call_update_start t cb p n) s =
     map_option snd (hwtimer_update_then_start t cb p (unat n) s)"
| "run_call (Call_update t cb p) s = Some (snd (hwtimer_update t cb p s))"
| "run_call (Call_stop t) s = map_option snd (hwtimer_stop t s)"
| "run_call (Hw_moves h) s = Some (s\<lparr>hl_hw := h\<rparr>)"

fun run_script :: "timer_call list \<Rightarrow> hwtimer_list \<Rightarrow> hwtimer_list option" where
  "run_script [] s = Some s"
| "run_script (c # cs) s = run_call c s \<bind> run_script cs"

lemma start_int_inv:
  assumes rel: "hw_rel s fs as rs" and n: "n < 4294967296"
    and e: "hwtimer_start_int tid upd cb p n s = Some (r, s')"
  shows "\<exists>as'. hw_rel s' fs as' rs"
proof (cases "invalid_id tid")
  case True
  then show ?thesis using e rel by (auto simp: hwtimer_start_int_def)
next
  case False
  then obtain t where t: "tid = Some t" "t < HWTIMER_NUM"
    by (auto simp: invalid_id_def split: option.splits)
  show ?thesis
  proof (cases "ht_state (node s t) = HWTIMER_STATE_ALLOC \<or> ht_state (node s t) = HWTIMER_STATE_CALLBACK")
    case True
    have m: "marked s t fs as rs (start_mark t upd cb p s)"
      by (rule marked_start_mark [OF rel t(2) True])
    have "tm_value (hl_hw s) \<le> max 1 (ht_time (node s (hd as)))" if ne: "as \<noteq> []"
    proof (rule ccontr)
      assume "\<not> ?thesis"
      then have "\<not> tm_value (hl_hw s) \<le> 1" "\<not> tm_value (hl_hw s) \<le> ht_time (node s (hd as))"
        by auto
      moreover obtain a where "hl_active s = Some a" "hd as = a" "a < HWTIMER_NUM"
        using ne hw_relD(3) [OF rel] hw_rel_in(2) [OF rel] by (cases as) auto
      ultimately have "start_link t (max 1 n) (start_mark t upd cb p s) = None"
        using m by (simp add: marked_def start_link_def Let_def hal_timer_get_def HAL_TIMER_LOAD_DELTA_def)
      then show False using e t hwtimer_start_int_eq [OF t(2) True] by simp
    qed
    then show ?thesis using start_spec [OF rel t(2) True n, of upd cb p] e t by auto
  qed (use e rel t in \<open>auto simp: hwtimer_start_int_def Let_def invalid_id_def split: if_splits\<close>)
qed

lemma stop_inv:
  assumes rel: "hw_rel s fs as rs" and e: "hwtimer_stop tid s = Some (r, s')"
  shows "\<exists>as' rs'. hw_rel s' fs as' rs' \<and> length rs' \<le> length rs"
proof (cases "invalid_id tid")
  case True
  then show ?thesis using e rel by (auto simp: hwtimer_stop_def)
next
  case False
  then obtain t where t: "tid = Some t" "t < HWTIMER_NUM"
    by (auto simp: invalid_id_def split: option.splits)
  note inv = hw_relD(11-13) [OF rel t(2)]
  show ?thesis
  proof (cases "ht_state (node s t)")
    case HWTIMER_STATE_ACTIVE
    then have tin: "t \<in> set as" using inv by simp
    show ?thesis
    proof (cases "t = hd as")
      case True
      then obtain bs where as: "as = t # bs" using tin by (cases as) auto
      have act: "hl_active s = Some t" using hw_relD(3) [OF rel] as by simp
      have "stop_active_head t s \<noteq> None"
        using e t hwtimer_stop_active [OF HWTIMER_STATE_ACTIVE t(2) act] by auto
      moreover have "ht_next (node s t) = hd_opt bs" using hw_relD(3) [OF rel] as chain_hd by auto
      ultimately have "tm_value (hl_hw s) \<le> max 1 (ht_time (node s t))"
        "tm_value (hl_hw s) = 0 \<Longrightarrow> bs \<noteq> [] \<Longrightarrow>
          ht_time (node s t) \<le> add32 (hal_timer_get_elapsed_time (hl_hw s)) HAL_TIMER_LOAD_DELTA"
        by (auto simp: stop_active_head_def Let_def hal_timer_get_def HAL_TIMER_LOAD_DELTA_def
            split: if_splits list.splits)
      from stop_head [OF rel [unfolded as] this] show ?thesis using e t by auto
    next
      case False
      then obtain a cs ds where "as = a # cs @ t # ds" using tin by (cases as) (auto dest: split_list)
      then show ?thesis using stop_inner [of s fs a cs t ds rs] rel e t by auto
    qed
  next
    case HWTIMER_STATE_FIRED
    then have "hw_rel s' fs as (remove1 t rs)"
      using stop_fired_spec [OF rel, of t] inv e t by auto
    then show ?thesis by (metis length_remove1_le)
  qed (use e rel t in \<open>auto simp: hwtimer_stop_def Let_def invalid_id_def\<close>)
qed

lemma update_inv:
  assumes rel: "hw_rel s fs as rs"
  shows "hw_rel (snd (hwtimer_update tid cb p s)) fs as rs"
proof (cases "fst (hwtimer_update tid cb p s) = E_HWTIMER_OK")
  case True
  then obtain t where t: "tid = Some t" "t < HWTIMER_NUM"
    "ht_state (node s t) = HWTIMER_STATE_ALLOC \<or> ht_state (node s t) = HWTIMER_STATE_CALLBACK"
    by (auto simp: hwtimer_update_def invalid_id_def Let_def split: if_splits option.splits)
  then show ?thesis
    using hw_relD(11-14) [OF rel t(2)] hw_rel_idle [OF rel t(2), of "\<lambda>n. n\<lparr>ht_callback := cb, ht_param := p\<rparr>"]
    by (auto simp: hwtimer_update_def invalid_id_def Let_def)
next
  case False
  then have "snd (hwtimer_update tid cb p s) = s"
    by (auto simp: hwtimer_update_def Let_def)
  then show ?thesis using rel by simp
qed

lemma hw_rel_other:
  "hw_rel s fs as rs \<Longrightarrow> hw_rel (s\<lparr>hl_hw := h\<rparr>) fs as rs"
  "hw_rel s fs as rs \<Longrightarrow> hw_rel (s\<lparr>err_irq_active_null := n\<rparr>) fs as rs"
  "hw_rel s fs as rs \<Longrightarrow> hw_rel (s\<lparr>err_irq_early := n\<rparr>) fs as rs"
  by (simp_all add: hw_rel_def)

text \<open>Only \<open>hwtimer_stop\<close> takes a timer off the list \<open>fired\<close>.\<close>

fun is_stop :: "timer_call \<Rightarrow> bool" where
  "is_stop (Call_stop t) = True"
| "is_stop _ = False"

lemma run_call_inv:
  assumes rel: "hw_rel s fs as rs" and e: "run_call c s = Some s'"
  shows "\<exists>fs' as' rs'. hw_rel s' fs' as' rs' \<and> length rs' \<le> length rs \<and> (is_stop c \<or> rs' = rs)"
proof (cases c)
  case (Call_alloc cb p)
  then show ?thesis using e rel hwtimer_alloc_spec(1) [OF rel, of cb p] hwtimer_alloc_spec(2) [OF rel, where cb = cb and p = p]
    by (cases fs) auto
next
  case (Call_free tid)
  show ?thesis
  proof (cases "fst (hwtimer_free tid s) = E_HWTIMER_OK")
    case True
    then obtain t where t: "tid = Some t" "t < HWTIMER_NUM" "ht_state (node s t) = HWTIMER_STATE_ALLOC"
      by (auto simp: hwtimer_free_def invalid_id_def Let_def split: if_splits option.splits)
    then have "hw_rel s' (t # fs) as rs" using hwtimer_free_spec [OF rel t(2,3)] e Call_free by auto
    then show ?thesis by (metis order_refl)
  next
    case False
    then have "snd (hwtimer_free tid s) = s" by (auto simp: hwtimer_free_def Let_def)
    then show ?thesis using e rel Call_free by auto
  qed
next
  case (Call_start t n)
  have "unat n < 2 ^ LENGTH(32)" by (rule unsigned_less)
  then have "\<exists>as'. hw_rel s' fs as' rs"
    using Call_start e start_int_inv [OF rel, of "unat n" t False None 0] by (auto simp: hwtimer_start_def)
  then show ?thesis by blast
next
  case (Call_update_start t cb p n)
  have "unat n < 2 ^ LENGTH(32)" by (rule unsigned_less)
  then have "\<exists>as'. hw_rel s' fs as' rs"
    using Call_update_start e start_int_inv [OF rel, of "unat n" t True cb p]
    by (auto simp: hwtimer_update_then_start_def)
  then show ?thesis by blast
next
  case (Call_stop t)
  then show ?thesis using e stop_inv [OF rel, of t] by auto
next
  case (Hw_moves h)
  then show ?thesis using e hw_rel_other(1) [OF rel] by auto
next
  case (Call_update t cb p)
  then have "hw_rel s' fs as rs" using e update_inv [OF rel, of t cb p] by simp
  then show ?thesis by blast
qed

lemma run_script_inv:
  "hw_rel s fs as rs \<Longrightarrow> run_script cs s = Some s' \<Longrightarrow>
   \<exists>fs' as' rs'. hw_rel s' fs' as' rs' \<and> length rs' \<le> length rs \<and> ((\<exists>c \<in> set cs. is_stop c) \<or> rs' = rs)"
proof (induction cs arbitrary: s fs as rs)
  case (Cons c cs)
  then obtain s1 where 1: "run_call c s = Some s1" "run_script cs s1 = Some s'"
    by (auto simp: bind_eq_Some_conv)
  with run_call_inv [OF Cons.prems(1)] obtain fs1 as1 rs1 where
    2: "hw_rel s1 fs1 as1 rs1" "length rs1 \<le> length rs" "is_stop c \<or> rs1 = rs" by blast
  from Cons.IH [OF 2(1) 1(2)] obtain fs' as' rs' where
    "hw_rel s' fs' as' rs'" "length rs' \<le> length rs1" "(\<exists>c \<in> set cs. is_stop c) \<or> rs' = rs1" by blast
  with 2(2,3) show ?case by (intro exI [of _ fs'] exI [of _ as'] exI [of _ rs']) auto
qed auto

section \<open>The callback contract\<close>

lemma fire_begin_rel:
  assumes rel: "hw_rel s fs as (l # rs)"
  shows "l < HWTIMER_NUM" "hw_rel (fire_begin l s) fs as rs"
proof -
  note r = hw_relD [OF rel] and b = hw_rel_in [OF rel]
  have l: "l < HWTIMER_NUM" "l \<notin> set rs" "l \<notin> set fs" "l \<notin> set as" using b(3) r(7,9,10) by auto
  have ch: "chain (hl_timer s) (ht_next (node s l)) rs" using r(4) by simp
  show "hw_rel (fire_begin l s) fs as rs"
    using r(1-10) l ch hw_relD(11-14) [OF rel]
    by (auto simp: fire_begin_def Let_def hw_rel_def chain_update nth_update)
  show "l < HWTIMER_NUM" by (rule l)
qed

text \<open>
  What the handler needs of a callback: it leaves the timers well-formed and does not make
  more timers fired. Everything a callback can do through the functions of the module
  satisfies it, which the interpretation shows.
\<close>

locale timer_callbacks =
  fixes cb :: "nat \<Rightarrow> nat \<Rightarrow> hwtimer_list \<Rightarrow> hwtimer_list option"
  assumes cb_inv: "hw_rel s fs as rs \<Longrightarrow> cb c p s = Some s' \<Longrightarrow>
    \<exists>fs' as' rs'. hw_rel s' fs' as' rs' \<and> length rs' \<le> length rs"
begin

lemma fire_step:
  assumes rel: "hw_rel s fs as (l # rs)"
    and c: "fire_call cb l (fire_begin l s) = Some s'"
  shows "\<exists>fs' as' rs'. hw_rel (fire_end l s') fs' as' rs' \<and> length rs' \<le> length rs"
proof -
  note l = fire_begin_rel [OF rel]
  from l(2) obtain fs' as' rs' where rel': "hw_rel s' fs' as' rs'" "length rs' \<le> length rs"
    using c cb_inv [of "fire_begin l s" fs as rs] that
    by (cases "ht_callback (node (fire_begin l s) l)") (fastforce simp: fire_call_def)+
  have "hw_rel (fire_end l s') fs' as' rs'"
    using rel'(1) hw_rel_idle [OF rel'(1) l(1)] hw_relD(11-14) [OF rel'(1) l(1)]
    by (auto simp: fire_end_def)
  then show ?thesis using rel'(2) by blast
qed

lemma fire_loop_inv:
  "hw_rel s fs as rs \<Longrightarrow> fire_loop cb s = Some s' \<Longrightarrow> \<exists>fs' as'. hw_rel s' fs' as' []"
proof (induction "length rs" arbitrary: s fs as rs rule: less_induct)
  case less
  show ?case
  proof (cases rs)
    case Nil
    then have "fire_loop cb s = Some s" using hw_relD(4) [OF less.prems(1)] by (subst fire_loop.simps) simp
    then show ?thesis using less.prems Nil by auto
  next
    case (Cons l rs1)
    then have "hl_fired s = Some l" using hw_relD(4) [OF less.prems(1)] by simp
    then obtain s1 where 1: "fire_call cb l (fire_begin l s) = Some s1"
      "fire_loop cb (fire_end l s1) = Some s'"
      using less.prems(2) by (subst (asm) fire_loop.simps) (auto simp: bind_eq_Some_conv)
    from fire_step [OF less.prems(1) [unfolded Cons] 1(1)] obtain fs' as' rs' where
      "hw_rel (fire_end l s1) fs' as' rs'" "length rs' < length rs" using Cons by auto
    then show ?thesis using less.hyps 1(2) by blast
  qed
qed

text \<open>The loop ends when every callback returns.\<close>

lemma fire_loop_returns:
  assumes "\<And>c p s. cb c p s \<noteq> None"
  shows "hw_rel s fs as rs \<Longrightarrow> \<exists>s'. fire_loop cb s = Some s'"
proof (induction "length rs" arbitrary: s fs as rs rule: less_induct)
  case less
  show ?case
  proof (cases rs)
    case Nil
    then show ?thesis using hw_relD(4) [OF less.prems(1)] by (subst fire_loop.simps) simp
  next
    case (Cons l rs1)
    then have f: "hl_fired s = Some l" using hw_relD(4) [OF less.prems(1)] by simp
    obtain s1 where 1: "fire_call cb l (fire_begin l s) = Some s1"
      using assms by (cases "ht_callback (node (fire_begin l s) l)") (force simp: fire_call_def)+
    from fire_step [OF less.prems(1) [unfolded Cons] 1(1)] obtain fs' as' rs' where
      "hw_rel (fire_end l s1) fs' as' rs'" "length rs' < length rs" using Cons by auto
    then obtain s' where "fire_loop cb (fire_end l s1) = Some s'" using less.hyps by blast
    then show ?thesis using f 1 by (subst fire_loop.simps) simp
  qed
qed

lemma handler_inv:
  assumes rel: "hw_rel s fs as []" and e: "hwtimer_handler cb s = Some s'"
  shows "\<exists>fs' as'. hw_rel s' fs' as' []"
proof (cases as)
  case Nil
  then have "hl_active s = None" using hw_relD(3) [OF rel] by simp
  then show ?thesis using e hw_rel_other(2) [OF rel]
    by (auto simp: hwtimer_handler_def split: if_splits)
next
  case (Cons a bs)
  then have a: "hl_active s = Some a" using hw_relD(3) [OF rel] by simp
  show ?thesis
  proof (cases "ht_time (node s a) > add32 (hal_timer_get_elapsed_time (hl_hw s)) HAL_TIMER_LOAD_DELTA")
    case True
    then show ?thesis using e a hw_rel_other(3) [OF rel]
      by (auto simp: hwtimer_handler_def Let_def split: if_splits)
  next
    case False
    have "hal_timer_get_elapsed_time (hl_hw s) < 4294967296"
      by (simp add: hal_timer_get_elapsed_time_def)
    from handler_expire_spec [OF rel [unfolded Cons] this] False a e fire_loop_inv
    show ?thesis by (fastforce simp: hwtimer_handler_def Let_def bind_eq_Some_conv)
  qed
qed

end

text \<open>The fired timers called one after the other.\<close>

primrec call_timers ::
  "(nat \<Rightarrow> nat \<Rightarrow> hwtimer_list \<Rightarrow> hwtimer_list option) \<Rightarrow> nat list \<Rightarrow> hwtimer_list \<Rightarrow> hwtimer_list option" where
  "call_timers cb [] s = Some s"
| "call_timers cb (l # ls) s = fire_call cb l (fire_begin l s) \<bind> (\<lambda>s. call_timers cb ls (fire_end l s))"

text \<open>Callbacks that stop no timer: then the loop calls exactly the timers that were fired when it started.\<close>

locale keeping_callbacks = timer_callbacks +
  assumes cb_keeps: "hw_rel s fs as rs \<Longrightarrow> cb c p s = Some s' \<Longrightarrow> \<exists>fs' as'. hw_rel s' fs' as' rs"
begin

lemma fire_step_keeps:
  assumes rel: "hw_rel s fs as (l # rs)"
    and c: "fire_call cb l (fire_begin l s) = Some s'"
  shows "\<exists>fs' as'. hw_rel (fire_end l s') fs' as' rs"
proof -
  note l = fire_begin_rel [OF rel]
  obtain fs' as' where rel': "hw_rel s' fs' as' rs"
    using c cb_keeps [OF l(2)] l(2)
    by (cases "ht_callback (node (fire_begin l s) l)") (fastforce simp: fire_call_def)+
  have "hw_rel (fire_end l s') fs' as' rs"
    using rel' hw_rel_idle [OF rel' l(1)] hw_relD(11-14) [OF rel' l(1)]
    by (auto simp: fire_end_def)
  then show ?thesis by blast
qed

lemma fire_loop_calls:
  "hw_rel s fs as rs \<Longrightarrow> fire_loop cb s = call_timers cb rs s"
proof (induction rs arbitrary: s fs as)
  case Nil
  then show ?case using hw_relD(4) [OF Nil] by (subst fire_loop.simps) simp
next
  case (Cons l rs)
  have f: "hl_fired s = Some l" using hw_relD(4) [OF Cons.prems] by simp
  have "fire_loop cb (fire_end l s1) = call_timers cb rs (fire_end l s1)"
    if "fire_call cb l (fire_begin l s) = Some s1" for s1
    using fire_step_keeps [OF Cons.prems that] Cons.IH by blast
  then show ?case
    by (subst fire_loop.simps) (cases "fire_call cb l (fire_begin l s)"; simp add: f)
qed

end

text \<open>Callbacks written with the module's own functions, one call list per callback and parameter.\<close>

interpretation api: timer_callbacks "\<lambda>c p. run_script (script c p)"
  for script :: "nat \<Rightarrow> nat \<Rightarrow> timer_call list"
  by unfold_locales (use run_script_inv in blast)

interpretation starting: keeping_callbacks "\<lambda>c p. run_script (filter (\<lambda>x. \<not> is_stop x) (script c p))"
  for script :: "nat \<Rightarrow> nat \<Rightarrow> timer_call list"
proof unfold_locales
  fix s fs as rs c p s'
  assume "hw_rel s fs as rs" "run_script (filter (\<lambda>x. \<not> is_stop x) (script c p)) s = Some s'"
  from run_script_inv [OF this] show "\<exists>fs' as'. hw_rel s' fs' as' rs" by auto
qed

text \<open>A whole run: calls from thread level and interrupts of the timer.\<close>

datatype timer_event = Thread timer_call | Irq

fun run_event ::
  "(nat \<Rightarrow> nat \<Rightarrow> timer_call list) \<Rightarrow> timer_event \<Rightarrow> hwtimer_list \<Rightarrow> hwtimer_list option" where
  "run_event script (Thread c) s = run_call c s"
| "run_event script Irq s = hwtimer_handler (\<lambda>c p. run_script (script c p)) s"

fun run_events ::
  "(nat \<Rightarrow> nat \<Rightarrow> timer_call list) \<Rightarrow> timer_event list \<Rightarrow> hwtimer_list \<Rightarrow> hwtimer_list option" where
  "run_events script [] s = Some s"
| "run_events script (e # es) s = run_event script e s \<bind> run_events script es"

lemma run_events_inv:
  "hw_rel s fs as [] \<Longrightarrow> run_events script es s = Some s' \<Longrightarrow> \<exists>fs' as'. hw_rel s' fs' as' []"
proof (induction es arbitrary: s fs as)
  case (Cons e es)
  then obtain s1 where 1: "run_event script e s = Some s1" "run_events script es s1 = Some s'"
    by (auto simp: bind_eq_Some_conv)
  have "\<exists>fs' as'. hw_rel s1 fs' as' []"
  proof (cases e)
    case (Thread c)
    then show ?thesis using run_call_inv [OF Cons.prems(1)] 1(1) by fastforce
  next
    case Irq
    then show ?thesis using api.handler_inv [OF Cons.prems(1), of script] 1(1) by simp
  qed
  then show ?case using Cons.IH 1(2) by blast
qed auto

section \<open>Properties\<close>

text \<open>
  C10. Starting an allocated or called-back timer inserts it into the deadline order: counted
  from now, every other active timer keeps its deadline, the new timer's deadline is
  \<open>max 1 ticks\<close>, and when it becomes the head the hardware is reloaded for it.
\<close>

theorem hwtimer_start_schedules:
  assumes "hw_inv s" "t < HWTIMER_NUM"
    and "ht_state (node s t) = HWTIMER_STATE_ALLOC \<or> ht_state (node s t) = HWTIMER_STATE_CALLBACK"
    and "ticks < 4294967296"
    and "active_ids s \<noteq> [] \<longrightarrow> tm_value (hl_hw s) \<le> max 1 (ht_time (node s (hd (active_ids s))))"
  shows "\<exists>s' cur'. hwtimer_start (Some t) ticks s = Some (E_HWTIMER_OK, s') \<and> hw_inv s' \<and>
    deadlines cur' (hl_timer s') (active_ids s') =
      start_due (t, max 1 ticks) (deadlines (tm_value (hl_hw s)) (hl_timer s) (active_ids s)) \<and>
    (if hd (active_ids s') = t
     then cur' = max 1 ticks \<and> tm_load (hl_hw s') = max 1 (max 1 ticks - 1) \<and> tm_en (hl_hw s')
     else cur' = tm_value (hl_hw s) \<and> hl_hw s' = hl_hw s)"
proof -
  have rel: "hw_rel s (free_ids s) (active_ids s) (fired_ids s)" using assms(1) by (simp add: hw_inv_def)
  obtain s' as' cur' where s': "hwtimer_start (Some t) ticks s = Some (E_HWTIMER_OK, s')"
    "hw_rel s' (free_ids s) as' (fired_ids s)"
    "deadlines cur' (hl_timer s') as' =
      start_due (t, max 1 ticks) (deadlines (tm_value (hl_hw s)) (hl_timer s) (active_ids s))"
    "if hd as' = t then cur' = max 1 ticks \<and> (\<exists>h. hl_hw s' = hal_timer_start (max 1 ticks) h)
     else cur' = tm_value (hl_hw s) \<and> hl_hw s' = hl_hw s"
    using start_spec [OF rel assms(2-4), of False None 0] assms(5) by (auto simp: hwtimer_start_def)
  have "tm_load (hal_timer_start (max 1 ticks) h) = max 1 (max 1 ticks - 1) \<and> tm_en (hal_timer_start (max 1 ticks) h)" for h
    using assms(4) by (auto simp: hal_timer_start_def hal_timer_reload_def hal_timer_continue_def
        HAL_TIMER_LOAD_DELTA_def sub32_id max_def)
  then show ?thesis using s' hw_rel_ids [OF s'(2)] hw_relI [OF s'(2)]
    by (intro exI [of _ s'] exI [of _ cur']) (auto split: if_splits)
qed


text \<open>A state for the witnesses: timer 0 allocated, 1 and 2 active, the others free.\<close>

definition demo_node :: "hwtimer_state \<Rightarrow> nat option \<Rightarrow> nat \<Rightarrow> HWTIMER_T" where
  "demo_node st nx t = \<lparr>ht_state = st, ht_next = nx, ht_time = t, ht_callback = None, ht_param = 0\<rparr>"

definition demo_timers :: hwtimer_list where
  "demo_timers = \<lparr>hl_timer =
     [demo_node HWTIMER_STATE_ALLOC None 0, demo_node HWTIMER_STATE_ACTIVE (Some 2) 5,
      demo_node HWTIMER_STATE_ACTIVE None 3] @
     map (\<lambda>i. demo_node HWTIMER_STATE_FREE (if i = 9 then None else Some (Suc i)) 0) [3..<10],
     hl_free = Some 3, hl_active = Some 1, hl_fired = None,
     hl_hw = \<lparr>tm_en = True, tm_inten = True, tm_oneshot = True, tm_periodic = False, tm_load = 4,
       tm_value = 4, tm_int = False, tm_sys = 101, tm_start_time = 100\<rparr>,
     err_irq_active_null = 0, err_irq_early = 0\<rparr>"


lemma demo_nodes:
  "hl_timer demo_timers = [demo_node HWTIMER_STATE_ALLOC None 0, demo_node HWTIMER_STATE_ACTIVE (Some 2) 5,
      demo_node HWTIMER_STATE_ACTIVE None 3, demo_node HWTIMER_STATE_FREE (Some 4) 0,
      demo_node HWTIMER_STATE_FREE (Some 5) 0, demo_node HWTIMER_STATE_FREE (Some 6) 0,
      demo_node HWTIMER_STATE_FREE (Some 7) 0, demo_node HWTIMER_STATE_FREE (Some 8) 0,
      demo_node HWTIMER_STATE_FREE (Some 9) 0, demo_node HWTIMER_STATE_FREE None 0]"
  by (simp add: demo_timers_def upt_rec)
lemma demo_sel: "hl_free demo_timers = Some 3" "hl_active demo_timers = Some 1" "hl_fired demo_timers = None"
  by (simp_all add: demo_timers_def)
lemma init_sel: "hl_free (hwtimer_init demo_timers) = Some 0" "hl_active (hwtimer_init demo_timers) = None"
  "hl_fired (hwtimer_init demo_timers) = None" "hl_timer (hwtimer_init demo_timers) = 
   [demo_node HWTIMER_STATE_FREE (Some 1) 0, demo_node HWTIMER_STATE_FREE (Some 2) 5,
      demo_node HWTIMER_STATE_FREE (Some 3) 3, demo_node HWTIMER_STATE_FREE (Some 4) 0,
      demo_node HWTIMER_STATE_FREE (Some 5) 0, demo_node HWTIMER_STATE_FREE (Some 6) 0,
      demo_node HWTIMER_STATE_FREE (Some 7) 0, demo_node HWTIMER_STATE_FREE (Some 8) 0,
      demo_node HWTIMER_STATE_FREE (Some 9) 0, demo_node HWTIMER_STATE_FREE None 0]"
  by (simp_all add: hwtimer_init_def Let_def HWTIMER_NUM_def demo_nodes eval_nat_numeral demo_node_def)

lemma demo_inv: "hw_inv demo_timers" "active_ids demo_timers = [1, 2]" "fired_ids demo_timers = []"
  "free_ids demo_timers = [3, 4, 5, 6, 7, 8, 9]"
proof -
  show ids: "active_ids demo_timers = [1, 2]" "fired_ids demo_timers = []"
    "free_ids demo_timers = [3, 4, 5, 6, 7, 8, 9]" by code_simp+
  show "hw_inv demo_timers"
    unfolding hw_inv_def ids hw_rel_def all_less_iff
    by (simp add: demo_nodes demo_sel HWTIMER_NUM_def demo_node_def upt_rec nth_Cons')
qed

theorem hwtimer_start_schedules_witness:
  "\<exists>s' cur'. hwtimer_start (Some 0) 6 demo_timers = Some (E_HWTIMER_OK, s') \<and>
     deadlines cur' (hl_timer s') (active_ids s') = [(1, 4), (0, 6), (2, 7)]"
proof -
  have "ht_state (node demo_timers 0) = HWTIMER_STATE_ALLOC" "tm_value (hl_hw demo_timers) = 4"
    "ht_time (node demo_timers 1) = 5" "ht_time (node demo_timers 2) = 3"
    by code_simp+
  then show ?thesis
    using hwtimer_start_schedules [of demo_timers 0 6] by (auto simp: demo_inv HWTIMER_NUM_def)
qed

text \<open>
  C12. Stopping an active timer removes it and nothing else: the other deadlines stay as they
  are, or move closer by the time by which the stopped head is already overdue, and the
  hardware is reloaded only when the head is stopped.
\<close>

theorem hwtimer_stop_reschedules:
  assumes "hw_inv s" "t \<in> set (active_ids s)"
    and "tm_value (hl_hw s) \<le> max 1 (ht_time (node s (hd (active_ids s))))"
    and "tm_value (hl_hw s) = 0 \<and> active_ids s \<noteq> [t] \<and> t = hd (active_ids s) \<longrightarrow>
      ht_time (node s t) \<le> add32 (hal_timer_get_elapsed_time (hl_hw s)) 1"
    and "in_range (deadlines (tm_value (hl_hw s)) (hl_timer s) (active_ids s))"
  shows "\<exists>s' cur'. hwtimer_stop (Some t) s = Some (E_HWTIMER_OK, s') \<and> hw_inv s' \<and>
    active_ids s' = remove1 t (active_ids s) \<and>
    deadlines cur' (hl_timer s') (active_ids s') = filter (\<lambda>p. fst p \<noteq> t)
      (later (if t = hd (active_ids s) then overrun s t else 0)
        (deadlines (tm_value (hl_hw s)) (hl_timer s) (active_ids s))) \<and>
    hl_hw s' = (if t \<noteq> hd (active_ids s) then hl_hw s
      else if active_ids s = [t] then hal_timer_stop (hl_hw s)
      else hal_timer_start cur' (hal_timer_stop (hl_hw s)))"
proof -
  have rel: "hw_rel s (free_ids s) (active_ids s) (fired_ids s)" using assms(1) by (simp add: hw_inv_def)
  obtain s' cur' where s': "hwtimer_stop (Some t) s = Some (E_HWTIMER_OK, s')"
    "hw_rel s' (free_ids s) (remove1 t (active_ids s)) (fired_ids s)"
    "deadlines cur' (hl_timer s') (remove1 t (active_ids s)) = filter (\<lambda>p. fst p \<noteq> t)
        (later (if t = hd (active_ids s) then overrun s t else 0)
          (deadlines (tm_value (hl_hw s)) (hl_timer s) (active_ids s)))"
    "hl_hw s' = (if t \<noteq> hd (active_ids s) then hl_hw s
      else if active_ids s = [t] then hal_timer_stop (hl_hw s)
      else hal_timer_start cur' (hal_timer_stop (hl_hw s)))"
    using stop_spec [OF rel assms(2,3)] assms(4,5) unfolding HAL_TIMER_LOAD_DELTA_def by blast
  then show ?thesis using hw_rel_ids [OF s'(2)] hw_relI [OF s'(2)] by metis
qed

theorem hwtimer_stop_reschedules_witness:
  "\<exists>s' cur'. hwtimer_stop (Some 1) demo_timers = Some (E_HWTIMER_OK, s') \<and>
     active_ids s' = [2] \<and> deadlines cur' (hl_timer s') (active_ids s') = [(2, 7)]"
proof -
  have e: "tm_value (hl_hw demo_timers) = 4" "ht_time (node demo_timers 1) = 5"
    "ht_time (node demo_timers 2) = 3" "overrun demo_timers 1 = 0"
    by code_simp+
  show ?thesis
    using hwtimer_stop_reschedules [of demo_timers 1] e by (auto simp: demo_inv in_range_def)
qed

text \<open>
  C15. The timer interrupt \<open>hwtimer_handler\<close> fires what is due and nothing else, for callbacks made of any calls of the
  module except \<open>hwtimer_stop\<close>. If the head is not due yet (more than one tick early), nothing is fired, and a timer that
  is disabled meanwhile fails the assertion. Otherwise the head and all timers whose deadline has passed
  leave the active list and are called once each, in the order of their deadlines; the others stay active, every
  deadline is closer by the time that has passed, and before the first call the hardware is loaded for the next one or stopped.
  When the handler returns, the lists are well-formed and no timer is left fired.
\<close>

theorem hwtimer_expiry_fires_due:
  assumes "hw_inv s" "active_ids s = a # as" "fired_ids s = []" "\<forall>c p. \<forall>x \<in> set (script c p). \<not> is_stop x"
  defines "cb \<equiv> \<lambda>c p. run_script (script c p)"
  defines "elapsed \<equiv> hal_timer_get_elapsed_time (hl_hw s)"
  defines "E \<equiv> max elapsed (ht_time (node s a))"
  defines "D \<equiv> sched 0 (hl_timer s) (active_ids s)"
  shows "if ht_time (node s a) > add32 elapsed HAL_TIMER_LOAD_DELTA
    then hwtimer_handler cb s =
      (if hal_timer_is_enabled (hl_hw s) then Some (s\<lparr>err_irq_early := add32 (err_irq_early s) 1\<rparr>) else None)
    else \<exists>s1 cur'. hwtimer_handler cb s = call_timers cb (map fst (filter (\<lambda>p. snd p \<le> E) D)) s1 \<and> hw_inv s1 \<and>
      fired_ids s1 = map fst (filter (\<lambda>p. snd p \<le> E) D) \<and>
      deadlines cur' (hl_timer s1) (active_ids s1) = later E (filter (\<lambda>p. snd p > E) D) \<and>
      hl_hw s1 = (if active_ids s1 = [] then hal_timer_stop (hl_hw s) else hal_timer_start cur' (hl_hw s)) \<and>
      (\<forall>s'. hwtimer_handler cb s = Some s' \<longrightarrow> hw_inv s' \<and> fired_ids s' = [])"
proof -
  have rel: "hw_rel s (free_ids s) (a # as) []" using assms(1-3) by (simp add: hw_inv_def)
  have act: "hl_active s = Some a" using hw_relD(3) [OF rel] by simp
  have e: "elapsed < 4294967296" by (simp add: elapsed_def hal_timer_get_elapsed_time_def)
  obtain s1 as' rs cur' where s1: "handler_expire a elapsed s = Some s1" "hw_rel s1 (free_ids s) as' rs"
    "rs = map fst (filter (\<lambda>p. snd p \<le> E) D)"
    "deadlines cur' (hl_timer s1) as' = later E (filter (\<lambda>p. snd p > E) D)"
    "hl_hw s1 = (if as' = [] then hal_timer_stop (hl_hw s) else hal_timer_start cur' (hl_hw s))"
    using handler_expire_spec [OF rel e] assms(2) unfolding E_def D_def by auto
  have "(\<lambda>c p. run_script (filter (\<lambda>x. \<not> is_stop x) (script c p))) = cb" using assms(4) by (simp add: cb_def fun_eq_iff)
  then have "fire_loop cb s1 = call_timers cb rs s1" using starting.fire_loop_calls [OF s1(2), of script] by simp
  moreover have "hw_inv s' \<and> fired_ids s' = []" if "hwtimer_handler cb s = Some s'" for s'
    using api.handler_inv [OF rel, of script s'] that hw_relI hw_rel_ids unfolding cb_def by blast
  moreover have "hwtimer_handler cb s = (if ht_time (node s a) > add32 elapsed HAL_TIMER_LOAD_DELTA
    then (if hal_timer_is_enabled (hl_hw s) then Some (s\<lparr>err_irq_early := add32 (err_irq_early s) 1\<rparr>) else None)
    else fire_loop cb s1)"
    using s1(1) act by (simp add: hwtimer_handler_def elapsed_def [symmetric] Let_def)
  ultimately show ?thesis using s1(3-5) hw_rel_ids [OF s1(2)] hw_relI [OF s1(2)]
    by (cases "ht_time (node s a) > add32 elapsed HAL_TIMER_LOAD_DELTA")
      (simp, simp only: if_False, intro exI [of _ s1] exI [of _ cur'], simp)
qed

text \<open>Timer 1 with a callback that starts timer 0 for 3 ticks, \<open>n\<close> ticks after the hardware was loaded.\<close>

definition demo_ring :: "nat \<Rightarrow> hwtimer_list" where
  "demo_ring n = demo_timers\<lparr>hl_timer := (hl_timer demo_timers)[1 := (demo_node HWTIMER_STATE_ACTIVE (Some 2) 5)\<lparr>ht_callback := Some 7\<rparr>],
     hl_hw := (hl_hw demo_timers)\<lparr>tm_sys := 100 + n\<rparr>\<rparr>"

lemma demo_ring_inv: "hw_inv (demo_ring n)" "active_ids (demo_ring n) = [1, 2]" "fired_ids (demo_ring n) = []"
proof -
  have sel: "hl_free (demo_ring n) = hl_free demo_timers" "hl_active (demo_ring n) = hl_active demo_timers"
    "hl_fired (demo_ring n) = hl_fired demo_timers" by (simp_all add: demo_ring_def)
  have ts: "hl_timer (demo_ring n) = (hl_timer demo_timers)[1 := (demo_node HWTIMER_STATE_ACTIVE (Some 2) 5)\<lparr>ht_callback := Some 7\<rparr>]"
    by (simp add: demo_ring_def)
  have nx: "ht_next (node (demo_ring n) i) = ht_next (node demo_timers i) \<and> ht_state (node (demo_ring n) i) = ht_state (node demo_timers i) \<and>
      ht_time (node (demo_ring n) i) = ht_time (node demo_timers i)" for i
  proof (cases "i = 1")
    case True
    have "node demo_timers 1 = demo_node HWTIMER_STATE_ACTIVE (Some 2) 5" "length (hl_timer demo_timers) = 10" by (simp_all add: demo_nodes)
    with True show ?thesis by (simp add: ts demo_node_def)
  qed (simp add: ts)
  have l: "length (hl_timer (demo_ring n)) = length (hl_timer demo_timers)" by (simp add: ts)
  have "hw_rel demo_timers [3, 4, 5, 6, 7, 8, 9] [1, 2] []" using demo_inv unfolding hw_inv_def by simp
  then have "hw_rel (demo_ring n) [3, 4, 5, 6, 7, 8, 9] [1, 2] []"
    unfolding hw_rel_def sel by (simp add: nx l)
  from hw_relI [OF this] hw_rel_ids [OF this]
  show "hw_inv (demo_ring n)" "active_ids (demo_ring n) = [1, 2]" "fired_ids (demo_ring n) = []" by auto
qed

theorem hwtimer_expiry_fires_due_witness:
  "(\<exists>s1 s' cur'. hwtimer_handler (\<lambda>c p. run_script [Call_start (Some p) 3]) (demo_ring 6) =
       call_timers (\<lambda>c p. run_script [Call_start (Some p) 3]) [1] s1 \<and>
     fired_ids s1 = [1] \<and> deadlines cur' (hl_timer s1) (active_ids s1) = [(2, 2)]) \<and>
   hwtimer_handler (\<lambda>c p. run_script [Call_start (Some p) 3]) (demo_ring 3) = Some ((demo_ring 3)\<lparr>err_irq_early := 1\<rparr>)"
proof -
  have t: "ht_time (node (demo_ring n) 1) = 5" "ht_time (node (demo_ring n) 2) = 3" for n
    by (simp_all add: demo_ring_def demo_nodes demo_node_def)
  have h: "hal_timer_get_elapsed_time (hl_hw (demo_ring 6)) = 6" "hal_timer_get_elapsed_time (hl_hw (demo_ring 3)) = 3"
    "hal_timer_is_enabled (hl_hw (demo_ring 3))" "err_irq_early (demo_ring 3) = 0"
    by (simp_all add: demo_ring_def demo_timers_def hal_timer_get_elapsed_time_def hal_timer_is_enabled_def sub32_def)
  have g: "add32 6 HAL_TIMER_LOAD_DELTA = 7" "add32 3 HAL_TIMER_LOAD_DELTA = 4" "add32 0 1 = 1"
    by (simp_all add: add32_def HAL_TIMER_LOAD_DELTA_def)
  note th = hwtimer_expiry_fires_due [OF demo_ring_inv, where script = "\<lambda>c p. [Call_start (Some p) 3]", unfolded t h demo_ring_inv g]
  show ?thesis using th [of 6] th [of 3]
    by (auto simp: t h g simp del: One_nat_def)
qed

text \<open>
  C19. From \<open>hwtimer_init\<close> on zeroed memory, along any sequence of calls, hardware changes and
  timer interrupts whose callbacks are any sequences of calls, every state that is reached
  keeps the three lists disjoint and acyclic and each timer's state consistent with its list,
  and no timer stays fired after an interrupt.
\<close>

theorem hwtimer_invariant:
  assumes "length (hl_timer s) = HWTIMER_NUM" "ht_state (node s 9) = HWTIMER_STATE_FREE"
    and "\<forall>n\<in>set (hl_timer s). ht_time n < 4294967296"
    and "run_events script es (hwtimer_init s) = Some s'"
  shows "hw_inv s' \<and> fired_ids s' = []"
proof -
  obtain fs as where "hw_rel s' fs as []"
    using run_events_inv [OF hwtimer_init_spec [OF assms(1-3)] assms(4)] by blast
  then show ?thesis using hw_relI hw_rel_ids by blast
qed

lemma demo_run: "\<exists>s'. run_events (\<lambda>c p. [Call_start (Some p) 3])
      [Thread (Call_alloc (Some 1) 0), Thread (Call_start (Some 0) 5),
       Thread (Hw_moves (hl_hw demo_timers\<lparr>tm_sys := 110\<rparr>)), Irq] (hwtimer_init demo_timers) = Some s' \<and> hl_active s' = Some 0"
  apply (simp add: hwtimer_alloc_def init_sel Let_def set_node_def demo_node_def hwtimer_start_def hwtimer_start_int_def
    invalid_id_def HWTIMER_NUM_def start_mark_def start_link_def HAL_TIMER_LOAD_DELTA_def)
  apply (simp add: hwtimer_handler_def hal_timer_get_elapsed_time_def demo_timers_def sub32_def add32_def
     HAL_TIMER_LOAD_DELTA_def handler_expire_def fire_scan.simps Let_def set_node_def)
  apply (subst fire_loop.simps)
  apply (simp add: fire_begin_def fire_call_def set_node_def fire_end_def Let_def hwtimer_start_def hwtimer_start_int_def
    invalid_id_def HWTIMER_NUM_def start_mark_def start_link_def HAL_TIMER_LOAD_DELTA_def)
  apply (subst fire_loop.simps)
  apply simp
  done

theorem hwtimer_invariant_witness:
  "\<exists>s'. run_events (\<lambda>c p. [Call_start (Some p) 3])
      [Thread (Call_alloc (Some 1) 0), Thread (Call_start (Some 0) 5),
       Thread (Hw_moves (hl_hw demo_timers\<lparr>tm_sys := 110\<rparr>)), Irq] (hwtimer_init demo_timers) = Some s' \<and>
     hw_inv s' \<and> hl_active s' = Some 0"
proof -
  obtain s' where s': "run_events (\<lambda>c p. [Call_start (Some p) 3])
      [Thread (Call_alloc (Some 1) 0), Thread (Call_start (Some 0) 5),
       Thread (Hw_moves (hl_hw demo_timers\<lparr>tm_sys := 110\<rparr>)), Irq] (hwtimer_init demo_timers) = Some s'" "hl_active s' = Some 0"
    using demo_run by blast
  have "length (hl_timer demo_timers) = HWTIMER_NUM" "ht_state (node demo_timers 9) = HWTIMER_STATE_FREE"
    "\<forall>n\<in>set (hl_timer demo_timers). ht_time n < 4294967296"
    by (simp_all add: demo_nodes demo_node_def HWTIMER_NUM_def)
  from hwtimer_invariant [OF this s'(1)] show ?thesis using s' by blast
qed

end
