(* ===== verification/SysFreq.thy ===== *)
theory SysFreq
  imports Prelude
begin

text \<open>
  \<open>platform/hal/hal_sysfreq.c\<close>: the arbiter of the system clock. Every user keeps a requested
  frequency in one byte of an array that is also read as 32-bit words (\<open>sysfreq_bundle\<close>);
  \<open>top_user\<close> is the user whose request rules, \<open>HAL_SYSFREQ_USER_QTY\<close> when nobody has asked for
  the current clock yet. Frequencies are the numbers of \<open>enum HAL_CMU_FREQ_T\<close>.

  The clock and the power supply are hardware: \<open>hw_freq\<close> is what \<open>hal_cmu_sys_set_freq\<close> set and
  \<open>hal_cmu_sys_get_freq\<close> reads back, \<open>hw_pmu\<close> the frequency the supply was last configured for
  by \<open>pmu_sys_freq_config\<close>, and \<open>hw_log\<close> the pairs (clock, supply) that were passed through.
\<close>

section \<open>State and operations\<close>

definition HAL_SYSFREQ_USER_QTY :: nat where "HAL_SYSFREQ_USER_QTY = 14"
definition HAL_CMU_FREQ_26M :: nat where "HAL_CMU_FREQ_26M = 1"
definition HAL_CMU_FREQ_QTY :: nat where "HAL_CMU_FREQ_QTY = 6"

record clock_hw =
  hw_freq :: nat
  hw_pmu :: nat
  hw_log :: "(nat \<times> nat) list"

record sysfreq =
  sysfreq_per_user :: "byte list"
  top_user :: nat
  min_sysfreq :: nat
  sf_hw :: clock_hw

definition hal_cmu_sys_set_freq :: "nat \<Rightarrow> clock_hw \<Rightarrow> clock_hw" where
  "hal_cmu_sys_set_freq f h = h\<lparr>hw_freq := f, hw_log := hw_log h @ [(f, hw_pmu h)]\<rparr>"

definition pmu_sys_freq_config :: "nat \<Rightarrow> clock_hw \<Rightarrow> clock_hw" where
  "pmu_sys_freq_config f h = h\<lparr>hw_pmu := f, hw_log := hw_log h @ [(hw_freq h, f)]\<rparr>"

definition sysfreq_start :: "clock_hw \<Rightarrow> sysfreq" where
  "sysfreq_start h = \<lparr>sysfreq_per_user = replicate 16 0, top_user = HAL_SYSFREQ_USER_QTY,
     min_sysfreq = HAL_CMU_FREQ_26M, sf_hw = h\<rparr>"

definition request :: "sysfreq \<Rightarrow> nat \<Rightarrow> nat" where
  "request s u = unat (sysfreq_per_user s ! u)"

definition hal_sysfreq_revise_freq :: "sysfreq \<Rightarrow> nat \<Rightarrow> nat" where
  "hal_sysfreq_revise_freq s freq = (if freq > min_sysfreq s then freq else min_sysfreq s)"

definition hal_sysfreq_get :: "sysfreq \<Rightarrow> nat" where
  "hal_sysfreq_get s = (if top_user s < HAL_SYSFREQ_USER_QTY then request s (top_user s)
     else hw_freq (sf_hw s))"

definition hal_sysfreq_set_min_freq :: "nat \<Rightarrow> sysfreq \<Rightarrow> sysfreq" where
  "hal_sysfreq_set_min_freq freq s =
     (if min_sysfreq s < freq then
        let s = s\<lparr>min_sysfreq := freq\<rparr> in
        if min_sysfreq s > hal_sysfreq_get s
        then s\<lparr>sf_hw := hal_cmu_sys_set_freq (min_sysfreq s) (sf_hw s)\<rparr> else s
      else s)"

text \<open>The loop that looks for the highest remaining request, the first one among equals.\<close>

definition top_scan :: "sysfreq \<Rightarrow> nat \<times> nat" where
  "top_scan s = fold (\<lambda>i (freq, user). if freq < request s i then (request s i, i) else (freq, user))
     [1..<HAL_SYSFREQ_USER_QTY] (request s 0, 0)"

definition hal_sysfreq_req :: "nat \<Rightarrow> nat \<Rightarrow> sysfreq \<Rightarrow> nat \<times> sysfreq" where
  "hal_sysfreq_req user freq s =
     (if user \<ge> HAL_SYSFREQ_USER_QTY then (1, s)
      else if freq \<ge> HAL_CMU_FREQ_QTY then (2, s)
      else let cur_sys_freq = hal_sysfreq_get s;
               s = s\<lparr>sysfreq_per_user := (sysfreq_per_user s)[user := of_nat freq]\<rparr> in
        (0, if freq = cur_sys_freq then s\<lparr>top_user := user\<rparr>
            else if freq > cur_sys_freq then
              let s = s\<lparr>top_user := user\<rparr>;
                  freq = hal_sysfreq_revise_freq s freq
              in s\<lparr>sf_hw := hal_cmu_sys_set_freq freq (pmu_sys_freq_config freq (sf_hw s))\<rparr>
            else if top_user s = user then
              let (freq, user) = top_scan s;
                  s = s\<lparr>top_user := user\<rparr>
              in if freq \<noteq> cur_sys_freq then
                   let freq = hal_sysfreq_revise_freq s freq
                   in s\<lparr>sf_hw := pmu_sys_freq_config freq (hal_cmu_sys_set_freq freq (sf_hw s))\<rparr>
                 else s
            else s))"

text \<open>\<open>hal_sysfreq_busy\<close> reads the same bytes as little-endian words.\<close>

definition sysfreq_bundle :: "sysfreq \<Rightarrow> nat \<Rightarrow> nat" where
  "sysfreq_bundle s i = (\<Sum>k<4. unat (sysfreq_per_user s ! (4 * i + k)) * 256 ^ k)"

definition hal_sysfreq_busy :: "sysfreq \<Rightarrow> bool" where
  "hal_sysfreq_busy s = list_ex (\<lambda>i. sysfreq_bundle s i \<noteq> 0) [0..<(HAL_SYSFREQ_USER_QTY + 3) div 4]"

section \<open>The invariant\<close>

definition requests :: "sysfreq \<Rightarrow> nat list" where
  "requests s = map (request s) [0..<HAL_SYSFREQ_USER_QTY]"

definition highest :: "sysfreq \<Rightarrow> nat" where
  "highest s = Max (set (requests s))"

definition sf_inv :: "sysfreq \<Rightarrow> bool" where
  "sf_inv s \<longleftrightarrow> length (sysfreq_per_user s) = 16 \<and>
     sysfreq_per_user s ! 14 = 0 \<and> sysfreq_per_user s ! 15 = 0 \<and>
     (if top_user s < HAL_SYSFREQ_USER_QTY
      then request s (top_user s) = highest s \<and> hw_freq (sf_hw s) = max (min_sysfreq s) (highest s)
      else top_user s = HAL_SYSFREQ_USER_QTY \<and> min_sysfreq s \<le> hw_freq (sf_hw s) \<and>
        (\<forall>u<HAL_SYSFREQ_USER_QTY. request s u < hw_freq (sf_hw s)))"

lemma highest_eqI:
  "u < HAL_SYSFREQ_USER_QTY \<Longrightarrow> (\<And>v. v < HAL_SYSFREQ_USER_QTY \<Longrightarrow> request s v \<le> request s u) \<Longrightarrow>
   highest s = request s u"
  unfolding highest_def requests_def by (rule Max_eqI) auto

lemma highest_ge: "v < HAL_SYSFREQ_USER_QTY \<Longrightarrow> request s v \<le> highest s"
  unfolding highest_def requests_def by (rule Max_ge) auto

lemma top_scan_fold:
  fixes f :: "nat \<Rightarrow> nat"
  assumes "u < n" "\<And>i. i < n \<Longrightarrow> f i \<le> f u" "n \<le> m"
  shows "\<exists>v<m. fold (\<lambda>i (freq, user). if freq < f i then (f i, i) else (freq, user)) [n..<m] (f u, u) =
    (f v, v) \<and> (\<forall>i<m. f i \<le> f v)"
  using assms
proof (induction "m - n" arbitrary: n u)
  case 0
  then show ?case by auto
next
  case (Suc k)
  define v where "v = (if f u < f n then n else u)"
  have "v < Suc n" "\<And>i. i < Suc n \<Longrightarrow> f i \<le> f v" "Suc n \<le> m"
    using Suc.prems Suc.hyps(2) by (auto simp: v_def less_Suc_eq) (meson less_imp_le le_trans)+
  from Suc.hyps(1) [OF _ this] Suc.hyps(2) show ?case
    by (subst upt_conv_Cons) (auto simp: v_def split: if_splits)
qed

lemma top_scan_spec:
  obtains u where "u < HAL_SYSFREQ_USER_QTY" "top_scan s = (request s u, u)" "highest s = request s u"
proof -
  obtain u where u: "u < HAL_SYSFREQ_USER_QTY" "top_scan s = (request s u, u)"
    "\<forall>i<HAL_SYSFREQ_USER_QTY. request s i \<le> request s u"
    using top_scan_fold [of 0 1 "request s" HAL_SYSFREQ_USER_QTY]
    unfolding top_scan_def by (auto simp: HAL_SYSFREQ_USER_QTY_def)
  moreover from u have "highest s = request s u" by (intro highest_eqI) auto
  ultimately show thesis using that by blast
qed

lemma request_update:
  "length (sysfreq_per_user s) = 16 \<Longrightarrow> user < HAL_SYSFREQ_USER_QTY \<Longrightarrow> freq < HAL_CMU_FREQ_QTY \<Longrightarrow>
   request (s\<lparr>sysfreq_per_user := (sysfreq_per_user s)[user := of_nat freq]\<rparr>) v =
     (if v = user then freq else request s v)"
  by (simp add: request_def nth_update HAL_SYSFREQ_USER_QTY_def HAL_CMU_FREQ_QTY_def unat_of_nat)

lemma request_other [simp]:
  "request (s\<lparr>top_user := t\<rparr>) v = request s v" "request (s\<lparr>sf_hw := h\<rparr>) v = request s v"
  "request (s\<lparr>min_sysfreq := m\<rparr>) v = request s v"
  by (simp_all add: request_def)

lemma highest_other [simp]:
  "highest (s\<lparr>top_user := t\<rparr>) = highest s" "highest (s\<lparr>sf_hw := h\<rparr>) = highest s"
  "highest (s\<lparr>min_sysfreq := m\<rparr>) = highest s"
  by (simp_all add: highest_def requests_def)

lemma clock_sel [simp]:
  "hw_freq (hal_cmu_sys_set_freq f h) = f" "hw_pmu (hal_cmu_sys_set_freq f h) = hw_pmu h"
  "hw_freq (pmu_sys_freq_config f h) = hw_freq h" "hw_pmu (pmu_sys_freq_config f h) = f"
  "hw_log (hal_cmu_sys_set_freq f h) = hw_log h @ [(f, hw_pmu h)]"
  "hw_log (pmu_sys_freq_config f h) = hw_log h @ [(hw_freq h, f)]"
  by (simp_all add: hal_cmu_sys_set_freq_def pmu_sys_freq_config_def)


text \<open>The state after the request has been stored, and the three ways on.\<close>

lemma sf_inv_req:
  assumes inv: "sf_inv s" and u: "user < HAL_SYSFREQ_USER_QTY" and f: "freq < HAL_CMU_FREQ_QTY"
  defines "s' \<equiv> snd (hal_sysfreq_req user freq s)"
  shows "sf_inv s' \<and> min_sysfreq s' = min_sysfreq s \<and>
    (\<forall>v<HAL_SYSFREQ_USER_QTY. request s' v = (if v = user then freq else request s v)) \<and>
    (top_user s < HAL_SYSFREQ_USER_QTY \<or> hw_freq (sf_hw s) \<le> freq \<longrightarrow>
      top_user s' < HAL_SYSFREQ_USER_QTY) \<and>
    (HAL_SYSFREQ_USER_QTY \<le> top_user s \<and> freq < hw_freq (sf_hw s) \<longrightarrow> top_user s' = top_user s \<and> sf_hw s' = sf_hw s) \<and>
    (hw_freq (sf_hw s) \<le> hw_pmu (sf_hw s) \<longrightarrow> (\<exists>l. hw_log (sf_hw s') = hw_log (sf_hw s) @ l \<and>
      (\<forall>(c, p)\<in>set l. c \<le> p)) \<and> hw_freq (sf_hw s') \<le> hw_pmu (sf_hw s'))"
proof -
  let ?cur = "hal_sysfreq_get s"
  define t where "t = s\<lparr>sysfreq_per_user := (sysfreq_per_user s)[user := of_nat freq]\<rparr>"
  have len: "length (sysfreq_per_user s) = 16" using inv by (simp add: sf_inv_def)
  have req: "request t v = (if v = user then freq else request s v)" for v
    using request_update [OF len u f] by (simp add: t_def)
  have t: "top_user t = top_user s" "min_sysfreq t = min_sysfreq s" "sf_hw t = sf_hw s"
    "length (sysfreq_per_user t) = 16" "sysfreq_per_user t ! 14 = 0" "sysfreq_per_user t ! 15 = 0"
    using inv u by (auto simp: t_def sf_inv_def HAL_SYSFREQ_USER_QTY_def)
  have below: "request s v \<le> ?cur" if "v < HAL_SYSFREQ_USER_QTY" for v
    using inv that highest_ge [OF that, of s] unfolding sf_inv_def hal_sysfreq_get_def
    by (auto split: if_splits intro: less_imp_le)
  have cur: "?cur \<le> hw_freq (sf_hw s)" "min_sysfreq s \<le> hw_freq (sf_hw s)"
    "hw_freq (sf_hw s) = max (min_sysfreq s) ?cur"
    using inv unfolding sf_inv_def hal_sysfreq_get_def by (auto split: if_splits)
  have boot: "?cur = hw_freq (sf_hw s)" if "\<not> top_user s < HAL_SYSFREQ_USER_QTY" using that by (simp add: hal_sysfreq_get_def)
  have hi: "highest t = freq" if "?cur \<le> freq"
  proof -
    have "request t v \<le> request t user" if "v < HAL_SYSFREQ_USER_QTY" for v
      using below [OF that] \<open>?cur \<le> freq\<close> by (auto simp: req)
    from highest_eqI [OF u this] show ?thesis by (simp add: req)
  qed
  have d: "s' = (if freq = ?cur then t\<lparr>top_user := user\<rparr>
            else if freq > ?cur then
              let s = t\<lparr>top_user := user\<rparr>;
                  freq = hal_sysfreq_revise_freq s freq
              in s\<lparr>sf_hw := hal_cmu_sys_set_freq freq (pmu_sys_freq_config freq (sf_hw s))\<rparr>
            else if top_user t = user then
              let (freq, user) = top_scan t;
                  s = t\<lparr>top_user := user\<rparr>
              in if freq \<noteq> ?cur then
                   let freq = hal_sysfreq_revise_freq s freq
                   in s\<lparr>sf_hw := pmu_sys_freq_config freq (hal_cmu_sys_set_freq freq (sf_hw s))\<rparr>
                 else s
            else t)"
    using u f by (simp add: s'_def hal_sysfreq_req_def Let_def t_def)
  consider (eq) "freq = ?cur" | (gt) "freq > ?cur" | (top) "freq < ?cur" "top_user s = user"
    | (other) "freq < ?cur" "top_user s \<noteq> user" by linarith
  then show ?thesis
  proof cases
    case eq
    then have s': "s' = t\<lparr>top_user := user\<rparr>" by (simp add: d)
    then show ?thesis using t u hi eq cur boot req by (auto simp: sf_inv_def)
  next
    case gt
    define g where "g = max (min_sysfreq s) freq"
    have s': "s' = t\<lparr>top_user := user, sf_hw := hal_cmu_sys_set_freq g (pmu_sys_freq_config g (sf_hw s))\<rparr>"
      using gt t by (simp add: d Let_def hal_sysfreq_revise_freq_def g_def max_def)
    have g: "hw_freq (sf_hw s) \<le> g" using gt cur(3) by (simp add: g_def)
    show ?thesis using t u hi gt g boot req by (auto simp: sf_inv_def s' g_def)
  next
    case top
    then have tu: "top_user s < HAL_SYSFREQ_USER_QTY" using u by simp
    obtain w where w: "w < HAL_SYSFREQ_USER_QTY" "top_scan t = (request t w, w)" "highest t = request t w"
      by (rule top_scan_spec)
    define g where "g = max (min_sysfreq s) (request t w)"
    have s': "s' = (if request t w \<noteq> ?cur
        then t\<lparr>top_user := w, sf_hw := pmu_sys_freq_config g (hal_cmu_sys_set_freq g (sf_hw s))\<rparr>
        else t\<lparr>top_user := w\<rparr>)"
      using top t w(2) by (simp add: d Let_def hal_sysfreq_revise_freq_def g_def max_def)
    have "request t w \<le> ?cur" using below [OF w(1)] top(1) by (auto simp: req)
    then have "g \<le> hw_freq (sf_hw s)" using cur(3) by (simp add: g_def)
    then show ?thesis using t w top tu cur req by (auto simp: sf_inv_def s' g_def)
  next
    case other
    then have s': "s' = t" using t by (simp add: d)
    have "highest t = highest s" if "top_user s < HAL_SYSFREQ_USER_QTY"
    proof -
      have "request t (top_user s) = ?cur" using other that by (simp add: req hal_sysfreq_get_def)
      moreover have "highest s = ?cur" using inv that by (simp add: sf_inv_def hal_sysfreq_get_def)
      ultimately show ?thesis using that below other(1)
        by (metis highest_eqI less_imp_le req)
    qed
    then show ?thesis using inv t other req s' by (auto simp: sf_inv_def hal_sysfreq_get_def)
  qed
qed

lemma sf_inv_min_freq:
  assumes "sf_inv s"
  shows "sf_inv (hal_sysfreq_set_min_freq freq s)"
    and "min_sysfreq (hal_sysfreq_set_min_freq freq s) = max (min_sysfreq s) freq"
  using assms by (auto simp: hal_sysfreq_set_min_freq_def Let_def sf_inv_def hal_sysfreq_get_def max_def
      dest!: spec)

lemma sf_inv_clock:
  "sf_inv s \<Longrightarrow> top_user s < HAL_SYSFREQ_USER_QTY \<Longrightarrow>
   hw_freq (sf_hw s) = max (min_sysfreq s) (highest s)"
  by (simp add: sf_inv_def)

section \<open>Properties\<close>

text \<open>
  C35. \<open>hal_sysfreq_req\<close> records exactly the user's request and keeps the arbiter's invariant. Once somebody has asked
  for at least the clock that runs after the start (\<open>top_user\<close> is a user), the ruling user holds the highest
  request of all and the clock runs at the higher of that request and the minimum; until then the clock stays as the start
  left it, and every request is below it. Requests out of range are refused without a change.
\<close>

theorem hal_sysfreq_req_highest:
  assumes "sf_inv s"
  shows "case hal_sysfreq_req user freq s of (ret, s') \<Rightarrow>
    ret = (if user \<ge> HAL_SYSFREQ_USER_QTY then 1 else if freq \<ge> HAL_CMU_FREQ_QTY then 2 else 0) \<and>
    sf_inv s' \<and> (ret \<noteq> 0 \<longrightarrow> s' = s) \<and>
    (ret = 0 \<longrightarrow> (\<forall>v<HAL_SYSFREQ_USER_QTY. request s' v = (if v = user then freq else request s v)) \<and>
      (if top_user s < HAL_SYSFREQ_USER_QTY \<or> hw_freq (sf_hw s) \<le> freq
       then top_user s' < HAL_SYSFREQ_USER_QTY \<and> request s' (top_user s') = highest s' \<and>
         hw_freq (sf_hw s') = max (min_sysfreq s) (highest s')
       else top_user s' = HAL_SYSFREQ_USER_QTY \<and> hw_freq (sf_hw s') = hw_freq (sf_hw s) \<and>
         (\<forall>v<HAL_SYSFREQ_USER_QTY. request s' v < hw_freq (sf_hw s'))))"
proof (cases "user < HAL_SYSFREQ_USER_QTY \<and> freq < HAL_CMU_FREQ_QTY")
  case True
  then have "fst (hal_sysfreq_req user freq s) = 0" by (simp add: hal_sysfreq_req_def Let_def)
  moreover obtain ret s' where r: "hal_sysfreq_req user freq s = (ret, s')" by fastforce
  ultimately have ret: "ret = 0" by simp
  note i = sf_inv_req [OF assms conjunct1 [OF True] conjunct2 [OF True], unfolded r snd_conv]
  have "request s' (top_user s') = highest s' \<and> hw_freq (sf_hw s') = max (min_sysfreq s) (highest s')"
    if "top_user s' < HAL_SYSFREQ_USER_QTY" using i that by (auto simp: sf_inv_def)
  moreover have "top_user s' = HAL_SYSFREQ_USER_QTY \<and> (\<forall>v<HAL_SYSFREQ_USER_QTY. request s' v < hw_freq (sf_hw s'))"
    if "\<not> top_user s' < HAL_SYSFREQ_USER_QTY" using i that by (auto simp: sf_inv_def)
  moreover have "top_user s' < HAL_SYSFREQ_USER_QTY \<longleftrightarrow> top_user s < HAL_SYSFREQ_USER_QTY \<or> hw_freq (sf_hw s) \<le> freq"
    using i by (metis not_le)
  ultimately show ?thesis using i True unfolding r ret prod.case by (simp add: not_less)
qed (use assms in \<open>auto simp: hal_sysfreq_req_def\<close>)

text \<open>
  The supply follows the clock safely: if it was configured for at least the current
  clock, then at every step inside \<open>hal_sysfreq_req\<close> it is configured for at least the clock
  that runs at that moment, because it goes up before the clock and comes down after it.
\<close>

theorem hal_sysfreq_req_supply_first:
  assumes "sf_inv s" "hw_freq (sf_hw s) \<le> hw_pmu (sf_hw s)"
  shows "\<exists>l. hw_log (sf_hw (snd (hal_sysfreq_req user freq s))) = hw_log (sf_hw s) @ l \<and>
    (\<forall>(clock, supply)\<in>set l. clock \<le> supply)"
proof (cases "user < HAL_SYSFREQ_USER_QTY \<and> freq < HAL_CMU_FREQ_QTY")
  case True
  with sf_inv_req [OF assms(1), of user freq] assms(2) show ?thesis by blast
qed (auto simp: hal_sysfreq_req_def)

lemma bundle_zero: "sysfreq_bundle s i = 0 \<longleftrightarrow> (\<forall>k<4. sysfreq_per_user s ! (4 * i + k) = 0)"
  by (auto simp: sysfreq_bundle_def unat_eq_0)

lemma hal_sysfreq_busy_bytes:
  assumes "sf_inv s"
  shows "hal_sysfreq_busy s \<longleftrightarrow> (\<exists>u<HAL_SYSFREQ_USER_QTY. request s u \<noteq> 0)"
proof -
  have "hal_sysfreq_busy s \<longleftrightarrow> (\<exists>u<16. sysfreq_per_user s ! u \<noteq> 0)"
  proof
    assume "hal_sysfreq_busy s"
    then obtain i k where "i < 4" "k < 4" "sysfreq_per_user s ! (4 * i + k) \<noteq> 0"
      by (auto simp: hal_sysfreq_busy_def list_ex_iff bundle_zero HAL_SYSFREQ_USER_QTY_def)
    then show "\<exists>u<16. sysfreq_per_user s ! u \<noteq> 0" by (intro exI [of _ "4 * i + k"]) auto
  next
    assume "\<exists>u<16. sysfreq_per_user s ! u \<noteq> 0"
    then obtain u where u: "u < 16" "sysfreq_per_user s ! (4 * (u div 4) + u mod 4) \<noteq> 0" by auto
    then have "u div 4 < 4" "\<not> (\<forall>k<4. sysfreq_per_user s ! (4 * (u div 4) + k) = 0)"
      by (auto intro!: exI [of _ "u mod 4"])
    then show "hal_sysfreq_busy s"
      by (auto simp: hal_sysfreq_busy_def list_ex_iff bundle_zero HAL_SYSFREQ_USER_QTY_def
          intro!: bexI [of _ "u div 4"])
  qed
  also have "\<dots> \<longleftrightarrow> (\<exists>u<14. sysfreq_per_user s ! u \<noteq> 0)"
  proof -
    have "u < 14" if "u < 16" "sysfreq_per_user s ! u \<noteq> 0" for u
    proof (rule ccontr)
      assume "\<not> u < 14"
      then have "u = 14 \<or> u = 15" using that(1) by linarith
      then show False using that(2) assms by (auto simp: sf_inv_def)
    qed
    then show ?thesis by (meson less_trans numeral_less_iff semiring_norm(76,78,81))
  qed
  finally show ?thesis by (simp add: request_def HAL_SYSFREQ_USER_QTY_def unat_eq_0)
qed

text \<open>
  \<open>hal_sysfreq_busy\<close>, which reads the request bytes as words, is true exactly when some
  user requests more than the lowest frequency.
\<close>

theorem hal_sysfreq_busy_iff:
  assumes "sf_inv s"
  shows "hal_sysfreq_busy s \<longleftrightarrow> (\<exists>u<HAL_SYSFREQ_USER_QTY. request s u \<noteq> 0)"
  using assms by (rule hal_sysfreq_busy_bytes)

text \<open>A state for the witnesses: USB asks for 104 MHz, BT for 52 MHz.\<close>

definition demo_sysfreq :: sysfreq where
  "demo_sysfreq = \<lparr>sysfreq_per_user = [0, 4, 2, 0, 0, 0, 0, 0, 0, 0, 0, 0, 0, 0, 0, 0], top_user = 1,
     min_sysfreq = 1, sf_hw = \<lparr>hw_freq = 4, hw_pmu = 4, hw_log = []\<rparr>\<rparr>"

lemma demo_sysfreq_inv: "sf_inv demo_sysfreq"
  by (simp add: sf_inv_def demo_sysfreq_def highest_def requests_def request_def
      HAL_SYSFREQ_USER_QTY_def upt_rec)

theorem hal_sysfreq_req_highest_witness:
  "case hal_sysfreq_req 1 0 demo_sysfreq of (ret, s') \<Rightarrow>
     ret = 0 \<and> sf_inv s' \<and> request s' 1 = 0 \<and> hw_freq (sf_hw s') = max 1 (highest s')"
  using hal_sysfreq_req_highest [OF demo_sysfreq_inv, of 1 0]
  by (auto simp: HAL_SYSFREQ_USER_QTY_def HAL_CMU_FREQ_QTY_def demo_sysfreq_def split: prod.splits)

theorem hal_sysfreq_req_supply_first_witness:
  "\<exists>l. hw_log (sf_hw (snd (hal_sysfreq_req 1 0 demo_sysfreq))) = l \<and> (\<forall>(c, p)\<in>set l. c \<le> p)"
  using hal_sysfreq_req_supply_first [OF demo_sysfreq_inv, of 1 0] by (simp add: demo_sysfreq_def)

theorem hal_sysfreq_busy_iff_witness: "hal_sysfreq_busy demo_sysfreq"
  using hal_sysfreq_busy_iff [OF demo_sysfreq_inv]
  by (auto simp: demo_sysfreq_def request_def HAL_SYSFREQ_USER_QTY_def intro!: exI [of _ 1])

end
