(* ===== verification/Sleep.thy ===== *)
theory Sleep
  imports SysFreq
begin

text \<open>
  \<open>platform/hal/hal_sleep.c\<close>: when the processor may sleep, and how deep. Users hold wake locks
  as bits of two maps, modules can veto with hooks, and the decision also asks the clock
  arbiter (\<open>hal_sysfreq_busy\<close>), the DMA, the trace port and the interrupt controller.

  What the hardware and the hooks answer during one call is the record \<open>sleep_env\<close>: a hook is
  a number in the handler tables and \<open>env_hook\<close> its result; \<open>env_time\<close> lists the readings of the
  system timer in the order in which the code takes them. Pending interrupts are read after waiting for the trace port
  (\<open>env_irq_polled\<close>) and before power is removed (\<open>env_irq_pending\<close>). The calls that put modules to
  sleep and wake them are recorded as events.
\<close>

unbundle bit_operations_syntax

section \<open>State\<close>

datatype sleep_status = HAL_SLEEP_STATUS_DEEP | HAL_SLEEP_STATUS_SHALLOW

datatype sleep_module = M_bt_drv | M_analog | M_pmu | M_gpadc | M_norflash

datatype sleep_event = Ev_sleep sleep_module | Ev_lpu_sleep | Ev_wakeup sleep_module

record sleep_state =
  sleep_hook_handler :: "nat option list"
  deep_sleep_hook_handler :: "nat option list"
  cpu_wake_lock_map :: u32
  sys_wake_lock_map :: u32
  stats_interval :: nat
  stats_start_time :: nat
  shallow_sleep_time :: nat
  deep_sleep_time :: nat
  stats_started :: bool
  stats_valid :: bool
  shallow_sleep_ratio :: nat
  deep_sleep_ratio :: nat

record sleep_env =
  env_debug :: bool
  env_lpu_busy :: bool
  env_sysfreq :: sysfreq
  env_dma_busy :: bool
  env_hook :: "nat \<Rightarrow> int"
  env_trace_busy :: bool
  env_trace_polls :: "(bool \<times> bool) list"
  env_irq_polled :: bool
  env_irq_pending :: bool
  env_time :: "nat list"

definition HAL_CPU_WAKE_LOCK_USER_QTY :: nat where "HAL_CPU_WAKE_LOCK_USER_QTY = 32"
definition HAL_SYS_WAKE_LOCK_USER_QTY :: nat where "HAL_SYS_WAKE_LOCK_USER_QTY = 32"

section \<open>Wake locks and hooks\<close>

definition hal_cpu_wake_lock :: "nat \<Rightarrow> sleep_state \<Rightarrow> nat \<times> sleep_state" where
  "hal_cpu_wake_lock user s =
     (if user \<ge> HAL_CPU_WAKE_LOCK_USER_QTY then (1, s)
      else (0, s\<lparr>cpu_wake_lock_map := cpu_wake_lock_map s OR push_bit user 1\<rparr>))"

definition hal_cpu_wake_unlock :: "nat \<Rightarrow> sleep_state \<Rightarrow> nat \<times> sleep_state" where
  "hal_cpu_wake_unlock user s =
     (if user \<ge> HAL_CPU_WAKE_LOCK_USER_QTY then (1, s)
      else (0, s\<lparr>cpu_wake_lock_map := cpu_wake_lock_map s AND NOT (push_bit user 1)\<rparr>))"

definition hal_sys_wake_lock :: "nat \<Rightarrow> sleep_state \<Rightarrow> nat \<times> sleep_state" where
  "hal_sys_wake_lock user s =
     (if user \<ge> HAL_SYS_WAKE_LOCK_USER_QTY then (1, s)
      else (0, s\<lparr>sys_wake_lock_map := sys_wake_lock_map s OR push_bit user 1\<rparr>))"

definition hal_sys_wake_unlock :: "nat \<Rightarrow> sleep_state \<Rightarrow> nat \<times> sleep_state" where
  "hal_sys_wake_unlock user s =
     (if user \<ge> HAL_SYS_WAKE_LOCK_USER_QTY then (1, s)
      else (0, s\<lparr>sys_wake_lock_map := sys_wake_lock_map s AND NOT (push_bit user 1)\<rparr>))"

definition hal_sleep_set_sleep_hook :: "nat \<Rightarrow> nat option \<Rightarrow> sleep_state \<Rightarrow> nat \<times> sleep_state" where
  "hal_sleep_set_sleep_hook user handler s =
     (if user \<ge> length (sleep_hook_handler s) then (1, s)
      else (0, s\<lparr>sleep_hook_handler := (sleep_hook_handler s)[user := handler]\<rparr>))"

definition hal_sleep_set_deep_sleep_hook ::
  "nat \<Rightarrow> nat option \<Rightarrow> sleep_state \<Rightarrow> nat \<times> sleep_state" where
  "hal_sleep_set_deep_sleep_hook user handler s =
     (if user \<ge> length (deep_sleep_hook_handler s) then (1, s)
      else (0, s\<lparr>deep_sleep_hook_handler := (deep_sleep_hook_handler s)[user := handler]\<rparr>))"

text \<open>Hooks run in order until one refuses; the result is that one's answer.\<close>

fun exec_hooks :: "(nat \<Rightarrow> int) \<Rightarrow> nat option list \<Rightarrow> int" where
  "exec_hooks run [] = 0"
| "exec_hooks run (None # hs) = exec_hooks run hs"
| "exec_hooks run (Some h # hs) = (if run h \<noteq> 0 then run h else exec_hooks run hs)"

definition hal_sleep_exec_sleep_hook :: "sleep_env \<Rightarrow> sleep_state \<Rightarrow> int" where
  "hal_sleep_exec_sleep_hook e s = exec_hooks (env_hook e) (sleep_hook_handler s)"

definition hal_sleep_exec_deep_sleep_hook :: "sleep_env \<Rightarrow> sleep_state \<Rightarrow> int" where
  "hal_sleep_exec_deep_sleep_hook e s = exec_hooks (env_hook e) (deep_sleep_hook_handler s)"

definition hal_sleep_cpu_busy :: "sleep_env \<Rightarrow> sleep_state \<Rightarrow> bool" where
  "hal_sleep_cpu_busy e s \<longleftrightarrow> cpu_wake_lock_map s \<noteq> 0 \<or> env_lpu_busy e"

definition hal_sleep_sys_busy :: "sleep_env \<Rightarrow> sleep_state \<Rightarrow> bool" where
  "hal_sleep_sys_busy e s \<longleftrightarrow>
     sys_wake_lock_map s \<noteq> 0 \<or> hal_sysfreq_busy (env_sysfreq e) \<or> env_dma_busy e"

text \<open>\<open>pending\<close> and \<open>enabled\<close> are the registers \<open>ICPR\<close> and \<open>ISER\<close>, one word per 32 interrupts.\<close>

definition hal_sleep_specific_irq_pending :: "u32 list \<Rightarrow> u32 list \<Rightarrow> u32 list \<Rightarrow> nat \<Rightarrow> nat" where
  "hal_sleep_specific_irq_pending pending enabled irq cnt =
     (let check_cnt = (if length pending > cnt then cnt else length pending)
      in if list_ex (\<lambda>i. (pending ! i AND enabled ! i AND irq ! i) \<noteq> 0) [0..<check_cnt] then 1 else 0)"

section \<open>Statistics\<close>

definition ms_to_ticks :: "nat \<Rightarrow> nat" where
  "ms_to_ticks ms = ms * (16000 div 1000) mod 4294967296"

definition read_time :: "sleep_env \<Rightarrow> nat \<Rightarrow> nat" where
  "read_time e k = (if k < length (env_time e) then env_time e ! k else 0)"

definition hal_sleep_start_stats :: "nat \<Rightarrow> nat \<Rightarrow> sleep_state \<Rightarrow> sleep_state" where
  "hal_sleep_start_stats now stats_interval_ms s =
     (if stats_interval_ms \<noteq> 0 then
        s\<lparr>stats_interval := ms_to_ticks stats_interval_ms, stats_start_time := now,
          shallow_sleep_time := 0, deep_sleep_time := 0, stats_valid := False, stats_started := True\<rparr>
      else s\<lparr>stats_started := False\<rparr>)"

text \<open>The result is (busy, shallow, deep); \<open>busy\<close> is stored in an unsigned byte.\<close>

definition hal_sleep_get_stats :: "sleep_state \<Rightarrow> (int \<times> nat \<times> nat) option" where
  "hal_sleep_get_stats s =
     (if stats_valid s
      then Some ((100 - (int (shallow_sleep_ratio s) + int (deep_sleep_ratio s))) mod 256,
                 shallow_sleep_ratio s, deep_sleep_ratio s)
      else None)"

text \<open>
  A percentage: the 32-bit product when it cannot overflow, the 64-bit product otherwise, and
  the quotient is stored in a byte. A division by zero is \<open>None\<close>.
\<close>

definition stats_ratio :: "nat \<Rightarrow> nat \<Rightarrow> nat option" where
  "stats_ratio t interval =
     (if interval = 0 then None
      else if t > 4294967295 div 100
      then Some ((t * 100 mod 18446744073709551616) div interval mod 256)
      else Some ((t * 100 mod 4294967296) div interval mod 256))"

definition update_stats :: "nat \<Rightarrow> sleep_state \<Rightarrow> sleep_state option" where
  "update_stats time s =
     (if stats_started s then
        let interval = sub32 time (stats_start_time s) in
        if interval \<ge> stats_interval s then do {
          r1 \<leftarrow> stats_ratio (shallow_sleep_time s) interval;
          r2 \<leftarrow> stats_ratio (deep_sleep_time s) interval;
          Some (s\<lparr>shallow_sleep_ratio := r1, deep_sleep_ratio := r2, stats_valid := True,
                  shallow_sleep_time := 0, deep_sleep_time := 0, stats_start_time := time\<rparr>) }
        else Some s
      else Some s)"

section \<open>Going to sleep\<close>

text \<open>The number \<open>k\<close> is how many timer readings have been taken so far.\<close>

definition hal_sleep_lowpower_mode ::
  "sleep_env \<Rightarrow> nat \<Rightarrow> sleep_state \<Rightarrow> sleep_status \<times> sleep_event list \<times> nat \<times> sleep_state" where
  "hal_sleep_lowpower_mode e k s =
     (if hal_sleep_exec_deep_sleep_hook e s \<noteq> 0 \<or> env_trace_busy e
      then (HAL_SLEEP_STATUS_SHALLOW, [], k, s)
      else let down = [Ev_sleep M_bt_drv, Ev_sleep M_analog, Ev_sleep M_pmu, Ev_sleep M_gpadc,
                       Ev_sleep M_norflash];
               (ret, sleep) = (if \<not> env_irq_pending e then (HAL_SLEEP_STATUS_DEEP, [Ev_lpu_sleep])
                               else (HAL_SLEEP_STATUS_SHALLOW, []));
               up = [Ev_wakeup M_norflash, Ev_wakeup M_pmu, Ev_wakeup M_gpadc, Ev_wakeup M_analog,
                     Ev_wakeup M_bt_drv];
               s' = (if stats_started s
                     then s\<lparr>deep_sleep_time := add32 (deep_sleep_time s)
                             (sub32 (read_time e (Suc k)) (read_time e k))\<rparr>
                     else s)
           in (ret, down @ sleep @ up, if stats_started s then k + 2 else k, s'))"

text \<open>Polling while the trace port is busy: each poll reads (irq pending, trace busy).\<close>

fun trace_poll :: "(bool \<times> bool) list \<Rightarrow> bool" where
  "trace_poll [] = False"
| "trace_poll ((irq, busy) # ps) = (if \<not> irq \<and> busy then trace_poll ps else True)"

definition shallow_stats :: "sleep_env \<Rightarrow> sleep_state \<Rightarrow> nat \<times> sleep_state" where
  "shallow_stats e s =
     (if stats_started s
      then (2, s\<lparr>shallow_sleep_time := add32 (shallow_sleep_time s)
                   (sub32 (read_time e 1) (read_time e 0))\<rparr>)
      else (0, s))"

definition deep_part ::
  "bool \<Rightarrow> sleep_env \<Rightarrow> nat \<Rightarrow> sleep_state \<Rightarrow> sleep_status \<times> sleep_event list \<times> nat \<times> sleep_state" where
  "deep_part shallow_sleep e k s =
     (if shallow_sleep then (HAL_SLEEP_STATUS_DEEP, [], k, s) else hal_sleep_lowpower_mode e k s)"

text \<open>\<open>None\<close> stands for a poll that never ends and for the division by zero.\<close>

definition hal_sleep_proc ::
  "bool \<Rightarrow> sleep_env \<Rightarrow> sleep_state \<Rightarrow> (sleep_status \<times> sleep_event list \<times> sleep_state) option" where
  "hal_sleep_proc shallow_sleep e s = do {
     (ret, ev, k, s) \<leftarrow>
       (if hal_sleep_cpu_busy e s then Some (HAL_SLEEP_STATUS_SHALLOW, [], 0, s)
        else if hal_sleep_exec_sleep_hook e s \<noteq> 0 then Some (HAL_SLEEP_STATUS_SHALLOW, [], 0, s)
        else if hal_sleep_sys_busy e s then
          let (k, s) = shallow_stats e s in Some (HAL_SLEEP_STATUS_SHALLOW, [], k, s)
        else if env_debug e \<and> env_trace_busy e then
          if trace_poll (env_trace_polls e) then
            let (k, s) = shallow_stats e s in
            if \<not> env_irq_polled e
            then Some (deep_part shallow_sleep (e\<lparr>env_trace_busy := False\<rparr>) k s)
            else Some (HAL_SLEEP_STATUS_SHALLOW, [], k, s)
          else None
        else Some (deep_part shallow_sleep e 0 s));
     s \<leftarrow> update_stats (read_time e k) s;
     Some (ret, ev, s) }"

text \<open>The entry points; \<open>ipsr\<close> is the active exception, checked in debug builds.\<close>

definition hal_sleep_enter_sleep ::
  "nat \<Rightarrow> sleep_env \<Rightarrow> sleep_state \<Rightarrow> (sleep_status \<times> sleep_event list \<times> sleep_state) option" where
  "hal_sleep_enter_sleep ipsr e s =
     (if env_debug e \<and> ipsr \<noteq> 0 then None else hal_sleep_proc False e s)"

definition hal_sleep_shallow_sleep ::
  "sleep_env \<Rightarrow> sleep_state \<Rightarrow> (sleep_status \<times> sleep_event list \<times> sleep_state) option" where
  "hal_sleep_shallow_sleep e s = hal_sleep_proc True e s"


section \<open>Wake locks as sets of users\<close>

definition holds_cpu :: "sleep_state \<Rightarrow> nat \<Rightarrow> bool" where
  "holds_cpu s u = bit (cpu_wake_lock_map s) u"

definition holds_sys :: "sleep_state \<Rightarrow> nat \<Rightarrow> bool" where
  "holds_sys s u = bit (sys_wake_lock_map s) u"

lemma bit_or_single: "user < 32 \<Longrightarrow> bit ((m :: u32) OR 2 ^ user) u \<longleftrightarrow> u = user \<or> bit m u"
  by (auto simp: bit_or_iff bit_exp_iff)

lemma bit_and_not_single:
  "user < 32 \<Longrightarrow> bit ((m :: u32) AND NOT (2 ^ user)) u \<longleftrightarrow> u \<noteq> user \<and> bit m u"
  using bit_imp_le_length [of m u] by (auto simp: bit_and_iff bit_not_iff bit_exp_iff)

lemma map_zero_iff: "(m :: u32) = 0 \<longleftrightarrow> (\<forall>u<32. \<not> bit m u)"
  by (auto simp: bit_eq_iff dest: bit_imp_le_length)

datatype wake_op = Cpu_lock nat | Cpu_unlock nat | Sys_lock nat | Sys_unlock nat

fun wake_step :: "wake_op \<Rightarrow> sleep_state \<Rightarrow> sleep_state" where
  "wake_step (Cpu_lock u) s = snd (hal_cpu_wake_lock u s)"
| "wake_step (Cpu_unlock u) s = snd (hal_cpu_wake_unlock u s)"
| "wake_step (Sys_lock u) s = snd (hal_sys_wake_lock u s)"
| "wake_step (Sys_unlock u) s = snd (hal_sys_wake_unlock u s)"

definition wake_run :: "wake_op list \<Rightarrow> sleep_state \<Rightarrow> sleep_state" where
  "wake_run ops s = fold wake_step ops s"

text \<open>The reference: a set of holders per map.\<close>

fun holders_step :: "wake_op \<Rightarrow> nat set \<times> nat set \<Rightarrow> nat set \<times> nat set" where
  "holders_step (Cpu_lock u) (C, S) = (if u < 32 then insert u C else C, S)"
| "holders_step (Cpu_unlock u) (C, S) = (C - {u}, S)"
| "holders_step (Sys_lock u) (C, S) = (C, if u < 32 then insert u S else S)"
| "holders_step (Sys_unlock u) (C, S) = (C, S - {u})"

definition holders :: "sleep_state \<Rightarrow> nat set \<times> nat set" where
  "holders s = ({u. holds_cpu s u}, {u. holds_sys s u})"

lemma holders_bound: "holds_cpu s u \<Longrightarrow> u < 32" "holds_sys s u \<Longrightarrow> u < 32"
  using bit_imp_le_length [of "cpu_wake_lock_map s" u] bit_imp_le_length [of "sys_wake_lock_map s" u]
  by (simp_all add: holds_cpu_def holds_sys_def)

lemma holders_wake_step: "holders (wake_step op s) = holders_step op (holders s)"
  using holders_bound [of s]
  by (cases op) (force simp: holders_def hal_cpu_wake_lock_def hal_cpu_wake_unlock_def
      hal_sys_wake_lock_def hal_sys_wake_unlock_def HAL_CPU_WAKE_LOCK_USER_QTY_def
      HAL_SYS_WAKE_LOCK_USER_QTY_def holds_cpu_def holds_sys_def bit_or_single bit_and_not_single)+

lemma exec_hooks_zero: "exec_hooks run hs = 0 \<longleftrightarrow> (\<forall>h. Some h \<in> set hs \<longrightarrow> run h = 0)"
  by (induction run hs rule: exec_hooks.induct) auto

section \<open>The sleep decision\<close>

definition may_sleep :: "sleep_env \<Rightarrow> sleep_state \<Rightarrow> bool" where
  "may_sleep e s \<longleftrightarrow> (\<forall>u. \<not> holds_cpu s u \<and> \<not> holds_sys s u) \<and> \<not> env_lpu_busy e \<and> \<not> env_dma_busy e \<and>
     (\<forall>u<HAL_SYSFREQ_USER_QTY. request (env_sysfreq e) u = 0) \<and>
     (\<forall>h. Some h \<in> set (sleep_hook_handler s) \<longrightarrow> env_hook e h = 0)"

definition may_power_down :: "sleep_env \<Rightarrow> sleep_state \<Rightarrow> bool" where
  "may_power_down e s \<longleftrightarrow> \<not> env_irq_pending e \<and>
     (\<forall>h. Some h \<in> set (deep_sleep_hook_handler s) \<longrightarrow> env_hook e h = 0)"

lemma may_sleep_iff:
  assumes "sf_inv (env_sysfreq e)"
  shows "may_sleep e s \<longleftrightarrow> \<not> hal_sleep_cpu_busy e s \<and> hal_sleep_exec_sleep_hook e s = 0 \<and>
    \<not> hal_sleep_sys_busy e s"
proof -
  have "(cpu_wake_lock_map s = 0 \<and> sys_wake_lock_map s = 0) \<longleftrightarrow> (\<forall>u. \<not> holds_cpu s u \<and> \<not> holds_sys s u)"
    using holders_bound [of s] by (auto simp: map_zero_iff holds_cpu_def holds_sys_def)
  then show ?thesis
    using hal_sysfreq_busy_bytes [OF assms]
    by (auto simp: may_sleep_def hal_sleep_cpu_busy_def hal_sleep_sys_busy_def
        hal_sleep_exec_sleep_hook_def exec_hooks_zero)
qed

lemma deep_part_status:
  "fst (deep_part False e k s) = HAL_SLEEP_STATUS_DEEP \<longleftrightarrow> \<not> env_trace_busy e \<and> may_power_down e s"
  by (auto simp: deep_part_def hal_sleep_lowpower_mode_def Let_def may_power_down_def
      hal_sleep_exec_deep_sleep_hook_def exec_hooks_zero split: prod.splits if_splits)

lemma may_power_down_other [simp]:
  "may_power_down (e\<lparr>env_trace_busy := b\<rparr>) s = may_power_down e s"
  "may_power_down e (snd (shallow_stats e s)) = may_power_down e s"
  by (auto simp: may_power_down_def shallow_stats_def)

lemma hal_sleep_proc_status:
  assumes "hal_sleep_proc False e s = Some (ret, ev, s')"
  shows "(ret = HAL_SLEEP_STATUS_DEEP) =
    (\<not> hal_sleep_cpu_busy e s \<and> hal_sleep_exec_sleep_hook e s = 0 \<and> \<not> hal_sleep_sys_busy e s \<and>
     (env_trace_busy e \<longrightarrow> env_debug e \<and> \<not> env_irq_polled e) \<and> may_power_down e s)"
proof -
  have 1: "fst (deep_part False (e\<lparr>env_trace_busy := False\<rparr>) k (snd (shallow_stats e s))) = HAL_SLEEP_STATUS_DEEP
      \<longleftrightarrow> may_power_down e s" for k
    by (simp add: deep_part_status)
  have 2: "fst (deep_part False e 0 s) = HAL_SLEEP_STATUS_DEEP \<longleftrightarrow> \<not> env_trace_busy e \<and> may_power_down e s"
    by (simp add: deep_part_status)
  show ?thesis
    using assms 1 [of "fst (shallow_stats e s)"] 2
    by (auto simp: hal_sleep_proc_def Let_def bind_eq_Some_conv may_power_down_def
        split: if_splits prod.splits)
qed

section \<open>Properties\<close>

text \<open>
  C26. \<open>hal_sleep_enter_sleep\<close> reports deep sleep exactly when nothing speaks against it: no
  user holds a wake lock, no clock request is active, no DMA runs, no hook vetoes and no
  interrupt is pending; a busy trace port also prevents it, except in debug builds, which
  wait for it, unless an interrupt is pending when the wait is over.
\<close>

theorem hal_sleep_deep_iff:
  assumes "sf_inv (env_sysfreq e)"
    and "hal_sleep_enter_sleep ipsr e s = Some (ret, ev, s')"
  shows "ret = HAL_SLEEP_STATUS_DEEP \<longleftrightarrow>
    may_sleep e s \<and> may_power_down e s \<and> (env_trace_busy e \<longrightarrow> env_debug e \<and> \<not> env_irq_polled e)"
  using hal_sleep_proc_status [of e s ret ev s'] assms may_sleep_iff [OF assms(1), of s]
  by (auto simp: hal_sleep_enter_sleep_def split: if_splits)

text \<open>
  C36. Along any sequence of lock and unlock calls the two maps are the sets of users whose
  last call was a lock; calls with a user out of range change nothing.
\<close>

theorem wake_lock_holders:
  "holders (wake_run ops s) = fold holders_step ops (holders s)"
  by (induction ops arbitrary: s) (simp_all add: wake_run_def holders_wake_step)

text \<open>The modules can be enumerated, so that sets of them compute; \<open>asleep\<close> is the set after a trace.\<close>

lemma all_sleep_module: "(\<forall>m :: sleep_module. P m) \<longleftrightarrow> P M_bt_drv \<and> P M_analog \<and> P M_pmu \<and> P M_gpadc \<and> P M_norflash"
  by (metis sleep_module.exhaust)

lemma ex_sleep_module: "(\<exists>m :: sleep_module. P m) \<longleftrightarrow> P M_bt_drv \<or> P M_analog \<or> P M_pmu \<or> P M_gpadc \<or> P M_norflash"
  by (metis sleep_module.exhaust)

instantiation sleep_module :: enum
begin

definition enum_sleep_module :: "sleep_module list" where
  "enum_sleep_module = [M_bt_drv, M_analog, M_pmu, M_gpadc, M_norflash]"

definition enum_all_sleep_module :: "(sleep_module \<Rightarrow> bool) \<Rightarrow> bool" where
  "enum_all_sleep_module P \<longleftrightarrow> P M_bt_drv \<and> P M_analog \<and> P M_pmu \<and> P M_gpadc \<and> P M_norflash"

definition enum_ex_sleep_module :: "(sleep_module \<Rightarrow> bool) \<Rightarrow> bool" where
  "enum_ex_sleep_module P \<longleftrightarrow> P M_bt_drv \<or> P M_analog \<or> P M_pmu \<or> P M_gpadc \<or> P M_norflash"

instance
  by standard (auto simp: enum_sleep_module_def enum_all_sleep_module_def enum_ex_sleep_module_def
      all_sleep_module ex_sleep_module intro: sleep_module.exhaust)

end

lemma UNIV_sleep_module: "(UNIV :: sleep_module set) = {M_bt_drv, M_analog, M_pmu, M_gpadc, M_norflash}"
  by (simp add: UNIV_enum enum_sleep_module_def)

fun asleep :: "sleep_event list \<Rightarrow> sleep_module set \<Rightarrow> sleep_module set" where
  "asleep [] A = A"
| "asleep (Ev_sleep m # es) A = asleep es (insert m A)"
| "asleep (Ev_wakeup m # es) A = asleep es (A - {m})"
| "asleep (Ev_lpu_sleep # es) A = asleep es A"

lemma deep_part_events:
  "fst (snd (deep_part b e k s)) \<in> {[], 
     [Ev_sleep M_bt_drv, Ev_sleep M_analog, Ev_sleep M_pmu, Ev_sleep M_gpadc, Ev_sleep M_norflash,
      Ev_wakeup M_norflash, Ev_wakeup M_pmu, Ev_wakeup M_gpadc, Ev_wakeup M_analog, Ev_wakeup M_bt_drv],
     [Ev_sleep M_bt_drv, Ev_sleep M_analog, Ev_sleep M_pmu, Ev_sleep M_gpadc, Ev_sleep M_norflash,
      Ev_lpu_sleep,
      Ev_wakeup M_norflash, Ev_wakeup M_pmu, Ev_wakeup M_gpadc, Ev_wakeup M_analog, Ev_wakeup M_bt_drv]}"
  by (auto simp: deep_part_def hal_sleep_lowpower_mode_def Let_def)

lemma hal_sleep_proc_events:
  assumes "hal_sleep_proc b e s = Some (ret, ev, s')"
  shows "ev = [] \<or> (\<exists>e' k s1. ev = fst (snd (deep_part b e' k s1)))"
  using assms by (auto simp: hal_sleep_proc_def Let_def bind_eq_Some_conv split: if_splits prod.splits)
    (metis fst_conv snd_conv)+

text \<open>
  Modules are asleep only inside the sleep sequence: the processor powers down when all
  of them are asleep, and when the call returns all are awake again.
\<close>

theorem hal_sleep_modules_wake:
  assumes "hal_sleep_proc shallow e s = Some (ret, ev, s')"
  shows "asleep ev {} = {} \<and> (\<forall>xs ys. ev = xs @ Ev_lpu_sleep # ys \<longrightarrow> asleep xs {} = UNIV)"
proof -
  consider "ev = []"
    | (no) "ev = [Ev_sleep M_bt_drv, Ev_sleep M_analog, Ev_sleep M_pmu, Ev_sleep M_gpadc,
      Ev_sleep M_norflash, Ev_wakeup M_norflash, Ev_wakeup M_pmu, Ev_wakeup M_gpadc,
      Ev_wakeup M_analog, Ev_wakeup M_bt_drv]"
    | (lpu) "ev = [Ev_sleep M_bt_drv, Ev_sleep M_analog, Ev_sleep M_pmu, Ev_sleep M_gpadc,
      Ev_sleep M_norflash, Ev_lpu_sleep, Ev_wakeup M_norflash, Ev_wakeup M_pmu, Ev_wakeup M_gpadc,
      Ev_wakeup M_analog, Ev_wakeup M_bt_drv]"
    using hal_sleep_proc_events [OF assms] deep_part_events by blast
  then show ?thesis
    by cases (auto simp: UNIV_sleep_module Cons_eq_append_conv)
qed

text \<open>
  The published percentages are exact: whichever multiplication width the code picks,
  each ratio is the rounded-down percentage of the interval, and with \<open>busy\<close> they add up to 100.
\<close>

lemma stats_ratio_exact:
  assumes "t \<le> interval" "0 < interval" "interval < 4294967296"
  shows "stats_ratio t interval = Some (t * 100 div interval)"
proof -
  have "t * 100 div interval \<le> 100 * interval div interval" using assms by (intro div_le_mono) simp
  then have "t * 100 div interval < 256" using assms(2) by simp
  moreover have "t * 100 < 18446744073709551616" using assms by linarith
  ultimately show ?thesis using assms(2) by (auto simp: stats_ratio_def)
qed

theorem update_stats_percentages:
  assumes "stats_started s" "stats_interval s \<le> sub32 time (stats_start_time s)"
    and "0 < sub32 time (stats_start_time s)"
    and "shallow_sleep_time s + deep_sleep_time s \<le> sub32 time (stats_start_time s)"
  defines "n \<equiv> sub32 time (stats_start_time s)"
  shows "\<exists>s'. update_stats time s = Some s' \<and> stats_start_time s' = time \<and>
    hal_sleep_get_stats s' = Some (100 - int (shallow_sleep_time s * 100 div n) - int (deep_sleep_time s * 100 div n),
      shallow_sleep_time s * 100 div n, deep_sleep_time s * 100 div n) \<and>
    shallow_sleep_time s * 100 div n + deep_sleep_time s * 100 div n \<le> 100"
proof -
  have n: "0 < n" "n < 4294967296" using assms by (simp_all add: n_def)
  have r: "stats_ratio (shallow_sleep_time s) n = Some (shallow_sleep_time s * 100 div n)"
    "stats_ratio (deep_sleep_time s) n = Some (deep_sleep_time s * 100 div n)"
    using assms(4) n by (auto intro!: stats_ratio_exact simp: n_def [symmetric])
  have "shallow_sleep_time s * 100 div n + deep_sleep_time s * 100 div n \<le>
      (shallow_sleep_time s + deep_sleep_time s) * 100 div n"
    by (metis div_add1_eq le_add1 distrib_right)
  also have "\<dots> \<le> n * 100 div n" using assms(4) by (intro div_le_mono) (simp add: n_def)
  finally have "shallow_sleep_time s * 100 div n + deep_sleep_time s * 100 div n \<le> 100" using n by simp
  then show ?thesis
    using assms(1,2) r by (auto simp: update_stats_def Let_def n_def [symmetric] hal_sleep_get_stats_def)
qed

text \<open>States for the witnesses.\<close>

definition idle_env :: sleep_env where
  "idle_env = \<lparr>env_debug = False, env_lpu_busy = False, env_sysfreq = sysfreq_start
     \<lparr>hw_freq = 1, hw_pmu = 1, hw_log = []\<rparr>, env_dma_busy = False, env_hook = (\<lambda>_. 0),
     env_trace_busy = False, env_trace_polls = [], env_irq_polled = False, env_irq_pending = False, env_time = []\<rparr>"

definition idle_sleep :: sleep_state where
  "idle_sleep = \<lparr>sleep_hook_handler = [Some 0, None, None, None],
     deep_sleep_hook_handler = [None, None, None, None, Some 1], cpu_wake_lock_map = 0,
     sys_wake_lock_map = 0, stats_interval = 0, stats_start_time = 0, shallow_sleep_time = 0,
     deep_sleep_time = 0, stats_started = False, stats_valid = False, shallow_sleep_ratio = 0,
     deep_sleep_ratio = 0\<rparr>"

lemma idle_inv: "sf_inv (env_sysfreq idle_env)"
  by (simp add: idle_env_def sf_inv_def sysfreq_start_def HAL_SYSFREQ_USER_QTY_def
      HAL_CMU_FREQ_26M_def request_def nth_append)

lemma idle_may: "may_sleep idle_env idle_sleep" "may_power_down idle_env idle_sleep"
  by (simp_all add: may_sleep_def may_power_down_def holds_cpu_def holds_sys_def idle_env_def
      idle_sleep_def sysfreq_start_def request_def HAL_SYSFREQ_USER_QTY_def)

lemma idle_proc: "\<exists>ret ev s'. hal_sleep_proc False idle_env idle_sleep = Some (ret, ev, s')"
  using idle_may may_sleep_iff [OF idle_inv, of idle_sleep]
  by (auto simp: hal_sleep_proc_def update_stats_def idle_env_def idle_sleep_def deep_part_def
      hal_sleep_lowpower_mode_def Let_def split: prod.splits)

theorem hal_sleep_deep_iff_witness:
  "\<exists>ev s'. hal_sleep_enter_sleep 0 idle_env idle_sleep = Some (HAL_SLEEP_STATUS_DEEP, ev, s')"
proof -
  obtain ret ev s' where e: "hal_sleep_enter_sleep 0 idle_env idle_sleep = Some (ret, ev, s')"
    using idle_proc by (auto simp: hal_sleep_enter_sleep_def)
  from hal_sleep_deep_iff [OF idle_inv this] idle_may e show ?thesis by (auto simp: idle_env_def)
qed

theorem hal_sleep_modules_wake_witness:
  "\<exists>ret ev s'. hal_sleep_proc False idle_env idle_sleep = Some (ret, ev, s') \<and> asleep ev {} = {}"
  using idle_proc hal_sleep_modules_wake by blast

theorem update_stats_percentages_witness:
  "\<exists>s'. update_stats 1000 (idle_sleep\<lparr>stats_started := True, shallow_sleep_time := 250\<rparr>) = Some s' \<and>
     hal_sleep_get_stats s' = Some (75, 25, 0)"
proof -
  have "sub32 1000 0 = 1000" by (simp add: sub32_def)
  then show ?thesis
    using update_stats_percentages [of "idle_sleep\<lparr>stats_started := True, shallow_sleep_time := 250\<rparr>" 1000]
    by (auto simp: idle_sleep_def)
qed

end
