(* ===== verification/Key.thy ===== *)
theory Key
  imports Sleep
begin

text \<open>
  \<open>platform/hal/hal_key.c\<close>: from raw key interrupts to key events. Three sources (the power
  key, keys on the ADC and keys on GPIO pins) are debounced by one timer that runs every
  \<open>KEY_CHECKER_INTERVAL\<close> while any key is in transition or down; the set of keys that are down
  then drives a click and long-press recogniser. The default build is modelled (no
  \<open>NO_PWRKEY\<close>, \<open>NO_GROUPKEY\<close> or \<open>__POWERKEY_CTRL_ONOFF_ONLY__\<close>).

  \<open>key_env\<close> is what one call reads: the time and the levels of the keys. The interrupt
  enables are state. Events sent to the application are appended to \<open>ks_log\<close>; the wake lock is
  taken in the state of the sleep module. Sets of keys and of pins are bit maps.
\<close>

unbundle bit_operations_syntax

section \<open>Constants\<close>

abbreviation (input) "HAL_KEY_EVENT_NONE \<equiv> 0 :: nat"
abbreviation (input) "HAL_KEY_EVENT_DOWN \<equiv> 1 :: nat"
abbreviation (input) "HAL_KEY_EVENT_FIRST_DOWN \<equiv> 2 :: nat"
abbreviation (input) "HAL_KEY_EVENT_CONTINUED_DOWN \<equiv> 3 :: nat"
abbreviation (input) "HAL_KEY_EVENT_UP \<equiv> 4 :: nat"
abbreviation (input) "HAL_KEY_EVENT_UP_AFTER_LONGPRESS \<equiv> 5 :: nat"
abbreviation (input) "HAL_KEY_EVENT_LONGPRESS \<equiv> 6 :: nat"
abbreviation (input) "HAL_KEY_EVENT_LONGLONGPRESS \<equiv> 7 :: nat"
abbreviation (input) "HAL_KEY_EVENT_CLICK \<equiv> 8 :: nat"
abbreviation (input) "HAL_KEY_EVENT_RAMPAGECLICK \<equiv> 12 :: nat"
abbreviation (input) "HAL_KEY_EVENT_REPEAT \<equiv> 13 :: nat"
abbreviation (input) "HAL_KEY_EVENT_INITDOWN \<equiv> 16 :: nat"
abbreviation (input) "HAL_KEY_EVENT_INITUP \<equiv> 17 :: nat"
abbreviation (input) "HAL_KEY_EVENT_INITLONGPRESS \<equiv> 18 :: nat"
abbreviation (input) "HAL_KEY_EVENT_INITLONGLONGPRESS \<equiv> 19 :: nat"
abbreviation (input) "HAL_KEY_EVENT_INITFINISHED \<equiv> 20 :: nat"

abbreviation (input) "HAL_KEY_CODE_NONE \<equiv> 0 :: u32"
abbreviation (input) "HAL_KEY_CODE_PWR \<equiv> 1 :: u32"

abbreviation (input) "HAL_SYS_WAKE_LOCK_USER_KEY \<equiv> 2 :: nat"

definition KEY_CHECKER_INTERVAL :: nat where "KEY_CHECKER_INTERVAL = ms_to_ticks 40"
definition KEY_DEBOUNCE_INTERVAL :: nat where "KEY_DEBOUNCE_INTERVAL = KEY_CHECKER_INTERVAL * 2"
definition KEY_DITHER_INTERVAL :: nat where "KEY_DITHER_INTERVAL = KEY_CHECKER_INTERVAL * 1"
definition KEY_LONGLONGPRESS_THRESHOLD :: nat where "KEY_LONGLONGPRESS_THRESHOLD = ms_to_ticks 5000"
definition KEY_LONGPRESS_THRESHOLD :: nat where "KEY_LONGPRESS_THRESHOLD = ms_to_ticks 1500"
definition KEY_DOUBLECLICK_THRESHOLD :: nat where "KEY_DOUBLECLICK_THRESHOLD = ms_to_ticks 400"
definition KEY_LONGPRESS_REPEAT_THRESHOLD :: nat where
  "KEY_LONGPRESS_REPEAT_THRESHOLD = ms_to_ticks 500"
definition KEY_INIT_DOWN_THRESHOLD :: nat where "KEY_INIT_DOWN_THRESHOLD = ms_to_ticks 200"
definition KEY_INIT_LONGPRESS_THRESHOLD :: nat where "KEY_INIT_LONGPRESS_THRESHOLD = ms_to_ticks 3000"
definition KEY_INIT_LONGLONGPRESS_THRESHOLD :: nat where
  "KEY_INIT_LONGLONGPRESS_THRESHOLD = ms_to_ticks 10000"
definition MAX_KEY_CLICK_COUNT :: nat where
  "MAX_KEY_CLICK_COUNT = HAL_KEY_EVENT_RAMPAGECLICK - HAL_KEY_EVENT_CLICK"

section \<open>State\<close>

record pwr_key =
  pk_debounce :: bool
  pk_dither :: bool
  pk_pressed :: bool
  pk_time :: nat

record adc_key =
  ak_debounce :: bool
  ak_dither :: bool
  ak_code_debounce :: u32
  ak_code_down :: u32
  ak_time :: nat

record gpio_key =
  gk_pin_debounce :: u32
  gk_pin_dither :: u32
  gk_pin_down :: u32
  gk_time_debounce :: nat
  gk_time_dither :: nat

record key_status =
  st_code_down :: u32
  st_code_ready :: u32
  st_code_click :: u32
  st_event :: nat
  st_time_updown :: nat
  st_time_click :: nat
  st_cnt_repeat :: nat
  st_cnt_click :: nat

datatype adckey_irq = HAL_ADCKEY_IRQ_NONE | HAL_ADCKEY_IRQ_PRESSED | HAL_ADCKEY_IRQ_RELEASED

datatype key_timer = Debounce_handler | Boot_handler

record key_state =
  ks_pwr :: pwr_key
  ks_adc :: adc_key
  ks_gpio :: gpio_key
  ks_status :: key_status
  ks_callback :: bool
  ks_timer :: "key_timer option"
  ks_timer_active :: bool
  ks_sleep :: sleep_state
  ks_pwr_irq :: bool
  ks_adc_irq :: adckey_irq
  ks_adc_channel :: bool
  ks_gpio_irq :: u32
  ks_volt_table :: "nat list"
  ks_log :: "(u32 \<times> nat) list"

record key_env =
  ke_time :: nat
  ke_pwr_pressed :: bool
  ke_pin_val :: "nat \<Rightarrow> nat"

text \<open>The board's tables: GPIO keys and ADC keys; an empty ADC table is \<open>CFG_HW_ADCKEY_NUMBER = 0\<close>.\<close>

record gpiokey_cfg =
  gc_code :: u32
  gc_pin :: nat
  gc_down :: nat

record key_cfg =
  kc_gpio :: "gpiokey_cfg list"
  kc_adc :: "u32 list"
  kc_adc_minvolt :: nat
  kc_adc_maxvolt :: nat
  kc_adc_basevolt :: nat

definition reset_pwr :: pwr_key where
  "reset_pwr = \<lparr>pk_debounce = False, pk_dither = False, pk_pressed = False, pk_time = 0\<rparr>"

definition reset_adc :: adc_key where
  "reset_adc = \<lparr>ak_debounce = False, ak_dither = False, ak_code_debounce = 0, ak_code_down = 0,
     ak_time = 0\<rparr>"

definition reset_gpio :: gpio_key where
  "reset_gpio = \<lparr>gk_pin_debounce = 0, gk_pin_dither = 0, gk_pin_down = 0, gk_time_debounce = 0,
     gk_time_dither = 0\<rparr>"

definition reset_status :: key_status where
  "reset_status = \<lparr>st_code_down = 0, st_code_ready = 0, st_code_click = 0, st_event = 0,
     st_time_updown = 0, st_time_click = 0, st_cnt_repeat = 0, st_cnt_click = 0\<rparr>"

section \<open>Events and the timer\<close>

definition send_key_event :: "u32 \<Rightarrow> nat \<Rightarrow> key_state \<Rightarrow> key_state" where
  "send_key_event code event s = (if ks_callback s then s\<lparr>ks_log := ks_log s @ [(code, event)]\<rparr> else s)"

definition hal_key_debounce_timer_restart :: "key_state \<Rightarrow> key_state" where
  "hal_key_debounce_timer_restart s =
     (if \<not> ks_timer_active s
      then s\<lparr>ks_timer_active := True,
             ks_sleep := snd (hal_sys_wake_lock HAL_SYS_WAKE_LOCK_USER_KEY (ks_sleep s))\<rparr>
      else s)"

text \<open>The loops over bit maps visit the set bits from the lowest on.\<close>

definition set_bits :: "u32 \<Rightarrow> nat list" where
  "set_bits m = filter (bit m) [0..<32]"

section \<open>Power key\<close>

definition hal_pwrkey_enable_int :: "key_state \<Rightarrow> key_state" where
  "hal_pwrkey_enable_int s = s\<lparr>ks_pwr_irq := True\<rparr>"

definition hal_pwrkey_disable_int :: "key_state \<Rightarrow> key_state" where
  "hal_pwrkey_disable_int s = s\<lparr>ks_pwr_irq := False\<rparr>"

definition hal_pwrkey_handle_irq_state :: "key_env \<Rightarrow> bool \<Rightarrow> key_state \<Rightarrow> key_state" where
  "hal_pwrkey_handle_irq_state e falling s =
     (let s = hal_pwrkey_disable_int s;
          s = (if falling then
                 let p = (ks_pwr s)\<lparr>pk_pressed := ke_pwr_pressed e\<rparr>;
                     p = (if pk_pressed p then p\<lparr>pk_debounce := True\<rparr> else p\<lparr>pk_dither := True\<rparr>)
                 in s\<lparr>ks_pwr := p\<lparr>pk_time := ke_time e\<rparr>\<rparr>
               else s)
      in hal_key_debounce_timer_restart s)"

definition pwrkey_active :: "pwr_key \<Rightarrow> bool" where
  "pwrkey_active p \<longleftrightarrow> pk_debounce p \<or> pk_dither p \<or> pk_pressed p"

text \<open>The power-key part of the debounce handler; the code bits found down are the first result.\<close>

definition pwrkey_debounce :: "key_env \<Rightarrow> key_state \<Rightarrow> u32 \<times> key_state" where
  "pwrkey_debounce e s =
     (let p = ks_pwr s; pressed = ke_pwr_pressed e; time = ke_time e in
      if pwrkey_active p then
        if pk_debounce p then
          let p = p\<lparr>pk_pressed := pressed\<rparr> in
          if pressed then
            let p = p\<lparr>pk_dither := False\<rparr> in
            if sub32 time (pk_time p) \<ge> KEY_DEBOUNCE_INTERVAL
            then (HAL_KEY_CODE_PWR, s\<lparr>ks_pwr := p\<lparr>pk_debounce := False, pk_dither := False\<rparr>\<rparr>)
            else (0, s\<lparr>ks_pwr := p\<rparr>)
          else (0, s\<lparr>ks_pwr := p\<lparr>pk_debounce := False, pk_dither := True, pk_time := time\<rparr>\<rparr>)
        else if pk_dither p then
          if sub32 time (pk_time p) \<ge> KEY_DITHER_INTERVAL
          then (0, hal_pwrkey_enable_int (s\<lparr>ks_pwr := p\<lparr>pk_dither := False, pk_pressed := False\<rparr>\<rparr>))
          else (0, s)
        else if pressed then (HAL_KEY_CODE_PWR, s)
        else (0, hal_pwrkey_enable_int (s\<lparr>ks_pwr := p\<lparr>pk_pressed := False\<rparr>\<rparr>))
      else (0, s))"

definition hal_pwrkey_open :: "key_state \<Rightarrow> key_state" where
  "hal_pwrkey_open s = s\<lparr>ks_pwr := reset_pwr\<rparr>"

definition hal_pwrkey_close :: "key_state \<Rightarrow> key_state" where
  "hal_pwrkey_close s = hal_pwrkey_disable_int (s\<lparr>ks_pwr := reset_pwr\<rparr>)"

section \<open>ADC keys\<close>

definition hal_adckey_enable_press_int :: "key_state \<Rightarrow> key_state" where
  "hal_adckey_enable_press_int s = s\<lparr>ks_adc_irq := HAL_ADCKEY_IRQ_PRESSED\<rparr>"

definition hal_adckey_enable_adc_int :: "key_state \<Rightarrow> key_state" where
  "hal_adckey_enable_adc_int s = s\<lparr>ks_adc_channel := True\<rparr>"

definition hal_adckey_disable_allint :: "key_state \<Rightarrow> key_state" where
  "hal_adckey_disable_allint s = s\<lparr>ks_adc_channel := False, ks_adc_irq := HAL_ADCKEY_IRQ_NONE\<rparr>"

fun adckey_search :: "nat \<Rightarrow> (nat \<times> u32) list \<Rightarrow> u32" where
  "adckey_search volt [] = HAL_KEY_CODE_NONE"
| "adckey_search volt ((v, code) # ts) = (if volt \<le> v then code else adckey_search volt ts)"

definition hal_adckey_findkey :: "key_cfg \<Rightarrow> key_state \<Rightarrow> nat \<Rightarrow> u32" where
  "hal_adckey_findkey c s volt =
     (if kc_adc_basevolt c < volt \<and> volt < kc_adc_maxvolt c
      then adckey_search volt (zip (ks_volt_table s) (kc_adc c)) else HAL_KEY_CODE_NONE)"

definition hal_adckey_irqhandler ::
  "key_cfg \<Rightarrow> key_env \<Rightarrow> u32 \<Rightarrow> nat \<Rightarrow> key_state \<Rightarrow> key_state" where
  "hal_adckey_irqhandler c e read_val vol s =
     (let s = hal_adckey_disable_allint s; a = ks_adc s in
      if bit read_val 11 \<or> bit read_val 12 then
        hal_key_debounce_timer_restart (s\<lparr>ks_adc := a\<lparr>ak_debounce := True, ak_code_debounce := 0\<rparr>\<rparr>)
      else if bit read_val 10 then
        hal_adckey_enable_adc_int
          (s\<lparr>ks_adc := a\<lparr>ak_debounce := True, ak_code_debounce := 0, ak_time := ke_time e\<rparr>\<rparr>)
      else if bit read_val 9 then
        hal_key_debounce_timer_restart (s\<lparr>ks_adc := a\<lparr>ak_code_debounce := 0\<rparr>\<rparr>)
      else if bit read_val 7 then
        let code = hal_adckey_findkey c s vol;
            a = (if ak_code_debounce a = HAL_KEY_CODE_NONE then a\<lparr>ak_code_debounce := code\<rparr>
                 else if ak_code_debounce a \<noteq> code then a\<lparr>ak_code_debounce := HAL_KEY_CODE_NONE\<rparr>
                 else a)
        in hal_key_debounce_timer_restart (s\<lparr>ks_adc := a\<rparr>)
      else hal_key_debounce_timer_restart s)"

definition adckey_active :: "adc_key \<Rightarrow> bool" where
  "adckey_active a \<longleftrightarrow> ak_debounce a \<or> ak_dither a \<or> ak_code_down a \<noteq> HAL_KEY_CODE_NONE"

definition adckey_debounce :: "key_env \<Rightarrow> key_state \<Rightarrow> u32 \<times> key_state" where
  "adckey_debounce e s =
     (let a = ks_adc s; time = ke_time e in
      if adckey_active a then
        if ak_debounce a then
          if ak_code_debounce a = HAL_KEY_CODE_NONE
          then (0, hal_adckey_enable_adc_int
                 (s\<lparr>ks_adc := a\<lparr>ak_debounce := False, ak_dither := True, ak_time := time\<rparr>\<rparr>))
          else if sub32 time (ak_time a) \<ge> KEY_DEBOUNCE_INTERVAL
          then (ak_code_debounce a, hal_adckey_enable_adc_int
                 (s\<lparr>ks_adc := a\<lparr>ak_debounce := False, ak_dither := False,
                   ak_code_down := ak_code_debounce a, ak_code_debounce := HAL_KEY_CODE_NONE\<rparr>\<rparr>))
          else (0, hal_adckey_enable_adc_int s)
        else if ak_dither a then
          if sub32 time (ak_time a) \<ge> KEY_DITHER_INTERVAL
          then (0, hal_adckey_enable_press_int
                 (s\<lparr>ks_adc := a\<lparr>ak_dither := False, ak_code_debounce := HAL_KEY_CODE_NONE,
                   ak_code_down := HAL_KEY_CODE_NONE\<rparr>\<rparr>))
          else (0, s)
        else if ak_code_debounce a = ak_code_down a
        then (ak_code_down a, hal_adckey_enable_adc_int s)
        else (0, hal_adckey_enable_press_int (s\<lparr>ks_adc := a\<lparr>ak_code_down := HAL_KEY_CODE_NONE\<rparr>\<rparr>))
      else (0, s))"

fun adckey_table_loop :: "nat \<Rightarrow> nat \<Rightarrow> nat \<Rightarrow> nat list" where
  "adckey_table_loop 0 v basevolt = []"
| "adckey_table_loop (Suc n) v basevolt = v # adckey_table_loop n ((v + basevolt) mod 65536) basevolt"

definition hal_adckey_open :: "key_cfg \<Rightarrow> key_state \<Rightarrow> key_state" where
  "hal_adckey_open c s =
     (let n = length (kc_adc c);
          basevolt = (kc_adc_maxvolt c - kc_adc_minvolt c) div (n + 2)
      in s\<lparr>ks_adc := reset_adc,
           ks_volt_table := (adckey_table_loop n ((kc_adc_basevolt c + basevolt) mod 65536) basevolt)
             [n - 1 := kc_adc_maxvolt c]\<rparr>)"

definition hal_adckey_close :: "key_state \<Rightarrow> key_state" where
  "hal_adckey_close s = hal_adckey_disable_allint (s\<lparr>ks_adc := reset_adc\<rparr>)"


section \<open>GPIO keys\<close>

fun find_pin :: "gpiokey_cfg list \<Rightarrow> nat \<Rightarrow> gpiokey_cfg option" where
  "find_pin [] pin = None"
| "find_pin (g # gs) pin = (if gc_pin g = pin then Some g else find_pin gs pin)"

text \<open>\<open>hal_gpiokey_find_index\<close> stops the program for a pin that is not configured.\<close>

definition hal_gpiokey_find_index :: "key_cfg \<Rightarrow> nat \<Rightarrow> gpiokey_cfg option" where
  "hal_gpiokey_find_index c pin = find_pin (kc_gpio c) pin"

definition hal_gpiokey_pressed :: "key_cfg \<Rightarrow> key_env \<Rightarrow> nat \<Rightarrow> bool option" where
  "hal_gpiokey_pressed c e pin =
     do { g \<leftarrow> hal_gpiokey_find_index c pin; Some (ke_pin_val e pin = gc_down g) }"

definition hal_gpiokey_enable_irq :: "nat \<Rightarrow> key_state \<Rightarrow> key_state" where
  "hal_gpiokey_enable_irq pin s = s\<lparr>ks_gpio_irq := ks_gpio_irq s OR 2 ^ pin\<rparr>"

definition hal_gpiokey_disable_irq :: "nat \<Rightarrow> key_state \<Rightarrow> key_state" where
  "hal_gpiokey_disable_irq pin s = s\<lparr>ks_gpio_irq := ks_gpio_irq s AND NOT (2 ^ pin)\<rparr>"

definition hal_gpiokey_irqhandler :: "key_cfg \<Rightarrow> key_env \<Rightarrow> nat \<Rightarrow> key_state \<Rightarrow> key_state option" where
  "hal_gpiokey_irqhandler c e pin s = do {
     let s = hal_gpiokey_disable_irq pin s;
     pressed \<leftarrow> hal_gpiokey_pressed c e pin;
     let g = ks_gpio s;
     let g = (if pressed
              then g\<lparr>gk_pin_debounce := gk_pin_debounce g OR 2 ^ pin, gk_time_debounce := ke_time e\<rparr>
              else g\<lparr>gk_pin_dither := gk_pin_dither g OR 2 ^ pin, gk_time_dither := ke_time e\<rparr>);
     Some (hal_key_debounce_timer_restart (s\<lparr>ks_gpio := g\<rparr>)) }"

definition hal_gpiokey_enable_allint :: "key_cfg \<Rightarrow> key_state \<Rightarrow> key_state" where
  "hal_gpiokey_enable_allint c s =
     fold (\<lambda>g s. if gc_code g = HAL_KEY_CODE_NONE then s else hal_gpiokey_enable_irq (gc_pin g) s)
       (kc_gpio c) s"

definition hal_gpiokey_disable_allint :: "key_cfg \<Rightarrow> key_state \<Rightarrow> key_state" where
  "hal_gpiokey_disable_allint c s =
     fold (\<lambda>g s. if gc_code g = HAL_KEY_CODE_NONE then s else hal_gpiokey_disable_irq (gc_pin g) s)
       (kc_gpio c) s"

definition hal_gpiokey_open :: "key_state \<Rightarrow> key_state" where
  "hal_gpiokey_open s = s\<lparr>ks_gpio := reset_gpio\<rparr>"

definition hal_gpiokey_close :: "key_cfg \<Rightarrow> key_state \<Rightarrow> key_state" where
  "hal_gpiokey_close c s = hal_gpiokey_disable_allint c (s\<lparr>ks_gpio := reset_gpio\<rparr>)"

text \<open>The three loops of the debounce handler over the pin maps, one pin each.\<close>

fun gpio_dither_pins :: "key_cfg \<Rightarrow> nat list \<Rightarrow> key_state \<Rightarrow> key_state option" where
  "gpio_dither_pins c [] s = Some s"
| "gpio_dither_pins c (p # ps) s = do {
     _ \<leftarrow> hal_gpiokey_find_index c p;
     gpio_dither_pins c ps (hal_gpiokey_enable_irq p s) }"

fun gpio_down_pins ::
  "key_cfg \<Rightarrow> key_env \<Rightarrow> nat list \<Rightarrow> u32 \<times> key_state \<Rightarrow> (u32 \<times> key_state) option" where
  "gpio_down_pins c e [] (code, s) = Some (code, s)"
| "gpio_down_pins c e (p # ps) (code, s) = do {
     g \<leftarrow> hal_gpiokey_find_index c p;
     gpio_down_pins c e ps
       (if ke_pin_val e p = gc_down g then (code OR gc_code g, s)
        else (code, hal_gpiokey_enable_irq p
          (s\<lparr>ks_gpio := (ks_gpio s)\<lparr>gk_pin_down := gk_pin_down (ks_gpio s) AND NOT (2 ^ p)\<rparr>\<rparr>))) }"

fun gpio_debounce_pins ::
  "key_cfg \<Rightarrow> key_env \<Rightarrow> nat list \<Rightarrow> u32 \<times> u32 \<times> u32 \<times> u32 \<Rightarrow> gpio_key \<Rightarrow>
   (u32 \<times> u32 \<times> u32 \<times> u32) option" where
  "gpio_debounce_pins c e [] acc g0 = Some acc"
| "gpio_debounce_pins c e (p # ps) (code, down_added, dither_added, pin_down) g0 = do {
     g \<leftarrow> hal_gpiokey_find_index c p;
     gpio_debounce_pins c e ps
       (if ke_pin_val e p = gc_down g then
          if sub32 (ke_time e) (gk_time_debounce g0) \<ge> KEY_DEBOUNCE_INTERVAL
          then (code OR gc_code g, down_added OR 2 ^ p, dither_added, pin_down OR 2 ^ p)
          else (code, down_added, dither_added, pin_down)
        else (code, down_added, dither_added OR 2 ^ p, pin_down)) g0 }"

definition gpiokey_active :: "gpio_key \<Rightarrow> bool" where
  "gpiokey_active g \<longleftrightarrow> gk_pin_dither g \<noteq> 0 \<or> gk_pin_down g \<noteq> 0 \<or> gk_pin_debounce g \<noteq> 0"

definition gpiokey_debounce :: "key_cfg \<Rightarrow> key_env \<Rightarrow> key_state \<Rightarrow> (u32 \<times> key_state) option" where
  "gpiokey_debounce c e s =
     (if gk_pin_debounce (ks_gpio s) AND gk_pin_dither (ks_gpio s) \<noteq> 0 then None else do {
        s \<leftarrow> (if gk_pin_dither (ks_gpio s) \<noteq> 0 \<and>
                 sub32 (ke_time e) (gk_time_dither (ks_gpio s)) \<ge> KEY_DITHER_INTERVAL
              then let pin = gk_pin_dither (ks_gpio s);
                       g = (ks_gpio s)\<lparr>gk_pin_dither := gk_pin_dither (ks_gpio s) AND NOT pin\<rparr>
                   in gpio_dither_pins c (set_bits pin) (s\<lparr>ks_gpio := g\<rparr>)
              else Some s);
        (code, s) \<leftarrow> gpio_down_pins c e (set_bits (gk_pin_down (ks_gpio s))) (0, s);
        let g0 = ks_gpio s;
        (code, down_added, dither_added, pin_down) \<leftarrow>
          gpio_debounce_pins c e (set_bits (gk_pin_debounce g0)) (code, 0, 0, gk_pin_down g0) g0;
        let g = g0\<lparr>gk_pin_down := pin_down,
                   gk_pin_debounce := gk_pin_debounce g0 AND NOT (down_added OR dither_added),
                   gk_pin_dither := gk_pin_dither g0 OR dither_added\<rparr>;
        Some (code, s\<lparr>ks_gpio := g\<rparr>) })"

section \<open>Recognising events\<close>

definition long_event :: "nat \<Rightarrow> bool" where
  "long_event ev \<longleftrightarrow> ev = HAL_KEY_EVENT_LONGPRESS \<or> ev = HAL_KEY_EVENT_LONGLONGPRESS"

fun up_keys :: "nat \<Rightarrow> nat list \<Rightarrow> key_state \<Rightarrow> key_state" where
  "up_keys time [] s = s"
| "up_keys time (k # ks) s =
     (let s = send_key_event (2 ^ k) HAL_KEY_EVENT_UP s;
          s = (if long_event (st_event (ks_status s))
               then send_key_event (2 ^ k) HAL_KEY_EVENT_UP_AFTER_LONGPRESS s else s)
      in up_keys time ks (s\<lparr>ks_status := (ks_status s)\<lparr>st_time_updown := time\<rparr>\<rparr>))"

definition up_event :: "u32 \<Rightarrow> u32 \<Rightarrow> key_status \<Rightarrow> key_status" where
  "up_event code_down up_new k =
     (if up_new \<noteq> 0 then
        if long_event (st_event k) then
          (if code_down AND st_code_ready k = 0 then k\<lparr>st_event := HAL_KEY_EVENT_NONE\<rparr> else k)
        else if st_event k = HAL_KEY_EVENT_DOWN then k\<lparr>st_event := HAL_KEY_EVENT_UP\<rparr>
        else k
      else k)"

definition click_count :: "nat \<Rightarrow> u32 \<Rightarrow> key_state \<Rightarrow> key_state" where
  "click_count time up_new s =
     (let k = ks_status s in
      if st_code_click k = HAL_KEY_CODE_NONE \<or> st_code_click k \<noteq> st_code_ready k then
        (if st_code_click k \<noteq> HAL_KEY_CODE_NONE
         then send_key_event (st_code_click k) (HAL_KEY_EVENT_CLICK + st_cnt_click k) s
         else s)\<lparr>ks_status := k\<lparr>st_code_click := st_code_ready k, st_cnt_click := 0,
                               st_time_click := time\<rparr>\<rparr>
      else if up_new \<noteq> 0 \<and> up_new OR st_code_down k = st_code_click k
      then s\<lparr>ks_status := k\<lparr>st_cnt_click := (st_cnt_click k + 1) mod 256, st_time_click := time\<rparr>\<rparr>
      else s)"

definition click_flush :: "nat \<Rightarrow> key_state \<Rightarrow> key_state" where
  "click_flush time s =
     (let k = ks_status s in
      if sub32 time (st_time_click k) \<ge> KEY_DOUBLECLICK_THRESHOLD \<or>
         st_cnt_click k \<ge> MAX_KEY_CLICK_COUNT
      then (send_key_event (st_code_click k) (HAL_KEY_EVENT_CLICK + st_cnt_click k) s)
             \<lparr>ks_status := k\<lparr>st_code_click := HAL_KEY_CODE_NONE, st_cnt_click := 0,
                            st_event := HAL_KEY_EVENT_NONE\<rparr>\<rparr>
      else s)"

definition click_check :: "nat \<Rightarrow> u32 \<Rightarrow> key_state \<Rightarrow> key_state" where
  "click_check time up_new s =
     (if st_event (ks_status s) = HAL_KEY_EVENT_UP
      then click_flush time (click_count time up_new s) else s)"

fun down_keys :: "nat \<Rightarrow> u32 \<Rightarrow> nat list \<Rightarrow> key_state \<Rightarrow> key_state" where
  "down_keys time code_down [] s = s"
| "down_keys time code_down (b # bs) s =
     (let s = send_key_event (2 ^ b) HAL_KEY_EVENT_DOWN s;
          s = (if st_event (ks_status s) = HAL_KEY_EVENT_NONE
               then send_key_event (2 ^ b) HAL_KEY_EVENT_FIRST_DOWN s
               else send_key_event (2 ^ b) HAL_KEY_EVENT_CONTINUED_DOWN s);
          k = ks_status s;
          k = (if st_event k = HAL_KEY_EVENT_NONE \<or> st_event k = HAL_KEY_EVENT_DOWN \<or>
                  st_event k = HAL_KEY_EVENT_UP
               then k\<lparr>st_code_ready := code_down\<rparr> else k)
      in down_keys time code_down bs (s\<lparr>ks_status := k\<lparr>st_time_updown := time\<rparr>\<rparr>))"

definition down_event :: "u32 \<Rightarrow> key_status \<Rightarrow> key_status" where
  "down_event down_new k =
     (if down_new \<noteq> 0 \<and> (st_event k = HAL_KEY_EVENT_NONE \<or> st_event k = HAL_KEY_EVENT_UP)
      then k\<lparr>st_event := HAL_KEY_EVENT_DOWN\<rparr> else k)"

definition long_check :: "nat \<Rightarrow> u32 \<Rightarrow> key_state \<Rightarrow> key_state" where
  "long_check time code_down s =
     (let k = ks_status s in
      if code_down AND st_code_ready k = st_code_ready k then
        if st_event k = HAL_KEY_EVENT_DOWN then
          if sub32 time (st_time_updown k) \<ge> KEY_LONGPRESS_THRESHOLD
          then send_key_event (st_code_ready k) HAL_KEY_EVENT_LONGPRESS
                 (s\<lparr>ks_status := k\<lparr>st_cnt_repeat := 0, st_event := HAL_KEY_EVENT_LONGPRESS\<rparr>\<rparr>)
          else s
        else if long_event (st_event k) then
          let k = k\<lparr>st_cnt_repeat := (st_cnt_repeat k + 1) mod 256\<rparr>;
              s = s\<lparr>ks_status := k\<rparr>;
              s = (if st_cnt_repeat k = KEY_LONGPRESS_REPEAT_THRESHOLD div KEY_CHECKER_INTERVAL
                   then send_key_event (st_code_ready k) HAL_KEY_EVENT_REPEAT
                          (s\<lparr>ks_status := k\<lparr>st_cnt_repeat := 0\<rparr>\<rparr>)
                   else s);
              k = ks_status s in
          if st_event k = HAL_KEY_EVENT_LONGPRESS \<and>
             sub32 time (st_time_updown k) \<ge> KEY_LONGLONGPRESS_THRESHOLD
          then send_key_event (st_code_ready k) HAL_KEY_EVENT_LONGLONGPRESS
                 (s\<lparr>ks_status := k\<lparr>st_event := HAL_KEY_EVENT_LONGLONGPRESS\<rparr>\<rparr>)
          else s
        else s
      else s)"

definition key_classify :: "nat \<Rightarrow> u32 \<Rightarrow> key_state \<Rightarrow> key_state" where
  "key_classify time code_down s =
     (let down_new = code_down AND NOT (st_code_down (ks_status s));
          up_new = NOT code_down AND st_code_down (ks_status s);
          s = up_keys time (set_bits up_new) s;
          s = s\<lparr>ks_status := up_event code_down up_new (ks_status s)\<rparr>;
          s = click_check time up_new s;
          s = s\<lparr>ks_status := (ks_status s)\<lparr>st_code_down := code_down\<rparr>\<rparr>;
          s = down_keys time code_down (set_bits down_new) s;
          s = s\<lparr>ks_status := down_event down_new (ks_status s)\<rparr>
      in long_check time code_down s)"

section \<open>The timer handlers\<close>

definition hal_key_disable_allint :: "key_cfg \<Rightarrow> key_state \<Rightarrow> key_state" where
  "hal_key_disable_allint c s =
     (let s = hal_pwrkey_disable_int s;
          s = (if kc_adc c \<noteq> [] then hal_adckey_disable_allint s else s)
      in hal_gpiokey_disable_allint c s)"

definition hal_key_enable_allint :: "key_cfg \<Rightarrow> key_state \<Rightarrow> key_state" where
  "hal_key_enable_allint c s =
     (let s = hal_pwrkey_enable_int s;
          s = (if kc_adc c \<noteq> [] then hal_adckey_enable_press_int s else s)
      in hal_gpiokey_enable_allint c s)"

definition hal_key_debounce_handler :: "key_cfg \<Rightarrow> key_env \<Rightarrow> key_state \<Rightarrow> key_state option" where
  "hal_key_debounce_handler c e s = do {
     let s = s\<lparr>ks_timer_active := False\<rparr>;
     let (code1, s) = pwrkey_debounce e s;
     let need1 = pwrkey_active (ks_pwr s);
     let (code2, s) = (if kc_adc c \<noteq> [] then adckey_debounce e s else (0, s));
     let need2 = kc_adc c \<noteq> [] \<and> adckey_active (ks_adc s);
     (code3, s) \<leftarrow> gpiokey_debounce c e s;
     let need3 = gpiokey_active (ks_gpio s);
     let s = key_classify (ke_time e) (code1 OR code2 OR code3) s;
     let need4 = (st_event (ks_status s) \<noteq> HAL_KEY_EVENT_NONE);
     Some (if need1 \<or> need2 \<or> need3 \<or> need4 then hal_key_debounce_timer_restart s
           else s\<lparr>ks_sleep := snd (hal_sys_wake_unlock HAL_SYS_WAKE_LOCK_USER_KEY (ks_sleep s))\<rparr>) }"

text \<open>At boot only the power key counts: first how long it has been held since power-up.\<close>

definition boot_pwrkey :: "key_env \<Rightarrow> key_state \<Rightarrow> key_state" where
  "boot_pwrkey e s =
     (let p = ks_pwr s; pressed = ke_pwr_pressed e; time = ke_time e in
      if pwrkey_active p then
        if pk_debounce p then
          let p = p\<lparr>pk_pressed := pressed\<rparr> in
          if pressed then
            let p = p\<lparr>pk_dither := False\<rparr> in
            if sub32 time (pk_time p) \<ge> KEY_DEBOUNCE_INTERVAL
            then s\<lparr>ks_pwr := p\<lparr>pk_debounce := False\<rparr>,
                   ks_status := (ks_status s)\<lparr>st_time_updown := time\<rparr>\<rparr>
            else s\<lparr>ks_pwr := p\<rparr>
          else s\<lparr>ks_pwr := p\<lparr>pk_debounce := False, pk_dither := True, pk_time := time\<rparr>\<rparr>
        else if pk_dither p then
          if sub32 time (pk_time p) \<ge> KEY_DITHER_INTERVAL
          then s\<lparr>ks_pwr := p\<lparr>pk_dither := False, pk_pressed := False\<rparr>\<rparr> else s
        else if \<not> pressed then s\<lparr>ks_pwr := p\<lparr>pk_pressed := False\<rparr>\<rparr>
        else s
      else s)"

definition boot_event :: "nat \<Rightarrow> key_state \<Rightarrow> key_state" where
  "boot_event time s =
     (let k = ks_status s; held = sub32 time (st_time_updown k) in
      if pk_pressed (ks_pwr s) then
        if st_event k = HAL_KEY_EVENT_NONE then
          (if held \<ge> KEY_INIT_DOWN_THRESHOLD
           then send_key_event HAL_KEY_CODE_PWR HAL_KEY_EVENT_INITDOWN
                  (s\<lparr>ks_status := k\<lparr>st_event := HAL_KEY_EVENT_INITDOWN\<rparr>\<rparr>) else s)
        else if st_event k = HAL_KEY_EVENT_INITDOWN then
          (if held \<ge> KEY_INIT_LONGPRESS_THRESHOLD
           then send_key_event HAL_KEY_CODE_PWR HAL_KEY_EVENT_INITLONGPRESS
                  (s\<lparr>ks_status := k\<lparr>st_cnt_repeat := 0, st_event := HAL_KEY_EVENT_INITLONGPRESS\<rparr>\<rparr>)
           else s)
        else if st_event k = HAL_KEY_EVENT_INITLONGPRESS then
          (if held \<ge> KEY_INIT_LONGLONGPRESS_THRESHOLD
           then send_key_event HAL_KEY_CODE_PWR HAL_KEY_EVENT_INITLONGLONGPRESS
                  (s\<lparr>ks_status := k\<lparr>st_event := HAL_KEY_EVENT_INITLONGLONGPRESS\<rparr>\<rparr>) else s)
        else s
      else s)"

definition hal_key_boot_handler :: "key_cfg \<Rightarrow> key_env \<Rightarrow> key_state \<Rightarrow> key_state" where
  "hal_key_boot_handler c e s =
     (let s = boot_pwrkey e (s\<lparr>ks_timer_active := False\<rparr>) in
      if pwrkey_active (ks_pwr s)
      then hal_key_debounce_timer_restart (boot_event (ke_time e) s)
      else let k = ks_status s;
               s = (if st_event k = HAL_KEY_EVENT_NONE \<or> st_event k = HAL_KEY_EVENT_INITDOWN
                    then send_key_event HAL_KEY_CODE_PWR HAL_KEY_EVENT_INITUP s else s);
               s = send_key_event HAL_KEY_CODE_PWR HAL_KEY_EVENT_INITFINISHED s;
               s = s\<lparr>ks_timer := Some Debounce_handler,
                     ks_sleep := snd (hal_sys_wake_unlock HAL_SYS_WAKE_LOCK_USER_KEY (ks_sleep s)),
                     ks_status := reset_status, ks_pwr := reset_pwr\<rparr>
           in hal_key_enable_allint c s)"

section \<open>Opening and closing\<close>

text \<open>
  \<open>startup\<close> lists what the start-up polls of the power key read, \<open>timer_ok\<close> says whether a
  timer can be allocated.
\<close>

definition hal_key_open ::
  "key_cfg \<Rightarrow> key_env \<Rightarrow> bool list \<Rightarrow> bool \<Rightarrow> bool \<Rightarrow> bool \<Rightarrow> key_state \<Rightarrow> (int \<times> key_state) option" where
  "hal_key_open c e startup timer_ok checkPwrKey cb s =
     (let s = s\<lparr>ks_callback := cb, ks_status := reset_status\<rparr> in
      if checkPwrKey \<and> \<not> list_all (\<lambda>i. i < length startup \<and> startup ! i) [0..<10] then Some (-1, s)
      else let s = hal_pwrkey_open s;
               s = (if kc_adc c \<noteq> [] then hal_adckey_open c s else s);
               s = hal_gpiokey_open s in
        if \<not> timer_ok then None
        else if checkPwrKey
        then Some (0, hal_pwrkey_handle_irq_state e True (s\<lparr>ks_timer := Some Boot_handler\<rparr>))
        else Some (0, hal_key_enable_allint c (s\<lparr>ks_timer := Some Debounce_handler\<rparr>)))"

definition hal_key_close :: "key_cfg \<Rightarrow> key_state \<Rightarrow> key_state" where
  "hal_key_close c s =
     (let s = hal_key_disable_allint c s;
          s = hal_pwrkey_close s;
          s = (if kc_adc c \<noteq> [] then hal_adckey_close s else s);
          s = hal_gpiokey_close c s
      in s\<lparr>ks_timer := None, ks_timer_active := False, ks_callback := False,
           ks_sleep := snd (hal_sys_wake_unlock HAL_SYS_WAKE_LOCK_USER_KEY (ks_sleep s))\<rparr>)"

definition hal_key_read_status :: "key_cfg \<Rightarrow> key_env \<Rightarrow> u32 \<Rightarrow> nat" where
  "hal_key_read_status c e code =
     (if code = HAL_KEY_CODE_PWR then
        (if ke_pwr_pressed e then HAL_KEY_EVENT_DOWN else HAL_KEY_EVENT_UP)
      else case filter (\<lambda>g. gc_code g = code) (kc_gpio c) of
        [] \<Rightarrow> HAL_KEY_EVENT_NONE
      | g # _ \<Rightarrow> if ke_pin_val e (gc_pin g) = gc_down g then HAL_KEY_EVENT_DOWN
                 else HAL_KEY_EVENT_UP)"

end
