(* ===== verification/KeyEvents.thy ===== *)
theory KeyEvents
  imports Key
begin

text \<open>
  What the recogniser of \<open>hal_key.c\<close> tells the application: per key an alternating sequence of
  down and up events, click counts within range, long presses only of keys that were held.
\<close>

unbundle bit_operations_syntax

section \<open>Bit maps\<close>

lemma set_bits_iff [simp]: "k \<in> set (set_bits m) \<longleftrightarrow> bit m k"
  using bit_imp_le_length [of m k] by (auto simp: set_bits_def)

lemma distinct_set_bits [simp]: "distinct (set_bits m)"
  by (simp add: set_bits_def)

lemma power_2_eq_iff:
  assumes "a < 32" "b < 32"
  shows "(2 ^ a :: u32) = 2 ^ b \<longleftrightarrow> a = b"
proof
  assume "(2 ^ a :: u32) = 2 ^ b"
  then have "unat (2 ^ a :: u32) = unat (2 ^ b :: u32)" by simp
  then show "a = b" using assms by (simp add: unat_2p_u32)
qed simp

section \<open>What a call adds to the log\<close>

definition emit :: "(u32 \<times> nat) list \<Rightarrow> key_state \<Rightarrow> key_state" where
  "emit l s = s\<lparr>ks_log := ks_log s @ (if ks_callback s then l else [])\<rparr>"

lemma send_emit: "send_key_event c e s = emit [(c, e)] s"
  by (simp add: send_key_event_def emit_def)

lemma emit_simps [simp]:
  "emit [] s = s" "emit l (emit m s) = emit (m @ l) s"
  "emit l (s\<lparr>ks_status := k\<rparr>) = (emit l s)\<lparr>ks_status := k\<rparr>"
  "ks_status (emit l s) = ks_status s" "ks_callback (emit l s) = ks_callback s"
  "ks_log (emit l s) = ks_log s @ (if ks_callback s then l else [])"
  by (simp_all add: emit_def)

definition up_events :: "bool \<Rightarrow> nat list \<Rightarrow> (u32 \<times> nat) list" where
  "up_events long ks = concat (map (\<lambda>k. (2 ^ k, HAL_KEY_EVENT_UP) #
     (if long then [(2 ^ k, HAL_KEY_EVENT_UP_AFTER_LONGPRESS)] else [])) ks)"

definition down_events :: "bool \<Rightarrow> nat list \<Rightarrow> (u32 \<times> nat) list" where
  "down_events first ks = concat (map (\<lambda>k. [(2 ^ k, HAL_KEY_EVENT_DOWN),
     (2 ^ k, if first then HAL_KEY_EVENT_FIRST_DOWN else HAL_KEY_EVENT_CONTINUED_DOWN)]) ks)"

lemma up_keys_eq:
  "up_keys time ks s = (emit (up_events (long_event (st_event (ks_status s))) ks) s)
     \<lparr>ks_status := (if ks = [] then ks_status s else (ks_status s)\<lparr>st_time_updown := time\<rparr>)\<rparr>"
  by (induction ks arbitrary: s) (auto simp: up_events_def send_emit Let_def)

definition keep_ready :: "nat \<Rightarrow> bool" where
  "keep_ready ev \<longleftrightarrow> \<not> (ev = HAL_KEY_EVENT_NONE \<or> ev = HAL_KEY_EVENT_DOWN \<or> ev = HAL_KEY_EVENT_UP)"

definition downs_status :: "nat \<Rightarrow> u32 \<Rightarrow> key_status \<Rightarrow> key_status" where
  "downs_status time m k = k\<lparr>st_code_ready := (if keep_ready (st_event k) then st_code_ready k else m),
     st_time_updown := time\<rparr>"

lemma downs_status_idem [simp]:
  "downs_status t m (downs_status t m k) = downs_status t m k" "st_event (downs_status t m k) = st_event k"
  by (simp_all add: downs_status_def)

lemma down_keys_Cons:
  "down_keys time m (b # bs) s = down_keys time m bs
     ((emit (down_events (st_event (ks_status s) = HAL_KEY_EVENT_NONE) [b]) s)
       \<lparr>ks_status := downs_status time m (ks_status s)\<rparr>)"
  by (simp add: send_emit Let_def down_events_def downs_status_def keep_ready_def)

lemma down_keys_eq:
  "down_keys time m ks s = (emit (down_events (st_event (ks_status s) = HAL_KEY_EVENT_NONE) ks) s)
     \<lparr>ks_status := (if ks = [] then ks_status s else downs_status time m (ks_status s))\<rparr>"
proof (induction ks arbitrary: s)
  case (Cons b bs)
  show ?case unfolding down_keys_Cons Cons.IH by (simp add: down_events_def)
qed (simp add: down_events_def)

section \<open>Invariant of the recogniser\<close>

definition st_inv :: "key_status \<Rightarrow> bool" where
  "st_inv k \<longleftrightarrow> st_cnt_click k < MAX_KEY_CLICK_COUNT \<and>
     st_event k \<in> {HAL_KEY_EVENT_NONE, HAL_KEY_EVENT_DOWN, HAL_KEY_EVENT_UP,
       HAL_KEY_EVENT_LONGPRESS, HAL_KEY_EVENT_LONGLONGPRESS}"

lemma up_event_keeps:
  "st_inv k \<Longrightarrow> st_inv (up_event m u k)" "st_code_down (up_event m u k) = st_code_down k"
  "st_code_click (up_event m u k) = st_code_click k" "st_cnt_click (up_event m u k) = st_cnt_click k"
  "st_code_ready (up_event m u k) = st_code_ready k"
  "st_time_updown (up_event m u k) = st_time_updown k"
  by (auto simp: up_event_def st_inv_def)

lemma down_event_keeps:
  "st_inv k \<Longrightarrow> st_inv (down_event d k)" "st_code_down (down_event d k) = st_code_down k"
  "st_code_ready (down_event d k) = st_code_ready k"
  "st_time_updown (down_event d k) = st_time_updown k"
  by (auto simp: down_event_def st_inv_def)

lemma downs_status_keeps:
  "st_inv k \<Longrightarrow> st_inv (downs_status t m k)" "st_code_down (downs_status t m k) = st_code_down k"
  by (auto simp: downs_status_def st_inv_def)

lemma click_count_eq:
  assumes "st_inv (ks_status s)"
  shows "\<exists>l k. click_count time u s = (emit l s)\<lparr>ks_status := k\<rparr> \<and>
    st_code_down k = st_code_down (ks_status s) \<and> st_event k = st_event (ks_status s) \<and>
    st_time_updown k = st_time_updown (ks_status s) \<and>
    st_cnt_click k \<le> MAX_KEY_CLICK_COUNT \<and>
    (\<forall>(c, ev)\<in>set l. HAL_KEY_EVENT_CLICK \<le> ev \<and> ev \<le> HAL_KEY_EVENT_RAMPAGECLICK)"
proof -
  let ?k = "ks_status s"
  have c: "st_cnt_click ?k < 4" using assms by (simp add: st_inv_def MAX_KEY_CLICK_COUNT_def)
  consider (fresh) "st_code_click ?k = 0 \<or> st_code_click ?k \<noteq> st_code_ready ?k"
    | (more) "\<not> (st_code_click ?k = 0 \<or> st_code_click ?k \<noteq> st_code_ready ?k)"
      "u \<noteq> 0 \<and> u OR st_code_down ?k = st_code_click ?k"
    | (same) "\<not> (st_code_click ?k = 0 \<or> st_code_click ?k \<noteq> st_code_ready ?k)"
      "\<not> (u \<noteq> 0 \<and> u OR st_code_down ?k = st_code_click ?k)" by blast
  then show ?thesis
  proof cases
    case fresh
    then have "click_count time u s = (emit (if st_code_click ?k \<noteq> 0
        then [(st_code_click ?k, HAL_KEY_EVENT_CLICK + st_cnt_click ?k)] else []) s)
      \<lparr>ks_status := ?k\<lparr>st_code_click := st_code_ready ?k, st_cnt_click := 0, st_time_click := time\<rparr>\<rparr>"
      unfolding click_count_def Let_def by (simp only: if_True send_emit) (simp split: if_splits)
    then show ?thesis using c by (intro exI conjI) (assumption, auto)
  next
    case more
    then have "click_count time u s = (emit [] s)
      \<lparr>ks_status := ?k\<lparr>st_cnt_click := (st_cnt_click ?k + 1) mod 256, st_time_click := time\<rparr>\<rparr>"
      unfolding click_count_def Let_def by (simp only: if_True if_False emit_simps) simp
    then show ?thesis using c by (intro exI conjI) (assumption, auto simp: MAX_KEY_CLICK_COUNT_def)
  next
    case same
    then have "click_count time u s = (emit [] s)\<lparr>ks_status := ?k\<rparr>"
      unfolding click_count_def Let_def by (simp only: if_False emit_simps) simp
    then show ?thesis using c by (intro exI conjI) (assumption, auto simp: MAX_KEY_CLICK_COUNT_def)
  qed
qed

lemma click_flush_eq:
  assumes "st_cnt_click (ks_status s) \<le> MAX_KEY_CLICK_COUNT" "st_event (ks_status s) = HAL_KEY_EVENT_UP"
  shows "\<exists>l k. click_flush time s = (emit l s)\<lparr>ks_status := k\<rparr> \<and> st_inv k \<and>
    st_code_down k = st_code_down (ks_status s) \<and>
    st_time_updown k = st_time_updown (ks_status s) \<and>
    (\<forall>(c, ev)\<in>set l. HAL_KEY_EVENT_CLICK \<le> ev \<and> ev \<le> HAL_KEY_EVENT_RAMPAGECLICK)"
proof (cases "sub32 time (st_time_click (ks_status s)) \<ge> KEY_DOUBLECLICK_THRESHOLD \<or>
    st_cnt_click (ks_status s) \<ge> MAX_KEY_CLICK_COUNT")
  case True
  then have "click_flush time s = (emit [(st_code_click (ks_status s),
      HAL_KEY_EVENT_CLICK + st_cnt_click (ks_status s))] s)\<lparr>ks_status := (ks_status s)
        \<lparr>st_code_click := 0, st_cnt_click := 0, st_event := 0\<rparr>\<rparr>"
    unfolding click_flush_def Let_def by (simp only: if_True send_emit)
  then show ?thesis using assms by (intro exI conjI) (assumption, auto simp: st_inv_def MAX_KEY_CLICK_COUNT_def)
next
  case False
  then have "click_flush time s = (emit [] s)\<lparr>ks_status := ks_status s\<rparr>"
    unfolding click_flush_def Let_def by (simp only: if_False emit_simps) simp
  then show ?thesis using assms False by (intro exI conjI) (assumption, auto simp: st_inv_def)
qed

lemma click_check_eq:
  assumes "st_inv (ks_status s)"
  shows "\<exists>l k. click_check time u s = (emit l s)\<lparr>ks_status := k\<rparr> \<and> st_inv k \<and>
    st_code_down k = st_code_down (ks_status s) \<and>
    st_time_updown k = st_time_updown (ks_status s) \<and>
    (\<forall>(c, ev)\<in>set l. HAL_KEY_EVENT_CLICK \<le> ev \<and> ev \<le> HAL_KEY_EVENT_RAMPAGECLICK)"
proof (cases "st_event (ks_status s) = HAL_KEY_EVENT_UP")
  case False
  then have "click_check time u s = (emit [] s)\<lparr>ks_status := ks_status s\<rparr>"
    by (simp add: click_check_def)
  then show ?thesis using assms by (metis empty_iff list.set(1))
next
  case True
  obtain l1 k1 where 1: "click_count time u s = (emit l1 s)\<lparr>ks_status := k1\<rparr>"
    "st_code_down k1 = st_code_down (ks_status s)" "st_event k1 = HAL_KEY_EVENT_UP"
    "st_time_updown k1 = st_time_updown (ks_status s)"
    "st_cnt_click k1 \<le> MAX_KEY_CLICK_COUNT"
    "\<forall>(c, ev)\<in>set l1. HAL_KEY_EVENT_CLICK \<le> ev \<and> ev \<le> HAL_KEY_EVENT_RAMPAGECLICK"
    using click_count_eq [OF assms, of time u] True by auto
  obtain l2 k2 where 2: "click_flush time ((emit l1 s)\<lparr>ks_status := k1\<rparr>) =
      (emit (l1 @ l2) s)\<lparr>ks_status := k2\<rparr>" "st_inv k2" "st_code_down k2 = st_code_down k1"
    "st_time_updown k2 = st_time_updown k1"
    "\<forall>(c, ev)\<in>set l2. HAL_KEY_EVENT_CLICK \<le> ev \<and> ev \<le> HAL_KEY_EVENT_RAMPAGECLICK"
    using click_flush_eq [of "(emit l1 s)\<lparr>ks_status := k1\<rparr>" time] 1 by auto
  have "click_check time u s = (emit (l1 @ l2) s)\<lparr>ks_status := k2\<rparr>"
    using True 1(1) 2(1) by (simp only: click_check_def refl if_True)
  then show ?thesis using 1 2 by (intro exI [of _ "l1 @ l2"] exI [of _ k2]) auto
qed

lemma long_check_eq:
  assumes "st_inv (ks_status s)"
  defines "r \<equiv> st_code_ready (ks_status s)"
  shows "\<exists>l k. long_check time m s = (emit l s)\<lparr>ks_status := k\<rparr> \<and> st_inv k \<and>
    st_code_down k = st_code_down (ks_status s) \<and>
    (\<forall>(c, ev)\<in>set l. c = r \<and> m AND r = r \<and>
      ev \<in> {HAL_KEY_EVENT_LONGPRESS, HAL_KEY_EVENT_LONGLONGPRESS, HAL_KEY_EVENT_REPEAT} \<and>
      (ev = HAL_KEY_EVENT_LONGPRESS \<longrightarrow>
        KEY_LONGPRESS_THRESHOLD \<le> sub32 time (st_time_updown (ks_status s))) \<and>
      (ev = HAL_KEY_EVENT_LONGLONGPRESS \<longrightarrow>
        KEY_LONGLONGPRESS_THRESHOLD \<le> sub32 time (st_time_updown (ks_status s))))"
proof -
  let ?k = "ks_status s"
  consider (no) "long_check time m s = s"
    | (down) "m AND r = r" "st_event ?k = HAL_KEY_EVENT_DOWN"
        "KEY_LONGPRESS_THRESHOLD \<le> sub32 time (st_time_updown ?k)"
    | (long) "m AND r = r" "long_event (st_event ?k)"
  proof -
    have "long_check time m s = s" if "\<not> (m AND r = r \<and> st_event ?k = HAL_KEY_EVENT_DOWN \<and>
        KEY_LONGPRESS_THRESHOLD \<le> sub32 time (st_time_updown ?k))"
      "\<not> (m AND r = r \<and> long_event (st_event ?k))"
      using that by (simp add: long_check_def Let_def r_def)
    then show thesis using that by blast
  qed
  then show ?thesis
  proof cases
    case no
    have "s = (emit [] s)\<lparr>ks_status := ?k\<rparr>" by simp
    then show ?thesis using no assms(1) by (metis empty_iff list.set(1))
  next
    case down
    then have "long_check time m s = (emit [(r, HAL_KEY_EVENT_LONGPRESS)] s)
        \<lparr>ks_status := ?k\<lparr>st_cnt_repeat := 0, st_event := HAL_KEY_EVENT_LONGPRESS\<rparr>\<rparr>"
      by (simp add: long_check_def Let_def r_def send_emit)
    then show ?thesis using down assms(1)
      by (intro exI [of _ "[(r, HAL_KEY_EVENT_LONGPRESS)]"]
          exI [of _ "?k\<lparr>st_cnt_repeat := 0, st_event := HAL_KEY_EVENT_LONGPRESS\<rparr>"])
        (auto simp: st_inv_def)
  next
    case long
    define rep where "rep \<longleftrightarrow> (st_cnt_repeat ?k + 1) mod 256 = KEY_LONGPRESS_REPEAT_THRESHOLD div KEY_CHECKER_INTERVAL"
    define k1 where "k1 = ?k\<lparr>st_cnt_repeat := (if rep then 0 else (st_cnt_repeat ?k + 1) mod 256)\<rparr>"
    define l1 where "l1 = (if rep then [(r, HAL_KEY_EVENT_REPEAT)] else [])"
    define ll where "ll \<longleftrightarrow> st_event ?k = HAL_KEY_EVENT_LONGPRESS \<and>
      KEY_LONGLONGPRESS_THRESHOLD \<le> sub32 time (st_time_updown ?k)"
    have "long_check time m s = (emit (l1 @ (if ll then [(r, HAL_KEY_EVENT_LONGLONGPRESS)] else [])) s)
        \<lparr>ks_status := (if ll then k1\<lparr>st_event := HAL_KEY_EVENT_LONGLONGPRESS\<rparr> else k1)\<rparr>"
      using long by (auto simp: long_check_def Let_def r_def send_emit rep_def k1_def l1_def ll_def long_event_def)
    then show ?thesis using long assms(1)
      by (intro exI [of _ "l1 @ (if ll then [(r, HAL_KEY_EVENT_LONGLONGPRESS)] else [])"]
          exI [of _ "if ll then k1\<lparr>st_event := HAL_KEY_EVENT_LONGLONGPRESS\<rparr> else k1"])
        (auto simp: st_inv_def k1_def l1_def ll_def)
  qed
qed

section \<open>One round of the recogniser\<close>

definition key_edge :: "nat \<Rightarrow> u32 \<times> nat \<Rightarrow> bool" where
  "key_edge b p \<longleftrightarrow> fst p = 2 ^ b \<and> (snd p = HAL_KEY_EVENT_DOWN \<or> snd p = HAL_KEY_EVENT_UP)"

lemma edges_up:
  "b < 32 \<Longrightarrow> distinct ks \<Longrightarrow> \<forall>k\<in>set ks. k < 32 \<Longrightarrow>
   filter (key_edge b) (up_events long ks) = (if b \<in> set ks then [(2 ^ b, HAL_KEY_EVENT_UP)] else [])"
  by (induction ks) (auto simp: up_events_def key_edge_def power_2_eq_iff)

lemma edges_down:
  "b < 32 \<Longrightarrow> distinct ks \<Longrightarrow> \<forall>k\<in>set ks. k < 32 \<Longrightarrow>
   filter (key_edge b) (down_events first ks) = (if b \<in> set ks then [(2 ^ b, HAL_KEY_EVENT_DOWN)] else [])"
  by (induction ks) (auto simp: down_events_def key_edge_def power_2_eq_iff)

lemma no_edges: "\<forall>(c, ev)\<in>set l. 4 < ev \<Longrightarrow> filter (key_edge b) l = []"
  by (auto simp: filter_empty_conv key_edge_def)

lemma set_bits_bound: "\<forall>k\<in>set (set_bits m). k < 32"
  using bit_imp_le_length [of m] by auto

lemma key_classify_eq:
  assumes inv: "st_inv (ks_status s)"
  defines "old \<equiv> st_code_down (ks_status s)"
  shows "\<exists>l k. key_classify time m s = (emit l s)\<lparr>ks_status := k\<rparr> \<and> st_inv k \<and> st_code_down k = m \<and>
    (\<forall>b<32. filter (key_edge b) l =
      (if bit m b \<and> \<not> bit old b then [(2 ^ b, HAL_KEY_EVENT_DOWN)]
       else if \<not> bit m b \<and> bit old b then [(2 ^ b, HAL_KEY_EVENT_UP)] else [])) \<and>
    (\<forall>(c, ev)\<in>set l. ev \<in> {HAL_KEY_EVENT_DOWN..HAL_KEY_EVENT_REPEAT}) \<and>
    (\<forall>(c, ev)\<in>set l. ev \<in> {HAL_KEY_EVENT_LONGPRESS, HAL_KEY_EVENT_LONGLONGPRESS, HAL_KEY_EVENT_REPEAT} \<longrightarrow>
      m AND c = c) \<and>
    (\<forall>c. (c, HAL_KEY_EVENT_LONGPRESS) \<in> set l \<longrightarrow> m = old \<and>
      KEY_LONGPRESS_THRESHOLD \<le> sub32 time (st_time_updown (ks_status s)))"
proof -
  define dn where "dn = m AND NOT old"
  define up where "up = NOT m AND old"
  define k1 where "k1 = (if set_bits up = [] then ks_status s else (ks_status s)\<lparr>st_time_updown := time\<rparr>)"
  define l1 where "l1 = up_events (long_event (st_event (ks_status s))) (set_bits up)"
  have "st_inv k1" "st_code_down k1 = old" using inv by (auto simp: k1_def st_inv_def old_def)
  then have k2: "st_inv (up_event m up k1)" "st_code_down (up_event m up k1) = old"
    by (simp_all add: up_event_keeps)
  define s2 where "s2 = (emit l1 s)\<lparr>ks_status := up_event m up k1\<rparr>"
  obtain l3 k3 where 3: "click_check time up s2 = (emit l3 s2)\<lparr>ks_status := k3\<rparr>" "st_inv k3"
    "st_time_updown k3 = st_time_updown k1"
    "\<forall>(c, ev)\<in>set l3. HAL_KEY_EVENT_CLICK \<le> ev \<and> ev \<le> HAL_KEY_EVENT_RAMPAGECLICK"
    using click_check_eq [of s2 time up] k2 by (auto simp: s2_def up_event_keeps)
  define k4 where "k4 = k3\<lparr>st_code_down := m\<rparr>"
  have k4: "st_inv k4" "st_code_down k4 = m" using 3(2) by (simp_all add: k4_def st_inv_def)
  define k5 where "k5 = down_event dn (if set_bits dn = [] then k4 else downs_status time m k4)"
  define l5 where "l5 = down_events (st_event k3 = HAL_KEY_EVENT_NONE) (set_bits dn)"
  have k5: "st_inv k5" "st_code_down k5 = m"
    using k4 by (auto simp: k5_def down_event_keeps downs_status_keeps)
  define s5 where "s5 = (emit (l1 @ l3 @ l5) s)\<lparr>ks_status := k5\<rparr>"
  obtain l6 k6 where 6: "long_check time m s5 = (emit l6 s5)\<lparr>ks_status := k6\<rparr>" "st_inv k6"
    "st_code_down k6 = m"
    "\<forall>(c, ev)\<in>set l6. m AND c = c \<and>
      ev \<in> {HAL_KEY_EVENT_LONGPRESS, HAL_KEY_EVENT_LONGLONGPRESS, HAL_KEY_EVENT_REPEAT} \<and>
      (ev = HAL_KEY_EVENT_LONGPRESS \<longrightarrow> KEY_LONGPRESS_THRESHOLD \<le> sub32 time (st_time_updown k5))"
    using long_check_eq [of s5 time m] k5 by (fastforce simp: s5_def)
  have e: "key_classify time m s = (emit (l1 @ l3 @ l5 @ l6) s)\<lparr>ks_status := k6\<rparr>"
  proof -
    have "up_keys time (set_bits up) s = (emit l1 s)\<lparr>ks_status := k1\<rparr>"
      by (simp add: up_keys_eq l1_def k1_def)
    then have "click_check time up ((up_keys time (set_bits up) s)\<lparr>ks_status :=
        up_event m up (ks_status (up_keys time (set_bits up) s))\<rparr>) = (emit (l1 @ l3) s)\<lparr>ks_status := k3\<rparr>"
      using 3(1) by (simp add: s2_def)
    moreover have "down_keys time m (set_bits dn) ((emit (l1 @ l3) s)\<lparr>ks_status := k4\<rparr>) =
        (emit (l1 @ l3 @ l5) s)\<lparr>ks_status := if set_bits dn = [] then k4 else downs_status time m k4\<rparr>"
      by (simp add: down_keys_eq l5_def k4_def)
    ultimately show ?thesis
      using 6(1) by (simp add: key_classify_def Let_def old_def [symmetric] dn_def [symmetric]
        up_def [symmetric] k4_def [symmetric] k5_def [symmetric] s5_def)
  qed
  have same: "m = old" if "set_bits up = []" "set_bits dn = []"
  proof (rule bit_eqI)
    fix b assume "possible_bit TYPE(u32) b"
    then have "b < 32" by simp
    moreover have "\<not> bit up b" "\<not> bit dn b" using that set_bits_iff by (metis empty_iff list.set(1))+
    ultimately show "bit m b = bit old b" by (auto simp: up_def dn_def bit_and_iff bit_not_iff)
  qed
  have t5: "st_time_updown k5 = (if set_bits up = [] \<and> set_bits dn = []
      then st_time_updown (ks_status s) else time)"
    by (auto simp: k5_def k4_def down_event_keeps downs_status_def 3(3) k1_def)
  have thr: "0 < KEY_LONGPRESS_THRESHOLD" "sub32 time time = 0"
    by (simp_all add: KEY_LONGPRESS_THRESHOLD_def ms_to_ticks_def sub32_self)
  have f3: "filter (key_edge b) l3 = []" "filter (key_edge b) l6 = []" for b
    using 3(4) 6(4) by (auto intro!: no_edges)
  have bits: "bit up b \<longleftrightarrow> \<not> bit m b \<and> bit old b" "bit dn b \<longleftrightarrow> bit m b \<and> \<not> bit old b" if "b < 32" for b
    using that by (auto simp: up_def dn_def bit_and_iff bit_not_iff)
  have "filter (key_edge b) (l1 @ l3 @ l5 @ l6) =
      (if bit m b \<and> \<not> bit old b then [(2 ^ b, HAL_KEY_EVENT_DOWN)]
       else if \<not> bit m b \<and> bit old b then [(2 ^ b, HAL_KEY_EVENT_UP)] else [])" if "b < 32" for b
    using edges_up [OF that, of "set_bits up"] edges_down [OF that, of "set_bits dn"] set_bits_bound
    by (simp add: l1_def l5_def f3 bits [OF that])
  moreover have "\<forall>(c, ev)\<in>set l1. ev \<in> {HAL_KEY_EVENT_UP, HAL_KEY_EVENT_UP_AFTER_LONGPRESS}"
    "\<forall>(c, ev)\<in>set l5. ev \<in> {HAL_KEY_EVENT_DOWN, HAL_KEY_EVENT_FIRST_DOWN, HAL_KEY_EVENT_CONTINUED_DOWN}"
    by (auto simp: l1_def l5_def up_events_def down_events_def split: if_splits)
  moreover have "m = old \<and> KEY_LONGPRESS_THRESHOLD \<le> sub32 time (st_time_updown (ks_status s))"
    if "(c, HAL_KEY_EVENT_LONGPRESS) \<in> set l6" for c
    using that 6(4) t5 thr same by (auto split: if_splits)
  ultimately show ?thesis
    using e 6 3(4) by (intro exI [of _ "l1 @ l3 @ l5 @ l6"] exI [of _ k6]) fastforce
qed

section \<open>Properties\<close>

fun classify_run :: "(nat \<times> u32) list \<Rightarrow> key_state \<Rightarrow> key_state" where
  "classify_run [] s = s"
| "classify_run ((time, m) # xs) s = classify_run xs (key_classify time m s)"

text \<open>The reference: the edges of one key's sampled level.\<close>

fun level_edges :: "bool \<Rightarrow> bool list \<Rightarrow> nat list" where
  "level_edges down [] = []"
| "level_edges down (x # xs) =
     (if x \<and> \<not> down then [HAL_KEY_EVENT_DOWN] else if \<not> x \<and> down then [HAL_KEY_EVENT_UP] else []) @
     level_edges x xs"

lemma classify_run_edges:
  assumes "b < 32" "st_inv (ks_status s)" "ks_callback s"
  shows "\<exists>l. ks_log (classify_run xs s) = ks_log s @ l \<and>
    map snd (filter (key_edge b) l) =
      level_edges (bit (st_code_down (ks_status s)) b) (map (\<lambda>x. bit (snd x) b) xs)"
  using assms(2,3)
proof (induction xs arbitrary: s)
  case (Cons x xs)
  obtain time m where x: "x = (time, m)" by (cases x)
  obtain l k where 1: "key_classify time m s = (emit l s)\<lparr>ks_status := k\<rparr>" "st_inv k" "st_code_down k = m"
    "filter (key_edge b) l = (if bit m b \<and> \<not> bit (st_code_down (ks_status s)) b then [(2 ^ b, HAL_KEY_EVENT_DOWN)]
       else if \<not> bit m b \<and> bit (st_code_down (ks_status s)) b then [(2 ^ b, HAL_KEY_EVENT_UP)] else [])"
    using key_classify_eq [OF Cons.prems(1), of time m] assms(1) by blast
  obtain l' where 2: "ks_log (classify_run xs (key_classify time m s)) = ks_log (key_classify time m s) @ l'"
    "map snd (filter (key_edge b) l') = level_edges (bit m b) (map (\<lambda>x. bit (snd x) b) xs)"
    using Cons.IH [of "key_classify time m s"] 1 Cons.prems(2) by auto
  show ?case using 1 2 Cons.prems(2) by (intro exI [of _ "l @ l'"]) (simp add: x)
qed simp

text \<open>
  C38. For each key the down and up events the application receives are exactly the edges of
  the key's debounced level: they alternate and none is lost or repeated, whatever other keys,
  clicks and long presses happen meanwhile.
\<close>

theorem key_events_are_edges:
  assumes "b < 32" "st_inv (ks_status s)" "ks_callback s" "ks_log s = []"
  shows "map snd (filter (key_edge b) (ks_log (classify_run xs s))) =
    level_edges (bit (st_code_down (ks_status s)) b) (map (\<lambda>x. bit (snd x) b) xs)"
  using classify_run_edges [OF assms(1-3), of xs] assms(4) by auto

text \<open>
  One round of the recogniser keeps the click count below its maximum and sends only
  events between \<open>DOWN\<close> and \<open>REPEAT\<close> (a click code never runs past \<open>RAMPAGECLICK\<close>); long
  presses and repeats are sent only for keys that are all down, and a long press only when no
  key has changed for the whole threshold.
\<close>

theorem key_round_events:
  assumes "st_inv (ks_status s)"
  shows "\<exists>l. ks_log (key_classify time m s) = ks_log s @ (if ks_callback s then l else []) \<and>
    st_inv (ks_status (key_classify time m s)) \<and> st_code_down (ks_status (key_classify time m s)) = m \<and>
    (\<forall>(c, ev)\<in>set l. ev \<in> {HAL_KEY_EVENT_DOWN..HAL_KEY_EVENT_REPEAT} \<and>
      (ev \<in> {HAL_KEY_EVENT_LONGPRESS, HAL_KEY_EVENT_LONGLONGPRESS, HAL_KEY_EVENT_REPEAT} \<longrightarrow> m AND c = c)) \<and>
    (\<forall>c. (c, HAL_KEY_EVENT_LONGPRESS) \<in> set l \<longrightarrow> m = st_code_down (ks_status s) \<and>
      KEY_LONGPRESS_THRESHOLD \<le> sub32 time (st_time_updown (ks_status s)))"
proof -
  obtain l k where 1: "key_classify time m s = (emit l s)\<lparr>ks_status := k\<rparr>" "st_inv k" "st_code_down k = m"
    "\<forall>(c, ev)\<in>set l. ev \<in> {HAL_KEY_EVENT_DOWN..HAL_KEY_EVENT_REPEAT}"
    "\<forall>(c, ev)\<in>set l. ev \<in> {HAL_KEY_EVENT_LONGPRESS, HAL_KEY_EVENT_LONGLONGPRESS, HAL_KEY_EVENT_REPEAT} \<longrightarrow>
      m AND c = c"
    "\<forall>c. (c, HAL_KEY_EVENT_LONGPRESS) \<in> set l \<longrightarrow> m = st_code_down (ks_status s) \<and>
      KEY_LONGPRESS_THRESHOLD \<le> sub32 time (st_time_updown (ks_status s))"
    using key_classify_eq [OF assms, of time m] by blast
  show ?thesis
  proof (intro exI [of _ l] conjI)
    show "\<forall>(c, ev)\<in>set l. ev \<in> {HAL_KEY_EVENT_DOWN..HAL_KEY_EVENT_REPEAT} \<and>
      (ev \<in> {HAL_KEY_EVENT_LONGPRESS, HAL_KEY_EVENT_LONGLONGPRESS, HAL_KEY_EVENT_REPEAT} \<longrightarrow> m AND c = c)"
      using 1(4,5) by blast
  qed (use 1 in \<open>simp_all\<close>)
qed

section \<open>Witnesses\<close>

definition idle_keys :: key_state where
  "idle_keys = \<lparr>ks_pwr = reset_pwr, ks_adc = reset_adc, ks_gpio = reset_gpio,
     ks_status = reset_status, ks_callback = True, ks_timer = Some Debounce_handler,
     ks_timer_active = False, ks_sleep = idle_sleep, ks_pwr_irq = True,
     ks_adc_irq = HAL_ADCKEY_IRQ_NONE, ks_adc_channel = False, ks_gpio_irq = 0,
     ks_volt_table = [], ks_log = []\<rparr>"

lemma idle_keys_simps [simp]:
  "ks_status idle_keys = reset_status" "ks_callback idle_keys" "ks_log idle_keys = []"
  "st_inv reset_status" "st_code_down reset_status = 0"
  by (simp_all add: idle_keys_def st_inv_def reset_status_def MAX_KEY_CLICK_COUNT_def)

lemma key_events_are_edges_witness:
  "map snd (filter (key_edge 0) (ks_log (classify_run [(1000, 1), (1640, 3), (2280, 2)] idle_keys))) =
     [HAL_KEY_EVENT_DOWN, HAL_KEY_EVENT_UP]"
  using key_events_are_edges [of 0 idle_keys "[(1000, 1), (1640, 3), (2280, 2)]"]
  by simp

lemma key_round_events_witness:
  "st_inv (ks_status (key_classify 1000 1 idle_keys)) \<and>
   st_code_down (ks_status (key_classify 1000 1 idle_keys)) = 1"
  using key_round_events [of idle_keys 1000 1] by auto

end
