(* ===== verification/KeyMachine.thy ===== *)
theory KeyMachine
  imports KeyEvents
begin

text \<open>
  The interrupts and the timer of \<open>hal_key.c\<close> as a state machine. Each handler is one step,
  enabled only when its interrupt is enabled or its timer runs. From opening on no step runs
  into an \<open>ASSERT\<close>, every GPIO key pin is in exactly one phase, the module holds its wake lock
  exactly while its timer runs, and no GPIO key and no power key is left without an interrupt or a timer; an ADC key
  can be.
\<close>

unbundle bit_operations_syntax

section \<open>Steps\<close>

inductive key_step :: "key_cfg \<Rightarrow> key_state \<Rightarrow> key_state option \<Rightarrow> bool" for c where
  pwr_irq: "ks_pwr_irq s \<Longrightarrow> key_step c s (Some (hal_pwrkey_handle_irq_state e True s))"
| gpio_irq: "p < 32 \<Longrightarrow> bit (ks_gpio_irq s) p \<Longrightarrow> key_step c s (hal_gpiokey_irqhandler c e p s)"
| adc_irq: "kc_adc c \<noteq> [] \<Longrightarrow> ks_adc_irq s \<noteq> HAL_ADCKEY_IRQ_NONE \<or> ks_adc_channel s \<Longrightarrow>
    key_step c s (Some (hal_adckey_irqhandler c e v mv s))"
| tick: "ks_timer_active s \<Longrightarrow> ks_timer s = Some Debounce_handler \<Longrightarrow>
    key_step c s (hal_key_debounce_handler c e s)"
| boot_tick: "ks_timer_active s \<Longrightarrow> ks_timer s = Some Boot_handler \<Longrightarrow>
    key_step c s (Some (hal_key_boot_handler c e s))"

inductive_cases key_step_cases: "key_step c s r"

inductive key_reach :: "key_cfg \<Rightarrow> key_state \<Rightarrow> key_state option \<Rightarrow> bool" for c s0 where
  reach_open: "key_reach c s0 (Some s0)"
| reach_step: "key_reach c s0 (Some s) \<Longrightarrow> key_step c s r \<Longrightarrow> key_reach c s0 r"

section \<open>The invariant\<close>

definition key_pins :: "key_cfg \<Rightarrow> nat set" where
  "key_pins c = gc_pin ` {g \<in> set (kc_gpio c). gc_code g \<noteq> HAL_KEY_CODE_NONE}"

definition pins_ok :: "key_cfg \<Rightarrow> bool" where
  "pins_ok c \<longleftrightarrow> list_all (\<lambda>g. gc_pin g < 32) (kc_gpio c)"

text \<open>In how many of the phases (waiting for its interrupt, debounce, dither, down) a pin is.\<close>

definition pin_phases :: "key_state \<Rightarrow> nat \<Rightarrow> nat" where
  "pin_phases s p = of_bool (bit (ks_gpio_irq s) p) + of_bool (bit (gk_pin_debounce (ks_gpio s)) p) +
     of_bool (bit (gk_pin_dither (ks_gpio s)) p) + of_bool (bit (gk_pin_down (ks_gpio s)) p)"

definition holds_lock :: "key_state \<Rightarrow> bool" where
  "holds_lock s \<longleftrightarrow> bit (sys_wake_lock_map (ks_sleep s)) HAL_SYS_WAKE_LOCK_USER_KEY"

definition key_inv :: "key_cfg \<Rightarrow> key_state \<Rightarrow> bool" where
  "key_inv c s \<longleftrightarrow>
     holds_lock s = ks_timer_active s \<and>
     (if ks_timer s = Some Debounce_handler then
        (\<forall>p<32. pin_phases s p = of_bool (p \<in> key_pins c)) \<and>
        ks_pwr_irq s = (\<not> pwrkey_active (ks_pwr s)) \<and> st_inv (ks_status s) \<and>
        (pwrkey_active (ks_pwr s) \<or> gpiokey_active (ks_gpio s) \<or>
           st_event (ks_status s) \<noteq> HAL_KEY_EVENT_NONE \<longrightarrow> ks_timer_active s)
      else
        ks_timer s = Some Boot_handler \<and> ks_timer_active s \<and> \<not> ks_pwr_irq s \<and>
        pwrkey_active (ks_pwr s) \<and> (\<forall>p<32. pin_phases s p = 0))"

definition keys_closed :: "key_state \<Rightarrow> bool" where
  "keys_closed s \<longleftrightarrow> \<not> ks_timer_active s \<and> \<not> holds_lock s \<and> ks_gpio_irq s = 0 \<and> \<not> ks_pwr_irq s"

section \<open>Frames\<close>

lemma restart_simps [simp]:
  "ks_timer_active (hal_key_debounce_timer_restart s)"
  "ks_timer (hal_key_debounce_timer_restart s) = ks_timer s"
  "ks_pwr (hal_key_debounce_timer_restart s) = ks_pwr s"
  "ks_pwr_irq (hal_key_debounce_timer_restart s) = ks_pwr_irq s"
  "ks_gpio (hal_key_debounce_timer_restart s) = ks_gpio s"
  "ks_gpio_irq (hal_key_debounce_timer_restart s) = ks_gpio_irq s"
  "ks_status (hal_key_debounce_timer_restart s) = ks_status s"
  by (simp_all add: hal_key_debounce_timer_restart_def)

lemma lock_bits [simp]:
  "bit (sys_wake_lock_map (snd (hal_sys_wake_lock 2 s))) 2"
  "\<not> bit (sys_wake_lock_map (snd (hal_sys_wake_unlock 2 s))) 2"
  by (simp_all add: hal_sys_wake_lock_def hal_sys_wake_unlock_def HAL_SYS_WAKE_LOCK_USER_QTY_def
      bit_or_iff bit_and_iff bit_not_iff bit_exp_iff)

lemma restart_lock: "ks_timer_active s \<longrightarrow> holds_lock s \<Longrightarrow> holds_lock (hal_key_debounce_timer_restart s)"
  by (simp add: hal_key_debounce_timer_restart_def holds_lock_def)

lemma send_frame [simp]:
  "ks_timer_active (send_key_event k ev s) = ks_timer_active s"
  "ks_timer (send_key_event k ev s) = ks_timer s"
  "ks_pwr (send_key_event k ev s) = ks_pwr s"
  "ks_pwr_irq (send_key_event k ev s) = ks_pwr_irq s"
  "ks_gpio (send_key_event k ev s) = ks_gpio s"
  "ks_gpio_irq (send_key_event k ev s) = ks_gpio_irq s"
  "ks_status (send_key_event k ev s) = ks_status s"
  "ks_sleep (send_key_event k ev s) = ks_sleep s"
  by (simp_all add: send_key_event_def)

section \<open>Pins\<close>

lemma bit_pin [simp]: "p < 32 \<Longrightarrow> bit (2 ^ p :: u32) b \<longleftrightarrow> b = p"
  by (auto simp: bit_exp_iff)

lemma bit_clear_pin [simp]: "b < 32 \<Longrightarrow> p < 32 \<Longrightarrow> bit (m AND NOT (2 ^ p) :: u32) b \<longleftrightarrow> bit m b \<and> b \<noteq> p"
  by (auto simp: bit_and_iff bit_not_iff)

lemma bit_set_pin [simp]: "p < 32 \<Longrightarrow> bit (m OR 2 ^ p :: u32) b \<longleftrightarrow> bit m b \<or> b = p"
  by (auto simp: bit_or_iff)

text \<open>Every configured pin is found, with an entry of the table for that pin.\<close>

lemma find_pin_Some:
  assumes "p \<in> gc_pin ` set gs"
  shows "\<exists>g\<in>set gs. find_pin gs p = Some g \<and> gc_pin g = p"
  using assms by (induction gs) auto

lemma find_index_Some:
  assumes "p \<in> key_pins c"
  obtains g where "g \<in> set (kc_gpio c)" "hal_gpiokey_find_index c p = Some g" "gc_pin g = p"
  using find_pin_Some [of p "kc_gpio c"] assms
  by (auto simp: hal_gpiokey_find_index_def key_pins_def)

text \<open>A key whose pin is at its active level; the code bits reported come only from such keys.\<close>

definition pin_pressed :: "key_cfg \<Rightarrow> key_env \<Rightarrow> nat \<Rightarrow> bool" where
  "pin_pressed c e p \<longleftrightarrow> (case find_pin (kc_gpio c) p of None \<Rightarrow> False | Some g \<Rightarrow> ke_pin_val e p = gc_down g)"

definition reports :: "key_cfg \<Rightarrow> nat \<Rightarrow> nat \<Rightarrow> bool" where
  "reports c b p \<longleftrightarrow> (case find_pin (kc_gpio c) p of None \<Rightarrow> False | Some g \<Rightarrow> bit (gc_code g) b)"

lemma gpio_dither_pins_eq:
  assumes "set ps \<subseteq> key_pins c" "\<forall>p\<in>set ps. p < 32"
  shows "\<exists>w. gpio_dither_pins c ps s = Some (s\<lparr>ks_gpio_irq := w\<rparr>) \<and>
    (\<forall>b. bit w b \<longleftrightarrow> bit (ks_gpio_irq s) b \<or> b \<in> set ps)"
  using assms
proof (induction ps arbitrary: s)
  case (Cons p ps)
  then obtain g where "hal_gpiokey_find_index c p = Some g" by (auto elim: find_index_Some)
  moreover obtain w where "gpio_dither_pins c ps (hal_gpiokey_enable_irq p s) =
      Some ((hal_gpiokey_enable_irq p s)\<lparr>ks_gpio_irq := w\<rparr>)"
    "\<forall>b. bit w b \<longleftrightarrow> bit (ks_gpio_irq (hal_gpiokey_enable_irq p s)) b \<or> b \<in> set ps"
    using Cons.IH [of "hal_gpiokey_enable_irq p s"] Cons.prems by auto
  ultimately show ?case using Cons.prems
    by (intro exI [of _ w]) (auto simp: hal_gpiokey_enable_irq_def)
next
  case Nil
  show ?case by (intro exI [of _ "ks_gpio_irq s"]) simp
qed

lemma gpio_down_pins_eq:
  assumes "set ps \<subseteq> key_pins c" "\<forall>p\<in>set ps. p < 32" "distinct ps"
  shows "\<exists>w d code'. gpio_down_pins c e ps (code, s) =
      Some (code', s\<lparr>ks_gpio := (ks_gpio s)\<lparr>gk_pin_down := d\<rparr>, ks_gpio_irq := w\<rparr>) \<and>
    (\<forall>b<32. bit w b \<longleftrightarrow> bit (ks_gpio_irq s) b \<or> b \<in> set ps \<and> \<not> pin_pressed c e b) \<and>
    (\<forall>b<32. bit d b \<longleftrightarrow> bit (gk_pin_down (ks_gpio s)) b \<and> \<not> (b \<in> set ps \<and> \<not> pin_pressed c e b)) \<and>
    (\<forall>b. bit code' b \<longleftrightarrow> bit code b \<or> (\<exists>p\<in>set ps. pin_pressed c e p \<and> reports c b p))"
  using assms
proof (induction ps arbitrary: s code)
  case Nil
  show ?case
    by (intro exI [of _ "ks_gpio_irq s"] exI [of _ "gk_pin_down (ks_gpio s)"] exI [of _ code]) simp
next
  case (Cons p ps)
  then obtain g where g: "hal_gpiokey_find_index c p = Some g" by (auto elim: find_index_Some)
  then have f: "find_pin (kc_gpio c) p = Some g" by (simp add: hal_gpiokey_find_index_def)
  show ?case
  proof (cases "ke_pin_val e p = gc_down g")
    case True
    then have "pin_pressed c e p" by (simp add: pin_pressed_def f)
    with Cons.IH [of "code OR gc_code g" s] Cons.prems g True show ?thesis
      by (auto simp: reports_def f bit_or_iff) blast
  next
    case False
    define s1 where "s1 = hal_gpiokey_enable_irq p
      (s\<lparr>ks_gpio := (ks_gpio s)\<lparr>gk_pin_down := gk_pin_down (ks_gpio s) AND NOT (2 ^ p)\<rparr>\<rparr>)"
    from False have np: "\<not> pin_pressed c e p" by (simp add: pin_pressed_def f)
    have p: "p < 32" "p \<notin> set ps" using Cons.prems by auto
    have s1: "ks_gpio_irq s1 = ks_gpio_irq s OR 2 ^ p"
      "gk_pin_down (ks_gpio s1) = gk_pin_down (ks_gpio s) AND NOT (2 ^ p)"
      "s1\<lparr>ks_gpio := (ks_gpio s1)\<lparr>gk_pin_down := d\<rparr>, ks_gpio_irq := w\<rparr> =
        s\<lparr>ks_gpio := (ks_gpio s)\<lparr>gk_pin_down := d\<rparr>, ks_gpio_irq := w\<rparr>" for d w
      by (simp_all add: s1_def hal_gpiokey_enable_irq_def)
    obtain w d code' where *: "gpio_down_pins c e ps (code, s1) =
        Some (code', s1\<lparr>ks_gpio := (ks_gpio s1)\<lparr>gk_pin_down := d\<rparr>, ks_gpio_irq := w\<rparr>)"
      "\<forall>b<32. bit w b \<longleftrightarrow> bit (ks_gpio_irq s1) b \<or> b \<in> set ps \<and> \<not> pin_pressed c e b"
      "\<forall>b<32. bit d b \<longleftrightarrow> bit (gk_pin_down (ks_gpio s1)) b \<and> \<not> (b \<in> set ps \<and> \<not> pin_pressed c e b)"
      "\<forall>b. bit code' b \<longleftrightarrow> bit code b \<or> (\<exists>p\<in>set ps. pin_pressed c e p \<and> reports c b p)"
      using Cons.IH [of code s1] Cons.prems by auto
    show ?thesis
    proof (intro exI conjI)
      show "gpio_down_pins c e (p # ps) (code, s) =
        Some (code', s\<lparr>ks_gpio := (ks_gpio s)\<lparr>gk_pin_down := d\<rparr>, ks_gpio_irq := w\<rparr>)"
        using g False *(1) by (simp add: s1_def [symmetric] s1(3))
      show "\<forall>b<32. bit w b \<longleftrightarrow> bit (ks_gpio_irq s) b \<or> b \<in> set (p # ps) \<and> \<not> pin_pressed c e b"
        using *(2) np p by (auto simp: s1(1))
      show "\<forall>b<32. bit d b \<longleftrightarrow> bit (gk_pin_down (ks_gpio s)) b \<and>
        \<not> (b \<in> set (p # ps) \<and> \<not> pin_pressed c e b)"
        using *(3) np p by (auto simp: s1(2))
      show "\<forall>b. bit code' b \<longleftrightarrow> bit code b \<or> (\<exists>p\<in>set (p # ps). pin_pressed c e p \<and> reports c b p)"
        using *(4) np by auto
    qed
  qed
qed

lemma gpio_debounce_pins_eq:
  fixes e :: key_env and g0 :: gpio_key
  assumes "set ps \<subseteq> key_pins c" "\<forall>p\<in>set ps. p < 32"
  defines "el \<equiv> KEY_DEBOUNCE_INTERVAL \<le> sub32 (ke_time e) (gk_time_debounce g0)"
  shows "\<exists>code' da' di' pd'. gpio_debounce_pins c e ps (code, da, di, pd) g0 = Some (code', da', di', pd') \<and>
    (\<forall>b. bit da' b \<longleftrightarrow> bit da b \<or> b \<in> set ps \<and> pin_pressed c e b \<and> el) \<and>
    (\<forall>b. bit di' b \<longleftrightarrow> bit di b \<or> b \<in> set ps \<and> \<not> pin_pressed c e b) \<and>
    (\<forall>b. bit pd' b \<longleftrightarrow> bit pd b \<or> b \<in> set ps \<and> pin_pressed c e b \<and> el) \<and>
    (\<forall>b. bit code' b \<longleftrightarrow> bit code b \<or> (\<exists>p\<in>set ps. pin_pressed c e p \<and> el \<and> reports c b p))"
  using assms(1,2)
proof (induction ps arbitrary: code da di pd)
  case (Cons p ps)
  then obtain g where g: "hal_gpiokey_find_index c p = Some g" by (auto elim: find_index_Some)
  then have f: "find_pin (kc_gpio c) p = Some g" by (simp add: hal_gpiokey_find_index_def)
  define pr where "pr = (ke_pin_val e p = gc_down g)"
  have pr: "pin_pressed c e p = pr" by (simp add: pin_pressed_def f pr_def)
  have r: "reports c b p = bit (gc_code g) b" for b by (simp add: reports_def f)
  define acc where "acc = (if pr then if el then (code OR gc_code g, da OR 2 ^ p, di, pd OR 2 ^ p)
    else (code, da, di, pd) else (code, da, di OR 2 ^ p, pd))"
  obtain code1 da1 di1 pd1 where acc: "acc = (code1, da1, di1, pd1)" by (cases acc)
  have step: "gpio_debounce_pins c e (p # ps) (code, da, di, pd) g0 = gpio_debounce_pins c e ps acc g0"
    by (simp add: g acc_def pr_def el_def)
  have p: "p < 32" using Cons.prems by simp
  have bits: "bit da1 b \<longleftrightarrow> bit da b \<or> b = p \<and> pr \<and> el" "bit di1 b \<longleftrightarrow> bit di b \<or> b = p \<and> \<not> pr"
    "bit pd1 b \<longleftrightarrow> bit pd b \<or> b = p \<and> pr \<and> el" "bit code1 b \<longleftrightarrow> bit code b \<or> pr \<and> el \<and> reports c b p" for b
    using acc p by (auto simp: acc_def r bit_or_iff split: if_splits)
  have ps: "set ps \<subseteq> key_pins c" "\<forall>p\<in>set ps. p < 32" using Cons.prems by auto
  obtain code' da' di' pd' where
    "gpio_debounce_pins c e ps (code1, da1, di1, pd1) g0 = Some (code', da', di', pd')"
    "\<forall>b. bit da' b \<longleftrightarrow> bit da1 b \<or> b \<in> set ps \<and> pin_pressed c e b \<and> el"
    "\<forall>b. bit di' b \<longleftrightarrow> bit di1 b \<or> b \<in> set ps \<and> \<not> pin_pressed c e b"
    "\<forall>b. bit pd' b \<longleftrightarrow> bit pd1 b \<or> b \<in> set ps \<and> pin_pressed c e b \<and> el"
    "\<forall>b. bit code' b \<longleftrightarrow> bit code1 b \<or> (\<exists>p\<in>set ps. pin_pressed c e p \<and> el \<and> reports c b p)"
    using Cons.IH [OF ps, of code1 da1 di1 pd1] by blast
  note * = this
  show ?case unfolding step acc
  proof (intro exI conjI)
    show "gpio_debounce_pins c e ps (code1, da1, di1, pd1) g0 = Some (code', da', di', pd')" by (rule *(1))
  qed (use *(2-5) bits pr in \<open>auto\<close>)
qed simp

text \<open>What one run of the handler does to each pin.\<close>

definition pin_tick :: "key_cfg \<Rightarrow> key_env \<Rightarrow> key_state \<Rightarrow> u32 \<times> key_state \<Rightarrow> bool" where
  "pin_tick c e s r \<longleftrightarrow> (case r of (code, t) \<Rightarrow>
     let g = ks_gpio s; h = ks_gpio t;
         dith = KEY_DITHER_INTERVAL \<le> sub32 (ke_time e) (gk_time_dither g);
         deb = KEY_DEBOUNCE_INTERVAL \<le> sub32 (ke_time e) (gk_time_debounce g)
     in (\<forall>p<32. (bit (ks_gpio_irq t) p \<longleftrightarrow> bit (ks_gpio_irq s) p \<or> bit (gk_pin_dither g) p \<and> dith \<or>
                  bit (gk_pin_down g) p \<and> \<not> pin_pressed c e p) \<and>
          (bit (gk_pin_dither h) p \<longleftrightarrow> bit (gk_pin_dither g) p \<and> \<not> dith \<or>
                  bit (gk_pin_debounce g) p \<and> \<not> pin_pressed c e p) \<and>
          (bit (gk_pin_down h) p \<longleftrightarrow> pin_pressed c e p \<and>
                  (bit (gk_pin_down g) p \<or> bit (gk_pin_debounce g) p \<and> deb)) \<and>
          (bit (gk_pin_debounce h) p \<longleftrightarrow> bit (gk_pin_debounce g) p \<and> pin_pressed c e p \<and> \<not> deb)) \<and>
        (\<forall>b. bit code b \<longleftrightarrow> (\<exists>p<32. bit (gk_pin_down h) p \<and> reports c b p)))"

lemma gpiokey_debounce_eq:
  assumes pins: "\<forall>p<32. bit (gk_pin_debounce (ks_gpio s)) p \<or> bit (gk_pin_dither (ks_gpio s)) p \<or>
      bit (gk_pin_down (ks_gpio s)) p \<longrightarrow> p \<in> key_pins c"
    and disj: "\<forall>p<32. \<not> (bit (gk_pin_debounce (ks_gpio s)) p \<and> bit (gk_pin_dither (ks_gpio s)) p)"
  shows "\<exists>code g w. gpiokey_debounce c e s = Some (code, s\<lparr>ks_gpio := g, ks_gpio_irq := w\<rparr>) \<and>
    pin_tick c e s (code, s\<lparr>ks_gpio := g, ks_gpio_irq := w\<rparr>)"
proof -
  let ?g = "ks_gpio s"
  define el where "el = (KEY_DITHER_INTERVAL \<le> sub32 (ke_time e) (gk_time_dither ?g))"
  have lt: "bit m p \<Longrightarrow> p < 32" for m :: u32 and p using bit_imp_le_length [of m p] by simp
  have "gk_pin_debounce ?g AND gk_pin_dither ?g = 0"
    by (rule bit_eqI) (use disj lt in \<open>auto simp: bit_and_iff\<close>)
  note assert = this
  have mem: "set (set_bits m) \<subseteq> key_pins c" "\<forall>p\<in>set (set_bits m). p < 32"
    if "\<forall>p<32. bit m p \<longrightarrow> p \<in> key_pins c" for m :: u32
    using that lt by auto
  define r1 where "r1 = (if gk_pin_dither ?g \<noteq> 0 \<and> el
    then gpio_dither_pins c (set_bits (gk_pin_dither ?g)) (s\<lparr>ks_gpio := ?g\<lparr>gk_pin_dither :=
      gk_pin_dither ?g AND NOT (gk_pin_dither ?g)\<rparr>\<rparr>) else Some s)"
  have "\<exists>w di. r1 = Some (s\<lparr>ks_gpio := ?g\<lparr>gk_pin_dither := di\<rparr>, ks_gpio_irq := w\<rparr>) \<and>
    (\<forall>b<32. bit w b \<longleftrightarrow> bit (ks_gpio_irq s) b \<or> bit (gk_pin_dither ?g) b \<and> el) \<and>
    (\<forall>b<32. bit di b \<longleftrightarrow> bit (gk_pin_dither ?g) b \<and> \<not> el)"
  proof (cases "gk_pin_dither ?g \<noteq> 0 \<and> el")
    case True
    obtain w where "gpio_dither_pins c (set_bits (gk_pin_dither ?g)) (s\<lparr>ks_gpio := ?g\<lparr>gk_pin_dither :=
        gk_pin_dither ?g AND NOT (gk_pin_dither ?g)\<rparr>\<rparr>) =
        Some (s\<lparr>ks_gpio := ?g\<lparr>gk_pin_dither := 0\<rparr>, ks_gpio_irq := w\<rparr>)"
      "\<forall>b. bit w b \<longleftrightarrow> bit (ks_gpio_irq s) b \<or> bit (gk_pin_dither ?g) b"
      using gpio_dither_pins_eq [OF mem, of "gk_pin_dither ?g" "s\<lparr>ks_gpio := ?g\<lparr>gk_pin_dither :=
        gk_pin_dither ?g AND NOT (gk_pin_dither ?g)\<rparr>\<rparr>"] pins
      by auto
    with True show ?thesis by (intro exI [of _ w] exI [of _ 0]) (simp add: r1_def)
  next
    case False
    then show ?thesis
      by (intro exI [of _ "ks_gpio_irq s"] exI [of _ "gk_pin_dither ?g"]) (auto simp: r1_def)
  qed
  then obtain w1 di1 where r1: "r1 = Some (s\<lparr>ks_gpio := ?g\<lparr>gk_pin_dither := di1\<rparr>, ks_gpio_irq := w1\<rparr>)"
    "\<forall>b<32. bit w1 b \<longleftrightarrow> bit (ks_gpio_irq s) b \<or> bit (gk_pin_dither ?g) b \<and> el"
    "\<forall>b<32. bit di1 b \<longleftrightarrow> bit (gk_pin_dither ?g) b \<and> \<not> el" by blast
  define s1 where "s1 = s\<lparr>ks_gpio := ?g\<lparr>gk_pin_dither := di1\<rparr>, ks_gpio_irq := w1\<rparr>"
  have pd: "\<forall>p<32. bit (gk_pin_down ?g) p \<longrightarrow> p \<in> key_pins c"
    "\<forall>p<32. bit (gk_pin_debounce ?g) p \<longrightarrow> p \<in> key_pins c" using pins by auto
  obtain w2 d2 code2 where r2: "gpio_down_pins c e (set_bits (gk_pin_down ?g)) (0, s1) =
      Some (code2, s1\<lparr>ks_gpio := (ks_gpio s1)\<lparr>gk_pin_down := d2\<rparr>, ks_gpio_irq := w2\<rparr>)"
    and down_raw: "\<forall>b<32. bit w2 b \<longleftrightarrow> bit (ks_gpio_irq s1) b \<or> b \<in> set (set_bits (gk_pin_down ?g)) \<and> \<not> pin_pressed c e b"
    "\<forall>b<32. bit d2 b \<longleftrightarrow> bit (gk_pin_down (ks_gpio s1)) b \<and>
      \<not> (b \<in> set (set_bits (gk_pin_down ?g)) \<and> \<not> pin_pressed c e b)"
    "\<forall>b. bit code2 b \<longleftrightarrow> bit (0 :: u32) b \<or> (\<exists>p\<in>set (set_bits (gk_pin_down ?g)). pin_pressed c e p \<and> reports c b p)"
    using gpio_down_pins_eq [OF mem(1) [OF pd(1)] mem(2) [OF pd(1)] distinct_set_bits, of e 0 s1] by blast
  have s1: "ks_gpio_irq s1 = w1" "gk_pin_down (ks_gpio s1) = gk_pin_down ?g" by (simp_all add: s1_def)
  have down: "\<forall>b<32. bit w2 b \<longleftrightarrow> bit w1 b \<or> bit (gk_pin_down ?g) b \<and> \<not> pin_pressed c e b"
    "\<forall>b<32. bit d2 b \<longleftrightarrow> bit (gk_pin_down ?g) b \<and> pin_pressed c e b"
    "\<forall>b. bit code2 b \<longleftrightarrow> (\<exists>p. bit (gk_pin_down ?g) p \<and> pin_pressed c e p \<and> reports c b p)"
    using down_raw by (auto simp: s1 Bex_def)
  define g2 where "g2 = ?g\<lparr>gk_pin_dither := di1, gk_pin_down := d2\<rparr>"
  define deb where "deb = (KEY_DEBOUNCE_INTERVAL \<le> sub32 (ke_time e) (gk_time_debounce ?g))"
  have g2: "gk_time_debounce g2 = gk_time_debounce ?g" by (simp add: g2_def)
  obtain code' da' di' pd' where r3: "gpio_debounce_pins c e (set_bits (gk_pin_debounce ?g)) (code2, 0, 0, d2) g2 =
      Some (code', da', di', pd')"
    and deb_raw: "\<forall>b. bit da' b \<longleftrightarrow> bit (0 :: u32) b \<or> b \<in> set (set_bits (gk_pin_debounce ?g)) \<and> pin_pressed c e b \<and> deb"
    "\<forall>b. bit di' b \<longleftrightarrow> bit (0 :: u32) b \<or> b \<in> set (set_bits (gk_pin_debounce ?g)) \<and> \<not> pin_pressed c e b"
    "\<forall>b. bit pd' b \<longleftrightarrow> bit d2 b \<or> b \<in> set (set_bits (gk_pin_debounce ?g)) \<and> pin_pressed c e b \<and> deb"
    "\<forall>b. bit code' b \<longleftrightarrow> bit code2 b \<or>
      (\<exists>p\<in>set (set_bits (gk_pin_debounce ?g)). pin_pressed c e p \<and> deb \<and> reports c b p)"
    using gpio_debounce_pins_eq [OF mem(1) [OF pd(2)] mem(2) [OF pd(2)], of e code2 0 0 d2 g2]
    unfolding g2 deb_def [symmetric] by blast
  have debs: "\<forall>b. bit da' b \<longleftrightarrow> bit (gk_pin_debounce ?g) b \<and> pin_pressed c e b \<and> deb"
    "\<forall>b. bit di' b \<longleftrightarrow> bit (gk_pin_debounce ?g) b \<and> \<not> pin_pressed c e b"
    "\<forall>b. bit pd' b \<longleftrightarrow> bit d2 b \<or> bit (gk_pin_debounce ?g) b \<and> pin_pressed c e b \<and> deb"
    "\<forall>b. bit code' b \<longleftrightarrow> bit code2 b \<or>
      (\<exists>p. bit (gk_pin_debounce ?g) p \<and> pin_pressed c e p \<and> deb \<and> reports c b p)"
    using deb_raw by (auto simp: Bex_def)
  define gf where "gf = g2\<lparr>gk_pin_down := pd', gk_pin_debounce := gk_pin_debounce ?g AND NOT (da' OR di'),
    gk_pin_dither := di1 OR di'\<rparr>"
  have k: "ks_gpio (s1\<lparr>ks_gpio := (ks_gpio s1)\<lparr>gk_pin_down := d2\<rparr>, ks_gpio_irq := w2\<rparr>) = g2"
    "gk_pin_debounce g2 = gk_pin_debounce ?g" "gk_pin_down g2 = d2"
    by (simp_all add: s1_def g2_def)
  have "gpiokey_debounce c e s = Some (code', s\<lparr>ks_gpio := gf, ks_gpio_irq := w2\<rparr>)"
    unfolding gpiokey_debounce_def Let_def el_def [symmetric] r1_def [symmetric]
    by (simp only: assert r1(1) s1_def [symmetric] s1(2) r2 r3 k bind.bind_lunit simp_thms if_False prod.case)
      (simp add: s1_def g2_def gf_def)
  moreover have "pin_tick c e s (code', s\<lparr>ks_gpio := gf, ks_gpio_irq := w2\<rparr>)"
  proof -
    have irq: "\<forall>p<32. bit w2 p \<longleftrightarrow> bit (ks_gpio_irq s) p \<or> bit (gk_pin_dither ?g) p \<and> el \<or>
        bit (gk_pin_down ?g) p \<and> \<not> pin_pressed c e p"
      using r1(2) down(1) by blast
    have pd': "bit pd' p \<longleftrightarrow> pin_pressed c e p \<and> (bit (gk_pin_down ?g) p \<or> bit (gk_pin_debounce ?g) p \<and> deb)"
      if "p < 32" for p
      using down(2) debs(3) that by blast
    have code: "bit code' b \<longleftrightarrow> (\<exists>p<32. bit pd' p \<and> reports c b p)" for b
      using down(3) debs(4) pd' lt by metis
    have rest: "\<forall>p<32. bit (di1 OR di') p \<longleftrightarrow> bit (gk_pin_dither ?g) p \<and> \<not> el \<or>
        bit (gk_pin_debounce ?g) p \<and> \<not> pin_pressed c e p"
      "\<forall>p<32. bit (gk_pin_debounce ?g AND NOT (da' OR di')) p \<longleftrightarrow>
        bit (gk_pin_debounce ?g) p \<and> pin_pressed c e p \<and> \<not> deb"
      using r1(3) debs(1,2) by (auto simp: bit_or_iff bit_and_iff bit_not_iff)
    show ?thesis
      unfolding pin_tick_def Let_def el_def [symmetric] deb_def [symmetric]
      using irq rest pd' code by (auto simp: gf_def)
  qed
  ultimately show ?thesis by blast
qed

section \<open>The handlers keep the invariant\<close>

lemma pwrkey_debounce_frame:
  "snd (pwrkey_debounce e s) = s\<lparr>ks_pwr := ks_pwr (snd (pwrkey_debounce e s)),
     ks_pwr_irq := ks_pwr_irq (snd (pwrkey_debounce e s))\<rparr>"
  by (simp add: pwrkey_debounce_def Let_def hal_pwrkey_enable_int_def)

lemma pwrkey_debounce_irq:
  "ks_pwr_irq s = (\<not> pwrkey_active (ks_pwr s)) \<Longrightarrow>
   ks_pwr_irq (snd (pwrkey_debounce e s)) = (\<not> pwrkey_active (ks_pwr (snd (pwrkey_debounce e s))))"
  by (simp add: pwrkey_debounce_def Let_def hal_pwrkey_enable_int_def pwrkey_active_def)

lemma pwrkey_debounce_code:
  "fst (pwrkey_debounce e s) = 0 \<or>
   fst (pwrkey_debounce e s) = HAL_KEY_CODE_PWR \<and> ke_pwr_pressed e \<and> pk_pressed (ks_pwr (snd (pwrkey_debounce e s)))"
  by (auto simp: pwrkey_debounce_def Let_def pwrkey_active_def)

lemma pwrkey_debounce_eq:
  assumes "ks_pwr_irq s = (\<not> pwrkey_active (ks_pwr s))"
  obtains code p where "pwrkey_debounce e s = (code, s\<lparr>ks_pwr := p, ks_pwr_irq := \<not> pwrkey_active p\<rparr>)"
    "code = 0 \<or> code = HAL_KEY_CODE_PWR \<and> ke_pwr_pressed e \<and> pk_pressed p"
proof (rule that)
  show "pwrkey_debounce e s = (fst (pwrkey_debounce e s), s\<lparr>ks_pwr := ks_pwr (snd (pwrkey_debounce e s)),
      ks_pwr_irq := \<not> pwrkey_active (ks_pwr (snd (pwrkey_debounce e s)))\<rparr>)"
    by (simp only: pwrkey_debounce_irq [OF assms, symmetric] pwrkey_debounce_frame [symmetric] prod.collapse)
qed (rule pwrkey_debounce_code)

lemma adckey_debounce_frame:
  "snd (adckey_debounce e s) = s\<lparr>ks_adc := ks_adc (snd (adckey_debounce e s)),
     ks_adc_irq := ks_adc_irq (snd (adckey_debounce e s)),
     ks_adc_channel := ks_adc_channel (snd (adckey_debounce e s))\<rparr>"
  by (simp add: adckey_debounce_def Let_def hal_adckey_enable_adc_int_def hal_adckey_enable_press_int_def)

lemma adckey_debounce_code:
  "fst (adckey_debounce e s) = 0 \<or> fst (adckey_debounce e s) = ak_code_down (ks_adc (snd (adckey_debounce e s)))"
  by (simp add: adckey_debounce_def Let_def hal_adckey_enable_adc_int_def)

lemma adckey_debounce_eq:
  obtains code a q ch where
    "adckey_debounce e s = (code, s\<lparr>ks_adc := a, ks_adc_irq := q, ks_adc_channel := ch\<rparr>)"
    "code = 0 \<or> code = ak_code_down a"
proof (rule that)
  show "adckey_debounce e s = (fst (adckey_debounce e s), s\<lparr>ks_adc := ks_adc (snd (adckey_debounce e s)),
      ks_adc_irq := ks_adc_irq (snd (adckey_debounce e s)),
      ks_adc_channel := ks_adc_channel (snd (adckey_debounce e s))\<rparr>)"
    by (simp only: adckey_debounce_frame [symmetric] prod.collapse)
qed (rule adckey_debounce_code)

text \<open>Where a reported code bit comes from.\<close>

definition key_held :: "key_cfg \<Rightarrow> key_env \<Rightarrow> key_state \<Rightarrow> nat \<Rightarrow> bool" where
  "key_held c e t b \<longleftrightarrow> b = 0 \<and> ke_pwr_pressed e \<and> pk_pressed (ks_pwr t) \<or>
     kc_adc c \<noteq> [] \<and> bit (ak_code_down (ks_adc t)) b \<or>
     (\<exists>p<32. pin_pressed c e p \<and> bit (gk_pin_down (ks_gpio t)) p \<and> reports c b p)"

lemma pin_phases_cases:
  "pin_phases s p = of_bool P \<longleftrightarrow>
     (P \<longleftrightarrow> bit (ks_gpio_irq s) p \<or> bit (gk_pin_debounce (ks_gpio s)) p \<or> bit (gk_pin_dither (ks_gpio s)) p \<or>
        bit (gk_pin_down (ks_gpio s)) p) \<and>
     \<not> (bit (ks_gpio_irq s) p \<and> bit (gk_pin_debounce (ks_gpio s)) p) \<and>
     \<not> (bit (ks_gpio_irq s) p \<and> bit (gk_pin_dither (ks_gpio s)) p) \<and>
     \<not> (bit (ks_gpio_irq s) p \<and> bit (gk_pin_down (ks_gpio s)) p) \<and>
     \<not> (bit (gk_pin_debounce (ks_gpio s)) p \<and> bit (gk_pin_dither (ks_gpio s)) p) \<and>
     \<not> (bit (gk_pin_debounce (ks_gpio s)) p \<and> bit (gk_pin_down (ks_gpio s)) p) \<and>
     \<not> (bit (gk_pin_dither (ks_gpio s)) p \<and> bit (gk_pin_down (ks_gpio s)) p)"
  by (cases P) (auto simp: pin_phases_def split: split_of_bool)

lemma pin_tick_phases:
  assumes "pin_tick c e s (code, t)" "\<forall>p<32. pin_phases s p = of_bool (p \<in> key_pins c)"
  shows "\<forall>p<32. pin_phases t p = of_bool (p \<in> key_pins c)"
proof (intro allI impI)
  fix p :: nat assume "p < 32"
  then show "pin_phases t p = of_bool (p \<in> key_pins c)"
    using assms unfolding pin_phases_cases pin_tick_def Let_def prod.case by blast
qed

lemma pin_tick_code:
  assumes "pin_tick c e s (code, t)" "bit code b"
  shows "\<exists>p<32. pin_pressed c e p \<and> bit (gk_pin_down (ks_gpio t)) p \<and> reports c b p"
  using assms unfolding pin_tick_def Let_def prod.case by blast

lemma emit_frame [simp]:
  "ks_timer_active (emit l s) = ks_timer_active s" "ks_timer (emit l s) = ks_timer s"
  "ks_pwr (emit l s) = ks_pwr s" "ks_pwr_irq (emit l s) = ks_pwr_irq s"
  "ks_gpio (emit l s) = ks_gpio s" "ks_gpio_irq (emit l s) = ks_gpio_irq s"
  "ks_adc (emit l s) = ks_adc s" "ks_sleep (emit l s) = ks_sleep s"
  by (simp_all add: emit_def)

lemma pin_phases_cong:
  "ks_gpio s = ks_gpio t \<Longrightarrow> ks_gpio_irq s = ks_gpio_irq t \<Longrightarrow> pin_phases s p = pin_phases t p"
  by (simp add: pin_phases_def)

text \<open>The last part of the handler: run again or let the system sleep.\<close>

lemma rearm_inv:
  assumes "\<not> ks_timer_active s" "ks_timer s = Some Debounce_handler"
    and "\<forall>p<32. pin_phases s p = of_bool (p \<in> key_pins c)"
    and "ks_pwr_irq s = (\<not> pwrkey_active (ks_pwr s))" "st_inv (ks_status s)"
    and "pwrkey_active (ks_pwr s) \<or> gpiokey_active (ks_gpio s) \<or>
      st_event (ks_status s) \<noteq> HAL_KEY_EVENT_NONE \<longrightarrow> need"
  shows "key_inv c (if need then hal_key_debounce_timer_restart s
    else s\<lparr>ks_sleep := snd (hal_sys_wake_unlock HAL_SYS_WAKE_LOCK_USER_KEY (ks_sleep s))\<rparr>)"
proof (cases need)
  case True
  have "pin_phases (hal_key_debounce_timer_restart s) p = pin_phases s p" for p
    by (rule pin_phases_cong) simp_all
  with True assms restart_lock [of s] show ?thesis by (simp add: key_inv_def)
next
  case False
  have "pin_phases (s\<lparr>ks_sleep := l\<rparr>) p = pin_phases s p" for p l by (rule pin_phases_cong) simp_all
  with False assms show ?thesis by (simp add: key_inv_def holds_lock_def)
qed

lemma debounce_handler_inv:
  assumes inv: "key_inv c s" and timer: "ks_timer s = Some Debounce_handler"
  shows "\<exists>t. hal_key_debounce_handler c e s = Some t \<and> key_inv c t \<and>
    (\<forall>b. bit (st_code_down (ks_status t)) b \<longrightarrow> key_held c e t b)"
proof -
  define s0 where "s0 = s\<lparr>ks_timer_active := False\<rparr>"
  from inv timer have pins: "\<forall>p<32. pin_phases s p = of_bool (p \<in> key_pins c)"
    and irq: "ks_pwr_irq s0 = (\<not> pwrkey_active (ks_pwr s0))" and st: "st_inv (ks_status s)"
    by (simp_all add: key_inv_def s0_def)
  obtain code1 p where 1: "pwrkey_debounce e s0 = (code1, s0\<lparr>ks_pwr := p, ks_pwr_irq := \<not> pwrkey_active p\<rparr>)"
    "code1 = 0 \<or> code1 = HAL_KEY_CODE_PWR \<and> ke_pwr_pressed e \<and> pk_pressed p"
    using pwrkey_debounce_eq [OF irq] by blast
  define s1 where "s1 = s0\<lparr>ks_pwr := p, ks_pwr_irq := \<not> pwrkey_active p\<rparr>"
  obtain code2 a q ch where 2: "(if kc_adc c \<noteq> [] then adckey_debounce e s1 else (0, s1)) =
      (code2, s1\<lparr>ks_adc := a, ks_adc_irq := q, ks_adc_channel := ch\<rparr>)"
    "code2 = 0 \<or> kc_adc c \<noteq> [] \<and> code2 = ak_code_down a"
  proof (cases "kc_adc c = []")
    case True
    then show ?thesis
      by (intro that [of 0 "ks_adc_channel s1" "ks_adc_irq s1" "ks_adc s1"]) simp_all
  next
    case False
    obtain code a q ch where
      "adckey_debounce e s1 = (code, s1\<lparr>ks_adc := a, ks_adc_irq := q, ks_adc_channel := ch\<rparr>)"
      "code = 0 \<or> code = ak_code_down a"
      by (rule adckey_debounce_eq)
    with False show ?thesis by (intro that [of code ch q a]) simp_all
  qed
  define s2 where "s2 = s1\<lparr>ks_adc := a, ks_adc_irq := q, ks_adc_channel := ch\<rparr>"
  have g2: "ks_gpio s2 = ks_gpio s" "ks_gpio_irq s2 = ks_gpio_irq s" "ks_status s2 = ks_status s"
    "\<not> ks_timer_active s2" "ks_timer s2 = Some Debounce_handler" "ks_pwr s2 = p"
    "ks_pwr_irq s2 = (\<not> pwrkey_active p)" "ks_adc s2 = a"
    by (simp_all add: s2_def s1_def s0_def timer)
  have pins2: "\<forall>p<32. pin_phases s2 p = of_bool (p \<in> key_pins c)"
    using pins pin_phases_cong [of s2 s] g2 by simp
  then have pin: "\<forall>p<32. bit (gk_pin_debounce (ks_gpio s2)) p \<or> bit (gk_pin_dither (ks_gpio s2)) p \<or>
      bit (gk_pin_down (ks_gpio s2)) p \<longrightarrow> p \<in> key_pins c"
    "\<forall>p<32. \<not> (bit (gk_pin_debounce (ks_gpio s2)) p \<and> bit (gk_pin_dither (ks_gpio s2)) p)"
    unfolding pin_phases_cases by blast+
  obtain code3 g w where 3: "gpiokey_debounce c e s2 = Some (code3, s2\<lparr>ks_gpio := g, ks_gpio_irq := w\<rparr>)"
    "pin_tick c e s2 (code3, s2\<lparr>ks_gpio := g, ks_gpio_irq := w\<rparr>)"
    using gpiokey_debounce_eq [OF pin, of e] by blast
  define s3 where "s3 = s2\<lparr>ks_gpio := g, ks_gpio_irq := w\<rparr>"
  have pins3: "\<forall>p<32. pin_phases s3 p = of_bool (p \<in> key_pins c)"
    using pin_tick_phases [OF 3(2) pins2] by (simp add: s3_def)
  define code where "code = code1 OR code2 OR code3"
  have "st_inv (ks_status s3)" using st g2 by (simp add: s3_def)
  from key_classify_eq [OF this, of "ke_time e" code] obtain l k where
    4: "key_classify (ke_time e) code s3 = (emit l s3)\<lparr>ks_status := k\<rparr>" "st_inv k" "st_code_down k = code"
    by blast
  define s4 where "s4 = (emit l s3)\<lparr>ks_status := k\<rparr>"
  define need where "need = (pwrkey_active p \<or> (kc_adc c \<noteq> [] \<and> adckey_active a) \<or> gpiokey_active g \<or>
    st_event k \<noteq> HAL_KEY_EVENT_NONE)"
  define t where "t = (if need then hal_key_debounce_timer_restart s4
    else s4\<lparr>ks_sleep := snd (hal_sys_wake_unlock HAL_SYS_WAKE_LOCK_USER_KEY (ks_sleep s4))\<rparr>)"
  have "hal_key_debounce_handler c e s = Some t"
    unfolding hal_key_debounce_handler_def Let_def s0_def [symmetric] 1(1) prod.case s1_def [symmetric] 2(1)
      s2_def [symmetric] 3(1) bind.bind_lunit s3_def [symmetric] code_def [symmetric] 4(1) s4_def [symmetric]
    by (simp add: t_def need_def s4_def s3_def g2 s1_def disj_assoc)
  moreover have s4: "ks_pwr s4 = p" "ks_gpio s4 = g" "ks_status s4 = k" "ks_adc s4 = a"
    by (simp_all add: s4_def s3_def g2)
  moreover have "key_inv c t"
    unfolding t_def
  proof (rule rearm_inv)
    show "\<forall>p<32. pin_phases s4 p = of_bool (p \<in> key_pins c)"
      using pins3 pin_phases_cong [of s4 s3] by (simp add: s4_def)
  qed (use g2 4(2) in \<open>auto simp: s4_def s3_def need_def\<close>)
  moreover have "key_held c e t b" if "bit (st_code_down (ks_status t)) b" for b
  proof -
    have t: "ks_pwr t = p" "ks_gpio t = g" "ks_status t = k" "ks_adc t = a"
      using s4 by (auto simp: t_def hal_key_debounce_timer_restart_def)
    from that have "bit code1 b \<or> bit code2 b \<or> bit code3 b" by (simp add: t 4(3) code_def bit_or_iff)
    moreover have "\<exists>p<32. pin_pressed c e p \<and> bit (gk_pin_down g) p \<and> reports c b p" if "bit code3 b"
      using pin_tick_code [OF 3(2) that] by simp
    ultimately show ?thesis
      using 1(2) 2(2) unfolding key_held_def t by (auto simp: bit_1_iff)
  qed
  ultimately show ?thesis by blast
qed

lemma restart_inv:
  assumes "key_inv c s"
  shows "key_inv c (hal_key_debounce_timer_restart s)"
proof -
  have "pin_phases (hal_key_debounce_timer_restart s) p = pin_phases s p" for p
    by (rule pin_phases_cong) simp_all
  with assms restart_lock [of s] show ?thesis by (auto simp: key_inv_def)
qed

lemma restart_invI:
  assumes "ks_timer s = Some Debounce_handler" "\<forall>p<32. pin_phases s p = of_bool (p \<in> key_pins c)"
    and "ks_pwr_irq s = (\<not> pwrkey_active (ks_pwr s))" "st_inv (ks_status s)"
    and "ks_timer_active s \<longrightarrow> holds_lock s"
  shows "key_inv c (hal_key_debounce_timer_restart s)"
proof -
  have "pin_phases (hal_key_debounce_timer_restart s) p = pin_phases s p" for p
    by (rule pin_phases_cong) simp_all
  with assms restart_lock [of s] show ?thesis by (simp add: key_inv_def)
qed

lemma key_invD:
  assumes "key_inv c s" "ks_timer s = Some Debounce_handler"
  shows "\<forall>p<32. pin_phases s p = of_bool (p \<in> key_pins c)"
    "ks_pwr_irq s = (\<not> pwrkey_active (ks_pwr s))" "st_inv (ks_status s)"
    "ks_timer_active s \<longrightarrow> holds_lock s"
  using assms by (simp_all add: key_inv_def)

lemma adc_irq_inv:
  assumes "key_inv c s"
  shows "key_inv c (hal_adckey_irqhandler c e v mv s)"
proof -
  have frame: "key_inv c t" if "ks_gpio t = ks_gpio s" "ks_gpio_irq t = ks_gpio_irq s"
    "ks_pwr t = ks_pwr s" "ks_pwr_irq t = ks_pwr_irq s" "ks_timer t = ks_timer s"
    "ks_timer_active t = ks_timer_active s" "ks_status t = ks_status s" "ks_sleep t = ks_sleep s" for t
    using assms that pin_phases_cong [of t s] by (simp add: key_inv_def holds_lock_def)
  show ?thesis
    by (auto simp: hal_adckey_irqhandler_def Let_def hal_adckey_disable_allint_def
        hal_adckey_enable_adc_int_def intro!: restart_inv frame)
qed

lemma pwr_irq_inv:
  assumes "key_inv c s" "ks_pwr_irq s"
  shows "key_inv c (hal_pwrkey_handle_irq_state e True s)"
proof -
  define p where "p = (let p = (ks_pwr s)\<lparr>pk_pressed := ke_pwr_pressed e\<rparr> in
    if pk_pressed p then p\<lparr>pk_debounce := True\<rparr> else p\<lparr>pk_dither := True\<rparr>)\<lparr>pk_time := ke_time e\<rparr>"
  define t where "t = s\<lparr>ks_pwr_irq := False, ks_pwr := p\<rparr>"
  have t: "hal_pwrkey_handle_irq_state e True s = hal_key_debounce_timer_restart t"
    by (simp add: hal_pwrkey_handle_irq_state_def hal_pwrkey_disable_int_def Let_def t_def p_def)
  have timer: "ks_timer s = Some Debounce_handler" using assms by (auto simp: key_inv_def split: if_splits)
  note inv = key_invD [OF assms(1) timer]
  have "pin_phases t q = pin_phases s q" for q by (rule pin_phases_cong) (simp_all add: t_def)
  moreover have "pwrkey_active p" by (simp add: p_def pwrkey_active_def Let_def)
  ultimately show ?thesis
    unfolding t using inv timer by (intro restart_invI) (simp_all add: t_def holds_lock_def)
qed

lemma gpio_irq_inv:
  assumes inv: "key_inv c s" and irq: "bit (ks_gpio_irq s) p" and p: "p < 32"
  shows "\<exists>t. hal_gpiokey_irqhandler c e p s = Some t \<and> key_inv c t"
proof -
  from inv irq p have timer: "ks_timer s = Some Debounce_handler"
    by (fastforce simp: key_inv_def pin_phases_def split: if_splits)
  with inv have ph: "\<forall>p<32. pin_phases s p = of_bool (p \<in> key_pins c)" by (simp add: key_inv_def)
  with irq p have "p \<in> key_pins c" unfolding pin_phases_cases by blast
  then obtain k where k: "hal_gpiokey_find_index c p = Some k" by (auto elim: find_index_Some)
  let ?g = "ks_gpio s"
  define g where "g = (if ke_pin_val e p = gc_down k
    then ?g\<lparr>gk_pin_debounce := gk_pin_debounce ?g OR 2 ^ p, gk_time_debounce := ke_time e\<rparr>
    else ?g\<lparr>gk_pin_dither := gk_pin_dither ?g OR 2 ^ p, gk_time_dither := ke_time e\<rparr>)"
  define t where "t = s\<lparr>ks_gpio_irq := ks_gpio_irq s AND NOT (2 ^ p), ks_gpio := g\<rparr>"
  have "hal_gpiokey_irqhandler c e p s = Some (hal_key_debounce_timer_restart t)"
    by (simp add: hal_gpiokey_irqhandler_def hal_gpiokey_pressed_def hal_gpiokey_disable_irq_def k
        Let_def t_def g_def)
  moreover have "key_inv c (hal_key_debounce_timer_restart t)"
  proof -
    have "pin_phases t q = of_bool (q \<in> key_pins c)" if q: "q < 32" for q
    proof -
      have "pin_phases s q = of_bool (q \<in> key_pins c)" using ph q by blast
      then show ?thesis
        using irq p q unfolding pin_phases_cases by (cases "q = p") (auto simp: t_def g_def)
    qed
    then show ?thesis
      using key_invD [OF inv timer] timer by (intro restart_invI) (simp_all add: t_def holds_lock_def)
  qed
  ultimately show ?thesis by blast
qed

lemma enable_pins:
  assumes "\<forall>g\<in>set gs. gc_pin g < 32"
  shows "\<exists>w. fold (\<lambda>g s. if gc_code g = HAL_KEY_CODE_NONE then s else hal_gpiokey_enable_irq (gc_pin g) s) gs s =
      s\<lparr>ks_gpio_irq := w\<rparr> \<and>
    (\<forall>b. bit w b \<longleftrightarrow> bit (ks_gpio_irq s) b \<or> (\<exists>g\<in>set gs. gc_code g \<noteq> HAL_KEY_CODE_NONE \<and> gc_pin g = b))"
  using assms
proof (induction gs arbitrary: s)
  case Nil
  show ?case by (intro exI [of _ "ks_gpio_irq s"]) simp
next
  case (Cons g gs)
  define s1 where "s1 = (if gc_code g = HAL_KEY_CODE_NONE then s else hal_gpiokey_enable_irq (gc_pin g) s)"
  have *: "\<forall>g\<in>set gs. gc_pin g < 32" "gc_pin g < 32" using Cons.prems by auto
  obtain w where w: "fold (\<lambda>g s. if gc_code g = HAL_KEY_CODE_NONE then s else hal_gpiokey_enable_irq (gc_pin g) s) gs s1 =
      s1\<lparr>ks_gpio_irq := w\<rparr>"
    "\<forall>b. bit w b \<longleftrightarrow> bit (ks_gpio_irq s1) b \<or> (\<exists>g\<in>set gs. gc_code g \<noteq> HAL_KEY_CODE_NONE \<and> gc_pin g = b)"
    using Cons.IH [OF *(1), of s1] by blast
  have s1: "s1\<lparr>ks_gpio_irq := w\<rparr> = s\<lparr>ks_gpio_irq := w\<rparr>" by (simp add: s1_def hal_gpiokey_enable_irq_def)
  show ?case
    by (intro exI [of _ w]) (use w *(2) s1 in \<open>auto simp: s1_def hal_gpiokey_enable_irq_def\<close>)
qed

lemma enable_allint_eq:
  assumes "pins_ok c"
  shows "\<exists>q w. hal_key_enable_allint c s = s\<lparr>ks_pwr_irq := True, ks_adc_irq := q, ks_gpio_irq := w\<rparr> \<and>
    (\<forall>b. bit w b \<longleftrightarrow> bit (ks_gpio_irq s) b \<or> b \<in> key_pins c)"
proof -
  define q where "q = (if kc_adc c \<noteq> [] then HAL_ADCKEY_IRQ_PRESSED else ks_adc_irq s)"
  define s1 where "s1 = s\<lparr>ks_pwr_irq := True, ks_adc_irq := q\<rparr>"
  have "\<forall>g\<in>set (kc_gpio c). gc_pin g < 32" using assms by (simp add: pins_ok_def list_all_iff)
  from enable_pins [OF this, of s1] obtain w where
    "hal_gpiokey_enable_allint c s1 = s1\<lparr>ks_gpio_irq := w\<rparr>"
    "\<forall>b. bit w b \<longleftrightarrow> bit (ks_gpio_irq s1) b \<or> (\<exists>g\<in>set (kc_gpio c). gc_code g \<noteq> HAL_KEY_CODE_NONE \<and> gc_pin g = b)"
    unfolding hal_gpiokey_enable_allint_def by blast
  moreover have "hal_key_enable_allint c s = hal_gpiokey_enable_allint c s1"
    by (simp add: hal_key_enable_allint_def s1_def q_def Let_def hal_pwrkey_enable_int_def
        hal_adckey_enable_press_int_def)
  ultimately show ?thesis by (intro exI [of _ q] exI [of _ w]) (auto simp: s1_def key_pins_def)
qed

lemma enabled_inv:
  assumes "pins_ok c" "ks_timer s = Some Debounce_handler" "\<not> ks_timer_active s" "\<not> holds_lock s"
    and "\<forall>p<32. pin_phases s p = 0" "ks_pwr s = reset_pwr" "ks_status s = reset_status"
  shows "key_inv c (hal_key_enable_allint c s)"
proof -
  obtain q w where e: "hal_key_enable_allint c s = s\<lparr>ks_pwr_irq := True, ks_adc_irq := q, ks_gpio_irq := w\<rparr>"
    "\<forall>b. bit w b \<longleftrightarrow> bit (ks_gpio_irq s) b \<or> b \<in> key_pins c" using enable_allint_eq [OF assms(1)] by blast
  define t where "t = s\<lparr>ks_pwr_irq := True, ks_adc_irq := q, ks_gpio_irq := w\<rparr>"
  have z: "\<not> bit (ks_gpio_irq s) p" "\<not> bit (gk_pin_debounce (ks_gpio s)) p"
    "\<not> bit (gk_pin_dither (ks_gpio s)) p" "\<not> bit (gk_pin_down (ks_gpio s)) p" if "p < 32" for p
    using assms(5) that by (auto simp: pin_phases_def)
  have "m = 0" if "\<forall>p<32. \<not> bit m p" for m :: u32
    by (rule bit_eqI) (use that in \<open>simp\<close>)
  then have "\<not> gpiokey_active (ks_gpio t)" using z by (simp add: gpiokey_active_def t_def)
  moreover have "\<forall>p<32. pin_phases t p = of_bool (p \<in> key_pins c)"
    using z e(2) by (auto simp: pin_phases_def t_def)
  moreover have "\<not> pwrkey_active (ks_pwr t)" "st_inv (ks_status t)" "st_event (ks_status t) = 0"
    using assms(6,7) by (simp_all add: t_def pwrkey_active_def reset_pwr_def st_inv_def reset_status_def
        MAX_KEY_CLICK_COUNT_def)
  ultimately show ?thesis
    using assms(2-4) unfolding e(1) t_def [symmetric] by (simp add: key_inv_def) (simp add: t_def holds_lock_def)
qed

lemma boot_pwrkey_frame:
  "boot_pwrkey e s = s\<lparr>ks_pwr := ks_pwr (boot_pwrkey e s), ks_status := ks_status (boot_pwrkey e s)\<rparr>"
  by (simp add: boot_pwrkey_def Let_def)

lemma boot_event_frame:
  "boot_event now s = s\<lparr>ks_status := ks_status (boot_event now s), ks_log := ks_log (boot_event now s)\<rparr>"
  by (simp add: boot_event_def Let_def send_key_event_def)

lemma boot_handler_inv:
  assumes inv: "key_inv c s" and timer: "ks_timer s = Some Boot_handler" and ok: "pins_ok c"
  shows "key_inv c (hal_key_boot_handler c e s)"
proof -
  define s1 where "s1 = boot_pwrkey e (s\<lparr>ks_timer_active := False\<rparr>)"
  have s1: "ks_timer s1 = Some Boot_handler" "\<not> ks_timer_active s1" "\<not> ks_pwr_irq s1"
    "ks_gpio s1 = ks_gpio s" "ks_gpio_irq s1 = ks_gpio_irq s"
    using inv timer unfolding s1_def
    by (subst boot_pwrkey_frame, simp add: key_inv_def)+
  have ph: "\<forall>p<32. pin_phases s p = 0" using inv timer by (simp add: key_inv_def)
  show ?thesis
  proof (cases "pwrkey_active (ks_pwr s1)")
    case True
    define s2 where "s2 = boot_event (ke_time e) s1"
    have s2: "ks_timer s2 = Some Boot_handler" "\<not> ks_timer_active s2" "\<not> ks_pwr_irq s2"
      "ks_gpio s2 = ks_gpio s" "ks_gpio_irq s2 = ks_gpio_irq s" "ks_pwr s2 = ks_pwr s1"
      using s1 unfolding s2_def by (subst boot_event_frame, simp)+
    have "pin_phases (hal_key_debounce_timer_restart s2) p = pin_phases s p" for p
      by (rule pin_phases_cong) (simp_all add: s2)
    then show ?thesis
      using True s2 ph restart_lock [of s2]
      by (simp add: hal_key_boot_handler_def s1_def [symmetric] s2_def [symmetric] key_inv_def)
  next
    case False
    define s2 where "s2 = (let s = (if st_event (ks_status s1) = HAL_KEY_EVENT_NONE \<or>
        st_event (ks_status s1) = HAL_KEY_EVENT_INITDOWN
        then send_key_event HAL_KEY_CODE_PWR HAL_KEY_EVENT_INITUP s1 else s1)
      in send_key_event HAL_KEY_CODE_PWR HAL_KEY_EVENT_INITFINISHED s)"
    define s3 where "s3 = s2\<lparr>ks_timer := Some Debounce_handler,
      ks_sleep := snd (hal_sys_wake_unlock HAL_SYS_WAKE_LOCK_USER_KEY (ks_sleep s2)),
      ks_status := reset_status, ks_pwr := reset_pwr\<rparr>"
    have "hal_key_boot_handler c e s = hal_key_enable_allint c s3"
      using False by (simp add: hal_key_boot_handler_def s1_def [symmetric] s3_def s2_def Let_def)
    moreover have "pin_phases s3 p = pin_phases s p" for p
      by (rule pin_phases_cong) (simp_all add: s3_def s2_def s1)
    ultimately show ?thesis
      using ok ph s1(2) by (simp add: enabled_inv s3_def s2_def holds_lock_def Let_def)
  qed
qed

lemma open_inv:
  assumes "hal_key_open c e startup timer_ok chk cb s = Some (0, t)" "keys_closed s" "pins_ok c"
  shows "key_inv c t"
proof -
  define a where "a = (if kc_adc c \<noteq> [] then ks_adc (hal_adckey_open c s) else ks_adc s)"
  define v where "v = (if kc_adc c \<noteq> [] then ks_volt_table (hal_adckey_open c s) else ks_volt_table s)"
  define m where "m = s\<lparr>ks_callback := cb, ks_status := reset_status, ks_pwr := reset_pwr, ks_adc := a,
    ks_volt_table := v, ks_gpio := reset_gpio\<rparr>"
  have m: "hal_gpiokey_open ((if kc_adc c \<noteq> [] then hal_adckey_open c else id)
      (hal_pwrkey_open (s\<lparr>ks_callback := cb, ks_status := reset_status\<rparr>))) = m"
    by (simp add: m_def a_def v_def hal_gpiokey_open_def hal_adckey_open_def hal_pwrkey_open_def Let_def)
  have ph: "pin_phases m p = 0" for p
    using assms(2) by (simp add: m_def pin_phases_def reset_gpio_def keys_closed_def)
  have t: "t = (if chk then hal_pwrkey_handle_irq_state e True (m\<lparr>ks_timer := Some Boot_handler\<rparr>)
    else hal_key_enable_allint c (m\<lparr>ks_timer := Some Debounce_handler\<rparr>))"
    using assms(1) m by (auto simp: hal_key_open_def Let_def split: if_splits)
  show ?thesis
  proof (cases chk)
    case True
    define p where "p = (let p = reset_pwr\<lparr>pk_pressed := ke_pwr_pressed e\<rparr> in
      if pk_pressed p then p\<lparr>pk_debounce := True\<rparr> else p\<lparr>pk_dither := True\<rparr>)\<lparr>pk_time := ke_time e\<rparr>"
    define b where "b = m\<lparr>ks_timer := Some Boot_handler, ks_pwr_irq := False, ks_pwr := p\<rparr>"
    have "t = hal_key_debounce_timer_restart b"
      using True by (simp add: t hal_pwrkey_handle_irq_state_def hal_pwrkey_disable_int_def Let_def b_def p_def m_def)
    moreover have "pin_phases (hal_key_debounce_timer_restart b) q = pin_phases m q" for q
      by (rule pin_phases_cong) (simp_all add: b_def)
    moreover have "pwrkey_active p" by (simp add: p_def pwrkey_active_def Let_def)
    moreover have "\<not> ks_timer_active b" using assms(2) by (simp add: b_def m_def keys_closed_def)
    ultimately show ?thesis
      using ph restart_lock [of b] by (simp add: key_inv_def) (simp add: b_def)
  next
    case False
    have "pin_phases (m\<lparr>ks_timer := x\<rparr>) q = 0" for x q
      using ph pin_phases_cong [of "m\<lparr>ks_timer := x\<rparr>" m] by simp
    with False assms(2) show ?thesis
      unfolding t by (simp add: assms(3) enabled_inv m_def keys_closed_def holds_lock_def)
  qed
qed

lemma debounce_handler_keeps:
  "key_inv c s \<Longrightarrow> ks_timer s = Some Debounce_handler \<Longrightarrow>
   \<exists>t. hal_key_debounce_handler c e s = Some t \<and> key_inv c t"
  using debounce_handler_inv by blast

lemma key_step_inv:
  assumes "key_step c s r" "key_inv c s" "pins_ok c"
  shows "\<exists>t. r = Some t \<and> key_inv c t"
  using assms(1)
  by (rule key_step_cases)
    (simp_all add: assms(2,3) pwr_irq_inv adc_irq_inv boot_handler_inv gpio_irq_inv
      debounce_handler_keeps [OF assms(2)])

lemma key_reach_inv:
  assumes "key_reach c s0 r" "key_inv c s0" "pins_ok c"
  shows "\<exists>t. r = Some t \<and> key_inv c t"
  using assms
proof (induction rule: key_reach.induct)
  case (reach_step s r)
  then have "key_inv c s" by simp
  with reach_step show ?case using key_step_inv by blast
qed simp

text \<open>
  The ADC keys can go deaf: when a conversion is not done before the next tick, \<open>adckey_debounce\<close> takes the key for released
  and waits for a press with the channel still open; the late result then turns both off, and with no key in
  progress no later tick turns either on again.
\<close>

lemma adckey_late_conversion:
  assumes "\<not> ak_debounce (ks_adc s)" "\<not> ak_dither (ks_adc s)" "ak_code_down (ks_adc s) \<noteq> HAL_KEY_CODE_NONE"
    and "ak_code_debounce (ks_adc s) \<noteq> ak_code_down (ks_adc s)"
    and "t = hal_adckey_irqhandler c e' (2 ^ 7) vol (snd (adckey_debounce e s))"
  shows "\<not> adckey_active (ks_adc t) \<and> ks_adc_irq t = HAL_ADCKEY_IRQ_NONE \<and> \<not> ks_adc_channel t \<and> adckey_debounce e'' t = (0, t)"
proof -
  have r: "ks_adc_irq (hal_key_debounce_timer_restart u) = ks_adc_irq u" "ks_adc (hal_key_debounce_timer_restart u) = ks_adc u"
    "ks_adc_channel (hal_key_debounce_timer_restart u) = ks_adc_channel u" for u
    by (simp_all add: hal_key_debounce_timer_restart_def)
  have "\<not> adckey_active (ks_adc t) \<and> ks_adc_irq t = HAL_ADCKEY_IRQ_NONE \<and> \<not> ks_adc_channel t"
    using assms(1-4) unfolding assms(5)
    by (simp add: hal_adckey_irqhandler_def adckey_debounce_def adckey_active_def hal_adckey_disable_allint_def
        hal_adckey_enable_press_int_def Let_def bit_exp_iff r)
  then show ?thesis by (simp add: adckey_debounce_def Let_def)
qed

section \<open>Properties\<close>

text \<open>
  C31. From opening on, no interleaving of key interrupts and timer ticks runs into an
  \<open>ASSERT\<close>, and in every state reached the wake lock is held exactly while the timer runs;
  once the boot phase is over each configured GPIO key pin is in exactly one of the phases waiting
  for its interrupt, debounce, dither and down, and a GPIO key or the power key that is not waiting for its interrupt
  has the timer running, so that no GPIO key and no power key goes deaf. Nothing of the kind holds for the ADC keys
  (\<open>adckey_late_conversion\<close>).
\<close>

theorem key_machine_invariant:
  assumes "hal_key_open c e startup timer_ok chk cb s = Some (0, s0)" "keys_closed s" "pins_ok c"
    and "key_reach c s0 r"
  shows "\<exists>t. r = Some t \<and> holds_lock t = ks_timer_active t \<and>
    (ks_timer t = Some Debounce_handler \<longrightarrow>
      (\<forall>p<32. pin_phases t p = of_bool (p \<in> key_pins c)) \<and>
      (\<forall>p\<in>key_pins c. bit (ks_gpio_irq t) p \<or> ks_timer_active t) \<and>
      (ks_pwr_irq t \<or> ks_timer_active t)) \<and>
    (ks_timer t \<noteq> Some Debounce_handler \<longrightarrow> ks_timer_active t)"
proof -
  obtain t where t: "r = Some t" "key_inv c t"
    using key_reach_inv [OF assms(4) open_inv [OF assms(1-3)] assms(3)] by blast
  have "bit (ks_gpio_irq t) p \<or> ks_timer_active t"
    if "ks_timer t = Some Debounce_handler" "p \<in> key_pins c" for p
  proof -
    have "p < 32" using that(2) assms(3) by (auto simp: key_pins_def pins_ok_def list_all_iff)
    then have "pin_phases t p = 1" using t(2) that by (simp add: key_inv_def)
    then have "bit (ks_gpio_irq t) p \<or> gpiokey_active (ks_gpio t)"
      by (auto simp: pin_phases_def gpiokey_active_def)
    then show ?thesis using t(2) that(1) by (auto simp: key_inv_def)
  qed
  then show ?thesis using t by (auto simp: key_inv_def split: if_splits)
qed

text \<open>
  Whatever the debounce handler reports as down is held at that moment: the power key reads
  as pressed, or the ADC key was confirmed, or the pin of a GPIO key is at its active level and
  has passed its debounce time.
\<close>

theorem key_down_is_held:
  assumes "key_inv c s" "ks_timer s = Some Debounce_handler"
  shows "\<exists>t. hal_key_debounce_handler c e s = Some t \<and> key_inv c t \<and>
    (\<forall>b. bit (st_code_down (ks_status t)) b \<longrightarrow> key_held c e t b)"
  using debounce_handler_inv [OF assms] .

section \<open>Witnesses\<close>

definition demo_key_cfg :: key_cfg where
  "demo_key_cfg = \<lparr>kc_gpio = [\<lparr>gc_code = 2, gc_pin = 5, gc_down = 0\<rparr>], kc_adc = [], kc_adc_minvolt = 0,
     kc_adc_maxvolt = 0, kc_adc_basevolt = 0\<rparr>"

definition demo_key_env :: key_env where
  "demo_key_env = \<lparr>ke_time = 1000, ke_pwr_pressed = False, ke_pin_val = (\<lambda>p. 0)\<rparr>"

definition closed_keys :: key_state where
  "closed_keys = idle_keys\<lparr>ks_pwr_irq := False, ks_timer := None\<rparr>"

definition opened_keys :: key_state where
  "opened_keys = closed_keys\<lparr>ks_pwr_irq := True, ks_timer := Some Debounce_handler, ks_gpio_irq := 32\<rparr>"

lemma demo_open:
  "hal_key_open demo_key_cfg demo_key_env [] True False True closed_keys = Some (0, opened_keys)"
  by (simp add: hal_key_open_def hal_pwrkey_open_def hal_gpiokey_open_def hal_key_enable_allint_def
      hal_pwrkey_enable_int_def hal_gpiokey_enable_allint_def hal_gpiokey_enable_irq_def
      demo_key_cfg_def opened_keys_def closed_keys_def idle_keys_def)

lemma demo_closed: "keys_closed closed_keys" "pins_ok demo_key_cfg"
  by (simp_all add: keys_closed_def closed_keys_def idle_keys_def holds_lock_def idle_sleep_def
      pins_ok_def demo_key_cfg_def)

lemma demo_irq: "bit (ks_gpio_irq opened_keys) 5"
  using bit_pin [of 5 5] by (simp add: opened_keys_def)

lemma key_machine_invariant_witness:
  "\<exists>t. hal_gpiokey_irqhandler demo_key_cfg demo_key_env 5 opened_keys = Some t \<and>
    holds_lock t = ks_timer_active t"
  using key_machine_invariant [OF demo_open demo_closed
      reach_step [OF reach_open gpio_irq [OF _ demo_irq, of demo_key_cfg demo_key_env]]]
  by auto

lemma key_down_is_held_witness:
  "\<exists>t. hal_key_debounce_handler demo_key_cfg demo_key_env opened_keys = Some t \<and>
    (\<forall>b. bit (st_code_down (ks_status t)) b \<longrightarrow> key_held demo_key_cfg demo_key_env t b)"
  using key_down_is_held [OF open_inv [OF demo_open demo_closed], of demo_key_env]
  by (auto simp: opened_keys_def)

end
