(* ===== verification/Transq.thy ===== *)
theory Transq
  imports Prelude
begin

text \<open>
  \<open>platform/hal/hal_transq.c\<close>: message slots between two processors. Each side owns 32 slots,
  the lower ones for normal and the upper ones for high priority messages; the slots of a
  priority are used round robin. The state is one transfer unit (\<open>CHIP_HAS_TRANSQ = 1\<close>): the
  configuration, the static variables and the registers. A status register is a bit map; a
  write to its clear alias clears the bits written, the masked status is the raw status and the
  mask. Writes that ring the doorbell (\<open>RMT_INTSET\<close>) are recorded in order. Callbacks are a
  parameter of the interrupt handlers.

  \<open>None\<close> is a failing \<open>ASSERT\<close>, a slot number outside the registers or a shift by 32.
\<close>

unbundle bit_operations_syntax

section \<open>State\<close>

abbreviation (input) "TRANSQ_SLOT_NUM \<equiv> 32 :: nat"
abbreviation (input) "HAL_TRANSQ_ID_QTY \<equiv> 1 :: nat"
abbreviation (input) "HAL_TRANSQ_PRI_NORMAL \<equiv> 0 :: nat"
abbreviation (input) "HAL_TRANSQ_PRI_HIGH \<equiv> 1 :: nat"
abbreviation (input) "HAL_TRANSQ_PRI_QTY \<equiv> 2 :: nat"

datatype transq_ret = RET_OK | RET_BAD_ID | RET_BAD_PRI | RET_BAD_CFG | RET_BAD_SLOT
  | RET_BAD_TX_NUM | RET_BAD_RX_NUM | RET_BAD_MODE | RET_RX_EMPTY | RET_TX_FULL

record transq_slot_num =
  sn_tx :: "nat \<Rightarrow> nat"
  sn_rx :: "nat \<Rightarrow> nat"

record transq_cfg =
  cfg_slot :: transq_slot_num
  cfg_rx_handler :: bool
  cfg_tx_handler :: bool

record transq =
  tq_cfg :: transq_cfg
  next_tx_slot :: "nat \<Rightarrow> nat"
  active_tx_slot :: "nat \<Rightarrow> nat"
  tx_slot_full :: "nat \<Rightarrow> bool"
  next_rx_slot :: "nat \<Rightarrow> nat"
  rx_irq_mask :: "nat \<Rightarrow> u32"
  r_ctrl :: u32
  r_rmt_intmask :: u32
  r_rmt_intset :: "u32 list"
  r_ldone_intmask :: u32
  r_ldone_ris :: u32
  r_lerr_intmask :: u32
  r_lerr_ris :: u32
  r_rmt_ris :: u32
  r_wslot :: "nat \<Rightarrow> nat \<times> nat"
  p_rmt_intmask :: u32
  p_rmt_ris :: u32
  p_rslot :: "nat \<Rightarrow> nat \<times> nat"
  irq_enabled :: "bool \<times> bool"

abbreviation tx_num :: "transq \<Rightarrow> nat \<Rightarrow> nat" where "tx_num t \<equiv> sn_tx (cfg_slot (tq_cfg t))"
abbreviation rx_num :: "transq \<Rightarrow> nat \<Rightarrow> nat" where "rx_num t \<equiv> sn_rx (cfg_slot (tq_cfg t))"

section \<open>Operations\<close>

definition construct_mask :: "nat \<Rightarrow> nat \<Rightarrow> u32" where
  "construct_mask lsb width =
     (if lsb \<ge> 32 \<or> width = 0 then 0 else foldl (\<lambda>result i. result OR 2 ^ i) 0 [lsb..<lsb + width])"

definition next_slot :: "nat \<Rightarrow> nat \<Rightarrow> nat \<Rightarrow> nat" where
  "next_slot num pri slot =
     (let slot = slot + 1 in
      if pri = HAL_TRANSQ_PRI_HIGH then (if slot \<ge> TRANSQ_SLOT_NUM then TRANSQ_SLOT_NUM - num else slot)
      else (if slot \<ge> num then 0 else slot))"

definition get_next_rx_slot :: "transq \<Rightarrow> nat \<Rightarrow> nat \<Rightarrow> nat" where
  "get_next_rx_slot t pri slot = next_slot (rx_num t pri) pri slot"

definition get_next_tx_slot :: "transq \<Rightarrow> nat \<Rightarrow> nat \<Rightarrow> nat" where
  "get_next_tx_slot t pri slot = next_slot (tx_num t pri) pri slot"

text \<open>One round of the receive interrupt: which priority has a message; its slots are masked.\<close>

definition remote_irq_round :: "(nat \<Rightarrow> transq \<Rightarrow> transq option) \<Rightarrow> u32 \<Rightarrow> transq \<Rightarrow> transq option" where
  "remote_irq_round rx_handler status t = do {
     let slot = next_rx_slot t HAL_TRANSQ_PRI_HIGH;
     pri \<leftarrow> (if slot < TRANSQ_SLOT_NUM \<and> bit status slot then Some HAL_TRANSQ_PRI_HIGH
             else let slot = next_rx_slot t HAL_TRANSQ_PRI_NORMAL in
               if slot < TRANSQ_SLOT_NUM \<and> bit status slot then Some HAL_TRANSQ_PRI_NORMAL else None);
     let t = t\<lparr>p_rmt_intmask := p_rmt_intmask t AND NOT (rx_irq_mask t pri)\<rparr>;
     if cfg_rx_handler (tq_cfg t) then rx_handler pri t else Some t }"

partial_function (option) hal_transq_remote_irq_handler ::
  "(nat \<Rightarrow> transq \<Rightarrow> transq option) \<Rightarrow> transq \<Rightarrow> transq option" where
  "hal_transq_remote_irq_handler rx_handler t =
     (let status = p_rmt_ris t AND p_rmt_intmask t in
      if status = 0 then Some t
      else do { t \<leftarrow> remote_irq_round rx_handler status t; hal_transq_remote_irq_handler rx_handler t })"

definition hal_transq_active_tx_valid :: "transq \<Rightarrow> nat \<Rightarrow> bool" where
  "hal_transq_active_tx_valid t pri \<longleftrightarrow>
     active_tx_slot t pri \<ge> TRANSQ_SLOT_NUM \<or> active_tx_slot t pri \<noteq> next_tx_slot t pri \<or> tx_slot_full t pri"

text \<open>The slot of a priority is done; the interrupt handler and \<open>get_tx_status\<close> share these lines.\<close>

definition tx_done :: "nat \<Rightarrow> nat \<Rightarrow> transq \<Rightarrow> transq" where
  "tx_done pri slot t =
     (let t = t\<lparr>r_ldone_ris := r_ldone_ris t AND NOT (2 ^ slot)\<rparr>;
          next_slot = get_next_tx_slot t pri slot
      in if \<not> tx_slot_full t pri \<and> next_slot = next_tx_slot t pri
         then t\<lparr>active_tx_slot := (active_tx_slot t)(pri := TRANSQ_SLOT_NUM)\<rparr>
         else let t = t\<lparr>tx_slot_full := (tx_slot_full t)(pri := False)\<rparr> in
           if tx_num t pri = 1 then t\<lparr>active_tx_slot := (active_tx_slot t)(pri := TRANSQ_SLOT_NUM)\<rparr>
           else t\<lparr>active_tx_slot := (active_tx_slot t)(pri := next_slot)\<rparr>)"




definition hal_transq_get_rx_status :: "nat \<Rightarrow> nat \<Rightarrow> transq \<Rightarrow> transq_ret \<times> bool option" where
  "hal_transq_get_rx_status qid pri t =
     (if qid \<ge> HAL_TRANSQ_ID_QTY then (RET_BAD_ID, None)
      else if pri \<ge> HAL_TRANSQ_PRI_QTY then (RET_BAD_PRI, None)
      else if rx_num t pri = 0 then (RET_BAD_RX_NUM, None)
      else if cfg_rx_handler (tq_cfg t) then (RET_BAD_MODE, None)
      else let slot = next_rx_slot t pri
           in (RET_OK, Some (slot < TRANSQ_SLOT_NUM \<and> bit (p_rmt_ris t) slot)))"

definition hal_transq_get_tx_status ::
  "nat \<Rightarrow> nat \<Rightarrow> transq \<Rightarrow> (transq_ret \<times> bool option \<times> transq) option" where
  "hal_transq_get_tx_status qid pri t =
     (if qid \<ge> HAL_TRANSQ_ID_QTY then Some (RET_BAD_ID, None, t)
      else if pri \<ge> HAL_TRANSQ_PRI_QTY then Some (RET_BAD_PRI, None, t)
      else if tx_num t pri = 0 then Some (RET_BAD_TX_NUM, None, t)
      else if cfg_tx_handler (tq_cfg t) then Some (RET_BAD_MODE, None, t)
      else let slot = active_tx_slot t pri in
        if \<not> hal_transq_active_tx_valid t pri then None
        else if slot \<ge> 32 then None
        else if bit (r_ldone_ris t) slot then Some (RET_OK, Some True, tx_done pri slot t)
        else Some (RET_OK, Some False, t))"

text \<open>The result of the receive functions is the message, \<open>None\<close> for the null pointer.\<close>

definition rx_enable :: "nat \<Rightarrow> transq \<Rightarrow> transq" where
  "rx_enable pri t = t\<lparr>p_rmt_intmask := p_rmt_intmask t OR rx_irq_mask t pri\<rparr>"

definition hal_transq_rx_first ::
  "nat \<Rightarrow> nat \<Rightarrow> transq \<Rightarrow> transq_ret \<times> (nat \<times> nat) option \<times> transq" where
  "hal_transq_rx_first qid pri t =
     (if qid \<ge> HAL_TRANSQ_ID_QTY then (RET_BAD_ID, None, t)
      else if pri \<ge> HAL_TRANSQ_PRI_QTY then (RET_BAD_PRI, None, t)
      else if rx_num t pri = 0 then (RET_BAD_RX_NUM, None, t)
      else let slot = next_rx_slot t pri in
        if slot < TRANSQ_SLOT_NUM \<and> bit (p_rmt_ris t) slot then (RET_OK, Some (p_rslot t slot), t)
        else (RET_RX_EMPTY, None, rx_enable pri t))"

definition hal_transq_rx_next ::
  "nat \<Rightarrow> nat \<Rightarrow> transq \<Rightarrow> transq_ret \<times> (nat \<times> nat) option \<times> transq" where
  "hal_transq_rx_next qid pri t =
     (if qid \<ge> HAL_TRANSQ_ID_QTY then (RET_BAD_ID, None, t)
      else if pri \<ge> HAL_TRANSQ_PRI_QTY then (RET_BAD_PRI, None, t)
      else if rx_num t pri = 0 then (RET_BAD_RX_NUM, None, t)
      else let slot = next_rx_slot t pri in
        if slot < TRANSQ_SLOT_NUM \<and> bit (p_rmt_ris t) slot then
          let t = t\<lparr>p_rmt_ris := p_rmt_ris t AND NOT (2 ^ slot)\<rparr>;
              slot = get_next_rx_slot t pri slot;
              t = t\<lparr>next_rx_slot := (next_rx_slot t)(pri := slot)\<rparr>
          in if slot < TRANSQ_SLOT_NUM \<and> bit (p_rmt_ris t) slot then (RET_OK, Some (p_rslot t slot), t)
             else (RET_RX_EMPTY, None, rx_enable pri t)
        else (RET_RX_EMPTY, None, rx_enable pri t))"

definition hal_transq_tx ::
  "nat \<Rightarrow> nat \<Rightarrow> nat \<Rightarrow> nat \<Rightarrow> transq \<Rightarrow> (transq_ret \<times> transq) option" where
  "hal_transq_tx qid pri data len t =
     (if qid \<ge> HAL_TRANSQ_ID_QTY then Some (RET_BAD_ID, t)
      else if pri \<ge> HAL_TRANSQ_PRI_QTY then Some (RET_BAD_PRI, t)
      else if tx_num t pri = 0 then Some (RET_BAD_TX_NUM, t)
      else if tx_slot_full t pri then Some (RET_TX_FULL, t)
      else let slot = next_tx_slot t pri in
        if slot \<ge> TRANSQ_SLOT_NUM then None
        else let t = t\<lparr>r_wslot := (r_wslot t)(slot := (data, len)),
                       r_rmt_intset := r_rmt_intset t @ [2 ^ slot]\<rparr>;
                 t = (if active_tx_slot t pri \<ge> TRANSQ_SLOT_NUM
                      then t\<lparr>active_tx_slot := (active_tx_slot t)(pri := slot)\<rparr> else t);
                 t = t\<lparr>next_tx_slot := (next_tx_slot t)(pri := get_next_tx_slot t pri slot)\<rparr>;
                 t = (if next_tx_slot t pri = active_tx_slot t pri
                      then t\<lparr>tx_slot_full := (tx_slot_full t)(pri := True)\<rparr> else t)
             in Some (RET_OK, t))"

definition hal_transq_update_num ::
  "nat \<Rightarrow> transq_slot_num option \<Rightarrow> transq \<Rightarrow> transq_ret \<times> transq" where
  "hal_transq_update_num qid slot t =
     (if qid \<ge> HAL_TRANSQ_ID_QTY then (RET_BAD_ID, t)
      else case slot of None \<Rightarrow> (RET_BAD_SLOT, t) | Some slot \<Rightarrow>
        if sn_tx slot HAL_TRANSQ_PRI_NORMAL + sn_tx slot HAL_TRANSQ_PRI_HIGH > TRANSQ_SLOT_NUM
        then (RET_BAD_TX_NUM, t)
        else if sn_rx slot HAL_TRANSQ_PRI_NORMAL + sn_rx slot HAL_TRANSQ_PRI_HIGH > TRANSQ_SLOT_NUM
        then (RET_BAD_RX_NUM, t)
        else let t = t\<lparr>tq_cfg := (tq_cfg t)\<lparr>cfg_slot := slot\<rparr>,
                 rx_irq_mask := (rx_irq_mask t)
                   (HAL_TRANSQ_PRI_NORMAL := construct_mask 0 (sn_rx slot HAL_TRANSQ_PRI_NORMAL),
                    HAL_TRANSQ_PRI_HIGH := construct_mask (TRANSQ_SLOT_NUM - sn_rx slot HAL_TRANSQ_PRI_HIGH)
                      (sn_rx slot HAL_TRANSQ_PRI_HIGH))\<rparr>;
                 tx_mask = construct_mask 0 (sn_tx slot HAL_TRANSQ_PRI_NORMAL) OR
                   construct_mask (TRANSQ_SLOT_NUM - sn_tx slot HAL_TRANSQ_PRI_HIGH)
                     (sn_tx slot HAL_TRANSQ_PRI_HIGH)
             in (RET_OK, t\<lparr>r_rmt_intmask := tx_mask, r_lerr_intmask := tx_mask,
                  r_ldone_intmask := (if cfg_tx_handler (tq_cfg t) then tx_mask else 0)\<rparr>))"

text \<open>The first slot of a priority, \<open>TRANSQ_SLOT_NUM\<close> when it has none.\<close>

definition first_slot :: "nat \<Rightarrow> nat \<Rightarrow> nat" where
  "first_slot pri num =
     (if num = 0 then TRANSQ_SLOT_NUM else if pri = HAL_TRANSQ_PRI_HIGH then TRANSQ_SLOT_NUM - num else 0)"

definition hal_transq_open :: "nat \<Rightarrow> transq_cfg option \<Rightarrow> transq \<Rightarrow> transq_ret \<times> transq" where
  "hal_transq_open qid cfg t =
     (if qid \<ge> HAL_TRANSQ_ID_QTY then (RET_BAD_ID, t)
      else case cfg of None \<Rightarrow> (RET_BAD_CFG, t) | Some cfg \<Rightarrow>
        let slot = cfg_slot cfg;
            (ret, t) = hal_transq_update_num qid (Some slot) (t\<lparr>tq_cfg := cfg\<rparr>)
        in if ret \<noteq> RET_OK then (ret, t)
           else (RET_OK, t\<lparr>
             next_tx_slot := (\<lambda>pri. if pri < HAL_TRANSQ_PRI_QTY then first_slot pri (sn_tx slot pri)
               else next_tx_slot t pri),
             active_tx_slot := (active_tx_slot t)(0 := TRANSQ_SLOT_NUM, 1 := TRANSQ_SLOT_NUM),
             tx_slot_full := (tx_slot_full t)(0 := False, 1 := False),
             next_rx_slot := (\<lambda>pri. if pri < HAL_TRANSQ_PRI_QTY then first_slot pri (sn_rx slot pri)
               else next_rx_slot t pri),
             r_ldone_ris := 0, r_lerr_ris := 0, r_rmt_ris := 0,
             r_ctrl := (if cfg_tx_handler cfg then 7 else 5),
             irq_enabled := (if cfg_rx_handler cfg then True else fst (irq_enabled t), True)\<rparr>))"

definition hal_transq_close :: "nat \<Rightarrow> transq \<Rightarrow> transq_ret \<times> transq" where
  "hal_transq_close qid t =
     (if qid \<ge> HAL_TRANSQ_ID_QTY then (RET_BAD_ID, t)
      else (RET_OK, t\<lparr>r_ctrl := 0, irq_enabled := (False, False)\<rparr>))"

section \<open>The slots in use as a queue\<close>

definition base_slot :: "nat \<Rightarrow> nat \<Rightarrow> nat" where
  "base_slot pri num = (if pri = HAL_TRANSQ_PRI_HIGH then TRANSQ_SLOT_NUM - num else 0)"

definition pri_slots :: "nat \<Rightarrow> nat \<Rightarrow> nat list" where
  "pri_slots pri num = [base_slot pri num..<base_slot pri num + num]"

lemma length_pri_slots [simp]: "length (pri_slots pri num) = num"
  by (simp add: pri_slots_def)

lemma set_pri_slots [simp]: "s \<in> set (pri_slots pri num) \<longleftrightarrow> base_slot pri num \<le> s \<and> s < base_slot pri num + num"
  by (auto simp: pri_slots_def)

lemma nth_pri_slots [simp]: "i < num \<Longrightarrow> pri_slots pri num ! i = base_slot pri num + i"
  by (simp add: pri_slots_def)

lemma base_slot_bound: "num \<le> 32 \<Longrightarrow> base_slot pri num + num \<le> 32"
  by (simp add: base_slot_def)

definition slot_pos :: "nat \<Rightarrow> nat \<Rightarrow> nat \<Rightarrow> nat" where
  "slot_pos pri num s = s - base_slot pri num"

lemma next_slot_pos:
  assumes "s \<in> set (pri_slots pri num)" "num \<le> 32"
  shows "next_slot num pri s \<in> set (pri_slots pri num)"
    "slot_pos pri num (next_slot num pri s) = Suc (slot_pos pri num s) mod num"
proof -
  define i where "i = slot_pos pri num s"
  have i: "i < num" "s = base_slot pri num + i" using assms(1) by (auto simp: i_def slot_pos_def)
  have *: "next_slot num pri s = base_slot pri num + Suc i mod num"
  proof (cases "Suc i = num")
    case True
    then show ?thesis using i assms(2) by (auto simp: next_slot_def base_slot_def Let_def)
  next
    case False
    then have "Suc i < num" using i by simp
    then show ?thesis using i assms(2) by (auto simp: next_slot_def base_slot_def Let_def)
  qed
  then show "next_slot num pri s \<in> set (pri_slots pri num)" using i by simp
  show "slot_pos pri num (next_slot num pri s) = Suc (slot_pos pri num s) mod num"
    unfolding * i_def [symmetric] by (simp add: slot_pos_def)
qed

text \<open>How many slots are in flight, and which, oldest first.\<close>

definition tx_count :: "transq \<Rightarrow> nat \<Rightarrow> nat" where
  "tx_count t pri =
     (let num = tx_num t pri in
      if active_tx_slot t pri = TRANSQ_SLOT_NUM then 0
      else if tx_slot_full t pri then num
      else (slot_pos pri num (next_tx_slot t pri) + num - slot_pos pri num (active_tx_slot t pri)) mod num)"

definition tx_slots :: "transq \<Rightarrow> nat \<Rightarrow> nat list" where
  "tx_slots t pri = ring_slice (pri_slots pri (tx_num t pri))
     (slot_pos pri (tx_num t pri) (active_tx_slot t pri)) (tx_count t pri)"

definition tx_msgs :: "transq \<Rightarrow> nat \<Rightarrow> (nat \<times> nat) list" where
  "tx_msgs t pri = map (r_wslot t) (tx_slots t pri)"

definition tx_inv :: "transq \<Rightarrow> nat \<Rightarrow> bool" where
  "tx_inv t pri \<longleftrightarrow> (let num = tx_num t pri; a = active_tx_slot t pri; n = next_tx_slot t pri in
     num \<le> 32 \<and>
     (if num = 0 then n = TRANSQ_SLOT_NUM \<and> a = TRANSQ_SLOT_NUM \<and> \<not> tx_slot_full t pri
      else n \<in> set (pri_slots pri num) \<and>
        (if a = TRANSQ_SLOT_NUM then \<not> tx_slot_full t pri
         else a \<in> set (pri_slots pri num) \<and> (tx_slot_full t pri \<longleftrightarrow> n = a))))"

definition rx_inv :: "transq \<Rightarrow> nat \<Rightarrow> bool" where
  "rx_inv t pri \<longleftrightarrow> (let num = rx_num t pri in num \<le> 32 \<and>
     (if num = 0 then next_rx_slot t pri = TRANSQ_SLOT_NUM
      else next_rx_slot t pri \<in> set (pri_slots pri num)))"

definition transq_inv :: "transq \<Rightarrow> bool" where
  "transq_inv t \<longleftrightarrow> tx_num t 0 + tx_num t 1 \<le> 32 \<and> rx_num t 0 + rx_num t 1 \<le> 32 \<and>
     tx_inv t 0 \<and> tx_inv t 1 \<and> rx_inv t 0 \<and> rx_inv t 1"

lemma tx_count_0: "active_tx_slot t pri = 32 \<Longrightarrow> tx_slots t pri = []"
  by (simp add: tx_slots_def tx_count_def)

lemma tx_count_active:
  assumes "tx_inv t pri" "active_tx_slot t pri \<noteq> 32"
  shows "0 < tx_count t pri" "tx_count t pri \<le> tx_num t pri"
    "tx_count t pri = tx_num t pri \<longleftrightarrow> tx_slot_full t pri"
    "(slot_pos pri (tx_num t pri) (active_tx_slot t pri) + tx_count t pri) mod tx_num t pri =
     slot_pos pri (tx_num t pri) (next_tx_slot t pri)"
proof -
  define num where "num = tx_num t pri"
  define a where "a = slot_pos pri num (active_tx_slot t pri)"
  define n where "n = slot_pos pri num (next_tx_slot t pri)"
  have lt: "a < num" "n < num" and full: "tx_slot_full t pri \<longleftrightarrow> n = a"
    using assms by (auto simp: tx_inv_def Let_def slot_pos_def num_def a_def n_def split: if_splits)
  have c: "tx_count t pri = (if n = a then num else if a \<le> n then n - a else n + num - a)"
    using lt ring_offset [of a num n] assms(2) full
    by (auto simp: tx_count_def Let_def num_def [symmetric] a_def [symmetric] n_def [symmetric])
  show "0 < tx_count t pri" "tx_count t pri \<le> tx_num t pri"
    "tx_count t pri = tx_num t pri \<longleftrightarrow> tx_slot_full t pri"
    using c lt full by (auto simp: num_def [symmetric])
  show "(slot_pos pri (tx_num t pri) (active_tx_slot t pri) + tx_count t pri) mod tx_num t pri =
     slot_pos pri (tx_num t pri) (next_tx_slot t pri)"
    using c lt by (auto simp: num_def [symmetric] a_def [symmetric] n_def [symmetric])
qed

lemma tx_slots_subset: "tx_inv t pri \<Longrightarrow> set (tx_slots t pri) \<subseteq> set (pri_slots pri (tx_num t pri))"
proof (cases "active_tx_slot t pri = 32")
  case False
  assume "tx_inv t pri"
  with False have "0 < tx_num t pri" by (auto simp: tx_inv_def Let_def split: if_splits)
  then show ?thesis
    by (auto simp: tx_slots_def ring_slice_def)
qed (simp add: tx_count_0)

lemma ring_pos_inj:
  fixes N :: nat
  assumes "(a + i) mod N = (a + j) mod N" "i < N" "j < N"
  shows "i = j"
proof -
  have "(a mod N + i) mod N = (a mod N + j) mod N" using assms(1) by (simp add: mod_simps)
  moreover have "a mod N < N" using assms by simp
  ultimately show ?thesis using assms by (auto simp: ring_pos split: if_splits)
qed

lemma distinct_ring_slice:
  assumes "distinct b" "n \<le> length b"
  shows "distinct (ring_slice b r n)"
proof (cases "b = []")
  case False
  have "inj_on (\<lambda>i. b ! ((r + i) mod length b)) {0..<n}"
  proof (rule inj_onI)
    fix i j assume *: "i \<in> {0..<n}" "j \<in> {0..<n}" "b ! ((r + i) mod length b) = b ! ((r + j) mod length b)"
    then have "(r + i) mod length b = (r + j) mod length b"
      using assms(1) False by (simp add: nth_eq_iff_index_eq)
    then show "i = j" by (rule ring_pos_inj) (use * assms(2) in simp_all)
  qed
  then show ?thesis by (simp add: ring_slice_def distinct_map)
qed (use assms in simp)


text \<open>Sending appends the next slot.\<close>

lemma next_not_in_flight:
  assumes "tx_inv t pri" "\<not> tx_slot_full t pri" "active_tx_slot t pri \<noteq> 32"
  shows "tx_slots t pri @ [next_tx_slot t pri] =
      ring_slice (pri_slots pri (tx_num t pri)) (slot_pos pri (tx_num t pri) (active_tx_slot t pri)) (Suc (tx_count t pri))"
    "Suc (tx_count t pri) \<le> tx_num t pri"
proof -
  let ?num = "tx_num t pri" and ?a = "slot_pos pri (tx_num t pri) (active_tx_slot t pri)"
  note c = tx_count_active [OF assms(1,3)]
  show le: "Suc (tx_count t pri) \<le> ?num" using c assms(2) by simp
  have "next_tx_slot t pri \<in> set (pri_slots pri ?num)" using assms le by (auto simp: tx_inv_def Let_def split: if_splits)
  then have "next_tx_slot t pri = pri_slots pri ?num ! ((?a + tx_count t pri) mod ?num)"
    using c(4) by (auto simp: slot_pos_def)
  then show "tx_slots t pri @ [next_tx_slot t pri] =
      ring_slice (pri_slots pri ?num) ?a (Suc (tx_count t pri))"
    using ring_slice_append [of "pri_slots pri ?num" ?a "tx_count t pri" 1]
    by (simp add: tx_slots_def ring_slice_def)
qed

lemma next_fresh:
  assumes "tx_inv t pri" "\<not> tx_slot_full t pri"
  shows "next_tx_slot t pri \<notin> set (tx_slots t pri)"
proof (cases "active_tx_slot t pri = 32")
  case False
  note n = next_not_in_flight [OF assms False]
  have "distinct (tx_slots t pri @ [next_tx_slot t pri])"
    unfolding n(1) using n(2) by (intro distinct_ring_slice) (simp_all add: pri_slots_def)
  then show ?thesis by simp
qed (simp add: tx_count_0)

definition tx_push :: "nat \<Rightarrow> transq \<Rightarrow> transq" where
  "tx_push pri t =
     (let slot = next_tx_slot t pri;
          t = (if active_tx_slot t pri \<ge> TRANSQ_SLOT_NUM
               then t\<lparr>active_tx_slot := (active_tx_slot t)(pri := slot)\<rparr> else t);
          t = t\<lparr>next_tx_slot := (next_tx_slot t)(pri := get_next_tx_slot t pri slot)\<rparr>
      in if next_tx_slot t pri = active_tx_slot t pri
         then t\<lparr>tx_slot_full := (tx_slot_full t)(pri := True)\<rparr> else t)"

lemma tx_push_inv:
  assumes inv: "tx_inv t pri" and "tx_num t pri \<noteq> 0" "\<not> tx_slot_full t pri"
  shows "tx_inv (tx_push pri t) pri" "tx_slots (tx_push pri t) pri = tx_slots t pri @ [next_tx_slot t pri]"
proof -
  define num where "num = tx_num t pri"
  define s where "s = next_tx_slot t pri"
  define s' where "s' = next_slot num pri s"
  define a where "a = (if active_tx_slot t pri \<ge> 32 then s else active_tx_slot t pri)"
  have num: "0 < num" "num \<le> 32" and s: "s \<in> set (pri_slots pri num)"
    and act: "active_tx_slot t pri \<ge> 32 \<longleftrightarrow> active_tx_slot t pri = 32"
    using assms base_slot_bound [of num pri] by (auto simp: tx_inv_def Let_def num_def s_def split: if_splits)
  have s': "s' \<in> set (pri_slots pri num)" "slot_pos pri num s' = Suc (slot_pos pri num s) mod num"
    using next_slot_pos [OF s num(2)] by (simp_all add: s'_def)
  have a: "a \<in> set (pri_slots pri num)" "a < 32"
    using assms s act base_slot_bound [of num pri] num
    by (auto simp: a_def tx_inv_def Let_def num_def split: if_splits)
  have p: "tx_num (tx_push pri t) pri = num" "active_tx_slot (tx_push pri t) pri = a"
    "next_tx_slot (tx_push pri t) pri = s'" "tx_slot_full (tx_push pri t) pri = (s' = a)"
    using assms(3) by (auto simp: tx_push_def Let_def get_next_tx_slot_def a_def s'_def s_def num_def)
  show inv': "tx_inv (tx_push pri t) pri"
    using num s' a by (simp add: tx_inv_def Let_def p)
  have a32: "active_tx_slot (tx_push pri t) pri \<noteq> 32" using a p by simp
  note c' = tx_count_active [OF inv' a32, unfolded p]
  show "tx_slots (tx_push pri t) pri = tx_slots t pri @ [next_tx_slot t pri]"
  proof (cases "active_tx_slot t pri = 32")
    case True
    then have "a = s" using act by (simp add: a_def)
    have "(slot_pos pri num s + tx_count (tx_push pri t) pri) mod num = (slot_pos pri num s + 1) mod num"
      using c'(4) s'(2) \<open>a = s\<close> by simp
    moreover have "0 < tx_count (tx_push pri t) pri" "tx_count (tx_push pri t) pri \<le> num" using c' by auto
    ultimately have "tx_count (tx_push pri t) pri = 1"
      using ring_pos_inj [of "slot_pos pri num s + 1" "tx_count (tx_push pri t) pri - 1" num 0] num by force
    then show ?thesis
      using tx_count_0 [OF True] s \<open>a = s\<close>
      by (auto simp: tx_slots_def [of "tx_push pri t"] p ring_slice_def slot_pos_def s_def)
  next
    case False
    note n = next_not_in_flight [OF inv assms(3) False]
    note c = tx_count_active [OF inv False]
    have aa: "a = active_tx_slot t pri" using False act by (simp add: a_def)
    have "(slot_pos pri num a + tx_count (tx_push pri t) pri) mod num = (slot_pos pri num a + Suc (tx_count t pri)) mod num"
      using c'(4) s'(2) c(4) by (simp add: aa s_def num_def) (metis mod_Suc_eq)
    moreover have "0 < tx_count (tx_push pri t) pri" "tx_count (tx_push pri t) pri \<le> num" using c' by auto
    ultimately have "tx_count (tx_push pri t) pri = Suc (tx_count t pri)"
      using ring_pos_inj [of "slot_pos pri num a + 1" "tx_count (tx_push pri t) pri - 1" num "tx_count t pri"]
        num n(2) by (auto simp: num_def)
    then show ?thesis unfolding n(1) by (simp add: tx_slots_def p aa num_def)
  qed
qed

text \<open>Completion removes the oldest slot.\<close>

lemma tx_done_inv:
  assumes inv: "tx_inv t pri" and act: "active_tx_slot t pri \<noteq> 32"
  defines "t' \<equiv> tx_done pri (active_tx_slot t pri) t"
  shows "tx_inv t' pri" "tx_slots t pri = active_tx_slot t pri # tx_slots t' pri"
proof -
  define num where "num = tx_num t pri"
  define a where "a = active_tx_slot t pri"
  define a1 where "a1 = next_slot num pri a"
  have num: "0 < num" "num \<le> 32" and a: "a \<in> set (pri_slots pri num)"
    and n: "next_tx_slot t pri \<in> set (pri_slots pri num)" and full: "tx_slot_full t pri \<longleftrightarrow> next_tx_slot t pri = a"
    using inv act by (auto simp: tx_inv_def Let_def num_def a_def split: if_splits)
  have a1: "a1 \<in> set (pri_slots pri num)" "slot_pos pri num a1 = Suc (slot_pos pri num a) mod num"
    using next_slot_pos [OF a num(2)] by (simp_all add: a1_def)
  note c = tx_count_active [OF inv act, folded num_def a_def]
  have a0: "a = pri_slots pri num ! (slot_pos pri num a mod num)" using a by (auto simp: slot_pos_def)
  have split: "tx_slots t pri = a # ring_slice (pri_slots pri num) (slot_pos pri num a + 1) (tx_count t pri - 1)"
    using ring_slice_Suc [of "pri_slots pri num" "slot_pos pri num a" "tx_count t pri - 1"] c(1) a0
    by (simp add: tx_slots_def num_def [symmetric] a_def [symmetric])
  have p0: "tx_num t' pri = num" "next_tx_slot t' pri = next_tx_slot t pri"
    by (simp_all add: t'_def tx_done_def Let_def num_def)
  have "tx_inv t' pri \<and> tx_slots t pri = active_tx_slot t pri # tx_slots t' pri"
  proof -
    consider (empty) "active_tx_slot t' pri = 32" "\<not> tx_slot_full t' pri" "tx_count t pri = 1"
      | (more) "active_tx_slot t' pri = a1" "\<not> tx_slot_full t' pri" "a1 \<noteq> next_tx_slot t pri"
    proof (cases "\<not> tx_slot_full t pri \<and> a1 = next_tx_slot t pri")
      case True
      then have "(slot_pos pri num a + tx_count t pri) mod num = (slot_pos pri num a + 1) mod num"
        using c(4) a1(2) by simp
      then have "tx_count t pri = 1"
        using ring_pos_inj [of "slot_pos pri num a + 1" "tx_count t pri - 1" num 0] num c(1,2) by force
      then show thesis using True that(1)
        by (simp add: t'_def tx_done_def Let_def get_next_tx_slot_def a1_def a_def num_def)
    next
      case False
      show thesis
      proof (cases "num = 1")
        case True
        then have "tx_count t pri = 1" using c(1,2) by simp
        then show thesis using False True that(1)
          by (simp add: t'_def tx_done_def Let_def get_next_tx_slot_def a1_def a_def num_def)
      next
        case n1: False
        have "a1 \<noteq> next_tx_slot t pri"
        proof
          assume e: "a1 = next_tx_slot t pri"
          with False full have "a1 = a" by simp
          then have "Suc (slot_pos pri num a) mod num = slot_pos pri num a" using a1(2) by simp
          moreover have "slot_pos pri num a < num" using a by (auto simp: slot_pos_def)
          ultimately show False using n1 num by (auto simp: mod_Suc split: if_splits)
        qed
        then show thesis using False n1 that(2)
          by (simp add: t'_def tx_done_def Let_def get_next_tx_slot_def a1_def a_def num_def)
      qed
    qed
    then show ?thesis
    proof cases
      case empty
      then have "tx_inv t' pri" using num n by (simp add: tx_inv_def Let_def p0)
      moreover have "tx_slots t pri = active_tx_slot t pri # tx_slots t' pri"
        using empty split by (simp add: tx_count_0 a_def)
      ultimately show ?thesis ..
    next
      case more
      have a32: "a1 \<noteq> 32" using a1(1) base_slot_bound [OF num(2), of pri] by auto
      have inv': "tx_inv t' pri" using num n a1(1) a32 more by (simp add: tx_inv_def Let_def p0)
      have "(slot_pos pri num a1 + tx_count t' pri) mod num = slot_pos pri num (next_tx_slot t pri)"
        using tx_count_active(4) [OF inv', unfolded p0 more(1)] a32 by simp
      then have "(slot_pos pri num a + 1 + tx_count t' pri) mod num = (slot_pos pri num a + 1 + (tx_count t pri - 1)) mod num"
        using c(1,4) a1(2) by (simp add: mod_simps)
      moreover have "tx_count t' pri < num"
        using tx_count_active(2,3) [OF inv', unfolded p0 more(1)] a32 more(2) by auto
      moreover have "tx_count t pri - 1 < num" using c(1,2) num(1) by simp
      ultimately have "tx_count t' pri = tx_count t pri - 1" using ring_pos_inj by blast
      moreover have "ring_slice (pri_slots pri num) (slot_pos pri num a1) k =
          ring_slice (pri_slots pri num) (slot_pos pri num a + 1) k" for k
        using ring_slice_mod [of "pri_slots pri num" "slot_pos pri num a + 1" k] a1(2) by simp
      ultimately have "tx_slots t pri = active_tx_slot t pri # tx_slots t' pri"
        unfolding split by (simp add: tx_slots_def p0 more(1) a_def)
      with inv' show ?thesis ..
    qed
  qed
  then show "tx_inv t' pri" "tx_slots t pri = active_tx_slot t pri # tx_slots t' pri" by auto
qed

section \<open>Sending\<close>

lemma tx_cong:
  assumes "tq_cfg t' = tq_cfg t" "next_tx_slot t' pri = next_tx_slot t pri"
    "active_tx_slot t' pri = active_tx_slot t pri" "tx_slot_full t' pri = tx_slot_full t pri"
  shows "tx_inv t' pri = tx_inv t pri" "tx_slots t' pri = tx_slots t pri"
  using assms by (simp_all add: tx_inv_def tx_slots_def tx_count_def Let_def)

lemma rx_cong:
  assumes "tq_cfg t' = tq_cfg t" "next_rx_slot t' pri = next_rx_slot t pri"
  shows "rx_inv t' pri = rx_inv t pri"
  using assms by (simp add: rx_inv_def Let_def)

lemma pri_disjoint:
  assumes "tx_num t 0 + tx_num t 1 \<le> 32" "s \<in> set (pri_slots 0 (tx_num t 0))"
  shows "s \<notin> set (pri_slots 1 (tx_num t 1))"
  using assms by (auto simp: base_slot_def)

lemma slots_disjoint:
  assumes "transq_inv t" "pri < 2" "q < 2" "pri \<noteq> q" "s \<in> set (tx_slots t pri)"
  shows "s \<notin> set (pri_slots q (tx_num t q))"
proof -
  have "s \<in> set (pri_slots pri (tx_num t pri))"
    using tx_slots_subset [of t pri] assms by (auto simp: transq_inv_def less_2_cases_iff simp del: set_pri_slots)
  then show ?thesis
    using pri_disjoint [of t s] assms(1-4) unfolding transq_inv_def by (auto simp: less_2_cases_iff simp del: set_pri_slots)
qed

text \<open>The next slot to send in lies in the slots of its priority.\<close>

lemma next_tx_slot_in:
  assumes "transq_inv t" "pri < 2" "tx_num t pri \<noteq> 0"
  shows "next_tx_slot t pri \<in> set (pri_slots pri (tx_num t pri))" "next_tx_slot t pri < 32" "tx_inv t pri"
proof -
  show inv: "tx_inv t pri" using assms(1,2) by (auto simp: transq_inv_def less_2_cases_iff)
  then show "next_tx_slot t pri \<in> set (pri_slots pri (tx_num t pri))"
    using assms(3) by (simp add: tx_inv_def Let_def)
  then show "next_tx_slot t pri < 32"
    using inv base_slot_bound [of "tx_num t pri" pri] by (auto simp: tx_inv_def Let_def)
qed

lemma hal_transq_tx_eq:
  assumes "transq_inv t" "pri < 2" "tx_num t pri \<noteq> 0" "\<not> tx_slot_full t pri"
  shows "hal_transq_tx 0 pri data len t = Some (RET_OK, tx_push pri
    (t\<lparr>r_wslot := (r_wslot t)(next_tx_slot t pri := (data, len)),
       r_rmt_intset := r_rmt_intset t @ [2 ^ next_tx_slot t pri]\<rparr>))"
  using assms next_tx_slot_in [OF assms(1-3)]
  by (simp add: hal_transq_tx_def tx_push_def Let_def get_next_tx_slot_def)

lemma tx_full_iff:
  assumes "transq_inv t" "pri < 2" "tx_num t pri \<noteq> 0"
  shows "tx_slot_full t pri \<longleftrightarrow> length (tx_slots t pri) = tx_num t pri"
proof (cases "active_tx_slot t pri = 32")
  case True
  then show ?thesis
    using next_tx_slot_in(3) [OF assms] assms(3) by (auto simp: tx_count_0 tx_inv_def Let_def)
next
  case False
  then show ?thesis
    using tx_count_active(3) [OF next_tx_slot_in(3) [OF assms]] by (simp add: tx_slots_def)
qed

lemma tx_push_frame [simp]:
  "tq_cfg (tx_push pri t) = tq_cfg t" "r_wslot (tx_push pri t) = r_wslot t"
  "next_rx_slot (tx_push pri t) = next_rx_slot t" "r_rmt_intset (tx_push pri t) = r_rmt_intset t"
  "r_ldone_ris (tx_push pri t) = r_ldone_ris t" "r_ldone_intmask (tx_push pri t) = r_ldone_intmask t"
  "q \<noteq> pri \<Longrightarrow> next_tx_slot (tx_push pri t) q = next_tx_slot t q"
  "q \<noteq> pri \<Longrightarrow> active_tx_slot (tx_push pri t) q = active_tx_slot t q"
  "q \<noteq> pri \<Longrightarrow> tx_slot_full (tx_push pri t) q = tx_slot_full t q"
  by (auto simp: tx_push_def Let_def)

lemma tx_done_frame [simp]:
  "tq_cfg (tx_done pri s t) = tq_cfg t" "r_wslot (tx_done pri s t) = r_wslot t"
  "next_rx_slot (tx_done pri s t) = next_rx_slot t"
  "r_ldone_ris (tx_done pri s t) = r_ldone_ris t AND NOT (2 ^ s)"
  "r_ldone_intmask (tx_done pri s t) = r_ldone_intmask t"
  "next_tx_slot (tx_done pri s t) = next_tx_slot t"
  "q \<noteq> pri \<Longrightarrow> active_tx_slot (tx_done pri s t) q = active_tx_slot t q"
  "q \<noteq> pri \<Longrightarrow> tx_slot_full (tx_done pri s t) q = tx_slot_full t q"
  by (auto simp: tx_done_def Let_def)

text \<open>Two states that differ on one priority only.\<close>

lemma transq_invI:
  assumes "transq_inv t" "pri < 2" "tq_cfg t' = tq_cfg t" "next_rx_slot t' = next_rx_slot t" "tx_inv t' pri"
    and "\<And>q. q \<noteq> pri \<Longrightarrow> next_tx_slot t' q = next_tx_slot t q"
    and "\<And>q. q \<noteq> pri \<Longrightarrow> active_tx_slot t' q = active_tx_slot t q"
    and "\<And>q. q \<noteq> pri \<Longrightarrow> tx_slot_full t' q = tx_slot_full t q"
  shows "transq_inv t'"
proof -
  have "tx_inv t' q" if "q < 2" for q
  proof (cases "q = pri")
    case False
    with assms have "tx_inv t' q = tx_inv t q" by (intro tx_cong) auto
    with assms(1) that show ?thesis by (auto simp: transq_inv_def less_2_cases_iff)
  qed (use assms in simp)
  moreover have "rx_inv t' q = rx_inv t q" for q by (rule rx_cong) (use assms in auto)
  ultimately show ?thesis using assms(1,3) by (simp add: transq_inv_def)
qed

lemma tx_msgs_cong:
  assumes "tx_slots t' q = tx_slots t q" "\<forall>s\<in>set (tx_slots t q). r_wslot t' s = r_wslot t s"
  shows "tx_msgs t' q = tx_msgs t q"
  using assms by (simp add: tx_msgs_def)

lemma hal_transq_tx_spec:
  assumes inv: "transq_inv t" and pri: "pri < 2" and num: "tx_num t pri \<noteq> 0"
  shows "\<exists>ret t'. hal_transq_tx 0 pri data len t = Some (ret, t') \<and> transq_inv t' \<and>
    (if length (tx_msgs t pri) = tx_num t pri then ret = RET_TX_FULL \<and> t' = t
     else ret = RET_OK \<and> tx_msgs t' pri = tx_msgs t pri @ [(data, len)] \<and>
       (\<forall>q<2. q \<noteq> pri \<longrightarrow> tx_msgs t' q = tx_msgs t q) \<and>
       r_rmt_intset t' = r_rmt_intset t @ [2 ^ last (tx_slots t' pri)]) \<and>
    tq_cfg t' = tq_cfg t \<and> r_ldone_ris t' = r_ldone_ris t \<and> r_ldone_intmask t' = r_ldone_intmask t \<and>
    (\<forall>q<2. \<exists>ss. tx_slots t' q = tx_slots t q @ ss)"
proof (cases "tx_slot_full t pri")
  case True
  then show ?thesis
    using tx_full_iff [OF inv pri num] assms by (simp add: hal_transq_tx_def tx_msgs_def)
next
  case False
  define n where "n = next_tx_slot t pri"
  define t1 where "t1 = t\<lparr>r_wslot := (r_wslot t)(n := (data, len)), r_rmt_intset := r_rmt_intset t @ [2 ^ n]\<rparr>"
  have t1: "tx_inv t1 q = tx_inv t q" "tx_slots t1 q = tx_slots t q" for q
    by (rule tx_cong; simp add: t1_def)+
  have inv1: "tx_inv t1 pri" "tx_num t1 pri \<noteq> 0" "\<not> tx_slot_full t1 pri" "next_tx_slot t1 pri = n"
    using next_tx_slot_in(3) [OF inv pri num] num False by (simp add: t1, simp_all add: t1_def n_def)
  note p = tx_push_inv [OF inv1(1-3), unfolded inv1(4) t1]
  have w: "r_wslot t1 = (r_wslot t)(n := (data, len))" "r_rmt_intset t1 = r_rmt_intset t @ [2 ^ n]"
    by (simp_all add: t1_def)
  have "n \<notin> set (tx_slots t pri)" using next_fresh [of t pri] next_tx_slot_in(3) [OF inv pri num] False by (simp add: n_def)
  then have "tx_msgs (tx_push pri t1) pri = tx_msgs t pri @ [(data, len)]"
    by (simp add: tx_msgs_def p w)
  moreover have "tx_msgs (tx_push pri t1) q = tx_msgs t q" if "q < 2" "q \<noteq> pri" for q
  proof -
    have "n \<notin> set (tx_slots t q)"
      using slots_disjoint [OF inv \<open>q < 2\<close> pri \<open>q \<noteq> pri\<close>, of n] next_tx_slot_in(1) [OF inv pri num]
      by (auto simp: n_def simp del: set_pri_slots)
    moreover have "tx_slots (tx_push pri t1) q = tx_slots t1 q" by (rule tx_cong) (use that in simp_all)
    ultimately show ?thesis by (auto simp: tx_msgs_def t1(2) w)
  qed
  moreover have "transq_inv (tx_push pri t1)"
    by (rule transq_invI [OF inv pri]) (simp_all add: p, simp_all add: t1_def)
  moreover have "hal_transq_tx 0 pri data len t = Some (RET_OK, tx_push pri t1)"
    using hal_transq_tx_eq [OF inv pri num False] by (simp add: t1_def n_def)
  moreover have "\<exists>ss. tx_slots (tx_push pri t1) q = tx_slots t q @ ss" if "q < 2" for q
  proof (cases "q = pri")
    case False
    then have "tx_slots (tx_push pri t1) q = tx_slots t1 q" by (intro tx_cong) simp_all
    then show ?thesis by (simp add: t1(2))
  qed (simp add: p)
  moreover have "tq_cfg (tx_push pri t1) = tq_cfg t" "r_ldone_ris (tx_push pri t1) = r_ldone_ris t"
    "r_ldone_intmask (tx_push pri t1) = r_ldone_intmask t" by (simp_all add: t1_def)
  moreover have "r_rmt_intset (tx_push pri t1) = r_rmt_intset t @ [2 ^ last (tx_slots (tx_push pri t1) pri)]"
    by (simp add: w p)
  moreover have "length (tx_msgs t pri) \<noteq> tx_num t pri"
    using False tx_full_iff [OF inv pri num] by (simp add: tx_msgs_def)
  ultimately show ?thesis by (intro exI [of _ RET_OK] exI [of _ "tx_push pri t1"]) simp
qed

section \<open>Completion interrupts\<close>





lemma active_valid: "tx_inv t pri \<Longrightarrow> hal_transq_active_tx_valid t pri"
  by (auto simp: hal_transq_active_tx_valid_def tx_inv_def Let_def split: if_splits)

lemma hd_tx_slots:
  assumes "tx_inv t pri" "tx_slots t pri \<noteq> []"
  shows "active_tx_slot t pri = hd (tx_slots t pri)" "active_tx_slot t pri < 32"
proof -
  have a: "active_tx_slot t pri \<noteq> 32" using assms(2) tx_count_0 by blast
  show *: "active_tx_slot t pri = hd (tx_slots t pri)"
    using tx_done_inv(2) [OF assms(1) a] by simp
  have "active_tx_slot t pri \<in> set (pri_slots pri (tx_num t pri))"
    using assms(1) a by (auto simp: tx_inv_def Let_def split: if_splits)
  then show "active_tx_slot t pri < 32"
    using assms(1) base_slot_bound [of "tx_num t pri" pri] by (auto simp: tx_inv_def Let_def)
qed











section \<open>Receiving\<close>

text \<open>The pending slots, oldest first, and the messages in them.\<close>

definition rx_slots :: "transq \<Rightarrow> nat \<Rightarrow> nat list" where
  "rx_slots t pri = takeWhile (bit (p_rmt_ris t))
     (ring_slice (pri_slots pri (rx_num t pri)) (slot_pos pri (rx_num t pri) (next_rx_slot t pri)) (rx_num t pri))"

definition rx_msgs :: "transq \<Rightarrow> nat \<Rightarrow> (nat \<times> nat) list" where
  "rx_msgs t pri = map (p_rslot t) (rx_slots t pri)"

lemma takeWhile_rotate:
  assumes "x \<notin> set xs" "\<And>y. y \<noteq> x \<Longrightarrow> Q y = P y" "\<not> Q x"
  shows "takeWhile Q (xs @ [x]) = takeWhile P xs"
proof -
  have "takeWhile Q xs = takeWhile P xs" using assms(1,2) by (induction xs) auto
  moreover have "takeWhile Q (xs @ [x]) = takeWhile Q xs"
    using assms(3) by (induction xs) auto
  ultimately show ?thesis by simp
qed

lemma rx_ring:
  assumes "rx_inv t pri" "rx_num t pri \<noteq> 0"
  defines "r \<equiv> slot_pos pri (rx_num t pri) (next_rx_slot t pri)" and "b \<equiv> pri_slots pri (rx_num t pri)"
  shows "next_rx_slot t pri < 32"
    "ring_slice b r (rx_num t pri) = next_rx_slot t pri # ring_slice b (r + 1) (rx_num t pri - 1)"
    "ring_slice b (r + 1) (rx_num t pri) = ring_slice b (r + 1) (rx_num t pri - 1) @ [next_rx_slot t pri]"
    "next_rx_slot t pri \<notin> set (ring_slice b (r + 1) (rx_num t pri - 1))"
proof -
  define n where "n = rx_num t pri"
  have n: "0 < n" "n \<le> 32" and s: "next_rx_slot t pri \<in> set (pri_slots pri n)"
    using assms(1,2) by (simp_all add: rx_inv_def Let_def n_def)
  then show "next_rx_slot t pri < 32" using base_slot_bound [of n pri] by auto
  have r: "r < n" "next_rx_slot t pri = b ! (r mod n)"
    using s by (auto simp: r_def b_def slot_pos_def n_def [symmetric])
  have b: "length b = n" "distinct b" by (simp_all add: b_def n_def pri_slots_def)
  show *: "ring_slice b r (rx_num t pri) = next_rx_slot t pri # ring_slice b (r + 1) (rx_num t pri - 1)"
    using ring_slice_Suc [of b r "n - 1"] n r by (simp add: n_def [symmetric] b)
  have "ring_slice b (r + 1) (n - 1 + 1) = ring_slice b (r + 1) (n - 1) @ [b ! ((r + n) mod n)]"
    using n by (subst ring_slice_append) (simp add: ring_slice_def b)
  then show "ring_slice b (r + 1) (rx_num t pri) = ring_slice b (r + 1) (rx_num t pri - 1) @ [next_rx_slot t pri]"
    using n r by (simp add: n_def [symmetric])
  have "distinct (ring_slice b r n)" using b by (intro distinct_ring_slice) simp_all
  then show "next_rx_slot t pri \<notin> set (ring_slice b (r + 1) (rx_num t pri - 1))"
    using * by (simp add: n_def)
qed

lemma rx_slots_Nil:
  assumes "rx_inv t pri" "rx_num t pri \<noteq> 0"
  shows "rx_slots t pri = [] \<longleftrightarrow> \<not> bit (p_rmt_ris t) (next_rx_slot t pri)"
    "rx_slots t pri \<noteq> [] \<Longrightarrow> hd (rx_slots t pri) = next_rx_slot t pri"
  using rx_ring(2) [OF assms] by (auto simp: rx_slots_def split: if_splits)

lemma rx_advance:
  assumes inv: "rx_inv t pri" and num: "rx_num t pri \<noteq> 0" and pend: "rx_slots t pri \<noteq> []"
  defines "s \<equiv> next_rx_slot t pri"
  defines "t' \<equiv> t\<lparr>p_rmt_ris := p_rmt_ris t AND NOT (2 ^ s),
    next_rx_slot := (next_rx_slot t)(pri := get_next_rx_slot t pri s)\<rparr>"
  shows "rx_inv t' pri" "rx_slots t' pri = tl (rx_slots t pri)"
proof -
  define n where "n = rx_num t pri"
  have n: "0 < n" "n \<le> 32" and s: "s \<in> set (pri_slots pri n)"
    using inv num by (simp_all add: rx_inv_def Let_def n_def s_def)
  note ns = next_slot_pos [OF s n(2)]
  note ring = rx_ring [OF inv num, folded s_def n_def]
  have p: "rx_num t' pri = n" "next_rx_slot t' pri = next_slot n pri s"
    by (simp_all add: t'_def get_next_rx_slot_def n_def)
  show "rx_inv t' pri" using n ns(1) by (simp add: rx_inv_def Let_def p)
  have bits: "bit (p_rmt_ris t') x \<longleftrightarrow> bit (p_rmt_ris t) x" if "x \<noteq> s" for x
    using that by (auto simp: t'_def bit_and_iff bit_not_iff bit_exp_iff dest: bit_imp_le_length)
  have "\<not> bit (p_rmt_ris t') s"
    using ring(1) by (simp add: t'_def bit_and_iff bit_not_iff bit_exp_iff)
  then have "takeWhile (bit (p_rmt_ris t')) (ring_slice (pri_slots pri n) (slot_pos pri n s + 1) n) =
      takeWhile (bit (p_rmt_ris t)) (ring_slice (pri_slots pri n) (slot_pos pri n s + 1) (n - 1))"
    unfolding ring(3) by (intro takeWhile_rotate ring(4) bits) simp_all
  moreover have "rx_slots t' pri = takeWhile (bit (p_rmt_ris t')) (ring_slice (pri_slots pri n) (slot_pos pri n s + 1) n)"
    using ring_slice_mod [of "pri_slots pri n" "slot_pos pri n s + 1" n] ns(2) by (simp add: rx_slots_def p)
  moreover have "tl (rx_slots t pri) = takeWhile (bit (p_rmt_ris t)) (ring_slice (pri_slots pri n) (slot_pos pri n s + 1) (n - 1))"
    using pend ring(2) rx_slots_Nil(1) [OF inv num] by (simp add: rx_slots_def n_def [symmetric] s_def [symmetric])
  ultimately show "rx_slots t' pri = tl (rx_slots t pri)" by simp
qed

lemma rx_other:
  assumes "transq_inv t" "pri < 2" "q < 2" "q \<noteq> pri" "rx_num t pri \<noteq> 0"
    "tq_cfg t' = tq_cfg t" "p_rmt_ris t' = p_rmt_ris t AND NOT (2 ^ next_rx_slot t pri)"
    "next_rx_slot t' q = next_rx_slot t q"
  shows "rx_slots t' q = rx_slots t q"
proof -
  let ?ring = "ring_slice (pri_slots q (rx_num t q)) (slot_pos q (rx_num t q) (next_rx_slot t q)) (rx_num t q)"
  have inv: "rx_inv t pri" using assms(1,2) by (auto simp: transq_inv_def less_2_cases_iff)
  then have s: "next_rx_slot t pri \<in> set (pri_slots pri (rx_num t pri))" "next_rx_slot t pri < 32"
    using assms(5) rx_ring(1) [OF inv assms(5)] by (simp_all add: rx_inv_def Let_def)
  have "bit (p_rmt_ris t') x = bit (p_rmt_ris t) x" if "x \<in> set ?ring" for x
  proof -
    from that have "0 < rx_num t q" by (auto simp: ring_slice_def)
    with that have "x \<in> set (pri_slots q (rx_num t q))" by (auto simp: ring_slice_def)
    then have "x \<noteq> next_rx_slot t pri"
      using s assms(1-4) by (auto simp: transq_inv_def base_slot_def less_2_cases_iff)
    then show ?thesis
      using assms(7) by (auto simp: bit_and_iff bit_not_iff bit_exp_iff dest: bit_imp_le_length)
  qed
  then show ?thesis using assms(6,8) by (auto simp: rx_slots_def intro: takeWhile_cong)
qed

section \<open>Masks, opening\<close>

lemma bit_foldl_or:
  "bit (foldl (\<lambda>r i. r OR 2 ^ i) (m :: u32) is) b \<longleftrightarrow> bit m b \<or> b \<in> set is \<and> b < 32"
  by (induction "is" arbitrary: m) (auto simp: bit_or_iff bit_exp_iff)

lemma bit_construct_mask: "b < 32 \<Longrightarrow> bit (construct_mask l w) b \<longleftrightarrow> l \<le> b \<and> b < l + w"
  by (auto simp: construct_mask_def bit_foldl_or)

lemma update_num_ok:
  assumes "sn_tx sn 0 + sn_tx sn 1 \<le> 32" "sn_rx sn 0 + sn_rx sn 1 \<le> 32"
  obtains t' where "hal_transq_update_num 0 (Some sn) t = (RET_OK, t')"
    "tq_cfg t' = (tq_cfg t)\<lparr>cfg_slot := sn\<rparr>"
    "\<And>q b. q < 2 \<Longrightarrow> b < 32 \<Longrightarrow> bit (rx_irq_mask t' q) b \<longleftrightarrow> b \<in> set (pri_slots q (sn_rx sn q))"
    "\<And>b. b < 32 \<Longrightarrow> bit (r_rmt_intmask t') b \<longleftrightarrow>
       b \<in> set (pri_slots 0 (sn_tx sn 0)) \<or> b \<in> set (pri_slots 1 (sn_tx sn 1))"
    "r_ldone_intmask t' = (if cfg_tx_handler (tq_cfg t) then r_rmt_intmask t' else 0)"
    "r_lerr_intmask t' = r_rmt_intmask t'"
    "next_tx_slot t' = next_tx_slot t" "active_tx_slot t' = active_tx_slot t" "tx_slot_full t' = tx_slot_full t"
proof -
  define t' where "t' = snd (hal_transq_update_num 0 (Some sn) t)"
  have e: "hal_transq_update_num 0 (Some sn) t = (RET_OK, t')"
    using assms by (simp add: t'_def hal_transq_update_num_def Let_def)
  show thesis
    by (rule that [OF e]; insert assms;
      auto simp: t'_def hal_transq_update_num_def Let_def bit_construct_mask bit_or_iff base_slot_def less_2_cases_iff)
qed

text \<open>
  Opening with slot numbers that fit establishes the invariant with nothing in flight and
  unmasks exactly the slots configured; numbers that do not fit are refused.
\<close>

theorem hal_transq_open_establishes:
  assumes "hal_transq_open 0 (Some cfg) t = (ret, t')"
  shows "if sn_tx (cfg_slot cfg) 0 + sn_tx (cfg_slot cfg) 1 > 32 then ret = RET_BAD_TX_NUM
    else if sn_rx (cfg_slot cfg) 0 + sn_rx (cfg_slot cfg) 1 > 32 then ret = RET_BAD_RX_NUM
    else ret = RET_OK \<and> transq_inv t' \<and> tx_msgs t' 0 = [] \<and> tx_msgs t' 1 = [] \<and>
      (\<forall>b<32. bit (r_rmt_intmask t') b \<longleftrightarrow>
        b \<in> set (pri_slots 0 (tx_num t' 0)) \<or> b \<in> set (pri_slots 1 (tx_num t' 1))) \<and>
      (\<forall>q<2. \<forall>b<32. bit (rx_irq_mask t' q) b \<longleftrightarrow> b \<in> set (pri_slots q (rx_num t' q)))"
proof (cases "sn_tx (cfg_slot cfg) 0 + sn_tx (cfg_slot cfg) 1 \<le> 32 \<and> sn_rx (cfg_slot cfg) 0 + sn_rx (cfg_slot cfg) 1 \<le> 32")
  case False
  then show ?thesis
    using assms by (auto simp: hal_transq_open_def hal_transq_update_num_def Let_def split: if_splits)
next
  case True
  obtain u where u: "hal_transq_update_num 0 (Some (cfg_slot cfg)) (t\<lparr>tq_cfg := cfg\<rparr>) = (RET_OK, u)"
    "tq_cfg u = (tq_cfg (t\<lparr>tq_cfg := cfg\<rparr>))\<lparr>cfg_slot := cfg_slot cfg\<rparr>"
    "\<And>q b. q < 2 \<Longrightarrow> b < 32 \<Longrightarrow> bit (rx_irq_mask u q) b \<longleftrightarrow> b \<in> set (pri_slots q (sn_rx (cfg_slot cfg) q))"
    "\<And>b. b < 32 \<Longrightarrow> bit (r_rmt_intmask u) b \<longleftrightarrow>
       b \<in> set (pri_slots 0 (sn_tx (cfg_slot cfg) 0)) \<or> b \<in> set (pri_slots 1 (sn_tx (cfg_slot cfg) 1))"
    using True by (elim conjE update_num_ok [of "cfg_slot cfg" "t\<lparr>tq_cfg := cfg\<rparr>"]) blast+
  have t': "ret = RET_OK" "tq_cfg t' = cfg" "rx_irq_mask t' = rx_irq_mask u" "r_rmt_intmask t' = r_rmt_intmask u"
    "\<And>q. q < 2 \<Longrightarrow> next_tx_slot t' q = first_slot q (sn_tx (cfg_slot cfg) q)"
    "\<And>q. q < 2 \<Longrightarrow> active_tx_slot t' q = 32" "\<And>q. q < 2 \<Longrightarrow> \<not> tx_slot_full t' q"
    "\<And>q. q < 2 \<Longrightarrow> next_rx_slot t' q = first_slot q (sn_rx (cfg_slot cfg) q)"
    using assms u(1,2) by (auto simp: hal_transq_open_def Let_def less_2_cases_iff)
  have "tx_inv t' q" "rx_inv t' q" if "q < 2" for q
    using True that t' by (auto simp: tx_inv_def rx_inv_def Let_def first_slot_def base_slot_def less_2_cases_iff)
  then have "transq_inv t'" using True t'(2) by (simp add: transq_inv_def)
  moreover have "tx_msgs t' q = []" if "q < 2" for q using t'(6) [OF that] by (simp add: tx_msgs_def tx_count_0)
  ultimately show ?thesis using True u(3,4) t'(1-4) by simp
qed

text \<open>
  C28. Sending refines appending to a bounded queue: when the slots of the priority are all in
  flight the call reports \<open>TX_FULL\<close> and changes nothing, otherwise the message goes to the end
  of the messages in flight, the doorbell of its slot is rung, and the messages of the other
  priority are untouched. No message in flight is ever overwritten.
\<close>

theorem hal_transq_tx_appends:
  assumes "transq_inv t" "pri < 2" "tx_num t pri \<noteq> 0"
  shows "\<exists>ret t'. hal_transq_tx 0 pri data len t = Some (ret, t') \<and> transq_inv t' \<and>
    (if length (tx_msgs t pri) = tx_num t pri then ret = RET_TX_FULL \<and> t' = t
     else ret = RET_OK \<and> tx_msgs t' pri = tx_msgs t pri @ [(data, len)] \<and>
       (\<forall>q<2. q \<noteq> pri \<longrightarrow> tx_msgs t' q = tx_msgs t q) \<and>
       r_rmt_intset t' = r_rmt_intset t @ [2 ^ last (tx_slots t' pri)])"
  using hal_transq_tx_spec [OF assms, of data len] by blast


text \<open>
  Polling instead of interrupts: the status call reports whether the oldest message in
  flight is done and then removes exactly that one; with nothing in flight it is undefined
  behaviour (a shift by 32), not a negative answer.
\<close>

theorem hal_transq_get_tx_status_polls:
  assumes inv: "transq_inv t" and pri: "pri < 2" and num: "tx_num t pri \<noteq> 0" and poll: "\<not> cfg_tx_handler (tq_cfg t)"
  shows "case tx_slots t pri of [] \<Rightarrow> hal_transq_get_tx_status 0 pri t = None
    | s # ss \<Rightarrow> if bit (r_ldone_ris t) s
        then \<exists>t'. hal_transq_get_tx_status 0 pri t = Some (RET_OK, Some True, t') \<and> transq_inv t' \<and>
          tx_slots t' pri = ss \<and> tx_msgs t' pri = tl (tx_msgs t pri)
        else hal_transq_get_tx_status 0 pri t = Some (RET_OK, Some False, t)"
proof (cases "tx_slots t pri")
  case Nil
  have i: "tx_inv t pri" by (rule next_tx_slot_in(3) [OF inv pri num])
  then have "active_tx_slot t pri = 32" using Nil tx_done_inv(2) [of t pri] by fastforce
  then show ?thesis using Nil pri num poll by (simp add: hal_transq_get_tx_status_def Let_def)
next
  case (Cons s ss)
  have i: "tx_inv t pri" by (rule next_tx_slot_in(3) [OF inv pri num])
  have a: "active_tx_slot t pri = s" "s < 32" using hd_tx_slots [OF i] Cons by auto
  then have d: "tx_inv (tx_done pri s t) pri" "tx_slots (tx_done pri s t) pri = ss"
    using tx_done_inv [OF i] Cons by auto
  have "transq_inv (tx_done pri s t)" by (rule transq_invI [OF inv pri]) (simp_all add: d)
  then show ?thesis
    using Cons a d pri num poll active_valid [OF i]
    by (simp add: hal_transq_get_tx_status_def Let_def tx_msgs_def)
qed

text \<open>
  C30. Receiving refines a queue: \<open>rx_first\<close> shows the oldest pending message, \<open>rx_next\<close>
  acknowledges it and shows the one after it; when none is left both report \<open>RX_EMPTY\<close> and
  unmask the interrupt of the priority again. The messages of the other priority stay pending.
\<close>

theorem hal_transq_rx_delivers:
  assumes inv: "transq_inv t" and pri: "pri < 2" and num: "rx_num t pri \<noteq> 0"
  shows "case rx_msgs t pri of
      [] \<Rightarrow> hal_transq_rx_first 0 pri t = (RET_RX_EMPTY, None, rx_enable pri t) \<and>
        hal_transq_rx_next 0 pri t = (RET_RX_EMPTY, None, rx_enable pri t)
    | m # ms \<Rightarrow> hal_transq_rx_first 0 pri t = (RET_OK, Some m, t) \<and>
        (\<exists>t'. hal_transq_rx_next 0 pri t =
            (if ms = [] then (RET_RX_EMPTY, None, rx_enable pri t') else (RET_OK, Some (hd ms), t')) \<and>
          transq_inv t' \<and> rx_msgs t' pri = ms \<and> (\<forall>q<2. q \<noteq> pri \<longrightarrow> rx_msgs t' q = rx_msgs t q))"
proof -
  have i: "rx_inv t pri" using inv pri by (auto simp: transq_inv_def less_2_cases_iff)
  define s where "s = next_rx_slot t pri"
  have s: "s < 32" using rx_ring(1) [OF i num] by (simp add: s_def)
  note nil = rx_slots_Nil [OF i num, folded s_def]
  show ?thesis
  proof (cases "rx_slots t pri")
    case Nil
    then show ?thesis using nil pri num
      by (simp add: rx_msgs_def hal_transq_rx_first_def hal_transq_rx_next_def Let_def s_def [symmetric])
  next
    case (Cons x xs)
    then have x: "x = s" "bit (p_rmt_ris t) s" using nil by auto
    define t' where "t' = t\<lparr>p_rmt_ris := p_rmt_ris t AND NOT (2 ^ s),
      next_rx_slot := (next_rx_slot t)(pri := get_next_rx_slot t pri s)\<rparr>"
    have adv: "rx_inv t' pri" "rx_slots t' pri = xs"
      using rx_advance [OF i num] Cons by (simp_all add: t'_def s_def)
    have oth: "rx_slots t' q = rx_slots t q" if "q < 2" "q \<noteq> pri" for q
      by (rule rx_other [OF inv pri that num]) (use that in \<open>simp_all add: t'_def s_def\<close>)
    have tx: "tx_inv t' q = tx_inv t q" for q by (rule tx_cong) (simp_all add: t'_def)
    have "rx_inv t' q = rx_inv t q" if "q \<noteq> pri" for q by (rule rx_cong) (use that in \<open>simp_all add: t'_def\<close>)
    then have "rx_inv t' q" if "q < 2" for q
      using inv adv(1) that by (cases "q = pri") (auto simp: transq_inv_def less_2_cases_iff)
    moreover have "tq_cfg t' = tq_cfg t" by (simp add: t'_def)
    ultimately have inv': "transq_inv t'" using inv tx by (simp add: transq_inv_def)
    have num': "rx_num t' pri \<noteq> 0" using num by (simp add: t'_def)
    note nil' = rx_slots_Nil [OF adv(1) num'] and s' = rx_ring(1) [OF adv(1) num']
    have "hal_transq_rx_next 0 pri t = (if bit (p_rmt_ris t') (next_rx_slot t' pri)
        then (RET_OK, Some (p_rslot t' (next_rx_slot t' pri)), t') else (RET_RX_EMPTY, None, rx_enable pri t'))"
      using pri num s x s'
      by (simp add: hal_transq_rx_next_def Let_def s_def [symmetric] t'_def get_next_rx_slot_def)
    moreover have "p_rslot t' = p_rslot t" by (simp add: t'_def)
    moreover have "rx_msgs t' q = rx_msgs t q" if "q < 2" "q \<noteq> pri" for q
      using oth [OF that] by (simp add: rx_msgs_def t'_def)
    moreover have "xs \<noteq> [] \<Longrightarrow> hd xs = next_rx_slot t' pri" "xs = [] \<longleftrightarrow> \<not> bit (p_rmt_ris t') (next_rx_slot t' pri)"
      using nil' adv(2) by auto
    ultimately show ?thesis
      using Cons x s pri num inv' adv(2)
      by (auto simp: rx_msgs_def hal_transq_rx_first_def Let_def s_def [symmetric] hd_map)
  qed
qed

text \<open>
  Raising the number of send slots from zero with \<open>hal_transq_update_num\<close> on an open queue
  leaves the send position at 32: the next send is a write outside the slot registers.
\<close>

theorem hal_transq_update_num_from_zero:
  assumes "transq_inv t" "pri < 2" "tx_num t pri = 0" "sn_tx sn 0 + sn_tx sn 1 \<le> 32"
    "sn_rx sn 0 + sn_rx sn 1 \<le> 32" "sn_tx sn pri \<noteq> 0"
  shows "\<exists>t'. hal_transq_update_num 0 (Some sn) t = (RET_OK, t') \<and> hal_transq_tx 0 pri data len t' = None"
proof -
  have n: "next_tx_slot t pri = 32" "\<not> tx_slot_full t pri"
    using assms(1-3) by (auto simp: transq_inv_def less_2_cases_iff tx_inv_def Let_def)
  show ?thesis
    by (rule update_num_ok [OF assms(4,5), of t], rule exI, rule conjI, assumption)
      (use assms n in \<open>simp add: hal_transq_tx_def Let_def\<close>)
qed

section \<open>Witnesses\<close>

definition demo_transq_cfg :: transq_cfg where
  "demo_transq_cfg = \<lparr>cfg_slot = \<lparr>sn_tx = (\<lambda>q. if q = 0 then 2 else 0), sn_rx = (\<lambda>q. 1)\<rparr>,
     cfg_rx_handler = False, cfg_tx_handler = True\<rparr>"

definition demo_transq :: transq where
  "demo_transq = \<lparr>tq_cfg = demo_transq_cfg, next_tx_slot = (\<lambda>q. if q = 0 then 0 else 32),
     active_tx_slot = (\<lambda>q. 32), tx_slot_full = (\<lambda>q. False), next_rx_slot = (\<lambda>q. if q = 0 then 0 else 31),
     rx_irq_mask = (\<lambda>q. 0), r_ctrl = 0, r_rmt_intmask = 0, r_rmt_intset = [], r_ldone_intmask = 0,
     r_ldone_ris = 0, r_lerr_intmask = 0, r_lerr_ris = 0, r_rmt_ris = 0, r_wslot = (\<lambda>s. (0, 0)),
     p_rmt_intmask = 0, p_rmt_ris = 1, p_rslot = (\<lambda>s. (s, 7)), irq_enabled = (False, False)\<rparr>"

lemma demo_transq_inv: "transq_inv demo_transq"
  by (simp add: demo_transq_def demo_transq_cfg_def transq_inv_def tx_inv_def rx_inv_def base_slot_def)

lemma demo_transq_simps:
  "tx_num demo_transq 0 = 2" "tx_num demo_transq (Suc 0) = 0" "rx_num demo_transq 0 = 1"
  "tx_slots demo_transq 0 = []" "cfg_tx_handler (tq_cfg demo_transq)"
  "r_lerr_ris demo_transq = 0" "r_ldone_ris demo_transq = 0" "rx_msgs demo_transq 0 = [(0, 7)]"
  by (simp_all add: demo_transq_def demo_transq_cfg_def tx_count_0 rx_msgs_def rx_slots_def
      ring_slice_def slot_pos_def base_slot_def)

lemma hal_transq_open_establishes_witness:
  "transq_inv (snd (hal_transq_open 0 (Some demo_transq_cfg) demo_transq))"
  using hal_transq_open_establishes [OF prod.collapse [symmetric], of demo_transq_cfg demo_transq]
  by (simp add: demo_transq_cfg_def)

lemma hal_transq_tx_appends_witness:
  "\<exists>t'. hal_transq_tx 0 0 5 6 demo_transq = Some (RET_OK, t') \<and> tx_msgs t' 0 = [(5, 6)]"
  using hal_transq_tx_appends [OF demo_transq_inv, of 0 5 6]
  by (auto simp: demo_transq_simps tx_msgs_def)




lemma hal_transq_get_tx_status_polls_witness:
  "hal_transq_get_tx_status 0 0
     (demo_transq\<lparr>tq_cfg := demo_transq_cfg\<lparr>cfg_tx_handler := False\<rparr>\<rparr>) = None"
proof -
  let ?t = "demo_transq\<lparr>tq_cfg := demo_transq_cfg\<lparr>cfg_tx_handler := False\<rparr>\<rparr>"
  have "transq_inv ?t" "tx_slots ?t 0 = []" "tx_num ?t 0 \<noteq> 0"
    by (simp_all add: demo_transq_def demo_transq_cfg_def transq_inv_def tx_inv_def rx_inv_def base_slot_def tx_count_0)
  then show ?thesis using hal_transq_get_tx_status_polls [of ?t 0] by simp
qed

lemma hal_transq_rx_delivers_witness:
  "hal_transq_rx_first 0 0 demo_transq = (RET_OK, Some (0, 7), demo_transq)"
  using hal_transq_rx_delivers [OF demo_transq_inv, of 0] by (simp add: demo_transq_simps)

lemma hal_transq_update_num_from_zero_witness:
  "\<exists>t'. hal_transq_update_num 0 (Some \<lparr>sn_tx = (\<lambda>q. 1), sn_rx = (\<lambda>q. 1)\<rparr>) demo_transq = (RET_OK, t') \<and>
     hal_transq_tx 0 1 5 6 t' = None"
  using hal_transq_update_num_from_zero [OF demo_transq_inv, of 1 "\<lparr>sn_tx = (\<lambda>q. 1), sn_rx = (\<lambda>q. 1)\<rparr>" 5 6]
  by (simp add: demo_transq_simps)

end
