(* ===== verification/Tlv.thy ===== *)
theory Tlv
  imports Prelude
begin

text \<open>
  \<open>services/interconnection/app_interconnection_tlv.c\<close>: trees of type-length-value items, their
  byte encoding and decoding. Items live in a heap of numbered cells and are linked by child,
  brother and parent pointers, as in the code; allocation \<open>n\<close> succeeds when \<open>th_ok n\<close> holds. A
  value array takes a cell number of its own but its bytes are kept with the item.

  \<open>None\<close> as the result of an operation is a null or dangling pointer that is followed, a read or
  write outside a buffer, or a walk over a cyclic structure that never ends.
\<close>

unbundle bit_operations_syntax

section \<open>Items and the heap\<close>

text \<open>\<open>CCMP_CHILD_MASK\<close> and \<open>CCMP_BIGLEN_MASK\<close>, both the top bit of a byte.\<close>

definition CCMP_MASK :: byte where "CCMP_MASK = 128"

abbreviation (input) "TYPESIZE \<equiv> 1 :: nat"

record tlv_item =
  ti_type :: byte
  ti_length :: nat
  ti_value :: "byte list option"
  ti_brother :: "nat option"
  ti_child :: "nat option"
  ti_parent :: "nat option"

record tlv_heap =
  th_item :: "nat \<Rightarrow> tlv_item option"
  th_next :: nat
  th_ok :: "nat \<Rightarrow> bool"

definition tlv_malloc :: "tlv_heap \<Rightarrow> nat option \<times> tlv_heap" where
  "tlv_malloc h = (if th_ok h (th_next h) then Some (th_next h) else None, h\<lparr>th_next := Suc (th_next h)\<rparr>)"

definition put_item :: "nat \<Rightarrow> tlv_item \<Rightarrow> tlv_heap \<Rightarrow> tlv_heap" where
  "put_item a it h = h\<lparr>th_item := (th_item h)(a \<mapsto> it)\<rparr>"

text \<open>Write one field through a pointer; a null pointer is left alone by the code's own test.\<close>

definition upd_item :: "nat \<Rightarrow> (tlv_item \<Rightarrow> tlv_item) \<Rightarrow> tlv_heap \<Rightarrow> tlv_heap option" where
  "upd_item a f h = do { it \<leftarrow> th_item h a; Some (put_item a (f it) h) }"

function app_interconnection_tlv_item_get_length_size :: "nat \<Rightarrow> nat" where
  "app_interconnection_tlv_item_get_length_size n =
     (let n = n div 128 in if n \<noteq> 0 then Suc (app_interconnection_tlv_item_get_length_size n) else 1)"
  by pat_completeness auto
termination by (relation "measure id") auto

declare app_interconnection_tlv_item_get_length_size.simps [simp del]

definition app_interconnection_creat_new_tlv_item ::
  "byte \<Rightarrow> nat \<Rightarrow> byte list option \<Rightarrow> tlv_heap \<Rightarrow> (nat option \<times> tlv_heap) option" where
  "app_interconnection_creat_new_tlv_item ty n data h = (case tlv_malloc h of
     (None, h) \<Rightarrow> Some (None, h)
   | (Some node, h) \<Rightarrow>
       let it = \<lparr>ti_type = ty, ti_length = n mod 65536, ti_value = None, ti_brother = None,
                 ti_child = None, ti_parent = None\<rparr>
       in case data of
         None \<Rightarrow> Some (Some node, put_item node it h)
       | Some d \<Rightarrow>
         if n > 0 then (case tlv_malloc h of
             (None, h) \<Rightarrow> Some (None, h)
           | (Some v, h) \<Rightarrow>
             if n \<le> length d then Some (Some node, put_item node (it\<lparr>ti_value := Some (take n d)\<rparr>) h)
             else None)
         else Some (Some node, put_item node it h))"

definition free_tlv_item :: "nat option \<Rightarrow> tlv_heap \<Rightarrow> tlv_heap option" where
  "free_tlv_item item h = (case item of None \<Rightarrow> Some h
     | Some a \<Rightarrow> do { _ \<leftarrow> th_item h a; Some (h\<lparr>th_item := (th_item h)(a := None)\<rparr>) })"

section \<open>Reading numbers\<close>

text \<open>\<open>ptr\<close> says whether the destination pointer is valid; the code stores through it either way.\<close>

definition app_interconnection_tlv_get_big_endian_u16_from_item ::
  "nat option \<Rightarrow> bool \<Rightarrow> tlv_heap \<Rightarrow> nat option" where
  "app_interconnection_tlv_get_big_endian_u16_from_item item ptr h =
     (if \<not> ptr then None else case item of None \<Rightarrow> Some 0
      | Some a \<Rightarrow> do { it \<leftarrow> th_item h a;
          case ti_value it of None \<Rightarrow> Some 0
          | Some v \<Rightarrow> if ti_length it \<noteq> 2 then Some 0
              else if length v < 2 then None else Some (256 * unat (v ! 0) + unat (v ! 1)) })"

text \<open>
  The 32-bit version copies four bytes into a variable of type \<open>uint16_t\<close>: whenever it has
  something to read it writes outside its local variable.
\<close>

definition app_interconnection_tlv_get_big_endian_u32_from_item ::
  "nat option \<Rightarrow> bool \<Rightarrow> tlv_heap \<Rightarrow> nat option" where
  "app_interconnection_tlv_get_big_endian_u32_from_item item ptr h =
     (if \<not> ptr then None else case item of None \<Rightarrow> Some 0
      | Some a \<Rightarrow> do { it \<leftarrow> th_item h a;
          case ti_value it of None \<Rightarrow> Some 0
          | Some v \<Rightarrow> if ti_length it \<noteq> 4 then Some 0 else None })"

section \<open>Decoding\<close>

text \<open>Type, length and their size at the start of the \<open>n\<close> bytes \<open>b\<close>.\<close>

definition tlv_header :: "byte list \<Rightarrow> nat \<Rightarrow> (byte \<times> nat \<times> nat) option" where
  "tlv_header b n = do {
     ty \<leftarrow> mem_get b 0;
     if n > 1 then do {
       temp \<leftarrow> mem_get b 1;
       let len = unat (temp AND NOT CCMP_MASK);
       if temp AND CCMP_MASK \<noteq> 0 \<and> 2 < n then do {
         temp \<leftarrow> mem_get b 2;
         Some (ty, len * 128 + unat (temp AND NOT CCMP_MASK), 3) }
       else Some (ty, len, 2) }
     else Some (ty, 0, 1) }"

lemma tlv_header_bound [termination_simp]:
  "tlv_header b n = Some (ty, len, off) \<Longrightarrow> n \<noteq> 0 \<Longrightarrow> 0 < off \<and> off \<le> n"
  by (auto simp: tlv_header_def Option.bind_eq_Some_conv Let_def split: if_splits)

text \<open>Link the subtrees into item \<open>a\<close>; the brother inherits the parent \<open>a\<close> has at this moment.\<close>

definition set_parent :: "nat option \<Rightarrow> nat option \<Rightarrow> tlv_heap \<Rightarrow> tlv_heap option" where
  "set_parent node p h = (case node of None \<Rightarrow> Some h | Some a \<Rightarrow> upd_item a (ti_parent_update (\<lambda>_. p)) h)"

function tlv_decode :: "bool \<Rightarrow> byte list \<Rightarrow> nat \<Rightarrow> tlv_heap \<Rightarrow> (nat option \<times> tlv_heap) option" where
  "tlv_decode clip b n h =
     (if n = 0 then Some (None, h) else do {
        (ty, len, off) \<leftarrow> tlv_header b n;
        if len > n - off \<and> \<not> clip then Some (None, h) else do {
          let len = (if len > n - off then n - off else len);
          let has_child = (ty AND CCMP_MASK \<noteq> 0);
          (item, h) \<leftarrow> app_interconnection_creat_new_tlv_item (ty AND NOT CCMP_MASK) len
             (if has_child then None else Some (drop off b)) h;
          a \<leftarrow> item;
          (child, h) \<leftarrow> (if has_child then tlv_decode clip (drop off b) len h else Some (None, h));
          h \<leftarrow> upd_item a (ti_child_update (\<lambda>_. child)) h;
          (brother, h) \<leftarrow> tlv_decode clip (drop (off + len) b) (n - len - off) h;
          h \<leftarrow> upd_item a (ti_brother_update (\<lambda>_. brother)) h;
          h \<leftarrow> set_parent child (Some a) h;
          it \<leftarrow> th_item h a;
          h \<leftarrow> set_parent brother (ti_parent it) h;
          Some (Some a, h) } })"
  by pat_completeness auto
termination
  by (relation "measure (\<lambda>(clip, b, n, h). n)") (auto dest!: tlv_header_bound)

declare tlv_decode.simps [simp del]

definition app_interconnection_tlv_item_tree_malloc ::
  "byte list option \<Rightarrow> nat \<Rightarrow> tlv_heap \<Rightarrow> (nat option \<times> tlv_heap) option" where
  "app_interconnection_tlv_item_tree_malloc buf n h =
     (case buf of None \<Rightarrow> Some (None, h) | Some b \<Rightarrow> tlv_decode False b n h)"

definition app_interconnection_tlv_item_tree_malloc_long_msg ::
  "byte list option \<Rightarrow> nat \<Rightarrow> tlv_heap \<Rightarrow> (nat option \<times> tlv_heap) option" where
  "app_interconnection_tlv_item_tree_malloc_long_msg buf n h =
     (case buf of None \<Rightarrow> Some (None, h) | Some b \<Rightarrow> tlv_decode True b n h)"

section \<open>Building, searching, freeing\<close>

partial_function (option) parent_loop :: "nat option \<Rightarrow> nat \<Rightarrow> nat \<Rightarrow> tlv_heap \<Rightarrow> tlv_heap option" where
  "parent_loop parent itemLen inCreaseLen h = (case parent of
     None \<Rightarrow> Some h
   | Some p \<Rightarrow> do {
       it \<leftarrow> th_item h p;
       let h = put_item p (it\<lparr>ti_length := (ti_length it + itemLen + inCreaseLen) mod 65536\<rparr>) h;
       parent_loop (ti_parent it) itemLen
         (app_interconnection_tlv_item_get_length_size (itemLen + inCreaseLen)) h })"

definition update_parent_length :: "nat option \<Rightarrow> tlv_heap \<Rightarrow> tlv_heap option" where
  "update_parent_length item h = (case item of None \<Rightarrow> Some h
     | Some a \<Rightarrow> do {
         it \<leftarrow> th_item h a;
         let itemLen = ti_length it + TYPESIZE + app_interconnection_tlv_item_get_length_size (ti_length it);
         parent_loop (ti_parent it) itemLen 0 h })"

partial_function (option) last_brother :: "nat \<Rightarrow> tlv_heap \<Rightarrow> nat option" where
  "last_brother m h = do {
     it \<leftarrow> th_item h m;
     case ti_brother it of None \<Rightarrow> Some m | Some b \<Rightarrow> last_brother b h }"

definition tlv_item_add_brother :: "nat option \<Rightarrow> nat option \<Rightarrow> tlv_heap \<Rightarrow> tlv_heap option" where
  "tlv_item_add_brother me brother h = (case (me, brother) of
     (Some m, Some b) \<Rightarrow> do {
       m \<leftarrow> last_brother m h;
       h \<leftarrow> upd_item m (ti_brother_update (\<lambda>_. Some b)) h;
       it \<leftarrow> th_item h m;
       h \<leftarrow> upd_item b (ti_parent_update (\<lambda>_. ti_parent it)) h;
       update_parent_length (Some b) h }
   | _ \<Rightarrow> Some h)"

definition tlv_item_add_child :: "nat option \<Rightarrow> nat option \<Rightarrow> tlv_heap \<Rightarrow> tlv_heap option" where
  "tlv_item_add_child parent child h = (case (parent, child) of
     (Some p, Some c) \<Rightarrow> do {
       it \<leftarrow> th_item h p;
       if ti_value it \<noteq> None then Some h else do {
         h \<leftarrow> upd_item c (ti_parent_update (\<lambda>_. Some p)) h;
         it \<leftarrow> th_item h p;
         case ti_child it of
           None \<Rightarrow> do { h \<leftarrow> upd_item p (ti_child_update (\<lambda>_. Some c)) h; update_parent_length (Some c) h }
         | Some k \<Rightarrow> tlv_item_add_brother (Some k) (Some c) h } }
   | _ \<Rightarrow> Some h)"

partial_function (option) app_interconnection_tlv_get_item_with_type ::
  "nat option \<Rightarrow> byte \<Rightarrow> tlv_heap \<Rightarrow> nat option option" where
  "app_interconnection_tlv_get_item_with_type root ty h = (case root of
     None \<Rightarrow> Some None
   | Some a \<Rightarrow> do {
       it \<leftarrow> th_item h a;
       if ty = ti_type it then Some (Some a) else do {
         node \<leftarrow> app_interconnection_tlv_get_item_with_type (ti_child it) ty h;
         case node of
           None \<Rightarrow> app_interconnection_tlv_get_item_with_type (ti_brother it) ty h
         | Some n \<Rightarrow> Some (Some n) } })"

partial_function (option) app_interconnection_tlv_item_tree_free ::
  "nat option \<Rightarrow> tlv_heap \<Rightarrow> tlv_heap option" where
  "app_interconnection_tlv_item_tree_free tree h = (case tree of
     None \<Rightarrow> Some h
   | Some a \<Rightarrow> do {
       it \<leftarrow> th_item h a;
       h \<leftarrow> app_interconnection_tlv_item_tree_free (ti_child it) h;
       it \<leftarrow> th_item h a;
       h \<leftarrow> app_interconnection_tlv_item_tree_free (ti_brother it) h;
       free_tlv_item (Some a) h })"

definition app_interconnection_tlv_get_brother_node :: "nat option \<Rightarrow> tlv_heap \<Rightarrow> nat option option" where
  "app_interconnection_tlv_get_brother_node root h =
     (case root of None \<Rightarrow> Some None | Some a \<Rightarrow> map_option ti_brother (th_item h a))"

definition app_interconnection_tlv_get_child_node :: "nat option \<Rightarrow> tlv_heap \<Rightarrow> nat option option" where
  "app_interconnection_tlv_get_child_node root h =
     (case root of None \<Rightarrow> Some None | Some a \<Rightarrow> map_option ti_child (th_item h a))"

definition app_interconnection_tlv_get_item_type :: "nat option \<Rightarrow> tlv_heap \<Rightarrow> byte option" where
  "app_interconnection_tlv_get_item_type item h =
     (case item of None \<Rightarrow> Some 0 | Some a \<Rightarrow> map_option ti_type (th_item h a))"

definition app_interconnection_tlv_get_item_value ::
  "nat option \<Rightarrow> tlv_heap \<Rightarrow> (byte list option \<times> nat) option" where
  "app_interconnection_tlv_get_item_value item h = (case item of
     None \<Rightarrow> Some (None, 0)
   | Some a \<Rightarrow> do { it \<leftarrow> th_item h a;
       Some (ti_value it, if ti_value it = None then 0 else ti_length it) })"

section \<open>Encoding\<close>

fun length_bytes :: "nat \<Rightarrow> nat \<Rightarrow> bool \<Rightarrow> byte list" where
  "length_bytes 0 temp first = []"
| "length_bytes (Suc n) temp first =
     length_bytes n (temp div 128) False @
     [if first then of_nat (temp mod 128) else of_nat (temp mod 128) OR CCMP_MASK]"

partial_function (option) app_interconnection_tlv_item_fill_buffer ::
  "tlv_heap \<Rightarrow> nat option \<Rightarrow> byte list \<Rightarrow> nat \<Rightarrow> nat \<Rightarrow> byte list option" where
  "app_interconnection_tlv_item_fill_buffer h item buf p n = (case item of
     None \<Rightarrow> Some buf
   | Some a \<Rightarrow> if n = 0 then Some buf else do {
       it \<leftarrow> th_item h a;
       let lenSize = app_interconnection_tlv_item_get_length_size (ti_length it);
       let itemLen = ti_length it + lenSize + TYPESIZE;
       if itemLen > n then Some buf else do {
         buf \<leftarrow> mem_set buf (int p) (if ti_value it = None \<and> ti_length it > 0
           then ti_type it OR CCMP_MASK else ti_type it);
         buf \<leftarrow> memcpy buf (int (p + 1)) (length_bytes lenSize (ti_length it) True) 0 (int lenSize);
         let q = p + 1 + lenSize;
         buf \<leftarrow> (case ti_value it of
             None \<Rightarrow> app_interconnection_tlv_item_fill_buffer h (ti_child it) buf q (ti_length it)
           | Some v \<Rightarrow> memcpy buf (int q) v 0 (int (ti_length it)));
         app_interconnection_tlv_item_fill_buffer h (ti_brother it) buf (q + ti_length it) (n - itemLen) } })"

partial_function (option) tree_length_loop :: "nat option \<Rightarrow> nat \<Rightarrow> tlv_heap \<Rightarrow> nat option" where
  "tree_length_loop p len h = (case p of
     None \<Rightarrow> Some len
   | Some a \<Rightarrow> do {
       it \<leftarrow> th_item h a;
       tree_length_loop (ti_brother it) (add32 len (ti_length it + TYPESIZE +
         app_interconnection_tlv_item_get_length_size (ti_length it))) h })"

definition app_interconnection_tlv_get_item_tree_length :: "nat option \<Rightarrow> tlv_heap \<Rightarrow> nat option" where
  "app_interconnection_tlv_get_item_tree_length root h = tree_length_loop root 0 h"

text \<open>The result is the buffer and its length; \<open>None\<close> for the length is \<open>*length\<close> not written.\<close>

definition app_interconnection_tlv_malloc_for_item ::
  "nat option \<Rightarrow> tlv_heap \<Rightarrow> (byte list option \<times> nat option \<times> tlv_heap) option" where
  "app_interconnection_tlv_malloc_for_item item h = do {
     len \<leftarrow> app_interconnection_tlv_get_item_tree_length item h;
     if len = 0 then Some (None, Some 0, h)
     else case tlv_malloc h of
       (None, h) \<Rightarrow> Some (None, None, h)
     | (Some _, h) \<Rightarrow> do {
         buf \<leftarrow> app_interconnection_tlv_item_fill_buffer h item (replicate len 0) 0 len;
         Some (Some buf, Some len, h) } }"

definition app_interconnection_tlv_malloc_for_item_tree_with_margin ::
  "nat option \<Rightarrow> nat \<Rightarrow> nat \<Rightarrow> tlv_heap \<Rightarrow> (byte list option \<times> nat option \<times> tlv_heap) option" where
  "app_interconnection_tlv_malloc_for_item_tree_with_margin item head tail h = do {
     len \<leftarrow> app_interconnection_tlv_get_item_tree_length item h;
     if len = 0 then Some (None, Some 0, h)
     else let len = add32 len (head + tail) in case tlv_malloc h of
       (None, h) \<Rightarrow> Some (None, None, h)
     | (Some _, h) \<Rightarrow> do {
         buf \<leftarrow> app_interconnection_tlv_item_fill_buffer h item (replicate len 0) head (sub32 (sub32 len head) tail);
         Some (Some buf, Some len, h) } }"

section \<open>Trees\<close>

text \<open>The tree a pointer stands for, and its encoding as the format defines it.\<close>

datatype tlv = Null | Item (tl_type: byte) (tl_length: nat) (tl_value: "byte list option") (tl_child: tlv) (tl_brother: tlv)

abbreviation length_size :: "nat \<Rightarrow> nat" where
  "length_size \<equiv> app_interconnection_tlv_item_get_length_size"

fun rep :: "nat \<Rightarrow> nat \<Rightarrow> tlv_heap \<Rightarrow> nat option \<Rightarrow> tlv \<Rightarrow> bool" where
  "rep lo hi h p Null \<longleftrightarrow> p = None"
| "rep lo hi h p (Item ty l v c b) \<longleftrightarrow> (case p of None \<Rightarrow> False
     | Some a \<Rightarrow> lo \<le> a \<and> a < hi \<and> (case th_item h a of None \<Rightarrow> False
       | Some it \<Rightarrow> ti_type it = ty \<and> ti_length it = l \<and> ti_value it = v \<and>
           rep lo hi h (ti_child it) c \<and> rep lo hi h (ti_brother it) b))"

fun enc :: "tlv \<Rightarrow> byte list" where
  "enc Null = []"
| "enc (Item ty l v c b) =
     (if v = None \<and> l > 0 then ty OR CCMP_MASK else ty) # length_bytes (length_size l) l True @
     (case v of None \<Rightarrow> enc c | Some w \<Rightarrow> w) @ enc b"

text \<open>
  Trees the decoder can return: types have seven bits, lengths two groups of seven bits, an item
  has either a value of its length or children whose encoding has its length.
\<close>

fun tlv_wf :: "tlv \<Rightarrow> bool" where
  "tlv_wf Null \<longleftrightarrow> True"
| "tlv_wf (Item ty l v c b) \<longleftrightarrow> \<not> bit ty 7 \<and> l < 16384 \<and>
     (case v of None \<Rightarrow> length (enc c) = l | Some w \<Rightarrow> length w = l \<and> 0 < l \<and> c = Null) \<and>
     tlv_wf c \<and> tlv_wf b"

lemma length_size_cases:
  "l < 128 \<Longrightarrow> length_size l = 1" "128 \<le> l \<Longrightarrow> l < 16384 \<Longrightarrow> length_size l = 2"
proof -
  show 1: "l < 128 \<Longrightarrow> length_size l = 1" for l
    by (simp add: app_interconnection_tlv_item_get_length_size.simps [of l])
  assume "128 \<le> l" "l < 16384"
  then have "length_size (l div 128) = 1" "l div 128 \<noteq> 0" using 1 [of "l div 128"] by auto
  then show "length_size l = 2" by (simp add: app_interconnection_tlv_item_get_length_size.simps [of l])
qed

lemma length_size_pos [simp]: "0 < length_size l"
  by (subst app_interconnection_tlv_item_get_length_size.simps) (simp add: Let_def)

lemma length_length_bytes [simp]: "length (length_bytes n l f) = n"
  by (induction n l f rule: length_bytes.induct) simp_all

lemma enc_Nil_iff: "enc t = [] \<longleftrightarrow> t = Null"
  by (cases t) auto

subsection \<open>Bytes\<close>

lemma bit_CCMP_MASK [simp]: "bit CCMP_MASK n \<longleftrightarrow> n = 7"
  using bit_exp_iff [where 'a = "8 word", of 7 n] by (auto simp: CCMP_MASK_def)

lemma mask7: "w AND NOT CCMP_MASK = take_bit 7 w"
  by (rule bit_eqI) (auto simp: bit_and_iff bit_not_iff bit_take_bit_iff)

lemma and_mask_iff: "w AND CCMP_MASK \<noteq> 0 \<longleftrightarrow> bit w 7"
proof -
  have "w AND CCMP_MASK = (if bit w 7 then CCMP_MASK else 0)"
    by (rule bit_eqI) (auto simp: bit_and_iff)
  moreover have "CCMP_MASK \<noteq> 0" by (simp add: CCMP_MASK_def)
  ultimately show ?thesis by simp
qed

lemma unat_mask7: "unat (w AND NOT CCMP_MASK) = unat w mod 128"
  unfolding mask7 take_bit_eq_mod by (simp add: unat_mod)

lemma mask7_or: "(w OR CCMP_MASK) AND NOT CCMP_MASK = w AND NOT CCMP_MASK"
  by (rule bit_eqI) (auto simp: bit_and_iff bit_or_iff bit_not_iff)

lemma mask7_id: "\<not> bit w 7 \<Longrightarrow> w AND NOT CCMP_MASK = w"
  by (rule bit_eqI) (auto simp: bit_and_iff bit_not_iff)

lemma bit7_small: "x < 128 \<Longrightarrow> \<not> bit (of_nat x :: byte) 7"
proof -
  assume "x < 128"
  then have "unat (of_nat x AND NOT CCMP_MASK :: byte) = unat (of_nat x :: byte)"
    by (simp add: unat_mask7 unat_of_nat)
  then have "of_nat x AND NOT CCMP_MASK = (of_nat x :: byte)" by (simp only: word_unat_eq_iff)
  then have "bit (of_nat x AND NOT CCMP_MASK :: byte) 7 = bit (of_nat x :: byte) 7" by simp
  then show ?thesis by (simp add: bit_and_iff bit_not_iff)
qed

text \<open>The decoder reads back type and length of an encoded item.\<close>

lemma tlv_header_enc:
  assumes "l < 16384" "length_size l + 1 \<le> n"
  shows "tlv_header (ty # length_bytes (length_size l) l True @ rest) n = Some (ty, l, 1 + length_size l)"
proof (cases "l < 128")
  case True
  have "unat (of_nat l AND NOT CCMP_MASK :: byte) = l"
    using True by (simp add: unat_mask7 unat_of_nat)
  moreover have "(of_nat l :: byte) AND CCMP_MASK = 0" using bit7_small [OF True] and_mask_iff [of "of_nat l"] by blast
  ultimately show ?thesis
    using True assms(2) length_size_cases(1) [OF True] by (simp add: tlv_header_def mem_get_def)
next
  case False
  then have s: "length_size l = 2" using length_size_cases(2) [of l] assms(1) by simp
  have d: "l div 128 < 128" using assms(1) by auto
  have "unat ((of_nat (l div 128) OR CCMP_MASK) AND NOT CCMP_MASK :: byte) = l div 128"
    unfolding mask7_or using d by (simp add: unat_mask7 unat_of_nat)
  moreover have "unat (of_nat (l mod 128) AND NOT CCMP_MASK :: byte) = l mod 128"
    by (simp add: unat_mask7 unat_of_nat)
  moreover have "(of_nat (l div 128) OR CCMP_MASK :: byte) AND CCMP_MASK \<noteq> 0"
    unfolding and_mask_iff by (simp add: bit_or_iff)
  ultimately show ?thesis
    using s assms(2) d by (simp add: tlv_header_def mem_get_def numeral_2_eq_2 Let_def)
qed

section \<open>Decoding builds the tree\<close>

text \<open>Cells up to their parent pointers: the representation does not look at these.\<close>

definition strip :: "tlv_heap \<Rightarrow> nat \<Rightarrow> tlv_item option" where
  "strip h x = map_option (ti_parent_update (\<lambda>_. None)) (th_item h x)"

lemma rep_Item:
  "rep lo hi h p (Item ty l v c b) \<longleftrightarrow> (\<exists>a it. p = Some a \<and> lo \<le> a \<and> a < hi \<and> strip h a = Some it \<and>
     ti_type it = ty \<and> ti_length it = l \<and> ti_value it = v \<and>
     rep lo hi h (ti_child it) c \<and> rep lo hi h (ti_brother it) b)"
  by (cases p) (auto simp: strip_def split: option.splits)

declare rep.simps(2) [simp del]

lemma rep_cong:
  "(\<And>x. lo \<le> x \<Longrightarrow> x < hi \<Longrightarrow> strip h' x = strip h x) \<Longrightarrow> rep lo hi h' p t \<longleftrightarrow> rep lo hi h p t"
  by (induction t arbitrary: p) (auto simp: rep_Item)

lemma rep_mono: "rep lo hi h p t \<Longrightarrow> lo' \<le> lo \<Longrightarrow> hi \<le> hi' \<Longrightarrow> rep lo' hi' h p t"
  by (induction t arbitrary: p) (fastforce simp: rep_Item)+

lemma rep_ptr: "rep lo hi h (Some a) t \<Longrightarrow> lo \<le> a \<and> a < hi \<and> (\<exists>it. th_item h a = Some it)"
  by (cases t) (auto simp: rep_Item strip_def)

lemma put_item_simps [simp]:
  "th_item (put_item a it h) x = (if x = a then Some it else th_item h x)"
  "th_next (put_item a it h) = th_next h" "th_ok (put_item a it h) = th_ok h"
  by (simp_all add: put_item_def)

lemma strip_put_parent: "th_item h a = Some it \<Longrightarrow> strip (put_item a (it\<lparr>ti_parent := q\<rparr>) h) x = strip h x"
  by (simp add: strip_def)

text \<open>Setting the parent of a represented tree always works and changes no tree.\<close>

lemma set_parent_ok:
  assumes "rep lo hi h p t"
  obtains h' where "set_parent p q h = Some h'" "\<And>x. strip h' x = strip h x" "th_next h' = th_next h"
    "th_ok h' = th_ok h" "\<And>x. p \<noteq> Some x \<Longrightarrow> th_item h' x = th_item h x"
proof (cases p)
  case None
  then show thesis using that [of h] by (simp add: set_parent_def)
next
  case (Some a)
  then obtain it where it: "th_item h a = Some it" using rep_ptr assms by blast
  then show thesis
    using that [of "put_item a (it\<lparr>ti_parent := q\<rparr>) h"] Some
    by (simp add: set_parent_def upd_item_def strip_put_parent)
qed

definition extends :: "tlv_heap \<Rightarrow> tlv_heap \<Rightarrow> bool" where
  "extends h h' \<longleftrightarrow> th_next h \<le> th_next h' \<and> th_ok h' = th_ok h \<and> (\<forall>x < th_next h. th_item h' x = th_item h x)"

definition builds :: "(nat option \<times> tlv_heap) option \<Rightarrow> tlv_heap \<Rightarrow> tlv \<Rightarrow> bool" where
  "builds r h t \<longleftrightarrow> (\<exists>p h'. r = Some (p, h') \<and> rep (th_next h) (th_next h') h' p t \<and> extends h h')"

text \<open>The links the decoder sets after both recursive calls.\<close>

lemma link_ok:
  assumes a: "a < th_next h" and it: "th_item h a = Some it" and c: "rep (Suc a) (th_next h) h cp c"
    and ok: "\<And>n. th_ok h n"
    and dec: "\<And>h. (\<And>n. th_ok h n) \<Longrightarrow> builds (rec h) h b"
  shows "\<exists>h'. do {
      h \<leftarrow> upd_item a (ti_child_update (\<lambda>_. cp)) h;
      (brother, h) \<leftarrow> rec h;
      h \<leftarrow> upd_item a (ti_brother_update (\<lambda>_. brother)) h;
      h \<leftarrow> set_parent cp (Some a) h;
      it \<leftarrow> th_item h a;
      h \<leftarrow> set_parent brother (ti_parent it) h;
      Some (Some a, h) } = Some (Some a, h') \<and>
    rep a (th_next h') h' (Some a) (Item (ti_type it) (ti_length it) (ti_value it) c b) \<and>
    th_next h \<le> th_next h' \<and> th_ok h' = th_ok h \<and> (\<forall>x<a. th_item h' x = th_item h x)"
proof -
  define h1 where "h1 = put_item a (it\<lparr>ti_child := cp\<rparr>) h"
  have "builds (rec h1) h1 b" by (rule dec) (simp add: h1_def ok)
  then obtain bp h2 where 2: "rec h1 = Some (bp, h2)" "rep (th_next h) (th_next h2) h2 bp b"
    "th_next h \<le> th_next h2" "th_ok h2 = th_ok h" "\<And>x. x < th_next h \<Longrightarrow> th_item h2 x = th_item h1 x"
    by (auto simp: builds_def extends_def h1_def)
  define it3 where "it3 = it\<lparr>ti_child := cp, ti_brother := bp\<rparr>"
  define h3 where "h3 = put_item a it3 h2"
  have it2: "th_item h2 a = Some (it\<lparr>ti_child := cp\<rparr>)" using 2(5) [OF a] by (simp add: h1_def)
  have c3: "rep (Suc a) (th_next h) h3 cp c"
    using rep_cong [of "Suc a" "th_next h" h3 h cp c] c 2(5) by (simp add: h3_def h1_def strip_def)
  have b3: "rep (th_next h) (th_next h2) h3 bp b"
    using rep_cong [of "th_next h" "th_next h2" h3 h2 bp b] 2(2) a by (simp add: h3_def strip_def)
  obtain h4 where 4: "set_parent cp (Some a) h3 = Some h4" "\<And>x. strip h4 x = strip h3 x" "th_next h4 = th_next h3"
    "th_ok h4 = th_ok h3" "\<And>x. cp \<noteq> Some x \<Longrightarrow> th_item h4 x = th_item h3 x"
    using set_parent_ok [OF c3] by blast
  have cpa: "cp \<noteq> Some x" if "x \<le> a" for x using rep_ptr [of "Suc a" "th_next h" h x c] c that by auto
  have it4: "th_item h4 a = Some it3" using 4(5) [of a] cpa [of a] by (simp add: h3_def)
  have b4: "rep (th_next h) (th_next h2) h4 bp b"
    using rep_cong [of "th_next h" "th_next h2" h4 h3 bp b] b3 4(2) by simp
  obtain h5 where 5: "set_parent bp (ti_parent it3) h4 = Some h5" "\<And>x. strip h5 x = strip h4 x"
    "th_next h5 = th_next h4" "th_ok h5 = th_ok h4" "\<And>x. bp \<noteq> Some x \<Longrightarrow> th_item h5 x = th_item h4 x"
    using set_parent_ok [OF b4] by blast
  have bpa: "bp \<noteq> Some x" if "x \<le> a" for x using rep_ptr [of "th_next h" "th_next h2" h4 x b] b4 a that by auto
  have s: "strip h5 x = strip h3 x" for x using 4(2) 5(2) by simp
  have "rep a (th_next h5) h5 (Some a) (Item (ti_type it) (ti_length it) (ti_value it) c b)"
  proof -
    have n: "th_next h5 = th_next h2" using 5(3) 4(3) by (simp add: h3_def)
    have "strip h5 a = Some (it3\<lparr>ti_parent := None\<rparr>)" using s [of a] by (simp add: strip_def h3_def)
    moreover have "rep a (th_next h5) h5 cp c"
      using rep_mono [of "Suc a" "th_next h" h5 cp c a "th_next h5"] rep_cong [of "Suc a" "th_next h" h5 h3 cp c]
        c3 s n 2(3) by simp
    moreover have "rep a (th_next h5) h5 bp b"
      using rep_mono [of "th_next h" "th_next h2" h5 bp b a "th_next h5"] rep_cong [of "th_next h" "th_next h2" h5 h3 bp b]
        b3 s n a by simp
    ultimately show ?thesis using a n 2(3) by (auto simp: rep_Item it3_def)
  qed
  moreover have "th_item h5 x = th_item h x" if "x < a" for x
    using 5(5) [of x] 4(5) [of x] bpa [of x] cpa [of x] 2(5) [of x] that a by (simp add: h3_def h1_def)
  moreover have "th_next h \<le> th_next h5" "th_ok h5 = th_ok h"
    using 2(3,4) 4(3,4) 5(3,4) by (simp_all add: h3_def)
  moreover have "upd_item a (ti_child_update (\<lambda>_. cp)) h = Some h1"
    "upd_item a (ti_brother_update (\<lambda>_. bp)) h2 = Some h3"
    using it it2 by (simp_all add: upd_item_def h1_def h3_def it3_def)
  ultimately show ?thesis using 2(1) 4(1) 5(1) it4 by (intro exI [of _ h5]) simp
qed

text \<open>Creating an item when allocation succeeds.\<close>

lemma creat_ok:
  assumes ok: "\<And>n. th_ok h n" and d: "data = None \<or> n = 0 \<or> n \<le> length (the data)"
  obtains h' it where "app_interconnection_creat_new_tlv_item ty n data h = Some (Some (th_next h), h')"
    "th_item h' (th_next h) = Some it" "ti_type it = ty" "ti_length it = n mod 65536"
    "ti_value it = (if n = 0 then None else map_option (take n) data)" "th_next h < th_next h'"
    "th_ok h' = th_ok h" "\<And>x. x < th_next h \<Longrightarrow> th_item h' x = th_item h x"
proof (cases "data = None \<or> n = 0")
  case True
  then show thesis using ok
    by (cases data; intro that [of "put_item (th_next h) \<lparr>ti_type = ty, ti_length = n mod 65536, ti_value = None,
        ti_brother = None, ti_child = None, ti_parent = None\<rparr> (h\<lparr>th_next := Suc (th_next h)\<rparr>)"])
      (auto simp: app_interconnection_creat_new_tlv_item_def tlv_malloc_def)
next
  case False
  then obtain v where v: "data = Some v" "0 < n" "n \<le> length v" using d by auto
  then show thesis using ok
    by (intro that [of "put_item (th_next h) \<lparr>ti_type = ty, ti_length = n mod 65536, ti_value = Some (take n v),
        ti_brother = None, ti_child = None, ti_parent = None\<rparr> (h\<lparr>th_next := Suc (Suc (th_next h))\<rparr>)"])
      (auto simp: app_interconnection_creat_new_tlv_item_def tlv_malloc_def)
qed

lemma bit7_or: "bit (w OR CCMP_MASK) 7"
  by (simp add: bit_or_iff)

lemma decode_enc:
  "tlv_wf t \<Longrightarrow> (\<And>n. th_ok h n) \<Longrightarrow> builds (tlv_decode clip (enc t @ rest) (length (enc t)) h) h t"
proof (induction t arbitrary: h rest)
  case Null
  then show ?case by (simp add: tlv_decode.simps builds_def extends_def)
next
  case (Item ty l v c b)
  from Item.prems(1) have wf: "\<not> bit ty 7" "l < 16384" "tlv_wf c" "tlv_wf b" by simp_all
  define pre where "pre = (if v = None \<and> l > 0 then ty OR CCMP_MASK else ty) # length_bytes (length_size l) l True"
  define body where "body = (case v of None \<Rightarrow> enc c | Some w \<Rightarrow> w)"
  have body: "length body = l" using Item.prems(1) by (cases v) (simp_all add: body_def)
  define n where "n = length (enc (Item ty l v c b))"
  have e: "enc (Item ty l v c b) @ rest = pre @ body @ enc b @ rest" by (simp add: pre_def body_def)
  have n: "n = 1 + length_size l + l + length (enc b)" by (simp add: n_def body body_def [symmetric])
  have hdr: "tlv_header (pre @ body @ enc b @ rest) n =
      Some (if v = None \<and> l > 0 then ty OR CCMP_MASK else ty, l, 1 + length_size l)"
    unfolding pre_def append_Cons by (rule tlv_header_enc) (use wf(2) n in simp_all)
  define child where "child = (v = None \<and> l > 0)"
  have ch: "((if v = None \<and> l > 0 then ty OR CCMP_MASK else ty) AND CCMP_MASK \<noteq> 0) = child"
    unfolding and_mask_iff child_def using wf(1) bit7_or by auto
  have tyb: "(if v = None \<and> l > 0 then ty OR CCMP_MASK else ty) AND NOT CCMP_MASK = ty"
    using mask7_or [of ty] mask7_id [OF wf(1)] by simp
  have drop1: "drop (1 + length_size l) (pre @ body @ enc b @ rest) = body @ enc b @ rest"
    by (simp add: pre_def)
  have drop2: "drop (1 + length_size l + l) (pre @ body @ enc b @ rest) = enc b @ rest"
    by (simp add: pre_def body)
  have d: "(if child then None else Some (body @ enc b @ rest)) = None \<or> l = 0 \<or>
      l \<le> length (the (if child then None else Some (body @ enc b @ rest)))"
    using body by simp
  obtain h1 it where 1: "app_interconnection_creat_new_tlv_item ty l (if child then None else Some (body @ enc b @ rest)) h =
      Some (Some (th_next h), h1)"
    "th_item h1 (th_next h) = Some it" "ti_type it = ty" "ti_length it = l mod 65536"
    "ti_value it = (if l = 0 then None else map_option (take l) (if child then None else Some (body @ enc b @ rest)))"
    "th_next h < th_next h1" "th_ok h1 = th_ok h" "\<And>x. x < th_next h \<Longrightarrow> th_item h1 x = th_item h x"
    using creat_ok [OF Item.prems(2) d, of ty] by blast
  have val: "ti_value it = v" "ti_length it = l"
    using 1(4,5) wf(2) body Item.prems(1) by (auto simp: child_def body_def split: option.splits)
  obtain cp h2 where 2: "(if child then tlv_decode clip (body @ enc b @ rest) l h1 else Some (None, h1)) = Some (cp, h2)"
    "rep (th_next h1) (th_next h2) h2 cp c" "extends h1 h2"
  proof (cases child)
    case True
    then have "body = enc c" "length (enc c) = l" using body by (simp_all add: child_def body_def)
    then have "builds (tlv_decode clip (body @ enc b @ rest) l h1) h1 c"
      using Item.IH(1) [OF wf(3), of h1 "enc b @ rest"] 1(7) Item.prems(2) by simp
    then show thesis using that True by (auto simp: builds_def)
  next
    case False
    then have "c = Null" using Item.prems(1) by (cases v) (auto simp: child_def enc_Nil_iff)
    then show thesis using that [of None h1] False by (simp add: extends_def)
  qed
  have a: "th_next h < th_next h2" "th_item h2 (th_next h) = Some it" "\<And>n. th_ok h2 n"
    using 1(2,6,7) 2(3) Item.prems(2) by (simp_all add: extends_def)
  have cp: "rep (Suc (th_next h)) (th_next h2) h2 cp c"
    by (rule rep_mono [OF 2(2)]) (use 1(6) in simp_all)
  have dec: "\<And>h. (\<And>n. th_ok h n) \<Longrightarrow> builds (tlv_decode clip (enc b @ rest) (length (enc b)) h) h b"
    by (rule Item.IH(2) [OF wf(4)])
  obtain h' where 3: "do {
      h2 \<leftarrow> upd_item (th_next h) (ti_child_update (\<lambda>_. cp)) h2;
      (brother, h2) \<leftarrow> tlv_decode clip (enc b @ rest) (length (enc b)) h2;
      h2 \<leftarrow> upd_item (th_next h) (ti_brother_update (\<lambda>_. brother)) h2;
      h2 \<leftarrow> set_parent cp (Some (th_next h)) h2;
      it \<leftarrow> th_item h2 (th_next h);
      h2 \<leftarrow> set_parent brother (ti_parent it) h2;
      Some (Some (th_next h), h2) } = Some (Some (th_next h), h')"
    "rep (th_next h) (th_next h') h' (Some (th_next h)) (Item (ti_type it) (ti_length it) (ti_value it) c b)"
    "th_next h2 \<le> th_next h'" "th_ok h' = th_ok h2" "\<forall>x<th_next h. th_item h' x = th_item h2 x"
    using link_ok [OF a(1,2) cp a(3) dec] by blast
  have f: "(n = 0) = False" "(n - (1 + length_size l) < l) = False" "n - l - (1 + length_size l) = length (enc b)"
    using n by simp_all
  have "tlv_decode clip (pre @ body @ enc b @ rest) n h = Some (Some (th_next h), h')"
    by (subst tlv_decode.simps)
      (simp only: f hdr bind.bind_lunit prod.case if_False simp_thms Let_def ch tyb drop1 drop2 1(1) 2(1) 3(1))
  moreover have "extends h h'"
    using 1(6-8) 2(3) 3(3-5) by (simp add: extends_def)
  ultimately show ?case
    using 3(2) val 1(3) unfolding e n_def [symmetric] by (auto simp: builds_def)
qed

section \<open>Encoding writes the encoding\<close>

lemma blit_append:
  "i + length xs + length ys \<le> length b \<Longrightarrow> blit (blit b i xs) (i + length xs) ys = blit b i (xs @ ys)"
  by (rule nth_equalityI) (auto simp: nth_blit nth_append)

lemma mem_set_blit: "i < length b \<Longrightarrow> mem_set b (int i) x = Some (blit b i [x])"
  by (simp add: mem_set_nat) (rule nth_equalityI, auto simp: nth_blit nth_update)

lemma memcpy_whole:
  "i + length xs \<le> length b \<Longrightarrow> memcpy b (int i) xs 0 (int (length xs)) = Some (blit b i xs)"
  by (simp add: memcpy_0)

lemma fill_enc:
  "rep lo hi h p t \<Longrightarrow> tlv_wf t \<Longrightarrow> pos + length (enc t) \<le> length buf \<Longrightarrow>
   app_interconnection_tlv_item_fill_buffer h p buf pos (length (enc t)) = Some (blit buf pos (enc t))"
proof (induction t arbitrary: p buf pos)
  case Null
  then show ?case by (simp add: app_interconnection_tlv_item_fill_buffer.simps)
next
  case (Item ty l v c b)
  obtain a it where it: "p = Some a" "th_item h a = Some it" "ti_type it = ty" "ti_length it = l" "ti_value it = v"
    "rep lo hi h (ti_child it) c" "rep lo hi h (ti_brother it) b"
    using Item.prems(1) by (auto simp: rep_Item strip_def)
  from Item.prems(2) have wf: "tlv_wf c" "tlv_wf b" by simp_all
  define s where "s = length_size l"
  define x where "x = (if v = None \<and> l > 0 then ty OR CCMP_MASK else ty)"
  define lb where "lb = length_bytes s l True"
  define body where "body = (case v of None \<Rightarrow> enc c | Some w \<Rightarrow> w)"
  have len: "length body = l" "length lb = s" using Item.prems(2) by (cases v; simp add: body_def lb_def)+
  have e: "enc (Item ty l v c b) = [x] @ lb @ body @ enc b" by (simp add: x_def lb_def s_def body_def)
  have bound: "pos + (1 + s + l + length (enc b)) \<le> length buf" using Item.prems(3) unfolding e by (simp add: len)
  define b1 where "b1 = blit buf pos [x]"
  define b2 where "b2 = blit buf pos ([x] @ lb)"
  define b3 where "b3 = blit buf pos ([x] @ lb @ body)"
  have l123: "length b1 = length buf" "length b2 = length buf" "length b3 = length buf"
    using bound by (simp_all add: b1_def b2_def b3_def len)
  have 1: "mem_set buf (int pos) x = Some b1" using bound by (simp add: b1_def mem_set_blit)
  have 2: "memcpy b1 (int (pos + 1)) lb 0 (int s) = Some b2"
    using memcpy_whole [of "pos + 1" lb b1] blit_append [of pos "[x]" lb buf] bound l123
    by (simp add: len b1_def b2_def)
  have a2: "blit b2 (pos + 1 + s) body = b3"
    using blit_append [of pos "[x] @ lb" body buf] bound by (simp add: len b2_def b3_def)
  have 3: "(case v of None \<Rightarrow> app_interconnection_tlv_item_fill_buffer h (ti_child it) b2 (pos + 1 + s) l
      | Some w \<Rightarrow> memcpy b2 (int (pos + 1 + s)) w 0 (int l)) = Some b3"
  proof (cases v)
    case None
    then have "body = enc c" by (simp add: body_def)
    then show ?thesis using Item.IH(1) [OF it(6) wf(1), of "pos + 1 + s" b2] None len bound a2 l123 by simp
  next
    case (Some w)
    then have "body = w" by (simp add: body_def)
    then show ?thesis using memcpy_whole [of "pos + 1 + s" w b2] Some len bound a2 l123 by simp
  qed
  have 4: "app_interconnection_tlv_item_fill_buffer h (ti_brother it) b3 (pos + 1 + s + l) (length (enc b)) =
      Some (blit buf pos ([x] @ lb @ body @ enc b))"
    using Item.IH(2) [OF it(7) wf(2), of "pos + 1 + s + l" b3] blit_append [of pos "[x] @ lb @ body" "enc b" buf]
      bound l123 by (simp add: len b3_def add.assoc)
  have n: "length (enc (Item ty l v c b)) = 1 + s + l + length (enc b)" unfolding e by (simp add: len)
  have n0: "(1 + s + l + length (enc b) = 0) = False" "(1 + s + l + length (enc b) < l + s + TYPESIZE) = False"
    "1 + s + l + length (enc b) - (l + s + TYPESIZE) = length (enc b)" by simp_all
  have bp: "(v = None \<and> 0 < l) = (v = None \<and> l > 0)" by simp
  show ?case
    unfolding n by (subst app_interconnection_tlv_item_fill_buffer.simps)
      (simp only: it(1-5) option.case n0 if_False bind.bind_lunit Let_def s_def [symmetric] x_def [symmetric]
        lb_def [symmetric] 1 2 3 4 e)
qed

lemma tree_length:
  "rep lo hi h p t \<Longrightarrow> tlv_wf t \<Longrightarrow> acc + length (enc t) < 4294967296 \<Longrightarrow>
   tree_length_loop p acc h = Some (acc + length (enc t))"
proof (induction t arbitrary: p acc)
  case Null
  then show ?case by (simp add: tree_length_loop.simps)
next
  case (Item ty l v c b)
  obtain a it where it: "p = Some a" "th_item h a = Some it" "ti_length it = l" "rep lo hi h (ti_brother it) b"
    using Item.prems(1) by (auto simp: rep_Item strip_def)
  have body: "length (case v of None \<Rightarrow> enc c | Some w \<Rightarrow> w) = l" using Item.prems(2) by (cases v) simp_all
  then have n: "acc + length (enc (Item ty l v c b)) = acc + (l + 1 + length_size l) + length (enc b)" by simp
  have "add32 acc (l + TYPESIZE + length_size l) = acc + (l + 1 + length_size l)"
    using Item.prems(3) unfolding n by (intro add32_id) simp
  moreover have "tree_length_loop (ti_brother it) (acc + (l + 1 + length_size l)) h =
      Some (acc + (l + 1 + length_size l) + length (enc b))"
    using Item.IH(2) [OF it(4), of "acc + (l + 1 + length_size l)"] Item.prems(2,3) unfolding n by simp
  ultimately show ?case
    unfolding n by (subst tree_length_loop.simps) (simp only: it(1-3) option.case bind.bind_lunit)
qed

text \<open>On any bytes the decoder builds some tree, the same in every heap.\<close>

lemma header_some:
  assumes "0 < n" "n \<le> length b"
  obtains ty len off where "tlv_header b n = Some (ty, len, off)" "0 < off" "off \<le> n"
proof -
  have g: "mem_get b (int i) = Some (b ! i)" if "i < n" for i using that assms by (simp add: mem_get_def)
  have "tlv_header b n \<noteq> None"
    using g [of 0] g [of 1] g [of 2] assms(1) by (auto simp: tlv_header_def Let_def)
  then obtain x where "tlv_header b n = Some x" by blast
  then show thesis using that tlv_header_bound [of b n] assms(1) by (cases x) auto
qed

lemma decode_any:
  "n \<le> length b \<Longrightarrow> \<exists>t. \<forall>h. (\<forall>k. th_ok h k) \<longrightarrow> builds (tlv_decode clip b n h) h t"
proof (induction n arbitrary: b rule: less_induct)
  case (less n)
  show ?case
  proof (cases "n = 0")
    case True
    then show ?thesis by (intro exI [of _ Null]) (simp add: tlv_decode.simps builds_def extends_def)
  next
    case False
    then obtain ty len off where hdr: "tlv_header b n = Some (ty, len, off)" "0 < off" "off \<le> n"
      using header_some [of n b] less.prems by auto
    show ?thesis
    proof (cases "len > n - off \<and> \<not> clip")
      case True
      then have "tlv_decode clip b n h = Some (None, h)" for h
        using False hdr by (subst tlv_decode.simps) simp
      then show ?thesis by (intro exI [of _ Null]) (simp add: builds_def extends_def)
    next
      case short: False
      define l where "l = (if len > n - off then n - off else len)"
      define child where "child = (ty AND CCMP_MASK \<noteq> 0)"
      define data where "data = (if child then None else Some (drop off b))"
      have l: "l \<le> n - off" by (simp add: l_def)
      have "\<exists>t. \<forall>h. (\<forall>k. th_ok h k) \<longrightarrow> builds (if child then tlv_decode clip (drop off b) l h else Some (None, h)) h t"
      proof (cases child)
        case True
        then show ?thesis using less.IH [of l "drop off b"] l hdr(2,3) less.prems by simp
      next
        case False
        then show ?thesis by (intro exI [of _ Null]) (simp add: builds_def extends_def)
      qed
      then obtain tc where tc: "\<And>h. (\<And>k. th_ok h k) \<Longrightarrow>
        builds (if child then tlv_decode clip (drop off b) l h else Some (None, h)) h tc" by blast
      obtain tb where tb: "\<And>h. (\<And>k. th_ok h k) \<Longrightarrow>
        builds (tlv_decode clip (drop (off + l) b) (n - l - off) h) h tb"
        using less.IH [of "n - l - off" "drop (off + l) b"] l hdr(2,3) less.prems by force
      define v where "v = (if l = 0 then None else map_option (take l) data)"
      have "builds (tlv_decode clip b n h) h (Item (ty AND NOT CCMP_MASK) (l mod 65536) v tc tb)"
        if ok: "\<And>k. th_ok h k" for h
      proof -
        have d: "data = None \<or> l = 0 \<or> l \<le> length (the data)" using l less.prems by (auto simp: data_def)
        obtain h1 it where 1: "app_interconnection_creat_new_tlv_item (ty AND NOT CCMP_MASK) l data h = Some (Some (th_next h), h1)"
          "th_item h1 (th_next h) = Some it" "ti_type it = ty AND NOT CCMP_MASK" "ti_length it = l mod 65536"
          "ti_value it = (if l = 0 then None else map_option (take l) data)" "th_next h < th_next h1"
          "th_ok h1 = th_ok h" "\<And>x. x < th_next h \<Longrightarrow> th_item h1 x = th_item h x"
          using creat_ok [OF ok d, of "ty AND NOT CCMP_MASK"] by blast
        obtain cp h2 where 2: "(if child then tlv_decode clip (drop off b) l h1 else Some (None, h1)) = Some (cp, h2)"
          "rep (th_next h1) (th_next h2) h2 cp tc" "extends h1 h2"
          using tc [of h1] ok 1(7) by (auto simp: builds_def)
        have a: "th_next h < th_next h2" "th_item h2 (th_next h) = Some it" "\<And>n. th_ok h2 n"
          using 1(2,6,7) 2(3) ok by (simp_all add: extends_def)
        have cp: "rep (Suc (th_next h)) (th_next h2) h2 cp tc"
          by (rule rep_mono [OF 2(2)]) (use 1(6) in simp_all)
        obtain h' where 3: "do {
            h2 \<leftarrow> upd_item (th_next h) (ti_child_update (\<lambda>_. cp)) h2;
            (brother, h2) \<leftarrow> tlv_decode clip (drop (off + l) b) (n - l - off) h2;
            h2 \<leftarrow> upd_item (th_next h) (ti_brother_update (\<lambda>_. brother)) h2;
            h2 \<leftarrow> set_parent cp (Some (th_next h)) h2;
            it \<leftarrow> th_item h2 (th_next h);
            h2 \<leftarrow> set_parent brother (ti_parent it) h2;
            Some (Some (th_next h), h2) } = Some (Some (th_next h), h')"
          "rep (th_next h) (th_next h') h' (Some (th_next h)) (Item (ti_type it) (ti_length it) (ti_value it) tc tb)"
          "th_next h2 \<le> th_next h'" "th_ok h' = th_ok h2" "\<forall>x<th_next h. th_item h' x = th_item h2 x"
          using link_ok [OF a(1,2) cp a(3) tb] by blast
        have f: "(n = 0) = False" "(len > n - off \<and> \<not> clip) = False" using False short by simp_all
        have "tlv_decode clip b n h = Some (Some (th_next h), h')"
          by (subst tlv_decode.simps)
            (simp only: f hdr(1) bind.bind_lunit prod.case if_False Let_def l_def [symmetric] child_def [symmetric]
              data_def [symmetric] 1(1) 2(1) 3(1))
        moreover have "extends h h'" using 1(6-8) 2(3) 3(3-5) by (simp add: extends_def)
        ultimately show ?thesis using 3(2) 1(3-5) by (auto simp: builds_def v_def)
      qed
      then show ?thesis by blast
    qed
  qed
qed

section \<open>Properties\<close>

text \<open>
  C32. Encoding a tree and decoding the bytes gives the tree back: the buffer allocated has exactly
  the size of the encoding, is filled completely, decoding it builds a fresh copy of the tree
  and leaves the original as it was.
\<close>

theorem tlv_roundtrip:
  assumes "rep lo hi h p t" "hi \<le> th_next h" "tlv_wf t" "t \<noteq> Null" "\<And>n. th_ok h n" "length (enc t) < 4294967296"
  shows "\<exists>buf h1 q h2. app_interconnection_tlv_malloc_for_item p h = Some (Some buf, Some (length buf), h1) \<and>
    buf = enc t \<and> app_interconnection_tlv_item_tree_malloc (Some buf) (length buf) h1 = Some (q, h2) \<and>
    rep (th_next h) (th_next h2) h2 q t \<and> rep lo hi h2 p t"
proof -
  define h1 where "h1 = h\<lparr>th_next := Suc (th_next h)\<rparr>"
  have same: "strip h1 x = strip h x" for x by (simp add: h1_def strip_def)
  have r1: "rep lo hi h1 p t" using rep_cong [of lo hi h1 h p t] assms(1) same by simp
  have ne: "length (enc t) \<noteq> 0" using assms(4) enc_Nil_iff by simp
  have full: "blit (replicate (length (enc t)) 0) 0 (enc t) = enc t" by (simp add: blit_def)
  have "app_interconnection_tlv_malloc_for_item p h = Some (Some (enc t), Some (length (enc t)), h1)"
    using tree_length [OF assms(1,3), of 0] assms(6) ne assms(5)
      fill_enc [OF r1 assms(3), of 0 "replicate (length (enc t)) 0"] full
    by (simp add: app_interconnection_tlv_malloc_for_item_def app_interconnection_tlv_get_item_tree_length_def
        tlv_malloc_def h1_def)
  moreover have "builds (tlv_decode False (enc t) (length (enc t)) h1) h1 t"
    using decode_enc [OF assms(3), of h1 False "[]"] assms(5) by (simp add: h1_def)
  then obtain q h2 where 2: "tlv_decode False (enc t) (length (enc t)) h1 = Some (q, h2)"
    "rep (th_next h1) (th_next h2) h2 q t" "extends h1 h2" by (auto simp: builds_def)
  have "rep lo hi h2 p t"
    using rep_cong [of lo hi h2 h1 p t] r1 2(3) assms(2) by (auto simp: extends_def strip_def h1_def)
  moreover have "rep (th_next h) (th_next h2) h2 q t" by (rule rep_mono [OF 2(2)]) (simp_all add: h1_def)
  ultimately show ?thesis using 2(1) by (auto simp: app_interconnection_tlv_item_tree_malloc_def)
qed

definition ex_heap :: tlv_heap where
  "ex_heap = \<lparr>th_item = [
      0 \<mapsto> \<lparr>ti_type = 2, ti_length = 3, ti_value = None, ti_brother = None, ti_child = Some 1, ti_parent = None\<rparr>,
      1 \<mapsto> \<lparr>ti_type = 1, ti_length = 1, ti_value = Some [7], ti_brother = None, ti_child = None, ti_parent = Some 0\<rparr>],
    th_next = 3, th_ok = (\<lambda>_. True)\<rparr>"

lemma tlv_roundtrip_witness:
  "\<exists>buf h1 q h2. app_interconnection_tlv_malloc_for_item (Some 0) ex_heap = Some (Some buf, Some (length buf), h1) \<and>
    buf = enc (Item 2 3 None (Item 1 1 (Some [7]) Null Null) Null) \<and>
    app_interconnection_tlv_item_tree_malloc (Some buf) (length buf) h1 = Some (q, h2) \<and>
    rep (th_next ex_heap) (th_next h2) h2 q (Item 2 3 None (Item 1 1 (Some [7]) Null Null) Null) \<and>
    rep 0 2 h2 (Some 0) (Item 2 3 None (Item 1 1 (Some [7]) Null Null) Null)"
  by (rule tlv_roundtrip) (simp_all add: ex_heap_def length_size_cases CCMP_MASK_def rep_Item strip_def)

text \<open>
  C34. Decoding any bytes at all returns: no read outside the buffer, no null pointer is followed
  and the recursion ends, whatever the lengths in the bytes say, as long as memory lasts. When
  the first allocation fails, the code follows the null pointer it got.
\<close>

theorem tlv_decode_safe:
  assumes "n \<le> length b"
  shows "((\<forall>k. th_ok h k) \<longrightarrow> (\<exists>p h' t. tlv_decode clip b n h = Some (p, h') \<and>
      rep (th_next h) (th_next h') h' p t \<and> (\<forall>x<th_next h. th_item h' x = th_item h x))) \<and>
    (n = 1 \<and> \<not> th_ok h (th_next h) \<longrightarrow> tlv_decode clip b n h = None)"
proof -
  have "tlv_header b 1 = Some (hd b, 0, 1)" if "n = 1"
    using that assms by (cases b) (simp_all add: tlv_header_def mem_get_def)
  then have "tlv_decode clip b 1 h = None" if "n = 1" "\<not> th_ok h (th_next h)"
    using that by (subst tlv_decode.simps) (simp add: app_interconnection_creat_new_tlv_item_def tlv_malloc_def)
  then show ?thesis using decode_any [OF assms, of clip] by (fastforce simp: builds_def extends_def)
qed

lemma tlv_decode_safe_witness:
  "(\<exists>p h' t. tlv_decode False [130, 255, 0, 1] 4 ex_heap = Some (p, h') \<and>
      rep (th_next ex_heap) (th_next h') h' p t \<and> th_item h' 1 = th_item ex_heap 1) \<and>
    tlv_decode False [1] 1 (ex_heap\<lparr>th_ok := \<lambda>_. False\<rparr>) = None"
  using tlv_decode_safe [of 4 "[130, 255, 0, 1]" ex_heap False]
    tlv_decode_safe [of 1 "[1]" "ex_heap\<lparr>th_ok := \<lambda>_. False\<rparr>" False]
  by (fastforce simp: ex_heap_def)

text \<open>
  Adding below the top level counts too much: when an empty item that already sits in a
  parent gets its first child, the parent's length grows by one byte more than the encoding of
  its content, so that the tree no longer encodes to what its lengths say.
\<close>

theorem tlv_add_child_overcounts:
  assumes "r \<noteq> m" "r \<noteq> x" "m \<noteq> x"
    and "th_item h r = Some \<lparr>ti_type = tr, ti_length = 2, ti_value = None, ti_brother = None, ti_child = Some m, ti_parent = None\<rparr>"
    and "th_item h m = Some \<lparr>ti_type = tm, ti_length = 0, ti_value = None, ti_brother = None, ti_child = None, ti_parent = Some r\<rparr>"
    and "th_item h x = Some \<lparr>ti_type = tx, ti_length = length v, ti_value = Some v, ti_brother = None, ti_child = None, ti_parent = None\<rparr>"
    and "v \<noteq> []" "length v < 100" "m < N" "x < N"
  shows "\<exists>h' itr. tlv_item_add_child (Some m) (Some x) h = Some h' \<and> th_item h' r = Some itr \<and>
    rep 0 N h' (ti_child itr) (Item tm (length v + 2) None (Item tx (length v) (Some v) Null Null) Null) \<and>
    ti_length itr = Suc (length (enc (Item tm (length v + 2) None (Item tx (length v) (Some v) Null Null) Null)))"
proof -
  have s: "length_size (length v) = 1" "length_size (Suc (Suc (length v))) = 1"
    using assms(8) by (simp_all add: length_size_cases)
  show ?thesis
    using assms(1-3,7-10) by (auto simp: tlv_item_add_child_def upd_item_def assms(4-6) update_parent_length_def
        parent_loop.simps s rep_Item strip_def put_item_def)
qed

definition ex_chain :: tlv_heap where
  "ex_chain = \<lparr>th_item = [
      0 \<mapsto> \<lparr>ti_type = 3, ti_length = 2, ti_value = None, ti_brother = None, ti_child = Some 1, ti_parent = None\<rparr>,
      1 \<mapsto> \<lparr>ti_type = 2, ti_length = 0, ti_value = None, ti_brother = None, ti_child = None, ti_parent = Some 0\<rparr>,
      2 \<mapsto> \<lparr>ti_type = 1, ti_length = length [7::byte], ti_value = Some [7], ti_brother = None, ti_child = None,
            ti_parent = None\<rparr>],
    th_next = 4, th_ok = (\<lambda>_. True)\<rparr>"

lemma tlv_add_child_overcounts_witness:
  "\<exists>h' itr. tlv_item_add_child (Some 1) (Some 2) ex_chain = Some h' \<and> th_item h' 0 = Some itr \<and>
    rep 0 4 h' (ti_child itr) (Item 2 (length [7::byte] + 2) None (Item 1 (length [7::byte]) (Some [7]) Null Null) Null) \<and>
    ti_length itr = Suc (length (enc (Item 2 (length [7::byte] + 2) None (Item 1 (length [7::byte]) (Some [7]) Null Null) Null)))"
  by (rule tlv_add_child_overcounts) (simp_all add: ex_chain_def)

end
