(* ===== verification/Crc.thy ===== *)
theory Crc
  imports Prelude
begin

text \<open>
  \<open>utils/crc32/crc32.c\<close> and \<open>utils/crc16/crc16.c\<close>: the two checksums that protect stored records
  and images, with their literal tables. A read outside the buffer is \<open>None\<close>. The reference is the
  division of the message by the polynomial, one bit at a time.
\<close>

unbundle bit_operations_syntax

section \<open>The code\<close>

definition crc_table :: "u32 list" where
  "crc_table = [
    0x00000000, 0x77073096, 0xEE0E612C, 0x990951BA,
    0x076DC419, 0x706AF48F, 0xE963A535, 0x9E6495A3,
    0x0EDB8832, 0x79DCB8A4, 0xE0D5E91E, 0x97D2D988,
    0x09B64C2B, 0x7EB17CBD, 0xE7B82D07, 0x90BF1D91,
    0x1DB71064, 0x6AB020F2, 0xF3B97148, 0x84BE41DE,
    0x1ADAD47D, 0x6DDDE4EB, 0xF4D4B551, 0x83D385C7,
    0x136C9856, 0x646BA8C0, 0xFD62F97A, 0x8A65C9EC,
    0x14015C4F, 0x63066CD9, 0xFA0F3D63, 0x8D080DF5,
    0x3B6E20C8, 0x4C69105E, 0xD56041E4, 0xA2677172,
    0x3C03E4D1, 0x4B04D447, 0xD20D85FD, 0xA50AB56B,
    0x35B5A8FA, 0x42B2986C, 0xDBBBC9D6, 0xACBCF940,
    0x32D86CE3, 0x45DF5C75, 0xDCD60DCF, 0xABD13D59,
    0x26D930AC, 0x51DE003A, 0xC8D75180, 0xBFD06116,
    0x21B4F4B5, 0x56B3C423, 0xCFBA9599, 0xB8BDA50F,
    0x2802B89E, 0x5F058808, 0xC60CD9B2, 0xB10BE924,
    0x2F6F7C87, 0x58684C11, 0xC1611DAB, 0xB6662D3D,
    0x76DC4190, 0x01DB7106, 0x98D220BC, 0xEFD5102A,
    0x71B18589, 0x06B6B51F, 0x9FBFE4A5, 0xE8B8D433,
    0x7807C9A2, 0x0F00F934, 0x9609A88E, 0xE10E9818,
    0x7F6A0DBB, 0x086D3D2D, 0x91646C97, 0xE6635C01,
    0x6B6B51F4, 0x1C6C6162, 0x856530D8, 0xF262004E,
    0x6C0695ED, 0x1B01A57B, 0x8208F4C1, 0xF50FC457,
    0x65B0D9C6, 0x12B7E950, 0x8BBEB8EA, 0xFCB9887C,
    0x62DD1DDF, 0x15DA2D49, 0x8CD37CF3, 0xFBD44C65,
    0x4DB26158, 0x3AB551CE, 0xA3BC0074, 0xD4BB30E2,
    0x4ADFA541, 0x3DD895D7, 0xA4D1C46D, 0xD3D6F4FB,
    0x4369E96A, 0x346ED9FC, 0xAD678846, 0xDA60B8D0,
    0x44042D73, 0x33031DE5, 0xAA0A4C5F, 0xDD0D7CC9,
    0x5005713C, 0x270241AA, 0xBE0B1010, 0xC90C2086,
    0x5768B525, 0x206F85B3, 0xB966D409, 0xCE61E49F,
    0x5EDEF90E, 0x29D9C998, 0xB0D09822, 0xC7D7A8B4,
    0x59B33D17, 0x2EB40D81, 0xB7BD5C3B, 0xC0BA6CAD,
    0xEDB88320, 0x9ABFB3B6, 0x03B6E20C, 0x74B1D29A,
    0xEAD54739, 0x9DD277AF, 0x04DB2615, 0x73DC1683,
    0xE3630B12, 0x94643B84, 0x0D6D6A3E, 0x7A6A5AA8,
    0xE40ECF0B, 0x9309FF9D, 0x0A00AE27, 0x7D079EB1,
    0xF00F9344, 0x8708A3D2, 0x1E01F268, 0x6906C2FE,
    0xF762575D, 0x806567CB, 0x196C3671, 0x6E6B06E7,
    0xFED41B76, 0x89D32BE0, 0x10DA7A5A, 0x67DD4ACC,
    0xF9B9DF6F, 0x8EBEEFF9, 0x17B7BE43, 0x60B08ED5,
    0xD6D6A3E8, 0xA1D1937E, 0x38D8C2C4, 0x4FDFF252,
    0xD1BB67F1, 0xA6BC5767, 0x3FB506DD, 0x48B2364B,
    0xD80D2BDA, 0xAF0A1B4C, 0x36034AF6, 0x41047A60,
    0xDF60EFC3, 0xA867DF55, 0x316E8EEF, 0x4669BE79,
    0xCB61B38C, 0xBC66831A, 0x256FD2A0, 0x5268E236,
    0xCC0C7795, 0xBB0B4703, 0x220216B9, 0x5505262F,
    0xC5BA3BBE, 0xB2BD0B28, 0x2BB45A92, 0x5CB36A04,
    0xC2D7FFA7, 0xB5D0CF31, 0x2CD99E8B, 0x5BDEAE1D,
    0x9B64C2B0, 0xEC63F226, 0x756AA39C, 0x026D930A,
    0x9C0906A9, 0xEB0E363F, 0x72076785, 0x05005713,
    0x95BF4A82, 0xE2B87A14, 0x7BB12BAE, 0x0CB61B38,
    0x92D28E9B, 0xE5D5BE0D, 0x7CDCEFB7, 0x0BDBDF21,
    0x86D3D2D4, 0xF1D4E242, 0x68DDB3F8, 0x1FDA836E,
    0x81BE16CD, 0xF6B9265B, 0x6FB077E1, 0x18B74777,
    0x88085AE6, 0xFF0F6A70, 0x66063BCA, 0x11010B5C,
    0x8F659EFF, 0xF862AE69, 0x616BFFD3, 0x166CCF45,
    0xA00AE278, 0xD70DD2EE, 0x4E048354, 0x3903B3C2,
    0xA7672661, 0xD06016F7, 0x4969474D, 0x3E6E77DB,
    0xAED16A4A, 0xD9D65ADC, 0x40DF0B66, 0x37D83BF0,
    0xA9BCAE53, 0xDEBB9EC5, 0x47B2CF7F, 0x30B5FFE9,
    0xBDBDF21C, 0xCABAC28A, 0x53B39330, 0x24B4A3A6,
    0xBAD03605, 0xCDD70693, 0x54DE5729, 0x23D967BF,
    0xB3667A2E, 0xC4614AB8, 0x5D681B02, 0x2A6F2B94,
    0xB40BBE37, 0xC30C8EA1, 0x5A05DF1B, 0x2D02EF8D]"

text \<open>One step of the generator of the table, and the table it makes.\<close>

definition crc_bit :: "'w::len word \<Rightarrow> 'w word \<Rightarrow> 'w word" where
  "crc_bit p c = (if c AND 1 \<noteq> 0 then p XOR drop_bit 1 c else drop_bit 1 c)"

definition make_crc_table :: "u32 list" where
  "make_crc_table = map (\<lambda>n. (crc_bit 0xedb88320 ^^ 8) (of_nat n)) [0..<256]"

fun crc32_loop :: "u32 \<Rightarrow> byte list \<Rightarrow> nat \<Rightarrow> u32 option" where
  "crc32_loop c buf 0 = Some c"
| "crc32_loop c [] (Suc len) = None"
| "crc32_loop c (b # buf) (Suc len) =
     crc32_loop (crc_table ! unat ((c XOR ucast b) AND 0xff) XOR drop_bit 8 c) buf len"

definition crc32 :: "u32 \<Rightarrow> byte list \<Rightarrow> nat \<Rightarrow> u32 option" where
  "crc32 crc buf len = do {
     c \<leftarrow> crc32_loop (crc XOR 0xffffffff) buf len;
     Some (c XOR 0xffffffff) }"

definition crc16_table :: "16 word list" where
  "crc16_table = [
    0x0000, 0xC0C1, 0xC181, 0x0140, 0xC301, 0x03C0, 0x0280, 0xC241,
    0xC601, 0x06C0, 0x0780, 0xC741, 0x0500, 0xC5C1, 0xC481, 0x0440,
    0xCC01, 0x0CC0, 0x0D80, 0xCD41, 0x0F00, 0xCFC1, 0xCE81, 0x0E40,
    0x0A00, 0xCAC1, 0xCB81, 0x0B40, 0xC901, 0x09C0, 0x0880, 0xC841,
    0xD801, 0x18C0, 0x1980, 0xD941, 0x1B00, 0xDBC1, 0xDA81, 0x1A40,
    0x1E00, 0xDEC1, 0xDF81, 0x1F40, 0xDD01, 0x1DC0, 0x1C80, 0xDC41,
    0x1400, 0xD4C1, 0xD581, 0x1540, 0xD701, 0x17C0, 0x1680, 0xD641,
    0xD201, 0x12C0, 0x1380, 0xD341, 0x1100, 0xD1C1, 0xD081, 0x1040,
    0xF001, 0x30C0, 0x3180, 0xF141, 0x3300, 0xF3C1, 0xF281, 0x3240,
    0x3600, 0xF6C1, 0xF781, 0x3740, 0xF501, 0x35C0, 0x3480, 0xF441,
    0x3C00, 0xFCC1, 0xFD81, 0x3D40, 0xFF01, 0x3FC0, 0x3E80, 0xFE41,
    0xFA01, 0x3AC0, 0x3B80, 0xFB41, 0x3900, 0xF9C1, 0xF881, 0x3840,
    0x2800, 0xE8C1, 0xE981, 0x2940, 0xEB01, 0x2BC0, 0x2A80, 0xEA41,
    0xEE01, 0x2EC0, 0x2F80, 0xEF41, 0x2D00, 0xEDC1, 0xEC81, 0x2C40,
    0xE401, 0x24C0, 0x2580, 0xE541, 0x2700, 0xE7C1, 0xE681, 0x2640,
    0x2200, 0xE2C1, 0xE381, 0x2340, 0xE101, 0x21C0, 0x2080, 0xE041,
    0xA001, 0x60C0, 0x6180, 0xA141, 0x6300, 0xA3C1, 0xA281, 0x6240,
    0x6600, 0xA6C1, 0xA781, 0x6740, 0xA501, 0x65C0, 0x6480, 0xA441,
    0x6C00, 0xACC1, 0xAD81, 0x6D40, 0xAF01, 0x6FC0, 0x6E80, 0xAE41,
    0xAA01, 0x6AC0, 0x6B80, 0xAB41, 0x6900, 0xA9C1, 0xA881, 0x6840,
    0x7800, 0xB8C1, 0xB981, 0x7940, 0xBB01, 0x7BC0, 0x7A80, 0xBA41,
    0xBE01, 0x7EC0, 0x7F80, 0xBF41, 0x7D00, 0xBDC1, 0xBC81, 0x7C40,
    0xB401, 0x74C0, 0x7580, 0xB541, 0x7700, 0xB7C1, 0xB681, 0x7640,
    0x7200, 0xB2C1, 0xB381, 0x7340, 0xB101, 0x71C0, 0x7080, 0xB041,
    0x5000, 0x90C1, 0x9181, 0x5140, 0x9301, 0x53C0, 0x5280, 0x9241,
    0x9601, 0x56C0, 0x5780, 0x9741, 0x5500, 0x95C1, 0x9481, 0x5440,
    0x9C01, 0x5CC0, 0x5D80, 0x9D41, 0x5F00, 0x9FC1, 0x9E81, 0x5E40,
    0x5A00, 0x9AC1, 0x9B81, 0x5B40, 0x9901, 0x59C0, 0x5880, 0x9841,
    0x8801, 0x48C0, 0x4980, 0x8941, 0x4B00, 0x8BC1, 0x8A81, 0x4A40,
    0x4E00, 0x8EC1, 0x8F81, 0x4F40, 0x8D01, 0x4DC0, 0x4C80, 0x8C41,
    0x4400, 0x84C1, 0x8581, 0x4540, 0x8701, 0x47C0, 0x4680, 0x8641,
    0x8201, 0x42C0, 0x4380, 0x8341, 0x4100, 0x81C1, 0x8081, 0x4040]"

definition crc16_byte :: "16 word \<Rightarrow> byte \<Rightarrow> 16 word" where
  "crc16_byte crc data = drop_bit 8 crc XOR crc16_table ! unat ((crc XOR ucast data) AND 0xff)"

fun crc16 :: "16 word \<Rightarrow> byte list \<Rightarrow> nat \<Rightarrow> 16 word option" where
  "crc16 crc buf 0 = Some crc"
| "crc16 crc [] (Suc len) = None"
| "crc16 crc (b # buf) (Suc len) = crc16 (crc16_byte crc b) buf len"

section \<open>The reference\<close>

text \<open>Feed one byte, and a message, to the bitwise division by \<open>p\<close>.\<close>

definition crc_feed :: "'w::len word \<Rightarrow> 'w word \<Rightarrow> byte \<Rightarrow> 'w word" where
  "crc_feed p c b = (crc_bit p ^^ 8) (c XOR ucast b)"

abbreviation crc_ref :: "'w::len word \<Rightarrow> 'w word \<Rightarrow> byte list \<Rightarrow> 'w word" where
  "crc_ref p \<equiv> foldl (crc_feed p)"

subsection \<open>The tables hold the reference\<close>

fun entries_from :: "('w::len word \<Rightarrow> 'w word) \<Rightarrow> 'w word \<Rightarrow> 'w word list \<Rightarrow> bool" where
  "entries_from f n [] \<longleftrightarrow> True"
| "entries_from f n (x # xs) \<longleftrightarrow> f n = x \<and> entries_from f (n + 1) xs"

lemma entries_from_nth:
  "entries_from f n xs \<Longrightarrow> i < length xs \<Longrightarrow> xs ! i = f (n + of_nat i)"
  by (induction xs arbitrary: n i) (auto simp: nth_Cons less_Suc_eq_0_disj add.assoc split: nat.split)

lemma crc_bit_8:
  "(crc_bit p ^^ 8) n = crc_bit p (crc_bit p (crc_bit p (crc_bit p (crc_bit p (crc_bit p (crc_bit p (crc_bit p n)))))))"
  by (simp add: eval_nat_numeral)

lemma crc_table_entries: "entries_from (crc_bit 0xedb88320 ^^ 8) 0 crc_table"
  by (simp add: crc_table_def crc_bit_8 crc_bit_def)

lemma crc16_table_entries: "entries_from (crc_bit 0xa001 ^^ 8) 0 crc16_table"
  by (simp add: crc16_table_def crc_bit_8 crc_bit_def)

lemma length_crc_table [simp]: "length crc_table = 256" "length crc16_table = 256"
  by (simp_all add: crc_table_def crc16_table_def)

subsection \<open>Linearity\<close>

lemma crc_bit_alt: "crc_bit p c = (if bit c 0 then p else 0) XOR drop_bit 1 c"
  by (simp add: crc_bit_def and_one_eq odd_iff_mod_2_eq_one [symmetric] bit_0)

lemma crc_bit_xor: "crc_bit p (a XOR b) = crc_bit p a XOR crc_bit p b"
  by (rule bit_eqI) (auto simp: crc_bit_alt bit_simps)

lemma crc_bits_xor: "(crc_bit p ^^ k) (a XOR b) = (crc_bit p ^^ k) a XOR (crc_bit p ^^ k) b"
  by (induction k) (simp_all add: crc_bit_xor)

lemma crc_bits_high: "(\<And>i. i < k \<Longrightarrow> \<not> bit c i) \<Longrightarrow> (crc_bit p ^^ k) c = drop_bit k c"
proof (induction k arbitrary: c)
  case (Suc k)
  have "crc_bit p c = drop_bit 1 c" using Suc.prems [of 0] by (simp add: crc_bit_alt)
  moreover have "(crc_bit p ^^ k) (drop_bit 1 c) = drop_bit k (drop_bit 1 c)"
    by (rule Suc.IH) (use Suc.prems in \<open>simp add: bit_simps\<close>)
  ultimately show ?case by (simp add: funpow_Suc_right del: funpow.simps)
qed simp

text \<open>One table lookup does the eight steps of a byte.\<close>

lemma crc_feed_lookup:
  fixes c p :: "'w::len word"
  assumes len: "8 \<le> LENGTH('w)" and tab: "entries_from (crc_bit p ^^ 8) 0 tab" "length tab = 256"
  shows "tab ! unat ((c XOR ucast b) AND 0xff) XOR drop_bit 8 c = crc_feed p c b"
proof -
  define w where "w = c XOR ucast b"
  have ff: "(0xff :: 'w word) = mask 8" by (simp add: mask_eq_decr_exp)
  have "w = (w AND mask 8) XOR (w AND NOT (mask 8))"
    by (rule bit_eqI) (auto simp: bit_simps)
  then have "(crc_bit p ^^ 8) w = (crc_bit p ^^ 8) (w AND mask 8) XOR (crc_bit p ^^ 8) (w AND NOT (mask 8))"
    using crc_bits_xor by metis
  also have "(crc_bit p ^^ 8) (w AND NOT (mask 8)) = drop_bit 8 (w AND NOT (mask 8))"
    by (rule crc_bits_high) (simp add: bit_simps)
  also have "\<dots> = drop_bit 8 c"
    by (rule bit_eqI) (auto simp: w_def bit_simps dest: bit_imp_le_length)
  also have "(crc_bit p ^^ 8) (w AND mask 8) = tab ! unat (w AND mask 8)"
  proof -
    have "unat (w AND mask 8) < 256"
      using take_bit_nat_less_exp [of 8 "unat w"]
      by (simp add: take_bit_eq_mask [symmetric] unsigned_take_bit_eq)
    then show ?thesis using entries_from_nth [OF tab(1)] tab(2) by simp
  qed
  finally show ?thesis by (simp add: crc_feed_def w_def ff)
qed

lemmas crc32_feed = crc_feed_lookup [OF _ crc_table_entries, simplified]
lemmas crc16_feed = crc_feed_lookup [OF _ crc16_table_entries, simplified]

lemma crc32_loop_ref: "len \<le> length buf \<Longrightarrow> crc32_loop c buf len = Some (crc_ref 0xedb88320 c (take len buf))"
  by (induction c buf len rule: crc32_loop.induct) (simp_all add: crc32_feed)

lemma crc16_byte_feed: "crc16_byte c b = crc_feed 0xa001 c b"
  using crc16_feed [of c b] by (simp add: crc16_byte_def xor.commute)

lemma crc16_ref: "len \<le> length buf \<Longrightarrow> crc16 c buf len = Some (crc_ref 0xa001 c (take len buf))"
  by (induction c buf len rule: crc16.induct) (simp_all add: crc16_byte_feed)

lemma crc32_short: "length buf < len \<Longrightarrow> crc32_loop c buf len = None"
  by (induction c buf len rule: crc32_loop.induct) simp_all

lemma crc16_short: "length buf < len \<Longrightarrow> crc16 c buf len = None"
  by (induction c buf len rule: crc16.induct) simp_all

lemma crc32_eq: "crc32 crc buf len = (if len \<le> length buf
    then Some (crc_ref 0xedb88320 (crc XOR 0xffffffff) (take len buf) XOR 0xffffffff) else None)"
  by (simp add: crc32_def crc32_loop_ref crc32_short)

subsection \<open>No collision in one byte\<close>

lemma xor_cancel: "(a XOR b = a XOR c) = (b = (c :: 'w::len word))" "(b XOR a = c XOR a) = (b = c)"
  by (metis xor.assoc xor_self_eq xor.left_neutral, metis xor.assoc xor_self_eq xor.right_neutral)

text \<open>The divisor has its top bit set, so that a step of the division can be undone.\<close>

lemma crc_bit_inj:
  fixes p :: "'w::len word"
  assumes p: "bit p (LENGTH('w) - 1)" and eq: "crc_bit p a = crc_bit p b"
  shows "a = b"
proof -
  have "bit (crc_bit p x) (LENGTH('w) - 1) \<longleftrightarrow> bit x 0" for x
    using p by (simp add: crc_bit_alt bit_simps)
  then have 0: "bit a 0 = bit b 0" using eq by metis
  then have "drop_bit 1 a = drop_bit 1 b"
    using eq by (auto simp: crc_bit_alt xor_cancel split: if_splits)
  then have "bit a (Suc n) = bit b (Suc n)" for n
    by (metis bit_drop_bit_eq comp_apply plus_1_eq_Suc)
  with 0 show ?thesis by (intro bit_eqI) (metis not0_implies_Suc)
qed

lemma crc_bits_inj:
  fixes p :: "'w::len word"
  assumes "bit p (LENGTH('w) - 1)"
  shows "(crc_bit p ^^ k) a = (crc_bit p ^^ k) b \<longleftrightarrow> a = b"
  by (induction k) (auto dest: crc_bit_inj [OF assms])

lemma crc_feed_inj:
  fixes p :: "'w::len word"
  assumes "bit p (LENGTH('w) - 1)" "8 \<le> LENGTH('w)"
  shows "crc_feed p c a = crc_feed p c b \<longleftrightarrow> a = b" "crc_feed p c a = crc_feed p d a \<longleftrightarrow> c = d"
proof -
  have "a = b" if "(ucast a :: 'w word) = ucast b"
  proof (rule bit_word_eqI)
    fix n
    assume "n < LENGTH(8)"
    then show "bit a n = bit b n"
      using arg_cong [OF that, of "\<lambda>x. bit x n"] assms(2) by (simp add: bit_simps)
  qed
  then show "crc_feed p c a = crc_feed p c b \<longleftrightarrow> a = b"
    by (auto simp: crc_feed_def crc_bits_inj [OF assms(1)] xor_cancel)
  show "crc_feed p c a = crc_feed p d a \<longleftrightarrow> c = d"
    by (simp add: crc_feed_def crc_bits_inj [OF assms(1)] xor_cancel)
qed

lemma crc_ref_inj:
  fixes p :: "'w::len word"
  assumes "bit p (LENGTH('w) - 1)" "8 \<le> LENGTH('w)"
  shows "crc_ref p c xs = crc_ref p d xs \<longleftrightarrow> c = d"
  by (induction xs arbitrary: c d) (simp_all add: crc_feed_inj [OF assms])

lemma crc_ref_one_byte:
  fixes p :: "'w::len word"
  assumes "bit p (LENGTH('w) - 1)" "8 \<le> LENGTH('w)"
  shows "crc_ref p c (xs @ a # ys) = crc_ref p c (xs @ b # ys) \<longleftrightarrow> a = b"
  by (simp add: crc_ref_inj [OF assms] crc_feed_inj [OF assms])

lemma crc32_one_byte:
  assumes "length xs < len"
  shows "crc32 crc (xs @ a # ys) len = crc32 crc (xs @ b # ys) len \<longleftrightarrow> a = b \<or> Suc (length xs + length ys) < len"
proof -
  have t: "take len (xs @ z # ys) = xs @ z # take (len - Suc (length xs)) ys" for z
    using assms by (auto simp: take_Cons')
  have p: "bit (0xedb88320 :: u32) (LENGTH(32) - 1)" by simp
  show ?thesis unfolding crc32_eq t
    by (auto simp: crc_ref_one_byte [OF p] xor_cancel simp del: foldl_append foldl_Cons)
qed

section \<open>Properties\<close>

text \<open>
  C33. The table-driven checksums compute the bitwise division of the message for every start
  value, buffer and length; the literal table is the one the generator in the code makes; a
  length beyond the buffer is the only way to fail. Two messages of the same length that
  differ in one byte have different CRC-32 values.
\<close>

theorem crc_bitwise:
  "crc_table = make_crc_table \<and>
   crc32 crc buf len = (if len \<le> length buf
     then Some (crc_ref 0xedb88320 (crc XOR 0xffffffff) (take len buf) XOR 0xffffffff) else None) \<and>
   crc16 c buf len = (if len \<le> length buf then Some (crc_ref 0xa001 c (take len buf)) else None) \<and>
   (crc32 crc (xs @ a # ys) (length xs + 1 + length ys) = crc32 crc (xs @ b # ys) (length xs + 1 + length ys)) = (a = b)"
proof -
  have "crc_table = make_crc_table"
    unfolding make_crc_table_def
    by (rule nth_equalityI) (simp_all add: entries_from_nth [OF crc_table_entries])
  moreover have "(crc32 crc (xs @ a # ys) (length xs + 1 + length ys) =
      crc32 crc (xs @ b # ys) (length xs + 1 + length ys)) = (a = b)"
    by (subst crc32_one_byte) simp_all
  ultimately show ?thesis using crc32_eq [of crc buf len] crc16_ref [of len buf c] crc16_short [of buf len c] by auto
qed

end
