(* ===== verification/NvStore.thy ===== *)
theory NvStore
  imports Crc
begin

text \<open>
  \<open>services/nvrecord/nvrecord.c\<close>, the persistent user data sector: the pool in RAM that holds the
  configuration, the header that protects it, the flush to flash that runs in the background or
  to its end, and the restart from flash. The flash layer is the environment: it accepts an
  operation, or has no room for it (\<open>NF_BUFFER_FULL\<close>), or fails; what it accepted it does later,
  in order. Programming NOR flash can only clear bits.

  \<open>None\<close> is a failing \<open>ASSERT\<close>, or waiting for the flash without end.
\<close>

section \<open>The state\<close>

datatype norflash_ret = NF_OK | NF_BUFFER_FULL | NF_ERR

datatype NV_STATE = NV_STATE_IDLE | NV_STATE_ERASED

datatype bt_status = BT_STS_SUCCESS | BT_STS_FAILED | BT_STS_INVALID_PARM

datatype flash_op = Flash_erase | Flash_write "byte list"

record nv =
  is_update :: bool
  nv_state :: NV_STATE
  nv_config :: u32
  pool :: "byte list"
  flash :: "byte list"
  pending :: "flash_op list"
  g_nv_mempool :: u32
  nvrec_init :: bool
  nvrec_mempool_init :: bool
  sleep_hook :: bool

abbreviation POOL_SIZE :: nat where "POOL_SIZE \<equiv> 4096"

definition nv_magic :: u32 where "nv_magic = 0x4cb91"

definition pos_version_and_magic :: nat where "pos_version_and_magic = 0"
definition pos_crc :: nat where "pos_crc = 1"
definition pos_start_ram_addr :: nat where "pos_start_ram_addr = 2"
definition pos_reserv2 :: nat where "pos_reserv2 = 3"
definition pos_config_addr :: nat where "pos_config_addr = 4"
definition pos_heap_contents :: nat where "pos_heap_contents = 5"

lemmas pos_defs = pos_version_and_magic_def pos_crc_def pos_start_ram_addr_def pos_reserv2_def
  pos_config_addr_def pos_heap_contents_def

text \<open>\<open>mempool_pre_offset\<close>, in words; a handle is one word.\<close>

definition mempool_pre_offset :: nat where "mempool_pre_offset = 7"

section \<open>The flash\<close>

definition erased :: "byte list" where "erased = replicate POOL_SIZE 0xff"

definition flash_apply :: "byte list \<Rightarrow> flash_op \<Rightarrow> byte list" where
  "flash_apply f x = (case x of Flash_erase \<Rightarrow> erased | Flash_write b \<Rightarrow> map2 (AND) f b)"

text \<open>The first \<open>k\<close> accepted operations get done.\<close>

definition flash_done :: "nat \<Rightarrow> nv \<Rightarrow> nv" where
  "flash_done k s = s\<lparr>flash := foldl flash_apply (flash s) (take k (pending s)), pending := drop k (pending s)\<rparr>"

definition norflash_api_accept :: "flash_op \<Rightarrow> nv \<Rightarrow> nv" where
  "norflash_api_accept x s = s\<lparr>pending := pending s @ [x]\<rparr>"

section \<open>Flushing\<close>

definition nv_record_update_runtime_userdata :: "nv \<Rightarrow> nv" where
  "nv_record_update_runtime_userdata s = (if nv_config s = 0 then s else s\<lparr>is_update := True\<rparr>)"

definition nv_record_touch_cause_flush :: "nv \<Rightarrow> int \<times> nv" where
  "nv_record_touch_cause_flush s = (0, nv_record_update_runtime_userdata s)"

definition heap_crc :: "byte list \<Rightarrow> u32 option" where
  "heap_crc p = crc32 0 (drop (4 * pos_heap_contents) p) (POOL_SIZE - 4 * pos_heap_contents)"

text \<open>The header written in front of the pool, for a pool at address \<open>addr\<close>.\<close>

definition fill_header :: "u32 \<Rightarrow> nv \<Rightarrow> nv option" where
  "fill_header addr s = do {
     crc \<leftarrow> heap_crc (pool s);
     p \<leftarrow> put32 (pool s) pos_version_and_magic nv_magic;
     p \<leftarrow> put32 p pos_crc crc;
     p \<leftarrow> put32 p pos_start_ram_addr addr;
     p \<leftarrow> put32 p pos_reserv2 0;
     p \<leftarrow> put32 p pos_config_addr (nv_config s);
     Some (s\<lparr>pool := p\<rparr>) }"

definition erase_once :: "norflash_ret \<Rightarrow> nv \<Rightarrow> nv option" where
  "erase_once ret s = (case ret of
     NF_OK \<Rightarrow> Some (norflash_api_accept Flash_erase s\<lparr>nv_state := NV_STATE_ERASED\<rparr>)
   | NF_BUFFER_FULL \<Rightarrow> Some s
   | NF_ERR \<Rightarrow> None)"

definition write_once :: "u32 \<Rightarrow> norflash_ret \<Rightarrow> nv \<Rightarrow> nv option" where
  "write_once addr ret s = do {
     s \<leftarrow> fill_header addr s;
     case ret of
       NF_OK \<Rightarrow> Some (norflash_api_accept (Flash_write (pool s)) s\<lparr>is_update := False, nv_state := NV_STATE_IDLE\<rparr>)
     | NF_BUFFER_FULL \<Rightarrow> Some s
     | NF_ERR \<Rightarrow> None }"

text \<open>
  The loops around a full flash queue: each answer comes with the number of operations the flash
  completes while the code waits. When the answers run out the code is still waiting.
\<close>

fun flash_retry :: "(norflash_ret \<Rightarrow> nv \<Rightarrow> nv option) \<Rightarrow> (norflash_ret \<times> nat) list \<Rightarrow> nv \<Rightarrow> nv option" where
  "flash_retry once [] s = None"
| "flash_retry once ((ret, k) # rets) s = do {
     s \<leftarrow> once ret s;
     if ret = NF_BUFFER_FULL then flash_retry once rets (flash_done k s) else Some s }"

definition flush_async :: "u32 \<Rightarrow> norflash_ret \<Rightarrow> norflash_ret \<Rightarrow> nv \<Rightarrow> (norflash_ret \<times> nv) option" where
  "flush_async addr er wr s = do {
     (ret, s) \<leftarrow> (if nv_state s = NV_STATE_IDLE then do { s \<leftarrow> erase_once er s; Some (er, s) } else Some (NF_OK, s));
     if nv_state s = NV_STATE_ERASED then do { s \<leftarrow> write_once addr wr s; Some (wr, s) } else Some (ret, s) }"

definition flush_sync ::
  "u32 \<Rightarrow> (norflash_ret \<times> nat) list \<Rightarrow> (norflash_ret \<times> nat) list \<Rightarrow> nv \<Rightarrow> (norflash_ret \<times> nv) option" where
  "flush_sync addr ers wrs s = do {
     s \<leftarrow> (if nv_state s = NV_STATE_IDLE then flash_retry erase_once ers s else Some s);
     s \<leftarrow> (if nv_state s = NV_STATE_ERASED then do {
         s \<leftarrow> flash_retry (write_once addr) wrs s;
         Some (flash_done (length (pending s)) s) } else Some s);
     Some (NF_OK, s) }"

datatype answers = Async norflash_ret norflash_ret | Sync "(norflash_ret \<times> nat) list" "(norflash_ret \<times> nat) list"

definition nv_record_flash_flush_int :: "u32 \<Rightarrow> answers \<Rightarrow> nv \<Rightarrow> (int \<times> nv) option" where
  "nv_record_flash_flush_int addr a s =
     (if \<not> is_update s \<or> nv_config s = 0 then Some (0, s) else do {
        (ret, s) \<leftarrow> (case a of Async er wr \<Rightarrow> flush_async addr er wr s | Sync ers wrs \<Rightarrow> flush_sync addr ers wrs s);
        Some (if ret = NF_OK then 0 else 1, s) })"

definition nv_record_flash_flush ::
  "u32 \<Rightarrow> (norflash_ret \<times> nat) list \<Rightarrow> (norflash_ret \<times> nat) list \<Rightarrow> nv \<Rightarrow> nv option" where
  "nv_record_flash_flush addr ers wrs s = do {
     (_, s) \<leftarrow> nv_record_flash_flush_int addr (Sync ers wrs) s; Some s }"

definition nv_record_flash_flush_in_sleep ::
  "u32 \<Rightarrow> norflash_ret \<Rightarrow> norflash_ret \<Rightarrow> nv \<Rightarrow> (int \<times> nv) option" where
  "nv_record_flash_flush_in_sleep addr er wr s = do {
     (_, s) \<leftarrow> nv_record_flash_flush_int addr (Async er wr) s; Some (0, s) }"

text \<open>
  The callback of the flash layer: what was reported as written, with nothing left to do and no
  new changes, is checked against the checksum in the pool.
\<close>

definition nv_callback :: "norflash_ret \<Rightarrow> nat \<Rightarrow> bool \<Rightarrow> nv \<Rightarrow> nv option" where
  "nv_callback result remain_num writting s =
     (if result = NF_OK \<and> remain_num = 0 \<and> \<not> is_update s \<and> writting then do {
        crc \<leftarrow> get32 (pool s) pos_crc;
        recrc \<leftarrow> heap_crc (flash s);
        if crc = recrc then Some s else None }
      else Some s)"

section \<open>Restarting\<close>

definition nv_record_data_is_valid :: "nv \<Rightarrow> (bool \<times> nv) option" where
  "nv_record_data_is_valid s = do {
     let s = s\<lparr>pool := take POOL_SIZE (flash s)\<rparr>;
     verandmagic \<leftarrow> get32 (pool s) pos_version_and_magic;
     if nv_magic \<noteq> verandmagic then Some (False, s) else do {
       crc \<leftarrow> heap_crc (pool s);
       flsh_crc \<leftarrow> get32 (pool s) pos_crc;
       Some (flsh_crc = crc, s) } }"

text \<open>
  The heap inside the pool and the configuration in it come from \<open>heap_register\<close> and
  \<open>nvrec_config_new\<close>: \<open>reg\<close> and \<open>cfg_new\<close> give the changed pool and the handle.
\<close>

definition nv_record_mempool_init :: "(byte list \<Rightarrow> byte list \<times> u32) \<Rightarrow> nv \<Rightarrow> nv" where
  "nv_record_mempool_init reg s = (if nvrec_mempool_init s then s else
     let (p, m) = reg (pool s) in s\<lparr>pool := p, g_nv_mempool := m, nvrec_mempool_init := True\<rparr>)"

definition new_config :: "(u32 \<Rightarrow> byte list \<Rightarrow> byte list \<times> u32) \<Rightarrow> nv \<Rightarrow> nv" where
  "new_config cfg_new s = (let (p, c) = cfg_new (g_nv_mempool s) (pool s) in s\<lparr>pool := p, nv_config := c\<rparr>)"

datatype SECTIONS_ADP = section_usrdata_ddbrecord | section_none

definition open_userdata ::
  "u32 \<Rightarrow> (byte list \<Rightarrow> byte list \<times> u32) \<Rightarrow> (u32 \<Rightarrow> byte list \<Rightarrow> byte list \<times> u32) \<Rightarrow> nv \<Rightarrow> nv option" where
  "open_userdata addr reg cfg_new s = do {
     (valid, s) \<leftarrow> nv_record_data_is_valid s;
     a \<leftarrow> get32 (pool s) pos_start_ram_addr;
     c \<leftarrow> get32 (pool s) pos_config_addr;
     Some (if valid \<and> a = addr
       then s\<lparr>nv_config := c, g_nv_mempool := addr + of_nat (4 * mempool_pre_offset),
         is_update := False, nv_state := NV_STATE_IDLE\<rparr>
       else new_config cfg_new (nv_record_mempool_init reg (s\<lparr>pool := replicate POOL_SIZE 0\<rparr>))) }"

definition nv_record_open ::
  "u32 \<Rightarrow> (byte list \<Rightarrow> byte list \<times> u32) \<Rightarrow> (u32 \<Rightarrow> byte list \<Rightarrow> byte list \<times> u32) \<Rightarrow>
   SECTIONS_ADP \<Rightarrow> nv \<Rightarrow> (bt_status \<times> nv) option" where
  "nv_record_open addr reg cfg_new section_id s =
     (if nvrec_init s then Some (BT_STS_SUCCESS, s) else case section_id of
        section_none \<Rightarrow> Some (BT_STS_FAILED, s\<lparr>nvrec_init := True\<rparr>)
      | section_usrdata_ddbrecord \<Rightarrow> do {
          s \<leftarrow> open_userdata addr reg cfg_new s;
          Some (BT_STS_SUCCESS, s\<lparr>nvrec_init := True, sleep_hook := True\<rparr>) })"

definition nv_record_config_rebuild ::
  "(byte list \<Rightarrow> byte list \<times> u32) \<Rightarrow> (u32 \<Rightarrow> byte list \<Rightarrow> byte list \<times> u32) \<Rightarrow> nv \<Rightarrow> bt_status \<times> nv" where
  "nv_record_config_rebuild reg cfg_new s =
     (let s = new_config cfg_new (nv_record_mempool_init reg
        (s\<lparr>nvrec_mempool_init := False, pool := replicate POOL_SIZE 0\<rparr>))
      in if nv_config s = 0 then (BT_STS_FAILED, s)
         else (BT_STS_SUCCESS, s\<lparr>nvrec_init := True, is_update := True\<rparr>))"

text \<open>A synchronous erase first does everything that is pending.\<close>

definition nv_record_sector_clear :: "norflash_ret \<Rightarrow> nv \<Rightarrow> nv option" where
  "nv_record_sector_clear ret s = (let s = flash_done (length (pending s)) s in
     if ret = NF_OK then Some (s\<lparr>flash := erased, nvrec_init := False, nvrec_mempool_init := False\<rparr>) else None)"

section \<open>What the flash will hold\<close>

definition drained :: "nv \<Rightarrow> byte list" where
  "drained s = foldl flash_apply (flash s) (pending s)"

definition nv_inv :: "nv \<Rightarrow> bool" where
  "nv_inv s \<longleftrightarrow> length (pool s) = POOL_SIZE \<and> (nv_state s = NV_STATE_ERASED \<longrightarrow> drained s = erased)"

text \<open>A pool whose header is the one a flush writes.\<close>

definition header_ok :: "u32 \<Rightarrow> u32 \<Rightarrow> byte list \<Rightarrow> bool" where
  "header_ok addr c p \<longleftrightarrow> length p = POOL_SIZE \<and> get32 p pos_version_and_magic = Some nv_magic \<and>
     get32 p pos_crc = heap_crc p \<and> get32 p pos_start_ram_addr = Some addr \<and> get32 p pos_config_addr = Some c"

lemma erased_and [simp]: "length p = POOL_SIZE \<Longrightarrow> map2 (AND) erased p = p"
proof -
  have "(255 :: byte) = - 1" by simp
  then have "255 AND x = x" for x :: byte by (simp only: and.left_neutral)
  then show "length p = POOL_SIZE \<Longrightarrow> map2 (AND) erased p = p"
    by (intro nth_equalityI) (simp_all add: erased_def)
qed

lemma drained_done [simp]: "drained (flash_done k s) = drained s"
  by (simp add: drained_def flash_done_def flip: foldl_append)

lemma flash_done_simps [simp]:
  "is_update (flash_done k s) = is_update s" "nv_state (flash_done k s) = nv_state s"
  "nv_config (flash_done k s) = nv_config s" "pool (flash_done k s) = pool s"
  by (simp_all add: flash_done_def)

lemma drained_accept [simp]: "drained (norflash_api_accept x s) = flash_apply (drained s) x"
  by (simp add: drained_def norflash_api_accept_def)

lemma accept_simps [simp]:
  "is_update (norflash_api_accept x s) = is_update s" "nv_state (norflash_api_accept x s) = nv_state s"
  "nv_config (norflash_api_accept x s) = nv_config s" "pool (norflash_api_accept x s) = pool s"
  by (simp_all add: norflash_api_accept_def)

lemma drained_updates [simp]:
  "drained (s\<lparr>is_update := u\<rparr>) = drained s" "drained (s\<lparr>nv_state := m\<rparr>) = drained s"
  "drained (s\<lparr>pool := p\<rparr>) = drained s"
  by (simp_all add: drained_def)

lemma nv_inv_done [simp]: "nv_inv (flash_done k s) = nv_inv s"
  by (simp add: nv_inv_def)

lemma heap_crc_total: "length p = POOL_SIZE \<Longrightarrow> \<exists>c. heap_crc p = Some c"
  by (simp add: heap_crc_def crc32_eq pos_defs)

lemma heap_crc_cong: "drop 20 p = drop 20 q \<Longrightarrow> heap_crc p = heap_crc q"
  by (simp add: heap_crc_def pos_defs)

lemma fill_header_ok:
  assumes "length (pool s) = POOL_SIZE"
  obtains p where "fill_header addr s = Some (s\<lparr>pool := p\<rparr>)" "header_ok addr (nv_config s) p"
    "drop 20 p = drop 20 (pool s)"
proof -
  obtain c where c: "heap_crc (pool s) = Some c" using heap_crc_total assms by blast
  define b where "b i w p = blit p (4 * i) (u32_bytes w)" for i w and p :: "byte list"
  define p where "p = b 4 (nv_config s) (b 3 0 (b 2 addr (b 1 c (b 0 nv_magic (pool s)))))"
  have len: "length (b i w q) = length q" "drop 20 (b i w q) = drop 20 q"
    "get32 (b i w q) j = (if j = i then Some w else get32 q j)" "put32 q i w = Some (b i w q)"
    if "i < 5" "length q = POOL_SIZE" for i w q j
    using that by (simp_all add: b_def drop_blit put32_length get32_blit)
  have "fill_header addr s = Some (s\<lparr>pool := p\<rparr>)"
    using assms by (simp add: fill_header_def c pos_defs len p_def)
  moreover have d: "drop 20 p = drop 20 (pool s)" using assms by (simp add: p_def len)
  moreover have "header_ok addr (nv_config s) p"
    using assms c heap_crc_cong [OF d] by (simp add: header_ok_def pos_defs p_def len)
  ultimately show thesis using that by blast
qed

lemma erase_once_inv:
  "erase_once ret s = Some s' \<Longrightarrow> nv_inv s \<Longrightarrow>
   nv_inv s' \<and> pool s' = pool s \<and> nv_config s' = nv_config s \<and> is_update s' = is_update s \<and>
   (ret = NF_OK \<and> nv_state s' = NV_STATE_ERASED \<or> ret = NF_BUFFER_FULL \<and> nv_state s' = nv_state s)"
  by (auto simp: erase_once_def nv_inv_def flash_apply_def split: norflash_ret.splits)

text \<open>A write that is accepted leaves the flash with the pool, header and all.\<close>

definition wrote :: "u32 \<Rightarrow> nv \<Rightarrow> nv \<Rightarrow> bool" where
  "wrote addr s s' \<longleftrightarrow> header_ok addr (nv_config s) (pool s') \<and> drop 20 (pool s') = drop 20 (pool s) \<and>
     nv_config s' = nv_config s \<and> nv_inv s'"

lemma write_once_inv:
  assumes "write_once addr ret s = Some s'" "nv_inv s" "nv_state s = NV_STATE_ERASED"
  shows "wrote addr s s' \<and> (ret = NF_OK \<and> nv_state s' = NV_STATE_IDLE \<and> \<not> is_update s' \<and> drained s' = pool s' \<or>
     ret = NF_BUFFER_FULL \<and> nv_state s' = NV_STATE_ERASED \<and> is_update s' = is_update s)"
proof -
  have l: "length (pool s) = POOL_SIZE" "drained s = erased" using assms(2,3) by (simp_all add: nv_inv_def)
  obtain p where p: "fill_header addr s = Some (s\<lparr>pool := p\<rparr>)" "header_ok addr (nv_config s) p"
    "drop 20 p = drop 20 (pool s)" using fill_header_ok [OF l(1)] by blast
  have lp: "length p = POOL_SIZE" using p(2) by (simp add: header_ok_def)
  show ?thesis
    using assms(1,3) p l lp
    by (cases ret) (auto simp: write_once_def wrote_def nv_inv_def flash_apply_def)
qed

lemma erase_retry_inv:
  "flash_retry erase_once ers s = Some s' \<Longrightarrow> nv_inv s \<Longrightarrow>
   nv_inv s' \<and> pool s' = pool s \<and> nv_config s' = nv_config s \<and> is_update s' = is_update s \<and> nv_state s' = NV_STATE_ERASED"
proof (induction ers arbitrary: s)
  case (Cons x ers)
  obtain ret k where x: "x = (ret, k)" by (cases x)
  from Cons.prems(1) obtain s1 where 1: "erase_once ret s = Some s1"
    "(if ret = NF_BUFFER_FULL then flash_retry erase_once ers (flash_done k s1) else Some s1) = Some s'"
    by (auto simp: x Option.bind_eq_Some_conv)
  from erase_once_inv [OF 1(1) Cons.prems(2)] 1(2) Cons.IH [of "flash_done k s1"] show ?case
    by (auto split: if_splits)
qed simp

lemma wrote_trans: "wrote addr s s1 \<Longrightarrow> wrote addr s1 s2 \<Longrightarrow> wrote addr s s2"
  by (simp add: wrote_def)

lemma wrote_done [simp]: "wrote addr (flash_done k s) s' = wrote addr s s'" "wrote addr s (flash_done k s') = wrote addr s s'"
  by (simp_all add: wrote_def)

lemma wrote_inv: "wrote addr s s' \<Longrightarrow> nv_inv s'"
  by (simp add: wrote_def)

lemma write_retry_inv:
  "flash_retry (write_once addr) wrs s = Some s' \<Longrightarrow> nv_inv s \<Longrightarrow> nv_state s = NV_STATE_ERASED \<Longrightarrow>
   wrote addr s s' \<and> nv_state s' = NV_STATE_IDLE \<and> \<not> is_update s' \<and> drained s' = pool s'"
proof (induction wrs arbitrary: s)
  case (Cons x wrs)
  obtain ret k where x: "x = (ret, k)" by (cases x)
  from Cons.prems(1) obtain s1 where 1: "write_once addr ret s = Some s1"
    "(if ret = NF_BUFFER_FULL then flash_retry (write_once addr) wrs (flash_done k s1) else Some s1) = Some s'"
    by (auto simp: x Option.bind_eq_Some_conv)
  from write_once_inv [OF 1(1) Cons.prems(2,3)] 1(2) Cons.IH [of "flash_done k s1"] show ?case
    by (auto split: if_splits dest: wrote_inv intro: wrote_trans)
qed simp

text \<open>A flush keeps the invariant; when it clears the update flag the pool is on its way to the flash.\<close>

lemma flush_sync_inv:
  assumes "flush_sync addr ers wrs s = Some (ret, s')" "nv_inv s"
  shows "wrote addr s s' \<and> nv_state s' = NV_STATE_IDLE \<and> \<not> is_update s' \<and> drained s' = pool s' \<and> pending s' = [] \<and> ret = NF_OK"
proof -
  obtain s1 where 1: "(if nv_state s = NV_STATE_IDLE then flash_retry erase_once ers s else Some s) = Some s1"
    "(if nv_state s1 = NV_STATE_ERASED then do { s \<leftarrow> flash_retry (write_once addr) wrs s1;
         Some (flash_done (length (pending s)) s) } else Some s1) = Some s'" "ret = NF_OK"
    using assms(1) by (auto simp: flush_sync_def Option.bind_eq_Some_conv)
  have e: "nv_inv s1 \<and> pool s1 = pool s \<and> nv_config s1 = nv_config s \<and> nv_state s1 = NV_STATE_ERASED"
    using 1(1) assms(2) erase_retry_inv [of ers s s1] by (cases "nv_state s") auto
  then obtain s2 where 2: "flash_retry (write_once addr) wrs s1 = Some s2" "s' = flash_done (length (pending s2)) s2"
    using 1(2) by (auto simp: Option.bind_eq_Some_conv)
  have "wrote addr s1 s2 \<and> nv_state s2 = NV_STATE_IDLE \<and> \<not> is_update s2 \<and> drained s2 = pool s2"
    using write_retry_inv [OF 2(1)] e by blast
  then show ?thesis using 2(2) 1(3) e by (simp add: wrote_def) (simp add: flash_done_def)
qed

lemma flush_async_inv:
  assumes "flush_async addr er wr s = Some (ret, s')" "nv_inv s"
  shows "nv_inv s' \<and> nv_config s' = nv_config s \<and> drop 20 (pool s') = drop 20 (pool s) \<and>
    (is_update s' = is_update s \<or> header_ok addr (nv_config s) (pool s') \<and> drained s' = pool s')"
proof -
  obtain r s1 where 1: "(if nv_state s = NV_STATE_IDLE then do { s \<leftarrow> erase_once er s; Some (er, s) }
      else Some (NF_OK, s)) = Some (r, s1)"
    "(if nv_state s1 = NV_STATE_ERASED then do { s \<leftarrow> write_once addr wr s1; Some (wr, s) } else Some (r, s1)) = Some (ret, s')"
    using assms(1) by (auto simp: flush_async_def Option.bind_eq_Some_conv)
  have e: "nv_inv s1 \<and> pool s1 = pool s \<and> nv_config s1 = nv_config s \<and> is_update s1 = is_update s"
    using 1(1) assms(2) erase_once_inv [of er s s1] by (cases "nv_state s") (auto simp: Option.bind_eq_Some_conv)
  show ?thesis
  proof (cases "nv_state s1 = NV_STATE_ERASED")
    case True
    then have "write_once addr wr s1 = Some s'" using 1(2) by (auto simp: Option.bind_eq_Some_conv)
    from write_once_inv [OF this _ True] e show ?thesis by (auto simp: wrote_def)
  next
    case False
    then show ?thesis using 1(2) e by simp
  qed
qed

section \<open>Everything that can happen\<close>

text \<open>A power cycle keeps the flash, with the first \<open>k\<close> pending operations done; RAM holds anything.\<close>

definition power_cycle :: "nat \<Rightarrow> byte list \<Rightarrow> nv \<Rightarrow> nv" where
  "power_cycle k p s = \<lparr>is_update = False, nv_state = NV_STATE_IDLE, nv_config = 0, pool = p,
     flash = flash (flash_done k s), pending = [], g_nv_mempool = 0, nvrec_init = False,
     nvrec_mempool_init = False, sleep_hook = False\<rparr>"

definition keeps_size :: "(byte list \<Rightarrow> byte list \<times> u32) \<Rightarrow> bool" where
  "keeps_size f \<longleftrightarrow> (\<forall>p. length p = POOL_SIZE \<longrightarrow> length (fst (f p)) = POOL_SIZE)"

inductive nv_step ::
  "u32 \<Rightarrow> (byte list \<Rightarrow> byte list \<times> u32) \<Rightarrow> (u32 \<Rightarrow> byte list \<Rightarrow> byte list \<times> u32) \<Rightarrow> nv \<Rightarrow> nv \<Rightarrow> bool"
  for addr reg cfg_new where
  step_flush: "nv_record_flash_flush_int addr a s = Some (r, s') \<Longrightarrow> nv_step addr reg cfg_new s s'"
| step_clear: "nv_record_sector_clear ret s = Some s' \<Longrightarrow> nv_step addr reg cfg_new s s'"
| step_update: "nv_step addr reg cfg_new s (nv_record_update_runtime_userdata s)"
| step_client: "length p = POOL_SIZE \<Longrightarrow> nv_step addr reg cfg_new s (s\<lparr>pool := p\<rparr>)"
| step_flash: "nv_step addr reg cfg_new s (flash_done k s)"
| step_open: "nv_record_open addr reg cfg_new sec s = Some (r, s') \<Longrightarrow> nv_step addr reg cfg_new s s'"
| step_rebuild: "nv_record_config_rebuild reg cfg_new s = (r, s') \<Longrightarrow> nv_step addr reg cfg_new s s'"
| step_power: "length p = POOL_SIZE \<Longrightarrow> nv_step addr reg cfg_new s (power_cycle k p s)"

inductive_cases nv_step_cases: "nv_step addr reg cfg_new s s'"

inductive nv_reach ::
  "u32 \<Rightarrow> (byte list \<Rightarrow> byte list \<times> u32) \<Rightarrow> (u32 \<Rightarrow> byte list \<Rightarrow> byte list \<times> u32) \<Rightarrow> nv \<Rightarrow> bool"
  for addr reg cfg_new where
  reach_start: "length p = POOL_SIZE \<Longrightarrow> nv_reach addr reg cfg_new (power_cycle 0 p s)"
| reach_step: "nv_reach addr reg cfg_new s \<Longrightarrow> nv_step addr reg cfg_new s s' \<Longrightarrow> nv_reach addr reg cfg_new s'"

lemma keeps_sizeD: "keeps_size f \<Longrightarrow> f p = (q, m) \<Longrightarrow> length p = POOL_SIZE \<Longrightarrow> length q = POOL_SIZE"
  unfolding keeps_size_def by (metis fst_conv)

lemma mempool_init_inv:
  "keeps_size reg \<Longrightarrow> length (pool s) = POOL_SIZE \<Longrightarrow> length (pool (nv_record_mempool_init reg s)) = POOL_SIZE"
  "nv_state (nv_record_mempool_init reg s) = nv_state s" "drained (nv_record_mempool_init reg s) = drained s"
  by (auto simp: nv_record_mempool_init_def drained_def split: prod.splits dest: keeps_sizeD)

lemma new_config_inv:
  assumes "keeps_size reg" "\<And>m. keeps_size (cfg_new m)" "length (pool s) = POOL_SIZE"
  shows "length (pool (new_config cfg_new (nv_record_mempool_init reg s))) = POOL_SIZE"
    "nv_state (new_config cfg_new (nv_record_mempool_init reg s)) = nv_state s"
    "drained (new_config cfg_new (nv_record_mempool_init reg s)) = drained s"
  using mempool_init_inv [of reg s] assms keeps_sizeD [OF assms(2)]
  by (auto simp: new_config_def drained_def split: prod.splits)

lemma flush_int_inv:
  assumes "nv_record_flash_flush_int addr a s = Some (r, s')" "nv_inv s"
  shows "nv_inv s' \<and> nv_config s' = nv_config s \<and> drop 20 (pool s') = drop 20 (pool s) \<and>
    (is_update s' = is_update s \<or> header_ok addr (nv_config s) (pool s') \<and> drained s' = pool s')"
proof (cases "\<not> is_update s \<or> nv_config s = 0")
  case False
  then obtain ret where "(case a of Async er wr \<Rightarrow> flush_async addr er wr s | Sync ers wrs \<Rightarrow> flush_sync addr ers wrs s) = Some (ret, s')"
    using assms(1) by (auto simp: nv_record_flash_flush_int_def Option.bind_eq_Some_conv)
  then show ?thesis
    using flush_async_inv [of addr _ _ s ret s'] flush_sync_inv [of addr _ _ s ret s'] assms(2)
    by (cases a) (simp_all add: wrote_def)
qed (use assms in \<open>auto simp: nv_record_flash_flush_int_def\<close>)

lemma valid_flash:
  assumes "nv_record_data_is_valid s = Some (v, s')"
  shows "drained s' = drained s \<and> nv_state s' = nv_state s \<and> (v \<longrightarrow> length (pool s') = POOL_SIZE)"
proof -
  have "POOL_SIZE \<le> length (flash s)" if "heap_crc (take POOL_SIZE (flash s)) = Some c" for c
    using that by (simp add: heap_crc_def crc32_eq pos_defs split: if_splits)
  then show ?thesis using assms
    by (auto simp: nv_record_data_is_valid_def Let_def Option.bind_eq_Some_conv split: if_splits)
qed

lemma open_userdata_inv:
  assumes "open_userdata addr reg cfg_new s = Some s'" "nv_inv s" "keeps_size reg" "\<And>m. keeps_size (cfg_new m)"
  shows "nv_inv s'"
proof -
  obtain v s1 a c where 1: "nv_record_data_is_valid s = Some (v, s1)"
    "s' = (if v \<and> a = addr then s1\<lparr>nv_config := c, g_nv_mempool := addr + of_nat (4 * mempool_pre_offset),
         is_update := False, nv_state := NV_STATE_IDLE\<rparr>
       else new_config cfg_new (nv_record_mempool_init reg (s1\<lparr>pool := replicate POOL_SIZE 0\<rparr>)))"
    using assms(1) by (auto simp: open_userdata_def Option.bind_eq_Some_conv)
  note v = valid_flash [OF 1(1)]
  have "nv_inv (new_config cfg_new (nv_record_mempool_init reg (s1\<lparr>pool := replicate POOL_SIZE 0\<rparr>)))"
    using v assms(2) new_config_inv [OF assms(3,4), of "s1\<lparr>pool := replicate POOL_SIZE 0\<rparr>"] by (simp add: nv_inv_def)
  then show ?thesis using v unfolding 1(2) by (simp add: nv_inv_def)
qed

lemma nvrec_open_inv:
  assumes "nv_record_open addr reg cfg_new sec s = Some (r, s')" "nv_inv s" "keeps_size reg" "\<And>m. keeps_size (cfg_new m)"
  shows "nv_inv s'"
  using assms(1,2) open_userdata_inv [OF _ assms(2-4), of addr]
  by (cases sec) (auto simp: nv_record_open_def nv_inv_def drained_def Option.bind_eq_Some_conv split: if_splits)

lemma rebuild_inv:
  assumes "nv_record_config_rebuild reg cfg_new s = (r, s')" "nv_inv s" "keeps_size reg" "\<And>m. keeps_size (cfg_new m)"
  shows "nv_inv s'"
proof -
  define s1 where "s1 = new_config cfg_new (nv_record_mempool_init reg
    (s\<lparr>nvrec_mempool_init := False, pool := replicate POOL_SIZE 0\<rparr>))"
  have "nv_inv s1"
    using assms(2) new_config_inv [OF assms(3,4), of "s\<lparr>nvrec_mempool_init := False, pool := replicate POOL_SIZE 0\<rparr>"]
    by (simp add: nv_inv_def s1_def drained_def)
  then show ?thesis using assms(1)
    by (auto simp: nv_record_config_rebuild_def Let_def nv_inv_def drained_def simp flip: s1_def split: if_splits)
qed

lemma nv_step_inv:
  assumes "nv_step addr reg cfg_new s s'" "nv_inv s" "keeps_size reg" "\<And>m. keeps_size (cfg_new m)"
  shows "nv_inv s'"
  using assms(1)
proof (cases rule: nv_step.cases)
  case (step_flush a r)
  then show ?thesis using flush_int_inv assms(2) by blast
next
  case (step_clear ret)
  then show ?thesis using assms(2)
    by (auto simp: nv_record_sector_clear_def nv_inv_def drained_def flash_done_def Let_def split: if_splits)
next
  case (step_open sec r)
  then show ?thesis using nvrec_open_inv assms by blast
next
  case (step_rebuild r)
  then show ?thesis using rebuild_inv assms by blast
qed (use assms(2) in \<open>auto simp: nv_inv_def nv_record_update_runtime_userdata_def power_cycle_def\<close>)

lemma nv_reach_inv:
  "nv_reach addr reg cfg_new s \<Longrightarrow> keeps_size reg \<Longrightarrow> (\<And>m. keeps_size (cfg_new m)) \<Longrightarrow> nv_inv s"
proof (induction rule: nv_reach.induct)
  case (reach_step s s')
  then show ?case using nv_step_inv by blast
qed (simp add: power_cycle_def nv_inv_def)

section \<open>Properties\<close>

lemma erase_retry_some:
  "\<exists>s'. flash_retry erase_once (map (Pair NF_BUFFER_FULL) ks @ [(NF_OK, k)]) s = Some s'"
  by (induction ks arbitrary: s) (simp_all add: erase_once_def)

lemma write_retry_some:
  "length (pool s) = POOL_SIZE \<Longrightarrow>
   \<exists>s'. flash_retry (write_once addr) (map (Pair NF_BUFFER_FULL) ks @ [(NF_OK, k)]) s = Some s'"
proof (induction ks arbitrary: s)
  case (Cons k' ks)
  obtain p where p: "fill_header addr s = Some (s\<lparr>pool := p\<rparr>)" "header_ok addr (nv_config s) p"
    using fill_header_ok [OF Cons.prems] by blast
  with Cons.IH [of "flash_done k' (s\<lparr>pool := p\<rparr>)"] show ?case by (simp add: write_once_def header_ok_def)
next
  case Nil
  obtain p where "fill_header addr s = Some (s\<lparr>pool := p\<rparr>)" using fill_header_ok [OF Nil] by blast
  then show ?case by (simp add: write_once_def)
qed

lemma flush_some:
  assumes "nv_inv s" "is_update s" "nv_config s \<noteq> 0"
  shows "\<exists>s'. nv_record_flash_flush addr (map (Pair NF_BUFFER_FULL) es @ [(NF_OK, e)])
    (map (Pair NF_BUFFER_FULL) ws @ [(NF_OK, w)]) s = Some s' \<and>
    wrote addr s s' \<and> \<not> is_update s' \<and> flash s' = pool s' \<and> pending s' = []"
proof -
  let ?es = "map (Pair NF_BUFFER_FULL) es @ [(NF_OK, e)]" and ?ws = "map (Pair NF_BUFFER_FULL) ws @ [(NF_OK, w)]"
  have "\<exists>s1. (if nv_state s = NV_STATE_IDLE then flash_retry erase_once ?es s else Some s) = Some s1"
    using erase_retry_some [of es e s] by simp
  then obtain s1 where 1: "(if nv_state s = NV_STATE_IDLE then flash_retry erase_once ?es s else Some s) = Some s1" by blast
  have i: "nv_inv s1 \<and> nv_state s1 = NV_STATE_ERASED"
    using 1 assms(1) erase_retry_inv [of ?es s s1] by (cases "nv_state s") auto
  obtain s2 where 2: "flash_retry (write_once addr) ?ws s1 = Some s2"
    using write_retry_some i unfolding nv_inv_def by blast
  have 3: "flush_sync addr ?es ?ws s = Some (NF_OK, flash_done (length (pending s2)) s2)"
    unfolding flush_sync_def using 1 2 i by (simp only: bind.bind_lunit) simp
  then obtain s3 where 4: "flush_sync addr ?es ?ws s = Some (NF_OK, s3)" by blast
  note inv = flush_sync_inv [OF 4 assms(1)]
  then have "drained s3 = flash s3" by (simp add: drained_def)
  with inv 4 assms(2,3) show ?thesis
    by (simp add: nv_record_flash_flush_def nv_record_flash_flush_int_def)
qed

lemma open_valid:
  assumes "header_ok addr c (flash t)" "\<not> nvrec_init t"
  shows "\<exists>t'. nv_record_open addr reg cfg_new section_usrdata_ddbrecord t = Some (BT_STS_SUCCESS, t') \<and>
    pool t' = flash t \<and> nv_config t' = c \<and> \<not> is_update t'"
  using assms heap_crc_total [of "flash t"]
  by (auto simp: nv_record_open_def open_userdata_def nv_record_data_is_valid_def header_ok_def Let_def)

lemma corrupt_invalid:
  assumes "header_ok addr c p" "20 \<le> i" "i < POOL_SIZE" "b \<noteq> p ! i" "flash t = p[i := b]"
  shows "\<exists>t'. nv_record_data_is_valid t = Some (False, t')"
proof -
  have len: "length p = POOL_SIZE" using assms(1) by (simp add: header_ok_def)
  have g: "get32 (p[i := b]) k = get32 p k" if "k < 5" for k
    using that assms(2) by (simp add: get32_def drop_update_swap take_update_swap list_update_beyond)
  define xs where "xs = drop 20 (take i p)"
  define ys where "ys = drop (Suc i) p"
  have "drop 20 p = drop 20 (take i p @ p ! i # drop (Suc i) p)"
    using id_take_nth_drop [of i p] assms(3) len by simp
  then have d: "drop 20 p = xs @ (p ! i) # ys" "drop 20 (p[i := b]) = xs @ b # ys"
    using assms(2,3) len by (simp_all add: xs_def ys_def upd_conv_take_nth_drop)
  have l: "length xs + 1 + length ys = 4076" using assms(2,3) len by (simp add: xs_def ys_def)
  have "heap_crc p \<noteq> heap_crc (p[i := b])"
    using crc32_one_byte [of xs 4076 0 "p ! i" ys b] l assms(4) by (simp add: heap_crc_def pos_defs d)
  then show ?thesis
    using assms(1,5) len g heap_crc_total [of "p[i := b]"] heap_crc_total [of p]
    by (auto simp: nv_record_data_is_valid_def header_ok_def Let_def pos_defs)
qed

text \<open>The fields of the header before the contents: of them the check reads the first two words only.\<close>

lemma u32_bytes_bytes: "length bs = 4 \<Longrightarrow> u32_bytes (bytes_u32 bs) = bs"
proof -
  assume "length bs = 4"
  then obtain b0 b1 b2 b3 where bs: "bs = [b0, b1, b2, b3]" by (auto simp: length_Suc_conv numeral_eq_Suc)
  have "ucast (drop_bit (8 * k) (bytes_u32 bs)) = bs ! k" if "k < 4" for k
  proof (rule bit_eqI)
    fix n assume "possible_bit TYPE(byte) n"
    then have n: "n < 8" by simp
    have "k = 0 \<or> k = 1 \<or> k = 2 \<or> k = 3" using that by linarith
    then show "bit (ucast (drop_bit (8 * k) (bytes_u32 bs)) :: byte) n = bit (bs ! k) n"
      using n by (elim disjE) (auto simp: bs bytes_u32_def bit_simps dest: bit_imp_le_length)
  qed
  from this [of 0] this [of 1] this [of 2] this [of 3] show ?thesis by (simp add: u32_bytes_def bs)
qed

lemma get32_update:
  assumes "i < length p" "b \<noteq> p ! i" "4 * k + 4 \<le> length p"
  shows "get32 (p[i := b]) k = get32 p k \<longleftrightarrow> \<not> (4 * k \<le> i \<and> i < 4 * k + 4)"
proof
  let ?w = "\<lambda>q. take 4 (drop (4 * k) q)"
  assume "get32 (p[i := b]) k = get32 p k"
  then have "bytes_u32 (?w (p[i := b])) = bytes_u32 (?w p)" using assms(3) by (simp add: get32_def)
  then have "u32_bytes (bytes_u32 (?w (p[i := b]))) = u32_bytes (bytes_u32 (?w p))" by simp
  then have e: "?w (p[i := b]) = ?w p" using assms(3) by (simp add: u32_bytes_bytes)
  show "\<not> (4 * k \<le> i \<and> i < 4 * k + 4)"
  proof
    assume i: "4 * k \<le> i \<and> i < 4 * k + 4"
    define j where "j = i - 4 * k"
    have j: "i = 4 * k + j" "j < 4" using i unfolding j_def by linarith+
    have "?w (p[i := b]) ! j = b" "?w p ! j = p ! i" using j assms(1,3) by (simp_all add: nth_take)
    with e assms(2) show False by simp
  qed
next
  assume "\<not> (4 * k \<le> i \<and> i < 4 * k + 4)"
  then have "take 4 (drop (4 * k) (p[i := b])) = take 4 (drop (4 * k) p)"
    by (cases "i < 4 * k") (simp_all add: drop_update_swap take_update_swap list_update_beyond)
  then show "get32 (p[i := b]) k = get32 p k" by (simp add: get32_def)
qed

lemma changed_byte:
  assumes "header_ok addr c p" "i < POOL_SIZE" "b \<noteq> p ! i" "flash t = p[i := b]"
  shows "\<exists>t'. nv_record_data_is_valid t = Some (8 \<le> i \<and> i < 20, t')"
proof (cases "20 \<le> i")
  case True
  with corrupt_invalid [OF assms(1) True assms(2-4)] show ?thesis by simp
next
  case False
  have h: "length p = POOL_SIZE" "get32 p 0 = Some nv_magic" "get32 p 1 = heap_crc p" using assms(1) by (simp_all add: header_ok_def pos_defs)
  have w: "get32 (p[i := b]) 0 = get32 p 0 \<longleftrightarrow> \<not> i < 4" "get32 (p[i := b]) 1 = get32 p 1 \<longleftrightarrow> \<not> (4 \<le> i \<and> i < 8)"
    using get32_update [OF _ assms(3), of 0] get32_update [OF _ assms(3), of 1] assms(2) h(1) by simp_all
  have "drop 20 (p[i := b]) = drop 20 p" using False by simp
  then have c: "heap_crc (p[i := b]) = heap_crc p" by (simp add: heap_crc_def pos_defs)
  obtain m n where g: "get32 (p[i := b]) 0 = Some m" "get32 (p[i := b]) 1 = Some n" using h(1) by (simp add: get32_def)
  obtain x where x: "heap_crc p = Some x" using heap_crc_total h(1) by auto
  show ?thesis using w h g x c False assms(4)
    by (auto simp: nv_record_data_is_valid_def Let_def pos_defs)
qed

text \<open>
  C22. Whatever happens, in any order, on a device that started from a power cycle: the flash is only
  programmed after it was erased. Whenever a flush, in the background or to its end, clears
  the update flag, the flash holds exactly the pool with a valid header once the accepted
  operations are done; no flush changes the configuration behind the header.
\<close>

theorem nv_flush_writes_pool:
  assumes "nv_reach addr reg cfg_new s" "keeps_size reg" "\<And>m. keeps_size (cfg_new m)"
    and "nv_record_flash_flush_int addr a s = Some (r, s')"
  shows "(nv_state s' = NV_STATE_ERASED \<longrightarrow> drained s' = erased) \<and> nv_config s' = nv_config s \<and>
    drop 20 (pool s') = drop 20 (pool s) \<and>
    (is_update s \<and> \<not> is_update s' \<longrightarrow> header_ok addr (nv_config s) (pool s') \<and> drained s' = pool s')"
  using flush_int_inv [OF assms(4) nv_reach_inv [OF assms(1-3)]] by (auto simp: nv_inv_def)

definition ex_reg :: "byte list \<Rightarrow> byte list \<times> u32" where "ex_reg p = (p, 24)"
definition ex_cfg :: "u32 \<Rightarrow> byte list \<Rightarrow> byte list \<times> u32" where "ex_cfg m p = (p, m + 8)"

definition ex_nv :: nv where
  "ex_nv = power_cycle 0 (replicate POOL_SIZE 7) \<lparr>is_update = False, nv_state = NV_STATE_IDLE, nv_config = 0,
     pool = [], flash = erased, pending = [], g_nv_mempool = 0, nvrec_init = False,
     nvrec_mempool_init = False, sleep_hook = False\<rparr>"

definition ex_nv_dirty :: nv where
  "ex_nv_dirty = snd (nv_record_config_rebuild ex_reg ex_cfg ex_nv)"

lemma ex_nv_reach: "nv_reach addr ex_reg ex_cfg ex_nv_dirty"
proof -
  have "nv_reach addr ex_reg ex_cfg ex_nv" unfolding ex_nv_def by (rule reach_start) simp
  moreover have "nv_record_config_rebuild ex_reg ex_cfg ex_nv = (BT_STS_SUCCESS, ex_nv_dirty)"
    by (simp add: ex_nv_dirty_def nv_record_config_rebuild_def Let_def new_config_def nv_record_mempool_init_def
        ex_reg_def ex_cfg_def)
  ultimately show ?thesis by (blast intro: reach_step step_rebuild)
qed

lemma ex_keeps_size: "keeps_size ex_reg" "keeps_size (ex_cfg m)"
  by (simp_all add: keeps_size_def ex_reg_def ex_cfg_def)

lemma ex_dirty [simp]: "is_update ex_nv_dirty" "nv_config ex_nv_dirty = 32" "nv_state ex_nv_dirty = NV_STATE_IDLE"
  by (simp_all add: ex_nv_dirty_def nv_record_config_rebuild_def Let_def new_config_def nv_record_mempool_init_def
      ex_reg_def ex_cfg_def ex_nv_def power_cycle_def)

lemma nv_flush_writes_pool_witness:
  "\<exists>s'. nv_record_flash_flush_int 64 (Async NF_OK NF_OK) ex_nv_dirty = Some (0, s') \<and> \<not> is_update s' \<and>
    header_ok 64 32 (pool s') \<and> drained s' = pool s'"
proof -
  have "length (pool ex_nv_dirty) = POOL_SIZE"
    using nv_reach_inv [OF ex_nv_reach ex_keeps_size] by (simp add: nv_inv_def)
  then obtain p where "fill_header 64 (norflash_api_accept Flash_erase ex_nv_dirty\<lparr>nv_state := NV_STATE_ERASED\<rparr>) =
      Some (norflash_api_accept Flash_erase ex_nv_dirty\<lparr>nv_state := NV_STATE_ERASED, pool := p\<rparr>)"
    using fill_header_ok [of "norflash_api_accept Flash_erase ex_nv_dirty\<lparr>nv_state := NV_STATE_ERASED\<rparr>" 64] by auto
  then obtain s' where 1: "nv_record_flash_flush_int 64 (Async NF_OK NF_OK) ex_nv_dirty = Some (0, s')" "\<not> is_update s'"
    by (simp add: nv_record_flash_flush_int_def flush_async_def erase_once_def write_once_def)
  show ?thesis
    using nv_flush_writes_pool [OF ex_nv_reach ex_keeps_size 1(1)] 1 by auto
qed

text \<open>
  C23. Flush and restart: from any reachable state with unsaved changes, however often the flash had
  no room, the flush returns; a device that starts with the resulting flash gets the same pool
  and configuration back, and the check behind the write passes. A single changed byte makes the sector invalid if it is one of the
  magic, of the checksum or of the contents (bytes 0 to 7 and from 20 on); the three header words between them
  (\<open>start_ram_addr\<close>, \<open>reserv2\<close>, \<open>config_addr\<close>) are not covered, and a change there is not noticed.
\<close>

theorem nv_flush_open_roundtrip:
  assumes "nv_reach addr reg cfg_new s" "keeps_size reg" "\<And>m. keeps_size (cfg_new m)"
    and "is_update s" "nv_config s \<noteq> 0"
  shows "\<exists>s'. nv_record_flash_flush addr (map (Pair NF_BUFFER_FULL) es @ [(NF_OK, e)])
      (map (Pair NF_BUFFER_FULL) ws @ [(NF_OK, w)]) s = Some s' \<and>
    \<not> is_update s' \<and> drop 20 (pool s') = drop 20 (pool s) \<and> nv_callback NF_OK 0 True s' = Some s' \<and>
    (\<forall>t. flash t = flash s' \<and> \<not> nvrec_init t \<longrightarrow>
      (\<exists>t'. nv_record_open addr reg cfg_new section_usrdata_ddbrecord t = Some (BT_STS_SUCCESS, t') \<and>
        pool t' = pool s' \<and> nv_config t' = nv_config s)) \<and>
    (\<forall>t i b. i < POOL_SIZE \<and> b \<noteq> flash s' ! i \<and> flash t = (flash s')[i := b] \<longrightarrow>
      (\<exists>t'. nv_record_data_is_valid t = Some (8 \<le> i \<and> i < 20, t')))"
proof -
  obtain s' where 1: "nv_record_flash_flush addr (map (Pair NF_BUFFER_FULL) es @ [(NF_OK, e)])
      (map (Pair NF_BUFFER_FULL) ws @ [(NF_OK, w)]) s = Some s'"
    "wrote addr s s'" "\<not> is_update s'" "flash s' = pool s'"
    using flush_some [OF nv_reach_inv [OF assms(1-3)] assms(4,5)] by blast
  have h: "header_ok addr (nv_config s) (flash s')" using 1(2,4) by (simp add: wrote_def)
  have "\<exists>t'. nv_record_open addr reg cfg_new section_usrdata_ddbrecord t = Some (BT_STS_SUCCESS, t') \<and>
      pool t' = pool s' \<and> nv_config t' = nv_config s" if "flash t = flash s'" "\<not> nvrec_init t" for t
    using open_valid [of addr "nv_config s" t reg cfg_new] h that 1(4) by auto
  moreover have "\<exists>t'. nv_record_data_is_valid t = Some (8 \<le> i \<and> i < 20, t')"
    if "i < POOL_SIZE" "b \<noteq> flash s' ! i" "flash t = (flash s')[i := b]" for t i b
    using changed_byte [OF h] that by blast
  moreover have "nv_callback NF_OK 0 True s' = Some s'"
    using h heap_crc_total [of "flash s'"] 1(4) by (auto simp: nv_callback_def header_ok_def)
  ultimately show ?thesis using 1 by (auto simp: wrote_def)
qed

lemma nv_flush_open_roundtrip_witness:
  "\<exists>s'. nv_record_flash_flush 64 [(NF_BUFFER_FULL, 1), (NF_OK, 0)] [(NF_OK, 0)] ex_nv_dirty = Some s' \<and> \<not> is_update s' \<and>
    (\<exists>t'. nv_record_open 64 ex_reg ex_cfg section_usrdata_ddbrecord (power_cycle 0 [] s') = Some (BT_STS_SUCCESS, t') \<and>
      nv_config t' = 32)"
proof -
  obtain s' where 1: "nv_record_flash_flush 64 (map (Pair NF_BUFFER_FULL) [1] @ [(NF_OK, 0)])
      (map (Pair NF_BUFFER_FULL) [] @ [(NF_OK, 0)]) ex_nv_dirty = Some s'" "\<not> is_update s'"
    "\<And>t. flash t = flash s' \<Longrightarrow> \<not> nvrec_init t \<Longrightarrow>
      \<exists>t'. nv_record_open 64 ex_reg ex_cfg section_usrdata_ddbrecord t = Some (BT_STS_SUCCESS, t') \<and>
        pool t' = pool s' \<and> nv_config t' = nv_config ex_nv_dirty"
    using nv_flush_open_roundtrip [where addr = 64 and es = "[1]" and e = 0 and ws = "[]" and w = 0,
      OF ex_nv_reach ex_keeps_size] by fastforce
  have "flash (power_cycle 0 [] s') = flash s'" "\<not> nvrec_init (power_cycle 0 [] s')"
    by (simp_all add: power_cycle_def flash_done_def)
  from 1(3) [OF this] 1(1,2) show ?thesis by auto
qed

end
