(* ===== verification/BleRecord.thy ===== *)
theory BleRecord
  imports NvStore
begin

text \<open>
  \<open>services/nvrecord/nvrecord_ble.c\<close>: the bonded BLE devices, at most five, the most recently added
  first. The table lives in the pool; the configuration holds its address under one key
  (\<open>ble_cfg\<close>), the code caches it in \<open>nvrecord_ble_p\<close>. A structure is compared and copied with
  its padding byte.

  \<open>None\<close> is a null or dangling pointer that is followed, or a slot outside the table.
\<close>

section \<open>The table\<close>

abbreviation BLE_RECORD_NUM :: nat where "BLE_RECORD_NUM \<equiv> 5"
abbreviation BLE_IRK_SIZE :: nat where "BLE_IRK_SIZE \<equiv> 16"

definition NVRAM_BLE_INVALID :: u32 where "NVRAM_BLE_INVALID = 0xfae66666"

record BleDeviceinfo =
  peer_bleAddr :: "byte list"
  EDIV :: "16 word"
  RANDOM :: "byte list"
  LTK :: "byte list"
  IRK :: "byte list"
  bonded :: byte
  padding :: byte

definition zero_info :: BleDeviceinfo where
  "zero_info = \<lparr>peer_bleAddr = replicate 6 0, EDIV = 0, RANDOM = replicate 8 0, LTK = replicate 16 0,
     IRK = replicate 16 0, bonded = 0, padding = 0\<rparr>"

record Ble_nvrecord =
  loc_irk :: "byte list"
  saved_list_num :: nat
  ble_nv :: "BleDeviceinfo list"

record ble =
  nvrecord_ble_p :: u32
  ble_cfg :: "u32 option"
  ble_heap :: "u32 \<Rightarrow> Ble_nvrecord option"
  ble_store :: nv

section \<open>Slots\<close>

text \<open>The first of the slots \<open>i\<close> to \<open>n - 1\<close> with a property.\<close>

function find_slot :: "('a \<Rightarrow> bool) \<Rightarrow> 'a list \<Rightarrow> nat \<Rightarrow> nat \<Rightarrow> nat option option" where
  "find_slot P a i n = (if i < n then do {
     r \<leftarrow> mem_get a (int i);
     if P r then Some (Some i) else find_slot P a (Suc i) n } else Some None)"
  by pat_completeness auto
termination by (relation "measure (\<lambda>(P, a, i, n). n - i)") auto

declare find_slot.simps [simp del]

text \<open>Copy slot \<open>r - 1\<close> to slot \<open>r\<close>, from slot \<open>top\<close> down to slot 1.\<close>

fun shift_right :: "nat \<Rightarrow> 'a list \<Rightarrow> 'a list option" where
  "shift_right 0 a = Some a"
| "shift_right (Suc r) a = do {
     x \<leftarrow> mem_get a (int r);
     a \<leftarrow> mem_set a (int (Suc r)) x;
     shift_right r a }"

text \<open>Copy slot \<open>i + 1\<close> to slot \<open>i\<close> while \<open>i < m\<close>; the last index reached is cleared.\<close>

function shift_left :: "nat \<Rightarrow> nat \<Rightarrow> 'a \<Rightarrow> 'a list \<Rightarrow> 'a list option" where
  "shift_left i m z a = (if i < m then do {
     x \<leftarrow> mem_get a (int (Suc i));
     a \<leftarrow> mem_set a (int i) x;
     shift_left (Suc i) m z a } else mem_set a (int i) z)"
  by pat_completeness auto
termination by (relation "measure (\<lambda>(i, m, z, a). m - i)") auto

declare shift_left.simps [simp del]

section \<open>Operations\<close>

text \<open>Make slot 0 free for \<open>rec\<close>; \<open>False\<close>: the table need not change.\<close>

definition blerec_specific_value_prepare :: "BleDeviceinfo \<Rightarrow> Ble_nvrecord \<Rightarrow> (bool \<times> Ble_nvrecord) option" where
  "blerec_specific_value_prepare rec d =
     (if saved_list_num d = 0 then Some (True, d) else do {
        found \<leftarrow> find_slot (\<lambda>r. LTK r = LTK rec) (ble_nv d) 0 (saved_list_num d);
        case found of
          Some i \<Rightarrow> do {
            r \<leftarrow> mem_get (ble_nv d) (int i);
            if rec = r then Some (False, d) else do {
              a \<leftarrow> mem_set (ble_nv d) (int i) zero_info;
              a \<leftarrow> shift_right i a;
              Some (True, d\<lparr>saved_list_num := saved_list_num d - 1, ble_nv := a\<rparr>) } }
        | None \<Rightarrow>
            if saved_list_num d = BLE_RECORD_NUM then do {
              a \<leftarrow> shift_right (BLE_RECORD_NUM - 1) (ble_nv d);
              Some (True, d\<lparr>saved_list_num := saved_list_num d - 1, ble_nv := a\<rparr>) }
            else do {
              a \<leftarrow> shift_right (saved_list_num d) (ble_nv d);
              Some (True, d\<lparr>ble_nv := a\<rparr>) } })"

text \<open>The table \<open>nvrecord_ble_p\<close> points to, and its update.\<close>

definition ble_table :: "ble \<Rightarrow> Ble_nvrecord option" where
  "ble_table s = (if nvrecord_ble_p s = 0 then None else ble_heap s (nvrecord_ble_p s))"

definition put_table :: "u32 \<Rightarrow> Ble_nvrecord \<Rightarrow> ble \<Rightarrow> ble" where
  "put_table p d s = s\<lparr>ble_heap := (ble_heap s)(p \<mapsto> d)\<rparr>"

definition touch :: "ble \<Rightarrow> ble" where
  "touch s = s\<lparr>ble_store := nv_record_update_runtime_userdata (ble_store s)\<rparr>"

text \<open>\<open>nvrec_config_get_int\<close> for the one key used here; it asserts that there is a configuration.\<close>

definition cfg_get :: "ble \<Rightarrow> u32 option" where
  "cfg_get s = (if nv_config (ble_store s) = 0 then None
     else Some (case ble_cfg s of None \<Rightarrow> NVRAM_BLE_INVALID | Some p \<Rightarrow> p))"

definition nv_record_blerec_init :: "u32 \<Rightarrow> byte list \<Rightarrow> ble \<Rightarrow> ble option" where
  "nv_record_blerec_init new irk s = do {
     p \<leftarrow> (if nvrecord_ble_p s = 0 then cfg_get s else Some (nvrecord_ble_p s));
     let s = s\<lparr>nvrecord_ble_p := p\<rparr>;
     if p = NVRAM_BLE_INVALID then
       (if new = 0 \<or> nv_config (ble_store s) = 0 then None
        else Some (put_table new \<lparr>loc_irk = take BLE_IRK_SIZE irk, saved_list_num = 0,
            ble_nv = replicate BLE_RECORD_NUM zero_info\<rparr> (s\<lparr>nvrecord_ble_p := new, ble_cfg := Some new\<rparr>)))
     else Some s }"

definition nv_record_blerec_get_local_irk :: "ble \<Rightarrow> byte list option" where
  "nv_record_blerec_get_local_irk s = map_option loc_irk (ble_table s)"

definition nv_record_blerec_get_bd_addr_from_irk :: "byte list \<Rightarrow> ble \<Rightarrow> byte list option option" where
  "nv_record_blerec_get_bd_addr_from_irk pIrk s = do {
     d \<leftarrow> ble_table s;
     if saved_list_num d > 0 then do {
       found \<leftarrow> find_slot (\<lambda>r. pIrk = IRK r) (ble_nv d) 0 (saved_list_num d);
       case found of None \<Rightarrow> Some None
       | Some i \<Rightarrow> do { r \<leftarrow> mem_get (ble_nv d) (int i); Some (Some (peer_bleAddr r)) } }
     else Some None }"

definition nv_record_blerec_add :: "BleDeviceinfo \<Rightarrow> ble \<Rightarrow> (int \<times> ble) option" where
  "nv_record_blerec_add rec s = do {
     d \<leftarrow> ble_table s;
     (isNeedToUpdateNv, d) \<leftarrow> blerec_specific_value_prepare rec d;
     let s = put_table (nvrecord_ble_p s) d s;
     if isNeedToUpdateNv then do {
       r \<leftarrow> mem_get (ble_nv d) 0;
       a \<leftarrow> mem_set (ble_nv d) 0 (r\<lparr>peer_bleAddr := peer_bleAddr rec, EDIV := EDIV rec, RANDOM := RANDOM rec,
           LTK := LTK rec, IRK := IRK rec, bonded := bonded rec\<rparr>);
       let d = d\<lparr>saved_list_num := (saved_list_num d + 1) mod 256, ble_nv := a\<rparr>;
       Some (0, touch (put_table (nvrecord_ble_p s) d s)) }
     else Some (0, s) }"

text \<open>The table the configuration points to; \<open>None\<close> inside: there is none.\<close>

definition cfg_table :: "ble \<Rightarrow> (u32 \<times> Ble_nvrecord) option option" where
  "cfg_table s = do {
     p \<leftarrow> cfg_get s;
     if p = NVRAM_BLE_INVALID then Some None
     else do { d \<leftarrow> ble_heap s p; Some (Some (p, d)) } }"

fun fill_irks :: "byte list \<Rightarrow> Ble_nvrecord \<Rightarrow> nat \<Rightarrow> byte list option" where
  "fill_irks buf d 0 = Some buf"
| "fill_irks buf d (Suc n) = do {
     buf \<leftarrow> fill_irks buf d n;
     r \<leftarrow> mem_get (ble_nv d) (int n);
     memcpy buf (int (n * BLE_IRK_SIZE)) (IRK r) 0 (int BLE_IRK_SIZE) }"

definition nv_record_ble_fill_irk :: "byte list \<Rightarrow> ble \<Rightarrow> (nat \<times> byte list) option" where
  "nv_record_ble_fill_irk irkToFill s = do {
     t \<leftarrow> cfg_table s;
     case t of None \<Rightarrow> Some (0, irkToFill)
     | Some (_, d) \<Rightarrow> if saved_list_num d = 0 then Some (0, irkToFill) else do {
         buf \<leftarrow> fill_irks irkToFill d (saved_list_num d);
         Some (saved_list_num d, buf) } }"

definition nv_record_ble_record_find_ltk_through_static_bd_addr :: "byte list \<Rightarrow> ble \<Rightarrow> byte list option option" where
  "nv_record_ble_record_find_ltk_through_static_bd_addr pBdAddr s = do {
     t \<leftarrow> cfg_table s;
     case t of None \<Rightarrow> Some None
     | Some (_, d) \<Rightarrow> do {
         found \<leftarrow> find_slot (\<lambda>r. peer_bleAddr r = pBdAddr) (ble_nv d) 0 (saved_list_num d);
         case found of None \<Rightarrow> Some None
         | Some i \<Rightarrow> do { r \<leftarrow> mem_get (ble_nv d) (int i); Some (Some (LTK r)) } } }"

definition nv_record_ble_record_Once_a_device_has_been_bonded :: "ble \<Rightarrow> bool option" where
  "nv_record_ble_record_Once_a_device_has_been_bonded s = do {
     t \<leftarrow> cfg_table s;
     case t of None \<Rightarrow> Some False
     | Some (_, d) \<Rightarrow> do {
         found \<leftarrow> find_slot (\<lambda>r. bonded r = 1) (ble_nv d) 0 (saved_list_num d);
         Some (found \<noteq> None) } }"

definition nv_record_ble_delete_entry :: "byte list \<Rightarrow> ble \<Rightarrow> ble option" where
  "nv_record_ble_delete_entry pBdAddr s = do {
     t \<leftarrow> cfg_table s;
     case t of None \<Rightarrow> Some s
     | Some (p, d) \<Rightarrow> if saved_list_num d = 0 then Some s else do {
         found \<leftarrow> find_slot (\<lambda>r. peer_bleAddr r = pBdAddr) (ble_nv d) 0 (saved_list_num d);
         case found of None \<Rightarrow> Some s
         | Some i \<Rightarrow> do {
             a \<leftarrow> shift_left i (saved_list_num d - 1) zero_info (ble_nv d);
             Some (touch (put_table p (d\<lparr>saved_list_num := saved_list_num d - 1, ble_nv := a\<rparr>) s)) } } }"

section \<open>Slots as lists\<close>

lemma find_slot_eq:
  "i \<le> n \<Longrightarrow> n \<le> length a \<Longrightarrow> find_slot P a i n =
     Some (let k = i + length (takeWhile (\<lambda>r. \<not> P r) (drop i (take n a))) in if k < n then Some k else None)"
proof (induction P a i n rule: find_slot.induct)
  case (1 P a i n)
  show ?case
  proof (cases "i < n")
    case True
    then have "drop i (take n a) = a ! i # drop (Suc i) (take n a)"
      using 1(3) by (simp add: Cons_nth_drop_Suc [symmetric])
    then show ?thesis using True 1 by (subst find_slot.simps) (simp add: mem_get_nat Let_def)
  qed (use 1 in \<open>simp add: find_slot.simps Let_def\<close>)
qed

lemma find_slot_cases:
  assumes "n \<le> length a"
  obtains (found) i where "find_slot P a 0 n = Some (Some i)" "i < n" "P (a ! i)" "\<And>j. j < i \<Longrightarrow> \<not> P (a ! j)"
  | (none) "find_slot P a 0 n = Some None" "\<And>j. j < n \<Longrightarrow> \<not> P (a ! j)"
proof -
  define k where "k = length (takeWhile (\<lambda>r. \<not> P r) (take n a))"
  have e: "find_slot P a 0 n = Some (if k < n then Some k else None)"
    using find_slot_eq [of 0 n a P] assms by (simp add: k_def Let_def)
  have before: "\<not> P (a ! j)" if "j < k" for j
  proof -
    have "j < n" using that assms length_takeWhile_le [of "\<lambda>r. \<not> P r" "take n a"] by (simp add: k_def)
    then show ?thesis using that takeWhile_nth [of j "\<lambda>r. \<not> P r" "take n a"]
        nth_mem [of j "takeWhile (\<lambda>r. \<not> P r) (take n a)"]
        set_takeWhileD [of "takeWhile (\<lambda>r. \<not> P r) (take n a) ! j" "\<lambda>r. \<not> P r" "take n a"]
      by (simp add: k_def)
  qed
  show thesis
  proof (cases "k < n")
    case True
    then have "P (a ! k)"
      using nth_length_takeWhile [of "\<lambda>r. \<not> P r" "take n a"] assms by (simp add: k_def)
    then show thesis using found e before True by simp
  next
    case False
    then show thesis using none e before by simp
  qed
qed

lemma shift_right_eq:
  "r < length a \<Longrightarrow> shift_right r a = Some (take 1 a @ take r a @ drop (Suc r) a)"
proof (induction r arbitrary: a)
  case 0
  then show ?case by (cases a) simp_all
next
  case (Suc r)
  have "shift_right (Suc r) a = Some (take 1 (a[Suc r := a ! r]) @ take r (a[Suc r := a ! r]) @ drop (Suc r) (a[Suc r := a ! r]))"
    using Suc.IH [of "a[Suc r := a ! r]"] Suc.prems mem_set_nat [of a "Suc r" "a ! r"]
    by (simp add: mem_get_nat)
  moreover have "drop (Suc r) (a[Suc r := a ! r]) = a ! r # drop (Suc (Suc r)) a"
    using Suc.prems by (simp add: drop_update_swap Cons_nth_drop_Suc [symmetric])
  ultimately show ?case using Suc.prems by (simp add: take_Suc_conv_app_nth)
qed

lemma shift_left_eq:
  "i \<le> m \<Longrightarrow> m < length a \<Longrightarrow> shift_left i m z a = Some (take i a @ drop (Suc i) (take (Suc m) a) @ z # drop (Suc m) a)"
proof (induction i m z a rule: shift_left.induct)
  case (1 i m z a)
  show ?case
  proof (cases "i < m")
    case True
    have "shift_left i m z a = shift_left (Suc i) m z (a[i := a ! Suc i])"
      using True 1(3) mem_get_nat [of a "Suc i"] by (subst shift_left.simps) (simp add: mem_set_nat)
    moreover have "drop (Suc (Suc i)) (take (Suc m) (a[i := a ! Suc i])) = drop (Suc (Suc i)) (take (Suc m) a)"
      by (simp add: take_update_swap)
    ultimately show ?thesis
      using 1(1) [of "a ! Suc i" "a[i := a ! Suc i]"] True 1(3) mem_get_nat [of a "Suc i"]
      by (simp add: mem_set_nat take_Suc_conv_app_nth [of i] drop_update_swap Cons_nth_drop_Suc [of "Suc i", symmetric])
  next
    case False
    then show ?thesis using 1(2,3)
      by (simp add: shift_left.simps mem_set_nat upd_conv_take_nth_drop)
  qed
qed

section \<open>The device list\<close>

definition devices :: "Ble_nvrecord \<Rightarrow> BleDeviceinfo list" where
  "devices d = take (saved_list_num d) (ble_nv d)"

definition tbl_inv :: "Ble_nvrecord \<Rightarrow> bool" where
  "tbl_inv d \<longleftrightarrow> length (ble_nv d) = BLE_RECORD_NUM \<and> saved_list_num d \<le> BLE_RECORD_NUM \<and> distinct (map LTK (devices d))"

text \<open>Both pointers to the table agree and there is a configuration.\<close>

definition ble_inv :: "ble \<Rightarrow> Ble_nvrecord \<Rightarrow> bool" where
  "ble_inv s d \<longleftrightarrow> nvrecord_ble_p s \<noteq> 0 \<and> nvrecord_ble_p s \<noteq> NVRAM_BLE_INVALID \<and>
     ble_cfg s = Some (nvrecord_ble_p s) \<and> ble_heap s (nvrecord_ble_p s) = Some d \<and> tbl_inv d \<and> nv_config (ble_store s) \<noteq> 0"

definition core :: "BleDeviceinfo \<Rightarrow> BleDeviceinfo" where
  "core r = r\<lparr>padding := 0\<rparr>"

lemma filter_neq_nth:
  "distinct (map f xs) \<Longrightarrow> i < length xs \<Longrightarrow> filter (\<lambda>r. f r \<noteq> f (xs ! i)) xs = take i xs @ drop (Suc i) xs"
proof (induction xs arbitrary: i)
  case (Cons x xs)
  then show ?case
  proof (cases i)
    case 0
    with Cons.prems show ?thesis by (auto simp: filter_id_conv) (metis imageI)
  next
    case (Suc j)
    with Cons have "f x \<noteq> f (xs ! j)" by (auto simp: image_iff)
    with Suc Cons show ?thesis by simp
  qed
qed simp

lemma prepare_spec:
  assumes d: "tbl_inv d"
  shows "if rec \<in> set (devices d) then blerec_specific_value_prepare rec d = Some (False, d)
    else \<exists>d'. blerec_specific_value_prepare rec d = Some (True, d') \<and> length (ble_nv d') = BLE_RECORD_NUM \<and>
      saved_list_num d' < BLE_RECORD_NUM \<and>
      take (saved_list_num d') (drop 1 (ble_nv d')) = take 4 (filter (\<lambda>r. LTK r \<noteq> LTK rec) (devices d))"
proof -
  define a n where "a = ble_nv d" and "n = saved_list_num d"
  have l: "length a = 5" "n \<le> 5" "devices d = take n a" using d by (simp_all add: tbl_inv_def a_def n_def devices_def)
  have l': "n \<le> length a" using l by simp
  show ?thesis
  proof (cases "n = 0")
    case True
    then show ?thesis using l
      by (auto simp: blerec_specific_value_prepare_def n_def [symmetric] a_def [symmetric] intro: exI [of _ d])
  next
    case n: False
    show ?thesis
    proof (cases rule: find_slot_cases [OF l', of "\<lambda>r. LTK r = LTK rec"])
      case (1 i)
    note found = this
      have del: "filter (\<lambda>r. LTK r \<noteq> LTK rec) (devices d) = take i (devices d) @ drop (Suc i) (devices d)"
        using filter_neq_nth [of LTK "devices d" i] d found(2,3) l by (simp add: tbl_inv_def)
      have mem: "rec \<in> set (devices d) \<longleftrightarrow> rec = a ! i"
      proof
        assume "rec \<in> set (devices d)"
        then obtain j where "j < n" "rec = a ! j" using l by (auto simp: in_set_conv_nth)
        moreover then have "j = i"
          using d found(2,3) l nth_eq_iff_index_eq [of "map LTK (devices d)" j i] by (simp add: tbl_inv_def)
        ultimately show "rec = a ! i" by simp
      next
        assume "rec = a ! i"
        then show "rec \<in> set (devices d)" using found(2) l by (auto simp: in_set_conv_nth)
      qed
      have sh: "shift_right i (a[i := zero_info]) = Some (take 1 (a[i := zero_info]) @ take i a @ drop (Suc i) a)"
        using shift_right_eq [of i "a[i := zero_info]"] found(2) l by simp
      define d' where "d' = d\<lparr>saved_list_num := n - 1, ble_nv := take 1 (a[i := zero_info]) @ take i a @ drop (Suc i) a\<rparr>"
      have prep: "blerec_specific_value_prepare rec d = Some (if rec = a ! i then (False, d) else (True, d'))"
        using n found(1,2) l sh by (simp add: blerec_specific_value_prepare_def a_def [symmetric] n_def [symmetric]
            mem_get_nat mem_set_nat d'_def)
      have t: "take (n - 1) (drop 1 (ble_nv d')) = take i (devices d) @ drop (Suc i) (devices d)"
      proof -
        have "take (n - 1) (take i a @ drop (Suc i) a) = take i a @ drop (Suc i) (take n a)"
          using found(2) l by (simp add: drop_take min_absorb2)
        then show ?thesis using found(2) l by (simp add: d'_def)
      qed
      have lend: "length (ble_nv d') = 5" using found(2) l by (simp add: d'_def)
      have "length (take i (devices d) @ drop (Suc i) (devices d)) \<le> 4" using found(2) l by simp
      then have "take 4 (filter (\<lambda>r. LTK r \<noteq> LTK rec) (devices d)) = take i (devices d) @ drop (Suc i) (devices d)"
        unfolding del by (rule take_all)
      then have "take (saved_list_num d') (drop 1 (ble_nv d')) = take 4 (filter (\<lambda>r. LTK r \<noteq> LTK rec) (devices d))"
        using t by (simp add: d'_def)
      moreover have "saved_list_num d' < 5" using n l(2) by (simp add: d'_def)
      ultimately show ?thesis using prep lend unfolding mem by (cases "rec = a ! i") auto
    next
      case 2
    note none = this
      have f: "filter (\<lambda>r. LTK r \<noteq> LTK rec) (devices d) = devices d"
        using none(2) l by (auto simp: filter_id_conv in_set_conv_nth)
      have mem: "rec \<notin> set (devices d)" using none(2) l by (auto simp: in_set_conv_nth)
      define m where "m = (if n = 5 then 4 else n)"
      define d' where "d' = d\<lparr>saved_list_num := m, ble_nv := take 1 a @ take m a @ drop (Suc m) a\<rparr>"
      have sh: "shift_right m a = Some (take 1 a @ take m a @ drop (Suc m) a)"
        using shift_right_eq [of m a] l by (simp add: m_def)
      have "blerec_specific_value_prepare rec d = Some (True, d')"
        using n none(1) sh by (simp add: blerec_specific_value_prepare_def a_def [symmetric] n_def [symmetric]
            d'_def m_def split: if_splits)
      moreover have "length (ble_nv d') = 5" "saved_list_num d' < 5" using l by (simp_all add: d'_def m_def)
      moreover have "take (saved_list_num d') (drop 1 (ble_nv d')) = take 4 (devices d)"
      proof -
        have m: "m = min 4 n" using l(2) by (auto simp: m_def min_def)
        have "take (saved_list_num d') (drop 1 (ble_nv d')) = take m a"
          using l(1) m by (simp add: d'_def min_def)
        then show ?thesis unfolding l(3) by (simp add: m)
      qed
      ultimately show ?thesis using f mem by simp
    qed
  qed
qed

lemma add_spec:
  assumes "ble_inv s d"
  shows "\<exists>s' d'. nv_record_blerec_add rec s = Some (0, s') \<and> ble_inv s' d' \<and>
    map core (devices d') = (if rec \<in> set (devices d) then map core (devices d)
      else take BLE_RECORD_NUM (core rec # map core (filter (\<lambda>r. LTK r \<noteq> LTK rec) (devices d))))"
proof -
  have t: "ble_table s = Some d" "tbl_inv d" using assms by (simp_all add: ble_inv_def ble_table_def)
  show ?thesis
  proof (cases "rec \<in> set (devices d)")
    case True
    then have "nv_record_blerec_add rec s = Some (0, put_table (nvrecord_ble_p s) d s)"
      using prepare_spec [OF t(2), of rec] by (simp add: nv_record_blerec_add_def t(1))
    moreover have "put_table (nvrecord_ble_p s) d s = s"
      using assms by (simp add: put_table_def ble_inv_def map_upd_triv)
    ultimately show ?thesis using True assms by auto
  next
    case False
    obtain d1 where d1: "blerec_specific_value_prepare rec d = Some (True, d1)" "length (ble_nv d1) = 5"
      "saved_list_num d1 < 5"
      "take (saved_list_num d1) (drop 1 (ble_nv d1)) = take 4 (filter (\<lambda>r. LTK r \<noteq> LTK rec) (devices d))"
      using prepare_spec [OF t(2), of rec] False by auto
    define r where "r = (ble_nv d1 ! 0)\<lparr>peer_bleAddr := peer_bleAddr rec, EDIV := EDIV rec, RANDOM := RANDOM rec,
           LTK := LTK rec, IRK := IRK rec, bonded := bonded rec\<rparr>"
    define d' where "d' = d1\<lparr>saved_list_num := saved_list_num d1 + 1, ble_nv := (ble_nv d1)[0 := r]\<rparr>"
    define s' where "s' = touch (put_table (nvrecord_ble_p s) d' (put_table (nvrecord_ble_p s) d1 s))"
    have "nv_record_blerec_add rec s = Some (0, s')"
      using d1(1-3) mem_get_nat [of "ble_nv d1" 0] mem_set_nat [of "ble_nv d1" 0]
      by (simp add: nv_record_blerec_add_def t(1) s'_def d'_def r_def put_table_def)
    moreover have dev: "devices d' = r # take 4 (filter (\<lambda>r. LTK r \<noteq> LTK rec) (devices d))"
      using d1 by (cases "ble_nv d1") (simp_all add: devices_def d'_def)
    moreover have "core r = core rec" by (simp add: core_def r_def)
    moreover have "distinct (map LTK (filter (\<lambda>r. LTK r \<noteq> LTK rec) (devices d)))"
      using t(2) by (simp add: tbl_inv_def distinct_map_filter)
    then have "tbl_inv d'"
      using dev d1(2,3) by (auto simp: tbl_inv_def d'_def r_def take_map [symmetric] dest!: in_set_takeD)
    then have "ble_inv s' d'"
      using assms by (simp add: ble_inv_def s'_def put_table_def touch_def nv_record_update_runtime_userdata_def)
    ultimately show ?thesis using False by (auto simp: take_map)
  qed
qed

lemma first_found:
  assumes "ble_inv s d"
  shows "nv_record_ble_record_find_ltk_through_static_bd_addr x s =
    Some (map_option LTK (List.find (\<lambda>r. peer_bleAddr r = x) (devices d)))"
proof -
  have n: "saved_list_num d \<le> length (ble_nv d)" using assms by (simp add: ble_inv_def tbl_inv_def)
  have t: "cfg_table s = Some (Some (nvrecord_ble_p s, d))"
    using assms by (simp add: cfg_table_def cfg_get_def ble_inv_def)
  show ?thesis
  proof (cases rule: find_slot_cases [OF n, of "\<lambda>r. peer_bleAddr r = x"])
    case (1 i)
    note found = this
    then have "List.find (\<lambda>r. peer_bleAddr r = x) (devices d) = Some (ble_nv d ! i)"
      using n by (auto simp: find_Some_iff devices_def)
    then show ?thesis using found(1,2) n
      by (simp add: nv_record_ble_record_find_ltk_through_static_bd_addr_def t mem_get_nat)
  next
    case 2
    note none = this
    then have "List.find (\<lambda>r. peer_bleAddr r = x) (devices d) = None"
      by (auto simp: find_None_iff devices_def in_set_conv_nth)
    then show ?thesis using none(1)
      by (simp add: nv_record_ble_record_find_ltk_through_static_bd_addr_def t)
  qed
qed

lemma delete_spec:
  assumes "ble_inv s d"
  shows "\<exists>s' d'. nv_record_ble_delete_entry x s = Some s' \<and> ble_inv s' d' \<and>
    devices d' = takeWhile (\<lambda>r. peer_bleAddr r \<noteq> x) (devices d) @ tl (dropWhile (\<lambda>r. peer_bleAddr r \<noteq> x) (devices d))"
proof -
  define n a where "n = saved_list_num d" and "a = ble_nv d"
  have l: "n \<le> length a" "length a = 5" "n \<le> 5" "devices d = take n a" "distinct (map LTK (take n a))"
    using assms by (simp_all add: ble_inv_def tbl_inv_def n_def a_def devices_def)
  have t: "cfg_table s = Some (Some (nvrecord_ble_p s, d))"
    using assms by (simp add: cfg_table_def cfg_get_def ble_inv_def)
  show ?thesis
  proof (cases rule: find_slot_cases [OF l(1), of "\<lambda>r. peer_bleAddr r = x"])
    case (1 i)
    have sl: "shift_left i (n - 1) zero_info a = Some (take i a @ drop (Suc i) (take n a) @ zero_info # drop n a)"
      using shift_left_eq [of i "n - 1" a zero_info] 1(2) l by simp
    define d' where "d' = d\<lparr>saved_list_num := n - 1, ble_nv := take i a @ drop (Suc i) (take n a) @ zero_info # drop n a\<rparr>"
    define s' where "s' = touch (put_table (nvrecord_ble_p s) d' s)"
    have "nv_record_ble_delete_entry x s = Some s'"
      using 1(1,2) sl by (simp add: nv_record_ble_delete_entry_def t n_def [symmetric] a_def [symmetric] d'_def s'_def)
    moreover have dev: "devices d' = take i (devices d) @ drop (Suc i) (devices d)"
      using 1(2) l by (simp add: devices_def d'_def min_absorb2)
    moreover have "takeWhile (\<lambda>r. peer_bleAddr r \<noteq> x) (devices d) = take i (devices d)"
      using 1(2-4) l by (intro takeWhile_eq_take_P_nth) auto
    moreover then have "dropWhile (\<lambda>r. peer_bleAddr r \<noteq> x) (devices d) = drop i (devices d)"
      using 1(2) l by (metis append_eq_conv_conj length_take min_absorb2 takeWhile_dropWhile_id less_imp_le length_takeWhile_le)
    moreover have "tl (drop i (devices d)) = drop (Suc i) (devices d)" by (simp add: drop_Suc drop_tl)
    moreover have "distinct (map LTK (take i (devices d) @ drop (Suc i) (devices d)))"
      using l(5) unfolding l(4) by (subst (asm) id_take_nth_drop [of i "take n a"]) (use 1(2) l in auto)
    then have "tbl_inv d'" unfolding tbl_inv_def dev using 1(2) l by (simp add: d'_def)
    then have "ble_inv s' d'"
      using assms by (simp add: ble_inv_def s'_def put_table_def touch_def nv_record_update_runtime_userdata_def)
    ultimately show ?thesis by auto
  next
    case 2
    have "peer_bleAddr r \<noteq> x" if "r \<in> set (devices d)" for r
    proof -
      from that obtain j where "j < n" "r = a ! j" using l by (auto simp: in_set_conv_nth)
      then show ?thesis using 2(2) [of j] by simp
    qed
    then have tw: "takeWhile (\<lambda>r. peer_bleAddr r \<noteq> x) (devices d) = devices d" "dropWhile (\<lambda>r. peer_bleAddr r \<noteq> x) (devices d) = []"
      by (auto simp: takeWhile_eq_all_conv dropWhile_eq_Nil_conv)
    have "nv_record_ble_delete_entry x s = Some s"
      using 2(1) by (simp add: nv_record_ble_delete_entry_def t n_def [symmetric] a_def [symmetric])
    then show ?thesis unfolding tw using assms by auto
  qed
qed

lemma init_spec:
  assumes "nv_config (ble_store s) \<noteq> 0" "nvrecord_ble_p s = 0" "ble_cfg s = None" "new \<noteq> 0" "new \<noteq> NVRAM_BLE_INVALID"
  shows "\<exists>s' d. nv_record_blerec_init new irk s = Some s' \<and> ble_inv s' d \<and> devices d = []"
  using assms by (simp add: nv_record_blerec_init_def cfg_get_def Let_def put_table_def ble_inv_def tbl_inv_def devices_def)

section \<open>Properties\<close>

text \<open>
  C24. Adding a bonded device: the table stays sound (at most five devices, no two with the same
  long term key), the new device comes first, an older record with its key is replaced, the
  oldest device is dropped when the table is full, and the key is found again under the
  device's address. A record that is there already, byte for byte, changes nothing.
\<close>

theorem ble_add_most_recent:
  assumes "ble_inv s d"
  shows "\<exists>s' d'. nv_record_blerec_add rec s = Some (0, s') \<and> ble_inv s' d' \<and>
    map core (devices d') = (if rec \<in> set (devices d) then map core (devices d)
      else take BLE_RECORD_NUM (core rec # map core (filter (\<lambda>r. LTK r \<noteq> LTK rec) (devices d)))) \<and>
    (rec \<notin> set (devices d) \<longrightarrow>
      nv_record_ble_record_find_ltk_through_static_bd_addr (peer_bleAddr rec) s' = Some (Some (LTK rec)))"
proof -
  obtain s' d' where 1: "nv_record_blerec_add rec s = Some (0, s')" "ble_inv s' d'"
    "map core (devices d') = (if rec \<in> set (devices d) then map core (devices d)
      else take BLE_RECORD_NUM (core rec # map core (filter (\<lambda>r. LTK r \<noteq> LTK rec) (devices d))))"
    using add_spec [OF assms] by blast
  have "List.find (\<lambda>r. peer_bleAddr r = peer_bleAddr rec) (devices d') = Some (hd (devices d'))"
    "LTK (hd (devices d')) = LTK rec" if "rec \<notin> set (devices d)"
  proof -
    have "map core (devices d') = take BLE_RECORD_NUM (core rec # map core (filter (\<lambda>r. LTK r \<noteq> LTK rec) (devices d)))"
      using 1(3) that by (simp only: if_False)
    then obtain r rs where r: "devices d' = r # rs" "core r = core rec"
      by (cases "devices d'") auto
    then have "peer_bleAddr (core r) = peer_bleAddr (core rec)" "LTK (core r) = LTK (core rec)" by simp_all
    then show "List.find (\<lambda>r. peer_bleAddr r = peer_bleAddr rec) (devices d') = Some (hd (devices d'))"
      "LTK (hd (devices d')) = LTK rec" using r by (simp_all add: core_def)
  qed
  then show ?thesis using 1 first_found [OF 1(2)] by auto
qed

definition ex_info :: "byte \<Rightarrow> BleDeviceinfo" where
  "ex_info k = zero_info\<lparr>peer_bleAddr := [1, 2, 3, 4, 5, 6], LTK := [k]\<rparr>"

lemma ex_info_simps [simp]:
  "LTK (ex_info k) = [k]" "peer_bleAddr (ex_info k) = [1, 2, 3, 4, 5, 6]" "ex_info k = ex_info j \<longleftrightarrow> k = j"
  by (auto simp: ex_info_def dest: arg_cong [of _ _ LTK])

definition ex_ble :: ble where
  "ex_ble = \<lparr>nvrecord_ble_p = 8, ble_cfg = Some 8,
     ble_heap = [8 \<mapsto> \<lparr>loc_irk = [], saved_list_num = 2, ble_nv = map ex_info [1, 2, 0, 0, 0]\<rparr>],
     ble_store = ex_nv_dirty\<rparr>"

lemma ex_ble_inv: "ble_inv ex_ble \<lparr>loc_irk = [], saved_list_num = 2, ble_nv = map ex_info [1, 2, 0, 0, 0]\<rparr>"
  by (simp add: ble_inv_def ex_ble_def NVRAM_BLE_INVALID_def tbl_inv_def devices_def)

lemma ble_add_most_recent_witness:
  "\<exists>s' d'. nv_record_blerec_add (ex_info 3) ex_ble = Some (0, s') \<and> ble_inv s' d' \<and>
    map core (devices d') = map core [ex_info 3, ex_info 1, ex_info 2] \<and>
    nv_record_ble_record_find_ltk_through_static_bd_addr [1, 2, 3, 4, 5, 6] s' = Some (Some [3])"
  using ble_add_most_recent [OF ex_ble_inv, of "ex_info 3"] by (simp add: devices_def)

text \<open>
  Deleting by address removes the newest record of the address only. When the device had bonded
  again with a new key, its older key becomes the one that is found: the address is gone
  exactly when it had at most one record.
\<close>

theorem ble_delete_newest_only:
  assumes "ble_inv s d"
  shows "\<exists>s' d'. nv_record_ble_delete_entry x s = Some s' \<and> ble_inv s' d' \<and>
    devices d' = takeWhile (\<lambda>r. peer_bleAddr r \<noteq> x) (devices d) @ tl (dropWhile (\<lambda>r. peer_bleAddr r \<noteq> x) (devices d)) \<and>
    (nv_record_ble_record_find_ltk_through_static_bd_addr x s' = Some None) =
      (length (filter (\<lambda>r. peer_bleAddr r = x) (devices d)) \<le> 1)"
proof -
  obtain s' d' where 1: "nv_record_ble_delete_entry x s = Some s'" "ble_inv s' d'"
    "devices d' = takeWhile (\<lambda>r. peer_bleAddr r \<noteq> x) (devices d) @ tl (dropWhile (\<lambda>r. peer_bleAddr r \<noteq> x) (devices d))"
    using delete_spec [OF assms] by blast
  have "(List.find (\<lambda>r. peer_bleAddr r = x) (takeWhile (\<lambda>r. peer_bleAddr r \<noteq> x) xs @ tl (dropWhile (\<lambda>r. peer_bleAddr r \<noteq> x) xs)) = None) =
      (length (filter (\<lambda>r. peer_bleAddr r = x) xs) \<le> 1)" for xs
    by (induction xs) (auto simp: find_None_iff filter_empty_conv)
  then show ?thesis using 1 first_found [OF 1(2)] by auto
qed

lemma ble_delete_newest_only_witness:
  "\<exists>s'. nv_record_ble_delete_entry [1, 2, 3, 4, 5, 6] ex_ble = Some s' \<and>
    nv_record_ble_record_find_ltk_through_static_bd_addr [1, 2, 3, 4, 5, 6] s' \<noteq> Some None"
  using ble_delete_newest_only [OF ex_ble_inv, of "[1, 2, 3, 4, 5, 6]"] by (auto simp: devices_def)

end
