(* ===== verification/NvDev.thy ===== *)
theory NvDev
  imports Crc
begin

text \<open>
  \<open>services/nvrecord/nvrecord.c\<close>, the factory sector: device names, addresses and the crystal
  trim, in two layouts, protected by a checksum; and \<open>utils/heap/pool_api.c\<close>, the system pool
  the sector is rebuilt in. \<open>factory\<close> is the flash from the start of the sector on, at least the
  sector itself; a read behind its end is a fault. Offsets in the sector count 32-bit words.

  \<open>None\<close> is a failing \<open>ASSERT\<close>, a null pointer or an access outside the memory.
\<close>

section \<open>The system pool\<close>

record syspool =
  syspool_mem :: "byte list"
  syspool_size :: nat
  syspoll_used :: nat

text \<open>The memory between the heap limit and the stack has \<open>length (syspool_mem s)\<close> bytes.\<close>

definition syspool_init_addr :: "syspool \<Rightarrow> syspool" where
  "syspool_init_addr s = s\<lparr>syspool_size := length (syspool_mem s)\<rparr>"

definition syspool_original_size :: "syspool \<Rightarrow> nat" where
  "syspool_original_size s = length (syspool_mem s)"

definition syspool_init :: "syspool \<Rightarrow> syspool" where
  "syspool_init s = (let s = syspool_init_addr s in
     s\<lparr>syspoll_used := 0, syspool_mem := replicate (syspool_size s) 0\<rparr>)"

definition syspool_init_specific_size :: "nat \<Rightarrow> syspool \<Rightarrow> syspool option" where
  "syspool_init_specific_size sz s = (let s = syspool_init_addr s in
     if sz \<le> length (syspool_mem s)
     then Some (s\<lparr>syspoll_used := 0, syspool_size := sz, syspool_mem := blit (syspool_mem s) 0 (replicate sz 0)\<rparr>)
     else None)"

definition syspool_total_size :: "syspool \<Rightarrow> nat" where
  "syspool_total_size s = syspool_size s"

definition syspool_free_size :: "syspool \<Rightarrow> int" where
  "syspool_free_size s = to_s32 (int (syspool_size s) - int (syspoll_used s))"

text \<open>The result is the offset of the buffer in the pool.\<close>

definition syspool_get_buff :: "nat \<Rightarrow> syspool \<Rightarrow> (nat \<times> int \<times> syspool) option" where
  "syspool_get_buff sz s =
     (let buff_size_free = to_u32 (syspool_free_size s);
          sz = (if sz mod 4 \<noteq> 0 then add32 sz (4 - sz mod 4) else sz)
      in if int sz \<le> buff_size_free
         then Some (syspoll_used s, to_s32 buff_size_free, s\<lparr>syspoll_used := add32 (syspoll_used s) sz\<rparr>)
         else None)"

definition syspool_get_available :: "bool \<Rightarrow> syspool \<Rightarrow> int \<times> nat option \<times> syspool" where
  "syspool_get_available buff s =
     (let buff_size_free = to_u32 (syspool_free_size s) in
      if buff_size_free < 8 then (-1, None, s)
      else if buff then (to_s32 buff_size_free, Some (syspoll_used s),
          s\<lparr>syspoll_used := add32 (syspoll_used s) (nat buff_size_free)\<rparr>)
      else (to_s32 buff_size_free, None, s))"

definition syspool_force_used_size :: "nat \<Rightarrow> syspool \<Rightarrow> nat \<times> syspool" where
  "syspool_force_used_size sz s = (sz, s\<lparr>syspoll_used := sz\<rparr>)"

section \<open>The factory sector\<close>

abbreviation NVREC_DEV_NEWEST_REV :: nat where "NVREC_DEV_NEWEST_REV \<equiv> 2"
abbreviation NVREC_DEV_VERSION_1 :: nat where "NVREC_DEV_VERSION_1 \<equiv> 1"
abbreviation SECTOR :: nat where "SECTOR \<equiv> 4096"
abbreviation BD_ADDR_SIZE :: nat where "BD_ADDR_SIZE \<equiv> 6"
abbreviation BLE_NAME_LEN_IN_NV :: nat where "BLE_NAME_LEN_IN_NV \<equiv> 32"

definition nvrec_dev_magic :: u32 where "nvrec_dev_magic = 0xba80"

text \<open>The layout of revision 1.\<close>

definition dev_version_and_magic :: nat where "dev_version_and_magic = 0"
definition dev_crc :: nat where "dev_crc = 1"
definition dev_reserv1 :: nat where "dev_reserv1 = 2"
definition dev_reserv2 :: nat where "dev_reserv2 = 3"
definition dev_name :: nat where "dev_name = 4"
definition dev_bt_addr :: nat where "dev_bt_addr = 67"
definition dev_ble_addr :: nat where "dev_ble_addr = 69"
definition dev_dongle_addr :: nat where "dev_dongle_addr = 71"
definition dev_xtal_fcap :: nat where "dev_xtal_fcap = 73"
definition dev_data_len :: nat where "dev_data_len = 74"

text \<open>The layout of revision 2.\<close>

definition rev2_dev_data_len :: nat where "rev2_dev_data_len = 75"
definition rev2_dev_crc :: nat where "rev2_dev_crc = 76"
definition rev2_dev_section_start_reserved :: nat where "rev2_dev_section_start_reserved = 77"
definition rev2_dev_reserv2 :: nat where "rev2_dev_reserv2 = 78"
definition rev2_dev_name :: nat where "rev2_dev_name = 79"
definition rev2_dev_bt_addr :: nat where "rev2_dev_bt_addr = 142"
definition rev2_dev_ble_addr :: nat where "rev2_dev_ble_addr = 144"
definition rev2_dev_dongle_addr :: nat where "rev2_dev_dongle_addr = 146"
definition rev2_dev_xtal_fcap :: nat where "rev2_dev_xtal_fcap = 148"
definition rev2_dev_ble_name :: nat where "rev2_dev_ble_name = 149"
definition rev2_dev_section_end :: nat where "rev2_dev_section_end = 157"

lemmas dev_defs = dev_version_and_magic_def dev_crc_def dev_reserv1_def dev_reserv2_def dev_name_def
  dev_bt_addr_def dev_ble_addr_def dev_dongle_addr_def dev_xtal_fcap_def dev_data_len_def
lemmas rev2_defs = rev2_dev_data_len_def rev2_dev_crc_def rev2_dev_section_start_reserved_def
  rev2_dev_reserv2_def rev2_dev_name_def rev2_dev_bt_addr_def rev2_dev_ble_addr_def
  rev2_dev_dongle_addr_def rev2_dev_xtal_fcap_def rev2_dev_ble_name_def rev2_dev_section_end_def

record nvdev =
  nv_record_dev_rev :: nat
  dev_sector_valid :: bool
  factory :: "byte list"
  classics_bt_name :: "byte list"

text \<open>What the Bluetooth stack knows: its names, and the addresses drawn at random.\<close>

record bt_names =
  bt_local_name :: "byte list"
  bt_ble_local_name :: "byte list"
  rand_bt_addr :: "byte list"
  rand_ble_addr :: "byte list"

text \<open>Checksum of \<open>len\<close> bytes from word \<open>pos\<close> on.\<close>

definition crc_from :: "byte list \<Rightarrow> nat \<Rightarrow> nat \<Rightarrow> u32 option" where
  "crc_from m pos len = crc32 0 (drop (4 * pos) m) len"

definition nvrec_dev_data_open :: "nvdev \<Rightarrow> (bool \<times> nvdev) option" where
  "nvrec_dev_data_open s = do {
     vermagic \<leftarrow> get32 (factory s) dev_version_and_magic;
     if nvrec_dev_magic \<noteq> take_bit 16 vermagic \<or> unat (drop_bit 16 vermagic) > NVREC_DEV_NEWEST_REV
     then Some (False, s\<lparr>dev_sector_valid := False\<rparr>)
     else do {
       let s = s\<lparr>nv_record_dev_rev := unat (drop_bit 16 vermagic) mod 256\<rparr>;
       if nv_record_dev_rev s = NVREC_DEV_VERSION_1 then do {
         flsh_crc \<leftarrow> get32 (factory s) dev_crc;
         crc \<leftarrow> crc_from (factory s) dev_reserv1 ((dev_data_len - dev_reserv1) * 4);
         let s = (if flsh_crc = crc then s\<lparr>dev_sector_valid := True\<rparr> else s);
         Some (dev_sector_valid s, s) }
       else do {
         len \<leftarrow> get32 (factory s) rev2_dev_data_len;
         if of_nat (rev2_dev_section_start_reserved * 4) + len > of_nat SECTOR
         then Some (False, s\<lparr>dev_sector_valid := False\<rparr>)
         else do {
           flsh_crc \<leftarrow> get32 (factory s) rev2_dev_crc;
           crc \<leftarrow> crc_from (factory s) rev2_dev_section_start_reserved (unat len);
           let s = (if flsh_crc = crc then s\<lparr>dev_sector_valid := True\<rparr> else s);
           Some (dev_sector_valid s, s) } } } }"

text \<open>Copy \<open>n\<close> bytes to word \<open>pos\<close>.\<close>

definition put_bytes :: "byte list \<Rightarrow> nat \<Rightarrow> byte list \<Rightarrow> nat \<Rightarrow> byte list option" where
  "put_bytes m pos b n = memcpy m (int (4 * pos)) b 0 (int n)"

definition nvrec_dev_data_fill_xtal_fcap :: "bt_names \<Rightarrow> u32 \<Rightarrow> nvdev \<Rightarrow> byte list \<Rightarrow> byte list option" where
  "nvrec_dev_data_fill_xtal_fcap e val s m = do {
     m \<leftarrow> (if dev_sector_valid s then Some m
        else put32 m dev_version_and_magic (push_bit 16 (of_nat (nv_record_dev_rev s)) OR nvrec_dev_magic));
     if nv_record_dev_rev s = NVREC_DEV_VERSION_1 then
       (if dev_sector_valid s then do {
          m \<leftarrow> memcpy m 0 (factory s) 0 (int SECTOR);
          m \<leftarrow> put32 m dev_xtal_fcap val;
          crc \<leftarrow> crc_from m dev_reserv1 ((dev_data_len - dev_reserv1) * 4);
          put32 m dev_crc crc }
        else do {
          m \<leftarrow> put32 m dev_reserv1 0;
          m \<leftarrow> put32 m dev_reserv2 0;
          m \<leftarrow> put_bytes m dev_name (bt_local_name e) (length (bt_local_name e));
          m \<leftarrow> put_bytes m dev_bt_addr (rand_bt_addr e) BD_ADDR_SIZE;
          m \<leftarrow> put_bytes m dev_ble_addr (rand_ble_addr e) BD_ADDR_SIZE;
          m \<leftarrow> put_bytes m dev_dongle_addr (replicate BD_ADDR_SIZE 0) BD_ADDR_SIZE;
          m \<leftarrow> put32 m dev_xtal_fcap val;
          crc \<leftarrow> crc_from m dev_reserv1 ((dev_data_len - dev_reserv1) * 4);
          put32 m dev_crc crc })
     else
       (if dev_sector_valid s then do {
          m \<leftarrow> memcpy m 0 (factory s) 0 (int SECTOR);
          m \<leftarrow> put32 m rev2_dev_xtal_fcap val;
          len \<leftarrow> get32 m rev2_dev_data_len;
          crc \<leftarrow> crc_from m rev2_dev_section_start_reserved (unat len);
          put32 m rev2_dev_crc crc }
        else do {
          m \<leftarrow> put32 m rev2_dev_section_start_reserved 0;
          m \<leftarrow> put32 m rev2_dev_reserv2 0;
          m \<leftarrow> put_bytes m rev2_dev_name (bt_local_name e) (length (bt_local_name e));
          m \<leftarrow> put_bytes m rev2_dev_ble_name (bt_ble_local_name e) BLE_NAME_LEN_IN_NV;
          m \<leftarrow> put_bytes m rev2_dev_bt_addr (rand_bt_addr e) BD_ADDR_SIZE;
          m \<leftarrow> put_bytes m rev2_dev_ble_addr (rand_ble_addr e) BD_ADDR_SIZE;
          m \<leftarrow> put_bytes m rev2_dev_dongle_addr (replicate BD_ADDR_SIZE 0) BD_ADDR_SIZE;
          m \<leftarrow> put32 m rev2_dev_xtal_fcap val;
          m \<leftarrow> put32 m rev2_dev_data_len
            (of_nat ((rev2_dev_section_end - rev2_dev_section_start_reserved) * 4));
          len \<leftarrow> get32 m rev2_dev_data_len;
          crc \<leftarrow> crc_from m rev2_dev_section_start_reserved (unat len);
          put32 m rev2_dev_crc crc }) }"

text \<open>
  Erase the sector and write it; in the first layout the contents are checked. The code ignores the result of the two calls of the flash
  driver, which are supposed to succeed here.
\<close>

definition write_sector :: "byte list \<Rightarrow> nvdev \<Rightarrow> nvdev option" where
  "write_sector m s = do {
     f \<leftarrow> memcpy (factory s) 0 (replicate SECTOR 0xff) 0 (int SECTOR);
     f \<leftarrow> memcpy f 0 (map2 (AND) (take SECTOR f) m) 0 (int SECTOR);
     if nv_record_dev_rev s = NVREC_DEV_VERSION_1 then do {
       crc \<leftarrow> get32 f dev_crc;
       recrc \<leftarrow> crc_from f dev_reserv1 ((dev_data_len - dev_reserv1) * 4);
       if crc = recrc then Some (s\<lparr>factory := f\<rparr>) else None }
     else Some (s\<lparr>factory := f\<rparr>) }"

definition nvrec_dev_flash_flush :: "byte list option \<Rightarrow> nvdev \<Rightarrow> nvdev option" where
  "nvrec_dev_flash_flush mempool s = (case mempool of None \<Rightarrow> Some s | Some m \<Rightarrow> write_sector m s)"

definition nvrec_dev_set_xtal_fcap :: "bt_names \<Rightarrow> u32 \<Rightarrow> nvdev \<Rightarrow> syspool \<Rightarrow> (nvdev \<times> syspool) option" where
  "nvrec_dev_set_xtal_fcap e xtal_fcap s p = do {
     let p = syspool_init p;
     (off, _, p) \<leftarrow> syspool_get_buff SECTOR p;
     m \<leftarrow> nvrec_dev_data_fill_xtal_fcap e xtal_fcap s (take SECTOR (drop off (syspool_mem p)));
     s \<leftarrow> write_sector m s;
     Some (s, p\<lparr>syspool_mem := blit (syspool_mem p) off m\<rparr>) }"

section \<open>Reading the sector\<close>

text \<open>The result code, and what is stored through the pointer if anything is.\<close>

definition nvrec_dev_get_xtal_fcap :: "bool \<Rightarrow> nvdev \<Rightarrow> (int \<times> u32 option) option" where
  "nvrec_dev_get_xtal_fcap ptr s =
     (let pos = (if nv_record_dev_rev s = NVREC_DEV_VERSION_1 then dev_xtal_fcap else rev2_dev_xtal_fcap) in
      if \<not> dev_sector_valid s \<or> \<not> ptr then Some (-1, None)
      else do { v \<leftarrow> get32 (factory s) pos; Some (0, Some v) })"

definition read_addr :: "nvdev \<Rightarrow> nat \<Rightarrow> byte list option" where
  "read_addr s pos = memcpy (replicate BD_ADDR_SIZE 0) 0 (factory s) (int (4 * pos)) (int BD_ADDR_SIZE)"

definition nvrec_dev_get_dongleaddr :: "bool \<Rightarrow> nvdev \<Rightarrow> (int \<times> byte list option) option" where
  "nvrec_dev_get_dongleaddr ptr s =
     (let pos = (if nv_record_dev_rev s = NVREC_DEV_VERSION_1 then dev_dongle_addr else rev2_dev_dongle_addr) in
      if \<not> dev_sector_valid s \<or> \<not> ptr then Some (-1, None)
      else do { a \<leftarrow> read_addr s pos; Some (0, Some a) })"

definition nvrec_dev_get_btaddr :: "bool \<Rightarrow> nvdev \<Rightarrow> (int \<times> byte list option) option" where
  "nvrec_dev_get_btaddr ptr s =
     (let pos = (if nv_record_dev_rev s = NVREC_DEV_VERSION_1 then dev_bt_addr else rev2_dev_bt_addr) in
      if \<not> dev_sector_valid s \<or> \<not> ptr then Some (0, None)
      else do { a \<leftarrow> read_addr s pos; Some (1, Some a) })"

definition nvrec_dev_force_get_btaddress :: "nvdev \<Rightarrow> (int \<times> byte list) option" where
  "nvrec_dev_force_get_btaddress s = do { a \<leftarrow> read_addr s dev_bt_addr; Some (0, a) }"

text \<open>The word the BLE name starts at; \<open>None\<close> inside is the default name.\<close>

definition nvrec_dev_get_ble_name :: "nvdev \<Rightarrow> nat option" where
  "nvrec_dev_get_ble_name s = (if nv_record_dev_rev s = NVREC_DEV_VERSION_1 \<or> \<not> dev_sector_valid s
     then None else Some rev2_dev_ble_name)"

text \<open>
  Both addresses, and the words the names start at; the caller's own names stay where the
  sector has none.
\<close>

record dev_addr_name =
  btd_addr :: "byte list"
  ble_addr :: "byte list"
  localname :: "nat option"
  ble_name :: "nat option"

text \<open>
  The name is copied to \<open>classics_bt_name\<close>, an array of 27 bytes. With no terminator behind the
  name \<open>strlen\<close> reads past the flash.
\<close>

definition set_local_name :: "nat \<Rightarrow> nvdev \<Rightarrow> nvdev option" where
  "set_local_name pos s = (let m = drop (4 * pos) (factory s); name = takeWhile (\<lambda>b. b \<noteq> 0) m in
     if length name = length m then None else do {
       n \<leftarrow> memcpy (classics_bt_name s) 0 name 0 (int (length name));
       Some (s\<lparr>classics_bt_name := n\<rparr>) })"

definition nvrec_dev_localname_addr_init :: "nvdev \<Rightarrow> dev_addr_name \<Rightarrow> (bool \<times> dev_addr_name \<times> nvdev) option" where
  "nvrec_dev_localname_addr_init s d =
     (if dev_sector_valid s then
        (if nv_record_dev_rev s = NVREC_DEV_VERSION_1 then do {
           a \<leftarrow> read_addr s dev_bt_addr;
           b \<leftarrow> read_addr s dev_ble_addr;
           s \<leftarrow> set_local_name dev_name s;
           Some (True, d\<lparr>btd_addr := a, ble_addr := b, localname := Some dev_name\<rparr>, s) }
         else do {
           a \<leftarrow> read_addr s rev2_dev_bt_addr;
           b \<leftarrow> read_addr s rev2_dev_ble_addr;
           s \<leftarrow> set_local_name rev2_dev_name s;
           Some (True, d\<lparr>btd_addr := a, ble_addr := b, localname := Some rev2_dev_name,
             ble_name := Some rev2_dev_ble_name\<rparr>, s) })
      else Some (False, d, s))"

definition nvrec_dev_get_bt_name :: "nvdev \<Rightarrow> byte list" where
  "nvrec_dev_get_bt_name s = classics_bt_name s"

section \<open>Sound sectors\<close>

definition xtal_pos :: "nat \<Rightarrow> nat" where
  "xtal_pos rv = (if rv = NVREC_DEV_VERSION_1 then dev_xtal_fcap else rev2_dev_xtal_fcap)"

definition version_ok :: "nat \<Rightarrow> byte list \<Rightarrow> bool" where
  "version_ok rv m \<longleftrightarrow> rv \<le> NVREC_DEV_NEWEST_REV \<and> (\<exists>w. get32 m dev_version_and_magic = Some w \<and>
     take_bit 16 w = nvrec_dev_magic \<and> unat (drop_bit 16 w) = rv)"

definition sealed :: "nat \<Rightarrow> byte list \<Rightarrow> bool" where
  "sealed rv m \<longleftrightarrow> (if rv = NVREC_DEV_VERSION_1
     then get32 m dev_crc = crc_from m dev_reserv1 ((dev_data_len - dev_reserv1) * 4)
     else \<exists>len. get32 m rev2_dev_data_len = Some len \<and> 308 + unat len \<le> SECTOR \<and>
       get32 m rev2_dev_crc = crc_from m rev2_dev_section_start_reserved (unat len))"

definition sector_ok :: "nat \<Rightarrow> byte list \<Rightarrow> bool" where
  "sector_ok rv m \<longleftrightarrow> length m = SECTOR \<and> version_ok rv m \<and> sealed rv m"

lemma get32_append: "4 * i + 4 \<le> length m \<Longrightarrow> get32 (m @ r) i = get32 m i"
  by (simp add: get32_def)

lemma crc_from_append: "4 * pos + len \<le> length m \<Longrightarrow> crc_from (m @ r) pos len = crc_from m pos len"
  by (simp add: crc_from_def crc32_eq)

lemma crc_from_total: "4 * pos + len \<le> length m \<Longrightarrow> \<exists>c. crc_from m pos len = Some c"
  by (simp add: crc_from_def crc32_eq)

lemma crc_from_blit: "4 * i + 4 \<le> 4 * pos \<Longrightarrow> 4 * i + 4 \<le> length m \<Longrightarrow>
    crc_from (blit m (4 * i) (u32_bytes w)) pos len = crc_from m pos len"
  by (simp add: crc_from_def drop_blit)

lemma get32_blit_other:
  assumes "i + length ys \<le> length m" "4 * j + 4 \<le> i \<or> i + length ys \<le> 4 * j"
  shows "get32 (blit m i ys) j = get32 m j"
proof -
  have "take 4 (drop (4 * j) (blit m i ys)) = take 4 (drop (4 * j) m)" if "4 * j + 4 \<le> length m"
    by (rule nth_equalityI) (use assms that in \<open>auto simp: nth_blit\<close>)
  then show ?thesis using assms by (simp add: get32_def)
qed

lemma put_bytes_eq: "put_bytes m pos b n =
    (if 4 * pos + n \<le> length m \<and> n \<le> length b then Some (blit m (4 * pos) (take n b)) else None)"
  unfolding put_bytes_def by (rule memcpy_0(1))

lemma unat_le_iff_308: "(of_nat 308 + len > (of_nat SECTOR :: u32)) = (308 + unat len > SECTOR)" if "unat len < 2 ^ 32 - 308"
proof -
  have "unat (of_nat 308 + len) = 308 + unat len"
    using that by (simp add: unat_word_ariths)
  then show ?thesis by (simp add: word_less_nat_alt)
qed

lemma open_sector:
  assumes "sector_ok rv m" "factory s = m @ r"
  shows "nvrec_dev_data_open s = Some (True, s\<lparr>nv_record_dev_rev := rv, dev_sector_valid := True\<rparr>)"
proof -
  obtain w where w: "get32 m 0 = Some w" "take_bit 16 w = nvrec_dev_magic" "unat (drop_bit 16 w) = rv" "rv \<le> 2" "length m = 4096"
    using assms(1) by (auto simp: sector_ok_def version_ok_def dev_defs)
  have g: "get32 (factory s) i = get32 m i" if "i < 1024" for i
    using that w(5) by (simp add: assms(2) get32_append)
  have c: "crc_from (factory s) pos len = crc_from m pos len" if "4 * pos + len \<le> 4096" for pos len
    using that w(5) by (simp add: assms(2) crc_from_append)
  show ?thesis
  proof (cases "rv = 1")
    case True
    obtain x where "crc_from m 2 288 = Some x" using crc_from_total [of 2 288 m] w(5) by auto
    then show ?thesis using True assms(1) w
      by (simp add: nvrec_dev_data_open_def g c Let_def dev_defs sector_ok_def sealed_def)
  next
    case False
    then obtain len where len: "get32 m 75 = Some len" "308 + unat len \<le> 4096" "get32 m 76 = crc_from m 77 (unat len)"
      using assms(1) by (auto simp: sector_ok_def sealed_def rev2_defs)
    obtain x where "crc_from m 77 (unat len) = Some x" using crc_from_total [of 77 "unat len" m] w(5) len(2) by auto
    moreover have "\<not> of_nat (77 * 4) + len > (of_nat SECTOR :: u32)"
      using unat_le_iff_308 [of len] len(2) by simp
    ultimately show ?thesis using False len w
      by (simp add: nvrec_dev_data_open_def g c Let_def dev_version_and_magic_def rev2_defs)
  qed
qed

text \<open>The checksum word can be written last: it lies in front of what it protects.\<close>

lemma seal1:
  assumes "length m = SECTOR" "version_ok 1 m"
  shows "\<exists>c. crc_from m dev_reserv1 ((dev_data_len - dev_reserv1) * 4) = Some c \<and>
    put32 m dev_crc c = Some (blit m (4 * dev_crc) (u32_bytes c)) \<and> sector_ok 1 (blit m (4 * dev_crc) (u32_bytes c))"
proof -
  obtain c where "crc_from m 2 288 = Some c" using crc_from_total [of 2 288 m] assms(1) by auto
  moreover then have "crc_from (blit m 4 (u32_bytes c)) 2 288 = Some c"
    using crc_from_blit [of 1 2 m c 288] assms(1) by simp
  ultimately show ?thesis
    using assms get32_blit [of 1 m c]
    by (auto simp: sector_ok_def sealed_def version_ok_def dev_defs put32_def)
qed

lemma seal2:
  assumes "length m = SECTOR" "version_ok rv m" "rv \<noteq> 1" "get32 m rev2_dev_data_len = Some len" "308 + unat len \<le> SECTOR"
  shows "\<exists>c. crc_from m rev2_dev_section_start_reserved (unat len) = Some c \<and>
    put32 m rev2_dev_crc c = Some (blit m (4 * rev2_dev_crc) (u32_bytes c)) \<and>
    sector_ok rv (blit m (4 * rev2_dev_crc) (u32_bytes c))"
proof -
  obtain c where "crc_from m 77 (unat len) = Some c" using crc_from_total [of 77 "unat len" m] assms(1,5) by auto
  moreover then have "crc_from (blit m 304 (u32_bytes c)) 77 (unat len) = Some c"
    using crc_from_blit [of 76 77 m c "unat len"] assms(1) by simp
  ultimately show ?thesis
    using assms get32_blit [of 76 m c]
    by (auto simp: sector_ok_def sealed_def version_ok_def dev_version_and_magic_def rev2_defs put32_def)
qed

definition names_ok :: "bt_names \<Rightarrow> bool" where
  "names_ok e \<longleftrightarrow> length (bt_local_name e) \<le> 248 \<and> BLE_NAME_LEN_IN_NV \<le> length (bt_ble_local_name e) \<and>
     BD_ADDR_SIZE \<le> length (rand_bt_addr e) \<and> BD_ADDR_SIZE \<le> length (rand_ble_addr e)"

lemma version_word:
  assumes "rv \<le> 2"
  shows "take_bit 16 (push_bit 16 (of_nat rv) OR nvrec_dev_magic) = nvrec_dev_magic"
    "unat (drop_bit 16 (push_bit 16 (of_nat rv) OR nvrec_dev_magic)) = rv"
proof -
  have "rv = 0 \<or> rv = 1 \<or> rv = 2" using assms by auto
  then show "take_bit 16 (push_bit 16 (of_nat rv) OR nvrec_dev_magic) = nvrec_dev_magic"
    "unat (drop_bit 16 (push_bit 16 (of_nat rv) OR nvrec_dev_magic)) = rv"
    by (auto simp: nvrec_dev_magic_def)
qed

text \<open>Rewriting a sound sector changes the trim and the checksum only.\<close>

lemma fill_valid:
  assumes "sector_ok rv m" "factory s = m @ r" "dev_sector_valid s" "nv_record_dev_rev s = rv" "length m0 = SECTOR"
  shows "\<exists>m'. nvrec_dev_data_fill_xtal_fcap e val s m0 = Some m' \<and> sector_ok rv m' \<and>
    get32 m' (xtal_pos rv) = Some val \<and>
    (\<forall>j. j \<noteq> xtal_pos rv \<and> j \<noteq> (if rv = NVREC_DEV_VERSION_1 then dev_crc else rev2_dev_crc) \<longrightarrow> get32 m' j = get32 m j)"
proof -
  have l: "length m = 4096" and v: "version_ok rv m" using assms(1) by (simp_all add: sector_ok_def)
  have cp: "memcpy m0 0 (factory s) 0 4096 = Some m"
    using memcpy_0(1) [of m0 0 "factory s" SECTOR] l assms(2,5) by (simp add: blit_def)
  define m1 where "m1 = blit m (4 * xtal_pos rv) (u32_bytes val)"
  have x: "4 * xtal_pos rv + 4 \<le> 4096" "xtal_pos rv \<noteq> 0" "xtal_pos rv \<noteq> 75" "xtal_pos rv \<noteq> 76" "xtal_pos rv \<noteq> 1"
    by (simp_all add: xtal_pos_def dev_defs rev2_defs)
  have p: "put32 m (xtal_pos rv) val = Some m1" using x l by (simp add: put32_def m1_def)
  have g: "get32 m1 j = (if j = xtal_pos rv then Some val else get32 m j)" for j
    using get32_blit [of "xtal_pos rv" m val j] x l by (simp add: m1_def)
  have l1: "length m1 = 4096" using x l by (simp add: m1_def)
  have v1: "version_ok rv m1" using v x by (simp add: version_ok_def g dev_version_and_magic_def)
  show ?thesis
  proof (cases "rv = 1")
    case True
    obtain c where c: "crc_from m1 dev_reserv1 ((dev_data_len - dev_reserv1) * 4) = Some c"
      "put32 m1 dev_crc c = Some (blit m1 (4 * dev_crc) (u32_bytes c))" "sector_ok 1 (blit m1 (4 * dev_crc) (u32_bytes c))"
      using seal1 [OF l1] v1 True by auto
    have "xtal_pos rv = dev_xtal_fcap" using True by (simp add: xtal_pos_def)
    then have "nvrec_dev_data_fill_xtal_fcap e val s m0 = Some (blit m1 (4 * dev_crc) (u32_bytes c))"
      using True assms(3,4) p by (simp add: nvrec_dev_data_fill_xtal_fcap_def cp c(1,2))
    then show ?thesis using True c(3) g x(5) get32_blit [of 1 m1 c] l1 by (simp add: dev_crc_def)
  next
    case False
    obtain len where len: "get32 m rev2_dev_data_len = Some len" "308 + unat len \<le> SECTOR"
      using assms(1) False by (auto simp: sector_ok_def sealed_def)
    have len1: "get32 m1 rev2_dev_data_len = Some len" using len(1) x by (simp add: g rev2_dev_data_len_def)
    obtain c where c: "crc_from m1 rev2_dev_section_start_reserved (unat len) = Some c"
      "put32 m1 rev2_dev_crc c = Some (blit m1 (4 * rev2_dev_crc) (u32_bytes c))"
      "sector_ok rv (blit m1 (4 * rev2_dev_crc) (u32_bytes c))"
      using seal2 [OF l1 v1 False len1 len(2)] by blast
    have "xtal_pos rv = rev2_dev_xtal_fcap" using False by (simp add: xtal_pos_def)
    then have "nvrec_dev_data_fill_xtal_fcap e val s m0 = Some (blit m1 (4 * rev2_dev_crc) (u32_bytes c))"
      using False assms(3,4) p by (simp add: nvrec_dev_data_fill_xtal_fcap_def cp c(1,2) len1)
    then show ?thesis using False c(3) g x(4) get32_blit [of 76 m1 c] l1 by (simp add: rev2_dev_crc_def)
  qed
qed

text \<open>Without a sound sector a new one is made, with the names and fresh addresses.\<close>

lemma fill_fresh:
  assumes "names_ok e" "\<not> dev_sector_valid s" "nv_record_dev_rev s = rv" "rv \<le> 2" "length m0 = SECTOR"
  shows "\<exists>m'. nvrec_dev_data_fill_xtal_fcap e val s m0 = Some m' \<and> sector_ok rv m' \<and> get32 m' (xtal_pos rv) = Some val"
proof -
  define w :: u32 where "w = push_bit 16 (of_nat rv) OR nvrec_dev_magic"
  define b where "b i ys m = blit m i ys" for i and ys m :: "byte list"
  have lb [simp]: "length (b i ys m) = length m" if "i + length ys \<le> length m" for i ys m
    using that by (simp add: b_def)
  have put [simp]: "put32 m i v = Some (b (4 * i) (u32_bytes v) m)" if "4 * i + 4 \<le> length m" for m i v
    using that by (simp add: put32_def b_def)
  have pb [simp]: "put_bytes m pos ys n = Some (b (4 * pos) (take n ys) m)" if "4 * pos + n \<le> length m" "n \<le> length ys" for m pos ys n
    using that by (simp add: put_bytes_eq b_def)
  have g [simp]: "get32 (b i ys m) j = get32 m j" if "i + length ys \<le> length m" "4 * j + 4 \<le> i \<or> i + length ys \<le> 4 * j" for i ys m j
    using get32_blit_other [OF that] by (simp add: b_def)
  have gs [simp]: "get32 (b i (u32_bytes v) m) j = Some v" if "i + 4 \<le> length m" "i = 4 * j" for i m v j
    using get32_blit [of j m v j] that by (simp add: b_def)
  have n: "length (bt_local_name e) \<le> 248" "32 \<le> length (bt_ble_local_name e)" "6 \<le> length (rand_bt_addr e)" "6 \<le> length (rand_ble_addr e)"
    using assms(1) by (simp_all add: names_ok_def)
  define m1 where "m1 = b 0 (u32_bytes w) m0"
  have m1: "put32 m0 dev_version_and_magic w = Some m1" "length m1 = 4096" "get32 m1 0 = Some w"
    using assms(5) by (simp_all add: m1_def dev_version_and_magic_def)
  have vok: "version_ok rv m" if "get32 m 0 = Some w" for m
    using that version_word [OF assms(4)] assms(4) by (simp add: version_ok_def dev_version_and_magic_def w_def)
  show ?thesis
  proof (cases "rv = 1")
    case True
    define m2 where "m2 = b (4 * 73) (u32_bytes val) (b (4 * 71) (replicate 6 0) (b (4 * 69) (take 6 (rand_ble_addr e))
      (b (4 * 67) (take 6 (rand_bt_addr e)) (b (4 * 4) (bt_local_name e) (b (4 * 3) (u32_bytes 0) (b (4 * 2) (u32_bytes 0) m1))))))"
    have m2: "length m2 = 4096" "get32 m2 0 = Some w" "get32 m2 73 = Some val"
      using n m1(2,3) by (simp_all add: m2_def)
    obtain c where c: "crc_from m2 dev_reserv1 ((dev_data_len - dev_reserv1) * 4) = Some c"
      "put32 m2 dev_crc c = Some (blit m2 (4 * dev_crc) (u32_bytes c))" "sector_ok 1 (blit m2 (4 * dev_crc) (u32_bytes c))"
      using seal1 [OF m2(1)] vok [OF m2(2)] True by auto
    have "put32 m0 0 (65536 OR nvrec_dev_magic) = Some m1"
      using m1(1) True by (simp add: w_def dev_version_and_magic_def)
    then have "nvrec_dev_data_fill_xtal_fcap e val s m0 = put32 m2 dev_crc c"
      using True assms(2,3) m1(2) n c(1)
      by (simp add: nvrec_dev_data_fill_xtal_fcap_def w_def [symmetric] dev_defs m2_def)
    then show ?thesis using True c m2(1,3) get32_blit [of 1 m2 c] by (simp add: xtal_pos_def dev_defs)
  next
    case False
    define m2 where "m2 = b (4 * 75) (u32_bytes 320) (b (4 * 148) (u32_bytes val) (b (4 * 146) (replicate 6 0) (b (4 * 144) (take 6 (rand_ble_addr e))
      (b (4 * 142) (take 6 (rand_bt_addr e)) (b (4 * 149) (take 32 (bt_ble_local_name e)) (b (4 * 79) (bt_local_name e) (b (4 * 78) (u32_bytes 0) (b (4 * 77) (u32_bytes 0) m1))))))))"
    have m2: "length m2 = 4096" "get32 m2 0 = Some w" "get32 m2 148 = Some val" "get32 m2 75 = Some 320"
      using n m1(2,3) by (simp_all add: m2_def)
    obtain c where c: "crc_from m2 rev2_dev_section_start_reserved (unat (320 :: u32)) = Some c"
      "put32 m2 rev2_dev_crc c = Some (blit m2 (4 * rev2_dev_crc) (u32_bytes c))" "sector_ok rv (blit m2 (4 * rev2_dev_crc) (u32_bytes c))"
      using seal2 [OF m2(1) vok [OF m2(2)] False, of 320] m2(4) by (auto simp: rev2_dev_data_len_def)
    have "nvrec_dev_data_fill_xtal_fcap e val s m0 = put32 m2 rev2_dev_crc c"
      using False assms(2,3) m1(1,2) n c(1) m2(4)
      by (simp add: nvrec_dev_data_fill_xtal_fcap_def w_def [symmetric] rev2_defs m2_def)
    then show ?thesis using False c m2(1,3) get32_blit [of 76 m2 c] by (simp add: xtal_pos_def rev2_defs)
  qed
qed

text \<open>A sector that is found valid is sound.\<close>

lemma wrap_308: "2 ^ 32 - 308 \<le> unat len \<Longrightarrow> \<not> of_nat 308 + len > (of_nat SECTOR :: u32)"
proof -
  assume "2 ^ 32 - 308 \<le> unat len"
  moreover have "unat len < 2 ^ 32" using unsigned_less [of len] by simp
  ultimately have "unat (of_nat 308 + len) < 308"
    by (simp add: unat_word_ariths mod_if) arith
  then show ?thesis by (simp add: word_less_nat_alt)
qed

lemma open_cases:
  assumes "nvrec_dev_data_open s = Some (v, s1)" "\<not> dev_sector_valid s" "nv_record_dev_rev s \<le> 2"
    and len: "SECTOR \<le> length (factory s)" "length (factory s) < 2 ^ 31"
  shows "factory s1 = factory s \<and> dev_sector_valid s1 = v \<and> nv_record_dev_rev s1 \<le> 2 \<and>
    (v \<longrightarrow> sector_ok (nv_record_dev_rev s1) (take SECTOR (factory s)))"
proof -
  define m where "m = take SECTOR (factory s)"
  have m: "factory s = m @ drop SECTOR (factory s)" "length m = 4096" using len by (simp_all add: m_def)
  have g: "get32 (factory s) i = get32 m i" if "i < 1024" for i
    using that get32_append [of i m "drop SECTOR (factory s)"] m by simp
  have c: "crc_from (factory s) pos n = crc_from m pos n" if "4 * pos + n \<le> 4096" for pos n
    using that crc_from_append [of pos n m "drop SECTOR (factory s)"] m by simp
  obtain w where w: "get32 m 0 = Some w" using m(2) by (simp add: get32_def)
  show ?thesis
  proof (cases "nvrec_dev_magic \<noteq> take_bit 16 w \<or> unat (drop_bit 16 w) > 2")
    case True
    then show ?thesis using assms(1,3) w g [of 0] by (simp add: nvrec_dev_data_open_def dev_version_and_magic_def) auto
  next
    case ok: False
    define rv where "rv = unat (drop_bit 16 w)"
    have rv: "rv \<le> 2" "version_ok rv m" using ok w by (simp_all add: rv_def version_ok_def dev_version_and_magic_def)
    show ?thesis
    proof (cases "rv = 1")
      case True
      obtain x where x: "crc_from m 2 288 = Some x" using crc_from_total [of 2 288 m] m(2) by auto
      obtain y where y: "get32 m 1 = Some y" using m(2) by (simp add: get32_def)
      have "nvrec_dev_data_open s = Some (y = x, s\<lparr>nv_record_dev_rev := 1, dev_sector_valid := (y = x)\<rparr>)"
        using ok w g [of 0] g [of 1] c [of 2 288] True x y assms(2)
        by (simp add: nvrec_dev_data_open_def dev_defs rv_def Let_def)
      then show ?thesis using assms(1) True rv(2) m(2) x y
        by (auto simp: m_def [symmetric] sector_ok_def sealed_def dev_defs)
    next
      case False
      obtain n where n: "get32 m 75 = Some n" using m(2) by (simp add: get32_def)
      obtain y where y: "get32 m 76 = Some y" using m(2) by (simp add: get32_def)
      define s2 where "s2 = s\<lparr>nv_record_dev_rev := rv\<rparr>"
      have o: "nvrec_dev_data_open s = (if of_nat 308 + n > (of_nat SECTOR :: u32) then Some (False, s2\<lparr>dev_sector_valid := False\<rparr>)
          else do { crc \<leftarrow> crc_from (factory s) 77 (unat n);
            Some (y = crc, s2\<lparr>dev_sector_valid := (y = crc)\<rparr>) })"
        using ok w g [of 0] g [of 75] g [of 76] False n y assms(2) rv(1)
        by (cases "crc_from (factory s) 77 (unat n)")
          (auto simp: nvrec_dev_data_open_def dev_version_and_magic_def rev2_defs rv_def [symmetric] Let_def s2_def)
      show ?thesis
      proof (cases "of_nat 308 + n > (of_nat SECTOR :: u32)")
        case True
        then show ?thesis using o assms(1) rv(1) by (auto simp: s2_def)
      next
        case fits: False
        then obtain x where x: "crc_from (factory s) 77 (unat n) = Some x" "v = (y = x)" "s1 = s2\<lparr>dev_sector_valid := (y = x)\<rparr>"
          using o assms(1) by (cases "crc_from (factory s) 77 (unat n)") auto
        have "unat n < 2 ^ 31" using x(1) len(2) by (auto simp: crc_from_def crc32_eq split: if_splits)
        then have "308 + unat n \<le> 4096" using fits unat_le_iff_308 [of n] by simp
        then show ?thesis using x rv m(2) n y c [of 77 "unat n"] False
          by (auto simp: m_def [symmetric] sector_ok_def sealed_def rev2_defs s2_def)
      qed
    qed
  qed
qed

lemma write_sector_ok:
  assumes "sector_ok (nv_record_dev_rev s) m" "SECTOR \<le> length (factory s)"
  shows "write_sector m s = Some (s\<lparr>factory := m @ drop SECTOR (factory s)\<rparr>)"
proof -
  have l: "length m = 4096" using assms(1) by (simp add: sector_ok_def)
  have "(255 :: byte) = - 1" by simp
  then have "255 AND x = x" for x :: byte by (simp only: and.left_neutral)
  then have "map2 (AND) (replicate SECTOR 255) m = m"
    using l by (intro nth_equalityI) simp_all
  moreover have "\<exists>c. crc_from m 2 288 = Some c" using crc_from_total [of 2 288 m] l by simp
  moreover have "nv_record_dev_rev s = 1 \<longrightarrow> get32 m 1 = crc_from m 2 288"
    using assms(1) by (auto simp: sector_ok_def sealed_def dev_defs)
  ultimately show ?thesis
    using assms(2) l memcpy_0(1) [of "factory s" 0 "replicate SECTOR 255" SECTOR]
      memcpy_0(1) [of "replicate SECTOR 255 @ drop SECTOR (factory s)" 0 m SECTOR]
      get32_append [of 1 m "drop SECTOR (factory s)"] crc_from_append [of 2 288 m "drop SECTOR (factory s)"]
    by (auto simp: write_sector_def blit_def dev_defs)
qed

section \<open>Properties\<close>

text \<open>
  C25. Setting the crystal trim: after a start, whatever the factory sector held, the trim is stored so
  that the next start finds a valid sector and reads the same trim back. When the sector was
  valid every other word of it is kept; when it was not a new one is made. The rest of the
  flash is untouched.
\<close>

theorem nvrec_dev_xtal_roundtrip:
  assumes "nvrec_dev_data_open s = Some (v, s1)" "\<not> dev_sector_valid s" "nv_record_dev_rev s = NVREC_DEV_NEWEST_REV"
    and "SECTOR \<le> length (factory s)" "length (factory s) < 2 ^ 31" "names_ok e"
    and "SECTOR \<le> length (syspool_mem p)" "length (syspool_mem p) < 2 ^ 31"
  shows "\<exists>s2 p2. nvrec_dev_set_xtal_fcap e val s1 p = Some (s2, p2) \<and>
    drop SECTOR (factory s2) = drop SECTOR (factory s) \<and>
    (\<forall>t. factory t = factory s2 \<longrightarrow> (\<exists>t'. nvrec_dev_data_open t = Some (True, t') \<and>
      nvrec_dev_get_xtal_fcap True t' = Some (0, Some val) \<and>
      (v \<longrightarrow> nv_record_dev_rev t' = nv_record_dev_rev s1 \<and>
        (\<forall>j<1024. j \<notin> {xtal_pos (nv_record_dev_rev s1), dev_crc, rev2_dev_crc} \<longrightarrow> get32 (factory t') j = get32 (factory s) j))))"
proof -
  define rv where "rv = nv_record_dev_rev s1"
  have o: "factory s1 = factory s" "dev_sector_valid s1 = v" "rv \<le> 2" "v \<longrightarrow> sector_ok rv (take SECTOR (factory s))"
    using open_cases [OF assms(1,2) _ assms(4,5)] assms(3) by (simp_all add: rv_def)
  define m0 :: "byte list" where "m0 = replicate SECTOR 0"
  have "\<exists>m. nvrec_dev_data_fill_xtal_fcap e val s1 m0 = Some m \<and> sector_ok rv m \<and> get32 m (xtal_pos rv) = Some val \<and>
      (v \<longrightarrow> (\<forall>j<1024. j \<notin> {xtal_pos rv, dev_crc, rev2_dev_crc} \<longrightarrow> get32 m j = get32 (factory s) j))"
  proof (cases v)
    case True
    have f: "factory s1 = take SECTOR (factory s) @ drop SECTOR (factory s)" using o(1) by simp
    obtain m where m: "nvrec_dev_data_fill_xtal_fcap e val s1 m0 = Some m" "sector_ok rv m" "get32 m (xtal_pos rv) = Some val"
      "\<forall>j. j \<noteq> xtal_pos rv \<and> j \<noteq> (if rv = NVREC_DEV_VERSION_1 then dev_crc else rev2_dev_crc) \<longrightarrow>
        get32 m j = get32 (take SECTOR (factory s)) j"
      using fill_valid [OF o(4) [rule_format, OF True] f o(2) [THEN iffD2, OF True] rv_def [symmetric], of m0 e val]
      unfolding m0_def length_replicate by blast
    have "get32 (factory s) j = get32 (take SECTOR (factory s)) j" if "j < 1024" for j
      using that get32_append [of j "take SECTOR (factory s)" "drop SECTOR (factory s)"] assms(4) by simp
    then show ?thesis using m by auto
  next
    case False
    then show ?thesis using fill_fresh [OF assms(6), of s1 rv m0 val] o by (simp add: rv_def m0_def)
  qed
  then obtain m where m: "nvrec_dev_data_fill_xtal_fcap e val s1 m0 = Some m" "sector_ok rv m" "get32 m (xtal_pos rv) = Some val"
    "v \<Longrightarrow> \<forall>j<1024. j \<notin> {xtal_pos rv, dev_crc, rev2_dev_crc} \<longrightarrow> get32 m j = get32 (factory s) j" by blast
  have lm: "length m = 4096" using m(2) by (simp add: sector_ok_def)
  define s2 where "s2 = s1\<lparr>factory := m @ drop SECTOR (factory s)\<rparr>"
  have "\<exists>n p'. syspool_get_buff SECTOR (syspool_init p) = Some (0, n, p') \<and> syspool_mem p' = replicate (length (syspool_mem p)) 0"
    using assms(7,8) by (simp add: syspool_get_buff_def syspool_init_def syspool_init_addr_def Let_def
        syspool_free_size_def to_s32_id to_u32_id)
  then obtain n p' where p': "syspool_get_buff SECTOR (syspool_init p) = Some (0, n, p')"
    "take SECTOR (drop 0 (syspool_mem p')) = m0"
    using assms(7) by (auto simp: m0_def)
  have "\<exists>p2. nvrec_dev_set_xtal_fcap e val s1 p = Some (s2, p2)"
    using p' m(1,2) write_sector_ok [of s1 m] o(1) assms(4)
    by (simp add: nvrec_dev_set_xtal_fcap_def s2_def rv_def)
  moreover have "drop SECTOR (factory s2) = drop SECTOR (factory s)" using lm by (simp add: s2_def)
  moreover have "\<exists>t'. nvrec_dev_data_open t = Some (True, t') \<and> nvrec_dev_get_xtal_fcap True t' = Some (0, Some val) \<and>
      (v \<longrightarrow> nv_record_dev_rev t' = rv \<and>
        (\<forall>j<1024. j \<notin> {xtal_pos rv, dev_crc, rev2_dev_crc} \<longrightarrow> get32 (factory t') j = get32 (factory s) j))"
    if t: "factory t = factory s2" for t
  proof -
    have f: "factory t = m @ drop SECTOR (factory s)" using t by (simp add: s2_def)
    have g: "get32 (factory t) j = get32 m j" if "j < 1024" for j using that get32_append [of j m] lm f by simp
    have "xtal_pos rv < 1024" by (simp add: xtal_pos_def dev_defs rev2_defs)
    then show ?thesis using open_sector [OF m(2) f] g m(3,4)
      by (simp add: nvrec_dev_get_xtal_fcap_def xtal_pos_def)
  qed
  ultimately show ?thesis unfolding rv_def by blast
qed

definition ex_names :: bt_names where
  "ex_names = \<lparr>bt_local_name = [65, 0], bt_ble_local_name = replicate BLE_NAME_LEN_IN_NV 66,
     rand_bt_addr = replicate BD_ADDR_SIZE 1, rand_ble_addr = replicate BD_ADDR_SIZE 2\<rparr>"

definition ex_dev :: "byte list \<Rightarrow> nvdev" where
  "ex_dev f = \<lparr>nv_record_dev_rev = NVREC_DEV_NEWEST_REV, dev_sector_valid = False, factory = f, classics_bt_name = replicate 27 0\<rparr>"

lemma get32_replicate: "4 * i + 4 \<le> n \<Longrightarrow> get32 (replicate n b) i = Some (bytes_u32 [b, b, b, b])"
  by (simp add: get32_def eval_nat_numeral)

lemma nvrec_dev_xtal_roundtrip_witness:
  "\<exists>s2 p2. nvrec_dev_set_xtal_fcap ex_names 140 (ex_dev (replicate SECTOR 0)) \<lparr>syspool_mem = replicate SECTOR 3,
      syspool_size = 0, syspoll_used = 0\<rparr> = Some (s2, p2) \<and>
    (\<exists>t'. nvrec_dev_data_open (ex_dev (factory s2)) = Some (True, t') \<and> nvrec_dev_get_xtal_fcap True t' = Some (0, Some 140))"
proof -
  have "nvrec_dev_data_open (ex_dev (replicate SECTOR 0)) = Some (False, ex_dev (replicate SECTOR 0))"
    by (simp add: nvrec_dev_data_open_def ex_dev_def get32_replicate dev_version_and_magic_def bytes_u32_def
        nvrec_dev_magic_def)
  then show ?thesis
    using nvrec_dev_xtal_roundtrip [of "ex_dev (replicate SECTOR 0)" False "ex_dev (replicate SECTOR 0)" ex_names
        "\<lparr>syspool_mem = replicate SECTOR 3, syspool_size = 0, syspoll_used = 0\<rparr>" 140]
    by (fastforce simp: ex_dev_def ex_names_def names_ok_def)
qed

text \<open>
  The length check of a revision 2 sector is made modulo \<open>2 ^ 32\<close>: a stored length in the last
  308 values passes it, and the checksum then runs over the end of the flash.
\<close>

theorem nvrec_dev_length_wraps:
  assumes "get32 (factory s) dev_version_and_magic = Some w" "take_bit 16 w = nvrec_dev_magic"
    and "unat (drop_bit 16 w) \<in> {0, 2}" "SECTOR \<le> length (factory s)" "length (factory s) < 2 ^ 31"
    and "get32 (factory s) rev2_dev_data_len = Some len" "2 ^ 32 - 308 \<le> unat len"
  shows "nvrec_dev_data_open s = None"
proof -
  have "crc_from (factory s) 77 (unat len) = None"
    using assms(5,7) by (simp add: crc_from_def crc32_eq)
  moreover have "\<not> of_nat (77 * 4) + len > (of_nat SECTOR :: u32)" using wrap_308 [OF assms(7)] by simp
  moreover obtain y where "get32 (factory s) 76 = Some y" using assms(4) by (simp add: get32_def)
  ultimately show ?thesis
    using assms(1-3,6) by (auto simp: nvrec_dev_data_open_def rev2_defs Let_def)
qed

lemma nvrec_dev_length_wraps_witness:
  "nvrec_dev_data_open (ex_dev (blit (blit (replicate SECTOR 0) (4 * 0) (u32_bytes 0x2ba80)) (4 * 75) (u32_bytes 0xffffffff))) = None"
proof (rule nvrec_dev_length_wraps)
  let ?f = "blit (blit (replicate SECTOR 0) (4 * 0) (u32_bytes 0x2ba80)) (4 * 75) (u32_bytes 0xffffffff)"
  show "get32 (factory (ex_dev ?f)) dev_version_and_magic = Some 0x2ba80"
    using get32_blit [of 75 "blit (replicate SECTOR 0) (4 * 0) (u32_bytes 0x2ba80)" "0xffffffff" 0]
      get32_blit [of 0 "replicate SECTOR 0" "0x2ba80" 0] by (simp add: ex_dev_def dev_version_and_magic_def)
  show "get32 (factory (ex_dev ?f)) rev2_dev_data_len = Some 0xffffffff"
    using get32_blit [of 75 "blit (replicate SECTOR 0) (4 * 0) (u32_bytes 0x2ba80)" "0xffffffff" 75]
    by (simp add: ex_dev_def rev2_dev_data_len_def)
qed (simp_all add: nvrec_dev_magic_def ex_dev_def)

text \<open>A name of more than 27 bytes, which the sector has room for, is copied over the end of the array.\<close>

lemma local_name_overflow:
  "length (classics_bt_name s) = 27 \<Longrightarrow> 27 < length (takeWhile (\<lambda>b. b \<noteq> 0) (drop (4 * pos) (factory s))) \<Longrightarrow>
   set_local_name pos s = None"
  by (simp add: set_local_name_def Let_def memcpy_def)

end
