(* ===== verification/ListExt.thy ===== *)
theory ListExt
  imports Prelude
begin

text \<open>
  \<open>services/nvrecord/list_ext.c\<close>: singly linked lists with head and tail pointers, kept in the
  memory pool of the user data (\<open>utils/list/list.c\<close> is the same module on other allocators).
  The pool is a map from addresses to typed objects; address \<open>0\<close> is the null pointer. The
  allocator is an argument: \<open>alloc m n\<close> is the address it gives for \<open>n\<close> bytes when the pool holds
  \<open>m\<close>, \<open>0\<close> if it has no room. Function pointers are numbers, \<open>0\<close> is none; \<open>call f d\<close> runs \<open>f(d)\<close>.

  \<open>None\<close> is a failing \<open>ASSERT\<close>, an access through a null or dangling pointer or to an object of
  another type, or a walk that never ends.
\<close>

section \<open>The pool and the list structures\<close>

type_synonym addr = u32

record list_node_t =
  next_node :: addr
  node_data :: addr

record list_t =
  list_head :: addr
  list_tail :: addr
  list_length :: u32
  free_cb :: nat

text \<open>An allocated block holds one object; \<open>C_raw\<close> is a block nothing was stored in yet.\<close>

datatype 'a cobj = C_raw nat | C_node list_node_t | C_list list_t | C_data 'a

type_synonym 'a cmem = "addr \<Rightarrow> 'a cobj option"
type_synonym 'a allocator = "'a cmem \<Rightarrow> nat \<Rightarrow> addr"
type_synonym 'a callback = "nat \<Rightarrow> addr \<Rightarrow> 'a cmem \<Rightarrow> 'a cmem option"

abbreviation (input) "NULL \<equiv> (0 :: addr)"

definition pool_malloc :: "'a allocator \<Rightarrow> nat \<Rightarrow> 'a cmem \<Rightarrow> addr \<times> 'a cmem" where
  "pool_malloc alloc n m = (let p = alloc m n in (p, if p = NULL then m else m(p \<mapsto> C_raw n)))"

definition pool_free :: "addr \<Rightarrow> 'a cmem \<Rightarrow> 'a cmem option" where
  "pool_free p m = (if p = NULL then Some m else do { _ \<leftarrow> m p; Some (m(p := None)) })"

text \<open>The block is cleared before the pointer is tested: no room is a write to address 0.\<close>

definition zmalloc_ext :: "'a allocator \<Rightarrow> nat \<Rightarrow> 'a cmem \<Rightarrow> (addr \<times> 'a cmem) option" where
  "zmalloc_ext alloc n m = (let (p, m) = pool_malloc alloc n m in if p = NULL then None else Some (p, m))"

definition rd_node :: "'a cmem \<Rightarrow> addr \<Rightarrow> list_node_t option" where
  "rd_node m p = (case m p of Some (C_node n) \<Rightarrow> Some n | _ \<Rightarrow> None)"

definition rd_list :: "'a cmem \<Rightarrow> addr \<Rightarrow> list_t option" where
  "rd_list m p = (case m p of Some (C_list l) \<Rightarrow> Some l | _ \<Rightarrow> None)"

definition upd_list :: "addr \<Rightarrow> (list_t \<Rightarrow> list_t) \<Rightarrow> 'a cmem \<Rightarrow> 'a cmem option" where
  "upd_list p f m = do { l \<leftarrow> rd_list m p; Some (m(p \<mapsto> C_list (f l))) }"

definition upd_node :: "addr \<Rightarrow> (list_node_t \<Rightarrow> list_node_t) \<Rightarrow> 'a cmem \<Rightarrow> 'a cmem option" where
  "upd_node p f m = do { n \<leftarrow> rd_node m p; Some (m(p \<mapsto> C_node (f n))) }"

section \<open>The operations\<close>

definition list_new_ext :: "'a allocator \<Rightarrow> nat \<Rightarrow> 'a cmem \<Rightarrow> (addr \<times> 'a cmem) option" where
  "list_new_ext alloc callback m = do {
     (p, m) \<leftarrow> zmalloc_ext alloc 16 m;
     Some (p, m(p \<mapsto> C_list \<lparr>list_head = NULL, list_tail = NULL, list_length = 0, free_cb = callback\<rparr>)) }"

definition list_is_empty_ext :: "addr \<Rightarrow> 'a cmem \<Rightarrow> bool option" where
  "list_is_empty_ext p m = do { l \<leftarrow> rd_list m p; Some (list_length l = 0) }"

definition list_length_ext :: "addr \<Rightarrow> 'a cmem \<Rightarrow> u32 option" where
  "list_length_ext p m = do { l \<leftarrow> rd_list m p; Some (list_length l) }"

definition list_front_ext :: "addr \<Rightarrow> 'a cmem \<Rightarrow> addr option" where
  "list_front_ext p m = do {
     e \<leftarrow> list_is_empty_ext p m;
     if e then None else do { l \<leftarrow> rd_list m p; n \<leftarrow> rd_node m (list_head l); Some (node_data n) } }"

definition list_back_ext :: "addr \<Rightarrow> 'a cmem \<Rightarrow> addr option" where
  "list_back_ext p m = do {
     e \<leftarrow> list_is_empty_ext p m;
     if e then None else do { l \<leftarrow> rd_list m p; n \<leftarrow> rd_node m (list_tail l); Some (node_data n) } }"

definition list_insert_after_ext ::
  "'a allocator \<Rightarrow> addr \<Rightarrow> addr \<Rightarrow> addr \<Rightarrow> 'a cmem \<Rightarrow> (bool \<times> 'a cmem) option" where
  "list_insert_after_ext alloc p prev_node data m = do {
     _ \<leftarrow> rd_list m p;
     if prev_node = NULL \<or> data = NULL then None else do {
       let (node, m) = pool_malloc alloc 8 m;
       if node = NULL then Some (False, m) else do {
         prev \<leftarrow> rd_node m prev_node;
         let m = m(node \<mapsto> C_node \<lparr>next_node = next_node prev, node_data = data\<rparr>);
         m \<leftarrow> upd_node prev_node (next_node_update (\<lambda>_. node)) m;
         l \<leftarrow> rd_list m p;
         m \<leftarrow> (if list_tail l = prev_node then upd_list p (list_tail_update (\<lambda>_. node)) m else Some m);
         m \<leftarrow> upd_list p (list_length_update (\<lambda>n. n + 1)) m;
         Some (True, m) } } }"

definition list_prepend_ext ::
  "'a allocator \<Rightarrow> addr \<Rightarrow> addr \<Rightarrow> 'a cmem \<Rightarrow> (bool \<times> 'a cmem) option" where
  "list_prepend_ext alloc p data m = do {
     _ \<leftarrow> rd_list m p;
     if data = NULL then None else do {
       (node, m) \<leftarrow> zmalloc_ext alloc 8 m;
       l \<leftarrow> rd_list m p;
       let m = m(node \<mapsto> C_node \<lparr>next_node = list_head l, node_data = data\<rparr>);
       m \<leftarrow> upd_list p (\<lambda>l. l\<lparr>list_head := node\<rparr>) m;
       m \<leftarrow> upd_list p (\<lambda>l. if list_tail l = NULL then l\<lparr>list_tail := list_head l\<rparr> else l) m;
       m \<leftarrow> upd_list p (list_length_update (\<lambda>n. n + 1)) m;
       Some (True, m) } }"

definition list_append_ext ::
  "'a allocator \<Rightarrow> addr \<Rightarrow> addr \<Rightarrow> 'a cmem \<Rightarrow> (bool \<times> 'a cmem) option" where
  "list_append_ext alloc p data m = do {
     _ \<leftarrow> rd_list m p;
     if data = NULL then None else do {
       let (node, m) = pool_malloc alloc 8 m;
       if node = NULL then Some (False, m) else do {
         let m = m(node \<mapsto> C_node \<lparr>next_node = NULL, node_data = data\<rparr>);
         l \<leftarrow> rd_list m p;
         m \<leftarrow> (if list_tail l = NULL then upd_list p (\<lambda>l. l\<lparr>list_head := node, list_tail := node\<rparr>) m
              else do {
                m \<leftarrow> upd_node (list_tail l) (next_node_update (\<lambda>_. node)) m;
                upd_list p (list_tail_update (\<lambda>_. node)) m });
         m \<leftarrow> upd_list p (list_length_update (\<lambda>n. n + 1)) m;
         Some (True, m) } } }"

definition list_free_node_ext ::
  "'a callback \<Rightarrow> addr \<Rightarrow> addr \<Rightarrow> 'a cmem \<Rightarrow> (addr \<times> 'a cmem) option" where
  "list_free_node_ext call p node m = do {
     l \<leftarrow> rd_list m p;
     n \<leftarrow> rd_node m node;
     m \<leftarrow> (if free_cb l \<noteq> 0 then call (free_cb l) (node_data n) m else Some m);
     m \<leftarrow> pool_free node m;
     m \<leftarrow> upd_list p (list_length_update (\<lambda>n. n - 1)) m;
     Some (next_node n, m) }"

text \<open>The search loop of \<open>list_remove_ext\<close>.\<close>

partial_function (option) remove_loop ::
  "'a callback \<Rightarrow> addr \<Rightarrow> addr \<Rightarrow> addr \<Rightarrow> addr \<Rightarrow> 'a cmem \<Rightarrow> (bool \<times> 'a cmem) option" where
  "remove_loop call p data prev node m = (if node = NULL then Some (False, m) else do {
     n \<leftarrow> rd_node m node;
     if node_data n = data then do {
       (nxt, m) \<leftarrow> list_free_node_ext call p node m;
       m \<leftarrow> upd_node prev (next_node_update (\<lambda>_. nxt)) m;
       m \<leftarrow> upd_list p (\<lambda>l. if list_tail l = node then l\<lparr>list_tail := prev\<rparr> else l) m;
       Some (True, m) }
     else remove_loop call p data node (next_node n) m })"

definition list_remove_ext :: "'a callback \<Rightarrow> addr \<Rightarrow> addr \<Rightarrow> 'a cmem \<Rightarrow> (bool \<times> 'a cmem) option" where
  "list_remove_ext call p data m = do {
     _ \<leftarrow> rd_list m p;
     if data = NULL then None else do {
       e \<leftarrow> list_is_empty_ext p m;
       if e then Some (False, m) else do {
         l \<leftarrow> rd_list m p;
         n \<leftarrow> rd_node m (list_head l);
         if node_data n = data then do {
           (nxt, m) \<leftarrow> list_free_node_ext call p (list_head l) m;
           m \<leftarrow> upd_list p (\<lambda>l. if list_tail l = list_head l then l\<lparr>list_tail := nxt\<rparr> else l) m;
           m \<leftarrow> upd_list p (list_head_update (\<lambda>_. nxt)) m;
           Some (True, m) }
         else remove_loop call p data (list_head l) (next_node n) m } } }"

partial_function (option) clear_loop :: "'a callback \<Rightarrow> addr \<Rightarrow> addr \<Rightarrow> 'a cmem \<Rightarrow> 'a cmem option" where
  "clear_loop call p node m = (if node = NULL then Some m else do {
     (node, m) \<leftarrow> list_free_node_ext call p node m;
     clear_loop call p node m })"

definition list_clear_ext :: "'a callback \<Rightarrow> addr \<Rightarrow> 'a cmem \<Rightarrow> 'a cmem option" where
  "list_clear_ext call p m = do {
     l \<leftarrow> rd_list m p;
     m \<leftarrow> clear_loop call p (list_head l) m;
     upd_list p (\<lambda>l. l\<lparr>list_head := NULL, list_tail := NULL, list_length := 0\<rparr>) m }"

definition list_free_ext :: "'a callback \<Rightarrow> addr \<Rightarrow> 'a cmem \<Rightarrow> 'a cmem option" where
  "list_free_ext call p m = do {
     m \<leftarrow> (if p \<noteq> NULL then list_clear_ext call p m else Some m);
     pool_free p m }"

text \<open>The result of the callback is not used; the next node is read before it runs.\<close>

partial_function (option) foreach_loop :: "(addr \<Rightarrow> 'a cmem \<Rightarrow> 'a cmem option) \<Rightarrow> addr \<Rightarrow> 'a cmem \<Rightarrow> 'a cmem option" where
  "foreach_loop callback node m = (if node = NULL then Some m else do {
     n \<leftarrow> rd_node m node;
     m \<leftarrow> callback (node_data n) m;
     foreach_loop callback (next_node n) m })"

definition list_foreach_ext :: "addr \<Rightarrow> (addr \<Rightarrow> 'a cmem \<Rightarrow> 'a cmem option) \<Rightarrow> 'a cmem \<Rightarrow> 'a cmem option" where
  "list_foreach_ext p callback m = do { l \<leftarrow> rd_list m p; foreach_loop callback (list_head l) m }"

definition list_begin_ext :: "addr \<Rightarrow> 'a cmem \<Rightarrow> addr option" where
  "list_begin_ext p m = do { l \<leftarrow> rd_list m p; Some (list_head l) }"

definition list_end_ext :: "addr \<Rightarrow> 'a cmem \<Rightarrow> addr option" where
  "list_end_ext p m = do { _ \<leftarrow> rd_list m p; Some NULL }"

definition list_next_ext :: "addr \<Rightarrow> 'a cmem \<Rightarrow> addr option" where
  "list_next_ext node m = do { n \<leftarrow> rd_node m node; Some (next_node n) }"

definition list_node_ext :: "addr \<Rightarrow> 'a cmem \<Rightarrow> addr option" where
  "list_node_ext node m = do { n \<leftarrow> rd_node m node; Some (node_data n) }"

section \<open>Chains of nodes\<close>

text \<open>From \<open>p\<close> the nodes \<open>xs\<close>, each with its data, lead to \<open>q\<close>.\<close>

abbreviation mk_node :: "addr \<Rightarrow> addr \<Rightarrow> 'a cobj" where
  "mk_node q d \<equiv> C_node \<lparr>next_node = q, node_data = d\<rparr>"

abbreviation mk_list :: "addr \<Rightarrow> addr \<Rightarrow> u32 \<Rightarrow> nat \<Rightarrow> 'a cobj" where
  "mk_list h t n cb \<equiv> C_list \<lparr>list_head = h, list_tail = t, list_length = n, free_cb = cb\<rparr>"

primrec lseg :: "'a cmem \<Rightarrow> addr \<Rightarrow> (addr \<times> addr) list \<Rightarrow> addr \<Rightarrow> bool" where
  "lseg m p [] q \<longleftrightarrow> p = q"
| "lseg m p (x # xs) q \<longleftrightarrow> p = fst x \<and> p \<noteq> NULL \<and>
     (\<exists>r. m p = Some (mk_node r (snd x)) \<and> lseg m r xs q)"

lemma rd_node_Some [simp]: "rd_node m p = Some n \<longleftrightarrow> m p = Some (C_node n)"
  by (auto simp: rd_node_def split: option.splits cobj.splits)

lemma rd_list_Some [simp]: "rd_list m p = Some l \<longleftrightarrow> m p = Some (C_list l)"
  by (auto simp: rd_list_def split: option.splits cobj.splits)

lemma rd_objI [simp]:
  "m p = Some (C_node n) \<Longrightarrow> rd_node m p = Some n"
  "m p = Some (C_list l) \<Longrightarrow> rd_list m p = Some l"
  by simp_all

lemma upd_objI [simp]:
  "m p = Some (C_node n) \<Longrightarrow> upd_node p g m = Some (m(p \<mapsto> C_node (g n)))"
  "m p = Some (C_list l) \<Longrightarrow> upd_list p f m = Some (m(p \<mapsto> C_list (f l)))"
  by (simp_all add: upd_node_def upd_list_def)

lemma lseg_append: "lseg m p (xs @ ys) q \<longleftrightarrow> (\<exists>r. lseg m p xs r \<and> lseg m r ys q)"
  by (induction xs arbitrary: p) auto

lemma lseg_cong: "(\<And>a. a \<in> fst ` set xs \<Longrightarrow> m' a = m a) \<Longrightarrow> lseg m' p xs q \<longleftrightarrow> lseg m p xs q"
  by (induction xs arbitrary: p) auto

lemma lseg_upd: "a \<notin> fst ` set xs \<Longrightarrow> lseg (m(a := v)) p xs q \<longleftrightarrow> lseg m p xs q"
  by (rule lseg_cong) auto

lemma lseg_node: "lseg m p xs q \<Longrightarrow> x \<in> set xs \<Longrightarrow> fst x \<noteq> NULL \<and> (\<exists>r. m (fst x) = Some (mk_node r (snd x)))"
  by (induction xs arbitrary: p) auto

lemma lseg_null_iff: "lseg m p xs NULL \<Longrightarrow> p = NULL \<longleftrightarrow> xs = []"
  by (cases xs) auto

text \<open>A chain ends, so it has no node twice: the nodes behind a node are determined by it.\<close>

lemma lseg_det: "lseg m p xs NULL \<Longrightarrow> lseg m p ys NULL \<Longrightarrow> xs = ys"
proof (induction xs arbitrary: p ys)
  case Nil
  then show ?case by (cases ys) auto
next
  case (Cons x xs)
  then obtain y zs where ys: "ys = y # zs" by (cases ys) auto
  from Cons.prems(1) obtain r where 1: "p = fst x" "m p = Some (mk_node r (snd x))" "lseg m r xs NULL" by auto
  from Cons.prems(2) obtain q where 2: "p = fst y" "m p = Some (mk_node q (snd y))" "lseg m q zs NULL" by (auto simp: ys)
  from 1(2) 2(2) have q: "q = r" "snd x = snd y" by simp_all
  from 1(3) 2(3) [unfolded q] have "xs = zs" by (rule Cons.IH)
  moreover have "x = y" using q(2) 1(1) 2(1) by (simp add: prod_eq_iff)
  ultimately show ?case by (simp add: ys)
qed

lemma lseg_distinct: "lseg m p xs NULL \<Longrightarrow> distinct (map fst xs)"
proof (induction xs arbitrary: p)
  case (Cons x xs)
  then obtain r where n: "p = fst x" "lseg m r xs NULL" by auto
  have "fst x \<notin> fst ` set xs"
  proof
    assume "fst x \<in> fst ` set xs"
    then obtain us y vs where s: "xs = us @ y # vs" "fst y = fst x"
      by (auto dest: split_list)
    from n(2) obtain q where "lseg m q (y # vs) NULL" unfolding s(1) lseg_append by blast
    moreover from this have "q = p" using s(2) n(1) by simp
    ultimately have "lseg m p (y # vs) NULL" by (simp only:)
    with Cons.prems have "x # xs = y # vs" by (rule lseg_det)
    then have "length xs = length vs" by simp
    with s show False by simp
  qed
  with Cons.IH [OF n(2)] show ?case by simp
qed simp

text \<open>The list object at \<open>p\<close> holds \<open>xs\<close>.\<close>

definition last_node :: "(addr \<times> addr) list \<Rightarrow> addr" where
  "last_node xs = (if xs = [] then NULL else fst (last xs))"

definition is_list :: "'a cmem \<Rightarrow> addr \<Rightarrow> (addr \<times> addr) list \<Rightarrow> nat \<Rightarrow> bool" where
  "is_list m p xs cb \<longleftrightarrow> (\<exists>h. m p = Some (mk_list h (last_node xs) (of_nat (length xs)) cb) \<and> lseg m h xs NULL)"

lemma last_node_simps [simp]: "last_node [] = NULL" "last_node (x # xs) = (if xs = [] then fst x else last_node xs)" "last_node (xs @ [x]) = fst x" "ys \<noteq> [] \<Longrightarrow> last_node (xs @ ys) = last_node ys"
  by (simp_all add: last_node_def)

lemma is_list_cong:
  "(\<And>a. a = p \<or> a \<in> fst ` set xs \<Longrightarrow> m' a = m a) \<Longrightarrow> is_list m' p xs cb \<longleftrightarrow> is_list m p xs cb"
  using lseg_cong [of xs m' m] by (simp add: is_list_def)

lemma is_list_node: "is_list m p xs cb \<Longrightarrow> x \<in> set xs \<Longrightarrow> fst x \<noteq> NULL \<and> (\<exists>r. m (fst x) = Some (mk_node r (snd x)))"
  by (auto simp: is_list_def dest: lseg_node)

lemma is_list_distinct: "is_list m p xs cb \<Longrightarrow> distinct (map fst xs)"
  by (auto simp: is_list_def lseg_distinct)

lemma is_list_neq: "is_list m p xs cb \<Longrightarrow> p \<notin> fst ` set xs"
  by (fastforce simp: is_list_def dest: lseg_node)

text \<open>Changing an object that is neither the list nor one of its nodes.\<close>

lemma is_list_upd: "a \<noteq> p \<Longrightarrow> a \<notin> fst ` set xs \<Longrightarrow> is_list (m(a := v)) p xs cb \<longleftrightarrow> is_list m p xs cb"
  by (rule is_list_cong) auto

text \<open>There are fewer than \<open>2 ^ 32\<close> nodes, so the length does not wrap.\<close>

lemma is_list_bound: "is_list m p xs cb \<Longrightarrow> length xs < 2 ^ 32"
proof -
  assume *: "is_list m p xs cb"
  have "length xs = card (set (map fst xs))"
    using distinct_card [OF is_list_distinct [OF *]] by simp
  also have "\<dots> < card (UNIV :: addr set)"
  proof (rule psubset_card_mono)
    have "0 \<notin> set (map fst xs)" using is_list_node [OF *] by fastforce
    then show "set (map fst xs) \<subset> UNIV" by blast
  qed simp
  finally show ?thesis by (simp add: card_word)
qed

lemma of_nat_u32_eq: "n < 2 ^ 32 \<Longrightarrow> k < 2 ^ 32 \<Longrightarrow> (of_nat n :: u32) = of_nat k \<longleftrightarrow> n = k"
proof
  assume "n < 2 ^ 32" "k < 2 ^ 32" "(of_nat n :: u32) = of_nat k"
  then have "unat (of_nat n :: u32) = unat (of_nat k :: u32)" by simp
  with \<open>n < 2 ^ 32\<close> \<open>k < 2 ^ 32\<close> show "n = k" by (simp add: unat_of_nat take_bit_nat_eq_self)
qed simp

lemma of_nat_length_0: "length xs < 2 ^ 32 \<Longrightarrow> (of_nat (length xs) :: u32) = 0 \<longleftrightarrow> xs = []"
  using of_nat_u32_eq [of "length xs" 0] by simp

lemma is_list_length: "is_list m p xs cb \<Longrightarrow> list_length_ext p m = Some (of_nat (length xs))"
  by (auto simp: is_list_def list_length_ext_def)

lemma is_list_empty: "is_list m p xs cb \<Longrightarrow> list_is_empty_ext p m = Some (xs = [])"
  using is_list_bound [of m p xs cb] of_nat_length_0 [of xs]
  by (auto simp: is_list_def list_is_empty_ext_def)

lemma is_list_begin: "is_list m p xs cb \<Longrightarrow> list_begin_ext p m = Some (if xs = [] then NULL else fst (hd xs))"
  by (cases xs) (auto simp: is_list_def list_begin_ext_def)

lemma is_list_front: "is_list m p (x # xs) cb \<Longrightarrow> list_front_ext p m = Some (snd x)"
  using is_list_empty [of m p "x # xs" cb]
  by (auto simp: list_front_ext_def is_list_def)

lemma is_list_back: "is_list m p (xs @ [x]) cb \<Longrightarrow> list_back_ext p m = Some (snd x)"
  using is_list_empty [of m p "xs @ [x]" cb] is_list_node [of m p "xs @ [x]" cb x]
  by (auto simp: list_back_ext_def is_list_def)

section \<open>The operations on the sequence of nodes\<close>

lemma list_new_is_list:
  assumes "alloc m 16 \<noteq> NULL"
  shows "list_new_ext alloc cb m = Some (alloc m 16, m(alloc m 16 \<mapsto> mk_list NULL NULL 0 cb))"
    and "is_list (m(alloc m 16 \<mapsto> mk_list NULL NULL 0 cb)) (alloc m 16) [] cb"
  using assms by (simp_all add: list_new_ext_def zmalloc_ext_def pool_malloc_def Let_def is_list_def)

text \<open>Appending: a new node behind the last one, nothing else changes.\<close>

lemma list_append_is_list:
  assumes l: "is_list m p xs cb" and d: "d \<noteq> NULL" and a: "alloc m 8 = a" "a \<noteq> NULL" "m a = None"
  obtains m' where "list_append_ext alloc p d m = Some (True, m')" "is_list m' p (xs @ [(a, d)]) cb"
    "\<And>b. b \<noteq> a \<Longrightarrow> b \<noteq> p \<Longrightarrow> b \<notin> fst ` set xs \<Longrightarrow> m' b = m b" "dom m' = insert a (dom m)"
proof -
  obtain h where h: "m p = Some (mk_list h (last_node xs) (of_nat (length xs)) cb)" "lseg m h xs NULL"
    using l by (auto simp: is_list_def)
  have pa: "p \<noteq> a" and ax: "a \<notin> fst ` set xs"
    using h(1) a(3) is_list_node [OF l] by fastforce+
  show ?thesis
  proof (cases "xs = []")
    case True
    define m' where "m' = m(a \<mapsto> mk_node NULL d, p \<mapsto> mk_list a a 1 cb)"
    have "list_append_ext alloc p d m = Some (True, m')"
      using True h(1) d a pa by (simp add: list_append_ext_def pool_malloc_def Let_def m'_def fun_upd_twist)
    moreover have "is_list m' p (xs @ [(a, d)]) cb"
      using True pa a by (simp add: is_list_def m'_def)
    moreover have "dom m' = insert a (dom m)" using h(1) by (auto simp: m'_def)
    moreover have "\<And>b. b \<noteq> a \<Longrightarrow> b \<noteq> p \<Longrightarrow> m' b = m b" by (simp add: m'_def)
    ultimately show ?thesis by (intro that) blast+
  next
    case False
    then obtain ys t where ys: "xs = ys @ [t]" by (metis append_butlast_last_id)
    have t: "fst t \<noteq> NULL" "m (fst t) = Some (mk_node NULL (snd t))" "fst t \<noteq> p" "fst t \<noteq> a"
      using h ax l by (auto simp: ys lseg_append is_list_def)
    have yt: "fst t \<notin> fst ` set ys" using is_list_distinct [OF l] by (auto simp: ys)
    have py: "p \<notin> fst ` set ys" using is_list_neq [OF l] by (auto simp: ys)
    define m' where "m' = m(a \<mapsto> mk_node NULL d, fst t \<mapsto> mk_node a (snd t), p \<mapsto> mk_list h a (of_nat (length xs) + 1) cb)"
    have "list_append_ext alloc p d m = Some (True, m')"
      using h(1) d a pa t
      by (simp add: list_append_ext_def pool_malloc_def Let_def m'_def ys fun_upd_twist)
    moreover have "is_list m' p (xs @ [(a, d)]) cb"
      using h(2) pa ax py yt t(1,3,4) a(2)
      by (auto simp: is_list_def m'_def ys lseg_append lseg_upd)
    moreover have "dom m' = insert a (dom m)" using h(1) t by (auto simp: m'_def)
    moreover have "\<And>b. b \<noteq> a \<Longrightarrow> b \<noteq> p \<Longrightarrow> b \<notin> fst ` set xs \<Longrightarrow> m' b = m b" by (auto simp: m'_def ys)
    ultimately show ?thesis by (intro that)
  qed
qed

lemma list_append_no_room:
  "is_list m p xs cb \<Longrightarrow> d \<noteq> NULL \<Longrightarrow> alloc m 8 = NULL \<Longrightarrow> list_append_ext alloc p d m = Some (False, m)"
  by (auto simp: list_append_ext_def pool_malloc_def is_list_def)

lemma list_prepend_is_list:
  assumes l: "is_list m p xs cb" and d: "d \<noteq> NULL" and a: "alloc m 8 = a" "a \<noteq> NULL" "m a = None"
  obtains m' where "list_prepend_ext alloc p d m = Some (True, m')" "is_list m' p ((a, d) # xs) cb"
    "\<And>b. b \<noteq> a \<Longrightarrow> b \<noteq> p \<Longrightarrow> m' b = m b"
proof -
  obtain h where h: "m p = Some (mk_list h (last_node xs) (of_nat (length xs)) cb)" "lseg m h xs NULL"
    using l by (auto simp: is_list_def)
  have pa: "p \<noteq> a" and ax: "a \<notin> fst ` set xs" and px: "p \<notin> fst ` set xs"
    using h(1) a(3) is_list_node [OF l] is_list_neq [OF l] by fastforce+
  have t: "last_node xs = NULL \<longleftrightarrow> xs = []"
    using is_list_node [OF l, of "last xs"] by (auto simp: last_node_def)
  define m' where "m' = m(a \<mapsto> mk_node h d, p \<mapsto> mk_list a (if xs = [] then a else last_node xs) (of_nat (length xs) + 1) cb)"
  have "list_prepend_ext alloc p d m = Some (True, m')"
    using h(1) d a pa t
    by (simp add: list_prepend_ext_def zmalloc_ext_def pool_malloc_def Let_def m'_def fun_upd_twist)
  moreover have "last_node ((a, d) # xs) = (if xs = [] then a else last_node xs)" by (simp add: last_node_def)
  then have "is_list m' p ((a, d) # xs) cb"
    using h(2) pa ax px a(2) by (simp add: is_list_def m'_def lseg_upd add.commute)
  moreover have "\<And>b. b \<noteq> a \<Longrightarrow> b \<noteq> p \<Longrightarrow> m' b = m b" by (simp add: m'_def)
  ultimately show ?thesis by (rule that)
qed

text \<open>
  What a free function does: it releases the objects \<open>F d\<close> behind the data \<open>d\<close>, whatever else the
  pool holds. No free function releases nothing.
\<close>

definition frees :: "'a callback \<Rightarrow> nat \<Rightarrow> (addr \<Rightarrow> addr set) \<Rightarrow> 'a cmem \<Rightarrow> addr \<Rightarrow> bool" where
  "frees call cb F m d \<longleftrightarrow> (if cb = 0 then F d = {}
     else (\<forall>m'. (\<forall>a \<in> F d. m' a = m a) \<longrightarrow> call cb d m' = Some (m' |` (- F d))))"

lemma frees_cong: "(\<And>a. a \<in> F d \<Longrightarrow> m' a = m a) \<Longrightarrow> frees call cb F m' d = frees call cb F m d"
  by (auto simp: frees_def)

lemma restrict_map_UNIV [simp]: "m |` UNIV = m"
  by (simp add: restrict_map_def)

lemma list_free_node_frees:
  assumes p: "m p = Some (mk_list h t k cb)" and n: "m n = Some (mk_node r d)" "n \<noteq> NULL"
    and F: "frees call cb F m d" "p \<notin> F d" "n \<notin> F d"
  shows "list_free_node_ext call p n m = Some (r, (m |` (- insert n (F d)))(p \<mapsto> mk_list h t (k - 1) cb))"
proof -
  have pn: "p \<noteq> n" using p n by auto
  have "(if cb \<noteq> 0 then call cb d m else Some m) = Some (m |` (- F d))"
    using F(1) by (auto simp: frees_def)
  then have "list_free_node_ext call p n m = do {
      m \<leftarrow> pool_free n (m |` (- F d)); m \<leftarrow> upd_list p (list_length_update (\<lambda>n. n - 1)) m; Some (r, m) }"
    using p n by (cases "cb = 0") (simp_all add: list_free_node_ext_def)
  moreover have "pool_free n (m |` (- F d)) = Some (m |` (- insert n (F d)))"
    using n F(3) by (auto simp: pool_free_def restrict_map_def)
  moreover have "(m |` (- insert n (F d))) p = Some (mk_list h t k cb)"
    using p F(2) pn by (simp add: restrict_map_def)
  ultimately show ?thesis by simp
qed

text \<open>The memory after the nodes \<open>xs\<close> and their data are gone.\<close>

definition list_area :: "(addr \<Rightarrow> addr set) \<Rightarrow> (addr \<times> addr) list \<Rightarrow> addr set" where
  "list_area F xs = fst ` set xs \<union> (\<Union>x \<in> set xs. F (snd x))"

lemma list_area_simps [simp]: "list_area F [] = {}" "list_area F (x # xs) = insert (fst x) (F (snd x) \<union> list_area F xs)"
  "list_area F (xs @ ys) = list_area F xs \<union> list_area F ys"
  by (auto simp: list_area_def)

text \<open>The objects of different elements are different ones, and no node is one of them.\<close>

fun separate :: "(addr \<Rightarrow> addr set) \<Rightarrow> (addr \<times> addr) list \<Rightarrow> bool" where
  "separate F [] \<longleftrightarrow> True"
| "separate F (x # xs) \<longleftrightarrow> fst x \<notin> F (snd x) \<and> insert (fst x) (F (snd x)) \<inter> list_area F xs = {} \<and> separate F xs"

lemma separate_append: "separate F (xs @ ys) \<longleftrightarrow> separate F xs \<and> separate F ys \<and> list_area F xs \<inter> list_area F ys = {}"
  by (induction xs) auto

lemma clear_loop_frees:
  assumes "m p = Some (mk_list h t k cb)" "lseg m q xs NULL"
    and "\<And>x. x \<in> set xs \<Longrightarrow> frees call cb F m (snd x)" "separate F xs" "p \<notin> list_area F xs"
  shows "\<exists>k'. clear_loop call p q m = Some ((m |` (- list_area F xs))(p \<mapsto> mk_list h t k' cb))"
  using assms
proof (induction xs arbitrary: m q k)
  case Nil
  then have "clear_loop call p q m = Some ((m |` (- {}))(p \<mapsto> mk_list h t k cb))"
    by (simp add: clear_loop.simps fun_upd_idem)
  then show ?case unfolding list_area_simps by blast
next
  case (Cons x xs)
  from Cons.prems(2) obtain r where r: "q = fst x" "q \<noteq> NULL" "m q = Some (mk_node r (snd x))" "lseg m r xs NULL"
    by auto
  define m' where "m' = (m |` (- insert q (F (snd x))))(p \<mapsto> mk_list h t (k - 1) cb)"
  have step: "list_free_node_ext call p q m = Some (r, m')"
    unfolding m'_def using Cons.prems r
    by (intro list_free_node_frees) auto
  have same: "m' a = m a" if "a \<in> list_area F xs" for a
    using that Cons.prems(4,5) r(1) by (auto simp: m'_def restrict_map_def)
  have "\<exists>k'. clear_loop call p r m' = Some ((m' |` (- list_area F xs))(p \<mapsto> mk_list h t k' cb))"
  proof (rule Cons.IH)
    show "m' p = Some (mk_list h t (k - 1) cb)" by (simp add: m'_def)
    have "lseg m' r xs NULL \<longleftrightarrow> lseg m r xs NULL"
      by (rule lseg_cong) (use same in \<open>auto simp: list_area_def\<close>)
    with r(4) show "lseg m' r xs NULL" by simp
  next
    fix y assume y: "y \<in> set xs"
    have "frees call cb F m' (snd y) = frees call cb F m (snd y)"
      by (rule frees_cong) (use same y in \<open>auto simp: list_area_def\<close>)
    with Cons.prems(3) y show "frees call cb F m' (snd y)" by simp
  qed (use Cons.prems in auto)
  moreover have "(m' |` (- list_area F xs))(p \<mapsto> v) = (m |` (- list_area F (x # xs)))(p \<mapsto> v)" for v
    using r(1) by (auto simp: m'_def restrict_map_def)
  ultimately show ?case
    using step r(2) by (subst clear_loop.simps) simp
qed

lemma list_clear_frees:
  assumes l: "is_list m p xs cb"
    and F: "\<And>x. x \<in> set xs \<Longrightarrow> frees call cb F m (snd x)" "separate F xs" "p \<notin> list_area F xs"
  shows "list_clear_ext call p m = Some ((m |` (- list_area F xs))(p \<mapsto> mk_list NULL NULL 0 cb))"
proof -
  obtain h where h: "m p = Some (mk_list h (last_node xs) (of_nat (length xs)) cb)" "lseg m h xs NULL"
    using l by (auto simp: is_list_def)
  from clear_loop_frees [OF this F] obtain k' where
    "clear_loop call p h m = Some ((m |` (- list_area F xs))(p \<mapsto> mk_list h (last_node xs) k' cb))" by blast
  then show ?thesis using h by (simp add: list_clear_ext_def)
qed

text \<open>Freeing a list releases it, its nodes and everything its elements own, and nothing else.\<close>

lemma list_free_frees:
  assumes "is_list m p xs cb" "p \<noteq> NULL"
    and "\<And>x. x \<in> set xs \<Longrightarrow> frees call cb F m (snd x)" "separate F xs" "p \<notin> list_area F xs"
  shows "list_free_ext call p m = Some (m |` (- insert p (list_area F xs)))"
  using list_clear_frees [OF assms(1,3-5)] assms(2,5)
  by (auto simp: list_free_ext_def pool_free_def restrict_map_def)

lemma last_node_in: "xs \<noteq> [] \<Longrightarrow> last_node xs \<in> fst ` set xs"
  by (simp add: last_node_def)

lemma remove_loop_found:
  assumes "lseg m node (us @ (n, d) # vs) NULL" "d \<notin> snd ` set us"
    and p: "m p = Some (mk_list h t k cb)"
    and prev: "m (fst pv) = Some (mk_node node (snd pv))"
    and n: "m n = Some (mk_node r d)" "n \<noteq> NULL"
    and F: "frees call cb F m d" "p \<notin> F d" "n \<notin> F d"
    and out: "n \<notin> fst ` set us" "fst ` set (pv # us) \<inter> F d = {}" "n \<noteq> fst pv" "lt = last (pv # us)"
  shows "remove_loop call p d (fst pv) node m = Some (True, (m |` (- insert n (F d)))
     (fst lt \<mapsto> mk_node r (snd lt), p \<mapsto> mk_list h (if t = n then fst lt else t) (k - 1) cb))"
  using assms(1,2) prev out
proof (induction us arbitrary: node pv)
  case Nil
  then have node: "node = n" and lt: "lt = pv" by simp_all
  have pn: "p \<noteq> n" "fst pv \<noteq> p" using p n Nil.prems node by auto
  have "remove_loop call p d (fst pv) n m = do {
      (nxt, m) \<leftarrow> list_free_node_ext call p n m;
      m \<leftarrow> upd_node (fst pv) (next_node_update (\<lambda>_. nxt)) m;
      m \<leftarrow> upd_list p (\<lambda>l. if list_tail l = n then l\<lparr>list_tail := fst pv\<rparr> else l) m;
      Some (True, m) }"
    using n by (subst remove_loop.simps) simp
  also have "\<dots> = Some (True, (m |` (- insert n (F d)))(fst pv \<mapsto> mk_node r (snd pv),
      p \<mapsto> mk_list h (if t = n then fst pv else t) (k - 1) cb))"
    using Nil.prems pn node list_free_node_frees [OF p n F] by (auto simp: restrict_map_def fun_upd_twist)
  finally show ?case unfolding node lt .
next
  case (Cons x us)
  then obtain q where q: "node = fst x" "node \<noteq> NULL" "m node = Some (mk_node q (snd x))"
      "lseg m q (us @ (n, d) # vs) NULL" by auto
  have "remove_loop call p d (fst pv) node m = remove_loop call p d (fst x) q m"
    using q Cons.prems(2) by (subst remove_loop.simps) auto
  also have "\<dots> = Some (True, (m |` (- insert n (F d)))
     (fst lt \<mapsto> mk_node r (snd lt), p \<mapsto> mk_list h (if t = n then fst lt else t) (k - 1) cb))"
    by (rule Cons.IH) (use q Cons.prems in auto)
  finally show ?case .
qed

lemma remove_loop_not_found:
  assumes "lseg m node us NULL" "d \<notin> snd ` set us"
  shows "remove_loop call p d prev node m = Some (False, m)"
  using assms
proof (induction us arbitrary: node prev)
  case (Cons x us)
  then show ?case by (subst remove_loop.simps) auto
qed (simp add: remove_loop.simps)

lemma of_nat_Suc_minus: "(of_nat (Suc n) :: u32) - 1 = of_nat n"
  by simp

text \<open>Taking a node out of the middle or the end of a list.\<close>

lemma lseg_bypass:
  assumes l: "is_list m p (us @ pv # (n, d) # vs) cb" and n: "m n = Some (mk_node r d)"
    and h: "m p = Some (mk_list h (last_node (us @ pv # (n, d) # vs)) k cb)"
    and m': "m' (fst pv) = Some (mk_node r (snd pv))"
      "m' p = Some (mk_list h (if vs = [] then fst pv else last_node vs) (of_nat (length us + Suc (length vs))) cb)"
      "\<And>b. b \<in> fst ` set us \<union> fst ` set vs \<Longrightarrow> m' b = m b"
  shows "is_list m' p (us @ pv # vs) cb"
proof -
  have s: "lseg m h us (fst pv)" "lseg m r vs NULL" "fst pv \<noteq> NULL"
    using l h n by (auto simp: is_list_def lseg_append)
  have "lseg m' h us (fst pv)" "lseg m' r vs NULL"
    using s lseg_cong [of us m' m] lseg_cong [of vs m' m] m'(3) by auto
  with m' s(3) show ?thesis by (auto simp: is_list_def lseg_append)
qed

lemma list_remove_is_list:
  assumes l: "is_list m p (us @ (n, d) # vs) cb" and d: "d \<notin> snd ` set us" "d \<noteq> NULL"
    and F: "frees call cb F m d" "p \<notin> F d" "fst ` set (us @ (n, d) # vs) \<inter> F d = {}"
  obtains m' where "list_remove_ext call p d m = Some (True, m')" "is_list m' p (us @ vs) cb"
    "\<And>b. b \<notin> insert p (fst ` set us) \<Longrightarrow> m' b = (if b \<in> insert n (F d) then None else m b)"
proof -
  let ?xs = "us @ (n, d) # vs"
  obtain h where h: "m p = Some (mk_list h (last_node ?xs) (of_nat (length ?xs)) cb)" "lseg m h ?xs NULL"
    using l by (auto simp: is_list_def)
  have n: "n \<noteq> NULL" "n \<notin> F d" using is_list_node [OF l, of "(n, d)"] F(3) by auto
  obtain r where r: "m n = Some (mk_node r d)" "lseg m r vs NULL"
    using h(2) by (auto simp: lseg_append)
  have ne: "list_is_empty_ext p m = Some False" using is_list_empty [OF l] by simp
  have dist: "n \<notin> fst ` set us" "n \<notin> fst ` set vs" "fst ` set us \<inter> fst ` set vs = {}"
    using is_list_distinct [OF l] by auto
  have p: "p \<notin> fst ` set ?xs" using is_list_neq [OF l] .
  have len: "(of_nat (length ?xs) :: u32) - 1 = of_nat (length (us @ vs))"
    by simp
  show ?thesis
  proof (cases us)
    case Nil
    then have hn: "h = n" using h(2) by simp
    have tail: "last_node ?xs = h \<longleftrightarrow> vs = []"
      using Nil dist(2) hn last_node_in [of vs] by auto
    define m' where "m' = (m |` (- insert n (F d)))(p \<mapsto> mk_list r (if vs = [] then r else last_node vs) (of_nat (length vs)) cb)"
    have rv: "vs = [] \<Longrightarrow> r = NULL" using r(2) by simp
    have "list_remove_ext call p d m = Some (True, m')"
      using h(1) ne d r(1) hn list_free_node_frees [OF h(1) r(1) n(1) F(1,2) n(2)] tail Nil
      by (auto simp: list_remove_ext_def m'_def)
    moreover have "lseg m' r vs NULL \<longleftrightarrow> lseg m r vs NULL"
      by (rule lseg_cong) (use dist F(3) p in \<open>auto simp: m'_def restrict_map_def\<close>)
    then have "is_list m' p (us @ vs) cb"
      using r(2) rv Nil by (auto simp: is_list_def m'_def)
    ultimately show ?thesis by (rule that) (auto simp: m'_def restrict_map_def)
  next
    case (Cons x us')
    obtain ws lt where us: "us = ws @ [lt]" using Cons by (metis list.distinct(1) rev_exhaust)
    have lt: "lt = last (x # us')" using us Cons by (metis last_snoc)
    obtain q where q: "h = fst x" "h \<noteq> NULL" "m h = Some (mk_node q (snd x))" "lseg m q (us' @ (n, d) # vs) NULL"
      using h(2) Cons by auto
    define m' where "m' = (m |` (- insert n (F d)))(fst lt \<mapsto> mk_node r (snd lt),
       p \<mapsto> mk_list h (if last_node ?xs = n then fst lt else last_node ?xs) (of_nat (length ?xs) - 1) cb)"
    have "list_remove_ext call p d m = remove_loop call p d (fst x) q m"
      using h(1) ne d q Cons by (auto simp: list_remove_ext_def)
    also have "\<dots> = Some (True, m')"
      unfolding m'_def
    proof (rule remove_loop_found [OF q(4) _ h(1) _ r(1) n(1) F(1,2) n(2) _ _ _ lt])
      show "d \<notin> snd ` set us'" "m (fst x) = Some (mk_node q (snd x))" "n \<notin> fst ` set us'" "n \<noteq> fst x"
        using d dist(1) q Cons by auto
      show "fst ` set (x # us') \<inter> F d = {}" using F(3) Cons by auto
    qed
    finally have 1: "list_remove_ext call p d m = Some (True, m')" .
    have tail: "last_node ?xs = n \<longleftrightarrow> vs = []" "vs \<noteq> [] \<Longrightarrow> last_node ?xs = last_node vs"
      using dist(2) last_node_in [of vs] by auto
    have lp: "fst lt \<noteq> p" "fst lt \<notin> fst ` set ws" "fst lt \<notin> fst ` set vs" "fst lt \<in> fst ` set us" "fst lt \<noteq> n"
      using p is_list_distinct [OF l] by (auto simp: us)
    have "is_list m' p (ws @ lt # vs) cb"
    proof (rule lseg_bypass)
      show "is_list m p (ws @ lt # (n, d) # vs) cb" using l us by simp
      show "m p = Some (mk_list h (last_node (ws @ lt # (n, d) # vs)) (of_nat (length ?xs)) cb)"
        using h(1) us by simp
      show "m' p = Some (mk_list h (if vs = [] then fst lt else last_node vs) (of_nat (length ws + Suc (length vs))) cb)"
        using tail by (simp add: m'_def us)
    next
      fix b assume b: "b \<in> fst ` set ws \<union> fst ` set vs"
      then have "b \<notin> F d" "b \<noteq> p" "b \<noteq> n" using F(3) p dist by (auto simp: us)
      moreover have "b \<noteq> fst lt" using b lp by auto
      ultimately show "m' b = m b" by (simp add: m'_def restrict_map_def)
    qed (use lp r in \<open>simp_all add: m'_def\<close>)
    then have 2: "is_list m' p (us @ vs) cb" by (simp add: us)
    have 3: "\<And>b. b \<notin> insert p (fst ` set us) \<Longrightarrow> m' b = (if b \<in> insert n (F d) then None else m b)"
      using lp(4) by (auto simp: m'_def restrict_map_def)
    from 1 2 3 show ?thesis by (rule that)
  qed
qed

lemma list_remove_absent:
  assumes l: "is_list m p xs cb" and d: "d \<notin> snd ` set xs" "d \<noteq> NULL"
  shows "list_remove_ext call p d m = Some (False, m)"
proof (cases xs)
  case Nil
  with l d show ?thesis using is_list_empty [OF l]
    by (auto simp: list_remove_ext_def is_list_def)
next
  case (Cons x us)
  with l obtain t k r where 1: "m p = Some (mk_list (fst x) t k cb)" "m (fst x) = Some (mk_node r (snd x))" "lseg m r us NULL"
    by (auto simp: is_list_def)
  then show ?thesis using is_list_empty [OF l] d Cons remove_loop_not_found [OF 1(3), of d]
    by (auto simp add: list_remove_ext_def)
qed

lemma list_insert_after_is_list:
  assumes l: "is_list m p (us @ pv # vs) cb" and d: "d \<noteq> NULL" and a: "alloc m 8 = a" "a \<noteq> NULL" "m a = None"
  obtains m' where "list_insert_after_ext alloc p (fst pv) d m = Some (True, m')"
    "is_list m' p (us @ pv # (a, d) # vs) cb" "\<And>b. b \<notin> {a, p, fst pv} \<Longrightarrow> m' b = m b"
proof -
  let ?xs = "us @ pv # vs"
  obtain h where h: "m p = Some (mk_list h (last_node ?xs) (of_nat (length ?xs)) cb)" "lseg m h ?xs NULL"
    using l by (auto simp: is_list_def)
  obtain r where r: "m (fst pv) = Some (mk_node r (snd pv))" "lseg m r vs NULL" "lseg m h us (fst pv)" "fst pv \<noteq> NULL"
    using h(2) by (auto simp: lseg_append)
  have "a \<notin> fst ` set ?xs" "p \<notin> fst ` set ?xs" "a \<noteq> p"
    using h(1) a(3) is_list_node [OF l] is_list_neq [OF l] by fastforce+
  moreover have "fst pv \<notin> fst ` set us" "fst pv \<notin> fst ` set vs" using is_list_distinct [OF l] by auto
  ultimately have out: "a \<noteq> p" "a \<noteq> fst pv" "p \<noteq> fst pv" "a \<notin> fst ` set us" "a \<notin> fst ` set vs"
      "p \<notin> fst ` set us" "p \<notin> fst ` set vs" "fst pv \<notin> fst ` set us" "fst pv \<notin> fst ` set vs"
    by auto
  have tail: "last_node ?xs = fst pv \<longleftrightarrow> vs = []" "vs \<noteq> [] \<Longrightarrow> last_node ?xs = last_node vs"
    using out(9) last_node_in [of vs] by auto
  define m' where "m' = m(a \<mapsto> mk_node r d, fst pv \<mapsto> mk_node a (snd pv),
    p \<mapsto> mk_list h (if vs = [] then a else last_node vs) (of_nat (length ?xs) + 1) cb)"
  have "list_insert_after_ext alloc p (fst pv) d m = Some (True, m')"
    using h(1) d a out r tail
    by (simp add: list_insert_after_ext_def pool_malloc_def Let_def m'_def fun_upd_twist)
  moreover have "is_list m' p (us @ pv # (a, d) # vs) cb"
    using r out a(2) by (auto simp: is_list_def m'_def lseg_append lseg_upd)
  moreover have "\<And>b. b \<notin> {a, p, fst pv} \<Longrightarrow> m' b = m b" by (simp add: m'_def)
  ultimately show ?thesis by (rule that)
qed

text \<open>A callback that leaves the list alone is called once on each element, in order.\<close>

lemma foreach_loop_fold:
  assumes "lseg m q xs NULL"
    and "\<And>x m m'. x \<in> set xs \<Longrightarrow> callback (snd x) m = Some m' \<Longrightarrow> \<forall>b \<in> fst ` set xs. m' b = m b"
  shows "foreach_loop callback q m = foldl (\<lambda>r x. r \<bind> callback (snd x)) (Some m) xs"
  using assms
proof (induction xs arbitrary: q m)
  case (Cons x xs)
  obtain r where r: "q \<noteq> NULL" "m q = Some (mk_node r (snd x))" "lseg m r xs NULL"
    using Cons.prems(1) by auto
  have none: "foldl (\<lambda>r x. r \<bind> callback (snd x)) None ys = None" for ys :: "(addr \<times> addr) list"
    by (induction ys) auto
  show ?case
  proof (cases "callback (snd x) m")
    case None
    with r show ?thesis by (subst foreach_loop.simps) (simp add: none)
  next
    case (Some m')
    have "\<forall>b \<in> fst ` set (x # xs). m' b = m b" by (rule Cons.prems(2) [OF _ Some]) simp
    then have "lseg m' r xs NULL \<longleftrightarrow> lseg m r xs NULL" by (intro lseg_cong) auto
    with r(3) have "lseg m' r xs NULL" by simp
    moreover have "\<And>y m m'. y \<in> set xs \<Longrightarrow> callback (snd y) m = Some m' \<Longrightarrow> \<forall>b \<in> fst ` set xs. m' b = m b"
      using Cons.prems(2) by (meson image_mono set_subset_Cons subsetD list.set_intros(2))
    ultimately show ?thesis using r Some by (subst foreach_loop.simps) (simp add: Cons.IH)
  qed
qed (simp add: foreach_loop.simps)

lemma list_foreach_fold:
  assumes "is_list m p xs cb"
    and "\<And>x m m'. x \<in> set xs \<Longrightarrow> callback (snd x) m = Some m' \<Longrightarrow> \<forall>b \<in> fst ` set xs. m' b = m b"
  shows "list_foreach_ext p callback m = foldl (\<lambda>r x. r \<bind> callback (snd x)) (Some m) xs"
proof -
  obtain h where "m p = Some (mk_list h (last_node xs) (of_nat (length xs)) cb)" "lseg m h xs NULL"
    using assms(1) by (auto simp: is_list_def)
  then show ?thesis using foreach_loop_fold [OF _ assms(2)] by (simp add: list_foreach_ext_def)
qed

end
