(* ===== verification/NvConfig.thy ===== *)
theory NvConfig
  imports ListExt
begin

text \<open>
  \<open>services/nvrecord/nvrec_config.c\<close>: the configuration of the user data, a list of named sections
  that are lists of key/value entries, all in the memory pool of \<open>ListExt\<close>. Strings are byte
  blocks with a terminator. The section \<open>ddbrec\<close> of paired devices is special: its keys are
  device addresses of six bytes, not strings.
\<close>

section \<open>Strings\<close>

text \<open>The string in a buffer; a buffer without terminator would be read past its end.\<close>

definition cstr :: "byte list \<Rightarrow> byte list option" where
  "cstr b = (if 0 \<in> set b then Some (takeWhile (\<lambda>c. c \<noteq> 0) b) else None)"

definition strcmp_eq :: "byte list \<Rightarrow> byte list \<Rightarrow> bool option" where
  "strcmp_eq a b = do { x \<leftarrow> cstr a; y \<leftarrow> cstr b; Some (x = y) }"

definition memcmp_eq :: "byte list \<Rightarrow> byte list \<Rightarrow> nat \<Rightarrow> bool option" where
  "memcmp_eq a b n = (if n \<le> length a \<and> n \<le> length b then Some (take n a = take n b) else None)"

text \<open>\<open>%d\<close> of \<open>sprintf\<close>.\<close>

fun print_nat :: "nat \<Rightarrow> byte list" where
  "print_nat n = (if n < 10 then [] else print_nat (n div 10)) @ [of_nat (48 + n mod 10)]"

declare print_nat.simps [simp del]

definition print_int :: "int \<Rightarrow> byte list" where
  "print_int i = (if i < 0 then 45 # print_nat (nat (- i)) else print_nat (nat i))"

text \<open>\<open>strtol(s, &end, 0)\<close> with a \<open>long\<close> of 32 bits: the value, and what is left of the string.\<close>

definition is_space :: "byte \<Rightarrow> bool" where
  "is_space c \<longleftrightarrow> c = 32 \<or> 9 \<le> c \<and> c \<le> 13"

definition digit_val :: "byte \<Rightarrow> nat" where
  "digit_val c = (if 48 \<le> c \<and> c \<le> 57 then unat c - 48
     else if 97 \<le> c \<and> c \<le> 122 then unat c - 87
     else if 65 \<le> c \<and> c \<le> 90 then unat c - 55 else 36)"

definition digits_val :: "nat \<Rightarrow> byte list \<Rightarrow> nat" where
  "digits_val base ds = foldl (\<lambda>v c. v * base + digit_val c) 0 ds"

definition strtol_base :: "byte list \<Rightarrow> nat \<times> byte list" where
  "strtol_base s = (case s of
     z # x # d # _ \<Rightarrow> if z = 48 \<and> (x = 120 \<or> x = 88) \<and> digit_val d < 16 then (16, drop 2 s)
       else if z = 48 then (8, s) else (10, s)
   | z # _ \<Rightarrow> if z = 48 then (8, s) else (10, s)
   | [] \<Rightarrow> (10, s))"

definition clamp32 :: "int \<Rightarrow> int" where
  "clamp32 v = (if v > 2147483647 then 2147483647 else if v < - 2147483648 then - 2147483648 else v)"

definition strtol0 :: "byte list \<Rightarrow> int \<times> byte list" where
  "strtol0 str = (
     let s = dropWhile is_space str;
         neg = (s \<noteq> [] \<and> hd s = 45);
         s = (if s \<noteq> [] \<and> (hd s = 45 \<or> hd s = 43) then tl s else s);
         (base, s) = strtol_base s;
         ds = takeWhile (\<lambda>c. digit_val c < base) s
     in if ds = [] then (0, str)
        else (clamp32 (if neg then - int (digits_val base ds) else int (digits_val base ds)),
              dropWhile (\<lambda>c. digit_val c < base) s))"

section \<open>The objects of the configuration\<close>

record nvrec_entry_t =
  entry_key :: addr
  entry_value :: addr

record nvrec_section_t =
  section_name :: addr
  section_entries :: addr

record btif_device_record_t =
  bdAddr :: "byte list"
  trusted :: bool
  linkKey :: "byte list"
  keyType :: byte
  pinLen :: byte

record btdevice_volume =
  a2dp_vol :: "8 word"
  hfp_vol :: "8 word"

record btdevice_profile =
  hfp_act :: bool
  hsp_act :: bool
  a2dp_act :: bool
  a2dp_codectype :: byte

record nvrec_btdevicerecord =
  dev_record :: btif_device_record_t
  device_vol :: btdevice_volume
  device_plf :: btdevice_profile

record fp_account_key_record =
  key_count :: byte
  accountKey :: "byte list list"

record nvrecord_env_t =
  media_language :: byte
  ibrt_mode :: u32
  ibrt_bdAddr :: "byte list"
  factory_tester_status :: u32

text \<open>\<open>nvrec_config_t\<close> has one field, the list of sections.\<close>

datatype nvobj = O_config addr | O_section nvrec_section_t | O_entry nvrec_entry_t | O_chars "byte list"
  | O_device nvrec_btdevicerecord | O_fp fp_account_key_record | O_env nvrecord_env_t

type_synonym nvmem = "nvobj cmem"

definition rd_config :: "nvmem \<Rightarrow> addr \<Rightarrow> addr option" where
  "rd_config m p = (case m p of Some (C_data (O_config x)) \<Rightarrow> Some x | _ \<Rightarrow> None)"

definition rd_section :: "nvmem \<Rightarrow> addr \<Rightarrow> nvrec_section_t option" where
  "rd_section m p = (case m p of Some (C_data (O_section x)) \<Rightarrow> Some x | _ \<Rightarrow> None)"

definition rd_entry :: "nvmem \<Rightarrow> addr \<Rightarrow> nvrec_entry_t option" where
  "rd_entry m p = (case m p of Some (C_data (O_entry x)) \<Rightarrow> Some x | _ \<Rightarrow> None)"

definition rd_chars :: "nvmem \<Rightarrow> addr \<Rightarrow> byte list option" where
  "rd_chars m p = (case m p of Some (C_data (O_chars x)) \<Rightarrow> Some x | _ \<Rightarrow> None)"

section \<open>Memory and strings in it\<close>

definition cfg_malloc :: "nvobj allocator \<Rightarrow> nat \<Rightarrow> nvmem \<Rightarrow> addr \<times> nvmem" where
  "cfg_malloc alloc n m = (if n = 0 then (NULL, m) else pool_malloc alloc n m)"

text \<open>As in \<open>zmalloc_ext\<close>, the block is cleared without a test.\<close>

definition cfg_zmalloc :: "nvobj allocator \<Rightarrow> nat \<Rightarrow> nvmem \<Rightarrow> (addr \<times> nvmem) option" where
  "cfg_zmalloc alloc n m = (let (p, m) = cfg_malloc alloc n m in if p = NULL then None else Some (p, m))"

definition cfg_free :: "addr \<Rightarrow> nvmem \<Rightarrow> nvmem option" where
  "cfg_free p m = pool_free p m"

definition strdup_ext :: "nvobj allocator \<Rightarrow> byte list \<Rightarrow> nvmem \<Rightarrow> (addr \<times> nvmem) option" where
  "strdup_ext alloc val m = do {
     s \<leftarrow> cstr val;
     (p, m) \<leftarrow> zmalloc_ext alloc (length s + 1) m;
     Some (p, m(p \<mapsto> C_data (O_chars (s @ [0])))) }"

definition bdaddrdup :: "nvobj allocator \<Rightarrow> byte list \<Rightarrow> nat \<Rightarrow> nvmem \<Rightarrow> (addr \<times> nvmem) option" where
  "bdaddrdup alloc str n m = do {
     (p, m) \<leftarrow> cfg_zmalloc alloc (n + 1) m;
     if length str < n then None
     else Some (p, m(p \<mapsto> C_data (O_chars (take n str @ [0])))) }"

abbreviation (input) "BTIF_BD_ADDR_SIZE \<equiv> 6 :: nat"

text \<open>The name \<open>"ddbrec"\<close>.\<close>

definition section_name_ddbrec :: "byte list" where
  "section_name_ddbrec = [100, 100, 98, 114, 101, 99]"

section \<open>Freeing\<close>

abbreviation (input) "ENTRY_FREE \<equiv> 1 :: nat"
abbreviation (input) "SECTION_FREE \<equiv> 2 :: nat"

definition nvrec_entry_free :: "addr \<Rightarrow> nvmem \<Rightarrow> nvmem option" where
  "nvrec_entry_free p m = (if p = NULL then Some m else do {
     e \<leftarrow> rd_entry m p;
     m \<leftarrow> cfg_free (entry_key e) m;
     m \<leftarrow> cfg_free (entry_value e) m;
     cfg_free p m })"

definition entry_call :: "nvobj callback" where
  "entry_call f d m = (if f = ENTRY_FREE then nvrec_entry_free d m else None)"

definition nvrec_section_free :: "addr \<Rightarrow> nvmem \<Rightarrow> nvmem option" where
  "nvrec_section_free p m = (if p = NULL then Some m else do {
     s \<leftarrow> rd_section m p;
     m \<leftarrow> cfg_free (section_name s) m;
     m \<leftarrow> list_free_ext entry_call (section_entries s) m;
     cfg_free p m })"

text \<open>The functions behind the numbers.\<close>

definition nv_call :: "nvobj callback" where
  "nv_call f d m = (if f = SECTION_FREE then nvrec_section_free d m else entry_call f d m)"

section \<open>Creating and searching\<close>

definition nvrec_config_new :: "nvobj allocator \<Rightarrow> nvmem \<Rightarrow> (addr \<times> nvmem) option" where
  "nvrec_config_new alloc m = do {
     (config, m) \<leftarrow> cfg_zmalloc alloc 4 m;
     (sections, m) \<leftarrow> list_new_ext alloc SECTION_FREE m;
     Some (config, m(config \<mapsto> C_data (O_config sections))) }"

definition nvrec_config_free :: "addr \<Rightarrow> nvmem \<Rightarrow> nvmem option" where
  "nvrec_config_free config m = (if config = NULL then Some m else do {
     sections \<leftarrow> rd_config m config;
     m \<leftarrow> list_free_ext nv_call sections m;
     cfg_free config m })"

definition nvrec_section_new :: "nvobj allocator \<Rightarrow> byte list \<Rightarrow> nvmem \<Rightarrow> (addr \<times> nvmem) option" where
  "nvrec_section_new alloc nm m = do {
     (sec, m) \<leftarrow> cfg_zmalloc alloc 8 m;
     (p, m) \<leftarrow> strdup_ext alloc nm m;
     (entries, m) \<leftarrow> list_new_ext alloc ENTRY_FREE m;
     Some (sec, m(sec \<mapsto> C_data (O_section \<lparr>section_name = p, section_entries = entries\<rparr>))) }"

definition nvrec_entry_new ::
  "nvobj allocator \<Rightarrow> byte list \<Rightarrow> byte list \<Rightarrow> byte list \<Rightarrow> nvmem \<Rightarrow> (addr \<times> nvmem) option" where
  "nvrec_entry_new alloc key val descrip m = do {
     (entry, m) \<leftarrow> cfg_zmalloc alloc 8 m;
     ddb \<leftarrow> strcmp_eq descrip (section_name_ddbrec @ [0]);
     (k, m) \<leftarrow> (if ddb then bdaddrdup alloc key BTIF_BD_ADDR_SIZE m else strdup_ext alloc key m);
     (v, m) \<leftarrow> strdup_ext alloc val m;
     Some (entry, m(entry \<mapsto> C_data (O_entry \<lparr>entry_key = k, entry_value = v\<rparr>))) }"

partial_function (option) section_find_loop :: "byte list \<Rightarrow> addr \<Rightarrow> nvmem \<Rightarrow> addr option" where
  "section_find_loop nm node m = (if node = NULL then Some NULL else do {
     sec \<leftarrow> list_node_ext node m;
     s \<leftarrow> rd_section m sec;
     b \<leftarrow> rd_chars m (section_name s);
     eq \<leftarrow> strcmp_eq b nm;
     if eq then Some sec else do {
       node \<leftarrow> list_next_ext node m;
       section_find_loop nm node m } })"

definition nvrec_section_find :: "addr \<Rightarrow> byte list \<Rightarrow> nvmem \<Rightarrow> addr option" where
  "nvrec_section_find config nm m = do {
     sections \<leftarrow> rd_config m config;
     node \<leftarrow> list_begin_ext sections m;
     section_find_loop nm node m }"

text \<open>The comparison of keys: addresses in the section \<open>ddbrec\<close>, strings elsewhere.\<close>

definition key_eq :: "bool \<Rightarrow> byte list \<Rightarrow> byte list \<Rightarrow> bool option" where
  "key_eq ddb a b = (if ddb then memcmp_eq a b BTIF_BD_ADDR_SIZE else strcmp_eq a b)"

partial_function (option) entry_find_loop :: "bool \<Rightarrow> byte list \<Rightarrow> addr \<Rightarrow> nvmem \<Rightarrow> addr option" where
  "entry_find_loop ddb key node m = (if node = NULL then Some NULL else do {
     entry \<leftarrow> list_node_ext node m;
     e \<leftarrow> rd_entry m entry;
     b \<leftarrow> rd_chars m (entry_key e);
     eq \<leftarrow> key_eq ddb b key;
     if eq then Some entry else do {
       node \<leftarrow> list_next_ext node m;
       entry_find_loop ddb key node m } })"

definition nvrec_entry_find :: "addr \<Rightarrow> byte list \<Rightarrow> byte list \<Rightarrow> nvmem \<Rightarrow> addr option" where
  "nvrec_entry_find config nm key m = do {
     sec \<leftarrow> nvrec_section_find config nm m;
     if sec = NULL then Some NULL else do {
       ddb \<leftarrow> strcmp_eq nm (section_name_ddbrec @ [0]);
       s \<leftarrow> rd_section m sec;
       node \<leftarrow> list_begin_ext (section_entries s) m;
       entry_find_loop ddb key node m } }"

section \<open>Reading and writing values\<close>

definition nvrec_config_has_section :: "addr \<Rightarrow> byte list \<Rightarrow> nvmem \<Rightarrow> bool option" where
  "nvrec_config_has_section config nm m = do { s \<leftarrow> nvrec_section_find config nm m; Some (s \<noteq> NULL) }"

definition nvrec_config_has_key :: "addr \<Rightarrow> byte list \<Rightarrow> byte list \<Rightarrow> nvmem \<Rightarrow> bool option" where
  "nvrec_config_has_key config nm key m = do { e \<leftarrow> nvrec_entry_find config nm key m; Some (e \<noteq> NULL) }"

text \<open>The bytes of the value of an entry, \<open>None\<close> if there is no entry.\<close>

definition find_value :: "addr \<Rightarrow> byte list \<Rightarrow> byte list \<Rightarrow> nvmem \<Rightarrow> byte list option option" where
  "find_value config nm key m = do {
     entry \<leftarrow> nvrec_entry_find config nm key m;
     if entry = NULL then Some None else do {
       e \<leftarrow> rd_entry m entry;
       b \<leftarrow> rd_chars m (entry_value e);
       s \<leftarrow> cstr b;
       Some (Some s) } }"

definition nvrec_config_get_int :: "addr \<Rightarrow> byte list \<Rightarrow> byte list \<Rightarrow> int \<Rightarrow> nvmem \<Rightarrow> int option" where
  "nvrec_config_get_int config nm key def_value m = do {
     v \<leftarrow> find_value config nm key m;
     case v of None \<Rightarrow> Some def_value
     | Some s \<Rightarrow> (let (ret, rest) = strtol0 s in Some (if rest = [] then ret else def_value)) }"

definition str_true :: "byte list" where "str_true = [116, 114, 117, 101]"
definition str_false :: "byte list" where "str_false = [102, 97, 108, 115, 101]"

definition nvrec_config_get_bool :: "addr \<Rightarrow> byte list \<Rightarrow> byte list \<Rightarrow> bool \<Rightarrow> nvmem \<Rightarrow> bool option" where
  "nvrec_config_get_bool config nm key def_value m = do {
     v \<leftarrow> find_value config nm key m;
     case v of None \<Rightarrow> Some def_value
     | Some s \<Rightarrow> Some (if s = str_true then True else if s = str_false then False else def_value) }"

text \<open>The string itself in place of the pointer to it.\<close>

definition nvrec_config_get_string :: "addr \<Rightarrow> byte list \<Rightarrow> byte list \<Rightarrow> byte list \<Rightarrow> nvmem \<Rightarrow> byte list option" where
  "nvrec_config_get_string config nm key def_value m = do {
     v \<leftarrow> find_value config nm key m;
     Some (case v of None \<Rightarrow> def_value | Some s \<Rightarrow> s) }"

text \<open>The second half of \<open>nvrec_config_set_string\<close>: the section is there.\<close>

definition set_in_section ::
  "nvobj allocator \<Rightarrow> addr \<Rightarrow> byte list \<Rightarrow> byte list \<Rightarrow> byte list \<Rightarrow> nvmem \<Rightarrow> nvmem option" where
  "set_in_section alloc sec nm key val m = do {
     ddb \<leftarrow> strcmp_eq nm (section_name_ddbrec @ [0]);
     s \<leftarrow> rd_section m sec;
     node \<leftarrow> list_begin_ext (section_entries s) m;
     entry \<leftarrow> entry_find_loop ddb key node m;
     if entry \<noteq> NULL then do {
       e \<leftarrow> rd_entry m entry;
       m \<leftarrow> cfg_free (entry_value e) m;
       (v, m) \<leftarrow> (if ddb then bdaddrdup alloc val BTIF_BD_ADDR_SIZE m else strdup_ext alloc val m);
       Some (m(entry \<mapsto> C_data (O_entry (e\<lparr>entry_value := v\<rparr>)))) }
     else do {
       (entry, m) \<leftarrow> nvrec_entry_new alloc key val nm m;
       (_, m) \<leftarrow> list_append_ext alloc (section_entries s) entry m;
       Some m } }"

definition nvrec_config_set_string ::
  "nvobj allocator \<Rightarrow> addr \<Rightarrow> byte list \<Rightarrow> byte list \<Rightarrow> byte list \<Rightarrow> nvmem \<Rightarrow> nvmem option" where
  "nvrec_config_set_string alloc config nm key val m = do {
     sec \<leftarrow> nvrec_section_find config nm m;
     (sec, m) \<leftarrow> (if sec \<noteq> NULL then Some (sec, m) else do {
         (sec, m) \<leftarrow> nvrec_section_new alloc nm m;
         sections \<leftarrow> rd_config m config;
         (_, m) \<leftarrow> list_append_ext alloc sections sec m;
         Some (sec, m) });
     set_in_section alloc sec nm key val m }"

text \<open>The number is printed into a buffer of 32 bytes filled with zeros.\<close>

definition int_buffer :: "int \<Rightarrow> byte list" where
  "int_buffer i = (let s = print_int i in s @ replicate (32 - length s) 0)"

definition nvrec_config_set_int ::
  "nvobj allocator \<Rightarrow> addr \<Rightarrow> byte list \<Rightarrow> byte list \<Rightarrow> int \<Rightarrow> nvmem \<Rightarrow> nvmem option" where
  "nvrec_config_set_int alloc config nm key val m =
     nvrec_config_set_string alloc config nm key (int_buffer val) m"

definition nvrec_config_set_bool ::
  "nvobj allocator \<Rightarrow> addr \<Rightarrow> byte list \<Rightarrow> byte list \<Rightarrow> bool \<Rightarrow> nvmem \<Rightarrow> nvmem option" where
  "nvrec_config_set_bool alloc config nm key val m =
     nvrec_config_set_string alloc config nm key ((if val then str_true else str_false) @ [0]) m"

section \<open>Printing and reading numbers\<close>

definition is_digit :: "byte \<Rightarrow> bool" where
  "is_digit c \<longleftrightarrow> 48 \<le> c \<and> c \<le> 57"

lemma unat_digit: "k < 10 \<Longrightarrow> unat (of_nat (48 + k) :: byte) = 48 + k"
  by (simp only: unat_of_nat) (simp add: take_bit_nat_eq_self)

lemma digit_of_nat: "k < 10 \<Longrightarrow> is_digit (of_nat (48 + k)) \<and> digit_val (of_nat (48 + k)) = k"
  unfolding is_digit_def digit_val_def word_le_nat_alt unat_digit by simp

lemma digit_val_lt: "is_digit c \<Longrightarrow> digit_val c < 10"
  by (auto simp: is_digit_def digit_val_def word_le_nat_alt)

lemma digit_not: "is_digit c \<Longrightarrow> \<not> is_space c \<and> c \<noteq> 45 \<and> c \<noteq> 43 \<and> c \<noteq> 0 \<and> c \<noteq> 120 \<and> c \<noteq> 88"
  by (auto simp: is_digit_def is_space_def word_le_nat_alt)

lemma print_nat_digits: "c \<in> set (print_nat n) \<Longrightarrow> is_digit c"
proof (induction n rule: print_nat.induct)
  case (1 n)
  have "is_digit (of_nat (48 + n mod 10))" using digit_of_nat [of "n mod 10"] by simp
  with 1 show ?case by (subst (asm) print_nat.simps) (auto split: if_splits)
qed

lemma print_nat_nonempty: "print_nat n \<noteq> []"
  by (subst print_nat.simps) simp

lemma digits_val_print_nat: "digits_val 10 (print_nat n) = n"
proof (induction n rule: print_nat.induct)
  case (1 n)
  have "digit_val (of_nat (48 + n mod 10)) = n mod 10" using digit_of_nat [of "n mod 10"] by simp
  with 1 show ?case
    by (subst print_nat.simps) (auto simp: digits_val_def)
qed

lemma hd_print_nat: "0 < n \<Longrightarrow> hd (print_nat n) \<noteq> 48"
proof (induction n rule: print_nat.induct)
  case (1 n)
  show ?case
  proof (cases "n < 10")
    case True
    have "unat (of_nat (48 + n mod 10) :: byte) \<noteq> unat (48 :: byte)"
      using True 1(2) unat_digit [of "n mod 10"] by simp
    with True show ?thesis by (subst print_nat.simps) auto
  next
    case False
    with 1 show ?thesis by (subst print_nat.simps) (simp add: hd_append print_nat_nonempty)
  qed
qed

lemma length_print_nat: "n < 10 ^ k \<Longrightarrow> 0 < k \<Longrightarrow> length (print_nat n) \<le> k"
proof (induction n arbitrary: k rule: print_nat.induct)
  case (1 n)
  show ?case
  proof (cases "n < 10")
    case True
    with 1(3) show ?thesis by (subst print_nat.simps) simp
  next
    case False
    then obtain k' where k: "k = Suc k'" "0 < k'" using 1(2) by (cases k; cases "k - 1") auto
    with 1(2) have "n div 10 < 10 ^ k'" by (simp add: less_mult_imp_div_less mult.commute)
    with 1(1) [OF False this k(2)] False k show ?thesis by (subst print_nat.simps) simp
  qed
qed

lemma strtol_base_print: "0 < n \<Longrightarrow> strtol_base (print_nat n) = (10, print_nat n)"
  using hd_print_nat [of n] by (auto simp: strtol_base_def split: list.splits)

lemma print_nat_0: "print_nat 0 = [48]"
  by (subst print_nat.simps) simp

lemma takeWhile_digits:
  "takeWhile (\<lambda>c. digit_val c < 10) (print_nat n) = print_nat n"
  "dropWhile (\<lambda>c. digit_val c < 10) (print_nat n) = []"
  using print_nat_digits [THEN digit_val_lt] by (auto simp: takeWhile_eq_all_conv dropWhile_eq_Nil_conv)

lemma print_nat_Cons: "\<exists>c s. print_nat n = c # s \<and> is_digit c"
  using print_nat_digits [of _ n] by (cases "print_nat n") (auto simp: print_nat_nonempty)

text \<open>Every \<open>int\<close> is read back as it was printed.\<close>

lemma strtol_print_nat: "int n \<le> 2147483647 \<Longrightarrow> strtol0 (print_nat n) = (int n, [])"
proof -
  assume n: "int n \<le> 2147483647"
  obtain c s where c: "print_nat n = c # s" "is_digit c" using print_nat_Cons by blast
  show ?thesis
  proof (cases "n = 0")
    case True
    then show ?thesis by (simp add: print_nat_0 strtol0_def strtol_base_def is_space_def digits_val_def digit_val_def clamp32_def word_le_nat_alt)
  next
    case False
    then have "strtol_base (c # s) = (10, c # s)" using strtol_base_print [of n] c(1) by simp
    with c n takeWhile_digits [of n] digits_val_print_nat [of n] digit_not [OF c(2)] show ?thesis
      by (simp add: strtol0_def c(1) clamp32_def)
  qed
qed

lemma strtol_print_neg: "0 < n \<Longrightarrow> int n \<le> 2147483648 \<Longrightarrow> strtol0 (45 # print_nat n) = (- int n, [])"
proof -
  assume n: "0 < n" "int n \<le> 2147483648"
  obtain c s where c: "print_nat n = c # s" "is_digit c" using print_nat_Cons by blast
  then have "strtol_base (c # s) = (10, c # s)" using strtol_base_print [of n] n(1) by simp
  with c n takeWhile_digits [of n] digits_val_print_nat [of n] show ?thesis
    by (simp add: strtol0_def c(1) clamp32_def is_space_def word_le_nat_alt)
qed

lemma strtol_print_int: "- 2147483648 \<le> i \<Longrightarrow> i \<le> 2147483647 \<Longrightarrow> strtol0 (print_int i) = (i, [])"
  using strtol_print_neg [of "nat (- i)"] strtol_print_nat [of "nat i"] by (auto simp: print_int_def)

lemma print_int_no_0: "0 \<notin> set (print_int i)"
proof -
  have "0 \<notin> set (print_nat n)" for n using digit_not [OF print_nat_digits] by blast
  then show ?thesis by (simp add: print_int_def)
qed

lemma cstr_append_0: "0 \<notin> set s \<Longrightarrow> cstr (s @ 0 # t) = Some s"
  by (auto simp: cstr_def takeWhile_append2 takeWhile_tail)

lemma cstr_no_0: "cstr b = Some s \<Longrightarrow> 0 \<notin> set s"
  by (auto simp: cstr_def dest: set_takeWhileD split: if_splits)

lemma length_print_int: "- 2147483648 \<le> i \<Longrightarrow> i \<le> 2147483647 \<Longrightarrow> length (print_int i) \<le> 11"
proof -
  assume i: "- 2147483648 \<le> i" "i \<le> 2147483647"
  then have "nat (- i) < 10 ^ 10" "nat i < 10 ^ 10" by simp_all
  then show ?thesis using length_print_nat [of "nat (- i)" 10] length_print_nat [of "nat i" 10]
    by (auto simp: print_int_def)
qed

lemma cstr_int_buffer:
  assumes "- 2147483648 \<le> i" "i \<le> 2147483647"
  shows "cstr (int_buffer i) = Some (print_int i)" "length (int_buffer i) = 32"
proof -
  have l: "length (print_int i) \<le> 11" using length_print_int [OF assms] .
  then have "32 - length (print_int i) = Suc (31 - length (print_int i))" by linarith
  then show "cstr (int_buffer i) = Some (print_int i)"
    using cstr_append_0 [OF print_int_no_0, of i "replicate (31 - length (print_int i)) 0"] by (simp add: int_buffer_def Let_def)
  show "length (int_buffer i) = 32" using l by (simp add: int_buffer_def Let_def)
qed

end
