(* ===== verification/NvTree.thy ===== *)
theory NvTree
  imports NvConfig
begin

text \<open>
  What the operations of \<open>NvConfig\<close> do to the tree of sections and entries that a configuration
  stands for: searching, adding and replacing entries, reading back what was set, and freeing.
\<close>

section \<open>The tree that a configuration stands for\<close>

text \<open>
  An entry and a section with the addresses of their parts; the key identifies the entry (the
  six bytes of an address or a string), the value is the whole block.
\<close>

datatype cent = Cent (ce_node: addr) (ce_ent: addr) (ce_key: addr) (ce_val: addr) (ce_kid: "byte list") (ce_vb: "byte list")

datatype csec = Csec (cs_node: addr) (cs_sec: addr) (cs_name: addr) (cs_list: addr) (cs_nm: "byte list") (cs_ents: "cent list")

definition ent_ok :: "bool \<Rightarrow> nvmem \<Rightarrow> cent \<Rightarrow> bool" where
  "ent_ok ddb m e \<longleftrightarrow>
     m (ce_ent e) = Some (C_data (O_entry \<lparr>entry_key = ce_key e, entry_value = ce_val e\<rparr>)) \<and>
     m (ce_key e) = Some (C_data (O_chars (ce_kid e @ [0]))) \<and>
     (if ddb then length (ce_kid e) = BTIF_BD_ADDR_SIZE else 0 \<notin> set (ce_kid e)) \<and>
     m (ce_val e) = Some (C_data (O_chars (ce_vb e))) \<and> 0 \<in> set (ce_vb e)"

abbreviation ent_pair :: "cent \<Rightarrow> addr \<times> addr" where "ent_pair e \<equiv> (ce_node e, ce_ent e)"
abbreviation sec_pair :: "csec \<Rightarrow> addr \<times> addr" where "sec_pair s \<equiv> (cs_node s, cs_sec s)"
abbreviation is_ddb :: "csec \<Rightarrow> bool" where "is_ddb s \<equiv> cs_nm s = section_name_ddbrec"

definition ent_fp :: "cent \<Rightarrow> addr list" where
  "ent_fp e = [ce_node e, ce_ent e, ce_key e, ce_val e]"

definition ents_fp :: "cent list \<Rightarrow> addr list" where
  "ents_fp es = concat (map ent_fp es)"

definition sec_body :: "csec \<Rightarrow> addr list" where
  "sec_body s = cs_sec s # cs_name s # cs_list s # ents_fp (cs_ents s)"

definition secs_fp :: "csec list \<Rightarrow> addr list" where
  "secs_fp S = concat (map (\<lambda>s. cs_node s # sec_body s) S)"

definition sec_ok :: "nvmem \<Rightarrow> csec \<Rightarrow> bool" where
  "sec_ok m s \<longleftrightarrow>
     m (cs_sec s) = Some (C_data (O_section \<lparr>section_name = cs_name s, section_entries = cs_list s\<rparr>)) \<and>
     m (cs_name s) = Some (C_data (O_chars (cs_nm s @ [0]))) \<and> 0 \<notin> set (cs_nm s) \<and>
     is_list m (cs_list s) (map ent_pair (cs_ents s)) ENTRY_FREE \<and>
     (\<forall>e \<in> set (cs_ents s). ent_ok (is_ddb s) m e) \<and>
     distinct (map ce_kid (cs_ents s)) \<and> distinct (sec_body s)"

definition cfg_ok :: "nvmem \<Rightarrow> addr \<Rightarrow> addr \<Rightarrow> csec list \<Rightarrow> bool" where
  "cfg_ok m c l S \<longleftrightarrow> m NULL = None \<and> m c = Some (C_data (O_config l)) \<and>
     is_list m l (map sec_pair S) SECTION_FREE \<and> (\<forall>s \<in> set S. sec_ok m s) \<and>
     distinct (map cs_nm S) \<and> distinct (c # l # secs_fp S)"

lemma fp_simps [simp]:
  "ents_fp [] = []" "ents_fp (e # es) = ent_fp e @ ents_fp es" "ents_fp (es @ fs) = ents_fp es @ ents_fp fs"
  "secs_fp [] = []" "secs_fp (s # S) = cs_node s # sec_body s @ secs_fp S" "secs_fp (S @ T) = secs_fp S @ secs_fp T"
  by (simp_all add: ents_fp_def secs_fp_def)

lemma set_ents_fp: "set (ents_fp es) = (\<Union>e \<in> set es. set (ent_fp e))"
  by (simp add: ents_fp_def)

lemma set_secs_fp: "set (secs_fp S) = (\<Union>s \<in> set S. insert (cs_node s) (set (sec_body s)))"
  by (simp add: secs_fp_def)

lemma nodes_in_fp: "fst ` set (map ent_pair es) \<subseteq> set (ents_fp es)" "fst ` set (map sec_pair S) \<subseteq> set (secs_fp S)"
  by (auto simp: set_ents_fp set_secs_fp ent_fp_def)

lemma rd_obj [simp]:
  "rd_config m p = Some l \<longleftrightarrow> m p = Some (C_data (O_config l))"
  "rd_section m p = Some s \<longleftrightarrow> m p = Some (C_data (O_section s))"
  "rd_entry m p = Some e \<longleftrightarrow> m p = Some (C_data (O_entry e))"
  "rd_chars m p = Some b \<longleftrightarrow> m p = Some (C_data (O_chars b))"
  by (auto simp: rd_config_def rd_section_def rd_entry_def rd_chars_def split: option.splits cobj.splits nvobj.splits)

lemma rd_dataI [simp]:
  "m p = Some (C_data (O_config l)) \<Longrightarrow> rd_config m p = Some l"
  "m p = Some (C_data (O_section s)) \<Longrightarrow> rd_section m p = Some s"
  "m p = Some (C_data (O_entry e)) \<Longrightarrow> rd_entry m p = Some e"
  "m p = Some (C_data (O_chars b)) \<Longrightarrow> rd_chars m p = Some b"
  by simp_all

text \<open>The tree depends on its own objects only.\<close>

lemma ent_ok_cong: "(\<And>a. a \<in> set (ent_fp e) \<Longrightarrow> m' a = m a) \<Longrightarrow> ent_ok ddb m' e = ent_ok ddb m e"
  by (simp add: ent_ok_def ent_fp_def)

lemma sec_ok_cong: "(\<And>a. a \<in> set (sec_body s) \<Longrightarrow> m' a = m a) \<Longrightarrow> sec_ok m' s = sec_ok m s"
proof -
  assume *: "\<And>a. a \<in> set (sec_body s) \<Longrightarrow> m' a = m a"
  then have "is_list m' (cs_list s) (map ent_pair (cs_ents s)) ENTRY_FREE =
      is_list m (cs_list s) (map ent_pair (cs_ents s)) ENTRY_FREE"
    using nodes_in_fp(1) [of "cs_ents s"] by (intro is_list_cong) (auto simp: sec_body_def)
  moreover have "ent_ok (is_ddb s) m' e = ent_ok (is_ddb s) m e" if "e \<in> set (cs_ents s)" for e
    by (rule ent_ok_cong) (use that * in \<open>auto simp: sec_body_def set_ents_fp\<close>)
  ultimately show ?thesis using * by (simp add: sec_ok_def sec_body_def)
qed

lemma cfg_ok_cong:
  "(\<And>a. a = NULL \<or> a \<in> set (c # l # secs_fp S) \<Longrightarrow> m' a = m a) \<Longrightarrow> cfg_ok m' c l S = cfg_ok m c l S"
proof -
  assume *: "\<And>a. a = NULL \<or> a \<in> set (c # l # secs_fp S) \<Longrightarrow> m' a = m a"
  then have "is_list m' l (map sec_pair S) SECTION_FREE = is_list m l (map sec_pair S) SECTION_FREE"
    using nodes_in_fp(2) [of S] by (intro is_list_cong) auto
  moreover have "sec_ok m' s = sec_ok m s" if "s \<in> set S" for s
    by (rule sec_ok_cong) (use that * in \<open>auto simp: set_secs_fp\<close>)
  ultimately show ?thesis using * by (simp add: cfg_ok_def)
qed

lemma ent_ok_dom: "ent_ok ddb m e \<Longrightarrow> a \<in> set (ent_fp e) \<Longrightarrow> a \<noteq> ce_node e \<Longrightarrow> m a \<noteq> None"
  by (auto simp: ent_ok_def ent_fp_def)

lemma sec_ok_dom: "sec_ok m s \<Longrightarrow> a \<in> set (sec_body s) \<Longrightarrow> m a \<noteq> None"
proof -
  assume s: "sec_ok m s" and a: "a \<in> set (sec_body s)"
  show ?thesis
  proof (cases "a \<in> ce_node ` set (cs_ents s)")
    case True
    then obtain e where "e \<in> set (cs_ents s)" "a = ce_node e" by auto
    with s show ?thesis using is_list_node [of m "cs_list s" _ _ "ent_pair e"] by (fastforce simp: sec_ok_def)
  next
    case False
    with s a show ?thesis
      using ent_ok_dom [of "is_ddb s" m _ a] by (fastforce simp: sec_ok_def sec_body_def set_ents_fp is_list_def)
  qed
qed

lemma cfg_ok_dom: "cfg_ok m c l S \<Longrightarrow> a \<in> set (c # l # secs_fp S) \<Longrightarrow> m a \<noteq> None"
proof -
  assume s: "cfg_ok m c l S" and a: "a \<in> set (c # l # secs_fp S)"
  then consider "a = c" | "a = l" | s' where "s' \<in> set S" "a = cs_node s'" | s' where "s' \<in> set S" "a \<in> set (sec_body s')"
    by (auto simp: set_secs_fp)
  then show ?thesis
  proof cases
    case 3
    with s show ?thesis using is_list_node [of m l _ _ "sec_pair s'"] by (fastforce simp: cfg_ok_def)
  next
    case 4
    with s show ?thesis using sec_ok_dom by (auto simp: cfg_ok_def)
  qed (use s in \<open>auto simp: cfg_ok_def is_list_def\<close>)
qed

section \<open>Searching the tree\<close>

lemma list_node_I [simp]: "m p = Some (mk_node r d) \<Longrightarrow> list_node_ext p m = Some d"
  "m p = Some (mk_node r d) \<Longrightarrow> list_next_ext p m = Some r"
  by (simp_all add: list_node_ext_def list_next_ext_def)

lemma list_begin_I [simp]: "m p = Some (mk_list h t k cb) \<Longrightarrow> list_begin_ext p m = Some h"
  by (simp add: list_begin_ext_def)

lemma cstr_0 [simp]: "0 \<notin> set s \<Longrightarrow> cstr (s @ [0]) = Some s"
  using cstr_append_0 [of s "[]"] by simp

definition find_sec :: "byte list \<Rightarrow> csec list \<Rightarrow> csec option" where
  "find_sec nm S = find (\<lambda>s. cs_nm s = nm) S"

definition find_ent :: "byte list \<Rightarrow> cent list \<Rightarrow> cent option" where
  "find_ent kid es = find (\<lambda>e. ce_kid e = kid) es"

text \<open>What the search for a section reads: the list of sections and their names.\<close>

definition sec_head :: "nvmem \<Rightarrow> csec \<Rightarrow> bool" where
  "sec_head m s \<longleftrightarrow>
     m (cs_sec s) = Some (C_data (O_section \<lparr>section_name = cs_name s, section_entries = cs_list s\<rparr>)) \<and>
     m (cs_name s) = Some (C_data (O_chars (cs_nm s @ [0]))) \<and> 0 \<notin> set (cs_nm s)"

definition cfg_heads :: "nvmem \<Rightarrow> addr \<Rightarrow> addr \<Rightarrow> csec list \<Rightarrow> bool" where
  "cfg_heads m c l S \<longleftrightarrow> m c = Some (C_data (O_config l)) \<and> is_list m l (map sec_pair S) SECTION_FREE \<and>
     (\<forall>s \<in> set S. sec_head m s)"

lemma cfg_ok_heads: "cfg_ok m c l S \<Longrightarrow> cfg_heads m c l S"
  by (simp add: cfg_ok_def cfg_heads_def sec_ok_def sec_head_def)

lemma cfg_heads_cong:
  assumes "\<And>a. a \<in> {c, l} \<union> (\<Union>s \<in> set S. {cs_node s, cs_sec s, cs_name s}) \<Longrightarrow> m' a = m a"
  shows "cfg_heads m' c l S = cfg_heads m c l S"
proof -
  have "is_list m' l (map sec_pair S) SECTION_FREE = is_list m l (map sec_pair S) SECTION_FREE"
    by (rule is_list_cong, rule assms) auto
  moreover have "sec_head m' s = sec_head m s" if "s \<in> set S" for s
  proof -
    have "m' (cs_sec s) = m (cs_sec s)" "m' (cs_name s) = m (cs_name s)" by (rule assms, use that in auto)+
    then show ?thesis by (simp add: sec_head_def)
  qed
  ultimately show ?thesis using assms by (simp add: cfg_heads_def)
qed

lemma section_find_loop_spec:
  assumes "lseg m node (map sec_pair S) NULL" "\<And>s. s \<in> set S \<Longrightarrow> sec_head m s" "cstr nm = Some n"
  shows "section_find_loop nm node m = Some (case find_sec n S of None \<Rightarrow> NULL | Some s \<Rightarrow> cs_sec s)"
  using assms
proof (induction S arbitrary: node)
  case Nil
  then show ?case by (simp add: section_find_loop.simps find_sec_def)
next
  case (Cons s S)
  then have s: "sec_head m s" by simp
  from Cons.prems obtain r where r: "node = cs_node s" "node \<noteq> NULL" "m node = Some (mk_node r (cs_sec s))" "lseg m r (map sec_pair S) NULL"
    by auto
  from s have "strcmp_eq (cs_nm s @ [0]) nm = Some (cs_nm s = n)"
    using Cons.prems(3) by (simp add: strcmp_eq_def sec_head_def)
  with s r Cons show ?case
    by (subst section_find_loop.simps) (auto simp: sec_head_def find_sec_def)
qed

lemma section_find_heads:
  assumes "cfg_heads m c l S" "cstr nm = Some n"
  shows "nvrec_section_find c nm m = Some (case find_sec n S of None \<Rightarrow> NULL | Some s \<Rightarrow> cs_sec s)"
  using assms section_find_loop_spec [of m _ S nm n]
  by (auto simp: nvrec_section_find_def cfg_heads_def is_list_def)

lemmas section_find_spec = section_find_heads [OF cfg_ok_heads]

text \<open>The key a buffer stands for.\<close>

definition key_of :: "bool \<Rightarrow> byte list \<Rightarrow> byte list option" where
  "key_of ddb key = (if ddb then if BTIF_BD_ADDR_SIZE \<le> length key then Some (take BTIF_BD_ADDR_SIZE key) else None
     else cstr key)"

lemma key_eq_spec: "ent_ok ddb m e \<Longrightarrow> key_of ddb key = Some k \<Longrightarrow> key_eq ddb (ce_kid e @ [0]) key = Some (ce_kid e = k)"
  by (auto simp: ent_ok_def key_of_def key_eq_def memcmp_eq_def strcmp_eq_def split: if_splits)

lemma key_of_stored: "ent_ok ddb m e \<Longrightarrow> key_of ddb (ce_kid e @ [0]) = Some (ce_kid e)"
  by (auto simp: ent_ok_def key_of_def split: if_splits)

lemma entry_find_loop_spec:
  assumes "lseg m node (map ent_pair es) NULL" "\<And>e. e \<in> set es \<Longrightarrow> ent_ok ddb m e" "key_of ddb key = Some k"
  shows "entry_find_loop ddb key node m = Some (case find_ent k es of None \<Rightarrow> NULL | Some e \<Rightarrow> ce_ent e)"
  using assms
proof (induction es arbitrary: node)
  case Nil
  then show ?case by (simp add: entry_find_loop.simps find_ent_def)
next
  case (Cons e es)
  then have e: "ent_ok ddb m e" by simp
  from Cons.prems obtain r where r: "node = ce_node e" "node \<noteq> NULL" "m node = Some (mk_node r (ce_ent e))" "lseg m r (map ent_pair es) NULL"
    by auto
  from e r Cons key_eq_spec [OF e Cons.prems(3)] show ?case
    by (subst entry_find_loop.simps) (auto simp: ent_ok_def find_ent_def)
qed

definition lookup_ent :: "byte list \<Rightarrow> byte list \<Rightarrow> csec list \<Rightarrow> cent option" where
  "lookup_ent n k S = find_sec n S \<bind> (\<lambda>s. find_ent k (cs_ents s))"

lemma find_sec_Some: "find_sec n S = Some s \<Longrightarrow> s \<in> set S \<and> cs_nm s = n"
  by (auto simp: find_sec_def find_Some_iff)

lemma find_ent_Some: "find_ent k es = Some e \<Longrightarrow> e \<in> set es \<and> ce_kid e = k"
  by (auto simp: find_ent_def find_Some_iff)

lemma sec_nonnull: "cfg_ok m c l S \<Longrightarrow> s \<in> set S \<Longrightarrow> cs_sec s \<noteq> NULL"
  using sec_ok_dom [of m s "cs_sec s"] by (auto simp: cfg_ok_def sec_body_def)

lemma cfg_sec_ok: "cfg_ok m c l S \<Longrightarrow> s \<in> set S \<Longrightarrow> sec_ok m s"
  by (simp add: cfg_ok_def)

lemma cfg_ent_ok: "cfg_ok m c l S \<Longrightarrow> s \<in> set S \<Longrightarrow> e \<in> set (cs_ents s) \<Longrightarrow> ent_ok (is_ddb s) m e"
  by (simp add: cfg_ok_def sec_ok_def)

lemma ent_nonnull: "cfg_ok m c l S \<Longrightarrow> s \<in> set S \<Longrightarrow> e \<in> set (cs_ents s) \<Longrightarrow> ce_ent e \<noteq> NULL"
  using cfg_ent_ok [of m c l S s e] by (cases "ce_ent e = NULL") (simp_all add: cfg_ok_def ent_ok_def)

lemma entry_find_spec:
  assumes ok: "cfg_ok m c l S" and n: "cstr nm = Some n" and k: "key_of (n = section_name_ddbrec) key = Some k"
  shows "nvrec_entry_find c nm key m = Some (case lookup_ent n k S of None \<Rightarrow> NULL | Some e \<Rightarrow> ce_ent e)"
proof (cases "find_sec n S")
  case None
  then show ?thesis using section_find_spec [OF ok n] by (simp add: nvrec_entry_find_def lookup_ent_def)
next
  case (Some s)
  then have s: "s \<in> set S" "cs_nm s = n" "sec_ok m s" "cs_sec s \<noteq> NULL"
    using find_sec_Some [OF Some] ok sec_nonnull [OF ok] by (auto simp: cfg_ok_def)
  have "strcmp_eq nm (section_name_ddbrec @ [0]) = Some (n = section_name_ddbrec)"
    using n by (simp add: strcmp_eq_def section_name_ddbrec_def cstr_def)
  with s Some section_find_spec [OF ok n] entry_find_loop_spec [of m _ "cs_ents s" "is_ddb s" key k] k
  show ?thesis by (auto simp: nvrec_entry_find_def lookup_ent_def sec_ok_def is_list_def)
qed

definition cval :: "cent \<Rightarrow> byte list" where
  "cval e = takeWhile (\<lambda>c. c \<noteq> 0) (ce_vb e)"

lemma find_value_spec:
  assumes ok: "cfg_ok m c l S" and n: "cstr nm = Some n" and k: "key_of (n = section_name_ddbrec) key = Some k"
  shows "find_value c nm key m = Some (map_option cval (lookup_ent n k S))"
proof (cases "lookup_ent n k S")
  case None
  then show ?thesis using entry_find_spec [OF assms] by (simp add: find_value_def)
next
  case (Some e)
  then obtain s where s: "s \<in> set S" "e \<in> set (cs_ents s)"
    by (auto simp: lookup_ent_def bind_eq_Some_conv dest!: find_sec_Some find_ent_Some)
  then have "ent_ok (is_ddb s) m e" using ok by (auto simp: cfg_ok_def sec_ok_def)
  with Some s show ?thesis using entry_find_spec [OF assms] ent_nonnull [OF ok s]
    by (auto simp: find_value_def ent_ok_def cstr_def cval_def)
qed

section \<open>Changing the tree\<close>

text \<open>
  A change inside one section: the section stands for \<open>s'\<close> afterwards, it uses objects of the old
  one and new ones, and no other object of the pool is touched.
\<close>

lemma secs_fp_dom: "cfg_ok m c l S \<Longrightarrow> a \<in> set (secs_fp S) \<Longrightarrow> m a \<noteq> None"
  using cfg_ok_dom by fastforce

lemma cfg_update:
  assumes ok: "cfg_ok m c l (S1 @ s # S2)" and s': "sec_ok m' s'"
    and same: "cs_node s' = cs_node s" "cs_sec s' = cs_sec s" "cs_nm s' = cs_nm s"
    and new: "\<And>a. a \<in> set (sec_body s') \<Longrightarrow> a \<in> set (sec_body s) \<or> m a = None"
    and frame: "\<And>a. m a \<noteq> None \<Longrightarrow> a \<notin> set (sec_body s) \<Longrightarrow> m' a = m a" and null: "m' NULL = None"
  shows "cfg_ok m' c l (S1 @ s' # S2)"
proof -
  have dist: "distinct (c # l # secs_fp (S1 @ s # S2))" using ok by (simp add: cfg_ok_def)
  have dom: "m a \<noteq> None" if "a \<in> set (c # l # secs_fp (S1 @ s # S2))" for a
    using cfg_ok_dom [OF ok that] .
  have keep: "m' a = m a" if "a \<in> set (c # l # cs_node s # secs_fp (S1 @ S2))" for a
  proof (rule frame)
    show "m a \<noteq> None" using that by (intro dom) auto
    show "a \<notin> set (sec_body s)" using that dist by auto
  qed
  have out: "a \<notin> set (c # l # cs_node s # secs_fp (S1 @ S2))" if "a \<in> set (sec_body s')" for a
    using new [OF that] dist dom [of a] by auto
  have "is_list m' l (map sec_pair (S1 @ s' # S2)) SECTION_FREE = is_list m l (map sec_pair (S1 @ s # S2)) SECTION_FREE"
  proof -
    have eq: "map sec_pair (S1 @ s' # S2) = map sec_pair (S1 @ s # S2)" using same by simp
    have "is_list m' l (map sec_pair (S1 @ s # S2)) SECTION_FREE = is_list m l (map sec_pair (S1 @ s # S2)) SECTION_FREE"
      by (rule is_list_cong, rule keep) (auto simp: set_secs_fp)
    then show ?thesis unfolding eq .
  qed
  moreover have "sec_ok m' t" if "t \<in> set (S1 @ S2)" for t
  proof -
    have "sec_ok m' t = sec_ok m t"
      by (rule sec_ok_cong) (use that keep in \<open>auto simp: set_secs_fp\<close>)
    with that ok show ?thesis by (auto simp: cfg_ok_def)
  qed
  moreover have "distinct (c # l # secs_fp (S1 @ s' # S2))"
    using dist out s' same by (auto simp: sec_ok_def)
  moreover have "m' c = m c" using keep by simp
  ultimately show ?thesis using ok s' same null by (auto simp: cfg_ok_def)
qed

text \<open>Adding an object outside the tree.\<close>

lemma cfg_ok_alloc: "cfg_ok m c l S \<Longrightarrow> m a = None \<Longrightarrow> a \<noteq> NULL \<Longrightarrow> cfg_ok (m(a \<mapsto> v)) c l S"
proof -
  assume ok: "cfg_ok m c l S" and a: "m a = None" "a \<noteq> NULL"
  have "cfg_ok (m(a \<mapsto> v)) c l S = cfg_ok m c l S"
    by (rule cfg_ok_cong) (use cfg_ok_dom [OF ok, of a] a in auto)
  with ok show ?thesis by simp
qed

section \<open>The allocator\<close>

text \<open>
  What is asked of the allocator: while fewer than \<open>k\<close> objects are allocated it returns an address
  that is not in use.
\<close>

definition has_room :: "nat \<Rightarrow> 'a allocator \<Rightarrow> bool" where
  "has_room k alloc \<longleftrightarrow> (\<forall>m n. card (dom m) < k \<longrightarrow> alloc m n \<noteq> NULL \<and> m (alloc m n) = None)"

text \<open>Allocating an object and storing something in it.\<close>

lemma alloc_step:
  assumes "has_room k alloc" "card (dom m) + Suc j \<le> k"
  shows "alloc m n \<noteq> NULL" "m (alloc m n) = None" "card (dom (m(alloc m n \<mapsto> v))) + j \<le> k"
    "zmalloc_ext alloc n m = Some (alloc m n, m(alloc m n \<mapsto> C_raw n))"
    "0 < n \<Longrightarrow> cfg_zmalloc alloc n m = Some (alloc m n, m(alloc m n \<mapsto> C_raw n))"
  using assms
  by (auto simp: has_room_def zmalloc_ext_def cfg_zmalloc_def cfg_malloc_def pool_malloc_def Let_def domIff card_insert_if)

lemma card_dom_upd: "m a \<noteq> None \<Longrightarrow> card (dom (m(a \<mapsto> v))) = card (dom m)"
  by (simp add: insert_absorb domIff)

lemma strdup_ok:
  assumes "has_room k alloc" "card (dom m) + Suc j \<le> k" "cstr s = Some t"
  shows "strdup_ext alloc s m = Some (alloc m (length t + 1), m(alloc m (length t + 1) \<mapsto> C_data (O_chars (t @ [0]))))"
  using alloc_step [OF assms(1,2), of "length t + 1"] assms(3) by (simp add: strdup_ext_def)

lemma bdaddrdup_ok:
  assumes "has_room k alloc" "card (dom m) + Suc j \<le> k" "n \<le> length s"
  shows "bdaddrdup alloc s n m = Some (alloc m (n + 1), m(alloc m (n + 1) \<mapsto> C_data (O_chars (take n s @ [0]))))"
  using alloc_step [OF assms(1,2), of "n + 1"] assms(3) by (simp add: bdaddrdup_def)

section \<open>Adding and replacing entries\<close>

definition with_ents :: "csec \<Rightarrow> cent list \<Rightarrow> csec" where
  "with_ents s es = Csec (cs_node s) (cs_sec s) (cs_name s) (cs_list s) (cs_nm s) es"

lemma with_ents_simps [simp]:
  "cs_node (with_ents s es) = cs_node s" "cs_sec (with_ents s es) = cs_sec s" "cs_name (with_ents s es) = cs_name s"
  "cs_list (with_ents s es) = cs_list s" "cs_nm (with_ents s es) = cs_nm s" "cs_ents (with_ents s es) = es"
  by (simp_all add: with_ents_def)

lemma ent_ok_cong3: "m' (ce_ent e) = m (ce_ent e) \<Longrightarrow> m' (ce_key e) = m (ce_key e) \<Longrightarrow> m' (ce_val e) = m (ce_val e) \<Longrightarrow>
   ent_ok ddb m' e = ent_ok ddb m e"
  by (simp add: ent_ok_def)

lemma sec_body_sets: "a \<in> set (sec_body s) \<longleftrightarrow> a = cs_sec s \<or> a = cs_name s \<or> a = cs_list s \<or>
   (\<exists>e \<in> set (cs_ents s). a = ce_node e \<or> a = ce_ent e \<or> a = ce_key e \<or> a = ce_val e)"
  by (auto simp: sec_body_def set_ents_fp ent_fp_def)

text \<open>The nodes of the entries differ from everything else in the section.\<close>

lemma distinct_ents_nodes: "distinct (ents_fp es) \<Longrightarrow> e \<in> set es \<Longrightarrow> e' \<in> set es \<Longrightarrow>
   ce_ent e \<noteq> ce_node e' \<and> ce_key e \<noteq> ce_node e' \<and> ce_val e \<noteq> ce_node e'"
proof (induction es)
  case (Cons x es)
  then show ?case by (auto simp: ent_fp_def set_ents_fp)
qed simp

lemma sec_nodes: "sec_ok m s \<Longrightarrow> e \<in> set (cs_ents s) \<Longrightarrow> a \<in> {ce_ent e, ce_key e, ce_val e} \<Longrightarrow>
   a \<notin> fst ` set (map ent_pair (cs_ents s)) \<and> a \<noteq> cs_list s"
proof -
  assume s: "sec_ok m s" and e: "e \<in> set (cs_ents s)" and a: "a \<in> {ce_ent e, ce_key e, ce_val e}"
  have d: "distinct (ents_fp (cs_ents s))" and l: "cs_list s \<notin> set (ents_fp (cs_ents s))"
    using s by (auto simp: sec_ok_def sec_body_def)
  have "a \<noteq> ce_node e'" if "e' \<in> set (cs_ents s)" for e'
    using distinct_ents_nodes [OF d e that] a by auto
  then have "a \<notin> ce_node ` set (cs_ents s)" by blast
  moreover have "a \<in> set (ents_fp (cs_ents s))" using e a by (auto simp: set_ents_fp ent_fp_def)
  ultimately show ?thesis using l by (auto simp: image_image)
qed

lemma sec_nodes': "sec_ok m s \<Longrightarrow> a \<in> {cs_sec s, cs_name s} \<Longrightarrow>
   a \<notin> fst ` set (map ent_pair (cs_ents s)) \<and> a \<noteq> cs_list s"
  by (auto simp: sec_ok_def sec_body_def set_ents_fp ent_fp_def)

text \<open>A new entry behind the others.\<close>

lemma entry_append:
  assumes ok: "cfg_ok m c l (S1 @ s # S2)" and room: "has_room k alloc" "card (dom m) + 4 \<le> k"
    and key: "key_of (is_ddb s) key = Some kid" "kid \<notin> ce_kid ` set (cs_ents s)"
    and val: "cstr val = Some v" and nm: "cstr nm = Some (cs_nm s)"
  obtains m' e where
    "do { (entry, m) \<leftarrow> nvrec_entry_new alloc key val nm m; (_, m) \<leftarrow> list_append_ext alloc (cs_list s) entry m; Some m } = Some m'"
    "cfg_ok m' c l (S1 @ with_ents s (cs_ents s @ [e]) # S2)" "ce_kid e = kid" "ce_vb e = v @ [0]"
    "\<And>a. m a \<noteq> None \<Longrightarrow> a \<notin> set (sec_body s) \<Longrightarrow> m' a = m a" "card (dom m') \<le> card (dom m) + 4"
    "\<And>a. a \<in> set (ent_fp e) \<Longrightarrow> m a = None"
proof -
  have null: "m NULL = None" and s: "sec_ok m s" using ok by (auto simp: cfg_ok_def)
  have ddb: "strcmp_eq nm (section_name_ddbrec @ [0]) = Some (is_ddb s)"
    using nm by (simp add: strcmp_eq_def section_name_ddbrec_def cstr_def)
  define a1 where "a1 = alloc m 8"
  define m1 where "m1 = m(a1 \<mapsto> C_raw 8)"
  define a2 where "a2 = alloc m1 (if is_ddb s then BTIF_BD_ADDR_SIZE + 1 else length kid + 1)"
  define m2 where "m2 = m1(a2 \<mapsto> C_data (O_chars (kid @ [0])))"
  define a3 where "a3 = alloc m2 (length v + 1)"
  define m3 where "m3 = m2(a3 \<mapsto> C_data (O_chars (v @ [0])))"
  define m4 where "m4 = m3(a1 \<mapsto> C_data (O_entry \<lparr>entry_key = a2, entry_value = a3\<rparr>))"
  define a4 where "a4 = alloc m4 8"
  have r0: "card (dom m) + Suc 3 \<le> k" using room(2) by simp
  note 1 = alloc_step [OF room(1) r0, of 8, folded a1_def]
  have r1: "card (dom m1) + Suc 2 \<le> k" using 1(3) by (simp add: m1_def)
  note 2 = alloc_step [OF room(1) r1, of "if is_ddb s then BTIF_BD_ADDR_SIZE + 1 else length kid + 1", folded a2_def]
  have r2: "card (dom m2) + Suc 1 \<le> k" using 2(3) by (simp add: m2_def)
  note 3 = alloc_step [OF room(1) r2, of "length v + 1", folded a3_def]
  have "card (dom m4) = card (dom m3)" unfolding m4_def
    by (rule card_dom_upd) (simp add: m3_def m2_def m1_def)
  then have r3: "card (dom m4) + Suc 0 \<le> k" using 3(3) by (simp add: m3_def)
  note 4 = alloc_step [OF room(1) r3, of 8, folded a4_def]
  have diff: "a1 \<noteq> a2" "a1 \<noteq> a3" "a2 \<noteq> a3" "a4 \<noteq> a1" "a4 \<noteq> a2" "a4 \<noteq> a3" "m a2 = None" "m a3 = None" "m a4 = None"
    using 2(2) 3(2) 4(2) by (auto simp: m1_def m2_def m3_def m4_def split: if_splits)
  have kid: "if is_ddb s then BTIF_BD_ADDR_SIZE \<le> length key \<and> kid = take BTIF_BD_ADDR_SIZE key else cstr key = Some kid"
    using key(1) by (auto simp: key_of_def split: if_splits)
  have new: "nvrec_entry_new alloc key val nm m = Some (a1, m4)"
  proof -
    have "(if is_ddb s then bdaddrdup alloc key BTIF_BD_ADDR_SIZE m1 else strdup_ext alloc key m1) = Some (a2, m2)"
      using kid bdaddrdup_ok [OF room(1) r1, of BTIF_BD_ADDR_SIZE key] strdup_ok [OF room(1) r1, of key kid]
      by (auto simp: m2_def a2_def)
    moreover have "strdup_ext alloc val m2 = Some (a3, m3)"
      using strdup_ok [OF room(1) r2 val] by (simp add: m3_def a3_def)
    ultimately show ?thesis using 1(5) ddb
      by (simp add: nvrec_entry_new_def m4_def m1_def [symmetric])
  qed
  have same4: "m4 a = m a" if "m a \<noteq> None" for a
    using that diff 1(2) by (auto simp: m4_def m3_def m2_def m1_def)
  have sdom: "m a \<noteq> None" if "a \<in> set (sec_body s)" for a
    using sec_ok_dom [OF s that] .
  have s4: "sec_ok m4 s" using sec_ok_cong [of s m4 m] same4 sdom s by blast
  then have l4: "is_list m4 (cs_list s) (map ent_pair (cs_ents s)) ENTRY_FREE" by (simp add: sec_ok_def)
  obtain m5 where m5: "list_append_ext alloc (cs_list s) a1 m4 = Some (True, m5)"
      "is_list m5 (cs_list s) (map ent_pair (cs_ents s) @ [(a4, a1)]) ENTRY_FREE"
      "\<And>b. b \<noteq> a4 \<Longrightarrow> b \<noteq> cs_list s \<Longrightarrow> b \<notin> fst ` set (map ent_pair (cs_ents s)) \<Longrightarrow> m5 b = m4 b"
      "dom m5 = insert a4 (dom m4)"
    by (rule list_append_is_list [where alloc = alloc and m = m4 and p = "cs_list s" and d = a1 and a = a4
        and xs = "map ent_pair (cs_ents s)" and cb = ENTRY_FREE])
      (use l4 1(1) a4_def 4(1,2) in auto)
  define e where "e = Cent a4 a1 a2 a3 kid (v @ [0])"
  have fp_e: "set (ent_fp e) = {a4, a1, a2, a3}" by (auto simp: e_def ent_fp_def)
  have fresh: "m a = None" if "a \<in> set (ent_fp e)" for a
    using that diff 1(2) by (auto simp: fp_e)
  have new5: "m5 b = m4 b" if "b \<in> {a1, a2, a3}" for b
  proof (rule m5(3))
    show "b \<noteq> a4" using that diff by auto
    have "b \<notin> set (sec_body s)" using fresh [of b] sdom [of b] that by (auto simp: fp_e)
    then show "b \<noteq> cs_list s" "b \<notin> fst ` set (map ent_pair (cs_ents s))"
      by (auto simp: sec_body_sets)
  qed
  have old5: "m5 b = m b" if "m b \<noteq> None" "b \<noteq> cs_list s" "b \<notin> fst ` set (map ent_pair (cs_ents s))" for b
    using m5(3) [of b] that same4 [OF that(1)] diff(9) by (cases "b = a4") simp_all
  have eok: "ent_ok (is_ddb s) m5 e"
    using new5 diff kid val cstr_no_0 by (auto simp: ent_ok_def e_def m4_def m3_def m2_def)
  have s5: "sec_ok m5 (with_ents s (cs_ents s @ [e]))"
  proof -
    have "ent_ok (is_ddb s) m5 f" if f: "f \<in> set (cs_ents s)" for f
    proof -
      have "m5 b = m b" if "b \<in> {ce_ent f, ce_key f, ce_val f}" for b
        using sec_nodes [OF s f that] f that by (intro old5 sdom) (auto simp: sec_body_sets)
      then have "ent_ok (is_ddb s) m5 f = ent_ok (is_ddb s) m f" by (intro ent_ok_cong3) auto
      with s f show ?thesis by (simp add: sec_ok_def)
    qed
    moreover have "m5 b = m b" if "b \<in> {cs_sec s, cs_name s}" for b
      using sec_nodes' [OF s that] that by (intro old5 sdom) (auto simp: sec_body_sets)
    moreover have "distinct (sec_body (with_ents s (cs_ents s @ [e])))"
    proof -
      have "sec_body (with_ents s (cs_ents s @ [e])) = sec_body s @ ent_fp e" by (simp add: sec_body_def)
      moreover have "distinct (ent_fp e)" using diff by (auto simp: e_def ent_fp_def)
      moreover have "set (sec_body s) \<inter> set (ent_fp e) = {}" using fresh sdom by blast
      ultimately show ?thesis using s by (simp add: sec_ok_def)
    qed
    ultimately show ?thesis using s m5(2) eok key(2) by (auto simp: sec_ok_def e_def)
  qed
  have "cfg_ok m5 c l (S1 @ with_ents s (cs_ents s @ [e]) # S2)"
  proof (rule cfg_update [OF ok s5])
    fix a assume "a \<in> set (sec_body (with_ents s (cs_ents s @ [e])))"
    then show "a \<in> set (sec_body s) \<or> m a = None" using fresh by (auto simp: sec_body_def)
  next
    fix a assume "m a \<noteq> None" "a \<notin> set (sec_body s)"
    then show "m5 a = m a" using nodes_in_fp(1) [of "cs_ents s"] by (intro old5) (auto simp: sec_body_def)
  next
    have "NULL \<notin> dom m5" using 1(1) 2(1) 3(1) 4(1) null by (auto simp: m5(4) m4_def m3_def m2_def m1_def)
    then show "m5 NULL = None" by auto
  qed simp_all
  moreover have "card (dom m5) \<le> card (dom m) + 4"
  proof -
    have "dom m5 = insert a4 (insert a3 (insert a2 (insert a1 (dom m))))"
      unfolding m5(4) by (auto simp: m4_def m3_def m2_def m1_def)
    then show ?thesis using diff 1(2) by (simp add: card_insert_if)
  qed
  moreover have "m5 a = m a" if "m a \<noteq> None" "a \<notin> set (sec_body s)" for a
    using that nodes_in_fp(1) [of "cs_ents s"] by (intro old5) (auto simp: sec_body_def)
  ultimately show ?thesis using that [of m5 e] new m5(1) fresh by (simp add: e_def)
qed

text \<open>A new value for an entry; the block of the old value may be used again for it.\<close>

definition dup_value :: "bool \<Rightarrow> byte list \<Rightarrow> byte list option" where
  "dup_value ddb val = (if ddb then if BTIF_BD_ADDR_SIZE \<le> length val then Some (take BTIF_BD_ADDR_SIZE val @ [0]) else None
     else map_option (\<lambda>v. v @ [0]) (cstr val))"

lemma dup_value_0: "dup_value ddb val = Some vb \<Longrightarrow> 0 \<in> set vb"
  by (auto simp: dup_value_def split: if_splits)

lemma dup_value_ok:
  assumes "has_room k alloc" "card (dom m) + Suc j \<le> k" "dup_value ddb val = Some vb"
  obtains a where "(if ddb then bdaddrdup alloc val BTIF_BD_ADDR_SIZE m else strdup_ext alloc val m) = Some (a, m(a \<mapsto> C_data (O_chars vb)))"
    "a \<noteq> NULL" "m a = None"
proof (cases ddb)
  case True
  with assms that [of "alloc m 7"] bdaddrdup_ok [OF assms(1,2), of BTIF_BD_ADDR_SIZE val] alloc_step(1,2) [OF assms(1,2)]
  show ?thesis by (auto simp: dup_value_def split: if_splits)
next
  case False
  then obtain v where v: "cstr val = Some v" "vb = v @ [0]" using assms(3) by (auto simp: dup_value_def)
  with False that [of "alloc m (length v + 1)"] strdup_ok [OF assms(1,2) v(1)] alloc_step(1,2) [OF assms(1,2)]
  show ?thesis by auto
qed

lemma distinct_reorder: "distinct xs \<Longrightarrow> set ys = set xs \<Longrightarrow> length ys = length xs \<Longrightarrow> distinct ys"
  by (metis card_distinct distinct_card)

lemma entry_replace:
  assumes ok: "cfg_ok m c l (S1 @ s # S2)" and es: "cs_ents s = es1 @ e # es2"
    and room: "has_room k alloc" "card (dom m) \<le> k" and val: "dup_value (is_ddb s) val = Some vb"
  obtains m' a where
    "do { m \<leftarrow> cfg_free (ce_val e) m;
          (v, m) \<leftarrow> (if is_ddb s then bdaddrdup alloc val BTIF_BD_ADDR_SIZE m else strdup_ext alloc val m);
          Some (m(ce_ent e \<mapsto> C_data (O_entry \<lparr>entry_key = ce_key e, entry_value = v\<rparr>))) } = Some m'"
    "cfg_ok m' c l (S1 @ with_ents s (es1 @ Cent (ce_node e) (ce_ent e) (ce_key e) a (ce_kid e) vb # es2) # S2)"
    "\<And>b. m b \<noteq> None \<Longrightarrow> b \<notin> set (sec_body s) \<Longrightarrow> m' b = m b" "card (dom m') \<le> card (dom m)"
proof -
  have null: "m NULL = None" and s: "sec_ok m s" using ok by (auto simp: cfg_ok_def)
  have sdom: "m b \<noteq> None" if "b \<in> set (sec_body s)" for b
    using sec_ok_dom [OF s that] .
  have e: "ent_ok (is_ddb s) m e" using s es by (simp add: sec_ok_def)
  have v: "m (ce_val e) \<noteq> None" "ce_val e \<noteq> NULL" "ce_ent e \<noteq> NULL" using e null by (auto simp: ent_ok_def)
  define m1 where "m1 = m(ce_val e := None)"
  have "card (dom m) = Suc (card (dom m1))"
  proof -
    have "ce_val e \<in> dom m" using v(1) by auto
    then have "card (dom m) = Suc (card (dom m - {ce_val e}))" by (intro card.remove) simp
    then show ?thesis by (simp add: m1_def)
  qed
  then have r1: "card (dom m1) + Suc 0 \<le> k" and c1: "Suc (card (dom m1)) = card (dom m)" using room(2) by auto
  obtain a where a: "(if is_ddb s then bdaddrdup alloc val BTIF_BD_ADDR_SIZE m1 else strdup_ext alloc val m1) = Some (a, m1(a \<mapsto> C_data (O_chars vb)))"
      "a \<noteq> NULL" "m1 a = None"
    by (rule dup_value_ok [OF room(1) r1 val])
  define m' where "m' = m1(a \<mapsto> C_data (O_chars vb), ce_ent e \<mapsto> C_data (O_entry \<lparr>entry_key = ce_key e, entry_value = a\<rparr>))"
  have run: "do { m \<leftarrow> cfg_free (ce_val e) m;
          (v, m) \<leftarrow> (if is_ddb s then bdaddrdup alloc val BTIF_BD_ADDR_SIZE m else strdup_ext alloc val m);
          Some (m(ce_ent e \<mapsto> C_data (O_entry \<lparr>entry_key = ce_key e, entry_value = v\<rparr>))) } = Some m'"
  proof -
    have "cfg_free (ce_val e) m = Some m1" using v by (auto simp: cfg_free_def pool_free_def m1_def)
    then show ?thesis using a(1) by (simp add: m'_def)
  qed
  let ?e = "Cent (ce_node e) (ce_ent e) (ce_key e) a (ce_kid e) vb"
  let ?s = "with_ents s (es1 @ ?e # es2)"
  have dist: "distinct (sec_body s)" using s by (simp add: sec_ok_def)
  have ain: "a = ce_val e \<or> m a = None" using a(3) by (auto simp: m1_def split: if_splits)
  have aout: "a \<noteq> b" if "b \<in> set (sec_body s)" "b \<noteq> ce_val e" for b
    using ain that(2) sdom [OF that(1)] by auto
  have mem: "ce_val e \<in> set (sec_body s)" "ce_ent e \<in> set (sec_body s)" using es by (auto simp: sec_body_sets)
  have keep: "m' b = m b" if "b \<noteq> ce_val e" "b \<noteq> a" "b \<noteq> ce_ent e" for b
    using that by (simp add: m'_def m1_def)
  have s': "sec_ok m' ?s"
  proof -
    have body: "sec_body s = cs_sec s # cs_name s # cs_list s # ents_fp es1 @ [ce_node e, ce_ent e, ce_key e, ce_val e] @ ents_fp es2"
      by (simp add: sec_body_def es ent_fp_def)
    have d: "distinct (ce_val e # ce_ent e # ce_node e # ce_key e # cs_sec s # cs_name s # cs_list s # ents_fp (es1 @ es2))"
      by (rule distinct_reorder [OF dist]; unfold body) auto
    have sub: "b \<in> set (sec_body s)" if "b \<in> set (ce_val e # ce_ent e # ce_node e # ce_key e # cs_sec s # cs_name s # cs_list s # ents_fp (es1 @ es2))" for b
      using that unfolding body by auto
    have keep': "m' b = m b" if "b \<in> set (ce_node e # ce_key e # cs_sec s # cs_name s # cs_list s # ents_fp (es1 @ es2))" for b
    proof (rule keep)
      show *: "b \<noteq> ce_val e" "b \<noteq> ce_ent e" using that d by auto
      have "b \<in> set (sec_body s)" using that by (intro sub) auto
      then show "b \<noteq> a" using aout * by blast
    qed
    have "is_list m' (cs_list s) (map ent_pair (es1 @ e # es2)) ENTRY_FREE = is_list m (cs_list s) (map ent_pair (es1 @ e # es2)) ENTRY_FREE"
      by (rule is_list_cong, rule keep') (auto simp: set_ents_fp ent_fp_def)
    moreover have "ent_ok (is_ddb s) m' f" if f: "f \<in> set (es1 @ es2)" for f
    proof -
      have "ent_ok (is_ddb s) m' f = ent_ok (is_ddb s) m f"
        by (rule ent_ok_cong3; rule keep') (use f in \<open>auto simp: set_ents_fp ent_fp_def\<close>)
      with s f es show ?thesis by (auto simp: sec_ok_def)
    qed
    moreover have "ent_ok (is_ddb s) m' ?e"
    proof -
      have "m' (ce_key e) = m (ce_key e)" by (rule keep') simp
      moreover have "ce_ent e \<noteq> a" using aout [OF mem(2)] d by auto
      ultimately show ?thesis using e dup_value_0 [OF val] by (simp add: ent_ok_def m'_def)
    qed
    moreover have "distinct (sec_body ?s)"
    proof -
      have "a \<notin> set (ce_ent e # ce_node e # ce_key e # cs_sec s # cs_name s # cs_list s # ents_fp (es1 @ es2))"
      proof
        assume *: "a \<in> set (ce_ent e # ce_node e # ce_key e # cs_sec s # cs_name s # cs_list s # ents_fp (es1 @ es2))"
        then have "a \<in> set (sec_body s)" by (intro sub) auto
        moreover have "a \<noteq> ce_val e" using * d by auto
        ultimately show False using aout by blast
      qed
      with dist es show ?thesis by (auto simp: sec_body_def ent_fp_def)
    qed
    moreover have "m' (cs_sec s) = m (cs_sec s)" "m' (cs_name s) = m (cs_name s)" by (rule keep', simp)+
    ultimately show ?thesis using s es by (auto simp: sec_ok_def)
  qed
  have frame: "m' b = m b" if "m b \<noteq> None" "b \<notin> set (sec_body s)" for b
    using that ain mem by (intro keep) auto
  have "cfg_ok m' c l (S1 @ ?s # S2)"
  proof (rule cfg_update [OF ok s' _ _ _ _ frame])
    fix b assume "b \<in> set (sec_body ?s)"
    then show "b \<in> set (sec_body s) \<or> m b = None" using ain es mem by (auto simp: sec_body_sets)
  next
    show "m' NULL = None" using null a(2) v by (simp add: m'_def m1_def)
  qed simp_all
  moreover have "card (dom m') \<le> card (dom m)"
  proof -
    have "dom m' = insert a (dom m1)"
      using e mem aout [OF mem(2)] dist es by (auto simp: m'_def m1_def ent_ok_def sec_body_def ent_fp_def)
    then show ?thesis using c1 by (simp add: card_insert_if)
  qed
  ultimately show ?thesis using run frame by (intro that) auto
qed

text \<open>A new section without entries behind the others.\<close>

lemma section_append:
  assumes ok: "cfg_ok m c l S" and room: "has_room k alloc" "card (dom m) + 4 \<le> k"
    and nm: "cstr nm = Some n" "n \<notin> cs_nm ` set S"
  obtains m' s where
    "do { (sec, m) \<leftarrow> nvrec_section_new alloc nm m; sections \<leftarrow> rd_config m c;
          (_, m) \<leftarrow> list_append_ext alloc sections sec m; Some (sec, m) } = Some (cs_sec s, m')"
    "cfg_ok m' c l (S @ [s])" "cs_nm s = n" "cs_ents s = []"
    "\<And>a. m a \<noteq> None \<Longrightarrow> a \<notin> set (c # l # secs_fp S) \<Longrightarrow> m' a = m a" "card (dom m') \<le> card (dom m) + 4"
    "\<And>a. a \<in> set (sec_body s) \<Longrightarrow> m a = None" "m (cs_node s) = None"
proof -
  have null: "m NULL = None" and c: "m c = Some (C_data (O_config l))" using ok by (auto simp: cfg_ok_def)
  have dom: "m a \<noteq> None" if "a \<in> set (c # l # secs_fp S)" for a using cfg_ok_dom [OF ok that] .
  define a1 where "a1 = alloc m 8"
  define m1 where "m1 = m(a1 \<mapsto> C_raw 8)"
  define a2 where "a2 = alloc m1 (length n + 1)"
  define m2 where "m2 = m1(a2 \<mapsto> C_data (O_chars (n @ [0])))"
  define a3 where "a3 = alloc m2 16"
  define m3 where "m3 = m2(a3 \<mapsto> mk_list NULL NULL 0 ENTRY_FREE)"
  define m4 where "m4 = m3(a1 \<mapsto> C_data (O_section \<lparr>section_name = a2, section_entries = a3\<rparr>))"
  define a4 where "a4 = alloc m4 8"
  have r0: "card (dom m) + Suc 3 \<le> k" using room(2) by simp
  note 1 = alloc_step [OF room(1) r0, of 8, folded a1_def]
  have r1: "card (dom m1) + Suc 2 \<le> k" using 1(3) by (simp add: m1_def)
  note 2 = alloc_step [OF room(1) r1, of "length n + 1", folded a2_def]
  have r2: "card (dom m2) + Suc 1 \<le> k" using 2(3) by (simp add: m2_def)
  note 3 = alloc_step [OF room(1) r2, of 16, folded a3_def]
  have "card (dom m4) = card (dom m3)" unfolding m4_def
    by (rule card_dom_upd) (simp add: m3_def m2_def m1_def)
  then have r3: "card (dom m4) + Suc 0 \<le> k" using 3(3) by (simp add: m3_def)
  note 4 = alloc_step [OF room(1) r3, of 8, folded a4_def]
  have diff: "a1 \<noteq> a2" "a1 \<noteq> a3" "a2 \<noteq> a3" "a4 \<noteq> a1" "a4 \<noteq> a2" "a4 \<noteq> a3" "m a2 = None" "m a3 = None" "m a4 = None"
    using 2(2) 3(2) 4(2) by (auto simp: m1_def m2_def m3_def m4_def split: if_splits)
  have new: "nvrec_section_new alloc nm m = Some (a1, m4)"
    using 1(5) strdup_ok [OF room(1) r1 nm(1)] list_new_is_list(1) [of alloc m2 ENTRY_FREE] 3(1)
    by (simp add: nvrec_section_new_def m4_def m3_def m2_def m1_def [symmetric] a2_def a3_def)
  have same4: "m4 a = m a" if "m a \<noteq> None" for a
    using that diff 1(2) by (auto simp: m4_def m3_def m2_def m1_def)
  have "m4 a = m a" if "a = NULL \<or> a \<in> set (c # l # secs_fp S)" for a
  proof (cases "a = NULL")
    case True
    then show ?thesis using 1(1) 2(1) 3(1) null by (auto simp: m4_def m3_def m2_def m1_def)
  next
    case False
    then show ?thesis using that dom same4 by blast
  qed
  then have ok4: "cfg_ok m4 c l S" using ok cfg_ok_cong [of c l S m4 m] by blast
  obtain m5 where m5: "list_append_ext alloc l a1 m4 = Some (True, m5)"
      "is_list m5 l (map sec_pair S @ [(a4, a1)]) SECTION_FREE"
      "\<And>b. b \<noteq> a4 \<Longrightarrow> b \<noteq> l \<Longrightarrow> b \<notin> fst ` set (map sec_pair S) \<Longrightarrow> m5 b = m4 b"
      "dom m5 = insert a4 (dom m4)"
    by (rule list_append_is_list [where alloc = alloc and m = m4 and p = l and d = a1 and a = a4
        and xs = "map sec_pair S" and cb = SECTION_FREE])
      (use ok4 1(1) a4_def 4(1,2) in \<open>auto simp: cfg_ok_def\<close>)
  define s where "s = Csec a4 a1 a2 a3 n []"
  have body: "set (sec_body s) = {a1, a2, a3}" by (auto simp: s_def sec_body_def)
  have fresh: "m a = None" if "a \<in> {a1, a2, a3, a4}" for a
    using that diff 1(2) by auto
  have new5: "m5 b = m4 b" if "b \<in> {a1, a2, a3}" for b
  proof (rule m5(3))
    show "b \<noteq> a4" using that diff by auto
    have "b \<notin> set (c # l # secs_fp S)" using fresh [of b] dom [of b] that by auto
    then show "b \<noteq> l" "b \<notin> fst ` set (map sec_pair S)" using nodes_in_fp(2) [of S] by auto
  qed
  have old5: "m5 b = m b" if "m b \<noteq> None" "b \<noteq> l" "b \<notin> fst ` set (map sec_pair S)" for b
    using m5(3) [of b] that same4 [OF that(1)] diff(9) by (cases "b = a4") simp_all
  have s5: "sec_ok m5 s"
    using new5 diff cstr_no_0 [OF nm(1)] by (auto simp: s_def sec_ok_def m4_def m3_def m2_def is_list_def sec_body_def)
  have dist: "distinct (c # l # secs_fp S)" using ok by (simp add: cfg_ok_def)
  have t5: "sec_ok m5 t" if t: "t \<in> set S" for t
  proof -
    have "m5 b = m b" if b: "b \<in> set (sec_body t)" for b
    proof (rule old5)
      obtain S1 S2 where S: "S = S1 @ t # S2" using t by (meson split_list)
      show "m b \<noteq> None" "b \<noteq> l" using dom [of b] b dist by (auto simp: S)
      show "b \<notin> fst ` set (map sec_pair S)" using b dist by (auto simp: S set_secs_fp)
    qed
    then have "sec_ok m5 t = sec_ok m t" by (rule sec_ok_cong)
    with t ok show ?thesis by (simp add: cfg_ok_def)
  qed
  have "cfg_ok m5 c l (S @ [s])"
  proof -
    have "m5 c = m c" using c dist nodes_in_fp(2) [of S] by (intro old5) auto
    moreover have "NULL \<notin> dom m5" using 1(1) 2(1) 3(1) 4(1) null by (auto simp: m5(4) m4_def m3_def m2_def m1_def)
    moreover have "distinct (c # l # secs_fp (S @ [s]))"
    proof -
      have "secs_fp (S @ [s]) = secs_fp S @ [a4, a1, a2, a3]" by (simp add: s_def sec_body_def)
      moreover have "set (c # l # secs_fp S) \<inter> {a4, a1, a2, a3} = {}" using dom fresh by blast
      ultimately show ?thesis using dist diff by auto
    qed
    ultimately show ?thesis using m5(2) s5 t5 c nm ok by (auto simp: cfg_ok_def s_def)
  qed
  moreover have "card (dom m5) \<le> card (dom m) + 4"
  proof -
    have "dom m5 = insert a4 (insert a3 (insert a2 (insert a1 (dom m))))"
      unfolding m5(4) by (auto simp: m4_def m3_def m2_def m1_def)
    then show ?thesis using diff 1(2) by (simp add: card_insert_if)
  qed
  moreover have "do { (sec, m) \<leftarrow> nvrec_section_new alloc nm m; sections \<leftarrow> rd_config m c;
          (_, m) \<leftarrow> list_append_ext alloc sections sec m; Some (sec, m) } = Some (cs_sec s, m5)"
    using new m5(1) same4 [of c] c by (simp add: s_def)
  moreover have "m5 a = m a" if "m a \<noteq> None" "a \<notin> set (c # l # secs_fp S)" for a
    using that nodes_in_fp(2) [of S] by (intro old5) auto
  ultimately show ?thesis using fresh by (intro that) (auto simp: body, auto simp: s_def)
qed

section \<open>Setting and getting values\<close>

lemma set_in_section_append:
  assumes ok: "cfg_ok m c l (S1 @ s # S2)" and room: "has_room k alloc" "card (dom m) + 4 \<le> k"
    and key: "key_of (is_ddb s) key = Some kid" "kid \<notin> ce_kid ` set (cs_ents s)"
    and val: "cstr val = Some v" and nm: "cstr nm = Some (cs_nm s)"
  obtains m' e where "set_in_section alloc (cs_sec s) nm key val m = Some m'"
    "cfg_ok m' c l (S1 @ with_ents s (cs_ents s @ [e]) # S2)" "ce_kid e = kid" "ce_vb e = v @ [0]"
    "\<And>a. m a \<noteq> None \<Longrightarrow> a \<notin> set (sec_body s) \<Longrightarrow> m' a = m a" "card (dom m') \<le> card (dom m) + 4"
    "\<And>a. a \<in> set (ent_fp e) \<Longrightarrow> m a = None"
proof -
  have s: "sec_ok m s" using ok by (simp add: cfg_ok_def)
  have ddb: "strcmp_eq nm (section_name_ddbrec @ [0]) = Some (is_ddb s)"
    using nm by (simp add: strcmp_eq_def section_name_ddbrec_def cstr_def)
  obtain h where h: "m (cs_list s) = Some (mk_list h (last_node (map ent_pair (cs_ents s))) (of_nat (length (map ent_pair (cs_ents s)))) ENTRY_FREE)"
      "lseg m h (map ent_pair (cs_ents s)) NULL"
    using s by (auto simp: sec_ok_def is_list_def)
  have "find_ent kid (cs_ents s) = None" using key(2) by (auto simp: find_ent_def find_None_iff)
  then have loop: "entry_find_loop (is_ddb s) key h m = Some NULL"
    using entry_find_loop_spec [OF h(2) _ key(1)] s by (simp add: sec_ok_def)
  obtain m' e where *: "do { (entry, m) \<leftarrow> nvrec_entry_new alloc key val nm m; (_, m) \<leftarrow> list_append_ext alloc (cs_list s) entry m; Some m } = Some m'"
    "cfg_ok m' c l (S1 @ with_ents s (cs_ents s @ [e]) # S2)" "ce_kid e = kid" "ce_vb e = v @ [0]"
    "\<And>a. m a \<noteq> None \<Longrightarrow> a \<notin> set (sec_body s) \<Longrightarrow> m' a = m a" "card (dom m') \<le> card (dom m) + 4"
    "\<And>a. a \<in> set (ent_fp e) \<Longrightarrow> m a = None"
    by (rule entry_append [OF ok room key val nm], rule that)
  have "set_in_section alloc (cs_sec s) nm key val m = Some m'"
    using s ddb loop h(1) *(1) by (simp add: set_in_section_def sec_ok_def)
  then show ?thesis using * by (intro that)
qed

lemma set_in_section_replace:
  assumes ok: "cfg_ok m c l (S1 @ s # S2)" and es: "cs_ents s = es1 @ e # es2"
    and room: "has_room k alloc" "card (dom m) \<le> k"
    and key: "key_of (is_ddb s) key = Some (ce_kid e)"
    and val: "dup_value (is_ddb s) val = Some vb" and nm: "cstr nm = Some (cs_nm s)"
  obtains m' a where "set_in_section alloc (cs_sec s) nm key val m = Some m'"
    "cfg_ok m' c l (S1 @ with_ents s (es1 @ Cent (ce_node e) (ce_ent e) (ce_key e) a (ce_kid e) vb # es2) # S2)"
    "\<And>b. m b \<noteq> None \<Longrightarrow> b \<notin> set (sec_body s) \<Longrightarrow> m' b = m b" "card (dom m') \<le> card (dom m)"
proof -
  have s: "sec_ok m s" using ok by (simp add: cfg_ok_def)
  have ddb: "strcmp_eq nm (section_name_ddbrec @ [0]) = Some (is_ddb s)"
    using nm by (simp add: strcmp_eq_def section_name_ddbrec_def cstr_def)
  obtain h where h: "m (cs_list s) = Some (mk_list h (last_node (map ent_pair (cs_ents s))) (of_nat (length (map ent_pair (cs_ents s)))) ENTRY_FREE)"
      "lseg m h (map ent_pair (cs_ents s)) NULL"
    using s by (auto simp: sec_ok_def is_list_def)
  have e: "ent_ok (is_ddb s) m e" "ce_ent e \<noteq> NULL" using s es ent_nonnull [OF ok, of s e] by (auto simp: sec_ok_def)
  have "ce_kid e \<notin> ce_kid ` set es1" using s es by (auto simp: sec_ok_def)
  then have "find_ent (ce_kid e) (cs_ents s) = Some e"
    unfolding es find_ent_def by (induction es1) auto
  then have loop: "entry_find_loop (is_ddb s) key h m = Some (ce_ent e)"
    using entry_find_loop_spec [OF h(2) _ key] s by (simp add: sec_ok_def)
  obtain m' a where *: "do { m \<leftarrow> cfg_free (ce_val e) m;
          (v, m) \<leftarrow> (if is_ddb s then bdaddrdup alloc val BTIF_BD_ADDR_SIZE m else strdup_ext alloc val m);
          Some (m(ce_ent e \<mapsto> C_data (O_entry \<lparr>entry_key = ce_key e, entry_value = v\<rparr>))) } = Some m'"
    "cfg_ok m' c l (S1 @ with_ents s (es1 @ Cent (ce_node e) (ce_ent e) (ce_key e) a (ce_kid e) vb # es2) # S2)"
    "\<And>b. m b \<noteq> None \<Longrightarrow> b \<notin> set (sec_body s) \<Longrightarrow> m' b = m b" "card (dom m') \<le> card (dom m)"
    by (rule entry_replace [OF ok es room val], rule that)
  have "set_in_section alloc (cs_sec s) nm key val m = Some m'"
    using s ddb loop h(1) *(1) e by (simp add: set_in_section_def sec_ok_def ent_ok_def)
  then show ?thesis using * by (intro that)
qed

lemma find_sec_split: "cfg_ok m c l S \<Longrightarrow> find_sec n S = Some s \<Longrightarrow> \<exists>S1 S2. S = S1 @ s # S2 \<and> cs_nm s = n"
  using find_sec_Some [of n S s] by (metis split_list)

lemma find_sec_None: "find_sec n S = None \<longleftrightarrow> n \<notin> cs_nm ` set S"
  by (auto simp: find_sec_def find_None_iff)

lemma find_sec_mid: "cfg_ok m c l (S1 @ s # S2) \<Longrightarrow> find_sec (cs_nm s) (S1 @ s # S2) = Some s"
proof -
  assume "cfg_ok m c l (S1 @ s # S2)"
  then have "cs_nm s \<notin> cs_nm ` set S1" by (auto simp: cfg_ok_def)
  then show ?thesis unfolding find_sec_def by (induction S1) auto
qed

text \<open>Setting a value that is not there yet.\<close>

lemma set_string_append:
  assumes ok: "cfg_ok m c l S" and room: "has_room k alloc" "card (dom m) + 8 \<le> k"
    and nm: "cstr nm = Some n" and key: "key_of (n = section_name_ddbrec) key = Some kid"
    and none: "lookup_ent n kid S = None" and val: "cstr val = Some v"
  obtains m' S1 s S2 e where "nvrec_config_set_string alloc c nm key val m = Some m'"
    "cfg_ok m' c l (S1 @ with_ents s (cs_ents s @ [e]) # S2)" "cs_nm s = n" "ce_kid e = kid" "ce_vb e = v @ [0]"
    "S = S1 @ s # S2 \<or> S = S1 \<and> S2 = [] \<and> cs_ents s = [] \<and> find_sec n S = None"
    "\<And>a. m a \<noteq> None \<Longrightarrow> a \<notin> set (c # l # secs_fp S) \<Longrightarrow> m' a = m a" "card (dom m') \<le> card (dom m) + 8"
    "\<And>a. a \<in> set (ent_fp e) \<Longrightarrow> m a = None" "find_sec n S \<noteq> None \<Longrightarrow> card (dom m') \<le> card (dom m) + 4"
proof (cases "find_sec n S")
  case (Some s)
  obtain S1 S2 where S: "S = S1 @ s # S2" "cs_nm s = n" using find_sec_split [OF ok Some] by blast
  have kid: "kid \<notin> ce_kid ` set (cs_ents s)"
    using none Some by (auto simp: lookup_ent_def find_ent_def find_None_iff)
  have run: "nvrec_config_set_string alloc c nm key val m = set_in_section alloc (cs_sec s) nm key val m"
    using section_find_spec [OF ok nm] Some sec_nonnull [OF ok, of s] S
    by (simp add: nvrec_config_set_string_def)
  from room(2) have room2: "card (dom m) + 4 \<le> k" by simp
  have key': "key_of (is_ddb s) key = Some kid" "cstr nm = Some (cs_nm s)" using nm key S(2) by simp_all
  obtain m' e where *: "set_in_section alloc (cs_sec s) nm key val m = Some m'"
    "cfg_ok m' c l (S1 @ with_ents s (cs_ents s @ [e]) # S2)" "ce_kid e = kid" "ce_vb e = v @ [0]"
    "\<And>a. m a \<noteq> None \<Longrightarrow> a \<notin> set (sec_body s) \<Longrightarrow> m' a = m a" "card (dom m') \<le> card (dom m) + 4"
    "\<And>a. a \<in> set (ent_fp e) \<Longrightarrow> m a = None"
    by (rule set_in_section_append [OF ok [unfolded S(1)] room(1) room2 key'(1) kid val key'(2)], rule that)
  show ?thesis using run * S by (intro that [of m' S1 s e S2]) auto
next
  case None
  have n: "n \<notin> cs_nm ` set S" using None by (simp add: find_sec_None)
  from room(2) have room2: "card (dom m) + 4 \<le> k" by simp
  obtain m1 s where 1: "do { (sec, m) \<leftarrow> nvrec_section_new alloc nm m; sections \<leftarrow> rd_config m c;
          (_, m) \<leftarrow> list_append_ext alloc sections sec m; Some (sec, m) } = Some (cs_sec s, m1)"
    "cfg_ok m1 c l (S @ [s])" "cs_nm s = n" "cs_ents s = []"
    "\<And>a. m a \<noteq> None \<Longrightarrow> a \<notin> set (c # l # secs_fp S) \<Longrightarrow> m1 a = m a" "card (dom m1) \<le> card (dom m) + 4"
    "\<And>a. a \<in> set (sec_body s) \<Longrightarrow> m a = None" "m (cs_node s) = None"
    by (rule section_append [OF ok room(1) room2 nm n], rule that)
  from 1(6) room(2) have room3: "card (dom m1) + 4 \<le> k" by simp
  have run: "nvrec_config_set_string alloc c nm key val m = set_in_section alloc (cs_sec s) nm key val m1"
    using section_find_spec [OF ok nm] None 1(1) by (simp add: nvrec_config_set_string_def)
  have ok1: "cfg_ok m1 c l (S @ s # [])" using 1(2) by simp
  have kid: "kid \<notin> ce_kid ` set (cs_ents s)" using 1(4) by simp
  have key': "key_of (is_ddb s) key = Some kid" "cstr nm = Some (cs_nm s)" using nm key 1(3) by simp_all
  obtain m' e where *: "set_in_section alloc (cs_sec s) nm key val m1 = Some m'"
    "cfg_ok m' c l (S @ with_ents s (cs_ents s @ [e]) # [])" "ce_kid e = kid" "ce_vb e = v @ [0]"
    "\<And>a. m1 a \<noteq> None \<Longrightarrow> a \<notin> set (sec_body s) \<Longrightarrow> m' a = m1 a" "card (dom m') \<le> card (dom m1) + 4"
    "\<And>a. a \<in> set (ent_fp e) \<Longrightarrow> m1 a = None"
    by (rule set_in_section_append [OF ok1 room(1) room3 key'(1) kid val key'(2)], rule that)
  have frame: "m' a = m a" if "m a \<noteq> None" "a \<notin> set (c # l # secs_fp S)" for a
  proof -
    have "m1 a = m a" by (rule 1(5) [OF that])
    moreover have "a \<notin> set (sec_body s)" using 1(7) [of a] that(1) by auto
    ultimately show ?thesis using *(5) [of a] that(1) by simp
  qed
  have new: "m a = None" if "a \<in> set (ent_fp e)" for a
  proof (rule ccontr)
    assume a: "m a \<noteq> None"
    have "a \<notin> set (c # l # secs_fp S)" using cfg_ok_dom [OF 1(2), of a] *(7) [OF that] by auto
    then show False using 1(5) a *(7) [OF that] by simp
  qed
  show ?thesis using run * 1(3,4,6) None frame new by (intro that [of m' S s e "[]"]) auto
qed

text \<open>The value under a name and a key, and what setting one does to all of them.\<close>

definition cfg_value :: "byte list \<Rightarrow> byte list \<Rightarrow> csec list \<Rightarrow> byte list option" where
  "cfg_value n k S = map_option cval (lookup_ent n k S)"

lemma takeWhile_str: "0 \<notin> set v \<Longrightarrow> takeWhile (\<lambda>c. c \<noteq> 0) (v @ [0 :: byte]) = v"
  by (induction v) auto

lemma find_SomeD: "find P xs = Some x \<Longrightarrow> x \<in> set xs \<and> P x"
  by (induction xs) (auto split: if_splits)

lemma find_append: "find P (xs @ ys) = (case find P xs of None \<Rightarrow> find P ys | Some x \<Rightarrow> Some x)"
  by (induction xs) auto

lemma find_sec_append: "find_sec n (S @ T) = (case find_sec n S of None \<Rightarrow> find_sec n T | Some s \<Rightarrow> Some s)"
  unfolding find_sec_def by (rule find_append)

lemma find_sec_Cons: "find_sec n (s # S) = (if cs_nm s = n then Some s else find_sec n S)"
  by (simp add: find_sec_def)

lemma find_ent_append: "find_ent k (es @ fs) = (case find_ent k es of None \<Rightarrow> find_ent k fs | Some e \<Rightarrow> Some e)"
  unfolding find_ent_def by (rule find_append)

lemma find_ent_Cons: "find_ent k (e # es) = (if ce_kid e = k then Some e else find_ent k es)"
  by (simp add: find_ent_def)

lemma find_ent_Nil: "find_ent k [] = None"
  by (simp add: find_ent_def)

lemmas find_simps = find_ent_Nil find_sec_append find_sec_Cons find_ent_append find_ent_Cons

text \<open>Only the section that changes matters for its name.\<close>

lemma lookup_mid:
  assumes "cs_nm s \<notin> cs_nm ` set S1" "cs_nm s' = cs_nm s"
  shows "lookup_ent n k (S1 @ s' # S2) = (if n = cs_nm s then find_ent k (cs_ents s') else lookup_ent n k (S1 @ S2))"
proof -
  have "find_sec (cs_nm s) S1 = None" using assms(1) by (simp add: find_sec_None)
  with assms(2) show ?thesis
    by (auto simp: lookup_ent_def find_simps split: option.splits)
qed

lemma nm_fresh_prefix: "cfg_ok m c l (S1 @ s # S2) \<Longrightarrow> cs_nm s \<notin> cs_nm ` set S1"
  by (auto simp: cfg_ok_def)

lemma dup_value_str:
  assumes "cstr val = Some v" "ddb \<Longrightarrow> BTIF_BD_ADDR_SIZE \<le> length val"
  obtains vb where "dup_value ddb val = Some vb"
    "takeWhile (\<lambda>c. c \<noteq> 0) vb = (if ddb then takeWhile (\<lambda>c. c \<noteq> 0) (take BTIF_BD_ADDR_SIZE val @ [0]) else v)"
proof (cases ddb)
  case True
  with assms that [of "take BTIF_BD_ADDR_SIZE val @ [0]"] show ?thesis by (simp add: dup_value_def)
next
  case False
  with assms that [of "v @ [0]"] cstr_no_0 [OF assms(1)] show ?thesis by (simp add: dup_value_def takeWhile_str)
qed

lemma set_string_value:
  assumes ok: "cfg_ok m c l S" and room: "has_room k alloc" "card (dom m) + 8 \<le> k"
    and nm: "cstr nm = Some n" and key: "key_of (n = section_name_ddbrec) key = Some kid"
    and val: "cstr val = Some v" "n = section_name_ddbrec \<Longrightarrow> BTIF_BD_ADDR_SIZE \<le> length val"
  obtains m' S' where "nvrec_config_set_string alloc c nm key val m = Some m'" "cfg_ok m' c l S'"
    "\<And>n' k'. cfg_value n' k' S' = (if n' = n \<and> k' = kid
       then Some (if n = section_name_ddbrec \<and> lookup_ent n kid S \<noteq> None
                  then takeWhile (\<lambda>c. c \<noteq> 0) (take BTIF_BD_ADDR_SIZE val @ [0]) else v)
       else cfg_value n' k' S)"
proof (cases "lookup_ent n kid S")
  case None
  obtain m' S1 s S2 e where *: "nvrec_config_set_string alloc c nm key val m = Some m'"
    "cfg_ok m' c l (S1 @ with_ents s (cs_ents s @ [e]) # S2)" "cs_nm s = n" "ce_kid e = kid" "ce_vb e = v @ [0]"
    "S = S1 @ s # S2 \<or> S = S1 \<and> S2 = [] \<and> cs_ents s = [] \<and> find_sec n S = None"
    "\<And>a. m a \<noteq> None \<Longrightarrow> a \<notin> set (c # l # secs_fp S) \<Longrightarrow> m' a = m a" "card (dom m') \<le> card (dom m) + 8"
    "\<And>a. a \<in> set (ent_fp e) \<Longrightarrow> m a = None"
    by (rule set_string_append [OF ok room nm key None val(1)], rule that)
  have cv: "cval e = v" using *(5) cstr_no_0 [OF val(1)] by (simp add: cval_def takeWhile_str)
  have pre: "cs_nm (with_ents s (cs_ents s @ [e])) \<notin> cs_nm ` set S1" using nm_fresh_prefix [OF *(2)] .
  have new: "lookup_ent n' k' (S1 @ with_ents s (cs_ents s @ [e]) # S2) =
      (if n' = n then find_ent k' (cs_ents s @ [e]) else lookup_ent n' k' (S1 @ S2))" for n' k'
    using lookup_mid [OF pre refl, of n' k' S2] *(3) by simp
  have old: "lookup_ent n' k' S = (if n' = n then find_ent k' (cs_ents s) else lookup_ent n' k' (S1 @ S2))" for n' k'
    using *(6)
  proof
    assume S: "S = S1 @ s # S2"
    show ?thesis using lookup_mid [of s S1 s n' k' S2] pre *(3) by (simp add: S)
  next
    assume "S = S1 \<and> S2 = [] \<and> cs_ents s = [] \<and> find_sec n S = None"
    then show ?thesis by (auto simp: lookup_ent_def find_ent_def)
  qed
  have "cfg_value n' k' (S1 @ with_ents s (cs_ents s @ [e]) # S2) =
      (if n' = n \<and> k' = kid then Some v else cfg_value n' k' S)" for n' k'
    using None old [of n kid] *(4) cv by (auto simp: cfg_value_def new old find_simps split: option.splits)
  with *(1,2) None show ?thesis by (intro that) auto
next
  case (Some e)
  then obtain s where s: "find_sec n S = Some s" "find_ent kid (cs_ents s) = Some e"
    by (auto simp: lookup_ent_def bind_eq_Some_conv)
  obtain S1 S2 where S: "S = S1 @ s # S2" "cs_nm s = n" using find_sec_split [OF ok s(1)] by blast
  obtain es1 es2 where es: "cs_ents s = es1 @ e # es2" "ce_kid e = kid"
    using find_ent_Some [OF s(2)] by (meson split_list)
  obtain vb where vb: "dup_value (is_ddb s) val = Some vb"
      "takeWhile (\<lambda>c. c \<noteq> 0) vb = (if is_ddb s then takeWhile (\<lambda>c. c \<noteq> 0) (take BTIF_BD_ADDR_SIZE val @ [0]) else v)"
    by (rule dup_value_str [OF val(1), of "is_ddb s"]) (use val(2) S(2) in auto)
  have h: "key_of (is_ddb s) key = Some (ce_kid e)" "cstr nm = Some (cs_nm s)" "card (dom m) \<le> k"
    using key es(2) S(2) nm room(2) by auto
  obtain m' a where *: "set_in_section alloc (cs_sec s) nm key val m = Some m'"
    "cfg_ok m' c l (S1 @ with_ents s (es1 @ Cent (ce_node e) (ce_ent e) (ce_key e) a (ce_kid e) vb # es2) # S2)"
    "\<And>b. m b \<noteq> None \<Longrightarrow> b \<notin> set (sec_body s) \<Longrightarrow> m' b = m b" "card (dom m') \<le> card (dom m)"
    by (rule set_in_section_replace [OF ok [unfolded S(1)] es(1) room(1) h(3) h(1) vb(1) h(2)], rule that)
  let ?e = "Cent (ce_node e) (ce_ent e) (ce_key e) a (ce_kid e) vb"
  have run: "nvrec_config_set_string alloc c nm key val m = Some m'"
    using section_find_spec [OF ok nm] s(1) sec_nonnull [OF ok, of s] S *(1)
    by (simp add: nvrec_config_set_string_def)
  have pre: "cs_nm s \<notin> cs_nm ` set S1" using nm_fresh_prefix ok S(1) by blast
  have first: "find_ent kid es1 = None"
  proof -
    have "sec_ok m s" using ok S(1) by (simp add: cfg_ok_def)
    then have "distinct (map ce_kid (es1 @ e # es2))" using es(1) by (simp add: sec_ok_def)
    then have "kid \<notin> ce_kid ` set es1" using es(2) by simp
    then show ?thesis unfolding find_ent_def find_None_iff by (blast intro: imageI)
  qed
  have "lookup_ent n' k' (S1 @ with_ents s (es1 @ ?e # es2) # S2) =
      (if n' = n then find_ent k' (es1 @ ?e # es2) else lookup_ent n' k' (S1 @ S2))"
    "lookup_ent n' k' S = (if n' = n then find_ent k' (es1 @ e # es2) else lookup_ent n' k' (S1 @ S2))" for n' k'
    using lookup_mid [OF pre, of "with_ents s (es1 @ ?e # es2)" n' k' S2] lookup_mid [OF pre refl, of n' k' S2] S es(1)
    by simp_all
  then have "cfg_value n' k' (S1 @ with_ents s (es1 @ ?e # es2) # S2) =
      (if n' = n \<and> k' = kid then Some (takeWhile (\<lambda>c. c \<noteq> 0) vb) else cfg_value n' k' S)" for n' k'
    using first es(2) by (auto simp: cfg_value_def find_simps cval_def split: option.splits)
  with run *(2) vb(2) S(2) Some show ?thesis by (intro that) auto
qed

text \<open>
  A configuration without sections, and an allocator that takes the first free address. They show
  that the assumptions of the theorems below can be met, for any room up to the address space.
\<close>

definition first_free :: "nat \<Rightarrow> 'a allocator" where
  "first_free k m n = (case find (\<lambda>a. m a = None) (map of_nat [1..<Suc k]) of Some a \<Rightarrow> a | None \<Rightarrow> NULL)"

lemma first_free_room: "k < 2 ^ 32 \<Longrightarrow> has_room k (first_free k)"
  unfolding has_room_def
proof (intro allI impI)
  fix m :: "'a cmem" and n :: nat
  assume k: "k < 2 ^ 32" and few: "card (dom m) < k"
  let ?as = "map of_nat [1..<Suc k] :: addr list"
  have "inj_on (of_nat :: nat \<Rightarrow> addr) (set [1..<Suc k])"
    by (rule inj_onI) (use k of_nat_u32_eq in auto)
  then have "distinct ?as" by (simp add: distinct_map del: upt_Suc)
  from distinct_card [OF this] have "card (set ?as) = k" by simp
  moreover have "card (set ?as) \<le> card (dom m)" if "set ?as \<subseteq> dom m" using that by (intro card_mono) simp_all
  ultimately have "\<not> set ?as \<subseteq> dom m" using few by linarith
  then obtain a where a: "find (\<lambda>a. m a = None) ?as = Some a"
    by (cases "find (\<lambda>a. m a = None) ?as") (auto simp: find_None_iff domIff)
  then have "a \<in> set ?as" "m a = None" by (auto dest: find_SomeD simp del: upt_Suc)
  moreover from this(1) k have "a \<noteq> NULL"
    using of_nat_u32_eq [of _ 0] by auto
  ultimately show "first_free k m n \<noteq> NULL \<and> m (first_free k m n) = None"
    using a by (simp add: first_free_def)
qed

lemma nvrec_config_new_ok:
  assumes room: "has_room k alloc" "card (dom m) + 2 \<le> k" and null: "m NULL = None"
  obtains c l m' where "nvrec_config_new alloc m = Some (c, m')" "cfg_ok m' c l []" "card (dom m') \<le> card (dom m) + 2"
    "\<And>a. m a \<noteq> None \<Longrightarrow> m' a = m a" "m c = None" "m l = None"
proof -
  define c where "c = alloc m 4"
  define m1 where "m1 = m(c \<mapsto> C_raw 4)"
  define l where "l = alloc m1 16"
  define m' where "m' = m1(l \<mapsto> mk_list NULL NULL 0 SECTION_FREE, c \<mapsto> C_data (O_config l))"
  have r0: "card (dom m) + Suc 1 \<le> k" using room(2) by simp
  note 1 = alloc_step [OF room(1) r0, of 4, folded c_def]
  have r1: "card (dom m1) + Suc 0 \<le> k" using 1(3) by (simp add: m1_def)
  note 2 = alloc_step [OF room(1) r1, of 16, folded l_def]
  have cl: "c \<noteq> l" "m l = None" using 2(2) by (auto simp: m1_def split: if_splits)
  have "nvrec_config_new alloc m = Some (c, m')"
    using 1(5) list_new_is_list(1) [of alloc m1 SECTION_FREE] 2(1)
    by (simp add: nvrec_config_new_def m'_def m1_def [symmetric] l_def)
  moreover have "cfg_ok m' c l []"
    using cl null 1(1) 2(1) by (simp add: cfg_ok_def is_list_def m'_def m1_def)
  moreover have "card (dom m') \<le> card (dom m) + 2"
    using 1(2) cl by (simp add: m'_def m1_def card_insert_if domIff insert_commute)
  ultimately show ?thesis using 1(2) cl(2) by (intro that [of c m' l]) (auto simp: m'_def m1_def)
qed

text \<open>
  C20. A number stored in the configuration under a key of any section except \<open>ddbrec\<close> is read back, whatever number
  of 32 bits it is; every other value, in \<open>ddbrec\<close> too, keeps its contents, and the tree stays well-formed. In \<open>ddbrec\<close> values
  are cut to the length of an address (\<open>nvrec_config_ddbrec_truncates\<close>).
\<close>

theorem nvrec_config_set_get:
  assumes "cfg_ok m c l S" "has_room k alloc" "card (dom m) + 8 \<le> k"
    and "cstr nm = Some n" "n \<noteq> section_name_ddbrec" "cstr key = Some kid"
    and "- 2147483648 \<le> i" "i \<le> 2147483647"
  shows "\<exists>m' S'. nvrec_config_set_int alloc c nm key i m = Some m' \<and> cfg_ok m' c l S' \<and>
    nvrec_config_get_int c nm key d m' = Some i \<and>
    (\<forall>nm2 key2 n2 k2. cstr nm2 = Some n2 \<and> key_of (n2 = section_name_ddbrec) key2 = Some k2 \<and> (n2, k2) \<noteq> (n, kid) \<longrightarrow>
       find_value c nm2 key2 m' = find_value c nm2 key2 m)"
proof -
  have key: "key_of (n = section_name_ddbrec) key = Some kid" using assms(5,6) by (simp add: key_of_def)
  have len: "n = section_name_ddbrec \<Longrightarrow> BTIF_BD_ADDR_SIZE \<le> length (int_buffer i)" using assms(5) by simp
  obtain m' S' where *: "nvrec_config_set_string alloc c nm key (int_buffer i) m = Some m'" "cfg_ok m' c l S'"
    "\<And>n' k'. cfg_value n' k' S' = (if n' = n \<and> k' = kid
       then Some (if n = section_name_ddbrec \<and> lookup_ent n kid S \<noteq> None
                  then takeWhile (\<lambda>c. c \<noteq> 0) (take BTIF_BD_ADDR_SIZE (int_buffer i) @ [0]) else print_int i)
       else cfg_value n' k' S)"
    by (rule set_string_value [OF assms(1-4) key cstr_int_buffer(1) [OF assms(7,8)] len], assumption, rule that)
  have "find_value c nm key m' = Some (Some (print_int i))"
    using find_value_spec [OF *(2) assms(4) key] *(3) [of n kid] assms(5) by (simp add: cfg_value_def)
  then have "nvrec_config_get_int c nm key d m' = Some i"
    using strtol_print_int [OF assms(7,8)] by (simp add: nvrec_config_get_int_def)
  moreover have "find_value c nm2 key2 m' = find_value c nm2 key2 m"
    if "cstr nm2 = Some n2" "key_of (n2 = section_name_ddbrec) key2 = Some k2" "(n2, k2) \<noteq> (n, kid)" for nm2 key2 n2 k2
    using find_value_spec [OF *(2) that(1,2)] find_value_spec [OF assms(1) that(1,2)] *(3) [of n2 k2] that(3)
    by (auto simp: cfg_value_def)
  ultimately show ?thesis using *(1,2) by (auto simp: nvrec_config_set_int_def)
qed

lemma length_print_nat_ge: "10 ^ k \<le> n \<Longrightarrow> k < length (print_nat n)"
proof (induction k arbitrary: n)
  case 0
  then show ?case using print_nat_nonempty by simp
next
  case (Suc k)
  then have n: "10 * 10 ^ k \<le> n" by simp
  have "(1 :: nat) \<le> 10 ^ k" by simp
  with n have "10 \<le> n" by linarith
  from n have "10 ^ k \<le> n div 10" by (simp add: less_eq_div_iff_mult_less_eq mult.commute)
  with Suc.IH [of "n div 10"] \<open>10 \<le> n\<close> show ?case by (subst print_nat.simps) simp
qed

text \<open>The first six digits of a longer number are a number.\<close>

lemma take6_print_nat: "1000000 \<le> n \<Longrightarrow> \<exists>n'. take 6 (print_nat n) = print_nat n' \<and> n' < n \<and> n' < 1000000"
proof (induction n rule: print_nat.induct)
  case (1 n)
  have p: "print_nat n = print_nat (n div 10) @ [of_nat (48 + n mod 10)]"
    using 1(2) by (subst print_nat.simps) simp
  show ?case
  proof (cases "1000000 \<le> n div 10")
    case True
    then obtain n' where "take 6 (print_nat (n div 10)) = print_nat n'" "n' < n div 10" "n' < 1000000"
      using 1 by auto
    moreover have "6 < length (print_nat (n div 10))" using True length_print_nat_ge [of 6 "n div 10"] by simp
    ultimately show ?thesis using p by auto
  next
    case False
    then have "length (print_nat (n div 10)) = 6"
      using div_le_mono [OF 1(2), of 10] length_print_nat_ge [of 5 "n div 10"] length_print_nat [of "n div 10" 6] by simp
    with p False 1(2) show ?thesis by (intro exI [of _ "n div 10"]) simp
  qed
qed

text \<open>
  In the section of paired devices a value that exists already is overwritten with six bytes
  only: a number of more than six characters is read back as its first six.
\<close>

theorem nvrec_config_ddbrec_truncates:
  assumes "cfg_ok m c l S" "has_room k alloc" "card (dom m) + 8 \<le> k"
    and "BTIF_BD_ADDR_SIZE \<le> length key" "lookup_ent section_name_ddbrec (take BTIF_BD_ADDR_SIZE key) S \<noteq> None"
    and "1000000 \<le> i" "i \<le> 2147483647"
  shows "\<exists>m' i'. nvrec_config_set_int alloc c (section_name_ddbrec @ [0]) key i m = Some m' \<and>
    nvrec_config_get_int c (section_name_ddbrec @ [0]) key d m' = Some i' \<and>
    i' < 1000000 \<and> print_int i' = take 6 (print_int i)"
proof -
  let ?nm = "section_name_ddbrec @ [0]" and ?k = "take BTIF_BD_ADDR_SIZE key"
  have nm: "cstr ?nm = Some section_name_ddbrec" by (simp add: section_name_ddbrec_def cstr_def)
  have key: "key_of (section_name_ddbrec = section_name_ddbrec) key = Some ?k" using assms(4) by (simp add: key_of_def)
  have i: "- 2147483648 \<le> i" using assms(6) by simp
  have len: "BTIF_BD_ADDR_SIZE \<le> length (int_buffer i)" using cstr_int_buffer(2) [OF i assms(7)] by simp
  obtain m' S' where *: "nvrec_config_set_string alloc c ?nm key (int_buffer i) m = Some m'" "cfg_ok m' c l S'"
    "\<And>n' k'. cfg_value n' k' S' = (if n' = section_name_ddbrec \<and> k' = ?k
       then Some (if section_name_ddbrec = section_name_ddbrec \<and> lookup_ent section_name_ddbrec ?k S \<noteq> None
                  then takeWhile (\<lambda>c. c \<noteq> 0) (take BTIF_BD_ADDR_SIZE (int_buffer i) @ [0]) else print_int i)
       else cfg_value n' k' S)"
    by (rule set_string_value [OF assms(1-3) nm key cstr_int_buffer(1) [OF i assms(7)] len], rule that)
  obtain n' where n': "take 6 (print_nat (nat i)) = print_nat n'" "n' < 1000000"
  proof -
    have "1000000 \<le> nat i" using assms(6) by simp
    from take6_print_nat [OF this] that show ?thesis by blast
  qed
  have p: "print_int i = print_nat (nat i)" using assms(6) by (simp add: print_int_def)
  have "6 < length (print_int i)" using length_print_nat_ge [of 6 "nat i"] assms(6) p by simp
  then have "take 6 (int_buffer i) = print_nat n'" using n'(1) p by (simp add: int_buffer_def Let_def)
  moreover have "0 \<notin> set (print_nat n')" using print_int_no_0 [of "int n'"] by (simp add: print_int_def)
  ultimately have "find_value c ?nm key m' = Some (Some (print_nat n'))"
    using find_value_spec [OF *(2) nm key] *(3) [of section_name_ddbrec ?k] assms(5) takeWhile_str
    by (simp add: cfg_value_def)
  then have "nvrec_config_get_int c ?nm key d m' = Some (int n')"
    using strtol_print_nat [of n'] n'(2) by (simp add: nvrec_config_get_int_def)
  with *(1) n' p show ?thesis
    by (intro exI [of _ m'] exI [of _ "int n'"]) (simp add: nvrec_config_set_int_def print_int_def)
qed

section \<open>Freeing the tree\<close>

lemma pool_free_ok: "p \<noteq> NULL \<Longrightarrow> m p \<noteq> None \<Longrightarrow> pool_free p m = Some (m |` (- {p}))"
  by (auto simp: pool_free_def restrict_map_def fun_eq_iff)

lemma restrict_restrict: "m |` (- A) |` (- B) = m |` (- (B \<union> A))"
  by (auto simp: restrict_map_def fun_eq_iff)

definition ent_own :: "cent \<Rightarrow> addr set" where
  "ent_own e = {ce_ent e, ce_key e, ce_val e}"

lemma entry_free_ok:
  assumes "ent_ok ddb m e" "distinct [ce_ent e, ce_key e, ce_val e]" "NULL \<notin> ent_own e"
  shows "nvrec_entry_free (ce_ent e) m = Some (m |` (- ent_own e))"
proof -
  have "cfg_free (ce_key e) m = Some (m |` (- {ce_key e}))"
    unfolding cfg_free_def by (rule pool_free_ok) (use assms in \<open>auto simp: ent_ok_def ent_own_def\<close>)
  moreover have "cfg_free (ce_val e) (m |` (- {ce_key e})) = Some (m |` (- {ce_key e}) |` (- {ce_val e}))"
    unfolding cfg_free_def by (rule pool_free_ok) (use assms in \<open>auto simp: ent_ok_def ent_own_def restrict_map_def\<close>)
  moreover have "cfg_free (ce_ent e) (m |` (- {ce_key e}) |` (- {ce_val e})) =
      Some (m |` (- {ce_key e}) |` (- {ce_val e}) |` (- {ce_ent e}))"
    unfolding cfg_free_def by (rule pool_free_ok) (use assms in \<open>auto simp: ent_ok_def ent_own_def restrict_map_def\<close>)
  moreover have "m |` (- {ce_key e}) |` (- {ce_val e}) |` (- {ce_ent e}) = m |` (- ent_own e)"
    unfolding restrict_restrict by (rule arg_cong [where f = "\<lambda>A. m |` (- A)"]) (auto simp: ent_own_def)
  ultimately show ?thesis using assms
    by (simp add: nvrec_entry_free_def ent_ok_def ent_own_def)
qed

text \<open>What is released with the data pointer \<open>d\<close> of a list of entries or of sections.\<close>

definition ents_own :: "cent list \<Rightarrow> addr \<Rightarrow> addr set" where
  "ents_own es d = (\<Union>e \<in> {e \<in> set es. ce_ent e = d}. ent_own e)"

definition secs_own :: "csec list \<Rightarrow> addr \<Rightarrow> addr set" where
  "secs_own S d = (\<Union>s \<in> {s \<in> set S. cs_sec s = d}. set (sec_body s))"

lemma ent_fp_own: "set (ent_fp e) = insert (ce_node e) (ent_own e)"
  by (auto simp: ent_fp_def ent_own_def)

lemma inj_ce_ent: "distinct (ents_fp es) \<Longrightarrow> inj_on ce_ent (set es)"
proof (induction es)
  case (Cons x es)
  have "ce_ent x \<notin> ce_ent ` set es" using Cons.prems by (auto simp: set_ents_fp ent_fp_def)
  with Cons show ?case by auto
qed simp

lemma inj_cs_sec: "distinct (secs_fp S) \<Longrightarrow> inj_on cs_sec (set S)"
proof (induction S)
  case (Cons x S)
  have "cs_sec x \<notin> cs_sec ` set S" using Cons.prems by (auto simp: set_secs_fp sec_body_def)
  with Cons show ?case by auto
qed simp

lemma ents_own_in: "distinct (ents_fp es) \<Longrightarrow> e \<in> set es \<Longrightarrow> ents_own es (ce_ent e) = ent_own e"
proof -
  assume "distinct (ents_fp es)" "e \<in> set es"
  then have "{f \<in> set es. ce_ent f = ce_ent e} = {e}" by (auto dest: inj_ce_ent inj_onD)
  then show ?thesis by (simp add: ents_own_def)
qed

lemma secs_own_in: "distinct (secs_fp S) \<Longrightarrow> s \<in> set S \<Longrightarrow> secs_own S (cs_sec s) = set (sec_body s)"
proof -
  assume "distinct (secs_fp S)" "s \<in> set S"
  then have "{t \<in> set S. cs_sec t = cs_sec s} = {s}" by (auto dest: inj_cs_sec inj_onD)
  then show ?thesis by (simp add: secs_own_def)
qed

lemma list_area_map:
  assumes "\<And>x. x \<in> set xs \<Longrightarrow> F (snd (f x)) = G x"
  shows "list_area F (map f xs) = (\<Union>x \<in> set xs. insert (fst (f x)) (G x))"
  using assms by (auto simp: list_area_def)

lemma separate_map:
  assumes "distinct (concat (map fp xs))" "\<And>x. x \<in> set xs \<Longrightarrow> set (fp x) = insert (fst (f x)) (G x)"
    "\<And>x. x \<in> set xs \<Longrightarrow> F (snd (f x)) = G x" "\<And>x. x \<in> set xs \<Longrightarrow> fst (f x) \<notin> G x"
  shows "separate F (map f xs)"
  using assms
proof (induction xs)
  case (Cons x xs)
  have "list_area F (map f xs) = (\<Union>y \<in> set xs. insert (fst (f y)) (G y))"
    by (rule list_area_map) (use Cons.prems(3) in simp)
  also have "\<dots> = set (concat (map fp xs))" using Cons.prems(2) by auto
  finally have "insert (fst (f x)) (G x) \<inter> list_area F (map f xs) = {}"
    using Cons.prems(1,2) by auto
  with Cons show ?case by simp
qed simp

lemma distinct_concat_mem: "distinct (concat (map fp xs)) \<Longrightarrow> x \<in> set xs \<Longrightarrow> distinct (fp x)"
  by (induction xs) auto

lemma section_free_ok:
  assumes s: "sec_ok m s" and null: "NULL \<notin> set (sec_body s)"
  shows "nvrec_section_free (cs_sec s) m = Some (m |` (- set (sec_body s)))"
proof -
  have dist: "distinct (sec_body s)" using s by (simp add: sec_ok_def)
  then have de: "distinct (ents_fp (cs_ents s))" and out: "cs_name s \<notin> set (ents_fp (cs_ents s))" "cs_list s \<notin> set (ents_fp (cs_ents s))"
      "cs_sec s \<notin> set (ents_fp (cs_ents s))" "cs_name s \<noteq> cs_list s" "cs_sec s \<noteq> cs_name s" "cs_sec s \<noteq> cs_list s"
    by (auto simp: sec_body_def)
  have de1: "distinct (ent_fp e)" if "e \<in> set (cs_ents s)" for e
    using distinct_concat_mem [OF de [unfolded ents_fp_def] that] .
  let ?F = "ents_own (cs_ents s)" and ?xs = "map ent_pair (cs_ents s)"
  have area: "list_area ?F ?xs = set (ents_fp (cs_ents s))"
    using list_area_map [of "cs_ents s" ?F ent_pair ent_own] ents_own_in [OF de]
    by (simp add: set_ents_fp ent_fp_own)
  have sep: "separate ?F ?xs"
    by (rule separate_map [where fp = ent_fp and G = ent_own])
      (use de de1 ents_own_in [OF de] in \<open>auto simp: ents_fp_def [symmetric] ent_fp_own, auto simp: ent_own_def ent_fp_def\<close>)
  define m1 where "m1 = m |` (- {cs_name s})"
  have same: "m1 a = m a" if "a \<in> set (cs_sec s # cs_list s # ents_fp (cs_ents s))" for a
    using that out by (auto simp: m1_def restrict_map_def)
  have free1: "cfg_free (cs_name s) m = Some m1"
    unfolding cfg_free_def m1_def by (rule pool_free_ok) (use s null in \<open>auto simp: sec_ok_def sec_body_def\<close>)
  have "frees entry_call ENTRY_FREE ?F m1 (ce_ent e)" if e: "e \<in> set (cs_ents s)" for e
  proof -
    have "entry_call ENTRY_FREE (ce_ent e) m' = Some (m' |` (- ent_own e))" if m': "\<forall>a \<in> ent_own e. m' a = m1 a" for m'
    proof -
      have "ent_own e \<subseteq> set (ents_fp (cs_ents s))" using e by (auto simp: set_ents_fp ent_fp_own)
      then have "\<forall>a \<in> ent_own e. m' a = m a" using m' same by auto
      then have "ent_ok (is_ddb s) m' e = ent_ok (is_ddb s) m e" by (intro ent_ok_cong3) (auto simp: ent_own_def)
      then have "ent_ok (is_ddb s) m' e" using s e by (simp add: sec_ok_def)
      moreover have "distinct [ce_ent e, ce_key e, ce_val e]" using de1 [OF e] by (simp add: ent_fp_def)
      moreover have "NULL \<notin> ent_own e" using null e by (auto simp: sec_body_def set_ents_fp ent_fp_own)
      ultimately show ?thesis by (simp add: entry_call_def entry_free_ok)
    qed
    then show ?thesis using ents_own_in [OF de e] by (simp add: frees_def)
  qed
  then have fr: "frees entry_call ENTRY_FREE ?F m1 (snd x)" if "x \<in> set ?xs" for x using that by auto
  have l1: "is_list m1 (cs_list s) ?xs ENTRY_FREE"
  proof -
    have "is_list m1 (cs_list s) ?xs ENTRY_FREE = is_list m (cs_list s) ?xs ENTRY_FREE"
      by (rule is_list_cong, rule same) (use nodes_in_fp(1) [of "cs_ents s"] in auto)
    with s show ?thesis by (simp add: sec_ok_def)
  qed
  have ln: "cs_list s \<noteq> NULL" using null by (auto simp: sec_body_def)
  have free2: "list_free_ext entry_call (cs_list s) m1 = Some (m1 |` (- insert (cs_list s) (set (ents_fp (cs_ents s)))))"
    using list_free_frees [OF l1 ln fr sep] area out by simp
  have free3: "cfg_free (cs_sec s) (m1 |` (- insert (cs_list s) (set (ents_fp (cs_ents s))))) =
      Some (m1 |` (- insert (cs_list s) (set (ents_fp (cs_ents s)))) |` (- {cs_sec s}))"
    unfolding cfg_free_def
    by (rule pool_free_ok) (use s null out in \<open>auto simp: sec_ok_def sec_body_def m1_def restrict_map_def\<close>)
  have "m1 |` (- insert (cs_list s) (set (ents_fp (cs_ents s)))) |` (- {cs_sec s}) = m |` (- set (sec_body s))"
    unfolding m1_def restrict_restrict by (rule arg_cong [where f = "\<lambda>A. m |` (- A)"]) (auto simp: sec_body_def)
  then show ?thesis using s null free1 free2 free3
    by (simp add: nvrec_section_free_def sec_ok_def sec_body_def)
qed

text \<open>
  C21. Freeing a configuration releases every object of its tree once and nothing else.
\<close>

theorem nvrec_config_free_exact:
  assumes "cfg_ok m c l S"
  shows "nvrec_config_free c m = Some (m |` (- set (c # l # secs_fp S)))"
proof -
  have dist: "distinct (secs_fp S)" "c \<noteq> l" "l \<notin> set (secs_fp S)" "c \<notin> set (secs_fp S)" and null: "m NULL = None"
    and c: "m c = Some (C_data (O_config l))" and l: "is_list m l (map sec_pair S) SECTION_FREE"
    using assms by (auto simp: cfg_ok_def)
  let ?F = "secs_own S" and ?xs = "map sec_pair S"
  have nn: "NULL \<notin> set (c # l # secs_fp S)" using cfg_ok_dom [OF assms, of NULL] null by auto
  have node: "cs_node s \<notin> set (sec_body s)" if "s \<in> set S" for s
    using distinct_concat_mem [OF dist(1) [unfolded secs_fp_def] that] by simp
  have area: "list_area ?F ?xs = set (secs_fp S)"
    using list_area_map [of S ?F sec_pair "\<lambda>s. set (sec_body s)"] secs_own_in [OF dist(1)]
    by (simp add: set_secs_fp)
  have sep: "separate ?F ?xs"
    by (rule separate_map [where fp = "\<lambda>s. cs_node s # sec_body s" and G = "\<lambda>s. set (sec_body s)"])
      (use dist(1) secs_own_in [OF dist(1)] node in \<open>auto simp: secs_fp_def [symmetric]\<close>)
  have "frees nv_call SECTION_FREE ?F m (cs_sec s)" if s: "s \<in> set S" for s
  proof -
    have "nv_call SECTION_FREE (cs_sec s) m' = Some (m' |` (- set (sec_body s)))" if "\<forall>a \<in> set (sec_body s). m' a = m a" for m'
    proof -
      have "sec_ok m' s = sec_ok m s" using that by (intro sec_ok_cong) auto
      then have "sec_ok m' s" using cfg_sec_ok [OF assms s] by simp
      moreover have "NULL \<notin> set (sec_body s)" using nn s by (auto simp: set_secs_fp)
      ultimately show ?thesis by (simp add: nv_call_def section_free_ok)
    qed
    then show ?thesis using secs_own_in [OF dist(1) s] by (simp add: frees_def)
  qed
  then have fr: "frees nv_call SECTION_FREE ?F m (snd x)" if "x \<in> set ?xs" for x using that by auto
  have "list_free_ext nv_call l m = Some (m |` (- insert l (set (secs_fp S))))"
    using list_free_frees [OF l _ fr sep] area dist nn by simp
  moreover have "cfg_free c (m |` (- insert l (set (secs_fp S)))) = Some (m |` (- insert l (set (secs_fp S))) |` (- {c}))"
    unfolding cfg_free_def by (rule pool_free_ok) (use c dist nn in \<open>auto simp: restrict_map_def\<close>)
  moreover have "m |` (- insert l (set (secs_fp S))) |` (- {c}) = m |` (- set (c # l # secs_fp S))"
    unfolding restrict_restrict by (rule arg_cong [where f = "\<lambda>A. m |` (- A)"]) auto
  ultimately show ?thesis using c nn by (simp add: nvrec_config_free_def)
qed

section \<open>Instances\<close>

abbreviation (input) "demo_alloc \<equiv> first_free 100 :: nvobj allocator"

lemma demo_room: "has_room 100 demo_alloc"
  by (rule first_free_room) simp

lemma demo_config:
  obtains c l m where "nvrec_config_new demo_alloc Map.empty = Some (c, m)" "cfg_ok m c l []" "card (dom m) + 24 \<le> 100"
proof -
  have e: "card (dom (Map.empty :: nvmem)) + 2 \<le> 100" "(Map.empty :: nvmem) NULL = None" by simp_all
  obtain c l m where *: "nvrec_config_new demo_alloc Map.empty = Some (c, m)" "cfg_ok m c l []"
      "card (dom m) \<le> card (dom (Map.empty :: nvmem)) + 2"
    by (rule nvrec_config_new_ok [OF demo_room e])
  then show ?thesis by (intro that [of c m l]) auto
qed

theorem nvrec_config_set_get_witness:
  "\<exists>c m m'. nvrec_config_new demo_alloc Map.empty = Some (c, m) \<and>
     nvrec_config_set_int demo_alloc c [111, 0] [107, 0] (- 5) m = Some m' \<and>
     nvrec_config_get_int c [111, 0] [107, 0] 0 m' = Some (- 5)"
proof -
  obtain c l m where *: "nvrec_config_new demo_alloc Map.empty = Some (c, m)" "cfg_ok m c l []" "card (dom m) + 24 \<le> 100"
    by (rule demo_config)
  have r: "card (dom m) + 8 \<le> 100" using *(3) by simp
  have "cstr [111, 0] = Some [111]" "[111] \<noteq> section_name_ddbrec" "cstr [107, 0] = Some [107]"
    by (simp_all add: cstr_def section_name_ddbrec_def)
  from nvrec_config_set_get [OF *(2) demo_room r this, of "- 5" 0] *(1) show ?thesis by auto
qed

abbreviation (input) "demo_addr \<equiv> [1, 2, 3, 4, 5, 6, 0] :: byte list"

theorem nvrec_config_ddbrec_truncates_witness:
  "\<exists>c m m' m'' i'. nvrec_config_new demo_alloc Map.empty = Some (c, m) \<and>
     nvrec_config_set_int demo_alloc c (section_name_ddbrec @ [0]) demo_addr 5 m = Some m' \<and>
     nvrec_config_set_int demo_alloc c (section_name_ddbrec @ [0]) demo_addr 536870912 m' = Some m'' \<and>
     nvrec_config_get_int c (section_name_ddbrec @ [0]) demo_addr 0 m'' = Some i' \<and> i' < 1000000"
proof -
  obtain c l m where *: "nvrec_config_new demo_alloc Map.empty = Some (c, m)" "cfg_ok m c l []" "card (dom m) + 24 \<le> 100"
    by (rule demo_config)
  have r: "card (dom m) + 8 \<le> 100" using *(3) by simp
  have nm: "cstr (section_name_ddbrec @ [0]) = Some section_name_ddbrec" by (simp add: section_name_ddbrec_def cstr_def)
  have key: "key_of (section_name_ddbrec = section_name_ddbrec) demo_addr = Some [1, 2, 3, 4, 5, 6]" by (simp add: key_of_def)
  have none: "lookup_ent section_name_ddbrec [1, 2, 3, 4, 5, 6] [] = None" by (simp add: lookup_ent_def find_sec_def)
  have val: "cstr (int_buffer 5) = Some (print_int 5)" by (rule cstr_int_buffer) simp_all
  obtain m' S1 s S2 e where 1: "nvrec_config_set_string demo_alloc c (section_name_ddbrec @ [0]) demo_addr (int_buffer 5) m = Some m'"
    "cfg_ok m' c l (S1 @ with_ents s (cs_ents s @ [e]) # S2)" "cs_nm s = section_name_ddbrec" "ce_kid e = [1, 2, 3, 4, 5, 6]"
    "card (dom m') \<le> card (dom m) + 8"
    by (rule set_string_append [OF *(2) demo_room r nm key none val], rule that)
  have r': "card (dom m') + 8 \<le> 100" using 1(5) *(3) by simp
  have "lookup_ent section_name_ddbrec (take BTIF_BD_ADDR_SIZE demo_addr) (S1 @ with_ents s (cs_ents s @ [e]) # S2) \<noteq> None"
    using lookup_mid [of "with_ents s (cs_ents s @ [e])" S1 "with_ents s (cs_ents s @ [e])" section_name_ddbrec "[1, 2, 3, 4, 5, 6]" S2]
      nm_fresh_prefix [OF 1(2)] 1(3,4)
    by (auto simp: find_simps split: option.splits)
  from nvrec_config_ddbrec_truncates [OF 1(2) demo_room r' _ this, of 536870912 0] 1(1) *(1)
  show ?thesis by (fastforce simp: nvrec_config_set_int_def)
qed

theorem nvrec_config_free_exact_witness:
  "\<exists>c m m' m''. nvrec_config_new demo_alloc Map.empty = Some (c, m) \<and>
     nvrec_config_set_int demo_alloc c [111, 0] [107, 0] 7 m = Some m' \<and> nvrec_config_free c m' = Some m'' \<and> m'' c = None"
proof -
  obtain c l m where *: "nvrec_config_new demo_alloc Map.empty = Some (c, m)" "cfg_ok m c l []" "card (dom m) + 24 \<le> 100"
    by (rule demo_config)
  have r: "card (dom m) + 8 \<le> 100" using *(3) by simp
  have a: "cstr [111, 0] = Some [111]" "key_of ([111] = section_name_ddbrec) [107, 0] = Some [107]"
    "cstr (int_buffer 7) = Some (print_int 7)" "[111] = section_name_ddbrec \<Longrightarrow> BTIF_BD_ADDR_SIZE \<le> length (int_buffer 7)"
    using cstr_int_buffer [of 7] by (simp_all add: cstr_def section_name_ddbrec_def key_of_def)
  obtain m' S' where 1: "nvrec_config_set_string demo_alloc c [111, 0] [107, 0] (int_buffer 7) m = Some m'" "cfg_ok m' c l S'"
    by (rule set_string_value [OF *(2) demo_room r a(1-3)], use a(4) in simp, rule that)
  from nvrec_config_free_exact [OF this(2)] *(1) 1(1) show ?thesis
    by (auto simp: nvrec_config_set_int_def restrict_map_def)
qed

end
