(* ===== verification/DdbRec.thy ===== *)
theory DdbRec
  imports NvTree NvStore
begin

text \<open>
  The paired classic devices: \<open>nv_record_ddbrec_*\<close> and their helpers in
  \<open>services/nvrecord/nvrecord.c\<close>, with the interface \<open>services/osif/ddbif_bes.c\<close>. Each device has an
  entry in the section \<open>ddbrec\<close> of the configuration, oldest first; its key is the device address,
  its value the address of the device record, printed as a number. The helpers that remove an
  entry work on the nodes of the list directly.

  The state is the persistent part of \<open>NvStore\<close> (update flag and address of the configuration) and
  the memory pool. The allocator, the default volume and the content of fresh memory are
  arguments. \<open>None\<close> is a failing assertion, an access through a null or dangling pointer, or a walk
  that never ends.
\<close>

section \<open>The state\<close>

record ddb =
  ddb_nv :: nv
  ddb_mem :: nvmem

abbreviation DDB_RECORD_NUM :: nat where "DDB_RECORD_NUM \<equiv> 10"

abbreviation (input) "cfg_of s \<equiv> nv_config (ddb_nv s)"

text \<open>The name as the C string it is.\<close>

definition ddb_name :: "byte list" where
  "ddb_name = section_name_ddbrec @ [0]"

text \<open>A key is the address of six bytes and a terminator.\<close>

definition ddb_key :: "byte list \<Rightarrow> byte list option" where
  "ddb_key bd = (if BTIF_BD_ADDR_SIZE \<le> length bd then Some (take BTIF_BD_ADDR_SIZE bd @ [0]) else None)"

definition rd_device :: "nvmem \<Rightarrow> addr \<Rightarrow> nvrec_btdevicerecord option" where
  "rd_device m p = (case m p of Some (C_data (O_device d)) \<Rightarrow> Some d | _ \<Rightarrow> None)"

text \<open>\<open>nvrec_config_get_int\<close> with default 0, used as a pointer.\<close>

definition ddb_get_ptr :: "addr \<Rightarrow> byte list \<Rightarrow> nvmem \<Rightarrow> addr option" where
  "ddb_get_ptr c key m = do { i \<leftarrow> nvrec_config_get_int c ddb_name key 0 m; Some (word_of_int i) }"

text \<open>The entry behind a node and the key of an entry.\<close>

definition node_key :: "addr \<Rightarrow> nvmem \<Rightarrow> (addr \<times> byte list) option" where
  "node_key node m = do {
     entry \<leftarrow> list_node_ext node m;
     e \<leftarrow> rd_entry m entry;
     b \<leftarrow> rd_chars m (entry_key e);
     Some (entry, b) }"

section \<open>Removing entries\<close>

definition config_entries_get_ddbrec_length :: "addr \<Rightarrow> nvmem \<Rightarrow> u32 option" where
  "config_entries_get_ddbrec_length c m = (if c = NULL then Some 0 else do {
     sec \<leftarrow> nvrec_section_find c ddb_name m;
     if sec = NULL then Some 0 else do {
       s \<leftarrow> rd_section m sec;
       l \<leftarrow> rd_list m (section_entries s);
       Some (list_length l) } })"

definition config_entries_ddbdev_delete_head :: "addr \<Rightarrow> nvmem \<Rightarrow> nvmem option" where
  "config_entries_ddbdev_delete_head c m = do {
     sec \<leftarrow> nvrec_section_find c ddb_name m;
     s \<leftarrow> rd_section m sec;
     let entry = section_entries s;
     head_node \<leftarrow> list_begin_ext entry m;
     if head_node = NULL then Some m else do {
       (entry_temp, b) \<leftarrow> node_key head_node m;
       rec \<leftarrow> ddb_get_ptr c b m;
       m \<leftarrow> pool_free rec m;
       m \<leftarrow> nvrec_entry_free entry_temp m;
       n \<leftarrow> config_entries_get_ddbrec_length c m;
       m \<leftarrow> (if n = 1 then upd_list entry (\<lambda>l. l\<lparr>list_head := NULL, list_tail := NULL\<rparr>) m
            else do {
              nxt \<leftarrow> list_next_ext head_node m;
              upd_list entry (list_head_update (\<lambda>_. nxt)) m });
       m \<leftarrow> pool_free head_node m;
       upd_list entry (list_length_update (\<lambda>n. n - 1)) m } }"

text \<open>\<open>n\<close> nodes on from \<open>node\<close>.\<close>

primrec advance :: "nat \<Rightarrow> addr \<Rightarrow> nvmem \<Rightarrow> addr option" where
  "advance 0 node m = Some node"
| "advance (Suc n) node m = do { node \<leftarrow> list_next_ext node m; advance n node m }"

definition config_entries_ddbdev_delete_tail :: "addr \<Rightarrow> nvmem \<Rightarrow> nvmem option" where
  "config_entries_ddbdev_delete_tail c m = do {
     sec \<leftarrow> nvrec_section_find c ddb_name m;
     s \<leftarrow> rd_section m sec;
     let entries = section_entries s;
     m \<leftarrow> upd_list entries (list_length_update (\<lambda>n. n - 1)) m;
     l \<leftarrow> rd_list m entries;
     node \<leftarrow> list_begin_ext entries m;
     node \<leftarrow> advance (unat (list_length l) - 1) node m;
     tailnode \<leftarrow> list_next_ext node m;
     (entry_temp, b) \<leftarrow> node_key tailnode m;
     recaddr \<leftarrow> ddb_get_ptr c b m;
     m \<leftarrow> pool_free recaddr m;
     m \<leftarrow> nvrec_entry_free entry_temp m;
     temp_ptr \<leftarrow> list_next_ext node m;
     m \<leftarrow> upd_node node (next_node_update (\<lambda>_. NULL)) m;
     m \<leftarrow> pool_free temp_ptr m;
     upd_list entries (list_tail_update (\<lambda>_. node)) m }"

text \<open>The first node whose key is the address, and its position from 1 on.\<close>

partial_function (option) find_node_loop :: "byte list \<Rightarrow> addr \<Rightarrow> nat \<Rightarrow> nvmem \<Rightarrow> (addr \<times> nat) option" where
  "find_node_loop bd node pos m = (if node = NULL then Some (NULL, pos) else do {
     (entry, b) \<leftarrow> node_key node m;
     eq \<leftarrow> memcmp_eq b bd BTIF_BD_ADDR_SIZE;
     if eq then Some (node, pos + 1) else do {
       node \<leftarrow> list_next_ext node m;
       find_node_loop bd node (pos + 1) m } })"

definition config_entries_ddbdev_delete :: "addr \<Rightarrow> byte list \<Rightarrow> nvmem \<Rightarrow> nvmem option" where
  "config_entries_ddbdev_delete c bd m = do {
     sec \<leftarrow> nvrec_section_find c ddb_name m;
     s \<leftarrow> rd_section m sec;
     let entries = section_entries s;
     node \<leftarrow> list_begin_ext entries m;
     (entry_del, pos) \<leftarrow> find_node_loop bd node 0 m;
     if entry_del = NULL then Some m else do {
       entry_next \<leftarrow> list_next_ext entry_del m;
       node \<leftarrow> list_begin_ext entries m;
       entry_pre \<leftarrow> advance (pos - 1 - 1) node m;
       (entry_temp, b) \<leftarrow> node_key entry_del m;
       recaddr \<leftarrow> ddb_get_ptr c b m;
       if recaddr = NULL then None else do {
         m \<leftarrow> pool_free recaddr m;
         m \<leftarrow> nvrec_entry_free entry_temp m;
         p \<leftarrow> list_next_ext entry_pre m;
         m \<leftarrow> pool_free p m;
         m \<leftarrow> upd_node entry_pre (next_node_update (\<lambda>_. entry_next)) m;
         upd_list entries (list_length_update (\<lambda>n. n - 1)) m } } }"

definition config_entries_ddbdev_is_head :: "addr \<Rightarrow> byte list \<Rightarrow> nvmem \<Rightarrow> bool option" where
  "config_entries_ddbdev_is_head c bd m = do {
     sec \<leftarrow> nvrec_section_find c ddb_name m;
     s \<leftarrow> rd_section m sec;
     head_node \<leftarrow> list_begin_ext (section_entries s) m;
     (entry_temp, b) \<leftarrow> node_key head_node m;
     memcmp_eq b bd BTIF_BD_ADDR_SIZE }"

text \<open>The loop over all nodes: the last entry seen, \<open>NULL\<close> before the first one.\<close>

partial_function (option) last_entry_loop :: "addr \<Rightarrow> addr \<Rightarrow> nvmem \<Rightarrow> addr option" where
  "last_entry_loop entry_temp node m = (if node = NULL then Some entry_temp else do {
     entry_temp \<leftarrow> list_node_ext node m;
     node \<leftarrow> list_next_ext node m;
     last_entry_loop entry_temp node m })"

definition config_entries_ddbdev_is_tail :: "addr \<Rightarrow> byte list \<Rightarrow> nvmem \<Rightarrow> bool option" where
  "config_entries_ddbdev_is_tail c bd m = do {
     sec \<leftarrow> nvrec_section_find c ddb_name m;
     s \<leftarrow> rd_section m sec;
     node \<leftarrow> list_begin_ext (section_entries s) m;
     entry_temp \<leftarrow> last_entry_loop NULL node m;
     e \<leftarrow> rd_entry m entry_temp;
     b \<leftarrow> rd_chars m (entry_key e);
     memcmp_eq b bd BTIF_BD_ADDR_SIZE }"

definition config_specific_entry_value_delete :: "byte list \<Rightarrow> ddb \<Rightarrow> ddb option" where
  "config_specific_entry_value_delete bd s = do {
     let c = cfg_of s;
     head \<leftarrow> config_entries_ddbdev_is_head c bd (ddb_mem s);
     m \<leftarrow> (if head then config_entries_ddbdev_delete_head c (ddb_mem s) else do {
         tail \<leftarrow> config_entries_ddbdev_is_tail c bd (ddb_mem s);
         if tail then config_entries_ddbdev_delete_tail c (ddb_mem s)
         else config_entries_ddbdev_delete c bd (ddb_mem s) });
     Some (s\<lparr>ddb_mem := m, ddb_nv := nv_record_update_runtime_userdata (ddb_nv s)\<rparr>) }"

section \<open>Adding a device\<close>

text \<open>
  The caller passes a \<open>btif_device_record_t\<close>; the code reads it as the longer
  \<open>nvrec_btdevicerecord\<close>. \<open>param\<close> is what it sees: the record and the bytes that happen to follow it.
\<close>

definition same_settings :: "nvrec_btdevicerecord \<Rightarrow> nvrec_btdevicerecord \<Rightarrow> bool" where
  "same_settings a b \<longleftrightarrow> a2dp_vol (device_vol a) = a2dp_vol (device_vol b) \<and>
     hfp_vol (device_vol a) = hfp_vol (device_vol b) \<and> hfp_act (device_plf a) = hfp_act (device_plf b) \<and>
     hsp_act (device_plf a) = hsp_act (device_plf b) \<and> a2dp_act (device_plf a) = a2dp_act (device_plf b)"

text \<open>
  The new record: the volumes and profiles of the old one if there was one. \<open>a2dp_codectype\<close> is not
  set; it has the value \<open>junk\<close> of the fresh memory.
\<close>

definition new_device ::
  "8 word \<Rightarrow> byte \<Rightarrow> nvrec_btdevicerecord option \<Rightarrow> nvrec_btdevicerecord \<Rightarrow> nvrec_btdevicerecord" where
  "new_device vol_default junk old param = (case old of
     Some d \<Rightarrow> \<lparr>dev_record = dev_record param,
       device_vol = \<lparr>a2dp_vol = a2dp_vol (device_vol d), hfp_vol = hfp_vol (device_vol d)\<rparr>,
       device_plf = \<lparr>hfp_act = hfp_act (device_plf d), hsp_act = hsp_act (device_plf d),
         a2dp_act = a2dp_act (device_plf d), a2dp_codectype = junk\<rparr>\<rparr>
   | None \<Rightarrow> \<lparr>dev_record = dev_record param,
       device_vol = \<lparr>a2dp_vol = vol_default, hfp_vol = vol_default\<rparr>,
       device_plf = \<lparr>hfp_act = False, hsp_act = False, a2dp_act = False, a2dp_codectype = junk\<rparr>\<rparr>)"

definition nv_record_ddbrec_add ::
  "nvobj allocator \<Rightarrow> 8 word \<Rightarrow> byte \<Rightarrow> nvrec_btdevicerecord option \<Rightarrow> ddb \<Rightarrow> (bt_status \<times> ddb) option" where
  "nv_record_ddbrec_add alloc vol_default junk param_rec s = (case param_rec of
     None \<Rightarrow> Some (BT_STS_FAILED, s)
   | Some param \<Rightarrow> do {
       let c = cfg_of s;
       let bd = bdAddr (dev_record param);
       key \<leftarrow> ddb_key bd;
       getint \<leftarrow> ddb_get_ptr c key (ddb_mem s);
       old \<leftarrow> (if getint = NULL then Some None else do { d \<leftarrow> rd_device (ddb_mem s) getint; Some (Some d) });
       is_flush \<leftarrow> (case old of None \<Rightarrow> Some True
         | Some d \<Rightarrow> if same_settings param d
             then do { t \<leftarrow> config_entries_ddbdev_is_tail c bd (ddb_mem s); Some (\<not> t) }
             else Some True);
       if \<not> is_flush then Some (BT_STS_SUCCESS, s) else do {
         let (p, m) = pool_malloc alloc 40 (ddb_mem s);
         if p = NULL then Some (BT_STS_FAILED, s) else do {
           let s = s\<lparr>ddb_mem := m(p \<mapsto> C_data (O_device (new_device vol_default junk old param)))\<rparr>;
           s \<leftarrow> (if old \<noteq> None then config_specific_entry_value_delete bd s else Some s);
           n \<leftarrow> config_entries_get_ddbrec_length c (ddb_mem s);
           m \<leftarrow> (if n = of_nat DDB_RECORD_NUM then config_entries_ddbdev_delete_head c (ddb_mem s)
                else Some (ddb_mem s));
           m \<leftarrow> nvrec_config_set_int alloc c ddb_name key (sint p) m;
           Some (BT_STS_SUCCESS, s\<lparr>ddb_mem := m, ddb_nv := nv_record_update_runtime_userdata (ddb_nv s)\<rparr>) } } })"

definition nv_record_add ::
  "nvobj allocator \<Rightarrow> 8 word \<Rightarrow> byte \<Rightarrow> SECTIONS_ADP \<Rightarrow> nvrec_btdevicerecord option \<Rightarrow> ddb \<Rightarrow> (bt_status \<times> ddb) option" where
  "nv_record_add alloc vol_default junk type record s =
     (if record = None \<or> type = section_none then Some (BT_STS_FAILED, s)
      else case type of
        section_usrdata_ddbrecord \<Rightarrow> nv_record_ddbrec_add alloc vol_default junk record s
      | _ \<Rightarrow> Some (BT_STS_FAILED, s))"

section \<open>Finding, deleting and listing devices\<close>

text \<open>The result is the status and the record that was copied out, if any.\<close>

definition nv_record_ddbrec_find :: "byte list option \<Rightarrow> bool \<Rightarrow> ddb \<Rightarrow> (bt_status \<times> btif_device_record_t option) option" where
  "nv_record_ddbrec_find bd_ddr record s = (case bd_ddr of
     None \<Rightarrow> Some (BT_STS_FAILED, None)
   | Some bd \<Rightarrow> if cfg_of s = NULL \<or> \<not> record then Some (BT_STS_FAILED, None) else do {
       key \<leftarrow> ddb_key bd;
       getint \<leftarrow> ddb_get_ptr (cfg_of s) key (ddb_mem s);
       if getint = NULL then Some (BT_STS_FAILED, None) else do {
         d \<leftarrow> rd_device (ddb_mem s) getint;
         Some (BT_STS_SUCCESS, Some (dev_record d)) } })"

definition nv_record_btdevicerecord_find :: "byte list option \<Rightarrow> bool \<Rightarrow> ddb \<Rightarrow> (int \<times> addr option) option" where
  "nv_record_btdevicerecord_find bd_ddr record s = (case bd_ddr of
     None \<Rightarrow> Some (- 1, None)
   | Some bd \<Rightarrow> if cfg_of s = NULL \<or> \<not> record then Some (- 1, None) else do {
       key \<leftarrow> ddb_key bd;
       getint \<leftarrow> ddb_get_ptr (cfg_of s) key (ddb_mem s);
       if getint = NULL then Some (- 1, None) else Some (0, Some getint) })"

definition nv_record_ddbrec_delete :: "byte list \<Rightarrow> ddb \<Rightarrow> (bt_status \<times> ddb) option" where
  "nv_record_ddbrec_delete bd s = do {
     key \<leftarrow> ddb_key bd;
     getint \<leftarrow> ddb_get_ptr (cfg_of s) key (ddb_mem s);
     if getint = NULL then Some (BT_STS_FAILED, s) else do {
       d \<leftarrow> rd_device (ddb_mem s) getint;
       s \<leftarrow> config_specific_entry_value_delete (bdAddr (dev_record d)) s;
       Some (BT_STS_SUCCESS, s) } }"

definition nv_record_enum_dev_records :: "nat \<Rightarrow> bool \<Rightarrow> ddb \<Rightarrow> (bt_status \<times> btif_device_record_t option) option" where
  "nv_record_enum_dev_records index record s =
     (if DDB_RECORD_NUM \<le> index \<or> \<not> record \<or> cfg_of s = NULL then Some (BT_STS_FAILED, None) else do {
        sec \<leftarrow> nvrec_section_find (cfg_of s) ddb_name (ddb_mem s);
        if sec = NULL then Some (BT_STS_INVALID_PARM, None) else do {
          x \<leftarrow> rd_section (ddb_mem s) sec;
          if section_entries x = NULL then Some (BT_STS_INVALID_PARM, None) else do {
            l \<leftarrow> rd_list (ddb_mem s) (section_entries x);
            if list_length l = 0 then Some (BT_STS_FAILED, None)
            else if unat (list_length l) \<le> index then Some (BT_STS_FAILED, None)
            else do {
              node \<leftarrow> list_begin_ext (section_entries x) (ddb_mem s);
              node \<leftarrow> advance index node (ddb_mem s);
              (entry_temp, b) \<leftarrow> node_key node (ddb_mem s);
              addr \<leftarrow> ddb_get_ptr (cfg_of s) b (ddb_mem s);
              if addr = NULL then Some (BT_STS_FAILED, None) else do {
                d \<leftarrow> rd_device (ddb_mem s) addr;
                Some (BT_STS_SUCCESS, Some (dev_record d)) } } } } })"

definition zero_device :: btif_device_record_t where
  "zero_device = \<lparr>bdAddr = replicate 6 0, trusted = False, linkKey = replicate 16 0, keyType = 0, pinLen = 0\<rparr>"

text \<open>
  The result: the return value and what is stored through the two pointers, if anything is. The
  index is converted to 16 bits.
\<close>

definition nv_record_enum_latest_two_paired_dev ::
  "bool \<Rightarrow> bool \<Rightarrow> ddb \<Rightarrow> (int \<times> btif_device_record_t option \<times> btif_device_record_t option) option" where
  "nv_record_enum_latest_two_paired_dev record1 record2 s =
     (if \<not> record1 \<or> \<not> record2 then Some (- 1, None, None) else do {
        sec \<leftarrow> nvrec_section_find (cfg_of s) ddb_name (ddb_mem s);
        if sec = NULL then Some (0, None, None) else do {
          x \<leftarrow> rd_section (ddb_mem s) sec;
          if section_entries x = NULL then Some (0, None, None) else do {
            l \<leftarrow> rd_list (ddb_mem s) (section_entries x);
            let n = unat (list_length l);
            if n = 0 then Some (0, None, None)
            else if n = 1 then do {
              (ret, r) \<leftarrow> nv_record_enum_dev_records 0 True s;
              Some (if ret = BT_STS_SUCCESS then 1 else - 1, r, None) }
            else do {
              (ret1, r1) \<leftarrow> nv_record_enum_dev_records ((n - 1) mod 65536) True s;
              (ret2, r2) \<leftarrow> nv_record_enum_dev_records ((n - 2) mod 65536) True s;
              if ret1 \<noteq> BT_STS_SUCCESS \<or> ret2 \<noteq> BT_STS_SUCCESS
              then Some (- 1, Some zero_device, Some zero_device)
              else Some (2, r1, r2) } } } })"

section \<open>The interface of the Bluetooth stack\<close>

definition ddbif_add_record ::
  "nvobj allocator \<Rightarrow> 8 word \<Rightarrow> byte \<Rightarrow> nvrec_btdevicerecord option \<Rightarrow> ddb \<Rightarrow> (bt_status \<times> ddb) option" where
  "ddbif_add_record alloc vol_default junk record s =
     nv_record_add alloc vol_default junk section_usrdata_ddbrecord record s"

definition ddbif_find_record :: "byte list option \<Rightarrow> bool \<Rightarrow> ddb \<Rightarrow> (bt_status \<times> btif_device_record_t option) option" where
  "ddbif_find_record bd_ddr record s = nv_record_ddbrec_find bd_ddr record s"

definition ddbif_delete_record :: "byte list \<Rightarrow> ddb \<Rightarrow> (bt_status \<times> ddb) option" where
  "ddbif_delete_record bd_ddr s = nv_record_ddbrec_delete bd_ddr s"

definition ddbif_enum_device_records :: "int \<Rightarrow> bool \<Rightarrow> ddb \<Rightarrow> (bt_status \<times> btif_device_record_t option) option" where
  "ddbif_enum_device_records index record s = nv_record_enum_dev_records (nat (index mod 65536)) record s"

end
