(* ===== verification/DdbSpec.thy ===== *)
theory DdbSpec
  imports DdbRec
begin

text \<open>
  What the operations of \<open>DdbRec\<close> do to the list of devices that a configuration stands for,
  oldest first: no operation loses a device it should keep, keeps a block of the pool that no
  device uses, or leaves the tree in a state the next operation cannot walk.
\<close>

section \<open>Searching reads no lengths\<close>

text \<open>Searching a configuration depends on the heads of its lists, not on their lengths and tails.\<close>

definition same_view :: "nvmem \<Rightarrow> nvmem \<Rightarrow> bool" where
  "same_view m m' \<longleftrightarrow> rd_node m' = rd_node m \<and> rd_config m' = rd_config m \<and> rd_section m' = rd_section m \<and>
     rd_entry m' = rd_entry m \<and> rd_chars m' = rd_chars m \<and> (\<forall>p. list_begin_ext p m' = list_begin_ext p m)"

lemma same_view_sym: "same_view m m' \<Longrightarrow> same_view m' m"
  by (simp add: same_view_def)

lemma same_view_walk: "same_view m m' \<Longrightarrow> list_node_ext n m' = list_node_ext n m" "same_view m m' \<Longrightarrow> list_next_ext n m' = list_next_ext n m"
  by (simp_all add: same_view_def list_node_ext_def list_next_ext_def)

lemma same_view_rd: "same_view m m' \<Longrightarrow> rd_section m' = rd_section m" "same_view m m' \<Longrightarrow> rd_entry m' = rd_entry m"
  "same_view m m' \<Longrightarrow> rd_chars m' = rd_chars m" "same_view m m' \<Longrightarrow> rd_config m' = rd_config m"
  "same_view m m' \<Longrightarrow> list_begin_ext p m' = list_begin_ext p m"
  by (simp_all add: same_view_def)

lemma section_find_loop_le: "section_find_loop nm node m = Some r \<Longrightarrow> same_view m m' \<longrightarrow> section_find_loop nm node m' = Some r"
  by (erule section_find_loop.raw_induct [where P = "\<lambda>nm node m r. same_view m m' \<longrightarrow> section_find_loop nm node m' = Some r", rotated])
    (subst section_find_loop.simps,
      auto simp: bind_eq_Some_conv same_view_walk same_view_rd simp del: rd_obj split: if_splits)

lemma entry_find_loop_le: "entry_find_loop ddb key node m = Some r \<Longrightarrow> same_view m m' \<longrightarrow> entry_find_loop ddb key node m' = Some r"
  by (erule entry_find_loop.raw_induct [where P = "\<lambda>ddb key node m r. same_view m m' \<longrightarrow> entry_find_loop ddb key node m' = Some r", rotated])
    (subst entry_find_loop.simps,
      auto simp: bind_eq_Some_conv same_view_walk same_view_rd simp del: rd_obj split: if_splits)

lemma option_le_eq: "(\<And>r. x = Some r \<Longrightarrow> y = Some r) \<Longrightarrow> (\<And>r. y = Some r \<Longrightarrow> x = Some r) \<Longrightarrow> x = y"
  by (cases x; cases y) auto

lemma find_value_view: "same_view m m' \<Longrightarrow> find_value c nm key m' = find_value c nm key m"
proof -
  assume v: "same_view m m'"
  note u = same_view_sym [OF v]
  have "section_find_loop nm n m' = section_find_loop nm n m" for n
    using section_find_loop_le [THEN mp, OF _ u] section_find_loop_le [THEN mp, OF _ v] by (rule option_le_eq)
  moreover have "entry_find_loop d key n m' = entry_find_loop d key n m" for d n
    using entry_find_loop_le [THEN mp, OF _ u] entry_find_loop_le [THEN mp, OF _ v] by (rule option_le_eq)
  ultimately show ?thesis
    by (simp add: find_value_def nvrec_entry_find_def nvrec_section_find_def same_view_rd [OF v] cong: if_cong)
qed

lemma get_ptr_view: "same_view m m' \<Longrightarrow> ddb_get_ptr c key m' = ddb_get_ptr c key m"
  using find_value_view [of m m'] by (simp add: ddb_get_ptr_def nvrec_config_get_int_def)

lemma length_view: "m p = Some (mk_list h t k cb) \<Longrightarrow> same_view m (m(p \<mapsto> mk_list h t' k' cb))"
  by (auto simp: same_view_def rd_node_def rd_config_def rd_section_def rd_entry_def rd_chars_def
      list_begin_ext_def rd_list_def fun_eq_iff)

section \<open>The devices that a configuration stands for\<close>

text \<open>
  An entry \<open>e\<close> stands for the device \<open>snd x\<close> in the block \<open>fst x\<close>: its key is the address of the
  device and its value prints the address of the block.
\<close>

definition dev_ok :: "nvmem \<Rightarrow> cent \<Rightarrow> addr \<times> nvrec_btdevicerecord \<Rightarrow> bool" where
  "dev_ok m e x \<longleftrightarrow> cval e = print_int (sint (fst x)) \<and> fst x \<noteq> NULL \<and>
     m (fst x) = Some (C_data (O_device (snd x))) \<and> bdAddr (dev_record (snd x)) = ce_kid e"

definition ddb_ents :: "csec list \<Rightarrow> cent list" where
  "ddb_ents S = (case find_sec section_name_ddbrec S of None \<Rightarrow> [] | Some s \<Rightarrow> cs_ents s)"

definition ddb_rep :: "nvmem \<Rightarrow> addr \<Rightarrow> addr \<Rightarrow> csec list \<Rightarrow> (addr \<times> nvrec_btdevicerecord) list \<Rightarrow> bool" where
  "ddb_rep m c l S D \<longleftrightarrow> cfg_ok m c l S \<and> list_all2 (dev_ok m) (ddb_ents S) D \<and> distinct (map fst D)"

text \<open>The list of devices of a state, and its address book.\<close>

definition ddb_holds :: "ddb \<Rightarrow> nvrec_btdevicerecord list \<Rightarrow> bool" where
  "ddb_holds s R \<longleftrightarrow> (\<exists>l S D. ddb_rep (ddb_mem s) (cfg_of s) l S D \<and> R = map snd D)"

abbreviation dev_addr :: "nvrec_btdevicerecord \<Rightarrow> byte list" where
  "dev_addr d \<equiv> bdAddr (dev_record d)"

definition find_dev :: "byte list \<Rightarrow> nvrec_btdevicerecord list \<Rightarrow> nvrec_btdevicerecord option" where
  "find_dev bd R = find (\<lambda>d. dev_addr d = bd) R"

lemma ddb_name_cstr: "cstr ddb_name = Some section_name_ddbrec"
  by (simp add: ddb_name_def section_name_ddbrec_def cstr_def)

lemma find_map: "find P (map f xs) = map_option f (find (\<lambda>x. P (f x)) xs)"
  by (induction xs) auto

lemma find_list_all2: "list_all2 Q xs ys \<Longrightarrow> (\<And>x y. Q x y \<Longrightarrow> P x \<longleftrightarrow> P' y) \<Longrightarrow> rel_option Q (find P xs) (find P' ys)"
  by (induction rule: list_all2_induct) auto

lemma dev_ok_addrs: "list_all2 (dev_ok m) es D \<Longrightarrow> map ce_kid es = map (\<lambda>x. dev_addr (snd x)) D"
  by (induction rule: list_all2_induct) (auto simp: dev_ok_def)

lemma dev_ok_cong: "list_all2 (dev_ok m) es D \<Longrightarrow> (\<And>x. x \<in> set D \<Longrightarrow> m' (fst x) = m (fst x)) \<Longrightarrow> list_all2 (dev_ok m') es D"
  by (induction rule: list_all2_induct) (auto simp: dev_ok_def)

text \<open>The pointer behind an address.\<close>

lemma sint_u32: "- 2147483648 \<le> sint (p :: addr) \<and> sint p \<le> 2147483647"
  using sint_greater_eq [of p] sint_less [of p] by simp

lemma ptr_of_value: "strtol0 (print_int (sint (p :: addr))) = (sint p, [])"
  using strtol_print_int sint_u32 by blast

lemma ddb_get_ptr_spec:
  assumes ok: "cfg_ok m c l S" and dv: "list_all2 (dev_ok m) (ddb_ents S) D" and k: "key_of True key = Some k"
  shows "ddb_get_ptr c key m = Some (case find (\<lambda>x. dev_addr (snd x) = k) D of None \<Rightarrow> NULL | Some x \<Rightarrow> fst x)"
proof -
  have l: "lookup_ent section_name_ddbrec k S = find_ent k (ddb_ents S)"
    by (auto simp: lookup_ent_def ddb_ents_def find_ent_def split: option.splits)
  have "rel_option (dev_ok m) (find_ent k (ddb_ents S)) (find (\<lambda>x. dev_addr (snd x) = k) D)"
    unfolding find_ent_def by (rule find_list_all2 [OF dv]) (auto simp: dev_ok_def)
  then show ?thesis using find_value_spec [OF ok ddb_name_cstr, of key k] k l
    by (auto simp: ddb_get_ptr_def nvrec_config_get_int_def dev_ok_def ptr_of_value elim!: option.rel_cases)
qed

lemma ddb_key_of: "length bd = 6 \<Longrightarrow> ddb_key bd = Some (bd @ [0])" "length bd = 6 \<Longrightarrow> key_of True (bd @ [0]) = Some bd"
  by (simp_all add: ddb_key_def key_of_def)

lemma ddb_sec:
  assumes "cfg_ok m c l S" "ddb_ents S \<noteq> []"
  obtains S1 s S2 where "S = S1 @ s # S2" "cs_nm s = section_name_ddbrec" "ddb_ents S = cs_ents s"
    "nvrec_section_find c ddb_name m = Some (cs_sec s)" "cs_sec s \<noteq> NULL"
proof -
  obtain s where s: "find_sec section_name_ddbrec S = Some s" using assms(2) by (auto simp: ddb_ents_def split: option.splits)
  obtain S1 S2 where S: "S = S1 @ s # S2" "cs_nm s = section_name_ddbrec" using find_sec_split [OF assms(1) s] by blast
  then have "cs_sec s \<noteq> NULL" using sec_nonnull [OF assms(1), of s] by simp
  with S s section_find_spec [OF assms(1) ddb_name_cstr] show ?thesis by (intro that) (simp_all add: ddb_ents_def)
qed

section \<open>Removing an entry\<close>

text \<open>
  The memory after the entry \<open>e\<close> behind \<open>es1\<close> in the section \<open>s\<close> has gone with its device in \<open>p\<close>:
  the list holds the others, and apart from the pointers around the entry nothing changes.
\<close>

definition removed :: "nvmem \<Rightarrow> csec \<Rightarrow> cent list \<Rightarrow> cent \<Rightarrow> cent list \<Rightarrow> addr \<Rightarrow> nvmem \<Rightarrow> bool" where
  "removed m s es1 e es2 p m' \<longleftrightarrow> is_list m' (cs_list s) (map ent_pair (es1 @ es2)) ENTRY_FREE \<and>
     (\<forall>b. b \<notin> insert (cs_list s) (ce_node ` set es1) \<longrightarrow> m' b = (if b \<in> insert p (set (ent_fp e)) then None else m b))"

lemma removed_ok:
  assumes ok: "cfg_ok m c l (S1 @ s # S2)" and es: "cs_ents s = es1 @ e # es2"
    and p: "p \<notin> set (c # l # secs_fp (S1 @ s # S2))" and r: "removed m s es1 e es2 p m'"
  shows "cfg_ok m' c l (S1 @ with_ents s (es1 @ es2) # S2)" "dom m' = dom m - insert p (set (ent_fp e))"
proof -
  let ?s = "with_ents s (es1 @ es2)"
  define m1 where "m1 = m(p := None)"
  have ok1: "cfg_ok m1 c l (S1 @ s # S2)"
  proof -
    have "cfg_ok m1 c l (S1 @ s # S2) = cfg_ok m c l (S1 @ s # S2)"
      by (rule cfg_ok_cong) (use p ok in \<open>auto simp: m1_def cfg_ok_def\<close>)
    with ok show ?thesis by simp
  qed
  have s: "sec_ok m s" and s1: "sec_ok m1 s" using ok ok1 by (simp_all add: cfg_ok_def)
  have null: "m NULL = None" using ok by (simp add: cfg_ok_def)
  have body: "sec_body s = cs_sec s # cs_name s # cs_list s # ents_fp es1 @ ent_fp e @ ents_fp es2"
    by (simp add: sec_body_def es)
  have dist: "distinct (sec_body s)" using s by (simp add: sec_ok_def)
  have pb: "p \<notin> set (sec_body s)" using p by auto
  have keep: "m' b = m b" if "b \<notin> insert (cs_list s) (ce_node ` set es1)" "b \<noteq> p" "b \<notin> set (ent_fp e)" for b
    using r that by (simp add: removed_def)
  have keepb: "m' b = m b" if "b \<in> set (sec_body s)" "b \<notin> insert (cs_list s) (ce_node ` set es1)" "b \<notin> set (ent_fp e)" for b
    using keep [OF that(2) _ that(3)] pb that(1) by auto
  have nodes: "ce_node ` set es1 \<subseteq> set (ents_fp es1)" by (auto simp: set_ents_fp ent_fp_def)
  have lst: "cs_list s \<notin> ce_node ` set es1" using dist nodes by (auto simp: body)
  have ent: "ent_ok (is_ddb s) m' f" if f: "f \<in> set (es1 @ es2)" for f
  proof -
    have fe: "f \<in> set (cs_ents s)" using f es by auto
    have sub: "set (ent_fp f) \<subseteq> set (ents_fp es1) \<union> set (ents_fp es2)" using f by (auto simp: set_ents_fp)
    have "m' b = m b" if b: "b \<in> {ce_ent f, ce_key f, ce_val f}" for b
    proof (rule keepb)
      have bf: "b \<in> set (ent_fp f)" using b by (auto simp: ent_fp_def)
      then show "b \<in> set (sec_body s)" using sub by (auto simp: body)
      show "b \<notin> set (ent_fp e)" using bf sub dist by (auto simp: body)
      show "b \<notin> insert (cs_list s) (ce_node ` set es1)" using sec_nodes [OF s fe b] es by (auto simp: image_image image_Un)
    qed
    then have "ent_ok (is_ddb s) m' f = ent_ok (is_ddb s) m f" by (intro ent_ok_cong3) auto
    with s fe show ?thesis by (simp add: sec_ok_def)
  qed
  have hdr: "m' b = m b" if "b \<in> {cs_sec s, cs_name s}" for b
    by (rule keepb) (use that dist nodes in \<open>auto simp: body\<close>)
  have s': "sec_ok m' ?s"
    using s r ent hdr dist es by (auto simp: sec_ok_def removed_def sec_body_def)
  show "cfg_ok m' c l (S1 @ ?s # S2)"
  proof (rule cfg_update [OF ok1 s'])
    fix a assume "a \<in> set (sec_body ?s)"
    then show "a \<in> set (sec_body s) \<or> m1 a = None" by (auto simp: es sec_body_def)
  next
    fix a assume a: "m1 a \<noteq> None" "a \<notin> set (sec_body s)"
    then have "a \<notin> insert (cs_list s) (ce_node ` set es1)" "a \<notin> set (ent_fp e)" "a \<noteq> p"
      using nodes by (auto simp: body m1_def)
    with keep show "m' a = m1 a" by (simp add: m1_def)
  next
    have "NULL \<notin> set (sec_body s)" using sec_ok_dom [OF s] null by blast
    then have "NULL \<notin> insert (cs_list s) (ce_node ` set es1)" using nodes by (auto simp: body)
    then show "m' NULL = None" using r null by (simp add: removed_def)
  qed simp_all
  have in_dom: "m b \<noteq> None \<and> m' b \<noteq> None" if b: "b \<in> insert (cs_list s) (ce_node ` set es1)" for b
  proof
    show "m b \<noteq> None" using b nodes by (intro sec_ok_dom [OF s]) (auto simp: body)
    show "m' b \<noteq> None" using b nodes by (intro sec_ok_dom [OF s']) (auto simp: sec_body_def)
  qed
  show "dom m' = dom m - insert p (set (ent_fp e))"
  proof (rule set_eqI)
    fix b
    show "b \<in> dom m' \<longleftrightarrow> b \<in> dom m - insert p (set (ent_fp e))"
    proof (cases "b \<in> insert (cs_list s) (ce_node ` set es1)")
      case True
      then have "b \<in> set (cs_list s # ents_fp es1)" using nodes by auto
      then have "b \<notin> insert p (set (ent_fp e))" using dist pb by (auto simp: body)
      with in_dom [OF True] show ?thesis by (simp add: domIff)
    next
      case False
      with r have "m' b = (if b \<in> insert p (set (ent_fp e)) then None else m b)" unfolding removed_def by blast
      then show ?thesis by (simp add: domIff)
    qed
  qed
qed

lemma device_outside: "cfg_ok m c l S \<Longrightarrow> m p = Some (C_data (O_device d)) \<Longrightarrow> p \<notin> set (c # l # secs_fp S)"
proof
  assume ok: "cfg_ok m c l S" and p: "m p = Some (C_data (O_device d))" and "p \<in> set (c # l # secs_fp S)"
  then consider "p = c" | "p = l" | s where "s \<in> set S" "p = cs_node s" | s where "s \<in> set S" "p \<in> {cs_sec s, cs_name s, cs_list s}"
    | s e where "s \<in> set S" "e \<in> set (cs_ents s)" "p = ce_node e" | s e where "s \<in> set S" "e \<in> set (cs_ents s)" "p \<in> {ce_ent e, ce_key e, ce_val e}"
    by (auto simp: set_secs_fp sec_body_sets)
  then show False
  proof cases
    case 3
    with ok p is_list_node [of m l _ _ "sec_pair s"] show ?thesis by (fastforce simp: cfg_ok_def)
  next
    case 4
    with cfg_sec_ok [OF ok] p show ?thesis by (fastforce simp: sec_ok_def is_list_def)
  next
    case 5
    with cfg_sec_ok [OF ok, of s] p is_list_node [of m "cs_list s" _ _ "ent_pair e"] show ?thesis by (fastforce simp: sec_ok_def)
  next
    case 6
    with cfg_ent_ok [OF ok] p show ?thesis by (fastforce simp: ent_ok_def)
  qed (use ok p in \<open>auto simp: cfg_ok_def is_list_def\<close>)
qed

text \<open>The entry \<open>e\<close> between \<open>es1\<close> and \<open>es2\<close> in the section of paired devices, and its device at \<open>p\<close>.\<close>

definition ddb_at :: "nvmem \<Rightarrow> addr \<Rightarrow> addr \<Rightarrow> csec list \<Rightarrow> csec \<Rightarrow> csec list \<Rightarrow> cent list \<Rightarrow> cent \<Rightarrow> cent list \<Rightarrow> addr \<Rightarrow> bool" where
  "ddb_at m c l S1 s S2 es1 e es2 p \<longleftrightarrow> cfg_ok m c l (S1 @ s # S2) \<and> cs_nm s = section_name_ddbrec \<and>
     cs_ents s = es1 @ e # es2 \<and> ddb_get_ptr c (ce_kid e @ [0]) m = Some p \<and> p \<noteq> NULL \<and> m p \<noteq> None \<and>
     p \<notin> set (c # l # secs_fp (S1 @ s # S2))"

text \<open>What the code reads on its way to the entry.\<close>

lemma ddb_at_reads:
  assumes at: "ddb_at m c l S1 s S2 es1 e es2 p"
  obtains h r where "nvrec_section_find c ddb_name m = Some (cs_sec s)" "cs_sec s \<noteq> NULL"
    "m (cs_sec s) = Some (C_data (O_section \<lparr>section_name = cs_name s, section_entries = cs_list s\<rparr>))"
    "m (cs_list s) = Some (mk_list h (last_node (map ent_pair (es1 @ e # es2))) (of_nat (length (es1 @ e # es2))) ENTRY_FREE)"
    "lseg m h (map ent_pair es1) (ce_node e)" "m (ce_node e) = Some (mk_node r (ce_ent e))" "lseg m r (map ent_pair es2) NULL"
    "ce_node e \<noteq> NULL" "node_key (ce_node e) m = Some (ce_ent e, ce_kid e @ [0])" "ce_ent e \<noteq> NULL"
proof -
  have ok: "cfg_ok m c l (S1 @ s # S2)" and nm: "cs_nm s = section_name_ddbrec" and es: "cs_ents s = es1 @ e # es2"
    using at by (auto simp: ddb_at_def)
  have s: "sec_ok m s" using ok by (simp add: cfg_ok_def)
  then obtain h where h: "m (cs_list s) = Some (mk_list h (last_node (map ent_pair (es1 @ e # es2))) (of_nat (length (es1 @ e # es2))) ENTRY_FREE)"
      "lseg m h (map ent_pair es1 @ ent_pair e # map ent_pair es2) NULL"
    by (auto simp: sec_ok_def is_list_def es)
  then obtain r where r: "lseg m h (map ent_pair es1) (ce_node e)" "m (ce_node e) = Some (mk_node r (ce_ent e))"
      "lseg m r (map ent_pair es2) NULL" "ce_node e \<noteq> NULL"
    by (auto simp: lseg_append)
  have "ent_ok (is_ddb s) m e" using s es by (simp add: sec_ok_def)
  then have "node_key (ce_node e) m = Some (ce_ent e, ce_kid e @ [0])"
    using r(2) by (simp add: node_key_def ent_ok_def)
  moreover have "nvrec_section_find c ddb_name m = Some (cs_sec s)"
    using section_find_spec [OF ok ddb_name_cstr] find_sec_mid [OF ok] nm by simp
  moreover have "cs_sec s \<noteq> NULL" "ce_ent e \<noteq> NULL" using sec_nonnull [OF ok, of s] ent_nonnull [OF ok, of s e] es by simp_all
  moreover have "m (cs_sec s) = Some (C_data (O_section \<lparr>section_name = cs_name s, section_entries = cs_list s\<rparr>))"
    using s by (simp add: sec_ok_def)
  ultimately show ?thesis using h(1) r by (intro that)
qed

text \<open>Releasing the device and the entry, before the list changes.\<close>

lemma ddb_release:
  assumes at: "ddb_at m c l S1 s S2 es1 e es2 p"
    and m': "\<And>b. b \<noteq> cs_list s \<Longrightarrow> m' b = m b"
  shows "do { m \<leftarrow> pool_free p m'; nvrec_entry_free (ce_ent e) m } = Some (m' |` (- insert p (ent_own e)))"
    "NULL \<notin> insert p (ent_own e)" "insert p (ent_own e) \<inter> insert (cs_list s) (ce_node ` set (cs_ents s)) = {}"
proof -
  have ok: "cfg_ok m c l (S1 @ s # S2)" and es: "cs_ents s = es1 @ e # es2" and p: "p \<noteq> NULL" "m p \<noteq> None" "p \<notin> set (sec_body s)"
    using at by (auto simp: ddb_at_def)
  have s: "sec_ok m s" using ok by (simp add: cfg_ok_def)
  have e: "e \<in> set (cs_ents s)" "ent_ok (is_ddb s) m e" using s es by (simp_all add: sec_ok_def)
  have own: "ent_own e \<subseteq> set (sec_body s)" using e(1) by (auto simp: sec_body_sets ent_own_def)
  have "m NULL = None" using ok by (simp add: cfg_ok_def)
  then have "NULL \<notin> set (sec_body s)" using sec_ok_dom [OF s, of NULL] by auto
  then show null: "NULL \<notin> insert p (ent_own e)" using p(1) own by auto
  have nodes: "b \<notin> insert (cs_list s) (ce_node ` set (cs_ents s))" if "b \<in> ent_own e" for b
    using sec_nodes [OF s e(1), of b] that by (auto simp: ent_own_def image_image)
  moreover have "insert (cs_list s) (ce_node ` set (cs_ents s)) \<subseteq> set (sec_body s)" by (auto simp: sec_body_sets)
  ultimately show "insert p (ent_own e) \<inter> insert (cs_list s) (ce_node ` set (cs_ents s)) = {}" using p(3) by blast
  have pl: "p \<noteq> cs_list s" "p \<notin> ent_own e" using p(3) own by (auto simp: sec_body_def)
  have "pool_free p m' = Some (m' |` (- {p}))" using p m' [OF pl(1)] by (intro pool_free_ok) auto
  moreover have "nvrec_entry_free (ce_ent e) (m' |` (- {p})) = Some (m' |` (- {p}) |` (- ent_own e))"
  proof (rule entry_free_ok)
    have "(m' |` (- {p})) b = m b" if "b \<in> ent_own e" for b
      using m' [of b] that nodes [OF that] pl(2) by (auto simp: restrict_map_def)
    then have "ent_ok (is_ddb s) (m' |` (- {p})) e = ent_ok (is_ddb s) m e" by (intro ent_ok_cong3) (auto simp: ent_own_def)
    with e(2) show "ent_ok (is_ddb s) (m' |` (- {p})) e" by simp
    have "distinct (ents_fp (cs_ents s))" using s by (simp add: sec_ok_def sec_body_def)
    from distinct_concat_mem [OF this [unfolded ents_fp_def] e(1)] show "distinct [ce_ent e, ce_key e, ce_val e]"
      by (simp add: ent_fp_def)
  qed (use null in simp)
  ultimately show "do { m \<leftarrow> pool_free p m'; nvrec_entry_free (ce_ent e) m } = Some (m' |` (- insert p (ent_own e)))"
    using restrict_restrict [of m' "{p}" "ent_own e"] by (simp del: restrict_restrict)
qed

text \<open>The section is found while the entry is being released.\<close>

lemma ddb_heads_released:
  assumes at: "ddb_at m c l S1 s S2 es1 e es2 p"
  shows "cfg_heads (m |` (- insert p (ent_own e))) c l (S1 @ s # S2)"
proof -
  have ok: "cfg_ok m c l (S1 @ s # S2)" and es: "cs_ents s = es1 @ e # es2" and p: "p \<notin> set (c # l # secs_fp (S1 @ s # S2))"
    using at by (auto simp: ddb_at_def)
  have dist: "distinct (c # l # secs_fp (S1 @ s # S2))" using ok by (simp add: cfg_ok_def)
  have own: "ent_own e \<subseteq> set (ents_fp (cs_ents s))" using es by (auto simp: set_ents_fp ent_fp_own)
  have out: "a \<notin> set (ents_fp (cs_ents s)) \<and> a \<noteq> p"
    if "a \<in> {c, l} \<union> (\<Union>s \<in> set (S1 @ s # S2). {cs_node s, cs_sec s, cs_name s})" for a
  proof -
    have "a \<in> {c, l, cs_node s, cs_sec s, cs_name s} \<union> set (secs_fp (S1 @ S2))"
      using that by (auto simp: set_secs_fp sec_body_def)
    with dist p show ?thesis by (auto simp: sec_body_def)
  qed
  have "cfg_heads (m |` (- insert p (ent_own e))) c l (S1 @ s # S2) = cfg_heads m c l (S1 @ s # S2)"
  proof (rule cfg_heads_cong)
    fix a assume "a \<in> {c, l} \<union> (\<Union>s \<in> set (S1 @ s # S2). {cs_node s, cs_sec s, cs_name s})"
    with out [of a] own have "a \<notin> insert p (ent_own e)" by blast
    then show "(m |` (- insert p (ent_own e))) a = m a" by (simp add: restrict_map_def)
  qed
  with cfg_ok_heads [OF ok] show ?thesis by simp
qed

lemma delete_head_removed:
  assumes at: "ddb_at m c l S1 s S2 [] e es2 p"
  shows "\<exists>m'. config_entries_ddbdev_delete_head c m = Some m' \<and> removed m s [] e es2 p m'"
proof -
  obtain h r where rd: "nvrec_section_find c ddb_name m = Some (cs_sec s)" "cs_sec s \<noteq> NULL"
    "m (cs_sec s) = Some (C_data (O_section \<lparr>section_name = cs_name s, section_entries = cs_list s\<rparr>))"
    "m (cs_list s) = Some (mk_list h (last_node (map ent_pair ([] @ e # es2))) (of_nat (length ([] @ e # es2))) ENTRY_FREE)"
    "lseg m h (map ent_pair []) (ce_node e)" "m (ce_node e) = Some (mk_node r (ce_ent e))" "lseg m r (map ent_pair es2) NULL"
    "ce_node e \<noteq> NULL" "node_key (ce_node e) m = Some (ce_ent e, ce_kid e @ [0])" "ce_ent e \<noteq> NULL"
    by (rule ddb_at_reads [OF at])
  have h: "h = ce_node e" using rd(5) by simp
  have es: "cs_ents s = e # es2" and ok: "cfg_ok m c l (S1 @ s # S2)" and ptr: "ddb_get_ptr c (ce_kid e @ [0]) m = Some p"
    and nm: "cs_nm s = section_name_ddbrec" using at by (auto simp: ddb_at_def)
  have s: "sec_ok m s" using ok by (simp add: cfg_ok_def)
  note rel = ddb_release [OF at refl]
  define m2 where "m2 = m |` (- insert p (ent_own e))"
  have l2: "m2 (cs_list s) = Some (mk_list h (last_node (map ent_pair (e # es2))) (of_nat (Suc (length es2))) ENTRY_FREE)"
    and n2: "m2 (ce_node e) = Some (mk_node r (ce_ent e))" and s2: "m2 (cs_sec s) = m (cs_sec s)" and ln: "ce_node e \<noteq> cs_list s"
    using rel(3) rd(3,4,6) ddb_heads_released [OF at] es
    by (auto simp: m2_def restrict_map_def cfg_heads_def sec_head_def)
  have len: "config_entries_get_ddbrec_length c m2 = Some (of_nat (Suc (length es2)))"
    using section_find_heads [OF ddb_heads_released [OF at] ddb_name_cstr] find_sec_mid [OF ok] nm rd(2,3) l2 s2 ok
    by (auto simp: config_entries_get_ddbrec_length_def m2_def cfg_ok_def)
  have bound: "Suc (length es2) < 2 ^ 32" using is_list_bound [of m "cs_list s" "map ent_pair (cs_ents s)" ENTRY_FREE] s es
    by (simp add: sec_ok_def)
  have one: "(of_nat (Suc (length es2)) :: u32) = 1 \<longleftrightarrow> es2 = []"
    using of_nat_u32_eq [OF bound, of 1] by simp
  define m3 where "m3 = (if es2 = [] then m2(cs_list s \<mapsto> mk_list NULL NULL (of_nat (Suc (length es2))) ENTRY_FREE)
    else m2(cs_list s \<mapsto> mk_list r (last_node (map ent_pair es2)) (of_nat (Suc (length es2))) ENTRY_FREE))"
  have step: "(if (of_nat (Suc (length es2)) :: u32) = 1 then upd_list (cs_list s) (\<lambda>l. l\<lparr>list_head := NULL, list_tail := NULL\<rparr>) m2
       else do { nxt \<leftarrow> list_next_ext (ce_node e) m2; upd_list (cs_list s) (list_head_update (\<lambda>_. nxt)) m2 }) = Some m3"
    using one l2 n2 by (simp add: m3_def)
  have rn: "es2 = [] \<Longrightarrow> r = NULL" using rd(7) by simp
  define m' where "m' = m2(ce_node e := None, cs_list s \<mapsto> mk_list r (last_node (map ent_pair es2)) (of_nat (length es2)) ENTRY_FREE)"
  have fin: "do { m \<leftarrow> pool_free (ce_node e) m3; upd_list (cs_list s) (list_length_update (\<lambda>n. n - 1)) m } = Some m'"
    using rd(8) n2 ln rn by (auto simp: m3_def m'_def pool_free_def fun_upd_twist)
  have "config_entries_ddbdev_delete_head c m = do {
      m \<leftarrow> do { m \<leftarrow> pool_free p m; nvrec_entry_free (ce_ent e) m };
      n \<leftarrow> config_entries_get_ddbrec_length c m;
      m \<leftarrow> (if n = 1 then upd_list (cs_list s) (\<lambda>l. l\<lparr>list_head := NULL, list_tail := NULL\<rparr>) m
        else do { nxt \<leftarrow> list_next_ext (ce_node e) m; upd_list (cs_list s) (list_head_update (\<lambda>_. nxt)) m });
      do { m \<leftarrow> pool_free (ce_node e) m; upd_list (cs_list s) (list_length_update (\<lambda>n. n - 1)) m } }"
    using rd(1,3,4,8,9) h ptr by (simp add: config_entries_ddbdev_delete_head_def Let_def cong: if_cong)
  also have "\<dots> = Some m'"
    using rel(1) len step fin by (simp add: m2_def [symmetric])
  finally have run: "config_entries_ddbdev_delete_head c m = Some m'" .
  have l': "is_list m' (cs_list s) (map ent_pair es2) ENTRY_FREE"
  proof -
    have "ce_node e \<notin> ce_node ` set es2" "cs_list s \<notin> ce_node ` set es2"
      using is_list_distinct [of m "cs_list s" "map ent_pair (cs_ents s)"] is_list_neq [of m "cs_list s" "map ent_pair (cs_ents s)"] s es
      by (auto simp: sec_ok_def image_image)
    then have "a \<noteq> ce_node e \<and> a \<noteq> cs_list s \<and> a \<notin> insert p (ent_own e)" if "a \<in> ce_node ` set es2" for a
      using that rel(3) unfolding es list.set image_insert by blast
    then have "lseg m' r (map ent_pair es2) NULL = lseg m r (map ent_pair es2) NULL"
      by (intro lseg_cong) (simp add: m'_def m2_def restrict_map_def image_image)
    with rd(7) show ?thesis by (simp add: is_list_def m'_def)
  qed
  have "removed m s [] e es2 p m'"
    using l' by (auto simp: removed_def m'_def m2_def restrict_map_def ent_fp_own)
  with run show ?thesis by blast
qed

lemma advance_lseg: "lseg m q (us @ [v]) n \<Longrightarrow> advance (length us) q m = Some (fst v)"
proof (induction us arbitrary: q)
  case (Cons u us)
  then obtain r where "m q = Some (mk_node r (snd u))" "lseg m r (us @ [v]) n" by auto
  with Cons.IH show ?case by simp
qed simp

text \<open>The list after the node behind \<open>pv\<close> has been taken out.\<close>

lemma image_neq: "x \<notin> f ` A \<Longrightarrow> a \<in> A \<Longrightarrow> f a \<noteq> x"
  by auto

lemma removed_bypass:
  assumes at: "ddb_at m c l S1 s S2 (us @ [pv]) e es2 p" and r: "m (ce_node e) = Some (mk_node r (ce_ent e))"
    and h: "m (cs_list s) = Some (mk_list h (last_node (map ent_pair (cs_ents s))) k ENTRY_FREE)"
    and m': "m' = (m |` (- insert p (set (ent_fp e))))(ce_node pv \<mapsto> mk_node r (ce_ent pv),
      cs_list s \<mapsto> mk_list h (if es2 = [] then ce_node pv else last_node (map ent_pair es2)) (of_nat (length us + Suc (length es2))) ENTRY_FREE)"
  shows "removed m s (us @ [pv]) e es2 p m'"
proof -
  have ok: "cfg_ok m c l (S1 @ s # S2)" and es: "cs_ents s = us @ pv # e # es2" using at by (auto simp: ddb_at_def)
  have s: "sec_ok m s" using ok by (simp add: cfg_ok_def)
  have l: "is_list m (cs_list s) (map ent_pair us @ ent_pair pv # (ce_node e, ce_ent e) # map ent_pair es2) ENTRY_FREE"
    using s es by (simp add: sec_ok_def)
  have d: "distinct (map ce_node (cs_ents s))" "cs_list s \<notin> ce_node ` set (cs_ents s)"
    using is_list_distinct [of m "cs_list s" "map ent_pair (cs_ents s)"] is_list_neq [of m "cs_list s" "map ent_pair (cs_ents s)"] s
    by (auto simp: sec_ok_def image_image comp_def)
  have out: "insert p (ent_own e) \<inter> insert (cs_list s) (ce_node ` set (cs_ents s)) = {}" by (rule ddb_release(3) [OF at refl])
  have "is_list m' (cs_list s) (map ent_pair us @ ent_pair pv # map ent_pair es2) ENTRY_FREE"
  proof (rule lseg_bypass [OF l r])
    show "m (cs_list s) = Some (mk_list h (last_node (map ent_pair us @ ent_pair pv # (ce_node e, ce_ent e) # map ent_pair es2)) k ENTRY_FREE)"
      using h es by simp
    show "m' (fst (ent_pair pv)) = Some (mk_node r (snd (ent_pair pv)))" using d(2) [THEN image_neq, of pv] es by (simp add: m')
    show "m' (cs_list s) = Some (mk_list h (if map ent_pair es2 = [] then fst (ent_pair pv) else last_node (map ent_pair es2))
        (of_nat (length (map ent_pair us) + Suc (length (map ent_pair es2)))) ENTRY_FREE)" by (simp add: m')
  next
    fix b assume "b \<in> fst ` set (map ent_pair us) \<union> fst ` set (map ent_pair es2)"
    then have b: "b \<in> ce_node ` set us \<or> b \<in> ce_node ` set es2" by (auto simp: image_image)
    then have "b \<notin> insert p (ent_own e)" "b \<noteq> cs_list s" using out d(2) es by auto
    moreover have "b \<noteq> ce_node pv" "b \<noteq> ce_node e" using b d(1) es by auto
    ultimately show "m' b = m b" by (simp add: m' ent_fp_own restrict_map_def)
  qed
  then show ?thesis by (auto simp: removed_def m' restrict_map_def)
qed

lemma delete_tail_removed:
  assumes at: "ddb_at m c l S1 s S2 (us @ [pv]) e [] p"
  shows "\<exists>m'. config_entries_ddbdev_delete_tail c m = Some m' \<and> removed m s (us @ [pv]) e [] p m'"
proof -
  obtain h r where rd: "nvrec_section_find c ddb_name m = Some (cs_sec s)" "cs_sec s \<noteq> NULL"
    "m (cs_sec s) = Some (C_data (O_section \<lparr>section_name = cs_name s, section_entries = cs_list s\<rparr>))"
    "m (cs_list s) = Some (mk_list h (last_node (map ent_pair ((us @ [pv]) @ e # []))) (of_nat (length ((us @ [pv]) @ e # []))) ENTRY_FREE)"
    "lseg m h (map ent_pair (us @ [pv])) (ce_node e)" "m (ce_node e) = Some (mk_node r (ce_ent e))" "lseg m r (map ent_pair []) NULL"
    "ce_node e \<noteq> NULL" "node_key (ce_node e) m = Some (ce_ent e, ce_kid e @ [0])" "ce_ent e \<noteq> NULL"
    by (rule ddb_at_reads [OF at])
  have es: "cs_ents s = us @ [pv, e]" and ok: "cfg_ok m c l (S1 @ s # S2)" and ptr: "ddb_get_ptr c (ce_kid e @ [0]) m = Some p"
    using at by (auto simp: ddb_at_def)
  have s: "sec_ok m s" using ok by (simp add: cfg_ok_def)
  have rn: "r = NULL" using rd(7) by simp
  define m1 where "m1 = m(cs_list s \<mapsto> mk_list h (ce_node e) (of_nat (Suc (length us))) ENTRY_FREE)"
  have bound: "Suc (length us) < 2 ^ 32"
    using is_list_bound [of m "cs_list s" "map ent_pair (cs_ents s)" ENTRY_FREE] s es by (simp add: sec_ok_def)
  have un: "unat (of_nat (Suc (length us)) :: u32) - 1 = length us"
    using bound by (simp add: unat_of_nat take_bit_nat_eq_self del: of_nat_Suc)
  have view: "same_view m m1" unfolding m1_def by (rule length_view [where m = m]) (rule rd(4))
  have pvn: "m (ce_node pv) = Some (mk_node (ce_node e) (ce_ent pv))" using rd(5) by (auto simp: lseg_append)
  have out: "insert p (ent_own e) \<inter> insert (cs_list s) (ce_node ` set (cs_ents s)) = {}" by (rule ddb_release(3) [OF at refl])
  have d: "distinct (map ce_node (cs_ents s))" "cs_list s \<notin> ce_node ` set (cs_ents s)"
    using is_list_distinct [of m "cs_list s" "map ent_pair (cs_ents s)"] is_list_neq [of m "cs_list s" "map ent_pair (cs_ents s)"] s
    by (auto simp: sec_ok_def image_image comp_def)
  have adv: "advance (length us) h m1 = Some (ce_node pv)"
  proof -
    have "lseg m1 h (map ent_pair us @ [ent_pair pv]) (ce_node e) = lseg m h (map ent_pair us @ [ent_pair pv]) (ce_node e)"
      unfolding m1_def by (rule lseg_upd) (use d es in \<open>auto simp: image_image\<close>)
    with rd(5) have "lseg m1 h (map ent_pair us @ [ent_pair pv]) (ce_node e)" by simp
    from advance_lseg [OF this] show ?thesis by simp
  qed
  have rel: "do { m \<leftarrow> pool_free p m1; nvrec_entry_free (ce_ent e) m } = Some (m1 |` (- insert p (ent_own e)))"
    by (rule ddb_release(1) [OF at]) (simp add: m1_def)
  define m2 where "m2 = m1 |` (- insert p (ent_own e))"
  define m' where "m' = m2(ce_node pv \<mapsto> mk_node NULL (ce_ent pv), ce_node e := None,
    cs_list s \<mapsto> mk_list h (ce_node pv) (of_nat (Suc (length us))) ENTRY_FREE)"
  have n2: "m2 (ce_node pv) = Some (mk_node (ce_node e) (ce_ent pv))" "m2 (ce_node e) = Some (mk_node r (ce_ent e))"
    "m2 (cs_list s) = Some (mk_list h (ce_node e) (of_nat (Suc (length us))) ENTRY_FREE)"
    using out d es pvn rd(6) by (auto simp: m2_def m1_def restrict_map_def)
  have fin: "do { temp_ptr \<leftarrow> list_next_ext (ce_node pv) m2; m \<leftarrow> upd_node (ce_node pv) (next_node_update (\<lambda>_. NULL)) m2;
      m \<leftarrow> pool_free temp_ptr m; upd_list (cs_list s) (list_tail_update (\<lambda>_. ce_node pv)) m } = Some m'"
    using n2 d es rd(8) by (auto simp: m'_def pool_free_def)
  have m1: "m1 (cs_list s) = Some (mk_list h (ce_node e) (of_nat (Suc (length us))) ENTRY_FREE)" by (simp add: m1_def)
  have k1: "node_key (ce_node e) m1 = Some (ce_ent e, ce_kid e @ [0])" "list_next_ext (ce_node pv) m1 = Some (ce_node e)"
    using rd(9) pvn same_view_walk [OF view] same_view_rd [OF view] by (simp_all add: node_key_def del: rd_obj)
  have "config_entries_ddbdev_delete_tail c m = do {
      m \<leftarrow> do { m \<leftarrow> pool_free p m1; nvrec_entry_free (ce_ent e) m };
      temp_ptr \<leftarrow> list_next_ext (ce_node pv) m; m \<leftarrow> upd_node (ce_node pv) (next_node_update (\<lambda>_. NULL)) m;
      m \<leftarrow> pool_free temp_ptr m; upd_list (cs_list s) (list_tail_update (\<lambda>_. ce_node pv)) m }"
  proof -
    have "upd_list (cs_list s) (list_length_update (\<lambda>n. n - 1)) m = Some m1" using rd(4) by (simp add: m1_def)
    then show ?thesis using rd(1,3) m1 un adv k1 ptr get_ptr_view [OF view]
      by (simp add: config_entries_ddbdev_delete_tail_def Let_def del: of_nat_Suc)
  qed
  also have "\<dots> = Some m'" using rel fin by (simp add: m2_def [symmetric])
  finally have run: "config_entries_ddbdev_delete_tail c m = Some m'" .
  have "removed m s (us @ [pv]) e [] p m'"
    by (rule removed_bypass [OF at rd(6)])
      (use rd(4) es rn d in \<open>auto simp: m'_def m2_def m1_def ent_fp_own restrict_map_def fun_eq_iff\<close>)
  with run show ?thesis by blast
qed

lemma memcmp_key: "ent_ok True m e \<Longrightarrow> length bd = 6 \<Longrightarrow> memcmp_eq (ce_kid e @ [0]) bd BTIF_BD_ADDR_SIZE = Some (ce_kid e = bd)"
  by (simp add: memcmp_eq_def ent_ok_def)

lemma node_key_at: "m q = Some (mk_node r (ce_ent e)) \<Longrightarrow> ent_ok ddb m e \<Longrightarrow> node_key q m = Some (ce_ent e, ce_kid e @ [0])"
  by (simp add: node_key_def ent_ok_def)

lemma find_node_loop_hit:
  assumes "lseg m q (map ent_pair (es1 @ e # es2)) NULL" "\<forall>f \<in> set (es1 @ e # es2). ent_ok True m f"
    and "ce_kid e = bd" "bd \<notin> ce_kid ` set es1" "length bd = 6"
  shows "find_node_loop bd q n m = Some (ce_node e, n + Suc (length es1))"
  using assms
proof (induction es1 arbitrary: q n)
  case Nil
  then show ?case using memcmp_key [of m e bd]
    by (subst find_node_loop.simps) (auto simp: node_key_at)
next
  case (Cons x es1)
  then obtain r where r: "q = ce_node x" "q \<noteq> NULL" "m q = Some (mk_node r (ce_ent x))" "lseg m r (map ent_pair (es1 @ e # es2)) NULL"
    by auto
  have x: "ent_ok True m x" using Cons.prems by simp
  have "find_node_loop bd r (n + 1) m = Some (ce_node e, n + 1 + Suc (length es1))"
    by (rule Cons.IH [OF r(4)]) (use Cons.prems in auto)
  with r Cons.prems memcmp_key [OF x Cons.prems(5)] node_key_at [OF r(3) x] show ?case
    by (subst find_node_loop.simps) auto
qed

lemma last_entry_loop_spec:
  assumes "lseg m q (map ent_pair es) NULL"
  shows "last_entry_loop acc q m = Some (if es = [] then acc else ce_ent (last es))"
  using assms
proof (induction es arbitrary: q acc)
  case (Cons x es)
  then obtain r where "q = ce_node x" "q \<noteq> NULL" "m q = Some (mk_node r (ce_ent x))" "lseg m r (map ent_pair es) NULL"
    by auto
  with Cons.IH show ?case by (subst last_entry_loop.simps) simp
qed (simp add: last_entry_loop.simps)

lemma ddb_at_ents:
  assumes at: "ddb_at m c l S1 s S2 es1 e es2 p"
  shows "\<forall>f \<in> set (cs_ents s). ent_ok True m f" "distinct (map ce_kid (cs_ents s))"
    "\<exists>h. lseg m h (map ent_pair (cs_ents s)) NULL \<and>
       m (cs_list s) = Some (mk_list h (last_node (map ent_pair (cs_ents s))) (of_nat (length (cs_ents s))) ENTRY_FREE)"
proof -
  have nm: "is_ddb s" and s: "sec_ok m s" using at by (simp_all add: ddb_at_def cfg_ok_def)
  from s nm show "\<forall>f \<in> set (cs_ents s). ent_ok True m f" "distinct (map ce_kid (cs_ents s))"
    by (simp_all add: sec_ok_def)
  from s show "\<exists>h. lseg m h (map ent_pair (cs_ents s)) NULL \<and>
       m (cs_list s) = Some (mk_list h (last_node (map ent_pair (cs_ents s))) (of_nat (length (cs_ents s))) ENTRY_FREE)"
    by (auto simp: sec_ok_def is_list_def)
qed

lemma ddb_at_sec:
  assumes at: "ddb_at m c l S1 s S2 es1 e es2 p"
  shows "nvrec_section_find c ddb_name m = Some (cs_sec s)"
    "m (cs_sec s) = Some (C_data (O_section \<lparr>section_name = cs_name s, section_entries = cs_list s\<rparr>))" "cs_sec s \<noteq> NULL"
  by (rule ddb_at_reads [OF at], assumption)+

lemma is_head_spec:
  assumes at: "ddb_at m c l S1 s S2 es1 e es2 p" and bd: "length bd = 6"
  shows "config_entries_ddbdev_is_head c bd m = Some (ce_kid (hd (cs_ents s)) = bd)"
proof -
  obtain h where h: "lseg m h (map ent_pair (cs_ents s)) NULL"
    "m (cs_list s) = Some (mk_list h (last_node (map ent_pair (cs_ents s))) (of_nat (length (cs_ents s))) ENTRY_FREE)"
    using ddb_at_ents(3) [OF at] by blast
  have "cs_ents s \<noteq> []" using at by (simp add: ddb_at_def)
  then obtain x xs where x: "cs_ents s = x # xs" by (cases "cs_ents s") auto
  with h obtain r where "m h = Some (mk_node r (ce_ent x))" by auto
  moreover have "ent_ok True m x" using ddb_at_ents(1) [OF at] x by simp
  ultimately have "node_key h m = Some (ce_ent x, ce_kid x @ [0])" "memcmp_eq (ce_kid x @ [0]) bd BTIF_BD_ADDR_SIZE = Some (ce_kid x = bd)"
    using bd by (simp_all add: node_key_at memcmp_key)
  then show ?thesis using h(2) x ddb_at_sec [OF at]
    by (simp add: config_entries_ddbdev_is_head_def)
qed

lemma is_tail_spec:
  assumes at: "ddb_at m c l S1 s S2 es1 e es2 p" and bd: "length bd = 6"
  shows "config_entries_ddbdev_is_tail c bd m = Some (ce_kid (last (cs_ents s)) = bd)"
proof -
  obtain h where h: "lseg m h (map ent_pair (cs_ents s)) NULL"
    "m (cs_list s) = Some (mk_list h (last_node (map ent_pair (cs_ents s))) (of_nat (length (cs_ents s))) ENTRY_FREE)"
    using ddb_at_ents(3) [OF at] by blast
  have ne: "cs_ents s \<noteq> []" using at by (simp add: ddb_at_def)
  then have x: "ent_ok True m (last (cs_ents s))" using ddb_at_ents(1) [OF at] by simp
  have "last_entry_loop NULL h m = Some (ce_ent (last (cs_ents s)))"
    using last_entry_loop_spec [OF h(1)] ne by simp
  then show ?thesis using h(2) x memcmp_key [OF x bd] ddb_at_sec [OF at]
    by (simp add: config_entries_ddbdev_is_tail_def ent_ok_def)
qed

lemma delete_mid_removed:
  assumes at: "ddb_at m c l S1 s S2 (us @ [pv]) e es2 p" and bd: "ce_kid e = bd"
    and ne: "es2 \<noteq> []"
  shows "\<exists>m'. config_entries_ddbdev_delete c bd m = Some m' \<and> removed m s (us @ [pv]) e es2 p m'"
proof -
  obtain h r where rd: "nvrec_section_find c ddb_name m = Some (cs_sec s)" "cs_sec s \<noteq> NULL"
    "m (cs_sec s) = Some (C_data (O_section \<lparr>section_name = cs_name s, section_entries = cs_list s\<rparr>))"
    "m (cs_list s) = Some (mk_list h (last_node (map ent_pair ((us @ [pv]) @ e # es2))) (of_nat (length ((us @ [pv]) @ e # es2))) ENTRY_FREE)"
    "lseg m h (map ent_pair (us @ [pv])) (ce_node e)" "m (ce_node e) = Some (mk_node r (ce_ent e))" "lseg m r (map ent_pair es2) NULL"
    "ce_node e \<noteq> NULL" "node_key (ce_node e) m = Some (ce_ent e, ce_kid e @ [0])" "ce_ent e \<noteq> NULL"
    by (rule ddb_at_reads [OF at])
  have es: "cs_ents s = us @ pv # e # es2" and ok: "cfg_ok m c l (S1 @ s # S2)" and ptr: "ddb_get_ptr c (ce_kid e @ [0]) m = Some p"
    and p: "p \<noteq> NULL" using at by (auto simp: ddb_at_def)
  have s: "sec_ok m s" using ok by (simp add: cfg_ok_def)
  have ents: "\<forall>f \<in> set ((us @ [pv]) @ e # es2). ent_ok True m f" "bd \<notin> ce_kid ` set (us @ [pv])" "length bd = 6"
    using ddb_at_ents(1,2) [OF at] bd by (auto simp: es ent_ok_def)
  have "lseg m h (map ent_pair ((us @ [pv]) @ e # es2)) NULL" using rd(5,6,7,8) by (auto simp: lseg_append)
  from find_node_loop_hit [OF this ents(1) bd ents(2,3), of 0]
  have loop: "find_node_loop bd h 0 m = Some (ce_node e, Suc (Suc (length us)))" by simp
  have adv: "advance (length us) h m = Some (ce_node pv)"
    using advance_lseg [of m h "map ent_pair us" "ent_pair pv" "ce_node e"] rd(5) by simp
  have pvn: "m (ce_node pv) = Some (mk_node (ce_node e) (ce_ent pv))" using rd(5) by (auto simp: lseg_append)
  have out: "insert p (ent_own e) \<inter> insert (cs_list s) (ce_node ` set (cs_ents s)) = {}" by (rule ddb_release(3) [OF at refl])
  have d: "distinct (map ce_node (cs_ents s))" "cs_list s \<notin> ce_node ` set (cs_ents s)"
    using is_list_distinct [of m "cs_list s" "map ent_pair (cs_ents s)"] is_list_neq [of m "cs_list s" "map ent_pair (cs_ents s)"] s
    by (auto simp: sec_ok_def image_image comp_def)
  have rel: "do { m \<leftarrow> pool_free p m; nvrec_entry_free (ce_ent e) m } = Some (m |` (- insert p (ent_own e)))"
    by (rule ddb_release(1) [OF at]) simp
  define m2 where "m2 = m |` (- insert p (ent_own e))"
  define m' where "m' = m2(ce_node e := None, ce_node pv \<mapsto> mk_node r (ce_ent pv),
    cs_list s \<mapsto> mk_list h (last_node (map ent_pair es2)) (of_nat (length us + Suc (length es2))) ENTRY_FREE)"
  have n2: "m2 (ce_node pv) = Some (mk_node (ce_node e) (ce_ent pv))" "m2 (ce_node e) = Some (mk_node r (ce_ent e))"
    "m2 (cs_list s) = Some (mk_list h (last_node (map ent_pair es2)) (of_nat (Suc (length us + Suc (length es2)))) ENTRY_FREE)"
    using out d es pvn rd(4,6) ne by (auto simp: m2_def restrict_map_def)
  have diff: "ce_node pv \<noteq> ce_node e" "cs_list s \<noteq> ce_node e" "cs_list s \<noteq> ce_node pv" using d es by auto
  have fin: "do { p \<leftarrow> list_next_ext (ce_node pv) m2; m \<leftarrow> pool_free p m2; m \<leftarrow> upd_node (ce_node pv) (next_node_update (\<lambda>_. r)) m;
      upd_list (cs_list s) (list_length_update (\<lambda>n. n - 1)) m } = Some m'"
    using n2 diff rd(8) by (auto simp: m'_def pool_free_def)
  have "config_entries_ddbdev_delete c bd m = do {
      m \<leftarrow> do { m \<leftarrow> pool_free p m; nvrec_entry_free (ce_ent e) m };
      p \<leftarrow> list_next_ext (ce_node pv) m; m \<leftarrow> pool_free p m; m \<leftarrow> upd_node (ce_node pv) (next_node_update (\<lambda>_. r)) m;
      upd_list (cs_list s) (list_length_update (\<lambda>n. n - 1)) m }"
    using rd(1,3,4,6,8,9) loop adv ptr p by (simp add: config_entries_ddbdev_delete_def Let_def)
  also have "\<dots> = Some m'" using rel fin by (simp add: m2_def [symmetric])
  finally have run: "config_entries_ddbdev_delete c bd m = Some m'" .
  have "removed m s (us @ [pv]) e es2 p m'"
    by (rule removed_bypass [OF at rd(6)])
      (use rd(4) es ne diff in \<open>auto simp: m'_def m2_def ent_fp_own restrict_map_def fun_eq_iff\<close>)
  with run show ?thesis by blast
qed

text \<open>Whatever the position of the entry, the right helper runs, and the entry is gone.\<close>

lemma entry_value_delete_removed:
  assumes at: "ddb_at (ddb_mem st) (cfg_of st) l S1 s S2 es1 e es2 p"
  shows "\<exists>m'. config_specific_entry_value_delete (ce_kid e) st =
       Some (st\<lparr>ddb_mem := m', ddb_nv := nv_record_update_runtime_userdata (ddb_nv st)\<rparr>) \<and>
     removed (ddb_mem st) s es1 e es2 p m'"
proof -
  have es: "cs_ents s = es1 @ e # es2" using at by (simp add: ddb_at_def)
  have bd: "length (ce_kid e) = 6" and dist: "distinct (map ce_kid (cs_ents s))"
    using ddb_at_ents(1,2) [OF at] es by (auto simp: ent_ok_def)
  note head = is_head_spec [OF at bd] and tail = is_tail_spec [OF at bd]
  show ?thesis
  proof (cases es1 rule: rev_cases)
    case Nil
    then show ?thesis using delete_head_removed [OF at [unfolded Nil]] head es
      by (auto simp: config_specific_entry_value_delete_def Let_def)
  next
    case (snoc us pv)
    note at' = at [unfolded snoc]
    have nh: "ce_kid (hd (cs_ents s)) \<noteq> ce_kid e" using dist es snoc by (cases us) auto
    show ?thesis
    proof (cases "es2 = []")
      case True
      then show ?thesis using delete_tail_removed [OF at' [unfolded True]] head tail nh es snoc
        by (auto simp: config_specific_entry_value_delete_def Let_def)
    next
      case False
      then have "ce_kid (last es2) \<in> ce_kid ` set es2" by simp
      moreover have "ce_kid e \<notin> ce_kid ` set es2" using dist es by simp
      ultimately have "ce_kid (last (cs_ents s)) \<noteq> ce_kid e" using False es by (metis last_append last_ConsR list.distinct(1))
      then show ?thesis using delete_mid_removed [OF at' refl False] head tail nh es snoc
        by (auto simp: config_specific_entry_value_delete_def Let_def)
    qed
  qed
qed

section \<open>The list of devices\<close>

lemma update_runtime_config [simp]: "nv_config (nv_record_update_runtime_userdata n) = nv_config n"
  by (simp add: nv_record_update_runtime_userdata_def)

lemma find_first: "\<forall>y \<in> set xs. \<not> P y \<Longrightarrow> P x \<Longrightarrow> find P (xs @ x # ys) = Some x"
  by (induction xs) auto

lemma ddb_rep_split:
  assumes rep: "ddb_rep m c l S (D1 @ x # D2)"
  obtains S1 s S2 es1 e es2 where "S = S1 @ s # S2" "ddb_at m c l S1 s S2 es1 e es2 (fst x)"
    "list_all2 (dev_ok m) es1 D1" "dev_ok m e x" "list_all2 (dev_ok m) es2 D2"
proof -
  have ok: "cfg_ok m c l S" and dv: "list_all2 (dev_ok m) (ddb_ents S) (D1 @ x # D2)" using rep by (simp_all add: ddb_rep_def)
  from dv obtain es1 e es2 where es: "ddb_ents S = es1 @ e # es2" "list_all2 (dev_ok m) es1 D1" "dev_ok m e x" "list_all2 (dev_ok m) es2 D2"
    by (auto simp: list_all2_append2 list_all2_Cons2)
  then have ne: "ddb_ents S \<noteq> []" by simp
  obtain S1 s S2 where s: "S = S1 @ s # S2" "cs_nm s = section_name_ddbrec" "ddb_ents S = cs_ents s"
    by (rule ddb_sec [OF ok ne], rule that)
  have sok: "sec_ok m s" using ok s(1) by (simp add: cfg_ok_def)
  have "e \<in> set (cs_ents s)" using es(1) s(3) by simp
  with sok s have eok: "ent_ok True m e" and dist: "distinct (map ce_kid (ddb_ents S))" by (simp_all add: sec_ok_def)
  have "map ce_kid (ddb_ents S) = map (\<lambda>x. dev_addr (snd x)) (D1 @ x # D2)" by (rule dev_ok_addrs [OF dv])
  with dist have "dev_addr (snd x) \<notin> (\<lambda>x. dev_addr (snd x)) ` set D1" by simp
  then have "\<forall>y \<in> set D1. dev_addr (snd y) \<noteq> ce_kid e" using es(3) by (force simp: dev_ok_def)
  then have fx: "find (\<lambda>y. dev_addr (snd y) = ce_kid e) (D1 @ x # D2) = Some x"
    using es(3) by (intro find_first) (auto simp: dev_ok_def)
  have key: "key_of True (ce_kid e @ [0]) = Some (ce_kid e)" using key_of_stored [OF eok] .
  have "ddb_get_ptr c (ce_kid e @ [0]) m = Some (fst x)" using ddb_get_ptr_spec [OF ok dv key] fx by simp
  moreover have "fst x \<notin> set (c # l # secs_fp S)" using device_outside [OF ok, of "fst x" "snd x"] es(3) by (simp add: dev_ok_def)
  ultimately have "ddb_at m c l S1 s S2 es1 e es2 (fst x)"
    using ok s es(1,3) unfolding ddb_at_def dev_ok_def by simp
  with s(1) es show ?thesis by (intro that)
qed

lemma ddb_ents_mid: "cfg_ok m c l (S1 @ s # S2) \<Longrightarrow> cs_nm s = section_name_ddbrec \<Longrightarrow> ddb_ents (S1 @ s # S2) = cs_ents s"
  using find_sec_mid [of m c l S1 s S2] by (simp add: ddb_ents_def)

text \<open>The number of sections of paired devices.\<close>

definition ddb_secs :: "csec list \<Rightarrow> nat" where
  "ddb_secs S = (if find_sec section_name_ddbrec S = None then 0 else 1)"

lemma ddb_secs_mid: "cfg_ok m c l (S1 @ s # S2) \<Longrightarrow> cs_nm s = section_name_ddbrec \<Longrightarrow> ddb_secs (S1 @ s # S2) = 1"
  using find_sec_mid [of m c l S1 s S2] by (simp add: ddb_secs_def)

text \<open>
  Removing: the tree stands for the other devices; five blocks are released (device, entry, key,
  value, node), and no other device changes.
\<close>

lemma removed_rep:
  assumes rep: "ddb_rep m c l (S1 @ s # S2) (D1 @ x # D2)" and at: "ddb_at m c l S1 s S2 es1 e es2 (fst x)"
    and dv: "list_all2 (dev_ok m) es1 D1" "list_all2 (dev_ok m) es2 D2" and r: "removed m s es1 e es2 (fst x) m'"
  shows "ddb_rep m' c l (S1 @ with_ents s (es1 @ es2) # S2) (D1 @ D2)" "card (dom m') + 5 = card (dom m)"
    "\<And>q d. m q = Some (C_data (O_device d)) \<Longrightarrow> q \<noteq> fst x \<Longrightarrow> m' q = m q"
    "ddb_secs (S1 @ with_ents s (es1 @ es2) # S2) = 1"
proof -
  have ok: "cfg_ok m c l (S1 @ s # S2)" and es: "cs_ents s = es1 @ e # es2" and nm: "cs_nm s = section_name_ddbrec"
    and p: "fst x \<notin> set (c # l # secs_fp (S1 @ s # S2))" "m (fst x) \<noteq> None" using at by (auto simp: ddb_at_def)
  have s: "sec_ok m s" using ok by (simp add: cfg_ok_def)
  note 1 = removed_ok [OF ok es p(1) r]
  show "ddb_secs (S1 @ with_ents s (es1 @ es2) # S2) = 1" using ddb_secs_mid [OF 1(1)] nm by simp
  show keep: "m' q = m q" if "m q = Some (C_data (O_device d))" "q \<noteq> fst x" for q d
  proof -
    have "q \<notin> set (c # l # secs_fp (S1 @ s # S2))" by (rule device_outside [OF ok that(1)])
    then have "q \<notin> insert (cs_list s) (ce_node ` set es1)" "q \<notin> set (ent_fp e)"
      using es by (auto simp: sec_body_def set_ents_fp ent_fp_def)
    with r that(2) show ?thesis by (simp add: removed_def)
  qed
  have "m' (fst y) = m (fst y)" if "y \<in> set (D1 @ D2)" for y
  proof -
    have "fst x \<notin> fst ` set (D1 @ D2)" using rep by (auto simp: ddb_rep_def)
    with that have "fst y \<noteq> fst x" by (metis image_eqI)
    moreover have "\<exists>e. dev_ok m e y" using that dv by (auto simp: list_all2_conv_all_nth in_set_conv_nth)
    ultimately show ?thesis using keep by (auto simp: dev_ok_def)
  qed
  then have "list_all2 (dev_ok m') (es1 @ es2) (D1 @ D2)"
    by (intro list_all2_appendI dev_ok_cong [OF dv(1)] dev_ok_cong [OF dv(2)]) auto
  then show "ddb_rep m' c l (S1 @ with_ents s (es1 @ es2) # S2) (D1 @ D2)"
    using rep 1(1) ddb_ents_mid [OF 1(1)] nm by (simp add: ddb_rep_def)
  have sub: "insert (fst x) (set (ent_fp e)) \<subseteq> dom m"
    using p(2) sec_ok_dom [OF s] es by (auto simp: sec_body_def domIff)
  have "distinct (ents_fp (cs_ents s))" using s by (simp add: sec_ok_def sec_body_def)
  from distinct_concat_mem [OF this [unfolded ents_fp_def], of e] es
  have "distinct (ent_fp e)" by simp
  moreover have "fst x \<notin> set (ent_fp e)" using p(1) es by (auto simp: sec_body_def)
  ultimately have c5: "card (insert (fst x) (set (ent_fp e))) = 5" by (simp add: distinct_card [of "ent_fp e"] ent_fp_def)
  have "card (dom m') = card (dom m) - 5"
    using card_Diff_subset [OF _ sub] 1(2) c5 by simp
  moreover have "5 \<le> card (dom m)" using card_mono [OF _ sub] c5 by simp
  ultimately show "card (dom m') + 5 = card (dom m)" by simp
qed

lemma entry_value_delete_rep:
  assumes rep: "ddb_rep (ddb_mem st) (cfg_of st) l S (D1 @ x # D2)"
  obtains m' S' where "config_specific_entry_value_delete (dev_addr (snd x)) st =
       Some (st\<lparr>ddb_mem := m', ddb_nv := nv_record_update_runtime_userdata (ddb_nv st)\<rparr>)"
    "ddb_rep m' (cfg_of st) l S' (D1 @ D2)" "card (dom m') + 5 = card (dom (ddb_mem st))" "ddb_secs S' = 1"
    "\<And>q d. ddb_mem st q = Some (C_data (O_device d)) \<Longrightarrow> q \<noteq> fst x \<Longrightarrow> m' q = ddb_mem st q"
proof -
  obtain S1 s S2 es1 e es2 where S: "S = S1 @ s # S2" "ddb_at (ddb_mem st) (cfg_of st) l S1 s S2 es1 e es2 (fst x)"
    "list_all2 (dev_ok (ddb_mem st)) es1 D1" "dev_ok (ddb_mem st) e x" "list_all2 (dev_ok (ddb_mem st)) es2 D2"
    by (rule ddb_rep_split [OF rep])
  obtain m' where 1: "config_specific_entry_value_delete (ce_kid e) st =
       Some (st\<lparr>ddb_mem := m', ddb_nv := nv_record_update_runtime_userdata (ddb_nv st)\<rparr>)" "removed (ddb_mem st) s es1 e es2 (fst x) m'"
    using entry_value_delete_removed [OF S(2)] by blast
  note 2 = removed_rep [OF rep [unfolded S(1)] S(2,3,5) 1(2)]
  have kid: "ce_kid e = dev_addr (snd x)" using S(4) by (simp add: dev_ok_def)
  show ?thesis by (rule that [OF 1(1) [unfolded kid] 2(1,2) 2(4) 2(3)])
qed

lemma delete_head_rep:
  assumes rep: "ddb_rep m c l S (x # D)"
  obtains m' S' where "config_entries_ddbdev_delete_head c m = Some m'" "ddb_rep m' c l S' D" "card (dom m') + 5 = card (dom m)" "ddb_secs S' = 1"
    "\<And>q d. m q = Some (C_data (O_device d)) \<Longrightarrow> q \<noteq> fst x \<Longrightarrow> m' q = m q"
proof -
  have rep': "ddb_rep m c l S ([] @ x # D)" using rep by simp
  obtain S1 s S2 es1 e es2 where S: "S = S1 @ s # S2" "ddb_at m c l S1 s S2 es1 e es2 (fst x)"
    "list_all2 (dev_ok m) es1 []" "dev_ok m e x" "list_all2 (dev_ok m) es2 D"
    by (rule ddb_rep_split [OF rep'])
  then have e1: "es1 = []" by simp
  obtain m' where 1: "config_entries_ddbdev_delete_head c m = Some m'" "removed m s [] e es2 (fst x) m'"
    using delete_head_removed [OF S(2) [unfolded e1]] by blast
  note 2 = removed_rep [OF rep' [unfolded S(1)] S(2) [unfolded e1] S(3) [unfolded e1] S(5) 1(2)]
  show ?thesis by (rule that [OF 1(1) 2(1) [unfolded append_Nil] 2(2) 2(4) [unfolded append_Nil] 2(3)])
qed

lemma ddbrec_length_rep:
  assumes rep: "ddb_rep m c l S D"
  shows "config_entries_get_ddbrec_length c m = Some (of_nat (length D))" "length D < 2 ^ 32"
proof -
  have ok: "cfg_ok m c l S" and dv: "list_all2 (dev_ok m) (ddb_ents S) D" using rep by (simp_all add: ddb_rep_def)
  have c: "c \<noteq> NULL" using ok by (auto simp: cfg_ok_def)
  have len: "length (ddb_ents S) = length D" using dv by (rule list_all2_lengthD)
  show "config_entries_get_ddbrec_length c m = Some (of_nat (length D))"
  proof (cases "find_sec section_name_ddbrec S")
    case None
    then have "D = []" using len by (simp add: ddb_ents_def)
    with None c section_find_spec [OF ok ddb_name_cstr] show ?thesis by (simp add: config_entries_get_ddbrec_length_def)
  next
    case (Some s)
    then have s: "s \<in> set S" using find_sec_Some by blast
    from cfg_sec_ok [OF ok s] Some c len sec_nonnull [OF ok s] section_find_spec [OF ok ddb_name_cstr]
    show ?thesis by (auto simp: config_entries_get_ddbrec_length_def sec_ok_def is_list_def ddb_ents_def)
  qed
  show "length D < 2 ^ 32"
  proof (cases "find_sec section_name_ddbrec S")
    case (Some s)
    then have "sec_ok m s" using find_sec_Some cfg_sec_ok [OF ok] by blast
    then have "length (map ent_pair (cs_ents s)) < 2 ^ 32" unfolding sec_ok_def using is_list_bound by blast
    with Some len show ?thesis by (simp add: ddb_ents_def)
  qed (use len in \<open>simp add: ddb_ents_def\<close>)
qed

section \<open>What the interface does to the list of devices\<close>

lemma ddb_holdsI: "ddb_rep (ddb_mem s) (cfg_of s) l S D \<Longrightarrow> R = map snd D \<Longrightarrow> ddb_holds s R"
  unfolding ddb_holds_def by blast

lemma find_dev_map: "find_dev k (map snd D) = map_option snd (find (\<lambda>x. dev_addr (snd x) = k) D)"
  unfolding find_dev_def by (rule find_map)

lemma ddb_rep_device: "ddb_rep m c l S D \<Longrightarrow> x \<in> set D \<Longrightarrow> fst x \<noteq> NULL \<and> m (fst x) = Some (C_data (O_device (snd x)))"
  by (auto simp: ddb_rep_def list_all2_conv_all_nth in_set_conv_nth dev_ok_def)

lemma ddb_get_ptr_rep:
  assumes "ddb_rep m c l S D" "length bd = 6"
  shows "ddb_get_ptr c (bd @ [0]) m = Some (case find (\<lambda>x. dev_addr (snd x) = bd) D of None \<Rightarrow> NULL | Some x \<Rightarrow> fst x)"
  by (rule ddb_get_ptr_spec) (use assms ddb_key_of(2) in \<open>auto simp: ddb_rep_def\<close>)

lemma ddb_rep_addrs: "ddb_rep m c l S D \<Longrightarrow> distinct (map (\<lambda>x. dev_addr (snd x)) D)"
proof -
  assume rep: "ddb_rep m c l S D"
  have "distinct (map ce_kid (ddb_ents S))"
  proof (cases "find_sec section_name_ddbrec S")
    case (Some s)
    then have "sec_ok m s" using rep find_sec_Some cfg_sec_ok unfolding ddb_rep_def by blast
    with Some show ?thesis by (simp add: ddb_ents_def sec_ok_def)
  qed (simp add: ddb_ents_def)
  with rep dev_ok_addrs show ?thesis by (fastforce simp: ddb_rep_def)
qed

lemma ddb_rep_addr_len: "ddb_rep m c l S D \<Longrightarrow> x \<in> set D \<Longrightarrow> length (dev_addr (snd x)) = 6"
proof -
  assume rep: "ddb_rep m c l S D" and x: "x \<in> set D"
  then obtain D1 D2 where D: "D = D1 @ x # D2" by (meson split_list)
  obtain S1 s S2 es1 e es2 where "ddb_at m c l S1 s S2 es1 e es2 (fst x)" "dev_ok m e x"
    by (rule ddb_rep_split [OF rep [unfolded D]], rule that)
  with ddb_at_ents(1) [of m c l S1 s S2 es1 e es2 "fst x"] show ?thesis by (auto simp: ddb_at_def dev_ok_def ent_ok_def)
qed

lemma find_split:
  assumes "find P xs = Some x"
  obtains us vs where "xs = us @ x # vs" "P x" "\<forall>y \<in> set us. \<not> P y"
proof -
  obtain i where i: "i < length xs" "P (xs ! i)" "xs ! i = x" "\<forall>j < i. \<not> P (xs ! j)"
    using assms by (auto simp: find_Some_iff)
  then have "xs = take i xs @ x # drop (Suc i) xs" using id_take_nth_drop by blast
  moreover have "\<forall>y \<in> set (take i xs). \<not> P y" using i by (auto simp: in_set_conv_nth)
  ultimately show ?thesis using i by (intro that) auto
qed

text \<open>Only one device has the address.\<close>

lemma filter_other:
  assumes "distinct (map f (us @ x # vs))"
  shows "filter (\<lambda>y. f y \<noteq> f x) (us @ x # vs) = us @ vs"
proof -
  have 1: "f x \<notin> f ` set us" "f x \<notin> f ` set vs" using assms by auto
  have "\<forall>y \<in> set us. f y \<noteq> f x" using image_neq [OF 1(1)] by blast
  moreover have "\<forall>y \<in> set vs. f y \<noteq> f x" using image_neq [OF 1(2)] by blast
  ultimately have "filter (\<lambda>y. f y \<noteq> f x) us = us" "filter (\<lambda>y. f y \<noteq> f x) vs = vs" by (simp_all add: filter_id_conv)
  then show ?thesis by simp
qed

lemma filter_unknown: "find_dev bd R = None \<Longrightarrow> filter (\<lambda>d. dev_addr d \<noteq> bd) R = R"
  by (simp add: find_dev_def find_None_iff filter_id_conv)

text \<open>
  Looking up an address gives the record of the device with that address, and fails if there
  is none; the state does not change.
\<close>

theorem nv_record_ddbrec_find_refines:
  assumes "ddb_holds s R" "length bd = 6"
  shows "nv_record_ddbrec_find (Some bd) True s = Some (case find_dev bd R of
    None \<Rightarrow> (BT_STS_FAILED, None) | Some d \<Rightarrow> (BT_STS_SUCCESS, Some (dev_record d)))"
proof -
  obtain l S D where rep: "ddb_rep (ddb_mem s) (cfg_of s) l S D" and R: "R = map snd D" using assms(1) by (auto simp: ddb_holds_def)
  have c: "cfg_of s \<noteq> NULL" using rep by (auto simp: ddb_rep_def cfg_ok_def)
  show ?thesis
  proof (cases "find (\<lambda>x. dev_addr (snd x) = bd) D")
    case None
    then show ?thesis using ddb_get_ptr_rep [OF rep assms(2)] c assms(2)
      by (simp add: nv_record_ddbrec_find_def ddb_key_of R find_dev_map)
  next
    case (Some x)
    then have "x \<in> set D" using find_SomeD by force
    from ddb_rep_device [OF rep this] Some ddb_get_ptr_rep [OF rep assms(2)] c assms(2) show ?thesis
      by (simp add: nv_record_ddbrec_find_def ddb_key_of R find_dev_map rd_device_def)
  qed
qed

text \<open>
  C18. Deleting an address removes the device with it, whatever its position in the list, and
  keeps the others in their order: the configuration stays well-formed, exactly the five blocks of
  the device are released, and a flush is due. An unknown address fails and changes nothing.
\<close>

theorem nv_record_ddbrec_delete_refines:
  assumes "ddb_holds s R" "length bd = 6"
  shows "\<exists>s'. nv_record_ddbrec_delete bd s = Some (if find_dev bd R = None then BT_STS_FAILED else BT_STS_SUCCESS, s') \<and>
    ddb_holds s' (filter (\<lambda>d. dev_addr d \<noteq> bd) R) \<and>
    (if find_dev bd R = None then s' = s
     else is_update (ddb_nv s') \<and> card (dom (ddb_mem s')) + 5 = card (dom (ddb_mem s)))"
proof -
  obtain l S D where rep: "ddb_rep (ddb_mem s) (cfg_of s) l S D" and R: "R = map snd D" using assms(1) by (auto simp: ddb_holds_def)
  have c: "cfg_of s \<noteq> NULL" using rep by (auto simp: ddb_rep_def cfg_ok_def)
  show ?thesis
  proof (cases "find (\<lambda>x. dev_addr (snd x) = bd) D")
    case None
    then have "filter (\<lambda>d. dev_addr d \<noteq> bd) R = R" using filter_unknown [of bd R] by (simp add: R find_dev_map)
    with None show ?thesis using ddb_get_ptr_rep [OF rep assms(2)] assms
      by (auto simp: nv_record_ddbrec_delete_def ddb_key_of R find_dev_map)
  next
    case (Some x)
    obtain D1 D2 where D: "D = D1 @ x # D2" "dev_addr (snd x) = bd" by (rule find_split [OF Some], rule that)
    obtain m' S' where 1: "config_specific_entry_value_delete (dev_addr (snd x)) s =
         Some (s\<lparr>ddb_mem := m', ddb_nv := nv_record_update_runtime_userdata (ddb_nv s)\<rparr>)"
      "ddb_rep m' (cfg_of s) l S' (D1 @ D2)" "card (dom m') + 5 = card (dom (ddb_mem s))"
      by (rule entry_value_delete_rep [OF rep [unfolded D(1)]], rule that)
    have "filter (\<lambda>y. dev_addr (snd y) \<noteq> bd) D = D1 @ D2"
      using filter_other [of "\<lambda>y. dev_addr (snd y)" D1 x D2] ddb_rep_addrs [OF rep] D by simp
    then have "filter (\<lambda>d. dev_addr d \<noteq> bd) R = map snd (D1 @ D2)" by (simp add: R filter_map comp_def)
    then have "ddb_holds (s\<lparr>ddb_mem := m', ddb_nv := nv_record_update_runtime_userdata (ddb_nv s)\<rparr>) (filter (\<lambda>d. dev_addr d \<noteq> bd) R)"
      using 1(2) by (intro ddb_holdsI [where D = "D1 @ D2"]) simp_all
    moreover have "nv_record_ddbrec_delete bd s = Some (BT_STS_SUCCESS, s\<lparr>ddb_mem := m', ddb_nv := nv_record_update_runtime_userdata (ddb_nv s)\<rparr>)"
      using ddb_get_ptr_rep [OF rep assms(2)] Some ddb_rep_device [OF rep, of x] D 1(1) assms(2)
      by (simp add: nv_record_ddbrec_delete_def ddb_key_of rd_device_def)
    ultimately show ?thesis using Some 1(3) c
      by (simp add: R find_dev_map nv_record_update_runtime_userdata_def)
  qed
qed

section \<open>Adding a device\<close>

lemma set_int_ddb:
  assumes rep: "ddb_rep m c l S D" and room: "has_room k alloc" "card (dom m) + 8 \<le> k"
    and p: "m p = Some (C_data (O_device d))" "p \<noteq> NULL" "p \<notin> fst ` set D"
    and bd: "length (dev_addr d) = 6" "\<forall>x \<in> set D. dev_addr (snd x) \<noteq> dev_addr d"
  obtains m' S' where "nvrec_config_set_int alloc c ddb_name (dev_addr d @ [0]) (sint p) m = Some m'"
    "ddb_rep m' c l S' (D @ [(p, d)])" "card (dom m') + 4 * ddb_secs S \<le> card (dom m) + 8" "ddb_secs S' = 1"
proof -
  have ok: "cfg_ok m c l S" and dv: "list_all2 (dev_ok m) (ddb_ents S) D" using rep by (simp_all add: ddb_rep_def)
  have key: "key_of (section_name_ddbrec = section_name_ddbrec) (dev_addr d @ [0]) = Some (dev_addr d)" using ddb_key_of(2) [OF bd(1)] by simp
  have "map ce_kid (ddb_ents S) = map (\<lambda>x. dev_addr (snd x)) D" using dev_ok_addrs [OF dv] .
  then have "dev_addr d \<notin> ce_kid ` set (ddb_ents S)" using bd(2) by (metis (mono_tags, lifting) image_iff list.set_map)
  then have none: "lookup_ent section_name_ddbrec (dev_addr d) S = None"
    by (cases "find_sec section_name_ddbrec S") (auto simp: lookup_ent_def ddb_ents_def find_ent_def find_None_iff dest: image_neq)
  have val: "cstr (int_buffer (sint p)) = Some (print_int (sint p))" using cstr_int_buffer sint_u32 by blast
  obtain m' S1 s S2 e where 1: "nvrec_config_set_string alloc c ddb_name (dev_addr d @ [0]) (int_buffer (sint p)) m = Some m'"
    "cfg_ok m' c l (S1 @ with_ents s (cs_ents s @ [e]) # S2)" "cs_nm s = section_name_ddbrec" "ce_kid e = dev_addr d"
    "ce_vb e = print_int (sint p) @ [0]"
    "S = S1 @ s # S2 \<or> S = S1 \<and> S2 = [] \<and> cs_ents s = [] \<and> find_sec section_name_ddbrec S = None"
    "\<And>a. m a \<noteq> None \<Longrightarrow> a \<notin> set (c # l # secs_fp S) \<Longrightarrow> m' a = m a" "card (dom m') \<le> card (dom m) + 8"
    "\<And>a. a \<in> set (ent_fp e) \<Longrightarrow> m a = None" "find_sec section_name_ddbrec S \<noteq> None \<Longrightarrow> card (dom m') \<le> card (dom m) + 4"
    by (rule set_string_append [OF ok room ddb_name_cstr key none val], rule that)
  let ?S = "S1 @ with_ents s (cs_ents s @ [e]) # S2"
  have es: "ddb_ents ?S = ddb_ents S @ [e]"
    using 1(6)
  proof
    assume S: "S = S1 @ s # S2"
    show ?thesis using ddb_ents_mid [OF 1(2)] ddb_ents_mid [OF ok [unfolded S]] 1(3) by (simp add: S)
  next
    assume "S = S1 \<and> S2 = [] \<and> cs_ents s = [] \<and> find_sec section_name_ddbrec S = None"
    then have "ddb_ents S = []" "cs_ents s = []" by (auto simp: ddb_ents_def)
    then show ?thesis using ddb_ents_mid [OF 1(2)] 1(3) by simp
  qed
  have same: "m' q = m q" if "m q = Some (C_data (O_device d'))" for q d'
    using 1(7) device_outside [OF ok that] that by simp
  have "list_all2 (dev_ok m') (ddb_ents S) D"
    by (rule dev_ok_cong [OF dv]) (use ddb_rep_device [OF rep] same in auto)
  moreover have "dev_ok m' e (p, d)"
    using 1(4,5) p same [OF p(1)] takeWhile_str [OF print_int_no_0, of "sint p"] by (simp add: dev_ok_def cval_def)
  ultimately have "ddb_rep m' c l ?S (D @ [(p, d)])"
    using rep 1(2) p(3) es by (simp add: ddb_rep_def list_all2_appendI)
  moreover have "nvrec_config_set_int alloc c ddb_name (dev_addr d @ [0]) (sint p) m = Some m'"
    using 1(1) by (simp add: nvrec_config_set_int_def)
  moreover have "card (dom m') + 4 * ddb_secs S \<le> card (dom m) + 8" using 1(8,10) by (auto simp: ddb_secs_def)
  moreover have "ddb_secs ?S = 1" using ddb_secs_mid [OF 1(2)] 1(3) by simp
  ultimately show ?thesis by (intro that)
qed

text \<open>
  What adding does: a device whose settings are the same and that is the newest stays as it is;
  any other is taken out and put behind the others, the oldest one going if there are ten.
\<close>

definition ddb_keeps :: "nvrec_btdevicerecord \<Rightarrow> nvrec_btdevicerecord list \<Rightarrow> bool" where
  "ddb_keeps param R \<longleftrightarrow> (case find_dev (dev_addr param) R of None \<Rightarrow> False
     | Some d \<Rightarrow> same_settings param d \<and> dev_addr (last R) = dev_addr param)"

definition ddb_add :: "8 word \<Rightarrow> byte \<Rightarrow> nvrec_btdevicerecord \<Rightarrow> nvrec_btdevicerecord list \<Rightarrow> nvrec_btdevicerecord list" where
  "ddb_add vol junk param R = (if ddb_keeps param R then R else
     let R' = filter (\<lambda>d. dev_addr d \<noteq> dev_addr param) R
     in (if length R' = DDB_RECORD_NUM then tl R' else R') @ [new_device vol junk (find_dev (dev_addr param) R) param])"

lemma new_device_addr [simp]: "dev_addr (new_device vol junk old param) = dev_addr param"
  by (simp add: new_device_def split: option.splits)

text \<open>The second half: the new record is in the pool, its address is not in the list.\<close>

definition add_store :: "nvobj allocator \<Rightarrow> byte list \<Rightarrow> addr \<Rightarrow> ddb \<Rightarrow> (bt_status \<times> ddb) option" where
  "add_store alloc key p st = do {
      n \<leftarrow> config_entries_get_ddbrec_length (cfg_of st) (ddb_mem st);
      m \<leftarrow> (if n = of_nat DDB_RECORD_NUM then config_entries_ddbdev_delete_head (cfg_of st) (ddb_mem st) else Some (ddb_mem st));
      m \<leftarrow> nvrec_config_set_int alloc (cfg_of st) ddb_name key (sint p) m;
      Some (BT_STS_SUCCESS, st\<lparr>ddb_mem := m, ddb_nv := nv_record_update_runtime_userdata (ddb_nv st)\<rparr>) }"

lemma add_tail:
  assumes rep: "ddb_rep (ddb_mem st) (cfg_of st) l S D" and room: "has_room k alloc" "card (dom (ddb_mem st)) + 8 \<le> k"
    and p: "ddb_mem st p = Some (C_data (O_device d))" "p \<noteq> NULL" "p \<notin> fst ` set D"
    and bd: "length (dev_addr d) = 6" "\<forall>x \<in> set D. dev_addr (snd x) \<noteq> dev_addr d"
  obtains s' S' D' where "add_store alloc (dev_addr d @ [0]) p st = Some (BT_STS_SUCCESS, s')"
    "ddb_rep (ddb_mem s') (cfg_of s') l S' D'" "map snd D' = map snd (if length D = DDB_RECORD_NUM then tl D else D) @ [d]"
    "card (dom (ddb_mem s')) + 1 + 5 * length D + 4 * ddb_secs S \<le> card (dom (ddb_mem st)) + 5 * length D' + 4 * ddb_secs S'"
proof -
  have full: "(of_nat (length D) :: u32) = of_nat DDB_RECORD_NUM \<longleftrightarrow> length D = DDB_RECORD_NUM"
    using ddbrec_length_rep(2) [OF rep] by (intro of_nat_u32_eq) simp_all
  note len = ddbrec_length_rep(1) [OF rep]
  have le: "ddb_secs T \<le> 1" for T by (simp add: ddb_secs_def)
  show ?thesis
  proof (cases "length D = DDB_RECORD_NUM")
    case True
    then obtain x D' where D: "D = x # D'" by (cases D) auto
    obtain m1 S1 where 1: "config_entries_ddbdev_delete_head (cfg_of st) (ddb_mem st) = Some m1" "ddb_rep m1 (cfg_of st) l S1 D'"
      "card (dom m1) + 5 = card (dom (ddb_mem st))" "ddb_secs S1 = 1"
      "\<And>q d. ddb_mem st q = Some (C_data (O_device d)) \<Longrightarrow> q \<noteq> fst x \<Longrightarrow> m1 q = ddb_mem st q"
      by (rule delete_head_rep [OF rep [unfolded D]], rule that)
    have r: "card (dom m1) + 8 \<le> k" using 1(3) room(2) by simp
    have p1: "m1 p = Some (C_data (O_device d))" "p \<notin> fst ` set D'" using 1(5) [OF p(1)] p D by auto
    have bd2: "\<forall>x \<in> set D'. dev_addr (snd x) \<noteq> dev_addr d" using bd(2) D by simp
    obtain m2 S2 where 2: "nvrec_config_set_int alloc (cfg_of st) ddb_name (dev_addr d @ [0]) (sint p) m1 = Some m2"
      "ddb_rep m2 (cfg_of st) l S2 (D' @ [(p, d)])" "card (dom m2) + 4 * ddb_secs S1 \<le> card (dom m1) + 8" "ddb_secs S2 = 1"
      by (rule set_int_ddb [OF 1(2) room(1) r p1(1) p(2) p1(2) bd(1) bd2], rule that)
    let ?s = "st\<lparr>ddb_mem := m2, ddb_nv := nv_record_update_runtime_userdata (ddb_nv st)\<rparr>"
    have "ddb_rep (ddb_mem ?s) (cfg_of ?s) l S2 (D' @ [(p, d)])" using 2(2) by simp
    then show ?thesis using len full True 1(1,3,4) 2(1,3,4) le [of S]
      by (intro that [of ?s S2 "D' @ [(p, d)]"]) (simp_all add: D add_store_def)
  next
    case False
    obtain m2 S2 where 2: "nvrec_config_set_int alloc (cfg_of st) ddb_name (dev_addr d @ [0]) (sint p) (ddb_mem st) = Some m2"
      "ddb_rep m2 (cfg_of st) l S2 (D @ [(p, d)])" "card (dom m2) + 4 * ddb_secs S \<le> card (dom (ddb_mem st)) + 8" "ddb_secs S2 = 1"
      by (rule set_int_ddb [OF rep room p bd], rule that)
    let ?s = "st\<lparr>ddb_mem := m2, ddb_nv := nv_record_update_runtime_userdata (ddb_nv st)\<rparr>"
    have "ddb_rep (ddb_mem ?s) (cfg_of ?s) l S2 (D @ [(p, d)])" using 2(2) by simp
    then show ?thesis using len full False 2(1,3,4)
      by (intro that [of ?s S2 "D @ [(p, d)]"]) (simp_all add: add_store_def)
  qed
qed

lemma is_tail_rep:
  assumes rep: "ddb_rep m c l S D" and "D \<noteq> []" "length bd = 6"
  shows "config_entries_ddbdev_is_tail c bd m = Some (dev_addr (snd (last D)) = bd)"
proof -
  obtain ys x where D: "D = ys @ x # []" using assms(2) by (metis rev_exhaust)
  obtain S1 s S2 es1 e es2 where S: "ddb_at m c l S1 s S2 es1 e es2 (fst x)" "dev_ok m e x" "list_all2 (dev_ok m) es2 []"
    by (rule ddb_rep_split [OF rep [unfolded D]], rule that)
  then have "last (cs_ents s) = e" by (simp add: ddb_at_def)
  with is_tail_spec [OF S(1) assms(3)] S(2) D show ?thesis by (simp add: dev_ok_def)
qed

lemma ddb_rep_alloc:
  assumes rep: "ddb_rep m c l S D" and p: "m p = None" "p \<noteq> NULL"
  shows "ddb_rep (m(p \<mapsto> v)) c l S D" "p \<notin> fst ` set D"
proof -
  show out: "p \<notin> fst ` set D" using ddb_rep_device [OF rep] p(1) by fastforce
  have ok: "cfg_ok m c l S" and dv: "list_all2 (dev_ok m) (ddb_ents S) D" using rep by (simp_all add: ddb_rep_def)
  have "list_all2 (dev_ok (m(p \<mapsto> v))) (ddb_ents S) D"
    by (rule dev_ok_cong [OF dv]) (use image_neq [OF out] in simp)
  with rep cfg_ok_alloc [OF ok p] show "ddb_rep (m(p \<mapsto> v)) c l S D" by (simp add: ddb_rep_def)
qed

lemma ddb_keeps_rep:
  assumes rep: "ddb_rep (ddb_mem s) (cfg_of s) l S D" and bd: "length (dev_addr param) = 6"
    and d: "find (\<lambda>x. dev_addr (snd x) = dev_addr param) D = Some x"
  shows "(if same_settings param (snd x) then do { t \<leftarrow> config_entries_ddbdev_is_tail (cfg_of s) (dev_addr param) (ddb_mem s); Some (\<not> t) }
     else Some True) = Some (\<not> ddb_keeps param (map snd D))"
proof -
  have "D \<noteq> []" using d by auto
  with is_tail_rep [OF rep _ bd] d show ?thesis
    by (simp add: ddb_keeps_def find_dev_map last_map)
qed

text \<open>Adding, with the blocks that are used.\<close>

lemma ddbrec_add_rep:
  assumes rep: "ddb_rep (ddb_mem s) (cfg_of s) l S D" and "has_room k alloc" "card (dom (ddb_mem s)) + 9 \<le> k" "length (dev_addr param) = 6"
  obtains s' S' D' where "nv_record_ddbrec_add alloc vol junk (Some param) s = Some (BT_STS_SUCCESS, s')"
    "ddb_rep (ddb_mem s') (cfg_of s') l S' D'" "map snd D' = ddb_add vol junk param (map snd D)"
    "card (dom (ddb_mem s')) + 5 * length D + 4 * ddb_secs S \<le> card (dom (ddb_mem s)) + 5 * length D' + 4 * ddb_secs S'"
proof -
  let ?R = "map snd D"
  let ?bd = "dev_addr param" and ?m = "ddb_mem s" and ?c = "cfg_of s"
  let ?d = "new_device vol junk (find_dev ?bd ?R) param"
  define p where "p = alloc ?m 40"
  have room: "card (dom ?m) + Suc 8 \<le> k" using assms(3) by simp
  note al = alloc_step [OF assms(2) room, of 40, folded p_def]
  define m1 where "m1 = ?m(p \<mapsto> C_data (O_device ?d))"
  let ?s1 = "s\<lparr>ddb_mem := m1\<rparr>"
  have m1: "card (dom m1) = Suc (card (dom ?m))" using al(2) by (simp add: m1_def domIff)
  have rep1: "ddb_rep m1 ?c l S D" and out: "p \<notin> fst ` set D"
    unfolding m1_def using ddb_rep_alloc [OF rep al(2,1)] by auto
  have len: "length (dev_addr ?d) = 6" using assms(4) by simp
  show ?thesis
  proof (cases "find (\<lambda>x. dev_addr (snd x) = ?bd) D")
    case None
    have old: "find_dev ?bd ?R = None" using None by (simp add: find_dev_map)
    then have keeps: "\<not> ddb_keeps param ?R" by (simp add: ddb_keeps_def)
    have other: "\<forall>x \<in> set D. dev_addr (snd x) \<noteq> dev_addr ?d" using None by (auto simp: find_None_iff)
    have 1: "ddb_rep (ddb_mem ?s1) (cfg_of ?s1) l S D" "card (dom (ddb_mem ?s1)) + 8 \<le> k" "ddb_mem ?s1 p = Some (C_data (O_device ?d))"
      using rep1 m1 room by (simp_all add: m1_def)
    obtain s' S' D' where s': "add_store alloc (dev_addr ?d @ [0]) p ?s1 = Some (BT_STS_SUCCESS, s')"
      "ddb_rep (ddb_mem s') (cfg_of s') l S' D'" "map snd D' = map snd (if length D = DDB_RECORD_NUM then tl D else D) @ [?d]"
      "card (dom (ddb_mem s')) + 1 + 5 * length D + 4 * ddb_secs S \<le> card (dom (ddb_mem ?s1)) + 5 * length D' + 4 * ddb_secs S'"
      by (rule add_tail [OF 1(1) assms(2) 1(2,3) al(1) out len other], rule that)
    have "nv_record_ddbrec_add alloc vol junk (Some param) s = add_store alloc (dev_addr ?d @ [0]) p ?s1"
      using ddb_get_ptr_rep [OF rep assms(4)] None al(1) old assms(4)
      by (simp add: nv_record_ddbrec_add_def Let_def ddb_key_of pool_malloc_def p_def [symmetric] m1_def add_store_def cong: if_cong)
    moreover have "ddb_add vol junk param ?R = map snd (if length D = DDB_RECORD_NUM then tl D else D) @ [?d]"
      using keeps filter_unknown [OF old] by (simp add: ddb_add_def Let_def map_tl)
    ultimately show ?thesis using s' m1 by (intro that) auto
  next
    case (Some x)
    obtain D1 D2 where D: "D = D1 @ x # D2" "dev_addr (snd x) = ?bd" by (rule find_split [OF Some], rule that)
    then have dx: "?m (fst x) = Some (C_data (O_device (snd x)))" "fst x \<noteq> NULL" using ddb_rep_device [OF rep, of x] by auto
    have old: "find_dev ?bd ?R = Some (snd x)" using Some by (simp add: find_dev_map)
    note keeps = ddb_keeps_rep [OF rep assms(4) Some]
    have ptr: "ddb_get_ptr ?c (?bd @ [0]) ?m = Some (fst x)" "rd_device ?m (fst x) = Some (snd x)"
      using ddb_get_ptr_rep [OF rep assms(4)] Some dx by (simp_all add: rd_device_def)
    show ?thesis
    proof (cases "ddb_keeps param ?R")
      case True
      then have "nv_record_ddbrec_add alloc vol junk (Some param) s = Some (BT_STS_SUCCESS, s)"
        using ptr keeps dx(2) assms(4) by (simp add: nv_record_ddbrec_add_def Let_def ddb_key_of)
      with rep True show ?thesis by (intro that) (auto simp: ddb_add_def)
    next
      case False
      have 1: "ddb_rep (ddb_mem ?s1) (cfg_of ?s1) l S (D1 @ x # D2)" using rep1 D(1) by simp
      obtain m2 S2 where 2: "config_specific_entry_value_delete (dev_addr (snd x)) ?s1 =
           Some (?s1\<lparr>ddb_mem := m2, ddb_nv := nv_record_update_runtime_userdata (ddb_nv ?s1)\<rparr>)"
        "ddb_rep m2 (cfg_of ?s1) l S2 (D1 @ D2)" "card (dom m2) + 5 = card (dom (ddb_mem ?s1))" "ddb_secs S2 = 1"
        "\<And>q d. ddb_mem ?s1 q = Some (C_data (O_device d)) \<Longrightarrow> q \<noteq> fst x \<Longrightarrow> m2 q = ddb_mem ?s1 q"
        by (rule entry_value_delete_rep [OF 1], rule that)
      let ?s2 = "?s1\<lparr>ddb_mem := m2, ddb_nv := nv_record_update_runtime_userdata (ddb_nv ?s1)\<rparr>"
      have px: "p \<noteq> fst x" using out D(1) by auto
      have filt: "filter (\<lambda>y. dev_addr (snd y) \<noteq> ?bd) D = D1 @ D2"
        using filter_other [of "\<lambda>y. dev_addr (snd y)" D1 x D2] ddb_rep_addrs [OF rep] D by simp
      have 3: "ddb_rep (ddb_mem ?s2) (cfg_of ?s2) l S2 (D1 @ D2)" "card (dom (ddb_mem ?s2)) + 8 \<le> k"
        "ddb_mem ?s2 p = Some (C_data (O_device ?d))" "p \<notin> fst ` set (D1 @ D2)"
        "\<forall>y \<in> set (D1 @ D2). dev_addr (snd y) \<noteq> dev_addr ?d"
      proof -
        show "\<forall>y \<in> set (D1 @ D2). dev_addr (snd y) \<noteq> dev_addr ?d" unfolding filt [symmetric] by simp
        show "ddb_mem ?s2 p = Some (C_data (O_device ?d))" using 2(5) [of p ?d] px by (simp add: m1_def)
        show "p \<notin> fst ` set (D1 @ D2)" using out D(1) by auto
      qed (use 2(2,3) m1 room in simp_all)
      obtain s' S' D' where s': "add_store alloc (dev_addr ?d @ [0]) p ?s2 = Some (BT_STS_SUCCESS, s')"
        "ddb_rep (ddb_mem s') (cfg_of s') l S' D'"
        "map snd D' = map snd (if length (D1 @ D2) = DDB_RECORD_NUM then tl (D1 @ D2) else D1 @ D2) @ [?d]"
        "card (dom (ddb_mem s')) + 1 + 5 * length (D1 @ D2) + 4 * ddb_secs S2 \<le> card (dom (ddb_mem ?s2)) + 5 * length D' + 4 * ddb_secs S'"
        by (rule add_tail [OF 3(1) assms(2) 3(2,3) al(1) 3(4) len 3(5)], rule that)
      have run: "nv_record_ddbrec_add alloc vol junk (Some param) s = Some (BT_STS_SUCCESS, s')"
        using ptr keeps False dx(2) al(1) old assms(4) 2(1) D(2) s'(1)
        by (simp add: nv_record_ddbrec_add_def Let_def ddb_key_of pool_malloc_def p_def [symmetric] m1_def add_store_def cong: if_cong)
      have "filter (\<lambda>d. dev_addr d \<noteq> ?bd) ?R = map snd (D1 @ D2)" unfolding filt [symmetric] by (simp add: filter_map comp_def)
      with False have spec: "map snd D' = ddb_add vol junk param ?R" using s'(3) by (simp add: ddb_add_def Let_def map_tl)
      have "ddb_secs S \<le> 1" by (simp add: ddb_secs_def)
      with s'(4) 2(3,4) m1 D(1)
      have "card (dom (ddb_mem s')) + 5 * length D + 4 * ddb_secs S \<le> card (dom ?m) + 5 * length D' + 4 * ddb_secs S'" by simp
      with run s'(2) spec show ?thesis by (intro that)
    qed
  qed
qed

text \<open>
  C17. Adding a device with room in the pool succeeds. A device that is the newest already and has
  the same settings stays as it is, link key included; any other is put behind the others with the
  volumes and profiles it had, taken out where it was before, and when ten others are there the
  oldest goes. Adding a known device uses no more of the pool than before.
\<close>

theorem nv_record_ddbrec_add_refines:
  assumes "ddb_holds s R" "has_room k alloc" "card (dom (ddb_mem s)) + 9 \<le> k" "length (dev_addr param) = 6"
  shows "\<exists>s'. nv_record_ddbrec_add alloc vol junk (Some param) s = Some (BT_STS_SUCCESS, s') \<and>
    ddb_holds s' (ddb_add vol junk param R) \<and>
    (length (ddb_add vol junk param R) = length R \<and> R \<noteq> [] \<longrightarrow> card (dom (ddb_mem s')) \<le> card (dom (ddb_mem s)))"
proof -
  obtain l S D where rep: "ddb_rep (ddb_mem s) (cfg_of s) l S D" and R: "R = map snd D" using assms(1) by (auto simp: ddb_holds_def)
  obtain s' S' D' where 1: "nv_record_ddbrec_add alloc vol junk (Some param) s = Some (BT_STS_SUCCESS, s')"
    "ddb_rep (ddb_mem s') (cfg_of s') l S' D'" "map snd D' = ddb_add vol junk param (map snd D)"
    "card (dom (ddb_mem s')) + 5 * length D + 4 * ddb_secs S \<le> card (dom (ddb_mem s)) + 5 * length D' + 4 * ddb_secs S'"
    by (rule ddbrec_add_rep [OF rep assms(2-4)], rule that)
  have len: "length D' = length (ddb_add vol junk param R)" using arg_cong [OF 1(3), of length] by (simp add: R)
  have "R \<noteq> [] \<Longrightarrow> ddb_secs S = 1" using rep
    by (cases "find_sec section_name_ddbrec S") (auto simp: R ddb_rep_def ddb_ents_def ddb_secs_def)
  moreover have "ddb_secs S' \<le> 1" by (simp add: ddb_secs_def)
  ultimately show ?thesis using 1(1,4) len ddb_holdsI [OF 1(2) 1(3) [symmetric]] R by auto
qed

text \<open>
  No room for the record: adding a device that is not there fails and changes nothing.
\<close>

theorem nv_record_ddbrec_add_no_room:
  assumes "ddb_holds s R" "length (dev_addr param) = 6" "find_dev (dev_addr param) R = None"
    and "alloc (ddb_mem s) 40 = NULL"
  shows "nv_record_ddbrec_add alloc vol junk (Some param) s = Some (BT_STS_FAILED, s)"
proof -
  obtain l S D where rep: "ddb_rep (ddb_mem s) (cfg_of s) l S D" and R: "R = map snd D" using assms(1) by (auto simp: ddb_holds_def)
  have "find (\<lambda>x. dev_addr (snd x) = dev_addr param) D = None" using assms(3) by (simp add: R find_dev_map)
  with ddb_get_ptr_rep [OF rep assms(2)] assms(2,4) show ?thesis
    by (simp add: nv_record_ddbrec_add_def Let_def ddb_key_of pool_malloc_def)
qed

section \<open>Listing the devices\<close>

lemma enum_rep:
  assumes rep: "ddb_rep (ddb_mem s) (cfg_of s) l S (D1 @ x # D2)" and i: "length D1 < DDB_RECORD_NUM"
  shows "nv_record_enum_dev_records (length D1) True s = Some (BT_STS_SUCCESS, Some (dev_record (snd x)))"
proof -
  obtain S1 t S2 es1 e es2 where at: "ddb_at (ddb_mem s) (cfg_of s) l S1 t S2 es1 e es2 (fst x)" "list_all2 (dev_ok (ddb_mem s)) es1 D1"
    by (rule ddb_rep_split [OF rep], rule that)
  have len: "length es1 = length D1" using at(2) by (rule list_all2_lengthD)
  obtain h r where rd: "nvrec_section_find (cfg_of s) ddb_name (ddb_mem s) = Some (cs_sec t)" "cs_sec t \<noteq> NULL"
    "ddb_mem s (cs_sec t) = Some (C_data (O_section \<lparr>section_name = cs_name t, section_entries = cs_list t\<rparr>))"
    "ddb_mem s (cs_list t) = Some (mk_list h (last_node (map ent_pair (es1 @ e # es2))) (of_nat (length (es1 @ e # es2))) ENTRY_FREE)"
    "lseg (ddb_mem s) h (map ent_pair es1) (ce_node e)" "ddb_mem s (ce_node e) = Some (mk_node r (ce_ent e))" "lseg (ddb_mem s) r (map ent_pair es2) NULL"
    "ce_node e \<noteq> NULL" "node_key (ce_node e) (ddb_mem s) = Some (ce_ent e, ce_kid e @ [0])" "ce_ent e \<noteq> NULL"
    by (rule ddb_at_reads [OF at(1)])
  have ok: "cfg_ok (ddb_mem s) (cfg_of s) l (S1 @ t # S2)" and es: "cs_ents t = es1 @ e # es2" using at(1) by (simp_all add: ddb_at_def)
  have c: "cfg_of s \<noteq> NULL" "cs_list t \<noteq> NULL" using ok rd(4) by (auto simp: cfg_ok_def)
  have "length (map ent_pair (cs_ents t)) < 2 ^ 32"
    by (rule is_list_bound [where m = "ddb_mem s" and p = "cs_list t" and cb = ENTRY_FREE]) (use ok in \<open>simp add: cfg_ok_def sec_ok_def\<close>)
  then have un: "unat (of_nat (length (es1 @ e # es2)) :: u32) = length (es1 @ e # es2)"
    by (simp only: unat_of_nat) (simp add: take_bit_nat_eq_self es)
  then have nz: "(of_nat (length (es1 @ e # es2)) :: u32) \<noteq> 0" by (metis list.size(4) length_append add_is_0 unat_0 add_Suc_right nat.distinct(1))
  have adv: "advance (length es1) h (ddb_mem s) = Some (ce_node e)"
    using advance_lseg [of "ddb_mem s" h "map ent_pair es1" "ent_pair e" r] rd(5,6,8) by (simp add: lseg_append)
  have p: "ddb_get_ptr (cfg_of s) (ce_kid e @ [0]) (ddb_mem s) = Some (fst x)" "fst x \<noteq> NULL" using at(1) by (simp_all add: ddb_at_def)
  have dev: "rd_device (ddb_mem s) (fst x) = Some (snd x)" using ddb_rep_device [OF rep, of x] by (simp add: rd_device_def)
  have lt: "length D1 < length (es1 @ e # es2)" using len by simp
  show ?thesis using i c rd(1,2,3,4,9) un nz adv p dev len lt
    by (simp add: nv_record_enum_dev_records_def del: of_nat_add of_nat_Suc length_append)
qed

lemma enum_holds:
  assumes "ddb_holds s R" "i < length R" "i < DDB_RECORD_NUM"
  shows "nv_record_enum_dev_records i True s = Some (BT_STS_SUCCESS, Some (dev_record (R ! i)))"
proof -
  obtain l S D where rep: "ddb_rep (ddb_mem s) (cfg_of s) l S D" and R: "R = map snd D" using assms(1) by (auto simp: ddb_holds_def)
  have i: "i < length D" using assms(2) R by simp
  have D: "D = take i D @ D ! i # drop (Suc i) D" using id_take_nth_drop [OF i] .
  from rep have "ddb_rep (ddb_mem s) (cfg_of s) l S (take i D @ D ! i # drop (Suc i) D)" using D by simp
  from enum_rep [OF this] i assms(3) show ?thesis by (simp add: R)
qed

text \<open>
  The two latest devices: the record of the newest goes to the first argument, that of the
  one before it to the second, and the number of devices that were found is returned.
\<close>

theorem nv_record_enum_latest_two_refines:
  assumes "ddb_holds s R" "length R \<le> DDB_RECORD_NUM"
  shows "nv_record_enum_latest_two_paired_dev True True s = Some (case rev R of
    [] \<Rightarrow> (0, None, None) | [d] \<Rightarrow> (1, Some (dev_record d), None)
    | d1 # d2 # _ \<Rightarrow> (2, Some (dev_record d1), Some (dev_record d2)))"
proof -
  obtain l S D where rep: "ddb_rep (ddb_mem s) (cfg_of s) l S D" and R: "R = map snd D" using assms(1) by (auto simp: ddb_holds_def)
  have ok: "cfg_ok (ddb_mem s) (cfg_of s) l S" using rep by (simp add: ddb_rep_def)
  have len: "length (ddb_ents S) = length R" using rep R by (auto simp: ddb_rep_def dest: list_all2_lengthD)
  show ?thesis
  proof (cases "find_sec section_name_ddbrec S")
    case None
    then have "R = []" using len by (simp add: ddb_ents_def)
    with None section_find_spec [OF ok ddb_name_cstr] show ?thesis by (simp add: nv_record_enum_latest_two_paired_dev_def)
  next
    case (Some t)
    then have t: "t \<in> set S" using find_sec_Some by blast
    from cfg_sec_ok [OF ok t] obtain h tl where h: "ddb_mem s (cs_sec t) = Some (C_data (O_section \<lparr>section_name = cs_name t, section_entries = cs_list t\<rparr>))"
      "ddb_mem s (cs_list t) = Some (mk_list h tl (of_nat (length R)) ENTRY_FREE)"
      using len Some by (auto simp: sec_ok_def is_list_def ddb_ents_def)
    have n: "cs_sec t \<noteq> NULL" "cs_list t \<noteq> NULL" using sec_nonnull [OF ok t] h(2) ok by (auto simp: cfg_ok_def)
    have un: "unat (of_nat (length R) :: u32) = length R" using assms(2) by (simp add: unat_of_nat take_bit_nat_eq_self)
    have run: "nv_record_enum_latest_two_paired_dev True True s = (if length R = 0 then Some (0, None, None)
        else if length R = 1 then do { (ret, r) \<leftarrow> nv_record_enum_dev_records 0 True s; Some (if ret = BT_STS_SUCCESS then 1 else - 1, r, None) }
        else do { (ret1, r1) \<leftarrow> nv_record_enum_dev_records (length R - 1) True s;
          (ret2, r2) \<leftarrow> nv_record_enum_dev_records (length R - 2) True s;
          if ret1 \<noteq> BT_STS_SUCCESS \<or> ret2 \<noteq> BT_STS_SUCCESS then Some (- 1, Some zero_device, Some zero_device) else Some (2, r1, r2) })"
      using section_find_spec [OF ok ddb_name_cstr] Some h n un assms(2)
      by (simp add: nv_record_enum_latest_two_paired_dev_def Let_def)
    note en = enum_holds [OF assms(1)]
    show ?thesis
    proof (cases R rule: rev_cases)
      case Nil
      then show ?thesis using run by simp
    next
      case (snoc R1 d1)
      show ?thesis
      proof (cases R1 rule: rev_cases)
        case Nil
        then show ?thesis using run snoc en [of 0] by simp
      next
        case (snoc R2 d2)
        then have "R = R2 @ [d2, d1]" using \<open>R = R1 @ [d1]\<close> by simp
        then show ?thesis using run en [of "length R - 1"] en [of "length R - 2"] assms(2) by (simp add: nth_append)
      qed
    qed
  qed
qed

section \<open>Any sequence of pairings and deletions\<close>

text \<open>A device is paired, with whatever a fresh block held, or an address is deleted.\<close>

datatype ddb_op = Op_add byte nvrec_btdevicerecord | Op_delete "byte list"

definition ddb_step :: "nvobj allocator \<Rightarrow> 8 word \<Rightarrow> ddb_op \<Rightarrow> ddb \<Rightarrow> (bt_status \<times> ddb) option" where
  "ddb_step alloc vol op s = (case op of
     Op_add junk param \<Rightarrow> ddbif_add_record alloc vol junk (Some param) s
   | Op_delete bd \<Rightarrow> ddbif_delete_record bd s)"

primrec ddb_run :: "nvobj allocator \<Rightarrow> 8 word \<Rightarrow> ddb_op list \<Rightarrow> ddb \<Rightarrow> (bt_status list \<times> ddb) option" where
  "ddb_run alloc vol [] s = Some ([], s)"
| "ddb_run alloc vol (op # ops) s = do {
     (r, s) \<leftarrow> ddb_step alloc vol op s;
     (rs, s) \<leftarrow> ddb_run alloc vol ops s;
     Some (r # rs, s) }"

definition op_ok :: "ddb_op \<Rightarrow> bool" where
  "op_ok op \<longleftrightarrow> (case op of Op_add _ param \<Rightarrow> length (dev_addr param) = 6 | Op_delete bd \<Rightarrow> length bd = 6)"

text \<open>The same on lists of devices.\<close>

definition spec_step :: "8 word \<Rightarrow> ddb_op \<Rightarrow> nvrec_btdevicerecord list \<Rightarrow> bt_status \<times> nvrec_btdevicerecord list" where
  "spec_step vol op R = (case op of
     Op_add junk param \<Rightarrow> (BT_STS_SUCCESS, ddb_add vol junk param R)
   | Op_delete bd \<Rightarrow> (if find_dev bd R = None then BT_STS_FAILED else BT_STS_SUCCESS, filter (\<lambda>d. dev_addr d \<noteq> bd) R))"

primrec spec_run :: "8 word \<Rightarrow> ddb_op list \<Rightarrow> nvrec_btdevicerecord list \<Rightarrow> bt_status list \<times> nvrec_btdevicerecord list" where
  "spec_run vol [] R = ([], R)"
| "spec_run vol (op # ops) R = (let (r, R) = spec_step vol op R; (rs, R) = spec_run vol ops R in (r # rs, R))"

text \<open>The list of devices, with a bound on the blocks in use: five for each device, four for the section.\<close>

definition ddb_fits :: "nat \<Rightarrow> ddb \<Rightarrow> nvrec_btdevicerecord list \<Rightarrow> bool" where
  "ddb_fits base s R \<longleftrightarrow> (\<exists>l S D. ddb_rep (ddb_mem s) (cfg_of s) l S D \<and> R = map snd D \<and>
     card (dom (ddb_mem s)) \<le> base + 4 * ddb_secs S + 5 * length D)"

lemma ddb_fitsI: "ddb_rep (ddb_mem s) (cfg_of s) l S D \<Longrightarrow> R = map snd D \<Longrightarrow>
   card (dom (ddb_mem s)) \<le> base + 4 * ddb_secs S + 5 * length D \<Longrightarrow> ddb_fits base s R"
  unfolding ddb_fits_def by blast

lemma ddb_fits_holds: "ddb_fits base s R \<Longrightarrow> ddb_holds s R"
  by (auto simp: ddb_fits_def intro: ddb_holdsI)

lemma ddb_fits_card: "ddb_fits base s R \<Longrightarrow> card (dom (ddb_mem s)) \<le> base + 4 + 5 * length R"
  by (auto simp: ddb_fits_def ddb_secs_def split: if_splits)

lemma ddb_fits_addrs: "ddb_fits base s R \<Longrightarrow> distinct (map dev_addr R)"
  using ddb_rep_addrs by (fastforce simp: ddb_fits_def comp_def)

lemma length_ddb_add: "length R \<le> DDB_RECORD_NUM \<Longrightarrow> length (ddb_add vol junk param R) \<le> DDB_RECORD_NUM"
proof -
  assume R: "length R \<le> DDB_RECORD_NUM"
  then have "length (filter (\<lambda>d. dev_addr d \<noteq> dev_addr param) R) \<le> DDB_RECORD_NUM"
    by (rule le_trans [OF length_filter_le])
  with R show ?thesis by (simp add: ddb_add_def Let_def)
qed

lemma ddb_step_fits:
  assumes fits: "ddb_fits base s R" and len: "length R \<le> DDB_RECORD_NUM" and room: "has_room k alloc" "base + 63 \<le> k" and op: "op_ok op"
  obtains s' where "ddb_step alloc vol op s = Some (fst (spec_step vol op R), s')" "ddb_fits base s' (snd (spec_step vol op R))"
    "length (snd (spec_step vol op R)) \<le> DDB_RECORD_NUM"
proof -
  obtain l S D where rep: "ddb_rep (ddb_mem s) (cfg_of s) l S D" and R: "R = map snd D"
    and card: "card (dom (ddb_mem s)) \<le> base + 4 * ddb_secs S + 5 * length D" using fits by (auto simp: ddb_fits_def)
  show ?thesis
  proof (cases op)
    case (Op_add junk param)
    have r: "card (dom (ddb_mem s)) + 9 \<le> k" using ddb_fits_card [OF fits] len room(2) by simp
    have bd: "length (dev_addr param) = 6" using op Op_add by (simp add: op_ok_def)
    obtain s' S' D' where 1: "nv_record_ddbrec_add alloc vol junk (Some param) s = Some (BT_STS_SUCCESS, s')"
      "ddb_rep (ddb_mem s') (cfg_of s') l S' D'" "map snd D' = ddb_add vol junk param (map snd D)"
      "card (dom (ddb_mem s')) + 5 * length D + 4 * ddb_secs S \<le> card (dom (ddb_mem s)) + 5 * length D' + 4 * ddb_secs S'"
      by (rule ddbrec_add_rep [OF rep room(1) r bd], rule that)
    have "ddb_fits base s' (ddb_add vol junk param R)"
      by (rule ddb_fitsI [OF 1(2)]) (use 1(3,4) card R in simp_all)
    then show ?thesis using 1(1) length_ddb_add [OF len] Op_add
      by (intro that) (simp_all add: spec_step_def ddb_step_def ddbif_add_record_def nv_record_add_def)
  next
    case (Op_delete bd)
    then have bd: "length bd = 6" using op by (simp add: op_ok_def)
    have le: "length (filter (\<lambda>d. dev_addr d \<noteq> bd) R) \<le> DDB_RECORD_NUM"
      using len by (rule le_trans [OF length_filter_le])
    show ?thesis
    proof (cases "find (\<lambda>x. dev_addr (snd x) = bd) D")
      case None
      then have "find_dev bd R = None" by (simp add: R find_dev_map)
      moreover from this have "filter (\<lambda>d. dev_addr d \<noteq> bd) R = R" by (rule filter_unknown)
      ultimately show ?thesis using fits le Op_delete None ddb_get_ptr_rep [OF rep bd] bd
        by (intro that [of s]) (simp_all add: spec_step_def ddb_step_def ddbif_delete_record_def nv_record_ddbrec_delete_def ddb_key_of)
    next
      case (Some x)
      obtain D1 D2 where D: "D = D1 @ x # D2" "dev_addr (snd x) = bd" by (rule find_split [OF Some], rule that)
      obtain m' S' where 1: "config_specific_entry_value_delete (dev_addr (snd x)) s =
           Some (s\<lparr>ddb_mem := m', ddb_nv := nv_record_update_runtime_userdata (ddb_nv s)\<rparr>)"
        "ddb_rep m' (cfg_of s) l S' (D1 @ D2)" "card (dom m') + 5 = card (dom (ddb_mem s))" "ddb_secs S' = 1"
        by (rule entry_value_delete_rep [OF rep [unfolded D(1)]], rule that)
      let ?s = "s\<lparr>ddb_mem := m', ddb_nv := nv_record_update_runtime_userdata (ddb_nv s)\<rparr>"
      have "filter (\<lambda>y. dev_addr (snd y) \<noteq> bd) D = D1 @ D2"
        using filter_other [of "\<lambda>y. dev_addr (snd y)" D1 x D2] ddb_rep_addrs [OF rep] D by simp
      then have R': "filter (\<lambda>d. dev_addr d \<noteq> bd) R = map snd (D1 @ D2)" by (simp add: R filter_map comp_def)
      have "ddb_secs S \<le> 1" by (simp add: ddb_secs_def)
      then have "ddb_fits base ?s (filter (\<lambda>d. dev_addr d \<noteq> bd) R)"
        using 1(2,3,4) card D(1) R' by (intro ddb_fitsI [where S = S' and D = "D1 @ D2"]) simp_all
      moreover have "nv_record_ddbrec_delete bd s = Some (BT_STS_SUCCESS, ?s)"
        using ddb_get_ptr_rep [OF rep bd] Some ddb_rep_device [OF rep, of x] D 1(1) bd
        by (simp add: nv_record_ddbrec_delete_def ddb_key_of rd_device_def)
      moreover have "find_dev bd R \<noteq> None" using Some by (simp add: R find_dev_map)
      ultimately show ?thesis using le Op_delete
        by (intro that [of ?s]) (simp_all add: spec_step_def ddb_step_def ddbif_delete_record_def)
    qed
  qed
qed

text \<open>
  C16. Any sequence of pairings and deletions, through the interface of the stack, runs to its end
  and does to the pool what it does to a list of at most ten devices with different addresses: no
  step fails to find its way through the lists, and none but a deletion of an unknown address
  reports a failure. Five blocks a device and four for the section are enough for ever: 63 blocks
  beside those in use at the start, however long the sequence.
\<close>

theorem ddb_run_refines:
  assumes "ddb_fits base s R" "length R \<le> DDB_RECORD_NUM" "has_room k alloc" "base + 63 \<le> k" "list_all op_ok ops"
  shows "\<exists>s'. ddb_run alloc vol ops s = Some (fst (spec_run vol ops R), s') \<and>
    ddb_fits base s' (snd (spec_run vol ops R)) \<and> length (snd (spec_run vol ops R)) \<le> DDB_RECORD_NUM \<and>
    distinct (map dev_addr (snd (spec_run vol ops R)))"
  using assms(1,2,5)
proof (induction ops arbitrary: s R)
  case Nil
  then show ?case using ddb_fits_addrs by auto
next
  case (Cons op ops)
  have ok: "op_ok op" "list_all op_ok ops" using Cons.prems(3) by simp_all
  obtain s1 where 1: "ddb_step alloc vol op s = Some (fst (spec_step vol op R), s1)" "ddb_fits base s1 (snd (spec_step vol op R))"
    "length (snd (spec_step vol op R)) \<le> DDB_RECORD_NUM"
    by (rule ddb_step_fits [OF Cons.prems(1,2) assms(3,4) ok(1)])
  from Cons.IH [OF 1(2,3) ok(2)] 1(1) show ?case
    by (auto simp: Let_def split_beta)
qed

section \<open>Instances of the theorems\<close>

text \<open>A fresh configuration, and devices that differ in their addresses.\<close>

abbreviation (input) "demo_nv c \<equiv> \<lparr>is_update = False, nv_state = NV_STATE_IDLE, nv_config = c, pool = [], flash = [], pending = [],
   g_nv_mempool = 0, nvrec_init = True, nvrec_mempool_init = True, sleep_hook = False\<rparr>"

definition demo_dev :: "byte \<Rightarrow> nvrec_btdevicerecord" where
  "demo_dev n = \<lparr>dev_record = \<lparr>bdAddr = [1, 2, 3, 4, 5, n], trusted = True, linkKey = replicate 16 n, keyType = 4, pinLen = 0\<rparr>,
     device_vol = \<lparr>a2dp_vol = 5, hfp_vol = 5\<rparr>,
     device_plf = \<lparr>hfp_act = False, hsp_act = False, a2dp_act = False, a2dp_codectype = 0\<rparr>\<rparr>"

lemma demo_dev_addr [simp]: "dev_addr (demo_dev n) = [1, 2, 3, 4, 5, n]"
  by (simp add: demo_dev_def)

lemma new_demo [simp]: "new_device 5 0 None (demo_dev n) = demo_dev n"
  by (simp add: new_device_def demo_dev_def)

lemma demo_fresh:
  obtains s where "ddb_fits 2 s []"
proof -
  have e: "card (dom (Map.empty :: nvmem)) + 2 \<le> 100" "(Map.empty :: nvmem) NULL = None" by simp_all
  obtain c l m where *: "nvrec_config_new demo_alloc Map.empty = Some (c, m)" "cfg_ok m c l []"
      "card (dom m) \<le> card (dom (Map.empty :: nvmem)) + 2"
    by (rule nvrec_config_new_ok [OF demo_room e])
  have "ddb_fits 2 \<lparr>ddb_nv = demo_nv c, ddb_mem = m\<rparr> []"
    by (rule ddb_fitsI [where S = "[]" and D = "[]"]) (use *(2,3) in \<open>simp_all add: ddb_rep_def ddb_ents_def find_sec_def ddb_secs_def\<close>)
  then show ?thesis by (rule that)
qed

lemma demo_devices:
  obtains s where "ddb_fits 2 s [demo_dev 1, demo_dev 2]"
proof -
  obtain s where s: "ddb_fits 2 s []" by (rule demo_fresh)
  have op: "op_ok (Op_add 0 (demo_dev 1))" "op_ok (Op_add 0 (demo_dev 2))" by (simp_all add: op_ok_def)
  have 0: "length ([] :: nvrec_btdevicerecord list) \<le> DDB_RECORD_NUM" "2 + 63 \<le> (100 :: nat)" by simp_all
  obtain s1 where 1: "ddb_fits 2 s1 (snd (spec_step 5 (Op_add 0 (demo_dev 1)) []))"
    by (rule ddb_step_fits [OF s 0(1) demo_room 0(2) op(1)], rule that)
  have e1: "snd (spec_step 5 (Op_add 0 (demo_dev 1)) []) = [demo_dev 1]"
    by (simp add: spec_step_def ddb_add_def ddb_keeps_def find_dev_def)
  have 2: "length [demo_dev 1] \<le> DDB_RECORD_NUM" by simp
  obtain s2 where 3: "ddb_fits 2 s2 (snd (spec_step 5 (Op_add 0 (demo_dev 2)) [demo_dev 1]))"
    by (rule ddb_step_fits [OF 1 [unfolded e1] 2 demo_room 0(2) op(2)], rule that)
  have "snd (spec_step 5 (Op_add 0 (demo_dev 2)) [demo_dev 1]) = [demo_dev 1, demo_dev 2]"
    by (simp add: spec_step_def ddb_add_def ddb_keeps_def find_dev_def)
  with 3 show ?thesis by (intro that) simp
qed

theorem nv_record_ddbrec_find_refines_witness:
  "\<exists>s. ddb_holds s [demo_dev 1, demo_dev 2] \<and>
     nv_record_ddbrec_find (Some [1, 2, 3, 4, 5, 1]) True s = Some (BT_STS_SUCCESS, Some (dev_record (demo_dev 1))) \<and>
     nv_record_ddbrec_find (Some [1, 2, 3, 4, 5, 3]) True s = Some (BT_STS_FAILED, None)"
proof -
  obtain s where s: "ddb_fits 2 s [demo_dev 1, demo_dev 2]" by (rule demo_devices)
  note h = ddb_fits_holds [OF s]
  show ?thesis using h nv_record_ddbrec_find_refines [OF h, of "[1, 2, 3, 4, 5, 1]"] nv_record_ddbrec_find_refines [OF h, of "[1, 2, 3, 4, 5, 3]"]
    by - (rule exI [of _ s], auto simp: find_dev_def)
qed

theorem nv_record_ddbrec_delete_refines_witness:
  "\<exists>s s'. ddb_holds s [demo_dev 1, demo_dev 2] \<and> nv_record_ddbrec_delete [1, 2, 3, 4, 5, 1] s = Some (BT_STS_SUCCESS, s') \<and>
     ddb_holds s' [demo_dev 2] \<and> card (dom (ddb_mem s')) + 5 = card (dom (ddb_mem s))"
proof -
  obtain s where s: "ddb_fits 2 s [demo_dev 1, demo_dev 2]" by (rule demo_devices)
  note h = ddb_fits_holds [OF s]
  show ?thesis using h nv_record_ddbrec_delete_refines [OF h, of "[1, 2, 3, 4, 5, 1]"]
    by - (rule exI [of _ s], auto simp: find_dev_def)
qed

theorem nv_record_ddbrec_add_refines_witness:
  "\<exists>s s'. ddb_holds s [demo_dev 1, demo_dev 2] \<and> nv_record_ddbrec_add demo_alloc 5 0 (Some (demo_dev 1)) s = Some (BT_STS_SUCCESS, s') \<and>
     ddb_holds s' [demo_dev 2, demo_dev 1]"
proof -
  obtain s where s: "ddb_fits 2 s [demo_dev 1, demo_dev 2]" by (rule demo_devices)
  note h = ddb_fits_holds [OF s]
  have "ddb_add 5 0 (demo_dev 1) [demo_dev 1, demo_dev 2] = [demo_dev 2, demo_dev 1]"
    by (simp add: ddb_add_def ddb_keeps_def find_dev_def) (simp add: new_device_def demo_dev_def)
  then show ?thesis using h nv_record_ddbrec_add_refines [OF h demo_room, of "demo_dev 1" 5 0] ddb_fits_card [OF s]
    by - (rule exI [of _ s], auto)
qed

theorem nv_record_ddbrec_add_no_room_witness:
  "\<exists>s. ddb_holds s [demo_dev 1, demo_dev 2] \<and>
     nv_record_ddbrec_add (\<lambda>_ _. 0) 5 0 (Some (demo_dev 3)) s = Some (BT_STS_FAILED, s)"
proof -
  obtain s where s: "ddb_fits 2 s [demo_dev 1, demo_dev 2]" by (rule demo_devices)
  note h = ddb_fits_holds [OF s]
  show ?thesis using h nv_record_ddbrec_add_no_room [OF h, of "demo_dev 3" "\<lambda>_ _. 0" 5 0]
    by - (rule exI [of _ s], auto simp: find_dev_def)
qed

theorem nv_record_enum_latest_two_refines_witness:
  "\<exists>s. ddb_holds s [demo_dev 1, demo_dev 2] \<and>
     nv_record_enum_latest_two_paired_dev True True s = Some (2, Some (dev_record (demo_dev 2)), Some (dev_record (demo_dev 1)))"
proof -
  obtain s where s: "ddb_fits 2 s [demo_dev 1, demo_dev 2]" by (rule demo_devices)
  note h = ddb_fits_holds [OF s]
  show ?thesis using h nv_record_enum_latest_two_refines [OF h] by - (rule exI [of _ s], simp)
qed

theorem ddb_run_refines_witness:
  "\<exists>s s'. ddb_fits 2 s [] \<and>
     ddb_run demo_alloc 5 [Op_add 0 (demo_dev 1), Op_add 0 (demo_dev 2), Op_delete [1, 2, 3, 4, 5, 1], Op_delete [1, 2, 3, 4, 5, 1]] s =
       Some ([BT_STS_SUCCESS, BT_STS_SUCCESS, BT_STS_SUCCESS, BT_STS_FAILED], s') \<and> ddb_fits 2 s' [demo_dev 2]"
proof -
  obtain s where s: "ddb_fits 2 s []" by (rule demo_fresh)
  let ?ops = "[Op_add 0 (demo_dev 1), Op_add 0 (demo_dev 2), Op_delete [1, 2, 3, 4, 5, 1], Op_delete [1, 2, 3, 4, 5, 1]]"
  have "list_all op_ok ?ops" by (simp add: op_ok_def)
  moreover have "spec_run 5 ?ops [] = ([BT_STS_SUCCESS, BT_STS_SUCCESS, BT_STS_SUCCESS, BT_STS_FAILED], [demo_dev 2])"
    by (simp add: spec_step_def ddb_add_def ddb_keeps_def find_dev_def)
  ultimately show ?thesis using s ddb_run_refines [OF s _ demo_room, of ?ops 5]
    by - (rule exI [of _ s], simp del: ddb_run.simps spec_run.simps)
qed

end
