(* ===== verification/NorFlash.thy ===== *)
theory NorFlash
  imports Prelude
begin

text \<open>
  The flash: the commands of \<open>platform/drivers/norflash/norflash_drv.c\<close> that erase, program and read
  the chip, and over them the erase, write, suspend and resume operations of
  \<open>platform/hal/hal_norflash.c\<close>.

  The chip is hardware. A command starts; while it runs, the cells it works on read as anything; the
  status says at some time that it is done. What each reading of the status register gives, and
  whether an interrupt is pending at that time, is the list \<open>polls\<close>; a wait for which the list is too
  short is a wait without end. A command to a chip that is still busy, and a failing assertion,
  are \<open>None\<close>. The line modes of the controller, its delays and its sample timing are not modelled.

  The file first has the operations, then the meaning of a started operation (\<open>hal_goal\<close>: what the
  flash will hold when it is done) and that every operation that returns leads there, however
  often it is suspended.
\<close>

section \<open>The chip\<close>

datatype HAL_NORFLASH_RET_T = HAL_NORFLASH_OK | HAL_NORFLASH_SUSPENDED | HAL_NORFLASH_ERR
  | HAL_NORFLASH_BAD_ID | HAL_NORFLASH_BAD_DIV | HAL_NORFLASH_BAD_DIV_VERIF | HAL_NORFLASH_BAD_CFG
  | HAL_NORFLASH_BAD_OP | HAL_NORFLASH_BAD_CALIB | HAL_NORFLASH_BAD_ADDR | HAL_NORFLASH_BAD_LEN
  | HAL_NORFLASH_NOT_OPENED

datatype DRV_NORFLASH_ERASE_T = DRV_NORFLASH_ERASE_SECTOR | DRV_NORFLASH_ERASE_BLOCK | DRV_NORFLASH_ERASE_CHIP

abbreviation GD25Q32C_PAGE_SIZE :: nat where "GD25Q32C_PAGE_SIZE \<equiv> 256"
abbreviation GD25Q32C_SECTOR_SIZE :: nat where "GD25Q32C_SECTOR_SIZE \<equiv> 4096"
abbreviation GD25Q32C_BLOCK_SIZE :: nat where "GD25Q32C_BLOCK_SIZE \<equiv> 32768"
abbreviation HAL_NORFLASH_ADDR_MASK :: nat where "HAL_NORFLASH_ADDR_MASK \<equiv> 16777215"

text \<open>
  A reading of the status register: done, or busy with an interrupt pending or not and with the
  contents that the cells under work have at this time.
\<close>

datatype poll = WIP_0 | WIP_1 bool "nat \<Rightarrow> byte"

text \<open>\<open>running\<close>: first cell, number of cells and final contents of the command under way.\<close>

record norchip =
  cells :: "nat \<Rightarrow> byte"
  running :: "(nat \<times> nat \<times> (nat \<Rightarrow> byte)) option"
  chip_size :: nat
  polls :: "poll list"

definition overlay :: "nat \<Rightarrow> nat \<Rightarrow> (nat \<Rightarrow> byte) \<Rightarrow> (nat \<Rightarrow> byte) \<Rightarrow> nat \<Rightarrow> byte" where
  "overlay lo n f m = (\<lambda>x. if lo \<le> x \<and> x < lo + n then f x else m x)"

text \<open>Programming clears bits; a page program wraps around in its page.\<close>

definition page_program :: "nat \<Rightarrow> byte list \<Rightarrow> (nat \<Rightarrow> byte) \<Rightarrow> nat \<Rightarrow> byte" where
  "page_program a d m = (\<lambda>x. let i = (x + GD25Q32C_PAGE_SIZE - a mod GD25Q32C_PAGE_SIZE) mod GD25Q32C_PAGE_SIZE in
     if x div GD25Q32C_PAGE_SIZE = a div GD25Q32C_PAGE_SIZE \<and> i < length d then m x AND d ! i else m x)"

definition chip_start :: "nat \<Rightarrow> nat \<Rightarrow> (nat \<Rightarrow> byte) \<Rightarrow> norchip \<Rightarrow> norchip option" where
  "chip_start lo n f c = (if running c = None then Some (c\<lparr>running := Some (lo, n, f)\<rparr>) else None)"

text \<open>The chip reads 24 bits of the address.\<close>

definition chip_erase :: "nat \<Rightarrow> nat \<Rightarrow> norchip \<Rightarrow> norchip option" where
  "chip_erase a n c = chip_start ((a AND HAL_NORFLASH_ADDR_MASK) div n * n) n (\<lambda>_. 255) c"

definition chip_program :: "nat \<Rightarrow> byte list \<Rightarrow> norchip \<Rightarrow> norchip option" where
  "chip_program a d c = (let o' = a AND HAL_NORFLASH_ADDR_MASK in
     chip_start (o' div GD25Q32C_PAGE_SIZE * GD25Q32C_PAGE_SIZE) GD25Q32C_PAGE_SIZE (page_program o' d (cells c)) c)"

definition chip_tear :: "(nat \<Rightarrow> byte) \<Rightarrow> norchip \<Rightarrow> norchip" where
  "chip_tear torn c = (case running c of None \<Rightarrow> c | Some (lo, n, _) \<Rightarrow> c\<lparr>cells := overlay lo n torn (cells c)\<rparr>)"

definition chip_finish :: "norchip \<Rightarrow> norchip" where
  "chip_finish c = (case running c of None \<Rightarrow> c
     | Some (lo, n, f) \<Rightarrow> c\<lparr>cells := overlay lo n f (cells c), running := None\<rparr>)"

section \<open>The driver\<close>

primrec wip_wait :: "bool \<Rightarrow> poll list \<Rightarrow> norchip \<Rightarrow> (HAL_NORFLASH_RET_T \<times> norchip) option" where
  "wip_wait suspend [] c = None"
| "wip_wait suspend (p # ps) c = (case p of
     WIP_0 \<Rightarrow> Some (HAL_NORFLASH_OK, (chip_finish c)\<lparr>polls := ps\<rparr>)
   | WIP_1 irq torn \<Rightarrow> if suspend \<and> irq then Some (HAL_NORFLASH_SUSPENDED, (chip_tear torn c)\<lparr>polls := ps\<rparr>)
       else wip_wait suspend ps (chip_tear torn c))"

definition norflash_status_WIP_1_wait :: "bool \<Rightarrow> norchip \<Rightarrow> (HAL_NORFLASH_RET_T \<times> norchip) option" where
  "norflash_status_WIP_1_wait suspend c = wip_wait suspend (polls c) c"

definition norflash_erase ::
  "nat \<Rightarrow> DRV_NORFLASH_ERASE_T \<Rightarrow> bool \<Rightarrow> norchip \<Rightarrow> (HAL_NORFLASH_RET_T \<times> norchip) option" where
  "norflash_erase start_address type suspend c = do {
     c \<leftarrow> (case type of
         DRV_NORFLASH_ERASE_SECTOR \<Rightarrow> chip_erase start_address GD25Q32C_SECTOR_SIZE c
       | DRV_NORFLASH_ERASE_BLOCK \<Rightarrow> chip_erase start_address GD25Q32C_BLOCK_SIZE c
       | DRV_NORFLASH_ERASE_CHIP \<Rightarrow> chip_start 0 (chip_size c) (\<lambda>_. 255) c);
     norflash_status_WIP_1_wait suspend c }"

definition norflash_write ::
  "nat \<Rightarrow> byte list \<Rightarrow> bool \<Rightarrow> norchip \<Rightarrow> (HAL_NORFLASH_RET_T \<times> norchip) option" where
  "norflash_write start_address buffer suspend c = (if GD25Q32C_PAGE_SIZE < length buffer then Some (HAL_NORFLASH_ERR, c)
     else do { c \<leftarrow> chip_program start_address buffer c; norflash_status_WIP_1_wait suspend c })"

definition norflash_erase_resume :: "bool \<Rightarrow> norchip \<Rightarrow> (HAL_NORFLASH_RET_T \<times> norchip) option" where
  "norflash_erase_resume suspend c = norflash_status_WIP_1_wait suspend c"

definition norflash_write_resume :: "bool \<Rightarrow> norchip \<Rightarrow> (HAL_NORFLASH_RET_T \<times> norchip) option" where
  "norflash_write_resume suspend c = norflash_erase_resume suspend c"

section \<open>The operations of the hardware layer\<close>

datatype SUSPEND_STATE_T = SUSPEND_STATE_NO | SUSPEND_STATE_ERASE | SUSPEND_STATE_PROGRAM

text \<open>
  The context of the one chip and the variables of a suspended operation. A buffer is an object and
  an offset into it; \<open>suspend_mode\<close> is the bit of \<open>norflash_get_supported_mode\<close>.
\<close>

record 'b norhal =
  opened :: bool
  total_size :: nat
  block_size :: nat
  sector_size :: nat
  page_size :: nat
  suspend_mode :: bool
  suspend_state :: SUSPEND_STATE_T
  op_next_addr :: nat
  op_next_buf :: "'b \<times> nat"
  op_remain_len :: nat
  chip :: norchip

definition chunk :: "('b \<Rightarrow> nat \<Rightarrow> byte) \<Rightarrow> 'b \<times> nat \<Rightarrow> nat \<Rightarrow> byte list" where
  "chunk ram p n = map (\<lambda>i. ram (fst p) (snd p + i)) [0..<n]"

partial_function (option) erase_loop ::
  "bool \<Rightarrow> nat \<Rightarrow> nat \<Rightarrow> HAL_NORFLASH_RET_T \<Rightarrow> 'b norhal \<Rightarrow> (HAL_NORFLASH_RET_T \<times> nat \<times> nat \<times> 'b norhal) option" where
  "erase_loop suspend remain_len current_address ret h = (if 0 < remain_len \<and> ret = HAL_NORFLASH_OK then
     (if block_size h \<le> remain_len \<and> current_address AND (block_size h - 1) = 0 then do {
        (ret, c) \<leftarrow> norflash_erase current_address DRV_NORFLASH_ERASE_BLOCK suspend (chip h);
        erase_loop suspend (remain_len - block_size h) (add32 current_address (block_size h)) ret (h\<lparr>chip := c\<rparr>) }
      else do {
        (ret, c) \<leftarrow> norflash_erase current_address DRV_NORFLASH_ERASE_SECTOR suspend (chip h);
        erase_loop suspend (if sector_size h < remain_len then remain_len - sector_size h else 0)
          (add32 current_address (sector_size h)) ret (h\<lparr>chip := c\<rparr>) })
     else Some (ret, remain_len, current_address, h))"

text \<open>The address check shared by erase, write and read.\<close>

definition hal_norflash_check :: "nat \<Rightarrow> nat \<Rightarrow> 'b norhal \<Rightarrow> HAL_NORFLASH_RET_T" where
  "hal_norflash_check start_address len h =
     (if total_size h \<le> start_address AND HAL_NORFLASH_ADDR_MASK then HAL_NORFLASH_BAD_ADDR
      else if total_size h - (start_address AND HAL_NORFLASH_ADDR_MASK) < len then HAL_NORFLASH_BAD_LEN
      else HAL_NORFLASH_OK)"

definition sector_align :: "nat \<Rightarrow> nat \<Rightarrow> nat \<Rightarrow> nat \<times> nat" where
  "sector_align sz start_address len =
     (let r = start_address AND (sz - 1); start_address = start_address - r; len = len + r;
          r = len AND (sz - 1)
      in (start_address, if r = 0 then len else len + (sz - r)))"

definition hal_norflash_erase_int ::
  "nat \<Rightarrow> nat \<Rightarrow> bool \<Rightarrow> 'b norhal \<Rightarrow> (HAL_NORFLASH_RET_T \<times> 'b norhal) option" where
  "hal_norflash_erase_int start_address len suspend h =
     (if hal_norflash_check start_address len h \<noteq> HAL_NORFLASH_OK
      then Some (hal_norflash_check start_address len h, h)
      else do {
        let (start_address, len) = sector_align (sector_size h) start_address len;
        (ret, remain_len, current_address, h) \<leftarrow>
          (if start_address AND HAL_NORFLASH_ADDR_MASK = 0 \<and> total_size h \<le> len then do {
             (ret, c) \<leftarrow> norflash_erase start_address DRV_NORFLASH_ERASE_CHIP suspend (chip h);
             Some (ret, len, start_address, h\<lparr>chip := c\<rparr>) }
           else erase_loop suspend len start_address HAL_NORFLASH_OK h);
        Some (ret, if ret = HAL_NORFLASH_SUSPENDED
          then h\<lparr>suspend_state := SUSPEND_STATE_ERASE, op_next_addr := current_address, op_remain_len := remain_len\<rparr>
          else h\<lparr>suspend_state := SUSPEND_STATE_NO\<rparr>) })"

definition hal_norflash_erase_suspend ::
  "nat \<Rightarrow> nat \<Rightarrow> bool \<Rightarrow> 'b norhal \<Rightarrow> (HAL_NORFLASH_RET_T \<times> 'b norhal) option" where
  "hal_norflash_erase_suspend start_address len suspend h =
     (if \<not> opened h then None
      else if suspend_state h \<noteq> SUSPEND_STATE_NO then Some (HAL_NORFLASH_BAD_OP, h)
      else hal_norflash_erase_int start_address len (suspend \<and> suspend_mode h) h)"

definition hal_norflash_erase :: "nat \<Rightarrow> nat \<Rightarrow> 'b norhal \<Rightarrow> (HAL_NORFLASH_RET_T \<times> 'b norhal) option" where
  "hal_norflash_erase start_address len h = hal_norflash_erase_suspend start_address len False h"

definition hal_norflash_erase_chip :: "'b norhal \<Rightarrow> (HAL_NORFLASH_RET_T \<times> 'b norhal) option" where
  "hal_norflash_erase_chip h = (if \<not> opened h then None else hal_norflash_erase 0 (total_size h) h)"

definition hal_norflash_erase_resume :: "bool \<Rightarrow> 'b norhal \<Rightarrow> (HAL_NORFLASH_RET_T \<times> 'b norhal) option" where
  "hal_norflash_erase_resume suspend h =
     (if \<not> opened h then None
      else if suspend_state h \<noteq> SUSPEND_STATE_ERASE then Some (HAL_NORFLASH_BAD_OP, h)
      else if \<not> suspend_mode h then Some (HAL_NORFLASH_BAD_OP, h)
      else do {
        (ret, c) \<leftarrow> norflash_erase_resume suspend (chip h);
        let h = h\<lparr>chip := c\<rparr>;
        if ret = HAL_NORFLASH_SUSPENDED then Some (ret, h)
        else hal_norflash_erase_int (op_next_addr h) (op_remain_len h) suspend h })"

partial_function (option) write_loop ::
  "('b \<Rightarrow> nat \<Rightarrow> byte) \<Rightarrow> bool \<Rightarrow> nat \<Rightarrow> nat \<Rightarrow> 'b \<times> nat \<Rightarrow> HAL_NORFLASH_RET_T \<Rightarrow> 'b norhal \<Rightarrow>
   (HAL_NORFLASH_RET_T \<times> nat \<times> nat \<times> ('b \<times> nat) \<times> 'b norhal) option" where
  "write_loop ram suspend remain_len current_address buf ret h = (if 0 < remain_len \<and> ret = HAL_NORFLASH_OK then do {
     let write_size = (if page_size h < remain_len then page_size h else remain_len);
     let pp_remain = page_size h - (current_address AND (page_size h - 1));
     let write_size = (if pp_remain < write_size then pp_remain else write_size);
     (ret, c) \<leftarrow> norflash_write current_address (chunk ram buf write_size) suspend (chip h);
     write_loop ram suspend (remain_len - write_size) (add32 current_address write_size)
       (fst buf, snd buf + write_size) ret (h\<lparr>chip := c\<rparr>) }
   else Some (ret, remain_len, current_address, buf, h))"

definition hal_norflash_write_int ::
  "('b \<Rightarrow> nat \<Rightarrow> byte) \<Rightarrow> nat \<Rightarrow> 'b \<times> nat \<Rightarrow> nat \<Rightarrow> bool \<Rightarrow> 'b norhal \<Rightarrow> (HAL_NORFLASH_RET_T \<times> 'b norhal) option" where
  "hal_norflash_write_int ram start_address buffer len suspend h =
     (if hal_norflash_check start_address len h \<noteq> HAL_NORFLASH_OK
      then Some (hal_norflash_check start_address len h, h)
      else do {
        (ret, remain_len, current_address, current_buffer, h) \<leftarrow>
          write_loop ram suspend len start_address buffer HAL_NORFLASH_OK h;
        Some (ret, if ret = HAL_NORFLASH_SUSPENDED
          then h\<lparr>suspend_state := SUSPEND_STATE_PROGRAM, op_next_addr := current_address,
                 op_next_buf := current_buffer, op_remain_len := remain_len\<rparr>
          else h\<lparr>suspend_state := SUSPEND_STATE_NO\<rparr>) })"

definition hal_norflash_write_suspend ::
  "('b \<Rightarrow> nat \<Rightarrow> byte) \<Rightarrow> nat \<Rightarrow> 'b \<times> nat \<Rightarrow> nat \<Rightarrow> bool \<Rightarrow> 'b norhal \<Rightarrow> (HAL_NORFLASH_RET_T \<times> 'b norhal) option" where
  "hal_norflash_write_suspend ram start_address buffer len suspend h =
     (if \<not> opened h then None
      else if suspend_state h \<noteq> SUSPEND_STATE_NO then Some (HAL_NORFLASH_BAD_OP, h)
      else hal_norflash_write_int ram start_address buffer len (suspend \<and> suspend_mode h) h)"

definition hal_norflash_write ::
  "('b \<Rightarrow> nat \<Rightarrow> byte) \<Rightarrow> nat \<Rightarrow> 'b \<times> nat \<Rightarrow> nat \<Rightarrow> 'b norhal \<Rightarrow> (HAL_NORFLASH_RET_T \<times> 'b norhal) option" where
  "hal_norflash_write ram start_address buffer len h = hal_norflash_write_suspend ram start_address buffer len False h"

definition hal_norflash_write_resume ::
  "('b \<Rightarrow> nat \<Rightarrow> byte) \<Rightarrow> bool \<Rightarrow> 'b norhal \<Rightarrow> (HAL_NORFLASH_RET_T \<times> 'b norhal) option" where
  "hal_norflash_write_resume ram suspend h =
     (if \<not> opened h then None
      else if suspend_state h \<noteq> SUSPEND_STATE_PROGRAM then Some (HAL_NORFLASH_BAD_OP, h)
      else if \<not> suspend_mode h then Some (HAL_NORFLASH_BAD_OP, h)
      else do {
        (ret, c) \<leftarrow> norflash_write_resume suspend (chip h);
        let h = h\<lparr>chip := c\<rparr>;
        if ret = HAL_NORFLASH_SUSPENDED then Some (ret, h)
        else hal_norflash_write_int ram (op_next_addr h) (op_next_buf h) (op_remain_len h) suspend h })"

section \<open>What a started operation leads to\<close>

text \<open>The number of readings that say done.\<close>

definition ready :: "poll list \<Rightarrow> nat" where
  "ready ps = length (filter (\<lambda>p. p = WIP_0) ps)"

lemma ready_simps [simp]: "ready [] = 0" "ready (WIP_0 # ps) = Suc (ready ps)" "ready (WIP_1 irq torn # ps) = ready ps"
  by (simp_all add: ready_def)

lemma mask24: "a AND HAL_NORFLASH_ADDR_MASK = a mod 16777216" for a :: nat
  using take_bit_eq_mask [of 24 a] by (simp add: take_bit_eq_mod mask_eq_exp_minus_1)

lemma mask_sector: "a AND 4095 = a mod 4096" for a :: nat
  using take_bit_eq_mask [of 12 a] by (simp add: take_bit_eq_mod mask_eq_exp_minus_1)

lemma mask_block: "a AND 32767 = a mod 32768" for a :: nat
  using take_bit_eq_mask [of 15 a] by (simp add: take_bit_eq_mod mask_eq_exp_minus_1)

lemma mask_page: "a AND 255 = a mod 256" for a :: nat
  using take_bit_eq_mask [of 8 a] by (simp add: take_bit_eq_mod mask_eq_exp_minus_1)

lemmas masks = mask24 mask_sector mask_block mask_page

definition chip_goal :: "norchip \<Rightarrow> nat \<Rightarrow> byte" where
  "chip_goal c = cells (chip_finish c)"

lemma overlay_simps [simp]: "overlay lo n f (overlay lo n g m) = overlay lo n f m" "overlay lo 0 f m = m"
  by (auto simp: overlay_def fun_eq_iff)

lemma overlay_outside: "\<not> (lo \<le> x \<and> x < lo + n) \<Longrightarrow> overlay lo n f m x = m x"
  by (auto simp: overlay_def)

lemma chip_goal_idle: "running c = None \<Longrightarrow> chip_goal c = cells c"
  by (simp add: chip_goal_def chip_finish_def)

lemma chip_goal_running: "running c = Some (lo, n, f) \<Longrightarrow> chip_goal c = overlay lo n f (cells c)"
  by (simp add: chip_goal_def chip_finish_def)

lemma chip_tear_goal [simp]:
  "chip_goal (chip_tear torn c) = chip_goal c" "running (chip_tear torn c) = running c"
  "chip_size (chip_tear torn c) = chip_size c"
  by (auto simp: chip_goal_def chip_finish_def chip_tear_def split: option.splits)

lemma chip_finish_simps [simp]: "running (chip_finish c) = None" "chip_size (chip_finish c) = chip_size c"
  by (auto simp: chip_finish_def split: option.splits)

lemma chip_goal_polls [simp]: "chip_goal (c\<lparr>polls := ps\<rparr>) = chip_goal c"
  by (auto simp: chip_goal_def chip_finish_def split: option.splits)

lemma chip_goal_finish [simp]: "chip_goal (chip_finish c) = chip_goal c"
  by (simp add: chip_goal_idle) (simp add: chip_goal_def)

text \<open>A wait: done, or suspended where this was allowed.\<close>

definition waited :: "bool \<Rightarrow> HAL_NORFLASH_RET_T \<Rightarrow> norchip \<Rightarrow> norchip \<Rightarrow> bool" where
  "waited suspend ret c c' \<longleftrightarrow> chip_size c' = chip_size c \<and> length (polls c') < length (polls c) \<and>
     (ret = HAL_NORFLASH_OK \<and> running c' = None \<and> Suc (ready (polls c')) = ready (polls c) \<or>
      ret = HAL_NORFLASH_SUSPENDED \<and> suspend \<and> running c' = running c \<and> ready (polls c') = ready (polls c))"

lemma wip_wait_spec:
  "0 < ready ps \<Longrightarrow> \<exists>ret c'. wip_wait suspend ps c = Some (ret, c') \<and> chip_goal c' = chip_goal c \<and>
     waited suspend ret (c\<lparr>polls := ps\<rparr>) c'"
proof (induction ps arbitrary: c)
  case (Cons p ps)
  show ?case
  proof (cases p)
    case WIP_0
    then show ?thesis by (simp add: waited_def)
  next
    case (WIP_1 irq torn)
    show ?thesis
    proof (cases "suspend \<and> irq")
      case True
      with WIP_1 show ?thesis by (simp add: waited_def)
    next
      case False
      from WIP_1 Cons.prems have "0 < ready ps" by simp
      from Cons.IH [OF this, of "chip_tear torn c"] WIP_1 False show ?thesis
        by (auto simp: waited_def)
    qed
  qed
qed simp

lemma wait_spec:
  assumes "0 < ready (polls c)"
  shows "\<exists>ret c'. norflash_status_WIP_1_wait suspend c = Some (ret, c') \<and> chip_goal c' = chip_goal c \<and> waited suspend ret c c'"
  using wip_wait_spec [OF assms, of suspend c] by (simp add: norflash_status_WIP_1_wait_def)

text \<open>Programming and erasing as functions of the contents.\<close>

definition prog :: "nat \<Rightarrow> byte list \<Rightarrow> (nat \<Rightarrow> byte) \<Rightarrow> nat \<Rightarrow> byte" where
  "prog o' d m = (\<lambda>x. if o' \<le> x \<and> x < o' + length d then m x AND d ! (x - o') else m x)"

abbreviation wipe :: "nat \<Rightarrow> nat \<Rightarrow> (nat \<Rightarrow> byte) \<Rightarrow> nat \<Rightarrow> byte" where
  "wipe lo n \<equiv> overlay lo n (\<lambda>_. 255)"

lemma wipe_wipe: "wipe (lo + n) k (wipe lo n m) = wipe lo (n + k) m"
  by (auto simp: overlay_def fun_eq_iff)

lemma prog_Nil [simp]: "prog o' [] m = m"
  by (auto simp: prog_def fun_eq_iff)

lemma prog_append: "prog (o' + length d) e (prog o' d m) = prog o' (d @ e) m"
  by (auto simp: prog_def fun_eq_iff nth_append)

text \<open>A page program that does not cross the end of the page.\<close>

lemma page_program_prog:
  assumes "a mod 256 + length d \<le> 256"
  shows "page_program a d m = prog a d m"
proof (rule ext)
  fix x
  have a: "a = a div 256 * 256 + a mod 256" by simp
  show "page_program a d m x = prog a d m x"
  proof (cases "x div 256 = a div 256")
    case True
    then have x: "x = a div 256 * 256 + x mod 256" by (metis div_mult_mod_eq)
    have 1: "a \<le> x \<longleftrightarrow> a mod 256 \<le> x mod 256" "x - a = x mod 256 - a mod 256" using a x by linarith+
    have 2: "(x + 256 - a mod 256) mod 256 = (if a \<le> x then x - a else x mod 256 + 256 - a mod 256)"
    proof -
      have "a mod 256 < 256" by simp
      then have "x + 256 - a mod 256 = (x mod 256 + 256 - a mod 256) + 256 * (a div 256)" using x by linarith
      then have e: "(x + 256 - a mod 256) mod 256 = (x mod 256 + 256 - a mod 256) mod 256"
        by (simp only: mod_mult_self2)
      show ?thesis
      proof (cases "a \<le> x")
        case True
        then have "x mod 256 + 256 - a mod 256 = (x - a) + 256" using 1 by linarith
        then have "(x mod 256 + 256 - a mod 256) mod 256 = (x - a) mod 256" by (simp only: mod_add_self2)
        moreover have "x - a < 256" using 1(2) by (simp add: less_imp_diff_less)
        ultimately show ?thesis using e True by (simp only: mod_less if_True)
      next
        case False
        then have "x mod 256 + 256 - a mod 256 < 256" using 1(1) by linarith
        with e False show ?thesis by simp
      qed
    qed
    show ?thesis
    proof (cases "a \<le> x")
      case True
      then have "x - a < length d \<longleftrightarrow> x < a + length d" by linarith
      with 2 True \<open>x div 256 = a div 256\<close> show ?thesis by (simp add: page_program_def prog_def Let_def)
    next
      case False
      then have "\<not> (x mod 256 + 256 - a mod 256 < length d)" using assms by linarith
      with 2 False show ?thesis by (simp add: page_program_def prog_def Let_def)
    qed
  next
    case False
    have "\<not> (a \<le> x \<and> x < a + length d)"
    proof
      assume x: "a \<le> x \<and> x < a + length d"
      then have "a div 256 * 256 \<le> x" "x < a div 256 * 256 + 256" using a assms by linarith+
      then have "x div 256 = a div 256" by (simp add: div_nat_eqI)
      with False show False by simp
    qed
    with False show ?thesis by (auto simp: page_program_def prog_def Let_def)
  qed
qed

lemma prog_region:
  assumes "a mod 256 + length d \<le> 256"
  shows "overlay (a div 256 * 256) 256 (prog a d m) m = prog a d m"
proof -
  have "a = a div 256 * 256 + a mod 256" by simp
  then have "a div 256 * 256 \<le> a \<and> a + length d \<le> a div 256 * 256 + 256" using assms by linarith
  then show ?thesis by (auto simp: overlay_def prog_def fun_eq_iff)
qed

lemma chip_write_spec:
  assumes "running c = None" "0 < ready (polls c)" "a mod 16777216 mod 256 + length d \<le> 256"
  shows "\<exists>ret c'. norflash_write a d suspend c = Some (ret, c') \<and> chip_goal c' = prog (a mod 16777216) d (cells c) \<and>
    waited suspend ret (c\<lparr>running := Some (a mod 16777216 div 256 * 256, 256, prog (a mod 16777216) d (cells c))\<rparr>) c'"
proof -
  let ?c = "c\<lparr>running := Some (a mod 16777216 div 256 * 256, 256, prog (a mod 16777216) d (cells c))\<rparr>"
  have "chip_program a d c = Some ?c"
    using assms(1) page_program_prog [OF assms(3), of "cells c"]
    by (simp add: chip_program_def chip_start_def Let_def mask24)
  moreover have "chip_goal ?c = prog (a mod 16777216) d (cells c)"
    using prog_region [OF assms(3)] by (simp add: chip_goal_running)
  moreover have "length d \<le> 256" using assms(3) by linarith
  ultimately show ?thesis using wait_spec [of ?c suspend] assms(2) by (simp add: norflash_write_def)
qed

lemma chip_erase_spec:
  assumes "running c = None" "0 < ready (polls c)" "type = DRV_NORFLASH_ERASE_SECTOR \<and> n = 4096 \<or> type = DRV_NORFLASH_ERASE_BLOCK \<and> n = 32768"
    and "a mod 16777216 mod n = 0"
  shows "\<exists>ret c'. norflash_erase a type suspend c = Some (ret, c') \<and> chip_goal c' = wipe (a mod 16777216) n (cells c) \<and>
    waited suspend ret (c\<lparr>running := Some (a mod 16777216, n, \<lambda>_. 255)\<rparr>) c'"
proof -
  let ?c = "c\<lparr>running := Some (a mod 16777216, n, \<lambda>_. 255)\<rparr>"
  have lo: "(a AND HAL_NORFLASH_ADDR_MASK) div n * n = a mod 16777216" using assms(4) by (auto simp: mask24)
  have "chip_erase a n c = Some ?c" using assms(1) by (simp add: chip_erase_def chip_start_def lo)
  moreover have "chip_goal ?c = wipe (a mod 16777216) n (cells c)" by (simp add: chip_goal_running)
  ultimately show ?thesis using wait_spec [of ?c suspend] assms(2,3) by (auto simp: norflash_erase_def)
qed

section \<open>The loops\<close>

text \<open>The context agrees with the chip.\<close>

definition geom :: "'b norhal \<Rightarrow> bool" where
  "geom h \<longleftrightarrow> opened h \<and> page_size h = 256 \<and> sector_size h = 4096 \<and> block_size h = 32768 \<and>
     total_size h \<le> 16777216 \<and> chip_size (chip h) = total_size h"

abbreviation off :: "nat \<Rightarrow> nat" where "off a \<equiv> a mod 16777216"

text \<open>The number of page programs a write needs.\<close>

definition npages :: "nat \<Rightarrow> nat \<Rightarrow> nat" where
  "npages a n = (if n = 0 then 0 else (a mod 256 + n + 255) div 256)"

lemma npages_step:
  assumes "0 < n" "k = min (min 256 n) (256 - a mod 256)"
  shows "npages a n = Suc (npages (a + k) (n - k))" "0 < k" "k \<le> n" "k \<le> 256" "a mod 256 + k \<le> 256"
proof -
  have a: "a mod 256 < 256" by simp
  show k: "0 < k" "k \<le> n" "k \<le> 256" "a mod 256 + k \<le> 256" using assms a by (auto simp: min_def split: if_splits)
  show "npages a n = Suc (npages (a + k) (n - k))"
  proof (cases "n = k")
    case True
    then have "(a mod 256 + n + 255) div 256 = 1" using k by (intro div_nat_eqI) auto
    with True assms show ?thesis by (simp add: npages_def)
  next
    case False
    then have e: "k = 256 - a mod 256" using assms(2) k by (auto simp: min_def split: if_splits)
    have "(a + k) mod 256 = 0"
    proof -
      have "a + k = 256 * (a div 256) + 256" using e a by (metis add.assoc le_add_diff_inverse less_imp_le mult_div_mod_eq)
      then show ?thesis by simp
    qed
    moreover have "a mod 256 + n + 255 = (n - k + 255) + 256" using e False k a by linarith
    ultimately show ?thesis using False k(2) assms(1) by (simp add: npages_def)
  qed
qed

lemma npages_bound: "npages a n \<le> n div 256 + 2"
proof -
  have "(a mod 256 + n + 255) div 256 \<le> (n + 2 * 256) div 256" by (rule div_le_mono) (simp add: less_imp_le)
  also have "\<dots> = n div 256 + 2" by simp
  finally show ?thesis by (simp add: npages_def)
qed

lemma off_add: "off (add32 a b) = off (a + b)"
proof -
  have "(a + b) mod 4294967296 mod 16777216 = (a + b) mod (16777216 :: nat)" by (rule mod_mod_cancel) simp
  then show ?thesis by (simp add: add32_def)
qed

lemma off_mod: "16777216 mod k = 0 \<Longrightarrow> off a mod k = a mod (k :: nat)"
  by (rule mod_mod_cancel) (simp add: dvd_eq_mod_eq_0)

lemma off_mods [simp]: "off a mod 256 = a mod 256" "off a mod 4096 = a mod 4096" "off a mod 32768 = a mod (32768 :: nat)"
  by (simp_all add: off_mod)

lemma off_add_cong: "off (add32 a b + c) = off (a + b + c)"
  using off_add [of a b] by (metis mod_add_left_eq)

lemma off_plus: "off a + n < 16777216 \<Longrightarrow> off (a + n) = off a + n"
  by (metis mod_add_left_eq mod_less)

lemma length_chunk [simp]: "length (chunk ram p n) = n"
  by (simp add: chunk_def)

lemma chunk_append: "chunk ram p (m + n) = chunk ram p m @ chunk ram (fst p, snd p + m) n"
  by (rule nth_equalityI) (auto simp: chunk_def nth_append)

text \<open>
  What a loop leaves: either it is done, or the chip is suspended in the command before
  \<open>current_address\<close>, and the rest of the range leads to the goal.
\<close>

definition loop_post :: "bool \<Rightarrow> HAL_NORFLASH_RET_T \<Rightarrow> nat \<Rightarrow> norchip \<Rightarrow> norchip \<Rightarrow> bool" where
  "loop_post suspend ret rest c c' \<longleftrightarrow> chip_size c' = chip_size c \<and> length (polls c') \<le> length (polls c) \<and>
     (ret = HAL_NORFLASH_OK \<and> rest = 0 \<and> running c' = None \<or>
      ret = HAL_NORFLASH_SUSPENDED \<and> suspend \<and> running c' \<noteq> None \<and> length (polls c') < length (polls c))"

lemma loop_post_trans:
  assumes "waited suspend HAL_NORFLASH_OK c1 c2" "chip_size c1 = chip_size c" "length (polls c1) = length (polls c)"
    and "loop_post suspend ret rest c2 c3"
  shows "loop_post suspend ret rest c c3"
  using assms by (auto simp: loop_post_def waited_def)

lemma norhal_self [simp]: "h\<lparr>chip := chip h\<rparr> = h"
  by simp

definition within :: "nat \<Rightarrow> nat \<Rightarrow> norchip \<Rightarrow> bool" where
  "within lo k c \<longleftrightarrow> (\<forall>l n f. running c = Some (l, n, f) \<longrightarrow> lo \<le> l \<and> l + n \<le> lo + k)"

lemma within_cells: "within lo k c \<Longrightarrow> \<not> (lo \<le> x \<and> x < lo + k) \<Longrightarrow> cells c x = chip_goal c x"
  by (cases "running c") (auto simp: within_def chip_goal_idle chip_goal_running overlay_def)

lemma npages_cong: "a mod 256 = b mod 256 \<Longrightarrow> npages a n = npages b n"
  by (simp add: npages_def)

lemma npages_0 [simp]: "npages a 0 = 0"
  by (simp add: npages_def)

lemma page_in_region:
  fixes a lo k :: nat
  assumes "256 dvd lo" "256 dvd k" "lo \<le> a" "a < lo + k"
  shows "lo \<le> a div 256 * 256 \<and> a div 256 * 256 + 256 \<le> lo + k"
proof -
  have "256 dvd lo + k" using assms(1,2) by (rule dvd_add)
  then obtain m where m: "lo + k = 256 * m" unfolding dvd_def by blast
  obtain l where l: "lo = 256 * l" using assms(1) unfolding dvd_def by blast
  define q where "q = a div 256"
  have "256 * q \<le> a" "a < 256 * q + 256" by (simp_all add: q_def)
  then have "256 * l < 256 * (q + 1)" "256 * q < 256 * m" using l m assms(3,4) by (simp_all del: mult_less_cancel1)
  then have "l \<le> q" "q + 1 \<le> m" by simp_all
  then have "256 * l \<le> 256 * q" "256 * q + 256 \<le> 256 * m" by simp_all
  then show ?thesis using l m by (simp add: q_def [symmetric])
qed

text \<open>What is left of a write: the rest of the range, at the address and in the buffer.\<close>

definition write_post ::
  "('b \<Rightarrow> nat \<Rightarrow> byte) \<Rightarrow> bool \<Rightarrow> nat \<Rightarrow> nat \<Rightarrow> 'b \<times> nat \<Rightarrow> norchip \<Rightarrow>
   HAL_NORFLASH_RET_T \<Rightarrow> nat \<Rightarrow> nat \<Rightarrow> 'b \<times> nat \<Rightarrow> norchip \<Rightarrow> bool" where
  "write_post ram suspend a n p c ret rest a' p' c' \<longleftrightarrow> rest \<le> n \<and> off a' = off (a + (n - rest)) \<and>
     p' = (fst p, snd p + (n - rest)) \<and> loop_post suspend ret rest c c' \<and>
     prog (off a + (n - rest)) (chunk ram p' rest) (chip_goal c') = prog (off a) (chunk ram p n) (cells c) \<and>
     (if ret = HAL_NORFLASH_SUSPENDED then 1 else 0) + npages a' rest + ready (polls c) \<le> npages a n + ready (polls c')"

lemma write_loop_step:
  assumes "geom h" "0 < n" "w = min (min 256 n) (256 - a mod 256)"
  shows "write_loop ram suspend n a p HAL_NORFLASH_OK h = do {
     (ret, c) \<leftarrow> norflash_write a (chunk ram p w) suspend (chip h);
     write_loop ram suspend (n - w) (add32 a w) (fst p, snd p + w) ret (h\<lparr>chip := c\<rparr>) }"
proof -
  have "page_size h = 256" using assms(1) by (simp add: geom_def)
  then have "(if page_size h - (a AND (page_size h - 1)) < (if page_size h < n then page_size h else n)
      then page_size h - (a AND (page_size h - 1)) else if page_size h < n then page_size h else n) = w"
    by (auto simp: masks assms(3))
  then show ?thesis using assms(2) by (subst write_loop.simps) (simp only: Let_def simp_thms if_True)
qed

lemma write_loop_spec:
  assumes "geom h" "running (chip h) = None" "npages a n \<le> ready (polls (chip h))" "off a + n \<le> 16777216"
    and "256 dvd lo" "256 dvd k" "lo \<le> off a" "off a + n \<le> lo + k"
  shows "\<exists>ret rest a' p' c'. write_loop ram suspend n a p HAL_NORFLASH_OK h = Some (ret, rest, a', p', h\<lparr>chip := c'\<rparr>) \<and>
    write_post ram suspend a n p (chip h) ret rest a' p' c' \<and> within lo k c'"
  using assms(1-4,7,8)
proof (induction n arbitrary: a p h rule: less_induct)
  case (less n)
  show ?case
  proof (cases "n = 0")
    case True
    then have "write_loop ram suspend n a p HAL_NORFLASH_OK h = Some (HAL_NORFLASH_OK, 0, a, p, h\<lparr>chip := chip h\<rparr>)"
      by (subst write_loop.simps) simp
    moreover have "write_post ram suspend a n p (chip h) HAL_NORFLASH_OK 0 a p (chip h)" "within lo k (chip h)"
      using less.prems True by (simp_all add: write_post_def loop_post_def chip_goal_idle chunk_def within_def)
    ultimately show ?thesis by blast
  next
    case False
    define w where "w = min (min 256 n) (256 - a mod 256)"
    note w = npages_step [OF _ w_def]
    have n: "0 < n" using False by simp
    have w1: "npages a n = Suc (npages (a + w) (n - w))" "0 < w" "w \<le> n" "w \<le> 256" "a mod 256 + w \<le> 256" using w [OF n] .
    have rdy: "0 < ready (polls (chip h))" using less.prems(3) w1(1) by simp
    have pg: "off a mod 256 + length (chunk ram p w) \<le> 256" using w1(5) by simp
    obtain ret c where 1: "norflash_write a (chunk ram p w) suspend (chip h) = Some (ret, c)"
        "chip_goal c = prog (off a) (chunk ram p w) (cells (chip h))"
        "waited suspend ret ((chip h)\<lparr>running := Some (off a div 256 * 256, 256, prog (off a) (chunk ram p w) (cells (chip h)))\<rparr>) c"
      using chip_write_spec [OF less.prems(2) rdy pg] by blast
    have step: "write_loop ram suspend n a p HAL_NORFLASH_OK h =
        write_loop ram suspend (n - w) (add32 a w) (fst p, snd p + w) ret (h\<lparr>chip := c\<rparr>)"
      using write_loop_step [OF less.prems(1) n w_def] 1(1) by simp
    have ch: "chunk ram p n = chunk ram p w @ chunk ram (fst p, snd p + w) (n - w)"
      using chunk_append [of ram p w "n - w"] w1(3) by simp
    have goal: "prog (off a + w) (chunk ram (fst p, snd p + w) (n - w)) (chip_goal c) = prog (off a) (chunk ram p n) (cells (chip h))"
      using prog_append [of "off a" "chunk ram p w"] by (simp add: 1(2) ch)
    have np: "npages (add32 a w) (n - w) = npages (a + w) (n - w)"
      by (rule npages_cong) (use arg_cong [OF off_add, of "\<lambda>x. x mod 256" a w] in simp)
    have region: "lo \<le> off a div 256 * 256 \<and> off a div 256 * 256 + 256 \<le> lo + k"
      using page_in_region [OF assms(5,6) less.prems(5)] less.prems(6) n by linarith
    show ?thesis
    proof (cases "ret = HAL_NORFLASH_OK")
      case True
      note 2 = 1(3) [unfolded True]
      have st: "running c = None" "Suc (ready (polls c)) = ready (polls (chip h))" using 2 by (auto simp: waited_def)
      have a: "off (add32 a w) = off a + w \<or> n - w = 0"
        using off_plus [of a w] less.prems(4) w1(3) by (cases "w = n") (auto simp: off_add)
      show ?thesis
      proof (cases "n - w = 0")
        case True
        with w1(3) have wn: "w = n" by simp
        have "write_loop ram suspend n a p HAL_NORFLASH_OK h = Some (ret, 0, add32 a n, (fst p, snd p + n), h\<lparr>chip := c\<rparr>)"
          by (subst step, subst write_loop.simps) (simp add: wn)
        moreover have "write_post ram suspend a n p (chip h) ret 0 (add32 a n) (fst p, snd p + n) c"
          using \<open>ret = HAL_NORFLASH_OK\<close> 2 st goal w1(1) by (simp add: write_post_def loop_post_def waited_def off_add wn)
        moreover have "within lo k c" using st by (simp add: within_def)
        ultimately show ?thesis by blast
      next
        case F: False
        with a have a: "off (add32 a w) = off a + w" by simp
        have pre: "n - w < n" "geom (h\<lparr>chip := c\<rparr>)" "running (chip (h\<lparr>chip := c\<rparr>)) = None"
          "npages (add32 a w) (n - w) \<le> ready (polls (chip (h\<lparr>chip := c\<rparr>)))" "off (add32 a w) + (n - w) \<le> 16777216"
          "lo \<le> off (add32 a w)" "off (add32 a w) + (n - w) \<le> lo + k"
          using less.prems w1 st 2 a np by (auto simp: geom_def waited_def)
        obtain ret' rest a' p' c' where 3: "write_loop ram suspend (n - w) (add32 a w) (fst p, snd p + w) HAL_NORFLASH_OK (h\<lparr>chip := c\<rparr>) =
             Some (ret', rest, a', p', h\<lparr>chip := c'\<rparr>)"
            "write_post ram suspend (add32 a w) (n - w) (fst p, snd p + w) c ret' rest a' p' c'" "within lo k c'"
          using less.IH [OF pre, of "(fst p, snd p + w)"] by auto
        have "write_post ram suspend a n p (chip h) ret' rest a' p' c'"
          unfolding write_post_def
        proof (intro conjI)
          note wp = 3(2) [unfolded write_post_def]
          have r: "rest \<le> n - w" using wp by simp
          then show "rest \<le> n" by simp
          have "off a' = off (add32 a w + (n - w - rest))" using wp by simp
          also have "\<dots> = off (a + w + (n - w - rest))" by (rule off_add_cong)
          finally show "off a' = off (a + (n - rest))" using r w1(3) by simp
          show "p' = (fst p, snd p + (n - rest))" using wp r w1(3) by simp
          show "loop_post suspend ret' rest (chip h) c'" using loop_post_trans [OF 2 _ _ wp [THEN conjunct2, THEN conjunct2, THEN conjunct2, THEN conjunct1]] by simp
          have "off a + (n - rest) = off (add32 a w) + (n - w - rest)" using a r w1(3) by simp
          moreover have "prog (off (add32 a w) + (n - w - rest)) (chunk ram p' rest) (chip_goal c') =
              prog (off a + w) (chunk ram (fst p, snd p + w) (n - w)) (chip_goal c)"
            using wp [THEN conjunct2, THEN conjunct2, THEN conjunct2, THEN conjunct2, THEN conjunct1]
            by (simp only: a chip_goal_idle [OF st(1)])
          ultimately show "prog (off a + (n - rest)) (chunk ram p' rest) (chip_goal c') = prog (off a) (chunk ram p n) (cells (chip h))"
            by (simp only: goal)
          show "(if ret' = HAL_NORFLASH_SUSPENDED then 1 else 0) + npages a' rest + ready (polls (chip h)) \<le> npages a n + ready (polls c')"
            using wp st(2) w1(1) np by simp
        qed
        with 3 step True show ?thesis by auto
      qed
    next
      case False
      then have s: "ret = HAL_NORFLASH_SUSPENDED" "suspend" "running c = Some (off a div 256 * 256, 256, prog (off a) (chunk ram p w) (cells (chip h)))"
        "ready (polls c) = ready (polls (chip h))" "length (polls c) < length (polls (chip h))" "chip_size c = chip_size (chip h)"
        using 1(3) by (auto simp: waited_def)
      have "write_loop ram suspend n a p HAL_NORFLASH_OK h = Some (ret, n - w, add32 a w, (fst p, snd p + w), h\<lparr>chip := c\<rparr>)"
        using False by (subst step, subst write_loop.simps) simp
      moreover have "write_post ram suspend a n p (chip h) ret (n - w) (add32 a w) (fst p, snd p + w) c"
        using s goal np w1 by (simp add: write_post_def loop_post_def off_add)
      moreover have "within lo k c" using s(3) region by (simp add: within_def)
      ultimately show ?thesis by blast
    qed
  qed
qed

text \<open>The same for erasing, by sectors and blocks.\<close>

definition erase_post ::
  "bool \<Rightarrow> nat \<Rightarrow> nat \<Rightarrow> norchip \<Rightarrow> HAL_NORFLASH_RET_T \<Rightarrow> nat \<Rightarrow> nat \<Rightarrow> norchip \<Rightarrow> bool" where
  "erase_post suspend a n c ret rest a' c' \<longleftrightarrow> rest \<le> n \<and> 4096 dvd rest \<and> off a' = off (a + (n - rest)) \<and>
     loop_post suspend ret rest c c' \<and>
     wipe (off a + (n - rest)) rest (chip_goal c') = wipe (off a) n (cells c) \<and>
     (if ret = HAL_NORFLASH_SUSPENDED then 1 else 0) + rest div 4096 + ready (polls c) \<le> n div 4096 + ready (polls c')"

lemma erase_loop_step:
  assumes "geom h" "0 < n" "4096 dvd n" "a mod 4096 = 0"
  obtains w type where "erase_loop suspend n a HAL_NORFLASH_OK h = do {
       (ret, c) \<leftarrow> norflash_erase a type suspend (chip h);
       erase_loop suspend (n - w) (add32 a w) ret (h\<lparr>chip := c\<rparr>) }"
     "type = DRV_NORFLASH_ERASE_SECTOR \<and> w = 4096 \<or> type = DRV_NORFLASH_ERASE_BLOCK \<and> w = 32768"
     "w \<le> n" "a mod w = 0"
proof -
  have g: "block_size h = 32768" "sector_size h = 4096" using assms(1) by (simp_all add: geom_def)
  have n: "4096 \<le> n" using assms(2,3) by (rule dvd_imp_le [rotated])
  show ?thesis
  proof (cases "32768 \<le> n \<and> a AND 32767 = 0")
    case True
    then have "erase_loop suspend n a HAL_NORFLASH_OK h = do {
       (ret, c) \<leftarrow> norflash_erase a DRV_NORFLASH_ERASE_BLOCK suspend (chip h);
       erase_loop suspend (n - 32768) (add32 a 32768) ret (h\<lparr>chip := c\<rparr>) }"
      using assms(2) by (subst erase_loop.simps) (simp add: g)
    with True show ?thesis by (intro that [of DRV_NORFLASH_ERASE_BLOCK 32768]) (simp_all add: masks)
  next
    case False
    have c: "(block_size h \<le> n \<and> a AND (block_size h - 1) = 0) = False"
      "(if sector_size h < n then n - sector_size h else 0) = n - sector_size h"
      using n False by (auto simp: g)
    have "erase_loop suspend n a HAL_NORFLASH_OK h = do {
       (ret, c) \<leftarrow> norflash_erase a DRV_NORFLASH_ERASE_SECTOR suspend (chip h);
       erase_loop suspend (n - 4096) (add32 a 4096) ret (h\<lparr>chip := c\<rparr>) }"
      using assms(2) by (subst erase_loop.simps) (simp only: c simp_thms if_True if_False, simp only: g)
    with n assms(4) show ?thesis by (intro that [of DRV_NORFLASH_ERASE_SECTOR 4096]) simp_all
  qed
qed

lemma erase_loop_spec:
  assumes "geom h" "running (chip h) = None" "n div 4096 \<le> ready (polls (chip h))" "off a + n \<le> 16777216"
    and "4096 dvd n" "a mod 4096 = 0" "lo \<le> off a" "off a + n \<le> lo + k"
  shows "\<exists>ret rest a' c'. erase_loop suspend n a HAL_NORFLASH_OK h = Some (ret, rest, a', h\<lparr>chip := c'\<rparr>) \<and>
    erase_post suspend a n (chip h) ret rest a' c' \<and> within lo k c'"
  using assms
proof (induction n arbitrary: a h rule: less_induct)
  case (less n)
  show ?case
  proof (cases "n = 0")
    case True
    then have "erase_loop suspend n a HAL_NORFLASH_OK h = Some (HAL_NORFLASH_OK, 0, a, h\<lparr>chip := chip h\<rparr>)"
      by (subst erase_loop.simps) simp
    moreover have "erase_post suspend a n (chip h) HAL_NORFLASH_OK 0 a (chip h)" "within lo k (chip h)"
      using less.prems(2) True by (simp_all add: erase_post_def loop_post_def chip_goal_idle within_def)
    ultimately show ?thesis by blast
  next
    case False
    then have n: "0 < n" by simp
    obtain w type where 0: "erase_loop suspend n a HAL_NORFLASH_OK h = do {
         (ret, c) \<leftarrow> norflash_erase a type suspend (chip h);
         erase_loop suspend (n - w) (add32 a w) ret (h\<lparr>chip := c\<rparr>) }"
        "type = DRV_NORFLASH_ERASE_SECTOR \<and> w = 4096 \<or> type = DRV_NORFLASH_ERASE_BLOCK \<and> w = 32768"
        "w \<le> n" "a mod w = 0"
      by (rule erase_loop_step [OF less.prems(1) n less.prems(5,6), of suspend], rule that)
    have w: "4096 dvd w" "4096 \<le> w" "0 < w" using 0(2) by auto
    have nd: "n div 4096 = w div 4096 + (n - w) div 4096" "0 < w div 4096" "4096 dvd n - w"
      using w less.prems(5) 0(3) by (simp_all add: div_plus_div_distrib_dvd_left [symmetric] div_greater_zero_iff)
    have rdy: "0 < ready (polls (chip h))" using less.prems(3) nd by linarith
    have al: "off a mod w = 0" using 0(2,4) by auto
    obtain ret c where 1: "norflash_erase a type suspend (chip h) = Some (ret, c)"
        "chip_goal c = wipe (off a) w (cells (chip h))"
        "waited suspend ret ((chip h)\<lparr>running := Some (off a, w, \<lambda>_. 255)\<rparr>) c"
      using chip_erase_spec [OF less.prems(2) rdy 0(2) al] by blast
    have step: "erase_loop suspend n a HAL_NORFLASH_OK h = erase_loop suspend (n - w) (add32 a w) ret (h\<lparr>chip := c\<rparr>)"
      using 0(1) 1(1) by simp
    have goal: "wipe (off a + w) (n - w) (chip_goal c) = wipe (off a) n (cells (chip h))"
      using wipe_wipe [of "off a" w "n - w"] 0(3) by (simp add: 1(2))
    have m: "add32 a w mod 4096 = 0"
    proof -
      have "add32 a w mod 4096 = (a + w) mod 4096" using arg_cong [OF off_add, of "\<lambda>x. x mod 4096" a w] by simp
      then show ?thesis using less.prems(6) w(1) by (simp add: mod_add_eq [symmetric, of a w] dvd_eq_mod_eq_0)
    qed
    show ?thesis
    proof (cases "ret = HAL_NORFLASH_OK")
      case True
      note 2 = 1(3) [unfolded True]
      have st: "running c = None" "Suc (ready (polls c)) = ready (polls (chip h))" using 2 by (auto simp: waited_def)
      show ?thesis
      proof (cases "n - w = 0")
        case True
        with 0(3) have wn: "w = n" by simp
        have "erase_loop suspend n a HAL_NORFLASH_OK h = Some (ret, 0, add32 a n, h\<lparr>chip := c\<rparr>)"
          by (subst step, subst erase_loop.simps) (simp add: wn)
        moreover have "erase_post suspend a n (chip h) ret 0 (add32 a n) c"
          using \<open>ret = HAL_NORFLASH_OK\<close> 2 st goal nd by (simp add: erase_post_def loop_post_def waited_def off_add wn)
        moreover have "within lo k c" using st by (simp add: within_def)
        ultimately show ?thesis by blast
      next
        case False
        have a: "off (add32 a w) = off a + w" using off_plus [of a w] less.prems(4) False by (simp add: off_add)
        have pre: "n - w < n" "geom (h\<lparr>chip := c\<rparr>)" "running (chip (h\<lparr>chip := c\<rparr>)) = None"
          "(n - w) div 4096 \<le> ready (polls (chip (h\<lparr>chip := c\<rparr>)))"
          using n w(3) less.prems(1,3) 2 st nd(1,2) by (simp_all add: geom_def waited_def)
        have pre2: "off (add32 a w) + (n - w) \<le> 16777216" "lo \<le> off (add32 a w)" "off (add32 a w) + (n - w) \<le> lo + k"
          using a less.prems(4,7,8) 0(3) by simp_all
        obtain ret' rest a' c' where 3: "erase_loop suspend (n - w) (add32 a w) HAL_NORFLASH_OK (h\<lparr>chip := c\<rparr>) =
             Some (ret', rest, a', h\<lparr>chip := c'\<rparr>)"
            "erase_post suspend (add32 a w) (n - w) c ret' rest a' c'" "within lo k c'"
          using less.IH [OF pre pre2(1) nd(3) m pre2(2,3)] by auto
        have "erase_post suspend a n (chip h) ret' rest a' c'"
          unfolding erase_post_def
        proof (intro conjI)
          note wp = 3(2) [unfolded erase_post_def]
          have r: "rest \<le> n - w" using wp by simp
          then show "rest \<le> n" by simp
          show "4096 dvd rest" using wp by simp
          have "off a' = off (add32 a w + (n - w - rest))" using wp by simp
          also have "\<dots> = off (a + w + (n - w - rest))" by (rule off_add_cong)
          finally show "off a' = off (a + (n - rest))" using r 0(3) by simp
          show "loop_post suspend ret' rest (chip h) c'" using loop_post_trans [OF 2 _ _ wp [THEN conjunct2, THEN conjunct2, THEN conjunct2, THEN conjunct1]] by simp
          have "off a + (n - rest) = off (add32 a w) + (n - w - rest)" using a r 0(3) by simp
          moreover have "wipe (off (add32 a w) + (n - w - rest)) rest (chip_goal c') = wipe (off a + w) (n - w) (chip_goal c)"
            using wp [THEN conjunct2, THEN conjunct2, THEN conjunct2, THEN conjunct2, THEN conjunct1]
            by (simp only: a chip_goal_idle [OF st(1)])
          ultimately show "wipe (off a + (n - rest)) rest (chip_goal c') = wipe (off a) n (cells (chip h))"
            by (simp only: goal)
          show "(if ret' = HAL_NORFLASH_SUSPENDED then 1 else 0) + rest div 4096 + ready (polls (chip h)) \<le> n div 4096 + ready (polls c')"
            using wp st(2) nd by simp
        qed
        with 3 step True show ?thesis by auto
      qed
    next
      case False
      then have s: "ret = HAL_NORFLASH_SUSPENDED" "suspend" "running c = Some (off a, w, \<lambda>_. 255)"
        "ready (polls c) = ready (polls (chip h))" "length (polls c) < length (polls (chip h))" "chip_size c = chip_size (chip h)"
        using 1(3) by (auto simp: waited_def)
      have "erase_loop suspend n a HAL_NORFLASH_OK h = Some (ret, n - w, add32 a w, h\<lparr>chip := c\<rparr>)"
        using False by (subst step, subst erase_loop.simps) simp
      moreover have "erase_post suspend a n (chip h) ret (n - w) (add32 a w) c"
        using s goal nd 0(3) by (simp add: erase_post_def loop_post_def off_add)
      moreover have "within lo k c" using s(3) less.prems(7,8) 0(3) by (simp add: within_def)
      ultimately show ?thesis by blast
    qed
  qed
qed

section \<open>The operations and their suspension\<close>

text \<open>What the flash holds when the suspended operation has been resumed to its end.\<close>

definition hal_goal :: "('b \<Rightarrow> nat \<Rightarrow> byte) \<Rightarrow> 'b norhal \<Rightarrow> nat \<Rightarrow> byte" where
  "hal_goal ram h = (case suspend_state h of
     SUSPEND_STATE_NO \<Rightarrow> cells (chip h)
   | SUSPEND_STATE_ERASE \<Rightarrow> wipe (off (op_next_addr h)) (op_remain_len h) (chip_goal (chip h))
   | SUSPEND_STATE_PROGRAM \<Rightarrow>
       prog (off (op_next_addr h)) (chunk ram (op_next_buf h) (op_remain_len h)) (chip_goal (chip h)))"

text \<open>The number of done readings it still takes.\<close>

definition hal_work :: "'b norhal \<Rightarrow> nat" where
  "hal_work h = (case suspend_state h of
     SUSPEND_STATE_NO \<Rightarrow> 0
   | SUSPEND_STATE_ERASE \<Rightarrow> 1 + op_remain_len h div 4096
   | SUSPEND_STATE_PROGRAM \<Rightarrow> 1 + npages (op_next_addr h) (op_remain_len h))"

text \<open>A sound state: nothing runs, or the suspended operation lies in the region \<open>lo, k\<close>.\<close>

definition hal_ok :: "nat \<Rightarrow> nat \<Rightarrow> 'b norhal \<Rightarrow> bool" where
  "hal_ok lo k h \<longleftrightarrow> geom h \<and> (if suspend_state h = SUSPEND_STATE_NO then running (chip h) = None
     else suspend_mode h \<and> within lo k (chip h) \<and>
       lo \<le> off (op_next_addr h) \<and> off (op_next_addr h) + op_remain_len h \<le> lo + k \<and>
       (suspend_state h = SUSPEND_STATE_ERASE \<longrightarrow> 4096 dvd op_remain_len h \<and> op_next_addr h mod 4096 = 0))"

definition hal_post ::
  "('b \<Rightarrow> nat \<Rightarrow> byte) \<Rightarrow> bool \<Rightarrow> (nat \<Rightarrow> byte) \<Rightarrow> nat \<Rightarrow> nat \<Rightarrow> nat \<Rightarrow> 'b norhal \<Rightarrow> HAL_NORFLASH_RET_T \<Rightarrow> 'b norhal \<Rightarrow> bool" where
  "hal_post ram suspend goal lo k w h ret h' \<longleftrightarrow> hal_ok lo k h' \<and> suspend_mode h' = suspend_mode h \<and> total_size h' = total_size h \<and>
     hal_goal ram h' = goal \<and>
     (ret = HAL_NORFLASH_OK \<and> suspend_state h' = SUSPEND_STATE_NO \<or>
      ret = HAL_NORFLASH_SUSPENDED \<and> suspend \<and> suspend_state h' \<noteq> SUSPEND_STATE_NO \<and>
        length (polls (chip h')) < length (polls (chip h))) \<and>
     hal_work h' + ready (polls (chip h)) \<le> w + ready (polls (chip h')) \<and>
     length (polls (chip h')) \<le> length (polls (chip h))"

lemma hal_post_done: "hal_post ram suspend goal lo k w h HAL_NORFLASH_OK h' \<Longrightarrow>
    suspend_state h' = SUSPEND_STATE_NO \<and> cells (chip h') = goal"
  by (auto simp: hal_post_def hal_goal_def)

lemma geom_chip: "geom h \<Longrightarrow> chip_size c = chip_size (chip h) \<Longrightarrow> geom (h\<lparr>chip := c\<rparr>)"
  by (simp add: geom_def)

lemma hal_check_ok: "off a < total_size h \<Longrightarrow> off a + n \<le> total_size h \<Longrightarrow> hal_norflash_check a n h = HAL_NORFLASH_OK"
  by (simp add: hal_norflash_check_def masks)

text \<open>The rest of a range that is not used up has not wrapped around.\<close>

lemma off_rest: "rest \<le> n \<Longrightarrow> 0 < rest \<Longrightarrow> off a + n \<le> 16777216 \<Longrightarrow> off (a + (n - rest)) = off a + (n - rest)"
  by (rule off_plus) simp

lemma write_int_post:
  assumes "geom h" "running (chip h) = None" "npages a n \<le> ready (polls (chip h))"
    and "256 dvd lo" "256 dvd k" "lo \<le> off a" "off a + n \<le> lo + k" "lo + k \<le> total_size h" "off a < total_size h"
    and "suspend \<Longrightarrow> suspend_mode h \<and> lo + k < 16777216"
  shows "\<exists>ret h'. hal_norflash_write_int ram a p n suspend h = Some (ret, h') \<and>
    hal_post ram suspend (prog (off a) (chunk ram p n) (cells (chip h))) lo k (npages a n) h ret h' \<and>
    (ret = HAL_NORFLASH_SUSPENDED \<longrightarrow> suspend_state h' = SUSPEND_STATE_PROGRAM \<and> fst (op_next_buf h') = fst p)"
proof -
  have tot: "total_size h \<le> 16777216" using assms(1) by (simp add: geom_def)
  have le: "off a + n \<le> 16777216" using assms(7,8) tot by linarith
  obtain ret rest a' p' c' where 1: "write_loop ram suspend n a p HAL_NORFLASH_OK h = Some (ret, rest, a', p', h\<lparr>chip := c'\<rparr>)"
    "write_post ram suspend a n p (chip h) ret rest a' p' c'" "within lo k c'"
    using write_loop_spec [OF assms(1-3) le assms(4-7), of ram suspend p] by blast
  note wp = 1(2) [unfolded write_post_def loop_post_def]
  have chk: "hal_norflash_check a n h = HAL_NORFLASH_OK" using assms(7-9) by (intro hal_check_ok) simp_all
  have g: "geom (h\<lparr>chip := c'\<rparr>)" using wp assms(1) by (intro geom_chip) simp_all
  show ?thesis
  proof (cases "ret = HAL_NORFLASH_SUSPENDED")
    case True
    let ?h = "h\<lparr>chip := c', suspend_state := SUSPEND_STATE_PROGRAM, op_next_addr := a', op_next_buf := p', op_remain_len := rest\<rparr>"
    have run: "hal_norflash_write_int ram a p n suspend h = Some (ret, ?h)"
      using 1(1) chk True by (simp add: hal_norflash_write_int_def)
    have s: "suspend" "suspend_mode h" "lo + k < 16777216" using wp True assms(10) by auto
    have off: "off a' = off a + (n - rest)" using wp off_plus [of a "n - rest"] s(3) assms(7) by simp
    have r: "rest \<le> n" using wp by simp
    have rng: "lo \<le> off a'" "off a' + rest \<le> lo + k" unfolding off using r assms(6,7) by simp_all
    have "hal_goal ram ?h = prog (off a) (chunk ram p n) (cells (chip h))"
    proof -
      have "prog (off a + (n - rest)) (chunk ram p' rest) (chip_goal c') = prog (off a) (chunk ram p n) (cells (chip h))"
        using wp by blast
      then show ?thesis by (simp add: hal_goal_def off)
    qed
    moreover have "hal_ok lo k ?h" using g s rng 1(3) by (simp add: hal_ok_def geom_def)
    moreover have "hal_work ?h + ready (polls (chip h)) \<le> npages a n + ready (polls (chip ?h))"
      using wp True by (simp add: hal_work_def)
    ultimately show ?thesis using run wp True s by (intro exI [of _ ret] exI [of _ ?h]) (simp add: hal_post_def)
  next
    case False
    let ?h = "h\<lparr>chip := c', suspend_state := SUSPEND_STATE_NO\<rparr>"
    have ok: "ret = HAL_NORFLASH_OK" "rest = 0" "running c' = None" using wp False by auto
    have run: "hal_norflash_write_int ram a p n suspend h = Some (ret, ?h)"
      using 1(1) chk False by (simp add: hal_norflash_write_int_def)
    have "prog (off a + (n - rest)) (chunk ram p' rest) (chip_goal c') = prog (off a) (chunk ram p n) (cells (chip h))"
      using wp by blast
    then have "hal_goal ram ?h = prog (off a) (chunk ram p n) (cells (chip h))"
      using ok chip_goal_idle [OF ok(3)] by (simp add: hal_goal_def chunk_def)
    moreover have "hal_ok lo k ?h" using g ok by (simp add: hal_ok_def geom_def)
    ultimately show ?thesis using run wp ok
      by (intro exI [of _ ret] exI [of _ ?h]) (simp add: hal_post_def hal_work_def)
  qed
qed

lemma sector_align_id: "a mod 4096 = 0 \<Longrightarrow> n mod 4096 = 0 \<Longrightarrow> sector_align 4096 a n = (a, n)"
  by (simp add: sector_align_def Let_def masks)

lemma erase_int_post:
  assumes "geom h" "running (chip h) = None" "n div 4096 \<le> ready (polls (chip h))"
    and "a mod 4096 = 0" "4096 dvd n" "lo \<le> off a" "off a + n \<le> lo + k" "lo + k \<le> total_size h" "off a < total_size h"
    and "suspend \<Longrightarrow> suspend_mode h \<and> lo + k < 16777216" "n < total_size h"
  shows "\<exists>ret h'. hal_norflash_erase_int a n suspend h = Some (ret, h') \<and>
    hal_post ram suspend (wipe (off a) n (cells (chip h))) lo k (n div 4096) h ret h' \<and>
    (ret = HAL_NORFLASH_SUSPENDED \<longrightarrow> suspend_state h' = SUSPEND_STATE_ERASE)"
proof -
  have tot: "total_size h \<le> 16777216" "sector_size h = 4096" using assms(1) by (simp_all add: geom_def)
  have le: "off a + n \<le> 16777216" using assms(7,8) tot by linarith
  obtain ret rest a' c' where 1: "erase_loop suspend n a HAL_NORFLASH_OK h = Some (ret, rest, a', h\<lparr>chip := c'\<rparr>)"
    "erase_post suspend a n (chip h) ret rest a' c'" "within lo k c'"
    using erase_loop_spec [OF assms(1-3) le assms(5,4,6,7), of suspend] by blast
  note wp = 1(2) [unfolded erase_post_def loop_post_def]
  have chk: "hal_norflash_check a n h = HAL_NORFLASH_OK" using assms(7-9) by (intro hal_check_ok) simp_all
  have g: "geom (h\<lparr>chip := c'\<rparr>)" using wp assms(1) by (intro geom_chip) simp_all
  have al: "sector_align (sector_size h) a n = (a, n)" using assms(4,5) tot(2) by (simp add: sector_align_id dvd_eq_mod_eq_0)
  have run: "hal_norflash_erase_int a n suspend h = Some (ret, if ret = HAL_NORFLASH_SUSPENDED
      then h\<lparr>chip := c', suspend_state := SUSPEND_STATE_ERASE, op_next_addr := a', op_remain_len := rest\<rparr>
      else h\<lparr>chip := c', suspend_state := SUSPEND_STATE_NO\<rparr>)"
    using 1(1) chk al assms(11) by (simp add: hal_norflash_erase_int_def)
  have goal: "wipe (off a + (n - rest)) rest (chip_goal c') = wipe (off a) n (cells (chip h))" using wp by blast
  show ?thesis
  proof (cases "ret = HAL_NORFLASH_SUSPENDED")
    case True
    let ?h = "h\<lparr>chip := c', suspend_state := SUSPEND_STATE_ERASE, op_next_addr := a', op_remain_len := rest\<rparr>"
    have s: "suspend" "suspend_mode h" "lo + k < 16777216" using wp True assms(10) by auto
    have off: "off a' = off a + (n - rest)" using wp off_plus [of a "n - rest"] s(3) assms(7) by simp
    have r: "rest \<le> n" "4096 dvd rest" using wp by simp_all
    have rng: "lo \<le> off a'" "off a' + rest \<le> lo + k" unfolding off using r assms(6,7) by simp_all
    have "a' mod 4096 = off a' mod 4096" by simp
    also have "\<dots> = (off a + (n - rest)) mod 4096" by (simp only: off)
    also have "\<dots> = 0" using assms(4,5) r(2) by (simp add: mod_add_eq [symmetric, of "off a"] dvd_eq_mod_eq_0 [symmetric])
    finally have "hal_ok lo k ?h" using g s rng r 1(3) by (simp add: hal_ok_def geom_def)
    moreover have "hal_goal ram ?h = wipe (off a) n (cells (chip h))" using goal by (simp add: hal_goal_def off)
    moreover have "hal_work ?h + ready (polls (chip h)) \<le> n div 4096 + ready (polls (chip ?h))"
      using wp True by (simp add: hal_work_def)
    ultimately show ?thesis using run wp True s by (intro exI [of _ ret] exI [of _ ?h]) (simp add: hal_post_def)
  next
    case False
    let ?h = "h\<lparr>chip := c', suspend_state := SUSPEND_STATE_NO\<rparr>"
    have ok: "ret = HAL_NORFLASH_OK" "rest = 0" "running c' = None" using wp False by auto
    have "hal_goal ram ?h = wipe (off a) n (cells (chip h))"
      using goal ok chip_goal_idle [OF ok(3)] by (simp add: hal_goal_def)
    moreover have "hal_ok lo k ?h" using g ok by (simp add: hal_ok_def geom_def)
    ultimately show ?thesis using run wp ok
      by (intro exI [of _ ret] exI [of _ ?h]) (simp add: hal_post_def hal_work_def)
  qed
qed

lemma hal_write_suspend_post:
  assumes "hal_ok lo k h" "suspend_state h = SUSPEND_STATE_NO" "npages a n \<le> ready (polls (chip h))"
    and "256 dvd lo" "256 dvd k" "lo \<le> off a" "off a + n \<le> lo + k" "lo + k \<le> total_size h" "off a < total_size h"
    and "suspend \<and> suspend_mode h \<Longrightarrow> lo + k < 16777216"
  shows "\<exists>ret h'. hal_norflash_write_suspend ram a p n suspend h = Some (ret, h') \<and>
    hal_post ram (suspend \<and> suspend_mode h) (prog (off a) (chunk ram p n) (cells (chip h))) lo k (npages a n) h ret h' \<and>
    (ret = HAL_NORFLASH_SUSPENDED \<longrightarrow> suspend_state h' = SUSPEND_STATE_PROGRAM \<and> fst (op_next_buf h') = fst p)"
proof -
  have g: "geom h" "running (chip h) = None" "opened h" using assms(1,2) by (auto simp: hal_ok_def geom_def)
  show ?thesis using write_int_post [OF g(1,2) assms(3-9), of "suspend \<and> suspend_mode h" ram p] assms(2,10) g(3)
    by (simp add: hal_norflash_write_suspend_def)
qed

lemma hal_erase_suspend_post:
  assumes "hal_ok lo k h" "suspend_state h = SUSPEND_STATE_NO" "n div 4096 \<le> ready (polls (chip h))"
    and "a mod 4096 = 0" "4096 dvd n" "lo \<le> off a" "off a + n \<le> lo + k" "lo + k \<le> total_size h" "off a < total_size h"
    and "suspend \<and> suspend_mode h \<Longrightarrow> lo + k < 16777216" "n < total_size h"
  shows "\<exists>ret h'. hal_norflash_erase_suspend a n suspend h = Some (ret, h') \<and>
    hal_post ram (suspend \<and> suspend_mode h) (wipe (off a) n (cells (chip h))) lo k (n div 4096) h ret h' \<and>
    (ret = HAL_NORFLASH_SUSPENDED \<longrightarrow> suspend_state h' = SUSPEND_STATE_ERASE)"
proof -
  have g: "geom h" "running (chip h) = None" "opened h" using assms(1,2) by (auto simp: hal_ok_def geom_def)
  show ?thesis using erase_int_post [OF g(1,2) assms(3-9), of "suspend \<and> suspend_mode h" ram] assms(2,10,11) g(3)
    by (simp add: hal_norflash_erase_suspend_def)
qed

text \<open>Resuming: first the wait for the command under way, then the rest of the range.\<close>

lemma hal_post_weaken:
  assumes "hal_post ram suspend goal lo k w (h\<lparr>chip := c\<rparr>) ret h'" "w + ready (polls (chip h)) \<le> w' + ready (polls c)"
    and "length (polls c) < length (polls (chip h))"
  shows "hal_post ram suspend goal lo k w' h ret h'"
  using assms by (auto simp: hal_post_def)

lemma hal_write_resume_post:
  assumes "hal_ok lo k h" "suspend_state h = SUSPEND_STATE_PROGRAM" "hal_work h \<le> ready (polls (chip h))"
    and "256 dvd lo" "256 dvd k" "lo + k < total_size h"
  shows "\<exists>ret h'. hal_norflash_write_resume ram suspend h = Some (ret, h') \<and>
    hal_post ram suspend (hal_goal ram h) lo k (hal_work h) h ret h' \<and>
    (ret = HAL_NORFLASH_SUSPENDED \<longrightarrow> suspend_state h' = SUSPEND_STATE_PROGRAM \<and> fst (op_next_buf h') = fst (op_next_buf h))"
proof -
  note ok = assms(1) [unfolded hal_ok_def]
  have g: "geom h" "opened h" "suspend_mode h" "within lo k (chip h)" "total_size h \<le> 16777216"
    and r: "lo \<le> off (op_next_addr h)" "off (op_next_addr h) + op_remain_len h \<le> lo + k"
    using ok assms(2) by (auto simp: geom_def)
  have w: "hal_work h = 1 + npages (op_next_addr h) (op_remain_len h)" using assms(2) by (simp add: hal_work_def)
  have "0 < ready (polls (chip h))" using w assms(3) by linarith
  then obtain ret c where 1: "norflash_status_WIP_1_wait suspend (chip h) = Some (ret, c)" "chip_goal c = chip_goal (chip h)"
      "waited suspend ret (chip h) c" using wait_spec by blast
  have g': "geom (h\<lparr>chip := c\<rparr>)" using 1(3) g(1) by (intro geom_chip) (simp_all add: waited_def)
  show ?thesis
  proof (cases "ret = HAL_NORFLASH_SUSPENDED")
    case True
    then have "hal_norflash_write_resume ram suspend h = Some (ret, h\<lparr>chip := c\<rparr>)"
      using 1(1) g assms(2) by (simp add: hal_norflash_write_resume_def norflash_write_resume_def norflash_erase_resume_def Let_def)
    moreover have "hal_ok lo k (h\<lparr>chip := c\<rparr>)"
      using g' g r assms(2) 1(3) True by (auto simp: hal_ok_def within_def waited_def)
    ultimately show ?thesis using 1(2,3) True assms(2)
      by (intro exI [of _ ret] exI [of _ "h\<lparr>chip := c\<rparr>"]) (auto simp: hal_post_def hal_goal_def hal_work_def waited_def)
  next
    case False
    then have ok: "ret = HAL_NORFLASH_OK" "running c = None" "Suc (ready (polls c)) = ready (polls (chip h))"
      "length (polls c) < length (polls (chip h))" using 1(3) by (auto simp: waited_def)
    have pre: "running (chip (h\<lparr>chip := c\<rparr>)) = None" "npages (op_next_addr h) (op_remain_len h) \<le> ready (polls (chip (h\<lparr>chip := c\<rparr>)))"
      "lo + k \<le> total_size (h\<lparr>chip := c\<rparr>)" "off (op_next_addr h) < total_size (h\<lparr>chip := c\<rparr>)"
      "suspend_mode (h\<lparr>chip := c\<rparr>) \<and> lo + k < 16777216"
      using ok w assms(3,6) r g by simp_all
    have run: "hal_norflash_write_resume ram suspend h =
        hal_norflash_write_int ram (op_next_addr h) (op_next_buf h) (op_remain_len h) suspend (h\<lparr>chip := c\<rparr>)"
      using 1(1) g assms(2) ok by (simp add: hal_norflash_write_resume_def norflash_write_resume_def norflash_erase_resume_def Let_def)
    obtain ret' h' where 2: "hal_norflash_write_int ram (op_next_addr h) (op_next_buf h) (op_remain_len h) suspend (h\<lparr>chip := c\<rparr>) = Some (ret', h')"
      "hal_post ram suspend (prog (off (op_next_addr h)) (chunk ram (op_next_buf h) (op_remain_len h)) (cells c)) lo k
         (npages (op_next_addr h) (op_remain_len h)) (h\<lparr>chip := c\<rparr>) ret' h'"
      "ret' = HAL_NORFLASH_SUSPENDED \<longrightarrow> suspend_state h' = SUSPEND_STATE_PROGRAM \<and> fst (op_next_buf h') = fst (op_next_buf h)"
      using write_int_post [OF g' pre(1,2) assms(4,5) r pre(3-5), where suspend = suspend and ram = ram and p = "op_next_buf h"] by auto
    have "prog (off (op_next_addr h)) (chunk ram (op_next_buf h) (op_remain_len h)) (cells c) = hal_goal ram h"
      using assms(2) 1(2) chip_goal_idle [OF ok(2)] by (simp add: hal_goal_def)
    moreover have le: "npages (op_next_addr h) (op_remain_len h) + ready (polls (chip h)) \<le> hal_work h + ready (polls c)" using ok(3) w by linarith
    ultimately have "hal_post ram suspend (hal_goal ram h) lo k (hal_work h) h ret' h'"
      using hal_post_weaken [OF 2(2) le ok(4)] by simp
    with run 2(1,3) show ?thesis by simp
  qed
qed

lemma hal_erase_resume_post:
  assumes "hal_ok lo k h" "suspend_state h = SUSPEND_STATE_ERASE" "hal_work h \<le> ready (polls (chip h))"
    and "lo + k < total_size h"
  shows "\<exists>ret h'. hal_norflash_erase_resume suspend h = Some (ret, h') \<and>
    hal_post ram suspend (hal_goal ram h) lo k (hal_work h) h ret h' \<and>
    (ret = HAL_NORFLASH_SUSPENDED \<longrightarrow> suspend_state h' = SUSPEND_STATE_ERASE)"
proof -
  note ok = assms(1) [unfolded hal_ok_def]
  have g: "geom h" "opened h" "suspend_mode h" "within lo k (chip h)" "total_size h \<le> 16777216"
    and r: "lo \<le> off (op_next_addr h)" "off (op_next_addr h) + op_remain_len h \<le> lo + k"
    and al: "op_next_addr h mod 4096 = 0" "4096 dvd op_remain_len h"
    using ok assms(2) by (auto simp: geom_def)
  have w: "hal_work h = 1 + op_remain_len h div 4096" using assms(2) by (simp add: hal_work_def)
  have "0 < ready (polls (chip h))" using w assms(3) by linarith
  then obtain ret c where 1: "norflash_status_WIP_1_wait suspend (chip h) = Some (ret, c)" "chip_goal c = chip_goal (chip h)"
      "waited suspend ret (chip h) c" using wait_spec by blast
  have g': "geom (h\<lparr>chip := c\<rparr>)" using 1(3) g(1) by (intro geom_chip) (simp_all add: waited_def)
  show ?thesis
  proof (cases "ret = HAL_NORFLASH_SUSPENDED")
    case True
    then have "hal_norflash_erase_resume suspend h = Some (ret, h\<lparr>chip := c\<rparr>)"
      using 1(1) g assms(2) by (simp add: hal_norflash_erase_resume_def norflash_erase_resume_def Let_def)
    moreover have "hal_ok lo k (h\<lparr>chip := c\<rparr>)"
      using g' g r al assms(2) 1(3) True by (auto simp: hal_ok_def within_def waited_def)
    ultimately show ?thesis using 1(2,3) True assms(2)
      by (intro exI [of _ ret] exI [of _ "h\<lparr>chip := c\<rparr>"]) (auto simp: hal_post_def hal_goal_def hal_work_def waited_def)
  next
    case False
    then have ok: "ret = HAL_NORFLASH_OK" "running c = None" "Suc (ready (polls c)) = ready (polls (chip h))"
      "length (polls c) < length (polls (chip h))" using 1(3) by (auto simp: waited_def)
    have pre: "running (chip (h\<lparr>chip := c\<rparr>)) = None" "op_remain_len h div 4096 \<le> ready (polls (chip (h\<lparr>chip := c\<rparr>)))"
      "lo + k \<le> total_size (h\<lparr>chip := c\<rparr>)" "off (op_next_addr h) < total_size (h\<lparr>chip := c\<rparr>)"
      "suspend_mode (h\<lparr>chip := c\<rparr>) \<and> lo + k < 16777216" "op_remain_len h < total_size (h\<lparr>chip := c\<rparr>)"
      using ok w assms(3,4) r g by simp_all
    have run: "hal_norflash_erase_resume suspend h =
        hal_norflash_erase_int (op_next_addr h) (op_remain_len h) suspend (h\<lparr>chip := c\<rparr>)"
      using 1(1) g assms(2) ok by (simp add: hal_norflash_erase_resume_def norflash_erase_resume_def Let_def)
    obtain ret' h' where 2: "hal_norflash_erase_int (op_next_addr h) (op_remain_len h) suspend (h\<lparr>chip := c\<rparr>) = Some (ret', h')"
      "hal_post ram suspend (wipe (off (op_next_addr h)) (op_remain_len h) (cells c)) lo k
         (op_remain_len h div 4096) (h\<lparr>chip := c\<rparr>) ret' h'"
      "ret' = HAL_NORFLASH_SUSPENDED \<longrightarrow> suspend_state h' = SUSPEND_STATE_ERASE"
      using erase_int_post [OF g' pre(1,2) al r pre(3-6), where suspend = suspend and ram = ram] by auto
    have "wipe (off (op_next_addr h)) (op_remain_len h) (cells c) = hal_goal ram h"
      using assms(2) 1(2) chip_goal_idle [OF ok(2)] by (simp add: hal_goal_def)
    moreover have le: "op_remain_len h div 4096 + ready (polls (chip h)) \<le> hal_work h + ready (polls c)" using ok(3) w by linarith
    ultimately have "hal_post ram suspend (hal_goal ram h) lo k (hal_work h) h ret' h'"
      using hal_post_weaken [OF 2(2) le ok(4)] by simp
    with run 2(1,3) show ?thesis by simp
  qed
qed

section \<open>Whole operations\<close>

text \<open>What the caller does with a suspended operation: it resumes until it is done.\<close>

partial_function (option) hal_resume_all ::
  "('b \<Rightarrow> nat \<Rightarrow> byte) \<Rightarrow> bool \<Rightarrow> HAL_NORFLASH_RET_T \<Rightarrow> 'b norhal \<Rightarrow> (HAL_NORFLASH_RET_T \<times> 'b norhal) option" where
  "hal_resume_all ram suspend ret h = (if ret = HAL_NORFLASH_SUSPENDED then do {
       (ret, h) \<leftarrow> (if suspend_state h = SUSPEND_STATE_ERASE then hal_norflash_erase_resume suspend h
         else hal_norflash_write_resume ram suspend h);
       hal_resume_all ram suspend ret h }
     else Some (ret, h))"

lemma hal_post_trans:
  assumes "hal_post ram s goal lo k w h ret h1" "hal_post ram s' goal lo k (hal_work h1) h1 ret' h2"
    and "ret = HAL_NORFLASH_SUSPENDED" "s' \<Longrightarrow> s"
  shows "hal_post ram s goal lo k w h ret' h2"
  using assms by (auto simp: hal_post_def)

lemma hal_resume_all_done:
  assumes "hal_post ram s goal lo k w h ret h1" "w \<le> ready (polls (chip h))" "256 dvd lo" "256 dvd k" "lo + k < total_size h"
  shows "\<exists>h2. hal_resume_all ram s ret h1 = Some (HAL_NORFLASH_OK, h2) \<and> hal_post ram s goal lo k w h HAL_NORFLASH_OK h2"
  using assms(1)
proof (induction "length (polls (chip h1))" arbitrary: ret h1 rule: less_induct)
  case less
  show ?case
  proof (cases "ret = HAL_NORFLASH_SUSPENDED")
    case True
    note p = less.prems [unfolded hal_post_def]
    have ok: "hal_ok lo k h1" "hal_work h1 \<le> ready (polls (chip h1))" "lo + k < total_size h1" "hal_goal ram h1 = goal"
      "suspend_state h1 \<noteq> SUSPEND_STATE_NO" "s"
      using p True assms(2,5) by auto
    obtain ret2 h2 where 1: "(if suspend_state h1 = SUSPEND_STATE_ERASE then hal_norflash_erase_resume s h1
         else hal_norflash_write_resume ram s h1) = Some (ret2, h2)" "hal_post ram s goal lo k (hal_work h1) h1 ret2 h2"
    proof (cases "suspend_state h1")
      case SUSPEND_STATE_NO
      with ok(5) show ?thesis by simp
    next
      case SUSPEND_STATE_ERASE
      with hal_erase_resume_post [OF ok(1) SUSPEND_STATE_ERASE ok(2,3), of s ram] ok(4) that show ?thesis by auto
    next
      case SUSPEND_STATE_PROGRAM
      with hal_write_resume_post [OF ok(1) SUSPEND_STATE_PROGRAM ok(2) assms(3,4) ok(3), of ram s] ok(4) that show ?thesis by auto
    qed
    have post: "hal_post ram s goal lo k w h ret2 h2" by (rule hal_post_trans [OF less.prems 1(2) True])
    have run: "hal_resume_all ram s ret h1 = hal_resume_all ram s ret2 h2"
      using 1(1) True by (subst hal_resume_all.simps) simp
    show ?thesis
    proof (cases "ret2 = HAL_NORFLASH_SUSPENDED")
      case True
      then have "length (polls (chip h2)) < length (polls (chip h1))" using 1(2) by (auto simp: hal_post_def)
      from less.hyps [OF this post] run show ?thesis by simp
    next
      case False
      then have "ret2 = HAL_NORFLASH_OK" using 1(2) by (auto simp: hal_post_def)
      with run post show ?thesis by (subst (asm) (2) hal_resume_all.simps) simp
    qed
  next
    case False
    then have "ret = HAL_NORFLASH_OK" using less.prems by (auto simp: hal_post_def)
    with less.prems show ?thesis by (subst hal_resume_all.simps) simp
  qed
qed

text \<open>
  C27. A write whose range ends at least one page (256 bytes) before the end of the chip, and which is suspended and
  resumed any number of times, whatever the cells read as in between, ends, with one done reading of the chip for each page. Then exactly the bytes of the range are the old ones with the bits cleared that
  are clear in the buffer, and the layer is ready for the next operation. Nearer to the end of the chip a
  resume can be refused with a bad address, as for the last sector (\<open>hal_norflash_last_sector_stuck\<close>).
\<close>

theorem hal_norflash_write_completes:
  assumes "geom h" "suspend_state h = SUSPEND_STATE_NO" "running (chip h) = None"
    and "off a + n + 256 \<le> total_size h" "npages a n \<le> ready (polls (chip h))" "suspend \<longrightarrow> suspend_mode h"
  shows "\<exists>h'. do { (ret, h1) \<leftarrow> hal_norflash_write_suspend ram a p n suspend h; hal_resume_all ram suspend ret h1 } =
      Some (HAL_NORFLASH_OK, h') \<and>
    cells (chip h') = prog (off a) (chunk ram p n) (cells (chip h)) \<and>
    suspend_state h' = SUSPEND_STATE_NO \<and> running (chip h') = None"
proof -
  define lo k where "lo = off a div 256 * 256" and "k = (off a + n + 255) div 256 * 256 - lo"
  have tot: "total_size h \<le> 16777216" using assms(1) by (simp add: geom_def)
  have up: "x \<le> (x + 255) div 256 * 256" for x :: nat
  proof -
    have "(x + 255) mod 256 < 256" by simp
    then show ?thesis using div_mult_mod_eq [of "x + 255" 256] by linarith
  qed
  have 1: "(off a + n + 255) div 256 * 256 \<le> off a + n + 255" "off a + n \<le> (off a + n + 255) div 256 * 256"
    using div_times_less_eq_dividend up by blast+
  have 2: "lo \<le> off a" "off a div 256 * 256 \<le> (off a + n + 255) div 256 * 256"
    unfolding lo_def by (rule div_times_less_eq_dividend, intro mult_le_mono1 div_le_mono) simp
  have d: "256 dvd lo" "256 dvd k" by (simp_all add: lo_def k_def)
  have lk: "lo + k = (off a + n + 255) div 256 * 256" using 2(2) by (simp add: k_def lo_def)
  have r: "off a + n \<le> lo + k" unfolding lk by (rule 1(2))
  have "lo + k \<le> off a + n + 255" unfolding lk by (rule 1(1))
  with assms(4) have r2: "lo + k < total_size h" by linarith
  have ok: "hal_ok lo k h" using assms(1-3) by (simp add: hal_ok_def)
  have s: "(suspend \<and> suspend_mode h) = suspend" using assms(6) by auto
  have pre: "lo + k \<le> total_size h" "off a < total_size h" "lo + k < 16777216"
    using r2 assms(4) tot by simp_all
  obtain ret h1 where 3: "hal_norflash_write_suspend ram a p n suspend h = Some (ret, h1)"
    "hal_post ram suspend (prog (off a) (chunk ram p n) (cells (chip h))) lo k (npages a n) h ret h1"
    using hal_write_suspend_post [where suspend = suspend and ram = ram and p = p, OF ok assms(2,5) d 2(1) r pre(1,2)] pre(3)
    unfolding s by blast
  from hal_resume_all_done [OF 3(2) assms(5) d r2] obtain h2 where 4: "hal_resume_all ram suspend ret h1 = Some (HAL_NORFLASH_OK, h2)"
    "hal_post ram suspend (prog (off a) (chunk ram p n) (cells (chip h))) lo k (npages a n) h HAL_NORFLASH_OK h2" by blast
  note hal_post_done [OF 4(2)]
  moreover from this have "running (chip h2) = None" using 4(2) by (auto simp: hal_post_def hal_ok_def)
  ultimately show ?thesis using 3(1) 4(1) by auto
qed

text \<open>
  The same for erasing: whole sectors, in blocks where the range allows it, suspended any
  number of times, read 255 in the end, and nothing else has changed.
\<close>

theorem hal_norflash_erase_completes:
  assumes "geom h" "suspend_state h = SUSPEND_STATE_NO" "running (chip h) = None" "a mod 4096 = 0" "n mod 4096 = 0"
    and "off a + n + 256 \<le> total_size h" "n div 4096 \<le> ready (polls (chip h))" "suspend \<longrightarrow> suspend_mode h"
  shows "\<exists>h'. do { (ret, h1) \<leftarrow> hal_norflash_erase_suspend a n suspend h; hal_resume_all ram suspend ret h1 } =
      Some (HAL_NORFLASH_OK, h') \<and>
    cells (chip h') = wipe (off a) n (cells (chip h)) \<and>
    suspend_state h' = SUSPEND_STATE_NO \<and> running (chip h') = None"
proof -
  have tot: "total_size h \<le> 16777216" using assms(1) by (simp add: geom_def)
  have al: "off a mod 4096 = 0" using assms(4) by simp
  have "x mod 4096 = 0 \<Longrightarrow> 256 dvd x" for x :: nat by (rule dvd_trans [of _ 4096]) (simp_all add: dvd_eq_mod_eq_0)
  then have d: "256 dvd off a" "256 dvd n" using al assms(5) by simp_all
  have d4: "4096 dvd n" using assms(5) by (simp add: dvd_eq_mod_eq_0)
  have ok: "hal_ok (off a) n h" using assms(1-3) by (simp add: hal_ok_def)
  have s: "(suspend \<and> suspend_mode h) = suspend" using assms(8) by auto
  have pre: "off a + n \<le> total_size h" "off a < total_size h" "off a + n < 16777216"
     "n < total_size h" "off a + n < total_size h" using assms(6) tot by simp_all
  obtain ret h1 where 3: "hal_norflash_erase_suspend a n suspend h = Some (ret, h1)"
    "hal_post ram suspend (wipe (off a) n (cells (chip h))) (off a) n (n div 4096) h ret h1"
    using hal_erase_suspend_post [where suspend = suspend and ram = ram, OF ok assms(2,7,4) d4 order_refl order_refl pre(1,2) _ pre(4)] pre(3)
    unfolding s by blast
  from hal_resume_all_done [OF 3(2) assms(7) d pre(5)] obtain h2 where 4: "hal_resume_all ram suspend ret h1 = Some (HAL_NORFLASH_OK, h2)"
    "hal_post ram suspend (wipe (off a) n (cells (chip h))) (off a) n (n div 4096) h HAL_NORFLASH_OK h2" by blast
  note hal_post_done [OF 4(2)]
  moreover from this have "running (chip h2) = None" using 4(2) by (auto simp: hal_post_def hal_ok_def)
  ultimately show ?thesis using 3(1) 4(1) by auto
qed

section \<open>The last sector\<close>

lemma erase_sector_suspended:
  assumes "geom h" "running (chip h) = None" "polls (chip h) = WIP_1 True torn # ps" "off a mod 4096 = 0"
  shows "erase_loop True 4096 a HAL_NORFLASH_OK h = Some (HAL_NORFLASH_SUSPENDED, 0, add32 a 4096,
    h\<lparr>chip := (chip h)\<lparr>cells := overlay (off a) 4096 torn (cells (chip h)), running := Some (off a, 4096, \<lambda>_. 255), polls := ps\<rparr>\<rparr>)"
proof -
  have g: "block_size h = 32768" "sector_size h = 4096" using assms(1) by (simp_all add: geom_def)
  have lo: "(a AND HAL_NORFLASH_ADDR_MASK) div 4096 * 4096 = off a"
    unfolding mask24 using div_mult_mod_eq [of "off a" 4096] assms(4) by linarith
  have "norflash_erase a DRV_NORFLASH_ERASE_SECTOR True (chip h) = Some (HAL_NORFLASH_SUSPENDED,
      (chip h)\<lparr>cells := overlay (off a) 4096 torn (cells (chip h)), running := Some (off a, 4096, \<lambda>_. 255), polls := ps\<rparr>)"
    using assms(2,3) by (simp add: norflash_erase_def chip_erase_def chip_start_def lo norflash_status_WIP_1_wait_def chip_tear_def)
  then show ?thesis by (subst erase_loop.simps, subst erase_loop.simps) (simp add: g)
qed

text \<open>
  The last sector of a chip cannot be erased with suspension: when the erase is interrupted, the
  address of the rest is the end of the chip. After the sector has been erased, resuming takes this for
  a bad address, although nothing is left to do, and the layer stays in the suspended state: every
  later erase or write is refused.
\<close>

theorem hal_norflash_last_sector_stuck:
  assumes "geom h" "suspend_state h = SUSPEND_STATE_NO" "running (chip h) = None" "suspend_mode h"
    and "polls (chip h) = WIP_1 True torn # WIP_0 # ps"
    and "off a mod 4096 = 0" "off a + 4096 = total_size h" "4096 < total_size h" "total_size h < 16777216"
  shows "\<exists>h1 h2. hal_norflash_erase_suspend a 4096 True h = Some (HAL_NORFLASH_SUSPENDED, h1) \<and>
    hal_norflash_erase_resume True h1 = Some (HAL_NORFLASH_BAD_ADDR, h2) \<and>
    cells (chip h2) = wipe (off a) 4096 (cells (chip h)) \<and>
    hal_norflash_erase_suspend b n s h2 = Some (HAL_NORFLASH_BAD_OP, h2) \<and>
    hal_norflash_write_suspend ram b p n s h2 = Some (HAL_NORFLASH_BAD_OP, h2)"
proof -
  let ?c = "(chip h)\<lparr>cells := overlay (off a) 4096 torn (cells (chip h)), running := Some (off a, 4096, \<lambda>_. 255), polls := WIP_0 # ps\<rparr>"
  let ?h1 = "h\<lparr>chip := ?c, suspend_state := SUSPEND_STATE_ERASE, op_next_addr := add32 a 4096, op_remain_len := 0\<rparr>"
  let ?h2 = "?h1\<lparr>chip := (chip_finish ?c)\<lparr>polls := ps\<rparr>\<rparr>"
  have g: "opened h" "sector_size h = 4096" using assms(1) by (simp_all add: geom_def)
  have a: "a mod 4096 = 0" using assms(6) by simp
  have "sector_align 4096 a 4096 = (a, 4096)" using a by (rule sector_align_id) simp
  moreover have "hal_norflash_check a 4096 h = HAL_NORFLASH_OK" using assms(7) by (intro hal_check_ok) simp_all
  ultimately have 1: "hal_norflash_erase_suspend a 4096 True h = Some (HAL_NORFLASH_SUSPENDED, ?h1)"
    using assms(2,4,8) g erase_sector_suspended [OF assms(1,3,5,6)]
    by (simp add: hal_norflash_erase_suspend_def hal_norflash_erase_int_def)
  have end_of: "off (add32 a 4096) = total_size h"
    using off_plus [of a 4096] assms(7,9) by (simp add: off_add)
  have wait: "norflash_erase_resume True ?c = Some (HAL_NORFLASH_OK, (chip_finish ?c)\<lparr>polls := ps\<rparr>)"
    by (simp add: norflash_erase_resume_def norflash_status_WIP_1_wait_def chip_finish_def)
  have bad: "hal_norflash_check (add32 a 4096) 0 ?h2 = HAL_NORFLASH_BAD_ADDR"
    using end_of by (simp add: hal_norflash_check_def mask24)
  have 2: "hal_norflash_erase_resume True ?h1 = Some (HAL_NORFLASH_BAD_ADDR, ?h2)"
    using g assms(4) wait bad
    by (simp add: hal_norflash_erase_resume_def Let_def) (simp add: hal_norflash_erase_int_def)
  have "cells (chip ?h2) = wipe (off a) 4096 (cells (chip h))"
    by (auto simp: chip_finish_def overlay_def fun_eq_iff)
  moreover have "hal_norflash_erase_suspend b n s ?h2 = Some (HAL_NORFLASH_BAD_OP, ?h2)"
    "hal_norflash_write_suspend ram b p n s ?h2 = Some (HAL_NORFLASH_BAD_OP, ?h2)"
    using g by (simp_all add: hal_norflash_erase_suspend_def hal_norflash_write_suspend_def)
  ultimately show ?thesis using 1 2 by blast
qed

section \<open>Reading and geometry\<close>

text \<open>Reading goes through the receive queue of the controller, 8 bytes at a time.\<close>

abbreviation NORFLASHIP_RXFIFO_SIZE :: nat where "NORFLASHIP_RXFIFO_SIZE \<equiv> 8"

definition norflash_read :: "nat \<Rightarrow> nat \<Rightarrow> norchip \<Rightarrow> byte list option" where
  "norflash_read start_address len c = (if NORFLASHIP_RXFIFO_SIZE < len then None
     else Some (map (\<lambda>i. cells c (off (start_address + i))) [0..<len]))"

fun read_loop :: "nat \<Rightarrow> nat \<Rightarrow> norchip \<Rightarrow> byte list" where
  "read_loop remain_len current_address c = (if remain_len = 0 then [] else
     (let read_size = (if NORFLASHIP_RXFIFO_SIZE < remain_len then NORFLASHIP_RXFIFO_SIZE else remain_len) in
      (case norflash_read current_address read_size c of None \<Rightarrow> [] | Some d \<Rightarrow> d) @
      read_loop (remain_len - read_size) (add32 current_address read_size) c))"

declare read_loop.simps [simp del]

definition hal_norflash_read :: "nat \<Rightarrow> nat \<Rightarrow> 'b norhal \<Rightarrow> (HAL_NORFLASH_RET_T \<times> byte list) option" where
  "hal_norflash_read start_address len h = (if \<not> opened h then None
     else if hal_norflash_check start_address len h \<noteq> HAL_NORFLASH_OK
     then Some (hal_norflash_check start_address len h, [])
     else Some (HAL_NORFLASH_OK, read_loop len start_address (chip h)))"

lemma read_loop_eq: "read_loop n a c = map (\<lambda>i. cells c (off (a + i))) [0..<n]"
proof (induction n arbitrary: a rule: less_induct)
  case (less n)
  show ?case
  proof (cases "n = 0")
    case True
    then show ?thesis by (subst read_loop.simps) simp
  next
    case False
    define w where "w = (if 8 < n then 8 else n)"
    have w: "0 < w" "w \<le> 8" "w \<le> n" using False by (auto simp: w_def)
    have "read_loop n a c = map (\<lambda>i. cells c (off (a + i))) [0..<w] @ read_loop (n - w) (add32 a w) c"
      using False w by (subst read_loop.simps) (simp add: w_def [symmetric] norflash_read_def Let_def)
    also have "read_loop (n - w) (add32 a w) c = map (\<lambda>i. cells c (off (a + (w + i)))) [0..<n - w]"
      using less.IH [of "n - w"] w by (simp add: off_add_cong add.assoc)
    also have "map (\<lambda>i. cells c (off (a + i))) [0..<w] @ map (\<lambda>i. cells c (off (a + (w + i)))) [0..<n - w] =
        map (\<lambda>i. cells c (off (a + i))) [0..<n]"
      using w(3) by (intro nth_equalityI) (auto simp: nth_append)
    finally show ?thesis .
  qed
qed

lemma hal_norflash_read_cells:
  assumes "opened h" "off a + n \<le> total_size h" "off a < total_size h" "total_size h \<le> 16777216"
  shows "hal_norflash_read a n h = Some (HAL_NORFLASH_OK, map (\<lambda>i. cells (chip h) (off a + i)) [0..<n])"
proof -
  have "off (a + i) = off a + i" if "i < n" for i using that assms(2,4) by (intro off_plus) simp
  then show ?thesis using assms by (simp add: hal_norflash_read_def hal_check_ok read_loop_eq)
qed

section \<open>Instances\<close>

text \<open>A chip of one megabyte, erased, whose waits are interrupted now and then.\<close>

definition demo_hal :: "poll list \<Rightarrow> nat norhal" where
  "demo_hal ps = \<lparr>opened = True, total_size = 1048576, block_size = 32768, sector_size = 4096, page_size = 256, suspend_mode = True,
     suspend_state = SUSPEND_STATE_NO, op_next_addr = 0, op_next_buf = (0, 0), op_remain_len = 0,
     chip = \<lparr>cells = \<lambda>_. 255, running = None, chip_size = 1048576, polls = ps\<rparr>\<rparr>"

lemma demo_hal_geom: "geom (demo_hal ps)" "suspend_state (demo_hal ps) = SUSPEND_STATE_NO" "running (chip (demo_hal ps)) = None"
  "suspend_mode (demo_hal ps)" "total_size (demo_hal ps) = 1048576" "polls (chip (demo_hal ps)) = ps"
  "cells (chip (demo_hal ps)) = (\<lambda>_. 255)"
  by (simp_all add: demo_hal_def geom_def)

theorem hal_norflash_write_completes_witness:
  "\<exists>h'. do { (ret, h1) \<leftarrow> hal_norflash_write_suspend (\<lambda>_ _. 0) 4090 (0, 0) 300 True
        (demo_hal [WIP_1 True (\<lambda>_. 7), WIP_0, WIP_1 False (\<lambda>_. 3), WIP_0, WIP_0]);
      hal_resume_all (\<lambda>_ _. 0) True ret h1 } = Some (HAL_NORFLASH_OK, h') \<and>
    cells (chip h') 4090 = 0 \<and> cells (chip h') 4389 = 0 \<and> cells (chip h') 4390 = 255"
proof -
  let ?h = "demo_hal [WIP_1 True (\<lambda>_. 7), WIP_0, WIP_1 False (\<lambda>_. 3), WIP_0, WIP_0]"
  have "npages 4090 300 \<le> ready (polls (chip ?h))" by (simp add: npages_def demo_hal_geom)
  from hal_norflash_write_completes [OF demo_hal_geom(1-3) _ this, of True "\<lambda>_ _. 0" "(0, 0)"]
  obtain h' where "do { (ret, h1) \<leftarrow> hal_norflash_write_suspend (\<lambda>_ _. 0) 4090 (0, 0) 300 True ?h;
      hal_resume_all (\<lambda>_ _. 0) True ret h1 } = Some (HAL_NORFLASH_OK, h')"
    "cells (chip h') = prog 4090 (chunk (\<lambda>_ _. 0) (0 :: nat, 0) 300) (\<lambda>_. 255)"
    by (auto simp: demo_hal_geom)
  then show ?thesis by (intro exI [of _ h']) (simp add: prog_def chunk_def)
qed

theorem hal_norflash_erase_completes_witness:
  "\<exists>h'. do { (ret, h1) \<leftarrow> hal_norflash_erase_suspend 28672 36864 True (demo_hal [WIP_0, WIP_1 True (\<lambda>_. 7), WIP_0, WIP_0, WIP_0, WIP_0, WIP_0, WIP_0, WIP_0, WIP_0]);
      hal_resume_all (\<lambda>_ _. 0) True ret h1 } = Some (HAL_NORFLASH_OK, h') \<and> cells (chip h') 40000 = 255"
proof -
  let ?h = "demo_hal [WIP_0, WIP_1 True (\<lambda>_. 7), WIP_0, WIP_0, WIP_0, WIP_0, WIP_0, WIP_0, WIP_0, WIP_0]"
  have "36864 div 4096 \<le> ready (polls (chip ?h))" by (simp add: demo_hal_geom)
  from hal_norflash_erase_completes [OF demo_hal_geom(1-3) _ _ _ this, of 28672 True "\<lambda>_ _. 0"]
  show ?thesis by (auto simp: demo_hal_geom overlay_def)
qed

theorem hal_norflash_last_sector_stuck_witness:
  "\<exists>h1 h2. hal_norflash_erase_suspend 1044480 4096 True (demo_hal [WIP_1 True (\<lambda>_. 7), WIP_0]) = Some (HAL_NORFLASH_SUSPENDED, h1) \<and>
    hal_norflash_erase_resume True h1 = Some (HAL_NORFLASH_BAD_ADDR, h2) \<and>
    hal_norflash_erase_suspend 0 4096 True h2 = Some (HAL_NORFLASH_BAD_OP, h2)"
  using hal_norflash_last_sector_stuck [OF demo_hal_geom(1-4) demo_hal_geom(6), where a = 1044480 and b = 0 and n = 4096 and s = True and torn = "\<lambda>_. 7" and ps = "[]" and ram = "\<lambda>_ _. 0" and p = "(0, 0)"]
  by (auto simp: demo_hal_geom)

end
