(* ===== verification/FlashApi.thy ===== *)
theory FlashApi
  imports NorFlash
begin

text \<open>
  The queue of flash operations: \<open>services/norflash_api/norflash_api.cpp\<close> in the configuration
  \<open>FLASH_API_HIGHPERFORMANCE\<close> with \<open>FLASH_SUSPEND\<close> (as in \<open>config/2300_codec/target.mk\<close>). Every
  module that keeps data in flash has a list of erase and write operations, newest first; the
  nodes and the sector buffers of writes come from two static pools. Reading looks at the list
  before the flash. While the system is idle, operations are carried out from the tail; one that
  is interrupted stays at the tail, locked, and is resumed later.

  A node is its index in \<open>opera_info_list\<close>, a buffer its index in \<open>data_list\<close>, a module its index in
  \<open>mod_info\<close>. \<open>None\<close> is a failing assertion, an access outside the object a pointer points to, a
  division by zero, or a loop that never ends. Calls of the callback are recorded; what it does is not
  modelled, nor are the supply settings around flash commands and the registration as a sleep hook.
\<close>

section \<open>Data\<close>

datatype NORFLASH_API_RET_T = NORFLASH_API_OK | NORFLASH_API_BUFFER_FULL | NORFLASH_API_BAD_DEV_ID
  | NORFLASH_API_BAD_MOD_ID | NORFLASH_API_BAD_BUFF_LEN | NORFLASH_API_BAD_ADDR | NORFLASH_API_BAD_LEN
  | NORFLASH_API_ERR_UNINIT | NORFLASH_API_ERR_HASINIT | NORFLASH_API_ERR

datatype NORFLASH_API_OPRATION_TYPE = NORFLASH_API_WRITTING | NORFLASH_API_ERASING

datatype NORFLASH_API_STATE = NORFLASH_API_STATE_IDLE | NORFLASH_API_STATE_WRITTING
  | NORFLASH_API_STATE_WRITTING_SUSPEND | NORFLASH_API_STATE_WRITTING_RESUME | NORFLASH_API_STATE_ERASE
  | NORFLASH_API_STATE_ERASE_SUSPEND | NORFLASH_API_STATE_ERASE_RESUME

abbreviation NORFLASH_API_MODULE_ID_COUNT :: nat where "NORFLASH_API_MODULE_ID_COUNT \<equiv> 8"
abbreviation HAL_NORFLASH_ID_NUM :: nat where "HAL_NORFLASH_ID_NUM \<equiv> 1"
abbreviation NORFLASH_API_WRITE_BUFF_LEN :: nat where "NORFLASH_API_WRITE_BUFF_LEN \<equiv> 4"
abbreviation NORFLASH_API_OPRA_LIST_LEN :: nat where "NORFLASH_API_OPRA_LIST_LEN \<equiv> 15"
abbreviation NORFLASH_API_SECTOR_SIZE :: nat where "NORFLASH_API_SECTOR_SIZE \<equiv> 4096"

text \<open>A buffer handed to the hardware layer: one of the pool, or the one of the caller.\<close>

datatype bufref = DATA nat | CALLER

record OPRA_INFO =
  op_type :: NORFLASH_API_OPRATION_TYPE
  op_addr :: nat
  op_len :: nat
  w_offs :: nat
  w_len :: nat
  op_buff :: "nat option"
  op_lock :: bool
  op_next :: "nat option"

record MODULE_INFO =
  mod_inited :: bool
  mod_base_addr :: nat
  mod_len :: nat
  mod_block_len :: nat
  mod_sector_len :: nat
  mod_page_len :: nat
  buff_len :: nat
  cb_func :: bool
  opera_info :: "nat option"
  cur_opera_info :: "nat option"
  mod_state :: NORFLASH_API_STATE

record NORFLASH_API_OPERA_RESULT =
  res_type :: NORFLASH_API_OPRATION_TYPE
  res_addr :: nat
  res_len :: nat
  remain_num :: nat

record api =
  api_inited :: bool
  mod_info :: "nat \<Rightarrow> MODULE_INFO"
  cur_mod_id :: nat
  cur_mod :: "nat option"
  op_used :: "nat \<Rightarrow> bool"
  op_node :: "nat \<Rightarrow> OPRA_INFO"
  data_used :: "nat \<Rightarrow> bool"
  data_buf :: "nat \<Rightarrow> nat \<Rightarrow> byte"
  suspend_number :: nat
  flash_hal :: "bufref norhal"
  cb_calls :: "(nat \<times> NORFLASH_API_OPERA_RESULT) list"

definition set_node :: "nat \<Rightarrow> (OPRA_INFO \<Rightarrow> OPRA_INFO) \<Rightarrow> api \<Rightarrow> api" where
  "set_node i f s = s\<lparr>op_node := (op_node s)(i := f (op_node s i))\<rparr>"

definition set_mod :: "nat \<Rightarrow> (MODULE_INFO \<Rightarrow> MODULE_INFO) \<Rightarrow> api \<Rightarrow> api" where
  "set_mod m f s = s\<lparr>mod_info := (mod_info s)(m := f (mod_info s m))\<rparr>"

definition set_data :: "nat \<Rightarrow> (nat \<Rightarrow> byte) \<Rightarrow> api \<Rightarrow> api" where
  "set_data b f s = s\<lparr>data_buf := (data_buf s)(b := f)\<rparr>"

definition ram_of :: "api \<Rightarrow> byte list \<Rightarrow> bufref \<Rightarrow> nat \<Rightarrow> byte" where
  "ram_of s caller r i = (case r of DATA b \<Rightarrow> data_buf s b i | CALLER \<Rightarrow> caller ! i)"

text \<open>The flash as the processor sees it, mapped into its address space.\<close>

definition flash_byte :: "api \<Rightarrow> nat \<Rightarrow> byte" where
  "flash_byte s a = cells (chip (flash_hal s)) (a AND HAL_NORFLASH_ADDR_MASK)"

definition flash_bytes :: "api \<Rightarrow> nat \<Rightarrow> nat \<Rightarrow> byte list" where
  "flash_bytes s a n = map (\<lambda>i. flash_byte s (a + i)) [0..<n]"

text \<open>\<open>memcpy\<close> between a sector buffer and a list of bytes; outside the buffer is \<open>None\<close>.\<close>

definition data_get :: "api \<Rightarrow> nat option \<Rightarrow> nat \<Rightarrow> nat \<Rightarrow> byte list option" where
  "data_get s b i n = (case b of None \<Rightarrow> None
     | Some b \<Rightarrow> if i + n \<le> NORFLASH_API_SECTOR_SIZE then Some (map (\<lambda>j. data_buf s b (i + j)) [0..<n]) else None)"

definition data_put :: "nat option \<Rightarrow> nat \<Rightarrow> byte list \<Rightarrow> api \<Rightarrow> api option" where
  "data_put b i d s = (case b of None \<Rightarrow> None
     | Some b \<Rightarrow> if i + length d \<le> NORFLASH_API_SECTOR_SIZE
         then Some (set_data b (overlay i (length d) (\<lambda>x. d ! (x - i)) (data_buf s b)) s) else None)"

section \<open>The pools\<close>

definition norflash_api_malloc_op :: "api \<Rightarrow> nat option \<times> api" where
  "norflash_api_malloc_op s = (case find (\<lambda>i. \<not> op_used s i) [0..<NORFLASH_API_OPRA_LIST_LEN] of
     None \<Rightarrow> (None, s) | Some i \<Rightarrow> (Some i, s\<lparr>op_used := (op_used s)(i := True)\<rparr>))"

text \<open>A buffer of another size than a sector is asked of a heap that is never set up.\<close>

definition norflash_api_malloc_data :: "nat \<Rightarrow> api \<Rightarrow> nat option \<times> api" where
  "norflash_api_malloc_data n s = (if n \<noteq> NORFLASH_API_SECTOR_SIZE then (None, s)
     else case find (\<lambda>i. \<not> data_used s i) [0..<NORFLASH_API_WRITE_BUFF_LEN] of
       None \<Rightarrow> (None, s) | Some i \<Rightarrow> (Some i, s\<lparr>data_used := (data_used s)(i := True)\<rparr>))"

definition norflash_api_free_op :: "nat \<Rightarrow> api \<Rightarrow> api" where
  "norflash_api_free_op i s = s\<lparr>op_used := (op_used s)(i := False)\<rparr>"

definition norflash_api_free_data :: "nat option \<Rightarrow> api \<Rightarrow> api" where
  "norflash_api_free_data b s = (case b of None \<Rightarrow> s | Some b \<Rightarrow> s\<lparr>data_used := (data_used s)(b := False)\<rparr>)"

section \<open>Walks over a list\<close>

text \<open>The last node and the one before it (the first one if there is only one).\<close>

partial_function (option) tail_loop ::
  "api \<Rightarrow> nat option \<Rightarrow> nat option \<Rightarrow> nat option \<Rightarrow> (nat option \<times> nat option) option" where
  "tail_loop s opera_node pre_node tmp = (if tmp = None then Some (opera_node, pre_node)
     else tail_loop s tmp (if op_next (op_node s (the tmp)) \<noteq> None then tmp else pre_node) (op_next (op_node s (the tmp))))"

definition get_tail :: "nat \<Rightarrow> bool \<Rightarrow> api \<Rightarrow> (nat option \<times> api) option" where
  "get_tail m is_remove s = do {
     (opera_node, pre_node) \<leftarrow> tail_loop s None (opera_info (mod_info s m)) (opera_info (mod_info s m));
     let s = (case pre_node of Some p \<Rightarrow> if is_remove then set_node p (op_next_update (\<lambda>_. None)) s else s | None \<Rightarrow> s);
     Some (opera_node, case opera_node of None \<Rightarrow> s | Some i \<Rightarrow> set_node i (op_lock_update (\<lambda>_. True)) s) }"

text \<open>The predecessor of a node, if the node is found.\<close>

partial_function (option) del_loop :: "api \<Rightarrow> nat \<Rightarrow> nat option \<Rightarrow> nat option \<Rightarrow> nat option option option" where
  "del_loop s node pre_node tmp = (if tmp = None then Some None
     else if tmp = Some node then Some (Some pre_node)
     else del_loop s node (if op_next (op_node s (the tmp)) \<noteq> None then tmp else pre_node) (op_next (op_node s (the tmp))))"

definition opera_del :: "nat \<Rightarrow> nat \<Rightarrow> api \<Rightarrow> api option" where
  "opera_del m node s = do {
     found \<leftarrow> del_loop s node (opera_info (mod_info s m)) (opera_info (mod_info s m));
     case found of None \<Rightarrow> Some s | Some pre_node \<Rightarrow> do {
       s \<leftarrow> (if opera_info (mod_info s m) = Some node then Some (set_mod m (opera_info_update (\<lambda>_. None)) s)
            else case pre_node of None \<Rightarrow> None | Some p \<Rightarrow> Some (set_node p (op_next_update (\<lambda>_. None)) s));
       let s = norflash_api_free_data (op_buff (op_node s node)) s;
       Some (norflash_api_free_op node s) } }"

partial_function (option) count_loop :: "(OPRA_INFO \<Rightarrow> bool) \<Rightarrow> api \<Rightarrow> nat \<Rightarrow> nat option \<Rightarrow> nat option" where
  "count_loop P s count tmp = (if tmp = None then Some count
     else count_loop P s (if P (op_node s (the tmp)) then count + 1 else count) (op_next (op_node s (the tmp))))"

definition get_ew_count :: "nat \<Rightarrow> api \<Rightarrow> nat option" where
  "get_ew_count m s = count_loop (\<lambda>_. True) s 0 (opera_info (mod_info s m))"

definition get_w_count :: "nat \<Rightarrow> api \<Rightarrow> nat option" where
  "get_w_count m s = count_loop (\<lambda>n. op_type n = NORFLASH_API_WRITTING) s 0 (opera_info (mod_info s m))"

definition get_e_count :: "nat \<Rightarrow> api \<Rightarrow> nat option" where
  "get_e_count m s = count_loop (\<lambda>n. op_type n = NORFLASH_API_ERASING) s 0 (opera_info (mod_info s m))"

text \<open>The module to work on: the current one, else the next one in turn that has operations.\<close>

primrec cur_mod_loop :: "nat \<Rightarrow> nat \<Rightarrow> api \<Rightarrow> nat option option" where
  "cur_mod_loop 0 tmp_mod_id s = Some None"
| "cur_mod_loop (Suc i) tmp_mod_id s = do {
     let tmp_mod_id = (if NORFLASH_API_MODULE_ID_COUNT \<le> tmp_mod_id + 1 then 0 else tmp_mod_id + 1);
     n \<leftarrow> (if mod_inited (mod_info s tmp_mod_id) then get_ew_count tmp_mod_id s else Some 0);
     if 0 < n then Some (Some tmp_mod_id) else cur_mod_loop i tmp_mod_id s }"

definition get_cur_mod :: "api \<Rightarrow> nat option option" where
  "get_cur_mod s = (case cur_mod s of Some m \<Rightarrow> Some (Some m)
     | None \<Rightarrow> cur_mod_loop NORFLASH_API_MODULE_ID_COUNT (cur_mod_id s) s)"

definition get_mod_id :: "nat \<Rightarrow> nat" where
  "get_mod_id m = (case find (\<lambda>i. i = m) [0..<NORFLASH_API_MODULE_ID_COUNT] of Some i \<Rightarrow> i | None \<Rightarrow> NORFLASH_API_MODULE_ID_COUNT)"

section \<open>Reading and comparing\<close>

text \<open>The newest node of a sector.\<close>

partial_function (option) find_loop :: "api \<Rightarrow> nat \<Rightarrow> nat option \<Rightarrow> nat option option" where
  "find_loop s sec_start tmp = (if tmp = None then Some None
     else if op_addr (op_node s (the tmp)) = sec_start then Some tmp
     else find_loop s sec_start (op_next (op_node s (the tmp))))"

definition sector_start :: "nat \<Rightarrow> nat \<Rightarrow> nat option" where
  "sector_start sec_len addr = (if sec_len = 0 then None else Some (addr div sec_len * sec_len))"

definition opera_read :: "nat \<Rightarrow> nat \<Rightarrow> nat \<Rightarrow> api \<Rightarrow> byte list option" where
  "opera_read m addr len s = do {
     sec_start \<leftarrow> sector_start (mod_sector_len (mod_info s m)) addr;
     node \<leftarrow> find_loop s sec_start (opera_info (mod_info s m));
     case node of None \<Rightarrow> Some (flash_bytes s addr len)
     | Some i \<Rightarrow> if op_type (op_node s i) = NORFLASH_API_WRITTING
         then data_get s (op_buff (op_node s i)) (addr - sec_start) len
         else Some (replicate len 255) }"

text \<open>The result is that of \<open>memcmp\<close>: zero if and only if the bytes agree.\<close>

definition opera_cmp :: "nat \<Rightarrow> nat \<Rightarrow> byte list \<Rightarrow> api \<Rightarrow> bool option" where
  "opera_cmp m addr buff s = do { d \<leftarrow> opera_read m addr (length buff) s; Some (d = buff) }"

section \<open>Adding operations\<close>

text \<open>
  The loop that takes out the operations of the sector that an erase makes pointless. The result
  says whether the erase is already under way.
\<close>

partial_function (option) e_del_loop :: "nat \<Rightarrow> nat \<Rightarrow> nat option \<Rightarrow> nat option \<Rightarrow> api \<Rightarrow> (bool \<times> api) option" where
  "e_del_loop m addr pre_node tmp s = (if tmp = None then Some (False, s) else do {
     let nd = op_node s (the tmp);
     let pre' = (if op_next nd \<noteq> None then tmp else pre_node);
     if op_addr nd = addr \<and> \<not> op_lock nd then do {
       s \<leftarrow> (if opera_info (mod_info s m) = tmp then Some (set_mod m (opera_info_update (\<lambda>_. op_next nd)) s)
            else case pre_node of None \<Rightarrow> None | Some p \<Rightarrow> Some (set_node p (op_next_update (\<lambda>_. op_next nd)) s));
       let s = (if op_type nd = NORFLASH_API_WRITTING then norflash_api_free_data (op_buff nd) s else s);
       e_del_loop m addr pre' (op_next nd) (norflash_api_free_op (the tmp) s) }
     else if op_addr nd = addr \<and> op_type nd = NORFLASH_API_ERASING then Some (True, s)
     else e_del_loop m addr pre' (op_next nd) s })"

definition e_opera_add :: "nat \<Rightarrow> nat \<Rightarrow> nat \<Rightarrow> api \<Rightarrow> (int \<times> api) option" where
  "e_opera_add m addr len s = do {
     (merged, s) \<leftarrow> e_del_loop m addr (opera_info (mod_info s m)) (opera_info (mod_info s m)) s;
     if merged then Some (0, s) else
     (case norflash_api_malloc_op s of (None, s) \<Rightarrow> Some (1, s)
      | (Some i, s) \<Rightarrow> Some (0, set_mod m (opera_info_update (\<lambda>_. Some i))
          (set_node i (\<lambda>_. \<lparr>op_type = NORFLASH_API_ERASING, op_addr = addr, op_len = len, w_offs = 0, w_len = 0,
             op_buff = None, op_lock = False, op_next = opera_info (mod_info s m)\<rparr>) s))) }"

text \<open>The newest node of the sector that is an erase or a write that is not under way.\<close>

partial_function (option) w_find_loop :: "api \<Rightarrow> nat \<Rightarrow> nat option \<Rightarrow> nat option option" where
  "w_find_loop s sec_start tmp = (if tmp = None then Some None
     else if op_addr (op_node s (the tmp)) = sec_start \<and>
         (op_type (op_node s (the tmp)) = NORFLASH_API_WRITTING \<longrightarrow> \<not> op_lock (op_node s (the tmp))) then Some tmp
     else w_find_loop s sec_start (op_next (op_node s (the tmp))))"

definition w_merge :: "nat \<Rightarrow> nat \<Rightarrow> byte list \<Rightarrow> api \<Rightarrow> api option" where
  "w_merge i offs buff s = do {
     let nd = op_node s i;
     let len = length buff;
     s \<leftarrow> data_put (op_buff nd) offs buff s;
     let start = (if w_offs nd \<le> offs then w_offs nd else offs);
     let end1 = w_offs nd + w_len nd;
     let end2 = offs + len;
     let e = (if end2 \<le> end1 then end1 else end2);
     Some (set_node i (\<lambda>n. n\<lparr>w_offs := start, w_len := e - start\<rparr>) s) }"

definition w_opera_add :: "nat \<Rightarrow> nat \<Rightarrow> byte list \<Rightarrow> api \<Rightarrow> (int \<times> api) option" where
  "w_opera_add m addr buff s = do {
     let sec_len = mod_sector_len (mod_info s m);
     sec_start \<leftarrow> sector_start sec_len addr;
     let offs = addr - sec_start;
     node \<leftarrow> w_find_loop s sec_start (opera_info (mod_info s m));
     let is_e = (case node of None \<Rightarrow> False | Some i \<Rightarrow> op_type (op_node s i) = NORFLASH_API_ERASING);
     if node \<noteq> None \<and> \<not> is_e then do { s \<leftarrow> w_merge (the node) offs buff s; Some (0, s) }
     else
     (case norflash_api_malloc_op s of (None, s) \<Rightarrow> Some (1, s)
      | (Some i, s) \<Rightarrow> do {
          let s = set_node i (\<lambda>n. n\<lparr>op_type := NORFLASH_API_WRITTING, op_addr := sec_start, op_len := sec_len,
            w_offs := offs, w_len := length buff\<rparr>) s;
          let (b, s) = norflash_api_malloc_data sec_len s;
          let s = set_node i (op_buff_update (\<lambda>_. b)) s;
          (case b of None \<Rightarrow> Some (1, norflash_api_free_op i s)
           | Some k \<Rightarrow> do {
               let s = set_data k (overlay 0 sec_len (\<lambda>x. if is_e then 255 else flash_byte s (sec_start + x)) (data_buf s k)) s;
               s \<leftarrow> data_put b offs buff s;
               let s = set_node i (\<lambda>n. n\<lparr>op_lock := False, op_next := opera_info (mod_info s m)\<rparr>) s;
               Some (0, set_mod m (opera_info_update (\<lambda>_. Some i)) s) }) }) }"

section \<open>Carrying out operations\<close>

text \<open>One call of the hardware layer for the current operation, new or suspended.\<close>

definition flush_call :: "nat \<Rightarrow> OPRA_INFO \<Rightarrow> bool \<Rightarrow> api \<Rightarrow> (HAL_NORFLASH_RET_T \<times> api) option" where
  "flush_call m nd suspend s = (case op_type nd of
       NORFLASH_API_WRITTING \<Rightarrow>
         (case mod_state (mod_info s m) of
            NORFLASH_API_STATE_IDLE \<Rightarrow>
              if 0 < w_len nd then (case op_buff nd of None \<Rightarrow> None | Some b \<Rightarrow>
                do { (ret, h) \<leftarrow> hal_norflash_write_suspend (ram_of s []) (op_addr nd + w_offs nd) (DATA b, w_offs nd) (w_len nd) suspend (flash_hal s);
                     Some (ret, s\<lparr>flash_hal := h, suspend_number := 0\<rparr>) })
              else Some (HAL_NORFLASH_OK, s\<lparr>suspend_number := 0\<rparr>)
          | NORFLASH_API_STATE_WRITTING_SUSPEND \<Rightarrow>
              do { (ret, h) \<leftarrow> hal_norflash_write_resume (ram_of s []) suspend (flash_hal s);
                   Some (ret, s\<lparr>flash_hal := h, suspend_number := suspend_number s + 1\<rparr>) }
          | _ \<Rightarrow> None)
     | NORFLASH_API_ERASING \<Rightarrow>
         (case mod_state (mod_info s m) of
            NORFLASH_API_STATE_IDLE \<Rightarrow>
              do { (ret, h) \<leftarrow> hal_norflash_erase_suspend (op_addr nd) (op_len nd) suspend (flash_hal s);
                   Some (ret, s\<lparr>flash_hal := h, suspend_number := 0\<rparr>) }
          | NORFLASH_API_STATE_ERASE_SUSPEND \<Rightarrow>
              do { (ret, h) \<leftarrow> hal_norflash_erase_resume suspend (flash_hal s);
                   Some (ret, s\<lparr>flash_hal := h, suspend_number := suspend_number s + 1\<rparr>) }
          | _ \<Rightarrow> None))"

definition flush_result :: "OPRA_INFO \<Rightarrow> nat \<Rightarrow> NORFLASH_API_OPERA_RESULT" where
  "flush_result nd n = (case op_type nd of
     NORFLASH_API_WRITTING \<Rightarrow> \<lparr>res_type = op_type nd, res_addr = op_addr nd + w_offs nd, res_len = w_len nd, remain_num = n - 1\<rparr>
   | NORFLASH_API_ERASING \<Rightarrow> \<lparr>res_type = op_type nd, res_addr = op_addr nd, res_len = op_len nd, remain_num = n - 1\<rparr>)"

text \<open>The end of an operation: the callback, and the node is taken out.\<close>

definition flush_done :: "nat \<Rightarrow> nat \<Rightarrow> api \<Rightarrow> api option" where
  "flush_done m i s = do {
     let s = set_mod m (mod_state_update (\<lambda>_. NORFLASH_API_STATE_IDLE)) s;
     let nd = op_node s i;
     s \<leftarrow> (if cb_func (mod_info s m) \<and> (0 < w_len nd \<and> op_type nd = NORFLASH_API_WRITTING \<or>
                 0 < op_len nd \<and> op_type nd = NORFLASH_API_ERASING)
          then do { n \<leftarrow> get_ew_count m s; Some (s\<lparr>cb_calls := cb_calls s @ [(m, flush_result nd n)]\<rparr>) }
          else Some s);
     s \<leftarrow> opera_del m i s;
     Some (set_mod m (cur_opera_info_update (\<lambda>_. None)) s) }"

definition opera_flush :: "nat \<Rightarrow> bool \<Rightarrow> api \<Rightarrow> (bool \<times> api) option" where
  "opera_flush m force_nosuspend s = do {
     s \<leftarrow> (if cur_opera_info (mod_info s m) = None then do {
            (t, s) \<leftarrow> get_tail m False s;
            Some (set_mod m (cur_opera_info_update (\<lambda>_. t)) s) } else Some s);
     case cur_opera_info (mod_info s m) of None \<Rightarrow> Some (False, s)
     | Some i \<Rightarrow> do {
         (ret, s) \<leftarrow> flush_call m (op_node s i) (\<not> force_nosuspend) s;
         case ret of
           HAL_NORFLASH_OK \<Rightarrow> do { s \<leftarrow> flush_done m i s; Some (True, s) }
         | HAL_NORFLASH_SUSPENDED \<Rightarrow> Some (True, set_mod m (mod_state_update (\<lambda>_.
               if op_type (op_node s i) = NORFLASH_API_WRITTING then NORFLASH_API_STATE_WRITTING_SUSPEND
               else NORFLASH_API_STATE_ERASE_SUSPEND)) s)
         | _ \<Rightarrow> None } }"

section \<open>The interface\<close>

definition zero_module :: MODULE_INFO where
  "zero_module = \<lparr>mod_inited = False, mod_base_addr = 0, mod_len = 0, mod_block_len = 0, mod_sector_len = 0, mod_page_len = 0,
     buff_len = 0, cb_func = False, opera_info = None, cur_opera_info = None, mod_state = NORFLASH_API_STATE_IDLE\<rparr>"

definition norflash_api_init :: "api \<Rightarrow> NORFLASH_API_RET_T \<times> api" where
  "norflash_api_init s = (NORFLASH_API_OK, s\<lparr>api_inited := True, mod_info := (\<lambda>_. zero_module),
     cur_mod_id := NORFLASH_API_MODULE_ID_COUNT, cur_mod := None\<rparr>)"

definition norflash_api_register ::
  "nat \<Rightarrow> nat \<Rightarrow> nat \<Rightarrow> nat \<Rightarrow> nat \<Rightarrow> nat \<Rightarrow> nat \<Rightarrow> nat \<Rightarrow> bool \<Rightarrow> api \<Rightarrow> (NORFLASH_API_RET_T \<times> api) option" where
  "norflash_api_register m dev_id base len block_len sector_len page_len buffer_len cb s =
     (if \<not> api_inited s then Some (NORFLASH_API_ERR_UNINIT, s)
      else if NORFLASH_API_MODULE_ID_COUNT \<le> m then Some (NORFLASH_API_BAD_MOD_ID, s)
      else if HAL_NORFLASH_ID_NUM \<le> dev_id then Some (NORFLASH_API_BAD_DEV_ID, s)
      else if buffer_len < sector_len then Some (NORFLASH_API_BAD_BUFF_LEN, s)
      else if sector_len = 0 then None
      else if buffer_len div sector_len * sector_len \<noteq> buffer_len then Some (NORFLASH_API_BAD_BUFF_LEN, s)
      else if mod_inited (mod_info s m) then Some (NORFLASH_API_OK, s)
      else Some (NORFLASH_API_OK, set_mod m (\<lambda>_. \<lparr>mod_inited = True, mod_base_addr = base, mod_len = len, mod_block_len = block_len,
        mod_sector_len = sector_len, mod_page_len = page_len, buff_len = buffer_len, cb_func = cb, opera_info = None,
        cur_opera_info = None, mod_state = NORFLASH_API_STATE_IDLE\<rparr>) s))"

definition out_of_range :: "MODULE_INFO \<Rightarrow> nat \<Rightarrow> nat \<Rightarrow> bool" where
  "out_of_range mi start_addr len \<longleftrightarrow> start_addr < mod_base_addr mi \<or> add32 (mod_base_addr mi) (mod_len mi) < add32 start_addr len"

text \<open>The buffer is never null; the bytes copied out are part of the result.\<close>

definition norflash_api_read :: "nat \<Rightarrow> nat \<Rightarrow> nat \<Rightarrow> api \<Rightarrow> (NORFLASH_API_RET_T \<times> byte list) option" where
  "norflash_api_read m start_addr len s =
     (if \<not> api_inited s then Some (NORFLASH_API_ERR_UNINIT, [])
      else if NORFLASH_API_MODULE_ID_COUNT \<le> m then Some (NORFLASH_API_BAD_MOD_ID, [])
      else if \<not> mod_inited (mod_info s m) then Some (NORFLASH_API_ERR_UNINIT, [])
      else if out_of_range (mod_info s m) start_addr len then Some (NORFLASH_API_BAD_ADDR, [])
      else if len = 0 then Some (NORFLASH_API_BAD_LEN, [])
      else do { d \<leftarrow> opera_read m start_addr len s; Some (NORFLASH_API_OK, d) })"

definition norflash_sync_read :: "nat \<Rightarrow> nat \<Rightarrow> nat \<Rightarrow> api \<Rightarrow> (NORFLASH_API_RET_T \<times> byte list) option" where
  "norflash_sync_read m start_addr len s =
     (if \<not> api_inited s then Some (NORFLASH_API_ERR_UNINIT, [])
      else if NORFLASH_API_MODULE_ID_COUNT \<le> m then Some (NORFLASH_API_BAD_MOD_ID, [])
      else if \<not> mod_inited (mod_info s m) then Some (NORFLASH_API_ERR_UNINIT, [])
      else if out_of_range (mod_info s m) start_addr len then Some (NORFLASH_API_BAD_ADDR, [])
      else if len = 0 then Some (NORFLASH_API_BAD_LEN, [])
      else Some (NORFLASH_API_OK, flash_bytes s start_addr len))"

text \<open>Before a synchronous operation: finish what another module has suspended, then the own list.\<close>

partial_function (option) finish_suspended :: "nat \<Rightarrow> api \<Rightarrow> api option" where
  "finish_suspended c s = (if mod_state (mod_info s c) \<noteq> NORFLASH_API_STATE_IDLE then do {
     (b, s) \<leftarrow> opera_flush c True s;
     finish_suspended c (if b then s else s\<lparr>cur_mod := None\<rparr>) } else Some s)"

partial_function (option) flush_module :: "nat \<Rightarrow> api \<Rightarrow> api option" where
  "flush_module m s = do { (b, s) \<leftarrow> opera_flush m True s; if b then flush_module m s else Some s }"

definition before_sync :: "nat \<Rightarrow> api \<Rightarrow> api option" where
  "before_sync m s = do {
     s \<leftarrow> (case cur_mod s of Some c \<Rightarrow> if c \<noteq> m then finish_suspended c s else Some s | None \<Rightarrow> Some s);
     flush_module m s }"

definition hal_result :: "HAL_NORFLASH_RET_T \<Rightarrow> NORFLASH_API_RET_T" where
  "hal_result r = (case r of HAL_NORFLASH_OK \<Rightarrow> NORFLASH_API_OK | HAL_NORFLASH_BAD_ADDR \<Rightarrow> NORFLASH_API_BAD_ADDR
     | HAL_NORFLASH_BAD_LEN \<Rightarrow> NORFLASH_API_BAD_LEN | _ \<Rightarrow> NORFLASH_API_ERR)"

definition norflash_api_erase :: "nat \<Rightarrow> nat \<Rightarrow> nat \<Rightarrow> bool \<Rightarrow> api \<Rightarrow> (NORFLASH_API_RET_T \<times> api) option" where
  "norflash_api_erase m start_addr len async s =
     (if \<not> api_inited s then Some (NORFLASH_API_ERR_UNINIT, s)
      else if NORFLASH_API_MODULE_ID_COUNT \<le> m then Some (NORFLASH_API_BAD_MOD_ID, s)
      else if \<not> mod_inited (mod_info s m) then Some (NORFLASH_API_ERR_UNINIT, s)
      else if out_of_range (mod_info s m) start_addr len then Some (NORFLASH_API_BAD_ADDR, s)
      else do {
        sec_start \<leftarrow> sector_start (mod_sector_len (mod_info s m)) start_addr;
        if sec_start \<noteq> start_addr then Some (NORFLASH_API_BAD_ADDR, s)
        else if len \<noteq> mod_sector_len (mod_info s m) then Some (NORFLASH_API_BAD_LEN, s)
        else if async then do {
          (result, s) \<leftarrow> e_opera_add m start_addr len s;
          Some (if result = 0 then NORFLASH_API_OK else NORFLASH_API_BUFFER_FULL, s) }
        else do {
          s \<leftarrow> before_sync m s;
          (result, h) \<leftarrow> hal_norflash_erase start_addr len (flash_hal s);
          Some (hal_result result, s\<lparr>flash_hal := h\<rparr>) } })"

text \<open>The check of the module number lets the first number behind the table pass.\<close>

definition norflash_api_write :: "nat \<Rightarrow> nat \<Rightarrow> byte list \<Rightarrow> bool \<Rightarrow> api \<Rightarrow> (NORFLASH_API_RET_T \<times> api) option" where
  "norflash_api_write m start_addr buffer async s =
     (if \<not> api_inited s then Some (NORFLASH_API_ERR_UNINIT, s)
      else if NORFLASH_API_MODULE_ID_COUNT < m then Some (NORFLASH_API_BAD_MOD_ID, s)
      else if m = NORFLASH_API_MODULE_ID_COUNT then None
      else if \<not> mod_inited (mod_info s m) then Some (NORFLASH_API_ERR_UNINIT, s)
      else if out_of_range (mod_info s m) start_addr (length buffer) then Some (NORFLASH_API_BAD_ADDR, s)
      else if buffer = [] then Some (NORFLASH_API_BAD_LEN, s)
      else if async then do {
        (result, s) \<leftarrow> w_opera_add m start_addr buffer s;
        Some (if result = 0 then NORFLASH_API_OK else NORFLASH_API_BUFFER_FULL, s) }
      else do {
        s \<leftarrow> before_sync m s;
        (result, h) \<leftarrow> hal_norflash_write (ram_of s buffer) start_addr (CALLER, 0) (length buffer) (flash_hal s);
        Some (hal_result result, s\<lparr>flash_hal := h\<rparr>) })"

text \<open>The sleep hook: -1 not set up, 0 nothing to do, 1 an operation was worked on.\<close>

definition norflash_api_flush :: "api \<Rightarrow> (int \<times> api) option" where
  "norflash_api_flush s = (if \<not> api_inited s then Some (- 1, s) else do {
     m \<leftarrow> get_cur_mod s;
     case m of None \<Rightarrow> Some (0, s)
     | Some m \<Rightarrow> do {
         let s = s\<lparr>cur_mod_id := get_mod_id m, cur_mod := Some m\<rparr>;
         (b, s) \<leftarrow> opera_flush m False s;
         Some (1, if b then s else s\<lparr>cur_mod := None\<rparr>) } })"

partial_function (option) norflash_flush_all_pending_op :: "api \<Rightarrow> api option" where
  "norflash_flush_all_pending_op s = do {
     (ret, s) \<leftarrow> norflash_api_flush s;
     if ret = 1 then norflash_flush_all_pending_op s else Some s }"

definition norflash_api_is_changed :: "nat \<Rightarrow> nat \<Rightarrow> byte list \<Rightarrow> api \<Rightarrow> bool option" where
  "norflash_api_is_changed m start_addr buffer s =
     (if buffer = [] \<or> NORFLASH_API_MODULE_ID_COUNT \<le> m \<or> \<not> mod_inited (mod_info s m) \<or>
         out_of_range (mod_info s m) start_addr (length buffer) then None
      else do { eq \<leftarrow> opera_cmp m start_addr buffer s; Some (\<not> eq) })"

definition norflash_api_buffer_is_free :: "nat \<Rightarrow> api \<Rightarrow> bool option" where
  "norflash_api_buffer_is_free m s =
     (if NORFLASH_API_MODULE_ID_COUNT \<le> m \<or> \<not> mod_inited (mod_info s m) then None
      else do { count \<leftarrow> get_ew_count m s; Some (\<not> 0 < count) })"

text \<open>\<open>type\<close> is 1 for writes, 2 for erases, 3 for both.\<close>

definition norflash_api_get_used_buffer_count :: "nat \<Rightarrow> nat \<Rightarrow> api \<Rightarrow> nat option" where
  "norflash_api_get_used_buffer_count m type s =
     (if NORFLASH_API_MODULE_ID_COUNT \<le> m \<or> \<not> mod_inited (mod_info s m) then None
      else do {
        count \<leftarrow> (if type AND 1 \<noteq> 0 then get_w_count m s else Some 0);
        e \<leftarrow> (if type AND 2 \<noteq> 0 then get_e_count m s else Some 0);
        Some (count + e) })"

primrec sum_mods :: "(nat \<Rightarrow> api \<Rightarrow> nat option) \<Rightarrow> nat list \<Rightarrow> nat \<Rightarrow> api \<Rightarrow> nat option" where
  "sum_mods f [] count s = Some count"
| "sum_mods f (i # is) count s = do {
     n \<leftarrow> (if mod_inited (mod_info s i) then f i s else Some 0);
     sum_mods f is (count + n) s }"

definition norflash_api_get_free_buffer_count :: "nat \<Rightarrow> api \<Rightarrow> nat option" where
  "norflash_api_get_free_buffer_count type s = do {
     (used, free) \<leftarrow> (if type AND 1 \<noteq> 0 then do {
         used \<leftarrow> sum_mods get_w_count [0..<NORFLASH_API_MODULE_ID_COUNT] 0 s;
         if used \<le> NORFLASH_API_OPRA_LIST_LEN then Some (used, NORFLASH_API_OPRA_LIST_LEN - used) else None }
       else Some (0, 0));
     if type AND 2 \<noteq> 0 then do {
       used \<leftarrow> sum_mods get_e_count [0..<NORFLASH_API_MODULE_ID_COUNT] used s;
       if used \<le> NORFLASH_API_OPRA_LIST_LEN then Some (free + (NORFLASH_API_OPRA_LIST_LEN - used)) else None }
     else Some free }"

end
