(* ===== verification/FlashSpec.thy ===== *)
theory FlashSpec
  imports FlashApi
begin

text \<open>
  What the queue of flash operations promises: every module sees its part of the flash as if
  each accepted erase and write had been carried out at once, and carrying them out, in pieces and
  whenever the system is idle, makes the flash be what the modules see.

  The parts: the lists behind the pointers (\<open>chain\<close>), what every walk computes on them; the view
  a module has of its sectors (\<open>view\<close>); the invariant \<open>api_rep\<close>. The operations follow in \<open>FlashOps\<close> and
  \<open>FlashFlush\<close>, their runs in \<open>FlashHistory\<close>, the cases in which the code does not keep the promise in
  \<open>FlashLimits\<close>.
\<close>

section \<open>Lists of nodes\<close>

primrec chain :: "(nat \<Rightarrow> OPRA_INFO) \<Rightarrow> nat option \<Rightarrow> nat list \<Rightarrow> bool" where
  "chain nd h [] \<longleftrightarrow> h = None"
| "chain nd h (i # L) \<longleftrightarrow> h = Some i \<and> chain nd (op_next (nd i)) L"

lemma chain_cong: "(\<And>i. i \<in> set L \<Longrightarrow> op_next (nd i) = op_next (nd' i)) \<Longrightarrow> chain nd h L = chain nd' h L"
  by (induction L arbitrary: h) auto

lemma chain_unique: "chain nd h L \<Longrightarrow> chain nd h L' \<Longrightarrow> L = L'"
  by (induction L arbitrary: h L') (case_tac L'; auto)+

lemma tail_loop_chain:
  "chain (op_node s) h L \<Longrightarrow> tail_loop s o' p h =
     Some (if L = [] then (o', p) else (Some (last L), if butlast L = [] then p else Some (last (butlast L))))"
proof (induction L arbitrary: o' p h)
  case Nil
  then show ?case by (subst tail_loop.simps) simp
next
  case (Cons i L)
  then have "tail_loop s o' p h = tail_loop s (Some i) (if L = [] then p else Some i) (op_next (op_node s i))"
    by (subst tail_loop.simps) (cases L; simp)
  with Cons show ?case by (cases L) auto
qed

lemma del_loop_last:
  "chain (op_node s) h L \<Longrightarrow> L \<noteq> [] \<Longrightarrow> distinct L \<Longrightarrow>
     del_loop s (last L) p h = Some (Some (if butlast L = [] then p else Some (last (butlast L))))"
proof (induction L arbitrary: p h)
  case (Cons i L)
  show ?case
  proof (cases "L = []")
    case True
    with Cons.prems show ?thesis by (subst del_loop.simps) simp
  next
    case False
    then have "i \<noteq> last L" using Cons.prems(3) by auto
    with Cons.prems False have "del_loop s (last (i # L)) p h = del_loop s (last L) (Some i) (op_next (op_node s i))"
      by (subst del_loop.simps) (cases L; simp)
    with Cons False show ?thesis by auto
  qed
qed simp

lemma count_loop_chain:
  "chain (op_node s) h L \<Longrightarrow> count_loop P s n h = Some (n + length (filter (\<lambda>i. P (op_node s i)) L))"
proof (induction L arbitrary: n h)
  case Nil
  then show ?case by (subst count_loop.simps) simp
next
  case (Cons i L)
  then show ?case by (subst count_loop.simps) simp
qed

lemma find_loop_chain:
  "chain (op_node s) h L \<Longrightarrow> find_loop s a h = Some (find (\<lambda>i. op_addr (op_node s i) = a) L)"
proof (induction L arbitrary: h)
  case Nil
  then show ?case by (subst find_loop.simps) simp
next
  case (Cons i L)
  then show ?case by (subst find_loop.simps) simp
qed

lemma w_find_loop_chain:
  "chain (op_node s) h L \<Longrightarrow> w_find_loop s a h = Some (find (\<lambda>i. op_addr (op_node s i) = a \<and>
     (op_type (op_node s i) = NORFLASH_API_WRITTING \<longrightarrow> \<not> op_lock (op_node s i))) L)"
proof (induction L arbitrary: h)
  case Nil
  then show ?case by (subst w_find_loop.simps) simp
next
  case (Cons i L)
  then show ?case by (subst w_find_loop.simps) auto
qed

lemma chain_butlast:
  assumes "chain nd h L" "L \<noteq> []" "distinct L"
  shows "butlast L = [] \<Longrightarrow> h = Some (last L)"
    and "butlast L \<noteq> [] \<Longrightarrow> chain (nd(last (butlast L) := (nd (last (butlast L)))\<lparr>op_next := None\<rparr>)) h (butlast L)"
proof -
  show "butlast L = [] \<Longrightarrow> h = Some (last L)" using assms(1,2) by (cases L) auto
  show "butlast L \<noteq> [] \<Longrightarrow> chain (nd(last (butlast L) := (nd (last (butlast L)))\<lparr>op_next := None\<rparr>)) h (butlast L)"
    using assms
  proof (induction L arbitrary: h)
    case (Cons i L)
    show ?case
    proof (cases "butlast L = []")
      case True
      with Cons.prems show ?thesis by (cases L) auto
    next
      case False
      then have "last (butlast L) \<in> set L" by (metis in_set_butlastD last_in_set)
      then have "i \<noteq> last (butlast L)" using Cons.prems(4) by auto
      with Cons False show ?thesis by (cases "L = []") auto
    qed
  qed simp
qed

section \<open>Taking out the operations of a sector\<close>

text \<open>
  The loop forgets that it has taken out the node before: it is right only if no two neighbours
  are taken out while a node before them stays.
\<close>

fun e_safe :: "(nat \<Rightarrow> bool) \<Rightarrow> bool \<Rightarrow> bool \<Rightarrow> nat list \<Rightarrow> bool" where
  "e_safe del kept prev_del [] = True"
| "e_safe del kept prev_del (i # L) = (if del i then \<not> (kept \<and> prev_del) \<and> e_safe del kept True L
     else e_safe del True False L)"

definition e_dead :: "api \<Rightarrow> nat \<Rightarrow> nat \<Rightarrow> bool" where
  "e_dead s addr i \<longleftrightarrow> op_addr (op_node s i) = addr \<and> \<not> op_lock (op_node s i)"

text \<open>At most one operation for the sector, or nothing but operations for it: the loop is right.\<close>

lemma e_safe_all: "\<forall>i \<in> set L. del i \<Longrightarrow> e_safe del False pd L"
  by (induction L arbitrary: pd) auto

lemma e_safe_none: "\<forall>i \<in> set L. \<not> del i \<Longrightarrow> e_safe del kept pd L"
  by (induction L arbitrary: kept pd) auto

lemma e_safe_all_but_last: "\<forall>i \<in> set (butlast L). del i \<Longrightarrow> e_safe del False pd L"
proof (induction L arbitrary: pd)
  case (Cons i L)
  then show ?case by (cases L) auto
qed simp

lemma e_safe_one: "length (filter del L) \<le> 1 \<Longrightarrow> \<not> (kept \<and> pd \<and> L \<noteq> [] \<and> del (hd L)) \<Longrightarrow> e_safe del kept pd L"
proof (induction L arbitrary: kept pd)
  case (Cons i L)
  show ?case
  proof (cases "del i")
    case True
    then have "filter del L = []" using Cons.prems(1) by simp
    then have "\<forall>j \<in> set L. \<not> del j" by (auto simp: filter_empty_conv)
    with True Cons.prems(2) show ?thesis by (simp add: e_safe_none)
  next
    case False
    with Cons show ?thesis by simp
  qed
qed simp

lemma chain_skip:
  assumes "chain nd h (P @ i # K)" "P \<noteq> []" "distinct (P @ i # K)"
  shows "chain (nd(last P := (nd (last P))\<lparr>op_next := op_next (nd i)\<rparr>)) h (P @ K)"
  using assms
proof (induction P arbitrary: h)
  case (Cons p P)
  show ?case
  proof (cases "P = []")
    case True
    define nd' where "nd' = nd(p := (nd p)\<lparr>op_next := op_next (nd i)\<rparr>)"
    have "chain nd' (op_next (nd i)) K = chain nd (op_next (nd i)) K"
      using Cons.prems(3) True by (intro chain_cong) (auto simp: nd'_def)
    moreover have "op_next (nd' p) = op_next (nd i)" by (simp add: nd'_def)
    ultimately have "chain nd' h (p # K)" using Cons.prems(1) True by simp
    moreover have "last (p # P) = p" "(p # P) @ K = p # K" using True by simp_all
    ultimately show ?thesis by (simp only: nd'_def)
  next
    case False
    then have "p \<noteq> last P" using Cons.prems(3) by auto
    with Cons False show ?thesis by simp
  qed
qed simp

text \<open>What the loop changes.\<close>

definition e_del_rel :: "nat \<Rightarrow> nat \<Rightarrow> nat list \<Rightarrow> api \<Rightarrow> api \<Rightarrow> bool" where
  "e_del_rel m addr K s s' \<longleftrightarrow>
     (\<forall>i. op_node s' i = (op_node s i)\<lparr>op_next := op_next (op_node s' i)\<rparr>) \<and>
     op_used s' = (\<lambda>i. op_used s i \<and> \<not> (i \<in> set K \<and> e_dead s addr i)) \<and>
     data_used s' = (\<lambda>b. data_used s b \<and> \<not> (\<exists>i \<in> set K. e_dead s addr i \<and> op_type (op_node s i) = NORFLASH_API_WRITTING \<and> op_buff (op_node s i) = Some b)) \<and>
     mod_info s' = (mod_info s)(m := (mod_info s m)\<lparr>opera_info := opera_info (mod_info s' m)\<rparr>) \<and>
     s' = s\<lparr>mod_info := mod_info s', op_node := op_node s', op_used := op_used s', data_used := data_used s'\<rparr>"

lemma e_del_rel_refl: "\<forall>i \<in> set K. \<not> e_dead s addr i \<Longrightarrow> e_del_rel m addr K s s"
  by (auto simp: e_del_rel_def fun_eq_iff)

lemma next_update_fields:
  assumes "n' = n\<lparr>op_next := x\<rparr>"
  shows "op_type n' = op_type n" "op_addr n' = op_addr n" "op_len n' = op_len n" "w_offs n' = w_offs n" "w_len n' = w_len n"
    "op_buff n' = op_buff n" "op_lock n' = op_lock n"
  using assms by simp_all

lemmas e_del_fields = next_update_fields [OF e_del_rel_def [THEN iffD1, THEN conjunct1, THEN spec]]

lemma e_dead_rel:
  assumes "e_del_rel m addr K s s'"
  shows "e_dead s' addr i = e_dead s addr i"
proof -
  have "op_addr (op_node s' i) = op_addr (op_node s i)" by (rule e_del_fields(2) [OF assms])
  moreover have "op_lock (op_node s' i) = op_lock (op_node s i)" by (rule e_del_fields(7) [OF assms])
  ultimately show ?thesis by (simp only: e_dead_def)
qed

text \<open>One node that stays, one that goes.\<close>

lemma e_del_rel_keep:
  assumes "\<not> e_dead s addr i"
  shows "e_del_rel m addr (i # K) s s' = e_del_rel m addr K s s'"
proof -
  have "(j \<in> set (i # K) \<and> e_dead s addr j) = (j \<in> set K \<and> e_dead s addr j)" for j using assms(1) by auto
  moreover have "(\<exists>j \<in> set (i # K). e_dead s addr j \<and> Q j) = (\<exists>j \<in> set K. e_dead s addr j \<and> Q j)" for Q using assms(1) by auto
  ultimately show ?thesis unfolding e_del_rel_def by (simp only:)
qed

lemma e_del_rel_trans:
  assumes "e_del_rel m addr [i] s s1" "e_del_rel m addr K s1 s'"
  shows "e_del_rel m addr (i # K) s s'"
proof -
  have f: "op_type (op_node s1 j) = op_type (op_node s j)" "op_buff (op_node s1 j) = op_buff (op_node s j)"
    "e_dead s1 addr j = e_dead s addr j" for j
    by (rule e_del_fields(1) [OF assms(1)], rule e_del_fields(6) [OF assms(1)], rule e_dead_rel [OF assms(1)])
  note 1 = assms(1) [unfolded e_del_rel_def] and 2 = assms(2) [unfolded e_del_rel_def]
  have n: "op_node s' j = (op_node s j)\<lparr>op_next := op_next (op_node s' j)\<rparr>" for j
  proof -
    have "op_node s' j = (op_node s1 j)\<lparr>op_next := op_next (op_node s' j)\<rparr>" using 2 by blast
    also have "op_node s1 j = (op_node s j)\<lparr>op_next := op_next (op_node s1 j)\<rparr>" using 1 by blast
    finally show ?thesis by simp
  qed
  have "op_used s' = (\<lambda>i. op_used s1 i \<and> \<not> (i \<in> set K \<and> e_dead s1 addr i))" using 2 by blast
  moreover have "op_used s1 = (\<lambda>j. op_used s j \<and> \<not> (j \<in> set [i] \<and> e_dead s addr j))" using 1 by blast
  ultimately have u: "op_used s' = (\<lambda>j. op_used s j \<and> \<not> (j \<in> set (i # K) \<and> e_dead s addr j))"
    by (auto simp: f(3))
  have "data_used s' = (\<lambda>b. data_used s1 b \<and> \<not> (\<exists>j \<in> set K. e_dead s1 addr j \<and> op_type (op_node s1 j) = NORFLASH_API_WRITTING \<and> op_buff (op_node s1 j) = Some b))"
    using 2 by blast
  moreover have "data_used s1 = (\<lambda>b. data_used s b \<and> \<not> (\<exists>j \<in> set [i]. e_dead s addr j \<and> op_type (op_node s j) = NORFLASH_API_WRITTING \<and> op_buff (op_node s j) = Some b))"
    using 1 by blast
  ultimately have b: "data_used s' = (\<lambda>b. data_used s b \<and> \<not> (\<exists>j \<in> set (i # K). e_dead s addr j \<and> op_type (op_node s j) = NORFLASH_API_WRITTING \<and> op_buff (op_node s j) = Some b))"
    by (auto simp: f fun_eq_iff)
  have m1: "mod_info s1 = (mod_info s)(m := (mod_info s m)\<lparr>opera_info := opera_info (mod_info s1 m)\<rparr>)" using 1 by blast
  have m2: "mod_info s' = (mod_info s1)(m := (mod_info s1 m)\<lparr>opera_info := opera_info (mod_info s' m)\<rparr>)" using 2 by blast
  have m: "mod_info s' = (mod_info s)(m := (mod_info s m)\<lparr>opera_info := opera_info (mod_info s' m)\<rparr>)"
    by (subst m2, subst (1 2) m1) simp
  have s1: "s1 = s\<lparr>mod_info := mod_info s1, op_node := op_node s1, op_used := op_used s1, data_used := data_used s1\<rparr>"
    and s2: "s' = s1\<lparr>mod_info := mod_info s', op_node := op_node s', op_used := op_used s', data_used := data_used s'\<rparr>"
    using 1 2 by blast+
  have s: "s' = s\<lparr>mod_info := mod_info s', op_node := op_node s', op_used := op_used s', data_used := data_used s'\<rparr>"
    by (subst s2, subst s1) simp
  show ?thesis unfolding e_del_rel_def using n u b m s by blast
qed

text \<open>The removal of one node.\<close>

definition e_unlink :: "nat \<Rightarrow> nat option \<Rightarrow> nat \<Rightarrow> api \<Rightarrow> api option" where
  "e_unlink m pre_node i s = do {
     let nd = op_node s i;
     s \<leftarrow> (if opera_info (mod_info s m) = Some i then Some (set_mod m (opera_info_update (\<lambda>_. op_next nd)) s)
          else case pre_node of None \<Rightarrow> None | Some p \<Rightarrow> Some (set_node p (op_next_update (\<lambda>_. op_next nd)) s));
     let s = (if op_type nd = NORFLASH_API_WRITTING then norflash_api_free_data (op_buff nd) s else s);
     Some (norflash_api_free_op i s) }"

lemma e_del_loop_None: "e_del_loop m addr p None s = Some (False, s)"
  by (subst e_del_loop.simps) simp

lemma e_del_loop_Some:
  "e_del_loop m addr p (Some i) s =
     (let nd = op_node s i; p' = (if op_next nd \<noteq> None then Some i else p) in
      if e_dead s addr i then do { s \<leftarrow> e_unlink m p i s; e_del_loop m addr p' (op_next nd) s }
      else if op_addr nd = addr \<and> op_type nd = NORFLASH_API_ERASING then Some (True, s)
      else e_del_loop m addr p' (op_next nd) s)"
  by (subst e_del_loop.simps, simp only: option.simps if_False option.sel Let_def e_dead_def e_unlink_def,
      rule if_cong [OF refl _ refl], cases "opera_info (mod_info s m) = Some i"; cases p)
    (simp_all only: simp_thms if_True if_False Option.bind.simps option.case)

text \<open>The pools after a removal.\<close>

definition e_release :: "nat \<Rightarrow> OPRA_INFO \<Rightarrow> api \<Rightarrow> api" where
  "e_release i nd s = s\<lparr>op_used := (op_used s)(i := False),
     data_used := (\<lambda>b. data_used s b \<and> \<not> (op_type nd = NORFLASH_API_WRITTING \<and> op_buff nd = Some b))\<rparr>"

lemma e_release_eq:
  "norflash_api_free_op i (if op_type nd = NORFLASH_API_WRITTING then norflash_api_free_data (op_buff nd) s else s) = e_release i nd s"
proof (cases "op_type nd = NORFLASH_API_WRITTING \<and> op_buff nd \<noteq> None")
  case True
  then obtain c where c: "op_buff nd = Some c" "op_type nd = NORFLASH_API_WRITTING" by auto
  have "(\<lambda>b. data_used s b \<and> c \<noteq> b) = (data_used s)(c := False)" by (rule ext) simp
  with c show ?thesis by (simp add: norflash_api_free_op_def norflash_api_free_data_def e_release_def)
next
  case False
  then have "(\<lambda>b. data_used s b \<and> \<not> (op_type nd = NORFLASH_API_WRITTING \<and> op_buff nd = Some b)) = data_used s" by auto
  with False show ?thesis by (auto simp: norflash_api_free_op_def norflash_api_free_data_def e_release_def)
qed

lemma e_del_rel_release:
  assumes "e_dead s addr i" "mod_info t = (mod_info s)(m := (mod_info s m)\<lparr>opera_info := opera_info (mod_info t m)\<rparr>)"
    and "\<And>j. op_node t j = (op_node s j)\<lparr>op_next := op_next (op_node t j)\<rparr>"
    and "t = s\<lparr>mod_info := mod_info t, op_node := op_node t\<rparr>"
  shows "e_del_rel m addr [i] s (e_release i (op_node s i) t)"
proof -
  have u: "op_used t = op_used s" "data_used t = data_used s"
    using arg_cong [OF assms(4), of op_used] arg_cong [OF assms(4), of data_used] by simp_all
  have 1: "op_used (e_release i (op_node s i) t) = (\<lambda>j. op_used s j \<and> \<not> (j \<in> set [i] \<and> e_dead s addr j))"
    using assms(1) by (auto simp: e_release_def u fun_eq_iff)
  have 2: "data_used (e_release i (op_node s i) t) = (\<lambda>b. data_used s b \<and>
      \<not> (\<exists>j \<in> set [i]. e_dead s addr j \<and> op_type (op_node s j) = NORFLASH_API_WRITTING \<and> op_buff (op_node s j) = Some b))"
    using assms(1) by (auto simp: e_release_def u fun_eq_iff)
  have 3: "mod_info (e_release i (op_node s i) t) = mod_info t" "op_node (e_release i (op_node s i) t) = op_node t"
    by (simp_all add: e_release_def)
  have 4: "e_release i (op_node s i) t = s\<lparr>mod_info := mod_info t, op_node := op_node t,
      op_used := op_used (e_release i (op_node s i) t), data_used := data_used (e_release i (op_node s i) t)\<rparr>"
    by (subst assms(4)) (simp add: e_release_def u)
  show ?thesis unfolding e_del_rel_def 3 using assms(2,3) 1 2 4 by blast
qed

lemma e_unlink_spec:
  assumes "chain (op_node s) (opera_info (mod_info s m)) (P @ i # K)" "distinct (P @ i # K)" "e_dead s addr i"
    and "P = [] \<or> p = Some (last P)"
  shows "\<exists>s'. e_unlink m p i s = Some s' \<and> chain (op_node s') (opera_info (mod_info s' m)) (P @ K) \<and>
    e_del_rel m addr [i] s s' \<and> (\<forall>j. j \<notin> set P \<longrightarrow> op_node s' j = op_node s j)"
proof (cases "P = []")
  case True
  then have h: "opera_info (mod_info s m) = Some i" "chain (op_node s) (op_next (op_node s i)) K" using assms(1) by simp_all
  let ?t = "set_mod m (opera_info_update (\<lambda>_. op_next (op_node s i))) s"
  have "e_unlink m p i s = Some (e_release i (op_node s i) ?t)" using h by (simp add: e_unlink_def Let_def e_release_eq)
  moreover have "chain (op_node (e_release i (op_node s i) ?t)) (opera_info (mod_info (e_release i (op_node s i) ?t) m)) (P @ K)"
    using h True by (simp add: e_release_def set_mod_def)
  moreover have "e_del_rel m addr [i] s (e_release i (op_node s i) ?t)"
    by (rule e_del_rel_release [OF assms(3)]) (simp_all add: set_mod_def)
  moreover have "op_node (e_release i (op_node s i) ?t) = op_node s" by (simp add: e_release_def set_mod_def)
  ultimately show ?thesis by metis
next
  case False
  then have p: "p = Some (last P)" using assms(4) by simp
  have "opera_info (mod_info s m) = Some (hd P)" "i \<noteq> hd P" using assms(1,2) False by (cases P; auto)+
  then have h: "opera_info (mod_info s m) \<noteq> Some i" by simp
  let ?t = "set_node (last P) (op_next_update (\<lambda>_. op_next (op_node s i))) s"
  have "e_unlink m p i s = Some (e_release i (op_node s i) ?t)" using h p by (simp add: e_unlink_def Let_def e_release_eq)
  moreover have "chain (op_node (e_release i (op_node s i) ?t)) (opera_info (mod_info (e_release i (op_node s i) ?t) m)) (P @ K)"
    using chain_skip [OF assms(1) False assms(2)] by (simp add: e_release_def set_node_def)
  moreover have "e_del_rel m addr [i] s (e_release i (op_node s i) ?t)"
    by (rule e_del_rel_release [OF assms(3)]) (simp_all add: set_node_def)
  moreover have "j \<notin> set P \<longrightarrow> op_node (e_release i (op_node s i) ?t) j = op_node s j" for j
    using False by (auto simp: e_release_def set_node_def)
  ultimately show ?thesis by blast
qed

text \<open>
  The whole loop: \<open>P\<close> is what stayed so far, \<open>K\<close> what is still to be looked at. Only the last node can be
  locked; a locked erase of the sector stops the loop.
\<close>

definition e_locked :: "api \<Rightarrow> nat \<Rightarrow> nat \<Rightarrow> bool" where
  "e_locked s addr i \<longleftrightarrow> op_addr (op_node s i) = addr \<and> op_lock (op_node s i) \<and> op_type (op_node s i) = NORFLASH_API_ERASING"

lemma e_locked_rel: "e_del_rel m addr K s s' \<Longrightarrow> e_locked s' addr i = e_locked s addr i"
  using e_del_fields(1,2,7) [of m addr K s s' i] by (simp add: e_locked_def)

lemma e_del_loop_spec:
  assumes "chain (op_node s) (opera_info (mod_info s m)) (P @ K)" "distinct (P @ K)"
    and "\<And>i. i \<in> set (butlast K) \<Longrightarrow> \<not> op_lock (op_node s i)"
    and "e_safe (e_dead s addr) (P \<noteq> []) pd K"
    and "P = [] \<or> K = [] \<or> pd \<or> pre = Some (last P)"
  shows "\<exists>s'. e_del_loop m addr pre (if K = [] then None else Some (hd K)) s = Some (\<exists>i \<in> set K. e_locked s addr i, s') \<and>
    chain (op_node s') (opera_info (mod_info s' m)) (P @ filter (\<lambda>i. \<not> e_dead s addr i) K) \<and>
    e_del_rel m addr K s s' \<and> (\<forall>j. j \<notin> set (P @ K) \<longrightarrow> op_node s' j = op_node s j)"
  using assms
proof (induction K arbitrary: P pd pre s)
  case Nil
  then show ?case by (intro exI [of _ s]) (simp add: e_del_loop_None e_del_rel_refl)
next
  case (Cons i K)
  have nxt: "op_next (op_node s i) = (if K = [] then None else Some (hd K))"
  proof -
    have "chain (op_node s) h (P @ i # K) \<Longrightarrow> chain (op_node s) (op_next (op_node s i)) K" for h P
      by (induction P arbitrary: h) auto
    then have "chain (op_node s) (op_next (op_node s i)) K" using Cons.prems(1) .
    then show ?thesis by (cases K) auto
  qed
  define pre' where "pre' = (if op_next (op_node s i) \<noteq> None then Some i else pre)"
  have pre': "K = [] \<or> pre' = Some i" using nxt by (auto simp: pre'_def)
  have lock: "\<And>j. j \<in> set (butlast K) \<Longrightarrow> \<not> op_lock (op_node s j)" using Cons.prems(3) by (cases "K = []") auto
  show ?case
  proof (cases "e_dead s addr i")
    case True
    have p: "P = [] \<or> pre = Some (last P)" using Cons.prems(4,5) True by auto
    obtain s1 where 1: "e_unlink m pre i s = Some s1" "chain (op_node s1) (opera_info (mod_info s1 m)) (P @ K)"
      "e_del_rel m addr [i] s s1" "\<forall>j. j \<notin> set P \<longrightarrow> op_node s1 j = op_node s j"
      using e_unlink_spec [OF Cons.prems(1,2) True p] by blast
    have f: "e_dead s1 addr = e_dead s addr" "e_locked s1 addr = e_locked s addr"
      using e_dead_rel [OF 1(3)] e_locked_rel [OF 1(3)] by (simp_all add: fun_eq_iff)
    have lock1: "\<And>j. j \<in> set (butlast K) \<Longrightarrow> \<not> op_lock (op_node s1 j)"
      using lock e_del_fields(7) [OF 1(3)] by simp
    have safe: "e_safe (e_dead s1 addr) (P \<noteq> []) True K" using Cons.prems(4) True by (simp add: f)
    have dist: "distinct (P @ K)" using Cons.prems(2) by simp
    obtain s' where 2: "e_del_loop m addr pre' (if K = [] then None else Some (hd K)) s1 = Some (\<exists>i \<in> set K. e_locked s1 addr i, s')"
      "chain (op_node s') (opera_info (mod_info s' m)) (P @ filter (\<lambda>i. \<not> e_dead s1 addr i) K)"
      "e_del_rel m addr K s1 s'" "\<forall>j. j \<notin> set (P @ K) \<longrightarrow> op_node s' j = op_node s1 j"
      using Cons.IH [OF 1(2) dist lock1 safe, of pre'] by auto
    have "\<not> e_locked s addr i" using True by (simp add: e_dead_def e_locked_def)
    moreover have "e_del_loop m addr pre (Some i) s = e_del_loop m addr pre' (op_next (op_node s i)) s1"
      by (subst e_del_loop_Some) (simp add: Let_def pre'_def True 1(1))
    ultimately show ?thesis using 2 1 True e_del_rel_trans [OF 1(3) 2(3)] by (intro exI [of _ s']) (simp add: f nxt)
  next
    case False
    show ?thesis
    proof (cases "op_addr (op_node s i) = addr \<and> op_type (op_node s i) = NORFLASH_API_ERASING")
      case True
      then have l: "op_lock (op_node s i)" using False by (simp add: e_dead_def)
      then have K: "K = []" using Cons.prems(3) [of i] by (cases K) auto
      have "e_del_loop m addr pre (Some i) s = Some (True, s)"
        using False True by (subst e_del_loop_Some) (simp add: Let_def)
      moreover have "e_locked s addr i" using True l by (simp add: e_locked_def)
      moreover have "e_del_rel m addr [i] s s" by (rule e_del_rel_refl) (use False in simp)
      ultimately show ?thesis using Cons.prems(1) False K by (intro exI [of _ s]) simp
    next
      case other: False
      have step: "e_del_loop m addr pre (Some i) s = e_del_loop m addr pre' (op_next (op_node s i)) s"
        by (subst e_del_loop_Some) (simp only: Let_def pre'_def False other if_False)
      have c: "chain (op_node s) (opera_info (mod_info s m)) ((P @ [i]) @ K)" "distinct ((P @ [i]) @ K)"
        using Cons.prems(1,2) by simp_all
      have safe: "e_safe (e_dead s addr) (P @ [i] \<noteq> []) False K" using Cons.prems(4) False by simp
      have p: "P @ [i] = [] \<or> K = [] \<or> False \<or> pre' = Some (last (P @ [i]))" using pre' by auto
      obtain s' where 2: "e_del_loop m addr pre' (if K = [] then None else Some (hd K)) s = Some (\<exists>i \<in> set K. e_locked s addr i, s')"
        "chain (op_node s') (opera_info (mod_info s' m)) ((P @ [i]) @ filter (\<lambda>i. \<not> e_dead s addr i) K)"
        "e_del_rel m addr K s s'" "\<forall>j. j \<notin> set ((P @ [i]) @ K) \<longrightarrow> op_node s' j = op_node s j"
        using Cons.IH [OF c lock safe p] by blast
      have "\<not> e_locked s addr i" using other by (auto simp: e_locked_def)
      with 2 step False show ?thesis by (intro exI [of _ s']) (simp add: nxt e_del_rel_keep)
    qed
  qed
qed

section \<open>The view of a module\<close>

text \<open>The place of an address in the chip, as a function of its own to keep it out of arithmetic.\<close>

definition pos :: "nat \<Rightarrow> nat" where
  "pos a = off a"

lemma pos_add: "pos a + n < 16777216 \<Longrightarrow> pos (a + n) = pos a + n"
  unfolding pos_def by (rule off_plus)

text \<open>
  Byte \<open>j\<close> of the sector \<open>S\<close>: the newest operation for the sector decides, else the flash \<open>F\<close>.
\<close>

primrec view :: "(nat \<Rightarrow> OPRA_INFO) \<Rightarrow> (nat \<Rightarrow> nat \<Rightarrow> byte) \<Rightarrow> (nat \<Rightarrow> byte) \<Rightarrow> nat list \<Rightarrow> nat \<Rightarrow> nat \<Rightarrow> byte" where
  "view nd db F [] S j = F (pos (S + j))"
| "view nd db F (i # L) S j = (if op_addr (nd i) = S
     then (if op_type (nd i) = NORFLASH_API_WRITTING then db (the (op_buff (nd i))) j else 255)
     else view nd db F L S j)"

definition in_w :: "OPRA_INFO \<Rightarrow> nat \<Rightarrow> bool" where
  "in_w n j \<longleftrightarrow> w_offs n \<le> j \<and> j < w_offs n + w_len n"

text \<open>
  A write is legal if its buffer differs from what is below only in the range to be programmed, and
  there only by cleared bits: then programming gives the buffer.
\<close>

definition legal_write :: "OPRA_INFO \<Rightarrow> (nat \<Rightarrow> byte) \<Rightarrow> (nat \<Rightarrow> byte) \<Rightarrow> bool" where
  "legal_write n buf below \<longleftrightarrow>
     (\<forall>j<4096. if in_w n j then buf j AND below j = buf j else buf j = below j)"

primrec legal :: "(nat \<Rightarrow> OPRA_INFO) \<Rightarrow> (nat \<Rightarrow> nat \<Rightarrow> byte) \<Rightarrow> (nat \<Rightarrow> byte) \<Rightarrow> nat list \<Rightarrow> bool" where
  "legal nd db F [] \<longleftrightarrow> True"
| "legal nd db F (i # L) \<longleftrightarrow> legal nd db F L \<and> (op_type (nd i) = NORFLASH_API_WRITTING \<longrightarrow>
     legal_write (nd i) (db (the (op_buff (nd i)))) (view nd db F L (op_addr (nd i))))"

text \<open>What carrying out an operation makes of the flash.\<close>

definition apply_op :: "OPRA_INFO \<Rightarrow> (nat \<Rightarrow> nat \<Rightarrow> byte) \<Rightarrow> (nat \<Rightarrow> byte) \<Rightarrow> nat \<Rightarrow> byte" where
  "apply_op n db F = (if op_type n = NORFLASH_API_WRITTING
     then prog (pos (op_addr n) + w_offs n) (map (\<lambda>j. db (the (op_buff n)) (w_offs n + j)) [0..<w_len n]) F
     else wipe (pos (op_addr n)) 4096 F)"

text \<open>A module lies on sectors of the chip.\<close>

definition mod_ok :: "nat \<Rightarrow> MODULE_INFO \<Rightarrow> bool" where
  "mod_ok tot mi \<longleftrightarrow> mod_inited mi \<and> mod_sector_len mi = 4096 \<and> mod_base_addr mi mod 4096 = 0 \<and> mod_len mi mod 4096 = 0 \<and>
     pos (mod_base_addr mi) + mod_len mi \<le> tot \<and> tot < 16777216 \<and> mod_base_addr mi + mod_len mi < 4294967296"

definition in_mod :: "MODULE_INFO \<Rightarrow> nat \<Rightarrow> bool" where
  "in_mod mi S \<longleftrightarrow> S mod 4096 = 0 \<and> mod_base_addr mi \<le> S \<and> S + 4096 \<le> mod_base_addr mi + mod_len mi"

lemma off_in_mod:
  assumes "mod_ok tot mi" "mod_base_addr mi \<le> a" "a < mod_base_addr mi + mod_len mi"
  shows "pos a = pos (mod_base_addr mi) + (a - mod_base_addr mi)" "pos a < tot"
proof -
  have "pos (mod_base_addr mi + (a - mod_base_addr mi)) = pos (mod_base_addr mi) + (a - mod_base_addr mi)"
    using assms by (intro pos_add) (auto simp: mod_ok_def)
  then show 1: "pos a = pos (mod_base_addr mi) + (a - mod_base_addr mi)" using assms(2) by simp
  show "pos a < tot" unfolding 1 using assms by (auto simp: mod_ok_def)
qed

lemma off_sector:
  assumes "mod_ok tot mi" "in_mod mi S" "j < 4096"
  shows "pos (S + j) = pos S + j" "pos S + 4096 \<le> tot"
proof -
  have r: "mod_base_addr mi \<le> S" "S < mod_base_addr mi + mod_len mi" "mod_base_addr mi \<le> S + j" "S + j < mod_base_addr mi + mod_len mi"
    using assms(2,3) by (auto simp: in_mod_def)
  have 1: "pos S = pos (mod_base_addr mi) + (S - mod_base_addr mi)" "pos (S + j) = pos (mod_base_addr mi) + (S + j - mod_base_addr mi)"
    using off_in_mod(1) [OF assms(1) r(1,2)] off_in_mod(1) [OF assms(1) r(3,4)] by simp_all
  then show "pos (S + j) = pos S + j" using assms(2) by (simp add: in_mod_def)
  show "pos S + 4096 \<le> tot" using assms unfolding 1 by (auto simp: in_mod_def mod_ok_def)
qed

text \<open>Different sectors do not overlap.\<close>

lemma sectors_apart:
  assumes "S mod 4096 = 0" "T mod 4096 = 0" "S \<noteq> (T :: nat)"
  shows "S + 4096 \<le> T \<or> T + 4096 \<le> S"
proof -
  have "4096 dvd S" "4096 dvd T" using assms(1,2) by (simp_all add: mod_0_imp_dvd)
  then obtain k l where "S = 4096 * k" "T = 4096 * l" unfolding dvd_def by blast
  with assms(3) show ?thesis by auto
qed

lemma off_other_sector:
  assumes "mod_ok tot mi" "in_mod mi S" "in_mod mi T" "S \<noteq> T" "j < 4096"
  shows "\<not> (pos T \<le> pos (S + j) \<and> pos (S + j) < pos T + 4096)"
proof -
  have r: "mod_base_addr mi \<le> S" "S < mod_base_addr mi + mod_len mi" "mod_base_addr mi \<le> T" "T < mod_base_addr mi + mod_len mi"
    using assms(2,3) by (auto simp: in_mod_def)
  have "pos S = pos (mod_base_addr mi) + (S - mod_base_addr mi)" "pos T = pos (mod_base_addr mi) + (T - mod_base_addr mi)"
    using off_in_mod(1) [OF assms(1) r(1,2)] off_in_mod(1) [OF assms(1) r(3,4)] by simp_all
  moreover have "S + 4096 \<le> T \<or> T + 4096 \<le> S" using assms(2-4) by (intro sectors_apart) (auto simp: in_mod_def)
  ultimately show ?thesis using assms(2,3,5) off_sector(1) [OF assms(1,2,5)] by (auto simp: in_mod_def)
qed

lemma prog_map:
  "prog (b + w) (map (\<lambda>j. f (w + j)) [0..<n]) F (b + j) = (if w \<le> j \<and> j < w + n then F (b + j) AND f j else F (b + j))"
  by (auto simp: prog_def)

lemma apply_op_inside:
  assumes "mod_ok tot mi" "in_mod mi (op_addr n)" "j < 4096"
  shows "apply_op n db F (pos (op_addr n + j)) = (if op_type n = NORFLASH_API_WRITTING
     then (if in_w n j then F (pos (op_addr n + j)) AND db (the (op_buff n)) j else F (pos (op_addr n + j))) else 255)"
  unfolding off_sector(1) [OF assms(1-3)] apply_op_def in_w_def using assms(3)
  by (cases "op_type n") (simp_all only: prog_map overlay_def if_True simp_thms, simp_all)

lemma apply_op_outside:
  assumes "\<not> (pos (op_addr n) \<le> x \<and> x < pos (op_addr n) + 4096)" "w_offs n + w_len n \<le> 4096"
  shows "apply_op n db F x = F x"
  using assms by (auto simp: apply_op_def prog_def overlay_def)

definition op_ok :: "nat \<Rightarrow> MODULE_INFO \<Rightarrow> OPRA_INFO \<Rightarrow> bool" where
  "op_ok tot mi n \<longleftrightarrow> op_len n = 4096 \<and> in_mod mi (op_addr n) \<and> pos (op_addr n) + 4096 < tot \<and> w_offs n + w_len n \<le> 4096 \<and>
     (if op_type n = NORFLASH_API_WRITTING then 0 < w_len n \<and> (\<exists>b<4. op_buff n = Some b) else op_buff n = None)"

lemma legal_append: "legal nd db F (L @ K) \<Longrightarrow> legal nd db F K"
  by (induction L) auto

text \<open>Carrying out the oldest operation does not change the view.\<close>

lemma view_apply:
  assumes "mod_ok tot mi" "op_ok tot mi (nd i)" "legal nd db F (L @ [i])" "in_mod mi S" "j < 4096"
  shows "view nd db (apply_op (nd i) db F) L S j = view nd db F (L @ [i]) S j"
proof (induction L)
  case Nil
  have len: "w_offs (nd i) + w_len (nd i) \<le> 4096" "in_mod mi (op_addr (nd i))" using assms(2) by (simp_all add: op_ok_def)
  have l: "op_type (nd i) = NORFLASH_API_WRITTING \<Longrightarrow>
      legal_write (nd i) (db (the (op_buff (nd i)))) (\<lambda>j. F (pos (op_addr (nd i) + j)))"
    using legal_append [OF assms(3)] by (auto simp: legal_write_def split: if_splits)
  show ?case
  proof (cases "op_addr (nd i) = S")
    case True
    with l assms(5) apply_op_inside [OF assms(1) len(2) assms(5), of db F] show ?thesis
      by (auto simp: legal_write_def and.commute)
  next
    case False
    with off_other_sector [OF assms(1,4) len(2) _ assms(5)] show ?thesis
      by (simp add: apply_op_outside [OF _ len(1)])
  qed
qed simp

lemma legal_apply:
  assumes "mod_ok tot mi" "op_ok tot mi (nd i)" "legal nd db F (L @ [i])" "\<And>k. k \<in> set L \<Longrightarrow> in_mod mi (op_addr (nd k))"
  shows "legal nd db (apply_op (nd i) db F) L"
  using assms(3,4)
proof (induction L)
  case (Cons k L)
  have "legal_write (nd k) buf (view nd db (apply_op (nd i) db F) L (op_addr (nd k))) =
      legal_write (nd k) buf (view nd db F (L @ [i]) (op_addr (nd k)))" for buf
    using view_apply [where nd = nd and i = i, OF assms(1,2), of db F L "op_addr (nd k)"] Cons.prems by (simp add: legal_write_def)
  with Cons show ?case by simp
qed simp

text \<open>The view depends on the operations and the flash below them only.\<close>

definition same_op :: "OPRA_INFO \<Rightarrow> OPRA_INFO \<Rightarrow> bool" where
  "same_op n n' \<longleftrightarrow> op_type n' = op_type n \<and> op_addr n' = op_addr n \<and> op_len n' = op_len n \<and> w_offs n' = w_offs n \<and>
     w_len n' = w_len n \<and> op_buff n' = op_buff n"

lemma view_cong:
  assumes "\<And>i. i \<in> set L \<Longrightarrow> same_op (nd i) (nd' i)"
    and "\<And>i. i \<in> set L \<Longrightarrow> op_type (nd i) = NORFLASH_API_WRITTING \<Longrightarrow> db' (the (op_buff (nd i))) = db (the (op_buff (nd i)))"
    and "F' (pos (S + j)) = F (pos (S + j))"
  shows "view nd' db' F' L S j = view nd db F L S j"
  using assms by (induction L) (auto simp: same_op_def)

lemma legal_cong:
  assumes "\<And>i. i \<in> set L \<Longrightarrow> same_op (nd i) (nd' i)"
    and "\<And>i. i \<in> set L \<Longrightarrow> op_type (nd i) = NORFLASH_API_WRITTING \<Longrightarrow> db' (the (op_buff (nd i))) = db (the (op_buff (nd i)))"
    and "\<And>i j. i \<in> set L \<Longrightarrow> j < 4096 \<Longrightarrow> F' (pos (op_addr (nd i) + j)) = F (pos (op_addr (nd i) + j))"
  shows "legal nd' db' F' L = legal nd db F L"
  using assms
proof (induction L)
  case (Cons i L)
  have "view nd' db' F' L (op_addr (nd i)) j = view nd db F L (op_addr (nd i)) j" if "j < 4096" for j
    using Cons.prems that by (intro view_cong) auto
  moreover have "legal nd' db' F' L = legal nd db F L" using Cons by auto
  moreover have "in_w (nd' i) = in_w (nd i)" "op_type (nd' i) = op_type (nd i)" "op_addr (nd' i) = op_addr (nd i)" "op_buff (nd' i) = op_buff (nd i)"
    using Cons.prems(1) [of i] by (auto simp: same_op_def in_w_def fun_eq_iff)
  ultimately show ?case using Cons.prems(2) [of i] by (auto simp: legal_write_def)
qed simp

text \<open>Taking out operations of one sector.\<close>

lemma view_filter:
  assumes "\<And>i. i \<in> set L \<Longrightarrow> op_addr (nd i) = S \<Longrightarrow> Q i"
  shows "view nd db F (filter Q L) S j = view nd db F L S j"
  using assms by (induction L) auto

lemma view_find:
  "view nd db F L S j = (case find (\<lambda>i. op_addr (nd i) = S) L of None \<Rightarrow> F (pos (S + j))
     | Some i \<Rightarrow> if op_type (nd i) = NORFLASH_API_WRITTING then db (the (op_buff (nd i))) j else 255)"
  by (induction L) auto

lemma legal_filter:
  assumes "legal nd db F L" "\<And>i. i \<in> set L \<Longrightarrow> op_addr (nd i) \<noteq> S \<Longrightarrow> Q i"
    and "\<And>i. i \<in> set (butlast L) \<Longrightarrow> op_addr (nd i) = S \<Longrightarrow> \<not> Q i"
  shows "legal nd db F (filter Q L)"
  using assms
proof (induction L)
  case (Cons i L)
  have IH: "legal nd db F (filter Q L)" using Cons by (cases "L = []") auto
  show ?case
  proof (cases "op_addr (nd i) = S")
    case True
    show ?thesis
    proof (cases "L = []")
      case True
      with Cons.prems show ?thesis by simp
    next
      case False
      with True Cons.prems(3) [of i] IH show ?thesis by simp
    qed
  next
    case False
    then have "view nd db F (filter Q L) (op_addr (nd i)) = view nd db F L (op_addr (nd i))"
      using Cons.prems(2) by (intro ext view_filter) auto
    with False Cons.prems IH show ?thesis by simp
  qed
qed simp

section \<open>The invariant\<close>

text \<open>\<open>Ls m\<close> is the list of module \<open>m\<close>, \<open>F\<close> the flash without the operation that is suspended.\<close>

definition lists_ok :: "api \<Rightarrow> (nat \<Rightarrow> nat list) \<Rightarrow> bool" where
  "lists_ok s Ls \<longleftrightarrow> (\<forall>m. 8 \<le> m \<longrightarrow> Ls m = []) \<and>
     (\<forall>m<8. chain (op_node s) (opera_info (mod_info s m)) (Ls m) \<and> distinct (Ls m)) \<and>
     (\<forall>m m'. m \<noteq> m' \<longrightarrow> set (Ls m) \<inter> set (Ls m') = {})"

definition is_w :: "api \<Rightarrow> nat \<Rightarrow> bool" where
  "is_w s i \<longleftrightarrow> op_type (op_node s i) = NORFLASH_API_WRITTING"

definition pools_ok :: "api \<Rightarrow> (nat \<Rightarrow> nat list) \<Rightarrow> bool" where
  "pools_ok s Ls \<longleftrightarrow> (\<forall>i. op_used s i \<longleftrightarrow> (\<exists>m. i \<in> set (Ls m))) \<and> (\<forall>m. \<forall>i \<in> set (Ls m). i < 15) \<and>
     (\<forall>b. data_used s b \<longleftrightarrow> (\<exists>m. \<exists>i \<in> set (Ls m). is_w s i \<and> op_buff (op_node s i) = Some b)) \<and>
     (\<forall>m m' i i' b. i \<in> set (Ls m) \<longrightarrow> i' \<in> set (Ls m') \<longrightarrow> is_w s i \<longrightarrow> is_w s i' \<longrightarrow>
        op_buff (op_node s i) = Some b \<longrightarrow> op_buff (op_node s i') = Some b \<longrightarrow> i = i')"

abbreviation tot :: "api \<Rightarrow> nat" where "tot s \<equiv> total_size (flash_hal s)"

definition apart :: "MODULE_INFO \<Rightarrow> MODULE_INFO \<Rightarrow> bool" where
  "apart mi mi' \<longleftrightarrow> pos (mod_base_addr mi) + mod_len mi \<le> pos (mod_base_addr mi') \<or>
     pos (mod_base_addr mi') + mod_len mi' \<le> pos (mod_base_addr mi)"

definition mods_ok :: "api \<Rightarrow> (nat \<Rightarrow> nat list) \<Rightarrow> bool" where
  "mods_ok s Ls \<longleftrightarrow> (\<forall>m<8. mod_inited (mod_info s m) \<longrightarrow> mod_ok (tot s) (mod_info s m)) \<and>
     (\<forall>m<8. \<not> mod_inited (mod_info s m) \<longrightarrow> Ls m = []) \<and>
     (\<forall>m<8. \<forall>i \<in> set (Ls m). op_ok (tot s) (mod_info s m) (op_node s i)) \<and>
     (\<forall>m<8. \<forall>m'<8. m \<noteq> m' \<longrightarrow> mod_inited (mod_info s m) \<longrightarrow> mod_inited (mod_info s m') \<longrightarrow> apart (mod_info s m) (mod_info s m'))"

definition susp_state :: "OPRA_INFO \<Rightarrow> NORFLASH_API_STATE" where
  "susp_state n = (if op_type n = NORFLASH_API_WRITTING then NORFLASH_API_STATE_WRITTING_SUSPEND else NORFLASH_API_STATE_ERASE_SUSPEND)"

definition busy_ok :: "api \<Rightarrow> (nat \<Rightarrow> nat list) \<Rightarrow> bool" where
  "busy_ok s Ls \<longleftrightarrow> (\<forall>m<8. \<forall>i \<in> set (Ls m). op_lock (op_node s i) \<longleftrightarrow> cur_opera_info (mod_info s m) = Some i) \<and>
     (\<forall>m<8. case cur_opera_info (mod_info s m) of None \<Rightarrow> mod_state (mod_info s m) = NORFLASH_API_STATE_IDLE
        | Some i \<Rightarrow> Ls m \<noteq> [] \<and> i = last (Ls m) \<and> cur_mod s = Some m \<and> mod_state (mod_info s m) = susp_state (op_node s i)) \<and>
     (\<forall>c. cur_mod s = Some c \<longrightarrow> c < 8 \<and> mod_inited (mod_info s c))"

text \<open>The operation that is suspended.\<close>

definition busy :: "api \<Rightarrow> nat option" where
  "busy s = (case cur_mod s of None \<Rightarrow> None | Some m \<Rightarrow> cur_opera_info (mod_info s m))"

definition susp_ok :: "OPRA_INFO \<Rightarrow> (nat \<Rightarrow> nat \<Rightarrow> byte) \<Rightarrow> (bufref \<Rightarrow> nat \<Rightarrow> byte) \<Rightarrow> bufref norhal \<Rightarrow> (nat \<Rightarrow> byte) \<Rightarrow> bool" where
  "susp_ok n db ram h F \<longleftrightarrow> suspend_state h = (if op_type n = NORFLASH_API_WRITTING then SUSPEND_STATE_PROGRAM else SUSPEND_STATE_ERASE) \<and>
     hal_ok (pos (op_addr n)) 4096 h \<and> (op_type n = NORFLASH_API_WRITTING \<longrightarrow> fst (op_next_buf h) = DATA (the (op_buff n))) \<and>
     hal_goal ram h = apply_op n db F \<and>
     (\<forall>x. \<not> (pos (op_addr n) \<le> x \<and> x < pos (op_addr n) + 4096) \<longrightarrow> cells (chip h) x = F x)"

definition hw_ok :: "api \<Rightarrow> (nat \<Rightarrow> byte) \<Rightarrow> bool" where
  "hw_ok s F \<longleftrightarrow> geom (flash_hal s) \<and> (case busy s of
     None \<Rightarrow> suspend_state (flash_hal s) = SUSPEND_STATE_NO \<and> running (chip (flash_hal s)) = None \<and> cells (chip (flash_hal s)) = F
   | Some i \<Rightarrow> susp_ok (op_node s i) (data_buf s) (ram_of s []) (flash_hal s) F)"

definition inv :: "api \<Rightarrow> (nat \<Rightarrow> nat list) \<Rightarrow> (nat \<Rightarrow> byte) \<Rightarrow> bool" where
  "inv s Ls F \<longleftrightarrow> api_inited s \<and> lists_ok s Ls \<and> pools_ok s Ls \<and> mods_ok s Ls \<and> busy_ok s Ls \<and> hw_ok s F \<and>
     (\<forall>m<8. legal (op_node s) (data_buf s) F (Ls m))"

text \<open>The bytes a module sees.\<close>

definition mview :: "api \<Rightarrow> (nat \<Rightarrow> nat list) \<Rightarrow> (nat \<Rightarrow> byte) \<Rightarrow> nat \<Rightarrow> nat \<Rightarrow> byte" where
  "mview s Ls F m a = view (op_node s) (data_buf s) F (Ls m) (a div 4096 * 4096) (a mod 4096)"

definition in_range :: "MODULE_INFO \<Rightarrow> nat \<Rightarrow> bool" where
  "in_range mi a \<longleftrightarrow> mod_base_addr mi \<le> a \<and> a < mod_base_addr mi + mod_len mi"

definition user :: "api \<Rightarrow> nat \<Rightarrow> bool" where
  "user s m \<longleftrightarrow> m < 8 \<and> mod_inited (mod_info s m)"

definition api_rep :: "api \<Rightarrow> (nat \<Rightarrow> nat list) \<Rightarrow> (nat \<Rightarrow> nat \<Rightarrow> byte) \<Rightarrow> bool" where
  "api_rep s Ls M \<longleftrightarrow> (\<exists>F. inv s Ls F \<and> (\<forall>m a. user s m \<longrightarrow> in_range (mod_info s m) a \<longrightarrow> mview s Ls F m a = M m a))"

lemma busy_okD:
  assumes "busy_ok s Ls" "m < 8" "cur_opera_info (mod_info s m) = Some i"
  shows "Ls m \<noteq> []" "i = last (Ls m)" "cur_mod s = Some m" "mod_state (mod_info s m) = susp_state (op_node s i)" "i \<in> set (Ls m)"
proof -
  have *: "case cur_opera_info (mod_info s m) of None \<Rightarrow> mod_state (mod_info s m) = NORFLASH_API_STATE_IDLE
        | Some i \<Rightarrow> Ls m \<noteq> [] \<and> i = last (Ls m) \<and> cur_mod s = Some m \<and> mod_state (mod_info s m) = susp_state (op_node s i)"
    using assms(1,2) unfolding busy_ok_def by blast
  then show "Ls m \<noteq> []" "i = last (Ls m)" "cur_mod s = Some m" "mod_state (mod_info s m) = susp_state (op_node s i)"
    using assms(3) by simp_all
  then show "i \<in> set (Ls m)" by simp
qed

lemma busy_ok_idle:
  assumes "busy_ok s Ls" "m < 8" "cur_opera_info (mod_info s m) = None"
  shows "mod_state (mod_info s m) = NORFLASH_API_STATE_IDLE"
proof -
  have *: "case cur_opera_info (mod_info s m) of None \<Rightarrow> mod_state (mod_info s m) = NORFLASH_API_STATE_IDLE
        | Some i \<Rightarrow> Ls m \<noteq> [] \<and> i = last (Ls m) \<and> cur_mod s = Some m \<and> mod_state (mod_info s m) = susp_state (op_node s i)"
    using assms(1,2) unfolding busy_ok_def by blast
  with assms(3) show ?thesis by simp
qed

lemma busy_mod:
  assumes "busy_ok s Ls" "busy s = Some i"
  shows "\<exists>m. cur_mod s = Some m \<and> m < 8 \<and> cur_opera_info (mod_info s m) = Some i \<and> i \<in> set (Ls m) \<and> i = last (Ls m)"
proof -
  from assms(2) obtain m where m: "cur_mod s = Some m" "cur_opera_info (mod_info s m) = Some i"
    by (auto simp: busy_def split: option.splits)
  moreover have "m < 8" using assms(1) m(1) unfolding busy_ok_def by blast
  ultimately show ?thesis using busy_okD [OF assms(1)] by blast
qed

lemma not_busy:
  assumes "busy_ok s Ls" "busy s = None" "m < 8"
  shows "cur_opera_info (mod_info s m) = None"
proof (rule ccontr)
  assume "cur_opera_info (mod_info s m) \<noteq> None"
  then obtain i where i: "cur_opera_info (mod_info s m) = Some i" by blast
  with busy_okD(3) [OF assms(1,3)] have "cur_mod s = Some m" by blast
  with i assms(2) show False by (simp add: busy_def)
qed

lemma sector_disjoint:
  assumes "mods_ok s Ls" "user s m" "user s m'" "in_mod (mod_info s m) S" "in_mod (mod_info s m') T" "m \<noteq> m' \<or> S \<noteq> T" "j < 4096"
  shows "\<not> (pos T \<le> pos (S + j) \<and> pos (S + j) < pos T + 4096)"
proof (cases "m = m'")
  case True
  with assms show ?thesis by (intro off_other_sector [of "tot s" "mod_info s m"]) (auto simp: mods_ok_def user_def)
next
  case False
  let ?a = "mod_info s m" and ?b = "mod_info s m'"
  have ok: "mod_ok (tot s) ?a" "mod_ok (tot s) ?b" "apart ?a ?b" using assms(1-3) False by (auto simp: mods_ok_def user_def)
  have r: "mod_base_addr ?a \<le> S" "S < mod_base_addr ?a + mod_len ?a" "S + 4096 \<le> mod_base_addr ?a + mod_len ?a"
     "mod_base_addr ?b \<le> T" "T < mod_base_addr ?b + mod_len ?b" "T + 4096 \<le> mod_base_addr ?b + mod_len ?b"
    using assms(4,5) by (auto simp: in_mod_def)
  have p: "pos S = pos (mod_base_addr ?a) + (S - mod_base_addr ?a)" "pos T = pos (mod_base_addr ?b) + (T - mod_base_addr ?b)"
    using off_in_mod(1) [OF ok(1) r(1,2)] off_in_mod(1) [OF ok(2) r(4,5)] by simp_all
  have "pos (S + j) = pos S + j" by (rule off_sector(1) [OF ok(1) assms(4,7)])
  with p r assms(7) ok(3) show ?thesis by (auto simp: apart_def)
qed

lemma flash_byte_F:
  assumes "inv s Ls F" "user s m" "in_mod (mod_info s m) S" "\<And>i. i \<in> set (Ls m) \<Longrightarrow> op_addr (op_node s i) \<noteq> S" "j < 4096"
  shows "flash_byte s (S + j) = F (pos (S + j))"
proof -
  have ok: "lists_ok s Ls" "mods_ok s Ls" "busy_ok s Ls" "hw_ok s F" using assms(1) by (simp_all add: inv_def)
  have fb: "flash_byte s (S + j) = cells (chip (flash_hal s)) (pos (S + j))" by (simp add: flash_byte_def pos_def masks)
  show ?thesis
  proof (cases "busy s")
    case None
    with ok(4) fb show ?thesis by (simp add: hw_ok_def)
  next
    case (Some i)
    obtain m' where m': "cur_mod s = Some m'" "m' < 8" "i \<in> set (Ls m')" using busy_mod [OF ok(3) Some] by blast
    have u: "user s m'" using m' ok(3) by (auto simp: user_def busy_ok_def)
    have i: "in_mod (mod_info s m') (op_addr (op_node s i))" using ok(2) m'(2,3) by (auto simp: mods_ok_def op_ok_def)
    have "m \<noteq> m' \<or> S \<noteq> op_addr (op_node s i)" using assms(4) m'(3) by auto
    from sector_disjoint [OF ok(2) assms(2) u assms(3) i this assms(5)] Some ok(4) fb show ?thesis
      by (simp add: hw_ok_def susp_ok_def)
  qed
qed

section \<open>Reading\<close>

lemma in_range_sector:
  assumes "mod_ok N mi" "in_range mi a"
  shows "in_mod mi (a div 4096 * 4096)"
proof -
  have b: "mod_base_addr mi mod 4096 = 0" "mod_len mi mod 4096 = 0" using assms(1) by (simp_all add: mod_ok_def)
  then have "4096 dvd mod_base_addr mi" "4096 dvd mod_len mi" by (simp_all add: mod_0_imp_dvd)
  then obtain k l where kl: "mod_base_addr mi = 4096 * k" "mod_len mi = 4096 * l" unfolding dvd_def by blast
  then have "4096 * k \<le> a" "a < 4096 * (k + l)" using assms(2) by (simp_all add: in_range_def distrib_left)
  then have "k \<le> a div 4096" "a div 4096 < k + l" by (simp_all add: less_eq_div_iff_mult_less_eq less_mult_imp_div_less mult.commute)
  then have "4096 * k \<le> 4096 * (a div 4096)" "4096 * (a div 4096) + 4096 \<le> 4096 * k + 4096 * l" by simp_all
  then show ?thesis unfolding in_mod_def kl by (simp add: mult.commute)
qed

lemma same_sector: "a mod 4096 + n \<le> 4096 \<Longrightarrow> k < n \<Longrightarrow> (a + k) div 4096 = a div 4096 \<and> (a + k) mod 4096 = a mod 4096 + k" for a :: nat
proof -
  assume 1: "a mod 4096 + n \<le> 4096" "k < n"
  define q r where "q = a div 4096" and "r = a mod 4096"
  have a: "a + k = r + k + q * 4096" by (simp add: q_def r_def)
  have "r + k < 4096" using 1 by (simp add: r_def)
  then show ?thesis unfolding a q_def [symmetric] r_def [symmetric] by simp
qed

lemma opera_read_view:
  assumes "inv s Ls F" "user s m" "in_range (mod_info s m) a" "a mod 4096 + n \<le> 4096"
  shows "opera_read m a n s = Some (map (mview s Ls F m) [a..<a + n])"
proof -
  let ?S = "a div 4096 * 4096"
  have ok: "lists_ok s Ls" "mods_ok s Ls" "m < 8" using assms(1,2) by (simp_all add: inv_def user_def)
  have mo: "mod_ok (tot s) (mod_info s m)" using ok assms(2) by (auto simp: mods_ok_def user_def)
  then have len: "mod_sector_len (mod_info s m) = 4096" by (simp add: mod_ok_def)
  have S: "in_mod (mod_info s m) ?S" by (rule in_range_sector [OF mo assms(3)])
  have ch: "chain (op_node s) (opera_info (mod_info s m)) (Ls m)" using ok by (simp add: lists_ok_def)
  have mv: "mview s Ls F m (a + k) = view (op_node s) (data_buf s) F (Ls m) ?S (a mod 4096 + k)" if "k < n" for k
    using same_sector [OF assms(4) that] by (simp add: mview_def)
  have r: "a - ?S = a mod 4096" by (simp add: minus_div_mult_eq_mod)
  have res: "map (mview s Ls F m) [a..<a + n] = map (\<lambda>k. view (op_node s) (data_buf s) F (Ls m) ?S (a mod 4096 + k)) [0..<n]"
    by (rule nth_equalityI) (simp_all add: mv)
  show ?thesis
  proof (cases "find (\<lambda>i. op_addr (op_node s i) = ?S) (Ls m)")
    case None
    then have no: "\<And>i. i \<in> set (Ls m) \<Longrightarrow> op_addr (op_node s i) \<noteq> ?S" by (auto simp: find_None_iff)
    have "flash_byte s (a + k) = view (op_node s) (data_buf s) F (Ls m) ?S (a mod 4096 + k)" if "k < n" for k
    proof -
      have "?S + (a mod 4096 + k) = a + k" by (simp add: add.assoc [symmetric])
      then show ?thesis using flash_byte_F [OF assms(1,2) S no, of "a mod 4096 + k"] that assms(4) None
        by (simp add: view_find)
    qed
    then have "flash_bytes s a n = map (\<lambda>k. view (op_node s) (data_buf s) F (Ls m) ?S (a mod 4096 + k)) [0..<n]"
      by (simp add: flash_bytes_def)
    with None show ?thesis by (simp add: opera_read_def sector_start_def len find_loop_chain [OF ch] res)
  next
    case (Some i)
    then have i: "i \<in> set (Ls m)" by (auto simp: find_Some_iff)
    then have iok: "op_ok (tot s) (mod_info s m) (op_node s i)" using ok by (auto simp: mods_ok_def)
    have v: "view (op_node s) (data_buf s) F (Ls m) ?S j =
        (if op_type (op_node s i) = NORFLASH_API_WRITTING then data_buf s (the (op_buff (op_node s i))) j else 255)" for j
      using Some by (simp add: view_find)
    show ?thesis
    proof (cases "op_type (op_node s i) = NORFLASH_API_WRITTING")
      case True
      then obtain b where "op_buff (op_node s i) = Some b" using iok by (auto simp: op_ok_def)
      with True Some assms(4) show ?thesis
        by (simp add: opera_read_def sector_start_def len find_loop_chain [OF ch] res v data_get_def r)
    next
      case False
      with Some show ?thesis
        by (simp add: opera_read_def sector_start_def len find_loop_chain [OF ch] res v map_replicate_const)
    qed
  qed
qed

section \<open>Changing the state\<close>

lemma chunk_cong: "ram (fst p) = ram' (fst p) \<Longrightarrow> chunk ram p n = chunk ram' p n"
  by (cases p) (simp add: chunk_def)

lemma hal_goal_cong:
  "(suspend_state h = SUSPEND_STATE_PROGRAM \<Longrightarrow> ram (fst (op_next_buf h)) = ram' (fst (op_next_buf h))) \<Longrightarrow> hal_goal ram h = hal_goal ram' h"
  by (cases "suspend_state h") (simp_all add: hal_goal_def chunk_cong [of ram "op_next_buf h" ram'])

lemma apply_op_cong:
  assumes "same_op n n'" "op_type n = NORFLASH_API_WRITTING \<Longrightarrow> db' (the (op_buff n)) = db (the (op_buff n))"
  shows "apply_op n' db' F = apply_op n db F"
  using assms by (simp add: apply_op_def same_op_def)

lemma susp_ok_cong:
  assumes "susp_ok n db (ram_of s c) h F" "same_op n n'" "op_type n = NORFLASH_API_WRITTING \<Longrightarrow> db' (the (op_buff n)) = db (the (op_buff n))"
    and "db = data_buf s" "db' = data_buf s'"
  shows "susp_ok n' db' (ram_of s' c') h F"
proof -
  have "hal_goal (ram_of s' c') h = hal_goal (ram_of s c) h"
  proof (rule hal_goal_cong)
    assume p: "suspend_state h = SUSPEND_STATE_PROGRAM"
    then have w: "op_type n = NORFLASH_API_WRITTING" using assms(1) by (auto simp: susp_ok_def split: if_splits)
    then have "fst (op_next_buf h) = DATA (the (op_buff n))" using assms(1) by (simp add: susp_ok_def)
    with assms(3) [OF w] assms(4,5) show "ram_of s' c' (fst (op_next_buf h)) = ram_of s c (fst (op_next_buf h))"
      by (simp add: ram_of_def fun_eq_iff)
  qed
  moreover have "apply_op n' db' F = apply_op n db F" using assms(2,3) by (rule apply_op_cong)
  ultimately show ?thesis using assms(1,2) by (auto simp: susp_ok_def same_op_def)
qed

lemma hw_ok_cong:
  assumes "hw_ok s F" "flash_hal s' = flash_hal s" "busy s' = busy s"
    and "\<And>i. busy s = Some i \<Longrightarrow> same_op (op_node s i) (op_node s' i)"
    and "\<And>i. busy s = Some i \<Longrightarrow> is_w s i \<Longrightarrow> data_buf s' (the (op_buff (op_node s i))) = data_buf s (the (op_buff (op_node s i)))"
  shows "hw_ok s' F"
proof (cases "busy s")
  case None
  with assms(1-3) show ?thesis by (simp add: hw_ok_def)
next
  case (Some i)
  have "susp_ok (op_node s i) (data_buf s) (ram_of s []) (flash_hal s) F" using assms(1) Some by (simp add: hw_ok_def)
  then have "susp_ok (op_node s' i) (data_buf s') (ram_of s' []) (flash_hal s) F"
    by (rule susp_ok_cong) (use assms(4,5) Some in \<open>auto simp: is_w_def\<close>)
  with assms(1-3) Some show ?thesis by (simp add: hw_ok_def)
qed

lemma same_op_refl [simp]: "same_op n n"
  by (simp add: same_op_def)

lemma same_op_lock [simp]: "same_op n (n\<lparr>op_lock := l\<rparr>)" "same_op n (n\<lparr>op_next := x\<rparr>)"
  by (simp_all add: same_op_def)

end
