(* ===== verification/FlashOps.thy ===== *)
theory FlashOps
  imports FlashSpec
begin

text \<open>
  The operations of the queue keep the invariant of \<open>FlashSpec\<close> and change the view of the modules as
  they promise: a write or an erase is visible to its module at once; working on the queue, in pieces
  or to the end, is visible to nobody.
\<close>

section \<open>Parts of the invariant\<close>

text \<open>Where a module lies does not depend on its list.\<close>

definition same_place :: "MODULE_INFO \<Rightarrow> MODULE_INFO \<Rightarrow> bool" where
  "same_place mi mi' \<longleftrightarrow> mod_inited mi' = mod_inited mi \<and> mod_base_addr mi' = mod_base_addr mi \<and> mod_len mi' = mod_len mi \<and>
     mod_sector_len mi' = mod_sector_len mi"

lemma same_place_upd [simp]:
  "same_place mi mi" "same_place mi (mi\<lparr>opera_info := x\<rparr>)" "same_place mi (mi\<lparr>cur_opera_info := x\<rparr>)" "same_place mi (mi\<lparr>mod_state := y\<rparr>)"
  "same_place mi (mi\<lparr>opera_info := x, cur_opera_info := z\<rparr>)" "same_place mi (mi\<lparr>cur_opera_info := x, mod_state := y\<rparr>)"
  by (simp_all add: same_place_def)

lemma same_place_eqs:
  assumes "same_place mi mi'"
  shows "mod_inited mi' = mod_inited mi" "mod_ok t mi' = mod_ok t mi" "in_mod mi' = in_mod mi" "op_ok t mi' = op_ok t mi"
    "in_range mi' = in_range mi" "mod_sector_len mi' = mod_sector_len mi"
  using assms by (simp_all add: same_place_def mod_ok_def in_mod_def op_ok_def in_range_def fun_eq_iff)

lemma same_place_apart: "same_place mi mi' \<Longrightarrow> same_place ni ni' \<Longrightarrow> apart mi' ni' = apart mi ni"
  by (simp add: same_place_def apart_def)

text \<open>The modules stay where they are and the lists hold operations for them.\<close>

lemma mods_ok_cong:
  assumes "mods_ok s Ls" "\<And>k. same_place (mod_info s k) (mod_info s' k)" "tot s' = tot s"
    and "\<And>k. k < 8 \<Longrightarrow> \<not> mod_inited (mod_info s k) \<Longrightarrow> Ls' k = []"
    and "\<And>k j. k < 8 \<Longrightarrow> j \<in> set (Ls' k) \<Longrightarrow> op_ok (tot s) (mod_info s k) (op_node s' j)"
  shows "mods_ok s' Ls'"
  using assms(1,4,5) unfolding mods_ok_def same_place_eqs [OF assms(2)] assms(3) same_place_apart [OF assms(2,2)]
  by blast

lemma busy_ok_intro:
  assumes "\<And>m i. m < 8 \<Longrightarrow> i \<in> set (Ls m) \<Longrightarrow> op_lock (op_node s i) \<longleftrightarrow> cur_opera_info (mod_info s m) = Some i"
    and "\<And>m. m < 8 \<Longrightarrow> cur_opera_info (mod_info s m) = None \<Longrightarrow> mod_state (mod_info s m) = NORFLASH_API_STATE_IDLE"
    and "\<And>m i. m < 8 \<Longrightarrow> cur_opera_info (mod_info s m) = Some i \<Longrightarrow>
       Ls m \<noteq> [] \<and> i = last (Ls m) \<and> cur_mod s = Some m \<and> mod_state (mod_info s m) = susp_state (op_node s i)"
    and "\<And>c. cur_mod s = Some c \<Longrightarrow> c < 8 \<and> mod_inited (mod_info s c)"
  shows "busy_ok s Ls"
proof -
  have "case cur_opera_info (mod_info s m) of None \<Rightarrow> mod_state (mod_info s m) = NORFLASH_API_STATE_IDLE
        | Some i \<Rightarrow> Ls m \<noteq> [] \<and> i = last (Ls m) \<and> cur_mod s = Some m \<and> mod_state (mod_info s m) = susp_state (op_node s i)"
    if "m < 8" for m using assms(2,3) [OF that] by (cases "cur_opera_info (mod_info s m)") simp_all
  with assms(1,4) show ?thesis unfolding busy_ok_def by blast
qed

lemma lists_apart: "lists_ok s Ls \<Longrightarrow> j \<in> set (Ls k) \<Longrightarrow> j \<in> set (Ls k') \<Longrightarrow> k = k'"
  unfolding lists_ok_def by blast

lemma busy_lock: "busy_ok s Ls \<Longrightarrow> m < 8 \<Longrightarrow> i \<in> set (Ls m) \<Longrightarrow> op_lock (op_node s i) \<longleftrightarrow> cur_opera_info (mod_info s m) = Some i"
  unfolding busy_ok_def by blast

lemma busy_cur: "busy_ok s Ls \<Longrightarrow> cur_mod s = Some c \<Longrightarrow> c < 8 \<and> mod_inited (mod_info s c)"
  unfolding busy_ok_def by blast

section \<open>A new operation\<close>

lemma buff_used:
  assumes "pools_ok s Ls" "k \<in> set (Ls m)" "is_w s k" "op_buff (op_node s k) = Some b"
  shows "data_used s b"
  using assms unfolding pools_ok_def by blast

lemma node_unused: "pools_ok s Ls \<Longrightarrow> \<not> op_used s i \<Longrightarrow> i \<notin> set (Ls m)"
  unfolding pools_ok_def by blast

lemma w_buff:
  assumes "inv s Ls F" "k \<in> set (Ls m)" "is_w s k"
  shows "\<exists>b<4. op_buff (op_node s k) = Some b \<and> data_used s b"
proof -
  have i: "lists_ok s Ls" "pools_ok s Ls" "mods_ok s Ls" using assms(1) by (simp_all add: inv_def)
  have "m < 8" using i(1) assms(2) by (cases "8 \<le> m") (auto simp: lists_ok_def)
  with i(3) assms(2) have "op_ok (tot s) (mod_info s m) (op_node s k)" by (simp add: mods_ok_def)
  then obtain b where b: "b < 4" "op_buff (op_node s k) = Some b" using assms(3) by (auto simp: op_ok_def is_w_def)
  with buff_used [OF i(2) assms(2,3)] show ?thesis by blast
qed

text \<open>What a node put at the head changes.\<close>

definition pushed :: "nat \<Rightarrow> nat \<Rightarrow> OPRA_INFO \<Rightarrow> api \<Rightarrow> api \<Rightarrow> bool" where
  "pushed m i n s s' \<longleftrightarrow> \<not> op_used s i \<and> i < 15 \<and> \<not> op_lock n \<and> op_next n = opera_info (mod_info s m) \<and>
     mod_info s' = (mod_info s)(m := (mod_info s m)\<lparr>opera_info := Some i\<rparr>) \<and> op_node s' = (op_node s)(i := n) \<and>
     op_used s' = (op_used s)(i := True) \<and> flash_hal s' = flash_hal s \<and> cur_mod s' = cur_mod s \<and> (api_inited s \<longrightarrow> api_inited s') \<and>
     (if op_type n = NORFLASH_API_WRITTING
      then \<not> data_used s (the (op_buff n)) \<and> data_used s' = (data_used s)(the (op_buff n) := True) \<and>
        (\<forall>c. c \<noteq> the (op_buff n) \<longrightarrow> data_buf s' c = data_buf s c)
      else data_used s' = data_used s \<and> data_buf s' = data_buf s)"

lemma push_new: "inv s Ls F \<Longrightarrow> pushed m i n s s' \<Longrightarrow> i \<notin> set (Ls k)"
  using node_unused by (simp add: inv_def pushed_def) blast

lemma push_node: "inv s Ls F \<Longrightarrow> pushed m i n s s' \<Longrightarrow> k \<in> set (Ls m') \<Longrightarrow> op_node s' k = op_node s k"
  using push_new [of s Ls F m i n s' m'] by (auto simp: pushed_def)

lemma push_buff:
  assumes "inv s Ls F" "pushed m i n s s'" "k \<in> set (Ls m')" "is_w s k" "op_type n = NORFLASH_API_WRITTING"
  shows "op_buff (op_node s k) \<noteq> op_buff n"
  using w_buff [OF assms(1,3,4)] assms(2,5) by (auto simp: pushed_def)

lemma push_data:
  assumes "inv s Ls F" "pushed m i n s s'" "k \<in> set (Ls m')" "is_w s k"
  shows "data_buf s' (the (op_buff (op_node s k))) = data_buf s (the (op_buff (op_node s k)))"
proof (cases "op_type n = NORFLASH_API_WRITTING")
  case True
  obtain b where "op_buff (op_node s k) = Some b" "data_used s b" using w_buff [OF assms(1,3,4)] by blast
  then have "the (op_buff (op_node s k)) \<noteq> the (op_buff n)" using assms(2) True by (auto simp: pushed_def)
  with assms(2) True show ?thesis by (simp add: pushed_def)
next
  case False
  with assms(2) show ?thesis by (simp add: pushed_def)
qed

lemma push_view: "inv s Ls F \<Longrightarrow> pushed m i n s s' \<Longrightarrow>
    view (op_node s') (data_buf s') F (Ls m') S j = view (op_node s) (data_buf s) F (Ls m') S j"
  by (rule view_cong) (simp_all add: push_node push_data is_w_def)

lemma push_lists:
  assumes "inv s Ls F" "pushed m i n s s'" "m < 8"
  shows "lists_ok s' (Ls(m := i # Ls m))"
proof -
  have l: "lists_ok s Ls" using assms(1) by (simp add: inv_def)
  note new = push_new [OF assms(1,2)] and nd = push_node [OF assms(1,2)]
  have c: "chain (op_node s') h (Ls k) = chain (op_node s) h (Ls k)" for h k
    by (rule chain_cong) (simp add: nd)
  have pm: "opera_info (mod_info s' k) = (if k = m then Some i else opera_info (mod_info s k))" "op_next (op_node s' i) = opera_info (mod_info s m)" for k
    using assms(2) by (simp_all add: pushed_def)
  have "chain (op_node s') (opera_info (mod_info s' k)) ((Ls(m := i # Ls m)) k) \<and> distinct ((Ls(m := i # Ls m)) k)" if "k < 8" for k
    using l that new by (simp add: lists_ok_def pm c)
  moreover have "set ((Ls(m := i # Ls m)) k) \<inter> set ((Ls(m := i # Ls m)) k') = {}" if "k \<noteq> k'" for k k'
    using l that new unfolding lists_ok_def by auto
  ultimately show ?thesis using l assms(3) by (simp add: lists_ok_def)
qed

lemma push_in: "k \<in> set ((Ls(m := i # Ls m)) m') \<longleftrightarrow> k \<in> set (Ls m') \<or> m' = m \<and> k = i"
  by auto

lemma push_pools:
  assumes "inv s Ls F" "pushed m i n s s'" "op_ok t mi n"
  shows "pools_ok s' (Ls(m := i # Ls m))"
proof -
  have l: "pools_ok s Ls" using assms(1) by (simp add: inv_def)
  note new = push_new [OF assms(1,2)] and nd = push_node [OF assms(1,2)] and pu = assms(2) [unfolded pushed_def]
  have n: "op_node s' i = n" using pu by simp
  have w: "is_w s' k = is_w s k" if "k \<in> set (Ls m')" for k m' using nd [OF that] by (simp add: is_w_def)
  have 1: "op_used s' k \<longleftrightarrow> (\<exists>m'. k \<in> set ((Ls(m := i # Ls m)) m'))" for k
    using l pu unfolding pools_ok_def push_in by auto
  have 2: "\<forall>m'. \<forall>k \<in> set ((Ls(m := i # Ls m)) m'). k < 15" using l pu unfolding pools_ok_def push_in by auto
  have 3: "data_used s' b \<longleftrightarrow> (\<exists>m'. \<exists>k \<in> set ((Ls(m := i # Ls m)) m'). is_w s' k \<and> op_buff (op_node s' k) = Some b)" (is "_ \<longleftrightarrow> ?R") for b
  proof -
    have "?R \<longleftrightarrow> (\<exists>m'. \<exists>k \<in> set (Ls m'). is_w s' k \<and> op_buff (op_node s' k) = Some b) \<or>
        is_w s' i \<and> op_buff (op_node s' i) = Some b" unfolding Bex_def push_in by blast
    also have "\<dots> \<longleftrightarrow> (\<exists>m'. \<exists>k \<in> set (Ls m'). is_w s k \<and> op_buff (op_node s k) = Some b) \<or>
        (op_type n = NORFLASH_API_WRITTING \<and> op_buff n = Some b)"
      by (simp add: w nd is_w_def n cong: bex_cong)
    also have "\<dots> \<longleftrightarrow> data_used s b \<or> (op_type n = NORFLASH_API_WRITTING \<and> op_buff n = Some b)" using l by (simp add: pools_ok_def)
    also have "\<dots> \<longleftrightarrow> data_used s' b"
    proof (cases "op_type n = NORFLASH_API_WRITTING")
      case True
      then obtain c where "op_buff n = Some c" using assms(3) by (auto simp: op_ok_def)
      with True pu show ?thesis by auto
    next
      case False
      with pu show ?thesis by simp
    qed
    finally show ?thesis by simp
  qed
  have 4: "k = k'" if k: "k \<in> set ((Ls(m := i # Ls m)) a)" "k' \<in> set ((Ls(m := i # Ls m)) a')" "is_w s' k" "is_w s' k'"
      "op_buff (op_node s' k) = Some b" "op_buff (op_node s' k') = Some b" for k k' a a' b
  proof -
    have nb: "op_type n = NORFLASH_API_WRITTING \<Longrightarrow> x \<in> set (Ls y) \<Longrightarrow> is_w s x \<Longrightarrow> op_buff (op_node s x) \<noteq> op_buff n" for x y
      using push_buff [OF assms(1,2)] by blast
    have nw: "is_w s' i \<longleftrightarrow> op_type n = NORFLASH_API_WRITTING" using n by (simp add: is_w_def)
    consider "k = i" "k' = i" | "k = i" "k' \<in> set (Ls a')" | "k' = i" "k \<in> set (Ls a)" | "k \<in> set (Ls a)" "k' \<in> set (Ls a')"
      using k(1,2) unfolding push_in by blast
    then show ?thesis
    proof cases
      case 2
      with k nw w [OF 2(2)] nd [OF 2(2)] nb [OF _ 2(2)] n show ?thesis by auto
    next
      case 3
      with k nw w [OF 3(2)] nd [OF 3(2)] nb [OF _ 3(2)] n show ?thesis by auto
    next
      case 4
      then have "is_w s k" "is_w s k'" "op_buff (op_node s k) = Some b" "op_buff (op_node s k') = Some b"
        using k w nd by simp_all
      with 4 l show ?thesis unfolding pools_ok_def by blast
    qed simp
  qed
  show ?thesis unfolding pools_ok_def using 1 2 3 4 by blast
qed

lemma push_mod: "pushed m i n s s' \<Longrightarrow> mod_info s' k = (if k = m then (mod_info s m)\<lparr>opera_info := Some i\<rparr> else mod_info s k)"
  by (simp add: pushed_def)

lemma push_mods:
  assumes "inv s Ls F" "pushed m i n s s'" "user s m" "op_ok (tot s) (mod_info s m) n"
  shows "mods_ok s' (Ls(m := i # Ls m))"
proof (rule mods_ok_cong)
  show m: "mods_ok s Ls" using assms(1) by (simp add: inv_def)
  show "same_place (mod_info s k) (mod_info s' k)" for k by (simp add: push_mod [OF assms(2)])
  show "tot s' = tot s" using assms(2) by (simp add: pushed_def)
  show "(Ls(m := i # Ls m)) k = []" if "k < 8" "\<not> mod_inited (mod_info s k)" for k
    using m that assms(3) by (auto simp: mods_ok_def user_def)
  show "op_ok (tot s) (mod_info s k) (op_node s' j)" if k: "k < 8" "j \<in> set ((Ls(m := i # Ls m)) k)" for k j
  proof (cases "j \<in> set (Ls k)")
    case True
    with m k(1) show ?thesis by (simp add: push_node [OF assms(1,2) True] mods_ok_def)
  next
    case False
    with k(2) have "k = m" "j = i" unfolding push_in by auto
    with assms(2,4) show ?thesis by (simp add: pushed_def)
  qed
qed

lemma push_busy:
  assumes "inv s Ls F" "pushed m i n s s'"
  shows "busy_ok s' (Ls(m := i # Ls m))"
proof (rule busy_ok_intro)
  have b: "busy_ok s Ls" using assms(1) by (simp add: inv_def)
  note new = push_new [OF assms(1,2)] and nd = push_node [OF assms(1,2)] and pm = push_mod [OF assms(2)]
  have pu: "op_node s' i = n" "\<not> op_lock n" "cur_mod s' = cur_mod s" using assms(2) by (simp_all add: pushed_def)
  show "op_lock (op_node s' j) \<longleftrightarrow> cur_opera_info (mod_info s' k) = Some j" if k: "k < 8" "j \<in> set ((Ls(m := i # Ls m)) k)" for k j
  proof (cases "j \<in> set (Ls k)")
    case True
    with busy_lock [OF b k(1) True] show ?thesis by (simp add: nd pm)
  next
    case False
    with k(2) have j: "k = m" "j = i" unfolding push_in by auto
    then have "cur_opera_info (mod_info s k) \<noteq> Some i" using busy_okD(5) [OF b k(1), of i] new by blast
    with pu j show ?thesis by (simp add: pm)
  qed
  show "mod_state (mod_info s' k) = NORFLASH_API_STATE_IDLE" if "k < 8" "cur_opera_info (mod_info s' k) = None" for k
    using busy_ok_idle [OF b that(1)] that(2) by (simp add: pm split: if_splits)
  show "(Ls(m := i # Ls m)) k \<noteq> [] \<and> j = last ((Ls(m := i # Ls m)) k) \<and> cur_mod s' = Some k \<and> mod_state (mod_info s' k) = susp_state (op_node s' j)"
    if "k < 8" "cur_opera_info (mod_info s' k) = Some j" for k j
  proof -
    have c: "cur_opera_info (mod_info s k) = Some j" using that(2) by (simp add: pm split: if_splits)
    note d = busy_okD [OF b that(1) c]
    show ?thesis using d pu nd [OF d(5)] by (cases "k = m") (simp_all add: pm)
  qed
  show "c < 8 \<and> mod_inited (mod_info s' c)" if "cur_mod s' = Some c" for c
    using busy_cur [OF b] that pu(3) by (cases "c = m") (simp_all add: pm)
qed

lemma busy_cong: "cur_mod s' = cur_mod s \<Longrightarrow> (\<And>k. cur_opera_info (mod_info s' k) = cur_opera_info (mod_info s k)) \<Longrightarrow> busy s' = busy s"
  by (simp add: busy_def split: option.split)

lemma busy_in:
  assumes "inv s Ls F" "busy s = Some i"
  shows "\<exists>m. m < 8 \<and> cur_mod s = Some m \<and> i \<in> set (Ls m) \<and> i = last (Ls m)"
  using busy_mod [of s Ls i] assms by (auto simp: inv_def)

lemma push_hw:
  assumes "inv s Ls F" "pushed m i n s s'"
  shows "hw_ok s' F"
proof (rule hw_ok_cong)
  show "hw_ok s F" using assms(1) by (simp add: inv_def)
  show "flash_hal s' = flash_hal s" using assms(2) by (simp add: pushed_def)
  show "busy s' = busy s" by (rule busy_cong) (use assms(2) in \<open>simp_all add: pushed_def\<close>)
  show "same_op (op_node s j) (op_node s' j)" if "busy s = Some j" for j
    using busy_in [OF assms(1) that] push_node [OF assms] by auto
  show "data_buf s' (the (op_buff (op_node s j))) = data_buf s (the (op_buff (op_node s j)))" if "busy s = Some j" "is_w s j" for j
    using busy_in [OF assms(1) that(1)] push_data [OF assms _ that(2)] by auto
qed

lemma legal_same:
  assumes "\<And>i. i \<in> set L \<Longrightarrow> op_node s' i = op_node s i" "\<And>i. i \<in> set L \<Longrightarrow> is_w s i \<Longrightarrow>
      data_buf s' (the (op_buff (op_node s i))) = data_buf s (the (op_buff (op_node s i)))"
  shows "legal (op_node s') (data_buf s') F L = legal (op_node s) (data_buf s) F L"
  by (rule legal_cong) (use assms in \<open>simp_all add: is_w_def\<close>)

lemma inv_push:
  assumes "inv s Ls F" "pushed m i n s s'" "user s m" "op_ok (tot s) (mod_info s m) n"
    and "op_type n = NORFLASH_API_WRITTING \<Longrightarrow> legal_write n (data_buf s' (the (op_buff n))) (view (op_node s) (data_buf s) F (Ls m) (op_addr n))"
  shows "inv s' (Ls(m := i # Ls m)) F"
    and "mview s' (Ls(m := i # Ls m)) F k a = (if k = m \<and> a div 4096 * 4096 = op_addr n
      then (if op_type n = NORFLASH_API_WRITTING then data_buf s' (the (op_buff n)) (a mod 4096) else 255) else mview s Ls F k a)"
proof -
  have n: "op_node s' i = n" using assms(2) by (simp add: pushed_def)
  have "legal (op_node s') (data_buf s') F ((Ls(m := i # Ls m)) k)" if "k < 8" for k
  proof -
    have "legal (op_node s) (data_buf s) F (Ls k)" using assms(1) that by (simp add: inv_def)
    then have "legal (op_node s') (data_buf s') F (Ls k)"
      using legal_same [of "Ls k" s' s F] push_node [OF assms(1,2)] push_data [OF assms(1,2)] by blast
    moreover have "view (op_node s') (data_buf s') F (Ls m) S = view (op_node s) (data_buf s) F (Ls m) S" for S
      by (rule ext) (rule push_view [OF assms(1,2)])
    ultimately show ?thesis using assms(5) by (cases "k = m") (simp_all add: n)
  qed
  moreover have "m < 8" "api_inited s'" using assms(1,2,3) by (simp_all add: user_def inv_def pushed_def)
  ultimately show "inv s' (Ls(m := i # Ls m)) F"
    unfolding inv_def using push_lists [OF assms(1,2)] push_pools [OF assms(1,2,4)] push_mods [OF assms(1-4)] push_busy [OF assms(1,2)]
      push_hw [OF assms(1,2)] by blast
  show "mview s' (Ls(m := i # Ls m)) F k a = (if k = m \<and> a div 4096 * 4096 = op_addr n
      then (if op_type n = NORFLASH_API_WRITTING then data_buf s' (the (op_buff n)) (a mod 4096) else 255) else mview s Ls F k a)"
    by (auto simp: mview_def n push_view [OF assms(1,2)])
qed

section \<open>Operations that an erase makes pointless\<close>

lemma last_filter_keep: "L \<noteq> [] \<Longrightarrow> Q (last L) \<Longrightarrow> filter Q L \<noteq> [] \<and> last (filter Q L) = last L"
proof -
  assume "L \<noteq> []" "Q (last L)"
  then obtain K x where "L = K @ [x]" "Q x" by (metis append_butlast_last_id)
  then show ?thesis by simp
qed

text \<open>What the loop leaves: \<open>e_del_loop_spec\<close> for a whole list.\<close>

definition cleared :: "nat \<Rightarrow> nat \<Rightarrow> nat list \<Rightarrow> api \<Rightarrow> api \<Rightarrow> bool" where
  "cleared m S L s s1 \<longleftrightarrow> e_del_rel m S L s s1 \<and>
     chain (op_node s1) (opera_info (mod_info s1 m)) (filter (\<lambda>i. \<not> e_dead s S i) L) \<and> (\<forall>j. j \<notin> set L \<longrightarrow> op_node s1 j = op_node s j)"

lemma cleared_fields:
  assumes "cleared m S L s s1"
  shows "op_type (op_node s1 i) = op_type (op_node s i)" "op_addr (op_node s1 i) = op_addr (op_node s i)"
    "op_lock (op_node s1 i) = op_lock (op_node s i)" "op_buff (op_node s1 i) = op_buff (op_node s i)"
    "same_op (op_node s i) (op_node s1 i)" "is_w s1 i = is_w s i" "op_ok t mi (op_node s1 i) = op_ok t mi (op_node s i)"
    "susp_state (op_node s1 i) = susp_state (op_node s i)"
proof -
  have r: "e_del_rel m S L s s1" using assms by (simp add: cleared_def)
  note f = e_del_fields [OF r]
  show "op_type (op_node s1 i) = op_type (op_node s i)" "op_addr (op_node s1 i) = op_addr (op_node s i)"
    "op_lock (op_node s1 i) = op_lock (op_node s i)" "op_buff (op_node s1 i) = op_buff (op_node s i)"
    "same_op (op_node s i) (op_node s1 i)" "is_w s1 i = is_w s i" "op_ok t mi (op_node s1 i) = op_ok t mi (op_node s i)"
    "susp_state (op_node s1 i) = susp_state (op_node s i)"
    by (simp_all only: f same_op_def is_w_def op_ok_def susp_state_def simp_thms)
qed

lemma cleared_state:
  assumes "cleared m S L s s1"
  shows "mod_info s1 k = (if k = m then (mod_info s m)\<lparr>opera_info := opera_info (mod_info s1 m)\<rparr> else mod_info s k)"
    "flash_hal s1 = flash_hal s" "cur_mod s1 = cur_mod s" "api_inited s1 = api_inited s" "data_buf s1 = data_buf s"
    "op_used s1 i \<longleftrightarrow> op_used s i \<and> \<not> (i \<in> set L \<and> e_dead s S i)"
    "data_used s1 b \<longleftrightarrow> data_used s b \<and> \<not> (\<exists>i \<in> set L. e_dead s S i \<and> is_w s i \<and> op_buff (op_node s i) = Some b)"
proof -
  note r = assms [unfolded cleared_def e_del_rel_def, THEN conjunct1]
  have eq: "s1 = s\<lparr>mod_info := mod_info s1, op_node := op_node s1, op_used := op_used s1, data_used := data_used s1\<rparr>" using r by blast
  show "flash_hal s1 = flash_hal s" "cur_mod s1 = cur_mod s" "api_inited s1 = api_inited s" "data_buf s1 = data_buf s"
    by (subst eq, simp)+
  have mi: "mod_info s1 = (mod_info s)(m := (mod_info s m)\<lparr>opera_info := opera_info (mod_info s1 m)\<rparr>)" using r by blast
  show "mod_info s1 k = (if k = m then (mod_info s m)\<lparr>opera_info := opera_info (mod_info s1 m)\<rparr> else mod_info s k)"
    by (subst mi, simp)
  have "op_used s1 = (\<lambda>i. op_used s i \<and> \<not> (i \<in> set L \<and> e_dead s S i))" using r by blast
  then show "op_used s1 i \<longleftrightarrow> op_used s i \<and> \<not> (i \<in> set L \<and> e_dead s S i)" by simp
  have "data_used s1 = (\<lambda>b. data_used s b \<and> \<not> (\<exists>i \<in> set L. e_dead s S i \<and> op_type (op_node s i) = NORFLASH_API_WRITTING \<and> op_buff (op_node s i) = Some b))"
    using r by blast
  then show "data_used s1 b \<longleftrightarrow> data_used s b \<and> \<not> (\<exists>i \<in> set L. e_dead s S i \<and> is_w s i \<and> op_buff (op_node s i) = Some b)" by (simp add: is_w_def)
qed

lemma cleared_mod: "cleared m S L s s1 \<Longrightarrow> \<exists>x. mod_info s1 k = (if k = m then (mod_info s m)\<lparr>opera_info := x\<rparr> else mod_info s k)"
  using cleared_state(1) by blast

lemma clear_in: "j \<in> set ((Ls(m := filter (\<lambda>i. \<not> e_dead s S i) (Ls m))) k) \<longleftrightarrow> j \<in> set (Ls k) \<and> \<not> (k = m \<and> e_dead s S j)"
  by auto

lemma clear_lists:
  assumes "lists_ok s Ls" "cleared m S (Ls m) s s1" "m < 8"
  shows "lists_ok s1 (Ls(m := filter (\<lambda>i. \<not> e_dead s S i) (Ls m)))" (is "lists_ok s1 ?Ls")
proof -
  have "chain (op_node s1) (opera_info (mod_info s1 k)) (?Ls k) \<and> distinct (?Ls k)" if "k < 8" for k
  proof (cases "k = m")
    case True
    with assms show ?thesis by (simp add: cleared_def lists_ok_def)
  next
    case False
    have "chain (op_node s1) h (Ls k) = chain (op_node s) h (Ls k)" for h
    proof (rule chain_cong)
      fix j assume "j \<in> set (Ls k)"
      with False assms(1) have "j \<notin> set (Ls m)" unfolding lists_ok_def by blast
      with assms(2) show "op_next (op_node s1 j) = op_next (op_node s j)" by (simp add: cleared_def)
    qed
    with False assms(1) that show ?thesis by (simp add: lists_ok_def cleared_state(1) [OF assms(2)])
  qed
  moreover have "set (?Ls k) \<inter> set (?Ls k') = {}" if "k \<noteq> k'" for k k'
    using lists_apart [OF assms(1)] that unfolding disjoint_iff clear_in by blast
  ultimately show ?thesis using assms(1,3) by (simp add: lists_ok_def)
qed

lemma clear_pools:
  assumes "lists_ok s Ls" "pools_ok s Ls" "cleared m S (Ls m) s s1"
  shows "pools_ok s1 (Ls(m := filter (\<lambda>i. \<not> e_dead s S i) (Ls m)))"
proof -
  note st = cleared_state [OF assms(3)] and f = cleared_fields [OF assms(3)]
  have one: "k = m" if "j \<in> set (Ls k)" "j \<in> set (Ls m)" for j k using assms(1) that unfolding lists_ok_def by blast
  have one': "i = i' \<and> k = k'" if "i \<in> set (Ls k)" "i' \<in> set (Ls k')" "is_w s i" "is_w s i'"
      "op_buff (op_node s i) = Some b" "op_buff (op_node s i') = Some b" for i i' k k' b
  proof -
    have "i = i'" using assms(2) that unfolding pools_ok_def by blast
    then show ?thesis using assms(1) that(1,2) unfolding lists_ok_def by blast
  qed
  have u: "op_used s j \<longleftrightarrow> (\<exists>k. j \<in> set (Ls k))" for j using assms(2) by (simp add: pools_ok_def)
  have d: "data_used s b \<longleftrightarrow> (\<exists>k. \<exists>i \<in> set (Ls k). is_w s i \<and> op_buff (op_node s i) = Some b)" for b using assms(2) by (simp add: pools_ok_def)
  have 1: "op_used s1 j \<longleftrightarrow> (\<exists>k. j \<in> set (Ls k) \<and> \<not> (k = m \<and> e_dead s S j))" for j
    unfolding st u using one by blast
  have 2: "data_used s1 b \<longleftrightarrow> (\<exists>k i. (i \<in> set (Ls k) \<and> \<not> (k = m \<and> e_dead s S i)) \<and> is_w s i \<and> op_buff (op_node s i) = Some b)" for b
    unfolding st d using one' by blast
  have 3: "\<forall>m. \<forall>i \<in> set (Ls m). i < 15" using assms(2) unfolding pools_ok_def by blast
  show ?thesis unfolding pools_ok_def clear_in Bex_def Ball_def f(4,6) using 1 2 3 one' by blast
qed

lemma clear_busy:
  assumes "busy_ok s Ls" "cleared m S (Ls m) s s1"
  shows "busy_ok s1 (Ls(m := filter (\<lambda>i. \<not> e_dead s S i) (Ls m)))" (is "busy_ok s1 ?Ls")
proof (rule busy_ok_intro)
  note st = cleared_state [OF assms(2)] and f = cleared_fields [OF assms(2)]
  have sm: "cur_opera_info (mod_info s1 k) = cur_opera_info (mod_info s k)" "mod_state (mod_info s1 k) = mod_state (mod_info s k)"
     "mod_inited (mod_info s1 k) = mod_inited (mod_info s k)" for k
    using cleared_mod [OF assms(2), of k] by (auto split: if_splits)
  show "op_lock (op_node s1 j) \<longleftrightarrow> cur_opera_info (mod_info s1 k) = Some j" if "k < 8" "j \<in> set (?Ls k)" for k j
    using busy_lock [OF assms(1) that(1), of j] that(2) unfolding clear_in f sm by blast
  show "mod_state (mod_info s1 k) = NORFLASH_API_STATE_IDLE" if "k < 8" "cur_opera_info (mod_info s1 k) = None" for k
    using busy_ok_idle [OF assms(1)] that unfolding sm by blast
  show "?Ls k \<noteq> [] \<and> j = last (?Ls k) \<and> cur_mod s1 = Some k \<and> mod_state (mod_info s1 k) = susp_state (op_node s1 j)"
    if "k < 8" "cur_opera_info (mod_info s1 k) = Some j" for k j
  proof -
    note d = busy_okD [OF assms(1) that(1) that(2) [unfolded sm]]
    have "op_lock (op_node s j)" using busy_lock [OF assms(1) that(1) d(5)] that(2) by (simp add: sm)
    then have "\<not> e_dead s S (last (Ls k))" using d(2) by (simp add: e_dead_def)
    then have "?Ls k \<noteq> [] \<and> last (?Ls k) = last (Ls k)" using d(1) last_filter_keep [of "Ls k" "\<lambda>i. \<not> e_dead s S i"] by (cases "k = m") simp_all
    with d show ?thesis unfolding f sm st(3) by metis
  qed
  show "c < 8 \<and> mod_inited (mod_info s1 c)" if "cur_mod s1 = Some c" for c
    using busy_cur [OF assms(1)] that unfolding sm st(3) by blast
qed

lemma busy_last:
  assumes "inv s Ls F" "i \<in> set (butlast (Ls m))"
  shows "\<not> op_lock (op_node s i)"
proof
  assume l: "op_lock (op_node s i)"
  have b: "busy_ok s Ls" "lists_ok s Ls" using assms(1) by (simp_all add: inv_def)
  have i: "i \<in> set (Ls m)" using assms(2) by (rule in_set_butlastD)
  then have m: "m < 8" using b(2) by (cases "8 \<le> m") (auto simp: lists_ok_def)
  have "i = last (Ls m)" using busy_okD(2) [OF b(1) m] busy_lock [OF b(1) m i] l by blast
  moreover have "distinct (butlast (Ls m) @ [last (Ls m)])" using b(2) m assms(2)
    by (cases "Ls m = []") (simp_all add: lists_ok_def)
  ultimately show False using assms(2) by simp
qed

lemma inv_clear:
  assumes "inv s Ls F" "cleared m S (Ls m) s s1" "user s m"
  shows "inv s1 (Ls(m := filter (\<lambda>i. \<not> e_dead s S i) (Ls m))) F" (is "inv s1 ?Ls F")
    and "k \<noteq> m \<or> a div 4096 * 4096 \<noteq> S \<Longrightarrow> mview s1 (Ls(m := filter (\<lambda>i. \<not> e_dead s S i) (Ls m))) F k a = mview s Ls F k a"
proof -
  have i: "lists_ok s Ls" "pools_ok s Ls" "mods_ok s Ls" "busy_ok s Ls" "hw_ok s F" "api_inited s" using assms(1) by (simp_all add: inv_def)
  have m: "m < 8" using assms(3) by (simp add: user_def)
  note st = cleared_state [OF assms(2)] and f = cleared_fields [OF assms(2)]
  have sm: "cur_opera_info (mod_info s1 k) = cur_opera_info (mod_info s k)" for k
    using cleared_mod [OF assms(2), of k] by (auto split: if_splits)
  have mods: "mods_ok s1 ?Ls"
  proof (rule mods_ok_cong [OF i(3)])
    show "same_place (mod_info s k) (mod_info s1 k)" for k using cleared_mod [OF assms(2), of k] by (auto split: if_splits)
    show "tot s1 = tot s" by (simp add: st(2))
    show "?Ls k = []" if "k < 8" "\<not> mod_inited (mod_info s k)" for k
      using i(3) that by (auto simp: mods_ok_def)
    show "op_ok (tot s) (mod_info s k) (op_node s1 j)" if "k < 8" "j \<in> set (?Ls k)" for k j
      using i(3) that unfolding f mods_ok_def clear_in by blast
  qed
  have hw: "hw_ok s1 F"
  proof (rule hw_ok_cong [OF i(5)])
    show "busy s1 = busy s" by (rule busy_cong) (simp_all add: st(3) sm)
  qed (simp_all add: st(2,5) f)
  have sv: "view (op_node s1) (data_buf s1) F L T j = view (op_node s) (data_buf s) F L T j" for L T j
    by (rule view_cong) (simp_all add: st(5) f)
  have sl: "legal (op_node s1) (data_buf s1) F L = legal (op_node s) (data_buf s) F L" for L
    by (rule legal_cong) (simp_all add: st(5) f)
  have lg: "legal (op_node s1) (data_buf s1) F (?Ls k)" if "k < 8" for k
  proof -
    have l: "legal (op_node s) (data_buf s) F (Ls k)" using assms(1) that by (simp add: inv_def)
    have "legal (op_node s) (data_buf s) F (filter (\<lambda>i. \<not> e_dead s S i) (Ls k))"
    proof (rule legal_filter [OF l])
      show "\<not> e_dead s S i" if "i \<in> set (Ls k)" "op_addr (op_node s i) \<noteq> S" for i using that by (simp add: e_dead_def)
      show "\<not> \<not> e_dead s S i" if "i \<in> set (butlast (Ls k))" "op_addr (op_node s i) = S" for i
        using busy_last [OF assms(1) that(1)] that(2) by (simp add: e_dead_def)
    qed
    with l show ?thesis unfolding sl by (cases "k = m") simp_all
  qed
  show "inv s1 ?Ls F" unfolding inv_def
    using clear_lists [OF i(1) assms(2) m] clear_pools [OF i(1,2) assms(2)] mods clear_busy [OF i(4) assms(2)] hw lg i(6) st(4) by simp
  show "mview s1 ?Ls F k a = mview s Ls F k a" if "k \<noteq> m \<or> a div 4096 * 4096 \<noteq> S"
  proof (cases "k = m")
    case True
    with that have "a div 4096 * 4096 \<noteq> S" by blast
    then have "view (op_node s) (data_buf s) F (filter (\<lambda>i. \<not> e_dead s S i) (Ls m)) (a div 4096 * 4096) j = view (op_node s) (data_buf s) F (Ls m) (a div 4096 * 4096) j" for j
      by (intro view_filter) (simp add: e_dead_def)
    with True show ?thesis by (simp add: mview_def sv)
  next
    case False
    then show ?thesis by (simp add: mview_def sv)
  qed
qed

section \<open>Erasing\<close>

lemma find_in: "find P L = Some k \<Longrightarrow> k \<in> set L \<and> P k"
  by (induction L) (auto split: if_splits)

lemma find_free: "find (\<lambda>i. \<not> u i) [0..<n] = Some i \<Longrightarrow> \<not> u i \<and> i < n"
  by (auto simp: find_Some_iff)

text \<open>The newest operation for the sector is not a write that is under way.\<close>

definition write_free :: "api \<Rightarrow> nat list \<Rightarrow> nat \<Rightarrow> bool" where
  "write_free s L S \<longleftrightarrow> (\<forall>i. find (\<lambda>i. op_addr (op_node s i) = S) L = Some i \<longrightarrow> is_w s i \<longrightarrow> \<not> op_lock (op_node s i))"

definition erase_node :: "nat \<Rightarrow> nat option \<Rightarrow> OPRA_INFO" where
  "erase_node S h = \<lparr>op_type = NORFLASH_API_ERASING, op_addr = S, op_len = 4096, w_offs = 0, w_len = 0,
     op_buff = None, op_lock = False, op_next = h\<rparr>"

text \<open>The operations of the module are such that the loop takes out what it means to take out.\<close>

definition erase_safe :: "api \<Rightarrow> nat list \<Rightarrow> nat \<Rightarrow> bool" where
  "erase_safe s L S \<longleftrightarrow> e_safe (e_dead s S) False False L"

lemma e_opera_add_cleared:
  assumes "inv s Ls F" "user s m" "erase_safe s (Ls m) S"
  shows "\<exists>s1. cleared m S (Ls m) s s1 \<and>
    e_del_loop m S (opera_info (mod_info s m)) (opera_info (mod_info s m)) s = Some (\<exists>i \<in> set (Ls m). e_locked s S i, s1)"
proof -
  have m: "m < 8" and l: "lists_ok s Ls" using assms(1,2) by (simp_all add: user_def inv_def)
  have c: "chain (op_node s) (opera_info (mod_info s m)) ([] @ Ls m)" "distinct ([] @ Ls m)" using l m by (simp_all add: lists_ok_def)
  have h: "(if Ls m = [] then None else Some (hd (Ls m))) = opera_info (mod_info s m)" using c(1) by (cases "Ls m") simp_all
  obtain s1 where "e_del_loop m S (opera_info (mod_info s m)) (if Ls m = [] then None else Some (hd (Ls m))) s =
        Some (\<exists>i \<in> set (Ls m). e_locked s S i, s1)"
      "chain (op_node s1) (opera_info (mod_info s1 m)) ([] @ filter (\<lambda>i. \<not> e_dead s S i) (Ls m))"
      "e_del_rel m S (Ls m) s s1" "\<forall>j. j \<notin> set ([] @ Ls m) \<longrightarrow> op_node s1 j = op_node s j"
    using e_del_loop_spec [OF c, of S False "opera_info (mod_info s m)"] busy_last [OF assms(1)] assms(3) unfolding erase_safe_def by auto
  then show ?thesis unfolding h by (intro exI [of _ s1]) (simp add: cleared_def)
qed

lemma pushed_erase:
  assumes "norflash_api_malloc_op s = (Some i, t)"
  shows "pushed m i (erase_node S (opera_info (mod_info s m))) s
    (set_mod m (opera_info_update (\<lambda>_. Some i)) (set_node i (\<lambda>_. erase_node S (opera_info (mod_info s m))) t))"
proof -
  have f: "find (\<lambda>i. \<not> op_used s i) [0..<15] = Some i" and t: "t = s\<lparr>op_used := (op_used s)(i := True)\<rparr>"
    using assms by (auto simp: norflash_api_malloc_op_def split: option.splits)
  from find_free [OF f] show ?thesis unfolding t by (simp add: pushed_def set_mod_def set_node_def erase_node_def)
qed

text \<open>A change of the lists only.\<close>

definition quiet :: "api \<Rightarrow> api \<Rightarrow> bool" where
  "quiet s s' \<longleftrightarrow> (\<forall>k. same_place (mod_info s k) (mod_info s' k)) \<and> flash_hal s' = flash_hal s \<and> cur_mod s' = cur_mod s"

lemma quiet_cleared: "cleared m S L s s1 \<Longrightarrow> quiet s s1"
proof -
  assume c: "cleared m S L s s1"
  have "same_place (mod_info s k) (mod_info s1 k)" for k using cleared_mod [OF c, of k] by (auto split: if_splits)
  with cleared_state(2,3) [OF c] show ?thesis by (simp add: quiet_def)
qed

lemma quiet_pushed: "pushed m i n s s' \<Longrightarrow> quiet s s'"
  by (simp add: pushed_def quiet_def)

lemma quiet_trans: "quiet s t \<Longrightarrow> quiet t u \<Longrightarrow> quiet s u"
  by (simp add: quiet_def same_place_def)

lemma e_opera_add_spec:
  assumes "inv s Ls F" "user s m" "in_mod (mod_info s m) S" "pos S + 4096 < tot s" "erase_safe s (Ls m) S"
  shows "\<exists>r s' Ls'. e_opera_add m S 4096 s = Some (r, s') \<and> inv s' Ls' F \<and> quiet s s' \<and>
    (r = 0 \<or> r = 1 \<and> (\<forall>i \<in> {0..<15}. op_used s i)) \<and> (r = 0 \<longrightarrow> write_free s' (Ls' m) S) \<and>
    (\<forall>k a. mview s' Ls' F k a = (if r = 0 \<and> k = m \<and> a div 4096 * 4096 = S then 255 else mview s Ls F k a))"
proof -
  let ?Q = "\<lambda>i. \<not> e_dead s S i"
  let ?Ls = "Ls(m := filter ?Q (Ls m))"
  obtain s1 where c: "cleared m S (Ls m) s s1" and lp: "e_del_loop m S (opera_info (mod_info s m)) (opera_info (mod_info s m)) s =
      Some (\<exists>i \<in> set (Ls m). e_locked s S i, s1)" using e_opera_add_cleared [OF assms(1,2,5)] by blast
  have inv1: "inv s1 ?Ls F" by (rule inv_clear(1) [OF assms(1) c assms(2)])
  have v1: "mview s1 ?Ls F k a = mview s Ls F k a" if "k \<noteq> m \<or> a div 4096 * 4096 \<noteq> S" for k a
    using inv_clear(2) [OF assms(1) c assms(2) that] .
  note st = cleared_state [OF c] and f = cleared_fields [OF c]
  obtain x where x: "mod_info s1 m = (mod_info s m)\<lparr>opera_info := x\<rparr>" using cleared_mod [OF c, of m] by auto
  have user1: "user s1 m" using assms(2) by (simp add: user_def x)
  show ?thesis
  proof (cases "\<exists>i \<in> set (Ls m). e_locked s S i")
    case True
    then obtain i where i: "i \<in> set (Ls m)" "e_locked s S i" by blast
    have fil: "filter ?Q (Ls m) \<noteq> []" using i by (auto simp: e_locked_def e_dead_def filter_empty_conv)
    have all: "k = i" if "k \<in> set (filter ?Q (Ls m))" "op_addr (op_node s k) = S" for k
    proof -
      have b: "busy_ok s Ls" "m < 8" using assms(1,2) by (simp_all add: inv_def user_def)
      have "op_lock (op_node s k)" "k \<in> set (Ls m)" using that by (auto simp: e_dead_def)
      then show ?thesis using busy_lock [OF b] i by (auto simp: e_locked_def)
    qed
    have "view (op_node s) (data_buf s) F (filter ?Q (Ls m)) S j = 255" for j
    proof -
      have "find (\<lambda>k. op_addr (op_node s k) = S) (filter ?Q (Ls m)) \<noteq> None"
        using i by (auto simp: find_None_iff e_locked_def e_dead_def)
      then obtain k where k: "find (\<lambda>k. op_addr (op_node s k) = S) (filter ?Q (Ls m)) = Some k" by blast
      from find_in [OF k] have "k \<in> set (filter ?Q (Ls m))" "op_addr (op_node s k) = S" by blast+
      then have "k = i" by (rule all)
      with k i(2) show ?thesis by (simp add: view_find e_locked_def)
    qed
    moreover have "view (op_node s1) (data_buf s1) F L S j = view (op_node s) (data_buf s) F L S j" for L j
      by (rule view_cong) (simp_all add: st(5) f)
    ultimately have "mview s1 ?Ls F m a = 255" if "a div 4096 * 4096 = S" for a
      using that by (simp add: mview_def)
    moreover have "e_opera_add m S 4096 s = Some (0, s1)" using True lp by (simp add: e_opera_add_def)
    moreover have "write_free s1 (filter ?Q (Ls m)) S"
      unfolding write_free_def f
    proof (intro allI impI)
      fix k assume "find (\<lambda>k. op_addr (op_node s k) = S) (filter ?Q (Ls m)) = Some k" and w: "is_w s k"
      from find_in [OF this(1)] have "k = i" by (intro all) blast+
      with i(2) w show "\<not> op_lock (op_node s k)" by (simp add: e_locked_def is_w_def)
    qed
    ultimately show ?thesis using inv1 v1 quiet_cleared [OF c] by (intro exI [of _ 0] exI [of _ s1] exI [of _ ?Ls]) auto
  next
    case False
    show ?thesis
    proof (cases "norflash_api_malloc_op s1")
      case (Pair o1 t)
      show ?thesis
      proof (cases o1)
        case None
        then have t: "t = s1" and full: "\<forall>i \<in> {0..<15}. op_used s1 i" using Pair
          by (auto simp: norflash_api_malloc_op_def find_None_iff split: option.splits)
        have dead: "?Q i" if "i \<in> set (Ls m)" for i
        proof -
          have "i < 15" using assms(1) that unfolding inv_def pools_ok_def by blast
          with full that st(6) [of i] show ?thesis by auto
        qed
        then have fl: "filter ?Q (Ls m) = Ls m" by (simp add: filter_id_conv)
        have "view (op_node s1) (data_buf s1) F L T j = view (op_node s) (data_buf s) F L T j" for L T j
          by (rule view_cong) (simp_all add: st(5) f)
        then have "mview s1 Ls F k a = mview s Ls F k a" for k a by (simp add: mview_def)
        moreover have "e_opera_add m S 4096 s = Some (1, s1)" using False lp Pair None t by (simp add: e_opera_add_def)
        moreover have "\<forall>i \<in> {0..<15}. op_used s i" using full st(6) by blast
        ultimately show ?thesis using inv1 fl quiet_cleared [OF c] by (intro exI [of _ 1] exI [of _ s1] exI [of _ Ls]) simp
      next
        case (Some i)
        let ?n = "erase_node S (opera_info (mod_info s1 m))"
        let ?s' = "set_mod m (opera_info_update (\<lambda>_. Some i)) (set_node i (\<lambda>_. ?n) t)"
        have p: "pushed m i ?n s1 ?s'" by (rule pushed_erase) (use Pair Some in simp)
        have tm: "mod_info t = mod_info s1" using Pair Some by (auto simp: norflash_api_malloc_op_def split: option.splits)
        have "in_mod (mod_info s1 m) S" "tot s1 = tot s" using assms(3) by (simp_all add: x in_mod_def st(2))
        then have ok: "op_ok (tot s1) (mod_info s1 m) ?n" using assms(4) by (simp add: op_ok_def erase_node_def)
        have nt: "op_type ?n = NORFLASH_API_ERASING" "op_addr ?n = S" by (simp_all add: erase_node_def)
        note pr = inv_push [OF inv1 p user1 ok]
        have "e_opera_add m S 4096 s = Some (0, ?s')" using False lp Pair Some
          by (simp add: e_opera_add_def erase_node_def tm set_mod_def set_node_def)
        moreover have "inv ?s' (?Ls(m := i # ?Ls m)) F" by (rule pr(1)) (simp add: nt)
        moreover have "mview ?s' (?Ls(m := i # ?Ls m)) F k a = (if k = m \<and> a div 4096 * 4096 = S then 255 else mview s Ls F k a)" for k a
          using pr(2) [of k a] v1 [of k a] by (simp add: nt del: fun_upd_apply)
        moreover have "quiet s ?s'" by (rule quiet_trans [OF quiet_cleared [OF c] quiet_pushed [OF p]])
        moreover have "write_free ?s' (i # ?Ls m) S"
          using p nt by (simp add: write_free_def is_w_def pushed_def)
        then have "write_free ?s' ((?Ls(m := i # ?Ls m)) m) S" by simp
        ultimately show ?thesis by (intro exI [of _ 0] exI [of _ ?s'] exI [of _ "?Ls(m := i # ?Ls m)"]) (simp del: fun_upd_apply)
      qed
    qed
  qed
qed

section \<open>Writing\<close>

text \<open>The content of a free node does not matter.\<close>

lemma inv_free_node:
  assumes "inv s Ls F" "\<not> op_used s i"
  shows "inv (s\<lparr>op_node := (op_node s)(i := n)\<rparr>) Ls F" (is "inv ?s Ls F")
    and "mview (s\<lparr>op_node := (op_node s)(i := n)\<rparr>) Ls F k a = mview s Ls F k a"
proof -
  have i: "lists_ok s Ls" "pools_ok s Ls" "mods_ok s Ls" "busy_ok s Ls" "hw_ok s F" "api_inited s" using assms(1) by (simp_all add: inv_def)
  have new: "i \<notin> set (Ls k)" for k using node_unused [OF i(2) assms(2)] .
  have nd: "op_node ?s j = op_node s j" if "j \<in> set (Ls k)" for j k using new [of k] that by auto
  have w: "is_w ?s j = is_w s j" if "j \<in> set (Ls k)" for j k using nd [OF that] by (simp add: is_w_def)
  have "chain (op_node ?s) h (Ls k) = chain (op_node s) h (Ls k)" for h k by (rule chain_cong) (use nd in auto)
  then have "lists_ok ?s Ls" using i(1) by (simp add: lists_ok_def)
  moreover have "pools_ok ?s Ls"
    using i(2) nd w unfolding pools_ok_def by (simp add: Bex_def del: fun_upd_apply)
  moreover have "mods_ok ?s Ls" by (rule mods_ok_cong [OF i(3)]) (use i(3) nd in \<open>auto simp: mods_ok_def\<close>)
  moreover have "busy_ok ?s Ls"
  proof (rule busy_ok_intro)
    show "Ls k \<noteq> [] \<and> j = last (Ls k) \<and> cur_mod ?s = Some k \<and> mod_state (mod_info ?s k) = susp_state (op_node ?s j)"
      if "k < 8" "cur_opera_info (mod_info ?s k) = Some j" for k j
    proof -
      note d = busy_okD [OF i(4) that(1), of j]
      have "cur_opera_info (mod_info s k) = Some j" using that(2) by simp
      with d nd [of j k] show ?thesis by (simp del: fun_upd_apply)
    qed
  qed (use busy_lock [OF i(4)] busy_ok_idle [OF i(4)] busy_cur [OF i(4)] nd in simp_all)
  moreover have "hw_ok ?s F"
  proof (rule hw_ok_cong [OF i(5)])
    show "busy ?s = busy s" by (rule busy_cong) simp_all
    show "same_op (op_node s j) (op_node ?s j)" if "busy s = Some j" for j
      using busy_in [OF assms(1) that] nd [of j] by auto
  qed simp_all
  moreover have "legal (op_node ?s) (data_buf ?s) F (Ls k)" if "k < 8" for k
    using legal_same [of "Ls k" ?s s F] nd [of _ k] assms(1) that by (simp add: inv_def del: fun_upd_apply)
  ultimately show "inv ?s Ls F" using i(6) by (simp add: inv_def del: fun_upd_apply)
  have "view (op_node ?s) (data_buf ?s) F (Ls k) S j = view (op_node s) (data_buf s) F (Ls k) S j" for S j
    by (rule view_cong) (use nd [of _ k] in \<open>simp_all del: fun_upd_apply\<close>)
  then show "mview ?s Ls F k a = mview s Ls F k a" by (simp add: mview_def)
qed

text \<open>An operation that is changed in place.\<close>

lemma view_update:
  assumes "\<forall>k \<in> set A. op_addr (nd k) \<noteq> S" "op_addr (nd i) = S" "op_addr (nd' i) = S" "op_type (nd' i) = NORFLASH_API_WRITTING"
    and "\<And>k. k \<in> set A \<union> set B \<Longrightarrow> nd' k = nd k"
    and "\<And>k. k \<in> set A \<union> set B \<Longrightarrow> op_type (nd k) = NORFLASH_API_WRITTING \<Longrightarrow> db' (the (op_buff (nd k))) = db (the (op_buff (nd k)))"
  shows "view nd' db' F (A @ i # B) T j = (if T = S then db' (the (op_buff (nd' i))) j else view nd db F (A @ i # B) T j)"
proof (cases "T = S")
  case True
  have "view nd' db' F (A @ i # B) S j = db' (the (op_buff (nd' i))) j"
    using assms(1,5) by (induction A) (use assms(3,4) in simp_all)
  with True show ?thesis by simp
next
  case False
  have vB: "view nd' db' F B T j = view nd db F B T j" by (rule view_cong) (use assms(5,6) in auto)
  have "view nd' db' F (A @ i # B) T j = view nd db F (A @ i # B) T j"
    using assms(5,6) by (induction A) (use assms(2,3) False vB in simp_all)
  with False show ?thesis by simp
qed

lemma legal_update:
  assumes "\<forall>k \<in> set A. op_addr (nd k) \<noteq> S" "op_addr (nd i) = S" "op_addr (nd' i) = S" "op_type (nd' i) = NORFLASH_API_WRITTING"
    and "\<And>k. k \<in> set A \<union> set B \<Longrightarrow> nd' k = nd k"
    and "\<And>k. k \<in> set A \<union> set B \<Longrightarrow> op_type (nd k) = NORFLASH_API_WRITTING \<Longrightarrow> db' (the (op_buff (nd k))) = db (the (op_buff (nd k)))"
    and "legal nd db F (A @ i # B)" "legal_write (nd' i) (db' (the (op_buff (nd' i)))) (view nd db F B S)"
  shows "legal nd' db' F (A @ i # B)"
  using assms(1,5,6,7)
proof (induction A)
  case Nil
  have "legal nd' db' F B = legal nd db F B" by (rule legal_cong) (use Nil in auto)
  moreover have "view nd' db' F B S = view nd db F B S" by (intro ext view_cong) (use Nil in auto)
  ultimately show ?case using Nil assms(3,8) by simp
next
  case (Cons k A)
  have "view nd' db' F (A @ i # B) (op_addr (nd k)) = view nd db F (A @ i # B) (op_addr (nd k))"
  proof
    fix j
    have "\<forall>k \<in> set A. op_addr (nd k) \<noteq> S" using Cons.prems(1) by simp
    note vu = view_update [where nd = nd and nd' = nd' and i = i and A = A and B = B and db' = db' and db = db and F = F, OF this assms(2-4)]
    have "view nd' db' F (A @ i # B) (op_addr (nd k)) j = (if op_addr (nd k) = S then db' (the (op_buff (nd' i))) j
        else view nd db F (A @ i # B) (op_addr (nd k)) j)" by (rule vu) (use Cons.prems(2,3) in auto)
    with Cons.prems(1) show "view nd' db' F (A @ i # B) (op_addr (nd k)) j = view nd db F (A @ i # B) (op_addr (nd k)) j" by simp
  qed
  with Cons show ?case by simp
qed

lemma inv_update:
  assumes "inv s Ls F" "user s m" "Ls m = A @ i # B" "is_w s i" "\<not> op_lock (op_node s i)"
    and "\<forall>k \<in> set A. op_addr (op_node s k) \<noteq> S" "op_addr (op_node s i) = S"
    and "0 < l" "w + l \<le> 4096" "b = the (op_buff (op_node s i))"
    and "legal_write ((op_node s i)\<lparr>w_offs := w, w_len := l\<rparr>) buf (view (op_node s) (data_buf s) F B S)"
    and s': "s' = s\<lparr>data_buf := (data_buf s)(b := buf), op_node := (op_node s)(i := (op_node s i)\<lparr>w_offs := w, w_len := l\<rparr>)\<rparr>"
  shows "inv s' Ls F"
    and "mview s' Ls F k a = (if k = m \<and> a div 4096 * 4096 = S then buf (a mod 4096) else mview s Ls F k a)"
proof -
  have iv: "lists_ok s Ls" "pools_ok s Ls" "mods_ok s Ls" "busy_ok s Ls" "hw_ok s F" "api_inited s" "m < 8"
    using assms(1,2) by (simp_all add: inv_def user_def)
  have im: "i \<in> set (Ls m)" using assms(3) by simp
  have nd: "op_node s' j = (if j = i then (op_node s i)\<lparr>w_offs := w, w_len := l\<rparr> else op_node s j)" for j by (simp add: s')
  have f: "op_type (op_node s' j) = op_type (op_node s j)" "op_addr (op_node s' j) = op_addr (op_node s j)" "op_lock (op_node s' j) = op_lock (op_node s j)"
    "op_buff (op_node s' j) = op_buff (op_node s j)" "op_next (op_node s' j) = op_next (op_node s j)" "is_w s' j = is_w s j"
    "susp_state (op_node s' j) = susp_state (op_node s j)" for j
    by (simp_all add: nd is_w_def susp_state_def)
  have st: "mod_info s' = mod_info s" "flash_hal s' = flash_hal s" "cur_mod s' = cur_mod s" "api_inited s' = api_inited s"
    "op_used s' = op_used s" "data_used s' = data_used s" "data_buf s' b = buf" by (simp_all add: s')
  have other: "data_buf s' (the (op_buff (op_node s j))) = data_buf s (the (op_buff (op_node s j)))"
    if j: "j \<in> set (Ls k)" "is_w s j" "j \<noteq> i" for j k
  proof -
    obtain c where c: "op_buff (op_node s j) = Some c" using w_buff [OF assms(1) j(1,2)] by blast
    obtain d where d: "op_buff (op_node s i) = Some d" using w_buff [OF assms(1) im assms(4)] by blast
    have "c \<noteq> d" using iv(2) j im assms(4) c d unfolding pools_ok_def by blast
    with c d show ?thesis by (simp add: s' assms(10))
  qed
  have ni: "j \<noteq> i" if "j \<in> set (Ls k)" "k \<noteq> m" for j k using lists_apart [OF iv(1) im, of k] that by blast
  have nAB: "j \<noteq> i" if "j \<in> set A \<union> set B" for j
  proof -
    have "distinct (Ls m)" using iv(1,7) by (simp add: lists_ok_def)
    with that assms(3) show ?thesis by auto
  qed
  have "chain (op_node s') h L = chain (op_node s) h L" for h L by (rule chain_cong) (simp add: f)
  then have "lists_ok s' Ls" using iv(1) by (simp add: lists_ok_def st)
  moreover have "pools_ok s' Ls" using iv(2) by (simp add: pools_ok_def st f)
  moreover have "mods_ok s' Ls"
  proof (rule mods_ok_cong [OF iv(3)])
    show "op_ok (tot s) (mod_info s k) (op_node s' j)" if "k < 8" "j \<in> set (Ls k)" for k j
    proof -
      have "op_ok (tot s) (mod_info s k) (op_node s j)" using iv(3) that by (simp add: mods_ok_def)
      with assms(4,8,9) show ?thesis by (cases "j = i") (simp_all add: nd op_ok_def is_w_def)
    qed
  qed (use iv(3) in \<open>simp_all add: st mods_ok_def\<close>)
  moreover have "busy_ok s' Ls"
  proof (rule busy_ok_intro)
    show "Ls k \<noteq> [] \<and> j = last (Ls k) \<and> cur_mod s' = Some k \<and> mod_state (mod_info s' k) = susp_state (op_node s' j)"
      if "k < 8" "cur_opera_info (mod_info s' k) = Some j" for k j
      unfolding f st using busy_okD [OF iv(4) that(1), of j] that(2) unfolding st by blast
  qed (use busy_lock [OF iv(4)] busy_ok_idle [OF iv(4)] busy_cur [OF iv(4)] in \<open>simp_all add: f st\<close>)
  moreover have "hw_ok s' F"
  proof (rule hw_ok_cong [OF iv(5)])
    show "busy s' = busy s" by (rule busy_cong) (simp_all add: st)
    have nb: "j \<noteq> i \<and> (\<exists>k. j \<in> set (Ls k))" if b: "busy s = Some j" for j
    proof -
      obtain k where k: "k < 8" "cur_opera_info (mod_info s k) = Some j" "j \<in> set (Ls k)" using busy_mod [OF iv(4) b] by blast
      then have "op_lock (op_node s j)" using busy_lock [OF iv(4)] by blast
      with assms(5) k(3) show ?thesis by auto
    qed
    show "same_op (op_node s j) (op_node s' j)" if "busy s = Some j" for j using nb [OF that] by (simp add: nd)
    show "data_buf s' (the (op_buff (op_node s j))) = data_buf s (the (op_buff (op_node s j)))" if "busy s = Some j" "is_w s j" for j
      using nb [OF that(1)] other that(2) by blast
  qed (simp_all add: st)
  moreover have "legal (op_node s') (data_buf s') F (Ls k)" if "k < 8" for k
  proof (cases "k = m")
    case False
    have "legal (op_node s') (data_buf s') F (Ls k) = legal (op_node s) (data_buf s) F (Ls k)"
      by (rule legal_same) (use ni False other in \<open>auto simp: nd\<close>)
    with assms(1) that show ?thesis by (simp add: inv_def)
  next
    case True
    have "legal (op_node s') (data_buf s') F (A @ i # B)"
    proof (rule legal_update [where nd = "op_node s" and db = "data_buf s" and S = S])
      show "op_addr (op_node s' i) = S" using assms(7) by (simp add: f)
      show "op_type (op_node s' i) = NORFLASH_API_WRITTING" using assms(4) by (simp add: f is_w_def)
      show "op_node s' k = op_node s k" if "k \<in> set A \<union> set B" for k using nAB [OF that] by (simp add: nd)
      show "data_buf s' (the (op_buff (op_node s k))) = data_buf s (the (op_buff (op_node s k)))"
        if "k \<in> set A \<union> set B" "op_type (op_node s k) = NORFLASH_API_WRITTING" for k
        using other [of k m] nAB [OF that(1)] that assms(3) by (auto simp: is_w_def)
      show "legal (op_node s) (data_buf s) F (A @ i # B)" using assms(1,3) iv(7) by (metis inv_def)
      show "legal_write (op_node s' i) (data_buf s' (the (op_buff (op_node s' i)))) (view (op_node s) (data_buf s) F B S)"
        using assms(11) by (simp add: f st(7) nd flip: assms(10))
    qed (use assms(6,7) in simp_all)
    with True assms(3) show ?thesis by simp
  qed
  ultimately show "inv s' Ls F" using iv(6) by (simp add: inv_def st)
  show "mview s' Ls F k a = (if k = m \<and> a div 4096 * 4096 = S then buf (a mod 4096) else mview s Ls F k a)"
  proof (cases "k = m")
    case False
    have "view (op_node s') (data_buf s') F (Ls k) T j = view (op_node s) (data_buf s) F (Ls k) T j" for T j
      by (rule view_cong) (use ni False other in \<open>auto simp: nd is_w_def\<close>)
    with False show ?thesis by (simp add: mview_def)
  next
    case True
    have "view (op_node s') (data_buf s') F (A @ i # B) T j = (if T = S then data_buf s' (the (op_buff (op_node s' i))) j else view (op_node s) (data_buf s) F (A @ i # B) T j)" for T j
    proof (rule view_update)
      show "op_addr (op_node s' i) = S" using assms(7) by (simp add: f)
      show "op_type (op_node s' i) = NORFLASH_API_WRITTING" using assms(4) by (simp add: f is_w_def)
      show "op_node s' k = op_node s k" if "k \<in> set A \<union> set B" for k using nAB [OF that] by (simp add: nd)
      show "data_buf s' (the (op_buff (op_node s k))) = data_buf s (the (op_buff (op_node s k)))"
        if "k \<in> set A \<union> set B" "op_type (op_node s k) = NORFLASH_API_WRITTING" for k
        using other [of k m] nAB [OF that(1)] that assms(3) by (auto simp: is_w_def)
    qed (use assms(6,7) in simp_all)
    with True assms(3) st(7) show ?thesis by (simp add: mview_def f flip: assms(10))
  qed
qed

text \<open>The bytes of a sector buffer with a write laid over it.\<close>

abbreviation patch :: "nat \<Rightarrow> byte list \<Rightarrow> (nat \<Rightarrow> byte) \<Rightarrow> nat \<Rightarrow> byte" where
  "patch i d \<equiv> overlay i (length d) (\<lambda>x. d ! (x - i))"

lemma sector_of: "x div 4096 * 4096 = a div 4096 * 4096 \<Longrightarrow> x = a div 4096 * 4096 + x mod 4096" for x a :: nat
  by (metis div_mult_mod_eq)

lemma same_sector_iff:
  assumes "a mod 4096 + n \<le> 4096" "a \<le> x" "x < a + n"
  shows "x div 4096 * 4096 = a div 4096 * (4096 :: nat)"
  using same_sector [OF assms(1), of "x - a"] assms(2,3) by simp

lemma patch_at:
  assumes "x div 4096 * 4096 = a div 4096 * 4096" "a mod 4096 + length d \<le> 4096"
  shows "patch (a mod 4096) d f (x mod 4096) = (if a \<le> x \<and> x < a + length d then d ! (x - a) else f (x mod 4096))"
proof -
  define q p o' where "q = a div 4096 * 4096" and "p = x mod 4096" and "o' = a mod 4096"
  have "x = q + p" "a = q + o'" using sector_of [OF assms(1)] by (simp_all add: q_def p_def o'_def)
  then have "a \<le> x \<and> x < a + length d \<longleftrightarrow> o' \<le> p \<and> p < o' + length d" "x - a = p - o'" by auto
  then show ?thesis unfolding p_def [symmetric] o'_def [symmetric] by (simp add: overlay_def)
qed

lemma find_strengthen: "(\<And>i. find P L = Some i \<Longrightarrow> Q i) \<Longrightarrow> find (\<lambda>i. P i \<and> Q i) L = find P L"
proof (induction L)
  case (Cons x L)
  show ?case
  proof (cases "P x")
    case True
    with Cons.prems show ?thesis by simp
  next
    case False
    with Cons show ?thesis by simp
  qed
qed simp

lemma w_find_view:
  assumes "chain (op_node s) h L" "write_free s L S"
  shows "w_find_loop s S h = Some (find (\<lambda>i. op_addr (op_node s i) = S) L)"
proof -
  have "find (\<lambda>i. op_addr (op_node s i) = S \<and> (op_type (op_node s i) = NORFLASH_API_WRITTING \<longrightarrow> \<not> op_lock (op_node s i))) L =
      find (\<lambda>i. op_addr (op_node s i) = S) L"
    by (rule find_strengthen) (use assms(2) in \<open>auto simp: write_free_def is_w_def\<close>)
  then show ?thesis using w_find_loop_chain [OF assms(1), of S] by simp
qed

lemma find_op_split:
  assumes "find P L = Some i"
  shows "\<exists>A B. L = A @ i # B \<and> (\<forall>k \<in> set A. \<not> P k) \<and> P i"
  using assms
proof (induction L)
  case (Cons x L)
  show ?case
  proof (cases "P x")
    case True
    with Cons.prems show ?thesis by (intro exI [of _ "[]"] exI [of _ L]) simp
  next
    case False
    with Cons obtain A B where "L = A @ i # B" "\<forall>k \<in> set A. \<not> P k" "P i" by auto
    with False show ?thesis by (intro exI [of _ "x # A"] exI [of _ B]) simp
  qed
qed simp

text \<open>Merging a write into one that is not under way.\<close>

lemma and_below: "x AND b = x \<Longrightarrow> b AND c = b \<Longrightarrow> x AND c = x" for x :: byte
  by (metis and.assoc)

lemma legal_merge:
  assumes "legal_write n buf below" "o' + length d \<le> 4096"
    and "\<And>k. k < length d \<Longrightarrow> d ! k AND buf (o' + k) = d ! k"
    and "st \<le> o'" "st \<le> w_offs n" "o' + length d \<le> e" "w_offs n + w_len n \<le> e"
  shows "legal_write (n\<lparr>w_offs := st, w_len := e - st\<rparr>) (patch o' d buf) below"
  unfolding legal_write_def
proof (intro allI impI)
  fix j :: nat assume j: "j < 4096"
  have old: "if in_w n j then buf j AND below j = buf j else buf j = below j" using assms(1) j by (simp add: legal_write_def)
  have anded: "buf j AND below j = buf j" using old by (auto split: if_splits)
  show "if in_w (n\<lparr>w_offs := st, w_len := e - st\<rparr>) j then patch o' d buf j AND below j = patch o' d buf j else patch o' d buf j = below j"
  proof (cases "o' \<le> j \<and> j < o' + length d")
    case True
    then have d: "d ! (j - o') AND buf j = d ! (j - o')" using assms(3) [of "j - o'"] by auto
    have "d ! (j - o') AND below j = d ! (j - o')" by (rule and_below [OF d anded])
    then show ?thesis using True assms(4,6) by (simp add: overlay_def in_w_def)
  next
    case False
    then have p: "patch o' d buf j = buf j" by (auto simp: overlay_def)
    show ?thesis
    proof (cases "in_w n j")
      case True
      then have "in_w (n\<lparr>w_offs := st, w_len := e - st\<rparr>) j" using assms(5,7) by (auto simp: in_w_def)
      with p anded show ?thesis by simp
    next
      case False
      with old have "buf j = below j" by simp
      with p show ?thesis by simp
    qed
  qed
qed

text \<open>A write that needs a node and a buffer of its own.\<close>

definition write_node :: "nat \<Rightarrow> nat \<Rightarrow> nat \<Rightarrow> nat \<Rightarrow> nat option \<Rightarrow> OPRA_INFO" where
  "write_node S i n b h = \<lparr>op_type = NORFLASH_API_WRITTING, op_addr = S, op_len = 4096, w_offs = i, w_len = n,
     op_buff = Some b, op_lock = False, op_next = h\<rparr>"

lemma write_node_upd:
  "n\<lparr>op_type := NORFLASH_API_WRITTING, op_addr := S, op_len := 4096, w_offs := i, w_len := l, op_buff := Some b,
     op_lock := False, op_next := h\<rparr> = write_node S i l b h"
  by (cases n) (simp add: write_node_def)

lemma legal_fresh:
  assumes "i + length d \<le> 4096" "\<And>k. k < length d \<Longrightarrow> d ! k AND below (i + k) = d ! k" "\<And>j. j < 4096 \<Longrightarrow> f j = below j"
  shows "legal_write (write_node S i (length d) b h) (patch i d f) below"
  unfolding legal_write_def
proof (intro allI impI)
  fix j :: nat assume j: "j < 4096"
  show "if in_w (write_node S i (length d) b h) j then patch i d f j AND below j = patch i d f j else patch i d f j = below j"
    using assms(2) [of "j - i"] assms(3) [OF j] by (auto simp: in_w_def write_node_def overlay_def)
qed

lemma w_opera_add_merge:
  assumes "inv s Ls F" "user s m" "in_range (mod_info s m) a" "a mod 4096 + length d \<le> 4096" "d \<noteq> []"
    and "write_free s (Ls m) (a div 4096 * 4096)"
    and "\<And>k. k < length d \<Longrightarrow> d ! k AND mview s Ls F m (a + k) = d ! k"
    and "find (\<lambda>i. op_addr (op_node s i) = a div 4096 * 4096) (Ls m) = Some i" "is_w s i"
  shows "\<exists>s'. w_opera_add m a d s = Some (0, s') \<and> inv s' Ls F \<and> quiet s s' \<and>
    (\<forall>k x. mview s' Ls F k x = (if k = m \<and> a \<le> x \<and> x < a + length d then d ! (x - a) else mview s Ls F k x))"
proof -
  let ?S = "a div 4096 * 4096" and ?o = "a mod 4096" and ?n = "op_node s i"
  have iv: "lists_ok s Ls" "mods_ok s Ls" "m < 8" using assms(1,2) by (simp_all add: inv_def user_def)
  have mo: "mod_ok (tot s) (mod_info s m)" using iv assms(2) by (auto simp: mods_ok_def user_def)
  then have len: "mod_sector_len (mod_info s m) = 4096" by (simp add: mod_ok_def)
  have ch: "chain (op_node s) (opera_info (mod_info s m)) (Ls m)" using iv by (simp add: lists_ok_def)
  obtain A B where AB: "Ls m = A @ i # B" "\<forall>k \<in> set A. op_addr (op_node s k) \<noteq> ?S" "op_addr ?n = ?S"
    using find_op_split [OF assms(8)] by blast
  have im: "i \<in> set (Ls m)" using AB(1) by simp
  have iok: "op_ok (tot s) (mod_info s m) ?n" using iv(2,3) im by (simp add: mods_ok_def)
  obtain b where b: "op_buff ?n = Some b" using w_buff [OF assms(1) im assms(9)] by blast
  have nl: "\<not> op_lock ?n" using assms(6,8,9) by (simp add: write_free_def)
  define w where "w = (if w_offs ?n \<le> ?o then w_offs ?n else ?o)"
  define e where "e = (if ?o + length d \<le> w_offs ?n + w_len ?n then w_offs ?n + w_len ?n else ?o + length d)"
  have we: "w \<le> ?o" "w \<le> w_offs ?n" "?o + length d \<le> e" "w_offs ?n + w_len ?n \<le> e" "e \<le> 4096" "0 < e - w" "w + (e - w) \<le> 4096"
    using assms(4,5,9) iok by (auto simp: w_def e_def op_ok_def is_w_def)
  let ?buf = "patch ?o d (data_buf s b)"
  let ?s' = "s\<lparr>data_buf := (data_buf s)(b := ?buf), op_node := (op_node s)(i := ?n\<lparr>w_offs := w, w_len := e - w\<rparr>)\<rparr>"
  have r: "a - ?S = ?o" by (simp add: minus_div_mult_eq_mod)
  have view: "view (op_node s) (data_buf s) F (Ls m) ?S j = data_buf s b j" for j
    using assms(8,9) b by (simp add: view_find is_w_def)
  have mv: "mview s Ls F m (a + k) = data_buf s b (?o + k)" if "k < length d" for k
    using same_sector [OF assms(4) that] view by (simp add: mview_def)
  have lg: "legal_write ?n (data_buf s b) (view (op_node s) (data_buf s) F B ?S)"
  proof -
    have "legal (op_node s) (data_buf s) F (A @ i # B)" using assms(1) iv(3) AB(1) by (metis inv_def)
    from legal_append [OF this] show ?thesis using assms(9) AB(3) b by (simp add: is_w_def)
  qed
  have leg: "legal_write (?n\<lparr>w_offs := w, w_len := e - w\<rparr>) ?buf (view (op_node s) (data_buf s) F B ?S)"
    by (rule legal_merge [OF lg assms(4) _ we(1-4)]) (use assms(7) mv in simp)
  note up = inv_update [OF assms(1,2) AB(1) assms(9) nl AB(2,3) we(6,7) _ leg refl, of b]
  have "w_opera_add m a d s = Some (0, ?s')"
    using assms(8,9) b assms(4)
    by (simp add: w_opera_add_def len sector_start_def w_find_view [OF ch assms(6)] is_w_def w_merge_def data_put_def r
        set_data_def set_node_def Let_def w_def e_def)
  moreover have "inv ?s' Ls F" by (rule up(1)) (simp add: b)
  moreover have "mview ?s' Ls F k x = (if k = m \<and> a \<le> x \<and> x < a + length d then d ! (x - a) else mview s Ls F k x)" for k x
  proof -
    have u: "mview ?s' Ls F k x = (if k = m \<and> x div 4096 * 4096 = ?S then ?buf (x mod 4096) else mview s Ls F k x)"
      by (rule up(2)) (simp add: b)
    show ?thesis
    proof (cases "k = m \<and> x div 4096 * 4096 = ?S")
      case True
      then have "mview s Ls F k x = data_buf s b (x mod 4096)" using view by (simp add: mview_def)
      with True show ?thesis unfolding u using patch_at [of x a d "data_buf s b"] assms(4) by simp
    next
      case False
      with same_sector_iff [OF assms(4), of x] show ?thesis unfolding u by auto
    qed
  qed
  moreover have "quiet s ?s'" by (simp add: quiet_def)
  ultimately show ?thesis by blast
qed

lemma malloc_op_cases:
  "norflash_api_malloc_op s = (None, s) \<and> (\<forall>i \<in> {0..<15}. op_used s i) \<or>
   (\<exists>i. norflash_api_malloc_op s = (Some i, s\<lparr>op_used := (op_used s)(i := True)\<rparr>) \<and> \<not> op_used s i \<and> i < 15)"
proof (cases "find (\<lambda>i. \<not> op_used s i) [0..<15]")
  case None
  then have "\<forall>i \<in> {0..<15}. op_used s i" by (auto simp: find_None_iff)
  with None show ?thesis by (simp add: norflash_api_malloc_op_def)
next
  case (Some i)
  from find_free [OF Some] show ?thesis by (simp add: norflash_api_malloc_op_def Some)
qed

lemma malloc_data_cases:
  "norflash_api_malloc_data 4096 s = (None, s) \<and> (\<forall>b \<in> {0..<4}. data_used s b) \<or>
   (\<exists>b. norflash_api_malloc_data 4096 s = (Some b, s\<lparr>data_used := (data_used s)(b := True)\<rparr>) \<and> \<not> data_used s b \<and> b < 4)"
proof (cases "find (\<lambda>i. \<not> data_used s i) [0..<4]")
  case None
  then have "\<forall>b \<in> {0..<4}. data_used s b" by (auto simp: find_None_iff)
  with None show ?thesis by (simp add: norflash_api_malloc_data_def)
next
  case (Some b)
  from find_free [OF Some] show ?thesis by (simp add: norflash_api_malloc_data_def Some)
qed

text \<open>What \<open>w_opera_add\<close> does when it does not merge.\<close>

lemma w_opera_add_new:
  assumes "mod_sector_len (mod_info s m) = 4096" "a mod 4096 + length d \<le> 4096"
    and "w_find_loop s (a div 4096 * 4096) (opera_info (mod_info s m)) = Some node"
    and "\<And>i0. node = Some i0 \<Longrightarrow> op_type (op_node s i0) = NORFLASH_API_ERASING"
  shows "(\<forall>i \<in> {0..<15}. op_used s i) \<and> w_opera_add m a d s = Some (1, s) \<or>
    (\<forall>b \<in> {0..<4}. data_used s b) \<and>
      (\<exists>i n. \<not> op_used s i \<and> w_opera_add m a d s = Some (1, s\<lparr>op_node := (op_node s)(i := n)\<rparr>)) \<or>
    (\<exists>i b. \<not> op_used s i \<and> i < 15 \<and> \<not> data_used s b \<and> b < 4 \<and> w_opera_add m a d s = Some (0,
      s\<lparr>op_used := (op_used s)(i := True), data_used := (data_used s)(b := True),
        data_buf := (data_buf s)(b := patch (a mod 4096) d
          (overlay 0 4096 (\<lambda>x. if node \<noteq> None then 255 else flash_byte s (a div 4096 * 4096 + x)) (data_buf s b))),
        op_node := (op_node s)(i := write_node (a div 4096 * 4096) (a mod 4096) (length d) b (opera_info (mod_info s m))),
        mod_info := (mod_info s)(m := (mod_info s m)\<lparr>opera_info := Some i\<rparr>)\<rparr>))"
proof -
  have r: "a - a div 4096 * 4096 = a mod 4096" by (simp add: minus_div_mult_eq_mod)
  show ?thesis
  proof (cases "norflash_api_malloc_op s = (None, s) \<and> (\<forall>i \<in> {0..<15}. op_used s i)")
    case True
    then have "w_opera_add m a d s = Some (1, s)"
      using assms(1,3,4) by (cases node) (simp_all add: w_opera_add_def sector_start_def Let_def)
    with True show ?thesis by blast
  next
    case False
    then obtain i where i: "norflash_api_malloc_op s = (Some i, s\<lparr>op_used := (op_used s)(i := True)\<rparr>)" "\<not> op_used s i" "i < 15"
      using malloc_op_cases [of s] by blast
    define n where "n = (op_node s i)\<lparr>op_type := NORFLASH_API_WRITTING, op_addr := a div 4096 * 4096, op_len := 4096,
        w_offs := a mod 4096, w_len := length d\<rparr>"
    define t where "t = s\<lparr>op_used := (op_used s)(i := True), op_node := (op_node s)(i := n)\<rparr>"
    have tm: "mod_info t = mod_info s" "data_used t = data_used s" "flash_hal t = flash_hal s" "data_buf t = data_buf s" by (simp_all add: t_def)
    show ?thesis
    proof (cases "norflash_api_malloc_data 4096 t = (None, t) \<and> (\<forall>b \<in> {0..<4}. data_used t b)")
      case True
      have "(op_used s)(i := False) = op_used s" using i(2) by (simp add: fun_upd_idem)
      then have "w_opera_add m a d s = Some (1, s\<lparr>op_node := (op_node s)(i := n\<lparr>op_buff := None\<rparr>)\<rparr>)"
        using assms(1,3,4) i True r by (cases node)
          (simp_all add: w_opera_add_def sector_start_def t_def n_def set_node_def norflash_api_free_op_def Let_def)
      with True i(2) tm(2) show ?thesis by auto
    next
      case False
      then obtain b where b: "norflash_api_malloc_data 4096 t = (Some b, t\<lparr>data_used := (data_used t)(b := True)\<rparr>)" "\<not> data_used t b" "b < 4"
        using malloc_data_cases [of t] by blast
      have "w_opera_add m a d s = Some (0,
        s\<lparr>op_used := (op_used s)(i := True), data_used := (data_used s)(b := True),
          data_buf := (data_buf s)(b := patch (a mod 4096) d
            (overlay 0 4096 (\<lambda>x. if node \<noteq> None then 255 else flash_byte s (a div 4096 * 4096 + x)) (data_buf s b))),
          op_node := (op_node s)(i := write_node (a div 4096 * 4096) (a mod 4096) (length d) b (opera_info (mod_info s m))),
          mod_info := (mod_info s)(m := (mod_info s m)\<lparr>opera_info := Some i\<rparr>)\<rparr>)"
        using assms i b r by (cases node)
          (simp_all add: w_opera_add_def sector_start_def t_def n_def set_node_def set_data_def set_mod_def data_put_def Let_def
            write_node_upd flash_byte_def)
      with i b tm(2) show ?thesis by metis
    qed
  qed
qed

lemma w_opera_add_fresh:
  assumes "inv s Ls F" "user s m" "in_range (mod_info s m) a" "a mod 4096 + length d \<le> 4096" "d \<noteq> []"
    and "pos (a div 4096 * 4096) + 4096 < tot s" "write_free s (Ls m) (a div 4096 * 4096)"
    and "\<And>k. k < length d \<Longrightarrow> d ! k AND mview s Ls F m (a + k) = d ! k"
    and "find (\<lambda>i. op_addr (op_node s i) = a div 4096 * 4096) (Ls m) = node"
    and "\<And>i. node = Some i \<Longrightarrow> \<not> is_w s i"
  shows "\<exists>r s' Ls'. w_opera_add m a d s = Some (r, s') \<and> inv s' Ls' F \<and> quiet s s' \<and>
    (r = 0 \<or> r = 1 \<and> ((\<forall>i \<in> {0..<15}. op_used s i) \<or> (\<forall>b \<in> {0..<4}. data_used s b))) \<and>
    (\<forall>k x. mview s' Ls' F k x = (if r = 0 \<and> k = m \<and> a \<le> x \<and> x < a + length d then d ! (x - a) else mview s Ls F k x))"
proof -
  let ?S = "a div 4096 * 4096" and ?o = "a mod 4096"
  have iv: "lists_ok s Ls" "mods_ok s Ls" "m < 8" using assms(1,2) by (simp_all add: inv_def user_def)
  have mo: "mod_ok (tot s) (mod_info s m)" using iv assms(2) by (auto simp: mods_ok_def user_def)
  then have len: "mod_sector_len (mod_info s m) = 4096" by (simp add: mod_ok_def)
  have ch: "chain (op_node s) (opera_info (mod_info s m)) (Ls m)" using iv by (simp add: lists_ok_def)
  have S: "in_mod (mod_info s m) ?S" by (rule in_range_sector [OF mo assms(3)])
  have wf: "w_find_loop s ?S (opera_info (mod_info s m)) = Some node" using w_find_view [OF ch assms(7)] assms(9) by simp
  have er: "op_type (op_node s i0) = NORFLASH_API_ERASING" if "node = Some i0" for i0
    using assms(10) [OF that] by (cases "op_type (op_node s i0)") (simp_all add: is_w_def)
  have below: "(if node \<noteq> None then 255 else flash_byte s (?S + j)) = view (op_node s) (data_buf s) F (Ls m) ?S j" if "j < 4096" for j
  proof (cases node)
    case None
    then have no: "\<And>i. i \<in> set (Ls m) \<Longrightarrow> op_addr (op_node s i) \<noteq> ?S" using assms(9) by (auto simp: find_None_iff)
    show ?thesis using flash_byte_F [OF assms(1,2) S no that] None assms(9) by (simp add: view_find)
  next
    case (Some i)
    with assms(9) er show ?thesis by (simp add: view_find)
  qed
  have mv: "mview s Ls F m (a + k) = view (op_node s) (data_buf s) F (Ls m) ?S (?o + k)" if "k < length d" for k
    using same_sector [OF assms(4) that] by (simp add: mview_def)
  consider (nodes) "\<forall>i \<in> {0..<15}. op_used s i" "w_opera_add m a d s = Some (1, s)"
    | (bufs) i n where "\<forall>b \<in> {0..<4}. data_used s b" "\<not> op_used s i" "w_opera_add m a d s = Some (1, s\<lparr>op_node := (op_node s)(i := n)\<rparr>)"
    | (ok) i b where "\<not> op_used s i" "i < 15" "\<not> data_used s b" "b < 4" "w_opera_add m a d s = Some (0,
      s\<lparr>op_used := (op_used s)(i := True), data_used := (data_used s)(b := True),
        data_buf := (data_buf s)(b := patch ?o d
          (overlay 0 4096 (\<lambda>x. if node \<noteq> None then 255 else flash_byte s (?S + x)) (data_buf s b))),
        op_node := (op_node s)(i := write_node ?S ?o (length d) b (opera_info (mod_info s m))),
        mod_info := (mod_info s)(m := (mod_info s m)\<lparr>opera_info := Some i\<rparr>)\<rparr>)"
    using w_opera_add_new [OF len assms(4) wf er] by blast
  then show ?thesis
  proof cases
    case nodes
    with assms(1) show ?thesis by (intro exI [of _ 1] exI [of _ s] exI [of _ Ls]) (simp add: quiet_def)
  next
    case bufs
    show ?thesis
      by (rule exI [of _ 1], rule exI, rule exI [of _ Ls]) (use bufs inv_free_node [OF assms(1) bufs(2), of n] in \<open>auto simp: quiet_def simp del: fun_upd_apply\<close>)
  next
    case ok
    let ?n = "write_node ?S ?o (length d) b (opera_info (mod_info s m))"
    let ?f = "overlay 0 4096 (\<lambda>x. if node \<noteq> None then 255 else flash_byte s (?S + x)) (data_buf s b)"
    let ?s' = "s\<lparr>op_used := (op_used s)(i := True), data_used := (data_used s)(b := True),
        data_buf := (data_buf s)(b := patch ?o d ?f), op_node := (op_node s)(i := ?n),
        mod_info := (mod_info s)(m := (mod_info s m)\<lparr>opera_info := Some i\<rparr>)\<rparr>"
    have p: "pushed m i ?n s ?s'" using ok by (simp add: pushed_def write_node_def)
    have nok: "op_ok (tot s) (mod_info s m) ?n" using S assms(4,5,6) ok(4) by (simp add: op_ok_def write_node_def)
    have nf: "op_type ?n = NORFLASH_API_WRITTING" "op_addr ?n = ?S" "op_buff ?n = Some b" by (simp_all add: write_node_def)
    have leg: "legal_write ?n (patch ?o d ?f) (view (op_node s) (data_buf s) F (Ls m) ?S)"
      by (rule legal_fresh) (use assms(4,8) mv below in \<open>simp_all add: overlay_def\<close>)
    note pu = inv_push [OF assms(1) p assms(2) nok]
    have "inv ?s' (Ls(m := i # Ls m)) F" by (rule pu(1)) (use leg in \<open>simp add: nf\<close>)
    moreover have "mview ?s' (Ls(m := i # Ls m)) F k x = (if k = m \<and> a \<le> x \<and> x < a + length d then d ! (x - a) else mview s Ls F k x)" for k x
    proof -
      have u: "mview ?s' (Ls(m := i # Ls m)) F k x = (if k = m \<and> x div 4096 * 4096 = ?S then patch ?o d ?f (x mod 4096) else mview s Ls F k x)"
        using pu(2) [of k x] leg by (simp add: nf)
      show ?thesis
      proof (cases "k = m \<and> x div 4096 * 4096 = ?S")
        case True
        then have "?f (x mod 4096) = mview s Ls F k x" using below [of "x mod 4096"] by (simp add: mview_def overlay_def)
        with True show ?thesis unfolding u using patch_at [of x a d ?f] assms(4) by simp
      next
        case False
        with same_sector_iff [OF assms(4), of x] show ?thesis unfolding u by auto
      qed
    qed
    moreover have "quiet s ?s'" by (rule quiet_pushed [OF p])
    ultimately show ?thesis using ok(5) by (intro exI [of _ 0] exI [of _ ?s'] exI [of _ "Ls(m := i # Ls m)"]) (simp del: fun_upd_apply)
  qed
qed

lemma w_opera_add_spec:
  assumes "inv s Ls F" "user s m" "in_range (mod_info s m) a" "a mod 4096 + length d \<le> 4096" "d \<noteq> []"
    and "pos (a div 4096 * 4096) + 4096 < tot s" "write_free s (Ls m) (a div 4096 * 4096)"
    and "\<And>k. k < length d \<Longrightarrow> d ! k AND mview s Ls F m (a + k) = d ! k"
  shows "\<exists>r s' Ls'. w_opera_add m a d s = Some (r, s') \<and> inv s' Ls' F \<and> quiet s s' \<and>
    (r = 0 \<or> r = 1 \<and> ((\<forall>i \<in> {0..<15}. op_used s i) \<or> (\<forall>b \<in> {0..<4}. data_used s b))) \<and>
    (\<forall>k x. mview s' Ls' F k x = (if r = 0 \<and> k = m \<and> a \<le> x \<and> x < a + length d then d ! (x - a) else mview s Ls F k x))"
proof (cases "\<exists>i. find (\<lambda>i. op_addr (op_node s i) = a div 4096 * 4096) (Ls m) = Some i \<and> is_w s i")
  case True
  then obtain i where i: "find (\<lambda>i. op_addr (op_node s i) = a div 4096 * 4096) (Ls m) = Some i" "is_w s i" by blast
  obtain s' where "w_opera_add m a d s = Some (0, s')" "inv s' Ls F" "quiet s s'"
      "\<forall>k x. mview s' Ls F k x = (if k = m \<and> a \<le> x \<and> x < a + length d then d ! (x - a) else mview s Ls F k x)"
    using w_opera_add_merge [OF assms(1-5,7) _ i] assms(8) by blast
  then show ?thesis by (intro exI [of _ 0] exI [of _ s'] exI [of _ Ls]) simp
next
  case False
  then show ?thesis by (intro w_opera_add_fresh [OF assms refl]) auto
qed

end
