(* ===== verification/FlashFlush.thy ===== *)
theory FlashFlush
  imports FlashOps
begin

text \<open>
  Carrying out the operations of the queue: one call of \<open>opera_flush\<close> finishes or suspends the oldest
  operation of a module and changes no view; calling \<open>norflash_api_flush\<close> until it answers zero ends, with
  empty lists and a flash that holds what the modules see.
\<close>

section \<open>The end of an operation\<close>

lemma inv_mod: "inv s Ls F \<Longrightarrow> i \<in> set (Ls m) \<Longrightarrow> m < 8"
  by (cases "8 \<le> m") (auto simp: inv_def lists_ok_def)

lemma op_ok_in: "inv s Ls F \<Longrightarrow> i \<in> set (Ls m) \<Longrightarrow> op_ok (tot s) (mod_info s m) (op_node s i)"
  using inv_mod [of s Ls F i m] by (simp add: inv_def mods_ok_def)

lemma user_in: "inv s Ls F \<Longrightarrow> Ls m \<noteq> [] \<Longrightarrow> user s m"
proof -
  assume a: "inv s Ls F" "Ls m \<noteq> []"
  then have m: "m < 8" using inv_mod [of s Ls F "hd (Ls m)" m] by simp
  have "mods_ok s Ls" using a(1) by (simp add: inv_def)
  with a(2) m show ?thesis unfolding mods_ok_def user_def by blast
qed

definition popped :: "nat \<Rightarrow> nat list \<Rightarrow> api \<Rightarrow> api \<Rightarrow> bool" where
  "popped m L s s' \<longleftrightarrow> chain (op_node s') (opera_info (mod_info s' m)) (butlast L) \<and>
     (\<forall>j \<in> set (butlast L). same_op (op_node s j) (op_node s' j) \<and> op_lock (op_node s' j) = op_lock (op_node s j)) \<and>
     (\<forall>j. j \<notin> set L \<longrightarrow> op_node s' j = op_node s j) \<and>
     op_used s' = (op_used s)(last L := False) \<and>
     data_used s' = (\<lambda>b. data_used s b \<and> op_buff (op_node s (last L)) \<noteq> Some b) \<and> data_buf s' = data_buf s \<and>
     (\<exists>x. mod_info s' = (mod_info s)(m := (mod_info s m)\<lparr>opera_info := x, cur_opera_info := None, mod_state := NORFLASH_API_STATE_IDLE\<rparr>)) \<and>
     cur_mod s' = cur_mod s \<and> (api_inited s \<longrightarrow> api_inited s') \<and>
     geom (flash_hal s') \<and> tot s' = tot s \<and> suspend_state (flash_hal s') = SUSPEND_STATE_NO \<and> running (chip (flash_hal s')) = None"

lemma butlast_in:
  assumes "distinct L" "L \<noteq> []"
  shows "i \<in> set (butlast L) \<longleftrightarrow> i \<in> set L \<and> i \<noteq> last L"
proof -
  obtain K x where "L = K @ [x]" using assms(2) by (metis append_butlast_last_id)
  with assms(1) show ?thesis by auto
qed

lemma inv_distinct: "inv s Ls F \<Longrightarrow> distinct (Ls m)"
  by (cases "8 \<le> m") (auto simp: inv_def lists_ok_def)

lemma popped_mod:
  assumes "popped m L s s'"
  shows "same_place (mod_info s k) (mod_info s' k)" "cur_opera_info (mod_info s' k) = (if k = m then None else cur_opera_info (mod_info s k))"
    "mod_state (mod_info s' k) = (if k = m then NORFLASH_API_STATE_IDLE else mod_state (mod_info s k))"
    "k \<noteq> m \<Longrightarrow> mod_info s' k = mod_info s k"
proof -
  obtain x where "mod_info s' = (mod_info s)(m := (mod_info s m)\<lparr>opera_info := x, cur_opera_info := None, mod_state := NORFLASH_API_STATE_IDLE\<rparr>)"
    using assms by (auto simp: popped_def)
  then show "same_place (mod_info s k) (mod_info s' k)" "cur_opera_info (mod_info s' k) = (if k = m then None else cur_opera_info (mod_info s k))"
    "mod_state (mod_info s' k) = (if k = m then NORFLASH_API_STATE_IDLE else mod_state (mod_info s k))"
    "k \<noteq> m \<Longrightarrow> mod_info s' k = mod_info s k"
    by (simp_all add: same_place_def)
qed

lemma pop_in:
  assumes "inv s Ls F" "Ls m \<noteq> []"
  shows "i \<in> set ((Ls(m := butlast (Ls m))) k) \<longleftrightarrow> i \<in> set (Ls k) \<and> i \<noteq> last (Ls m)"
proof (cases "k = m")
  case True
  with butlast_in [OF inv_distinct [OF assms(1)] assms(2)] show ?thesis by simp
next
  case False
  have "lists_ok s Ls" using assms(1) by (simp add: inv_def)
  with False assms(2) lists_apart [of s Ls "last (Ls m)" k m] show ?thesis by auto
qed

lemma pop_node:
  assumes "inv s Ls F" "Ls m \<noteq> []" "popped m (Ls m) s s'" "i \<in> set ((Ls(m := butlast (Ls m))) k)"
  shows "same_op (op_node s i) (op_node s' i)" "op_lock (op_node s' i) = op_lock (op_node s i)"
proof -
  have l: "lists_ok s Ls" using assms(1) by (simp add: inv_def)
  have i: "i \<in> set (Ls k)" "i \<noteq> last (Ls m)" using pop_in [OF assms(1,2)] assms(4) by simp_all
  show "same_op (op_node s i) (op_node s' i)" "op_lock (op_node s' i) = op_lock (op_node s i)"
  proof (atomize (full), cases "k = m")
    case True
    with assms(3,4) show "same_op (op_node s i) (op_node s' i) \<and> op_lock (op_node s' i) = op_lock (op_node s i)" by (simp add: popped_def)
  next
    case False
    then have "i \<notin> set (Ls m)" using lists_apart [OF l i(1)] by blast
    with assms(3) show "same_op (op_node s i) (op_node s' i) \<and> op_lock (op_node s' i) = op_lock (op_node s i)" by (simp add: popped_def)
  qed
qed

lemma same_op_fields:
  assumes "same_op n n'"
  shows "op_type n' = op_type n" "op_addr n' = op_addr n" "op_buff n' = op_buff n" "op_ok t mi n' = op_ok t mi n" "susp_state n' = susp_state n"
    "w_offs n' = w_offs n" "w_len n' = w_len n" "op_len n' = op_len n"
  using assms by (simp_all add: same_op_def op_ok_def susp_state_def)

lemma pop_lists:
  assumes "inv s Ls F" "Ls m \<noteq> []" "popped m (Ls m) s s'" "m < 8"
  shows "lists_ok s' (Ls(m := butlast (Ls m)))" (is "lists_ok s' ?Ls")
proof -
  have l: "lists_ok s Ls" using assms(1) by (simp add: inv_def)
  have "chain (op_node s') (opera_info (mod_info s' k)) (?Ls k) \<and> distinct (?Ls k)" if "k < 8" for k
  proof (cases "k = m")
    case True
    with assms(3) inv_distinct [OF assms(1), of m] show ?thesis by (simp add: popped_def distinct_butlast)
  next
    case False
    have "chain (op_node s') h (Ls k) = chain (op_node s) h (Ls k)" for h
    proof (rule chain_cong)
      fix j assume "j \<in> set (Ls k)"
      with False have "j \<notin> set (Ls m)" using lists_apart [OF l] by blast
      with assms(3) show "op_next (op_node s' j) = op_next (op_node s j)" by (simp add: popped_def)
    qed
    with False l that popped_mod(4) [OF assms(3) False] show ?thesis by (simp add: lists_ok_def)
  qed
  moreover have "set (?Ls k) \<inter> set (?Ls k') = {}" if "k \<noteq> k'" for k k'
    using lists_apart [OF l] that unfolding disjoint_iff pop_in [OF assms(1,2)] by blast
  ultimately show ?thesis using l assms(4) by (simp add: lists_ok_def)
qed

lemma pop_pools:
  assumes "inv s Ls F" "Ls m \<noteq> []" "popped m (Ls m) s s'" "m < 8"
  shows "pools_ok s' (Ls(m := butlast (Ls m)))"
proof -
  have p: "pools_ok s Ls" using assms(1) by (simp add: inv_def)
  note i = pop_in [OF assms(1,2)]
  have f: "is_w s' j = is_w s j" "op_buff (op_node s' j) = op_buff (op_node s j)" if "j \<in> set (Ls k)" "j \<noteq> last (Ls m)" for j k
    using pop_node(1) [OF assms(1-3), of j k] i that by (simp_all add: same_op_fields is_w_def)
  have lm: "last (Ls m) \<in> set (Ls m)" using assms(2) by simp
  have lw: "op_buff (op_node s (last (Ls m))) = Some b \<Longrightarrow> is_w s (last (Ls m))" for b
    using op_ok_in [OF assms(1) lm] by (auto simp: op_ok_def is_w_def split: if_splits)
  have u: "op_used s j \<longleftrightarrow> (\<exists>k. j \<in> set (Ls k))" for j using p by (simp add: pools_ok_def)
  have d: "data_used s b \<longleftrightarrow> (\<exists>k. \<exists>i \<in> set (Ls k). is_w s i \<and> op_buff (op_node s i) = Some b)" for b using p by (simp add: pools_ok_def)
  have one: "x = y" if "x \<in> set (Ls k)" "y \<in> set (Ls k')" "is_w s x" "is_w s y" "op_buff (op_node s x) = Some b" "op_buff (op_node s y) = Some b" for x y k k' b
    using p that unfolding pools_ok_def by blast
  have 1: "op_used s' j \<longleftrightarrow> (\<exists>k. j \<in> set (Ls k) \<and> j \<noteq> last (Ls m))" for j
    using assms(3) u by (auto simp: popped_def)
  have 2: "data_used s' b \<longleftrightarrow> (\<exists>k i. (i \<in> set (Ls k) \<and> i \<noteq> last (Ls m)) \<and> is_w s i \<and> op_buff (op_node s i) = Some b)" for b
  proof -
    have "data_used s' b \<longleftrightarrow> data_used s b \<and> op_buff (op_node s (last (Ls m))) \<noteq> Some b" using assms(3) by (simp add: popped_def)
    then show ?thesis using d one lm lw by metis
  qed
  have 3: "\<forall>m. \<forall>i \<in> set (Ls m). i < 15" using p unfolding pools_ok_def by blast
  have 4: "(x \<in> set (Ls k) \<and> x \<noteq> last (Ls m)) \<and> is_w s' x \<and> op_buff (op_node s' x) = Some b \<longleftrightarrow>
      (x \<in> set (Ls k) \<and> x \<noteq> last (Ls m)) \<and> is_w s x \<and> op_buff (op_node s x) = Some b" for x k b using f by auto
  have 5: "x = y" if "x \<in> set (Ls k) \<and> x \<noteq> last (Ls m)" "y \<in> set (Ls k') \<and> y \<noteq> last (Ls m)" "is_w s' x" "is_w s' y"
      "op_buff (op_node s' x) = Some b" "op_buff (op_node s' y) = Some b" for x y k k' b
    using one [of x k y k' b] that f by auto
  show ?thesis unfolding pools_ok_def i Bex_def Ball_def 4
  proof (intro conjI)
    show "\<forall>j. op_used s' j \<longleftrightarrow> (\<exists>k. j \<in> set (Ls k) \<and> j \<noteq> last (Ls m))" using 1 by blast
    show "\<forall>k j. j \<in> set (Ls k) \<and> j \<noteq> last (Ls m) \<longrightarrow> j < 15" using 3 by blast
    show "\<forall>b. data_used s' b \<longleftrightarrow> (\<exists>k x. (x \<in> set (Ls k) \<and> x \<noteq> last (Ls m)) \<and> is_w s x \<and> op_buff (op_node s x) = Some b)" using 2 by blast
  qed (use 5 in blast)
qed

lemma pop_mods:
  assumes "inv s Ls F" "Ls m \<noteq> []" "popped m (Ls m) s s'"
  shows "mods_ok s' (Ls(m := butlast (Ls m)))"
proof (rule mods_ok_cong)
  show m: "mods_ok s Ls" using assms(1) by (simp add: inv_def)
  show "same_place (mod_info s k) (mod_info s' k)" for k by (rule popped_mod(1) [OF assms(3)])
  show "tot s' = tot s" using assms(3) by (simp add: popped_def)
  show "(Ls(m := butlast (Ls m))) k = []" if "k < 8" "\<not> mod_inited (mod_info s k)" for k
    using m that by (auto simp: mods_ok_def)
  show "op_ok (tot s) (mod_info s k) (op_node s' j)" if "k < 8" "j \<in> set ((Ls(m := butlast (Ls m))) k)" for k j
    using op_ok_in [OF assms(1), of j k] pop_node(1) [OF assms that(2)] that(2)
    unfolding pop_in [OF assms(1,2)] by (simp add: same_op_fields)
qed

lemma pop_busy:
  assumes "inv s Ls F" "Ls m \<noteq> []" "popped m (Ls m) s s'" "busy s = None \<or> busy s = Some (last (Ls m))"
  shows "busy_ok s' (Ls(m := butlast (Ls m)))" "busy s' = None"
proof -
  have b: "busy_ok s Ls" and l: "lists_ok s Ls" using assms(1) by (simp_all add: inv_def)
  have c: "cur_opera_info (mod_info s k) = None" if "k < 8" "k \<noteq> m" for k
  proof (cases "busy s")
    case None
    then show ?thesis by (rule not_busy [OF b _ that(1)])
  next
    case (Some i)
    then have "i \<in> set (Ls m)" using assms(2,4) by auto
    moreover obtain k' where "cur_mod s = Some k'" "i \<in> set (Ls k')" using busy_mod [OF b Some] by blast
    ultimately have cm: "cur_mod s = Some m" using lists_apart [OF l] by blast
    show ?thesis
    proof (rule ccontr)
      assume "cur_opera_info (mod_info s k) \<noteq> None"
      then obtain j where "cur_opera_info (mod_info s k) = Some j" by blast
      from busy_okD(3) [OF b that(1) this] cm that(2) show False by simp
    qed
  qed
  have c': "cur_opera_info (mod_info s' k) = None" if "k < 8" for k
    using c [OF that] by (simp add: popped_mod(2) [OF assms(3)])
  have cur: "cur_mod s' = cur_mod s" using assms(3) by (simp add: popped_def)
  show "busy_ok s' (Ls(m := butlast (Ls m)))"
  proof (rule busy_ok_intro)
    show "op_lock (op_node s' i) \<longleftrightarrow> cur_opera_info (mod_info s' k) = Some i" if "k < 8" "i \<in> set ((Ls(m := butlast (Ls m))) k)" for k i
    proof -
      have i: "i \<in> set (Ls k)" "i \<noteq> last (Ls m)" using that(2) pop_in [OF assms(1,2)] by simp_all
      have "\<not> op_lock (op_node s i)"
        using busy_lock [OF b that(1) i(1)] busy_okD(2) [OF b that(1), of i] c [OF that(1)] i(2) by (cases "k = m") auto
      then show ?thesis using pop_node(2) [OF assms(1-3) that(2)] c' [OF that(1)] by simp
    qed
    show "mod_state (mod_info s' k) = NORFLASH_API_STATE_IDLE" if "k < 8" "cur_opera_info (mod_info s' k) = None" for k
      using busy_ok_idle [OF b that(1)] c [OF that(1)] by (simp add: popped_mod(3) [OF assms(3)])
    show "c < 8 \<and> mod_inited (mod_info s' c)" if "cur_mod s' = Some c" for c
      using busy_cur [OF b] that popped_mod(1) [OF assms(3), of c] by (simp add: cur same_place_def)
  qed (use c' in simp)
  show "busy s' = None" using c' busy_cur [OF b] by (simp add: busy_def cur split: option.split)
qed

lemma module_F:
  assumes "inv s Ls F" "Ls m \<noteq> []" "user s k" "in_mod (mod_info s k) S" "k \<noteq> m" "j < 4096"
  shows "apply_op (op_node s (last (Ls m))) db F (pos (S + j)) = F (pos (S + j))"
proof -
  have l: "last (Ls m) \<in> set (Ls m)" using assms(2) by simp
  note ok = op_ok_in [OF assms(1) l]
  have mo: "mods_ok s Ls" using assms(1) by (simp add: inv_def)
  have "in_mod (mod_info s m) (op_addr (op_node s (last (Ls m))))" "w_offs (op_node s (last (Ls m))) + w_len (op_node s (last (Ls m))) \<le> 4096"
    using ok by (simp_all add: op_ok_def)
  with sector_disjoint [OF mo assms(3) user_in [OF assms(1,2)] assms(4) this(1) _ assms(6)] assms(5) show ?thesis
    by (intro apply_op_outside) auto
qed

lemma pop_view_m:
  assumes "inv s Ls F" "Ls m \<noteq> []" "popped m (Ls m) s s'" "in_mod (mod_info s m) S" "j < 4096"
  shows "view (op_node s') (data_buf s') (apply_op (op_node s (last (Ls m))) (data_buf s) F) (butlast (Ls m)) S j =
    view (op_node s) (data_buf s) F (Ls m) S j"
proof -
  have l: "last (Ls m) \<in> set (Ls m)" using assms(2) by simp
  have mo: "mod_ok (tot s) (mod_info s m)" using user_in [OF assms(1,2)] assms(1) by (simp add: inv_def mods_ok_def user_def)
  have lg: "legal (op_node s) (data_buf s) F (butlast (Ls m) @ [last (Ls m)])"
    using assms(1,2) inv_mod [OF assms(1) l] by (simp add: inv_def)
  have "view (op_node s') (data_buf s') F' (butlast (Ls m)) S j = view (op_node s) (data_buf s) F' (butlast (Ls m)) S j" for F'
    using assms(3) by (intro view_cong) (simp_all add: popped_def)
  also have "view (op_node s) (data_buf s) (apply_op (op_node s (last (Ls m))) (data_buf s) F) (butlast (Ls m)) S j =
      view (op_node s) (data_buf s) F (butlast (Ls m) @ [last (Ls m)]) S j"
    by (rule view_apply [where nd = "op_node s", OF mo op_ok_in [OF assms(1) l] lg assms(4,5)])
  finally show ?thesis using assms(2) by simp
qed

lemma pop_view_other:
  assumes "inv s Ls F" "Ls m \<noteq> []" "popped m (Ls m) s s'" "user s k" "in_mod (mod_info s k) S" "j < 4096" "k \<noteq> m"
  shows "view (op_node s') (data_buf s') (apply_op (op_node s (last (Ls m))) (data_buf s) F) (Ls k) S j =
    view (op_node s) (data_buf s) F (Ls k) S j"
proof (rule view_cong)
  show "apply_op (op_node s (last (Ls m))) (data_buf s) F (pos (S + j)) = F (pos (S + j))"
    by (rule module_F [OF assms(1,2,4,5,7,6)])
  show "same_op (op_node s i) (op_node s' i)" if "i \<in> set (Ls k)" for i
  proof -
    have "lists_ok s Ls" using assms(1) by (simp add: inv_def)
    then have "i \<notin> set (Ls m)" using lists_apart [of s Ls i k m] that assms(7) by blast
    with assms(3) show ?thesis by (simp add: popped_def)
  qed
  show "data_buf s' (the (op_buff (op_node s i))) = data_buf s (the (op_buff (op_node s i)))" for i using assms(3) by (simp add: popped_def)
qed

lemma inv_pop:
  assumes "inv s Ls F" "Ls m \<noteq> []" "popped m (Ls m) s s'" "busy s = None \<or> busy s = Some (last (Ls m))"
    and "cells (chip (flash_hal s')) = apply_op (op_node s (last (Ls m))) (data_buf s) F"
  shows "inv s' (Ls(m := butlast (Ls m))) (apply_op (op_node s (last (Ls m))) (data_buf s) F)" (is "inv s' ?Ls ?F")
    and "user s k \<Longrightarrow> in_range (mod_info s k) a \<Longrightarrow>
      mview s' (Ls(m := butlast (Ls m))) (apply_op (op_node s (last (Ls m))) (data_buf s) F) k a = mview s Ls F k a"
proof -
  have us: "user s m" and m: "m < 8" using user_in [OF assms(1,2)] by (simp_all add: user_def)
  have mo: "mods_ok s Ls" using assms(1) by (simp add: inv_def)
  note b = pop_busy [OF assms(1-4)]
  have hw: "hw_ok s' ?F" using assms(3,5) b(2) by (simp add: hw_ok_def popped_def)
  have lg: "legal (op_node s') (data_buf s') ?F (?Ls k)" if "k < 8" for k
  proof (cases "k = m")
    case True
    have l: "last (Ls m) \<in> set (Ls m)" using assms(2) by simp
    have lg: "legal (op_node s) (data_buf s) F (butlast (Ls m) @ [last (Ls m)])" using assms(1,2) m by (simp add: inv_def)
    have mm: "mod_ok (tot s) (mod_info s m)" using mo us by (simp add: mods_ok_def user_def)
    have im: "in_mod (mod_info s m) (op_addr (op_node s j))" if "j \<in> set (butlast (Ls m))" for j
      using op_ok_in [OF assms(1) in_set_butlastD [OF that]] by (simp add: op_ok_def)
    have "legal (op_node s) (data_buf s) ?F (butlast (Ls m))"
      by (rule legal_apply [where nd = "op_node s" and i = "last (Ls m)", OF mm op_ok_in [OF assms(1) l] lg im])
    moreover have "legal (op_node s') (data_buf s') ?F (butlast (Ls m)) = legal (op_node s) (data_buf s) ?F (butlast (Ls m))"
      using assms(3) by (intro legal_cong) (simp_all add: popped_def)
    ultimately show ?thesis using True by simp
  next
    case False
    have "legal (op_node s') (data_buf s') ?F (Ls k) = legal (op_node s) (data_buf s) F (Ls k)"
    proof (rule legal_cong)
      show "?F (pos (op_addr (op_node s i) + j)) = F (pos (op_addr (op_node s i) + j))" if "i \<in> set (Ls k)" "j < 4096" for i j
      proof (rule module_F [OF assms(1,2) _ _ False that(2)])
        have "Ls k \<noteq> []" using that(1) by auto
        then show "user s k" by (rule user_in [OF assms(1)])
        show "in_mod (mod_info s k) (op_addr (op_node s i))" using op_ok_in [OF assms(1) that(1)] by (simp add: op_ok_def)
      qed
      show "same_op (op_node s i) (op_node s' i)" if "i \<in> set (Ls k)" for i
      proof -
        have "lists_ok s Ls" using assms(1) by (simp add: inv_def)
        then have "i \<notin> set (Ls m)" using lists_apart [of s Ls i k m] that False by blast
        with assms(3) show ?thesis by (simp add: popped_def)
      qed
    qed (use assms(3) in \<open>simp add: popped_def\<close>)
    with False assms(1) that show ?thesis by (simp add: inv_def)
  qed
  have "api_inited s'" using assms(1,3) by (simp add: inv_def popped_def)
  with hw lg show "inv s' ?Ls ?F"
    unfolding inv_def using pop_lists [OF assms(1-3) m] pop_pools [OF assms(1-3) m] pop_mods [OF assms(1-3)] b(1) by blast
  show "mview s' ?Ls ?F k a = mview s Ls F k a" if "user s k" "in_range (mod_info s k) a"
  proof -
    have "mod_ok (tot s) (mod_info s k)" using mo that(1) by (simp add: mods_ok_def user_def)
    then have S: "in_mod (mod_info s k) (a div 4096 * 4096)" by (rule in_range_sector [OF _ that(2)])
    show ?thesis
    proof (cases "k = m")
      case True
      with pop_view_m [OF assms(1-3), of "a div 4096 * 4096" "a mod 4096"] S show ?thesis by (simp add: mview_def)
    next
      case False
      with pop_view_other [OF assms(1-3) that(1) S, of "a mod 4096"] show ?thesis by (simp add: mview_def)
    qed
  qed
qed

section \<open>One call of the hardware layer\<close>

lemma hal_goal_outside:
  assumes "hal_ok lo k h" "\<not> (lo \<le> x \<and> x < lo + k)"
  shows "hal_goal ram h x = cells (chip h) x"
proof (cases "suspend_state h = SUSPEND_STATE_NO")
  case True
  then show ?thesis by (simp add: hal_goal_def)
next
  case False
  then have r: "lo \<le> off (op_next_addr h)" "off (op_next_addr h) + op_remain_len h \<le> lo + k" "within lo k (chip h)"
    using assms(1) by (simp_all add: hal_ok_def)
  have o: "\<not> (off (op_next_addr h) \<le> x \<and> x < off (op_next_addr h) + op_remain_len h)" using r(1,2) assms(2) by linarith
  have "chip_goal (chip h) x = cells (chip h) x"
  proof (cases "running (chip h)")
    case None
    then show ?thesis by (simp add: chip_goal_idle)
  next
    case (Some z)
    obtain l n f where z: "running (chip h) = Some (l, n, f)" using Some by (cases z) auto
    then have "lo \<le> l \<and> l + n \<le> lo + k" using r(3) by (auto simp: within_def)
    with assms(2) have "\<not> (l \<le> x \<and> x < l + n)" by linarith
    then show ?thesis by (simp add: chip_goal_running [OF z] overlay_outside)
  qed
  moreover have "prog (off (op_next_addr h)) (chunk ram (op_next_buf h) (op_remain_len h)) f x = f x" for f
    using o by (simp add: prog_def) blast
  ultimately show ?thesis using o False by (cases "suspend_state h") (simp_all add: hal_goal_def overlay_outside)
qed

text \<open>What a call for operation \<open>n\<close> leaves: it is done, or suspended.\<close>

definition call_post :: "bool \<Rightarrow> OPRA_INFO \<Rightarrow> (nat \<Rightarrow> nat \<Rightarrow> byte) \<Rightarrow> (bufref \<Rightarrow> nat \<Rightarrow> byte) \<Rightarrow> (nat \<Rightarrow> byte) \<Rightarrow> nat \<Rightarrow>
    bufref norhal \<Rightarrow> HAL_NORFLASH_RET_T \<Rightarrow> bufref norhal \<Rightarrow> bool" where
  "call_post suspend n db ram F w h ret h' \<longleftrightarrow>
     (ret = HAL_NORFLASH_OK \<and> suspend_state h' = SUSPEND_STATE_NO \<and> running (chip h') = None \<and> cells (chip h') = apply_op n db F \<or>
      ret = HAL_NORFLASH_SUSPENDED \<and> suspend \<and> susp_ok n db ram h' F \<and> length (polls (chip h')) < length (polls (chip h))) \<and>
     geom h' \<and> total_size h' = total_size h \<and> suspend_mode h' = suspend_mode h \<and>
     hal_work h' + ready (polls (chip h)) \<le> w + ready (polls (chip h')) \<and> length (polls (chip h')) \<le> length (polls (chip h))"

lemma call_postI:
  assumes "hal_post ram sp (apply_op n db F) (pos (op_addr n)) 4096 w0 h ret h'" "sp \<longrightarrow> suspend" "w0 \<le> w" "w_offs n + w_len n \<le> 4096"
    and "ret = HAL_NORFLASH_SUSPENDED \<longrightarrow> suspend_state h' = (if op_type n = NORFLASH_API_WRITTING then SUSPEND_STATE_PROGRAM else SUSPEND_STATE_ERASE) \<and>
       (op_type n = NORFLASH_API_WRITTING \<longrightarrow> fst (op_next_buf h') = DATA (the (op_buff n)))"
  shows "call_post suspend n db ram F w h ret h'"
proof -
  note p = assms(1) [unfolded hal_post_def]
  have ok: "hal_ok (pos (op_addr n)) 4096 h'" "hal_goal ram h' = apply_op n db F" using p by blast+
  have g: "geom h'" using ok(1) by (simp add: hal_ok_def)
  have out: "cells (chip h') x = F x" if "\<not> (pos (op_addr n) \<le> x \<and> x < pos (op_addr n) + 4096)" for x
    using hal_goal_outside [OF ok(1) that, of ram] apply_op_outside [OF that assms(4), of db F] ok(2) by simp
  consider (ok) "ret = HAL_NORFLASH_OK" "suspend_state h' = SUSPEND_STATE_NO"
    | (susp) "ret = HAL_NORFLASH_SUSPENDED" "sp" "length (polls (chip h')) < length (polls (chip h))" using p by blast
  then show ?thesis
  proof cases
    case ok
    then have "running (chip h') = None" "cells (chip h') = apply_op n db F"
      using \<open>hal_ok _ _ h'\<close> \<open>hal_goal ram h' = _\<close> by (simp_all add: hal_ok_def hal_goal_def)
    with ok p g assms(3) show ?thesis unfolding call_post_def by (auto intro: order_trans)
  next
    case susp
    then have "susp_ok n db ram h' F" using assms(5) \<open>hal_ok _ _ h'\<close> \<open>hal_goal ram h' = _\<close> out by (simp add: susp_ok_def)
    with susp p g assms(2,3) show ?thesis unfolding call_post_def by (auto intro: order_trans)
  qed
qed

lemma chunk_data: "chunk (ram_of s c) (DATA b, i) n = map (\<lambda>j. data_buf s b (i + j)) [0..<n]"
  by (simp add: chunk_def ram_of_def)

lemma hw_idle:
  assumes "hw_ok s F" "busy s = None"
  shows "suspend_state (flash_hal s) = SUSPEND_STATE_NO" "running (chip (flash_hal s)) = None" "cells (chip (flash_hal s)) = F" "geom (flash_hal s)"
    "hal_ok lo k (flash_hal s)" "hal_work (flash_hal s) = 0"
  using assms by (simp_all add: hw_ok_def hal_ok_def hal_work_def)

lemma pos_page: "S mod 4096 = 0 \<Longrightarrow> pos S mod 4096 = 0"
  by (simp add: pos_def)

lemma dvd_page: "p mod 4096 = 0 \<Longrightarrow> 256 dvd p" for p :: nat
proof -
  assume "p mod 4096 = 0"
  then have "4096 dvd p" by (rule mod_0_imp_dvd)
  moreover have "(256 :: nat) dvd 4096" by simp
  ultimately show ?thesis using dvd_trans by blast
qed

lemma start_write:
  assumes "hw_ok s F" "busy s = None" "mod_ok (tot s) mi" "op_ok (tot s) mi n" "op_type n = NORFLASH_API_WRITTING" "op_buff n = Some b"
    and "18 \<le> ready (polls (chip (flash_hal s)))"
  shows "\<exists>ret h'. hal_norflash_write_suspend (ram_of s []) (op_addr n + w_offs n) (DATA b, w_offs n) (w_len n) suspend (flash_hal s) = Some (ret, h') \<and>
    call_post suspend n (data_buf s) (ram_of s []) F 18 (flash_hal s) ret h'"
proof -
  let ?h = "flash_hal s" and ?lo = "pos (op_addr n)" and ?a = "op_addr n + w_offs n"
  note id = hw_idle [OF assms(1,2)]
  have n: "w_offs n + w_len n \<le> 4096" "0 < w_len n" "in_mod mi (op_addr n)" "?lo + 4096 < tot s" using assms(4,5) by (simp_all add: op_ok_def)
  have a: "pos ?a = ?lo + w_offs n" using off_sector(1) [OF assms(3) n(3), of "w_offs n"] n(1,2) by simp
  have np: "npages ?a (w_len n) \<le> 18"
  proof -
    have "w_len n div 256 \<le> 4096 div 256" using n(1) by (intro div_le_mono) simp
    then show ?thesis using npages_bound [of ?a "w_len n"] by simp
  qed
  have al: "256 dvd ?lo" using n(3) by (intro dvd_page pos_page) (simp add: in_mod_def)
  have t: "tot s < 16777216" using assms(3) by (simp add: mod_ok_def)
  have r: "npages ?a (w_len n) \<le> ready (polls (chip ?h))" using np assms(7) by simp
  have r2: "?lo \<le> off ?a" "off ?a + w_len n \<le> ?lo + 4096" "?lo + 4096 \<le> tot s" "off ?a < tot s"
    using a n(1,2,4) by (simp_all add: pos_def)
  have lo: "?lo + 4096 < 16777216" using n(4) t by simp
  obtain ret h' where c: "hal_norflash_write_suspend (ram_of s []) ?a (DATA b, w_offs n) (w_len n) suspend ?h = Some (ret, h')"
      "hal_post (ram_of s []) (suspend \<and> suspend_mode ?h) (prog (off ?a) (chunk (ram_of s []) (DATA b, w_offs n) (w_len n)) (cells (chip ?h))) ?lo 4096
         (npages ?a (w_len n)) ?h ret h'"
      "ret = HAL_NORFLASH_SUSPENDED \<longrightarrow> suspend_state h' = SUSPEND_STATE_PROGRAM \<and> fst (op_next_buf h') = fst (DATA b, w_offs n)"
    using hal_write_suspend_post [where suspend = suspend and ram = "ram_of s []" and p = "(DATA b, w_offs n)", OF id(5) id(1) r al _ r2 lo] by auto
  have g: "prog (off ?a) (chunk (ram_of s []) (DATA b, w_offs n) (w_len n)) (cells (chip ?h)) = apply_op n (data_buf s) F"
    using a assms(5,6) id(3) by (simp add: apply_op_def chunk_data pos_def [of ?a])
  have "call_post suspend n (data_buf s) (ram_of s []) F 18 ?h ret h'"
    by (rule call_postI [OF c(2) [unfolded g] _ np n(1)]) (use c(3) assms(5,6) in simp_all)
  with c(1) show ?thesis by blast
qed

lemma start_erase:
  assumes "hw_ok s F" "busy s = None" "mod_ok (tot s) mi" "op_ok (tot s) mi n" "op_type n = NORFLASH_API_ERASING"
    and "18 \<le> ready (polls (chip (flash_hal s)))"
  shows "\<exists>ret h'. hal_norflash_erase_suspend (op_addr n) (op_len n) suspend (flash_hal s) = Some (ret, h') \<and>
    call_post suspend n (data_buf s) (ram_of s []) F 18 (flash_hal s) ret h'"
proof -
  let ?h = "flash_hal s" and ?lo = "pos (op_addr n)"
  note id = hw_idle [OF assms(1,2)]
  have n: "op_len n = 4096" "w_offs n + w_len n \<le> 4096" "op_addr n mod 4096 = 0" "?lo + 4096 < tot s" using assms(4) by (simp_all add: op_ok_def in_mod_def)
  have t: "tot s < 16777216" using assms(3) by (simp add: mod_ok_def)
  have r: "4096 div 4096 \<le> ready (polls (chip ?h))" using assms(6) by simp
  have r2: "?lo \<le> off (op_addr n)" "off (op_addr n) + 4096 \<le> ?lo + 4096" "?lo + 4096 \<le> tot s" "off (op_addr n) < tot s"
    using n(4) by (simp_all add: pos_def)
  have lo: "?lo + 4096 < 16777216" "4096 < tot s" using n(4) t by simp_all
  obtain ret h' where c: "hal_norflash_erase_suspend (op_addr n) 4096 suspend ?h = Some (ret, h')"
      "hal_post (ram_of s []) (suspend \<and> suspend_mode ?h) (wipe (off (op_addr n)) 4096 (cells (chip ?h))) ?lo 4096 (4096 div 4096) ?h ret h'"
      "ret = HAL_NORFLASH_SUSPENDED \<longrightarrow> suspend_state h' = SUSPEND_STATE_ERASE"
    using hal_erase_suspend_post [where suspend = suspend and ram = "ram_of s []", OF id(5) id(1) r n(3) _ r2 lo] by auto
  have g: "wipe (off (op_addr n)) 4096 (cells (chip ?h)) = apply_op n (data_buf s) F"
    using assms(5) id(3) by (simp add: apply_op_def pos_def)
  have "call_post suspend n (data_buf s) (ram_of s []) F 18 ?h ret h'"
    by (rule call_postI [OF c(2) [unfolded g]]) (use c(3) assms(5) n(2) in simp_all)
  with c(1) n(1) show ?thesis by auto
qed

lemma resume_call:
  assumes "susp_ok n (data_buf s) (ram_of s []) (flash_hal s) F" "op_ok (tot s) mi n" "hal_work (flash_hal s) \<le> ready (polls (chip (flash_hal s)))"
  shows "\<exists>ret h'. (if op_type n = NORFLASH_API_WRITTING then hal_norflash_write_resume (ram_of s []) suspend (flash_hal s)
      else hal_norflash_erase_resume suspend (flash_hal s)) = Some (ret, h') \<and>
    call_post suspend n (data_buf s) (ram_of s []) F (hal_work (flash_hal s)) (flash_hal s) ret h'"
proof -
  let ?h = "flash_hal s" and ?lo = "pos (op_addr n)" and ?ram = "ram_of s []"
  have so: "hal_ok ?lo 4096 ?h" "hal_goal ?ram ?h = apply_op n (data_buf s) F" using assms(1) by (simp_all add: susp_ok_def)
  have n: "w_offs n + w_len n \<le> 4096" "op_addr n mod 4096 = 0" "?lo + 4096 < tot s" using assms(2) by (simp_all add: op_ok_def in_mod_def)
  have al: "256 dvd ?lo" using n(2) by (intro dvd_page pos_page)
  show ?thesis
  proof (cases "op_type n = NORFLASH_API_WRITTING")
    case True
    then have st: "suspend_state ?h = SUSPEND_STATE_PROGRAM" "fst (op_next_buf ?h) = DATA (the (op_buff n))" using assms(1) by (simp_all add: susp_ok_def)
    obtain ret h' where c: "hal_norflash_write_resume ?ram suspend ?h = Some (ret, h')" "hal_post ?ram suspend (hal_goal ?ram ?h) ?lo 4096 (hal_work ?h) ?h ret h'"
        "ret = HAL_NORFLASH_SUSPENDED \<longrightarrow> suspend_state h' = SUSPEND_STATE_PROGRAM \<and> fst (op_next_buf h') = fst (op_next_buf ?h)"
      using hal_write_resume_post [OF so(1) st(1) assms(3) al _ n(3), of ?ram suspend] by auto
    have "call_post suspend n (data_buf s) ?ram F (hal_work ?h) ?h ret h'"
      by (rule call_postI [OF c(2) [unfolded so(2)]]) (use c(3) True st n(1) in simp_all)
    with c(1) True show ?thesis by auto
  next
    case False
    then have st: "suspend_state ?h = SUSPEND_STATE_ERASE" using assms(1) by (simp add: susp_ok_def)
    obtain ret h' where c: "hal_norflash_erase_resume suspend ?h = Some (ret, h')" "hal_post ?ram suspend (hal_goal ?ram ?h) ?lo 4096 (hal_work ?h) ?h ret h'"
        "ret = HAL_NORFLASH_SUSPENDED \<longrightarrow> suspend_state h' = SUSPEND_STATE_ERASE"
      using hal_erase_resume_post [OF so(1) st assms(3) n(3), of suspend ?ram] by auto
    have "call_post suspend n (data_buf s) ?ram F (hal_work ?h) ?h ret h'"
      by (rule call_postI [OF c(2) [unfolded so(2)]]) (use c(3) False n(1) in simp_all)
    with c(1) False show ?thesis by auto
  qed
qed

section \<open>One call of the flush of a module\<close>

text \<open>The state in which the oldest operation of a module is current.\<close>

definition begun :: "nat \<Rightarrow> nat \<Rightarrow> api \<Rightarrow> api" where
  "begun m i s = s\<lparr>op_node := (op_node s)(i := (op_node s i)\<lparr>op_lock := True\<rparr>),
     mod_info := (mod_info s)(m := (mod_info s m)\<lparr>cur_opera_info := Some i\<rparr>)\<rparr>"

lemma begun_sel [simp]:
  "op_node (begun m i s) j = (if j = i then (op_node s i)\<lparr>op_lock := True\<rparr> else op_node s j)"
  "mod_info (begun m i s) k = (if k = m then (mod_info s m)\<lparr>cur_opera_info := Some i\<rparr> else mod_info s k)"
  "flash_hal (begun m i s) = flash_hal s" "data_buf (begun m i s) = data_buf s" "op_used (begun m i s) = op_used s"
  "data_used (begun m i s) = data_used s" "cur_mod (begun m i s) = cur_mod s" "api_inited (begun m i s) = api_inited s"
  "ram_of (begun m i s) c = ram_of s c"
  by (simp_all add: begun_def ram_of_def fun_eq_iff split: bufref.split)

lemma tail_spec:
  assumes "inv s Ls F" "m < 8"
  shows "get_tail m False s = Some (if Ls m = [] then (None, s) else (Some (last (Ls m)), set_node (last (Ls m)) (op_lock_update (\<lambda>_. True)) s))"
proof -
  have "chain (op_node s) (opera_info (mod_info s m)) (Ls m)" using assms by (simp add: inv_def lists_ok_def)
  then show ?thesis by (simp add: get_tail_def tail_loop_chain Let_def split: option.split)
qed

lemma flush_begin:
  assumes "inv s Ls F" "Ls m \<noteq> []" "busy s = None \<or> busy s = Some (last (Ls m))"
  shows "(if cur_opera_info (mod_info s m) = None then do {
            (t, s) \<leftarrow> get_tail m False s;
            Some (set_mod m (cur_opera_info_update (\<lambda>_. t)) s) } else Some s) = Some (begun m (last (Ls m)) s)"
proof -
  have m: "m < 8" using user_in [OF assms(1,2)] by (simp add: user_def)
  have b: "busy_ok s Ls" and l: "last (Ls m) \<in> set (Ls m)" using assms(1,2) by (simp_all add: inv_def)
  show ?thesis
  proof (cases "cur_opera_info (mod_info s m)")
    case None
    then show ?thesis using assms(2) by (simp add: tail_spec [OF assms(1) m] begun_def set_mod_def set_node_def)
  next
    case (Some i)
    then have i: "i = last (Ls m)" using busy_okD(2) [OF b m] by blast
    then have "op_lock (op_node s (last (Ls m)))" using busy_lock [OF b m l] Some by simp
    then have "(op_node s (last (Ls m)))\<lparr>op_lock := True\<rparr> = op_node s (last (Ls m))" by simp
    moreover have "(mod_info s m)\<lparr>cur_opera_info := Some (last (Ls m))\<rparr> = mod_info s m" using Some i by simp
    ultimately show ?thesis using Some by (simp add: begun_def)
  qed
qed

lemma busy_m:
  assumes "inv s Ls F" "Ls m \<noteq> []" "busy s = None \<or> busy s = Some (last (Ls m))"
  shows "cur_opera_info (mod_info s m) = busy s"
    and "mod_state (mod_info s m) = (if busy s = None then NORFLASH_API_STATE_IDLE else susp_state (op_node s (last (Ls m))))"
proof -
  have m: "m < 8" using user_in [OF assms(1,2)] by (simp add: user_def)
  have b: "busy_ok s Ls" and l: "last (Ls m) \<in> set (Ls m)" and lo: "lists_ok s Ls" using assms(1,2) by (simp_all add: inv_def)
  show 1: "cur_opera_info (mod_info s m) = busy s"
  proof (cases "busy s")
    case None
    with not_busy [OF b None m] show ?thesis by simp
  next
    case (Some i)
    with assms(3) have "i = last (Ls m)" by simp
    obtain k where k: "cur_opera_info (mod_info s k) = Some i" "i \<in> set (Ls k)" using busy_mod [OF b Some] by blast
    then have "k = m" using lists_apart [OF lo, of i k m] l \<open>i = last (Ls m)\<close> by simp
    with k(1) Some show ?thesis by simp
  qed
  show "mod_state (mod_info s m) = (if busy s = None then NORFLASH_API_STATE_IDLE else susp_state (op_node s (last (Ls m))))"
    using busy_ok_idle [OF b m] busy_okD(4) [OF b m] 1 assms(3) by auto
qed

lemma flush_call_spec:
  assumes "inv s Ls F" "Ls m \<noteq> []" "busy s = None \<or> busy s = Some (last (Ls m))"
    and "(if busy s = None then 18 else hal_work (flash_hal s)) \<le> ready (polls (chip (flash_hal s)))"
  shows "\<exists>ret h' k. flush_call m ((op_node s (last (Ls m)))\<lparr>op_lock := True\<rparr>) suspend (begun m (last (Ls m)) s) =
      Some (ret, (begun m (last (Ls m)) s)\<lparr>flash_hal := h', suspend_number := k\<rparr>) \<and>
    call_post suspend (op_node s (last (Ls m))) (data_buf s) (ram_of s []) F
      (if busy s = None then 18 else hal_work (flash_hal s)) (flash_hal s) ret h'"
proof -
  let ?i = "last (Ls m)" and ?t = "begun m (last (Ls m)) s"
  let ?n = "op_node s ?i"
  have m: "m < 8" "mod_ok (tot s) (mod_info s m)" and hw: "hw_ok s F" and l: "?i \<in> set (Ls m)"
    using user_in [OF assms(1,2)] assms(1,2) by (auto simp: user_def inv_def mods_ok_def)
  note ok = op_ok_in [OF assms(1) l]
  note st = busy_m [OF assms(1-3)]
  show ?thesis
  proof (cases "busy s")
    case None
    then have s0: "mod_state (mod_info s m) = NORFLASH_API_STATE_IDLE" using st by simp
    have r: "18 \<le> ready (polls (chip (flash_hal s)))" using assms(4) None by simp
    show ?thesis
    proof (cases "op_type ?n")
      case NORFLASH_API_WRITTING
      then obtain b where b: "op_buff ?n = Some b" "0 < w_len ?n" using ok by (auto simp: op_ok_def)
      from start_write [OF hw None m(2) ok NORFLASH_API_WRITTING b(1) r, of suspend] obtain ret h' where
        "hal_norflash_write_suspend (ram_of s []) (op_addr ?n + w_offs ?n) (DATA b, w_offs ?n) (w_len ?n) suspend (flash_hal s) = Some (ret, h')"
        "call_post suspend ?n (data_buf s) (ram_of s []) F 18 (flash_hal s) ret h'" by blast
      with NORFLASH_API_WRITTING b s0 None show ?thesis
        by (intro exI [of _ ret] exI [of _ h'] exI [of _ 0]) (simp add: flush_call_def)
    next
      case NORFLASH_API_ERASING
      from start_erase [OF hw None m(2) ok NORFLASH_API_ERASING r, of suspend] obtain ret h' where
        "hal_norflash_erase_suspend (op_addr ?n) (op_len ?n) suspend (flash_hal s) = Some (ret, h')"
        "call_post suspend ?n (data_buf s) (ram_of s []) F 18 (flash_hal s) ret h'" by blast
      with NORFLASH_API_ERASING s0 None show ?thesis
        by (intro exI [of _ ret] exI [of _ h'] exI [of _ 0]) (simp add: flush_call_def)
    qed
  next
    case (Some j)
    then have j: "j = ?i" using assms(3) by simp
    have so: "susp_ok ?n (data_buf s) (ram_of s []) (flash_hal s) F" using hw Some j by (simp add: hw_ok_def)
    have r: "hal_work (flash_hal s) \<le> ready (polls (chip (flash_hal s)))" using assms(4) Some by simp
    have s1: "mod_state (mod_info s m) = susp_state ?n" using st Some by simp
    from resume_call [OF so ok r, of suspend] obtain ret h' where
      c: "(if op_type ?n = NORFLASH_API_WRITTING then hal_norflash_write_resume (ram_of s []) suspend (flash_hal s)
        else hal_norflash_erase_resume suspend (flash_hal s)) = Some (ret, h')"
      "call_post suspend ?n (data_buf s) (ram_of s []) F (hal_work (flash_hal s)) (flash_hal s) ret h'" by blast
    with s1 Some show ?thesis
      by (intro exI [of _ ret] exI [of _ h'] exI [of _ "suspend_number (begun m ?i s) + 1"], cases "op_type ?n")
        (simp_all add: flush_call_def susp_state_def)
  qed
qed

lemma opera_del_last:
  assumes "chain (op_node t) (opera_info (mod_info t m)) L" "L \<noteq> []" "distinct L"
  shows "\<exists>s'. opera_del m (last L) t = Some s' \<and> chain (op_node s') (opera_info (mod_info s' m)) (butlast L) \<and>
    (\<forall>j. j \<notin> set (butlast L) \<longrightarrow> op_node s' j = op_node t j) \<and> (\<forall>j. same_op (op_node t j) (op_node s' j) \<and> op_lock (op_node s' j) = op_lock (op_node t j)) \<and>
    op_used s' = (op_used t)(last L := False) \<and> data_used s' = (\<lambda>b. data_used t b \<and> op_buff (op_node t (last L)) \<noteq> Some b) \<and>
    data_buf s' = data_buf t \<and> (\<exists>x. mod_info s' = (mod_info t)(m := (mod_info t m)\<lparr>opera_info := x\<rparr>)) \<and>
    cur_mod s' = cur_mod t \<and> api_inited s' = api_inited t \<and> flash_hal s' = flash_hal t"
proof -
  have du: "data_used (norflash_api_free_data o' t') = (\<lambda>b. data_used t' b \<and> o' \<noteq> Some b)" for o' t'
    by (auto simp: norflash_api_free_data_def fun_eq_iff split: option.split)
  have fd: "op_node (norflash_api_free_data o' t') = op_node t'" "mod_info (norflash_api_free_data o' t') = mod_info t'"
    "op_used (norflash_api_free_data o' t') = op_used t'" "data_buf (norflash_api_free_data o' t') = data_buf t'"
    "cur_mod (norflash_api_free_data o' t') = cur_mod t'" "api_inited (norflash_api_free_data o' t') = api_inited t'"
    "flash_hal (norflash_api_free_data o' t') = flash_hal t'" for o' t'
    by (simp_all add: norflash_api_free_data_def split: option.split)
  note cb = chain_butlast [OF assms]
  show ?thesis
  proof (cases "butlast L = []")
    case True
    let ?t = "set_mod m (opera_info_update (\<lambda>_. None)) t"
    let ?s = "norflash_api_free_op (last L) (norflash_api_free_data (op_buff (op_node t (last L))) ?t)"
    have "opera_del m (last L) t = Some ?s"
      using del_loop_last [OF assms] cb(1) [OF True] by (simp add: opera_del_def Let_def set_mod_def)
    then show ?thesis
      by (intro exI [of _ ?s]) (auto simp: True norflash_api_free_op_def fd du set_mod_def)
  next
    case False
    let ?p = "last (butlast L)"
    have p: "?p \<in> set (butlast L)" "?p \<noteq> last L" using False assms(2,3) butlast_in [OF assms(3,2), of ?p] by simp_all
    have "opera_info (mod_info t m) \<noteq> Some (last L)"
    proof
      assume h: "opera_info (mod_info t m) = Some (last L)"
      obtain x K where x: "butlast L = x # K" using False by (cases "butlast L") auto
      then have "L = (x # K) @ [last L]" using assms(2) by (metis append_butlast_last_id)
      then have "opera_info (mod_info t m) = Some x" using assms(1) by (metis append_Cons chain.simps(2))
      with h x have "last L \<in> set (butlast L)" by simp
      with butlast_in [OF assms(3,2)] show False by simp
    qed
    moreover define t1 where "t1 = set_node ?p (op_next_update (\<lambda>_. None)) t"
    ultimately have d: "opera_del m (last L) t = Some (norflash_api_free_op (last L) (norflash_api_free_data (op_buff (op_node t1 (last L))) t1))"
      using del_loop_last [OF assms] False by (simp add: opera_del_def Let_def)
    have t1: "op_node t1 = (op_node t)(?p := (op_node t ?p)\<lparr>op_next := None\<rparr>)" "mod_info t1 = mod_info t" "op_used t1 = op_used t"
      "data_used t1 = data_used t" "data_buf t1 = data_buf t" "cur_mod t1 = cur_mod t" "api_inited t1 = api_inited t" "flash_hal t1 = flash_hal t"
      by (simp_all add: t1_def set_node_def)
    have "chain (op_node t1) (opera_info (mod_info t1 m)) (butlast L)" using cb(2) [OF False] by (simp only: t1)
    moreover have "\<exists>x. mod_info t = (mod_info t)(m := (mod_info t m)\<lparr>opera_info := x\<rparr>)"
      by (rule exI [of _ "opera_info (mod_info t m)"]) simp
    moreover define r where "r = norflash_api_free_op (last L) (norflash_api_free_data (op_buff (op_node t1 (last L))) t1)"
    ultimately have c: "chain (op_node t1) (opera_info (mod_info t1 m)) (butlast L)"
      "\<exists>x. mod_info t = (mod_info t)(m := (mod_info t m)\<lparr>opera_info := x\<rparr>)" by blast+
    have r: "op_node r = op_node t1" "mod_info r = mod_info t" "op_used r = (op_used t)(last L := False)"
      "data_used r = (\<lambda>b. data_used t b \<and> op_buff (op_node t (last L)) \<noteq> Some b)" "data_buf r = data_buf t"
      "cur_mod r = cur_mod t" "api_inited r = api_inited t" "flash_hal r = flash_hal t"
      using p(2) by (simp_all add: r_def norflash_api_free_op_def fd du t1)
    have n: "op_node t1 j = op_node t j" if "j \<notin> set (butlast L)" for j using that p(1) by (auto simp: t1(1))
    have sm: "same_op (op_node t j) (op_node t1 j) \<and> op_lock (op_node t1 j) = op_lock (op_node t j)" for j by (simp add: t1(1))
    show ?thesis using d c n sm unfolding r_def [symmetric] by (intro exI [of _ r]) (simp add: r t1(2) del: t1(1))
  qed
qed

lemma state_update_last:
  "mi\<lparr>mod_state := a, opera_info := x, cur_opera_info := c\<rparr> = (mi :: MODULE_INFO)\<lparr>opera_info := x, cur_opera_info := c, mod_state := a\<rparr>"
  by (cases mi) simp

lemma flush_done_spec:
  assumes "inv s Ls F" "Ls m \<noteq> []"
    and "geom h'" "total_size h' = tot s" "suspend_state h' = SUSPEND_STATE_NO" "running (chip h') = None"
  shows "\<exists>s'. flush_done m (last (Ls m)) ((begun m (last (Ls m)) s)\<lparr>flash_hal := h', suspend_number := k\<rparr>) = Some s' \<and>
    popped m (Ls m) s s' \<and> flash_hal s' = h'"
proof -
  let ?i = "last (Ls m)"
  define t where "t = set_mod m (mod_state_update (\<lambda>_. NORFLASH_API_STATE_IDLE)) ((begun m ?i s)\<lparr>flash_hal := h', suspend_number := k\<rparr>)"
  define cb where "cb \<longleftrightarrow> cb_func (mod_info t m) \<and> (0 < w_len (op_node t ?i) \<and> op_type (op_node t ?i) = NORFLASH_API_WRITTING \<or>
        0 < op_len (op_node t ?i) \<and> op_type (op_node t ?i) = NORFLASH_API_ERASING)"
  have m: "m < 8" using user_in [OF assms(1,2)] by (simp add: user_def)
  have ch: "chain (op_node s) (opera_info (mod_info s m)) (Ls m)" using assms(1) m by (simp add: inv_def lists_ok_def)
  have tn: "op_node t j = (if j = ?i then (op_node s ?i)\<lparr>op_lock := True\<rparr> else op_node s j)" for j by (simp add: set_mod_def t_def)
  have ti: "mod_info t = (mod_info s)(m := (mod_info s m)\<lparr>cur_opera_info := Some ?i, mod_state := NORFLASH_API_STATE_IDLE\<rparr>)"
    by (simp add: set_mod_def begun_def t_def)
  have "chain (op_node t) h (Ls m) = chain (op_node s) h (Ls m)" for h by (rule chain_cong) (simp only: tn, simp)
  then have cht: "chain (op_node t) (opera_info (mod_info t m)) (Ls m)" using ch by (simp add: ti)
  define u where "u = (if cb then t\<lparr>cb_calls := cb_calls t @ [(m, flush_result (op_node t ?i) (length (Ls m)))]\<rparr> else t)"
  have u: "op_node u = op_node t" "mod_info u = mod_info t" "op_used u = op_used s" "data_used u = data_used s" "data_buf u = data_buf s"
    "cur_mod u = cur_mod s" "api_inited u = api_inited s" "flash_hal u = h'"
    by (simp_all add: u_def set_mod_def t_def)
  have cnt: "get_ew_count m t = Some (length (Ls m))" using cht by (simp add: get_ew_count_def count_loop_chain)
  have chu: "chain (op_node u) (opera_info (mod_info u m)) (Ls m)" using cht by (simp only: u)
  obtain r where r: "opera_del m ?i u = Some r" "chain (op_node r) (opera_info (mod_info r m)) (butlast (Ls m))"
    "\<And>j. j \<notin> set (butlast (Ls m)) \<Longrightarrow> op_node r j = op_node u j"
    "\<And>j. same_op (op_node u j) (op_node r j) \<and> op_lock (op_node r j) = op_lock (op_node u j)"
    "op_used r = (op_used s)(?i := False)" "data_used r = (\<lambda>b. data_used s b \<and> op_buff (op_node u ?i) \<noteq> Some b)" "data_buf r = data_buf s"
    "\<exists>x. mod_info r = (mod_info u)(m := (mod_info u m)\<lparr>opera_info := x\<rparr>)" "cur_mod r = cur_mod s" "api_inited r = api_inited s" "flash_hal r = h'"
    using opera_del_last [OF chu assms(2) inv_distinct [OF assms(1)]] unfolding u by blast
  let ?s = "set_mod m (cur_opera_info_update (\<lambda>_. None)) r"
  obtain x where x: "mod_info r = (mod_info u)(m := (mod_info u m)\<lparr>opera_info := x\<rparr>)" using r(8) by blast
  have "flush_done m ?i ((begun m ?i s)\<lparr>flash_hal := h', suspend_number := k\<rparr>) = Some ?s"
  proof -
    have "flush_done m ?i ((begun m ?i s)\<lparr>flash_hal := h', suspend_number := k\<rparr>) = do {
        s \<leftarrow> (if cb then do { n \<leftarrow> get_ew_count m t; Some (t\<lparr>cb_calls := cb_calls t @ [(m, flush_result (op_node t ?i) n)]\<rparr>) } else Some t);
        s \<leftarrow> opera_del m ?i s;
        Some (set_mod m (cur_opera_info_update (\<lambda>_. None)) s) }"
      by (simp only: flush_done_def Let_def t_def cb_def)
    with r(1) cnt show ?thesis by (cases cb) (simp_all add: u_def)
  qed
  moreover have "popped m (Ls m) s ?s"
  proof -
    have "op_node r j = op_node s j" if "j \<notin> set (Ls m)" for j
    proof -
      have "j \<noteq> ?i" "j \<notin> set (butlast (Ls m))" using that assms(2) by (auto dest: in_set_butlastD)
      then show ?thesis using r(3) by (simp add: u tn)
    qed
    moreover have "same_op (op_node s j) (op_node r j) \<and> op_lock (op_node r j) = op_lock (op_node s j)" if "j \<in> set (butlast (Ls m))" for j
    proof -
      have "j \<noteq> ?i" using that butlast_in [OF inv_distinct [OF assms(1)] assms(2)] by blast
      then show ?thesis using r(4) [of j] by (simp add: u tn)
    qed
    moreover have "mod_info ?s = (mod_info s)(m := (mod_info s m)\<lparr>opera_info := x, cur_opera_info := None, mod_state := NORFLASH_API_STATE_IDLE\<rparr>)"
      by (simp add: set_mod_def x u ti state_update_last)
    moreover have "op_buff (op_node u ?i) = op_buff (op_node s ?i)" by (simp add: u tn)
    moreover have "op_node ?s = op_node r" "opera_info (mod_info ?s m) = opera_info (mod_info r m)" "op_used ?s = op_used r" "data_used ?s = data_used r"
      "data_buf ?s = data_buf r" "cur_mod ?s = cur_mod r" "api_inited ?s = api_inited r" "flash_hal ?s = h'"
      by (simp_all add: set_mod_def r(11))
    ultimately show ?thesis unfolding popped_def using r(2,5,6,7,9,10) assms(3-6) by simp (rule exI, rule refl)
  qed
  moreover have "flash_hal ?s = h'" using r(11) by (simp add: set_mod_def)
  ultimately show ?thesis by blast
qed

text \<open>The operation stays at the tail, locked, when it is suspended.\<close>

lemma inv_suspended:
  assumes "inv s Ls F" "Ls m \<noteq> []" "busy s = None \<or> busy s = Some (last (Ls m))" "cur_mod s = Some m"
    and "susp_ok (op_node s (last (Ls m))) (data_buf s) (ram_of s []) h' F" "geom h'" "total_size h' = tot s"
    and s': "s' = set_mod m (mod_state_update (\<lambda>_. susp_state (op_node s (last (Ls m)))))
      ((begun m (last (Ls m)) s)\<lparr>flash_hal := h', suspend_number := k\<rparr>)"
  shows "inv s' Ls F" "mview s' Ls F = mview s Ls F" "busy s' = Some (last (Ls m))"
proof -
  let ?i = "last (Ls m)"
  have iv: "lists_ok s Ls" "pools_ok s Ls" "mods_ok s Ls" "busy_ok s Ls" "api_inited s" "m < 8" and l: "?i \<in> set (Ls m)"
    using assms(1,2) user_in [OF assms(1,2)] by (simp_all add: inv_def user_def)
  have nd: "op_node s' j = (if j = ?i then (op_node s ?i)\<lparr>op_lock := True\<rparr> else op_node s j)" for j by (simp add: s' set_mod_def)
  have mi: "mod_info s' j = (if j = m then (mod_info s m)\<lparr>cur_opera_info := Some ?i, mod_state := susp_state (op_node s ?i)\<rparr> else mod_info s j)" for j
    by (simp add: s' set_mod_def)
  have st: "op_used s' = op_used s" "data_used s' = data_used s" "data_buf s' = data_buf s" "cur_mod s' = cur_mod s" "api_inited s' = api_inited s" "flash_hal s' = h'"
    by (simp_all add: s' set_mod_def)
  have f: "same_op (op_node s j) (op_node s' j)" "op_next (op_node s' j) = op_next (op_node s j)" for j by (simp_all add: nd)
  have ff: "is_w s' j = is_w s j" "op_buff (op_node s' j) = op_buff (op_node s j)" "op_ok t mi (op_node s' j) = op_ok t mi (op_node s j)"
    "susp_state (op_node s' j) = susp_state (op_node s j)" for j t mi
    using same_op_fields [OF f(1) [of j]] by (simp_all add: is_w_def)
  have sp: "same_place (mod_info s j) (mod_info s' j)" for j by (simp add: mi)
  have cur: "cur_opera_info (mod_info s j) = None" if "j < 8" "j \<noteq> m" for j
  proof (rule ccontr)
    assume "cur_opera_info (mod_info s j) \<noteq> None"
    then obtain i where "cur_opera_info (mod_info s j) = Some i" by blast
    from busy_okD(3) [OF iv(4) that(1) this] assms(4) that(2) show False by simp
  qed
  have "chain (op_node s') h L = chain (op_node s) h L" for h L by (rule chain_cong) (rule f(2))
  then have "lists_ok s' Ls" using iv(1) by (simp add: lists_ok_def mi)
  moreover have "pools_ok s' Ls" using iv(2) by (simp add: pools_ok_def st ff)
  moreover have "mods_ok s' Ls"
    by (rule mods_ok_cong [OF iv(3) sp]) (use iv(3) assms(7) in \<open>simp_all add: st ff mods_ok_def\<close>)
  moreover have "busy_ok s' Ls"
  proof (rule busy_ok_intro)
    show "op_lock (op_node s' i) \<longleftrightarrow> cur_opera_info (mod_info s' j) = Some i" if "j < 8" "i \<in> set (Ls j)" for i j
    proof (cases "j = m")
      case True
      then show ?thesis using busy_lock [OF iv(4) that] busy_okD(2) [OF iv(4) that(1), of i] by (auto simp: nd mi)
    next
      case False
      then have "i \<noteq> ?i" using lists_apart [OF iv(1) that(2), of m] l by blast
      with False cur [OF that(1) False] busy_lock [OF iv(4) that] show ?thesis by (simp add: nd mi)
    qed
    show "Ls j \<noteq> [] \<and> i = last (Ls j) \<and> cur_mod s' = Some j \<and> mod_state (mod_info s' j) = susp_state (op_node s' i)"
      if "j < 8" "cur_opera_info (mod_info s' j) = Some i" for i j
    proof -
      have "j = m" using cur [OF that(1)] that(2) by (cases "j = m") (simp_all add: mi)
      with that(2) assms(2,4) show ?thesis by (simp add: mi st ff)
    qed
    show "mod_state (mod_info s' j) = NORFLASH_API_STATE_IDLE" if "j < 8" "cur_opera_info (mod_info s' j) = None" for j
      using busy_ok_idle [OF iv(4) that(1)] that(2) by (simp add: mi split: if_splits)
    show "c < 8 \<and> mod_inited (mod_info s' c)" if "cur_mod s' = Some c" for c
      using busy_cur [OF iv(4)] that sp [of c] by (simp add: st same_place_def)
  qed
  moreover show b: "busy s' = Some ?i" using assms(4) by (simp add: busy_def st mi)
  moreover have "hw_ok s' F"
  proof -
    have "susp_ok (op_node s' ?i) (data_buf s') (ram_of s' []) h' F"
      by (rule susp_ok_cong [OF assms(5) f(1)]) (simp_all add: st)
    with b assms(6) show ?thesis by (simp add: hw_ok_def st)
  qed
  moreover have "legal (op_node s') (data_buf s') F (Ls j)" if "j < 8" for j
  proof -
    have "legal (op_node s') (data_buf s') F (Ls j) = legal (op_node s) (data_buf s) F (Ls j)" by (rule legal_cong) (simp_all add: f st)
    with assms(1) that show ?thesis by (simp add: inv_def)
  qed
  ultimately show "inv s' Ls F" using iv(5) by (simp add: inv_def st)
  have "view (op_node s') (data_buf s') F (Ls j) S x = view (op_node s) (data_buf s) F (Ls j) S x" for j S x
    by (rule view_cong) (simp_all add: f st)
  then show "mview s' Ls F = mview s Ls F" by (simp add: mview_def fun_eq_iff)
qed

text \<open>
  The number of operations, and the number of done readings of the chip that carrying them out can take:
  18 pages at most for a sector (it may start and end inside a page).
\<close>

definition nodes :: "(nat \<Rightarrow> nat list) \<Rightarrow> nat" where
  "nodes Ls = (\<Sum>m<8. length (Ls m))"

definition need :: "api \<Rightarrow> (nat \<Rightarrow> nat list) \<Rightarrow> nat" where
  "need s Ls = hal_work (flash_hal s) + 18 * (nodes Ls - (if busy s = None then 0 else 1))"

abbreviation polls_of :: "api \<Rightarrow> poll list" where "polls_of s \<equiv> polls (chip (flash_hal s))"

text \<open>A step that no module sees.\<close>

definition unseen :: "api \<Rightarrow> (nat \<Rightarrow> nat list) \<Rightarrow> (nat \<Rightarrow> byte) \<Rightarrow> api \<Rightarrow> (nat \<Rightarrow> nat list) \<Rightarrow> (nat \<Rightarrow> byte) \<Rightarrow> bool" where
  "unseen s Ls F s' Ls' F' \<longleftrightarrow> inv s' Ls' F' \<and> (\<forall>k. same_place (mod_info s k) (mod_info s' k)) \<and> tot s' = tot s \<and>
     (\<forall>k a. user s k \<longrightarrow> in_range (mod_info s k) a \<longrightarrow> mview s' Ls' F' k a = mview s Ls F k a) \<and>
     need s' Ls' + ready (polls_of s) \<le> need s Ls + ready (polls_of s') \<and> length (polls_of s') \<le> length (polls_of s)"

lemma same_place_user: "same_place (mod_info s k) (mod_info s' k) \<Longrightarrow> user s' k = user s k"
  by (simp add: user_def same_place_def)

lemma same_place_trans: "same_place a b \<Longrightarrow> same_place b c \<Longrightarrow> same_place a c"
  by (simp add: same_place_def)

lemma unseen_refl: "inv s Ls F \<Longrightarrow> unseen s Ls F s Ls F"
  by (simp add: unseen_def)

lemma unseen_trans:
  assumes "unseen s Ls F s1 Ls1 F1" "unseen s1 Ls1 F1 s2 Ls2 F2"
  shows "unseen s Ls F s2 Ls2 F2"
proof -
  have p: "same_place (mod_info s k) (mod_info s1 k)" for k using assms(1) by (simp add: unseen_def)
  have q: "same_place (mod_info s1 k) (mod_info s2 k)" for k using assms(2) by (simp add: unseen_def)
  have "mview s2 Ls2 F2 k a = mview s Ls F k a" if "user s k" "in_range (mod_info s k) a" for k a
  proof -
    have "user s1 k" "in_range (mod_info s1 k) a"
      using that same_place_user [OF p] same_place_eqs(5) [OF p] by simp_all
    then show ?thesis using assms that by (simp add: unseen_def)
  qed
  then show ?thesis using assms same_place_trans [OF p q] by (auto simp: unseen_def)
qed

lemma nodes_pop: "m < 8 \<Longrightarrow> Ls m \<noteq> [] \<Longrightarrow> nodes (Ls(m := butlast (Ls m))) + 1 = nodes Ls"
proof -
  assume a: "m < 8" "Ls m \<noteq> []"
  have split: "(\<Sum>k<8. f k) = f m + (\<Sum>k\<in>{..<8} - {m}. f k)" for f :: "nat \<Rightarrow> nat"
    using a(1) by (intro sum.remove) simp_all
  have "(\<Sum>k\<in>{..<8} - {m}. length ((Ls(m := butlast (Ls m))) k)) = (\<Sum>k\<in>{..<8} - {m}. length (Ls k))" by (rule sum.cong) auto
  moreover have "length (butlast (Ls m)) + 1 = length (Ls m)" using a(2) by (cases "Ls m") simp_all
  ultimately show ?thesis unfolding nodes_def split by simp
qed

lemma nodes_pos: "m < 8 \<Longrightarrow> Ls m \<noteq> [] \<Longrightarrow> 0 < nodes Ls"
  using nodes_pop [of m Ls] by simp

lemma need_call:
  assumes "inv s Ls F" "Ls m \<noteq> []" "busy s = None \<or> busy s = Some (last (Ls m))"
  shows "need s Ls = (if busy s = None then 18 else hal_work (flash_hal s)) + 18 * (nodes Ls - 1)"
proof -
  have m: "m < 8" using user_in [OF assms(1,2)] by (simp add: user_def)
  have "0 < nodes Ls" by (rule nodes_pos [where m = m and Ls = Ls, OF m assms(2)])
  moreover have "busy s = None \<Longrightarrow> hal_work (flash_hal s) = 0" using hw_idle(6) [of s F] assms(1) by (simp add: inv_def)
  ultimately show ?thesis by (cases "busy s") (simp_all add: need_def)
qed

lemma opera_flush_empty:
  assumes "inv s Ls F" "m < 8" "Ls m = []"
  shows "opera_flush m force s = Some (False, s)"
proof -
  have c: "cur_opera_info (mod_info s m) = None"
    using busy_okD(1) [of s Ls m] assms by (cases "cur_opera_info (mod_info s m)") (auto simp: inv_def)
  then have "(mod_info s m)\<lparr>cur_opera_info := None\<rparr> = mod_info s m" by simp
  then have "set_mod m (cur_opera_info_update (\<lambda>_. None)) s = s" by (simp add: set_mod_def)
  then show ?thesis using c by (simp add: opera_flush_def tail_spec [OF assms(1,2)] assms(3))
qed

lemma flush_ok_case:
  assumes "inv s Ls F" "Ls m \<noteq> []" "busy s = None \<or> busy s = Some (last (Ls m))"
    and "call_post sp (op_node s (last (Ls m))) (data_buf s) (ram_of s []) F w (flash_hal s) HAL_NORFLASH_OK h'"
    and "w = (if busy s = None then 18 else hal_work (flash_hal s))"
  shows "\<exists>s'. flush_done m (last (Ls m)) ((begun m (last (Ls m)) s)\<lparr>flash_hal := h', suspend_number := k\<rparr>) = Some s' \<and>
    unseen s Ls F s' (Ls(m := butlast (Ls m))) (apply_op (op_node s (last (Ls m))) (data_buf s) F) \<and> cur_mod s' = cur_mod s \<and> busy s' = None"
proof -
  have m: "m < 8" using user_in [OF assms(1,2)] by (simp add: user_def)
  have h: "geom h'" "total_size h' = tot s" "suspend_state h' = SUSPEND_STATE_NO" "running (chip h') = None"
    "cells (chip h') = apply_op (op_node s (last (Ls m))) (data_buf s) F"
    "hal_work h' + ready (polls_of s) \<le> w + ready (polls (chip h'))" "length (polls (chip h')) \<le> length (polls_of s)"
    using assms(4) by (auto simp: call_post_def)
  obtain s' where s': "flush_done m (last (Ls m)) ((begun m (last (Ls m)) s)\<lparr>flash_hal := h', suspend_number := k\<rparr>) = Some s'"
      "popped m (Ls m) s s'" "flash_hal s' = h'" using flush_done_spec [OF assms(1,2) h(1-4)] by blast
  note ip = inv_pop [OF assms(1,2) s'(2) assms(3)]
  have b: "busy s' = None" by (rule pop_busy(2) [OF assms(1,2) s'(2) assms(3)])
  have "need s' (Ls(m := butlast (Ls m))) + ready (polls_of s) \<le> need s Ls + ready (polls_of s')"
    using need_call [OF assms(1-3)] nodes_pop [where m = m and Ls = Ls, OF m assms(2)] h(6) by (simp add: need_def b s'(3) assms(5))
  then have "unseen s Ls F s' (Ls(m := butlast (Ls m))) (apply_op (op_node s (last (Ls m))) (data_buf s) F)"
    using ip h(2,5,7) popped_mod(1) [OF s'(2)] s'(3) by (simp add: unseen_def)
  moreover have "cur_mod s' = cur_mod s" using s'(2) by (simp add: popped_def)
  ultimately show ?thesis using s'(1) b by blast
qed

lemma opera_flush_spec:
  assumes "inv s Ls F" "Ls m \<noteq> []" "busy s = None \<or> busy s = Some (last (Ls m))" "cur_mod s = Some m \<or> force"
    and "need s Ls \<le> ready (polls_of s)"
  shows "\<exists>s' Ls' F'. opera_flush m force s = Some (True, s') \<and> unseen s Ls F s' Ls' F' \<and> cur_mod s' = cur_mod s \<and>
    (Ls' = Ls(m := butlast (Ls m)) \<and> busy s' = None \<or> \<not> force \<and> Ls' = Ls \<and> length (polls_of s') < length (polls_of s))"
proof -
  let ?i = "last (Ls m)" and ?w = "if busy s = None then 18 else hal_work (flash_hal s)"
  have "?w \<le> ready (polls_of s)" using need_call [OF assms(1-3)] assms(5) by linarith
  then obtain ret h' k where fc: "flush_call m ((op_node s ?i)\<lparr>op_lock := True\<rparr>) (\<not> force) (begun m ?i s) =
      Some (ret, (begun m ?i s)\<lparr>flash_hal := h', suspend_number := k\<rparr>)"
    and cp: "call_post (\<not> force) (op_node s ?i) (data_buf s) (ram_of s []) F ?w (flash_hal s) ret h'"
    using flush_call_spec [OF assms(1-3)] by blast
  have eq: "opera_flush m force s = do {
      (ret, s) \<leftarrow> flush_call m (op_node (begun m ?i s) ?i) (\<not> force) (begun m ?i s);
      case ret of HAL_NORFLASH_OK \<Rightarrow> do { s \<leftarrow> flush_done m ?i s; Some (True, s) }
      | HAL_NORFLASH_SUSPENDED \<Rightarrow> Some (True, set_mod m (mod_state_update (\<lambda>_.
            if op_type (op_node s ?i) = NORFLASH_API_WRITTING then NORFLASH_API_STATE_WRITTING_SUSPEND
            else NORFLASH_API_STATE_ERASE_SUSPEND)) s)
      | _ \<Rightarrow> None }"
    by (simp add: opera_flush_def flush_begin [OF assms(1-3), simplified])
  consider (ok) "ret = HAL_NORFLASH_OK"
    | (susp) "ret = HAL_NORFLASH_SUSPENDED" "\<not> force" "susp_ok (op_node s ?i) (data_buf s) (ram_of s []) h' F"
      "length (polls (chip h')) < length (polls_of s)"
    using cp by (auto simp: call_post_def)
  then show ?thesis
  proof cases
    case ok
    from flush_ok_case [OF assms(1-3) cp [unfolded ok] refl, of k] obtain s' where
      s': "flush_done m ?i ((begun m ?i s)\<lparr>flash_hal := h', suspend_number := k\<rparr>) = Some s'"
      "unseen s Ls F s' (Ls(m := butlast (Ls m))) (apply_op (op_node s ?i) (data_buf s) F)" "cur_mod s' = cur_mod s" "busy s' = None" by blast
    then have "opera_flush m force s = Some (True, s')" using fc ok by (simp add: eq)
    with s' show ?thesis by blast
  next
    case susp
    define s' where "s' = set_mod m (mod_state_update (\<lambda>_. susp_state (op_node s ?i))) ((begun m ?i s)\<lparr>flash_hal := h', suspend_number := k\<rparr>)"
    have c: "cur_mod s = Some m" using assms(4) susp(2) by simp
    have h: "geom h'" "total_size h' = tot s" "hal_work h' + ready (polls_of s) \<le> ?w + ready (polls (chip h'))" using cp by (simp_all add: call_post_def)
    note su = inv_suspended [OF assms(1-3) c susp(3) h(1,2) s'_def]
    have hs: "flash_hal s' = h'" "cur_mod s' = cur_mod s" by (simp_all add: s'_def set_mod_def)
    have "opera_flush m force s = Some (True, s')" using fc susp(1) by (simp add: eq s'_def susp_state_def)
    moreover have "need s' Ls + ready (polls_of s) \<le> need s Ls + ready (polls_of s')"
      using need_call [OF assms(1-3)] h(3) by (simp add: need_def su(3) hs)
    then have "unseen s Ls F s' Ls F"
      using su h(2) susp(4) unfolding unseen_def by (simp add: hs) (simp add: s'_def set_mod_def)
    ultimately show ?thesis using susp(2,4) hs by blast
  qed
qed

section \<open>The sleep hook\<close>

lemma inv_cur:
  assumes "inv s Ls F" "x = cur_mod s \<or> busy s = None \<and> (\<forall>m. x = Some m \<longrightarrow> user s m)"
  shows "inv (s\<lparr>cur_mod_id := c, cur_mod := x\<rparr>) Ls F" (is "inv ?s Ls F")
    and "mview (s\<lparr>cur_mod_id := c, cur_mod := x\<rparr>) Ls F = mview s Ls F" "busy (s\<lparr>cur_mod_id := c, cur_mod := x\<rparr>) = busy s"
proof -
  have b: "busy_ok s Ls" using assms(1) by (simp add: inv_def)
  show bb: "busy ?s = busy s"
  proof (cases "x = cur_mod s")
    case True
    then show ?thesis by (simp add: busy_def split: option.split)
  next
    case False
    with assms(2) have x: "busy s = None" "\<And>m. x = Some m \<Longrightarrow> m < 8" by (auto simp: user_def)
    then show ?thesis using not_busy [OF b] by (cases x) (simp_all add: busy_def)
  qed
  have "busy_ok ?s Ls"
  proof (cases "x = cur_mod s")
    case True
    have eqs: "op_node ?s = op_node s" "mod_info ?s = mod_info s" "cur_mod ?s = cur_mod s" using True by simp_all
    from b show ?thesis unfolding busy_ok_def eqs by blast
  next
    case False
    with assms(2) have x: "busy s = None" "\<And>m. x = Some m \<Longrightarrow> user s m" by blast+
    show ?thesis
    proof (rule busy_ok_intro)
      show "op_lock (op_node ?s i) \<longleftrightarrow> cur_opera_info (mod_info ?s m) = Some i" if "m < 8" "i \<in> set (Ls m)" for i m
        using busy_lock [OF b that] by simp
      show "mod_state (mod_info ?s m) = NORFLASH_API_STATE_IDLE" if "m < 8" for m
        using busy_ok_idle [OF b that] not_busy [OF b x(1) that] by simp
      show "Ls m \<noteq> [] \<and> i = last (Ls m) \<and> cur_mod ?s = Some m \<and> mod_state (mod_info ?s m) = susp_state (op_node ?s i)"
        if "m < 8" "cur_opera_info (mod_info ?s m) = Some i" for m i
        using not_busy [OF b x(1) that(1)] that(2) by simp
      show "k < 8 \<and> mod_inited (mod_info ?s k)" if "cur_mod ?s = Some k" for k
        using x(2) that by (simp add: user_def)
    qed
  qed
  moreover have "hw_ok ?s F"
    by (rule hw_ok_cong [of s]) (use assms(1) bb in \<open>simp_all add: inv_def\<close>)
  moreover have "lists_ok ?s Ls = lists_ok s Ls" by (simp add: lists_ok_def)
  moreover have "pools_ok ?s Ls = pools_ok s Ls" by (simp add: pools_ok_def is_w_def)
  moreover have "mods_ok ?s Ls = mods_ok s Ls" by (simp add: mods_ok_def)
  ultimately show "inv ?s Ls F" using assms(1) by (simp add: inv_def)
  show "mview ?s Ls F = mview s Ls F" by (simp add: mview_def fun_eq_iff)
qed

lemma unseen_cur:
  assumes "inv s Ls F" "x = cur_mod s \<or> busy s = None \<and> (\<forall>m. x = Some m \<longrightarrow> user s m)"
  shows "unseen s Ls F (s\<lparr>cur_mod_id := c, cur_mod := x\<rparr>) Ls F"
  using inv_cur [OF assms, of c] by (simp add: unseen_def need_def)

text \<open>The turn of the modules visits every one of them.\<close>

primrec turn :: "nat \<Rightarrow> nat \<Rightarrow> nat list" where
  "turn 0 c = []"
| "turn (Suc n) c = (if 8 \<le> c + 1 then 0 else c + 1) # turn n (if 8 \<le> c + 1 then 0 else c + 1)"

lemma cur_mod_loop_turn:
  assumes "inv s Ls F"
  shows "cur_mod_loop n c s = Some (find (\<lambda>m. Ls m \<noteq> []) (turn n c))"
proof (induction n arbitrary: c)
  case (Suc n)
  define m where "m = (if 8 \<le> c + 1 then 0 else c + 1)"
  have m: "m < 8" by (simp add: m_def)
  have "(if mod_inited (mod_info s m) then get_ew_count m s else Some 0) = Some (length (Ls m))"
  proof (cases "mod_inited (mod_info s m)")
    case True
    have "chain (op_node s) (opera_info (mod_info s m)) (Ls m)" using assms m by (simp add: inv_def lists_ok_def)
    with True show ?thesis by (simp add: get_ew_count_def count_loop_chain)
  next
    case False
    with assms m show ?thesis by (simp add: inv_def mods_ok_def)
  qed
  with Suc show ?case unfolding cur_mod_loop.simps turn.simps m_def [symmetric] by (simp add: Let_def)
qed simp

lemma turn_all: "m < 8 \<Longrightarrow> m \<in> set (turn 8 c)"
proof -
  assume m: "m < 8"
  have "\<forall>c \<in> set [0..<8]. set (turn 8 c) = set [0..<8]" by (simp add: eval_nat_numeral insert_commute upt_rec)
  then have small: "set (turn 8 c) = {0..<8}" if "c < 8" for c using that by (simp only: set_upt) simp
  show ?thesis
  proof (cases "c < 8")
    case True
    with small m show ?thesis by simp
  next
    case False
    then have "turn 8 c = turn 8 7" by (simp add: eval_nat_numeral)
    with small [of 7] m show ?thesis by simp
  qed
qed

lemma turn_bound: "m \<in> set (turn n c) \<Longrightarrow> m < 8"
  by (induction n arbitrary: c) (auto split: if_splits)

definition pending_measure :: "api \<Rightarrow> (nat \<Rightarrow> nat list) \<Rightarrow> nat" where
  "pending_measure s Ls = 2 * nodes Ls + 2 * length (polls_of s) + (if cur_mod s = None then 0 else 1)"

text \<open>The work on one module: the call that has been chosen.\<close>

lemma flush_chosen:
  assumes "inv s Ls F" "cur_mod s = Some m" "need s Ls \<le> ready (polls_of s)"
  shows "\<exists>b s' Ls' F'. opera_flush m False s = Some (b, s') \<and> unseen s Ls F (if b then s' else s'\<lparr>cur_mod := None\<rparr>) Ls' F' \<and>
    (if Ls m = [] then \<not> b \<and> s' = s \<and> Ls' = Ls \<and> busy s = None
     else b \<and> cur_mod s' = cur_mod s \<and> (nodes Ls' + 1 = nodes Ls \<or> nodes Ls' = nodes Ls \<and> length (polls_of s') < length (polls_of s)))"
proof -
  have b: "busy_ok s Ls" using assms(1) by (simp add: inv_def)
  have m: "m < 8" "mod_inited (mod_info s m)" using busy_cur [OF b assms(2)] by simp_all
  have bs: "busy s = cur_opera_info (mod_info s m)" using assms(2) by (simp add: busy_def)
  show ?thesis
  proof (cases "Ls m = []")
    case True
    then have "cur_opera_info (mod_info s m) = None" using busy_okD(1) [OF b m(1)] by (cases "cur_opera_info (mod_info s m)") auto
    with bs have n: "busy s = None" by simp
    have "unseen s Ls F (s\<lparr>cur_mod_id := cur_mod_id s, cur_mod := None\<rparr>) Ls F" using assms(1) n by (intro unseen_cur) simp_all
    then have "unseen s Ls F (s\<lparr>cur_mod := None\<rparr>) Ls F" by simp
    with opera_flush_empty [OF assms(1) m(1) True, of False] True n show ?thesis
      by (intro exI [of _ False] exI [of _ s] exI [of _ Ls] exI [of _ F]) simp
  next
    case False
    have "busy s = None \<or> busy s = Some (last (Ls m))" using busy_okD(2) [OF b m(1)] bs by (cases "cur_opera_info (mod_info s m)") auto
    from opera_flush_spec [OF assms(1) False this _ assms(3), of False] assms(2) obtain s' Ls' F' where
      r: "opera_flush m False s = Some (True, s')" "unseen s Ls F s' Ls' F'" "cur_mod s' = cur_mod s"
      "Ls' = Ls(m := butlast (Ls m)) \<or> Ls' = Ls \<and> length (polls_of s') < length (polls_of s)" by blast
    have "nodes Ls' + 1 = nodes Ls \<or> nodes Ls' = nodes Ls \<and> length (polls_of s') < length (polls_of s)"
      using r(4) nodes_pop [where m = m and Ls = Ls, OF m(1) False] by auto
    with r False show ?thesis by (intro exI [of _ True] exI [of _ s'] exI [of _ Ls'] exI [of _ F']) simp
  qed
qed

lemma api_flush_spec:
  assumes "inv s Ls F" "need s Ls \<le> ready (polls_of s)"
  shows "\<exists>r s' Ls' F'. norflash_api_flush s = Some (r, s') \<and> unseen s Ls F s' Ls' F' \<and>
    (r = 0 \<and> s' = s \<and> Ls' = Ls \<and> F' = F \<and> busy s = None \<and> cur_mod s = None \<and> (\<forall>m. Ls m = []) \<or>
     r = 1 \<and> pending_measure s' Ls' < pending_measure s Ls)"
proof -
  have ini: "api_inited s" and b: "busy_ok s Ls" using assms(1) by (simp_all add: inv_def)
  show ?thesis
  proof (cases "cur_mod s = None \<and> (\<forall>m. Ls m = [])")
    case True
    then have "get_cur_mod s = Some None" by (simp add: get_cur_mod_def cur_mod_loop_turn [OF assms(1)] find_None_iff)
    moreover have "busy s = None" using True by (simp add: busy_def)
    ultimately show ?thesis using True ini unseen_refl [OF assms(1)]
      by (intro exI [of _ 0] exI [of _ s] exI [of _ Ls] exI [of _ F]) (simp add: norflash_api_flush_def)
  next
    case False
    obtain m where m: "get_cur_mod s = Some (Some m)" "cur_mod s = Some m \<or> cur_mod s = None \<and> Ls m \<noteq> []"
    proof (cases "cur_mod s")
      case (Some m)
      then show ?thesis using that [of m] by (simp add: get_cur_mod_def)
    next
      case None
      then obtain k where k: "Ls k \<noteq> []" using False by blast
      then have "k < 8" using user_in [OF assms(1) k] by (simp add: user_def)
      then have "find (\<lambda>m. Ls m \<noteq> []) (turn 8 (cur_mod_id s)) \<noteq> None" using k turn_all [of k] by (auto simp: find_None_iff)
      then obtain m where f: "find (\<lambda>m. Ls m \<noteq> []) (turn 8 (cur_mod_id s)) = Some m" by blast
      then have "get_cur_mod s = Some (Some m)" using None by (simp add: get_cur_mod_def cur_mod_loop_turn [OF assms(1)])
      then show ?thesis using that [of m] None find_in [OF f] by blast
    qed
    let ?s = "s\<lparr>cur_mod_id := get_mod_id m, cur_mod := Some m\<rparr>"
    have cond: "Some m = cur_mod s \<or> busy s = None \<and> (\<forall>k. Some m = Some k \<longrightarrow> user s k)"
      using m(2) user_in [OF assms(1)] by (auto simp: busy_def)
    have iv: "inv ?s Ls F" by (rule inv_cur(1) [OF assms(1) cond])
    have u: "unseen s Ls F ?s Ls F" by (rule unseen_cur [OF assms(1) cond])
    have bb: "busy ?s = busy s" by (rule inv_cur(3) [OF assms(1) cond])
    have nd: "need ?s Ls \<le> ready (polls_of ?s)" using assms(2) bb by (simp add: need_def)
    obtain c s' Ls' F' where r: "opera_flush m False ?s = Some (c, s')" "unseen ?s Ls F (if c then s' else s'\<lparr>cur_mod := None\<rparr>) Ls' F'"
      "if Ls m = [] then \<not> c \<and> s' = ?s \<and> Ls' = Ls \<and> busy ?s = None
       else c \<and> cur_mod s' = cur_mod ?s \<and> (nodes Ls' + 1 = nodes Ls \<or> nodes Ls' = nodes Ls \<and> length (polls_of s') < length (polls_of ?s))"
      using flush_chosen [OF iv _ nd, of m] by auto
    let ?t = "if c then s' else s'\<lparr>cur_mod := None\<rparr>"
    have "norflash_api_flush s = Some (1, ?t)" using ini m(1) r(1) by (simp add: norflash_api_flush_def Let_def)
    moreover have "unseen s Ls F ?t Ls' F'" by (rule unseen_trans [OF u r(2)])
    moreover have "pending_measure ?t Ls' < pending_measure s Ls"
    proof (cases "Ls m = []")
      case True
      with r(3) m(2) show ?thesis by (auto simp: pending_measure_def)
    next
      case False
      moreover have "length (polls_of s') \<le> length (polls_of s)" using r(2,3) False by (simp add: unseen_def)
      ultimately show ?thesis using r(3) by (auto simp: pending_measure_def split: if_splits)
    qed
    ultimately show ?thesis by blast
  qed
qed

end
