(* ===== verification/FlashRun.thy ===== *)
theory FlashRun
  imports FlashFlush
begin

text \<open>
  The interface of the flash queue against its promise: \<open>holds s M\<close> says that module \<open>m\<close> sees the byte
  \<open>M m a\<close> at address \<open>a\<close>. Every call of the interface keeps it, with \<open>M\<close> changed at once as the call says;
  calling the flush until it answers zero ends with the flash itself holding \<open>M\<close>. \<open>FlashLimits\<close> has the
  calls that the guards of these lemmas exclude, with what the code does there.
\<close>

section \<open>The promise\<close>

definition holds :: "api \<Rightarrow> (nat \<Rightarrow> nat \<Rightarrow> byte) \<Rightarrow> bool" where
  "holds s M \<longleftrightarrow> (\<exists>Ls. api_rep s Ls M)"

text \<open>
  Enough done readings of the chip for all that is pending: what the suspended operation still takes, and 18
  pages at most for each other one.
\<close>

definition pending_ops :: "api \<Rightarrow> nat" where
  "pending_ops s = length (filter (op_used s) [0..<15])"

definition due :: "api \<Rightarrow> nat" where
  "due s = hal_work (flash_hal s) + 18 * (pending_ops s - (if busy s = None then 0 else 1))"

definition enough :: "api \<Rightarrow> bool" where
  "enough s \<longleftrightarrow> due s \<le> ready (polls_of s)"

text \<open>What is left to do: operations, interruptions to come, and whether a module is selected.\<close>

definition left_over :: "api \<Rightarrow> nat" where
  "left_over s = 2 * pending_ops s + 2 * length (polls_of s) + (if cur_mod s = None then 0 else 1)"

text \<open>A range of a module inside one sector.\<close>

definition sector_range :: "api \<Rightarrow> nat \<Rightarrow> nat \<Rightarrow> nat \<Rightarrow> bool" where
  "sector_range s m a n \<longleftrightarrow> user s m \<and> mod_base_addr (mod_info s m) \<le> a \<and> 0 < n \<and> a mod 4096 + n \<le> 4096 \<and>
     a + n \<le> mod_base_addr (mod_info s m) + mod_len (mod_info s m)"

text \<open>The newest operation for the sector is a write that is under way.\<close>

definition sector_writing :: "api \<Rightarrow> nat \<Rightarrow> nat \<Rightarrow> bool" where
  "sector_writing s m S \<longleftrightarrow> (case find_loop s S (opera_info (mod_info s m)) of
     Some (Some i) \<Rightarrow> is_w s i \<and> op_lock (op_node s i) | _ \<Rightarrow> False)"

text \<open>The module is one sector, or at most one operation that is not under way is queued for the sector.\<close>

definition erase_guard :: "api \<Rightarrow> nat \<Rightarrow> nat \<Rightarrow> bool" where
  "erase_guard s m S \<longleftrightarrow> mod_len (mod_info s m) = 4096 \<or>
     length (filter (\<lambda>i. op_used s i \<and> e_dead s S i) [0..<15]) \<le> 1"

definition not_last :: "api \<Rightarrow> nat \<Rightarrow> bool" where
  "not_last s S \<longleftrightarrow> pos S + 4096 < tot s"

text \<open>What a write and an erase do to the bytes.\<close>

definition store_write :: "nat \<Rightarrow> nat \<Rightarrow> byte list \<Rightarrow> (nat \<Rightarrow> nat \<Rightarrow> byte) \<Rightarrow> nat \<Rightarrow> nat \<Rightarrow> byte" where
  "store_write m a d M = (\<lambda>k x. if k = m \<and> a \<le> x \<and> x < a + length d then M k x AND d ! (x - a) else M k x)"

definition store_erase :: "nat \<Rightarrow> nat \<Rightarrow> (nat \<Rightarrow> nat \<Rightarrow> byte) \<Rightarrow> nat \<Rightarrow> nat \<Rightarrow> byte" where
  "store_erase m S M = (\<lambda>k x. if k = m \<and> x div 4096 * 4096 = S then 255 else M k x)"

section \<open>The guards and the lists\<close>

lemma nodes_pending:
  assumes "inv s Ls F"
  shows "nodes Ls = pending_ops s"
proof -
  have l: "lists_ok s Ls" "pools_ok s Ls" using assms by (simp_all add: inv_def)
  have "nodes Ls = (\<Sum>m<8. card (set (Ls m)))"
    unfolding nodes_def by (rule sum.cong) (simp_all add: distinct_card [OF inv_distinct [OF assms]])
  also have "\<dots> = card (\<Union>m<8. set (Ls m))"
    by (rule card_UN_disjoint [symmetric]) (use l(1) in \<open>auto simp: lists_ok_def\<close>)
  also have "(\<Union>m<8. set (Ls m)) = set (filter (op_used s) [0..<15])"
    using l(2) inv_mod [OF assms] by (auto simp: pools_ok_def)
  also have "card \<dots> = pending_ops s" unfolding pending_ops_def by (rule distinct_card) simp
  finally show ?thesis .
qed

lemma due_need: "inv s Ls F \<Longrightarrow> due s = need s Ls"
  by (simp add: due_def need_def nodes_pending)

lemma enough_need: "inv s Ls F \<Longrightarrow> enough s \<longleftrightarrow> need s Ls \<le> ready (polls_of s)"
  by (simp add: enough_def due_need)

lemma pending_eq: "inv s Ls F \<Longrightarrow> left_over s = pending_measure s Ls"
  by (simp add: left_over_def pending_measure_def nodes_pending)

lemma used_in: "inv s Ls F \<Longrightarrow> i \<in> set (Ls m) \<Longrightarrow> op_used s i \<and> i < 15"
  by (simp add: inv_def pools_ok_def) blast

lemma user_chain: "inv s Ls F \<Longrightarrow> user s m \<Longrightarrow> chain (op_node s) (opera_info (mod_info s m)) (Ls m)"
  by (simp add: inv_def lists_ok_def user_def)

lemma not_writing_free: "inv s Ls F \<Longrightarrow> user s m \<Longrightarrow> \<not> sector_writing s m S \<Longrightarrow> write_free s (Ls m) S"
  by (auto simp: write_free_def sector_writing_def find_loop_chain [OF user_chain])

lemma erase_guard_safe:
  assumes "inv s Ls F" "user s m" "in_mod (mod_info s m) S" "erase_guard s m S"
  shows "erase_safe s (Ls m) S"
  unfolding erase_safe_def
proof (cases "mod_len (mod_info s m) = 4096")
  case True
  have "e_dead s S i" if "i \<in> set (butlast (Ls m))" for i
  proof -
    have "in_mod (mod_info s m) (op_addr (op_node s i))" using op_ok_in [OF assms(1) in_set_butlastD [OF that]] by (simp add: op_ok_def)
    then have "op_addr (op_node s i) = S" using True assms(3) by (auto simp: in_mod_def)
    with busy_last [OF assms(1) that] show ?thesis by (simp add: e_dead_def)
  qed
  then show "e_safe (e_dead s S) False False (Ls m)" by (intro e_safe_all_but_last) blast
next
  case False
  have "length (filter (e_dead s S) (Ls m)) = card (set (filter (e_dead s S) (Ls m)))"
    by (rule distinct_card [symmetric]) (use inv_distinct [OF assms(1)] in simp)
  also have "\<dots> \<le> card (set (filter (\<lambda>i. op_used s i \<and> e_dead s S i) [0..<15]))"
    by (rule card_mono) (use used_in [OF assms(1)] in auto)
  also have "\<dots> \<le> length (filter (\<lambda>i. op_used s i \<and> e_dead s S i) [0..<15])" by (rule card_length)
  also have "\<dots> \<le> 1" using assms(4) False by (simp add: erase_guard_def)
  finally show "e_safe (e_dead s S) False False (Ls m)" by (intro e_safe_one) simp_all
qed

lemma holds_intro: "inv s Ls F \<Longrightarrow> (\<And>m a. user s m \<Longrightarrow> in_range (mod_info s m) a \<Longrightarrow> mview s Ls F m a = M m a) \<Longrightarrow> holds s M"
  unfolding holds_def api_rep_def by blast

lemma holds_mod: "inv s Ls F \<Longrightarrow> user s m \<Longrightarrow> mod_ok (tot s) (mod_info s m)"
  by (simp add: inv_def mods_ok_def user_def)

lemma unseen_holds:
  assumes "unseen s Ls F s' Ls' F'" "\<And>m a. user s m \<Longrightarrow> in_range (mod_info s m) a \<Longrightarrow> mview s Ls F m a = M m a"
  shows "holds s' M" "user s' m = user s m" "in_range (mod_info s' m) = in_range (mod_info s m)"
proof -
  have p: "same_place (mod_info s k) (mod_info s' k)" for k using assms(1) by (simp add: unseen_def)
  show "user s' m = user s m" "in_range (mod_info s' m) = in_range (mod_info s m)"
    using same_place_user [OF p] same_place_eqs(5) [OF p] by simp_all
  show "holds s' M"
    by (rule holds_intro [of _ Ls' F']) (use assms same_place_user [OF p] same_place_eqs(5) [OF p] in \<open>simp_all add: unseen_def\<close>)
qed

lemma sector_rangeD:
  assumes "sector_range s m a n" "mod_ok (tot s) (mod_info s m)"
  shows "user s m" "in_range (mod_info s m) a" "in_mod (mod_info s m) (a div 4096 * 4096)" "mod_sector_len (mod_info s m) = 4096"
    "\<not> out_of_range (mod_info s m) a n" "k < n \<Longrightarrow> in_range (mod_info s m) (a + k)"
proof -
  show 1: "user s m" and 2: "in_range (mod_info s m) a" and 3: "k < n \<Longrightarrow> in_range (mod_info s m) (a + k)"
    using assms(1) by (auto simp: sector_range_def in_range_def)
  show "in_mod (mod_info s m) (a div 4096 * 4096)" by (rule in_range_sector [OF assms(2) 2])
  show "mod_sector_len (mod_info s m) = 4096" using assms(2) by (simp add: mod_ok_def)
  have "a + n < 4294967296" "mod_base_addr (mod_info s m) + mod_len (mod_info s m) < 4294967296"
    using assms by (auto simp: sector_range_def mod_ok_def)
  then show "\<not> out_of_range (mod_info s m) a n" using assms(1) by (simp add: out_of_range_def sector_range_def add32_def)
qed

section \<open>Reading, writing, erasing\<close>

lemma read_holds:
  assumes "holds s M" "sector_range s m a n"
  shows "norflash_api_read m a n s = Some (NORFLASH_API_OK, map (M m) [a..<a + n])"
    and "length d = n \<Longrightarrow> norflash_api_is_changed m a d s = Some (d \<noteq> map (M m) [a..<a + n])"
proof -
  obtain Ls F where r: "inv s Ls F" "\<And>m a. user s m \<Longrightarrow> in_range (mod_info s m) a \<Longrightarrow> mview s Ls F m a = M m a"
    using assms(1) by (auto simp: holds_def api_rep_def)
  have us: "user s m" and n: "a mod 4096 + n \<le> 4096" "0 < n" using assms(2) by (simp_all add: sector_range_def)
  note sr = sector_rangeD [OF assms(2) holds_mod [OF r(1) us]]
  have "map (mview s Ls F m) [a..<a + n] = map (M m) [a..<a + n]"
  proof (rule map_cong [OF refl])
    fix x assume "x \<in> set [a..<a + n]"
    then have "in_range (mod_info s m) x" using sr(6) [of "x - a"] by auto
    with r(2) us show "mview s Ls F m x = M m x" by blast
  qed
  then have rd: "opera_read m a n s = Some (map (M m) [a..<a + n])" using opera_read_view [OF r(1) us sr(2) n(1)] by simp
  have g: "api_inited s" "m < 8" "mod_inited (mod_info s m)" using r(1) us by (simp_all add: inv_def user_def)
  show "norflash_api_read m a n s = Some (NORFLASH_API_OK, map (M m) [a..<a + n])"
    using rd g n(2) sr(5) by (simp add: norflash_api_read_def)
  show "norflash_api_is_changed m a d s = Some (d \<noteq> map (M m) [a..<a + n])" if "length d = n"
  proof -
    have "d \<noteq> []" using that n(2) by auto
    with rd g that sr(5) show ?thesis by (auto simp: norflash_api_is_changed_def opera_cmp_def)
  qed
qed

lemma holds_cases:
  assumes "holds s M"
  obtains Ls F where "inv s Ls F" "\<And>m a. user s m \<Longrightarrow> in_range (mod_info s m) a \<Longrightarrow> mview s Ls F m a = M m a"
  using assms by (auto simp: holds_def api_rep_def)

lemma holds_at: "holds s M \<Longrightarrow> inv s Ls F \<Longrightarrow> M' = (\<lambda>k x. M k x) \<Longrightarrow> holds s M'"
  by simp

lemma quiet_range: "quiet s s' \<Longrightarrow> user s' = user s" "quiet s s' \<Longrightarrow> in_range (mod_info s' k) = in_range (mod_info s k)"
  using same_place_user same_place_eqs(5) unfolding quiet_def by (auto simp: fun_eq_iff)

lemma holds_quiet:
  assumes "inv s' Ls' F" "quiet s s'" "\<And>k x. user s k \<Longrightarrow> in_range (mod_info s k) x \<Longrightarrow> mview s' Ls' F k x = M k x"
  shows "holds s' M"
  by (rule holds_intro [OF assms(1)]) (use assms(3) quiet_range [OF assms(2)] in simp)

lemma write_async_holds:
  assumes "holds s M" "sector_range s m a (length d)" "not_last s (a div 4096 * 4096)" "\<not> sector_writing s m (a div 4096 * 4096)"
    and "\<forall>k<length d. d ! k AND M m (a + k) = d ! k"
  shows "\<exists>ret s'. norflash_api_write m a d True s = Some (ret, s') \<and> quiet s s' \<and>
    (ret = NORFLASH_API_OK \<and> holds s' (store_write m a d M) \<or>
     ret = NORFLASH_API_BUFFER_FULL \<and> holds s' M \<and> ((\<forall>i \<in> {0..<15}. op_used s i) \<or> (\<forall>b \<in> {0..<4}. data_used s b)))"
proof -
  obtain Ls F where r: "inv s Ls F" "\<And>m a. user s m \<Longrightarrow> in_range (mod_info s m) a \<Longrightarrow> mview s Ls F m a = M m a"
    using holds_cases [OF assms(1)] by metis
  have us: "user s m" and n: "a mod 4096 + length d \<le> 4096" "d \<noteq> []" using assms(2) by (auto simp: sector_range_def)
  note sr = sector_rangeD [OF assms(2) holds_mod [OF r(1) us]]
  have lg: "d ! k AND mview s Ls F m (a + k) = d ! k" if "k < length d" for k
    using assms(5) r(2) [OF us sr(6) [OF that]] that by simp
  from w_opera_add_spec [OF r(1) us sr(2) n _ not_writing_free [OF r(1) us assms(4)] lg] assms(3) obtain q s' Ls' where
    w: "w_opera_add m a d s = Some (q, s')" "inv s' Ls' F" "quiet s s'"
      "q = 0 \<or> q = 1 \<and> ((\<forall>i \<in> {0..<15}. op_used s i) \<or> (\<forall>b \<in> {0..<4}. data_used s b))"
      "\<And>k x. mview s' Ls' F k x = (if q = 0 \<and> k = m \<and> a \<le> x \<and> x < a + length d then d ! (x - a) else mview s Ls F k x)"
    unfolding not_last_def by blast
  have g: "api_inited s" "m < 8" "mod_inited (mod_info s m)" using r(1) us by (simp_all add: inv_def user_def)
  have "norflash_api_write m a d True s = Some (if q = 0 then NORFLASH_API_OK else NORFLASH_API_BUFFER_FULL, s')"
    using g sr(5) n(2) w(1) by (simp add: norflash_api_write_def)
  moreover have "holds s' (if q = 0 then store_write m a d M else M)"
  proof (rule holds_quiet [OF w(2,3)])
    fix k x assume u: "user s k" "in_range (mod_info s k) x"
    have "M m x AND d ! (x - a) = d ! (x - a)" if "a \<le> x" "x < a + length d"
      using assms(5) [THEN spec, of "x - a"] that by (simp add: and.commute)
    with w(5) [of k x] r(2) [OF u] show "mview s' Ls' F k x = (if q = 0 then store_write m a d M else M) k x"
      by (simp add: store_write_def)
  qed
  ultimately show ?thesis using w(3,4) by auto
qed

lemma erase_async_holds:
  assumes "holds s M" "sector_range s m S 4096" "not_last s S" "erase_guard s m S"
  shows "\<exists>ret s'. norflash_api_erase m S 4096 True s = Some (ret, s') \<and> quiet s s' \<and>
    (ret = NORFLASH_API_OK \<and> holds s' (store_erase m S M) \<and> \<not> sector_writing s' m S \<or>
     ret = NORFLASH_API_BUFFER_FULL \<and> holds s' M \<and> (\<forall>i \<in> {0..<15}. op_used s i))"
proof -
  obtain Ls F where r: "inv s Ls F" "\<And>m a. user s m \<Longrightarrow> in_range (mod_info s m) a \<Longrightarrow> mview s Ls F m a = M m a"
    using holds_cases [OF assms(1)] by metis
  have us: "user s m" and S: "S mod 4096 = 0" "S div 4096 * 4096 = S" using assms(2) by (auto simp: sector_range_def)
  note sr = sector_rangeD [OF assms(2) holds_mod [OF r(1) us]]
  have im: "in_mod (mod_info s m) S" using sr(3) S(2) by simp
  from e_opera_add_spec [OF r(1) us im _ erase_guard_safe [OF r(1) us im assms(4)]] assms(3) obtain q s' Ls' where
    w: "e_opera_add m S 4096 s = Some (q, s')" "inv s' Ls' F" "quiet s s'" "q = 0 \<or> q = 1 \<and> (\<forall>i \<in> {0..<15}. op_used s i)"
      "q = 0 \<longrightarrow> write_free s' (Ls' m) S"
      "\<And>k x. mview s' Ls' F k x = (if q = 0 \<and> k = m \<and> x div 4096 * 4096 = S then 255 else mview s Ls F k x)"
    unfolding not_last_def by blast
  have g: "api_inited s" "m < 8" "mod_inited (mod_info s m)" using r(1) us by (simp_all add: inv_def user_def)
  have "norflash_api_erase m S 4096 True s = Some (if q = 0 then NORFLASH_API_OK else NORFLASH_API_BUFFER_FULL, s')"
    using g sr(4,5) S w(1) by (simp add: norflash_api_erase_def sector_start_def)
  moreover have "holds s' (if q = 0 then store_erase m S M else M)"
    by (rule holds_quiet [OF w(2,3)]) (simp add: w(6) r(2) store_erase_def)
  moreover have "user s' m" using quiet_range(1) [OF w(3)] us by simp
  then have "q = 0 \<longrightarrow> \<not> sector_writing s' m S"
    using w(5) find_loop_chain [OF user_chain [OF w(2)]] by (auto simp: write_free_def sector_writing_def split: option.splits)
  ultimately show ?thesis using w(3,4) by auto
qed

section \<open>Carrying out\<close>

text \<open>What no call changes.\<close>

definition same_places :: "api \<Rightarrow> api \<Rightarrow> bool" where
  "same_places s s' \<longleftrightarrow> (\<forall>k. same_place (mod_info s k) (mod_info s' k)) \<and> tot s' = tot s"

lemma unseen_enough: "inv s Ls F \<Longrightarrow> unseen s Ls F s' Ls' F' \<Longrightarrow> enough s \<Longrightarrow> enough s'"
  using enough_need [of s Ls F] enough_need [of s' Ls' F'] by (simp add: unseen_def)

lemma unseen_places: "unseen s Ls F s' Ls' F' \<Longrightarrow> same_places s s'"
  by (simp add: unseen_def same_places_def)

lemma holds_places:
  assumes "inv s' Ls' F" "same_places s s'" "\<And>k x. user s k \<Longrightarrow> in_range (mod_info s k) x \<Longrightarrow> mview s' Ls' F k x = M k x"
  shows "holds s' M"
proof (rule holds_intro [OF assms(1)])
  have p: "same_place (mod_info s k) (mod_info s' k)" for k using assms(2) by (simp add: same_places_def)
  show "mview s' Ls' F k x = M k x" if "user s' k" "in_range (mod_info s' k) x" for k x
    using assms(3) that same_place_user [OF p] same_place_eqs(5) [OF p] by simp
qed

lemma flush_holds:
  assumes "holds s M" "enough s"
  shows "\<exists>r s'. norflash_api_flush s = Some (r, s') \<and> holds s' M \<and> enough s' \<and> same_places s s' \<and>
    (r = 1 \<and> left_over s' < left_over s \<or> r = 0 \<and> s' = s \<and> left_over s = 2 * length (polls_of s))"
proof -
  obtain Ls F where r: "inv s Ls F" "\<And>m a. user s m \<Longrightarrow> in_range (mod_info s m) a \<Longrightarrow> mview s Ls F m a = M m a"
    using holds_cases [OF assms(1)] by metis
  obtain q s' Ls' F' where f: "norflash_api_flush s = Some (q, s')" "unseen s Ls F s' Ls' F'"
    "q = 0 \<and> s' = s \<and> Ls' = Ls \<and> F' = F \<and> busy s = None \<and> cur_mod s = None \<and> (\<forall>m. Ls m = []) \<or>
     q = 1 \<and> pending_measure s' Ls' < pending_measure s Ls"
    using api_flush_spec [OF r(1)] enough_need [OF r(1)] assms(2) by blast
  have i': "inv s' Ls' F'" using f(2) by (simp add: unseen_def)
  have "holds s' M" by (rule unseen_holds(1) [OF f(2) r(2)])
  moreover have "enough s'" by (rule unseen_enough [OF r(1) f(2) assms(2)])
  moreover have "left_over s = 2 * length (polls_of s)" if "\<forall>m. Ls m = []" "cur_mod s = None"
    using that by (simp add: pending_eq [OF r(1)] pending_measure_def nodes_def)
  moreover note unseen_places [OF f(2)]
  ultimately show ?thesis using f(1,3) pending_eq [OF r(1)] pending_eq [OF i'] by auto
qed

lemma pending_induct:
  assumes "inv s Ls F" "need s Ls \<le> ready (polls_of s)"
  shows "\<exists>s' F'. norflash_flush_all_pending_op s = Some s' \<and> unseen s Ls F s' (\<lambda>_. []) F' \<and> busy s' = None"
  using assms
proof (induction "pending_measure s Ls" arbitrary: s Ls F rule: less_induct)
  case less
  obtain q s1 Ls1 F1 where f: "norflash_api_flush s = Some (q, s1)" "unseen s Ls F s1 Ls1 F1"
    "q = 0 \<and> s1 = s \<and> Ls1 = Ls \<and> F1 = F \<and> busy s = None \<and> cur_mod s = None \<and> (\<forall>m. Ls m = []) \<or>
     q = 1 \<and> pending_measure s1 Ls1 < pending_measure s Ls"
    using api_flush_spec [OF less.prems] by blast
  from f(3) show ?case
  proof
    assume z: "q = 0 \<and> s1 = s \<and> Ls1 = Ls \<and> F1 = F \<and> busy s = None \<and> cur_mod s = None \<and> (\<forall>m. Ls m = [])"
    then have "Ls = (\<lambda>_. [])" by auto
    with z f(1,2) show ?thesis by (subst norflash_flush_all_pending_op.simps) auto
  next
    assume p: "q = 1 \<and> pending_measure s1 Ls1 < pending_measure s Ls"
    have i1: "inv s1 Ls1 F1" "need s1 Ls1 \<le> ready (polls_of s1)" using f(2) less.prems(2) by (simp_all add: unseen_def)
    obtain s' F' where "norflash_flush_all_pending_op s1 = Some s'" "unseen s1 Ls1 F1 s' (\<lambda>_. []) F'" "busy s' = None"
      using less.hyps [OF _ i1] p by blast
    with p f(1) unseen_trans [OF f(2)] show ?thesis by (subst norflash_flush_all_pending_op.simps) auto
  qed
qed

lemma flush_all_holds:
  assumes "holds s M" "enough s"
  shows "\<exists>s'. norflash_flush_all_pending_op s = Some s' \<and> holds s' M \<and> same_places s s' \<and> pending_ops s' = 0 \<and>
    (\<forall>b. \<not> data_used s' b) \<and> suspend_state (flash_hal s') = SUSPEND_STATE_NO \<and>
    (\<forall>m a. user s m \<longrightarrow> in_range (mod_info s m) a \<longrightarrow> flash_byte s' a = M m a)"
proof -
  obtain Ls F where r: "inv s Ls F" "\<And>m a. user s m \<Longrightarrow> in_range (mod_info s m) a \<Longrightarrow> mview s Ls F m a = M m a"
    using holds_cases [OF assms(1)] by metis
  obtain s' F' where f: "norflash_flush_all_pending_op s = Some s'" "unseen s Ls F s' (\<lambda>_. []) F'" "busy s' = None"
    using pending_induct [OF r(1)] enough_need [OF r(1)] assms(2) by blast
  have i': "inv s' (\<lambda>_. []) F'" using f(2) by (simp add: unseen_def)
  note id = hw_idle [of s' F', OF _ f(3)]
  have hw: "hw_ok s' F'" and pools: "pools_ok s' (\<lambda>_. [])" using i' by (simp_all add: inv_def)
  have "flash_byte s' a = M m a" if "user s m" "in_range (mod_info s m) a" for m a
  proof -
    have "flash_byte s' a = F' (pos a)" using id(3) [OF hw] by (simp add: flash_byte_def pos_def masks)
    also have "\<dots> = mview s' (\<lambda>_. []) F' m a" by (simp add: mview_def)
    also have "\<dots> = mview s Ls F m a" using f(2) that by (simp add: unseen_def)
    finally show ?thesis using r(2) [OF that] by simp
  qed
  moreover have "pending_ops s' = 0" "\<forall>b. \<not> data_used s' b" using pools by (simp_all add: pending_ops_def pools_ok_def)
  moreover have "holds s' M" by (rule unseen_holds(1) [OF f(2) r(2)])
  ultimately show ?thesis using f(1) id(1) [OF hw] unseen_places [OF f(2)] by blast
qed

section \<open>Synchronous calls\<close>

lemma idle_busy:
  assumes "inv s Ls F" "cur_mod s = Some c"
  shows "busy s = None \<longleftrightarrow> mod_state (mod_info s c) = NORFLASH_API_STATE_IDLE"
    and "busy s = None \<or> busy s = Some (last (Ls c)) \<and> Ls c \<noteq> []"
proof -
  have b: "busy_ok s Ls" using assms(1) by (simp add: inv_def)
  have c: "c < 8" using busy_cur [OF b assms(2)] by blast
  have bs: "busy s = cur_opera_info (mod_info s c)" using assms(2) by (simp add: busy_def)
  show "busy s = None \<longleftrightarrow> mod_state (mod_info s c) = NORFLASH_API_STATE_IDLE"
    using bs busy_ok_idle [OF b c] busy_okD(4) [OF b c] by (cases "cur_opera_info (mod_info s c)") (auto simp: susp_state_def split: if_splits)
  show "busy s = None \<or> busy s = Some (last (Ls c)) \<and> Ls c \<noteq> []"
    using bs busy_okD(1,2) [OF b c] by (cases "cur_opera_info (mod_info s c)") auto
qed

lemma finish_suspended_spec:
  assumes "inv s Ls F" "cur_mod s = Some c" "need s Ls \<le> ready (polls_of s)"
  shows "\<exists>s' Ls' F'. finish_suspended c s = Some s' \<and> unseen s Ls F s' Ls' F' \<and> busy s' = None"
proof (cases "busy s")
  case None
  then have "finish_suspended c s = Some s" using idle_busy(1) [OF assms(1,2)] by (subst finish_suspended.simps) simp
  with None unseen_refl [OF assms(1)] show ?thesis by blast
next
  case (Some i)
  then have l: "busy s = None \<or> busy s = Some (last (Ls c))" "Ls c \<noteq> []" using idle_busy(2) [OF assms(1,2)] by auto
  obtain s' Ls' F' where f: "opera_flush c True s = Some (True, s')" "unseen s Ls F s' Ls' F'" "cur_mod s' = cur_mod s" "busy s' = None"
    using opera_flush_spec [OF assms(1) l(2,1) _ assms(3), of True] by blast
  have i': "inv s' Ls' F'" using f(2) by (simp add: unseen_def)
  have "mod_state (mod_info s c) \<noteq> NORFLASH_API_STATE_IDLE" using idle_busy(1) [OF assms(1,2)] Some by simp
  then have "finish_suspended c s = finish_suspended c s'" using f(1) by (subst finish_suspended.simps) simp
  also have "\<dots> = Some s'" using idle_busy(1) [OF i'] f(3,4) assms(2) by (subst finish_suspended.simps) simp
  finally show ?thesis using f(2,4) by blast
qed

lemma flush_module_spec:
  assumes "inv s Ls F" "m < 8" "busy s = None \<or> busy s = Some (last (Ls m)) \<and> Ls m \<noteq> []" "need s Ls \<le> ready (polls_of s)"
  shows "\<exists>s' Ls' F'. flush_module m s = Some s' \<and> unseen s Ls F s' Ls' F' \<and> busy s' = None \<and> Ls' m = []"
  using assms
proof (induction "length (Ls m)" arbitrary: s Ls F rule: less_induct)
  case less
  show ?case
  proof (cases "Ls m = []")
    case True
    then have "flush_module m s = Some s" using opera_flush_empty [OF less.prems(1,2) True] by (subst flush_module.simps) simp
    with True less.prems(3) unseen_refl [OF less.prems(1)] show ?thesis by blast
  next
    case False
    obtain s1 Ls1 F1 where f: "opera_flush m True s = Some (True, s1)" "unseen s Ls F s1 Ls1 F1"
      "Ls1 = Ls(m := butlast (Ls m))" "busy s1 = None"
      using opera_flush_spec [OF less.prems(1) False _ _ less.prems(4), of True] less.prems(3) by blast
    have i1: "inv s1 Ls1 F1" "need s1 Ls1 \<le> ready (polls_of s1)" using f(2) less.prems(4) by (simp_all add: unseen_def)
    have "length (Ls1 m) < length (Ls m)" using f(3) False by simp
    from less.hyps [OF this i1(1) less.prems(2) _ i1(2)] f(4) obtain s' Ls' F' where
      "flush_module m s1 = Some s'" "unseen s1 Ls1 F1 s' Ls' F'" "busy s' = None" "Ls' m = []" by blast
    moreover from this(1) f(1) have "flush_module m s = Some s'" by (subst flush_module.simps) simp
    ultimately show ?thesis using unseen_trans [OF f(2)] by blast
  qed
qed

lemma before_sync_spec:
  assumes "inv s Ls F" "m < 8" "need s Ls \<le> ready (polls_of s)"
  shows "\<exists>s' Ls' F'. before_sync m s = Some s' \<and> unseen s Ls F s' Ls' F' \<and> busy s' = None \<and> Ls' m = []"
proof -
  have "\<exists>s1 Ls1 F1. (case cur_mod s of Some c \<Rightarrow> if c \<noteq> m then finish_suspended c s else Some s | None \<Rightarrow> Some s) = Some s1 \<and>
      unseen s Ls F s1 Ls1 F1 \<and> (busy s1 = None \<or> busy s1 = Some (last (Ls1 m)) \<and> Ls1 m \<noteq> [])"
  proof (cases "cur_mod s")
    case None
    then have "busy s = None" by (simp add: busy_def)
    with None unseen_refl [OF assms(1)] show ?thesis by auto
  next
    case (Some c)
    show ?thesis
    proof (cases "c = m")
      case True
      with Some unseen_refl [OF assms(1)] idle_busy(2) [OF assms(1) Some] show ?thesis by auto
    next
      case False
      with Some finish_suspended_spec [OF assms(1) Some assms(3)] show ?thesis by auto
    qed
  qed
  then obtain s1 Ls1 F1 where 1: "(case cur_mod s of Some c \<Rightarrow> if c \<noteq> m then finish_suspended c s else Some s | None \<Rightarrow> Some s) = Some s1"
    "unseen s Ls F s1 Ls1 F1" "busy s1 = None \<or> busy s1 = Some (last (Ls1 m)) \<and> Ls1 m \<noteq> []" by blast
  have i1: "inv s1 Ls1 F1" "need s1 Ls1 \<le> ready (polls_of s1)" using 1(2) assms(3) by (simp_all add: unseen_def)
  obtain s' Ls' F' where "flush_module m s1 = Some s'" "unseen s1 Ls1 F1 s' Ls' F'" "busy s' = None" "Ls' m = []"
    using flush_module_spec [OF i1(1) assms(2) 1(3) i1(2)] by blast
  moreover from this(1) 1(1) have "before_sync m s = Some s'" by (simp add: before_sync_def)
  ultimately show ?thesis using unseen_trans [OF 1(2)] by blast
qed

text \<open>A direct change of the flash of a module with nothing queued.\<close>

lemma inv_direct:
  assumes "inv s Ls F" "busy s = None" "Ls m = []"
    and "geom h'" "total_size h' = tot s" "suspend_state h' = SUSPEND_STATE_NO" "running (chip h') = None" "cells (chip h') = F'"
    and "\<And>k S j. user s k \<Longrightarrow> k \<noteq> m \<Longrightarrow> in_mod (mod_info s k) S \<Longrightarrow> j < 4096 \<Longrightarrow> F' (pos (S + j)) = F (pos (S + j))"
  shows "inv (s\<lparr>flash_hal := h'\<rparr>) Ls F'" (is "inv ?s Ls F'")
    and "user s k \<Longrightarrow> in_range (mod_info s k) a \<Longrightarrow> mview (s\<lparr>flash_hal := h'\<rparr>) Ls F' k a = (if k = m then F' (pos a) else mview s Ls F k a)"
proof -
  have iv: "lists_ok s Ls" "pools_ok s Ls" "mods_ok s Ls" "busy_ok s Ls" "api_inited s" using assms(1) by (simp_all add: inv_def)
  have sel: "op_node ?s = op_node s" "mod_info ?s = mod_info s" "op_used ?s = op_used s" "data_used ?s = data_used s" "data_buf ?s = data_buf s"
    "cur_mod ?s = cur_mod s" "api_inited ?s = api_inited s" "tot ?s = tot s" "is_w ?s = is_w s" using assms(5) by (simp_all add: is_w_def fun_eq_iff)
  have b: "busy ?s = None" using assms(2) unfolding busy_def sel .
  have "lists_ok ?s Ls" "pools_ok ?s Ls" "mods_ok ?s Ls" "busy_ok ?s Ls"
    using iv unfolding lists_ok_def pools_ok_def mods_ok_def busy_ok_def sel by blast+
  moreover have "hw_ok ?s F'" using b assms(4-8) by (simp add: hw_ok_def)
  moreover have "legal (op_node ?s) (data_buf ?s) F' (Ls k)" if "k < 8" for k
  proof (cases "k = m")
    case True
    with assms(3) show ?thesis by simp
  next
    case False
    have "legal (op_node ?s) (data_buf ?s) F' (Ls k) = legal (op_node s) (data_buf s) F (Ls k)"
    proof (rule legal_cong)
      show "F' (pos (op_addr (op_node s i) + j)) = F (pos (op_addr (op_node s i) + j))" if "i \<in> set (Ls k)" "j < 4096" for i j
      proof (rule assms(9) [OF _ False _ that(2)])
        have "Ls k \<noteq> []" using that(1) by auto
        then show "user s k" by (rule user_in [OF assms(1)])
        show "in_mod (mod_info s k) (op_addr (op_node s i))" using op_ok_in [OF assms(1) that(1)] by (simp add: op_ok_def)
      qed
    qed (simp_all add: sel)
    with assms(1) that show ?thesis by (simp add: inv_def)
  qed
  ultimately show "inv ?s Ls F'" using iv(5) by (simp add: inv_def)
  show "mview ?s Ls F' k a = (if k = m then F' (pos a) else mview s Ls F k a)" if "user s k" "in_range (mod_info s k) a"
  proof (cases "k = m")
    case True
    with assms(3) show ?thesis by (simp add: mview_def)
  next
    case False
    have S: "in_mod (mod_info s k) (a div 4096 * 4096)" by (rule in_range_sector [OF holds_mod [OF assms(1) that(1)] that(2)])
    have "view (op_node ?s) (data_buf ?s) F' (Ls k) (a div 4096 * 4096) (a mod 4096) = view (op_node s) (data_buf s) F (Ls k) (a div 4096 * 4096) (a mod 4096)"
      by (rule view_cong) (use assms(9) [OF that(1) False S, of "a mod 4096"] in \<open>simp_all add: sel\<close>)
    with False show ?thesis by (simp add: mview_def)
  qed
qed

lemma outside_module:
  assumes "inv s Ls F" "user s k" "user s m" "k \<noteq> m" "in_mod (mod_info s k) S" "j < 4096"
  shows "\<not> (pos (mod_base_addr (mod_info s m)) \<le> pos (S + j) \<and> pos (S + j) < pos (mod_base_addr (mod_info s m)) + mod_len (mod_info s m))"
proof -
  let ?a = "mod_info s k" and ?b = "mod_info s m"
  have ok: "mod_ok (tot s) ?a" "apart ?a ?b" using assms(1-4) by (auto simp: inv_def mods_ok_def user_def)
  have r: "mod_base_addr ?a \<le> S" "S < mod_base_addr ?a + mod_len ?a" "S + 4096 \<le> mod_base_addr ?a + mod_len ?a"
    using assms(5) by (auto simp: in_mod_def)
  have "pos S = pos (mod_base_addr ?a) + (S - mod_base_addr ?a)" by (rule off_in_mod(1) [OF ok(1) r(1,2)])
  moreover have "pos (S + j) = pos S + j" by (rule off_sector(1) [OF ok(1) assms(5,6)])
  ultimately show ?thesis using r assms(6) ok(2) by (auto simp: apart_def)
qed

text \<open>
  A synchronous call of the hardware layer that makes \<open>G\<close> of the flash, in the region of the module, and takes
  \<open>w\<close> done readings: what is queued is carried out first.
\<close>

definition direct_call :: "nat \<Rightarrow> nat \<Rightarrow> ((nat \<Rightarrow> byte) \<Rightarrow> nat \<Rightarrow> byte) \<Rightarrow> nat \<Rightarrow> nat \<Rightarrow> (bufref norhal \<Rightarrow> (HAL_NORFLASH_RET_T \<times> bufref norhal) option) \<Rightarrow> bool" where
  "direct_call lo k G w N f \<longleftrightarrow> (\<forall>F x. \<not> (lo \<le> x \<and> x < lo + k) \<longrightarrow> G F x = F x) \<and> (\<forall>h. hal_ok lo k h \<longrightarrow> suspend_state h = SUSPEND_STATE_NO \<longrightarrow> total_size h = N \<longrightarrow> w \<le> ready (polls (chip h)) \<longrightarrow>
     (\<exists>ram ret h'. f h = Some (ret, h') \<and> hal_post ram False (G (cells (chip h))) lo k w h ret h'))"

lemma direct_outside: "direct_call lo k G w N f \<Longrightarrow> \<not> (lo \<le> x \<and> x < lo + k) \<Longrightarrow> G F x = F x"
  by (simp add: direct_call_def)

lemma direct_run:
  assumes "direct_call lo k G w N f" "hal_ok lo k h" "suspend_state h = SUSPEND_STATE_NO" "total_size h = N" "w \<le> ready (polls (chip h))"
  shows "\<exists>ram ret h'. f h = Some (ret, h') \<and> hal_post ram False (G (cells (chip h))) lo k w h ret h'"
  using assms unfolding direct_call_def by blast

lemma sync_spec:
  assumes "inv s Ls F" "user s m" "need s Ls + w \<le> ready (polls_of s)"
    and "\<And>t. direct_call (pos (mod_base_addr (mod_info s m))) (mod_len (mod_info s m)) G w (tot s) (f t)"
  shows "\<exists>s1 h' Ls' F1 s'. before_sync m s = Some s1 \<and> f s1 (flash_hal s1) = Some (HAL_NORFLASH_OK, h') \<and> s' = s1\<lparr>flash_hal := h'\<rparr> \<and>
    unseen s Ls F s1 Ls' F1 \<and> inv s' Ls' (G F1) \<and> Ls' m = [] \<and> same_places s s' \<and> enough s' \<and> flash_byte s' = (\<lambda>a. G F1 (pos a)) \<and>
    (\<forall>k a. user s k \<longrightarrow> in_range (mod_info s k) a \<longrightarrow> mview s' Ls' (G F1) k a = (if k = m then G F1 (pos a) else mview s1 Ls' F1 k a))"
proof -
  let ?lo = "pos (mod_base_addr (mod_info s m))" and ?k = "mod_len (mod_info s m)"
  obtain s1 Ls' F1 where b: "before_sync m s = Some s1" "unseen s Ls F s1 Ls' F1" "busy s1 = None" "Ls' m = []"
    using before_sync_spec [OF assms(1), of m] assms(2,3) by (auto simp: user_def)
  have i1: "inv s1 Ls' F1" and hw: "hw_ok s1 F1" and ts: "tot s1 = tot s" using b(2) by (simp_all add: unseen_def inv_def)
  have pl: "same_place (mod_info s j) (mod_info s1 j)" for j using b(2) by (simp add: unseen_def)
  note id = hw_idle [OF hw b(3)]
  have nd: "need s1 Ls' + w \<le> ready (polls_of s1)" using b(2) assms(3) by (simp add: unseen_def)
  obtain ram ret h' where f: "f s1 (flash_hal s1) = Some (ret, h')" "hal_post ram False (G F1) ?lo ?k w (flash_hal s1) ret h'"
    using direct_run [OF assms(4) [of s1] id(5) [of ?lo ?k] id(1) ts] nd id(3) by auto
  then have ok: "ret = HAL_NORFLASH_OK" by (simp add: hal_post_def)
  have g: "geom h'" "total_size h' = tot s1" "suspend_state h' = SUSPEND_STATE_NO" "running (chip h') = None" "cells (chip h') = G F1"
    using f(2) by (auto simp: hal_post_def hal_goal_def hal_ok_def)
  have us: "user s1 j = user s j" "in_range (mod_info s1 j) = in_range (mod_info s j)" "in_mod (mod_info s1 j) = in_mod (mod_info s j)" for j
    using same_place_user [OF pl] same_place_eqs [OF pl] by simp_all
  have out: "G F1 (pos (S + j)) = F1 (pos (S + j))" if "user s1 k" "k \<noteq> m" "in_mod (mod_info s1 k) S" "j < 4096" for k S j
    by (rule direct_outside [OF assms(4) outside_module [OF assms(1) _ assms(2) that(2) _ that(4)]]) (use that us in simp_all)
  let ?s' = "s1\<lparr>flash_hal := h'\<rparr>"
  have d1: "inv ?s' Ls' (G F1)" by (rule inv_direct(1) [OF i1 b(3,4) g]) (rule out)
  have d2: "mview ?s' Ls' (G F1) k a = (if k = m then G F1 (pos a) else mview s1 Ls' F1 k a)"
    if "user s k" "in_range (mod_info s k) a" for k a
    by (rule inv_direct(2) [OF i1 b(3,4) g]) (use out that us in simp_all)
  have "busy ?s' = None" using b(3) by (simp add: busy_def split: option.splits)
  moreover have "hal_work h' = 0" using g(3) by (simp add: hal_work_def)
  moreover have "ready (polls_of s1) \<le> w + ready (polls (chip h'))" using f(2) by (simp add: hal_post_def)
  ultimately have "need ?s' Ls' \<le> ready (polls_of ?s')" using nd b(3) by (simp add: need_def)
  then have "enough ?s'" using enough_need [OF d1] by simp
  moreover have "same_places s ?s'" using unseen_places [OF b(2)] g(2) by (simp add: same_places_def)
  moreover have "flash_byte ?s' = (\<lambda>a. G F1 (pos a))" using g(5) by (simp add: flash_byte_def pos_def masks fun_eq_iff)
  ultimately show ?thesis using b(1,2,4) f(1) ok d1 d2 by blast
qed

lemma erase_direct:
  assumes "mod_ok N mi" "in_mod mi S" "4096 < N"
  shows "direct_call (pos (mod_base_addr mi)) (mod_len mi) (wipe (pos S) 4096) 1 N (hal_norflash_erase S 4096)"
  unfolding direct_call_def
proof (intro allI impI conjI)
  have r: "S mod 4096 = 0" "mod_base_addr mi \<le> S" "S < mod_base_addr mi + mod_len mi" "S + 4096 \<le> mod_base_addr mi + mod_len mi"
    using assms(2) by (auto simp: in_mod_def)
  have p: "pos S = pos (mod_base_addr mi) + (S - mod_base_addr mi)" "pos S < N" using off_in_mod [OF assms(1) r(2,3)] .
  have le: "pos (mod_base_addr mi) \<le> pos S" "pos S + 4096 \<le> pos (mod_base_addr mi) + mod_len mi" "pos (mod_base_addr mi) + mod_len mi \<le> N"
    using p(1) r assms(1) by (auto simp: mod_ok_def)
  show "wipe (pos S) 4096 F x = F x" if "\<not> (pos (mod_base_addr mi) \<le> x \<and> x < pos (mod_base_addr mi) + mod_len mi)" for F x
    by (rule overlay_outside) (use that le in linarith)
  fix h :: "bufref norhal"
  assume h: "hal_ok (pos (mod_base_addr mi)) (mod_len mi) h" "suspend_state h = SUSPEND_STATE_NO" "total_size h = N" "1 \<le> ready (polls (chip h))"
  obtain ret h' where "hal_norflash_erase_suspend S 4096 False h = Some (ret, h')"
    "hal_post (\<lambda>_ _. 0) False (wipe (off S) 4096 (cells (chip h))) (pos (mod_base_addr mi)) (mod_len mi) (4096 div 4096) h ret h'"
    using hal_erase_suspend_post [OF h(1,2), of 4096 S False "\<lambda>_ _. 0"] r(1) h(3,4) le p(2) assms(3) by (auto simp: pos_def)
  then show "\<exists>ram ret h'. hal_norflash_erase S 4096 h = Some (ret, h') \<and>
      hal_post ram False (wipe (pos S) 4096 (cells (chip h))) (pos (mod_base_addr mi)) (mod_len mi) 1 h ret h'"
    by (auto simp: hal_norflash_erase_def pos_def)
qed

lemma chunk_caller [simp]: "chunk (ram_of s d) (CALLER, 0) (length d) = d"
  by (simp add: chunk_def ram_of_def map_nth)

lemma write_direct:
  assumes "mod_ok N mi" "mod_base_addr mi \<le> a" "a + length d \<le> mod_base_addr mi + mod_len mi" "d \<noteq> []"
  shows "direct_call (pos (mod_base_addr mi)) (mod_len mi) (prog (pos a) d) (npages a (length d)) N
    (hal_norflash_write (ram_of t d) a (CALLER, 0) (length d))"
  unfolding direct_call_def
proof (intro allI impI conjI)
  have lt: "a < mod_base_addr mi + mod_len mi" using assms(3,4) by (cases d) simp_all
  have p: "pos a = pos (mod_base_addr mi) + (a - mod_base_addr mi)" "pos a < N" using off_in_mod [OF assms(1,2) lt] .
  have le: "pos (mod_base_addr mi) \<le> pos a" "pos a + length d \<le> pos (mod_base_addr mi) + mod_len mi" "pos (mod_base_addr mi) + mod_len mi \<le> N"
    using p(1) assms by (auto simp: mod_ok_def)
  show "prog (pos a) d F x = F x" if "\<not> (pos (mod_base_addr mi) \<le> x \<and> x < pos (mod_base_addr mi) + mod_len mi)" for F x
    using that le by (auto simp: prog_def)
  fix h :: "bufref norhal"
  assume h: "hal_ok (pos (mod_base_addr mi)) (mod_len mi) h" "suspend_state h = SUSPEND_STATE_NO" "total_size h = N"
    "npages a (length d) \<le> ready (polls (chip h))"
  have b: "mod_base_addr mi mod 4096 = 0" "mod_len mi mod 4096 = 0" using assms(1) by (simp_all add: mod_ok_def)
  have "4096 dvd pos (mod_base_addr mi)" "4096 dvd mod_len mi" using pos_page [OF b(1)] b(2) by (simp_all add: dvd_eq_mod_eq_0)
  moreover have "256 dvd (4096 :: nat)" by simp
  ultimately have d: "256 dvd pos (mod_base_addr mi)" "256 dvd mod_len mi" using dvd_trans by blast+
  obtain ret h' where "hal_norflash_write_suspend (ram_of t d) a (CALLER, 0) (length d) False h = Some (ret, h')"
    "hal_post (ram_of t d) False (prog (off a) d (cells (chip h))) (pos (mod_base_addr mi)) (mod_len mi) (npages a (length d)) h ret h'"
    using hal_write_suspend_post [OF h(1,2,4) d, of False "ram_of t d" "(CALLER, 0)"] h(3) le p(2) by (auto simp: pos_def)
  then show "\<exists>ram ret h'. hal_norflash_write (ram_of t d) a (CALLER, 0) (length d) h = Some (ret, h') \<and>
      hal_post ram False (prog (pos a) d (cells (chip h))) (pos (mod_base_addr mi)) (mod_len mi) (npages a (length d)) h ret h'"
    by (auto simp: hal_norflash_write_def pos_def)
qed

lemma flash_sector:
  assumes "mod_ok N mi" "in_mod mi S" "in_range mi x"
  shows "(pos S \<le> pos x \<and> pos x < pos S + 4096) \<longleftrightarrow> x div 4096 * 4096 = S"
proof -
  have im: "in_mod mi (x div 4096 * 4096)" by (rule in_range_sector [OF assms(1,3)])
  have x: "x div 4096 * 4096 + x mod 4096 = x" by simp
  show ?thesis
  proof (cases "x div 4096 * 4096 = S")
    case True
    with off_sector(1) [OF assms(1,2), of "x mod 4096"] x show ?thesis by simp
  next
    case False
    with off_other_sector [OF assms(1) im assms(2), of "x mod 4096"] x show ?thesis by simp
  qed
qed

text \<open>A range of a module, in any number of sectors.\<close>

definition module_range :: "api \<Rightarrow> nat \<Rightarrow> nat \<Rightarrow> nat \<Rightarrow> bool" where
  "module_range s m a n \<longleftrightarrow> user s m \<and> mod_base_addr (mod_info s m) \<le> a \<and> 0 < n \<and>
     a + n \<le> mod_base_addr (mod_info s m) + mod_len (mod_info s m)"

lemma sync_holds:
  assumes "holds s M" "user s m" "due s + w \<le> ready (polls_of s)"
    and "\<And>t. direct_call (pos (mod_base_addr (mod_info s m))) (mod_len (mod_info s m)) G w (tot s) (f t)"
    and "\<forall>F x. in_range (mod_info s m) x \<longrightarrow> F (pos x) = M m x \<longrightarrow> G F (pos x) = M' m x" "\<forall>k. k \<noteq> m \<longrightarrow> M' k = M k"
  shows "\<exists>s1 h' s'. before_sync m s = Some s1 \<and> f s1 (flash_hal s1) = Some (HAL_NORFLASH_OK, h') \<and> s' = s1\<lparr>flash_hal := h'\<rparr> \<and>
    holds s' M' \<and> same_places s s' \<and> enough s' \<and> (\<forall>x. in_range (mod_info s m) x \<longrightarrow> flash_byte s' x = M' m x)"
proof -
  obtain Ls F where r: "inv s Ls F" "\<And>m a. user s m \<Longrightarrow> in_range (mod_info s m) a \<Longrightarrow> mview s Ls F m a = M m a"
    using holds_cases [OF assms(1)] by metis
  have "need s Ls + w \<le> ready (polls_of s)" using assms(3) due_need [OF r(1)] by simp
  from sync_spec [where f = f, OF r(1) assms(2) this assms(4)] obtain s1 h' Ls' F1 s' where
    w: "before_sync m s = Some s1" "f s1 (flash_hal s1) = Some (HAL_NORFLASH_OK, h')" "s' = s1\<lparr>flash_hal := h'\<rparr>"
      "unseen s Ls F s1 Ls' F1" "inv s' Ls' (G F1)" "Ls' m = []" "same_places s s'" "enough s'" "flash_byte s' = (\<lambda>x. G F1 (pos x))"
      "\<forall>k x. user s k \<longrightarrow> in_range (mod_info s k) x \<longrightarrow> mview s' Ls' (G F1) k x = (if k = m then G F1 (pos x) else mview s1 Ls' F1 k x)"
    by (elim exE conjE) (rule that)
  have m1: "mview s1 Ls' F1 k x = M k x" if "user s k" "in_range (mod_info s k) x" for k x
    using w(4) that r(2) by (simp add: unseen_def)
  have own: "G F1 (pos x) = M' m x" if "in_range (mod_info s m) x" for x
    using assms(5) that m1 [OF assms(2) that] w(6) by (simp add: mview_def)
  have "holds s' M'"
  proof (rule holds_places [OF w(5,7)])
    fix k x assume u: "user s k" "in_range (mod_info s k) x"
    with own m1 [OF u] w(10) assms(6) show "mview s' Ls' (G F1) k x = M' k x" by (cases "k = m") simp_all
  qed
  with w own show ?thesis by (intro exI [of _ s1] exI [of _ h'] exI [of _ s']) simp
qed

lemma write_sync_holds:
  assumes "holds s M" "module_range s m a (length d)" "due s + npages a (length d) \<le> ready (polls_of s)"
  shows "\<exists>s'. norflash_api_write m a d False s = Some (NORFLASH_API_OK, s') \<and> holds s' (store_write m a d M) \<and>
    same_places s s' \<and> enough s' \<and> (\<forall>x. in_range (mod_info s m) x \<longrightarrow> flash_byte s' x = store_write m a d M m x)"
proof -
  obtain Ls F where r: "inv s Ls F" using holds_cases [OF assms(1)] by metis
  let ?mi = "mod_info s m"
  have us: "user s m" and n: "mod_base_addr ?mi \<le> a" "d \<noteq> []" "a + length d \<le> mod_base_addr ?mi + mod_len ?mi"
    using assms(2) by (auto simp: module_range_def)
  have mo: "mod_ok (tot s) ?mi" by (rule holds_mod [OF r us])
  have ps: "pos x = pos (mod_base_addr ?mi) + (x - mod_base_addr ?mi)" if "in_range ?mi x" for x
    by (rule off_in_mod(1) [OF mo]) (use that in \<open>simp_all add: in_range_def\<close>)
  have "0 < length d" using n(2) by simp
  with n have "in_range ?mi a" unfolding in_range_def by linarith
  note pa = ps [OF this]
  have own: "\<forall>F x. in_range ?mi x \<longrightarrow> F (pos x) = M m x \<longrightarrow> prog (pos a) d F (pos x) = store_write m a d M m x"
  proof (intro allI impI)
    fix F x assume that: "in_range ?mi x" "F (pos x) = M m x"
    have "pos a \<le> pos x \<longleftrightarrow> a \<le> x" "pos x < pos a + length d \<longleftrightarrow> x < a + length d" "a \<le> x \<Longrightarrow> pos x - pos a = x - a"
      using ps [OF that(1)] pa n(1) that(1) by (auto simp: in_range_def)
    with that(2) show "prog (pos a) d F (pos x) = store_write m a d M m x" by (simp add: prog_def store_write_def)
  qed
  have "\<forall>k. k \<noteq> m \<longrightarrow> store_write m a d M k = M k" by (simp add: store_write_def)
  from sync_holds [where f = "\<lambda>t. hal_norflash_write (ram_of t d) a (CALLER, 0) (length d)", OF assms(1) us assms(3) write_direct [OF mo n(1,3,2)] own this]
  obtain s1 h' s' where w: "before_sync m s = Some s1"
      "hal_norflash_write (ram_of s1 d) a (CALLER, 0) (length d) (flash_hal s1) = Some (HAL_NORFLASH_OK, h')" "s' = s1\<lparr>flash_hal := h'\<rparr>"
      "holds s' (store_write m a d M)" "same_places s s'" "enough s'" "\<forall>x. in_range ?mi x \<longrightarrow> flash_byte s' x = store_write m a d M m x"
    by (elim exE conjE) (rule that)
  have "api_inited s" "m < 8" "mod_inited ?mi" using r us by (simp_all add: inv_def user_def)
  moreover have "\<not> out_of_range ?mi a (length d)" using n mo by (simp add: out_of_range_def mod_ok_def add32_def)
  ultimately have "norflash_api_write m a d False s = Some (NORFLASH_API_OK, s')"
    using w(1-3) n(2) by (simp add: norflash_api_write_def hal_result_def)
  with w(4-7) show ?thesis by blast
qed

lemma erase_sync_holds:
  assumes "holds s M" "sector_range s m S 4096" "4096 < tot s" "due s + 1 \<le> ready (polls_of s)"
  shows "\<exists>s'. norflash_api_erase m S 4096 False s = Some (NORFLASH_API_OK, s') \<and> holds s' (store_erase m S M) \<and>
    same_places s s' \<and> enough s' \<and> (\<forall>x. in_range (mod_info s m) x \<longrightarrow> flash_byte s' x = store_erase m S M m x)"
proof -
  obtain Ls F where r: "inv s Ls F" using holds_cases [OF assms(1)] by metis
  let ?mi = "mod_info s m"
  have us: "user s m" and S: "S mod 4096 = 0" "S div 4096 * 4096 = S" using assms(2) by (auto simp: sector_range_def)
  have mo: "mod_ok (tot s) ?mi" by (rule holds_mod [OF r us])
  note sr = sector_rangeD [OF assms(2) mo]
  have im: "in_mod ?mi S" using sr(3) S(2) by simp
  have own: "\<forall>F x. in_range ?mi x \<longrightarrow> F (pos x) = M m x \<longrightarrow> wipe (pos S) 4096 F (pos x) = store_erase m S M m x"
    using flash_sector [OF mo im] by (simp add: overlay_def store_erase_def)
  have "\<forall>k. k \<noteq> m \<longrightarrow> store_erase m S M k = M k" by (simp add: store_erase_def)
  from sync_holds [where f = "\<lambda>t. hal_norflash_erase S 4096", OF assms(1) us assms(4) erase_direct [OF mo im assms(3)] own this]
  obtain s1 h' s' where w: "before_sync m s = Some s1" "hal_norflash_erase S 4096 (flash_hal s1) = Some (HAL_NORFLASH_OK, h')"
      "s' = s1\<lparr>flash_hal := h'\<rparr>" "holds s' (store_erase m S M)" "same_places s s'" "enough s'"
      "\<forall>x. in_range ?mi x \<longrightarrow> flash_byte s' x = store_erase m S M m x"
    by (elim exE conjE) (rule that)
  have "api_inited s" "m < 8" "mod_inited ?mi" using r us by (simp_all add: inv_def user_def)
  with sr(4,5) S w(1-3) have "norflash_api_erase m S 4096 False s = Some (NORFLASH_API_OK, s')"
    by (simp add: norflash_api_erase_def sector_start_def hal_result_def)
  with w(4-7) show ?thesis by blast
qed

end
