(* ===== verification/FlashHistory.thy ===== *)
theory FlashHistory
  imports FlashRun
begin

text \<open>
  The life of the flash queue: setting it up, registering modules, and any sequence of calls. The sequence is
  compared with a memory that carries out every call at once: the contract between the two is the locale
  \<open>stored_memory\<close>, which the interface of \<open>norflash_api.cpp\<close> is an instance of.
\<close>

section \<open>Setting up\<close>

text \<open>Before the first call: the static pools are free and nothing is under way in the hardware layer.\<close>

definition idle_flash :: "api \<Rightarrow> bool" where
  "idle_flash s \<longleftrightarrow> (\<forall>i. \<not> op_used s i) \<and> (\<forall>b. \<not> data_used s b) \<and> geom (flash_hal s) \<and>
     suspend_state (flash_hal s) = SUSPEND_STATE_NO \<and> running (chip (flash_hal s)) = None"

definition idle_module :: "MODULE_INFO \<Rightarrow> bool" where
  "idle_module mi \<longleftrightarrow> opera_info mi = None \<and> cur_opera_info mi = None \<and> mod_state mi = NORFLASH_API_STATE_IDLE"

lemma inv_nothing:
  assumes "api_inited s" "idle_flash s" "cur_mod s = None" "\<And>m. idle_module (mod_info s m)"
    and "\<And>m. user s m \<Longrightarrow> mod_ok (tot s) (mod_info s m)"
    and "\<And>m k. user s m \<Longrightarrow> user s k \<Longrightarrow> m \<noteq> k \<Longrightarrow> apart (mod_info s m) (mod_info s k)"
  shows "inv s (\<lambda>_. []) (cells (chip (flash_hal s)))"
proof -
  have b: "busy s = None" using assms(3) by (simp add: busy_def)
  have m: "opera_info (mod_info s m) = None" "cur_opera_info (mod_info s m) = None" "mod_state (mod_info s m) = NORFLASH_API_STATE_IDLE" for m
    using assms(4) [of m] by (simp_all add: idle_module_def)
  have "lists_ok s (\<lambda>_. [])" by (simp add: lists_ok_def m)
  moreover have "pools_ok s (\<lambda>_. [])" using assms(2) by (simp add: pools_ok_def idle_flash_def)
  moreover have "mods_ok s (\<lambda>_. [])" using assms(5,6) by (auto simp: mods_ok_def user_def)
  moreover have "busy_ok s (\<lambda>_. [])" by (simp add: busy_ok_def m assms(3))
  moreover have "hw_ok s (cells (chip (flash_hal s)))" using b assms(2) by (simp add: hw_ok_def idle_flash_def)
  ultimately show ?thesis using assms(1) by (simp add: inv_def)
qed

lemma init_holds:
  assumes "idle_flash s"
  shows "\<exists>s'. norflash_api_init s = (NORFLASH_API_OK, s') \<and> holds s' M \<and> (\<forall>m. \<not> user s' m) \<and> flash_hal s' = flash_hal s \<and> pending_ops s' = 0"
proof -
  let ?s = "snd (norflash_api_init s)"
  have e: "norflash_api_init s = (NORFLASH_API_OK, ?s)" "flash_hal ?s = flash_hal s" "op_used ?s = op_used s" by (simp_all add: norflash_api_init_def)
  have u: "\<not> user ?s m" for m by (simp add: user_def norflash_api_init_def zero_module_def)
  have "inv ?s (\<lambda>_. []) (cells (chip (flash_hal ?s)))"
    by (rule inv_nothing) (use assms u in \<open>simp_all add: norflash_api_init_def zero_module_def idle_flash_def idle_module_def\<close>)
  then have "holds ?s M" by (rule holds_intro) (use u in simp)
  moreover have "pending_ops ?s = 0" using assms by (simp add: pending_ops_def e(3) idle_flash_def)
  ultimately show ?thesis using e u by blast
qed

text \<open>The registration of a module whose sectors no other module has.\<close>

lemma inv_register:
  assumes "inv s Ls F" "m < 8" "\<not> mod_inited (mod_info s m)" "mod_ok (tot s) mi" "idle_module mi"
    and "\<And>k. user s k \<Longrightarrow> apart (mod_info s k) mi"
  shows "inv (set_mod m (\<lambda>_. mi) s) Ls F" (is "inv ?s Ls F")
    and "mview (set_mod m (\<lambda>_. mi) s) Ls F = mview s Ls F" "Ls m = []" "busy (set_mod m (\<lambda>_. mi) s) = busy s"
proof -
  have ok: "lists_ok s Ls" "pools_ok s Ls" "mods_ok s Ls" "busy_ok s Ls" "hw_ok s F" using assms(1) by (simp_all add: inv_def)
  show L: "Ls m = []" using ok(3) assms(2,3) by (simp add: mods_ok_def)
  have sel: "op_node ?s = op_node s" "op_used ?s = op_used s" "data_used ?s = data_used s" "data_buf ?s = data_buf s" "cur_mod ?s = cur_mod s"
    "flash_hal ?s = flash_hal s" "api_inited ?s = api_inited s" "is_w ?s = is_w s"
    by (simp_all add: set_mod_def is_w_def fun_eq_iff)
  have mi: "mod_info ?s k = (if k = m then mi else mod_info s k)" for k by (simp add: set_mod_def)
  have new: "mod_inited mi" "opera_info mi = None" "cur_opera_info mi = None" "mod_state mi = NORFLASH_API_STATE_IDLE"
    using assms(4,5) by (simp_all add: mod_ok_def idle_module_def)
  have cm: "cur_mod s \<noteq> Some m" using busy_cur [OF ok(4)] assms(3) by blast
  show bs: "busy ?s = busy s" using cm by (simp add: busy_def sel mi split: option.split)
  have ap: "apart mi (mod_info s k)" if "user s k" for k using assms(6) [OF that] by (auto simp: apart_def)
  have "lists_ok ?s Ls" using ok(1) L new unfolding lists_ok_def sel mi by simp
  moreover have "pools_ok ?s Ls" using ok(2) unfolding pools_ok_def sel .
  moreover have "mods_ok ?s Ls"
    using ok(3) assms(4,6) ap L unfolding mods_ok_def sel mi user_def by simp
  moreover have "busy_ok ?s Ls"
  proof (rule busy_ok_intro)
    show "op_lock (op_node ?s i) \<longleftrightarrow> cur_opera_info (mod_info ?s k) = Some i" if "k < 8" "i \<in> set (Ls k)" for i k
      using busy_lock [OF ok(4) that] L that(2) by (cases "k = m") (simp_all add: sel mi)
    show "mod_state (mod_info ?s k) = NORFLASH_API_STATE_IDLE" if "k < 8" "cur_opera_info (mod_info ?s k) = None" for k
      using busy_ok_idle [OF ok(4) that(1)] that(2) new by (simp add: mi split: if_splits)
    show "Ls k \<noteq> [] \<and> i = last (Ls k) \<and> cur_mod ?s = Some k \<and> mod_state (mod_info ?s k) = susp_state (op_node ?s i)"
      if "k < 8" "cur_opera_info (mod_info ?s k) = Some i" for k i
      using busy_okD [OF ok(4) that(1)] that(2) new by (simp add: mi sel split: if_splits)
    show "k < 8 \<and> mod_inited (mod_info ?s k)" if "cur_mod ?s = Some k" for k
      using busy_cur [OF ok(4)] that new by (simp add: mi sel)
  qed
  moreover have "hw_ok ?s F" by (rule hw_ok_cong [OF ok(5)]) (use bs in \<open>simp_all add: sel\<close>)
  ultimately show "inv ?s Ls F" using assms(1) unfolding inv_def sel by blast
  show "mview ?s Ls F = mview s Ls F" by (simp add: mview_def fun_eq_iff sel)
qed

lemma pos_range:
  assumes "mod_ok N mi" "in_range mi a"
  shows "pos (mod_base_addr mi) \<le> pos a \<and> pos a < pos (mod_base_addr mi) + mod_len mi"
proof -
  have "pos a = pos (mod_base_addr mi) + (a - mod_base_addr mi)"
    by (rule off_in_mod(1) [OF assms(1)]) (use assms(2) in \<open>simp_all add: in_range_def\<close>)
  with assms(2) show ?thesis by (auto simp: in_range_def)
qed

lemma pos_sector_range:
  assumes "mod_ok N mi" "in_mod mi S"
  shows "pos (mod_base_addr mi) \<le> pos S \<and> pos S + 4096 \<le> pos (mod_base_addr mi) + mod_len mi"
proof -
  have "pos S = pos (mod_base_addr mi) + (S - mod_base_addr mi)"
    by (rule off_in_mod(1) [OF assms(1)]) (use assms(2) in \<open>simp_all add: in_mod_def\<close>)
  with assms(2) show ?thesis by (auto simp: in_mod_def)
qed

lemma flash_byte_unused:
  assumes "inv s Ls F" "mod_ok (tot s) mi" "\<And>k. user s k \<Longrightarrow> apart (mod_info s k) mi" "in_range mi a"
  shows "flash_byte s a = F (pos a)"
proof -
  have fb: "flash_byte s a = cells (chip (flash_hal s)) (pos a)" by (simp add: flash_byte_def pos_def masks)
  have hw: "hw_ok s F" using assms(1) by (simp add: inv_def)
  show ?thesis
  proof (cases "busy s")
    case None
    with hw fb show ?thesis by (simp add: hw_ok_def)
  next
    case (Some i)
    obtain m where m: "cur_mod s = Some m" "i \<in> set (Ls m)" using busy_mod [OF _ Some] assms(1) unfolding inv_def by blast
    then have "Ls m \<noteq> []" by auto
    then have u: "user s m" by (rule user_in [OF assms(1)])
    have "in_mod (mod_info s m) (op_addr (op_node s i))" using op_ok_in [OF assms(1) m(2)] by (simp add: op_ok_def)
    from pos_sector_range [OF holds_mod [OF assms(1) u] this] pos_range [OF assms(2,4)] assms(3) [OF u]
    have "\<not> (pos (op_addr (op_node s i)) \<le> pos a \<and> pos a < pos (op_addr (op_node s i)) + 4096)" by (auto simp: apart_def)
    with hw fb Some show ?thesis by (simp add: hw_ok_def susp_ok_def)
  qed
qed

lemma register_holds:
  assumes "holds s M" "m < 8" "\<not> mod_inited (mod_info s m)" "dev_id = 0" "4096 \<le> buffer_len" "buffer_len mod 4096 = 0"
    and "base mod 4096 = 0" "len mod 4096 = 0" "pos base + len \<le> tot s" "tot s < 16777216" "base + len < 4294967296"
    and "\<forall>k. user s k \<longrightarrow> pos (mod_base_addr (mod_info s k)) + mod_len (mod_info s k) \<le> pos base \<or>
      pos base + len \<le> pos (mod_base_addr (mod_info s k))"
  shows "\<exists>s'. norflash_api_register m dev_id base len block_len 4096 page_len buffer_len cb s = Some (NORFLASH_API_OK, s') \<and>
    user s' m \<and> mod_base_addr (mod_info s' m) = base \<and> mod_len (mod_info s' m) = len \<and>
    holds s' (M(m := flash_byte s)) \<and> due s' = due s \<and> flash_hal s' = flash_hal s"
proof -
  obtain Ls F where r: "inv s Ls F" "\<And>m a. user s m \<Longrightarrow> in_range (mod_info s m) a \<Longrightarrow> mview s Ls F m a = M m a"
    using holds_cases [OF assms(1)] by metis
  define mi where "mi = \<lparr>mod_inited = True, mod_base_addr = base, mod_len = len, mod_block_len = block_len, mod_sector_len = 4096,
    mod_page_len = page_len, buff_len = buffer_len, cb_func = cb, opera_info = None, cur_opera_info = None, mod_state = NORFLASH_API_STATE_IDLE\<rparr>"
  let ?s = "set_mod m (\<lambda>_. mi) s"
  have mo: "mod_ok (tot s) mi" and idle: "idle_module mi" using assms(7-11) by (simp_all add: mod_ok_def mi_def idle_module_def)
  have ap: "apart (mod_info s k) mi" if "user s k" for k using assms(12) that by (simp add: apart_def mi_def)
  note reg = inv_register [OF r(1) assms(2,3) mo idle ap]
  have "buffer_len div 4096 * 4096 = buffer_len" using assms(6) div_mult_mod_eq [of buffer_len 4096] by simp
  then have "norflash_api_register m dev_id base len block_len 4096 page_len buffer_len cb s = Some (NORFLASH_API_OK, ?s)"
    using assms(2-5) r(1) by (simp add: norflash_api_register_def inv_def mi_def)
  moreover have "holds ?s (M(m := flash_byte s))"
  proof (rule holds_intro [OF reg(1)])
    fix k a assume u: "user ?s k" "in_range (mod_info ?s k) a"
    show "mview ?s Ls F k a = (M(m := flash_byte s)) k a"
    proof (cases "k = m")
      case True
      with u have "in_range mi a" by (simp add: set_mod_def)
      from flash_byte_unused [OF r(1) mo ap this] True reg(2,3) show ?thesis by (simp add: mview_def)
    next
      case False
      with u r(2) reg(2) show ?thesis by (simp add: set_mod_def user_def)
    qed
  qed simp_all
  moreover have "user ?s m" "mod_base_addr (mod_info ?s m) = base" "mod_len (mod_info ?s m) = len" "flash_hal ?s = flash_hal s"
    using assms(2) by (simp_all add: user_def set_mod_def mi_def)
  moreover have "due ?s = due s" using reg(4) by (simp add: due_def pending_ops_def set_mod_def)
  ultimately show ?thesis by blast
qed

section \<open>Sequences of calls\<close>

text \<open>
  Calls of a component against the memory that it stands for: \<open>ok\<close> is when a call is allowed, \<open>effect\<close> what
  it does to the memory, \<open>reply\<close> which answers are right.
\<close>

inductive runs :: "('c \<Rightarrow> 's \<Rightarrow> 'a \<Rightarrow> bool) \<Rightarrow> ('c \<Rightarrow> 's \<Rightarrow> ('r \<times> 's) option) \<Rightarrow> ('c \<Rightarrow> 'r \<Rightarrow> 'a \<Rightarrow> 'a) \<Rightarrow> 's \<Rightarrow> 'a \<Rightarrow> ('c \<times> 'r) list \<Rightarrow> 's \<Rightarrow> 'a \<Rightarrow> bool"
  for ok step effect where
  runs_Nil: "runs ok step effect s a [] s a"
| runs_Cons: "ok c s a \<Longrightarrow> step c s = Some (r, s1) \<Longrightarrow> runs ok step effect s1 (effect c r a) cs s' a' \<Longrightarrow>
     runs ok step effect s a ((c, r) # cs) s' a'"

inductive_cases runs_NilE: "runs ok step effect s a [] s' a'"
inductive_cases runs_ConsE: "runs ok step effect s a (cr # cs) s' a'"

primrec replies :: "('c \<Rightarrow> 'r \<Rightarrow> 'a \<Rightarrow> 'a) \<Rightarrow> ('c \<Rightarrow> 'a \<Rightarrow> 'r \<Rightarrow> bool) \<Rightarrow> 'a \<Rightarrow> ('c \<times> 'r) list \<Rightarrow> bool" where
  "replies effect reply a [] \<longleftrightarrow> True"
| "replies effect reply a (cr # cs) \<longleftrightarrow> reply (fst cr) a (snd cr) \<and> replies effect reply (effect (fst cr) (snd cr) a) cs"

locale simulated =
  fixes rel :: "'s \<Rightarrow> 'a \<Rightarrow> bool"
    and ok :: "'c \<Rightarrow> 's \<Rightarrow> 'a \<Rightarrow> bool"
    and step :: "'c \<Rightarrow> 's \<Rightarrow> ('r \<times> 's) option"
    and effect :: "'c \<Rightarrow> 'r \<Rightarrow> 'a \<Rightarrow> 'a"
    and reply :: "'c \<Rightarrow> 'a \<Rightarrow> 'r \<Rightarrow> bool"
  assumes step_rel: "rel s a \<Longrightarrow> ok c s a \<Longrightarrow> \<exists>r s'. step c s = Some (r, s') \<and> reply c a r \<and> rel s' (effect c r a)"
begin

lemma run_rel: "runs ok step effect s a cs s' a' \<Longrightarrow> rel s a \<Longrightarrow> rel s' a' \<and> replies effect reply a cs"
proof (induction rule: runs.induct)
  case (runs_Cons c s a r s1 cs s' a')
  from step_rel [OF runs_Cons.prems runs_Cons.hyps(1)] runs_Cons.hyps(2) have "reply c a r" "rel s1 (effect c r a)" by auto
  with runs_Cons.IH show ?case by simp
qed simp

lemma run_effect: "runs ok step effect s a cs s' a' \<Longrightarrow> a' = fold (\<lambda>cr. effect (fst cr) (snd cr)) cs a"
  by (induction rule: runs.induct) simp_all

lemma not_stuck: "rel s a \<Longrightarrow> ok c s a \<Longrightarrow> step c s \<noteq> None"
  using step_rel by force

end

text \<open>With a way to bring everything to where it stays: afterwards the memory is what is stored.\<close>

locale stored_memory = simulated +
  fixes finish :: "'s \<Rightarrow> 's option" and can_finish :: "'s \<Rightarrow> bool" and stored :: "'s \<Rightarrow> 'a \<Rightarrow> bool"
  assumes finish_stored: "rel s a \<Longrightarrow> can_finish s \<Longrightarrow> \<exists>s'. finish s = Some s' \<and> rel s' a \<and> stored s' a"
begin

lemma run_stored:
  assumes "runs ok step effect s a cs s' a'" "rel s a" "can_finish s'"
  shows "\<exists>s''. finish s' = Some s'' \<and> stored s'' (fold (\<lambda>cr. effect (fst cr) (snd cr)) cs a) \<and> replies effect reply a cs"
  using run_rel [OF assms(1,2)] run_effect [OF assms(1)] finish_stored [OF _ assms(3)] by blast

end

section \<open>The calls of the flash queue\<close>

datatype flash_call = READ nat nat nat | WRITE nat nat "byte list" bool | ERASE nat nat bool | SLEEP

datatype flash_answer = BYTES NORFLASH_API_RET_T "byte list" | RET NORFLASH_API_RET_T | HOOK int

definition flash_do :: "flash_call \<Rightarrow> api \<Rightarrow> (flash_answer \<times> api) option" where
  "flash_do c s = (case c of
     READ m a n \<Rightarrow> do { (ret, d) \<leftarrow> norflash_api_read m a n s; Some (BYTES ret d, s) }
   | WRITE m a d async \<Rightarrow> do { (ret, s) \<leftarrow> norflash_api_write m a d async s; Some (RET ret, s) }
   | ERASE m S async \<Rightarrow> do { (ret, s) \<leftarrow> norflash_api_erase m S 4096 async s; Some (RET ret, s) }
   | SLEEP \<Rightarrow> do { (ret, s) \<leftarrow> norflash_api_flush s; Some (HOOK ret, s) })"

text \<open>When a call is allowed; all but the last condition of a queued write can be read off the state.\<close>

definition flash_ok :: "flash_call \<Rightarrow> api \<Rightarrow> (nat \<Rightarrow> nat \<Rightarrow> byte) \<Rightarrow> bool" where
  "flash_ok c s M = (case c of
     READ m a n \<Rightarrow> sector_range s m a n
   | WRITE m a d async \<Rightarrow> if async
       then sector_range s m a (length d) \<and> not_last s (a div 4096 * 4096) \<and> \<not> sector_writing s m (a div 4096 * 4096) \<and>
         (\<forall>k<length d. d ! k AND M m (a + k) = d ! k)
       else module_range s m a (length d) \<and> due s + npages a (length d) \<le> ready (polls_of s)
   | ERASE m S async \<Rightarrow> sector_range s m S 4096 \<and> (if async then not_last s S \<and> erase_guard s m S
       else 4096 < tot s \<and> due s + 1 \<le> ready (polls_of s))
   | SLEEP \<Rightarrow> enough s)"

text \<open>What the call does to a memory that carries it out at once, if the answer is that it is accepted.\<close>

definition flash_effect :: "flash_call \<Rightarrow> flash_answer \<Rightarrow> (nat \<Rightarrow> nat \<Rightarrow> byte) \<Rightarrow> nat \<Rightarrow> nat \<Rightarrow> byte" where
  "flash_effect c r M = (if r \<noteq> RET NORFLASH_API_OK then M else (case c of
     WRITE m a d async \<Rightarrow> store_write m a d M | ERASE m S async \<Rightarrow> store_erase m S M | _ \<Rightarrow> M))"

definition flash_reply :: "flash_call \<Rightarrow> (nat \<Rightarrow> nat \<Rightarrow> byte) \<Rightarrow> flash_answer \<Rightarrow> bool" where
  "flash_reply c M r = (case c of
     READ m a n \<Rightarrow> r = BYTES NORFLASH_API_OK (map (M m) [a..<a + n])
   | WRITE m a d async \<Rightarrow> r = RET NORFLASH_API_OK \<or> async \<and> r = RET NORFLASH_API_BUFFER_FULL
   | ERASE m S async \<Rightarrow> r = RET NORFLASH_API_OK \<or> async \<and> r = RET NORFLASH_API_BUFFER_FULL
   | SLEEP \<Rightarrow> r = HOOK 0 \<or> r = HOOK 1)"

definition flash_stored :: "api \<Rightarrow> (nat \<Rightarrow> nat \<Rightarrow> byte) \<Rightarrow> bool" where
  "flash_stored s M \<longleftrightarrow> (\<forall>m a. user s m \<longrightarrow> in_range (mod_info s m) a \<longrightarrow> flash_byte s a = M m a)"

lemma same_places_user:
  assumes "same_places s s'"
  shows "user s' m = user s m" "in_range (mod_info s' m) = in_range (mod_info s m)"
proof -
  have p: "same_place (mod_info s k) (mod_info s' k)" for k using assms by (simp add: same_places_def)
  show "user s' m = user s m" "in_range (mod_info s' m) = in_range (mod_info s m)"
    using same_place_user [OF p] same_place_eqs(5) [OF p] by simp_all
qed

lemma flash_step:
  assumes "holds s M" "flash_ok c s M"
  shows "\<exists>r s'. flash_do c s = Some (r, s') \<and> flash_reply c M r \<and> holds s' (flash_effect c r M)"
proof (cases c)
  case (READ m a n)
  with assms read_holds(1) [OF assms(1), of m a n] show ?thesis
    by (simp add: flash_do_def flash_ok_def flash_reply_def flash_effect_def)
next
  case (WRITE m a d async)
  show ?thesis
  proof (cases async)
    case True
    with assms(2) WRITE have "sector_range s m a (length d)" "not_last s (a div 4096 * 4096)" "\<not> sector_writing s m (a div 4096 * 4096)"
      "\<forall>k<length d. d ! k AND M m (a + k) = d ! k" by (simp_all add: flash_ok_def)
    from write_async_holds [OF assms(1) this] True WRITE show ?thesis
      by (auto simp: flash_do_def flash_reply_def flash_effect_def)
  next
    case False
    with assms(2) WRITE have "module_range s m a (length d)" "due s + npages a (length d) \<le> ready (polls_of s)"
      by (simp_all add: flash_ok_def)
    from write_sync_holds [OF assms(1) this] False WRITE show ?thesis
      by (auto simp: flash_do_def flash_reply_def flash_effect_def)
  qed
next
  case (ERASE m S async)
  then have S: "sector_range s m S 4096" using assms(2) by (simp add: flash_ok_def)
  show ?thesis
  proof (cases async)
    case True
    with assms(2) ERASE have "not_last s S" "erase_guard s m S" by (simp_all add: flash_ok_def)
    from erase_async_holds [OF assms(1) S this] True ERASE show ?thesis
      by (auto simp: flash_do_def flash_reply_def flash_effect_def)
  next
    case False
    with assms(2) ERASE have "4096 < tot s" "due s + 1 \<le> ready (polls_of s)" by (simp_all add: flash_ok_def)
    from erase_sync_holds [OF assms(1) S this] False ERASE show ?thesis
      by (auto simp: flash_do_def flash_reply_def flash_effect_def)
  qed
next
  case SLEEP
  with assms(2) have "enough s" by (simp add: flash_ok_def)
  from flush_holds [OF assms(1) this] SLEEP show ?thesis
    by (auto simp: flash_do_def flash_reply_def flash_effect_def)
qed

interpretation flash: stored_memory holds flash_ok flash_do flash_effect flash_reply norflash_flush_all_pending_op enough flash_stored
proof
  show "\<exists>r s'. flash_do c s = Some (r, s') \<and> flash_reply c M r \<and> holds s' (flash_effect c r M)"
    if "holds s M" "flash_ok c s M" for s M c using that by (rule flash_step)
  show "\<exists>s'. norflash_flush_all_pending_op s = Some s' \<and> holds s' M \<and> flash_stored s' M" if "holds s M" "enough s" for s M
    using flush_all_holds [OF that] same_places_user by (fastforce simp: flash_stored_def)
qed

text \<open>
  C1. The queue is a memory: for any sequence of reads, queued and synchronous writes and erases of any
  modules, and sleep hooks in between, each within its guard, the answers are those of a memory that carries
  out every accepted call at once; and flushing what is left leaves the flash with the contents of that memory.
\<close>

theorem flash_queue_refines_memory:
  assumes "holds s M" "runs flash_ok flash_do flash_effect s M cs s' M'"
  shows "replies flash_effect flash_reply M cs \<and> holds s' (fold (\<lambda>cr. flash_effect (fst cr) (snd cr)) cs M) \<and>
    (enough s' \<longrightarrow> (\<exists>s''. norflash_flush_all_pending_op s' = Some s'' \<and>
      flash_stored s'' (fold (\<lambda>cr. flash_effect (fst cr) (snd cr)) cs M)))"
  using flash.run_rel [OF assms(2,1)] flash.run_effect [OF assms(2)] flash.run_stored [OF assms(2,1)] by blast

end
