(* ===== verification/FlashContract.thy ===== *)
theory FlashContract
  imports FlashHistory
begin

text \<open>
  What a user of the flash queue may rely on, call by call, at a concrete state of a chip of one megabyte with
  a module of four sectors; and what the code does in the cases that the guards exclude.
\<close>

section \<open>An instance\<close>

text \<open>The flash is mapped at \<open>0x3C000000\<close>; the module has the sectors from \<open>0x10000\<close>.\<close>

definition demo_module :: MODULE_INFO where
  "demo_module = \<lparr>mod_inited = True, mod_base_addr = 1006698496, mod_len = 16384, mod_block_len = 32768, mod_sector_len = 4096,
     mod_page_len = 256, buff_len = 8192, cb_func = False, opera_info = None, cur_opera_info = None, mod_state = NORFLASH_API_STATE_IDLE\<rparr>"

definition demo_flash :: "poll list \<Rightarrow> bufref norhal" where
  "demo_flash ps = \<lparr>opened = True, total_size = 1048576, block_size = 32768, sector_size = 4096, page_size = 256, suspend_mode = True,
     suspend_state = SUSPEND_STATE_NO, op_next_addr = 0, op_next_buf = (CALLER, 0), op_remain_len = 0,
     chip = \<lparr>cells = \<lambda>_. 255, running = None, chip_size = 1048576, polls = ps\<rparr>\<rparr>"

definition demo_api :: "poll list \<Rightarrow> api" where
  "demo_api ps = \<lparr>api_inited = True, mod_info = (\<lambda>_. zero_module)(0 := demo_module), cur_mod_id = 8, cur_mod = None,
     op_used = (\<lambda>_. False), op_node = (\<lambda>_. \<lparr>op_type = NORFLASH_API_ERASING, op_addr = 0, op_len = 0, w_offs = 0, w_len = 0,
       op_buff = None, op_lock = False, op_next = None\<rparr>), data_used = (\<lambda>_. False), data_buf = (\<lambda>_ _. 0), suspend_number = 0,
     flash_hal = demo_flash ps, cb_calls = []\<rparr>"

lemma demo_api_sel [simp]:
  "user (demo_api ps) m \<longleftrightarrow> m = 0" "mod_base_addr (mod_info (demo_api ps) 0) = 1006698496" "mod_len (mod_info (demo_api ps) 0) = 16384"
  "mod_sector_len (mod_info (demo_api ps) 0) = 4096" "opera_info (mod_info (demo_api ps) m) = None"
  "tot (demo_api ps) = 1048576" "polls_of (demo_api ps) = ps" "busy (demo_api ps) = None" "\<not> op_used (demo_api ps) i" "\<not> data_used (demo_api ps) i"
  "pending_ops (demo_api ps) = 0" "due (demo_api ps) = 0" "flash_hal (demo_api ps) = demo_flash ps" "api_inited (demo_api ps)"
  "mod_inited (mod_info (demo_api ps) 0)" "total_size (demo_flash ps) = 1048576" "polls (chip (demo_flash ps)) = ps" "cur_mod (demo_api ps) = None"
  by (simp_all add: demo_api_def demo_module_def demo_flash_def user_def zero_module_def busy_def pending_ops_def due_def hal_work_def)

lemma demo_idle: "idle_flash (demo_api ps)"
  by (simp add: idle_flash_def) (simp add: demo_flash_def geom_def)

lemma demo_holds: "holds (demo_api ps) (\<lambda>_ _. 255)"
proof (rule holds_intro)
  show "inv (demo_api ps) (\<lambda>_. []) (cells (chip (flash_hal (demo_api ps))))"
  proof (rule inv_nothing [OF _ demo_idle])
    show "idle_module (mod_info (demo_api ps) m)" for m
      by (simp add: demo_api_def idle_module_def demo_module_def zero_module_def)
    show "mod_ok (tot (demo_api ps)) (mod_info (demo_api ps) m)" if "user (demo_api ps) m" for m
      using that by (simp add: mod_ok_def pos_def)
  qed simp_all
  show "mview (demo_api ps) (\<lambda>_. []) (cells (chip (flash_hal (demo_api ps)))) m a = 255" for m a
    by (simp add: mview_def) (simp add: demo_flash_def)
qed

lemma demo_range: "sector_range (demo_api ps) 0 a n \<longleftrightarrow> 1006698496 \<le> a \<and> 0 < n \<and> a mod 4096 + n \<le> 4096 \<and> a + n \<le> 1006714880"
  by (simp add: sector_range_def)

lemma demo_not_writing: "\<not> sector_writing (demo_api ps) 0 S"
  by (simp add: sector_writing_def find_loop.simps)

lemma demo_pos: "pos 1006698496 = 65536" "pos 1006702592 = 69632"
  by (simp_all add: pos_def)

lemma pending_bound: "pending_ops s \<le> 15"
  using length_filter_le [of "op_used s" "[0..<15]"] by (simp add: pending_ops_def)

text \<open>Two bytes written to the second sector.\<close>

abbreviation demo_memory :: "nat \<Rightarrow> nat \<Rightarrow> byte" where
  "demo_memory \<equiv> store_write 0 1006702596 [170, 85] (\<lambda>_ _. 255)"

lemma demo_memory_at: "demo_memory 0 1006702596 = 170" "demo_memory 0 1006702597 = 85" "demo_memory 0 1006702598 = 255"
  by (simp_all add: store_write_def)

lemma demo_write_ok:
  "sector_range (demo_api ps) 0 1006702596 (length [170 :: byte, 85])" "not_last (demo_api ps) (1006702596 div 4096 * 4096)"
  "\<not> sector_writing (demo_api ps) 0 (1006702596 div 4096 * 4096)" "\<forall>k<length [170 :: byte, 85]. [170, 85] ! k AND (255 :: byte) = [170, 85] ! k"
proof -
  show "\<forall>k<length [170 :: byte, 85]. [170, 85] ! k AND (255 :: byte) = [170, 85] ! k" by (simp add: All_less_Suc)
qed (simp_all add: demo_range not_last_def demo_pos demo_not_writing)

lemma demo_written:
  "\<exists>s. norflash_api_write 0 1006702596 [170, 85] True (demo_api ps) = Some (NORFLASH_API_OK, s) \<and> quiet (demo_api ps) s \<and> holds s demo_memory"
  using write_async_holds [OF demo_holds demo_write_ok, of ps] by (auto elim: allE [of _ 0])

lemma quiet_enough:
  assumes "quiet (demo_api ps) s" "270 \<le> ready ps"
  shows "enough s" "polls_of s = ps" "tot s = 1048576" "user s m \<longleftrightarrow> m = 0" "in_range (mod_info s k) = in_range (mod_info (demo_api ps) k)"
proof -
  have f: "flash_hal s = demo_flash ps" using assms(1) by (simp add: quiet_def)
  show "polls_of s = ps" "tot s = 1048576" by (simp_all add: f)
  show "user s m \<longleftrightarrow> m = 0" using quiet_range(1) [OF assms(1)] by simp
  show "in_range (mod_info s k) = in_range (mod_info (demo_api ps) k)" by (rule quiet_range(2) [OF assms(1)])
  have "hal_work (demo_flash ps) = 0" by (simp add: hal_work_def demo_flash_def)
  then have "due s \<le> 18 * 15" using pending_bound [of s] by (simp add: due_def f)
  then show "enough s" using assms(2) by (simp add: enough_def f)
qed

lemma ready_replicate: "ready (replicate n WIP_0) = n"
  by (induction n) simp_all

section \<open>The calls\<close>

text \<open>
  A module reads back what it sees: for a range inside one of its sectors, \<open>norflash_api_read\<close> succeeds and
  gives the bytes of the promise, whether they are in the flash, in a buffer of a queued write, or erased
  by a queued erase; \<open>norflash_api_is_changed\<close> says whether they differ from the given ones.
\<close>

theorem norflash_api_read_holds:
  assumes "holds s M" "sector_range s m a n"
  shows "norflash_api_read m a n s = Some (NORFLASH_API_OK, map (M m) [a..<a + n]) \<and>
    (\<forall>d. length d = n \<longrightarrow> norflash_api_is_changed m a d s = Some (d \<noteq> map (M m) [a..<a + n]))"
  using read_holds [OF assms] by blast

text \<open>
  C3. A write that the queue accepts is visible at once: inside one sector of the module, not the last of
  the chip, with no write for it under way and only clearing bits, \<open>norflash_api_write\<close> returns \<open>OK\<close> and
  the module sees the new bytes, everything else as before; or it returns \<open>BUFFER_FULL\<close>, all nodes or all
  buffers being in use, and nothing has changed.
\<close>

theorem norflash_api_write_async_holds:
  assumes "holds s M" "sector_range s m a (length d)" "not_last s (a div 4096 * 4096)" "\<not> sector_writing s m (a div 4096 * 4096)"
    and "\<forall>k<length d. d ! k AND M m (a + k) = d ! k"
  shows "\<exists>ret s'. norflash_api_write m a d True s = Some (ret, s') \<and> quiet s s' \<and>
    (ret = NORFLASH_API_OK \<and> holds s' (store_write m a d M) \<or>
     ret = NORFLASH_API_BUFFER_FULL \<and> holds s' M \<and> ((\<forall>i \<in> {0..<15}. op_used s i) \<or> (\<forall>b \<in> {0..<4}. data_used s b)))"
  using assms by (rule write_async_holds)

text \<open>
  C4. An erase that the queue accepts is visible at once: for a sector of the module, not the last of the
  chip, and either a module of one sector or at most one queued operation for the sector that is not under way (\<open>erase_guard\<close>), \<open>norflash_api_erase\<close> returns \<open>OK\<close> and the module sees the sector erased, everything else as
  before, the operation it has thrown away included; or it returns \<open>BUFFER_FULL\<close>, all nodes
  being in use, and nothing has changed. The guard is needed: see the last section.
\<close>

theorem norflash_api_erase_async_holds:
  assumes "holds s M" "sector_range s m S 4096" "not_last s S" "erase_guard s m S"
  shows "\<exists>ret s'. norflash_api_erase m S 4096 True s = Some (ret, s') \<and> quiet s s' \<and>
    (ret = NORFLASH_API_OK \<and> holds s' (store_erase m S M) \<or>
     ret = NORFLASH_API_BUFFER_FULL \<and> holds s' M \<and> (\<forall>i \<in> {0..<15}. op_used s i))"
  using erase_async_holds [OF assms] by blast

text \<open>
  C14. The sleep hook is visible to nobody: with enough done readings of the chip to come, one call of
  \<open>norflash_api_flush\<close> returns and keeps what every module sees; it answers 1 with less left to do, or 0 when
  nothing is pending, and there are still enough readings.
\<close>

theorem norflash_api_flush_holds:
  assumes "holds s M" "enough s"
  shows "\<exists>r s'. norflash_api_flush s = Some (r, s') \<and> holds s' M \<and> enough s' \<and> same_places s s' \<and>
    (r = 1 \<and> left_over s' < left_over s \<or> r = 0 \<and> s' = s \<and> left_over s = 2 * length (polls_of s))"
  using assms by (rule flush_holds)

text \<open>
  C2. Flushing to the end: with enough done readings of the chip to come, \<open>norflash_flush_all_pending_op\<close> returns,
  however often the interrupts suspend the operations; then no node and no buffer is in use, and the flash
  itself holds every byte that the modules saw before.
\<close>

theorem norflash_flush_all_drains:
  assumes "holds s M" "enough s"
  shows "\<exists>s'. norflash_flush_all_pending_op s = Some s' \<and> holds s' M \<and> same_places s s' \<and> pending_ops s' = 0 \<and>
    (\<forall>b. \<not> data_used s' b) \<and> suspend_state (flash_hal s') = SUSPEND_STATE_NO \<and>
    (\<forall>m a. user s m \<longrightarrow> in_range (mod_info s m) a \<longrightarrow> flash_byte s' a = M m a)"
  using assms by (rule flush_all_holds)

text \<open>
  C13. A synchronous write: with enough done readings for what is queued and for its own pages,
  \<open>norflash_api_write\<close> returns \<open>OK\<close>, for any range of the module; the module sees the old bytes with the bits
  cleared that are clear in the buffer, every other module sees what it saw, and the flash itself holds
  all bytes of the module.
\<close>

theorem norflash_api_write_sync_holds:
  assumes "holds s M" "module_range s m a (length d)" "due s + npages a (length d) \<le> ready (polls_of s)"
  shows "\<exists>s'. norflash_api_write m a d False s = Some (NORFLASH_API_OK, s') \<and> holds s' (store_write m a d M) \<and>
    same_places s s' \<and> enough s' \<and> (\<forall>x. in_range (mod_info s m) x \<longrightarrow> flash_byte s' x = store_write m a d M m x)"
  using assms by (rule write_sync_holds)

text \<open>
  A synchronous erase of a sector of the module, on a chip of more than one sector, with enough done
  readings for what is queued and one for itself: \<open>norflash_api_erase\<close> returns \<open>OK\<close>, the module sees the
  sector erased, every other module sees what it saw, and the flash itself holds all bytes of the module.
  Here the last sector of the chip is no exception.
\<close>

theorem norflash_api_erase_sync_holds:
  assumes "holds s M" "sector_range s m S 4096" "4096 < tot s" "due s + 1 \<le> ready (polls_of s)"
  shows "\<exists>s'. norflash_api_erase m S 4096 False s = Some (NORFLASH_API_OK, s') \<and> holds s' (store_erase m S M) \<and>
    same_places s s' \<and> enough s' \<and> (\<forall>x. in_range (mod_info s m) x \<longrightarrow> flash_byte s' x = store_erase m S M m x)"
  using assms by (rule erase_sync_holds)

text \<open>
  \<open>norflash_api_init\<close> establishes the promise, for no module yet, whatever the state was before, if the static
  pools are free and the hardware layer is idle.
\<close>

theorem norflash_api_init_holds:
  assumes "idle_flash s"
  shows "\<exists>s'. norflash_api_init s = (NORFLASH_API_OK, s') \<and> holds s' M \<and> (\<forall>m. \<not> user s' m) \<and> flash_hal s' = flash_hal s \<and> pending_ops s' = 0"
  using assms by (rule init_holds)

text \<open>
  Registering a module on sectors of the chip that no other module has keeps the promise: the new module
  sees what the flash holds, the others what they saw, also while an operation of one of them is suspended.
\<close>

theorem norflash_api_register_holds:
  assumes "holds s M" "m < 8" "\<not> mod_inited (mod_info s m)" "dev_id = 0" "4096 \<le> buffer_len" "buffer_len mod 4096 = 0"
    and "base mod 4096 = 0" "len mod 4096 = 0" "pos base + len \<le> tot s" "tot s < 16777216" "base + len < 4294967296"
    and "\<forall>k. user s k \<longrightarrow> pos (mod_base_addr (mod_info s k)) + mod_len (mod_info s k) \<le> pos base \<or>
      pos base + len \<le> pos (mod_base_addr (mod_info s k))"
  shows "\<exists>s'. norflash_api_register m dev_id base len block_len 4096 page_len buffer_len cb s = Some (NORFLASH_API_OK, s') \<and>
    user s' m \<and> mod_base_addr (mod_info s' m) = base \<and> mod_len (mod_info s' m) = len \<and>
    holds s' (M(m := flash_byte s)) \<and> due s' = due s \<and> flash_hal s' = flash_hal s"
  using assms by (rule register_holds)

section \<open>The calls at the instance\<close>

theorem norflash_api_read_holds_witness:
  "\<exists>s. norflash_api_write 0 1006702596 [170, 85] True (demo_api []) = Some (NORFLASH_API_OK, s) \<and>
    norflash_api_read 0 1006702596 3 s = Some (NORFLASH_API_OK, [170, 85, 255])"
proof -
  obtain s where w: "norflash_api_write 0 1006702596 [170, 85] True (demo_api []) = Some (NORFLASH_API_OK, s)"
    "quiet (demo_api []) s" "holds s demo_memory" using demo_written by blast
  have "same_place (mod_info (demo_api []) 0) (mod_info s 0)" using w(2) by (simp add: quiet_def)
  then have "sector_range s 0 1006702596 3" using quiet_range(1) [OF w(2)] by (simp add: sector_range_def same_place_def)
  from norflash_api_read_holds [OF w(3) this] w(1) show ?thesis by (intro exI [of _ s]) (simp add: store_write_def upt_rec)
qed

theorem norflash_api_write_async_holds_witness:
  "\<exists>ret s. norflash_api_write 0 1006702596 [170, 85] True (demo_api []) = Some (ret, s) \<and> ret = NORFLASH_API_OK \<and> holds s demo_memory"
  using norflash_api_write_async_holds [OF demo_holds demo_write_ok, of "[]"] by (auto elim: allE [of _ 0])

theorem norflash_api_erase_async_holds_witness:
  "\<exists>ret s. norflash_api_erase 0 1006702592 4096 True (demo_api []) = Some (ret, s) \<and> ret = NORFLASH_API_OK \<and> holds s (\<lambda>_ _. 255)"
proof -
  have "sector_range (demo_api []) 0 1006702592 4096" "not_last (demo_api []) 1006702592" "erase_guard (demo_api []) 0 1006702592"
    by (simp_all add: demo_range not_last_def demo_pos erase_guard_def)
  moreover have "store_erase 0 1006702592 (\<lambda>_ _. 255) = (\<lambda>_ _. 255)" by (simp add: store_erase_def fun_eq_iff)
  ultimately show ?thesis using norflash_api_erase_async_holds [OF demo_holds, of "[]" 0 1006702592] by (auto elim: allE [of _ 0])
qed

theorem norflash_api_flush_holds_witness:
  "\<exists>s r s'. norflash_api_write 0 1006702596 [170, 85] True (demo_api (replicate 270 WIP_0)) = Some (NORFLASH_API_OK, s) \<and>
    norflash_api_flush s = Some (r, s') \<and> holds s' demo_memory \<and> enough s'"
proof -
  obtain s where w: "norflash_api_write 0 1006702596 [170, 85] True (demo_api (replicate 270 WIP_0)) = Some (NORFLASH_API_OK, s)"
    "quiet (demo_api (replicate 270 WIP_0)) s" "holds s demo_memory" using demo_written by blast
  have "enough s" using quiet_enough(1) [OF w(2)] by (simp add: ready_replicate)
  from norflash_api_flush_holds [OF w(3) this] w(1) show ?thesis by blast
qed

theorem norflash_flush_all_drains_witness:
  "\<exists>s s'. norflash_api_write 0 1006702596 [170, 85] True (demo_api (WIP_1 True (\<lambda>_. 7) # replicate 270 WIP_0)) = Some (NORFLASH_API_OK, s) \<and>
    norflash_flush_all_pending_op s = Some s' \<and> flash_byte s' 1006702596 = 170 \<and> flash_byte s' 1006702598 = 255"
proof -
  let ?ps = "WIP_1 True (\<lambda>_. 7) # replicate 270 WIP_0"
  obtain s where w: "norflash_api_write 0 1006702596 [170, 85] True (demo_api ?ps) = Some (NORFLASH_API_OK, s)"
    "quiet (demo_api ?ps) s" "holds s demo_memory" using demo_written by blast
  have q: "270 \<le> ready ?ps" by (simp add: ready_replicate)
  from norflash_flush_all_drains [OF w(3) quiet_enough(1) [OF w(2) q]] obtain s' where s': "norflash_flush_all_pending_op s = Some s'"
    "\<forall>m a. user s m \<longrightarrow> in_range (mod_info s m) a \<longrightarrow> flash_byte s' a = demo_memory m a" by blast
  have "in_range (mod_info s 0) 1006702596" "in_range (mod_info s 0) 1006702598"
    using quiet_enough(5) [OF w(2) q] by (simp_all add: in_range_def)
  with s' w(1) quiet_enough(4) [OF w(2) q] demo_memory_at show ?thesis by auto
qed

theorem norflash_api_write_sync_holds_witness:
  "\<exists>s. norflash_api_write 0 1006702590 [170, 85, 60, 7] False (demo_api [WIP_1 False (\<lambda>_. 7), WIP_0, WIP_0]) = Some (NORFLASH_API_OK, s) \<and>
    flash_byte s 1006702590 = 170 \<and> flash_byte s 1006702593 = 7 \<and> flash_byte s 1006702594 = 255"
proof -
  let ?ps = "[WIP_1 False (\<lambda>_. 7), WIP_0, WIP_0]" and ?d = "[170, 85, 60, 7 :: byte]"
  have "module_range (demo_api ?ps) 0 1006702590 (length ?d)" by (simp add: module_range_def)
  moreover have "due (demo_api ?ps) + npages 1006702590 (length ?d) \<le> ready (polls_of (demo_api ?ps))" by (simp add: npages_def)
  ultimately obtain s where s: "norflash_api_write 0 1006702590 ?d False (demo_api ?ps) = Some (NORFLASH_API_OK, s)"
    "\<forall>x. in_range (mod_info (demo_api ?ps) 0) x \<longrightarrow> flash_byte s x = store_write 0 1006702590 ?d (\<lambda>_ _. 255) 0 x"
    using norflash_api_write_sync_holds [OF demo_holds, of ?ps 0 1006702590 ?d] by blast
  then show ?thesis by (intro exI [of _ s]) (simp add: in_range_def store_write_def)
qed

theorem norflash_api_erase_sync_holds_witness:
  "\<exists>s. norflash_api_erase 0 1006702592 4096 False (demo_api [WIP_1 False (\<lambda>_. 7), WIP_0]) = Some (NORFLASH_API_OK, s) \<and>
    flash_byte s 1006702592 = 255"
proof -
  let ?ps = "[WIP_1 False (\<lambda>_. 7), WIP_0]"
  have "sector_range (demo_api ?ps) 0 1006702592 4096" by (simp add: demo_range)
  then obtain s where s: "norflash_api_erase 0 1006702592 4096 False (demo_api ?ps) = Some (NORFLASH_API_OK, s)"
    "\<forall>x. in_range (mod_info (demo_api ?ps) 0) x \<longrightarrow> flash_byte s x = store_erase 0 1006702592 (\<lambda>_ _. 255) 0 x"
    using norflash_api_erase_sync_holds [OF demo_holds, of ?ps 0 1006702592] by auto
  then show ?thesis by (intro exI [of _ s]) (simp add: in_range_def store_erase_def)
qed

theorem norflash_api_init_holds_witness:
  "\<exists>s. norflash_api_init (demo_api []) = (NORFLASH_API_OK, s) \<and> holds s (\<lambda>_ _. 0) \<and> pending_ops s = 0"
  using norflash_api_init_holds [OF demo_idle] by blast

theorem norflash_api_register_holds_witness:
  "\<exists>s. norflash_api_register 3 0 1006714880 8192 32768 4096 256 8192 True (demo_api []) = Some (NORFLASH_API_OK, s) \<and> user s 3 \<and>
    holds s ((\<lambda>_ _. 255)(3 := flash_byte (demo_api [])))"
proof -
  have "\<not> mod_inited (mod_info (demo_api []) 3)" by (simp add: demo_api_def zero_module_def)
  then show ?thesis
    using norflash_api_register_holds [OF demo_holds [of "[]"], where m = 3 and base = 1006714880 and len = 8192 and dev_id = 0 and buffer_len = 8192 and cb = True
      and block_len = 32768 and page_len = 256] by (auto simp: pos_def)
qed

theorem flash_queue_refines_memory_witness:
  "\<exists>s. runs flash_ok flash_do flash_effect (demo_api []) (\<lambda>_ _. 255) [(WRITE 0 1006702596 [170, 85] True, RET NORFLASH_API_OK)] s demo_memory \<and>
    holds s demo_memory"
proof -
  let ?c = "WRITE 0 1006702596 [170, 85] True"
  obtain s where w: "norflash_api_write 0 1006702596 [170, 85] True (demo_api []) = Some (NORFLASH_API_OK, s)" using demo_written by blast
  have "flash_ok ?c (demo_api []) (\<lambda>_ _. 255)" using demo_write_ok(1-3) [of "[]"] demo_write_ok(4) by (simp add: flash_ok_def)
  moreover have "flash_do ?c (demo_api []) = Some (RET NORFLASH_API_OK, s)" using w by (simp add: flash_do_def)
  moreover have e: "flash_effect ?c (RET NORFLASH_API_OK) (\<lambda>_ _. 255) = demo_memory" by (simp add: flash_effect_def)
  moreover have "runs flash_ok flash_do flash_effect s demo_memory [] s demo_memory" by (rule runs_Nil)
  ultimately have r: "runs flash_ok flash_do flash_effect (demo_api []) (\<lambda>_ _. 255) [(?c, RET NORFLASH_API_OK)] s demo_memory"
    by (intro runs_Cons) simp_all
  from flash_queue_refines_memory [OF demo_holds r] e have "holds s demo_memory" by simp
  with r show ?thesis by blast
qed

end
