(* ===== verification/FlashUser.thy ===== *)
theory FlashUser
  imports FlashContract NvStore
begin

text \<open>
  The user data sector on the flash queue. \<open>NvStore\<close> takes the answers of the flash layer as arguments and
  supposes that what was accepted is done later, in order; here the answers come from the queue, and what \<open>NvStore\<close> calls
  the drained sector is what the queue promises for it.
\<close>

abbreviation NORFLASH_API_MODULE_ID_USERDATA :: nat where "NORFLASH_API_MODULE_ID_USERDATA \<equiv> 1"

definition answer :: "NORFLASH_API_RET_T \<Rightarrow> norflash_ret" where
  "answer r = (case r of NORFLASH_API_OK \<Rightarrow> NF_OK | NORFLASH_API_BUFFER_FULL \<Rightarrow> NF_BUFFER_FULL | _ \<Rightarrow> NF_ERR)"

text \<open>The module of the sector, as \<open>nv_record_init\<close> registers it; it is not the last sector of the chip.\<close>

definition user_sector :: "api \<Rightarrow> nat \<Rightarrow> bool" where
  "user_sector s base \<longleftrightarrow> user s NORFLASH_API_MODULE_ID_USERDATA \<and> mod_base_addr (mod_info s NORFLASH_API_MODULE_ID_USERDATA) = base \<and>
     mod_len (mod_info s NORFLASH_API_MODULE_ID_USERDATA) = 4096 \<and> not_last s base"

definition user_bytes :: "(nat \<Rightarrow> nat \<Rightarrow> byte) \<Rightarrow> nat \<Rightarrow> byte list" where
  "user_bytes M base = map (M NORFLASH_API_MODULE_ID_USERDATA) [base..<base + 4096]"

text \<open>The branch of \<open>nv_record_flash_flush_int\<close> for the sleep hook, with the calls of the queue.\<close>

definition erase_on_queue :: "nat \<Rightarrow> nv \<Rightarrow> api \<Rightarrow> (norflash_ret \<times> nv \<times> api) option" where
  "erase_on_queue base nv s = do {
     (r, s) \<leftarrow> norflash_api_erase NORFLASH_API_MODULE_ID_USERDATA base POOL_SIZE True s;
     nv \<leftarrow> erase_once (answer r) nv;
     Some (answer r, nv, s) }"

definition write_on_queue :: "u32 \<Rightarrow> nat \<Rightarrow> nv \<Rightarrow> api \<Rightarrow> (norflash_ret \<times> nv \<times> api) option" where
  "write_on_queue addr base nv s = do {
     filled \<leftarrow> fill_header addr nv;
     (r, s) \<leftarrow> norflash_api_write NORFLASH_API_MODULE_ID_USERDATA base (pool filled) True s;
     nv \<leftarrow> write_once addr (answer r) nv;
     Some (answer r, nv, s) }"

definition sleep_on_queue :: "u32 \<Rightarrow> nat \<Rightarrow> nv \<Rightarrow> api \<Rightarrow> (norflash_ret \<times> norflash_ret \<times> nv \<times> api) option" where
  "sleep_on_queue addr base nv s = do {
     (er, nv, s) \<leftarrow> (if nv_state nv = NV_STATE_IDLE then erase_on_queue base nv s else Some (NF_OK, nv, s));
     if nv_state nv = NV_STATE_ERASED then do { (wr, nv, s) \<leftarrow> write_on_queue addr base nv s; Some (er, wr, nv, s) }
     else Some (er, NF_OK, nv, s) }"

lemma user_sector_quiet:
  assumes "user_sector s base" "quiet s s'"
  shows "user_sector s' base"
proof -
  have "same_place (mod_info s 1) (mod_info s' 1)" "flash_hal s' = flash_hal s" using assms(2) by (simp_all add: quiet_def)
  with assms(1) quiet_range(1) [OF assms(2)] show ?thesis by (simp add: user_sector_def same_place_def not_last_def)
qed

lemma user_sector_range:
  assumes "holds s M" "user_sector s base"
  shows "sector_range s 1 base 4096" "base div 4096 * 4096 = base" "not_last s base" "erase_guard s 1 base"
    "in_range (mod_info s 1) a \<longleftrightarrow> base \<le> a \<and> a < base + 4096"
proof -
  obtain Ls F where r: "inv s Ls F" using holds_cases [OF assms(1)] by metis
  have u: "user s 1" "mod_base_addr (mod_info s 1) = base" "mod_len (mod_info s 1) = 4096" using assms(2) by (simp_all add: user_sector_def)
  have "base mod 4096 = 0" using holds_mod [OF r u(1)] u(2) by (simp add: mod_ok_def)
  with u show "sector_range s 1 base 4096" "base div 4096 * 4096 = base" by (auto simp: sector_range_def)
  show "not_last s base" "erase_guard s 1 base" using assms(2) u(3) by (simp_all add: user_sector_def erase_guard_def)
  show "in_range (mod_info s 1) a \<longleftrightarrow> base \<le> a \<and> a < base + 4096" using u by (simp add: in_range_def)
qed

lemma erase_on_queue_ok:
  assumes "holds s M" "user_sector s base" "drained nv = user_bytes M base"
  shows "\<exists>er nv' s' M'. erase_on_queue base nv s = Some (er, nv', s') \<and> erase_once er nv = Some nv' \<and> er \<noteq> NF_ERR \<and> quiet s s' \<and>
    holds s' M' \<and> drained nv' = user_bytes M' base \<and> (er = NF_OK \<longrightarrow> \<not> sector_writing s' 1 base)"
proof -
  note rg = user_sector_range [OF assms(1,2)]
  from erase_async_holds [OF assms(1) rg(1,3,4)] obtain ret s' where e: "norflash_api_erase 1 base 4096 True s = Some (ret, s')" "quiet s s'"
    "ret = NORFLASH_API_OK \<and> holds s' (store_erase 1 base M) \<and> \<not> sector_writing s' 1 base \<or> ret = NORFLASH_API_BUFFER_FULL \<and> holds s' M" by blast
  from e(3) show ?thesis
  proof
    assume ok: "ret = NORFLASH_API_OK \<and> holds s' (store_erase 1 base M) \<and> \<not> sector_writing s' 1 base"
    have "x div 4096 * 4096 = base" if "base \<le> x" "x < base + 4096" for x
    proof -
      obtain k where k: "base = 4096 * k" using rg(2) by (metis mult.commute)
      with that have "x div 4096 = k" by (intro div_nat_eqI) (simp_all add: mult.commute)
      with k show ?thesis by simp
    qed
    then have "user_bytes (store_erase 1 base M) base = erased"
      by (intro nth_equalityI) (simp_all add: user_bytes_def erased_def store_erase_def)
    with ok e(1,2) show ?thesis
      by (intro exI [of _ NF_OK] exI [of _ "norflash_api_accept Flash_erase nv\<lparr>nv_state := NV_STATE_ERASED\<rparr>"] exI [of _ s'] exI [of _ "store_erase 1 base M"])
        (simp add: erase_on_queue_def erase_once_def answer_def flash_apply_def)
  next
    assume full: "ret = NORFLASH_API_BUFFER_FULL \<and> holds s' M"
    with e(1,2) assms(3) show ?thesis
      by (intro exI [of _ NF_BUFFER_FULL] exI [of _ nv] exI [of _ s'] exI [of _ M])
        (simp add: erase_on_queue_def erase_once_def answer_def)
  qed
qed

lemma write_on_queue_ok:
  assumes "holds s M" "user_sector s base" "drained nv = user_bytes M base" "nv_inv nv" "nv_state nv = NV_STATE_ERASED"
    and "\<not> sector_writing s 1 base"
  shows "\<exists>wr nv' s' M'. write_on_queue addr base nv s = Some (wr, nv', s') \<and> write_once addr wr nv = Some nv' \<and> wr \<noteq> NF_ERR \<and> quiet s s' \<and>
    holds s' M' \<and> drained nv' = user_bytes M' base"
proof -
  note rg = user_sector_range [OF assms(1,2)]
  have l: "length (pool nv) = POOL_SIZE" "drained nv = erased" using assms(4,5) by (simp_all add: nv_inv_def)
  obtain p where p: "fill_header addr nv = Some (nv\<lparr>pool := p\<rparr>)" "header_ok addr (nv_config nv) p" using fill_header_ok [OF l(1)] by blast
  have lp: "length p = 4096" using p(2) by (simp add: header_ok_def)
  have ff: "M 1 (base + k) = 255" if "k < 4096" for k
  proof -
    have "user_bytes M base ! k = erased ! k" using l(2) assms(3) by simp
    with that show ?thesis by (simp add: user_bytes_def erased_def)
  qed
  have "(255 :: byte) = - 1" by simp
  then have id: "x AND 255 = x" "255 AND x = x" for x :: byte by (simp_all only: and.left_neutral and.right_neutral)
  have "sector_range s 1 base (length p)" using rg(1) lp by simp
  moreover have "\<forall>k<length p. p ! k AND M 1 (base + k) = p ! k" using ff lp by (simp add: id)
  ultimately obtain ret s' where e: "norflash_api_write 1 base p True s = Some (ret, s')" "quiet s s'"
    "ret = NORFLASH_API_OK \<and> holds s' (store_write 1 base p M) \<or> ret = NORFLASH_API_BUFFER_FULL \<and> holds s' M"
    using write_async_holds [OF assms(1), of 1 base p] rg(2,3) assms(6) by auto
  from e(3) show ?thesis
  proof
    assume ok: "ret = NORFLASH_API_OK \<and> holds s' (store_write 1 base p M)"
    have "user_bytes (store_write 1 base p M) base = p"
      by (rule nth_equalityI) (use ff lp in \<open>simp_all add: user_bytes_def store_write_def id\<close>)
    with ok e(1,2) p(1) l(2) lp show ?thesis
      by (intro exI [of _ NF_OK] exI [of _ "norflash_api_accept (Flash_write p) (nv\<lparr>pool := p\<rparr>)\<lparr>is_update := False, nv_state := NV_STATE_IDLE\<rparr>"]
          exI [of _ s'] exI [of _ "store_write 1 base p M"])
        (simp add: write_on_queue_def write_once_def answer_def flash_apply_def)
  next
    assume full: "ret = NORFLASH_API_BUFFER_FULL \<and> holds s' M"
    with e(1,2) assms(3) p(1) show ?thesis
      by (intro exI [of _ NF_BUFFER_FULL] exI [of _ "nv\<lparr>pool := p\<rparr>"] exI [of _ s'] exI [of _ M])
        (simp add: write_on_queue_def write_once_def answer_def)
  qed
qed

lemma sleep_on_queue_ok:
  assumes "holds s M" "user_sector s base" "nv_inv nv" "drained nv = user_bytes M base"
    and "nv_state nv = NV_STATE_ERASED \<longrightarrow> \<not> sector_writing s 1 base"
  shows "\<exists>er wr r nv' s' M'. sleep_on_queue addr base nv s = Some (er, wr, nv', s') \<and> flush_async addr er wr nv = Some (r, nv') \<and>
    holds s' M' \<and> drained nv' = user_bytes M' base \<and> user_sector s' base"
proof -
  obtain er nv1 s1 M1 where e: "(if nv_state nv = NV_STATE_IDLE then erase_on_queue base nv s else Some (NF_OK, nv, s)) = Some (er, nv1, s1)"
    "(if nv_state nv = NV_STATE_IDLE then do { s \<leftarrow> erase_once er nv; Some (er, s) } else Some (NF_OK, nv)) = Some (er, nv1)"
    "quiet s s1" "holds s1 M1" "drained nv1 = user_bytes M1 base" "nv_inv nv1" "nv_state nv1 = NV_STATE_ERASED \<longrightarrow> \<not> sector_writing s1 1 base"
  proof (cases "nv_state nv = NV_STATE_IDLE")
    case True
    obtain er nv1 s1 M1 where a: "erase_on_queue base nv s = Some (er, nv1, s1)" "erase_once er nv = Some nv1" "quiet s s1"
      "holds s1 M1" "drained nv1 = user_bytes M1 base" "er = NF_OK \<longrightarrow> \<not> sector_writing s1 1 base"
      using erase_on_queue_ok [OF assms(1,2,4)] by blast
    with erase_once_inv [OF a(2) assms(3)] True show ?thesis by (intro that [of er nv1 s1 M1]) auto
  next
    case False
    with assms(1,3-5) show ?thesis by (intro that [of NF_OK nv s M]) (simp_all add: quiet_def)
  qed
  obtain wr nv' s' M' where w: "(if nv_state nv1 = NV_STATE_ERASED then do { (wr, nv, s) \<leftarrow> write_on_queue addr base nv1 s1; Some (er, wr, nv, s) }
      else Some (er, NF_OK, nv1, s1)) = Some (er, wr, nv', s')"
    "(if nv_state nv1 = NV_STATE_ERASED then do { s \<leftarrow> write_once addr wr nv1; Some (wr, s) } else Some (er, nv1)) = Some (if nv_state nv1 = NV_STATE_ERASED then wr else er, nv')"
    "quiet s1 s'" "holds s' M'" "drained nv' = user_bytes M' base"
  proof (cases "nv_state nv1 = NV_STATE_ERASED")
    case True
    with e(7) have "\<not> sector_writing s1 1 base" by simp
    from write_on_queue_ok [OF e(4) user_sector_quiet [OF assms(2) e(3)] e(5,6) True this, of addr] obtain wr nv' s' M' where
      "write_on_queue addr base nv1 s1 = Some (wr, nv', s')" "write_once addr wr nv1 = Some nv'" "quiet s1 s'" "holds s' M'"
      "drained nv' = user_bytes M' base" by blast
    with True show ?thesis by (intro that [of wr nv' s' M']) simp_all
  next
    case False
    with e(4,5) show ?thesis by (intro that [of NF_OK nv1 s1 M1]) (simp_all add: quiet_def)
  qed
  have "flush_async addr er wr nv = Some (if nv_state nv1 = NV_STATE_ERASED then wr else er, nv')"
    unfolding flush_async_def e(2) by (simp add: w(2))
  moreover have "user_sector s' base" by (rule user_sector_quiet [OF user_sector_quiet [OF assms(2) e(3)] w(3)])
  moreover have "sleep_on_queue addr base nv s = Some (er, wr, nv', s')" unfolding sleep_on_queue_def e(1) by (simp add: w(1))
  ultimately show ?thesis using w(4,5) by blast
qed

lemma user_sector_flushed:
  assumes "holds s M" "user_sector s base" "enough s"
  shows "\<exists>s'. norflash_flush_all_pending_op s = Some s' \<and> flash_bytes s' base 4096 = user_bytes M base"
proof -
  obtain s' where f: "norflash_flush_all_pending_op s = Some s'"
    "\<forall>m a. user s m \<longrightarrow> in_range (mod_info s m) a \<longrightarrow> flash_byte s' a = M m a" using flush_all_holds [OF assms(1,3)] by blast
  have "flash_byte s' (base + k) = M 1 (base + k)" if "k < 4096" for k
    using f(2) user_sector_range(5) [OF assms(1,2)] assms(2) that by (simp add: user_sector_def)
  then have "flash_bytes s' base 4096 = user_bytes M base"
    by (intro nth_equalityI) (simp_all add: flash_bytes_def user_bytes_def)
  with f(1) show ?thesis by blast
qed

text \<open>
  C5. The user data sector on the real queue: one call of the sleep hook of \<open>nvrecord.c\<close> erases and rewrites the
  sector through the queue; the queue answers as \<open>NvStore\<close> supposes, and what \<open>NvStore\<close> takes for the sector once
  everything accepted is done is what the queue makes of the flash: flushing the queue leaves
  exactly these bytes in the sector, which are the pool with its header if the update flag was cleared.
\<close>

theorem nv_sleep_hook_on_queue:
  assumes "holds s M" "user_sector s base" "nv_inv nv" "is_update nv" "nv_config nv \<noteq> 0" "drained nv = user_bytes M base"
    and "nv_state nv = NV_STATE_ERASED \<longrightarrow> \<not> sector_writing s 1 base"
  shows "\<exists>er wr nv' s'. sleep_on_queue addr base nv s = Some (er, wr, nv', s') \<and>
    nv_record_flash_flush_in_sleep addr er wr nv = Some (0, nv') \<and> (\<exists>M'. holds s' M' \<and> drained nv' = user_bytes M' base) \<and>
    (\<not> is_update nv' \<longrightarrow> header_ok addr (nv_config nv) (pool nv') \<and> drained nv' = pool nv') \<and>
    (enough s' \<longrightarrow> (\<exists>s''. norflash_flush_all_pending_op s' = Some s'' \<and> flash_bytes s'' base 4096 = drained nv'))"
proof -
  obtain er wr r nv' s' M' where q: "sleep_on_queue addr base nv s = Some (er, wr, nv', s')" "flush_async addr er wr nv = Some (r, nv')"
    "holds s' M'" "drained nv' = user_bytes M' base" "user_sector s' base" using sleep_on_queue_ok [OF assms(1-3,6,7)] by blast
  have "nv_record_flash_flush_in_sleep addr er wr nv = Some (0, nv')"
    using assms(4,5) q(2) by (simp add: nv_record_flash_flush_in_sleep_def nv_record_flash_flush_int_def)
  moreover have "\<not> is_update nv' \<longrightarrow> header_ok addr (nv_config nv) (pool nv') \<and> drained nv' = pool nv'"
    using flush_async_inv [OF q(2) assms(3)] assms(4) by auto
  moreover have "enough s' \<longrightarrow> (\<exists>s''. norflash_flush_all_pending_op s' = Some s'' \<and> flash_bytes s'' base 4096 = drained nv')"
    using user_sector_flushed [OF q(3,5)] q(4) by simp
  ultimately show ?thesis using q(1,3,4) by blast
qed

text \<open>At a new module of one sector behind the one of the instance.\<close>

lemma demo_user:
  "\<exists>s. user_sector s 1006714880 \<and> holds s (\<lambda>_ _. 255) \<and> flash_hal s = demo_flash ps"
proof -
  have "\<not> mod_inited (mod_info (demo_api ps) 1)" by (simp add: demo_api_def zero_module_def)
  then obtain s where s: "user s 1" "mod_base_addr (mod_info s 1) = 1006714880" "mod_len (mod_info s 1) = 4096"
    "holds s ((\<lambda>_ _. 255)(1 := flash_byte (demo_api ps)))" "flash_hal s = demo_flash ps"
    using register_holds [OF demo_holds [of ps], where m = 1 and base = 1006714880 and len = 4096 and dev_id = 0 and buffer_len = 8192
      and block_len = 32768 and page_len = 256 and cb = True]
    by (auto simp: pos_def)
  moreover have "(\<lambda>_ _. 255)(Suc 0 := flash_byte (demo_api ps)) = (\<lambda>_ _. 255)"
    by (simp add: fun_eq_iff flash_byte_def) (simp add: demo_flash_def)
  ultimately show ?thesis by (intro exI [of _ s]) (simp add: user_sector_def not_last_def pos_def)
qed

theorem nv_sleep_hook_on_queue_witness:
  "\<exists>s er wr nv' s'. sleep_on_queue 64 1006714880 ex_nv_dirty s = Some (er, wr, nv', s') \<and>
    nv_record_flash_flush_in_sleep 64 er wr ex_nv_dirty = Some (0, nv')"
proof -
  obtain s where s: "user_sector s 1006714880" "holds s (\<lambda>_ _. 255)" using demo_user by blast
  have "nv_inv ex_nv_dirty" by (rule nv_reach_inv [OF ex_nv_reach ex_keeps_size])
  moreover have "user_bytes (\<lambda>_ _. 255) 1006714880 = erased"
    by (rule nth_equalityI) (simp_all add: user_bytes_def erased_def del: upt_rec_numeral)
  moreover have "drained ex_nv_dirty = erased"
    by (simp add: drained_def ex_nv_dirty_def nv_record_config_rebuild_def Let_def new_config_def nv_record_mempool_init_def
      ex_reg_def ex_cfg_def ex_nv_def power_cycle_def flash_done_def)
  ultimately have "drained ex_nv_dirty = user_bytes (\<lambda>_ _. 255) 1006714880" "nv_inv ex_nv_dirty" by simp_all
  from nv_sleep_hook_on_queue [OF s(2,1) this(2) _ _ this(1), of 64]
  obtain er wr nv' s' where "sleep_on_queue 64 1006714880 ex_nv_dirty s = Some (er, wr, nv', s')"
    "nv_record_flash_flush_in_sleep 64 er wr ex_nv_dirty = Some (0, nv')" by auto
  then show ?thesis by blast
qed

end
