(* ===== verification/FlashLimits.thy ===== *)
theory FlashLimits
  imports FlashContract
begin

text \<open>
  Where the promise of the flash queue ends: what the code does in the cases that the guards of
  \<open>FlashContract\<close> exclude.
\<close>

section \<open>A freed node that stays linked\<close>

text \<open>The first node that is free becomes the new head.\<close>

lemma malloc_first:
  assumes "\<forall>j<i. op_used s j" "\<not> op_used s i" "i < 15"
  shows "norflash_api_malloc_op s = (Some i, s\<lparr>op_used := (op_used s)(i := True)\<rparr>)"
proof -
  have "find (\<lambda>i. \<not> op_used s i) [0..<15] = Some i" unfolding find_Some_iff using assms by (intro exI [of _ i]) simp
  then show ?thesis by (simp add: norflash_api_malloc_op_def)
qed

lemma e_opera_add_first:
  assumes "e_del_loop m S (opera_info (mod_info s m)) (opera_info (mod_info s m)) s = Some (False, t)"
    and "\<forall>j<i. op_used t j" "\<not> op_used t i" "i < 15"
  shows "e_opera_add m S 4096 s = Some (0, t\<lparr>op_used := (op_used t)(i := True),
    op_node := (op_node t)(i := erase_node S (opera_info (mod_info t m))), mod_info := (mod_info t)(m := (mod_info t m)\<lparr>opera_info := Some i\<rparr>)\<rparr>)"
  using assms(1) by (simp add: e_opera_add_def malloc_first [OF assms(2-4)] set_mod_def set_node_def erase_node_def)

text \<open>A list that leads back to its head is counted for ever.\<close>

lemma count_loop_cycle:
  assumes "op_next (op_node s i) = Some j" "op_next (op_node s j) = Some i"
  shows "count_loop P s n (Some i) = None"
proof (cases "count_loop P s n (Some i)")
  case (Some r)
  let ?Q = "\<lambda>(x :: (((OPRA_INFO \<Rightarrow> bool) \<times> api) \<times> nat) \<times> nat option). snd (fst (fst x)) = s \<longrightarrow> snd x \<noteq> Some i \<and> snd x \<noteq> Some j"
  have "?Q (((P, s), n), Some i)"
  proof (rule count_loop.raw_induct [where Pa = "\<lambda>x _. ?Q x", OF _ Some])
    fix f and P' :: "OPRA_INFO \<Rightarrow> bool" and s' n' t y
    assume "\<And>s n t b y. f s n t b = Some y \<Longrightarrow> ?Q (((s, n), t), b)"
      and "(if t = None then Some n' else f P' s' (if P' (op_node s' (the t)) then n' + 1 else n') (op_next (op_node s' (the t)))) = Some y"
    with assms show "?Q (((P', s'), n'), t)" by (fastforce split: if_splits)
  qed
  then show ?thesis by simp
qed

lemma malloc_data_first: "\<not> data_used s 0 \<Longrightarrow> norflash_api_malloc_data 4096 s = (Some 0, s\<lparr>data_used := (data_used s)(0 := True)\<rparr>)"
  by (simp add: norflash_api_malloc_data_def upt_rec)

lemma e_cycle_write:
  assumes "opera_info (mod_info s m) = Some 0" "op_node s 0 = erase_node S None" "op_used s 0" "\<not> op_used s 1" "\<not> data_used s 0"
    and "mod_sector_len (mod_info s m) = 4096" "S mod 4096 = 0" "length d \<le> 4096"
  shows "\<exists>f. w_opera_add m S d s = Some (0, s\<lparr>op_used := (op_used s)(1 := True), data_used := (data_used s)(0 := True),
    data_buf := (data_buf s)(0 := f), op_node := (op_node s)(1 := write_node S 0 (length d) 0 (Some 0)),
    mod_info := (mod_info s)(m := (mod_info s m)\<lparr>opera_info := Some 1\<rparr>)\<rparr>)"
proof -
  have S: "S div 4096 * 4096 = S" using assms(7) by auto
  have find: "w_find_loop s S (Some 0) = Some (Some 0)" using assms(2) by (subst w_find_loop.simps) (simp add: erase_node_def)
  have "norflash_api_malloc_op s = (Some 1, s\<lparr>op_used := (op_used s)(1 := True)\<rparr>)" using assms(3,4) by (intro malloc_first) simp_all
  then show ?thesis using assms(1,2,5,6,8) S find
    by (intro exI) (simp add: w_opera_add_def sector_start_def Let_def erase_node_def set_node_def set_data_def set_mod_def malloc_data_first
      data_put_def write_node_upd)
qed

lemma e_cycle_other:
  assumes "opera_info (mod_info s m) = Some 1" "op_node s 0 = erase_node S None" "op_node s 1 = write_node S 0 n 0 (Some 0)" "S \<noteq> T"
    and "op_used s 0" "op_used s 1" "\<not> op_used s 2"
  shows "e_opera_add m T 4096 s = Some (0, s\<lparr>op_used := (op_used s)(2 := True),
    op_node := (op_node s)(2 := erase_node T (Some 1)), mod_info := (mod_info s)(m := (mod_info s m)\<lparr>opera_info := Some 2\<rparr>)\<rparr>)"
proof -
  have 2: "\<forall>j<2. op_used s j" using assms(5,6) by (auto simp: less_2_cases_iff)
  have "e_del_loop m T p (Some 1) s = Some (False, s)" for p
    using assms(2-4) by (simp add: e_del_loop_Some e_del_loop_None e_dead_def erase_node_def write_node_def Let_def)
  from e_opera_add_first [where i = 2, OF _ 2 assms(7)] this assms(1) show ?thesis by simp
qed

text \<open>Nothing but the heads of the lists has changed.\<close>

definition same_api :: "api \<Rightarrow> api \<Rightarrow> bool" where
  "same_api s s' \<longleftrightarrow> api_inited s' = api_inited s \<and> cur_mod s' = cur_mod s \<and> tot s' = tot s \<and>
     (\<forall>k. \<exists>x. mod_info s' k = (mod_info s k)\<lparr>opera_info := x\<rparr>)"

lemma e_cycle_again:
  assumes "opera_info (mod_info s m) = Some 2" "op_node s 0 = erase_node S None" "op_node s 1 = write_node S 0 n 0 (Some 0)"
    and "op_node s 2 = erase_node T (Some 1)" "S \<noteq> T"
  shows "\<exists>s'. e_opera_add m S 4096 s = Some (0, s') \<and> opera_info (mod_info s' m) = Some 0 \<and> op_next (op_node s' 0) = Some 2 \<and>
    op_next (op_node s' 2) = Some 0 \<and> same_api s s' \<and> (\<forall>k. k \<noteq> m \<longrightarrow> mod_info s' k = mod_info s k)"
proof -
  let ?t = "s\<lparr>op_node := (op_node s)(2 := erase_node T (Some 0), 1 := write_node S 0 n 0 None),
    op_used := (op_used s)(1 := False, 0 := False), data_used := (data_used s)(0 := False)\<rparr>"
  have "e_del_loop m S p (Some 2) s = Some (False, ?t)" for p
    using assms by (simp add: e_del_loop_Some e_del_loop_None e_dead_def erase_node_def write_node_def Let_def e_unlink_def set_node_def
      norflash_api_free_op_def norflash_api_free_data_def)
  then have "e_opera_add m S 4096 s = Some (0, ?t\<lparr>op_used := (op_used ?t)(0 := True),
    op_node := (op_node ?t)(0 := erase_node S (opera_info (mod_info ?t m))), mod_info := (mod_info ?t)(m := (mod_info ?t m)\<lparr>opera_info := Some 0\<rparr>)\<rparr>)"
    by (intro e_opera_add_first) (simp_all add: assms(1))
  moreover have "\<exists>x. (mod_info s m)\<lparr>opera_info := Some 0\<rparr> = (mod_info s m)\<lparr>opera_info := x\<rparr>" "\<exists>x. mod_info s k = (mod_info s k)\<lparr>opera_info := x\<rparr>" for k
    by (blast, rule exI [of _ "opera_info (mod_info s k)"], simp)
  ultimately show ?thesis using assms(1) by (intro exI conjI) (assumption, simp_all add: erase_node_def same_api_def)
qed

lemma erase_call:
  assumes "api_inited s" "sector_range s m S 4096" "mod_ok N (mod_info s m)" "e_opera_add m S 4096 s = Some (0, s')"
  shows "norflash_api_erase m S 4096 True s = Some (NORFLASH_API_OK, s')"
proof -
  have S: "S mod 4096 = 0" "S div 4096 * 4096 = S" "user s m" using assms(2) by (auto simp: sector_range_def)
  have "mod_base_addr (mod_info s m) \<le> S" "S + 4096 \<le> mod_base_addr (mod_info s m) + mod_len (mod_info s m)" using assms(2) by (simp_all add: sector_range_def)
  then have "\<not> out_of_range (mod_info s m) S 4096" using assms(3) by (simp add: out_of_range_def mod_ok_def add32_def)
  with assms S show ?thesis by (simp add: norflash_api_erase_def sector_start_def user_def mod_ok_def)
qed

lemma write_call:
  assumes "api_inited s" "sector_range s m a (length d)" "mod_ok N (mod_info s m)" "w_opera_add m a d s = Some (0, s')"
  shows "norflash_api_write m a d True s = Some (NORFLASH_API_OK, s')"
proof -
  have S: "user s m" "d \<noteq> []" using assms(2) by (auto simp: sector_range_def)
  have "mod_base_addr (mod_info s m) \<le> a" "a + length d \<le> mod_base_addr (mod_info s m) + mod_len (mod_info s m)" using assms(2) by (simp_all add: sector_range_def)
  then have "\<not> out_of_range (mod_info s m) a (length d)" using assms(3) by (simp add: out_of_range_def mod_ok_def add32_def)
  with assms S show ?thesis by (simp add: norflash_api_write_def user_def)
qed

lemma nothing_pending:
  assumes "inv s Ls F" "pending_ops s = 0"
  shows "Ls k = []" "\<not> op_used s i" "\<not> data_used s b" "k < 8 \<Longrightarrow> opera_info (mod_info s k) = None"
proof -
  have ok: "lists_ok s Ls" "pools_ok s Ls" using assms(1) by (simp_all add: inv_def)
  have L: "Ls j = []" for j
  proof (cases "j < 8")
    case True
    have "(\<Sum>m<8. length (Ls m)) = 0" using nodes_pending [OF assms(1)] assms(2) by (simp add: nodes_def)
    with True show ?thesis by (simp add: sum_eq_0_iff)
  next
    case False
    with ok(1) show ?thesis by (simp add: lists_ok_def)
  qed
  then show "Ls k = []" "\<not> op_used s i" "\<not> data_used s b" using ok(2) by (simp_all add: pools_ok_def)
  show "k < 8 \<Longrightarrow> opera_info (mod_info s k) = None" using ok(1) L by (simp add: lists_ok_def)
qed

lemma cur_mod_loop_stuck:
  assumes "\<And>k. k \<noteq> m \<Longrightarrow> k < 8 \<Longrightarrow> opera_info (mod_info s k) = None" "mod_inited (mod_info s m)" "get_ew_count m s = None"
  shows "m \<in> set (turn n c) \<Longrightarrow> cur_mod_loop n c s = None"
proof (induction n arbitrary: c)
  case (Suc n)
  define k where "k = (if 8 \<le> c + 1 then 0 else c + 1)"
  have k: "k < 8" by (simp add: k_def)
  show ?case
  proof (cases "k = m")
    case True
    with assms(2,3) show ?thesis unfolding cur_mod_loop.simps k_def [symmetric] by (simp add: Let_def)
  next
    case False
    then have "get_ew_count k s = Some 0" using assms(1) [OF False k] by (simp add: get_ew_count_def count_loop.simps)
    moreover have "m \<in> set (turn n k)" using Suc.prems False unfolding turn.simps k_def [symmetric] by simp
    ultimately show ?thesis using Suc.IH [of k] unfolding cur_mod_loop.simps k_def [symmetric] by (simp add: Let_def)
  qed
qed simp

lemma same_apiD:
  assumes "same_api s s'"
  shows "sector_range s' = sector_range s" "mod_ok N (mod_info s' m) = mod_ok N (mod_info s m)" "api_inited s' = api_inited s"
    "mod_inited (mod_info s' m) = mod_inited (mod_info s m)" "cur_mod s' = cur_mod s"
proof -
  have 1: "mod_inited (mod_info s' k) = mod_inited (mod_info s k) \<and> mod_base_addr (mod_info s' k) = mod_base_addr (mod_info s k) \<and>
    mod_len (mod_info s' k) = mod_len (mod_info s k) \<and> mod_sector_len (mod_info s' k) = mod_sector_len (mod_info s k)" for k
  proof -
    obtain x where "mod_info s' k = (mod_info s k)\<lparr>opera_info := x\<rparr>" using assms unfolding same_api_def by blast
    then show ?thesis by simp
  qed
  then show "sector_range s' = sector_range s" "mod_ok N (mod_info s' m) = mod_ok N (mod_info s m)"
    "mod_inited (mod_info s' m) = mod_inited (mod_info s m)"
    by (simp_all add: sector_range_def user_def mod_ok_def fun_eq_iff)
  show "api_inited s' = api_inited s" "cur_mod s' = cur_mod s" using assms by (simp_all add: same_api_def)
qed

lemma erase_cycle_ops:
  assumes "\<And>i. \<not> op_used s i" "\<And>b. \<not> data_used s b" "opera_info (mod_info s m) = None" "mod_sector_len (mod_info s m) = 4096"
    and "S \<noteq> T" "S mod 4096 = 0" "length d \<le> 4096"
  shows "\<exists>s1 s2 s3 s4. e_opera_add m S 4096 s = Some (0, s1) \<and> w_opera_add m S d s1 = Some (0, s2) \<and>
    e_opera_add m T 4096 s2 = Some (0, s3) \<and> e_opera_add m S 4096 s3 = Some (0, s4) \<and>
    same_api s s1 \<and> same_api s s2 \<and> same_api s s3 \<and> same_api s s4 \<and>
    (\<forall>k. k \<noteq> m \<longrightarrow> mod_info s4 k = mod_info s k) \<and> get_ew_count m s4 = None"
proof -
  let ?mi = "\<lambda>i. (mod_info s)(m := (mod_info s m)\<lparr>opera_info := Some i\<rparr>)"
  define s1 where "s1 = s\<lparr>op_used := (op_used s)(0 := True), op_node := (op_node s)(0 := erase_node S None), mod_info := ?mi 0\<rparr>"
  have 1: "e_opera_add m S 4096 s = Some (0, s1)"
    using e_opera_add_first [where i = 0, of m S s s] assms(1,3) by (simp add: e_del_loop_None s1_def)
  obtain f where "w_opera_add m S d s1 = Some (0, s1\<lparr>op_used := (op_used s1)(1 := True), data_used := (data_used s1)(0 := True),
    data_buf := (data_buf s1)(0 := f), op_node := (op_node s1)(1 := write_node S 0 (length d) 0 (Some 0)),
    mod_info := (mod_info s1)(m := (mod_info s1 m)\<lparr>opera_info := Some 1\<rparr>)\<rparr>)"
    using e_cycle_write [of s1 m S d] assms by (auto simp: s1_def)
  moreover define s2 where "s2 = s1\<lparr>op_used := (op_used s1)(1 := True), data_used := (data_used s1)(0 := True),
    data_buf := (data_buf s1)(0 := f), op_node := (op_node s1)(1 := write_node S 0 (length d) 0 (Some 0)), mod_info := ?mi 1\<rparr>"
  ultimately have 2: "w_opera_add m S d s1 = Some (0, s2)" by (simp add: s2_def) (simp add: s1_def)
  define s3 where "s3 = s2\<lparr>op_used := (op_used s2)(2 := True), op_node := (op_node s2)(2 := erase_node T (Some 1)), mod_info := ?mi 2\<rparr>"
  have 3: "e_opera_add m T 4096 s2 = Some (0, s3)"
    using e_cycle_other [where s = s2 and m = m and S = S and T = T] assms(1,5) by (simp add: s3_def) (simp add: s2_def s1_def)
  obtain s4 where 4: "e_opera_add m S 4096 s3 = Some (0, s4)" "opera_info (mod_info s4 m) = Some 0" "op_next (op_node s4 0) = Some 2"
    "op_next (op_node s4 2) = Some 0" "same_api s3 s4" "\<forall>k. k \<noteq> m \<longrightarrow> mod_info s4 k = mod_info s3 k"
    using e_cycle_again [where s = s3 and m = m and S = S and T = T and n = "length d"] assms(5) by (auto simp: s3_def s2_def s1_def)
  have "\<exists>x. (mod_info s m)\<lparr>opera_info := Some i\<rparr> = (mod_info s m)\<lparr>opera_info := x\<rparr>" "\<exists>x. mod_info s k = (mod_info s k)\<lparr>opera_info := x\<rparr>" for i k
    by (blast, rule exI [of _ "opera_info (mod_info s k)"], simp)
  then have sa: "same_api s s1" "same_api s s2" "same_api s s3" by (simp_all add: same_api_def s3_def s2_def s1_def)
  have "\<exists>x. mod_info s4 k = (mod_info s k)\<lparr>opera_info := x\<rparr>" for k
  proof -
    obtain x y where "mod_info s4 k = (mod_info s3 k)\<lparr>opera_info := x\<rparr>" "mod_info s3 k = (mod_info s k)\<lparr>opera_info := y\<rparr>"
      using 4(5) sa(3) unfolding same_api_def by blast
    then have "mod_info s4 k = (mod_info s k)\<lparr>opera_info := x\<rparr>" by simp
    then show ?thesis by blast
  qed
  then have "same_api s s4" using sa(3) 4(5) by (simp add: same_api_def)
  moreover have "get_ew_count m s4 = None" using count_loop_cycle [OF 4(3,4)] 4(2) by (simp add: get_ew_count_def)
  moreover have "mod_info s4 k = mod_info s k" if "k \<noteq> m" for k using 4(6) that by (simp add: s3_def s2_def s1_def)
  ultimately show ?thesis using 1 2 3 4(1) sa by blast
qed

text \<open>
  C9. Erase a sector, write to it, erase another sector, and erase the first one again, all queued before the
  system has been idle: every call returns \<open>OK\<close>, but the last erase takes out two neighbours in the list and
  leaves the node behind the second one linked, although it is free; the new erase gets this very node, and the list of the module leads back
  to its head. The next sleep hook never returns, nor does the question whether the buffer is free.
\<close>

theorem norflash_api_erase_leaves_cycle:
  assumes "holds s M" "pending_ops s = 0" "cur_mod s = None" "sector_range s m S 4096" "sector_range s m T 4096" "S \<noteq> T"
    and "sector_range s m S (length d)"
  shows "\<exists>s1 s2 s3 s4. norflash_api_erase m S 4096 True s = Some (NORFLASH_API_OK, s1) \<and>
    norflash_api_write m S d True s1 = Some (NORFLASH_API_OK, s2) \<and>
    norflash_api_erase m T 4096 True s2 = Some (NORFLASH_API_OK, s3) \<and>
    norflash_api_erase m S 4096 True s3 = Some (NORFLASH_API_OK, s4) \<and>
    norflash_api_flush s4 = None \<and> norflash_api_buffer_is_free m s4 = None"
proof -
  obtain Ls F where r: "inv s Ls F" using holds_cases [OF assms(1)] by metis
  note np = nothing_pending [OF r assms(2)]
  have us: "user s m" and d: "length d \<le> 4096" "S mod 4096 = 0" using assms(4,7) by (auto simp: sector_range_def)
  have m: "m < 8" "mod_inited (mod_info s m)" "api_inited s" using us r by (simp_all add: user_def inv_def)
  have mo: "mod_ok (tot s) (mod_info s m)" by (rule holds_mod [OF r us])
  have sl: "mod_sector_len (mod_info s m) = 4096" using mo by (simp add: mod_ok_def)
  obtain s1 s2 s3 s4 where op: "e_opera_add m S 4096 s = Some (0, s1)" "w_opera_add m S d s1 = Some (0, s2)"
    "e_opera_add m T 4096 s2 = Some (0, s3)" "e_opera_add m S 4096 s3 = Some (0, s4)"
    and sa: "same_api s s1" "same_api s s2" "same_api s s3" "same_api s s4"
    and cyc: "\<forall>k. k \<noteq> m \<longrightarrow> mod_info s4 k = mod_info s k" "get_ew_count m s4 = None"
    using erase_cycle_ops [where s = s and m = m and S = S and T = T and d = d] np(2,3) np(4) [OF m(1)] sl assms(6) d by blast
  note eqs = same_apiD [OF sa(1)] same_apiD [OF sa(2)] same_apiD [OF sa(3)] same_apiD [OF sa(4)]
  have "norflash_api_erase m S 4096 True s = Some (NORFLASH_API_OK, s1)" by (rule erase_call [OF m(3) assms(4) mo op(1)])
  moreover have "norflash_api_write m S d True s1 = Some (NORFLASH_API_OK, s2)"
    by (rule write_call [OF _ _ _ op(2), where N = "tot s"]) (simp_all add: eqs assms(7) m(3) mo)
  moreover have "norflash_api_erase m T 4096 True s2 = Some (NORFLASH_API_OK, s3)"
    by (rule erase_call [OF _ _ _ op(3), where N = "tot s"]) (simp_all add: eqs assms(5) m(3) mo)
  moreover have "norflash_api_erase m S 4096 True s3 = Some (NORFLASH_API_OK, s4)"
    by (rule erase_call [OF _ _ _ op(4), where N = "tot s"]) (simp_all add: eqs assms(4) m(3) mo)
  moreover have "cur_mod_loop 8 (cur_mod_id s4) s4 = None"
    by (rule cur_mod_loop_stuck [OF _ _ cyc(2) turn_all [OF m(1)]]) (use cyc(1) np(4) m(2) in \<open>simp_all add: eqs\<close>)
  ultimately show ?thesis using m(1,2,3) cyc(2) assms(3)
    by (intro exI [of _ s1] exI [of _ s2] exI [of _ s3] exI [of _ s4]) (simp add: norflash_api_flush_def get_cur_mod_def norflash_api_buffer_is_free_def eqs)
qed

section \<open>Writing to a sector while it is being written\<close>

lemma writing_tail:
  assumes "inv s Ls F" "user s m" "sector_writing s m S"
  shows "w_find_loop s S (opera_info (mod_info s m)) = Some None"
proof -
  have ch: "chain (op_node s) (opera_info (mod_info s m)) (Ls m)" by (rule user_chain [OF assms(1,2)])
  obtain i where i: "find (\<lambda>i. op_addr (op_node s i) = S) (Ls m) = Some i" "is_w s i" "op_lock (op_node s i)"
    using assms(3) by (auto simp: sector_writing_def find_loop_chain [OF ch] split: option.splits)
  obtain A B where AB: "Ls m = A @ i # B" "\<forall>k \<in> set A. op_addr (op_node s k) \<noteq> S" using find_op_split [OF i(1)] by blast
  have "B = []"
  proof (rule ccontr)
    assume "B \<noteq> []"
    then have "i \<in> set (butlast (Ls m))" by (simp add: AB(1) butlast_append)
    with busy_last [OF assms(1)] i(3) show False by blast
  qed
  then show ?thesis using AB i(2,3) by (auto simp: w_find_loop_chain [OF ch] find_None_iff is_w_def)
qed

text \<open>
  A write to a sector for which a write is under way is accepted too, but its buffer is filled from the
  flash in the middle of the programming: the rest of the sector reads back as the cells happen to read at that moment, not
  as what has been written before.
\<close>

theorem norflash_api_write_under_way_stale:
  assumes "holds s M" "sector_range s m a (length d)" "sector_writing s m (a div 4096 * 4096)" "\<exists>i<15. \<not> op_used s i" "\<exists>b<4. \<not> data_used s b"
    and "sector_range s m x 1" "x div 4096 = a div 4096" "x < a \<or> a + length d \<le> x"
  shows "\<exists>s'. norflash_api_write m a d True s = Some (NORFLASH_API_OK, s') \<and> norflash_api_read m x 1 s' = Some (NORFLASH_API_OK, [flash_byte s x])"
proof -
  obtain Ls F where r: "inv s Ls F" using holds_cases [OF assms(1)] by metis
  have us: "user s m" and n: "a mod 4096 + length d \<le> 4096" using assms(2) by (simp_all add: sector_range_def)
  have mo: "mod_ok (tot s) (mod_info s m)" by (rule holds_mod [OF r us])
  then have len: "mod_sector_len (mod_info s m) = 4096" by (simp add: mod_ok_def)
  let ?S = "a div 4096 * 4096"
  from w_opera_add_new [OF len n writing_tail [OF r us assms(3)]] assms(4,5) obtain i b where
    w: "w_opera_add m a d s = Some (0, s\<lparr>op_used := (op_used s)(i := True), data_used := (data_used s)(b := True),
        data_buf := (data_buf s)(b := patch (a mod 4096) d (overlay 0 4096 (\<lambda>x. flash_byte s (?S + x)) (data_buf s b))),
        op_node := (op_node s)(i := write_node ?S (a mod 4096) (length d) b (opera_info (mod_info s m))),
        mod_info := (mod_info s)(m := (mod_info s m)\<lparr>opera_info := Some i\<rparr>)\<rparr>)" (is "_ = Some (0, ?s)") by auto
  have x: "x - ?S = x mod 4096" "?S + x mod 4096 = x" using assms(7) by (simp_all add: minus_div_mult_eq_mod flip: assms(7))
  have a: "?S + a mod 4096 = a" by simp
  then have "\<not> (a mod 4096 \<le> x mod 4096 \<and> x mod 4096 < a mod 4096 + length d)" using assms(8) x(2) by linarith
  moreover have "x mod 4096 \<le> 4095" using mod_less_divisor [of 4096 x] by linarith
  ultimately have "opera_read m x 1 ?s = Some [flash_byte s x]"
    using x len by (auto simp: opera_read_def sector_start_def assms(7) find_loop.simps write_node_def data_get_def overlay_def)
  moreover have "norflash_api_write m a d True s = Some (NORFLASH_API_OK, ?s)"
    by (rule write_call [OF _ assms(2) mo w]) (use r in \<open>simp add: inv_def\<close>)
  moreover have "\<not> out_of_range (mod_info s m) x 1" using sector_rangeD(5) [OF assms(6) mo] .
  then have "\<not> out_of_range (mod_info ?s m) x 1" by (simp add: out_of_range_def)
  ultimately show ?thesis using r us by (intro exI [of _ ?s]) (simp add: norflash_api_read_def user_def inv_def)
qed

section \<open>Ranges over the end of a sector\<close>

text \<open>
  A queued write over the end of a sector is not refused: the range check passes, and the bytes are copied
  past the end of the sector buffer, of a queued write or a new one. (A synchronous write of the same range
  is carried out.)
\<close>

theorem norflash_api_write_overruns_buffer:
  assumes "holds s M" "module_range s m a (length d)" "4096 < a mod 4096 + length d" "\<exists>i<15. \<not> op_used s i" "\<exists>b<4. \<not> data_used s b"
  shows "norflash_api_write m a d True s = None"
proof -
  obtain Ls F where r: "inv s Ls F" using holds_cases [OF assms(1)] by metis
  have us: "user s m" "d \<noteq> []" using assms(2) by (auto simp: module_range_def)
  have mo: "mod_ok (tot s) (mod_info s m)" by (rule holds_mod [OF r us(1)])
  then have len: "mod_sector_len (mod_info s m) = 4096" by (simp add: mod_ok_def)
  have ch: "chain (op_node s) (opera_info (mod_info s m)) (Ls m)" by (rule user_chain [OF r us(1)])
  have off: "a - a div 4096 * 4096 = a mod 4096" by (simp add: minus_div_mult_eq_mod)
  have put: "data_put b (a mod 4096) d t = None" for b t using assms(3) by (cases b) (simp_all add: data_put_def)
  obtain i where i: "norflash_api_malloc_op s = (Some i, s\<lparr>op_used := (op_used s)(i := True)\<rparr>)" using malloc_op_cases [of s] assms(4) by auto
  let ?t = "set_node i (\<lambda>n. n\<lparr>op_type := NORFLASH_API_WRITTING, op_addr := a div 4096 * 4096, op_len := 4096,
    w_offs := a mod 4096, w_len := length d\<rparr>) (s\<lparr>op_used := (op_used s)(i := True)\<rparr>)"
  have "data_used ?t = data_used s" by (simp add: set_node_def)
  then obtain b t where b: "norflash_api_malloc_data 4096 ?t = (Some b, t)" using malloc_data_cases [of ?t] assms(5) by auto
  obtain node where wf: "w_find_loop s (a div 4096 * 4096) (opera_info (mod_info s m)) = Some node" using w_find_loop_chain [OF ch] by blast
  have "w_opera_add m a d s = None"
  proof (cases node)
    case None
    then show ?thesis using i b by (simp add: w_opera_add_def sector_start_def len off wf Let_def put)
  next
    case (Some k)
    then show ?thesis using i b
      by (cases "op_type (op_node s k)") (simp_all add: w_opera_add_def sector_start_def len off wf Let_def put w_merge_def)
  qed
  moreover have "\<not> out_of_range (mod_info s m) a (length d)"
    using assms(2) mo by (simp add: out_of_range_def module_range_def mod_ok_def add32_def)
  ultimately show ?thesis using r us by (simp add: norflash_api_write_def user_def inv_def)
qed

section \<open>Counting what is free\<close>

definition writes_queued :: "api \<Rightarrow> nat" where
  "writes_queued s = length (filter (\<lambda>i. op_used s i \<and> is_w s i) [0..<15])"

lemma sum_mods_eq:
  "(\<And>m. m \<in> set ms \<Longrightarrow> (if mod_inited (mod_info s m) then f m s else Some 0) = Some (g m)) \<Longrightarrow>
     sum_mods f ms c s = Some (c + (\<Sum>m\<leftarrow>ms. g m))"
proof (induction ms arbitrary: c)
  case (Cons m ms)
  have "(if mod_inited (mod_info s m) then f m s else Some 0) = Some (g m)" by (rule Cons.prems) simp
  moreover have "sum_mods f ms (c + g m) s = Some (c + g m + (\<Sum>m\<leftarrow>ms. g m))" by (rule Cons.IH) (rule Cons.prems, simp)
  ultimately show ?case by (simp add: add.assoc)
qed simp

lemma queued_sum:
  assumes "inv s Ls F"
  shows "(\<Sum>m\<leftarrow>[0..<8]. length (filter P (Ls m))) = length (filter (\<lambda>i. op_used s i \<and> P i) [0..<15])"
proof -
  have l: "lists_ok s Ls" "pools_ok s Ls" using assms by (simp_all add: inv_def)
  have "(\<Sum>m\<leftarrow>[0..<8]. length (filter P (Ls m))) = (\<Sum>m<8. length (filter P (Ls m)))"
    by (simp add: sum_list_distinct_conv_sum_set atLeast0LessThan)
  also have "\<dots> = (\<Sum>m<8. card (set (filter P (Ls m))))"
    by (rule sum.cong [OF refl], rule distinct_card [symmetric], rule distinct_filter, rule inv_distinct [OF assms])
  also have "\<dots> = card (\<Union>m<8. set (filter P (Ls m)))"
    by (rule card_UN_disjoint [symmetric]) (use lists_apart [OF l(1)] in auto)
  also have "(\<Union>m<8. set (filter P (Ls m))) = set (filter (\<lambda>i. op_used s i \<and> P i) [0..<15])"
    using l(2) inv_mod [OF assms] by (auto simp: pools_ok_def)
  also have "card \<dots> = length (filter (\<lambda>i. op_used s i \<and> P i) [0..<15])" by (rule distinct_card) simp
  finally show ?thesis .
qed

lemma count_mods:
  assumes "inv s Ls F"
  shows "sum_mods (\<lambda>m s. count_loop P s 0 (opera_info (mod_info s m))) [0..<8] c s =
    Some (c + length (filter (\<lambda>i. op_used s i \<and> P (op_node s i)) [0..<15]))"
proof -
  have l: "lists_ok s Ls" "mods_ok s Ls" using assms by (simp_all add: inv_def)
  have "sum_mods (\<lambda>m s. count_loop P s 0 (opera_info (mod_info s m))) [0..<8] c s =
      Some (c + (\<Sum>m\<leftarrow>[0..<8]. length (filter (\<lambda>i. P (op_node s i)) (Ls m))))"
  proof (rule sum_mods_eq)
    fix m assume m: "m \<in> set [0..<8]"
    then have "chain (op_node s) (opera_info (mod_info s m)) (Ls m)" using l(1) by (simp add: lists_ok_def)
    moreover have "\<not> mod_inited (mod_info s m) \<Longrightarrow> Ls m = []" using l(2) m by (simp add: mods_ok_def)
    ultimately show "(if mod_inited (mod_info s m) then count_loop P s 0 (opera_info (mod_info s m)) else Some 0) =
        Some (length (filter (\<lambda>i. P (op_node s i)) (Ls m)))" by (auto simp: count_loop_chain)
  qed
  with queued_sum [OF assms] show ?thesis by simp
qed

lemma writes_bound:
  assumes "inv s Ls F"
  shows "writes_queued s \<le> 4"
proof -
  have l: "pools_ok s Ls" "mods_ok s Ls" using assms by (simp_all add: inv_def)
  let ?W = "set (filter (\<lambda>i. op_used s i \<and> is_w s i) [0..<15])"
  have b: "\<exists>b<4. op_buff (op_node s i) = Some b" if "i \<in> ?W" for i
  proof -
    have "op_used s i" using that by simp
    then obtain m where "i \<in> set (Ls m)" using l(1) unfolding pools_ok_def by blast
    then show ?thesis using op_ok_in [OF assms, of i m] that by (auto simp: op_ok_def is_w_def)
  qed
  have "inj_on (\<lambda>i. the (op_buff (op_node s i))) ?W"
  proof (rule inj_onI)
    fix i j assume ij: "i \<in> ?W" "j \<in> ?W" "the (op_buff (op_node s i)) = the (op_buff (op_node s j))"
    then obtain b where "op_buff (op_node s i) = Some b" "op_buff (op_node s j) = Some b" using b by fastforce
    then show "i = j" using ij(1,2) l(1) unfolding pools_ok_def by auto
  qed
  then have "card ?W \<le> card {..<4 :: nat}" by (rule card_inj_on_le) (use b in fastforce, simp)
  then show ?thesis using distinct_card [of "filter (\<lambda>i. op_used s i \<and> is_w s i) [0..<15]"] by (simp add: writes_queued_def)
qed

text \<open>
  What \<open>norflash_api_get_free_buffer_count\<close> counts: nodes, not buffers. With at most four writes queued it never
  says that less than eleven writes find room, also when all four buffers are in use; and asked for
  both kinds it counts the free nodes twice, so that with an empty queue of fifteen nodes it says thirty.
\<close>

theorem norflash_api_get_free_buffer_count_nodes:
  assumes "holds s M"
  shows "norflash_api_get_free_buffer_count 1 s = Some (15 - writes_queued s) \<and> writes_queued s \<le> 4 \<and>
    norflash_api_get_free_buffer_count 2 s = Some (15 - (pending_ops s - writes_queued s)) \<and>
    norflash_api_get_free_buffer_count 3 s = Some (15 - writes_queued s + (15 - pending_ops s)) \<and>
    writes_queued s \<le> pending_ops s \<and> pending_ops s \<le> 15"
proof -
  obtain Ls F where r: "inv s Ls F" using holds_cases [OF assms(1)] by metis
  let ?U = "filter (op_used s) [0..<15]"
  have e: "length (filter (\<lambda>i. op_used s i \<and> op_type (op_node s i) = NORFLASH_API_ERASING) [0..<15]) = pending_ops s - writes_queued s"
    and le: "writes_queued s \<le> pending_ops s"
  proof -
    have "filter (\<lambda>i. \<not> is_w s i) ?U = filter (\<lambda>i. op_used s i \<and> op_type (op_node s i) = NORFLASH_API_ERASING) [0..<15]"
      by (simp add: is_w_def) (metis NORFLASH_API_OPRATION_TYPE.exhaust NORFLASH_API_OPRATION_TYPE.distinct(1))
    with sum_length_filter_compl [of "is_w s" ?U]
    show "length (filter (\<lambda>i. op_used s i \<and> op_type (op_node s i) = NORFLASH_API_ERASING) [0..<15]) = pending_ops s - writes_queued s"
      "writes_queued s \<le> pending_ops s" by (simp_all add: writes_queued_def pending_ops_def conj_commute)
  qed
  have w: "sum_mods get_w_count [0..<8] 0 s = Some (writes_queued s)"
    using count_mods [OF r, of "\<lambda>n. op_type n = NORFLASH_API_WRITTING" 0] unfolding get_w_count_def writes_queued_def is_w_def by simp
  have c: "sum_mods get_e_count [0..<8] c s = Some (c + (pending_ops s - writes_queued s))" for c
    using count_mods [OF r, of "\<lambda>n. op_type n = NORFLASH_API_ERASING" c] unfolding get_e_count_def e by simp
  show ?thesis using w c le writes_bound [OF r] pending_bound [of s] by (simp add: norflash_api_get_free_buffer_count_def)
qed

section \<open>The limits at the instance\<close>

lemma write_page_suspended:
  assumes "geom h" "running (chip h) = None" "polls (chip h) = WIP_1 True torn # ps" "0 < n" "a mod 256 + n \<le> 256"
  shows "\<exists>f. write_loop ram True n a p HAL_NORFLASH_OK h = Some (HAL_NORFLASH_SUSPENDED, 0, add32 a n, (fst p, snd p + n),
    h\<lparr>chip := (chip h)\<lparr>cells := overlay (off a div 256 * 256) 256 torn (cells (chip h)), running := Some (off a div 256 * 256, 256, f), polls := ps\<rparr>\<rparr>)"
proof -
  have g: "page_size h = 256" using assms(1) by (simp add: geom_def)
  have w: "\<not> 256 < n" "\<not> 256 - a mod 256 < n" using assms(5) by auto
  have n: "n \<le> 256" using w(1) by simp
  define f where "f = page_program (off a) (chunk ram p n) (cells (chip h))"
  have f: "norflash_write a (chunk ram p n) True (chip h) = Some (HAL_NORFLASH_SUSPENDED,
      (chip h)\<lparr>cells := overlay (off a div 256 * 256) 256 torn (cells (chip h)), running := Some (off a div 256 * 256, 256, f), polls := ps\<rparr>)"
    using assms(2,3) n by (cases "chip h")
      (simp add: norflash_write_def chip_program_def chip_start_def Let_def mask24 norflash_status_WIP_1_wait_def chip_tear_def f_def)
  have "write_loop ram True n a p HAL_NORFLASH_OK h = write_loop ram True 0 (add32 a n) (fst p, snd p + n) HAL_NORFLASH_SUSPENDED
    (h\<lparr>chip := (chip h)\<lparr>cells := overlay (off a div 256 * 256) 256 torn (cells (chip h)), running := Some (off a div 256 * 256, 256, f), polls := ps\<rparr>\<rparr>)"
    using assms(4) f by (subst write_loop.simps) (simp add: g mask_page Let_def w)
  then show ?thesis by (intro exI [of _ f]) (simp add: write_loop.simps)
qed

lemma demo_begun:
  "\<exists>f. w_opera_add 0 1006702596 [170, 85] (demo_api ps) = Some (0, (demo_api ps)\<lparr>op_used := (\<lambda>_. False)(0 := True), data_used := (\<lambda>_. False)(0 := True),
     data_buf := (data_buf (demo_api ps))(0 := f), op_node := (op_node (demo_api ps))(0 := write_node 1006702592 4 2 0 None),
     mod_info := (mod_info (demo_api ps))(0 := demo_module\<lparr>opera_info := Some 0\<rparr>)\<rparr>)"
proof -
  have sel: "op_used (demo_api ps) = (\<lambda>_. False)" "data_used (demo_api ps) = (\<lambda>_. False)" "mod_info (demo_api ps) 0 = demo_module"
    "mod_sector_len demo_module = 4096" "opera_info demo_module = None"
    by (simp_all add: demo_api_def demo_module_def)
  have "norflash_api_malloc_op (demo_api ps) = (Some 0, (demo_api ps)\<lparr>op_used := (\<lambda>_. False)(0 := True)\<rparr>)"
    using malloc_first [of 0 "demo_api ps"] by (simp add: sel)
  then show ?thesis
    by (intro exI) (simp add: w_opera_add_def sector_start_def sel Let_def w_find_loop.simps set_node_def set_data_def set_mod_def malloc_data_first
      data_put_def write_node_upd numeral_2_eq_2)
qed


lemma demo_suspended:
  "\<exists>s s'. norflash_api_write 0 1006702596 [170, 85] True (demo_api (WIP_1 True (\<lambda>_. 7) # replicate 270 WIP_0)) = Some (NORFLASH_API_OK, s) \<and>
     norflash_api_flush s = Some (1, s') \<and> holds s' demo_memory \<and> sector_writing s' 0 1006702592 \<and> flash_byte s' 1006702597 = 7 \<and>
     op_used s' = (\<lambda>_. False)(0 := True) \<and> data_used s' = (\<lambda>_. False)(0 := True) \<and> sector_range s' = sector_range s"
proof -
  let ?ps = "WIP_1 True (\<lambda>_. 7) # replicate 270 WIP_0"
  let ?s = "demo_api ?ps"
  obtain t where w: "w_opera_add 0 1006702596 [170, 85] ?s = Some (0, t)"
    and t: "op_used t = (\<lambda>_. False)(0 := True)" "data_used t = (\<lambda>_. False)(0 := True)" "op_node t 0 = write_node 1006702592 4 2 0 None"
      "mod_info t 0 = demo_module\<lparr>opera_info := Some 0\<rparr>" "flash_hal t = demo_flash ?ps" "cur_mod t = None" "cur_mod_id t = 8" "api_inited t"
    using demo_begun [of ?ps] by (elim exE) (rule that, assumption, simp_all add: demo_api_def)
  have wr: "norflash_api_write 0 1006702596 [170, 85] True ?s = Some (NORFLASH_API_OK, t)"
    using w by (simp add: norflash_api_write_def) (simp add: out_of_range_def add32_def)
  have q: "quiet ?s t" and ht: "holds t demo_memory" using demo_written [of ?ps] wr by simp_all
  have en: "enough t" using quiet_enough(1) [OF q] by (simp add: ready_replicate)
  obtain Ls F where r: "inv t Ls F" using holds_cases [OF ht] by metis
  have us: "user t 0" using quiet_range(1) [OF q] by simp
  have "chain (op_node t) (opera_info (mod_info t 0)) [0]" by (simp add: t write_node_def)
  with user_chain [OF r us] have L: "Ls 0 = [0]" using chain_unique by blast
  have gc: "get_cur_mod t = Some (Some 0)"
    using L by (simp add: get_cur_mod_def t cur_mod_loop_turn [OF r] eval_nat_numeral)
  define u where "u = t\<lparr>cur_mod_id := get_mod_id 0, cur_mod := Some 0\<rparr>"
  have "busy t = None" by (simp add: busy_def t)
  then have i: "inv u Ls F" unfolding u_def using us by (intro inv_cur(1) [OF r]) simp
  have b: "busy u = None" by (simp add: busy_def u_def t demo_module_def)
  let ?h = "demo_flash ?ps"
  have g: "geom ?h" "running (chip ?h) = None" "polls (chip ?h) = WIP_1 True (\<lambda>_. 7) # replicate 270 WIP_0"
    by (simp_all add: demo_flash_def geom_def)
  have ds: "opened ?h" "suspend_state ?h = SUSPEND_STATE_NO" "suspend_mode ?h" "cells (chip ?h) = (\<lambda>_. 255)" by (simp_all add: demo_flash_def)
  obtain f where wl: "write_loop (ram_of u []) True 2 1006702596 (DATA 0, 4) HAL_NORFLASH_OK ?h =
    Some (HAL_NORFLASH_SUSPENDED, 0, add32 1006702596 2, (DATA 0, 6),
    ?h\<lparr>chip := (chip ?h)\<lparr>cells := overlay 69632 256 (\<lambda>_. 7) (cells (chip ?h)), running := Some (69632, 256, f), polls := replicate 270 WIP_0\<rparr>\<rparr>)"
    using write_page_suspended [OF g, of 2 1006702596 "ram_of u []" "(DATA 0, 4)"] by auto
  define h1 where "h1 = ?h\<lparr>chip := (chip ?h)\<lparr>cells := overlay 69632 256 (\<lambda>_. 7) (cells (chip ?h)), running := Some (69632, 256, f), polls := replicate 270 WIP_0\<rparr>\<rparr>"
  define h2 where "h2 = h1\<lparr>suspend_state := SUSPEND_STATE_PROGRAM, op_next_addr := add32 1006702596 2, op_next_buf := (DATA 0, 6), op_remain_len := 0\<rparr>"
  have "hal_norflash_check 1006702596 2 ?h = HAL_NORFLASH_OK" by (rule hal_check_ok) simp_all
  then have hs: "hal_norflash_write_suspend (ram_of u []) 1006702596 (DATA 0, 4) 2 True ?h = Some (HAL_NORFLASH_SUSPENDED, h2)"
    using wl by (simp add: hal_norflash_write_suspend_def hal_norflash_write_int_def ds h1_def h2_def)
  define s' where "s' = set_mod 0 (mod_state_update (\<lambda>_. NORFLASH_API_STATE_WRITTING_SUSPEND)) ((begun 0 0 u)\<lparr>flash_hal := h2, suspend_number := 0\<rparr>)"
  have "flush_call 0 (op_node (begun 0 0 u) 0) True (begun 0 0 u) = Some (HAL_NORFLASH_SUSPENDED, (begun 0 0 u)\<lparr>flash_hal := h2, suspend_number := 0\<rparr>)"
    using hs by (simp add: flush_call_def u_def t write_node_def demo_module_def)
  moreover have "op_type (op_node u 0) = NORFLASH_API_WRITTING" by (simp add: u_def t write_node_def)
  ultimately have "opera_flush 0 False u = Some (True, s')"
    using flush_begin [OF i, of 0] L b by (simp add: opera_flush_def s'_def)
  then have fl: "norflash_api_flush t = Some (1, s')" using gc by (simp add: norflash_api_flush_def t u_def Let_def)
  obtain s1 where "holds s1 demo_memory" "s1 = s'" "same_places t s1" using flush_holds [OF ht en] fl by auto
  then have hd: "holds s' demo_memory" and sp: "same_places t s'" by simp_all
  have s': "op_used s' = (\<lambda>_. False)(0 := True)" "data_used s' = (\<lambda>_. False)(0 := True)" "opera_info (mod_info s' 0) = Some 0"
    "op_node s' 0 = (write_node 1006702592 4 2 0 None)\<lparr>op_lock := True\<rparr>" "flash_hal s' = h2"
    by (simp_all add: s'_def set_mod_def u_def t)
  have "sector_writing s' 0 1006702592"
    by (simp add: sector_writing_def s' find_loop.simps write_node_def is_w_def)
  moreover have "flash_byte s' 1006702597 = 7"
    by (simp add: flash_byte_def s' h2_def h1_def masks overlay_def)
  moreover have "sector_range s' = sector_range t"
    using sp same_places_user(1) [OF sp] by (simp add: sector_range_def same_places_def same_place_def fun_eq_iff)
  ultimately show ?thesis using wr fl hd s' by blast
qed

theorem norflash_api_erase_leaves_cycle_witness:
  "\<exists>s1 s2 s3 s4. norflash_api_erase 0 1006702592 4096 True (demo_api []) = Some (NORFLASH_API_OK, s1) \<and>
    norflash_api_write 0 1006702592 [1] True s1 = Some (NORFLASH_API_OK, s2) \<and>
    norflash_api_erase 0 1006706688 4096 True s2 = Some (NORFLASH_API_OK, s3) \<and>
    norflash_api_erase 0 1006702592 4096 True s3 = Some (NORFLASH_API_OK, s4) \<and> norflash_api_flush s4 = None"
proof -
  have "sector_range (demo_api []) 0 1006702592 4096" "sector_range (demo_api []) 0 1006706688 4096"
    "sector_range (demo_api []) 0 1006702592 (length [1 :: byte])" by (simp_all add: demo_range)
  from norflash_api_erase_leaves_cycle [OF demo_holds _ _ this(1,2) _ this(3)] show ?thesis by auto
qed

theorem norflash_api_write_under_way_stale_witness:
  "\<exists>s s1 s2. norflash_api_write 0 1006702596 [170, 85] True (demo_api (WIP_1 True (\<lambda>_. 7) # replicate 270 WIP_0)) = Some (NORFLASH_API_OK, s) \<and>
     norflash_api_flush s = Some (1, s1) \<and> holds s1 demo_memory \<and>
     norflash_api_write 0 1006703000 [1] True s1 = Some (NORFLASH_API_OK, s2) \<and>
     norflash_api_read 0 1006702597 1 s2 = Some (NORFLASH_API_OK, [7])"
proof -
  let ?ps = "WIP_1 True (\<lambda>_. 7) # replicate 270 WIP_0"
  obtain s s1 where s: "norflash_api_write 0 1006702596 [170, 85] True (demo_api ?ps) = Some (NORFLASH_API_OK, s)"
    "norflash_api_flush s = Some (1, s1)" "holds s1 demo_memory" "sector_writing s1 0 1006702592" "flash_byte s1 1006702597 = 7"
    "op_used s1 = (\<lambda>_. False)(0 := True)" "data_used s1 = (\<lambda>_. False)(0 := True)" "sector_range s1 = sector_range s"
    using demo_suspended by blast
  have q: "quiet (demo_api ?ps) s" using demo_written [of ?ps] s(1) by simp
  have p: "same_place (mod_info (demo_api ?ps) 0) (mod_info s 0)" using q by (simp add: quiet_def)
  have rg: "sector_range s1 0 1006703000 (length [1 :: byte])" "sector_range s1 0 1006702597 1"
    using quiet_range(1) [OF q] p by (simp_all add: s(8) sector_range_def same_place_def)
  have "\<exists>i<15. \<not> op_used s1 i" "\<exists>b<4. \<not> data_used s1 b" by (rule exI [of _ 1], simp add: s(6,7))+
  from norflash_api_write_under_way_stale [OF s(3) rg(1) _ this rg(2)] s(4) obtain s2 where
    "norflash_api_write 0 1006703000 [1] True s1 = Some (NORFLASH_API_OK, s2)"
    "norflash_api_read 0 1006702597 1 s2 = Some (NORFLASH_API_OK, [flash_byte s1 1006702597])" by auto
  with s(1-3,5) show ?thesis by auto
qed

theorem norflash_api_write_overruns_buffer_witness:
  "norflash_api_write 0 1006702590 [170, 85, 60, 7] True (demo_api []) = None"
proof (rule norflash_api_write_overruns_buffer [OF demo_holds])
  show "\<exists>i<15. \<not> op_used (demo_api []) i" "\<exists>b<4. \<not> data_used (demo_api []) b" by (rule exI [of _ 0], simp)+
qed (simp_all add: module_range_def)

theorem norflash_api_get_free_buffer_count_nodes_witness:
  "norflash_api_get_free_buffer_count 3 (demo_api []) = Some 30"
proof -
  have "writes_queued (demo_api []) = 0" by (simp add: writes_queued_def)
  with norflash_api_get_free_buffer_count_nodes [OF demo_holds, of "[]"] show ?thesis by simp
qed

end
