(* ===== verification/LogDump.thy ===== *)
theory LogDump
  imports FlashContract
begin

unbundle bit_operations_syntax

text \<open>
  The trace log kept in flash: the active half of
  \<open>services/nv_section/log_section/log_section.c\<close>. Trace output is collected in two buffers of one sector each,
  every sector starting with a header that carries a running number; the sleep hook writes full
  buffers to the flash, as module \<open>TRACE_DUMP\<close> of the flash queue, one sector after the other round the
  region. After a restart the headers in the flash tell where to go on.

  \<open>None\<close> is a failing assertion, an access outside a buffer, or a loop that never ends. The pausing of the
  trace and the traces the code itself makes are not modelled; \<open>buf\<close> stands for the memory from the pointer on.
\<close>

section \<open>Data\<close>

abbreviation NORFLASH_API_MODULE_ID_TRACE_DUMP :: nat where "NORFLASH_API_MODULE_ID_TRACE_DUMP \<equiv> 0"
abbreviation LOG_DUMP_SECTOR_SIZE :: nat where "LOG_DUMP_SECTOR_SIZE \<equiv> 4096"
abbreviation LOG_DUMP_SECTOR_BUFFER_COUNT :: nat where "LOG_DUMP_SECTOR_BUFFER_COUNT \<equiv> 2"
abbreviation LOG_DUMP_BUFFER_LEN :: nat where "LOG_DUMP_BUFFER_LEN \<equiv> 8192"
abbreviation LOG_DUMP_NORFALSH_BUFFER_LEN :: nat where "LOG_DUMP_NORFALSH_BUFFER_LEN \<equiv> 16384"
abbreviation DATA_BUFFER_STATE_FREE :: nat where "DATA_BUFFER_STATE_FREE \<equiv> 0"
abbreviation DATA_BUFFER_STATE_WRITTING :: nat where "DATA_BUFFER_STATE_WRITTING \<equiv> 1"
abbreviation DATA_BUFFER_STATE_WRITTEN :: nat where "DATA_BUFFER_STATE_WRITTEN \<equiv> 2"
abbreviation DUMP_LOG_MAGIC :: u32 where "DUMP_LOG_MAGIC \<equiv> 0xd5151001"
abbreviation DUMP_LOG_VERSION :: u32 where "DUMP_LOG_VERSION \<equiv> 0x00010001"

datatype LOG_DUMP_FLUSH_STATE = LOG_DUMP_FLASH_STATE_IDLE | LOG_DUMP_FLASH_STATE_ERASED
  | LOG_DUMP_FLASH_STATE_WRITTING | LOG_DUMP_FLASH_STATE_WRITTEN

datatype HAL_TRACE_STATE_T = HAL_TRACE_STATE_CRASH_ASSERT_START | HAL_TRACE_STATE_CRASH_FAULT_START
  | HAL_TRACE_STATE_CRASH_END

record DATA_BUFFER =
  buf_state :: nat
  buf_offset :: nat
  buf_bytes :: "byte list"

text \<open>
  The variables of the file; \<open>flash_start_addr\<close> and \<open>flash_end_addr\<close> come from the linker, \<open>total_len\<close> is
  local to the flush, \<open>hooked\<close> says that the handlers and the sleep hook are set, \<open>dump_api\<close> is the flash queue.
\<close>

record log_dump =
  flash_start_addr :: nat
  flash_end_addr :: nat
  flash_len :: nat
  data_buffer_list :: "nat \<Rightarrow> DATA_BUFFER"
  w_seqnum :: nat
  f_seqnum :: nat
  flash_offs :: nat
  cur_dump_seqnum :: u32
  dump_is_init :: bool
  is_immediately :: bool
  flash_state :: LOG_DUMP_FLUSH_STATE
  total_len :: nat
  hooked :: bool
  dump_api :: api

definition log_header :: "u32 \<Rightarrow> byte list" where
  "log_header seqnum = u32_bytes DUMP_LOG_MAGIC @ u32_bytes DUMP_LOG_VERSION @ u32_bytes seqnum @ [0, 0, 0, 10]"

definition data_buff :: "nat \<Rightarrow> log_dump \<Rightarrow> DATA_BUFFER option" where
  "data_buff i d = (if i < LOG_DUMP_SECTOR_BUFFER_COUNT then Some (data_buffer_list d i) else None)"

definition next_buffer :: "nat \<Rightarrow> nat" where
  "next_buffer i = (if i + 1 = LOG_DUMP_SECTOR_BUFFER_COUNT then 0 else i + 1)"

section \<open>Calls of the flash queue\<close>

partial_function (option) flash_api_flush :: "api \<Rightarrow> api option" where
  "flash_api_flush s = do {
     (ret, s) \<leftarrow> norflash_api_flush s;
     free \<leftarrow> norflash_api_buffer_is_free NORFLASH_API_MODULE_ID_TRACE_DUMP s;
     if free then Some s else flash_api_flush s }"

text \<open>Retry while the queue is full; when a crash is being dumped, calls that may wait do nothing.\<close>

partial_function (option) flash_api_erase :: "bool \<Rightarrow> nat \<Rightarrow> bool \<Rightarrow> api \<Rightarrow> (NORFLASH_API_RET_T \<times> api) option" where
  "flash_api_erase immediately addr is_suspend s =
     (if immediately \<and> is_suspend then Some (NORFLASH_API_OK, s)
      else do {
        (ret, s) \<leftarrow> norflash_api_erase NORFLASH_API_MODULE_ID_TRACE_DUMP addr LOG_DUMP_SECTOR_SIZE is_suspend s;
        if ret = NORFLASH_API_OK then Some (ret, s)
        else if ret = NORFLASH_API_BUFFER_FULL then
          if immediately \<and> is_suspend then Some (ret, s)
          else do { s \<leftarrow> flash_api_flush s; flash_api_erase immediately addr is_suspend s }
        else None })"

partial_function (option) flash_api_write :: "bool \<Rightarrow> nat \<Rightarrow> byte list \<Rightarrow> bool \<Rightarrow> api \<Rightarrow> (NORFLASH_API_RET_T \<times> api) option" where
  "flash_api_write immediately addr d is_suspend s =
     (if immediately \<and> is_suspend then Some (NORFLASH_API_OK, s)
      else do {
        (ret, s) \<leftarrow> norflash_api_write NORFLASH_API_MODULE_ID_TRACE_DUMP addr d is_suspend s;
        if ret = NORFLASH_API_OK then Some (ret, s)
        else if ret = NORFLASH_API_BUFFER_FULL then
          if immediately \<and> is_suspend then Some (ret, s)
          else do { s \<leftarrow> flash_api_flush s; flash_api_write immediately addr d is_suspend s }
        else None })"

text \<open>The highest number in the region and its sector. The numbers are compared with \<open>>\<close>, starting at 0.\<close>

primrec seqnum_loop :: "log_dump \<Rightarrow> nat list \<Rightarrow> bool \<Rightarrow> u32 \<Rightarrow> nat \<Rightarrow> (bool \<times> u32 \<times> nat) option" where
  "seqnum_loop d [] is_existed max_dump max_sector = Some (is_existed, max_dump, max_sector)"
| "seqnum_loop d (i # is) is_existed max_dump max_sector = do {
     (result, h) \<leftarrow> norflash_sync_read NORFLASH_API_MODULE_ID_TRACE_DUMP
       (add32 (flash_start_addr d) (i * LOG_DUMP_SECTOR_SIZE)) 16 (dump_api d);
     if result \<noteq> NORFLASH_API_OK then None else do {
       magic \<leftarrow> get32 h 0; version \<leftarrow> get32 h 1; seqnum \<leftarrow> get32 h 2;
       if magic = DUMP_LOG_MAGIC \<and> version = DUMP_LOG_VERSION then
         if max_dump < seqnum then seqnum_loop d is True seqnum i
         else seqnum_loop d is True max_dump max_sector
       else seqnum_loop d is is_existed max_dump max_sector } }"

definition get_seqnum :: "log_dump \<Rightarrow> (u32 \<times> nat) option" where
  "get_seqnum d = do {
     let count = sub32 (flash_end_addr d) (flash_start_addr d) div LOG_DUMP_SECTOR_SIZE;
     (is_existed, max_dump, max_sector) \<leftarrow> seqnum_loop d [0..<count] False 0 0;
     Some (if is_existed then (max_dump + 1, if count \<le> max_sector + 1 then 0 else max_sector + 1) else (0, 0)) }"

section \<open>Writing buffers to the flash\<close>

definition flush_erase :: "bool \<Rightarrow> log_dump \<Rightarrow> (nat \<times> log_dump) option" where
  "flush_erase is_suspend d = do {
     (result, s) \<leftarrow> flash_api_erase (is_immediately d) (add32 (flash_start_addr d) (flash_offs d)) is_suspend (dump_api d);
     let d = d\<lparr>dump_api := s\<rparr>;
     Some (0, if result = NORFLASH_API_OK then d\<lparr>flash_state := LOG_DUMP_FLASH_STATE_ERASED\<rparr> else d) }"

definition flush_write :: "nat \<Rightarrow> bool \<Rightarrow> log_dump \<Rightarrow> (nat \<times> log_dump) option" where
  "flush_write buff_state is_suspend d = do {
     b \<leftarrow> data_buff (f_seqnum d) d;
     if buf_state b AND buff_state \<noteq> 0 \<and> 0 < buf_offset b then do {
       d \<leftarrow> Some (d\<lparr>flash_state := LOG_DUMP_FLASH_STATE_WRITTING\<rparr>);
       data \<leftarrow> (if buf_offset b \<le> length (buf_bytes b) then Some (take (buf_offset b) (buf_bytes b)) else None);
       (result, s) \<leftarrow> flash_api_write (is_immediately d) (add32 (flash_start_addr d) (flash_offs d)) data is_suspend (dump_api d);
       let d = d\<lparr>dump_api := s\<rparr>;
       if result = NORFLASH_API_OK then
         Some (0, d\<lparr>data_buffer_list := (data_buffer_list d)(f_seqnum d := b\<lparr>buf_state := DATA_BUFFER_STATE_FREE\<rparr>),
           f_seqnum := next_buffer (f_seqnum d), total_len := add32 (total_len d) (buf_offset b),
           flash_offs := (if flash_len d \<le> add32 (flash_offs d) (buf_offset b) then 0 else add32 (flash_offs d) (buf_offset b)),
           flash_state := LOG_DUMP_FLASH_STATE_IDLE\<rparr>)
       else Some (3, d) }
     else Some (0, d) }"

text \<open>\<open>_log_dump_flush\<close>, one step: erase the sector, or write the oldest buffer if its state is asked for.\<close>

definition log_dump_flush_buffers :: "nat \<Rightarrow> bool \<Rightarrow> log_dump \<Rightarrow> (nat \<times> log_dump) option" where
  "log_dump_flush_buffers buff_state is_suspend d =
     (if flash_state d = LOG_DUMP_FLASH_STATE_IDLE \<and> flash_offs d mod LOG_DUMP_SECTOR_SIZE = 0 then flush_erase is_suspend d
      else if flash_state d = LOG_DUMP_FLASH_STATE_ERASED then flush_write buff_state is_suspend d
      else Some (0, d))"

text \<open>The count of buffers in use, a number of 32 bits, is not reset between the rounds of the loop.\<close>

definition count_unfree :: "log_dump \<Rightarrow> nat \<Rightarrow> nat" where
  "count_unfree d unfree_count =
     add32 unfree_count (length (filter (\<lambda>i. buf_state (data_buffer_list d i) \<noteq> DATA_BUFFER_STATE_FREE) [0..<LOG_DUMP_SECTOR_BUFFER_COUNT]))"

partial_function (option) remain_loop :: "nat \<Rightarrow> log_dump \<Rightarrow> log_dump option" where
  "remain_loop unfree_count d = do {
     unfree_count \<leftarrow> Some (count_unfree d unfree_count);
     if unfree_count = 0 then Some d
     else do {
       (ret, d) \<leftarrow> log_dump_flush_buffers (DATA_BUFFER_STATE_WRITTING OR DATA_BUFFER_STATE_WRITTEN) False d;
       remain_loop unfree_count d } }"

definition log_dump_flush_remain :: "log_dump \<Rightarrow> log_dump option" where
  "log_dump_flush_remain d = do {
     d \<leftarrow> remain_loop 0 d;
     s \<leftarrow> flash_api_flush (dump_api d);
     Some (d\<lparr>dump_api := s\<rparr>) }"

text \<open>The sleep hook.\<close>

definition log_dump_flush :: "log_dump \<Rightarrow> (nat \<times> log_dump) option" where
  "log_dump_flush d =
     (if \<not> dump_is_init d then Some (0, d) else log_dump_flush_buffers DATA_BUFFER_STATE_WRITTEN True d)"

definition log_dump_notify_handler :: "HAL_TRACE_STATE_T \<Rightarrow> log_dump \<Rightarrow> log_dump option" where
  "log_dump_notify_handler state d =
     (if \<not> dump_is_init d then Some d
      else if state = HAL_TRACE_STATE_CRASH_ASSERT_START \<or> state = HAL_TRACE_STATE_CRASH_FAULT_START then
        Some (d\<lparr>is_immediately := True\<rparr>)
      else do { d \<leftarrow> log_dump_flush_remain d; Some (d\<lparr>is_immediately := False\<rparr>) })"

section \<open>Taking trace output\<close>

text \<open>\<open>strstr\<close> on the memory behind the pointer: the string ends at a zero byte.\<close>

fun strstr :: "byte list \<Rightarrow> byte list \<Rightarrow> bool option" where
  "strstr s p = (if take (length p) s = p then Some True
     else case s of [] \<Rightarrow> None | c # cs \<Rightarrow> if c = 0 then Some False else strstr cs p)"

definition LOG_DUMP_PREFIX :: "byte list" where
  "LOG_DUMP_PREFIX = map of_char ''__LOG_DUMP:''"

text \<open>A free buffer is opened and cleared; an empty one gets its header.\<close>

definition open_buffer :: "DATA_BUFFER \<Rightarrow> DATA_BUFFER" where
  "open_buffer b = (if buf_state b = DATA_BUFFER_STATE_FREE then
     b\<lparr>buf_state := DATA_BUFFER_STATE_WRITTING, buf_offset := 0, buf_bytes := blit (buf_bytes b) 0 (replicate LOG_DUMP_SECTOR_SIZE 0)\<rparr>
   else b)"

definition start_sector :: "u32 \<Rightarrow> DATA_BUFFER \<Rightarrow> (u32 \<times> DATA_BUFFER) option" where
  "start_sector seqnum b = (if buf_offset b = 0 then do {
       bytes \<leftarrow> memcpy (buf_bytes b) (int (buf_offset b)) (log_header seqnum) 0 16;
       Some (seqnum + 1, b\<lparr>buf_bytes := bytes, buf_offset := buf_offset b + 16\<rparr>) }
     else Some (seqnum, b))"

definition part_len :: "DATA_BUFFER \<Rightarrow> nat \<Rightarrow> nat" where
  "part_len b remain_len = (if LOG_DUMP_SECTOR_SIZE < add32 (buf_offset b) remain_len
     then sub32 LOG_DUMP_SECTOR_SIZE (buf_offset b) else remain_len)"

definition copy_part :: "byte list \<Rightarrow> nat \<Rightarrow> nat \<Rightarrow> DATA_BUFFER \<Rightarrow> DATA_BUFFER option" where
  "copy_part buf written_len uint_len b = (if 0 < uint_len then do {
       bytes \<leftarrow> memcpy (buf_bytes b) (int (buf_offset b)) buf (int written_len) (int uint_len);
       Some (b\<lparr>buf_bytes := bytes, buf_offset := add32 (buf_offset b) uint_len\<rparr>) }
     else Some b)"

text \<open>After a full buffer the next one must be free or written; if it is written, the rest of the output is dropped.\<close>

definition turn_buffer :: "nat \<Rightarrow> nat \<Rightarrow> log_dump \<Rightarrow> ((nat \<times> nat \<times> nat) \<times> log_dump) option" where
  "turn_buffer written_len remain_len d = do {
     d \<leftarrow> Some (d\<lparr>w_seqnum := next_buffer (w_seqnum d)\<rparr>);
     b \<leftarrow> data_buff (w_seqnum d) d;
     if buf_state b = DATA_BUFFER_STATE_FREE \<or> buf_state b = DATA_BUFFER_STATE_WRITTEN then
       Some ((w_seqnum d, written_len, if buf_state b \<noteq> DATA_BUFFER_STATE_FREE then 0 else remain_len), d)
     else None }"

text \<open>One round of the loop on the buffer \<open>i\<close>; the result is the state of the next round.\<close>

definition output_round ::
  "byte list \<Rightarrow> nat \<times> nat \<times> nat \<Rightarrow> log_dump \<Rightarrow> ((nat \<times> nat \<times> nat) \<times> log_dump) option" where
  "output_round buf = (\<lambda>(i, written_len, remain_len) d. do {
     b \<leftarrow> data_buff i d;
     (seqnum, b) \<leftarrow> start_sector (cur_dump_seqnum d) (open_buffer b);
     uint_len \<leftarrow> Some (part_len b remain_len);
     b \<leftarrow> copy_part buf written_len uint_len b;
     if buf_offset b = LOG_DUMP_SECTOR_SIZE then
       turn_buffer (written_len + uint_len) (sub32 remain_len uint_len)
         (d\<lparr>data_buffer_list := (data_buffer_list d)(i := b\<lparr>buf_state := DATA_BUFFER_STATE_WRITTEN\<rparr>), cur_dump_seqnum := seqnum\<rparr>)
     else Some ((i, written_len + uint_len, sub32 remain_len uint_len),
       d\<lparr>data_buffer_list := (data_buffer_list d)(i := b), cur_dump_seqnum := seqnum\<rparr>) })"

partial_function (option) output_loop :: "byte list \<Rightarrow> nat \<times> nat \<times> nat \<Rightarrow> log_dump \<Rightarrow> log_dump option" where
  "output_loop buf p d = do {
     (p, d) \<leftarrow> output_round buf p d;
     if 0 < snd (snd p) then output_loop buf p d else Some d }"

definition log_dump_output_handler :: "byte list \<Rightarrow> nat \<Rightarrow> log_dump \<Rightarrow> log_dump option" where
  "log_dump_output_handler buf buf_len d =
     (if \<not> dump_is_init d then Some d
      else do {
        own \<leftarrow> strstr buf LOG_DUMP_PREFIX;
        if own then Some d else output_loop buf (w_seqnum d, 0, buf_len) d })"

section \<open>Start and clearing\<close>

definition free_buffer :: DATA_BUFFER where
  "free_buffer = \<lparr>buf_state = DATA_BUFFER_STATE_FREE, buf_offset = 0, buf_bytes = replicate LOG_DUMP_BUFFER_LEN 0\<rparr>"

text \<open>A failing registration is only traced.\<close>

definition log_dump_init :: "log_dump \<Rightarrow> log_dump option" where
  "log_dump_init d = do {
     (if opened (flash_hal (dump_api d)) then Some () else None);
     (result, s) \<leftarrow> norflash_api_register NORFLASH_API_MODULE_ID_TRACE_DUMP 0 (flash_start_addr d)
       (sub32 (flash_end_addr d) (flash_start_addr d)) (block_size (flash_hal (dump_api d))) (sector_size (flash_hal (dump_api d)))
       (page_size (flash_hal (dump_api d))) LOG_DUMP_NORFALSH_BUFFER_LEN True (dump_api d);
     let d = d\<lparr>dump_api := s\<rparr>;
     if result \<noteq> NORFLASH_API_OK then Some d
     else do {
       (dump_seqnum, sector_seqnum) \<leftarrow> get_seqnum (d\<lparr>hooked := True\<rparr>);
       Some (d\<lparr>hooked := True, cur_dump_seqnum := dump_seqnum, flash_len := sub32 (flash_end_addr d) (flash_start_addr d),
         flash_offs := (sector_seqnum * LOG_DUMP_SECTOR_SIZE) mod 4294967296, data_buffer_list := (\<lambda>_. free_buffer),
         w_seqnum := 0, f_seqnum := 0, flash_state := LOG_DUMP_FLASH_STATE_IDLE, is_immediately := False, dump_is_init := True\<rparr>) } }"

primrec clear_loop :: "nat list \<Rightarrow> log_dump \<Rightarrow> log_dump option" where
  "clear_loop [] d = Some d"
| "clear_loop (i # is) d = do {
     (ret, s) \<leftarrow> flash_api_erase (is_immediately d) (add32 (flash_start_addr d) (i * LOG_DUMP_SECTOR_SIZE)) False (dump_api d);
     clear_loop is (d\<lparr>dump_api := s\<rparr>) }"

definition log_dump_clear :: "log_dump \<Rightarrow> log_dump option" where
  "log_dump_clear d = clear_loop [0..<flash_len d div LOG_DUMP_SECTOR_SIZE] d"

end
