(* ===== verification/LogFlash.thy ===== *)
theory LogFlash
  imports LogDump
begin

text \<open>
  The flash calls of the trace log, which retry while the queue is full: with enough done readings of the
  chip to come they return, and what they promise is what one accepted call promises.
\<close>

lemma free_guards:
  assumes "inv s Ls F" "user s m" "Ls m = []" "in_mod (mod_info s m) S"
  shows "erase_guard s m S" "\<not> sector_writing s m S"
proof -
  have ok: "mods_ok s Ls" "pools_ok s Ls" using assms(1) by (simp_all add: inv_def)
  have False if i: "i < 15" "op_used s i" "e_dead s S i" for i
  proof -
    obtain k where k: "i \<in> set (Ls k)" using ok(2) i(1,2) unfolding pools_ok_def by blast
    then have k8: "k < 8" "k \<noteq> m" using inv_mod [OF assms(1)] assms(3) by auto
    then have "user s k" using ok(1) k by (auto simp: mods_ok_def user_def)
    moreover have "in_mod (mod_info s k) S" using op_ok_in [OF assms(1) k] i(3) by (simp add: op_ok_def e_dead_def)
    ultimately show False using sector_disjoint [OF ok(1) assms(2) _ assms(4), of k S 0] k8(2) by simp
  qed
  then have "filter (\<lambda>i. op_used s i \<and> e_dead s S i) [0..<15] = []" by (auto simp: filter_empty_conv)
  then show "erase_guard s m S" by (simp add: erase_guard_def)
  have "chain (op_node s) (opera_info (mod_info s m)) []" using user_chain [OF assms(1,2)] assms(3) by simp
  then show "\<not> sector_writing s m S" by (simp add: sector_writing_def find_loop.simps)
qed

lemma buffer_is_free_list:
  assumes "inv s Ls F" "user s m"
  shows "norflash_api_buffer_is_free m s = Some (Ls m = [])"
  using user_chain [OF assms] assms(2) by (simp add: norflash_api_buffer_is_free_def get_ew_count_def count_loop_chain user_def)

lemma quiet_due:
  assumes "holds s M" "holds s' M'" "quiet s s'" "pending_ops s' \<le> pending_ops s"
  shows "enough s \<Longrightarrow> enough s'" "left_over s' \<le> left_over s"
proof -
  have h: "flash_hal s' = flash_hal s" "cur_mod s' = cur_mod s" using assms(3) by (simp_all add: quiet_def)
  have "(busy t = None) = (suspend_state (flash_hal t) = SUSPEND_STATE_NO)" if h: "holds t N" for t N
  proof -
    obtain L F where "inv t L F" using holds_cases [OF h] by metis
    then show ?thesis by (auto simp: inv_def hw_ok_def susp_ok_def split: option.splits if_splits)
  qed
  from this [OF assms(1)] this [OF assms(2)] have b: "(busy s' = None) = (busy s = None)" by (simp add: h(1))
  show "left_over s' \<le> left_over s" using assms(4) by (simp add: left_over_def h)
  have "due s' \<le> due s" unfolding due_def using assms(4) b by (auto simp: h(1))
  then show "enough s \<Longrightarrow> enough s'" by (simp add: enough_def h(1))
qed

lemma pending_full: "\<forall>i \<in> {0..<15}. op_used s i \<Longrightarrow> pending_ops s = 15"
  by (simp add: pending_ops_def)

text \<open>The loop that waits for the own list to be empty.\<close>

lemma flash_api_flush_holds:
  assumes "holds s M" "enough s" "user s 0"
  shows "\<exists>s'. flash_api_flush s = Some s' \<and> holds s' M \<and> enough s' \<and> same_places s s' \<and>
    (left_over s' < left_over s \<or> s' = s \<and> pending_ops s = 0) \<and>
    (\<forall>S. in_mod (mod_info s 0) S \<longrightarrow> erase_guard s' 0 S \<and> \<not> sector_writing s' 0 S)"
  using assms
proof (induction "left_over s" arbitrary: s rule: less_induct)
  case less
  obtain r s1 where f: "norflash_api_flush s = Some (r, s1)" "holds s1 M" "enough s1" "same_places s s1"
    "r = 1 \<and> left_over s1 < left_over s \<or> r = 0 \<and> s1 = s \<and> left_over s = 2 * length (polls_of s)"
    using flush_holds [OF less.prems(1,2)] by blast
  obtain Ls F where i: "inv s1 Ls F" using holds_cases [OF f(2)] by metis
  have p: "same_place (mod_info s 0) (mod_info s1 0)" using f(4) by (simp add: same_places_def)
  have u: "user s1 0" using same_place_user [OF p] less.prems(3) by simp
  have bf: "norflash_api_buffer_is_free 0 s1 = Some (Ls 0 = [])" by (rule buffer_is_free_list [OF i u])
  have im: "in_mod (mod_info s1 0) S = in_mod (mod_info s 0) S" for S using p by (simp add: in_mod_def same_place_def)
  have idle: "s1 = s \<and> pending_ops s = 0" if "\<not> left_over s1 < left_over s"
    using that f(5) by (auto simp: left_over_def split: if_splits)
  show ?case
  proof (cases "Ls 0 = []")
    case True
    have "flash_api_flush s = Some s1" using f(1) bf True by (subst flash_api_flush.simps) simp
    moreover have "\<forall>S. in_mod (mod_info s 0) S \<longrightarrow> erase_guard s1 0 S \<and> \<not> sector_writing s1 0 S"
      using free_guards [OF i u True] im by blast
    ultimately show ?thesis using f(2-4) idle by blast
  next
    case False
    have "0 < nodes Ls"
    proof -
      have "length (Ls 0) \<le> nodes Ls" unfolding nodes_def by (rule member_le_sum) simp_all
      with False show ?thesis by (cases "Ls 0") simp_all
    qed
    then have "pending_ops s1 \<noteq> 0" by (simp add: nodes_pending [OF i])
    with idle have l: "left_over s1 < left_over s" by metis
    obtain s' where s': "flash_api_flush s1 = Some s'" "holds s' M" "enough s'" "same_places s1 s'"
      "left_over s' < left_over s1 \<or> s' = s1 \<and> pending_ops s1 = 0"
      "\<forall>S. in_mod (mod_info s1 0) S \<longrightarrow> erase_guard s' 0 S \<and> \<not> sector_writing s' 0 S"
      using less.hyps [OF l f(2,3) u] by blast
    have "flash_api_flush s = Some s'" using f(1) bf False s'(1) by (subst flash_api_flush.simps) simp
    moreover have "same_places s s'" using f(4) s'(4) same_place_trans by (simp add: same_places_def) blast
    ultimately show ?thesis using s'(2,3,5,6) l im by (intro exI [of _ s']) auto
  qed
qed

lemma same_places_keep:
  assumes "same_places s s'"
  shows "user s' = user s" "sector_range s' m a n = sector_range s m a n" "not_last s' S = not_last s S"
    "in_mod (mod_info s' m) S = in_mod (mod_info s m) S" "mod_base_addr (mod_info s' m) = mod_base_addr (mod_info s m)"
    "mod_len (mod_info s' m) = mod_len (mod_info s m)"
proof -
  have p: "same_place (mod_info s k) (mod_info s' k)" "tot s' = tot s" for k using assms by (simp_all add: same_places_def)
  from same_place_user [OF p(1)] show u: "user s' = user s" by auto
  show "sector_range s' m a n = sector_range s m a n" "in_mod (mod_info s' m) S = in_mod (mod_info s m) S"
    "mod_base_addr (mod_info s' m) = mod_base_addr (mod_info s m)" "mod_len (mod_info s' m) = mod_len (mod_info s m)"
    using p(1) [of m] by (simp_all add: sector_range_def in_mod_def same_place_def u)
  show "not_last s' S = not_last s S" by (simp add: not_last_def p(2))
qed

lemma quiet_places: "quiet s s' \<Longrightarrow> same_places s s'"
  by (simp add: quiet_def same_places_def)

lemma same_places_trans: "same_places s s' \<Longrightarrow> same_places s' s'' \<Longrightarrow> same_places s s''"
  unfolding same_places_def using same_place_trans by metis

section \<open>Erasing and writing\<close>

lemma pending_le: "pending_ops s \<le> 15"
  using length_filter_le [of "op_used s" "[0..<15]"] by (simp add: pending_ops_def)

lemma write_full_used:
  assumes "norflash_api_write m a d True s = Some (NORFLASH_API_BUFFER_FULL, s')"
  shows "op_used s' = op_used s"
proof -
  obtain r where w: "w_opera_add m a d s = Some (r, s')" "r \<noteq> 0"
  proof -
    have "(do { (r, t) \<leftarrow> w_opera_add m a d s; Some (if r = 0 then NORFLASH_API_OK else NORFLASH_API_BUFFER_FULL, t) }) =
        Some (NORFLASH_API_BUFFER_FULL, s')"
      using assms unfolding norflash_api_write_def by (simp only: if_True split: if_split_asm) simp_all
    then show ?thesis by (cases "w_opera_add m a d s") (auto intro: that split: if_splits)
  qed
  show ?thesis
  proof (cases "find (\<lambda>i. \<not> op_used s i) [0..<15]")
    case None
    with w show ?thesis
      by (auto simp: w_opera_add_def norflash_api_malloc_op_def Let_def bind_eq_Some_conv split: if_splits)
  next
    case (Some i)
    from find_free [OF this] have "(op_used s)(i := False) = op_used s" by (simp add: fun_upd_idem_iff)
    with w Some show ?thesis
      by (auto simp: w_opera_add_def norflash_api_malloc_op_def norflash_api_malloc_data_def norflash_api_free_op_def set_node_def
          Let_def bind_eq_Some_conv split: if_splits option.splits)
  qed
qed

lemma flash_api_erase_holds:
  assumes "holds s M" "enough s" "sector_range s 0 S 4096" "not_last s S" "erase_guard s 0 S"
  shows "\<exists>s'. flash_api_erase False S True s = Some (NORFLASH_API_OK, s') \<and> holds s' (store_erase 0 S M) \<and> same_places s s' \<and>
    \<not> sector_writing s' 0 S"
  using assms
proof (induction "left_over s" arbitrary: s rule: less_induct)
  case less
  obtain ret s1 where e: "norflash_api_erase 0 S 4096 True s = Some (ret, s1)" "quiet s s1"
    "ret = NORFLASH_API_OK \<and> holds s1 (store_erase 0 S M) \<and> \<not> sector_writing s1 0 S \<or>
     ret = NORFLASH_API_BUFFER_FULL \<and> holds s1 M \<and> (\<forall>i \<in> {0..<15}. op_used s i)"
    using erase_async_holds [OF less.prems(1,3-5)] by blast
  from e(3) show ?case
  proof
    assume "ret = NORFLASH_API_OK \<and> holds s1 (store_erase 0 S M) \<and> \<not> sector_writing s1 0 S"
    with e(1) quiet_places [OF e(2)] show ?thesis by (intro exI [of _ s1], subst flash_api_erase.simps) simp
  next
    assume full: "ret = NORFLASH_API_BUFFER_FULL \<and> holds s1 M \<and> (\<forall>i \<in> {0..<15}. op_used s i)"
    then have h1: "holds s1 M" and p15: "pending_ops s = 15" using pending_full by blast+
    have p: "pending_ops s1 \<le> pending_ops s" using pending_le [of s1] p15 by simp
    note q = quiet_due [OF less.prems(1) h1 e(2) p]
    note k1 = same_places_keep [OF quiet_places [OF e(2)]]
    have u: "user s1 0" using less.prems(3) by (simp add: k1(1) sector_range_def)
    obtain s2 where f: "flash_api_flush s1 = Some s2" "holds s2 M" "enough s2" "same_places s1 s2"
      "left_over s2 < left_over s1 \<or> s2 = s1 \<and> pending_ops s1 = 0"
      "\<forall>S. in_mod (mod_info s1 0) S \<longrightarrow> erase_guard s2 0 S \<and> \<not> sector_writing s2 0 S"
      using flash_api_flush_holds [OF h1 q(1) [OF less.prems(2)] u] by blast
    note k2 = same_places_keep [OF f(4)]
    have cm: "cur_mod s1 = cur_mod s" "polls_of s1 = polls_of s" using e(2) by (simp_all add: quiet_def)
    have l: "left_over s2 < left_over s"
      using f(5) q(2) p15 cm by (auto simp: left_over_def split: if_splits)
    have "S div 4096 * 4096 = S" using less.prems(3) by (auto simp: sector_range_def)
    moreover have "mod_ok (tot s) (mod_info s 0)"
      using holds_cases [OF less.prems(1)] holds_mod less.prems(3) by (metis sector_range_def)
    ultimately have im: "in_mod (mod_info s1 0) S" using sector_rangeD(3) [OF less.prems(3)] k1(4) by simp
    have "sector_range s2 0 S 4096" "not_last s2 S" "erase_guard s2 0 S"
      using less.prems(3,4) f(6) im k1 k2 by blast+
    from less.hyps [OF l f(2,3) this] obtain s' where s': "flash_api_erase False S True s2 = Some (NORFLASH_API_OK, s')"
      "holds s' (store_erase 0 S M)" "same_places s2 s'" "\<not> sector_writing s' 0 S" by blast
    have "flash_api_erase False S True s = Some (NORFLASH_API_OK, s')" using e(1) full f(1) s'(1) by (subst flash_api_erase.simps) simp
    moreover have "same_places s s'" by (rule same_places_trans [OF same_places_trans [OF quiet_places [OF e(2)] f(4)] s'(3)])
    ultimately show ?thesis using s'(2,4) by blast
  qed
qed

lemma full_pending:
  assumes "holds s M" "(\<forall>i \<in> {0..<15}. op_used s i) \<or> (\<forall>b \<in> {0..<4}. data_used s b)"
  shows "0 < pending_ops s"
proof (rule ccontr)
  assume "\<not> 0 < pending_ops s"
  then have z: "pending_ops s = 0" by simp
  with assms(2) pending_full [of s] have d: "data_used s 0" by auto
  obtain Ls F where i: "inv s Ls F" using holds_cases [OF assms(1)] by metis
  then have "pools_ok s Ls" by (simp add: inv_def)
  with d obtain m k where k: "k \<in> set (Ls m)" unfolding pools_ok_def by blast
  with inv_mod [OF i] have "length (Ls m) \<le> nodes Ls" unfolding nodes_def by (intro member_le_sum) auto
  with k z show False by (cases "Ls m") (simp_all add: nodes_pending [OF i])
qed

lemma flash_api_write_holds:
  assumes "holds s M" "enough s" "sector_range s 0 a (length d)" "not_last s (a div 4096 * 4096)" "\<not> sector_writing s 0 (a div 4096 * 4096)"
    and "\<forall>k<length d. d ! k AND M 0 (a + k) = d ! k"
  shows "\<exists>s'. flash_api_write False a d True s = Some (NORFLASH_API_OK, s') \<and> holds s' (store_write 0 a d M) \<and> same_places s s'"
  using assms
proof (induction "left_over s" arbitrary: s rule: less_induct)
  case less
  let ?S = "a div 4096 * 4096"
  obtain ret s1 where e: "norflash_api_write 0 a d True s = Some (ret, s1)" "quiet s s1"
    "ret = NORFLASH_API_OK \<and> holds s1 (store_write 0 a d M) \<or>
     ret = NORFLASH_API_BUFFER_FULL \<and> holds s1 M \<and> ((\<forall>i \<in> {0..<15}. op_used s i) \<or> (\<forall>b \<in> {0..<4}. data_used s b))"
    using write_async_holds [OF less.prems(1,3-6)] by blast
  from e(3) show ?case
  proof
    assume "ret = NORFLASH_API_OK \<and> holds s1 (store_write 0 a d M)"
    with e(1) quiet_places [OF e(2)] show ?thesis by (intro exI [of _ s1], subst flash_api_write.simps) simp
  next
    assume full: "ret = NORFLASH_API_BUFFER_FULL \<and> holds s1 M \<and> ((\<forall>i \<in> {0..<15}. op_used s i) \<or> (\<forall>b \<in> {0..<4}. data_used s b))"
    then have h1: "holds s1 M" and p0: "0 < pending_ops s" using full_pending [OF less.prems(1)] by blast+
    have "op_used s1 = op_used s" using write_full_used [of 0 a d s s1] e(1) full by simp
    then have p: "pending_ops s1 = pending_ops s" by (simp add: pending_ops_def)
    note q = quiet_due [OF less.prems(1) h1 e(2) eq_imp_le [OF p]]
    note k1 = same_places_keep [OF quiet_places [OF e(2)]]
    have u: "user s1 0" using less.prems(3) by (simp add: k1(1) sector_range_def)
    obtain s2 where f: "flash_api_flush s1 = Some s2" "holds s2 M" "enough s2" "same_places s1 s2"
      "left_over s2 < left_over s1 \<or> s2 = s1 \<and> pending_ops s1 = 0"
      "\<forall>S. in_mod (mod_info s1 0) S \<longrightarrow> erase_guard s2 0 S \<and> \<not> sector_writing s2 0 S"
      using flash_api_flush_holds [OF h1 q(1) [OF less.prems(2)] u] by blast
    note k2 = same_places_keep [OF f(4)]
    have l: "left_over s2 < left_over s" using f(5) q(2) p p0 by auto
    have "mod_ok (tot s) (mod_info s 0)" using holds_cases [OF less.prems(1)] holds_mod less.prems(3) by (metis sector_range_def)
    then have im: "in_mod (mod_info s1 0) ?S" using sector_rangeD(3) [OF less.prems(3)] k1(4) by simp
    have "sector_range s2 0 a (length d)" "not_last s2 ?S" "\<not> sector_writing s2 0 ?S"
      using less.prems(3,4) f(6) im k1 k2 by blast+
    from less.hyps [OF l f(2,3) this less.prems(6)] obtain s' where s': "flash_api_write False a d True s2 = Some (NORFLASH_API_OK, s')"
      "holds s' (store_write 0 a d M)" "same_places s2 s'" by blast
    have "flash_api_write False a d True s = Some (NORFLASH_API_OK, s')" using e(1) full f(1) s'(1) by (subst flash_api_write.simps) simp
    moreover have "same_places s s'" by (rule same_places_trans [OF same_places_trans [OF quiet_places [OF e(2)] f(4)] s'(3)])
    ultimately show ?thesis using s'(2) by blast
  qed
qed

section \<open>Without waiting\<close>

text \<open>An erase or a write takes at most one node; with nodes and buffers left it does not wait, so that it leaves the flash alone.\<close>

definition brief :: "api \<Rightarrow> api \<Rightarrow> bool" where
  "brief s s' \<longleftrightarrow> quiet s s' \<and> pending_ops s' \<le> pending_ops s + 1"

lemma pending_card: "pending_ops t = card {i. i < 15 \<and> op_used t i}"
proof -
  have "{i. i < 15 \<and> op_used t ([0..<15] ! i)} = {i. i < 15 \<and> op_used t i}" by (rule Collect_cong) auto
  then show ?thesis by (simp add: pending_ops_def length_filter_conv_card)
qed

lemma pending_grows:
  assumes "\<forall>i. op_used s' i \<longrightarrow> op_used s i \<or> i = k"
  shows "pending_ops s' \<le> pending_ops s + 1"
proof -
  have "{i. i < 15 \<and> op_used s' i} \<subseteq> insert k {i. i < 15 \<and> op_used s i}" using assms by auto
  then have "card {i. i < 15 \<and> op_used s' i} \<le> card (insert k {i. i < 15 \<and> op_used s i})" by (rule card_mono [rotated]) simp
  also have "\<dots> \<le> card {i. i < 15 \<and> op_used s i} + 1" by (simp add: card_insert_if)
  finally show ?thesis by (simp only: pending_card)
qed

lemma malloc_op_used: "norflash_api_malloc_op s = (r, s') \<Longrightarrow> \<exists>k. \<forall>i. op_used s' i \<longrightarrow> op_used s i \<or> i = k"
  by (auto simp: norflash_api_malloc_op_def split: option.splits)

lemma e_del_loop_used:
  assumes "e_del_loop m addr pre tmp s = Some (b, s')"
  shows "\<forall>i. op_used s' i \<longrightarrow> op_used s i"
proof -
  let ?Q = "\<lambda>m addr pre tmp s r. \<forall>i. op_used (snd r) i \<longrightarrow> op_used s i"
  have "?Q m addr pre tmp s (b, s')"
  proof (rule e_del_loop.raw_induct [where P = ?Q, OF _ assms])
    fix f m addr pre_node tmp s y
    assume ih: "\<And>m addr pre tmp s y. f m addr pre tmp s = Some y \<Longrightarrow> ?Q m addr pre tmp s y"
      and e: "(if tmp = None then Some (False, s) else do {
        let nd = op_node s (the tmp);
        let pre' = (if op_next nd \<noteq> None then tmp else pre_node);
        if op_addr nd = addr \<and> \<not> op_lock nd then do {
          s \<leftarrow> (if opera_info (mod_info s m) = tmp then Some (set_mod m (opera_info_update (\<lambda>_. op_next nd)) s)
               else case pre_node of None \<Rightarrow> None | Some p \<Rightarrow> Some (set_node p (op_next_update (\<lambda>_. op_next nd)) s));
          let s = (if op_type nd = NORFLASH_API_WRITTING then norflash_api_free_data (op_buff nd) s else s);
          f m addr pre' (op_next nd) (norflash_api_free_op (the tmp) s) }
        else if op_addr nd = addr \<and> op_type nd = NORFLASH_API_ERASING then Some (True, s)
        else f m addr pre' (op_next nd) s }) = Some y"
    have free: "op_used (norflash_api_free_data b t) = op_used t" for b t
      by (cases b) (simp_all add: norflash_api_free_data_def)
    show "?Q m addr pre_node tmp s y"
      using e ih
      by (auto simp: Let_def bind_eq_Some_conv norflash_api_free_op_def free set_mod_def set_node_def
          split: if_splits option.splits dest!: ih)
  qed
  then show ?thesis by simp
qed

lemma e_opera_add_used:
  assumes "e_opera_add m a n s = Some (r, s')"
  shows "\<exists>k. \<forall>i. op_used s' i \<longrightarrow> op_used s i \<or> i = k"
proof -
  obtain b s1 where l: "e_del_loop m a (opera_info (mod_info s m)) (opera_info (mod_info s m)) s = Some (b, s1)"
    using assms by (auto simp: e_opera_add_def bind_eq_Some_conv)
  obtain x s2 where x: "norflash_api_malloc_op s1 = (x, s2)" by fastforce
  have "op_used s' = op_used s1 \<or> op_used s' = op_used s2"
    using assms l x by (auto simp: e_opera_add_def set_mod_def set_node_def split: if_splits option.splits)
  with e_del_loop_used [OF l] malloc_op_used [OF x] show ?thesis by metis
qed

lemma erase_grows:
  assumes "norflash_api_erase m a n True s = Some (r, s')"
  shows "pending_ops s' \<le> pending_ops s + 1"
proof -
  have "s' = s \<or> (\<exists>q. e_opera_add m a n s = Some (q, s'))"
    using assms by (auto simp: norflash_api_erase_def bind_eq_Some_conv split: if_splits)
  with e_opera_add_used pending_grows [of s' s] show ?thesis by fastforce
qed

lemma w_opera_add_used:
  assumes "w_opera_add m a d s = Some (r, s')"
  shows "\<exists>k. \<forall>i. op_used s' i \<longrightarrow> op_used s i \<or> i = k"
proof -
  have put: "op_used u' = op_used u" if "data_put b i x u = Some u'" for b i x u u'
    using that by (auto simp: data_put_def set_data_def split: option.splits if_splits)
  obtain x s2 where x: "norflash_api_malloc_op s = (x, s2)" by fastforce
  have md: "op_used u' = op_used u" if "norflash_api_malloc_data n u = (b, u')" for n b u u'
    using that by (auto simp: norflash_api_malloc_data_def split: option.splits if_splits)
  have "op_used s' = op_used s \<or> (\<forall>i. op_used s' i \<longrightarrow> op_used s2 i)"
    using assms x
    by (auto simp: w_opera_add_def w_merge_def Let_def bind_eq_Some_conv set_mod_def set_node_def set_data_def norflash_api_free_op_def
        split: if_splits option.splits prod.splits dest!: put md)
  with malloc_op_used [OF x] show ?thesis by metis
qed

lemma write_grows:
  assumes "norflash_api_write m a d True s = Some (r, s')"
  shows "pending_ops s' \<le> pending_ops s + 1"
proof -
  have "s' = s \<or> (\<exists>q. w_opera_add m a d s = Some (q, s'))"
    using assms by (auto simp: norflash_api_write_def bind_eq_Some_conv split: if_splits)
  with w_opera_add_used pending_grows [of s' s] show ?thesis by fastforce
qed

lemma buffers_le_pending:
  assumes "holds s M" "\<forall>b \<in> {0..<4}. data_used s b"
  shows "4 \<le> pending_ops s"
proof -
  obtain Ls F where "inv s Ls F" using holds_cases [OF assms(1)] by metis
  then have p: "pools_ok s Ls" by (simp add: inv_def)
  have "{0..<4} \<subseteq> (\<lambda>i. the (op_buff (op_node s i))) ` {i. i < 15 \<and> op_used s i}"
  proof
    fix b :: nat assume "b \<in> {0..<4}"
    with assms(2) p obtain m i where i: "i \<in> set (Ls m)" "op_buff (op_node s i) = Some b" unfolding pools_ok_def by blast
    with p have "i < 15" "op_used s i" unfolding pools_ok_def by blast+
    with i(2) show "b \<in> (\<lambda>i. the (op_buff (op_node s i))) ` {i. i < 15 \<and> op_used s i}"
      by (intro image_eqI [of _ _ i]) simp_all
  qed
  then have "card {0..<4 :: nat} \<le> card ((\<lambda>i. the (op_buff (op_node s i))) ` {i. i < 15 \<and> op_used s i})" by (intro card_mono) simp_all
  also have "\<dots> \<le> card {i. i < 15 \<and> op_used s i}" by (rule card_image_le) simp
  finally show ?thesis by (simp add: pending_card)
qed

lemma flash_api_erase_brief:
  assumes "holds s M" "sector_range s 0 S 4096" "not_last s S" "erase_guard s 0 S" "pending_ops s < 15"
    and "flash_api_erase False S True s = Some (r, s')"
  shows "brief s s'"
proof -
  obtain ret s1 where e: "norflash_api_erase 0 S 4096 True s = Some (ret, s1)" "quiet s s1"
    "ret = NORFLASH_API_OK \<or> (\<forall>i \<in> {0..<15}. op_used s i)"
    using erase_async_holds [OF assms(1-4)] by blast
  with assms(5) pending_full [of s] have "ret = NORFLASH_API_OK" by auto
  with e(1) assms(6) have "s' = s1" by (subst (asm) flash_api_erase.simps) simp
  with e(2) erase_grows [OF e(1)] show ?thesis by (simp add: brief_def)
qed

lemma flash_api_write_brief:
  assumes "holds s M" "sector_range s 0 a (length d)" "not_last s (a div 4096 * 4096)" "\<not> sector_writing s 0 (a div 4096 * 4096)"
    and "\<forall>k<length d. d ! k AND M 0 (a + k) = d ! k" "pending_ops s < 4" "flash_api_write False a d True s = Some (r, s')"
  shows "brief s s'"
proof -
  obtain ret s1 where e: "norflash_api_write 0 a d True s = Some (ret, s1)" "quiet s s1"
    "ret = NORFLASH_API_OK \<or> (\<forall>i \<in> {0..<15}. op_used s i) \<or> (\<forall>b \<in> {0..<4}. data_used s b)"
    using write_async_holds [OF assms(1-5)] by blast
  with assms(6) pending_full [of s] buffers_le_pending [OF assms(1)] have "ret = NORFLASH_API_OK" by auto
  with e(1) assms(7) have "s' = s1" by (subst (asm) flash_api_write.simps) simp
  with e(2) write_grows [OF e(1)] show ?thesis by (simp add: brief_def)
qed

text \<open>Calls that may wait only return with success: they go on as long as the queue is full.\<close>

lemma flash_api_erase_ok:
  assumes "flash_api_erase imm a False s = Some (r, s')"
  shows "r = NORFLASH_API_OK"
proof -
  let ?Q = "\<lambda>imm a susp s y. \<not> susp \<longrightarrow> fst y = NORFLASH_API_OK"
  have "?Q imm a False s (r, s')"
  proof (rule flash_api_erase.raw_induct [where P = ?Q, OF _ assms])
    fix f imm a susp s y
    assume ih: "\<And>imm a susp s y. f imm a susp s = Some y \<Longrightarrow> ?Q imm a susp s y"
      and e: "(if imm \<and> susp then Some (NORFLASH_API_OK, s) else do {
        (ret, s) \<leftarrow> norflash_api_erase 0 a 4096 susp s;
        if ret = NORFLASH_API_OK then Some (ret, s)
        else if ret = NORFLASH_API_BUFFER_FULL then
          if imm \<and> susp then Some (ret, s) else do { s \<leftarrow> flash_api_flush s; f imm a susp s }
        else None }) = Some y"
    show "?Q imm a susp s y" using e by (auto simp: bind_eq_Some_conv split: if_splits dest!: ih)
  qed
  then show ?thesis by simp
qed

lemma flash_api_write_ok:
  assumes "flash_api_write imm a d False s = Some (r, s')"
  shows "r = NORFLASH_API_OK"
proof -
  let ?Q = "\<lambda>imm a d susp s y. \<not> susp \<longrightarrow> fst y = NORFLASH_API_OK"
  have "?Q imm a d False s (r, s')"
  proof (rule flash_api_write.raw_induct [where P = ?Q, OF _ assms])
    fix f imm a d susp s y
    assume ih: "\<And>imm a d susp s y. f imm a d susp s = Some y \<Longrightarrow> ?Q imm a d susp s y"
      and e: "(if imm \<and> susp then Some (NORFLASH_API_OK, s) else do {
        (ret, s) \<leftarrow> norflash_api_write 0 a d susp s;
        if ret = NORFLASH_API_OK then Some (ret, s)
        else if ret = NORFLASH_API_BUFFER_FULL then
          if imm \<and> susp then Some (ret, s) else do { s \<leftarrow> flash_api_flush s; f imm a d susp s }
        else None }) = Some y"
    show "?Q imm a d susp s y" using e by (auto simp: bind_eq_Some_conv split: if_splits dest!: ih)
  qed
  then show ?thesis by simp
qed

lemma flash_api_flush_free:
  assumes "flash_api_flush s = Some s'"
  shows "norflash_api_buffer_is_free NORFLASH_API_MODULE_ID_TRACE_DUMP s' = Some True"
proof -
  let ?Q = "\<lambda>s y. norflash_api_buffer_is_free NORFLASH_API_MODULE_ID_TRACE_DUMP y = Some True"
  show "?Q s s'"
  proof (rule flash_api_flush.raw_induct [where P = ?Q, OF _ assms])
    fix f s y
    assume ih: "\<And>s y. f s = Some y \<Longrightarrow> ?Q s y"
      and e: "do { (ret, s) \<leftarrow> norflash_api_flush s; free \<leftarrow> norflash_api_buffer_is_free NORFLASH_API_MODULE_ID_TRACE_DUMP s;
        if free then Some s else f s } = Some y"
    show "?Q s y" using e by (auto simp: bind_eq_Some_conv split: if_splits dest!: ih)
  qed
qed

end
