(* ===== verification/LogSpec.thy ===== *)
theory LogSpec
  imports LogFlash
begin

text \<open>
  What the trace log promises. Let \<open>T\<close> be all bytes taken since the start and \<open>F\<close> the number of sectors handed to
  the flash. The two buffers hold what follows the \<open>F\<close>-th sector (\<open>log_buffers\<close>); the region of the flash holds
  the last sectors, each a header with the next number and 4080 bytes of \<open>T\<close> (\<open>log_stored\<close>); a restart goes
  on behind the newest sector.
\<close>

section \<open>The buffers\<close>

definition log_block :: "u32 \<Rightarrow> byte list \<Rightarrow> nat \<Rightarrow> byte list" where
  "log_block q T k = log_header (q + of_nat k) @ take 4080 (drop (4080 * k) T)"

definition full_buffer :: "u32 \<Rightarrow> byte list \<Rightarrow> nat \<Rightarrow> DATA_BUFFER \<Rightarrow> bool" where
  "full_buffer q T k b \<longleftrightarrow> buf_state b = DATA_BUFFER_STATE_WRITTEN \<and> buf_offset b = 4096 \<and> take 4096 (buf_bytes b) = log_block q T k"

text \<open>The buffer being filled, or about to be: \<open>k\<close> sectors are full, and \<open>c\<close> is the next number.\<close>

definition filling_buffer :: "u32 \<Rightarrow> byte list \<Rightarrow> nat \<Rightarrow> u32 \<Rightarrow> DATA_BUFFER \<Rightarrow> bool" where
  "filling_buffer q T k c b \<longleftrightarrow>
     buf_state b = DATA_BUFFER_STATE_FREE \<and> length T mod 4080 = 0 \<and> c = q + of_nat k \<or>
     buf_state b = DATA_BUFFER_STATE_WRITTING \<and> buf_offset b = 16 + length T mod 4080 \<and> c = q + of_nat k + 1 \<and>
     take (buf_offset b) (buf_bytes b) = log_header (q + of_nat k) @ drop (4080 * k) T"

definition log_buffers :: "u32 \<Rightarrow> byte list \<Rightarrow> nat \<Rightarrow> log_dump \<Rightarrow> bool" where
  "log_buffers q T F d \<longleftrightarrow> (let W = length T div 4080 in
     F \<le> W \<and> length T \<le> 4080 * (F + 2) \<and> w_seqnum d = W mod 2 \<and> f_seqnum d = F mod 2 \<and>
     (\<forall>i<2. length (buf_bytes (data_buffer_list d i)) = LOG_DUMP_BUFFER_LEN) \<and>
     (\<forall>k. F \<le> k \<and> k < W \<longrightarrow> full_buffer q T k (data_buffer_list d (k mod 2))) \<and>
     (if W < F + 2 then filling_buffer q T W (cur_dump_seqnum d) (data_buffer_list d (W mod 2)) else cur_dump_seqnum d = q + of_nat W) \<and>
     (W = F \<longrightarrow> buf_state (data_buffer_list d ((W + 1) mod 2)) = DATA_BUFFER_STATE_FREE))"

lemma log_buffersD:
  assumes "log_buffers q T F d" "W = length T div 4080"
  shows "F \<le> W" "length T \<le> 4080 * (F + 2)" "w_seqnum d = W mod 2" "f_seqnum d = F mod 2"
    "i < 2 \<Longrightarrow> length (buf_bytes (data_buffer_list d i)) = 8192"
    "F \<le> k \<Longrightarrow> k < W \<Longrightarrow> full_buffer q T k (data_buffer_list d (k mod 2))"
    "W < F + 2 \<Longrightarrow> filling_buffer q T W (cur_dump_seqnum d) (data_buffer_list d (W mod 2))"
    "W = F \<Longrightarrow> buf_state (data_buffer_list d ((W + 1) mod 2)) = DATA_BUFFER_STATE_FREE"
    "W = F + 2 \<Longrightarrow> cur_dump_seqnum d = q + of_nat W"
  using assms by (simp_all add: log_buffers_def Let_def)

lemma length_log_header [simp]: "length (log_header q) = 16"
  by (simp add: log_header_def)

lemma log_block_append: "4080 * (k + 1) \<le> length T \<Longrightarrow> log_block q (T @ x) k = log_block q T k"
  by (simp add: log_block_def)

lemma length_log_block: "4080 * (k + 1) \<le> length T \<Longrightarrow> length (log_block q T k) = 4096"
  by (simp add: log_block_def)

lemma full_buffer_append: "4080 * (k + 1) \<le> length T \<Longrightarrow> full_buffer q (T @ x) k b = full_buffer q T k b"
  by (simp add: full_buffer_def log_block_append)

lemma next_buffer_mod: "next_buffer (k mod 2) = (k + 1) mod 2"
  by (simp add: next_buffer_def) presburger

lemma start_sector_filling:
  assumes "filling_buffer q T k c b" "length (buf_bytes b) = 8192" "k = length T div 4080"
  shows "\<exists>b'. start_sector c (open_buffer b) = Some (q + of_nat k + 1, b') \<and> buf_state b' = DATA_BUFFER_STATE_WRITTING \<and>
    buf_offset b' = 16 + length T mod 4080 \<and> length (buf_bytes b') = 8192 \<and>
    take (16 + length T mod 4080) (buf_bytes b') = log_header (q + of_nat k) @ drop (4080 * k) T"
proof (cases "buf_state b = DATA_BUFFER_STATE_FREE")
  case True
  with assms(1) have m: "length T mod 4080 = 0" "c = q + of_nat k" by (simp_all add: filling_buffer_def)
  have "4080 * k = length T" using m(1) assms(3) mult_div_mod_eq [of 4080 "length T"] by simp
  then have d: "drop (4080 * k) T = []" by simp
  have "memcpy (blit (buf_bytes b) 0 (replicate 4096 0)) 0 (log_header c) 0 16 = Some (blit (blit (buf_bytes b) 0 (replicate 4096 0)) 0 (log_header c))"
    using memcpy_nat [of "blit (buf_bytes b) 0 (replicate 4096 0)" 0 "log_header c" 0 16] assms(2) by simp
  with True m d assms(2) show ?thesis
    by (simp add: start_sector_def open_buffer_def) (simp add: blit_def)
next
  case False
  with assms show ?thesis by (auto simp: filling_buffer_def start_sector_def open_buffer_def)
qed

text \<open>What a round writes: \<open>u\<close> bytes of \<open>x\<close> behind the \<open>length T mod 4080\<close> ones.\<close>

definition same_flash :: "log_dump \<Rightarrow> log_dump \<Rightarrow> bool" where
  "same_flash d d' \<longleftrightarrow> d' = d\<lparr>data_buffer_list := data_buffer_list d', cur_dump_seqnum := cur_dump_seqnum d', w_seqnum := w_seqnum d'\<rparr>"

lemma same_flash_refl: "same_flash d d" and same_flash_trans: "same_flash d d' \<Longrightarrow> same_flash d' d'' \<Longrightarrow> same_flash d d''"
  by (simp_all add: same_flash_def) (cases d; cases d'; simp)

lemma same_flash_eqs:
  assumes "same_flash d d'"
  shows "f_seqnum d' = f_seqnum d" "flash_offs d' = flash_offs d" "flash_state d' = flash_state d" "flash_len d' = flash_len d"
    "flash_start_addr d' = flash_start_addr d" "flash_end_addr d' = flash_end_addr d" "dump_api d' = dump_api d"
    "dump_is_init d' = dump_is_init d" "is_immediately d' = is_immediately d"
  using assms unfolding same_flash_def by (cases d; cases d'; simp)+

lemma take_fill:
  assumes "take j bs = H @ drop p T" "p \<le> length T" "j + length x \<le> length bs"
  shows "take (j + length x) (blit bs j x) = H @ drop p (T @ x)"
proof -
  have "take (j + length x) (blit bs j x) = take j bs @ x" using assms(3) by (simp add: blit_def)
  with assms(1,2) show ?thesis by simp
qed

definition round_len :: "byte list \<Rightarrow> nat \<Rightarrow> nat" where
  "round_len T n = min n (4080 - length T mod 4080)"

lemma round_len_le: "round_len T n \<le> n" "round_len T n \<le> 4080 - length T mod 4080" "0 < n \<Longrightarrow> 0 < round_len T n"
  by (simp_all add: round_len_def)

lemma div_add_round:
  fixes N u :: nat
  assumes "u \<le> 4080 - N mod 4080"
  shows "(N + u) div 4080 = (if u = 4080 - N mod 4080 then N div 4080 + 1 else N div 4080)"
    and "(N + u) mod 4080 = (if u = 4080 - N mod 4080 then 0 else N mod 4080 + u)"
proof -
  define W m where "W = N div 4080" and "m = N mod 4080"
  have N: "N = 4080 * W + m" "m < 4080" by (simp_all add: W_def m_def)
  have "(N + u) div 4080 = (if u = 4080 - m then W + 1 else W) \<and> (N + u) mod 4080 = (if u = 4080 - m then 0 else m + u)"
  proof (cases "u = 4080 - m")
    case True
    with N have "N + u = 4080 * (W + 1)" by simp
    with True show ?thesis by simp
  next
    case False
    with assms N(2) have l: "m + u < 4080" by (simp add: m_def)
    have "(v + 4080 * W) div 4080 = W \<and> (v + 4080 * W) mod 4080 = v" if "v < 4080" for v using that by simp
    moreover have "N + u = (m + u) + 4080 * W" using N(1) by simp
    ultimately show ?thesis using False l by metis
  qed
  then show "(N + u) div 4080 = (if u = 4080 - N mod 4080 then N div 4080 + 1 else N div 4080)"
    "(N + u) mod 4080 = (if u = 4080 - N mod 4080 then 0 else N mod 4080 + u)" by (simp_all add: W_def m_def)
qed

lemma fill_len:
  assumes "buf_offset b = 16 + m" "m < 4080" "n \<le> 8160" "u = min n (4080 - m)"
  shows "part_len b n = u" "add32 (16 + m) u = 16 + m + u" "sub32 n u = n - u"
  using assms by (auto simp: part_len_def add32_id sub32_id min_def)

text \<open>The buffer after the copy.\<close>

lemma copy_round:
  assumes "filling_buffer q T W c b" "length (buf_bytes b) = 8192" "W = length T div 4080" "written + n \<le> length buf" "n \<le> 8160"
    and "u = round_len T n" "m = length T mod 4080"
  shows "\<exists>b1 b2. start_sector c (open_buffer b) = Some (q + of_nat W + 1, b1) \<and> part_len b1 n = u \<and> sub32 n u = n - u \<and>
    copy_part buf written u b1 = Some b2 \<and> buf_state b2 = DATA_BUFFER_STATE_WRITTING \<and> buf_offset b2 = 16 + m + u \<and>
    length (buf_bytes b2) = 8192 \<and> take (16 + m + u) (buf_bytes b2) = log_header (q + of_nat W) @ drop (4080 * W) (T @ take u (drop written buf))"
proof -
  obtain b1 where b1: "start_sector c (open_buffer b) = Some (q + of_nat W + 1, b1)" "buf_state b1 = DATA_BUFFER_STATE_WRITTING"
    "buf_offset b1 = 16 + m" "length (buf_bytes b1) = 8192"
    "take (16 + m) (buf_bytes b1) = log_header (q + of_nat W) @ drop (4080 * W) T"
    using start_sector_filling [OF assms(1-3)] assms(7) by blast
  have m: "m < 4080" using assms(7) by simp
  have u: "u = min n (4080 - m)" "u \<le> n" "m + u \<le> 4080" using assms(6,7) m by (simp_all add: round_len_def)
  note fl = fill_len [OF b1(3) m assms(5) u(1)]
  let ?x = "take u (drop written buf)"
  have x: "length ?x = u" using u(2) assms(4) by simp
  have le: "4080 * W \<le> length T" using assms(3) by simp
  have "16 + m + length ?x \<le> length (buf_bytes b1)" using x u(3) b1(4) by simp
  from take_fill [OF b1(5) le this] have t: "take (16 + m + u) (blit (buf_bytes b1) (16 + m) ?x) = log_header (q + of_nat W) @ drop (4080 * W) (T @ ?x)"
    unfolding x .
  have l: "length (blit (buf_bytes b1) (16 + m) ?x) = 8192" using x u(3) b1(4) by simp
  have mc: "memcpy (buf_bytes b1) (int (16 + m)) buf (int written) (int u) = Some (blit (buf_bytes b1) (16 + m) ?x)"
    unfolding memcpy_nat using u assms(4) b1(4) by simp
  have cp: "copy_part buf written u b1 = Some (b1\<lparr>buf_bytes := blit (buf_bytes b1) (16 + m) ?x, buf_offset := 16 + m + u\<rparr>)"
  proof (cases "u = 0")
    case True
    with b1(3) show ?thesis by (cases b1) (simp add: copy_part_def)
  next
    case False
    then show ?thesis unfolding copy_part_def b1(3) mc fl(2) by simp
  qed
  show ?thesis
    using b1(1,2) fl(1,3) cp l t
    by (intro exI [of _ b1] exI [of _ "b1\<lparr>buf_bytes := blit (buf_bytes b1) (16 + m) ?x, buf_offset := 16 + m + u\<rparr>"]) simp
qed

text \<open>The buffer \<open>b\<close> of the open sector put back: not full yet, or full.\<close>

lemma buffer_other: "(W + 1) mod 2 \<noteq> W mod (2 :: nat)"
  by presburger

lemma other_full_buffer:
  assumes "log_buffers q T F d" "W = length T div 4080" "W < F + 2" "F \<le> k" "k < W"
  shows "full_buffer q (T @ x) k (((data_buffer_list d)(W mod 2 := b)) (k mod 2))"
proof -
  have k: "k = F" "W = k + 1" using assms(3-5) by simp_all
  have "4080 * (k + 1) \<le> length T" using assms(2) k(2) by simp
  moreover have "k mod 2 \<noteq> W mod 2" using buffer_other [of k] k(2) by simp
  ultimately show ?thesis using log_buffersD(6) [OF assms(1,2,4,5)] by (simp add: full_buffer_append)
qed

lemma log_buffers_filled:
  assumes "log_buffers q T F d" "W = length T div 4080" "W < F + 2" "length (T @ x) div 4080 = W"
    and "filling_buffer q (T @ x) W c b" "length (buf_bytes b) = 8192"
    and "d' = d\<lparr>data_buffer_list := (data_buffer_list d)(W mod 2 := b), cur_dump_seqnum := c\<rparr>"
  shows "log_buffers q (T @ x) F d'"
proof -
  note lb = log_buffersD [OF assms(1,2)]
  have "length (T @ x) < 4080 * (F + 2)" using assms(3,4) by (simp only: div_less_iff_less_mult mult.commute) simp
  moreover have "buf_state (data_buffer_list d' ((W + 1) mod 2)) = DATA_BUFFER_STATE_FREE" if "W = F"
    using lb(8) [OF that] buffer_other [of W] by (simp add: assms(7))
  moreover have "full_buffer q (T @ x) k (data_buffer_list d' (k mod 2))" if "F \<le> k" "k < W" for k
    using other_full_buffer [OF assms(1-3) that] by (simp add: assms(7))
  ultimately show ?thesis
    unfolding log_buffers_def Let_def assms(4) using lb(1,3-5) assms(3,5,6) by (simp add: assms(7))
qed

lemma output_round_open:
  assumes "log_buffers q T F d" "length T div 4080 < F + 2" "written + n \<le> length buf" "n \<le> 8160"
    and "u = round_len T n" "u < 4080 - length T mod 4080" "T' = T @ take u (drop written buf)"
  shows "\<exists>d'. output_round buf (w_seqnum d, written, n) d = Some ((w_seqnum d', written + u, n - u), d') \<and>
    log_buffers q T' F d' \<and> same_flash d d'"
proof -
  define W m where "W = length T div 4080" and "m = length T mod 4080"
  let ?i = "W mod 2" and ?b = "data_buffer_list d (W mod 2)"
  note lb = log_buffersD [OF assms(1) W_def]
  have W: "w_seqnum d = ?i" "W < F + 2" using lb(3) assms(2) by (simp_all add: W_def)
  have fb: "filling_buffer q T W (cur_dump_seqnum d) ?b" "length (buf_bytes ?b) = 8192" using lb(5) lb(7) [OF W(2)] by simp_all
  obtain b1 b2 where c: "start_sector (cur_dump_seqnum d) (open_buffer ?b) = Some (q + of_nat W + 1, b1)" "part_len b1 n = u"
    "sub32 n u = n - u" "copy_part buf written u b1 = Some b2" "buf_state b2 = DATA_BUFFER_STATE_WRITTING" "buf_offset b2 = 16 + m + u"
    "length (buf_bytes b2) = 8192" "take (16 + m + u) (buf_bytes b2) = log_header (q + of_nat W) @ drop (4080 * W) T'"
    using copy_round [OF fb W_def assms(3,4,5) m_def] unfolding assms(7) by blast
  have nf: "16 + m + u \<noteq> 4096" using assms(6) by (simp add: m_def)
  define d' where "d' = d\<lparr>data_buffer_list := (data_buffer_list d)(?i := b2), cur_dump_seqnum := q + of_nat W + 1\<rparr>"
  have "data_buff ?i d = Some ?b" by (simp add: data_buff_def)
  then have r: "output_round buf (w_seqnum d, written, n) d = Some ((w_seqnum d', written + u, n - u), d')"
    unfolding output_round_def by (simp add: W(1) c nf d'_def)
  have "u \<le> n" using assms(5) round_len_le(1) by simp
  then have lx: "length T' = length T + u" using assms(3,7) by simp
  have lT: "length T' div 4080 = W" "length T' mod 4080 = m + u"
    unfolding lx using div_add_round [of u "length T"] assms(6) unfolding W_def m_def by simp_all
  have "filling_buffer q T' W (q + of_nat W + 1) b2" using c(5,6,8) lT(2) by (simp add: filling_buffer_def)
  then have "log_buffers q T' F d'"
    unfolding assms(7) by (rule log_buffers_filled [OF assms(1) W_def W(2) lT(1) [unfolded assms(7)] _ c(7) d'_def])
  moreover have "same_flash d d'" by (simp add: same_flash_def d'_def)
  ultimately show ?thesis using r by blast
qed

lemma turn_buffer_run:
  assumes "w_seqnum d = k mod 2" "d' = d\<lparr>w_seqnum := (k + 1) mod 2\<rparr>"
    and "buf_state (data_buffer_list d' ((k + 1) mod 2)) = 0 \<or> buf_state (data_buffer_list d' ((k + 1) mod 2)) = 2 \<and> n = 0"
  shows "turn_buffer written n d = Some (((k + 1) mod 2, written, n), d')"
  using assms(3) unfolding turn_buffer_def assms(1) next_buffer_mod assms(2) [symmetric] by (auto simp: assms(2) data_buff_def)

lemma log_buffers_next_state:
  assumes "log_buffers q T F d" "W = length T div 4080" "W < F + 2"
  shows "buf_state (((data_buffer_list d)(W mod 2 := b)) ((W + 1) mod 2)) = (if W = F then 0 else 2)"
proof (cases "W = F")
  case True
  from log_buffersD(8) [OF assms(1,2) this] True buffer_other [of W] show ?thesis by simp
next
  case False
  then have W1: "W = F + 1" using log_buffersD(1) [OF assms(1,2)] assms(3) by simp
  have W: "W = F + 1" "(W + 1) mod 2 = F mod 2" unfolding W1 by simp_all
  have "full_buffer q T F (data_buffer_list d (F mod 2))" using log_buffersD(6) [OF assms(1,2)] W(1) by simp
  with W buffer_other [of W] show ?thesis by (simp add: full_buffer_def)
qed

lemma log_buffers_full:
  assumes "log_buffers q T F d" "W = length T div 4080" "W < F + 2" "length (T @ x) = 4080 * (W + 1)"
    and "full_buffer q (T @ x) W b" "length (buf_bytes b) = 8192"
    and "d' = d\<lparr>data_buffer_list := (data_buffer_list d)(W mod 2 := b), cur_dump_seqnum := q + of_nat W + 1, w_seqnum := (W + 1) mod 2\<rparr>"
  shows "log_buffers q (T @ x) F d'"
proof -
  note lb = log_buffersD [OF assms(1,2)]
  have W: "length (T @ x) div 4080 = W + 1" "length (T @ x) mod 4080 = 0" unfolding assms(4) by (rule nonzero_mult_div_cancel_left, simp) simp
  have "full_buffer q (T @ x) k (data_buffer_list d' (k mod 2))" if "F \<le> k" "k < W + 1" for k
    using other_full_buffer [OF assms(1-3) that(1)] that(2) assms(5) by (cases "k = W") (simp_all add: assms(7))
  moreover have "filling_buffer q (T @ x) (W + 1) (cur_dump_seqnum d') (data_buffer_list d' ((W + 1) mod 2))" if "W + 1 < F + 2"
    using log_buffers_next_state [OF assms(1-3), of b] that lb(1) W(2) unfolding filling_buffer_def by (simp add: assms(7) ac_simps)
  moreover have "length (T @ x) \<le> 4080 * (F + 2)" using assms(3,4) by simp
  ultimately show ?thesis
    unfolding log_buffers_def Let_def W(1) using lb(1,4,5) assms(3,6) by (simp add: assms(7) ac_simps)
qed

lemma output_round_full:
  assumes "log_buffers q T F d" "length T div 4080 < F + 2" "written + n \<le> length buf" "n \<le> 8160" "length T + n \<le> 4080 * (F + 2)"
    and "u = round_len T n" "u = 4080 - length T mod 4080" "T' = T @ take u (drop written buf)"
  shows "\<exists>d'. output_round buf (w_seqnum d, written, n) d = Some ((w_seqnum d', written + u, n - u), d') \<and>
    log_buffers q T' F d' \<and> same_flash d d' \<and> length T' = 4080 * (length T div 4080 + 1)"
proof -
  define W m where "W = length T div 4080" and "m = length T mod 4080"
  let ?i = "W mod 2" and ?b = "data_buffer_list d (W mod 2)"
  note lb = log_buffersD [OF assms(1) W_def]
  have W: "w_seqnum d = ?i" "W < F + 2" "F \<le> W" using lb(1,3) assms(2) by (simp_all add: W_def)
  have fb: "filling_buffer q T W (cur_dump_seqnum d) ?b" "length (buf_bytes ?b) = 8192" using lb(5) lb(7) [OF W(2)] by simp_all
  have e: "16 + m + u = 4096" using assms(7) by (simp add: m_def)
  obtain b1 b2 where c: "start_sector (cur_dump_seqnum d) (open_buffer ?b) = Some (q + of_nat W + 1, b1)" "part_len b1 n = u"
    "sub32 n u = n - u" "copy_part buf written u b1 = Some b2" "buf_offset b2 = 4096"
    "length (buf_bytes b2) = 8192" "take 4096 (buf_bytes b2) = log_header (q + of_nat W) @ drop (4080 * W) T'"
    using copy_round [OF fb W_def assms(3,4,6) m_def] unfolding assms(8) e by blast
  have "u \<le> n" using assms(6) round_len_le(1) by simp
  then have lx: "length T' = length T + u" using assms(3,8) by simp
  have lT: "length T' = 4080 * (W + 1)"
  proof -
    have "m + u = 4080" using e by simp
    moreover have "length T' = 4080 * W + (m + u)" using lx by (simp add: W_def m_def)
    ultimately show ?thesis by simp
  qed
  have room: "n - u = 0" if "W = F + 1"
  proof -
    have "length T + u = 4080 * (F + 2)" using that lx lT by simp
    with assms(5) show ?thesis by simp
  qed
  define b3 where "b3 = b2\<lparr>buf_state := DATA_BUFFER_STATE_WRITTEN\<rparr>"
  define d1 where "d1 = d\<lparr>data_buffer_list := (data_buffer_list d)(?i := b3), cur_dump_seqnum := q + of_nat W + 1\<rparr>"
  define d' where "d' = d1\<lparr>w_seqnum := (W + 1) mod 2\<rparr>"
  have "turn_buffer (written + u) (n - u) d1 = Some (((W + 1) mod 2, written + u, n - u), d')"
    by (rule turn_buffer_run [OF _ d'_def])
      (use log_buffers_next_state [OF assms(1) W_def W(2), of b3] room W in \<open>auto simp: d1_def d'_def\<close>)
  moreover have "data_buff ?i d = Some ?b" by (simp add: data_buff_def)
  ultimately have r: "output_round buf (w_seqnum d, written, n) d = Some ((w_seqnum d', written + u, n - u), d')"
    unfolding output_round_def W(1) by (simp add: c b3_def d1_def d'_def)
  have "full_buffer q T' W b3" using c(5,7) lT by (simp add: full_buffer_def b3_def log_block_def)
  then have "log_buffers q T' F d'"
    unfolding assms(8) by (rule log_buffers_full [OF assms(1) W_def W(2) lT [unfolded assms(8)]]) (simp_all add: c(6) b3_def d1_def d'_def)
  moreover have "same_flash d d'" by (simp add: same_flash_def d1_def d'_def)
  ultimately show ?thesis using r lT unfolding W_def by blast
qed

lemma output_loop_appends:
  assumes "log_buffers q T F d" "length T div 4080 < F + 2" "written + n \<le> length buf" "length T + n \<le> 4080 * (F + 2)"
  shows "\<exists>d'. output_loop buf (w_seqnum d, written, n) d = Some d' \<and> log_buffers q (T @ take n (drop written buf)) F d' \<and> same_flash d d'"
  using assms
proof (induction n arbitrary: T d written rule: less_induct)
  case (less n)
  let ?u = "round_len T n" let ?T' = "T @ take ?u (drop written buf)"
  have "F \<le> length T div 4080" using less.prems(1) by (simp add: log_buffers_def Let_def)
  then have "F * 4080 \<le> length T div 4080 * 4080" by (rule mult_le_mono1)
  also have "\<dots> \<le> length T" by (rule div_times_less_eq_dividend)
  finally have n: "n \<le> 8160" using less.prems(4) by simp
  note u = round_len_le [where T = T and n = n]
  have all: "T @ take n (drop written buf) = ?T' @ take (n - ?u) (drop (written + ?u) buf)"
    using take_add [of ?u "n - ?u" "drop written buf"] u(1) by (simp add: add.commute)
  show ?case
  proof (cases "?u < 4080 - length T mod 4080")
    case True
    then have un: "?u = n" by (simp add: round_len_def)
    from output_round_open [OF less.prems(1-3) n refl True refl] obtain d' where
      "output_round buf (w_seqnum d, written, n) d = Some ((w_seqnum d', written + ?u, n - ?u), d')" "log_buffers q ?T' F d'" "same_flash d d'" by blast
    with un show ?thesis by (intro exI [of _ d'], subst output_loop.simps) simp
  next
    case False
    then have e: "?u = 4080 - length T mod 4080" using u(2) by simp
    from output_round_full [OF less.prems(1-3) n less.prems(4) refl e refl] obtain d1 where
      r: "output_round buf (w_seqnum d, written, n) d = Some ((w_seqnum d1, written + ?u, n - ?u), d1)" "log_buffers q ?T' F d1" "same_flash d d1"
      "length ?T' = 4080 * (length T div 4080 + 1)" by blast
    show ?thesis
    proof (cases "n - ?u = 0")
      case True
      with r(1-3) u(1) show ?thesis by (intro exI [of _ d1], subst output_loop.simps) simp
    next
      case more: False
      have "length ?T' + (n - ?u) = length T + n" using u(1) less.prems(3) by simp
      with less.prems(4) have room: "length ?T' + (n - ?u) \<le> 4080 * (F + 2)" by simp
      have "4080 * (length T div 4080 + 1) < 4080 * (F + 2)" using room more r(4) by linarith
      then have "length ?T' div 4080 < F + 2" unfolding r(4) by simp
      moreover have "n - ?u < n" using more u(3) by simp
      moreover have "written + ?u + (n - ?u) \<le> length buf" using less.prems(3) u(1) by simp
      ultimately obtain d' where "output_loop buf (w_seqnum d1, written + ?u, n - ?u) d1 = Some d'"
        "log_buffers q (?T' @ take (n - ?u) (drop (written + ?u) buf)) F d'" "same_flash d1 d'"
        using less.IH [OF _ r(2) _ _ room, of "written + ?u"] by blast
      with r(1,3) more all show ?thesis
        by (intro exI [of _ d'], subst output_loop.simps) (auto intro: same_flash_trans)
    qed
  qed
qed

section \<open>The region in the flash\<close>

definition log_sectors :: "log_dump \<Rightarrow> nat" where
  "log_sectors d = flash_len d div 4096"

text \<open>The region is that of the module, and not at the end of the chip.\<close>

definition log_region :: "log_dump \<Rightarrow> bool" where
  "log_region d \<longleftrightarrow> user (dump_api d) 0 \<and> mod_base_addr (mod_info (dump_api d) 0) = flash_start_addr d \<and>
     mod_len (mod_info (dump_api d) 0) = flash_len d \<and> 0 < flash_len d \<and>
     pos (flash_start_addr d) + flash_len d < tot (dump_api d)"

text \<open>
  The next sector to be written is the one behind sector \<open>o + F - 1\<close>, counted round the region; it is erased in the state
  \<open>ERASED\<close>; all others hold the newest blocks, as far as there are any.
\<close>

definition log_stored :: "u32 \<Rightarrow> nat \<Rightarrow> byte list \<Rightarrow> nat \<Rightarrow> (nat \<Rightarrow> nat \<Rightarrow> byte) \<Rightarrow> log_dump \<Rightarrow> bool" where
  "log_stored q p T F M d \<longleftrightarrow> (let N = log_sectors d in
     p < N \<and> flash_offs d = 4096 * ((p + F) mod N) \<and>
     (flash_state d = LOG_DUMP_FLASH_STATE_IDLE \<or> flash_state d = LOG_DUMP_FLASH_STATE_ERASED) \<and>
     (flash_state d = LOG_DUMP_FLASH_STATE_ERASED \<longrightarrow> (\<forall>x<4096. M 0 (flash_start_addr d + flash_offs d + x) = 255)) \<and>
     (\<forall>k<F. F \<le> k + N \<longrightarrow> (flash_state d = LOG_DUMP_FLASH_STATE_ERASED \<longrightarrow> F < k + N) \<longrightarrow>
        (\<forall>x<4096. M 0 (flash_start_addr d + 4096 * ((p + k) mod N) + x) = log_block q T k ! x)))"

definition log_ok :: "u32 \<Rightarrow> nat \<Rightarrow> byte list \<Rightarrow> nat \<Rightarrow> (nat \<Rightarrow> nat \<Rightarrow> byte) \<Rightarrow> log_dump \<Rightarrow> bool" where
  "log_ok q p T F M d \<longleftrightarrow> dump_is_init d \<and> \<not> is_immediately d \<and> log_region d \<and> holds (dump_api d) M \<and>
     log_buffers q T F d \<and> log_stored q p T F M d"

lemma mod_next_differ:
  assumes "k < F" "F < k + N"
  shows "(p + k) mod N \<noteq> (p + F) mod (N :: nat)"
proof
  assume "(p + k) mod N = (p + F) mod N"
  then have "(p + F) mod N = (p + k) mod N" by simp
  with assms(1) have "N dvd (p + F) - (p + k)" by (subst (asm) mod_eq_dvd_iff_nat) simp_all
  then have "N dvd F - k" by simp
  from dvd_imp_le [OF this] assms show False by simp
qed

lemma log_region_facts:
  assumes "log_region d" "holds (dump_api d) M" "i < log_sectors d" "S = flash_start_addr d + 4096 * i"
  shows "flash_len d = 4096 * log_sectors d" "flash_start_addr d mod 4096 = 0" "S div 4096 * 4096 = S" "S + 4096 < 4294967296"
    "sector_range (dump_api d) 0 S 4096" "not_last (dump_api d) S"
    "add32 (flash_start_addr d) (4096 * i) = S" "x < 4096 \<Longrightarrow> (S + x) div 4096 * 4096 = S"
proof -
  let ?mi = "mod_info (dump_api d) 0"
  have u: "user (dump_api d) 0" "mod_base_addr ?mi = flash_start_addr d" "mod_len ?mi = flash_len d" using assms(1) by (simp_all add: log_region_def)
  have ok: "mod_ok (tot (dump_api d)) ?mi" using holds_cases [OF assms(2)] holds_mod u(1) by metis
  show st: "flash_start_addr d mod 4096 = 0" and len: "flash_len d = 4096 * log_sectors d"
    using ok u by (auto simp: mod_ok_def log_sectors_def)
  have b: "flash_start_addr d + flash_len d < 4294967296" using ok u by (simp add: mod_ok_def)
  have i: "4096 * i + 4096 \<le> flash_len d" using assms(3) len by simp
  show lt: "S + 4096 < 4294967296"
  proof -
    have "S + 4096 \<le> flash_start_addr d + flash_len d" using i assms(4) by simp
    moreover have "S + 4096 \<noteq> 4294967296" using b calculation by simp
    ultimately show ?thesis using b by simp
  qed
  have "4096 dvd flash_start_addr d" using st by presburger
  then have dv: "4096 dvd S" using assms(4) by simp
  then show S: "S div 4096 * 4096 = S" by simp
  show "(S + x) div 4096 * 4096 = S" if "x < 4096"
  proof -
    obtain c where c: "S = 4096 * c" using dv by blast
    have "(4096 * c + x) div 4096 = c" using that by simp
    then show ?thesis by (simp add: c)
  qed
  show "add32 (flash_start_addr d) (4096 * i) = S" using lt assms(4) by (simp add: add32_id)
  have "S mod 4096 = 0" using dv by presburger
  then show "sector_range (dump_api d) 0 S 4096" using u i assms(4) by (simp add: sector_range_def)
  have "pos S = pos (flash_start_addr d) + (S - flash_start_addr d)"
    using off_in_mod(1) [OF ok, of S] u i assms(4) by simp
  with assms(1,4) i show "not_last (dump_api d) S" by (simp add: not_last_def log_region_def)
qed

text \<open>The hook in the state \<open>IDLE\<close>.\<close>

definition next_sector :: "log_dump \<Rightarrow> nat" where
  "next_sector d = flash_start_addr d + flash_offs d"

lemma next_sector_facts:
  assumes "log_region d" "holds (dump_api d) M" "log_stored q p T F M d"
  shows "next_sector d div 4096 * 4096 = next_sector d" "sector_range (dump_api d) 0 (next_sector d) 4096" "not_last (dump_api d) (next_sector d)"
    "add32 (flash_start_addr d) (flash_offs d) = next_sector d" "flash_offs d mod 4096 = 0" "flash_offs d + 4096 \<le> flash_len d"
    "flash_len d < 4294963200"
proof -
  let ?N = "log_sectors d"
  have p: "p < ?N" "flash_offs d = 4096 * ((p + F) mod ?N)" using assms(3) by (simp_all add: log_stored_def Let_def)
  then have i: "(p + F) mod ?N < ?N" by simp
  note r = log_region_facts [OF assms(1,2) i, folded p(2), OF next_sector_def]
  show "next_sector d div 4096 * 4096 = next_sector d" "sector_range (dump_api d) 0 (next_sector d) 4096"
    "not_last (dump_api d) (next_sector d)" "add32 (flash_start_addr d) (flash_offs d) = next_sector d" by (rule r)+
  show "flash_offs d mod 4096 = 0" using p(2) by simp
  define j where "j = (p + F) mod ?N"
  have "j < ?N" using i by (simp add: j_def)
  then show "flash_offs d + 4096 \<le> flash_len d" unfolding p(2) r(1) j_def [symmetric] by simp
  have "tot (dump_api d) < 16777216" using assms(1) holds_cases [OF assms(2)] holds_mod by (metis log_region_def mod_ok_def)
  then show "flash_len d < 4294963200" using assms(1) by (simp add: log_region_def)
qed

lemma same_sector_elsewhere:
  assumes "log_region d" "holds (dump_api d) M" "i < log_sectors d" "j < log_sectors d" "i \<noteq> j" "x < 4096"
  shows "(flash_start_addr d + 4096 * i + x) div 4096 * 4096 \<noteq> flash_start_addr d + 4096 * j"
  using log_region_facts(8) [OF assms(1,2,3) refl assms(6)] assms(5) by simp

lemma flush_idle:
  assumes "log_ok q p T F M d" "flash_state d = LOG_DUMP_FLASH_STATE_IDLE" "enough (dump_api d)" "erase_guard (dump_api d) 0 (next_sector d)"
  shows "\<exists>d'. log_dump_flush d = Some (0, d') \<and> flash_state d' = LOG_DUMP_FLASH_STATE_ERASED \<and>
    log_ok q p T F (store_erase 0 (next_sector d) M) d' \<and> \<not> sector_writing (dump_api d') 0 (next_sector d') \<and>
    same_places (dump_api d) (dump_api d') \<and> (pending_ops (dump_api d) < 15 \<longrightarrow> brief (dump_api d) (dump_api d'))"
proof -
  let ?S = "next_sector d" and ?N = "log_sectors d"
  have d: "dump_is_init d" "\<not> is_immediately d" "log_region d" "holds (dump_api d) M" "log_buffers q T F d" "log_stored q p T F M d"
    using assms(1) by (simp_all add: log_ok_def)
  note nx = next_sector_facts [OF d(3,4,6)]
  obtain s' where e: "flash_api_erase False ?S True (dump_api d) = Some (NORFLASH_API_OK, s')" "holds s' (store_erase 0 ?S M)"
    "same_places (dump_api d) s'" "\<not> sector_writing s' 0 ?S"
    using flash_api_erase_holds [OF d(4) assms(3) nx(2,3) assms(4)] by blast
  have br: "pending_ops (dump_api d) < 15 \<longrightarrow> brief (dump_api d) s'"
    using flash_api_erase_brief [OF d(4) nx(2,3) assms(4) _ e(1)] by blast
  define d' where "d' = d\<lparr>dump_api := s', flash_state := LOG_DUMP_FLASH_STATE_ERASED\<rparr>"
  have sel: "dump_api d' = s'" "flash_state d' = LOG_DUMP_FLASH_STATE_ERASED" "flash_start_addr d' = flash_start_addr d" "flash_len d' = flash_len d"
    "flash_offs d' = flash_offs d" "dump_is_init d'" "\<not> is_immediately d'" "log_sectors d' = ?N" "next_sector d' = ?S"
    using d(1,2) by (simp_all add: d'_def log_sectors_def next_sector_def)
  have "log_dump_flush d = Some (0, d')"
    using d(1,2) assms(2) nx(4,5) e(1) by (simp add: log_dump_flush_def log_dump_flush_buffers_def flush_erase_def d'_def)
  moreover have "log_region d'"
    using d(3) same_places_keep(1,5,6) [OF e(3)] e(3) by (simp add: log_region_def sel same_places_def)
  moreover have "log_buffers q T F d'" using d(5) by (simp add: log_buffers_def Let_def d'_def)
  moreover have "log_stored q p T F (store_erase 0 ?S M) d'"
  proof -
    have st: "p < ?N" "flash_offs d = 4096 * ((p + F) mod ?N)"
      "\<And>k x. k < F \<Longrightarrow> F \<le> k + ?N \<Longrightarrow> x < 4096 \<Longrightarrow> M 0 (flash_start_addr d + 4096 * ((p + k) mod ?N) + x) = log_block q T k ! x"
      using d(6) assms(2) by (simp_all add: log_stored_def Let_def)
    have "store_erase 0 ?S M 0 (flash_start_addr d + 4096 * ((p + k) mod ?N) + x) = log_block q T k ! x"
      if k: "k < F" "F < k + ?N" and x: "x < 4096" for k x
    proof -
      have "(flash_start_addr d + 4096 * ((p + k) mod ?N) + x) div 4096 * 4096 \<noteq> flash_start_addr d + 4096 * ((p + F) mod ?N)"
        by (rule same_sector_elsewhere [OF d(3,4) _ _ mod_next_differ [OF k] x]) (use st(1) in simp_all)
      with st(2) st(3) [OF k(1) _ x] k(2) show ?thesis by (simp add: store_erase_def next_sector_def)
    qed
    moreover have "store_erase 0 ?S M 0 (?S + x) = 255" if "x < 4096" for x
    proof -
      have "(?S + x) div 4096 * 4096 = ?S"
        using log_region_facts(8) [OF d(3,4) _ _ that, of "(p + F) mod ?N"] st(1,2) by (simp add: next_sector_def)
      then show ?thesis by (simp add: store_erase_def)
    qed
    ultimately show ?thesis using st(1,2) by (simp add: log_stored_def Let_def sel next_sector_def)
  qed
  ultimately show ?thesis using e(2-4) br sel by (intro exI [of _ d']) (simp add: log_ok_def)
qed

text \<open>The hook in the state \<open>ERASED\<close>: write the oldest full buffer.\<close>

lemma log_buffers_written:
  assumes "log_buffers q T F d" "F < length T div 4080"
    and "data_buffer_list d' = (data_buffer_list d)(F mod 2 := (data_buffer_list d (F mod 2))\<lparr>buf_state := DATA_BUFFER_STATE_FREE\<rparr>)"
    and "f_seqnum d' = (F + 1) mod 2" "w_seqnum d' = w_seqnum d" "cur_dump_seqnum d' = cur_dump_seqnum d"
  shows "log_buffers q T (F + 1) d'"
proof -
  define W where "W = length T div 4080"
  note lb = log_buffersD [OF assms(1) W_def]
  have W: "F < W" "W \<le> F + 2"
  proof -
    show "F < W" using assms(2) by (simp add: W_def)
    have "length T div 4080 \<le> 4080 * (F + 2) div 4080" by (rule div_le_mono [OF lb(2)])
    then show "W \<le> F + 2" by (simp add: W_def)
  qed
  have other: "k mod 2 \<noteq> F mod 2" if "k = F + 1" for k using that by presburger
  have "full_buffer q T k (data_buffer_list d' (k mod 2))" if "F + 1 \<le> k" "k < W" for k
    using lb(6) [of k] other [of k] that W(2) by (simp add: assms(3))
  moreover have "filling_buffer q T W (cur_dump_seqnum d') (data_buffer_list d' (W mod 2))" if "W < F + 1 + 2"
  proof (cases "W = F + 2")
    case True
    have "4080 * W \<le> length T" by (simp add: W_def)
    with lb(2) True have "length T = 4080 * W" by simp
    with True lb(9) [OF True] show ?thesis by (simp add: filling_buffer_def assms(3,6))
  next
    case False
    with W lb(7) other [of W] show ?thesis by (simp add: assms(3,6))
  qed
  moreover have "buf_state (data_buffer_list d' ((W + 1) mod 2)) = DATA_BUFFER_STATE_FREE" if "W = F + 1"
    using that by (simp add: assms(3))
  moreover have "\<forall>i<2. length (buf_bytes (data_buffer_list d' i)) = LOG_DUMP_BUFFER_LEN" using lb(5) by (simp add: assms(3))
  moreover have "length T \<le> 4080 * (F + 1 + 2)" using lb(2) by simp
  ultimately show ?thesis unfolding log_buffers_def Let_def W_def [symmetric] using W lb(3) assms(4,5) by simp
qed

lemma log_buffers_facts:
  assumes "log_buffers q T F d" "F < length T div 4080"
  shows "full_buffer q T F (data_buffer_list d (F mod 2))" "f_seqnum d = F mod 2" "length (log_block q T F) = 4096"
    "length (buf_bytes (data_buffer_list d (F mod 2))) = 8192"
proof -
  note lb = log_buffersD [OF assms(1) refl]
  show "full_buffer q T F (data_buffer_list d (F mod 2))" "f_seqnum d = F mod 2" using lb(6) [of F] lb(4) assms(2) by simp_all
  have "4080 * (F + 1) \<le> 4080 * (length T div 4080)" using assms(2) by simp
  also have "\<dots> \<le> length T" by simp
  finally have "4080 * (F + 1) \<le> length T" .
  then show "length (log_block q T F) = 4096" by (rule length_log_block)
  show "length (buf_bytes (data_buffer_list d (F mod 2))) = 8192" by (rule lb(5)) simp
qed

lemma not_in_sector:
  fixes S a :: nat
  assumes "S div 4096 * 4096 = S" "a div 4096 * 4096 \<noteq> S"
  shows "\<not> (S \<le> a \<and> a < S + 4096)"
proof
  assume a: "S \<le> a \<and> a < S + 4096"
  have "a div 4096 = S div 4096" by (rule div_nat_eqI) (use a assms(1) in simp_all)
  with assms show False by simp
qed

lemma byte_and_ff: "y AND 255 = y" "255 AND y = y" for y :: byte
proof -
  have "(255 :: byte) = - 1" by simp
  then show "y AND 255 = y" "255 AND y = y" by (simp_all only: and.left_neutral and.right_neutral)
qed

text \<open>The region after the block has been written.\<close>

lemma log_stored_written:
  assumes "log_region d" "holds (dump_api d) M" "log_stored q p T F M d" "flash_state d = LOG_DUMP_FLASH_STATE_ERASED"
    and "length (log_block q T F) = 4096" "k < F + 1" "F + 1 \<le> k + log_sectors d" "x < 4096"
  shows "store_write 0 (next_sector d) (log_block q T F) M 0 (flash_start_addr d + 4096 * ((p + k) mod log_sectors d) + x) = log_block q T k ! x"
proof -
  let ?N = "log_sectors d" and ?S = "next_sector d" and ?a = "flash_start_addr d + 4096 * ((p + k) mod log_sectors d) + x"
  have st: "p < ?N" "flash_offs d = 4096 * ((p + F) mod ?N)" "\<And>x. x < 4096 \<Longrightarrow> M 0 (?S + x) = 255"
    "\<And>k x. k < F \<Longrightarrow> F < k + ?N \<Longrightarrow> x < 4096 \<Longrightarrow> M 0 (flash_start_addr d + 4096 * ((p + k) mod ?N) + x) = log_block q T k ! x"
    using assms(3,4) unfolding log_stored_def Let_def next_sector_def by (blast, blast, metis, simp)
  show ?thesis
  proof (cases "k = F")
    case True
    then have "?a = ?S + x" using st(2) by (simp add: next_sector_def)
    with st(3) [OF assms(8)] assms(5,8) byte_and_ff True show ?thesis by (simp add: store_write_def)
  next
    case False
    then have kF: "k < F" "F < k + ?N" using assms(6,7) by simp_all
    have ne: "?a div 4096 * 4096 \<noteq> flash_start_addr d + 4096 * ((p + F) mod ?N)"
      by (rule same_sector_elsewhere [OF assms(1,2) _ _ mod_next_differ [OF kF] assms(8)]) (use st(1) in simp_all)
    have "\<not> (?S \<le> ?a \<and> ?a < ?S + 4096)"
      by (rule not_in_sector [OF next_sector_facts(1) [OF assms(1-3)]]) (use ne st(2) in \<open>simp add: next_sector_def\<close>)
    with st(4) [OF kF assms(8)] assms(5) show ?thesis by (auto simp: store_write_def)
  qed
qed

lemma next_offs:
  assumes "p < N"
  shows "(if 4096 * N \<le> 4096 * ((p + F) mod N) + 4096 then 0 else 4096 * ((p + F) mod N) + 4096) = 4096 * ((p + (F + 1)) mod (N :: nat))"
proof -
  have "(p + (F + 1)) mod N = (if (p + F) mod N + 1 = N then 0 else (p + F) mod N + 1)" using mod_Suc [of "p + F" N] by simp
  moreover have "(p + F) mod N < N" using assms by simp
  ultimately show ?thesis by auto
qed

definition written_log :: "nat \<Rightarrow> api \<Rightarrow> log_dump \<Rightarrow> log_dump" where
  "written_log k s d = d\<lparr>flash_state := LOG_DUMP_FLASH_STATE_IDLE, dump_api := s,
    data_buffer_list := (data_buffer_list d)(k mod 2 := (data_buffer_list d (k mod 2))\<lparr>buf_state := DATA_BUFFER_STATE_FREE\<rparr>),
    f_seqnum := (k + 1) mod 2, total_len := add32 (total_len d) 4096,
    flash_offs := (if flash_len d \<le> flash_offs d + 4096 then 0 else flash_offs d + 4096)\<rparr>"

lemma flush_full_buffer:
  assumes "dump_is_init d" "\<not> is_immediately d" "log_region d" "holds (dump_api d) M" "flash_state d = LOG_DUMP_FLASH_STATE_ERASED"
    and "next_sector d div 4096 * 4096 = next_sector d" "sector_range (dump_api d) 0 (next_sector d) 4096" "not_last (dump_api d) (next_sector d)"
    and "add32 (flash_start_addr d) (flash_offs d) = next_sector d" "flash_offs d + 4096 \<le> flash_len d" "flash_len d < 4294963200"
    and "\<forall>x<4096. M 0 (next_sector d + x) = 255" "f_seqnum d = k mod 2" "length (buf_bytes (data_buffer_list d (k mod 2))) = 8192"
    and "buf_state (data_buffer_list d (k mod 2)) = DATA_BUFFER_STATE_WRITTEN" "buf_offset (data_buffer_list d (k mod 2)) = 4096"
    and "enough (dump_api d)" "\<not> sector_writing (dump_api d) 0 (next_sector d)"
  shows "\<exists>s'. log_dump_flush d = Some (0, written_log k s' d) \<and>
    holds s' (store_write 0 (next_sector d) (take 4096 (buf_bytes (data_buffer_list d (k mod 2)))) M) \<and>
    same_places (dump_api d) s' \<and> (pending_ops (dump_api d) < 4 \<longrightarrow> brief (dump_api d) s')"
proof -
  let ?S = "next_sector d" and ?b = "data_buffer_list d (k mod 2)"
  define B where "B = take 4096 (buf_bytes ?b)"
  have B: "length B = 4096" using assms(14) by (simp add: B_def)
  have w: "\<forall>k<length B. B ! k AND M 0 (?S + k) = B ! k" "sector_range (dump_api d) 0 ?S (length B)"
    "not_last (dump_api d) (?S div 4096 * 4096)" "\<not> sector_writing (dump_api d) 0 (?S div 4096 * 4096)"
    using assms(6-8,12,18) B byte_and_ff by simp_all
  obtain s' where e: "flash_api_write False ?S B True (dump_api d) = Some (NORFLASH_API_OK, s')"
    "holds s' (store_write 0 ?S B M)" "same_places (dump_api d) s'"
    using flash_api_write_holds [OF assms(4,17) w(2-4,1)] by blast
  have br: "pending_ops (dump_api d) < 4 \<longrightarrow> brief (dump_api d) s'"
    using flash_api_write_brief [OF assms(4) w(2-4,1) _ e(1)] by blast
  have "add32 (flash_offs d) 4096 = flash_offs d + 4096" using assms(10,11) by (simp add: add32_id)
  then have "flush_write 2 True d = Some (0, written_log k s' d)"
    unfolding flush_write_def using assms(2,9,13-16) e(1) by (simp add: data_buff_def next_buffer_mod written_log_def Let_def B_def)
  then have "log_dump_flush d = Some (0, written_log k s' d)"
    using assms(1,5) by (simp add: log_dump_flush_def log_dump_flush_buffers_def)
  with e(2,3) br show ?thesis unfolding B_def by blast
qed

lemma flush_erased_write:
  assumes "log_ok q p T F M d" "flash_state d = LOG_DUMP_FLASH_STATE_ERASED" "F < length T div 4080" "enough (dump_api d)"
    and "\<not> sector_writing (dump_api d) 0 (next_sector d)"
  shows "\<exists>d'. log_dump_flush d = Some (0, d') \<and> flash_state d' = LOG_DUMP_FLASH_STATE_IDLE \<and>
    log_ok q p T (F + 1) (store_write 0 (next_sector d) (log_block q T F) M) d' \<and> same_places (dump_api d) (dump_api d') \<and>
    (pending_ops (dump_api d) < 4 \<longrightarrow> brief (dump_api d) (dump_api d'))"
proof -
  let ?S = "next_sector d" and ?N = "log_sectors d" and ?B = "log_block q T F" and ?b = "data_buffer_list d (F mod 2)"
  have d: "dump_is_init d" "\<not> is_immediately d" "log_region d" "holds (dump_api d) M" "log_buffers q T F d" "log_stored q p T F M d"
    using assms(1) by (simp_all add: log_ok_def)
  note nx = next_sector_facts [OF d(3,4,6)] and lf = log_buffers_facts [OF d(5) assms(3)]
  have st: "p < ?N" "flash_offs d = 4096 * ((p + F) mod ?N)" "\<forall>x<4096. M 0 (?S + x) = 255"
    using d(6) assms(2) unfolding log_stored_def Let_def next_sector_def by (blast, blast, metis)
  have b: "buf_state ?b = 2" "buf_offset ?b = 4096" "take 4096 (buf_bytes ?b) = ?B" using lf(1) by (simp_all add: full_buffer_def)
  obtain s' where e: "log_dump_flush d = Some (0, written_log F s' d)" "holds s' (store_write 0 ?S ?B M)"
    "same_places (dump_api d) s'" "pending_ops (dump_api d) < 4 \<longrightarrow> brief (dump_api d) s'"
    using flush_full_buffer [OF d(1-4) assms(2) nx(1-4,6,7) st(3) lf(2,4) b(1,2) assms(4,5)] unfolding b(3) by blast
  define d' where "d' = written_log F s' d"
  have sel: "dump_api d' = s'" "flash_state d' = LOG_DUMP_FLASH_STATE_IDLE" "flash_start_addr d' = flash_start_addr d" "flash_len d' = flash_len d"
    "dump_is_init d'" "\<not> is_immediately d'" "log_sectors d' = ?N" using d(1,2) by (simp_all add: d'_def written_log_def log_sectors_def)
  have reg: "log_region d'"
    using d(3) same_places_keep(1,5,6) [OF e(3)] e(3) by (simp add: log_region_def sel same_places_def)
  have buf: "log_buffers q T (F + 1) d'"
    by (rule log_buffers_written [OF d(5) assms(3)]) (simp_all add: d'_def written_log_def)
  have "flash_len d = 4096 * ?N" using log_region_facts(1) [OF d(3,4) st(1) refl] .
  then have "flash_offs d' = (if 4096 * ?N \<le> 4096 * ((p + F) mod ?N) + 4096 then 0 else 4096 * ((p + F) mod ?N) + 4096)"
    using st(2) by (simp add: d'_def written_log_def)
  then have offs: "flash_offs d' = 4096 * ((p + (F + 1)) mod ?N)" unfolding next_offs [OF st(1)] .
  have "log_stored q p T (F + 1) (store_write 0 ?S ?B M) d'"
    unfolding log_stored_def Let_def sel offs
    using st(1) log_stored_written [OF d(3,4,6) assms(2) lf(3)] by (simp only: simp_thms) blast
  with reg buf e sel show ?thesis by (intro exI [of _ d']) (simp add: log_ok_def d'_def [symmetric])
qed

lemma flush_erased_wait:
  assumes "log_ok q p T F M d" "flash_state d = LOG_DUMP_FLASH_STATE_ERASED" "length T div 4080 = F"
  shows "log_dump_flush d = Some (0, d)"
proof -
  have d: "dump_is_init d" "log_buffers q T F d" using assms(1) by (simp_all add: log_ok_def)
  note lb = log_buffersD [OF d(2) assms(3) [symmetric]]
  have "filling_buffer q T F (cur_dump_seqnum d) (data_buffer_list d (F mod 2))" using lb(7) by simp
  then have "buf_state (data_buffer_list d (F mod 2)) AND 2 = 0" by (auto simp: filling_buffer_def)
  then show ?thesis
    using d(1) assms(2) lb(4) by (simp add: log_dump_flush_def log_dump_flush_buffers_def flush_write_def data_buff_def)
qed

end
