(* ===== verification/LogStart.thy ===== *)
theory LogStart
  imports LogSpec
begin

text \<open>
  The start of the trace log: reading the headers in the flash finds the newest sector, so that a restart goes on
  behind it with the next number. What this needs of the contents of the region (\<open>log_next\<close>) holds for an erased region and is kept by
  every erase and write of the hook, so that it still holds at the next restart.
\<close>

section \<open>Headers\<close>

definition headed :: "byte list \<Rightarrow> bool" where
  "headed h \<longleftrightarrow> get32 h 0 = Some DUMP_LOG_MAGIC \<and> get32 h 1 = Some DUMP_LOG_VERSION"

definition header_seqnum :: "byte list \<Rightarrow> u32" where
  "header_seqnum h = the (get32 h 2)"

lemma log_header_fields: "headed (log_header q)" "header_seqnum (log_header q) = q"
  by (simp_all add: headed_def header_seqnum_def log_header_def get32_def)

lemma get32_16: "length h = 16 \<Longrightarrow> i < 4 \<Longrightarrow> \<exists>w. get32 h i = Some w"
  by (simp add: get32_def)

text \<open>The loop over the sectors.\<close>

lemma seqnum_loop_spec:
  assumes "\<And>i. i \<in> set is \<Longrightarrow> norflash_sync_read 0 (add32 (flash_start_addr d) (i * 4096)) 16 (dump_api d) = Some (NORFLASH_API_OK, h i)"
    and "\<And>i. i \<in> set is \<Longrightarrow> length (h i) = 16"
  shows "\<exists>mx' sec'. seqnum_loop d is ex mx sec = Some (ex \<or> (\<exists>i \<in> set is. headed (h i)), mx', sec') \<and> mx \<le> mx' \<and>
    (\<forall>i \<in> set is. headed (h i) \<longrightarrow> header_seqnum (h i) \<le> mx') \<and>
    (mx' = mx \<and> sec' = sec \<or> sec' \<in> set is \<and> headed (h sec') \<and> header_seqnum (h sec') = mx')"
  using assms
proof (induction "is" arbitrary: ex mx sec)
  case (Cons i js)
  let ?ex = "ex \<or> headed (h i)" and ?new = "headed (h i) \<and> mx < header_seqnum (h i)"
  have l: "length (h i) = 16" using Cons.prems(2) by simp
  obtain m v q where g: "get32 (h i) 0 = Some m" "get32 (h i) 1 = Some v" "get32 (h i) 2 = Some q"
    using get32_16 [OF l, of 0] get32_16 [OF l, of 1] get32_16 [OF l, of 2] by auto
  have sq: "header_seqnum (h i) = q" by (simp add: header_seqnum_def g)
  have step: "seqnum_loop d (i # js) ex mx sec = seqnum_loop d js ?ex (if ?new then q else mx) (if ?new then i else sec)"
    using Cons.prems(1) [of i] g by (cases "m = DUMP_LOG_MAGIC \<and> v = DUMP_LOG_VERSION") (auto simp: headed_def sq)
  obtain mx' sec' where ih: "seqnum_loop d js ?ex (if ?new then q else mx) (if ?new then i else sec) =
      Some (?ex \<or> (\<exists>i \<in> set js. headed (h i)), mx', sec')" "(if ?new then q else mx) \<le> mx'"
    "\<forall>i \<in> set js. headed (h i) \<longrightarrow> header_seqnum (h i) \<le> mx'"
    "mx' = (if ?new then q else mx) \<and> sec' = (if ?new then i else sec) \<or> sec' \<in> set js \<and> headed (h sec') \<and> header_seqnum (h sec') = mx'"
    using Cons.IH [of ?ex "if ?new then q else mx" "if ?new then i else sec"] Cons.prems by auto
  show ?case
  proof (intro exI [of _ mx'] exI [of _ sec'] conjI)
    show "seqnum_loop d (i # js) ex mx sec = Some (ex \<or> (\<exists>i \<in> set (i # js). headed (h i)), mx', sec')"
      unfolding step ih(1) by auto
    show "mx \<le> mx'" using ih(2) sq by (cases ?new) (auto intro: order_trans less_imp_le)
    show "\<forall>k \<in> set (i # js). headed (h k) \<longrightarrow> header_seqnum (h k) \<le> mx'"
      using ih(2,3) sq by (auto split: if_splits)
    show "mx' = mx \<and> sec' = sec \<or> sec' \<in> set (i # js) \<and> headed (h sec') \<and> header_seqnum (h sec') = mx'"
      using ih(4) sq by (auto split: if_splits)
  qed
qed simp

section \<open>The newest sector\<close>

definition sector_header :: "(nat \<Rightarrow> byte) \<Rightarrow> nat \<Rightarrow> nat \<Rightarrow> byte list" where
  "sector_header B start i = map (\<lambda>x. B (start + i * 4096 + x)) [0..<16]"

text \<open>
  The bytes \<open>B\<close> of a region of \<open>N\<close> sectors at \<open>start\<close> say that number \<open>nx\<close> comes next, in sector \<open>sx\<close>: either no sector has a
  header and both are 0, or one sector has the highest number, all other headers a lower one, and \<open>nx\<close> and \<open>sx\<close> follow it. Number 0 is only
  in sector 0.
\<close>

definition log_next :: "(nat \<Rightarrow> byte) \<Rightarrow> nat \<Rightarrow> nat \<Rightarrow> u32 \<Rightarrow> nat \<Rightarrow> bool" where
  "log_next B start N nx sx \<longleftrightarrow>
     (if \<exists>i<N. headed (sector_header B start i)
      then \<exists>j<N. headed (sector_header B start j) \<and> sx = (j + 1) mod N \<and> nx \<noteq> 0 \<and> (nx = 1 \<longrightarrow> j = 0) \<and>
        header_seqnum (sector_header B start j) + 1 = nx \<and>
        (\<forall>i<N. i \<noteq> j \<longrightarrow> headed (sector_header B start i) \<longrightarrow> header_seqnum (sector_header B start i) < header_seqnum (sector_header B start j))
      else nx = 0 \<and> sx = 0)"

lemma log_next_cases:
  assumes "log_next B start N nx sx"
  obtains (empty) "\<forall>i<N. \<not> headed (sector_header B start i)" "nx = 0" "sx = 0"
  | (top) j where "j < N" "headed (sector_header B start j)" "sx = (j + 1) mod N" "nx \<noteq> 0" "nx = 1 \<Longrightarrow> j = 0"
      "header_seqnum (sector_header B start j) + 1 = nx"
      "\<And>i. i < N \<Longrightarrow> i \<noteq> j \<Longrightarrow> headed (sector_header B start i) \<Longrightarrow> header_seqnum (sector_header B start i) < header_seqnum (sector_header B start j)"
  using assms unfolding log_next_def by (auto split: if_splits)

lemma log_next_top:
  assumes "j < N" "headed (sector_header B start j)" "nx \<noteq> 0" "nx = 1 \<longrightarrow> j = 0" "header_seqnum (sector_header B start j) + 1 = nx"
    and "\<forall>i<N. i \<noteq> j \<longrightarrow> headed (sector_header B start i) \<longrightarrow> header_seqnum (sector_header B start i) < header_seqnum (sector_header B start j)"
  shows "log_next B start N nx ((j + 1) mod N)"
proof -
  have ex: "\<exists>i<N. headed (sector_header B start i)" using assms(1,2) by blast
  show ?thesis unfolding log_next_def if_P [OF ex] using assms by blast
qed

lemma log_next_headers:
  assumes "\<And>i. i < N \<Longrightarrow> sector_header B' start i = sector_header B start i"
  shows "log_next B' start N nx sx = log_next B start N nx sx"
  unfolding log_next_def using assms by (simp cong: conj_cong imp_cong)

lemma number_less: "n + 1 \<noteq> 0 \<Longrightarrow> n < n + 1" for n :: u32
  using unatSuc [of n] by (simp add: word_less_nat_alt add.commute)

text \<open>Erasing the next sector keeps it, if it is not the only one; writing it with the next number advances it.\<close>

lemma log_next_erase:
  assumes "log_next B start N nx sx" "1 < N" "\<not> headed (sector_header B' start sx)"
    and "\<And>i. i < N \<Longrightarrow> i \<noteq> sx \<Longrightarrow> sector_header B' start i = sector_header B start i"
  shows "log_next B' start N nx sx"
  using assms(1)
proof (cases rule: log_next_cases)
  case empty
  have "\<not> headed (sector_header B' start i)" if "i < N" for i using empty(1) assms(3,4) that by metis
  with empty(2,3) show ?thesis by (simp add: log_next_def)
next
  case (top j)
  have "(j + 1) mod N \<noteq> j" using top(1) assms(2) by (cases "j + 1 = N") simp_all
  then have j: "sector_header B' start j = sector_header B start j" using assms(4) top(1,3) by metis
  have "header_seqnum (sector_header B' start i) < header_seqnum (sector_header B' start j)"
    if "i < N" "i \<noteq> j" "headed (sector_header B' start i)" for i
    using top(7) [of i] assms(3,4) that j by metis
  with top show ?thesis unfolding top(3) by (intro log_next_top) (simp_all add: j)
qed

lemma log_next_write:
  assumes "log_next B start N nx sx" "sx < N" "nx + 1 \<noteq> 0" "sector_header B' start sx = log_header nx"
    and "\<And>i. i < N \<Longrightarrow> i \<noteq> sx \<Longrightarrow> sector_header B' start i = sector_header B start i"
  shows "log_next B' start N (nx + 1) ((sx + 1) mod N)"
proof (rule log_next_top)
  show "sx < N" "nx + 1 \<noteq> 0" by (rule assms(2,3))+
  show "headed (sector_header B' start sx)" "header_seqnum (sector_header B' start sx) + 1 = nx + 1"
    by (simp_all only: assms(4) log_header_fields)
  show "nx + 1 = 1 \<longrightarrow> sx = 0" using assms(1) by (cases rule: log_next_cases) simp_all
  have "header_seqnum (sector_header B start i) < nx" if "i < N" "headed (sector_header B start i)" for i
    using assms(1)
  proof (cases rule: log_next_cases)
    case (top j)
    let ?t = "header_seqnum (sector_header B start j)"
    have "?t < nx" using number_less [of ?t] top(4) unfolding top(6) by simp
    then show ?thesis using top(7) [OF that(1) _ that(2)] by (cases "i = j") (auto intro: less_trans)
  qed (use that in blast)
  then show "\<forall>i<N. i \<noteq> sx \<longrightarrow> headed (sector_header B' start i) \<longrightarrow> header_seqnum (sector_header B' start i) < header_seqnum (sector_header B' start sx)"
    by (simp add: assms(4,5) log_header_fields)
qed

section \<open>Initialisation\<close>

text \<open>Before the start: no module yet for the region, which overlaps no other and does not end the chip.\<close>

definition log_chip :: "log_dump \<Rightarrow> nat \<Rightarrow> (nat \<Rightarrow> nat \<Rightarrow> byte) \<Rightarrow> bool" where
  "log_chip d N M \<longleftrightarrow> holds (dump_api d) M \<and> \<not> mod_inited (mod_info (dump_api d) 0) \<and> 0 < N \<and> flash_start_addr d mod 4096 = 0 \<and>
     flash_end_addr d = flash_start_addr d + 4096 * N \<and> flash_end_addr d < 4294967296 \<and>
     pos (flash_start_addr d) + 4096 * N < tot (dump_api d) \<and> tot (dump_api d) < 16777216 \<and>
     (\<forall>k. user (dump_api d) k \<longrightarrow>
        pos (mod_base_addr (mod_info (dump_api d) k)) + mod_len (mod_info (dump_api d) k) \<le> pos (flash_start_addr d) \<or>
        pos (flash_start_addr d) + 4096 * N \<le> pos (mod_base_addr (mod_info (dump_api d) k)))"

definition log_reads :: "log_dump \<Rightarrow> (nat \<Rightarrow> byte) \<Rightarrow> nat \<Rightarrow> bool" where
  "log_reads d B N \<longleftrightarrow> sub32 (flash_end_addr d) (flash_start_addr d) = 4096 * N \<and>
     (\<forall>i<N. norflash_sync_read 0 (add32 (flash_start_addr d) (i * 4096)) 16 (dump_api d) =
        Some (NORFLASH_API_OK, sector_header B (flash_start_addr d) i))"

lemma log_reads_intro:
  assumes "holds (dump_api d) M" "user (dump_api d) 0" "mod_base_addr (mod_info (dump_api d) 0) = flash_start_addr d"
    "mod_len (mod_info (dump_api d) 0) = 4096 * N" "flash_end_addr d = flash_start_addr d + 4096 * N"
  shows "log_reads d (flash_byte (dump_api d)) N"
proof -
  let ?mi = "mod_info (dump_api d) 0" and ?st = "flash_start_addr d"
  have "mod_ok (tot (dump_api d)) ?mi" using holds_cases [OF assms(1)] holds_mod assms(2) by metis
  then have b: "?st + 4096 * N < 4294967296" using assms(3,4) by (simp add: mod_ok_def)
  have "api_inited (dump_api d)" using holds_cases [OF assms(1)] by (metis inv_def)
  moreover have "\<not> out_of_range ?mi (?st + i * 4096) 16" if "i < N" for i
  proof -
    have "i * 4096 + 4096 \<le> 4096 * N" using that by simp
    with b show ?thesis by (simp add: out_of_range_def assms(3,4) add32_id)
  qed
  moreover have "add32 ?st (i * 4096) = ?st + i * 4096" if "i < N" for i
    using b that by (simp add: add32_id)
  moreover have "sub32 (flash_end_addr d) ?st = 4096 * N" using b by (simp add: assms(5) sub32_id)
  ultimately show ?thesis using assms(2)
    by (simp add: log_reads_def norflash_sync_read_def user_def flash_bytes_def sector_header_def)
qed

lemma log_dump_init_runs:
  assumes "log_chip d N M" "p < N"
    and "\<forall>d'. flash_start_addr d' = flash_start_addr d \<longrightarrow> log_reads d' (flash_byte (dump_api d)) N \<longrightarrow> get_seqnum d' = Some (q, p)"
  shows "\<exists>d'. log_dump_init d = Some d' \<and> log_ok q p [] 0 (M(0 := flash_byte (dump_api d))) d' \<and>
    flash_state d' = LOG_DUMP_FLASH_STATE_IDLE \<and> log_sectors d' = N \<and> due (dump_api d') = due (dump_api d) \<and>
    flash_hal (dump_api d') = flash_hal (dump_api d) \<and> op_used (dump_api d') = op_used (dump_api d)"
proof -
  let ?s = "dump_api d" and ?st = "flash_start_addr d"
  have c: "holds ?s M" "\<not> mod_inited (mod_info ?s 0)" "0 < N" "?st mod 4096 = 0" "flash_end_addr d = ?st + 4096 * N"
    "flash_end_addr d < 4294967296" "pos ?st + 4096 * N < tot ?s" "tot ?s < 16777216"
    using assms(1) by (simp_all add: log_chip_def)
  have sep: "\<forall>k. user ?s k \<longrightarrow> pos (mod_base_addr (mod_info ?s k)) + mod_len (mod_info ?s k) \<le> pos ?st \<or>
      pos ?st + 4096 * N \<le> pos (mod_base_addr (mod_info ?s k))" using assms(1) by (simp add: log_chip_def)
  obtain Ls F where i: "inv ?s Ls F" using holds_cases [OF c(1)] by metis
  then have g: "opened (flash_hal ?s)" "sector_size (flash_hal ?s) = 4096" by (simp_all add: inv_def hw_ok_def geom_def)
  have len: "sub32 (flash_end_addr d) ?st = 4096 * N" using c(5,6) by (simp add: sub32_id)
  obtain s' where r: "norflash_api_register 0 0 ?st (4096 * N) (block_size (flash_hal ?s)) 4096 (page_size (flash_hal ?s)) 16384 True ?s =
      Some (NORFLASH_API_OK, s')" "user s' 0" "mod_base_addr (mod_info s' 0) = ?st" "mod_len (mod_info s' 0) = 4096 * N"
      "holds s' (M(0 := flash_byte ?s))" "due s' = due ?s" "flash_hal s' = flash_hal ?s"
  proof -
    have l: "4096 * N mod 4096 = 0" "pos ?st + 4096 * N \<le> tot ?s" "?st + 4096 * N < 4294967296" using c(5-7) by simp_all
    have "(0::nat) < 8" "(4096::nat) \<le> 16384" "(16384::nat) mod 4096 = 0" by simp_all
    from register_holds [OF c(1) this(1) c(2) refl this(2,3) c(4) l(1,2) c(8) l(3) sep] show ?thesis using that by blast
  qed
  have ou: "op_used s' = op_used ?s" using r(1) by (auto simp: norflash_api_register_def set_mod_def split: if_splits)
  let ?d = "d\<lparr>dump_api := s', hooked := True\<rparr>"
  have "flash_byte s' = flash_byte ?s" by (simp add: flash_byte_def fun_eq_iff r(7))
  moreover have "log_reads ?d (flash_byte s') N" using log_reads_intro [of ?d _ N] r(2-5) c(5) by simp
  ultimately have gs: "get_seqnum ?d = Some (q, p)" using assms(3) by simp
  define d' where "d' = ?d\<lparr>cur_dump_seqnum := q, flash_len := 4096 * N, flash_offs := 4096 * p, data_buffer_list := (\<lambda>_. free_buffer),
    w_seqnum := 0, f_seqnum := 0, flash_state := LOG_DUMP_FLASH_STATE_IDLE, is_immediately := False, dump_is_init := True\<rparr>"
  have "p * 4096 < 4294967296" using assms(2) c(5,6) by simp
  then have "log_dump_init d = Some d'"
    using g r(1) gs len by (simp add: log_dump_init_def Let_def d'_def mult.commute)
  moreover have "log_region d'" using r(2-4,7) c(3,7) by (simp add: log_region_def d'_def)
  moreover have "log_buffers q [] 0 d'"
    by (simp add: log_buffers_def d'_def free_buffer_def filling_buffer_def)
  moreover have N: "log_sectors d' = N" by (simp add: log_sectors_def d'_def)
  moreover have "log_stored q p [] 0 (M(0 := flash_byte ?s)) d'"
    using assms(2) unfolding log_stored_def Let_def N by (simp add: d'_def)
  ultimately show ?thesis using r(5-7) ou by (intro exI [of _ d']) (simp add: log_ok_def d'_def)
qed

text \<open>The loop over the headers finds what comes next.\<close>

lemma get_seqnum_next:
  assumes "log_reads d B N" "log_next B (flash_start_addr d) N nx sx"
  shows "get_seqnum d = Some (nx, sx)"
proof -
  let ?h = "sector_header B (flash_start_addr d)"
  have "length (?h i) = 16" for i by (simp add: sector_header_def)
  then obtain mx sec where r: "seqnum_loop d [0..<N] False 0 0 = Some (\<exists>i \<in> set [0..<N]. headed (?h i), mx, sec)"
    "\<forall>i \<in> set [0..<N]. headed (?h i) \<longrightarrow> header_seqnum (?h i) \<le> mx"
    "mx = 0 \<and> sec = 0 \<or> sec \<in> set [0..<N] \<and> headed (?h sec) \<and> header_seqnum (?h sec) = mx"
    using seqnum_loop_spec [of "[0..<N]" d ?h False 0 0] assms(1) by (auto simp: log_reads_def)
  have c: "sub32 (flash_end_addr d) (flash_start_addr d) div 4096 = N" using assms(1) by (simp add: log_reads_def)
  from assms(2) show ?thesis
  proof (cases rule: log_next_cases)
    case empty
    then have "\<not> (\<exists>i \<in> set [0..<N]. headed (?h i))" by simp
    with r(1) c empty(2,3) show ?thesis by (simp add: get_seqnum_def)
  next
    case (top j)
    have j: "j \<in> set [0..<N]" using top(1) by simp
    then have t: "header_seqnum (?h j) \<le> mx" using r(2) top(2) by blast
    have "mx = header_seqnum (?h j) \<and> sec = j"
      using r(3)
    proof
      assume z: "mx = 0 \<and> sec = 0"
      with t have "header_seqnum (?h j) = 0" by (simp add: word_le_nat_alt flip: unat_eq_0)
      with z top(5,6) show ?thesis by simp
    next
      assume m: "sec \<in> set [0..<N] \<and> headed (?h sec) \<and> header_seqnum (?h sec) = mx"
      have "sec = j"
      proof (rule ccontr)
        assume "sec \<noteq> j"
        with m top(7) [of sec] have "mx < header_seqnum (?h j)" by auto
        with t show False by simp
      qed
      with m show ?thesis by simp
    qed
    moreover have "\<exists>i \<in> set [0..<N]. headed (?h i)" using j top(2) by (rule rev_bexI)
    moreover have "(if N \<le> j + 1 then 0 else j + 1) = (j + 1) mod N" using top(1) by (cases "j + 1 = N") simp_all
    ultimately show ?thesis using r(1) c top(3,6) by (simp add: get_seqnum_def)
  qed
qed

lemma log_dump_init_next:
  assumes "log_chip d N M" "log_next (flash_byte (dump_api d)) (flash_start_addr d) N nx sx"
  shows "\<exists>d'. log_dump_init d = Some d' \<and> log_ok nx sx [] 0 (M(0 := flash_byte (dump_api d))) d' \<and>
    flash_state d' = LOG_DUMP_FLASH_STATE_IDLE \<and> log_sectors d' = N \<and> due (dump_api d') = due (dump_api d) \<and>
    flash_hal (dump_api d') = flash_hal (dump_api d) \<and> op_used (dump_api d') = op_used (dump_api d)"
proof (rule log_dump_init_runs [OF assms(1)])
  have N: "0 < N" using assms(1) by (simp add: log_chip_def)
  show "sx < N" using assms(2) N by (cases rule: log_next_cases) simp_all
  show "\<forall>d'. flash_start_addr d' = flash_start_addr d \<longrightarrow> log_reads d' (flash_byte (dump_api d)) N \<longrightarrow> get_seqnum d' = Some (nx, sx)"
    using get_seqnum_next assms(2) by metis
qed

text \<open>A region without any header is started at its first sector, with the number 0.\<close>

lemma log_next_empty: "\<forall>i<N. \<not> headed (sector_header B start i) \<Longrightarrow> log_next B start N 0 0"
  by (simp add: log_next_def)

section \<open>The hook keeps what comes next\<close>

lemma erased_not_headed:
  assumes "\<forall>x<4096. B (start + i * 4096 + x) = 255"
  shows "\<not> headed (sector_header B start i)"
proof -
  have "sector_header B start i = replicate 16 255"
    by (rule nth_equalityI) (use assms in \<open>simp_all add: sector_header_def\<close>)
  moreover have "replicate 4 (255 :: byte) = [255, 255, 255, 255]" by (simp add: numeral_eq_Suc)
  moreover have "bytes_u32 [255, 255, 255, 255] = 4294967295" by (simp add: bytes_u32_def)
  ultimately show ?thesis by (simp add: headed_def get32_def)
qed

lemma block_header:
  assumes "\<forall>x<4096. B (start + i * 4096 + x) = log_block q T k ! x"
  shows "sector_header B start i = log_header (q + of_nat k)"
  by (rule nth_equalityI) (use assms in \<open>simp_all add: sector_header_def log_block_def nth_append\<close>)

lemma sector_header_cong: "(\<And>x. x < 16 \<Longrightarrow> B (start + i * 4096 + x) = B' (start + i * 4096 + x)) \<Longrightarrow> sector_header B start i = sector_header B' start i"
  by (simp add: sector_header_def)

lemma log_next_cong:
  assumes "log_next B start N nx sx" "\<And>a. start \<le> a \<Longrightarrow> a < start + 4096 * N \<Longrightarrow> B' a = B a"
  shows "log_next B' start N nx sx"
proof -
  have "sector_header B' start i = sector_header B start i" if "i < N" for i
  proof (rule sector_header_cong)
    fix x :: nat assume "x < 16"
    moreover have "i * 4096 + 4096 \<le> 4096 * N" using that by simp
    ultimately show "B' (start + i * 4096 + x) = B (start + i * 4096 + x)" using assms(2) by simp
  qed
  from log_next_headers [OF this] assms(1) show ?thesis by simp
qed

text \<open>Other sectors than the next one keep their headers.\<close>

lemma other_sector:
  assumes "log_region d" "holds (dump_api d) M" "log_stored q p T F M d" "i < log_sectors d" "i \<noteq> (p + F) mod log_sectors d" "x < 16"
  shows "(flash_start_addr d + i * 4096 + x) div 4096 * 4096 \<noteq> next_sector d"
proof -
  have p: "p < log_sectors d" "flash_offs d = 4096 * ((p + F) mod log_sectors d)" using assms(3) by (simp_all add: log_stored_def Let_def)
  then have "(p + F) mod log_sectors d < log_sectors d" by simp
  from same_sector_elsewhere [OF assms(1,2,4) this assms(5), of x] assms(6) p(2) show ?thesis by (simp add: next_sector_def mult.commute)
qed

lemma next_after_erase:
  assumes "log_ok q p T F M d" "1 < log_sectors d" "log_next (M 0) (flash_start_addr d) (log_sectors d) nx ((p + F) mod log_sectors d)"
  shows "log_next (store_erase 0 (next_sector d) M 0) (flash_start_addr d) (log_sectors d) nx ((p + F) mod log_sectors d)"
proof (rule log_next_erase [OF assms(3,2)])
  let ?N = "log_sectors d" and ?M = "store_erase 0 (next_sector d) M 0"
  have d: "log_region d" "holds (dump_api d) M" "log_stored q p T F M d" using assms(1) by (simp_all add: log_ok_def)
  have p: "flash_offs d = 4096 * ((p + F) mod ?N)" "(p + F) mod ?N < ?N" using d(3) by (simp_all add: log_stored_def Let_def)
  have "?M (flash_start_addr d + (p + F) mod ?N * 4096 + x) = 255" if "x < 4096" for x
    using log_region_facts(8) [OF d(1,2) p(2) refl that] p(1) by (simp add: store_erase_def next_sector_def mult.commute)
  then show "\<not> headed (sector_header ?M (flash_start_addr d) ((p + F) mod ?N))" by (intro erased_not_headed) simp
  fix i assume "i < ?N" "i \<noteq> (p + F) mod ?N"
  then show "sector_header ?M (flash_start_addr d) i = sector_header (M 0) (flash_start_addr d) i"
    by (intro sector_header_cong) (simp add: store_erase_def other_sector [OF d])
qed

lemma next_after_write:
  assumes "log_ok q p T F M d" "flash_state d = LOG_DUMP_FLASH_STATE_ERASED" "F < length T div 4080" "q + of_nat F + 1 \<noteq> 0"
    and "log_next (M 0) (flash_start_addr d) (log_sectors d) (q + of_nat F) ((p + F) mod log_sectors d)"
  shows "log_next (store_write 0 (next_sector d) (log_block q T F) M 0) (flash_start_addr d) (log_sectors d)
    (q + of_nat (F + 1)) ((p + (F + 1)) mod log_sectors d)"
proof -
  let ?N = "log_sectors d" and ?M = "store_write 0 (next_sector d) (log_block q T F) M 0" and ?j = "(p + F) mod log_sectors d"
  have d: "log_region d" "holds (dump_api d) M" "log_stored q p T F M d" "log_buffers q T F d" using assms(1) by (simp_all add: log_ok_def)
  have p: "p < ?N" "flash_offs d = 4096 * ?j" "?j < ?N" using d(3) by (simp_all add: log_stored_def Let_def)
  note lf = log_buffers_facts(3) [OF d(4) assms(3)]
  have "sector_header ?M (flash_start_addr d) ?j = log_header (q + of_nat F)"
  proof (rule block_header)
    have "F + 1 \<le> F + ?N" using p(1) by simp
    then show "\<forall>x<4096. ?M (flash_start_addr d + ?j * 4096 + x) = log_block q T F ! x"
      using log_stored_written [OF d(1-3) assms(2) lf, of F] by (simp add: mult.commute)
  qed
  moreover have "sector_header ?M (flash_start_addr d) i = sector_header (M 0) (flash_start_addr d) i" if "i < ?N" "i \<noteq> ?j" for i
  proof (rule sector_header_cong)
    fix x :: nat assume x: "x < 16"
    have "\<not> (next_sector d \<le> flash_start_addr d + i * 4096 + x \<and> flash_start_addr d + i * 4096 + x < next_sector d + 4096)"
      by (rule not_in_sector [OF next_sector_facts(1) [OF d(1-3)] other_sector [OF d(1-3) that x]])
    then show "?M (flash_start_addr d + i * 4096 + x) = M 0 (flash_start_addr d + i * 4096 + x)"
      using lf by (auto simp: store_write_def)
  qed
  ultimately have "log_next ?M (flash_start_addr d) ?N (q + of_nat F + 1) ((?j + 1) mod ?N)"
    by (rule log_next_write [OF assms(5) p(3) assms(4)])
  moreover have "(?j + 1) mod ?N = (p + (F + 1)) mod ?N" by (simp add: mod_simps)
  moreover have "q + of_nat F + 1 = q + of_nat (F + 1)" by simp
  ultimately show ?thesis by simp
qed

end
