(* ===== verification/LogContract.thy ===== *)
theory LogContract
  imports LogStart
begin

text \<open>
  The promises of the trace log as theorems: taking output, storing it from the sleep hook, and going on after a restart, applied
  at a concrete chip.
\<close>

section \<open>Collecting and storing\<close>

lemma log_stored_append:
  assumes "log_stored q p T F M d" "F \<le> length T div 4080" "same_flash d d'"
  shows "log_stored q p (T @ x) F M d'"
proof -
  have blk: "log_block q (T @ x) k = log_block q T k" if "k < F" for k
  proof (rule log_block_append)
    have "4080 * (k + 1) \<le> 4080 * (length T div 4080)" using that assms(2) by simp
    also have "\<dots> \<le> length T" by simp
    finally show "4080 * (k + 1) \<le> length T" .
  qed
  note e = same_flash_eqs [OF assms(3)]
  have "log_sectors d' = log_sectors d" by (simp add: log_sectors_def e)
  then have "log_stored q p (T @ x) F M d' = log_stored q p T F M d"
    unfolding log_stored_def Let_def e by (simp add: blk cong: imp_cong)
  with assms(1) show ?thesis by simp
qed

lemma output_handler_appends:
  assumes "log_ok q p T F M d" "length T div 4080 < F + 2" "length T + n \<le> 4080 * (F + 2)" "n \<le> length buf"
    and "strstr buf LOG_DUMP_PREFIX = Some False"
  shows "\<exists>d'. log_dump_output_handler buf n d = Some d' \<and> dump_api d' = dump_api d \<and> log_ok q p (T @ take n buf) F M d' \<and> same_flash d d'"
proof -
  have d: "dump_is_init d" "log_buffers q T F d" "log_stored q p T F M d" using assms(1) by (simp_all add: log_ok_def)
  obtain d' where o: "output_loop buf (w_seqnum d, 0, n) d = Some d'" "log_buffers q (T @ take n buf) F d'" "same_flash d d'"
    using output_loop_appends [OF d(2) assms(2) _ assms(3), of 0 buf] assms(4) by auto
  note e = same_flash_eqs [OF o(3)]
  have "log_stored q p (T @ take n buf) F M d'"
    by (rule log_stored_append [OF d(3) log_buffersD(1) [OF d(2) refl] o(3)])
  with o(2) assms(1) e have "log_ok q p (T @ take n buf) F M d'" by (simp add: log_ok_def log_region_def)
  with o(1,3) e(7) d(1) assms(5) show ?thesis by (simp add: log_dump_output_handler_def)
qed

text \<open>
  C6. Trace output is kept: with room in the two buffers, \<open>log_dump_output_handler\<close> returns and has put exactly the given bytes
  behind those taken before, cut into sectors that each start with a header with the next number; the flash is not touched.
  Output that contains the prefix of the log's own traces is left out.
\<close>

theorem log_dump_output_appends:
  assumes "log_ok q p T F M d" "length T div 4080 < F + 2" "length T + n \<le> 4080 * (F + 2)" "n \<le> length buf"
    and "strstr buf LOG_DUMP_PREFIX = Some own"
  shows "\<exists>d'. log_dump_output_handler buf n d = Some d' \<and> dump_api d' = dump_api d \<and>
    log_ok q p (if own then T else T @ take n buf) F M d'"
proof (cases own)
  case True
  with assms show ?thesis by (simp add: log_dump_output_handler_def log_ok_def)
next
  case False
  with output_handler_appends [OF assms(1-4)] assms(5) show ?thesis by auto
qed

text \<open>
  C7. The sleep hook stores the log, as long as no crash is dumped, no output has been lost and the region does not end the chip
  (\<open>log_ok\<close>), with enough done readings of the chip to come, and with the guards of the flash queue for the next
  sector: \<open>erase_guard\<close> when it is to be erased, no write for it under way when it is to be written. Then \<open>log_dump_flush\<close> returns 0.
  In turn it erases the next sector of the region, through the queue, and writes the oldest full buffer to it;
  without a full buffer it does nothing. The region keeps the newest sectors in order round the region, no other module
  sees a change, and with more than one sector and a number that does not wrap the headers still say what comes next after a restart.
\<close>

theorem log_dump_flush_stores:
  assumes "log_ok q p T F M d" "enough (dump_api d)"
    and "flash_state d = LOG_DUMP_FLASH_STATE_IDLE \<longrightarrow> erase_guard (dump_api d) 0 (next_sector d)"
    and "flash_state d = LOG_DUMP_FLASH_STATE_ERASED \<longrightarrow> \<not> sector_writing (dump_api d) 0 (next_sector d)"
  shows "\<exists>d' F' M'. log_dump_flush d = Some (0, d') \<and> log_ok q p T F' M' d' \<and> (\<forall>m. m \<noteq> 0 \<longrightarrow> M' m = M m) \<and>
    same_places (dump_api d) (dump_api d') \<and>
    (if flash_state d = LOG_DUMP_FLASH_STATE_IDLE then F' = F \<and> flash_state d' = LOG_DUMP_FLASH_STATE_ERASED
     else if F < length T div 4080 then F' = F + 1 \<and> flash_state d' = LOG_DUMP_FLASH_STATE_IDLE
     else d' = d \<and> F' = F \<and> M' = M) \<and>
    (1 < log_sectors d \<and> q + of_nat F + 1 \<noteq> 0 \<and>
       log_next (M 0) (flash_start_addr d) (log_sectors d) (q + of_nat F) ((p + F) mod log_sectors d) \<longrightarrow>
     log_next (M' 0) (flash_start_addr d) (log_sectors d) (q + of_nat F') ((p + F') mod log_sectors d))"
proof -
  have d: "flash_state d = LOG_DUMP_FLASH_STATE_IDLE \<or> flash_state d = LOG_DUMP_FLASH_STATE_ERASED" "F \<le> length T div 4080"
    using assms(1) log_buffersD(1) [of q T F d] by (simp_all add: log_ok_def log_stored_def Let_def)
  consider (idle) "flash_state d = LOG_DUMP_FLASH_STATE_IDLE"
    | (full) "flash_state d = LOG_DUMP_FLASH_STATE_ERASED" "F < length T div 4080"
    | (wait) "flash_state d = LOG_DUMP_FLASH_STATE_ERASED" "length T div 4080 = F" using d by linarith
  then show ?thesis
  proof cases
    case idle
    obtain d' where "log_dump_flush d = Some (0, d')" "flash_state d' = LOG_DUMP_FLASH_STATE_ERASED"
      "log_ok q p T F (store_erase 0 (next_sector d) M) d'" "same_places (dump_api d) (dump_api d')"
      using flush_idle [OF assms(1) idle assms(2)] assms(3) idle by blast
    with idle next_after_erase [OF assms(1)] show ?thesis
      by (intro exI [of _ d'] exI [of _ F] exI [of _ "store_erase 0 (next_sector d) M"]) (simp add: store_erase_def [of 0 _ M] fun_eq_iff)
  next
    case full
    obtain d' where "log_dump_flush d = Some (0, d')" "flash_state d' = LOG_DUMP_FLASH_STATE_IDLE"
      "log_ok q p T (F + 1) (store_write 0 (next_sector d) (log_block q T F) M) d'" "same_places (dump_api d) (dump_api d')"
      using flush_erased_write [OF assms(1) full assms(2)] assms(4) full(1) by blast
    moreover have "store_write 0 (next_sector d) (log_block q T F) M m = M m" if "m \<noteq> 0" for m
      using that by (simp add: store_write_def fun_eq_iff)
    ultimately show ?thesis using full next_after_write [OF assms(1) full]
      by (intro exI [of _ d'] exI [of _ "F + 1"] exI [of _ "store_write 0 (next_sector d) (log_block q T F) M"]) simp
  next
    case wait
    with flush_erased_wait [OF assms(1) wait] assms(1) show ?thesis by (auto simp: same_places_def same_place_def)
  qed
qed

section \<open>Restart\<close>

text \<open>
  C8. The log survives any number of restarts. Let the headers of the region say what the log itself says comes next (\<open>log_next\<close>), which is so
  for a region without headers and is kept by every call of the hook that does not wrap the number, if the region has
  more than one sector. Then with enough done readings of the chip, flushing the queue returns and
  leaves the stored sectors in the flash, byte by byte; and \<open>log_dump_init\<close> on a chip with these contents goes on with the
  next number in the sector behind the newest one, in a state in which all this holds again, whatever older sectors are in the region.
\<close>

theorem log_dump_survives_restart:
  assumes "log_ok q p T F M d" "enough (dump_api d)"
    and "log_next (M 0) (flash_start_addr d) (log_sectors d) (q + of_nat F) ((p + F) mod log_sectors d)"
  shows "\<exists>s. norflash_flush_all_pending_op (dump_api d) = Some s \<and>
    (\<forall>k<F. F < k + log_sectors d \<longrightarrow>
       flash_bytes s (flash_start_addr d + 4096 * ((p + k) mod log_sectors d)) 4096 = log_block q T k) \<and>
    (\<forall>d0 M0. log_chip d0 (log_sectors d) M0 \<longrightarrow> flash_start_addr d0 = flash_start_addr d \<longrightarrow> flash_byte (dump_api d0) = flash_byte s \<longrightarrow>
       (\<exists>d1. log_dump_init d0 = Some d1 \<and> log_sectors d1 = log_sectors d \<and> due (dump_api d1) = due (dump_api d0) \<and>
         log_ok (q + of_nat F) ((p + F) mod log_sectors d) [] 0 (M0(0 := flash_byte s)) d1 \<and>
         log_next (flash_byte s) (flash_start_addr d) (log_sectors d) (q + of_nat F) ((p + F) mod log_sectors d)))"
proof -
  let ?N = "log_sectors d" and ?st = "flash_start_addr d"
  have d: "log_region d" "holds (dump_api d) M" "log_buffers q T F d" "log_stored q p T F M d" using assms(1) by (simp_all add: log_ok_def)
  obtain s where f: "norflash_flush_all_pending_op (dump_api d) = Some s"
    "\<forall>m a. user (dump_api d) m \<longrightarrow> in_range (mod_info (dump_api d) m) a \<longrightarrow> flash_byte s a = M m a"
    using flush_all_holds [OF d(2) assms(2)] by blast
  have "p < ?N" using d(4) by (simp add: log_stored_def Let_def)
  then have N: "flash_len d = 4096 * ?N" using log_region_facts(1) [OF d(1,2) _ refl] by blast
  have same: "flash_byte s a = M 0 a" if "?st \<le> a" "a < ?st + 4096 * ?N" for a
    using f(2) d(1) that N by (simp add: log_region_def in_range_def)
  have "flash_bytes s (?st + 4096 * ((p + k) mod ?N)) 4096 = log_block q T k" if k: "k < F" "F < k + ?N" for k
  proof (rule nth_equalityI)
    have "4080 * (k + 1) \<le> 4080 * (length T div 4080)" using k(1) log_buffersD(1) [OF d(3) refl] by simp
    also have "\<dots> \<le> length T" by simp
    finally have "length (log_block q T k) = 4096" by (rule length_log_block)
    then show "length (flash_bytes s (?st + 4096 * ((p + k) mod ?N)) 4096) = length (log_block q T k)" by (simp add: flash_bytes_def)
    fix x assume "x < length (flash_bytes s (?st + 4096 * ((p + k) mod ?N)) 4096)"
    then have x: "x < 4096" by (simp add: flash_bytes_def)
    define j where "j = (p + k) mod ?N"
    have "j < ?N" using k unfolding j_def by simp
    then have "4096 * j + 4096 \<le> 4096 * ?N" by simp
    with x have "flash_byte s (?st + 4096 * j + x) = M 0 (?st + 4096 * j + x)" by (intro same) simp_all
    moreover have "M 0 (?st + 4096 * j + x) = log_block q T k ! x"
      using d(4) k x by (simp add: log_stored_def Let_def j_def)
    ultimately show "flash_bytes s (?st + 4096 * ((p + k) mod ?N)) 4096 ! x = log_block q T k ! x"
      using x by (simp add: flash_bytes_def j_def)
  qed
  moreover have nx: "log_next (flash_byte s) ?st ?N (q + of_nat F) ((p + F) mod ?N)" by (rule log_next_cong [OF assms(3) same])
  have "\<exists>d1. log_dump_init d0 = Some d1 \<and> log_sectors d1 = ?N \<and> due (dump_api d1) = due (dump_api d0) \<and>
      log_ok (q + of_nat F) ((p + F) mod ?N) [] 0 (M0(0 := flash_byte s)) d1"
    if d0: "log_chip d0 ?N M0" "flash_start_addr d0 = ?st" "flash_byte (dump_api d0) = flash_byte s" for d0 M0
    using log_dump_init_next [OF d0(1)] nx unfolding d0(2,3) by blast
  ultimately show ?thesis using f(1) nx by blast
qed

section \<open>A concrete state\<close>

text \<open>A region of \<open>n\<close> sectors of a chip that reads \<open>ps\<close> and has the contents \<open>c\<close>, before the start.\<close>

definition demo_log :: "poll list \<Rightarrow> (nat \<Rightarrow> byte) \<Rightarrow> nat \<Rightarrow> log_dump" where
  "demo_log ps c n = \<lparr>flash_start_addr = 1006698496, flash_end_addr = 1006698496 + 4096 * n, flash_len = 0, data_buffer_list = (\<lambda>_. free_buffer),
     w_seqnum = 0, f_seqnum = 0, flash_offs = 0, cur_dump_seqnum = 0, dump_is_init = False, is_immediately = False,
     flash_state = LOG_DUMP_FLASH_STATE_IDLE, total_len = 0, hooked = False,
     dump_api = snd (norflash_api_init ((demo_api ps)\<lparr>flash_hal := (demo_flash ps)\<lparr>chip := (chip (demo_flash ps))\<lparr>cells := c\<rparr>\<rparr>\<rparr>))\<rparr>"

lemma demo_log_chip:
  assumes "0 < n" "n < 240"
  shows "log_chip (demo_log ps c n) n M" "flash_start_addr (demo_log ps c n) = 1006698496"
    "flash_byte (dump_api (demo_log ps c n)) = (\<lambda>a. c (pos a))" "pending_ops (dump_api (demo_log ps c n)) = 0"
    "polls_of (dump_api (demo_log ps c n)) = ps" "hal_work (flash_hal (dump_api (demo_log ps c n))) = 0"
proof -
  define s0 where "s0 = (demo_api ps)\<lparr>flash_hal := (demo_flash ps)\<lparr>chip := (chip (demo_flash ps))\<lparr>cells := c\<rparr>\<rparr>\<rparr>"
  have h0: "flash_hal s0 = (demo_flash ps)\<lparr>chip := (chip (demo_flash ps))\<lparr>cells := c\<rparr>\<rparr>" by (simp add: s0_def)
  have "idle_flash s0" using demo_idle [of ps] by (simp add: idle_flash_def geom_def s0_def)
  from init_holds [OF this, of M] obtain s where i: "norflash_api_init s0 = (NORFLASH_API_OK, s)" "holds s M" "\<forall>m. \<not> user s m"
    "flash_hal s = flash_hal s0" "pending_ops s = 0" by blast
  have sel: "dump_api (demo_log ps c n) = s" "flash_end_addr (demo_log ps c n) = 1006698496 + 4096 * n"
    using i(1) by (simp_all add: demo_log_def s0_def)
  show st: "flash_start_addr (demo_log ps c n) = 1006698496" by (simp add: demo_log_def)
  have ni: "\<not> mod_inited (mod_info s 0)" using i(3) by (simp add: user_def)
  have hs: "flash_hal s = (demo_flash ps)\<lparr>chip := (chip (demo_flash ps))\<lparr>cells := c\<rparr>\<rparr>" using i(4) h0 by simp
  show "log_chip (demo_log ps c n) n M"
    using i(2,3) ni assms by (simp add: log_chip_def sel st hs demo_pos)
  have "flash_byte s a = c (pos a)" for a by (simp add: flash_byte_def hs mask24 pos_def)
  then show "flash_byte (dump_api (demo_log ps c n)) = (\<lambda>a. c (pos a))" by (simp add: sel fun_eq_iff)
  show "pending_ops (dump_api (demo_log ps c n)) = 0" "polls_of (dump_api (demo_log ps c n)) = ps"
    by (simp_all add: sel i(5) hs)
  show "hal_work (flash_hal (dump_api (demo_log ps c n))) = 0" by (simp add: sel hs hal_work_def) (simp add: demo_flash_def)
qed

text \<open>Done readings for whatever can be pending; a call that does not wait does not use them up.\<close>

definition plenty :: "api \<Rightarrow> bool" where
  "plenty s \<longleftrightarrow> hal_work (flash_hal s) + 270 \<le> ready (polls_of s)"

lemma plenty_enough: "plenty s \<Longrightarrow> enough s"
  using pending_bound [of s] by (simp add: plenty_def enough_def due_def)

lemma brief_plenty: "brief s s' \<Longrightarrow> plenty s' = plenty s"
  by (simp add: brief_def quiet_def plenty_def)

lemma demo_log_init:
  assumes "0 < n" "n < 240" "270 \<le> ready ps"
  shows "\<exists>d. log_dump_init (demo_log ps (\<lambda>_. 255) n) = Some d \<and> log_ok 0 0 [] 0 (\<lambda>_ _. 255) d \<and> flash_state d = LOG_DUMP_FLASH_STATE_IDLE \<and>
    plenty (dump_api d) \<and> pending_ops (dump_api d) = 0 \<and> log_sectors d = n \<and> flash_start_addr d = 1006698496 \<and>
    log_next (\<lambda>_. 255) 1006698496 n 0 0"
proof -
  note c = demo_log_chip [OF assms(1,2), where c = "\<lambda>_. 255" and ps = ps]
  have "\<forall>i<n. \<not> headed (sector_header (\<lambda>_. 255) 1006698496 i)" by (intro allI impI erased_not_headed) simp
  then have nx: "log_next (\<lambda>_. 255) 1006698496 n 0 0" by (rule log_next_empty)
  then have "log_next (flash_byte (dump_api (demo_log ps (\<lambda>_. 255) n))) (flash_start_addr (demo_log ps (\<lambda>_. 255) n)) n 0 0" by (simp add: c(2,3))
  from log_dump_init_next [OF c(1) [of "\<lambda>_ _. 255"] this] obtain d where
    d: "log_dump_init (demo_log ps (\<lambda>_. 255) n) = Some d" "log_ok 0 0 [] 0 ((\<lambda>_ _. 255)(0 := flash_byte (dump_api (demo_log ps (\<lambda>_. 255) n)))) d"
    "flash_state d = LOG_DUMP_FLASH_STATE_IDLE" "log_sectors d = n" "flash_hal (dump_api d) = flash_hal (dump_api (demo_log ps (\<lambda>_. 255) n))"
    "op_used (dump_api d) = op_used (dump_api (demo_log ps (\<lambda>_. 255) n))" by blast
  have M: "(\<lambda>_ _. 255)(0 := flash_byte (dump_api (demo_log ps (\<lambda>_. 255) n))) = (\<lambda>_ _. 255)" unfolding c(3) by (simp add: fun_eq_iff)
  have "log_ok 0 0 [] 0 (\<lambda>_ _. 255) d" using d(2) unfolding M .
  moreover have "pending_ops (dump_api d) = 0" using c(4) by (simp add: pending_ops_def d(6))
  moreover have "plenty (dump_api d)" unfolding plenty_def d(5) c(5,6) using assms(3) by simp
  moreover have "flash_start_addr d = 1006698496"
  proof -
    have "flash_start_addr d = flash_start_addr (demo_log ps (\<lambda>_. 255) n)"
      using d(1) by (auto simp: log_dump_init_def Let_def bind_eq_Some_conv split: if_splits)
    then show ?thesis by (simp add: c(2))
  qed
  ultimately show ?thesis using d nx by (intro exI [of _ d]) simp
qed

lemma strstr_skip: "c \<noteq> 0 \<Longrightarrow> p \<noteq> [] \<Longrightarrow> c \<noteq> hd p \<Longrightarrow> strstr (c # cs) p = strstr cs p"
  by (cases p) simp_all

lemma strstr_demo: "strstr (replicate n 65 @ [0]) LOG_DUMP_PREFIX = Some False"
proof (induction n)
  case 0
  then show ?case by (simp add: LOG_DUMP_PREFIX_def)
next
  case (Suc n)
  have "hd LOG_DUMP_PREFIX = 95" by (simp add: LOG_DUMP_PREFIX_def)
  with Suc strstr_skip [of 65 LOG_DUMP_PREFIX] show ?case by (simp add: LOG_DUMP_PREFIX_def)
qed

lemma demo_log_output:
  assumes "0 < n" "n < 240" "270 \<le> ready ps" "k \<le> 8160"
  shows "\<exists>d d'. log_dump_init (demo_log ps (\<lambda>_. 255) n) = Some d \<and> log_dump_output_handler (replicate k 65 @ [0]) k d = Some d' \<and>
    log_ok 0 0 (replicate k 65) 0 (\<lambda>_ _. 255) d' \<and> flash_state d' = LOG_DUMP_FLASH_STATE_IDLE \<and> plenty (dump_api d') \<and>
    pending_ops (dump_api d') = 0 \<and> log_sectors d' = n \<and> flash_start_addr d' = 1006698496"
proof -
  obtain d where d: "log_dump_init (demo_log ps (\<lambda>_. 255) n) = Some d" "log_ok 0 0 [] 0 (\<lambda>_ _. 255) d" "flash_state d = LOG_DUMP_FLASH_STATE_IDLE"
    "plenty (dump_api d)" "pending_ops (dump_api d) = 0" "log_sectors d = n" "flash_start_addr d = 1006698496"
    using demo_log_init [OF assms(1-3)] by blast
  from output_handler_appends [OF d(2) _ _ _ strstr_demo [of k], of k] assms(4) obtain d' where
    o: "log_dump_output_handler (replicate k 65 @ [0]) k d = Some d'" "log_ok 0 0 ([] @ take k (replicate k 65 @ [0])) 0 (\<lambda>_ _. 255) d'"
    "same_flash d d'" by auto
  note e = same_flash_eqs [OF o(3)]
  have "log_sectors d' = n" using d(6) by (simp add: log_sectors_def e)
  with d o(1,2) e show ?thesis by (intro exI [of _ d] exI [of _ d']) simp
qed

lemma log_sectors_keep:
  assumes "log_region d" "log_region d'" "same_places (dump_api d) (dump_api d')"
  shows "log_sectors d' = log_sectors d" "flash_start_addr d' = flash_start_addr d"
  using assms(1,2) same_places_keep(5,6) [OF assms(3)] by (simp_all add: log_region_def log_sectors_def)

text \<open>One sector stored by two calls of the hook, without waiting.\<close>

lemma two_calls:
  assumes "log_ok q p T F M d" "flash_state d = LOG_DUMP_FLASH_STATE_IDLE" "F < length T div 4080" "plenty (dump_api d)"
    and "pending_ops (dump_api d) < 3" "erase_guard (dump_api d) 0 (next_sector d)"
  shows "\<exists>d1 d2 M'. log_dump_flush d = Some (0, d1) \<and> log_dump_flush d1 = Some (0, d2) \<and> log_ok q p T (F + 1) M' d2 \<and>
    flash_state d1 = LOG_DUMP_FLASH_STATE_ERASED \<and> flash_state d2 = LOG_DUMP_FLASH_STATE_IDLE \<and> plenty (dump_api d1) \<and> plenty (dump_api d2) \<and>
    pending_ops (dump_api d2) \<le> pending_ops (dump_api d) + 2 \<and> \<not> sector_writing (dump_api d1) 0 (next_sector d1) \<and>
    log_ok q p T F (store_erase 0 (next_sector d) M) d1 \<and> same_places (dump_api d) (dump_api d1) \<and> same_places (dump_api d1) (dump_api d2) \<and>
    (1 < log_sectors d \<and> q + of_nat F + 1 \<noteq> 0 \<and> log_next (M 0) (flash_start_addr d) (log_sectors d) (q + of_nat F) ((p + F) mod log_sectors d) \<longrightarrow>
     log_next (M' 0) (flash_start_addr d) (log_sectors d) (q + of_nat (F + 1)) ((p + (F + 1)) mod log_sectors d))"
proof -
  obtain d1 where 1: "log_dump_flush d = Some (0, d1)" "flash_state d1 = LOG_DUMP_FLASH_STATE_ERASED"
    "log_ok q p T F (store_erase 0 (next_sector d) M) d1" "\<not> sector_writing (dump_api d1) 0 (next_sector d1)"
    "same_places (dump_api d) (dump_api d1)" "pending_ops (dump_api d) < 15 \<longrightarrow> brief (dump_api d) (dump_api d1)"
    using flush_idle [OF assms(1,2) plenty_enough [OF assms(4)] assms(6)] by blast
  have b1: "brief (dump_api d) (dump_api d1)" using 1(6) assms(5) by simp
  then have p1: "plenty (dump_api d1)" "pending_ops (dump_api d1) \<le> pending_ops (dump_api d) + 1"
    using assms(4) brief_plenty by (simp, simp add: brief_def)
  obtain d2 where 2: "log_dump_flush d1 = Some (0, d2)" "flash_state d2 = LOG_DUMP_FLASH_STATE_IDLE"
    "log_ok q p T (F + 1) (store_write 0 (next_sector d1) (log_block q T F) (store_erase 0 (next_sector d) M)) d2"
    "same_places (dump_api d1) (dump_api d2)" "pending_ops (dump_api d1) < 4 \<longrightarrow> brief (dump_api d1) (dump_api d2)"
    using flush_erased_write [OF 1(3,2) assms(3) plenty_enough [OF p1(1)] 1(4)] by blast
  have b2: "brief (dump_api d1) (dump_api d2)" using 2(5) p1(2) assms(5) by simp
  have p2: "plenty (dump_api d2)" "pending_ops (dump_api d2) \<le> pending_ops (dump_api d) + 2"
    using p1 b2 brief_plenty by (simp, simp add: brief_def)
  have k: "log_sectors d1 = log_sectors d" "flash_start_addr d1 = flash_start_addr d"
    using log_sectors_keep [OF _ _ 1(5)] assms(1) 1(3) by (simp_all add: log_ok_def)
  have nx: "log_next (store_write 0 (next_sector d1) (log_block q T F) (store_erase 0 (next_sector d) M) 0)
      (flash_start_addr d) (log_sectors d) (q + of_nat (F + 1)) ((p + (F + 1)) mod log_sectors d)"
    if "1 < log_sectors d" "q + of_nat F + 1 \<noteq> 0" "log_next (M 0) (flash_start_addr d) (log_sectors d) (q + of_nat F) ((p + F) mod log_sectors d)"
    using next_after_write [OF 1(3,2) assms(3), unfolded k] next_after_erase [OF assms(1) that(1,3)] that(2) by blast
  show ?thesis
    by (rule exI [of _ d1], rule exI [of _ d2], rule exI, intro conjI, (rule 1(1) 2(1) 2(3))+)
      (use 1(2-5) 2(2,4) p1(1) p2 nx in blast)+
qed

lemma demo_sector:
  assumes "0 < n" "n < 240"
  shows "\<exists>d d1 d2 d3 M. log_dump_init (demo_log (replicate 270 WIP_0) (\<lambda>_. 255) n) = Some d \<and>
    log_dump_output_handler (replicate 4080 65 @ [0]) 4080 d = Some d1 \<and> log_dump_flush d1 = Some (0, d2) \<and> log_dump_flush d2 = Some (0, d3) \<and>
    log_ok 0 0 (replicate 4080 65) 1 M d3 \<and> plenty (dump_api d3) \<and> log_sectors d3 = n \<and> flash_start_addr d3 = 1006698496 \<and>
    (1 < n \<longrightarrow> log_next (M 0) 1006698496 n 1 1)"
proof -
  have r: "270 \<le> ready (replicate 270 WIP_0)" by (simp add: ready_replicate)
  obtain d d1 where d: "log_dump_init (demo_log (replicate 270 WIP_0) (\<lambda>_. 255) n) = Some d"
    "log_dump_output_handler (replicate 4080 65 @ [0]) 4080 d = Some d1"
    "log_ok 0 0 (replicate 4080 65) 0 (\<lambda>_ _. 255) d1" "flash_state d1 = LOG_DUMP_FLASH_STATE_IDLE" "plenty (dump_api d1)"
    "pending_ops (dump_api d1) = 0" "log_sectors d1 = n" "flash_start_addr d1 = 1006698496"
    using demo_log_output [OF assms r, of 4080] by auto
  have g: "erase_guard (dump_api d1) 0 (next_sector d1)"
    using d(6) by (simp add: erase_guard_def pending_ops_def filter_empty_conv)
  have W: "(0 :: nat) < length (replicate 4080 (65 :: byte)) div 4080" by simp
  obtain d2 d3 M where f: "log_dump_flush d1 = Some (0, d2)" "log_dump_flush d2 = Some (0, d3)" "log_ok 0 0 (replicate 4080 65) 1 M d3"
    "plenty (dump_api d3)" "log_ok 0 0 (replicate 4080 65) 0 (store_erase 0 (next_sector d1) (\<lambda>_ _. 255)) d2"
    "same_places (dump_api d1) (dump_api d2)" "same_places (dump_api d2) (dump_api d3)"
    "1 < log_sectors d1 \<and> (0 :: u32) + of_nat 0 + 1 \<noteq> 0 \<and>
       log_next (\<lambda>_. 255) (flash_start_addr d1) (log_sectors d1) (0 + of_nat 0) ((0 + 0) mod log_sectors d1) \<longrightarrow>
     log_next (M 0) (flash_start_addr d1) (log_sectors d1) (0 + of_nat (0 + 1)) ((0 + (0 + 1)) mod log_sectors d1)"
    using two_calls [OF d(3,4) W d(5) _ g] d(6) by auto
  have reg: "log_region d1" "log_region d2" "log_region d3" using d(3) f(3,5) by (simp_all add: log_ok_def)
  have k: "log_sectors d3 = n" "flash_start_addr d3 = 1006698496"
    using log_sectors_keep [OF reg(1,2) f(6)] log_sectors_keep [OF reg(2,3) f(7)] d(7,8) by simp_all
  have nx: "log_next (M 0) 1006698496 n 1 1" if "1 < n"
    using f(8) demo_log_init [OF assms r] that d(7,8) by auto
  show ?thesis
    using d(1,2) f(1-4) k nx by (intro exI [of _ d] exI [of _ d1] exI [of _ d2] exI [of _ d3] exI [of _ M]) simp
qed

theorem log_dump_output_appends_witness:
  "\<exists>d d'. log_dump_init (demo_log (replicate 270 WIP_0) (\<lambda>_. 255) 4) = Some d \<and> log_dump_output_handler (replicate 3 65 @ [0]) 3 d = Some d' \<and>
    log_ok 0 0 [65, 65, 65] 0 (\<lambda>_ _. 255) d'"
proof -
  obtain d where d: "log_dump_init (demo_log (replicate 270 WIP_0) (\<lambda>_. 255) 4) = Some d" "log_ok 0 0 [] 0 (\<lambda>_ _. 255) d"
    using demo_log_init [of 4 "replicate 270 WIP_0"] by (auto simp: ready_replicate)
  from log_dump_output_appends [OF d(2) _ _ _ strstr_demo [of 3], of 3] obtain d' where
    "log_dump_output_handler (replicate 3 65 @ [0]) 3 d = Some d'" "log_ok 0 0 ([] @ take 3 (replicate 3 65 @ [0])) 0 (\<lambda>_ _. 255) d'" by auto
  with d(1) show ?thesis by (auto simp: numeral_3_eq_3)
qed

theorem log_dump_flush_stores_witness:
  "\<exists>d d1 d2 d3 M. log_dump_init (demo_log (replicate 270 WIP_0) (\<lambda>_. 255) 4) = Some d \<and>
    log_dump_output_handler (replicate 4080 65 @ [0]) 4080 d = Some d1 \<and> log_dump_flush d1 = Some (0, d2) \<and> log_dump_flush d2 = Some (0, d3) \<and>
    log_ok 0 0 (replicate 4080 65) 1 M d3 \<and> (\<forall>x<4096. M 0 (1006698496 + x) = log_block 0 (replicate 4080 65) 0 ! x)"
proof -
  have r: "270 \<le> ready (replicate 270 WIP_0)" by (simp add: ready_replicate)
  obtain d d1 where d: "log_dump_init (demo_log (replicate 270 WIP_0) (\<lambda>_. 255) 4) = Some d"
    "log_dump_output_handler (replicate 4080 65 @ [0]) 4080 d = Some d1"
    "log_ok 0 0 (replicate 4080 65) 0 (\<lambda>_ _. 255) d1" "flash_state d1 = LOG_DUMP_FLASH_STATE_IDLE" "plenty (dump_api d1)"
    "pending_ops (dump_api d1) = 0" "log_sectors d1 = 4" "flash_start_addr d1 = 1006698496"
    using demo_log_output [of 4, OF _ _ r, of 4080] by auto
  have g: "erase_guard (dump_api d1) 0 (next_sector d1)"
    using d(6) by (simp add: erase_guard_def pending_ops_def filter_empty_conv)
  have W: "(0 :: nat) < length (replicate 4080 (65 :: byte)) div 4080" by simp
  obtain d2 where f: "log_dump_flush d1 = Some (0, d2)" "log_ok 0 0 (replicate 4080 65) 0 (store_erase 0 (next_sector d1) (\<lambda>_ _. 255)) d2"
    "flash_state d2 = LOG_DUMP_FLASH_STATE_ERASED" "plenty (dump_api d2)" "\<not> sector_writing (dump_api d2) 0 (next_sector d2)"
    "same_places (dump_api d1) (dump_api d2)"
    using two_calls [OF d(3,4) W d(5) _ g] d(6) by auto
  from log_dump_flush_stores [OF f(2) plenty_enough [OF f(4)]] f(3,5) obtain d3 M where
    w: "log_dump_flush d2 = Some (0, d3)" "log_ok 0 0 (replicate 4080 65) 1 M d3" "same_places (dump_api d2) (dump_api d3)"
    "flash_state d3 = LOG_DUMP_FLASH_STATE_IDLE" by auto
  have reg: "log_region d1" "log_region d2" "log_region d3" using d(3) f(2) w(2) by (simp_all add: log_ok_def)
  have k: "log_sectors d3 = 4" "flash_start_addr d3 = 1006698496"
    using log_sectors_keep [OF reg(1,2) f(6)] log_sectors_keep [OF reg(2,3) w(3)] d(7,8) by simp_all
  have "M 0 (1006698496 + x) = log_block 0 (replicate 4080 65) 0 ! x" if "x < 4096" for x
    using w(2,4) that k unfolding log_ok_def log_stored_def Let_def by simp
  with d(1,2) f(1) w(1,2) show ?thesis by blast
qed

text \<open>Stored, flushed, and started again on a chip with these contents: number 1 comes next, in sector 1.\<close>

theorem log_dump_survives_restart_witness:
  "\<exists>d d1 d2 d3 s d4 M. log_dump_init (demo_log (replicate 270 WIP_0) (\<lambda>_. 255) 4) = Some d \<and>
    log_dump_output_handler (replicate 4080 65 @ [0]) 4080 d = Some d1 \<and> log_dump_flush d1 = Some (0, d2) \<and> log_dump_flush d2 = Some (0, d3) \<and>
    norflash_flush_all_pending_op (dump_api d3) = Some s \<and> flash_bytes s 1006698496 4096 = log_block 0 (replicate 4080 65) 0 \<and>
    log_dump_init (demo_log [] (cells (chip (flash_hal s))) 4) = Some d4 \<and> log_ok 1 1 [] 0 M d4"
proof -
  obtain d d1 d2 d3 M where d: "log_dump_init (demo_log (replicate 270 WIP_0) (\<lambda>_. 255) 4) = Some d"
    "log_dump_output_handler (replicate 4080 65 @ [0]) 4080 d = Some d1" "log_dump_flush d1 = Some (0, d2)" "log_dump_flush d2 = Some (0, d3)"
    "log_ok 0 0 (replicate 4080 65) 1 M d3" "plenty (dump_api d3)" "log_sectors d3 = 4" "flash_start_addr d3 = 1006698496"
    "log_next (M 0) 1006698496 4 1 1" using demo_sector [of 4] by auto
  have nx: "log_next (M 0) (flash_start_addr d3) (log_sectors d3) (0 + of_nat 1) ((0 + 1) mod log_sectors d3)"
    unfolding d(7,8) using d(9) by simp
  obtain s where s: "norflash_flush_all_pending_op (dump_api d3) = Some s"
    "\<forall>k<1. 1 < k + log_sectors d3 \<longrightarrow>
       flash_bytes s (flash_start_addr d3 + 4096 * ((0 + k) mod log_sectors d3)) 4096 = log_block 0 (replicate 4080 65) k"
    "\<forall>d0 M0. log_chip d0 (log_sectors d3) M0 \<longrightarrow> flash_start_addr d0 = flash_start_addr d3 \<longrightarrow> flash_byte (dump_api d0) = flash_byte s \<longrightarrow>
       (\<exists>d1. log_dump_init d0 = Some d1 \<and> log_sectors d1 = log_sectors d3 \<and> due (dump_api d1) = due (dump_api d0) \<and>
         log_ok (0 + of_nat 1) ((0 + 1) mod log_sectors d3) [] 0 (M0(0 := flash_byte s)) d1 \<and>
         log_next (flash_byte s) (flash_start_addr d3) (log_sectors d3) (0 + of_nat 1) ((0 + 1) mod log_sectors d3))"
    using log_dump_survives_restart [OF d(5) plenty_enough [OF d(6)] nx] by (elim exE conjE)
  let ?d0 = "demo_log [] (cells (chip (flash_hal s))) 4"
  have n: "(0 :: nat) < 4" "(4 :: nat) < 240" by simp_all
  note c = demo_log_chip [OF n, where c = "cells (chip (flash_hal s))" and ps = "[]"]
  have fb: "flash_byte (dump_api ?d0) = flash_byte s" unfolding c(3) by (simp add: flash_byte_def [of s] fun_eq_iff mask24 pos_def)
  have ch: "log_chip ?d0 (log_sectors d3) (\<lambda>_ _. 0)" "flash_start_addr ?d0 = flash_start_addr d3" unfolding d(7,8) by (rule c(1), rule c(2))
  from s(3) [rule_format, OF ch fb] obtain d4 where
    "log_dump_init ?d0 = Some d4" "log_ok (0 + of_nat 1) ((0 + 1) mod log_sectors d3) [] 0 ((\<lambda>_ _. 0)(0 := flash_byte s)) d4" by blast
  then have "log_dump_init ?d0 = Some d4" "log_ok 1 1 [] 0 ((\<lambda>_ _. 0)(0 := flash_byte s)) d4" unfolding d(7) by simp_all
  moreover have "flash_bytes s 1006698496 4096 = log_block 0 (replicate 4080 65) 0" using s(2) [rule_format, of 0] by (simp add: d(7,8))
  ultimately show ?thesis using d(1-4) s(1) by blast
qed

end
