(* ===== verification/LogLimits.thy ===== *)
theory LogLimits
  imports LogContract
begin

unbundle bit_operations_syntax

text \<open>
  Where the promise of the trace log ends: the end of a crash dump, the sleep hook while a crash is dumped, and output
  that comes while both buffers are full.
\<close>

section \<open>The end of a crash dump\<close>

text \<open>
  What \<open>_log_dump_flush_remain\<close> meets: the oldest buffer is in use if any is, and full if both are. \<open>unfree\<close> counts the buffers
  in use, and \<open>rounds\<close> the rounds in which something is still written.
\<close>

definition used :: "log_dump \<Rightarrow> nat \<Rightarrow> bool" where
  "used d i \<longleftrightarrow> buf_state (data_buffer_list d i) \<noteq> DATA_BUFFER_STATE_FREE"

definition unfree :: "log_dump \<Rightarrow> nat" where
  "unfree d = of_bool (used d 0) + of_bool (used d 1)"

definition oldest_first :: "log_dump \<Rightarrow> bool" where
  "oldest_first d \<longleftrightarrow> f_seqnum d < 2 \<and>
     (\<forall>i<2. used d i \<longrightarrow> 0 < buf_offset (data_buffer_list d i) \<and>
        (buf_state (data_buffer_list d i) = DATA_BUFFER_STATE_WRITTING \<or> buf_state (data_buffer_list d i) = DATA_BUFFER_STATE_WRITTEN)) \<and>
     (\<not> used d (f_seqnum d) \<longrightarrow> unfree d = 0) \<and>
     (unfree d = 2 \<longrightarrow> buf_offset (data_buffer_list d (f_seqnum d)) = 4096) \<and>
     (flash_state d = LOG_DUMP_FLASH_STATE_IDLE \<or> flash_state d = LOG_DUMP_FLASH_STATE_ERASED) \<and>
     (unfree d \<noteq> 0 \<longrightarrow> flash_offs d mod 4096 = 0)"

definition rounds :: "log_dump \<Rightarrow> nat" where
  "rounds d = 2 * unfree d - (if flash_state d = LOG_DUMP_FLASH_STATE_ERASED then 1 else 0)"

lemma count_unfree_eq: "count_unfree d c = add32 c (unfree d)"
  by (simp add: count_unfree_def unfree_def used_def upt_rec)

lemma unfree_le: "unfree d \<le> 2"
  by (simp add: unfree_def)

lemma unfree_used: "i < 2 \<Longrightarrow> used d i \<Longrightarrow> unfree d \<noteq> 0"
  by (auto simp: unfree_def less_2_cases_iff)

text \<open>One round with a buffer in use: an erase, or the oldest buffer written.\<close>

lemma remain_erase:
  assumes "oldest_first d" "flash_state d = LOG_DUMP_FLASH_STATE_IDLE" "flush_erase False d = Some (r, d')"
  shows "oldest_first d' \<and> unfree d' = unfree d \<and> flash_state d' = LOG_DUMP_FLASH_STATE_ERASED"
proof -
  obtain res s where e: "flash_api_erase (is_immediately d) (add32 (flash_start_addr d) (flash_offs d)) False (dump_api d) = Some (res, s)"
    using assms(3) by (auto simp: flush_erase_def bind_eq_Some_conv)
  from flash_api_erase_ok [OF e] e assms(3) have "d' = d\<lparr>dump_api := s, flash_state := LOG_DUMP_FLASH_STATE_ERASED\<rparr>"
    by (simp add: flush_erase_def Let_def)
  with assms(1) show ?thesis by (simp add: oldest_first_def unfree_def used_def)
qed

lemma remain_write:
  assumes "oldest_first d" "flash_state d = LOG_DUMP_FLASH_STATE_ERASED" "unfree d \<noteq> 0" "flush_write (1 OR 2) False d = Some (r, d')"
  shows "oldest_first d' \<and> unfree d = unfree d' + 1 \<and> flash_state d' = LOG_DUMP_FLASH_STATE_IDLE"
proof -
  let ?f = "f_seqnum d" and ?b = "data_buffer_list d (f_seqnum d)"
  have f: "?f < 2" "used d ?f" "0 < buf_offset ?b" "buf_state ?b = 1 \<or> buf_state ?b = 2" "flash_offs d mod 4096 = 0"
    using assms(1,3) by (auto simp: oldest_first_def)
  have st: "buf_state ?b AND (1 OR 2) \<noteq> 0" using f(4) by auto
  obtain res s where w: "flash_api_write (is_immediately d) (add32 (flash_start_addr d) (flash_offs d))
      (take (buf_offset ?b) (buf_bytes ?b)) False (dump_api d) = Some (res, s)" "buf_offset ?b \<le> length (buf_bytes ?b)"
    using assms(4) f(1,3) st by (auto simp: flush_write_def data_buff_def bind_eq_Some_conv split: if_splits)
  define e where "e = (if flash_len d \<le> add32 (flash_offs d) (buf_offset ?b) then 0 else add32 (flash_offs d) (buf_offset ?b))"
  have d': "d' = d\<lparr>flash_state := LOG_DUMP_FLASH_STATE_IDLE, dump_api := s,
      data_buffer_list := (data_buffer_list d)(?f := ?b\<lparr>buf_state := DATA_BUFFER_STATE_FREE\<rparr>), f_seqnum := next_buffer ?f,
      total_len := add32 (total_len d) (buf_offset ?b), flash_offs := e\<rparr>"
    using assms(4) f(1,3) st w flash_api_write_ok [OF w(1)] by (auto simp: flush_write_def data_buff_def Let_def e_def)
  have n: "next_buffer ?f < 2" "next_buffer ?f \<noteq> ?f" "\<And>i. i < 2 \<Longrightarrow> i = ?f \<or> i = next_buffer ?f"
    using f(1) by (auto simp: next_buffer_def)
  have us: "used d' i \<longleftrightarrow> used d i \<and> i \<noteq> ?f" for i by (simp add: d' used_def)
  have two: "of_bool (P 0) + of_bool (P 1) = of_bool (P ?f) + (of_bool (P (next_buffer ?f)) :: nat)" for P
    using f(1) by (auto simp: next_buffer_def less_2_cases_iff)
  have u: "unfree d = unfree d' + 1" "unfree d' = of_bool (used d (next_buffer ?f))"
    using two [of "used d"] two [of "used d'"] f(2) n(2) by (simp_all add: unfree_def us)
  have offs: "flash_offs d' mod 4096 = 0" if "unfree d' \<noteq> 0"
  proof -
    have "unfree d = 2" using that u by (simp split: if_splits)
    then have "buf_offset ?b = 4096" using assms(1) by (simp add: oldest_first_def)
    moreover have "add32 (flash_offs d) 4096 mod 4096 = 0" 
      unfolding add32_def by (simp add: mod_mod_cancel mod_add_self2 f(5))
    ultimately show ?thesis by (simp add: d' e_def)
  qed
  have "\<forall>i<2. used d' i \<longrightarrow> 0 < buf_offset (data_buffer_list d' i) \<and> (buf_state (data_buffer_list d' i) = 1 \<or> buf_state (data_buffer_list d' i) = 2)"
    using assms(1) unfolding us by (auto simp: d' oldest_first_def)
  moreover have "\<not> used d' (f_seqnum d') \<longrightarrow> unfree d' = 0" using n(2) u(2) by (simp add: us) (simp add: d')
  moreover have "unfree d' \<noteq> 2" using u(2) by simp
  moreover have "f_seqnum d' < 2" "flash_state d' = LOG_DUMP_FLASH_STATE_IDLE" using n(1) by (simp_all add: d')
  ultimately show ?thesis using offs u(1) by (simp add: oldest_first_def)
qed

lemma remain_round:
  assumes "oldest_first d" "log_dump_flush_buffers (1 OR 2) False d = Some (r, d')"
  shows "oldest_first d' \<and> unfree d' \<le> unfree d \<and> (unfree d \<noteq> 0 \<longrightarrow> rounds d = rounds d' + 1)"
proof -
  have st: "flash_state d = LOG_DUMP_FLASH_STATE_IDLE \<or> flash_state d = LOG_DUMP_FLASH_STATE_ERASED"
    "unfree d \<noteq> 0 \<longrightarrow> flash_offs d mod 4096 = 0" using assms(1) by (simp_all add: oldest_first_def)
  consider (erases) "flash_state d = LOG_DUMP_FLASH_STATE_IDLE" "flash_offs d mod 4096 = 0"
    | (writes) "flash_state d = LOG_DUMP_FLASH_STATE_ERASED" "unfree d \<noteq> 0"
    | (waits) "unfree d = 0" "flash_state d = LOG_DUMP_FLASH_STATE_IDLE \<longrightarrow> flash_offs d mod 4096 \<noteq> 0"
    using st by (cases "flash_state d") auto
  then show ?thesis
  proof cases
    case erases
    with assms(2) have "flush_erase False d = Some (r, d')" by (simp add: log_dump_flush_buffers_def)
    from remain_erase [OF assms(1) erases(1) this] erases(1) show ?thesis by (simp add: rounds_def)
  next
    case writes
    with assms(2) have "flush_write (1 OR 2) False d = Some (r, d')" by (simp add: log_dump_flush_buffers_def)
    from remain_write [OF assms(1) writes this] writes(1) show ?thesis by (simp add: rounds_def)
  next
    case waits
    have f: "f_seqnum d < 2" using assms(1) by (simp add: oldest_first_def)
    with waits(1) unfree_used [OF f] have "\<not> used d (f_seqnum d)" "f_seqnum d < 2" by blast+
    then have "buf_state (data_buffer_list d (f_seqnum d)) = 0" "f_seqnum d < 2" by (simp_all add: used_def)
    then have "d' = d" using assms(2) waits(2) st(1)
      by (auto simp: log_dump_flush_buffers_def flush_write_def data_buff_def split: if_splits)
    with assms(1) waits(1) show ?thesis by simp
  qed
qed

text \<open>
  The loop: the count is never 0 again and does not reach \<open>2 ^ 32\<close>, because it grows only while there is something to write.
\<close>

lemma remain_loop_never_returns:
  assumes "oldest_first d" "0 < c \<or> unfree d \<noteq> 0" "c + 2 * rounds d < 4294967296"
  shows "remain_loop c d = None"
proof (cases "remain_loop c d")
  case (Some y)
  let ?Q = "\<lambda>c d y. \<not> (oldest_first d \<and> (0 < c \<or> unfree d \<noteq> 0) \<and> c + 2 * rounds d < 4294967296)"
  have "?Q c d y"
  proof (rule remain_loop.raw_induct [where P = ?Q, OF _ Some])
    fix f c d y
    assume ih: "\<And>c d y. f c d = Some y \<Longrightarrow> ?Q c d y"
      and s: "do { unfree_count \<leftarrow> Some (count_unfree d c);
        if unfree_count = 0 then Some d
        else do { (ret, d) \<leftarrow> log_dump_flush_buffers (1 OR 2) False d; f unfree_count d } } = Some y"
    show "?Q c d y"
    proof
      assume g: "oldest_first d \<and> (0 < c \<or> unfree d \<noteq> 0) \<and> c + 2 * rounds d < 4294967296"
      have le: "unfree d \<le> 2 * rounds d" by (cases "unfree d") (simp_all add: rounds_def)
      with g have c: "count_unfree d c = c + unfree d" "c + unfree d \<noteq> 0" by (auto simp: count_unfree_eq add32_id)
      with s obtain r d1 where 1: "log_dump_flush_buffers (1 OR 2) False d = Some (r, d1)" "f (c + unfree d) d1 = Some y"
        by (auto simp: bind_eq_Some_conv)
      from remain_round [OF conjunct1 [OF g] 1(1)] have r: "oldest_first d1" "unfree d1 \<le> unfree d" "unfree d \<noteq> 0 \<longrightarrow> rounds d = rounds d1 + 1" by blast+
      have "c + unfree d + 2 * rounds d1 < 4294967296"
      proof (cases "unfree d = 0")
        case True
        with r(2) have "rounds d1 = 0" by (simp add: rounds_def)
        with True g show ?thesis by simp
      next
        case False
        with r(3) g unfree_le [of d] show ?thesis by simp
      qed
      with ih [OF 1(2)] r(1) c(2) show False by simp
    qed
  qed
  with assms show ?thesis by blast
qed simp

lemma log_buffers_oldest:
  assumes "log_buffers q T F d" "flash_offs d mod 4096 = 0"
    and "flash_state d = LOG_DUMP_FLASH_STATE_IDLE \<or> flash_state d = LOG_DUMP_FLASH_STATE_ERASED"
  shows "oldest_first d"
proof -
  define W where "W = length T div 4080"
  note lb = log_buffersD [OF assms(1) W_def]
  have "W \<le> 4080 * (F + 2) div 4080" unfolding W_def by (rule div_le_mono [OF lb(2)])
  then have W: "F \<le> W" "W \<le> F + 2" using lb(1) by simp_all
  have full: "used d (k mod 2)" "buf_state (data_buffer_list d (k mod 2)) = 2" "buf_offset (data_buffer_list d (k mod 2)) = 4096"
    if "F \<le> k" "k < W" for k using lb(6) [OF that] by (simp_all add: full_buffer_def used_def)
  have fill: "used d (W mod 2) \<longrightarrow> 0 < buf_offset (data_buffer_list d (W mod 2)) \<and> buf_state (data_buffer_list d (W mod 2)) = 1" if "W < F + 2"
    using lb(7) [OF that] by (auto simp: filling_buffer_def used_def)
  have ok: "used d i \<longrightarrow> 0 < buf_offset (data_buffer_list d i) \<and> (buf_state (data_buffer_list d i) = 1 \<or> buf_state (data_buffer_list d i) = 2)"
    if i: "i < 2" for i
  proof -
    consider "F \<le> W" "W = F" "i = W mod 2" | "W = F" "i = (W + 1) mod 2" | "W = F + 1" "i = W mod 2" | "W = F + 1" "i = F mod 2"
      | "W = F + 2" "i = F mod 2" | "W = F + 2" "i = (F + 1) mod 2"
    proof -
      have "i = W mod 2 \<or> i = (W + 1) mod 2" "i = F mod 2 \<or> i = (F + 1) mod 2" using i by presburger+
      moreover have "W = F \<or> W = F + 1 \<or> W = F + 2" using W by linarith
      ultimately show ?thesis using that W(1) by metis
    qed
    then show ?thesis
    proof cases
      case 1 with fill show ?thesis by simp
    next
      case 2 with lb(8) show ?thesis by (simp add: used_def)
    next
      case 3 with fill show ?thesis by simp
    next
      case 4 with full [of F] show ?thesis by simp
    next
      case 5 with full [of F] show ?thesis by simp
    next
      case 6 with full [of "F + 1"] show ?thesis by simp
    qed
  qed
  have f: "f_seqnum d = F mod 2" by (rule lb(4))
  have free: "unfree d = 0" if "\<not> used d (F mod 2)"
  proof -
    have WF: "W = F" using full(1) [of F] that W(1) by (cases "F = W") simp_all
    with lb(8) have "\<not> used d ((F + 1) mod 2)" by (simp add: used_def)
    moreover have "i = F mod 2 \<or> i = (F + 1) mod 2" if "i < 2" for i using that by presburger
    ultimately have "\<not> used d i" if "i < 2" for i using \<open>\<not> used d (F mod 2)\<close> that by metis
    then show ?thesis by (simp add: unfree_def)
  qed
  have both: "buf_offset (data_buffer_list d (F mod 2)) = 4096" if "unfree d = 2"
  proof -
    have "used d ((F + 1) mod 2)"
    proof -
      have "used d 0" "used d 1" using that by (cases "used d 0"; cases "used d 1"; simp add: unfree_def)+
      then show ?thesis by (cases "even F") (simp_all add: mod2_eq_if)
    qed
    then have "W \<noteq> F" using lb(8) by (auto simp: used_def)
    with full [of F] W(1) show ?thesis by simp
  qed
  show ?thesis unfolding oldest_first_def f using ok free both assms(2,3) by simp
qed

text \<open>
  C11. The end of a crash dump is not reached while the log holds a trace: for buffers filled in turn (\<open>log_buffers\<close>, whether a crash is dumped or not)
  and a hook between two sectors, once either buffer is in use, \<open>_log_dump_flush_remain\<close> writes what there is to write
  but its loop never ends, since the count of used buffers is never set back to 0, and with it the handler of the end of the crash does not return.
  With both buffers free and enough done readings of the chip the handler returns, all queued operations of the log being done.
  (The count has 32 bits: only when the buffers are out of turn, as in \<open>log_dump_loss_reorders\<close>, a buffer can stay in use
  without ever being written, and the loop ends when the count has wrapped.)
\<close>

theorem log_dump_flush_remain_never_ends:
  assumes "dump_is_init d" "log_buffers q T F d" "flash_offs d mod 4096 = 0"
    and "flash_state d = LOG_DUMP_FLASH_STATE_IDLE \<or> flash_state d = LOG_DUMP_FLASH_STATE_ERASED"
  shows "if \<exists>i<2. buf_state (data_buffer_list d i) \<noteq> DATA_BUFFER_STATE_FREE
    then log_dump_flush_remain d = None \<and> log_dump_notify_handler HAL_TRACE_STATE_CRASH_END d = None
    else \<forall>M. holds (dump_api d) M \<longrightarrow> enough (dump_api d) \<longrightarrow> user (dump_api d) 0 \<longrightarrow>
      (\<exists>s. log_dump_notify_handler HAL_TRACE_STATE_CRASH_END d = Some (d\<lparr>dump_api := s, is_immediately := False\<rparr>) \<and>
        holds s M \<and> norflash_api_buffer_is_free NORFLASH_API_MODULE_ID_TRACE_DUMP s = Some True)"
proof (cases "\<exists>i<2. buf_state (data_buffer_list d i) \<noteq> DATA_BUFFER_STATE_FREE")
  case True
  then have "unfree d \<noteq> 0" using unfree_used by (auto simp: used_def)
  moreover have "0 + 2 * rounds d < 4294967296" using unfree_le [of d] by (simp add: rounds_def)
  ultimately have "remain_loop 0 d = None"
    using remain_loop_never_returns [OF log_buffers_oldest [OF assms(2-4)], of 0] by blast
  with assms(1) True show ?thesis by (simp add: log_dump_flush_remain_def log_dump_notify_handler_def)
next
  case False
  then have "unfree d = 0" by (simp add: unfree_def used_def)
  then have r: "remain_loop 0 d = Some d" by (subst remain_loop.simps) (simp add: count_unfree_eq add32_def)
  have "\<exists>s. log_dump_notify_handler HAL_TRACE_STATE_CRASH_END d = Some (d\<lparr>dump_api := s, is_immediately := False\<rparr>) \<and>
      holds s M \<and> norflash_api_buffer_is_free NORFLASH_API_MODULE_ID_TRACE_DUMP s = Some True"
    if h: "holds (dump_api d) M" "enough (dump_api d)" "user (dump_api d) 0" for M
  proof -
    obtain s where s: "flash_api_flush (dump_api d) = Some s" "holds s M" using flash_api_flush_holds [OF h] by blast
    with r assms(1) flash_api_flush_free [OF s(1)] show ?thesis
      by (intro exI [of _ s]) (simp add: log_dump_flush_remain_def log_dump_notify_handler_def)
  qed
  then show ?thesis unfolding if_not_P [OF False] by blast
qed

text \<open>
  While a crash is dumped, the sleep hook writes nothing, but counts the sector as erased and the buffer as written: what
  is in it is lost.
\<close>

lemma immediate_hook_drops:
  assumes "dump_is_init d" "is_immediately d" "flash_state d = LOG_DUMP_FLASH_STATE_ERASED" "f_seqnum d < 2"
    and "buf_state (data_buffer_list d (f_seqnum d)) = DATA_BUFFER_STATE_WRITTEN" "buf_offset (data_buffer_list d (f_seqnum d)) = 4096"
    and "length (buf_bytes (data_buffer_list d (f_seqnum d))) = 8192"
  shows "\<exists>d'. log_dump_flush d = Some (0, d') \<and> dump_api d' = dump_api d \<and>
    buf_state (data_buffer_list d' (f_seqnum d)) = DATA_BUFFER_STATE_FREE"
  using assms
  by (simp add: log_dump_flush_def log_dump_flush_buffers_def flush_write_def data_buff_def flash_api_write.simps Let_def)


theorem log_dump_flush_remain_never_ends_witness:
  "(\<exists>d d'. log_dump_init (demo_log (replicate 270 WIP_0) (\<lambda>_. 255) 4) = Some d \<and> log_dump_output_handler (replicate 1 65 @ [0]) 1 d = Some d' \<and>
     log_dump_notify_handler HAL_TRACE_STATE_CRASH_END d' = None) \<and>
   (\<exists>d d'. log_dump_init (demo_log (replicate 270 WIP_0) (\<lambda>_. 255) 4) = Some d \<and> log_dump_notify_handler HAL_TRACE_STATE_CRASH_END d = Some d')"
proof
  have r: "270 \<le> ready (replicate 270 WIP_0)" by (simp add: ready_replicate)
  obtain d d' where d: "log_dump_init (demo_log (replicate 270 WIP_0) (\<lambda>_. 255) 4) = Some d"
    "log_dump_output_handler (replicate 1 65 @ [0]) 1 d = Some d'" "log_ok 0 0 (replicate 1 65) 0 (\<lambda>_ _. 255) d'"
    using demo_log_output [of 4, OF _ _ r, of 1] by auto
  have i: "dump_is_init d'" "log_buffers 0 (replicate 1 65) 0 d'" "flash_offs d' mod 4096 = 0"
    "flash_state d' = LOG_DUMP_FLASH_STATE_IDLE \<or> flash_state d' = LOG_DUMP_FLASH_STATE_ERASED"
    using d(3) by (simp_all add: log_ok_def log_stored_def Let_def)
  have "filling_buffer 0 (replicate 1 65) 0 (cur_dump_seqnum d') (data_buffer_list d' 0)"
    using log_buffersD(7) [OF i(2) refl] by simp
  then have "\<exists>i<2. buf_state (data_buffer_list d' i) \<noteq> 0" by (intro exI [of _ 0]) (auto simp: filling_buffer_def)
  with log_dump_flush_remain_never_ends [OF i] d(1,2)
  show "\<exists>d d'. log_dump_init (demo_log (replicate 270 WIP_0) (\<lambda>_. 255) 4) = Some d \<and> log_dump_output_handler (replicate 1 65 @ [0]) 1 d = Some d' \<and>
     log_dump_notify_handler HAL_TRACE_STATE_CRASH_END d' = None" by auto
  obtain d where d: "log_dump_init (demo_log (replicate 270 WIP_0) (\<lambda>_. 255) 4) = Some d" "log_ok 0 0 [] 0 (\<lambda>_ _. 255) d" "plenty (dump_api d)"
    using demo_log_init [of 4, OF _ _ r] by auto
  have i: "dump_is_init d" "log_buffers 0 [] 0 d" "flash_offs d mod 4096 = 0"
    "flash_state d = LOG_DUMP_FLASH_STATE_IDLE \<or> flash_state d = LOG_DUMP_FLASH_STATE_ERASED" "holds (dump_api d) (\<lambda>_ _. 255)" "user (dump_api d) 0"
    using d(2) by (simp_all add: log_ok_def log_stored_def log_region_def Let_def)
  have "data_buffer_list d = (\<lambda>_. free_buffer)"
    using d(1) by (auto simp: log_dump_init_def Let_def bind_eq_Some_conv demo_log_def split: if_splits)
  then have "\<not> (\<exists>i<2. buf_state (data_buffer_list d i) \<noteq> 0)" by (simp add: free_buffer_def)
  with log_dump_flush_remain_never_ends [OF i(1-4)] i(5,6) plenty_enough [OF d(3)]
  have "\<exists>d'. log_dump_notify_handler HAL_TRACE_STATE_CRASH_END d = Some d'" by (metis (full_types))
  with d(1) show "\<exists>d d'. log_dump_init (demo_log (replicate 270 WIP_0) (\<lambda>_. 255) 4) = Some d \<and>
      log_dump_notify_handler HAL_TRACE_STATE_CRASH_END d = Some d'" by blast
qed

section \<open>Output while both buffers are full\<close>

text \<open>A free buffer filled by one call.\<close>

lemma output_fills_free:
  assumes "w_seqnum d = k mod 2" "buf_state (data_buffer_list d (k mod 2)) = 0" "length (buf_bytes (data_buffer_list d (k mod 2))) = 8192"
    and "buf_state (data_buffer_list d ((k + 1) mod 2)) = 0 \<or> buf_state (data_buffer_list d ((k + 1) mod 2)) = 2" "4080 \<le> length x"
  shows "\<exists>d' b. output_loop x (w_seqnum d, 0, 4080) d = Some d' \<and> w_seqnum d' = (k + 1) mod 2 \<and> cur_dump_seqnum d' = cur_dump_seqnum d + 1 \<and>
    data_buffer_list d' = (data_buffer_list d)(k mod 2 := b) \<and> buf_state b = 2 \<and> buf_offset b = 4096 \<and> length (buf_bytes b) = 8192 \<and>
    take 4096 (buf_bytes b) = log_header (cur_dump_seqnum d) @ take 4080 x \<and> same_flash d d'"
proof -
  let ?b = "data_buffer_list d (k mod 2)" and ?q = "cur_dump_seqnum d"
  have fb: "filling_buffer ?q [] 0 ?q ?b" using assms(2) by (simp add: filling_buffer_def)
  have u: "(4080 :: nat) = round_len [] 4080" by (simp add: round_len_def)
  obtain b1 b2 where c: "start_sector ?q (open_buffer ?b) = Some (?q + 1, b1)" "part_len b1 4080 = 4080" "sub32 4080 4080 = 0"
    "copy_part x 0 4080 b1 = Some b2" "buf_offset b2 = 4096" "take 4096 (buf_bytes b2) = log_header ?q @ take 4080 x" "length (buf_bytes b2) = 8192"
    using copy_round [OF fb assms(3) _ _ _ u, of 0 x 0] assms(5) by auto
  define b3 where "b3 = b2\<lparr>buf_state := 2\<rparr>"
  define d1 where "d1 = d\<lparr>data_buffer_list := (data_buffer_list d)(k mod 2 := b3), cur_dump_seqnum := ?q + 1\<rparr>"
  have ne: "(k + 1) mod 2 \<noteq> k mod 2" by presburger
  have nb: "buf_state (data_buffer_list (d1\<lparr>w_seqnum := (k + 1) mod 2\<rparr>) ((k + 1) mod 2)) = buf_state (data_buffer_list d ((k + 1) mod 2))"
    using ne by (simp add: d1_def)
  have "turn_buffer 4080 0 d1 = Some (((k + 1) mod 2, 4080, 0), d1\<lparr>w_seqnum := (k + 1) mod 2\<rparr>)"
    by (rule turn_buffer_run [OF _ refl]) (use assms(1,4) nb in \<open>auto simp: d1_def\<close>)
  moreover have "data_buff (k mod 2) d = Some ?b" by (simp add: data_buff_def)
  ultimately have "output_round x (w_seqnum d, 0, 4080) d = Some (((k + 1) mod 2, 4080, 0), d1\<lparr>w_seqnum := (k + 1) mod 2\<rparr>)"
    unfolding output_round_def assms(1) using c by (simp add: d1_def b3_def)
  then have "output_loop x (w_seqnum d, 0, 4080) d = Some (d1\<lparr>w_seqnum := (k + 1) mod 2\<rparr>)" by (subst output_loop.simps) simp
  with c(5-7) show ?thesis
    by (intro exI [of _ "d1\<lparr>w_seqnum := (k + 1) mod 2\<rparr>"] exI [of _ b3]) (simp add: d1_def b3_def same_flash_def)
qed

text \<open>A call while both buffers are full.\<close>

lemma output_drops:
  assumes "log_buffers q T F d" "length T = 4080 * (F + 2)" "0 < n" "n < 2147483648"
  shows "output_loop buf (w_seqnum d, 0, n) d = Some (d\<lparr>w_seqnum := (F + 1) mod 2\<rparr>)"
proof -
  have W: "F + 2 = length T div 4080" by (simp add: assms(2))
  note lb = log_buffersD [OF assms(1) W]
  let ?b = "data_buffer_list d (F mod 2)"
  have w: "w_seqnum d = F mod 2" using lb(3) by simp
  have b: "buf_state ?b = 2" "buf_offset ?b = 4096" "buf_state (data_buffer_list d ((F + 1) mod 2)) = 2"
    using lb(6) [of F] lb(6) [of "F + 1"] by (simp_all add: full_buffer_def)
  have same: "d\<lparr>data_buffer_list := (data_buffer_list d)(F mod 2 := ?b\<lparr>buf_state := 2\<rparr>), cur_dump_seqnum := cur_dump_seqnum d\<rparr> = d"
    using b(1) by (cases ?b) (simp add: fun_upd_idem)
  have "start_sector (cur_dump_seqnum d) (open_buffer ?b) = Some (cur_dump_seqnum d, ?b)" using b by (simp add: start_sector_def open_buffer_def)
  moreover have "part_len ?b n = 0" using assms(3,4) b(2) by (simp add: part_len_def add32_id sub32_def)
  moreover have "turn_buffer 0 (sub32 n 0) d = Some (((F + 1) mod 2, 0, 0), d\<lparr>w_seqnum := (F + 1) mod 2\<rparr>)"
    using b(3) by (simp add: turn_buffer_def w next_buffer_mod data_buff_def)
  moreover have "data_buff (F mod 2) d = Some ?b" by (simp add: data_buff_def)
  ultimately have "output_round buf (w_seqnum d, 0, n) d = Some (((F + 1) mod 2, 0, 0), d\<lparr>w_seqnum := (F + 1) mod 2\<rparr>)"
    unfolding output_round_def w using b(2) same by (simp add: copy_part_def)
  then show ?thesis by (subst output_loop.simps) simp
qed


text \<open>
  What follows without output: calls of the sleep hook, each within its guards, and of the flush of the queue by other modules.
\<close>

definition hook_guard :: "log_dump \<Rightarrow> bool" where
  "hook_guard d \<longleftrightarrow> enough (dump_api d) \<and>
     (flash_state d = LOG_DUMP_FLASH_STATE_IDLE \<longrightarrow> erase_guard (dump_api d) 0 (next_sector d)) \<and>
     (flash_state d = LOG_DUMP_FLASH_STATE_ERASED \<longrightarrow> \<not> sector_writing (dump_api d) 0 (next_sector d))"

inductive log_idles :: "log_dump \<Rightarrow> log_dump \<Rightarrow> bool" where
  idles_refl: "log_idles d d"
| idles_hook: "log_idles d d1 \<Longrightarrow> hook_guard d1 \<Longrightarrow> log_dump_flush d1 = Some (ret, d2) \<Longrightarrow> log_idles d d2"
| idles_queue: "log_idles d d1 \<Longrightarrow> enough (dump_api d1) \<Longrightarrow> norflash_api_flush (dump_api d1) = Some (ret, s) \<Longrightarrow> log_idles d (d1\<lparr>dump_api := s\<rparr>)"

text \<open>None of this reads which buffer is filled next.\<close>

lemma flush_turned:
  "log_dump_flush (d\<lparr>w_seqnum := k\<rparr>) = map_option (map_prod id (\<lambda>d. d\<lparr>w_seqnum := k\<rparr>)) (log_dump_flush d)"
proof -
  have "flush_erase b (d\<lparr>w_seqnum := k\<rparr>) = map_option (map_prod id (\<lambda>d. d\<lparr>w_seqnum := k\<rparr>)) (flush_erase b d)" for b
    by (auto simp: flush_erase_def Let_def split: Option.bind_split)
  moreover have "flush_write st b (d\<lparr>w_seqnum := k\<rparr>) = map_option (map_prod id (\<lambda>d. d\<lparr>w_seqnum := k\<rparr>)) (flush_write st b d)" for st b
    by (auto simp: flush_write_def data_buff_def Let_def split: Option.bind_split)
  ultimately show ?thesis by (simp add: log_dump_flush_def log_dump_flush_buffers_def)
qed

lemma turned_same [simp]:
  "next_sector (d\<lparr>w_seqnum := k\<rparr>) = next_sector d" "log_region (d\<lparr>w_seqnum := k\<rparr>) = log_region d"
  "hook_guard (d\<lparr>w_seqnum := k\<rparr>) = hook_guard d" "log_sectors (d\<lparr>w_seqnum := k\<rparr>) = log_sectors d"
  by (simp_all add: next_sector_def log_region_def hook_guard_def log_sectors_def)

lemma turned_stored: "log_stored q p T F M (d\<lparr>w_seqnum := k\<rparr>) = log_stored q p T F M d"
  unfolding log_stored_def log_sectors_def Let_def by simp

lemma flush_keeps_log:
  assumes "log_ok q p T F M d" "hook_guard d" "log_dump_flush d = Some (ret, d')"
  shows "\<exists>F' M'. log_ok q p T F' M' d'"
proof -
  have g: "enough (dump_api d)" "flash_state d = LOG_DUMP_FLASH_STATE_IDLE \<Longrightarrow> erase_guard (dump_api d) 0 (next_sector d)"
    "flash_state d = LOG_DUMP_FLASH_STATE_ERASED \<Longrightarrow> \<not> sector_writing (dump_api d) 0 (next_sector d)"
    using assms(2) by (simp_all add: hook_guard_def)
  have "flash_state d = LOG_DUMP_FLASH_STATE_IDLE \<or> flash_state d = LOG_DUMP_FLASH_STATE_ERASED" "F \<le> length T div 4080"
    using assms(1) log_buffersD(1) [of q T F d] by (simp_all add: log_ok_def log_stored_def Let_def)
  then consider (idle) "flash_state d = LOG_DUMP_FLASH_STATE_IDLE"
    | (full) "flash_state d = LOG_DUMP_FLASH_STATE_ERASED" "F < length T div 4080"
    | (none) "flash_state d = LOG_DUMP_FLASH_STATE_ERASED" "length T div 4080 = F" by linarith
  then show ?thesis
  proof cases
    case idle
    from flush_idle [OF assms(1) idle g(1) g(2) [OF idle]] assms(3) show ?thesis by auto
  next
    case full
    from flush_erased_write [OF assms(1) full g(1) g(3) [OF full(1)]] assms(3) show ?thesis by auto
  next
    case none
    from flush_erased_wait [OF assms(1) none] assms(1,3) show ?thesis by auto
  qed
qed

lemma queue_keeps_log:
  assumes "log_ok q p T F M d" "enough (dump_api d)" "norflash_api_flush (dump_api d) = Some (ret, s)"
  shows "log_ok q p T F M (d\<lparr>dump_api := s\<rparr>)"
proof -
  have h: "holds (dump_api d) M" "log_region d" using assms(1) by (simp_all add: log_ok_def)
  obtain r s1 where f: "norflash_api_flush (dump_api d) = Some (r, s1)" "holds s1 M" "same_places (dump_api d) s1"
    using flush_holds [OF h(1) assms(2)] by blast
  then have s: "s1 = s" using assms(3) by simp
  note f = f(2,3) [unfolded s]
  have "log_region (d\<lparr>dump_api := s\<rparr>)"
    using h(2) same_places_keep(1,5,6) [OF f(2)] f(2) by (simp add: log_region_def same_places_def)
  moreover have "log_buffers q T F (d\<lparr>dump_api := s\<rparr>) = log_buffers q T F d" "log_stored q p T F M (d\<lparr>dump_api := s\<rparr>) = log_stored q p T F M d"
    unfolding log_buffers_def log_stored_def log_sectors_def Let_def by simp_all
  ultimately show ?thesis using assms(1) f(1) by (simp add: log_ok_def)
qed

lemma idles_keep_log:
  assumes "log_idles d1 d2" "log_ok q p T F M (d1\<lparr>w_seqnum := k\<rparr>)"
  shows "(\<exists>F' M'. log_ok q p T F' M' (d2\<lparr>w_seqnum := k\<rparr>)) \<and> w_seqnum d2 = w_seqnum d1"
  using assms
proof (induction rule: log_idles.induct)
  case (idles_refl d)
  then show ?case by blast
next
  case (idles_hook d d1 ret d2)
  from idles_hook obtain F' M' where ih: "log_ok q p T F' M' (d1\<lparr>w_seqnum := k\<rparr>)" "w_seqnum d1 = w_seqnum d" by blast
  have f: "log_dump_flush (d1\<lparr>w_seqnum := j\<rparr>) = Some (ret, d2\<lparr>w_seqnum := j\<rparr>)" for j
    using idles_hook.hyps(3) by (simp add: flush_turned)
  have "d1\<lparr>w_seqnum := w_seqnum d1\<rparr> = d1" by simp
  with f [of "w_seqnum d1"] idles_hook.hyps(3) have "d2 = d2\<lparr>w_seqnum := w_seqnum d1\<rparr>" by simp
  then have "w_seqnum d2 = w_seqnum (d2\<lparr>w_seqnum := w_seqnum d1\<rparr>)" by (rule arg_cong)
  then have "w_seqnum d2 = w_seqnum d" using ih(2) by simp
  moreover have "\<exists>F' M'. log_ok q p T F' M' (d2\<lparr>w_seqnum := k\<rparr>)"
    by (rule flush_keeps_log [OF ih(1) _ f]) (use idles_hook.hyps(2) in simp)
  ultimately show ?case by blast
next
  case (idles_queue d d1 ret s)
  from idles_queue obtain F' M' where ih: "log_ok q p T F' M' (d1\<lparr>w_seqnum := k\<rparr>)" "w_seqnum d1 = w_seqnum d" by blast
  from queue_keeps_log [OF ih(1)] idles_queue.hyps(2,3) have "log_ok q p T F' M' (d1\<lparr>w_seqnum := k, dump_api := s\<rparr>)" by simp
  moreover have "d1\<lparr>w_seqnum := k, dump_api := s\<rparr> = d1\<lparr>dump_api := s, w_seqnum := k\<rparr>" by simp
  ultimately show ?case using ih(2) by auto
qed

text \<open>
  Out of turn: all that was taken before the loss is stored, and the buffer filled next is not the one written next. Then \<open>x\<close> waits, and \<open>y\<close> is written.
\<close>

lemma turned_writes_newer:
  assumes "log_ok q p T F M (d\<lparr>w_seqnum := W mod 2\<rparr>)" "length T = 4080 * W" "w_seqnum d = (W + 1) mod 2"
    and "\<forall>i<2. buf_state (data_buffer_list d i) = DATA_BUFFER_STATE_FREE"
    and "flash_state d = LOG_DUMP_FLASH_STATE_ERASED" "hook_guard d"
    and "4080 \<le> length x" "4080 \<le> length y" "strstr x LOG_DUMP_PREFIX = Some False" "strstr y LOG_DUMP_PREFIX = Some False"
  shows "\<exists>d3 d4 d5 M5. log_dump_output_handler x 4080 d = Some d3 \<and> log_dump_flush d3 = Some (0, d3) \<and>
    log_dump_output_handler y 4080 d3 = Some d4 \<and> log_dump_flush d4 = Some (0, d5) \<and> holds (dump_api d5) M5 \<and>
    (\<forall>k<4096. M5 0 (next_sector d + k) = (log_header (q + of_nat W + 1) @ take 4080 y) ! k) \<and>
    buf_state (data_buffer_list d5 (w_seqnum d)) = DATA_BUFFER_STATE_WRITTEN \<and>
    take 4096 (buf_bytes (data_buffer_list d5 (w_seqnum d))) = log_header (q + of_nat W) @ take 4080 x"
proof -
  let ?m = "d\<lparr>w_seqnum := W mod 2\<rparr>" and ?S = "next_sector d"
  have WT: "W = length T div 4080" using assms(2) by simp
  have ok: "dump_is_init d" "\<not> is_immediately d" "log_region d" "holds (dump_api d) M" "log_buffers q T F ?m" "log_stored q p T F M d"
    using assms(1) by (simp_all add: log_ok_def turned_stored)
  note lb = log_buffersD [OF ok(5) WT, simplified]
  have FW: "F = W"
  proof (rule ccontr)
    assume "F \<noteq> W"
    then have "full_buffer q T F (data_buffer_list d (F mod 2))" using lb(1,6) by simp
    with assms(4) show False by (simp add: full_buffer_def)
  qed
  have b: "buf_state (data_buffer_list d (k mod 2)) = 0" "length (buf_bytes (data_buffer_list d (k mod 2))) = 8192" for k
    using assms(4) lb(5) [of "k mod 2"] by simp_all
  have "filling_buffer q T W (cur_dump_seqnum d) (data_buffer_list d (W mod 2))" using lb(7) FW by simp
  with b(1) have cur: "cur_dump_seqnum d = q + of_nat W" by (simp add: filling_buffer_def)
  have fW: "f_seqnum d = W mod 2" using lb(4) FW by simp
  have ne: "(W + 1) mod 2 \<noteq> W mod 2" "(W + 1 + 1) mod 2 = W mod 2" by presburger+
  obtain d3 b3 where 3: "output_loop x (w_seqnum d, 0, 4080) d = Some d3" "w_seqnum d3 = W mod 2" "cur_dump_seqnum d3 = cur_dump_seqnum d + 1"
    "data_buffer_list d3 = (data_buffer_list d)((W + 1) mod 2 := b3)" "buf_state b3 = 2"
    "take 4096 (buf_bytes b3) = log_header (cur_dump_seqnum d) @ take 4080 x" "same_flash d d3"
    using output_fills_free [OF assms(3) b(1,2) disjI1 [OF b(1)] assms(7)] unfolding ne(2) by blast
  note e3 = same_flash_eqs [OF 3(7)]
  have b': "buf_state (data_buffer_list d3 (W mod 2)) = 0" "length (buf_bytes (data_buffer_list d3 (W mod 2))) = 8192"
    "buf_state (data_buffer_list d3 ((W + 1) mod 2)) = 2" using ne(1) b 3(5) by (simp_all add: 3(4))
  obtain d4 b4 where 4: "output_loop y (w_seqnum d3, 0, 4080) d3 = Some d4" "data_buffer_list d4 = (data_buffer_list d3)(W mod 2 := b4)"
    "buf_state b4 = 2" "buf_offset b4 = 4096" "length (buf_bytes b4) = 8192"
    "take 4096 (buf_bytes b4) = log_header (cur_dump_seqnum d3) @ take 4080 y" "same_flash d3 d4"
    using output_fills_free [OF 3(2) b'(1,2) disjI2 [OF b'(3)] assms(8)] by blast
  note e = same_flash_eqs [OF same_flash_trans [OF 3(7) 4(7)]]
  have S: "next_sector d4 = ?S" "log_region d4" using ok(3) by (simp_all add: next_sector_def log_region_def e)
  note nx = next_sector_facts [OF ok(3,4,6)]
  have er: "\<forall>x<4096. M 0 (?S + x) = 255"
    using ok(6) assms(5) unfolding log_stored_def Let_def next_sector_def by metis
  have g: "enough (dump_api d)" "\<not> sector_writing (dump_api d) 0 ?S" using assms(5,6) by (simp_all add: hook_guard_def)
  have bW: "data_buffer_list d4 (W mod 2) = b4" "data_buffer_list d4 ((W + 1) mod 2) = b3" using ne(1) by (simp_all add: 4(2) 3(4))
  obtain s5 where f: "log_dump_flush d4 = Some (0, written_log W s5 d4)" "holds s5 (store_write 0 ?S (take 4096 (buf_bytes b4)) M)"
    using flush_full_buffer [of d4 M W, unfolded S(1) bW e, OF ok(1,2) S(2) ok(4) assms(5) nx(1-4,6,7) er fW 4(5,3,4) g] by blast
  have "log_dump_flush d3 = Some (0, d3)"
    using e3 ok(1) assms(5) b'(1) fW by (simp add: log_dump_flush_def log_dump_flush_buffers_def flush_write_def data_buff_def)
  moreover have "log_dump_output_handler x 4080 d = Some d3" "log_dump_output_handler y 4080 d3 = Some d4"
    using 3(1) 4(1) ok(1) assms(9,10) e3(8) by (simp_all add: log_dump_output_handler_def)
  moreover have "store_write 0 ?S (take 4096 (buf_bytes b4)) M 0 (?S + k) = (log_header (q + of_nat W + 1) @ take 4080 y) ! k" if "k < 4096" for k
    using er that assms(8) byte_and_ff unfolding 4(6) 3(3) cur by (simp add: store_write_def)
  moreover have "data_buffer_list (written_log W s5 d4) (w_seqnum d) = b3" using ne(1) bW(2) assms(3) by (simp add: written_log_def)
  moreover have "dump_api (written_log W s5 d4) = s5" by (simp add: written_log_def)
  ultimately show ?thesis using f 3(5,6) cur
    by (intro exI [of _ d3] exI [of _ d4] exI [of _ "written_log W s5 d4"] exI [of _ "store_write 0 ?S (take 4096 (buf_bytes b4)) M"]) simp
qed

text \<open>
  C37. Output that comes while both buffers are full is lost, and disorders the log: the call turns to the other buffer, so that
  writing and filling no longer take turns. When after that, without further output, the sleep hook has written both buffers and erased the next sector
  (\<open>log_idles\<close>), then the next 4080 bytes \<open>x\<close> of output fill the buffer that is not written next: the sleep hook finds nothing to
  write. With 4080 more bytes \<open>y\<close> the hook writes \<open>y\<close>, with the higher number, into the next sector, and \<open>x\<close>, with the lower number, still waits in its buffer.
\<close>

theorem log_dump_loss_reorders:
  assumes "log_ok q p T F M d" "length T = 4080 * (F + 2)" "0 < n" "n < 2147483648" "strstr buf LOG_DUMP_PREFIX = Some False"
  shows "\<exists>d1. log_dump_output_handler buf n d = Some d1 \<and> d1 = d\<lparr>w_seqnum := w_seqnum d1\<rparr> \<and> w_seqnum d1 \<noteq> f_seqnum d1 \<and>
    (\<forall>d2 x y. log_idles d1 d2 \<and> (\<forall>i<2. buf_state (data_buffer_list d2 i) = DATA_BUFFER_STATE_FREE) \<and>
       flash_state d2 = LOG_DUMP_FLASH_STATE_ERASED \<and> hook_guard d2 \<and> 4080 \<le> length x \<and> 4080 \<le> length y \<and>
       strstr x LOG_DUMP_PREFIX = Some False \<and> strstr y LOG_DUMP_PREFIX = Some False \<longrightarrow>
     (\<exists>d3 d4 d5 M5. log_dump_output_handler x 4080 d2 = Some d3 \<and> log_dump_flush d3 = Some (0, d3) \<and>
       log_dump_output_handler y 4080 d3 = Some d4 \<and> log_dump_flush d4 = Some (0, d5) \<and> holds (dump_api d5) M5 \<and>
       (\<forall>k<4096. M5 0 (next_sector d2 + k) = (log_header (q + of_nat (F + 2) + 1) @ take 4080 y) ! k) \<and>
       buf_state (data_buffer_list d5 (w_seqnum d2)) = DATA_BUFFER_STATE_WRITTEN \<and>
       take 4096 (buf_bytes (data_buffer_list d5 (w_seqnum d2))) = log_header (q + of_nat (F + 2)) @ take 4080 x))"
proof -
  have d: "dump_is_init d" "log_buffers q T F d" using assms(1) by (simp_all add: log_ok_def)
  note lb = log_buffersD [OF d(2) refl]
  have w: "w_seqnum d = (F + 2) mod 2" using lb(3) assms(2) by simp
  define d1 where "d1 = d\<lparr>w_seqnum := (F + 2 + 1) mod 2\<rparr>"
  have t: "(F + 1) mod 2 = (F + 2 + 1) mod 2" "(F + 2 + 1) mod 2 \<noteq> F mod 2" by presburger+
  have o: "log_dump_output_handler buf n d = Some d1"
    using output_drops [OF d(2) assms(2-4)] d(1) assms(5) unfolding d1_def t(1) [symmetric] by (simp add: log_dump_output_handler_def)
  have m: "log_ok q p T F M (d1\<lparr>w_seqnum := (F + 2) mod 2\<rparr>)"
    using assms(1) w [symmetric] by (simp add: d1_def)
  have "\<exists>d3 d4 d5 M5. log_dump_output_handler x 4080 d2 = Some d3 \<and> log_dump_flush d3 = Some (0, d3) \<and>
       log_dump_output_handler y 4080 d3 = Some d4 \<and> log_dump_flush d4 = Some (0, d5) \<and> holds (dump_api d5) M5 \<and>
       (\<forall>k<4096. M5 0 (next_sector d2 + k) = (log_header (q + of_nat (F + 2) + 1) @ take 4080 y) ! k) \<and>
       buf_state (data_buffer_list d5 (w_seqnum d2)) = DATA_BUFFER_STATE_WRITTEN \<and>
       take 4096 (buf_bytes (data_buffer_list d5 (w_seqnum d2))) = log_header (q + of_nat (F + 2)) @ take 4080 x"
    if h: "log_idles d1 d2" "\<forall>i<2. buf_state (data_buffer_list d2 i) = DATA_BUFFER_STATE_FREE"
       "flash_state d2 = LOG_DUMP_FLASH_STATE_ERASED" "hook_guard d2" "4080 \<le> length x" "4080 \<le> length y"
       "strstr x LOG_DUMP_PREFIX = Some False" "strstr y LOG_DUMP_PREFIX = Some False" for d2 x y
  proof -
    obtain F' M' where k: "log_ok q p T F' M' (d2\<lparr>w_seqnum := (F + 2) mod 2\<rparr>)" "w_seqnum d2 = w_seqnum d1"
      using idles_keep_log [OF h(1) m] by blast
    have "w_seqnum d2 = (F + 2 + 1) mod 2" using k(2) by (simp add: d1_def)
    from turned_writes_newer [OF k(1) assms(2) this h(2-8)] show ?thesis .
  qed
  moreover have "w_seqnum d1 \<noteq> f_seqnum d1" "d1 = d\<lparr>w_seqnum := w_seqnum d1\<rparr>" using t(2) lb(4) by (simp_all add: d1_def)
  ultimately show ?thesis using o by blast
qed

text \<open>The hook only frees buffers.\<close>

lemma flush_frees:
  assumes "log_dump_flush d = Some (ret, d')"
  shows "buf_state (data_buffer_list d' i) = buf_state (data_buffer_list d i) \<or> buf_state (data_buffer_list d' i) = 0"
proof -
  have "data_buffer_list e' = data_buffer_list e" if "flush_erase b e = Some (r, e')" for b e e' r
    using that by (auto simp: flush_erase_def Let_def bind_eq_Some_conv split: if_splits)
  moreover have "buf_state (data_buffer_list e' i) = buf_state (data_buffer_list e i) \<or> buf_state (data_buffer_list e' i) = 0"
    if "flush_write st b e = Some (r, e')" for st b e e' r
    using that by (auto simp: flush_write_def data_buff_def Let_def bind_eq_Some_conv split: if_splits)
  ultimately show ?thesis
    using assms by (auto simp: log_dump_flush_def log_dump_flush_buffers_def split: if_splits)
qed

lemma idles_frees:
  "log_idles d d' \<Longrightarrow> buf_state (data_buffer_list d' i) = buf_state (data_buffer_list d i) \<or> buf_state (data_buffer_list d' i) = 0"
proof (induction rule: log_idles.induct)
  case (idles_hook d d1 ret d2)
  with flush_frees [OF idles_hook.hyps(3), of i] show ?case by auto
qed simp_all

text \<open>A region of one sector: two full buffers, one byte lost, both buffers stored, the sector erased again.\<close>

lemma idles_turned:
  assumes "log_idles d0 (d\<lparr>w_seqnum := k\<rparr>)" "hook_guard d" "log_dump_flush d = Some (ret, d')"
  shows "log_idles d0 (d'\<lparr>w_seqnum := k\<rparr>)"
  by (rule idles_hook [OF assms(1)]) (use assms(2,3) in \<open>simp_all add: flush_turned\<close>)

lemma one_sector_guard:
  assumes "log_ok q p T F M d" "log_sectors d = 1" "plenty (dump_api d)"
    and "flash_state d = LOG_DUMP_FLASH_STATE_ERASED \<longrightarrow> \<not> sector_writing (dump_api d) 0 (next_sector d)"
  shows "hook_guard d" "erase_guard (dump_api d) 0 S"
proof -
  have d: "log_region d" "holds (dump_api d) M" using assms(1) by (simp_all add: log_ok_def)
  have "flash_len d = 4096" using log_region_facts(1) [OF d, of 0] assms(2) by simp
  then show e: "erase_guard (dump_api d) 0 S" for S using d(1) by (simp add: erase_guard_def log_region_def)
  show "hook_guard d" using plenty_enough [OF assms(3)] assms(4) e by (simp add: hook_guard_def)
qed

lemma one_sector_stored:
  assumes "log_ok q p T F M d" "flash_state d = LOG_DUMP_FLASH_STATE_IDLE" "F < length T div 4080" "plenty (dump_api d)"
    and "pending_ops (dump_api d) < 3" "log_sectors d = 1" "log_idles d0 (d\<lparr>w_seqnum := k\<rparr>)"
  shows "\<exists>d2 M'. log_ok q p T (F + 1) M' d2 \<and> flash_state d2 = LOG_DUMP_FLASH_STATE_IDLE \<and> plenty (dump_api d2) \<and>
    pending_ops (dump_api d2) \<le> pending_ops (dump_api d) + 2 \<and> log_sectors d2 = 1 \<and> flash_start_addr d2 = flash_start_addr d \<and>
    log_idles d0 (d2\<lparr>w_seqnum := k\<rparr>)"
proof -
  note g = one_sector_guard [OF assms(1,6,4)]
  obtain d1 d2 M' where t: "log_dump_flush d = Some (0, d1)" "log_dump_flush d1 = Some (0, d2)" "log_ok q p T (F + 1) M' d2"
    "flash_state d1 = LOG_DUMP_FLASH_STATE_ERASED" "flash_state d2 = LOG_DUMP_FLASH_STATE_IDLE" "plenty (dump_api d1)" "plenty (dump_api d2)"
    "pending_ops (dump_api d2) \<le> pending_ops (dump_api d) + 2" "\<not> sector_writing (dump_api d1) 0 (next_sector d1)"
    "log_ok q p T F (store_erase 0 (next_sector d) M) d1" "same_places (dump_api d) (dump_api d1)" "same_places (dump_api d1) (dump_api d2)"
    using two_calls [OF assms(1-5) g(2)] assms(2) by auto
  have reg: "log_region d" "log_region d1" "log_region d2" using assms(1) t(3,10) by (simp_all add: log_ok_def)
  have k: "log_sectors d1 = 1" "log_sectors d2 = 1" "flash_start_addr d2 = flash_start_addr d"
    using log_sectors_keep [OF reg(1,2) t(11)] log_sectors_keep [OF reg(2,3) t(12)] assms(6) by simp_all
  have "log_idles d0 (d1\<lparr>w_seqnum := k\<rparr>)" by (rule idles_turned [OF assms(7) g(1) t(1)]) (simp add: assms(2))
  then have "log_idles d0 (d2\<lparr>w_seqnum := k\<rparr>)"
    by (rule idles_turned [OF _ one_sector_guard(1) [OF t(10) k(1) t(6)] t(2)]) (simp add: t(9))
  with t k show ?thesis by blast
qed

lemma demo_turned:
  "\<exists>d d1. log_dump_init (demo_log (replicate 270 WIP_0) (\<lambda>_. 255) 1) = Some d \<and>
    log_dump_output_handler (replicate 8160 65 @ [0]) 8160 d = Some d1 \<and> log_ok 0 0 (replicate 8160 65) 0 (\<lambda>_ _. 255) d1 \<and>
    (\<forall>k. \<exists>d3 M. log_ok 0 0 (replicate 8160 65) 2 M d3 \<and> flash_state d3 = LOG_DUMP_FLASH_STATE_ERASED \<and> hook_guard d3 \<and>
      next_sector d3 = 1006698496 \<and> log_idles (d1\<lparr>w_seqnum := k\<rparr>) (d3\<lparr>w_seqnum := k\<rparr>))"
proof -
  have r: "270 \<le> ready (replicate 270 WIP_0)" by (simp add: ready_replicate)
  define T where "T = replicate 8160 (65 :: byte)"
  have W: "0 < length T div 4080" "0 + 1 < length T div 4080" by (simp_all add: T_def)
  obtain d d1 where d: "log_dump_init (demo_log (replicate 270 WIP_0) (\<lambda>_. 255) 1) = Some d"
    "log_dump_output_handler (T @ [0]) 8160 d = Some d1"
    "log_ok 0 0 T 0 (\<lambda>_ _. 255) d1" "flash_state d1 = LOG_DUMP_FLASH_STATE_IDLE" "plenty (dump_api d1)"
    "pending_ops (dump_api d1) = 0" "log_sectors d1 = 1" "flash_start_addr d1 = 1006698496"
    using demo_log_output [of 1, OF _ _ r, of 8160] unfolding T_def by auto
  have p0: "pending_ops (dump_api d1) < 3" by (simp add: d(6))
  have "\<exists>d3 M. log_ok 0 0 T 2 M d3 \<and> flash_state d3 = LOG_DUMP_FLASH_STATE_ERASED \<and> hook_guard d3 \<and>
      next_sector d3 = 1006698496 \<and> log_idles (d1\<lparr>w_seqnum := k\<rparr>) (d3\<lparr>w_seqnum := k\<rparr>)" for k
  proof -
    obtain e1 M1 where 1: "log_ok 0 0 T (0 + 1) M1 e1" "flash_state e1 = LOG_DUMP_FLASH_STATE_IDLE" "plenty (dump_api e1)"
      "pending_ops (dump_api e1) \<le> pending_ops (dump_api d1) + 2" "log_sectors e1 = 1" "flash_start_addr e1 = flash_start_addr d1"
      "log_idles (d1\<lparr>w_seqnum := k\<rparr>) (e1\<lparr>w_seqnum := k\<rparr>)"
      using one_sector_stored [OF d(3,4) W(1) d(5) p0 d(7) idles_refl [of "d1\<lparr>w_seqnum := k\<rparr>"]] by blast
    have "pending_ops (dump_api e1) < 3" using 1(4) d(6) by simp
    from one_sector_stored [OF 1(1,2) W(2) 1(3) this 1(5,7)] obtain e2 M2 where
      2: "log_ok 0 0 T (0 + 1 + 1) M2 e2" "flash_state e2 = LOG_DUMP_FLASH_STATE_IDLE" "plenty (dump_api e2)"
      "pending_ops (dump_api e2) \<le> pending_ops (dump_api e1) + 2" "log_sectors e2 = 1" "flash_start_addr e2 = flash_start_addr e1"
      "log_idles (d1\<lparr>w_seqnum := k\<rparr>) (e2\<lparr>w_seqnum := k\<rparr>)" by blast
    note g = one_sector_guard [OF 2(1,5,3)]
    obtain e3 where 3: "log_dump_flush e2 = Some (0, e3)" "flash_state e3 = LOG_DUMP_FLASH_STATE_ERASED"
      "log_ok 0 0 T (0 + 1 + 1) (store_erase 0 (next_sector e2) M2) e3" "\<not> sector_writing (dump_api e3) 0 (next_sector e3)"
      "same_places (dump_api e2) (dump_api e3)" "pending_ops (dump_api e2) < 15 \<longrightarrow> brief (dump_api e2) (dump_api e3)"
      using flush_idle [OF 2(1,2) plenty_enough [OF 2(3)] g(2)] by (simp add: 2(2)) blast
    have p: "plenty (dump_api e3)" using 3(6) 2(3,4) 1(4) d(6) brief_plenty [of "dump_api e2" "dump_api e3"] by simp
    have k: "log_sectors e3 = 1" "flash_start_addr e3 = 1006698496"
      using log_sectors_keep [OF _ _ 3(5)] 2(1,5,6) 1(6) 3(3) d(8) by (simp_all add: log_ok_def)
    have "flash_offs e3 = 0" using 3(3) k(1) by (simp add: log_ok_def log_stored_def Let_def)
    then have "next_sector e3 = 1006698496" by (simp add: next_sector_def k(2))
    moreover have "log_idles (d1\<lparr>w_seqnum := k\<rparr>) (e3\<lparr>w_seqnum := k\<rparr>)" by (rule idles_turned [OF 2(7) g(1) 3(1)]) (simp add: 2(2))
    moreover have "hook_guard e3" by (rule one_sector_guard(1) [OF 3(3) k(1) p]) (simp add: 3(4))
    moreover have "log_ok 0 0 T 2 (store_erase 0 (next_sector e2) M2) e3" using 3(3) by (simp add: numeral_2_eq_2)
    ultimately show ?thesis using 3(2) by blast
  qed
  with d(1-3) show ?thesis unfolding T_def by blast
qed

theorem log_dump_loss_reorders_witness:
  "\<exists>d d1 d2 d3 d4 d5 d6 M. log_dump_init (demo_log (replicate 270 WIP_0) (\<lambda>_. 255) 1) = Some d \<and>
    log_dump_output_handler (replicate 8160 65 @ [0]) 8160 d = Some d1 \<and> log_dump_output_handler (replicate 1 65 @ [0]) 1 d1 = Some d2 \<and>
    log_idles d2 d3 \<and> log_dump_output_handler (replicate 4080 65 @ [0]) 4080 d3 = Some d4 \<and> log_dump_flush d4 = Some (0, d4) \<and>
    log_dump_output_handler (replicate 4080 65 @ [0]) 4080 d4 = Some d5 \<and> log_dump_flush d5 = Some (0, d6) \<and> holds (dump_api d6) M \<and>
    (\<forall>k<4096. M 0 (1006698496 + k) = (log_header 3 @ replicate 4080 65) ! k) \<and>
    take 4096 (buf_bytes (data_buffer_list d6 (w_seqnum d3))) = log_header 2 @ replicate 4080 65"
proof -
  define T where "T = replicate 8160 (65 :: byte)"
  define x where "x = replicate 4080 65 @ [0 :: byte]"
  have x: "strstr x LOG_DUMP_PREFIX = Some False" "4080 \<le> length x" "take 4080 x = replicate 4080 65" "length T = 4080 * (0 + 2)"
    unfolding x_def by (rule strstr_demo) (simp_all add: T_def)
  have o1: "(0 :: nat) < 1" "(1 :: nat) < 2147483648" by simp_all
  obtain d d1 where d: "log_dump_init (demo_log (replicate 270 WIP_0) (\<lambda>_. 255) 1) = Some d" "log_dump_output_handler (T @ [0]) 8160 d = Some d1"
    "log_ok 0 0 T 0 (\<lambda>_ _. 255) d1"
    "\<And>k. \<exists>d3 M. log_ok 0 0 T 2 M d3 \<and> flash_state d3 = LOG_DUMP_FLASH_STATE_ERASED \<and> hook_guard d3 \<and>
      next_sector d3 = 1006698496 \<and> log_idles (d1\<lparr>w_seqnum := k\<rparr>) (d3\<lparr>w_seqnum := k\<rparr>)"
    using demo_turned unfolding T_def by blast
  obtain d2 where 2: "log_dump_output_handler (replicate 1 65 @ [0]) 1 d1 = Some d2" "d2 = d1\<lparr>w_seqnum := w_seqnum d2\<rparr>"
    "\<forall>d3 x y. log_idles d2 d3 \<and> (\<forall>i<2. buf_state (data_buffer_list d3 i) = DATA_BUFFER_STATE_FREE) \<and>
       flash_state d3 = LOG_DUMP_FLASH_STATE_ERASED \<and> hook_guard d3 \<and> 4080 \<le> length x \<and> 4080 \<le> length y \<and>
       strstr x LOG_DUMP_PREFIX = Some False \<and> strstr y LOG_DUMP_PREFIX = Some False \<longrightarrow>
     (\<exists>d4 d5 d6 M5. log_dump_output_handler x 4080 d3 = Some d4 \<and> log_dump_flush d4 = Some (0, d4) \<and>
       log_dump_output_handler y 4080 d4 = Some d5 \<and> log_dump_flush d5 = Some (0, d6) \<and> holds (dump_api d6) M5 \<and>
       (\<forall>k<4096. M5 0 (next_sector d3 + k) = (log_header (0 + of_nat (0 + 2) + 1) @ take 4080 y) ! k) \<and>
       buf_state (data_buffer_list d6 (w_seqnum d3)) = DATA_BUFFER_STATE_WRITTEN \<and>
       take 4096 (buf_bytes (data_buffer_list d6 (w_seqnum d3))) = log_header (0 + of_nat (0 + 2)) @ take 4080 x)"
    using log_dump_loss_reorders [OF d(3) x(4) o1 strstr_demo [of 1]] by (elim exE conjE)
  obtain e M where e: "log_ok 0 0 T 2 M e" "flash_state e = LOG_DUMP_FLASH_STATE_ERASED" "hook_guard e" "next_sector e = 1006698496"
    "log_idles (d1\<lparr>w_seqnum := w_seqnum d2\<rparr>) (e\<lparr>w_seqnum := w_seqnum d2\<rparr>)" using d(4) by blast
  define d3 where "d3 = e\<lparr>w_seqnum := w_seqnum d2\<rparr>"
  have T2: "2 = length T div 4080" by (simp add: T_def)
  have lb: "log_buffers 0 T 0 d1" "log_buffers 0 T 2 e" using d(3) e(1) by (simp_all add: log_ok_def)
  note l1 = log_buffersD [OF lb(1) T2] and le = log_buffersD [OF lb(2) T2]
  have full: "buf_state (data_buffer_list d1 i) = 2" if "i < 2" for i using l1(6) [of i] that by (simp add: full_buffer_def)
  have "buf_state (data_buffer_list e i) = 2 \<or> buf_state (data_buffer_list e i) = 0" if "i < 2" for i
    using idles_frees [OF e(5), of i] full [OF that] by simp
  moreover have "buf_state (data_buffer_list e 0) \<noteq> 2" using le(7) by (auto simp: filling_buffer_def)
  moreover have "buf_state (data_buffer_list e 1) = 0" using le(8) by simp
  ultimately have free: "\<forall>i<2. buf_state (data_buffer_list d3 i) = DATA_BUFFER_STATE_FREE" by (simp add: d3_def less_2_cases_iff) blast
  have d3: "log_idles d2 d3" "flash_state d3 = LOG_DUMP_FLASH_STATE_ERASED" "hook_guard d3" "next_sector d3 = 1006698496"
    using e(2-5) by (simp_all add: d3_def 2(2) [symmetric])
  obtain d4 d5 d6 M6 where 6: "log_dump_output_handler x 4080 d3 = Some d4" "log_dump_flush d4 = Some (0, d4)"
    "log_dump_output_handler x 4080 d4 = Some d5" "log_dump_flush d5 = Some (0, d6)" "holds (dump_api d6) M6"
    "\<forall>k<4096. M6 0 (next_sector d3 + k) = (log_header (0 + of_nat (0 + 2) + 1) @ take 4080 x) ! k"
    "take 4096 (buf_bytes (data_buffer_list d6 (w_seqnum d3))) = log_header (0 + of_nat (0 + 2)) @ take 4080 x"
    using 2(3) free d3(1-3) x(1,2) by blast
  have "M6 0 (1006698496 + k) = (log_header 3 @ replicate 4080 65) ! k" if "k < 4096" for k
    using 6(6) that unfolding d3(4) x(3) by simp
  moreover have "take 4096 (buf_bytes (data_buffer_list d6 (w_seqnum d3))) = log_header 2 @ replicate 4080 65" using 6(7) unfolding x(3) by simp
  ultimately show ?thesis using d(1,2) 2(1) d3(1) 6(1-5) unfolding T_def x_def by blast
qed

end
