(* ===== verification/Spec2Isabelle.thy ===== *)
theory Spec2Isabelle
  imports Prelude ByteFifo CQueue KFifo HwTimer SysFreq Sleep Key KeyEvents KeyMachine Transq Tlv Crc NvStore BleRecord NvDev ListExt NvConfig NvTree DdbRec DdbSpec NorFlash FlashApi FlashSpec FlashOps FlashFlush FlashRun FlashHistory FlashContract FlashUser FlashLimits LogDump LogFlash LogSpec LogStart LogContract LogLimits
begin

text \<open>
  Verification library for the audio SDK of the BES2300 (\<open>src/\<close>): firmware in C for a wireless
  audio chip. The library models the parts that carry state of their own and on which the rest
  is built: queues, timers, clock and sleep management, key recognition, message passing
  between processors, the item trees of the interconnection protocol, checksums, and the
  records kept in flash.

  Theories, the code they model, and how they correspond.

  \<^item> \<open>Prelude\<close>: 32-bit arithmetic on \<open>nat\<close> and \<open>int\<close> with the wrap-around written out, checked
    buffers (\<open>memcpy\<close>, \<open>mem_get\<close>, \<open>mem_set\<close>), ring contents, little-endian words in byte buffers.
  \<^item> \<open>ByteFifo\<close>: locales for a bounded byte stream: what put and get must satisfy (\<open>byte_fifo\<close>), and, from that, that
    no run of calls loses, invents or reorders a byte; where refusals are all or nothing (\<open>exact_fifo\<close>), that a run is
    that of a bounded list. Interpreted on both queues below.
  \<^item> \<open>CQueue\<close> (\<open>utils/cqueue/cqueue.c\<close>): every operation of the circular queue on the record of
    the struct; each refines an operation on the list of its contents. A run may take bytes out by \<open>DeCQueue\<close> into a buffer or by \<open>PullCQueue\<close>.
  \<^item> \<open>KFifo\<close> (\<open>utils/kfifo/kfifo.c\<close>): the queue with free running counters, at 32 bits.
  \<^item> \<open>HwTimer\<close> (\<open>utils/hwtimer_list/hwtimer_list.c\<close> over the one-shot timer of
    \<open>platform/hal/hal_timer.c\<close>): ten timers in a delta list over one hardware counter. The
    abstraction is the list of deadlines; starting, stopping and the interrupt act on it as on a
    sorted list, and every run of calls, callbacks included, keeps the lists well formed. The
    locale \<open>timer_callbacks\<close> states what a callback may do, and \<open>keeping_callbacks\<close> what one may do that leaves the fired
    timers alone; they are interpreted on arbitrary scripts of calls, and on those that do not stop timers.
  \<^item> \<open>SysFreq\<close> (\<open>platform/hal/hal_sysfreq.c\<close>): the highest request decides the clock, and the
    supply is raised before and lowered after the clock.
  \<^item> \<open>Sleep\<close> (\<open>platform/hal/hal_sleep.c\<close>), which asks \<open>SysFreq\<close>: the exact condition for power-down,
    the wake locks as a set of holders, the order in which modules go to sleep and wake, the
    statistics.
  \<^item> \<open>Key\<close>, \<open>KeyEvents\<close>, \<open>KeyMachine\<close> (\<open>platform/hal/hal_key.c\<close>): the debouncing of three key sources,
    the event recogniser, and both under arbitrary interleavings of interrupts and timer ticks
    as a step relation with an invariant. The invariant keeps GPIO keys and the power key from going deaf;
    an ADC key can (\<open>adckey_late_conversion\<close>).
  \<^item> \<open>Transq\<close> (\<open>platform/hal/hal_transq.c\<close>): the slots of two message queues in one set of
    registers; sending, completion and receiving as operations on lists of messages. The
    locale \<open>transq_client\<close> states what a handler may do in the interrupt; it is interpreted on
    handlers that reply.
  \<^item> \<open>Tlv\<close> (\<open>services/interconnection/app_interconnection_tlv.c\<close>): item trees on a heap of linked
    cells; the encoder and both decoders, related to trees as a datatype.
  \<^item> \<open>Crc\<close> (\<open>utils/crc32/crc32.c\<close>, \<open>utils/crc16/crc16.c\<close>): the table-driven checksums against the
    bitwise division.
  \<^item> \<open>NvStore\<close> (\<open>services/nvrecord/nvrecord.c\<close>, user data): pool, header, flush and restart over a
    flash whose bits can only be cleared; everything that can happen to it as a step relation.
  \<^item> \<open>BleRecord\<close> (\<open>services/nvrecord/nvrecord_ble.c\<close>), on \<open>NvStore\<close>: the table of bonded devices.
  \<^item> \<open>NvDev\<close> (\<open>services/nvrecord/nvrecord.c\<close>, factory data, and \<open>utils/heap/pool_api.c\<close>).
  \<^item> \<open>ListExt\<close> (\<open>services/nvrecord/list_ext.c\<close>): linked lists whose memory comes from a pool
    or the heap, on a memory of allocated objects that is generic in the data hung into a list. Each
    operation is related to the list of the pointers stored.
  \<^item> \<open>NvConfig\<close>, \<open>NvTree\<close> (\<open>services/nvrecord/nvrec_config.c\<close>): the configuration, a list of named
    sections with lists of keys and values. \<open>NvConfig\<close> has the operations, \<open>NvTree\<close> the predicate
    \<open>cfg_ok\<close> that the memory holds a tree with given contents, what every operation does to the
    contents, and that freeing releases every block once.
  \<^item> \<open>DdbRec\<close>, \<open>DdbSpec\<close> (\<open>nv_record_ddbrec_*\<close> in \<open>services/nvrecord/nvrecord.c\<close>): the paired
    classic devices, kept in one section of the configuration, on \<open>NvConfig\<close> and \<open>NvStore\<close>. \<open>DdbRec\<close>
    has the operations, \<open>DdbSpec\<close> their refinement of operations on the list of devices.
  \<^item> \<open>NorFlash\<close> (\<open>platform/hal/hal_norflash.c\<close>, \<open>platform/drivers/norflash/norflash_drv.c\<close>): erasing and
    programming the chip in pieces, suspending and resuming. The readings of the status register are
    the environment: a list of \<open>polls\<close>, each busy, interrupted or done.
  \<^item> \<open>FlashApi\<close> (\<open>services/norflash_api/norflash_api.cpp\<close>, configuration
    \<open>FLASH_API_HIGHPERFORMANCE\<close> with \<open>FLASH_SUSPEND\<close>): the queue of erases and writes that several
    modules share, its 15 nodes and 4 buffers, every call of the interface and the flush.
  \<^item> \<open>FlashSpec\<close>, \<open>FlashOps\<close>, \<open>FlashFlush\<close>, \<open>FlashRun\<close>, \<open>FlashHistory\<close>: that the queue is a
    memory. \<open>FlashSpec\<close> has the lists behind the pointers, what a module sees of its sectors and the
    invariant \<open>api_rep\<close>; \<open>FlashOps\<close> the queueing of an erase or a write; \<open>FlashFlush\<close> the flush, whole or
    interrupted; \<open>FlashRun\<close> every call of the interface against \<open>holds s M\<close>, "the modules see
    \<open>M\<close>"; \<open>FlashHistory\<close> the runs of calls and the locales \<open>simulated\<close> (an implementation follows
    an abstract machine) and \<open>stored_memory\<close> (whatever is left is carried out in the end), which are
    interpreted on the queue.
  \<^item> \<open>FlashContract\<close>: the promises of the calls as theorems, with a concrete state at which they are
    applied. \<open>FlashLimits\<close>: the calls that the guards of those theorems exclude, and what the code does
    there.
  \<^item> \<open>FlashUser\<close>: the sleep hook of \<open>services/nvrecord/nvrecord.c\<close> on the queue itself, where
    \<open>NvStore\<close> takes the answers of the queue as an argument.
  \<^item> \<open>LogDump\<close> (\<open>services/nv_section/log_section/log_section.c\<close>, its active half): the trace log in flash, a
    client of the queue: two buffers of one sector, the sleep hook that stores them, the start, the
    crash handlers.
  \<^item> \<open>LogFlash\<close>, \<open>LogSpec\<close>, \<open>LogStart\<close>, \<open>LogContract\<close>, \<open>LogLimits\<close>: \<open>LogFlash\<close> shows that the retrying calls of the log
    return; \<open>LogSpec\<close> has the relation \<open>log_ok\<close> between the state, all bytes traced and the number of
    sectors stored, and that output and the sleep hook keep it; \<open>LogStart\<close> that a start finds the newest
    sector, from a property of the headers (\<open>log_next\<close>) that every erase and write of the hook keeps, so that it
    serves any number of restarts; \<open>LogContract\<close> has the promises as theorems; \<open>LogLimits\<close> what happens where they end:
    the end of a crash dump, and output while both buffers are full.

  Conventions. A C struct is a record with the fields of the struct, file-level variables are
  fields of the component's record, return codes are datatypes or the numbers of the code. A
  result \<open>None\<close> is a failing \<open>ASSERT\<close>, a pointer that is followed although it is null, an access
  outside its object, or a loop that never ends; a theorem that an operation returns \<open>Some\<close>
  therefore includes that none of this happens. Loops are structural or measured recursion
  where they end by themselves, and \<open>partial_function (option)\<close> where they walk linked lists or wait.
  Callbacks, names, random bytes and the answers of hardware and of lower layers are arguments.
  Interrupt locks are not modelled: an operation between lock and unlock is one step.

  Bounds. Times and counters of 32 bits are \<open>nat\<close> with \<open>add32\<close> and \<open>sub32\<close>; theorems about times
  state the range in which they hold. No fuel is used. The retry loops of \<open>NvStore\<close> take the list of
  answers the flash gives; running out of answers is waiting without end, and the round trip
  holds for every number of refusals. The loops of \<open>NorFlash\<close> and \<open>FlashApi\<close> take the readings of the
  chip in the same way; \<open>due\<close> bounds the done readings that all pending work takes, 18 for each
  operation (an erase takes one or two, a write of 4096 bytes 16 pages and at most one more at each
  end), and the theorems that waiting calls return ask for no more than that (\<open>enough\<close>), with any
  number of busy readings and interruptions among them. The allocator of \<open>ListExt\<close> and above is any
  function that returns a free block while fewer than \<open>k\<close> are in use (\<open>has_room\<close>); 63 blocks beside what
  is there before are enough for every run of pairings and deletions.

  Behaviour of the code that the theorems show and that is probably not meant: peeking in
  \<open>kfifo\<close> moves nothing and copies nothing, \<open>EnCQueue_AI\<close> can overrun, the completion status of an
  idle queue and the update of slot numbers in \<open>Transq\<close> use slot 32, nested items of \<open>Tlv\<close> get wrong
  lengths, deleting a bond keeps an older key of the same address, and the length check of the
  factory sector wraps. In the flash queue, an erase that takes out two neighbours leaves a freed
  node linked, so that the list can become a cycle; a second write to a sector whose first write is
  under way shows stale bytes; a queued write over the end of its sector overruns its buffer; free
  buffers are counted against the nodes; and after an interrupted erase of the last sector the chip
  stays suspended for ever. In the trace log, whose buffers are filled in turn, the end of a crash dump is never
  reached while a buffer is in use, and output that finds both buffers full makes later sectors be
  stored in the wrong order. Three words of the header of the user data sector are outside its checksum, and an ADC key
  whose conversion comes too late is not sampled again.

  Not modelled, and why.

  \<^item> Register-level drivers (DMA, I2C, SPI, I2S, UART, USB, SD, codec, RF), the identification, line
    modes, timing, calibration, security registers and remapping of the flash, the supply settings
    around its commands, and the streams of \<open>audioflinger.c\<close>: sequences of register accesses whose effect
    the hardware defines and no code here states.
  \<^item> Tracing: formatted output that no other part depends on.
  \<^item> Vendored code (RTX, CMSIS, the allocator \<open>multi_heap.c\<close>, Opus, protobuf, BLE profiles), the C++
    applications, and code over binary libraries whose source is not here.
  \<^item> What the callbacks of the flash queue do: that they are called, and with what, is recorded in
    the state.
\<close>

end
